(* ===== verification/Queue_Interface.thy ===== *)
theory Queue_Interface
  imports Ulp_Prelude
begin

text \<open>
  The contract between the intrusive queues (\<open>ulp/src/list.c\<close>, \<open>cm/src/queue.c\<close>) and
  the code that uses them to hand objects from one thread to the next: what pushing and
  popping promise about the sequence of queued nodes, and what follows for a client that
  pushes a batch and for one that pops until it sees a null pointer.
\<close>

section \<open>The loops of the clients\<close>

text \<open>A producer that pushes the nodes of a batch one after the other.\<close>

fun push_all :: "('l \<Rightarrow> 'h \<Rightarrow> ptr \<Rightarrow> ('l \<times> 'h) option) \<Rightarrow> 'l \<Rightarrow> 'h \<Rightarrow> ptr list \<Rightarrow> ('l \<times> 'h) option" where
  "push_all push l h [] = Some (l, h)"
| "push_all push l h (p # ps) = do { (l', h') \<leftarrow> push l h p; push_all push l' h' ps }"

text \<open>
  A consumer that pops until the queue answers the null pointer, at most \<open>n\<close> times.
\<close>

fun drain :: "('l \<Rightarrow> 'h \<Rightarrow> (ptr \<times> 'l \<times> 'h) option) \<Rightarrow> nat \<Rightarrow> 'l \<Rightarrow> 'h \<Rightarrow> (ptr list \<times> 'l \<times> 'h) option" where
  "drain pop 0 l h = None"
| "drain pop (Suc n) l h = do {
     (p, l', h') \<leftarrow> pop l h;
     if p = NULL then Some ([], l', h')
     else do { (ps, l2, h2) \<leftarrow> drain pop n l' h'; Some (p # ps, l2, h2) } }"

section \<open>The contract\<close>

locale node_fifo =
  fixes rep :: "'h \<Rightarrow> 'l \<Rightarrow> ptr list \<Rightarrow> bool"
    and nodes :: "'h \<Rightarrow> ptr set"
    and push :: "'l \<Rightarrow> 'h \<Rightarrow> ptr \<Rightarrow> ('l \<times> 'h) option"
    and pop :: "'l \<Rightarrow> 'h \<Rightarrow> (ptr \<times> 'l \<times> 'h) option"
  assumes rep_NULL: "rep h l xs \<Longrightarrow> NULL \<notin> set xs"
    and push_law: "rep h l xs \<Longrightarrow> p \<in> nodes h \<Longrightarrow> p \<notin> set xs \<Longrightarrow> p \<noteq> NULL \<Longrightarrow>
      length xs + 1 < 2 ^ 32 \<Longrightarrow>
      \<exists>l' h'. push l h p = Some (l', h') \<and> rep h' l' (xs @ [p]) \<and> nodes h' = nodes h"
    and pop_Nil_law: "rep h l [] \<Longrightarrow> pop l h = Some (NULL, l, h)"
    and pop_Cons_law: "rep h l (x # xs) \<Longrightarrow>
      \<exists>l' h'. pop l h = Some (x, l', h') \<and> rep h' l' xs \<and> nodes h' = nodes h"
begin

lemma push_all_rep:
  assumes "rep h l xs" "set ps \<subseteq> nodes h" "distinct (xs @ ps)" "NULL \<notin> set ps"
    "length xs + length ps < 2 ^ 32"
  shows "\<exists>l' h'. push_all push l h ps = Some (l', h') \<and> rep h' l' (xs @ ps) \<and> nodes h' = nodes h"
  using assms
proof (induction ps arbitrary: xs l h)
  case Nil
  then show ?case by simp
next
  case (Cons p ps)
  have "p \<in> nodes h" "p \<notin> set xs" "p \<noteq> NULL" "length xs + 1 < 2 ^ 32"
    using Cons.prems by auto
  then obtain l1 h1 where 1: "push l h p = Some (l1, h1)" "rep h1 l1 (xs @ [p])" "nodes h1 = nodes h"
    using push_law [OF Cons.prems(1)] by blast
  have "\<exists>l' h'. push_all push l1 h1 ps = Some (l', h') \<and> rep h' l' ((xs @ [p]) @ ps) \<and> nodes h' = nodes h1"
    using Cons.prems 1 by (intro Cons.IH) auto
  with 1 show ?case by auto
qed

lemma drain_rep:
  assumes "rep h l xs" "length xs < n"
  shows "\<exists>l' h'. drain pop n l h = Some (xs, l', h') \<and> rep h' l' [] \<and> nodes h' = nodes h"
  using assms
proof (induction xs arbitrary: l h n)
  case Nil
  then show ?case by (cases n) (auto simp: pop_Nil_law)
next
  case (Cons x xs)
  obtain m where n: "n = Suc m" using Cons.prems by (cases n) auto
  obtain l1 h1 where 1: "pop l h = Some (x, l1, h1)" "rep h1 l1 xs" "nodes h1 = nodes h"
    using pop_Cons_law [OF Cons.prems(1)] by blast
  moreover have "x \<noteq> NULL" using rep_NULL [OF Cons.prems(1)] by auto
  ultimately show ?case using Cons.IH [OF 1(2), of m] Cons.prems n by auto
qed

text \<open>First in, first out: what a producer pushed onto a queue is what its consumer gets.\<close>

lemma fifo:
  assumes "rep h l xs" "set ps \<subseteq> nodes h" "distinct (xs @ ps)" "NULL \<notin> set ps"
    "length xs + length ps < 2 ^ 32" "length xs + length ps < n"
  shows "\<exists>l1 h1 l' h'. push_all push l h ps = Some (l1, h1) \<and>
    drain pop n l1 h1 = Some (xs @ ps, l', h') \<and> rep h' l' []"
  using push_all_rep [OF assms(1-5)] drain_rep [where xs = "xs @ ps" and n = n] assms(6) by fastforce

end

end
