(* ===== verification/Node_List.thy ===== *)
theory Node_List
  imports Queue_Interface
begin

text \<open>
  The intrusive doubly linked list of \<open>ulp/src/list.c\<close>, at the level of its pointers:
  a heap of nodes, the list header with its counter and its lock, and every operation as
  a state transformer in which \<open>None\<close> is a null or dangling dereference (or waiting for
  a lock that the same thread already holds).  The abstraction \<open>dlist\<close> relates a header
  and a heap to the sequence of linked nodes; every operation is shown to refine the
  corresponding operation on sequences.
\<close>

section \<open>Nodes, heap, header\<close>

record ListNode =
  n_next :: ptr
  n_prev :: ptr

type_synonym nheap = "ptr \<Rightarrow> ListNode option"

text \<open>\<open>struct _List_\<close>; \<open>l_locked\<close> is the state of its semaphore.\<close>

record List_hdr =
  l_next :: ptr
  l_prev :: ptr
  l_count :: u32
  l_locked :: bool
  l_mtFlag :: u8

definition set_next :: "nheap \<Rightarrow> ptr \<Rightarrow> ptr \<Rightarrow> nheap option" where
  "set_next h p v = (case h p of None \<Rightarrow> None | Some n \<Rightarrow> Some (h(p \<mapsto> n\<lparr>n_next := v\<rparr>)))"

definition set_prev :: "nheap \<Rightarrow> ptr \<Rightarrow> ptr \<Rightarrow> nheap option" where
  "set_prev h p v = (case h p of None \<Rightarrow> None | Some n \<Rightarrow> Some (h(p \<mapsto> n\<lparr>n_prev := v\<rparr>)))"

text \<open>\<open>SemWait\<close> and \<open>SemPost\<close> on the lock of a list.\<close>

definition list_lock :: "List_hdr \<Rightarrow> List_hdr option" where
  "list_lock l = (if l_locked l then None else Some (l\<lparr>l_locked := True\<rparr>))"

definition list_unlock :: "List_hdr \<Rightarrow> List_hdr" where
  "list_unlock l = l\<lparr>l_locked := False\<rparr>"

section \<open>The internal operations\<close>

definition PushTail :: "List_hdr \<Rightarrow> nheap \<Rightarrow> ptr \<Rightarrow> (List_hdr \<times> nheap) option" where
  "PushTail l h p =
     (if l_next l = NULL \<or> l_count l = 0 \<or> l_prev l = NULL then do {
        h1 \<leftarrow> set_next h p NULL;
        h2 \<leftarrow> set_prev h1 p NULL;
        Some (l\<lparr>l_next := p, l_prev := p, l_count := 1\<rparr>, h2)
      } else do {
        h1 \<leftarrow> set_next h p NULL;
        h2 \<leftarrow> set_prev h1 p (l_prev l);
        h3 \<leftarrow> set_next h2 (l_prev l) p;
        Some (l\<lparr>l_prev := p, l_count := l_count l + 1\<rparr>, h3)
      })"

definition PushHead :: "List_hdr \<Rightarrow> nheap \<Rightarrow> ptr \<Rightarrow> (List_hdr \<times> nheap) option" where
  "PushHead l h p =
     (if l_next l = NULL \<or> l_count l = 0 \<or> l_prev l = NULL then do {
        h1 \<leftarrow> set_next h p NULL;
        h2 \<leftarrow> set_prev h1 p NULL;
        Some (l\<lparr>l_next := p, l_prev := p, l_count := 1\<rparr>, h2)
      } else do {
        h1 \<leftarrow> set_prev h p NULL;
        h2 \<leftarrow> set_next h1 p (l_next l);
        h3 \<leftarrow> set_prev h2 (l_next l) p;
        Some (l\<lparr>l_next := p, l_count := l_count l + 1\<rparr>, h3)
      })"

text \<open>
  \<open>DeleteNode\<close> returns 0 when the node was unlinked and 1 when the links around it were
  found inconsistent, in which case only an empty list's header is touched.
\<close>

definition DeleteNode :: "List_hdr \<Rightarrow> nheap \<Rightarrow> ptr \<Rightarrow> (u32 \<times> List_hdr \<times> nheap) option" where
  "DeleteNode l h p =
     (if l_count l = 0 then Some (1, l\<lparr>l_next := NULL, l_prev := NULL\<rparr>, h)
      else if l_count l = 1 then do {
        n \<leftarrow> h p;
        if n_prev n \<noteq> NULL \<or> n_next n \<noteq> NULL \<or> l_prev l \<noteq> p \<or> l_next l \<noteq> p
        then Some (1, l, h)
        else do {
          h1 \<leftarrow> set_prev h p NULL;
          h2 \<leftarrow> set_next h1 p NULL;
          Some (0, l\<lparr>l_next := NULL, l_prev := NULL, l_count := 0\<rparr>, h2)
        }
      } else do {
        n \<leftarrow> h p;
        if n_next n = NULL \<and> n_prev n \<noteq> NULL then
          (if l_prev l \<noteq> p then Some (1, l, h)
           else do {
             h1 \<leftarrow> set_next h (n_prev n) NULL;
             h2 \<leftarrow> set_prev h1 p NULL;
             h3 \<leftarrow> set_next h2 p NULL;
             Some (0, l\<lparr>l_prev := n_prev n, l_count := l_count l - 1\<rparr>, h3)
           })
        else if n_next n \<noteq> NULL \<and> n_prev n = NULL then
          (if l_next l \<noteq> p then Some (1, l, h)
           else do {
             h1 \<leftarrow> set_prev h (n_next n) NULL;
             h2 \<leftarrow> set_prev h1 p NULL;
             h3 \<leftarrow> set_next h2 p NULL;
             Some (0, l\<lparr>l_next := n_next n, l_count := l_count l - 1\<rparr>, h3)
           })
        else if n_next n \<noteq> NULL \<and> n_prev n \<noteq> NULL then do {
          nn \<leftarrow> h (n_next n);
          np \<leftarrow> (if n_prev nn \<noteq> p then Some n else h (n_prev n));
          if n_prev nn \<noteq> p \<or> n_next np \<noteq> p then Some (1, l, h)
          else do {
            h1 \<leftarrow> set_prev h (n_next n) (n_prev n);
            h2 \<leftarrow> set_next h1 (n_prev n) (n_next n);
            h3 \<leftarrow> set_prev h2 p NULL;
            h4 \<leftarrow> set_next h3 p NULL;
            Some (0, l\<lparr>l_count := l_count l - 1\<rparr>, h4)
          }
        }
        else Some (1, l, h)
      })"

definition PopHead :: "List_hdr \<Rightarrow> nheap \<Rightarrow> (ptr \<times> List_hdr \<times> nheap) option" where
  "PopHead l h =
     (let p = l_next l in
      if p \<noteq> NULL then do {
        (r, l', h') \<leftarrow> DeleteNode l h p;
        Some (p, l', h')
      } else Some (p, l, h))"

section \<open>The exported operations\<close>

definition ListInit :: "List_hdr \<Rightarrow> u8 \<Rightarrow> List_hdr" where
  "ListInit l mt =
     (let l1 = l\<lparr>l_count := 0, l_next := NULL, l_prev := NULL, l_mtFlag := mt\<rparr>
      in if mt \<noteq> 0 then l1\<lparr>l_locked := False\<rparr> else l1)"

definition ListDeInit :: "List_hdr \<Rightarrow> List_hdr" where
  "ListDeInit l = ListInit l 0"

definition ListCount :: "List_hdr \<Rightarrow> u32" where
  "ListCount l = l_count l"

definition ListGetFirstNode :: "List_hdr \<Rightarrow> ptr" where
  "ListGetFirstNode l = l_next l"

definition ListGetNextNode :: "nheap \<Rightarrow> ptr \<Rightarrow> ptr option" where
  "ListGetNextNode h p = (if p \<noteq> NULL then map_option n_next (h p) else Some NULL)"

definition ListInsertNodeToTail :: "List_hdr \<Rightarrow> nheap \<Rightarrow> ptr \<Rightarrow> (List_hdr \<times> nheap) option" where
  "ListInsertNodeToTail l h p =
     (if p \<noteq> NULL then
        (if l_mtFlag l \<noteq> 0 then do {
           l1 \<leftarrow> list_lock l;
           (l2, h2) \<leftarrow> PushTail l1 h p;
           Some (list_unlock l2, h2)
         } else PushTail l h p)
      else Some (l, h))"

definition ListInsertNodeToHead :: "List_hdr \<Rightarrow> nheap \<Rightarrow> ptr \<Rightarrow> (List_hdr \<times> nheap) option" where
  "ListInsertNodeToHead l h p =
     (if p \<noteq> NULL then
        (if l_mtFlag l \<noteq> 0 then do {
           l1 \<leftarrow> list_lock l;
           (l2, h2) \<leftarrow> PushHead l1 h p;
           Some (list_unlock l2, h2)
         } else PushHead l h p)
      else Some (l, h))"

definition ListPushNode :: "List_hdr \<Rightarrow> nheap \<Rightarrow> ptr \<Rightarrow> (List_hdr \<times> nheap) option" where
  "ListPushNode l h p = ListInsertNodeToTail l h p"

definition ListPushNodeHead :: "List_hdr \<Rightarrow> nheap \<Rightarrow> ptr \<Rightarrow> (List_hdr \<times> nheap) option" where
  "ListPushNodeHead l h p = ListInsertNodeToHead l h p"

definition ListPopNode :: "List_hdr \<Rightarrow> nheap \<Rightarrow> (ptr \<times> List_hdr \<times> nheap) option" where
  "ListPopNode l h =
     (if l_mtFlag l \<noteq> 0 then do {
        l1 \<leftarrow> list_lock l;
        (p, l2, h2) \<leftarrow> PopHead l1 h;
        Some (p, list_unlock l2, h2)
      } else PopHead l h)"

text \<open>
  The search loop of \<open>ListDeleteNode\<close>: at most \<open>count\<close> steps from the first node.
\<close>

fun delete_search :: "nat \<Rightarrow> nheap \<Rightarrow> ptr \<Rightarrow> ptr \<Rightarrow> bool option" where
  "delete_search 0 h tmp p = Some False"
| "delete_search (Suc n) h tmp p =
     (if tmp = p then Some True
      else (case h tmp of None \<Rightarrow> None | Some m \<Rightarrow> delete_search n h (n_next m) p))"

definition ListDeleteNode :: "List_hdr \<Rightarrow> nheap \<Rightarrow> ptr \<Rightarrow> (List_hdr \<times> nheap) option" where
  "ListDeleteNode l h p =
     (if p \<noteq> NULL \<and> l_count l > 0 then do {
        l1 \<leftarrow> (if l_mtFlag l \<noteq> 0 then list_lock l else Some l);
        found \<leftarrow> delete_search (unat (l_count l1)) h (l_next l1) p;
        (l2, h2) \<leftarrow> (if found then map_option snd (DeleteNode l1 h p) else Some (l1, h));
        Some (if l_mtFlag l2 \<noteq> 0 then list_unlock l2 else l2, h2)
      } else Some (l, h))"

section \<open>The representation of a sequence\<close>

text \<open>
  \<open>dseg h pv xs nx\<close>: the nodes \<open>xs\<close> are linked in this order, the first one has the
  predecessor \<open>pv\<close>, the last one the successor \<open>nx\<close>.
\<close>

fun dseg :: "nheap \<Rightarrow> ptr \<Rightarrow> ptr list \<Rightarrow> ptr \<Rightarrow> bool" where
  "dseg h pv [] nx \<longleftrightarrow> True"
| "dseg h pv (x # xs) nx \<longleftrightarrow>
     h x = Some \<lparr>n_next = hd_or nx xs, n_prev = pv\<rparr> \<and> dseg h x xs nx"

definition dlist :: "nheap \<Rightarrow> List_hdr \<Rightarrow> ptr list \<Rightarrow> bool" where
  "dlist h l xs \<longleftrightarrow>
     dseg h NULL xs NULL \<and> distinct xs \<and> NULL \<notin> set xs \<and> length xs < 2 ^ 32 \<and>
     l_next l = hd_or NULL xs \<and> l_prev l = last_or NULL xs \<and> l_count l = of_nat (length xs)"

text \<open>Nothing but the nodes in \<open>S\<close> is written, and no node appears or disappears.\<close>

definition touches :: "ptr set \<Rightarrow> nheap \<Rightarrow> nheap \<Rightarrow> bool" where
  "touches S h h' \<longleftrightarrow> dom h' = dom h \<and> (\<forall>q. q \<notin> S \<longrightarrow> h' q = h q)"

text \<open>What every operation keeps of a list header: its lock and its mode.\<close>

definition same_lock :: "List_hdr \<Rightarrow> List_hdr \<Rightarrow> bool" where
  "same_lock l l' \<longleftrightarrow> l_locked l' = l_locked l \<and> l_mtFlag l' = l_mtFlag l"

lemma dseg_append:
  "dseg h pv (xs @ ys) nx \<longleftrightarrow> dseg h pv xs (hd_or nx ys) \<and> dseg h (last_or pv xs) ys nx"
  by (induction xs arbitrary: pv) auto

lemma dseg_cong:
  "(\<And>x. x \<in> set xs \<Longrightarrow> h' x = h x) \<Longrightarrow> dseg h' pv xs nx = dseg h pv xs nx"
  by (induction xs arbitrary: pv) auto

lemma dseg_upd [simp]: "x \<notin> set xs \<Longrightarrow> dseg (h(x := v)) pv xs nx = dseg h pv xs nx"
  by (rule dseg_cong) auto

lemma dseg_dom: "dseg h pv xs nx \<Longrightarrow> set xs \<subseteq> dom h"
  by (induction xs arbitrary: pv) auto

lemma dlist_nil_iff: "dlist h l xs \<Longrightarrow> l_next l = NULL \<longleftrightarrow> xs = []"
  by (cases xs) (auto simp: dlist_def)

lemma dlist_prev_nil_iff: "dlist h l xs \<Longrightarrow> l_prev l = NULL \<longleftrightarrow> xs = []"
  by (cases xs rule: rev_cases) (auto simp: dlist_def)

lemma dlist_count_0_iff: "dlist h l xs \<Longrightarrow> l_count l = 0 \<longleftrightarrow> xs = []"
  by (simp add: dlist_def of_nat_word_eq_0)

lemma dlist_count_1_iff: "dlist h l xs \<Longrightarrow> l_count l = 1 \<longleftrightarrow> length xs = 1"
  using of_nat_word_inj [of "length xs" 1, where 'a = 32] by (simp add: dlist_def)

lemma dlist_unat_count: "dlist h l xs \<Longrightarrow> unat (l_count l) = length xs"
  by (simp add: dlist_def unat_of_nat_small)

lemma dlist_dom: "dlist h l xs \<Longrightarrow> set xs \<subseteq> dom h"
  by (auto simp: dlist_def dest: dseg_dom)

lemma dlist_not_NULL: "dlist h l xs \<Longrightarrow> NULL \<notin> set xs"
  by (simp add: dlist_def)

lemma dlist_lock_irrelevant [simp]:
  "dlist h (l\<lparr>l_locked := b\<rparr>) xs = dlist h l xs"
  by (simp add: dlist_def)

lemmas dlist_iffs = dlist_nil_iff dlist_prev_nil_iff dlist_count_0_iff dlist_count_1_iff

lemma dlist_init: "dlist h (ListInit l mt) []"
  by (simp add: dlist_def ListInit_def Let_def)

section \<open>Each internal operation on a represented list\<close>

lemma PushTail_dlist:
  assumes l: "dlist h l xs" and p: "p \<in> dom h" "p \<notin> set xs" "p \<noteq> NULL"
    and len: "length xs + 1 < 2 ^ 32"
  obtains l' h' where "PushTail l h p = Some (l', h')" "dlist h' l' (xs @ [p])"
    "touches (insert p (set xs)) h h'" "same_lock l l'"
proof (cases xs rule: rev_cases)
  case Nil
  obtain n where n: "h p = Some n" using p by auto
  let ?h = "h(p \<mapsto> n\<lparr>n_next := NULL, n_prev := NULL\<rparr>)"
  let ?l = "l\<lparr>l_next := p, l_prev := p, l_count := 1\<rparr>"
  have "PushTail l h p = Some (?l, ?h)"
    using Nil n by (simp add: PushTail_def dlist_iffs [OF l] set_next_def set_prev_def)
  moreover have "dlist ?h ?l (xs @ [p])"
    using Nil p by (simp add: dlist_def)
  moreover have "touches (insert p (set xs)) h ?h"
    using n by (auto simp: touches_def)
  ultimately show thesis using that by (auto simp: same_lock_def)
next
  case (snoc ys y)
  from l snoc have ne: "l_next l \<noteq> NULL" "l_count l \<noteq> 0" "l_prev l \<noteq> NULL" "l_prev l = y"
    by (auto simp: dlist_iffs [OF l]) (simp add: dlist_def)
  from l snoc have y: "h y = Some \<lparr>n_next = NULL, n_prev = last_or NULL ys\<rparr>"
    by (simp add: dlist_def dseg_append)
  from p snoc have py: "p \<noteq> y" "p \<notin> set ys" by auto
  from l snoc have d: "y \<notin> set ys" by (simp add: dlist_def)
  obtain n where n: "h p = Some n" using p by auto
  let ?h = "h(p \<mapsto> n\<lparr>n_next := NULL, n_prev := y\<rparr>, y \<mapsto> \<lparr>n_next = p, n_prev = last_or NULL ys\<rparr>)"
  let ?l = "l\<lparr>l_prev := p, l_count := l_count l + 1\<rparr>"
  have "PushTail l h p = Some (?l, ?h)"
    using ne y py n by (simp add: PushTail_def set_next_def set_prev_def)
  moreover have "dlist ?h ?l (xs @ [p])"
    using l snoc py d len p by (simp add: dlist_def dseg_append)
  moreover have "touches (insert p (set xs)) h ?h"
    using snoc n y by (auto simp: touches_def)
  ultimately show thesis using that by (auto simp: same_lock_def)
qed

lemma PushHead_dlist:
  assumes l: "dlist h l xs" and p: "p \<in> dom h" "p \<notin> set xs" "p \<noteq> NULL"
    and len: "length xs + 1 < 2 ^ 32"
  obtains l' h' where "PushHead l h p = Some (l', h')" "dlist h' l' (p # xs)"
    "touches (insert p (set xs)) h h'" "same_lock l l'"
proof (cases xs)
  case Nil
  obtain n where n: "h p = Some n" using p by auto
  let ?h = "h(p \<mapsto> n\<lparr>n_next := NULL, n_prev := NULL\<rparr>)"
  let ?l = "l\<lparr>l_next := p, l_prev := p, l_count := 1\<rparr>"
  have "PushHead l h p = Some (?l, ?h)"
    using Nil n by (simp add: PushHead_def dlist_iffs [OF l] set_next_def set_prev_def)
  moreover have "dlist ?h ?l (p # xs)"
    using Nil p by (simp add: dlist_def)
  moreover have "touches (insert p (set xs)) h ?h"
    using n by (auto simp: touches_def)
  ultimately show thesis using that by (auto simp: same_lock_def)
next
  case (Cons y ys)
  from l Cons have ne: "l_next l \<noteq> NULL" "l_count l \<noteq> 0" "l_prev l \<noteq> NULL" "l_next l = y"
    by (auto simp: dlist_iffs [OF l]) (simp add: dlist_def)
  from l Cons have y: "h y = Some \<lparr>n_next = hd_or NULL ys, n_prev = NULL\<rparr>"
    by (simp add: dlist_def)
  from p Cons have py: "p \<noteq> y" "p \<notin> set ys" by auto
  from l Cons have d: "y \<notin> set ys" by (simp add: dlist_def)
  obtain n where n: "h p = Some n" using p by auto
  let ?h = "h(p \<mapsto> n\<lparr>n_prev := NULL, n_next := y\<rparr>, y \<mapsto> \<lparr>n_next = hd_or NULL ys, n_prev = p\<rparr>)"
  let ?l = "l\<lparr>l_next := p, l_count := l_count l + 1\<rparr>"
  have "PushHead l h p = Some (?l, ?h)"
    using ne y py n by (simp add: PushHead_def set_next_def set_prev_def)
  moreover have "dlist ?h ?l (p # xs)"
    using l Cons py d len p by (simp add: dlist_def)
  moreover have "touches (insert p (set xs)) h ?h"
    using Cons n y by (auto simp: touches_def)
  ultimately show thesis using that by (auto simp: same_lock_def)
qed

text \<open>The four positions a linked node can have.\<close>

lemma DeleteNode_single:
  assumes l: "dlist h l [p]"
  shows "\<exists>l' h'. DeleteNode l h p = Some (0, l', h') \<and> dlist h' l' [] \<and> touches {p} h h' \<and>
    same_lock l l' \<and> h' p = Some \<lparr>n_next = NULL, n_prev = NULL\<rparr>"
  using l by (auto simp: DeleteNode_def dlist_def set_next_def set_prev_def touches_def same_lock_def)

lemma DeleteNode_first:
  assumes l: "dlist h l (p # z # zs)"
  shows "\<exists>l' h'. DeleteNode l h p = Some (0, l', h') \<and> dlist h' l' (z # zs) \<and>
    touches {p, z} h h' \<and> same_lock l l' \<and> h' p = Some \<lparr>n_next = NULL, n_prev = NULL\<rparr>"
proof -
  have c: "l_count l \<noteq> 0" "l_count l \<noteq> 1" by (simp_all add: dlist_iffs [OF l])
  have n: "h p = Some \<lparr>n_next = z, n_prev = NULL\<rparr>" "h z = Some \<lparr>n_next = hd_or NULL zs, n_prev = p\<rparr>"
    "p \<noteq> z" "z \<noteq> NULL" "p \<notin> set zs" "z \<notin> set zs" "l_next l = p"
    using l by (auto simp: dlist_def)
  let ?h = "h(z \<mapsto> \<lparr>n_next = hd_or NULL zs, n_prev = NULL\<rparr>, p \<mapsto> \<lparr>n_next = NULL, n_prev = NULL\<rparr>)"
  let ?l = "l\<lparr>l_next := z, l_count := l_count l - 1\<rparr>"
  have "DeleteNode l h p = Some (0, ?l, ?h)"
    using c n by (simp add: DeleteNode_def set_next_def set_prev_def)
  moreover have "dlist ?h ?l (z # zs)"
    using l n by (simp add: dlist_def)
  moreover have "touches {p, z} h ?h" using n by (auto simp: touches_def)
  ultimately show ?thesis by (auto simp: same_lock_def)
qed

lemma DeleteNode_last:
  assumes l: "dlist h l (ys @ [y, p])"
  shows "\<exists>l' h'. DeleteNode l h p = Some (0, l', h') \<and> dlist h' l' (ys @ [y]) \<and>
    touches {p, y} h h' \<and> same_lock l l' \<and> h' p = Some \<lparr>n_next = NULL, n_prev = NULL\<rparr>"
proof -
  have c: "l_count l \<noteq> 0" "l_count l \<noteq> 1" by (simp_all add: dlist_iffs [OF l])
  have n: "h p = Some \<lparr>n_next = NULL, n_prev = y\<rparr>" "h y = Some \<lparr>n_next = p, n_prev = last_or NULL ys\<rparr>"
    "p \<noteq> y" "y \<noteq> NULL" "p \<notin> set ys" "y \<notin> set ys" "l_prev l = p"
    using l by (auto simp: dlist_def dseg_append last_or_append)
  let ?h = "h(y \<mapsto> \<lparr>n_next = NULL, n_prev = last_or NULL ys\<rparr>, p \<mapsto> \<lparr>n_next = NULL, n_prev = NULL\<rparr>)"
  let ?l = "l\<lparr>l_prev := y, l_count := l_count l - 1\<rparr>"
  have "DeleteNode l h p = Some (0, ?l, ?h)"
    using c n by (simp add: DeleteNode_def set_next_def set_prev_def)
  moreover have "dlist ?h ?l (ys @ [y])"
    using l n by (auto simp: dlist_def dseg_append last_or_append)
  moreover have "touches {p, y} h ?h" using n by (auto simp: touches_def)
  ultimately show ?thesis by (auto simp: same_lock_def)
qed

lemma DeleteNode_middle:
  assumes l: "dlist h l (ys @ y # p # z # zs)"
  shows "\<exists>l' h'. DeleteNode l h p = Some (0, l', h') \<and> dlist h' l' (ys @ y # z # zs) \<and>
    touches {y, p, z} h h' \<and> same_lock l l' \<and> h' p = Some \<lparr>n_next = NULL, n_prev = NULL\<rparr>"
proof -
  have c: "l_count l \<noteq> 0" "l_count l \<noteq> 1" by (simp_all add: dlist_iffs [OF l])
  have n: "h p = Some \<lparr>n_next = z, n_prev = y\<rparr>" "h y = Some \<lparr>n_next = p, n_prev = last_or NULL ys\<rparr>"
    "h z = Some \<lparr>n_next = hd_or NULL zs, n_prev = p\<rparr>"
    "p \<noteq> y" "p \<noteq> z" "y \<noteq> z" "y \<noteq> NULL" "z \<noteq> NULL"
    "p \<notin> set ys" "y \<notin> set ys" "z \<notin> set ys" "p \<notin> set zs" "y \<notin> set zs" "z \<notin> set zs"
    using l by (auto simp: dlist_def dseg_append)
  let ?h = "h(z \<mapsto> \<lparr>n_next = hd_or NULL zs, n_prev = y\<rparr>, y \<mapsto> \<lparr>n_next = z, n_prev = last_or NULL ys\<rparr>,
    p \<mapsto> \<lparr>n_next = NULL, n_prev = NULL\<rparr>)"
  let ?l = "l\<lparr>l_count := l_count l - 1\<rparr>"
  have "DeleteNode l h p = Some (0, ?l, ?h)"
    using c n by (simp add: DeleteNode_def set_next_def set_prev_def)
  moreover have "dlist ?h ?l (ys @ y # z # zs)"
    using l n by (auto simp: dlist_def dseg_append last_or_append)
  moreover have "touches {y, p, z} h ?h" using n by (auto simp: touches_def)
  ultimately show ?thesis by (auto simp: same_lock_def)
qed

lemma touches_mono: "touches S h h' \<Longrightarrow> S \<subseteq> T \<Longrightarrow> touches T h h'"
  by (auto simp: touches_def)

lemma DeleteNode_dlist:
  assumes l: "dlist h l (ys @ p # zs)"
  obtains l' h' where "DeleteNode l h p = Some (0, l', h')" "dlist h' l' (ys @ zs)"
    "touches (set (ys @ p # zs)) h h'" "same_lock l l'" "h' p = Some \<lparr>n_next = NULL, n_prev = NULL\<rparr>"
proof (cases ys rule: rev_cases)
  case Nil
  show thesis
  proof (cases zs)
    case Nil
    with \<open>ys = []\<close> DeleteNode_single [of h l p] l that show thesis by auto
  next
    case (Cons z zs')
    with \<open>ys = []\<close> DeleteNode_first [of h l p z zs'] l
    obtain l' h' where "DeleteNode l h p = Some (0, l', h')" "dlist h' l' (z # zs')"
      "touches {p, z} h h'" "same_lock l l'" "h' p = Some \<lparr>n_next = NULL, n_prev = NULL\<rparr>" by auto
    with Nil Cons show thesis by (intro that [of l' h']) (auto elim!: touches_mono)
  qed
next
  case (snoc ys' y)
  show thesis
  proof (cases zs)
    case Nil
    with snoc DeleteNode_last [of h l ys' y p] l
    obtain l' h' where "DeleteNode l h p = Some (0, l', h')" "dlist h' l' (ys' @ [y])"
      "touches {p, y} h h'" "same_lock l l'" "h' p = Some \<lparr>n_next = NULL, n_prev = NULL\<rparr>" by auto
    with Nil snoc show thesis by (intro that [of l' h']) (auto elim!: touches_mono)
  next
    case (Cons z zs')
    with snoc DeleteNode_middle [of h l ys' y p z zs'] l
    obtain l' h' where "DeleteNode l h p = Some (0, l', h')" "dlist h' l' (ys' @ y # z # zs')"
      "touches {y, p, z} h h'" "same_lock l l'" "h' p = Some \<lparr>n_next = NULL, n_prev = NULL\<rparr>" by auto
    with snoc Cons show thesis by (intro that [of l' h']) (auto elim!: touches_mono)
  qed
qed

section \<open>The exported operations on a represented list\<close>

text \<open>A list no thread holds the lock of.\<close>

definition idle_list :: "nheap \<Rightarrow> List_hdr \<Rightarrow> ptr list \<Rightarrow> bool" where
  "idle_list h l xs \<longleftrightarrow> dlist h l xs \<and> \<not> l_locked l"

lemma idle_listI: "dlist h l xs \<Longrightarrow> same_lock l0 l \<Longrightarrow> \<not> l_locked l0 \<Longrightarrow> idle_list h l xs"
  by (simp add: idle_list_def same_lock_def)

lemma ListPushNode_idle:
  assumes "idle_list h l xs" "p \<in> dom h" "p \<notin> set xs" "p \<noteq> NULL" "length xs + 1 < 2 ^ 32"
  shows "\<exists>l' h'. ListPushNode l h p = Some (l', h') \<and> idle_list h' l' (xs @ [p]) \<and>
    touches (insert p (set xs)) h h'"
proof (cases "l_mtFlag l = 0")
  case True
  obtain l' h' where "PushTail l h p = Some (l', h')" "dlist h' l' (xs @ [p])"
    "touches (insert p (set xs)) h h'" "same_lock l l'"
    using PushTail_dlist [of h l xs p] assms unfolding idle_list_def by blast
  with assms True show ?thesis
    by (simp add: ListPushNode_def ListInsertNodeToTail_def idle_list_def same_lock_def)
next
  case False
  have "dlist h (l\<lparr>l_locked := True\<rparr>) xs" using assms by (simp add: idle_list_def)
  then obtain l' h' where "PushTail (l\<lparr>l_locked := True\<rparr>) h p = Some (l', h')" "dlist h' l' (xs @ [p])"
    "touches (insert p (set xs)) h h'"
    using PushTail_dlist [of h "l\<lparr>l_locked := True\<rparr>" xs p] assms by blast
  with assms False show ?thesis
    by (simp add: ListPushNode_def ListInsertNodeToTail_def idle_list_def list_lock_def list_unlock_def)
qed

lemma ListPushNodeHead_idle:
  assumes "idle_list h l xs" "p \<in> dom h" "p \<notin> set xs" "p \<noteq> NULL" "length xs + 1 < 2 ^ 32"
  shows "\<exists>l' h'. ListPushNodeHead l h p = Some (l', h') \<and> idle_list h' l' (p # xs) \<and>
    touches (insert p (set xs)) h h'"
proof (cases "l_mtFlag l = 0")
  case True
  obtain l' h' where "PushHead l h p = Some (l', h')" "dlist h' l' (p # xs)"
    "touches (insert p (set xs)) h h'" "same_lock l l'"
    using PushHead_dlist [of h l xs p] assms unfolding idle_list_def by blast
  with assms True show ?thesis
    by (simp add: ListPushNodeHead_def ListInsertNodeToHead_def idle_list_def same_lock_def)
next
  case False
  have "dlist h (l\<lparr>l_locked := True\<rparr>) xs" using assms by (simp add: idle_list_def)
  then obtain l' h' where "PushHead (l\<lparr>l_locked := True\<rparr>) h p = Some (l', h')" "dlist h' l' (p # xs)"
    "touches (insert p (set xs)) h h'"
    using PushHead_dlist [of h "l\<lparr>l_locked := True\<rparr>" xs p] assms by blast
  with assms False show ?thesis
    by (simp add: ListPushNodeHead_def ListInsertNodeToHead_def idle_list_def list_lock_def list_unlock_def)
qed

lemma ListPopNode_Nil:
  "idle_list h l [] \<Longrightarrow> ListPopNode l h = Some (NULL, l, h)"
  by (cases l) (auto simp: idle_list_def ListPopNode_def list_lock_def list_unlock_def PopHead_def dlist_def)

lemma ListPopNode_Cons:
  assumes "idle_list h l (x # xs)"
  shows "\<exists>l' h'. ListPopNode l h = Some (x, l', h') \<and> idle_list h' l' xs \<and>
    touches (set (x # xs)) h h' \<and> h' x = Some \<lparr>n_next = NULL, n_prev = NULL\<rparr>"
proof (cases "l_mtFlag l = 0")
  case True
  have d: "dlist h l ([] @ x # xs)" using assms by (simp add: idle_list_def)
  then obtain l' h' where "DeleteNode l h x = Some (0, l', h')" "dlist h' l' xs"
    "touches (set (x # xs)) h h'" "same_lock l l'" "h' x = Some \<lparr>n_next = NULL, n_prev = NULL\<rparr>"
    by (elim DeleteNode_dlist) simp
  moreover have "l_next l = x" "x \<noteq> NULL" using d by (auto simp: dlist_def)
  ultimately show ?thesis using assms True
    by (simp add: ListPopNode_def PopHead_def idle_list_def same_lock_def)
next
  case False
  let ?l = "l\<lparr>l_locked := True\<rparr>"
  have d: "dlist h ?l ([] @ x # xs)" using assms by (simp add: idle_list_def)
  then obtain l' h' where "DeleteNode ?l h x = Some (0, l', h')" "dlist h' l' xs"
    "touches (set (x # xs)) h h'" "h' x = Some \<lparr>n_next = NULL, n_prev = NULL\<rparr>"
    by (elim DeleteNode_dlist) simp
  moreover have "l_next l = x" "x \<noteq> NULL" using d by (auto simp: dlist_def)
  ultimately show ?thesis using assms False
    by (simp add: ListPopNode_def PopHead_def idle_list_def list_lock_def list_unlock_def)
qed

lemma delete_search_dseg:
  "dseg h pv xs nx \<Longrightarrow> delete_search (length xs) h (hd_or nx xs) p = Some (p \<in> set xs)"
  by (induction xs arbitrary: pv) auto

lemma delete_search_dlist:
  "dlist h l xs \<Longrightarrow> delete_search (unat (l_count l)) h (l_next l) p = Some (p \<in> set xs)"
  using delete_search_dseg [of h NULL xs NULL p] by (simp add: dlist_unat_count) (simp add: dlist_def)

lemma ListDeleteNode_in:
  assumes l: "idle_list h l (ys @ p # zs)"
  shows "\<exists>l' h'. ListDeleteNode l h p = Some (l', h') \<and> idle_list h' l' (ys @ zs) \<and>
    touches (set (ys @ p # zs)) h h'"
proof -
  have d: "dlist h l (ys @ p # zs)" using l by (simp add: idle_list_def)
  have ne: "p \<noteq> NULL" "0 < l_count l"
    using dlist_not_NULL [OF d] dlist_count_0_iff [OF d] by (auto simp: word_gt_0)
  define m where "m = (if l_mtFlag l \<noteq> 0 then l\<lparr>l_locked := True\<rparr> else l)"
  have m: "dlist h m (ys @ p # zs)" "l_mtFlag m = l_mtFlag l"
    using d by (simp_all add: m_def)
  obtain l' h' where "DeleteNode m h p = Some (0, l', h')" "dlist h' l' (ys @ zs)"
    "touches (set (ys @ p # zs)) h h'" "same_lock m l'"
    using m by (elim DeleteNode_dlist)
  moreover have "(if l_mtFlag l \<noteq> 0 then list_lock l else Some l) = Some m"
    using l by (simp add: m_def list_lock_def idle_list_def)
  moreover have "\<not> l_locked m" if "l_mtFlag l = 0" using l that by (simp add: m_def idle_list_def)
  ultimately show ?thesis using ne delete_search_dlist [OF m(1), of p] m(2)
    by (simp add: ListDeleteNode_def list_unlock_def idle_list_def same_lock_def)
qed

lemma ListDeleteNode_notin:
  assumes l: "idle_list h l xs" and p: "p \<notin> set xs"
  shows "ListDeleteNode l h p = Some (l, h)"
proof -
  have d: "dlist h l xs" and "\<not> l_locked l" using l by (simp_all add: idle_list_def)
  then show ?thesis using delete_search_dlist [OF d, of p] p
    by (cases l) (simp add: ListDeleteNode_def list_lock_def list_unlock_def)
qed

lemma ListDeleteNode_idle:
  assumes "idle_list h l xs"
  shows "\<exists>l' h'. ListDeleteNode l h p = Some (l', h') \<and> idle_list h' l' (remove1 p xs) \<and>
    touches (set xs) h h'"
proof (cases "p \<in> set xs")
  case True
  then obtain ys zs where xs: "xs = ys @ p # zs" "p \<notin> set ys" by (meson split_list_first)
  then show ?thesis using ListDeleteNode_in [of h l ys p zs] assms by (simp add: remove1_append)
next
  case False
  then show ?thesis using ListDeleteNode_notin [OF assms] assms
    by (simp add: remove1_idem touches_def)
qed

interpretation list_fifo: node_fifo idle_list dom ListPushNode ListPopNode
proof unfold_locales
  show "\<And>h l xs. idle_list h l xs \<Longrightarrow> NULL \<notin> set xs"
    unfolding idle_list_def by (blast dest: dlist_not_NULL)
  show "\<And>h l xs p. idle_list h l xs \<Longrightarrow> p \<in> dom h \<Longrightarrow> p \<notin> set xs \<Longrightarrow> p \<noteq> NULL \<Longrightarrow>
      length xs + 1 < 2 ^ 32 \<Longrightarrow>
      \<exists>l' h'. ListPushNode l h p = Some (l', h') \<and> idle_list h' l' (xs @ [p]) \<and> dom h' = dom h"
    using ListPushNode_idle by (fastforce simp: touches_def)
  show "\<And>h l x xs. idle_list h l (x # xs) \<Longrightarrow>
      \<exists>l' h'. ListPopNode l h = Some (x, l', h') \<and> idle_list h' l' xs \<and> dom h' = dom h"
    using ListPopNode_Cons by (fastforce simp: touches_def)
qed (rule ListPopNode_Nil)

section \<open>Runs of operations against sequences\<close>

datatype list_op = OpPush ptr | OpPushHead ptr | OpPop | OpDelete ptr

text \<open>One call on the list; the answer is the popped node, null for the other calls.\<close>

definition list_exec :: "list_op \<Rightarrow> List_hdr \<Rightarrow> nheap \<Rightarrow> (ptr \<times> List_hdr \<times> nheap) option" where
  "list_exec c l h = (case c of
      OpPush p \<Rightarrow> map_option (Pair NULL) (ListPushNode l h p)
    | OpPushHead p \<Rightarrow> map_option (Pair NULL) (ListPushNodeHead l h p)
    | OpPop \<Rightarrow> ListPopNode l h
    | OpDelete p \<Rightarrow> map_option (Pair NULL) (ListDeleteNode l h p))"

fun list_run :: "list_op list \<Rightarrow> List_hdr \<Rightarrow> nheap \<Rightarrow> (ptr list \<times> List_hdr \<times> nheap) option" where
  "list_run [] l h = Some ([], l, h)"
| "list_run (c # cs) l h = do {
     (r, l1, h1) \<leftarrow> list_exec c l h;
     (rs, l2, h2) \<leftarrow> list_run cs l1 h1;
     Some (r # rs, l2, h2) }"

text \<open>The same calls on the abstract sequence.\<close>

definition seq_exec :: "list_op \<Rightarrow> ptr list \<Rightarrow> ptr \<times> ptr list" where
  "seq_exec c xs = (case c of
      OpPush p \<Rightarrow> (NULL, if p = NULL then xs else xs @ [p])
    | OpPushHead p \<Rightarrow> (NULL, if p = NULL then xs else p # xs)
    | OpPop \<Rightarrow> (case xs of [] \<Rightarrow> (NULL, []) | x # ys \<Rightarrow> (x, ys))
    | OpDelete p \<Rightarrow> (NULL, remove1 p xs))"

fun seq_run :: "list_op list \<Rightarrow> ptr list \<Rightarrow> ptr list \<times> ptr list" where
  "seq_run [] xs = ([], xs)"
| "seq_run (c # cs) xs =
     (let (r, ys) = seq_exec c xs; (rs, zs) = seq_run cs ys in (r # rs, zs))"

text \<open>
  What a caller must respect: a node that is inserted exists and is not linked already,
  and the counter of the list does not overflow.
\<close>

definition op_ok :: "ptr set \<Rightarrow> ptr list \<Rightarrow> list_op \<Rightarrow> bool" where
  "op_ok D xs c = (case c of
      OpPush p \<Rightarrow> p = NULL \<or> (p \<in> D \<and> p \<notin> set xs \<and> length xs + 1 < 2 ^ 32)
    | OpPushHead p \<Rightarrow> p = NULL \<or> (p \<in> D \<and> p \<notin> set xs \<and> length xs + 1 < 2 ^ 32)
    | OpPop \<Rightarrow> True
    | OpDelete p \<Rightarrow> True)"

fun ops_ok :: "ptr set \<Rightarrow> ptr list \<Rightarrow> list_op list \<Rightarrow> bool" where
  "ops_ok D xs [] = True"
| "ops_ok D xs (c # cs) = (op_ok D xs c \<and> ops_ok D (snd (seq_exec c xs)) cs)"

lemma list_exec_refines:
  assumes "idle_list h l xs" "op_ok (dom h) xs c" "seq_exec c xs = (r, ys)"
  shows "\<exists>l' h'. list_exec c l h = Some (r, l', h') \<and> idle_list h' l' ys \<and> dom h' = dom h"
proof (cases c)
  case (OpPush p)
  then show ?thesis using assms ListPushNode_idle [of h l xs p]
    by (cases "p = NULL")
      (fastforce simp: list_exec_def seq_exec_def op_ok_def touches_def ListPushNode_def
        ListInsertNodeToTail_def)+
next
  case (OpPushHead p)
  then show ?thesis using assms ListPushNodeHead_idle [of h l xs p]
    by (cases "p = NULL")
      (fastforce simp: list_exec_def seq_exec_def op_ok_def touches_def ListPushNodeHead_def
        ListInsertNodeToHead_def)+
next
  case OpPop
  then show ?thesis using assms
    by (cases xs) (fastforce simp: list_exec_def seq_exec_def ListPopNode_Nil touches_def
        dest: ListPopNode_Cons)+
next
  case (OpDelete p)
  then show ?thesis using assms ListDeleteNode_idle [of h l xs p]
    by (fastforce simp: list_exec_def seq_exec_def touches_def)
qed

text \<open>
  C13. Any sequence of list.c calls on a list that represents \<open>xs\<close> runs to its end (no
  dangling or null dereference, no wait for a lock that is already held), answers exactly
  what the abstract sequence answers, and leaves a list that represents the abstract result,
  with its lock free.
\<close>

theorem list_run_refines:
  assumes "idle_list h l xs" "ops_ok (dom h) xs cs"
  shows "\<exists>l' h'. list_run cs l h = Some (fst (seq_run cs xs), l', h') \<and>
    idle_list h' l' (snd (seq_run cs xs)) \<and> dom h' = dom h"
  using assms
proof (induction cs arbitrary: l h xs)
  case Nil
  then show ?case by simp
next
  case (Cons c cs)
  obtain r ys where e: "seq_exec c xs = (r, ys)" by fastforce
  then obtain l1 h1 where 1: "list_exec c l h = Some (r, l1, h1)" "idle_list h1 l1 ys" "dom h1 = dom h"
    using list_exec_refines Cons.prems by (metis ops_ok.simps(2))
  then have "ops_ok (dom h1) ys cs" using Cons.prems e by simp
  from Cons.IH [OF 1(2) this] 1 e show ?case by (auto split: prod.splits)
qed

definition demo_heap :: nheap where
  "demo_heap = [1 \<mapsto> \<lparr>n_next = 7, n_prev = 7\<rparr>, 2 \<mapsto> \<lparr>n_next = 7, n_prev = 7\<rparr>,
                3 \<mapsto> \<lparr>n_next = 7, n_prev = 7\<rparr>]"

definition demo_hdr :: List_hdr where
  "demo_hdr = ListInit \<lparr>l_next = 5, l_prev = 5, l_count = 9, l_locked = False, l_mtFlag = 0\<rparr> 1"

lemma demo_idle: "idle_list demo_heap demo_hdr []"
  by (simp add: idle_list_def dlist_def demo_hdr_def ListInit_def)

theorem list_run_refines_witness:
  "\<exists>l' h'. list_run [OpPush 1, OpPushHead 2, OpPush 3, OpDelete 1, OpPop, OpPop, OpPop]
      demo_hdr demo_heap = Some ([0, 0, 0, 0, 2, 3, 0], l', h') \<and> idle_list h' l' []"
  using list_run_refines [OF demo_idle,
      of "[OpPush 1, OpPushHead 2, OpPush 3, OpDelete 1, OpPop, OpPop, OpPop]"]
  by (simp add: op_ok_def seq_exec_def demo_heap_def) blast

lemma list_lock_SomeD: "list_lock l = Some l' \<Longrightarrow> \<not> l_locked l \<and> l' = l\<lparr>l_locked := True\<rparr>"
  by (simp add: list_lock_def split: if_splits)

lemma PushTail_same_lock:
  "PushTail l h p = Some (l', h') \<Longrightarrow> l_locked l' = l_locked l \<and> l_mtFlag l' = l_mtFlag l"
  by (auto simp: PushTail_def bind_Some_iff split: if_splits)

lemma PushHead_same_lock:
  "PushHead l h p = Some (l', h') \<Longrightarrow> l_locked l' = l_locked l \<and> l_mtFlag l' = l_mtFlag l"
  by (auto simp: PushHead_def bind_Some_iff split: if_splits)

lemma DeleteNode_same_lock:
  "DeleteNode l h p = Some (r, l', h') \<Longrightarrow> l_locked l' = l_locked l \<and> l_mtFlag l' = l_mtFlag l"
  unfolding DeleteNode_def by (auto simp: bind_Some_iff split: if_split_asm)

lemma PopHead_same_lock:
  "PopHead l h = Some (p, l', h') \<Longrightarrow> l_locked l' = l_locked l \<and> l_mtFlag l' = l_mtFlag l"
  by (auto simp: PopHead_def Let_def bind_Some_iff dest: DeleteNode_same_lock split: if_splits)

text \<open>
  No call of list.c leaves the lock of the list taken, whatever the state of the links:
  also when \<open>DeleteNode\<close> finds them inconsistent, and also when the searched node is not in
  the list.
\<close>

theorem list_exec_keeps_lock:
  assumes "list_exec c l h = Some (r, l', h')"
  shows "l_locked l' = l_locked l \<and> l_mtFlag l' = l_mtFlag l"
proof (cases c)
  case (OpPush p)
  with assms show ?thesis
    by (auto simp: list_exec_def ListPushNode_def ListInsertNodeToTail_def list_unlock_def
        bind_Some_iff dest!: PushTail_same_lock list_lock_SomeD split: if_splits)
next
  case (OpPushHead p)
  with assms show ?thesis
    by (auto simp: list_exec_def ListPushNodeHead_def ListInsertNodeToHead_def list_unlock_def
        bind_Some_iff dest!: PushHead_same_lock list_lock_SomeD split: if_splits)
next
  case OpPop
  with assms show ?thesis
    by (auto simp: list_exec_def ListPopNode_def list_unlock_def
        bind_Some_iff dest!: PopHead_same_lock list_lock_SomeD split: if_splits)
next
  case (OpDelete p)
  with assms show ?thesis
    by (auto simp: list_exec_def ListDeleteNode_def list_unlock_def
        bind_Some_iff dest!: DeleteNode_same_lock list_lock_SomeD split: if_splits)
qed

theorem list_exec_keeps_lock_witness:
  "\<exists>r l' h'. list_exec (OpDelete 3) (demo_hdr\<lparr>l_count := 1, l_next := 3\<rparr>) demo_heap = Some (r, l', h') \<and>
     \<not> l_locked l'"
proof -
  have "list_exec (OpDelete 3) (demo_hdr\<lparr>l_count := 1, l_next := 3\<rparr>) demo_heap =
      Some (NULL, demo_hdr\<lparr>l_count := 1, l_next := 3\<rparr>, demo_heap)"
    by (simp add: list_exec_def ListDeleteNode_def demo_hdr_def ListInit_def list_lock_def
        list_unlock_def DeleteNode_def demo_heap_def)
  from this list_exec_keeps_lock [OF this] show ?thesis
    by (simp add: demo_hdr_def ListInit_def)
qed

text \<open>
  When \<open>DeleteNode\<close> reports inconsistent links it has written to no node; the header
  is left alone too, except that an empty list gets its two end pointers cleared.
\<close>

theorem DeleteNode_error_no_write:
  "DeleteNode l h p = Some (1, l', h') \<Longrightarrow>
   h' = h \<and> l' = (if l_count l = 0 then l\<lparr>l_next := NULL, l_prev := NULL\<rparr> else l)"
  by (auto simp: DeleteNode_def bind_Some_iff split: if_splits)

theorem DeleteNode_error_no_write_witness:
  "\<exists>l' h'. DeleteNode (demo_hdr\<lparr>l_count := 1, l_next := 3\<rparr>) demo_heap 3 = Some (1, l', h') \<and>
     h' = demo_heap"
proof -
  have e: "DeleteNode (demo_hdr\<lparr>l_count := 1, l_next := 3\<rparr>) demo_heap 3 =
      Some (1, demo_hdr\<lparr>l_count := 1, l_next := 3\<rparr>, demo_heap)"
    by (simp add: DeleteNode_def demo_heap_def demo_hdr_def ListInit_def)
  from e DeleteNode_error_no_write [OF e] show ?thesis by auto
qed

end
