(* ===== verification/Node_Queue.thy ===== *)
theory Node_Queue
  imports Node_List
begin

text \<open>
  The message queue of \<open>cm/src/queue.c\<close>: the same linked structure as \<open>list.c\<close>
  written a second time, always protected by a mutex. The two implementations are proved equal, and the
  queue is shown to meet the contract of \<open>Queue_Interface\<close>.
\<close>

section \<open>State and operations\<close>

text \<open>
  \<open>struct _Queue_\<close>; \<open>q_locked\<close> is the state of its mutex. A
  \<open>QNode\<close> has the two links of a \<open>ListNode\<close>.
\<close>

record Queue_hdr =
  q_next :: ptr
  q_prev :: ptr
  q_count :: u32
  q_locked :: bool

definition q_lock :: "Queue_hdr \<Rightarrow> Queue_hdr option" where
  "q_lock q = (if q_locked q then None else Some (q\<lparr>q_locked := True\<rparr>))"

definition q_unlock :: "Queue_hdr \<Rightarrow> Queue_hdr" where
  "q_unlock q = q\<lparr>q_locked := False\<rparr>"

definition QPushTail :: "Queue_hdr \<Rightarrow> nheap \<Rightarrow> ptr \<Rightarrow> (Queue_hdr \<times> nheap) option" where
  "QPushTail q h p =
     (if q_next q = NULL \<or> q_count q = 0 \<or> q_prev q = NULL then do {
        h1 \<leftarrow> set_next h p NULL;
        h2 \<leftarrow> set_prev h1 p NULL;
        Some (q\<lparr>q_next := p, q_prev := p, q_count := 1\<rparr>, h2)
      } else do {
        h1 \<leftarrow> set_next h p NULL;
        h2 \<leftarrow> set_prev h1 p (q_prev q);
        h3 \<leftarrow> set_next h2 (q_prev q) p;
        Some (q\<lparr>q_prev := p, q_count := q_count q + 1\<rparr>, h3)
      })"

definition QPushHead :: "Queue_hdr \<Rightarrow> nheap \<Rightarrow> ptr \<Rightarrow> (Queue_hdr \<times> nheap) option" where
  "QPushHead q h p =
     (if q_next q = NULL \<or> q_count q = 0 \<or> q_prev q = NULL then do {
        h1 \<leftarrow> set_next h p NULL;
        h2 \<leftarrow> set_prev h1 p NULL;
        Some (q\<lparr>q_next := p, q_prev := p, q_count := 1\<rparr>, h2)
      } else do {
        h1 \<leftarrow> set_prev h p NULL;
        h2 \<leftarrow> set_next h1 p (q_next q);
        h3 \<leftarrow> set_prev h2 (q_next q) p;
        Some (q\<lparr>q_next := p, q_count := q_count q + 1\<rparr>, h3)
      })"

definition QDeleteNode :: "Queue_hdr \<Rightarrow> nheap \<Rightarrow> ptr \<Rightarrow> (u32 \<times> Queue_hdr \<times> nheap) option" where
  "QDeleteNode q h p =
     (if q_count q = 0 then Some (1, q\<lparr>q_next := NULL, q_prev := NULL\<rparr>, h)
      else if q_count q = 1 then do {
        n \<leftarrow> h p;
        if n_prev n \<noteq> NULL \<or> n_next n \<noteq> NULL \<or> q_prev q \<noteq> p \<or> q_next q \<noteq> p
        then Some (1, q, h)
        else do {
          h1 \<leftarrow> set_prev h p NULL;
          h2 \<leftarrow> set_next h1 p NULL;
          Some (0, q\<lparr>q_next := NULL, q_prev := NULL, q_count := 0\<rparr>, h2)
        }
      } else do {
        n \<leftarrow> h p;
        if n_next n = NULL \<and> n_prev n \<noteq> NULL then
          (if q_prev q \<noteq> p then Some (1, q, h)
           else do {
             h1 \<leftarrow> set_next h (n_prev n) NULL;
             h2 \<leftarrow> set_prev h1 p NULL;
             h3 \<leftarrow> set_next h2 p NULL;
             Some (0, q\<lparr>q_prev := n_prev n, q_count := q_count q - 1\<rparr>, h3)
           })
        else if n_next n \<noteq> NULL \<and> n_prev n = NULL then
          (if q_next q \<noteq> p then Some (1, q, h)
           else do {
             h1 \<leftarrow> set_prev h (n_next n) NULL;
             h2 \<leftarrow> set_prev h1 p NULL;
             h3 \<leftarrow> set_next h2 p NULL;
             Some (0, q\<lparr>q_next := n_next n, q_count := q_count q - 1\<rparr>, h3)
           })
        else if n_next n \<noteq> NULL \<and> n_prev n \<noteq> NULL then do {
          nn \<leftarrow> h (n_next n);
          np \<leftarrow> (if n_prev nn \<noteq> p then Some n else h (n_prev n));
          if n_prev nn \<noteq> p \<or> n_next np \<noteq> p then Some (1, q, h)
          else do {
            h1 \<leftarrow> set_prev h (n_next n) (n_prev n);
            h2 \<leftarrow> set_next h1 (n_prev n) (n_next n);
            h3 \<leftarrow> set_prev h2 p NULL;
            h4 \<leftarrow> set_next h3 p NULL;
            Some (0, q\<lparr>q_count := q_count q - 1\<rparr>, h4)
          }
        }
        else Some (1, q, h)
      })"

definition QPopHead :: "Queue_hdr \<Rightarrow> nheap \<Rightarrow> (ptr \<times> Queue_hdr \<times> nheap) option" where
  "QPopHead q h =
     (let p = q_next q in
      if p \<noteq> NULL then do {
        (r, q', h') \<leftarrow> QDeleteNode q h p;
        Some (p, q', h')
      } else Some (p, q, h))"

definition QueueInit :: "Queue_hdr \<Rightarrow> Queue_hdr" where
  "QueueInit q = q\<lparr>q_count := 0, q_next := NULL, q_prev := NULL, q_locked := False\<rparr>"

definition QueueDeInit :: "Queue_hdr \<Rightarrow> Queue_hdr" where
  "QueueDeInit q = q\<lparr>q_count := 0, q_next := NULL, q_prev := NULL\<rparr>"

definition QueueCount :: "Queue_hdr \<Rightarrow> u32" where
  "QueueCount q = q_count q"

definition QueuePushNode :: "Queue_hdr \<Rightarrow> nheap \<Rightarrow> ptr \<Rightarrow> (Queue_hdr \<times> nheap) option" where
  "QueuePushNode q h p =
     (if p \<noteq> NULL then do {
        q1 \<leftarrow> q_lock q;
        (q2, h2) \<leftarrow> QPushTail q1 h p;
        Some (q_unlock q2, h2)
      } else Some (q, h))"

definition QueuePushNodeHead :: "Queue_hdr \<Rightarrow> nheap \<Rightarrow> ptr \<Rightarrow> (Queue_hdr \<times> nheap) option" where
  "QueuePushNodeHead q h p =
     (if p \<noteq> NULL then do {
        q1 \<leftarrow> q_lock q;
        (q2, h2) \<leftarrow> QPushHead q1 h p;
        Some (q_unlock q2, h2)
      } else Some (q, h))"

definition QueuePopNode :: "Queue_hdr \<Rightarrow> nheap \<Rightarrow> (ptr \<times> Queue_hdr \<times> nheap) option" where
  "QueuePopNode q h = do {
     q1 \<leftarrow> q_lock q;
     (p, q2, h2) \<leftarrow> QPopHead q1 h;
     Some (p, q_unlock q2, h2)
   }"

section \<open>The two implementations are the same\<close>

text \<open>A queue read as a list in multi-thread mode, and back.\<close>

definition as_list :: "Queue_hdr \<Rightarrow> List_hdr" where
  "as_list q = \<lparr>l_next = q_next q, l_prev = q_prev q, l_count = q_count q,
                l_locked = q_locked q, l_mtFlag = 1\<rparr>"

lemma as_list_simps [simp]:
  "l_next (as_list q) = q_next q" "l_prev (as_list q) = q_prev q" "l_count (as_list q) = q_count q"
  "l_locked (as_list q) = q_locked q" "l_mtFlag (as_list q) = 1"
  "as_list (q\<lparr>q_next := a\<rparr>) = as_list q\<lparr>l_next := a\<rparr>" "as_list (q\<lparr>q_prev := a\<rparr>) = as_list q\<lparr>l_prev := a\<rparr>"
  "as_list (q\<lparr>q_count := n\<rparr>) = as_list q\<lparr>l_count := n\<rparr>"
  "as_list (q\<lparr>q_locked := b\<rparr>) = as_list q\<lparr>l_locked := b\<rparr>"
  by (simp_all add: as_list_def)

lemma as_list_inject [simp]: "as_list q = as_list q' \<longleftrightarrow> q = q'"
  by (cases q; cases q') (auto simp: as_list_def)

lemma map_option_bind: "map_option f (Option.bind m g) = Option.bind m (\<lambda>x. map_option f (g x))"
  by (cases m) simp_all

lemma QPushTail_as_list:
  "PushTail (as_list q) h p = map_option (map_prod as_list id) (QPushTail q h p)"
  by (simp add: PushTail_def QPushTail_def map_option_bind)

lemma QPushHead_as_list:
  "PushHead (as_list q) h p = map_option (map_prod as_list id) (QPushHead q h p)"
  by (simp add: PushHead_def QPushHead_def map_option_bind)

lemma QDeleteNode_as_list:
  "DeleteNode (as_list q) h p = map_option (map_prod id (map_prod as_list id)) (QDeleteNode q h p)"
  unfolding DeleteNode_def QDeleteNode_def
  by (simp add: map_option_bind if_distrib [of "map_option f" for f] cong: if_cong option.case_cong)

lemma QPopHead_as_list:
  "PopHead (as_list q) h = map_option (map_prod id (map_prod as_list id)) (QPopHead q h)"
  by (cases "QDeleteNode q h (q_next q)")
    (auto simp: PopHead_def QPopHead_def Let_def QDeleteNode_as_list)

lemma list_lock_as_list: "list_lock (as_list q) = map_option as_list (q_lock q)"
  by (simp add: list_lock_def q_lock_def)

lemma list_unlock_as_list: "list_unlock (as_list q) = as_list (q_unlock q)"
  by (simp add: list_unlock_def q_unlock_def)

lemma QueuePushNode_as_list:
  "ListPushNode (as_list q) h p = map_option (map_prod as_list id) (QueuePushNode q h p)"
  by (auto simp: ListPushNode_def ListInsertNodeToTail_def QueuePushNode_def list_lock_as_list
      QPushTail_as_list list_unlock_as_list bind_map_option map_option_bind comp_def
      intro!: Option.bind_cong)

lemma QueuePushNodeHead_as_list:
  "ListPushNodeHead (as_list q) h p = map_option (map_prod as_list id) (QueuePushNodeHead q h p)"
  by (auto simp: ListPushNodeHead_def ListInsertNodeToHead_def QueuePushNodeHead_def list_lock_as_list
      QPushHead_as_list list_unlock_as_list bind_map_option map_option_bind comp_def
      intro!: Option.bind_cong)

lemma QueuePopNode_as_list:
  "ListPopNode (as_list q) h = map_option (map_prod id (map_prod as_list id)) (QueuePopNode q h)"
  by (auto simp: ListPopNode_def QueuePopNode_def list_lock_as_list
      QPopHead_as_list list_unlock_as_list bind_map_option map_option_bind comp_def
      intro!: Option.bind_cong)

text \<open>
  C25. The queue of the common module and the list of the packet decoder in multi-thread
  mode are the same machine: on every header and heap, consistent or not, pushing at either
  end and popping do the same writes, give the same answer, and are undefined on the same
  states.
\<close>

theorem queue_equals_list:
  "ListPushNode (as_list q) h p = map_option (map_prod as_list id) (QueuePushNode q h p) \<and>
   ListPushNodeHead (as_list q) h p = map_option (map_prod as_list id) (QueuePushNodeHead q h p) \<and>
   ListPopNode (as_list q) h = map_option (map_prod id (map_prod as_list id)) (QueuePopNode q h)"
  by (simp add: QueuePushNode_as_list QueuePushNodeHead_as_list QueuePopNode_as_list)

section \<open>The queue meets the contract\<close>

definition idle_queue :: "nheap \<Rightarrow> Queue_hdr \<Rightarrow> ptr list \<Rightarrow> bool" where
  "idle_queue h q xs \<longleftrightarrow> idle_list h (as_list q) xs"

lemma QueuePushNode_idle:
  assumes "idle_queue h q xs" "p \<in> dom h" "p \<notin> set xs" "p \<noteq> NULL" "length xs + 1 < 2 ^ 32"
  shows "\<exists>q' h'. QueuePushNode q h p = Some (q', h') \<and> idle_queue h' q' (xs @ [p]) \<and> dom h' = dom h"
proof -
  from assms obtain l' h' where 1: "ListPushNode (as_list q) h p = Some (l', h')"
    "idle_list h' l' (xs @ [p])" "dom h' = dom h"
    using list_fifo.push_law [of h "as_list q" xs p] unfolding idle_queue_def by blast
  then show ?thesis by (auto simp: QueuePushNode_as_list idle_queue_def)
qed

lemma QueuePopNode_Cons:
  assumes "idle_queue h q (x # xs)"
  shows "\<exists>q' h'. QueuePopNode q h = Some (x, q', h') \<and> idle_queue h' q' xs \<and> dom h' = dom h"
proof -
  from assms obtain l' h' where 1: "ListPopNode (as_list q) h = Some (x, l', h')"
    "idle_list h' l' xs" "dom h' = dom h"
    using list_fifo.pop_Cons_law [of h "as_list q" x xs] unfolding idle_queue_def by blast
  then show ?thesis by (auto simp: QueuePopNode_as_list idle_queue_def)
qed

lemma QueuePopNode_Nil: "idle_queue h q [] \<Longrightarrow> QueuePopNode q h = Some (NULL, q, h)"
  using list_fifo.pop_Nil_law [of h "as_list q"] by (auto simp: QueuePopNode_as_list idle_queue_def)

interpretation queue_fifo: node_fifo idle_queue dom QueuePushNode QueuePopNode
proof unfold_locales
  show "\<And>h q xs. idle_queue h q xs \<Longrightarrow> NULL \<notin> set xs"
    unfolding idle_queue_def by (rule list_fifo.rep_NULL)
qed (fact QueuePushNode_idle QueuePopNode_Nil QueuePopNode_Cons)+

text \<open>
  First in, first out: a consumer that pops a message queue until it answers the null
  pointer gets, after a producer has pushed a batch, what was queued before followed by the
  batch, in order, and leaves the queue empty.
\<close>

theorem queue_first_in_first_out:
  assumes "idle_queue h q xs" "set ps \<subseteq> dom h" "distinct (xs @ ps)" "NULL \<notin> set ps"
    "length xs + length ps < 2 ^ 32" "length xs + length ps < n"
  shows "\<exists>q1 h1 q' h'. push_all QueuePushNode q h ps = Some (q1, h1) \<and>
    drain QueuePopNode n q1 h1 = Some (xs @ ps, q', h') \<and> idle_queue h' q' []"
  using assms by (rule queue_fifo.fifo)

theorem queue_first_in_first_out_witness:
  "\<exists>q1 h1 q' h'. push_all QueuePushNode (QueueInit \<lparr>q_next = 5, q_prev = 5, q_count = 9, q_locked = True\<rparr>)
      demo_heap [3, 1, 2] = Some (q1, h1) \<and>
    drain QueuePopNode 4 q1 h1 = Some ([3, 1, 2], q', h') \<and> idle_queue h' q' []"
proof -
  let ?q = "QueueInit \<lparr>q_next = 5, q_prev = 5, q_count = 9, q_locked = True\<rparr>"
  have "idle_queue demo_heap ?q []"
    by (simp add: idle_queue_def idle_list_def dlist_def as_list_def QueueInit_def)
  from queue_first_in_first_out [OF this, of "[3, 1, 2]" 4] show ?thesis
    by (simp add: demo_heap_def)
qed

end
