(* ===== verification/Dci0.thy ===== *)
theory Dci0
  imports Ulp_Prelude
begin

text \<open>
  Uplink grants, \<open>ulp/src/dci0.c\<close>: the resource indication value and the format 0 message
  packed into the high bits of a 32-bit word. The parameter \<open>tdd\<close> selects the build variant
  \<open>LTE_TDD\<close>; the \<open>switch\<close> over the bandwidth is the table
  \<open>riv_layout\<close>.
\<close>

section \<open>Resource indication value\<close>

text \<open>
  The C integer promotions are written out: the quotient and the remainder are unsigned
  32-bit, they are truncated to 8 bits when stored, and the stored values are added as ints.
  A zero bandwidth divides by zero.
\<close>

definition calcRbByRiv :: "u8 \<Rightarrow> u32 \<Rightarrow> (u8 \<times> u8) option" where
  "calcRbByRiv bw riv = do {
     ensure (bw \<noteq> 0);
     let w = (ucast bw :: u32);
     let s = (ucast (riv mod w) :: u8);
     let n = (ucast (riv div w + 1) :: u8);
     let tmp = w * w + w - 1;
     if unat s + unat n \<ge> unat bw
     then Some (ucast ((tmp - riv) mod w), ucast ((tmp - riv) div w + 1))
     else Some (s, n)
   }"

definition calcRivByRb :: "u8 \<Rightarrow> u8 \<Rightarrow> u8 \<Rightarrow> u32" where
  "calcRivByRb bw rbStart numOfRb =
     (let b = uint bw; s = uint rbStart; n = uint numOfRb in
      if n - 1 \<le> b div 2 then word_of_int ((n - 1) * b + s)
      else word_of_int ((b - n + 1) * b + (b - 1 - s)))"

section \<open>Messages\<close>

record UlDciMsg =
  freqEnabledFlag :: u8
  freqHoppingBits :: u8
  rbStart :: u8
  numOfRb :: u8
  mcs :: u8
  ndi :: u8
  tpc :: u8
  cyclicShift2forDMRS :: u8
  ulIndexOrDAI :: u8
  cqiReq :: u8

text \<open>
  \<open>GET_BITS_VAL_FROM_INT32\<close> and \<open>ADD_BITS_VAL_TO_INT32\<close>, with
  \<open>BIT_MASK_n\<close> as \<open>mask n\<close>.
\<close>

definition get_bits :: "u32 \<Rightarrow> nat \<Rightarrow> nat \<Rightarrow> u32" where
  "get_bits v off n = drop_bit (32 - off) v AND mask n"

definition add_bits :: "u32 \<Rightarrow> u32 \<Rightarrow> nat \<Rightarrow> nat \<Rightarrow> u32" where
  "add_bits v b off n = v OR push_bit (32 - off) (b AND mask n)"

text \<open>
  Per bandwidth: the bits of the indication value without hopping, the hopping bits, and the
  bits of the indication value with hopping.
\<close>

definition riv_layout :: "u8 \<Rightarrow> (nat \<times> nat \<times> nat) option" where
  "riv_layout bw =
     (if bw = 100 then Some (13, 2, 11)
      else if bw = 75 then Some (12, 2, 10)
      else if bw = 50 then Some (11, 2, 9)
      else if bw = 25 then Some (9, 1, 8)
      else if bw = 15 then Some (7, 1, 6)
      else if bw = 6 then Some (5, 1, 4)
      else None)"

definition dci0_bit_length :: "bool \<Rightarrow> u8 \<Rightarrow> u32 option" where
  "dci0_bit_length tdd bw =
     (if bw = 100 then Some (if tdd then 31 else 28)
      else if bw = 75 then Some (if tdd then 30 else 27)
      else if bw = 50 then Some (if tdd then 29 else 27)
      else if bw = 25 then Some (if tdd then 27 else 25)
      else if bw = 15 then Some (if tdd then 25 else 22)
      else if bw = 6 then Some (if tdd then 23 else 21)
      else None)"

text \<open>
  \<open>decodeDci0\<close>: the message is left alone when the format flag is set; an unknown bandwidth
  decodes a zero indication value.
\<close>

definition decodeDci0 :: "bool \<Rightarrow> u8 \<Rightarrow> u32 \<Rightarrow> UlDciMsg \<Rightarrow> UlDciMsg option" where
  "decodeDci0 tdd bw d m =
     (if get_bits d 1 1 \<noteq> 0 then Some m
      else do {
        let m = m\<lparr>freqEnabledFlag := ucast (get_bits d 2 1)\<rparr>;
        let (off, riv, m) = (case riv_layout bw of
            None \<Rightarrow> (2, 0, m)
          | Some (full, hop, rest) \<Rightarrow>
              if freqEnabledFlag m = 0 then (2 + full, get_bits d (2 + full) full, m)
              else (2 + hop + rest, get_bits d (2 + hop + rest) rest,
                    m\<lparr>freqHoppingBits := ucast (get_bits d (2 + hop) hop)\<rparr>));
        (s, n) \<leftarrow> calcRbByRiv bw riv;
        let m = m\<lparr>rbStart := s, numOfRb := n, mcs := ucast (get_bits d (off + 5) 5),
          ndi := ucast (get_bits d (off + 6) 1), tpc := ucast (get_bits d (off + 8) 2),
          cyclicShift2forDMRS := ucast (get_bits d (off + 11) 3)\<rparr>;
        let (off, m) = (if tdd then (off + 13, m\<lparr>ulIndexOrDAI := ucast (get_bits d (off + 13) 2)\<rparr>)
          else (off + 11, m));
        Some (m\<lparr>cqiReq := ucast (get_bits d (off + 1) 1)\<rparr>)
      })"

text \<open>
  \<open>encodeDci0\<close>: the packed word and the bit length, which is left as it was (here
  \<open>None\<close>) for an unknown bandwidth.
\<close>

definition encodeDci0 :: "bool \<Rightarrow> u8 \<Rightarrow> UlDciMsg \<Rightarrow> u32 \<times> u32 option" where
  "encodeDci0 tdd bw m =
     (let riv = calcRivByRb bw (rbStart m) (numOfRb m);
          e = add_bits 0 (ucast (freqEnabledFlag m)) 2 1;
          (off, e) = (case riv_layout bw of
              None \<Rightarrow> (2, e)
            | Some (full, hop, rest) \<Rightarrow>
                if freqEnabledFlag m = 0 then (2 + full, add_bits e riv (2 + full) full)
                else (2 + hop + rest, add_bits (add_bits e (ucast (freqHoppingBits m)) (2 + hop) hop)
                  riv (2 + hop + rest) rest));
          e = add_bits e (ucast (mcs m)) (off + 5) 5;
          e = add_bits e (ucast (ndi m)) (off + 6) 1;
          e = add_bits e (ucast (tpc m)) (off + 8) 2;
          e = add_bits e (ucast (cyclicShift2forDMRS m)) (off + 11) 3;
          (off, e) = (if tdd then (off + 13, add_bits e (ucast (ulIndexOrDAI m)) (off + 13) 2)
            else (off + 11, e))
      in (add_bits e (ucast (cqiReq m)) (off + 1) 1, dci0_bit_length tdd bw))"

section \<open>The indication value\<close>

lemma unat_ucast_8_32: "unat (ucast (x :: u8) :: u32) = unat x"
  by (simp add: unsigned_ucast_eq take_bit_nat_eq_self_iff less_trans [OF unsigned_less])

lemma unat_ucast_32_8: "unat (x :: u32) < 256 \<Longrightarrow> unat (ucast x :: u8) = unat x"
  by (simp add: unsigned_ucast_eq take_bit_nat_eq_self_iff)

text \<open>The number arithmetic behind the two branches, with \<open>b\<close> blocks in the band.\<close>

lemma riv_div_mod:
  fixes q r b :: nat
  assumes "r < b"
  shows "(q * b + r) div b = q" "(q * b + r) mod b = r"
  using assms by simp_all

lemma riv_bound:
  fixes q r b :: nat
  assumes "q \<le> 256" "r < b" "b < 256"
  shows "q * b + r < 2 ^ 32"
proof -
  have "q * b \<le> 256 * 255" using assms by (intro mult_le_mono) auto
  with assms show ?thesis by simp
qed

lemma unat_of_int_nat: "k < 2 ^ 32 \<Longrightarrow> unat (of_int (int k) :: u32) = k"
  by (simp add: unat_of_nat_small)

lemma calcRivByRb_unat:
  assumes n: "0 < unat n" and sn: "unat s + unat n \<le> unat bw"
  shows "unat (calcRivByRb bw s n) =
    (if unat n - 1 \<le> unat bw div 2 then (unat n - 1) * unat bw + unat s
     else (unat bw - unat n + 1) * unat bw + (unat bw - 1 - unat s))"
proof -
  define b where "b = unat bw"
  have b: "b < 256" "uint bw = int b" using unsigned_less [of bw] by (simp_all add: b_def)
  have 1: "(uint n - 1) * int b + uint s = int ((unat n - 1) * b + unat s)"
    using n by (simp add: of_nat_diff)
  have 2: "(int b - uint n + 1) * int b + (int b - 1 - uint s) =
      int ((b - unat n + 1) * b + (b - 1 - unat s))"
  proof -
    have "int (b - unat n + 1) = int b - uint n + 1" "int (b - 1 - unat s) = int b - 1 - uint s"
      using n sn by (simp_all add: b_def of_nat_diff)
    then show ?thesis by (simp only: of_nat_add of_nat_mult)
  qed
  have 3: "uint n - 1 \<le> int b div 2 \<longleftrightarrow> unat n - 1 \<le> b div 2"
  proof -
    have "uint n - 1 = int (unat n - 1)" using n by (simp add: of_nat_diff)
    moreover have "int b div 2 = int (b div 2)" by (simp add: zdiv_int)
    ultimately show ?thesis by (simp only: of_nat_le_iff)
  qed
  have "(unat n - 1) * b + unat s < 2 ^ 32" "(b - unat n + 1) * b + (b - 1 - unat s) < 2 ^ 32"
    using n sn b(1) by (intro riv_bound; simp add: b_def)+
  note this [THEN unat_of_int_nat]
  then show ?thesis
    unfolding calcRivByRb_def Let_def b(2) 1 2 3 b_def [symmetric]
    by (cases "unat n - 1 \<le> b div 2") (simp_all only: if_True if_False simp_thms)
qed

text \<open>
  The decoder on the number of a value, as long as it fits the indication values of the band.
\<close>

lemma calcRbByRiv_nat:
  assumes b: "unat bw = b" "0 < b" and r: "unat riv = r" "r div b < 255" "r < b * b + b"
  shows "calcRbByRiv bw riv = Some
    (let t = b * b + b - 1 - r in
     if r mod b + (r div b + 1) \<ge> b then (of_nat (t mod b), of_nat (t div b + 1))
     else (of_nat (r mod b), of_nat (r div b + 1)))"
proof -
  have b': "b < 256" using b unsigned_less [of bw, where 'a = nat] by simp
  have bb: "b * b + b < 2 ^ 32"
  proof -
    have "b * b \<le> 256 * 256" using b' by (intro mult_le_mono) auto
    with b' show ?thesis by simp
  qed
  then have r32: "r < 2 ^ 32" using r by linarith
  let ?w = "ucast bw :: u32"
  have w: "?w = of_nat b" "unat ?w = b" using b unat_ucast_8_32 [of bw] by auto
  have rw: "riv = of_nat r" using r by auto
  have small: "ucast (of_nat k :: u32) = (of_nat k :: u8)" if "k < 2 ^ 32" for k
  proof -
    have "take_bit 32 k = k" using that by (simp add: take_bit_nat_eq_self_iff)
    then show ?thesis by (simp add: unsigned_of_nat)
  qed
  have dm: "x mod ?w = of_nat (unat x mod b)" "x div ?w = of_nat (unat x div b)" for x
    using w by (simp_all add: word_arith_nat_div word_arith_nat_mod)
  have t: "?w * ?w + ?w - 1 - riv = of_nat (b * b + b - 1 - r)"
    using r(3) b unfolding w rw by (simp add: of_nat_diff)
  have ut: "unat (?w * ?w + ?w - 1 - riv) = b * b + b - 1 - r"
    unfolding t using bb by (simp add: unat_of_nat_small)
  have lt: "r mod b < b" "r div b + 1 < 256" using b r by simp_all
  have "unat (of_nat (r mod b) :: u8) = r mod b" "unat (of_nat (r div b + 1) :: u8) = r div b + 1"
    using lt b' by (simp_all add: unat_of_nat_small del: of_nat_add of_nat_Suc)
  moreover have "riv mod ?w = of_nat (r mod b)" "riv div ?w + 1 = of_nat (r div b + 1)"
    unfolding dm r(1) by simp_all
  moreover have "ucast (of_nat (r mod b) :: u32) = (of_nat (r mod b) :: u8)"
    "ucast (of_nat (r div b + 1) :: u32) = (of_nat (r div b + 1) :: u8)"
    using lt b' small [of "r mod b"] small [of "r div b + 1"] by simp_all
  moreover have "ucast ((?w * ?w + ?w - 1 - riv) mod ?w) = (of_nat ((b * b + b - 1 - r) mod b) :: u8)"
    unfolding dm ut using b b' by (auto intro!: small simp: less_trans [OF mod_less_divisor])
  moreover have "ucast ((?w * ?w + ?w - 1 - riv) div ?w + 1) = (of_nat ((b * b + b - 1 - r) div b + 1) :: u8)"
  proof -
    have "(b * b + b - 1 - r) div b + 1 < 2 ^ 32"
      using bb le_less_trans [OF div_le_dividend, of "b * b + b - 1 - r" "2 ^ 32 - 1" b] b by simp
    from small [OF this] show ?thesis unfolding dm ut by (simp add: add.commute)
  qed
  moreover have "bw \<noteq> 0" using b by auto
  ultimately show ?thesis using b unfolding calcRbByRiv_def Let_def by (simp add: add.commute)
qed

lemma calcRbByRiv_form:
  assumes "unat bw = b" "0 < b" "unat riv = q * b + u" "u < b" "q < 255" "q * b + u < b * b + b"
    and t: "b * b + b - 1 - (q * b + u) = q' * b + u'" "u' < b"
  shows "calcRbByRiv bw riv = Some
    (if u + (q + 1) \<ge> b then (of_nat u', of_nat (q' + 1)) else (of_nat u, of_nat (q + 1)))"
proof -
  have "(q * b + u) div b = q" "(q * b + u) mod b = u" "(q' * b + u') div b = q'" "(q' * b + u') mod b = u'"
    using assms by simp_all
  with calcRbByRiv_nat [OF assms(1-3)] assms(5,6) t show ?thesis
    by (simp only: Let_def)
qed

text \<open>
  C26. The allocation (start block, number of blocks) survives the round trip through its
  indication value exactly when it does not end at the upper edge of the band or is long
  (more than half the band plus one): for a short allocation that reaches the last block the
  decoder's overflow test (\<open>>= bw\<close>) fires although the value was coded in the short form,
  and it answers a different allocation.
\<close>

theorem riv_round_trip_iff:
  assumes n: "0 < unat n" and sn: "unat s + unat n \<le> unat bw"
  shows "calcRbByRiv bw (calcRivByRb bw s n) = Some (s, n) \<longleftrightarrow>
    unat s + unat n < unat bw \<or> unat bw div 2 < unat n - 1"
proof -
  define b S N where d: "b = unat bw" "S = unat s" "N = unat n"
  have b: "0 < b" "b < 256" "S < b" "N \<le> b" "0 < N" "S + N \<le> b"
    using n sn unsigned_less [of bw, where 'a = nat] by (auto simp: d)
  have sn': "s = of_nat S" "n = of_nat N" by (simp_all add: d)
  have short: "b * b + b - 1 - ((N - 1) * b + S) = (b - N + 1) * b + (b - 1 - S)"
    "b * b + b - 1 - ((b - N + 1) * b + (b - 1 - S)) = (N - 1) * b + S"
    "(N - 1) * b + S < b * b + b" "(b - N + 1) * b + (b - 1 - S) < b * b + b"
  proof -
    obtain M K where MK: "N = Suc M" "b = N + K" using b by (metis gr0_implies_Suc le_Suc_ex)
    have "b * b + b - 1 = ((N - 1) * b + S) + ((b - N + 1) * b + (b - 1 - S))"
      using b MK by (auto simp: algebra_simps)
    then show "b * b + b - 1 - ((N - 1) * b + S) = (b - N + 1) * b + (b - 1 - S)"
      "b * b + b - 1 - ((b - N + 1) * b + (b - 1 - S)) = (N - 1) * b + S"
      "(N - 1) * b + S < b * b + b" "(b - N + 1) * b + (b - 1 - S) < b * b + b"
      using b by linarith+
  qed
  show ?thesis
  proof (cases "N - 1 \<le> b div 2")
    case True
    have r: "unat (calcRivByRb bw s n) = (N - 1) * b + S"
      using calcRivByRb_unat [OF n sn] True by (simp add: d)
    have e: "calcRbByRiv bw (calcRivByRb bw s n) = Some
      (if S + (N - 1 + 1) \<ge> b then (of_nat (b - 1 - S), of_nat (b - N + 1 + 1)) else (of_nat S, of_nat (N - 1 + 1)))"
      using b short by (intro calcRbByRiv_form [OF d(1) [symmetric] b(1) r]) linarith+
    have "of_nat (b - 1 - S) \<noteq> (of_nat S :: u8) \<or> of_nat (b - N + 1 + 1) \<noteq> (of_nat N :: u8)" if SN: "S + N = b"
    proof (rule ccontr)
      assume "\<not> ?thesis"
      then have u: "unat (of_nat (b - 1 - S) :: u8) = unat (of_nat S :: u8)"
        "unat (of_nat (b - N + 1 + 1) :: u8) = unat (of_nat N :: u8)" by simp_all
      have "unat (of_nat k :: u8) = k" if "k < 256" for k
        using that by (intro unat_of_nat_small) simp
      from u(1) this [of "b - 1 - S"] this [of S] have 1: "b - 1 - S = S" using b by linarith
      then have "b - N + 1 + 1 < 256" using b SN by linarith
      with u(2) have "b - N + 1 + 1 = N" using b
        by (simp add: unat_of_nat_small del: of_nat_add of_nat_Suc)
      with 1 show False using SN b by linarith
    qed
    with e have "calcRbByRiv bw (calcRivByRb bw s n) = Some (s, n) \<longleftrightarrow> \<not> b \<le> S + N"
      using b unfolding sn' by (cases "b \<le> S + N") (auto simp: of_nat_diff)
    with True show ?thesis unfolding d [symmetric] by linarith
  next
    case False
    have r: "unat (calcRivByRb bw s n) = (b - N + 1) * b + (b - 1 - S)"
      using calcRivByRb_unat [OF n sn] False by (simp add: d)
    have "b - 1 - S + (b - N + 1 + 1) \<ge> b" using b False by linarith
    moreover have "N - 1 < 255" "b - N + 1 < 255" "b - 1 - S < b" using b False by linarith+
    ultimately have "calcRbByRiv bw (calcRivByRb bw s n) = Some (of_nat S, of_nat (N - 1 + 1))"
      using b(1,3) short(2,4) calcRbByRiv_form [OF d(1) [symmetric] b(1) r, of "N - 1" S]
      by (simp only: if_True)
    moreover have "N - 1 + 1 = N" using b by simp
    ultimately have "calcRbByRiv bw (calcRivByRb bw s n) = Some (s, n)" by (simp only: sn')
    then show ?thesis using False unfolding d [symmetric] by simp
  qed
qed

theorem riv_round_trip_iff_witness:
  "calcRbByRiv 100 (calcRivByRb 100 16 2) = Some (16, 2) \<and>
   calcRbByRiv 25 (calcRivByRb 25 20 5) \<noteq> Some (20, 5)"
  using riv_round_trip_iff [of 2 16 100] riv_round_trip_iff [of 5 20 25] by simp

section \<open>The packed message\<close>

lemma get_add_same:
  "n \<le> off \<Longrightarrow> off \<le> 32 \<Longrightarrow> get_bits (add_bits v b off n) off n = get_bits v off n OR (b AND mask n)"
  unfolding get_bits_def add_bits_def
  by (rule bit_eqI) (auto simp: bit_simps)

lemma get_add_other:
  "n \<le> off \<Longrightarrow> off \<le> 32 \<Longrightarrow> n' \<le> off' \<Longrightarrow> off' \<le> 32 \<Longrightarrow> off + n' \<le> off' \<or> off' + n \<le> off \<Longrightarrow>
   get_bits (add_bits v b off' n') off n = get_bits v off n"
  unfolding get_bits_def add_bits_def
  by (rule bit_eqI) (auto simp: bit_simps)

lemma get_zero [simp]: "get_bits 0 off n = 0"
  by (simp add: get_bits_def)

lemma unat_inj: "unat x = unat y \<Longrightarrow> x = y"
  by (simp add: word_unat_eq_iff)

lemma and_mask_fit: "unat (x :: 'a::len word) < 2 ^ n \<Longrightarrow> x AND mask n = x"
proof -
  assume "unat x < 2 ^ n"
  then have "unat (take_bit n x) = unat x"
    by (simp add: unsigned_take_bit_eq take_bit_nat_eq_self_iff)
  then have "take_bit n x = x" by (rule unat_inj)
  then show ?thesis by (simp add: take_bit_eq_mask)
qed

lemma ucast_ucast_8: "ucast (ucast (x :: u8) :: u32) = x"
  using unsigned_less [of x, where 'a = nat]
  by (intro unat_inj) (simp add: unat_ucast_32_8 unat_ucast_8_32)

lemma field_fit: "unat (x :: u8) < 2 ^ n \<Longrightarrow> ucast ((ucast x :: u32) AND mask n) = x"
  by (simp add: and_mask_fit unat_ucast_8_32 ucast_ucast_8)

text \<open>The messages that fit the format of a bandwidth.\<close>

definition dci0_fits :: "bool \<Rightarrow> u8 \<Rightarrow> UlDciMsg \<Rightarrow> bool" where
  "dci0_fits tdd bw m \<longleftrightarrow>
     (case riv_layout bw of None \<Rightarrow> False
      | Some (full, hop, rest) \<Rightarrow>
          (if freqEnabledFlag m = 0 then unat (calcRivByRb bw (rbStart m) (numOfRb m)) < 2 ^ full
           else freqEnabledFlag m = 1 \<and> unat (freqHoppingBits m) < 2 ^ hop \<and>
             unat (calcRivByRb bw (rbStart m) (numOfRb m)) < 2 ^ rest)) \<and>
     unat (mcs m) < 2 ^ 5 \<and> unat (ndi m) < 2 ^ 1 \<and> unat (tpc m) < 2 ^ 2 \<and>
     unat (cyclicShift2forDMRS m) < 2 ^ 3 \<and> (tdd \<longrightarrow> unat (ulIndexOrDAI m) < 2 ^ 2) \<and>
     unat (cqiReq m) < 2 ^ 1"

text \<open>The fields a decoded message takes from the storage it is decoded into.\<close>

definition keeps_from :: "bool \<Rightarrow> UlDciMsg \<Rightarrow> UlDciMsg \<Rightarrow> UlDciMsg" where
  "keeps_from tdd old m =
     (let m = (if freqEnabledFlag m = 0 then m\<lparr>freqHoppingBits := freqHoppingBits old\<rparr> else m)
      in if tdd then m else m\<lparr>ulIndexOrDAI := ulIndexOrDAI old\<rparr>)"

lemma riv_layout_cases:
  "riv_layout bw = Some lay \<Longrightarrow>
   lay \<in> {(13, 2, 11), (12, 2, 10), (11, 2, 9), (9, 1, 8), (7, 1, 6), (5, 1, 4)}"
  by (auto simp: riv_layout_def split: if_splits)

lemma get_add_zero:
  "n \<le> off \<Longrightarrow> off \<le> 32 \<Longrightarrow> get_bits v off n = 0 \<Longrightarrow> get_bits (add_bits v b off n) off n = b AND mask n"
  by (simp add: get_add_same)

text \<open>The fields of an encoded message, read at their offsets.\<close>

lemma encodeDci0_fields:
  assumes lay: "riv_layout bw = Some (full, hop, rest)" and l: "full \<le> 13" "hop + rest = full"
    and E: "E = fst (encodeDci0 tdd bw m)" and R: "riv = calcRivByRb bw (rbStart m) (numOfRb m)"
  shows "get_bits E 1 1 = 0"
    and "get_bits E 2 1 = ucast (freqEnabledFlag m) AND mask 1"
    and "freqEnabledFlag m = 0 \<Longrightarrow> get_bits E (2 + full) full = riv AND mask full"
    and "freqEnabledFlag m \<noteq> 0 \<Longrightarrow> get_bits E (2 + hop) hop = ucast (freqHoppingBits m) AND mask hop"
    and "freqEnabledFlag m \<noteq> 0 \<Longrightarrow> get_bits E (2 + full) rest = riv AND mask rest"
    and "get_bits E (2 + full + 5) 5 = ucast (mcs m) AND mask 5"
    and "get_bits E (2 + full + 6) 1 = ucast (ndi m) AND mask 1"
    and "get_bits E (2 + full + 8) 2 = ucast (tpc m) AND mask 2"
    and "get_bits E (2 + full + 11) 3 = ucast (cyclicShift2forDMRS m) AND mask 3"
    and "tdd \<Longrightarrow> get_bits E (2 + full + 13) 2 = ucast (ulIndexOrDAI m) AND mask 2"
    and "get_bits E (2 + full + (if tdd then 13 else 11) + 1) 1 = ucast (cqiReq m) AND mask 1"
  using l unfolding E encodeDci0_def Let_def lay R
  by (cases tdd; cases "freqEnabledFlag m = 0"; simp add: get_add_zero get_add_other add.assoc)+

lemma keeps_from_old:
  "keeps_from tdd old m = old\<lparr>freqEnabledFlag := freqEnabledFlag m,
     freqHoppingBits := (if freqEnabledFlag m = 0 then freqHoppingBits old else freqHoppingBits m),
     rbStart := rbStart m, numOfRb := numOfRb m, mcs := mcs m, ndi := ndi m, tpc := tpc m,
     cyclicShift2forDMRS := cyclicShift2forDMRS m,
     ulIndexOrDAI := (if tdd then ulIndexOrDAI m else ulIndexOrDAI old), cqiReq := cqiReq m\<rparr>"
  by (cases old; cases m) (simp add: keeps_from_def)


definition demo_dci :: UlDciMsg where
  "demo_dci = \<lparr>freqEnabledFlag = 0, freqHoppingBits = 3, rbStart = 16, numOfRb = 2, mcs = 18, ndi = 1,
     tpc = 1, cyclicShift2forDMRS = 5, ulIndexOrDAI = 2, cqiReq = 1\<rparr>"

lemma demo_riv: "calcRivByRb 25 16 2 = 41" "calcRbByRiv 25 41 = Some (16, 2)"
  by (simp_all add: calcRivByRb_def calcRbByRiv_def Let_def)


lemma bit_add_bits: "k < 32 - off \<Longrightarrow> bit (add_bits v b off n) k \<longleftrightarrow> bit v k"
  by (auto simp: add_bits_def bit_simps)

text \<open>
  An encoded message stays within the bit length the encoder reports: every bit of the
  word below that length is zero, and so is the format flag in the highest bit.
\<close>

theorem dci0_within_length:
  assumes "snd (encodeDci0 tdd bw m) = Some n" and "k < 32 - unat n \<or> k = 31"
  shows "\<not> bit (fst (encodeDci0 tdd bw m)) k"
proof -
  obtain full hop rest where lay: "riv_layout bw = Some (full, hop, rest)"
    and n: "2 + full + (if tdd then 14 else 12) \<le> unat n"
    using assms(1) unfolding encodeDci0_def dci0_bit_length_def riv_layout_def Let_def
    by (auto split: if_splits)
  have l: "full \<le> 13" "hop + rest = full" using riv_layout_cases [OF lay] by auto
  from assms(2) show ?thesis
  proof
    assume "k < 32 - unat n"
    then have k: "k + (2 + full + (if tdd then 14 else 12)) < 32" using n by linarith
    show ?thesis using k l unfolding encodeDci0_def Let_def lay
      by (cases tdd; cases "freqEnabledFlag m = 0") (simp_all add: bit_add_bits)
  next
    assume "k = 31"
    have "\<not> bit (get_bits (fst (encodeDci0 tdd bw m)) 1 1) 0"
      using encodeDci0_fields(1) [OF lay l refl refl, where tdd = tdd and m = m] by simp
    with \<open>k = 31\<close> show ?thesis by (simp add: get_bits_def bit_simps)
  qed
qed

theorem dci0_within_length_witness:
  "\<not> bit (fst (encodeDci0 True 100 demo_dci)) 0 \<and> snd (encodeDci0 True 100 demo_dci) = Some 31"
proof -
  have "snd (encodeDci0 True 100 demo_dci) = Some 31"
    by (simp add: encodeDci0_def dci0_bit_length_def riv_layout_def demo_dci_def)
  from this dci0_within_length [OF this, of 0] show ?thesis by simp
qed

end
