(* ===== verification/Sync_Event.thy ===== *)
theory Sync_Event
  imports Ulp_Prelude
begin

text \<open>
  The locks of \<open>ulp/src/sync.c\<close> and the event of \<open>ulp/src/event.c\<close> (Linux
  build): a mutex, a condition variable and a flag, used by any number of threads. The two protocols
  \<open>EventWait\<close> and \<open>EventSend\<close> are a step relation over the threads' positions;
  the POSIX functions they call appear as the documented transitions: a lock is granted when nobody
  holds the mutex, waiting on the condition releases the mutex and blocks in one step, a signal wakes
  one waiting thread if there is one, and a waiting thread may wake up spuriously.
\<close>

section \<open>Locks\<close>

text \<open>
  A \<open>SEM_LOCK\<close> is a mutex; \<open>init_ok\<close> is the answer of
  \<open>pthread_mutex_init\<close>.
\<close>

record SEM_LOCK =
  sem_ready :: bool
  sem_taken :: bool

text \<open>\<open>KpiCountSem\<close> on the counter of existing locks: it never goes below zero.\<close>

definition KpiCountSem :: "bool \<Rightarrow> u32 \<Rightarrow> u32" where
  "KpiCountSem createFlag n = (if createFlag then n + 1 else if n \<noteq> 0 then n - 1 else n)"

text \<open>The answer, the lock, and the counter of locks.\<close>

definition SemInit :: "bool \<Rightarrow> u32 \<Rightarrow> SEM_LOCK \<Rightarrow> u32 \<Rightarrow> int \<times> SEM_LOCK \<times> u32" where
  "SemInit init_ok value s n =
     (if init_ok then (0, \<lparr>sem_ready = True, sem_taken = (value = 0)\<rparr>, KpiCountSem True n) else (1, s, n))"

definition SemDestroy :: "SEM_LOCK \<Rightarrow> u32 \<Rightarrow> SEM_LOCK \<times> u32" where
  "SemDestroy s n = (s\<lparr>sem_ready := False\<rparr>, KpiCountSem False n)"

text \<open>\<open>None\<close>: the caller blocks.\<close>

definition SemWait :: "SEM_LOCK \<Rightarrow> SEM_LOCK option" where
  "SemWait s = (if sem_taken s then None else Some (s\<lparr>sem_taken := True\<rparr>))"

definition SemPost :: "SEM_LOCK \<Rightarrow> SEM_LOCK" where
  "SemPost s = s\<lparr>sem_taken := False\<rparr>"

section \<open>The event and the threads that use it\<close>

text \<open>
  Where a thread stands: outside; in \<open>EventWait\<close> before the lock, at the test of the loop,
  blocked on the condition, woken and before the lock, and before the unlock; in \<open>EventSend\<close>
  before the lock, before setting the flag, before the signal, and before the unlock.
\<close>

datatype ev_pc = Outside | W_Lock | W_Test | W_Blocked | W_Woken | W_Unlock
  | S_Lock | S_Set | S_Signal | S_Unlock

text \<open>
  \<open>sent\<close> and \<open>waited\<close> count the flag settings of \<open>EventSend\<close> and
  the flag clearings of \<open>EventWait\<close> so far; the program does not have these two counters.
\<close>

record Event =
  setFlag :: u8
  ev_mutex :: "nat option"
  ev_at :: "nat \<Rightarrow> ev_pc"
  sent :: nat
  waited :: nat

text \<open>\<open>EventInit\<close>: the answers of the two POSIX initialisers decide the result.\<close>

definition EventInit :: "bool \<Rightarrow> bool \<Rightarrow> Event \<Rightarrow> int \<times> Event" where
  "EventInit mutex_ok cond_ok e =
     (if mutex_ok then (if cond_ok then (0, e\<lparr>setFlag := 0, ev_mutex := None\<rparr>) else (1, e))
      else (1, e))"

definition ev_move :: "nat \<Rightarrow> ev_pc \<Rightarrow> Event \<Rightarrow> Event" where
  "ev_move t c e = e\<lparr>ev_at := (ev_at e)(t := c)\<rparr>"

definition ev_hold :: "nat option \<Rightarrow> Event \<Rightarrow> Event" where
  "ev_hold m e = e\<lparr>ev_mutex := m\<rparr>"

text \<open>
  One step of one thread; \<open>f\<close> tells whether \<open>pthread_cond_signal\<close> may fail, in
  which case \<open>EventSend\<close> returns 1 at once.
\<close>

inductive ev_step :: "bool \<Rightarrow> Event \<Rightarrow> Event \<Rightarrow> bool" for f where
  wait_call: "ev_at e t = Outside \<Longrightarrow> ev_step f e (ev_move t W_Lock e)"
| wait_lock: "ev_at e t = W_Lock \<Longrightarrow> ev_mutex e = None \<Longrightarrow>
    ev_step f e (ev_hold (Some t) (ev_move t W_Test e))"
| wait_block: "ev_at e t = W_Test \<Longrightarrow> setFlag e = 0 \<Longrightarrow>
    ev_step f e (ev_hold None (ev_move t W_Blocked e))"
| wait_spurious: "ev_at e t = W_Blocked \<Longrightarrow> ev_step f e (ev_move t W_Woken e)"
| wait_relock: "ev_at e t = W_Woken \<Longrightarrow> ev_mutex e = None \<Longrightarrow>
    ev_step f e (ev_hold (Some t) (ev_move t W_Test e))"
| wait_take: "ev_at e t = W_Test \<Longrightarrow> setFlag e \<noteq> 0 \<Longrightarrow>
    ev_step f e (ev_move t W_Unlock e\<lparr>setFlag := 0, waited := waited e + 1\<rparr>)"
| wait_unlock: "ev_at e t = W_Unlock \<Longrightarrow> ev_step f e (ev_hold None (ev_move t Outside e))"
| send_call: "ev_at e t = Outside \<Longrightarrow> ev_step f e (ev_move t S_Lock e)"
| send_lock: "ev_at e t = S_Lock \<Longrightarrow> ev_mutex e = None \<Longrightarrow>
    ev_step f e (ev_hold (Some t) (ev_move t S_Set e))"
| send_set: "ev_at e t = S_Set \<Longrightarrow>
    ev_step f e (ev_move t S_Signal e\<lparr>setFlag := 1, sent := sent e + 1\<rparr>)"
| send_signal: "ev_at e t = S_Signal \<Longrightarrow> ev_at e w = W_Blocked \<Longrightarrow>
    ev_step f e (ev_move w W_Woken (ev_move t S_Unlock e))"
| send_signal_none: "ev_at e t = S_Signal \<Longrightarrow> (\<And>w. ev_at e w \<noteq> W_Blocked) \<Longrightarrow>
    ev_step f e (ev_move t S_Unlock e)"
| send_fail: "f \<Longrightarrow> ev_at e t = S_Signal \<Longrightarrow> ev_step f e (ev_move t Outside e)"
| send_unlock: "ev_at e t = S_Unlock \<Longrightarrow> ev_step f e (ev_hold None (ev_move t Outside e))"

inductive ev_reach :: "bool \<Rightarrow> Event \<Rightarrow> bool" for f where
  start: "setFlag e = 0 \<Longrightarrow> ev_mutex e = None \<Longrightarrow> (\<And>t. ev_at e t = Outside) \<Longrightarrow>
    sent e = 0 \<Longrightarrow> waited e = 0 \<Longrightarrow> ev_reach f e"
| step: "ev_reach f e \<Longrightarrow> ev_step f e e' \<Longrightarrow> ev_reach f e'"

lemma ev_move_simps [simp]:
  "ev_at (ev_move t c e) = (ev_at e)(t := c)" "setFlag (ev_move t c e) = setFlag e"
  "ev_mutex (ev_move t c e) = ev_mutex e" "sent (ev_move t c e) = sent e" "waited (ev_move t c e) = waited e"
  by (simp_all add: ev_move_def)

lemma ev_hold_simps [simp]:
  "ev_at (ev_hold m e) = ev_at e" "setFlag (ev_hold m e) = setFlag e"
  "ev_mutex (ev_hold m e) = m" "sent (ev_hold m e) = sent e" "waited (ev_hold m e) = waited e"
  by (simp_all add: ev_hold_def)

section \<open>Mutual exclusion\<close>

definition inside :: "ev_pc \<Rightarrow> bool" where
  "inside c \<longleftrightarrow> c \<in> {W_Test, W_Unlock, S_Set, S_Signal, S_Unlock}"

lemma inside_simps [simp]:
  "inside W_Test" "inside W_Unlock" "inside S_Set" "inside S_Signal" "inside S_Unlock"
  "\<not> inside Outside" "\<not> inside W_Lock" "\<not> inside W_Blocked" "\<not> inside W_Woken" "\<not> inside S_Lock"
  by (simp_all add: inside_def)

definition holders_own :: "Event \<Rightarrow> bool" where
  "holders_own e \<longleftrightarrow> (\<forall>t. inside (ev_at e t) \<longrightarrow> ev_mutex e = Some t)"

lemma holders_ownD: "holders_own e \<Longrightarrow> inside (ev_at e t) \<Longrightarrow> ev_mutex e = Some t"
  by (simp add: holders_own_def)

lemma holders_own_unique:
  "holders_own e \<Longrightarrow> inside (ev_at e t) \<Longrightarrow> inside (ev_at e u) \<Longrightarrow> t = u"
  using holders_ownD [of e t] holders_ownD [of e u] by simp

lemma holders_own_step: "ev_step f e e' \<Longrightarrow> holders_own e \<Longrightarrow> holders_own e'"
proof (induction rule: ev_step.induct)
  case (wait_block e t)
  then show ?case using holders_own_unique [of e t] by (auto simp: holders_own_def)
next
  case (wait_unlock e t)
  then show ?case using holders_own_unique [of e t] by (auto simp: holders_own_def)
next
  case (send_unlock e t)
  then show ?case using holders_own_unique [of e t] by (auto simp: holders_own_def)
qed (auto simp: holders_own_def)

lemma holders_own_reach: "ev_reach f e \<Longrightarrow> holders_own e"
  by (induction rule: ev_reach.induct) (simp add: holders_own_def, rule holders_own_step)

text \<open>
  C28. At most one thread at a time is between the lock and the unlock of \<open>EventWait\<close> or
  \<open>EventSend\<close>, also when signalling may fail.
\<close>

theorem event_mutual_exclusion:
  assumes "ev_reach f e" "inside (ev_at e t)" "inside (ev_at e u)"
  shows "t = u"
  using holders_own_unique [OF holders_own_reach] assms .

section \<open>Wakeups are neither lost nor duplicated\<close>

definition coming :: "ev_pc \<Rightarrow> bool" where
  "coming c \<longleftrightarrow> c \<in> {W_Lock, W_Test, W_Woken, S_Signal}"

definition tokens_ok :: "Event \<Rightarrow> bool" where
  "tokens_ok e \<longleftrightarrow> (setFlag e = 0 \<or> setFlag e = 1) \<and> waited e + unat (setFlag e) \<le> sent e"

definition pending_ok :: "Event \<Rightarrow> bool" where
  "pending_ok e \<longleftrightarrow>
     (setFlag e \<noteq> 0 \<longrightarrow> (\<forall>w. ev_at e w \<noteq> W_Blocked) \<or> (\<exists>t. coming (ev_at e t)))"

lemma coming_simps [simp]:
  "coming W_Lock" "coming W_Test" "coming W_Woken" "coming S_Signal"
  "\<not> coming Outside" "\<not> coming W_Blocked" "\<not> coming W_Unlock" "\<not> coming S_Lock" "\<not> coming S_Set"
  "\<not> coming S_Unlock"
  by (simp_all add: coming_def)

lemma tokens_ok_step: "ev_step f e e' \<Longrightarrow> tokens_ok e \<Longrightarrow> tokens_ok e'"
  by (induction rule: ev_step.induct) (auto simp: tokens_ok_def)

lemma tokens_ok_reach: "ev_reach f e \<Longrightarrow> tokens_ok e"
  by (induction rule: ev_reach.induct) (simp add: tokens_ok_def, rule tokens_ok_step)

lemma pending_ok_hold [simp]: "pending_ok (ev_hold m e) = pending_ok e"
  by (simp add: pending_ok_def)

lemma pending_ok_move:
  assumes "pending_ok e" "\<not> coming (ev_at e t) \<or> coming c" "c \<noteq> W_Blocked"
  shows "pending_ok (ev_move t c e)"
proof -
  have "coming (((ev_at e)(t := c)) u)" if "coming (ev_at e u)" for u
    using that assms(2) by auto
  moreover have "ev_at e w = W_Blocked" if "((ev_at e)(t := c)) w = W_Blocked" for w
    using that assms(3) by (auto split: if_splits)
  ultimately show ?thesis using assms(1) unfolding pending_ok_def ev_move_simps by metis
qed

lemma pending_ok_step: "ev_step False e e' \<Longrightarrow> pending_ok e \<Longrightarrow> pending_ok e'"
proof (induction rule: ev_step.induct)
  case (send_signal e t w)
  then show ?case by (auto simp: pending_ok_def intro: exI [of _ w])
next
  case (wait_block e t)
  then show ?case by (simp add: pending_ok_def)
next
  case (wait_take e t)
  then show ?case by (simp add: pending_ok_def)
next
  case (send_set e t)
  then show ?case by (auto simp: pending_ok_def intro: exI [of _ t])
next
  case (send_signal_none e t)
  then show ?case by (auto simp: pending_ok_def)
qed (auto intro!: pending_ok_move)

lemma pending_ok_reach: "ev_reach False e \<Longrightarrow> pending_ok e"
  by (induction rule: ev_reach.induct) (simp add: pending_ok_def, rule pending_ok_step)

text \<open>
  Every completed wait consumes a send of its own: the waits that took the flag never
  outnumber the sends, and a set flag is one more send that nobody has consumed yet.
\<close>

theorem event_no_duplicated_wakeup:
  assumes "ev_reach f e"
  shows "waited e + (if setFlag e = 0 then 0 else 1) \<le> sent e"
  using tokens_ok_reach [OF assms] by (auto simp: tokens_ok_def)


section \<open>The failing signal\<close>

inductive ev_steps :: "bool \<Rightarrow> Event \<Rightarrow> Event \<Rightarrow> bool" for f where
  none: "ev_steps f e e"
| more: "ev_steps f e e' \<Longrightarrow> ev_step f e' e'' \<Longrightarrow> ev_steps f e e''"

text \<open>The thread that owns the mutex is not at a place from which it would release it.\<close>

definition mutex_leaked :: "nat \<Rightarrow> Event \<Rightarrow> bool" where
  "mutex_leaked t e \<longleftrightarrow> holders_own e \<and> ev_mutex e = Some t \<and> \<not> inside (ev_at e t)"

lemma mutex_leaked_step:
  assumes "ev_step f e e'" "mutex_leaked t e"
  shows "mutex_leaked t e' \<and> sent e' = sent e \<and> waited e' = waited e"
proof -
  have o: "holders_own e" "ev_mutex e = Some t" and none: "\<And>u. \<not> inside (ev_at e u)"
    using assms(2) holders_ownD [of e] unfolding mutex_leaked_def by auto
  show ?thesis using assms(1) o none holders_own_step [OF assms(1) o(1)]
  proof (induction rule: ev_step.induct)
    case (wait_call e u)
    then show ?case by (auto simp: mutex_leaked_def)
  next
    case (wait_spurious e u)
    then show ?case by (auto simp: mutex_leaked_def)
  next
    case (send_call e u)
    then show ?case by (auto simp: mutex_leaked_def)
  qed (metis inside_simps option.distinct(1))+
qed

lemma mutex_leaked_steps:
  "ev_steps f e e' \<Longrightarrow> mutex_leaked t e \<Longrightarrow> mutex_leaked t e' \<and> sent e' = sent e \<and> waited e' = waited e"
  by (induction rule: ev_steps.induct) (auto dest: mutex_leaked_step)

lemma failed_signal_leaks:
  assumes "ev_reach True e" "ev_at e t = S_Signal"
  shows "mutex_leaked t (ev_move t Outside e)"
proof -
  have "holders_own e" using holders_own_reach [OF assms(1)] .
  moreover have "ev_step True e (ev_move t Outside e)" using assms(2) by (intro send_fail) simp_all
  ultimately show ?thesis using assms(2) holders_ownD [of e t] holders_own_step
    by (auto simp: mutex_leaked_def)
qed


section \<open>A concrete run\<close>

text \<open>Thread 1 waits and blocks, thread 2 sends up to its signal.\<close>

definition ev0 :: Event where
  "ev0 = \<lparr>setFlag = 0, ev_mutex = None, ev_at = (\<lambda>_. Outside), sent = 0, waited = 0\<rparr>"

definition ev_sending :: Event where
  "ev_sending = \<lparr>setFlag = 1, ev_mutex = Some 2, ev_at = (\<lambda>_. Outside)(1 := W_Blocked, 2 := S_Signal),
     sent = 1, waited = 0\<rparr>"

lemma ev_sending_reach: "ev_reach f ev_sending"
proof -
  note m = ev_move_def ev_hold_def
  let ?e = "\<lambda>m c d. \<lparr>setFlag = 0, ev_mutex = m, ev_at = (\<lambda>_. Outside)(1 := c, 2 := d),
    sent = 0, waited = 0\<rparr>"
  have "ev_reach f (?e None Outside Outside)" by (rule ev_reach.start) simp_all
  moreover have "ev_step f (?e None Outside Outside) (?e None W_Lock Outside)"
    using wait_call [of "?e None Outside Outside" 1 f] by (simp add: m fun_upd_twist)
  moreover have "ev_step f (?e None W_Lock Outside) (?e (Some 1) W_Test Outside)"
    using wait_lock [of "?e None W_Lock Outside" 1 f] by (simp add: m fun_upd_twist)
  moreover have "ev_step f (?e (Some 1) W_Test Outside) (?e None W_Blocked Outside)"
    using wait_block [of "?e (Some 1) W_Test Outside" 1 f] by (simp add: m fun_upd_twist)
  moreover have "ev_step f (?e None W_Blocked Outside) (?e None W_Blocked S_Lock)"
    using send_call [of "?e None W_Blocked Outside" 2 f] by (simp add: m)
  moreover have "ev_step f (?e None W_Blocked S_Lock) (?e (Some 2) W_Blocked S_Set)"
    using send_lock [of "?e None W_Blocked S_Lock" 2 f] by (simp add: m)
  moreover have "ev_step f (?e (Some 2) W_Blocked S_Set) ev_sending"
    using send_set [of "?e (Some 2) W_Blocked S_Set" 2 f] by (simp add: m ev_sending_def)
  ultimately show ?thesis by (meson ev_reach.step)
qed

lemma ev_sending_simps:
  "ev_at ev_sending 1 = W_Blocked" "ev_at ev_sending 2 = S_Signal" "setFlag ev_sending = 1"
  "sent ev_sending = 1" "waited ev_sending = 0" "ev_mutex ev_sending = Some 2"
  by (simp_all add: ev_sending_def)

theorem event_mutual_exclusion_witness: "{t. inside (ev_at ev_sending t)} = {2}"
proof -
  have "inside (ev_at ev_sending 2)" by (simp only: ev_sending_simps inside_simps)
  with event_mutual_exclusion [OF ev_sending_reach this] show ?thesis by blast
qed

theorem event_no_duplicated_wakeup_witness:
  "waited ev_sending + 1 \<le> sent ev_sending"
  using event_no_duplicated_wakeup [OF ev_sending_reach] by (simp add: ev_sending_simps)



end
