(* ===== verification/Alloc_Interface.thy ===== *)
theory Alloc_Interface
  imports Ulp_Prelude
begin

text \<open>
  The contract between the block allocator and the protocol layers that take buffers and
  control blocks from it: an allocation answers the null pointer and changes nothing, or
  hands out a block nobody owns; a release of an owned block takes it back; neither touches
  the bytes of any block.  What follows for a client that allocates and releases in any
  order is proved once here.
\<close>

section \<open>A client\<close>

text \<open>Ask for a block of a size, or give back the \<open>i\<close>-th block the client owns.\<close>

datatype mem_req = Req u32 | Rel nat

definition drop_nth :: "nat \<Rightarrow> 'a list \<Rightarrow> 'a list" where
  "drop_nth i xs = take i xs @ drop (Suc i) xs"

fun alloc_run :: "('s \<Rightarrow> u32 \<Rightarrow> (ptr \<times> 's) option) \<Rightarrow> ('s \<Rightarrow> ptr \<Rightarrow> 's option) \<Rightarrow>
    mem_req list \<Rightarrow> ptr list \<Rightarrow> 's \<Rightarrow> (ptr list \<times> 's) option" where
  "alloc_run alloc free [] own s = Some (own, s)"
| "alloc_run alloc free (Req n # rs) own s = do {
     (p, s') \<leftarrow> alloc s n;
     alloc_run alloc free rs (if p = NULL then own else own @ [p]) s' }"
| "alloc_run alloc free (Rel i # rs) own s =
     (if i < length own then do {
        s' \<leftarrow> free s (own ! i);
        alloc_run alloc free rs (drop_nth i own) s'
      } else alloc_run alloc free rs own s)"

lemma drop_nth_split: "i < length xs \<Longrightarrow> \<exists>ys zs. xs = ys @ xs ! i # zs \<and> drop_nth i xs = ys @ zs"
  using id_take_nth_drop [of i xs] by (auto simp: drop_nth_def)

section \<open>The contract\<close>

locale allocator =
  fixes inv :: "'s \<Rightarrow> bool"
    and owned :: "'s \<Rightarrow> ptr set"
    and avail :: "'s \<Rightarrow> nat"
    and bytes :: "'s \<Rightarrow> ptr \<Rightarrow> nat \<Rightarrow> u8"
    and alloc :: "'s \<Rightarrow> u32 \<Rightarrow> (ptr \<times> 's) option"
    and free :: "'s \<Rightarrow> ptr \<Rightarrow> 's option"
  assumes alloc_law: "inv s \<Longrightarrow> alloc s n = Some (NULL, s) \<or>
      (\<exists>p s'. alloc s n = Some (p, s') \<and> p \<noteq> NULL \<and> p \<notin> owned s \<and> inv s' \<and>
        owned s' = insert p (owned s) \<and> avail s = Suc (avail s') \<and> bytes s' = bytes s)"
    and free_law: "inv s \<Longrightarrow> p \<in> owned s \<Longrightarrow>
      \<exists>s'. free s p = Some s' \<and> inv s' \<and> owned s' = owned s - {p} \<and> avail s' = Suc (avail s) \<and>
        bytes s' = bytes s"
begin

lemma run_ok:
  assumes "inv s" "distinct own" "set own \<subseteq> owned s"
  shows "\<exists>own' s'. alloc_run alloc free rs own s = Some (own', s') \<and> inv s' \<and> distinct own' \<and>
    owned s' = (owned s - set own) \<union> set own' \<and> (owned s - set own) \<inter> set own' = {} \<and>
    avail s' + length own' = avail s + length own \<and> bytes s' = bytes s"
  using assms
proof (induction rs arbitrary: own s)
  case Nil
  then show ?case by auto
next
  case (Cons r rs)
  show ?case
  proof (cases r)
    case (Req n)
    from alloc_law [OF Cons.prems(1), of n] show ?thesis
    proof (elim disjE exE conjE)
      assume "alloc s n = Some (NULL, s)"
      with Cons.IH [OF Cons.prems] Req show ?thesis by auto
    next
      fix p s1
      assume a: "alloc s n = Some (p, s1)" "p \<noteq> NULL" "p \<notin> owned s" "inv s1"
        "owned s1 = insert p (owned s)" "avail s = Suc (avail s1)" "bytes s1 = bytes s"
      have "distinct (own @ [p])" "set (own @ [p]) \<subseteq> owned s1"
        using Cons.prems a by auto
      from Cons.IH [OF a(4) this] obtain own' s' where
        "alloc_run alloc free rs (own @ [p]) s1 = Some (own', s')" "inv s'" "distinct own'"
        "owned s' = (owned s1 - set (own @ [p])) \<union> set own'" "(owned s1 - set (own @ [p])) \<inter> set own' = {}"
        "avail s' + length own' = avail s1 + length (own @ [p])" "bytes s' = bytes s1" by blast
      moreover have "owned s1 - set (own @ [p]) = owned s - set own" using a by auto
      ultimately show ?thesis using Req a by auto
    qed
  next
    case (Rel i)
    show ?thesis
    proof (cases "i < length own")
      case True
      obtain ys zs where sp: "own = ys @ own ! i # zs" "drop_nth i own = ys @ zs"
        using drop_nth_split [OF True] by blast
      have "own ! i \<in> owned s" using Cons.prems(3) True by auto
      then obtain s1 where a: "free s (own ! i) = Some s1" "inv s1" "owned s1 = owned s - {own ! i}"
        "avail s1 = Suc (avail s)" "bytes s1 = bytes s" using free_law [OF Cons.prems(1)] by blast
      have "distinct (ys @ own ! i # zs)" "set (ys @ own ! i # zs) \<subseteq> owned s"
        using Cons.prems sp(1) by simp_all
      then have "distinct (drop_nth i own)" "set (drop_nth i own) \<subseteq> owned s1"
        and e: "owned s1 - set (drop_nth i own) = owned s - set (ys @ own ! i # zs)"
        using sp(2) a(3) by auto
      moreover have "length own = Suc (length (drop_nth i own))"
        using sp by (metis length_append add_Suc_right length_Cons)
      ultimately show ?thesis using Cons.IH [OF a(2), of "drop_nth i own"] a Rel True sp(1)
        by auto
    next
      case False
      with Cons.IH [OF Cons.prems] Rel show ?thesis by auto
    qed
  qed
qed

end

end
