(* ===== verification/Mempool.thy ===== *)
theory Mempool
  imports Alloc_Interface
begin

text \<open>
  The block pools of \<open>ulp/src/mempool.c\<close>.  A block is named by the address of its data
  (\<open>pData\<close>, also what the program passes around); its header is a record, its bytes are a
  function of the offset.  The free lists are the sequences that the list operations are
  shown to implement.  \<open>None\<close> is a header read or a copy outside of the blocks, or a
  \<open>memcpy\<close> between overlapping ranges.
\<close>

section \<open>Data\<close>

abbreviation (input) MAX_NUM_POOL_SIZE :: nat where "MAX_NUM_POOL_SIZE \<equiv> 10"
abbreviation (input) MAGIC_NUMBER :: u32 where "MAGIC_NUMBER \<equiv> 0x86868686"

text \<open>\<open>sizeof(MemNode)\<close> on x86_64.\<close>

abbreviation (input) MEM_NODE_SIZE :: u32 where "MEM_NODE_SIZE \<equiv> 40"

record MemNode =
  mn_magicNo :: u32
  mn_poolId :: u16
  mn_isInUsed :: u16
  mn_size :: u16
  mn_length :: u16

record MemPoolConfig =
  pc_size :: u32
  pc_num :: u32
  pc_start :: ptr

record mempool =
  mp_nodes :: "ptr \<Rightarrow> MemNode option"
  mp_pools :: "ptr list list"
  mp_data :: "ptr \<Rightarrow> nat \<Rightarrow> u8"
  mp_cfg :: "MemPoolConfig list"
  mp_total :: u32

text \<open>
  The table \<open>gMemPoolConfig\<close> of the x86_64 build, given where the linker puts the buffers.
\<close>

definition gMemPoolConfig :: "(nat \<Rightarrow> ptr) \<Rightarrow> MemPoolConfig list" where
  "gMemPoolConfig start = map (\<lambda>(i, s, n). \<lparr>pc_size = s - MEM_NODE_SIZE, pc_num = n, pc_start = start i\<rparr>)
     [(0, 128 * 2, 20 * 1024), (1, 512 * 2, 8 * 1024), (2, 1024 * 2, 2 * 1024), (3, 1536 * 2, 2 * 1024),
      (4, 3 * 1024 * 2, 2 * 1024), (5, 5 * 1024 * 2, 2 * 1024), (6, 8 * 1024 * 2, 128),
      (7, 10 * 1024 * 2, 32), (8, 32 * 1024 * 2, 16), (9, 128 * 1024 * 2, 8)]"

section \<open>Initialisation\<close>

text \<open>
  The inner loop of \<open>InitMemPool\<close> for pool \<open>i\<close>, with \<open>n\<close> blocks
  to go and \<open>len\<close> bytes used.
\<close>

fun init_pool :: "nat \<Rightarrow> nat \<Rightarrow> MemPoolConfig \<Rightarrow> u32 \<Rightarrow> mempool \<Rightarrow> mempool" where
  "init_pool 0 i c len m = m"
| "init_pool (Suc n) i c len m =
     (let p = pc_start c + unat len + unat MEM_NODE_SIZE;
          node = \<lparr>mn_magicNo = MAGIC_NUMBER, mn_poolId = of_nat i, mn_isInUsed = 0,
                  mn_size = ucast (pc_size c), mn_length = 0\<rparr>
      in init_pool n i c (len + pc_size c + MEM_NODE_SIZE)
           (m\<lparr>mp_nodes := (mp_nodes m)(p \<mapsto> node),
              mp_pools := (mp_pools m)[i := mp_pools m ! i @ [p]]\<rparr>))"

fun init_pools :: "nat list \<Rightarrow> mempool \<Rightarrow> mempool" where
  "init_pools [] m = m"
| "init_pools (i # is) m =
     (let c = mp_cfg m ! i;
          m = m\<lparr>mp_pools := (mp_pools m)[i := []]\<rparr>;
          m = init_pool (unat (pc_num c)) i c 0 m
      in init_pools is (m\<lparr>mp_total := mp_total m + pc_num c\<rparr>))"

definition InitMemPool :: "mempool \<Rightarrow> mempool" where
  "InitMemPool m = init_pools [0..<MAX_NUM_POOL_SIZE] (m\<lparr>mp_total := 0\<rparr>)"

section \<open>Allocation and release\<close>

definition MemGetNumMemBlock :: "mempool \<Rightarrow> u32" where
  "MemGetNumMemBlock m = mp_total m"

definition MemGetAvailableMemBlock :: "mempool \<Rightarrow> u32" where
  "MemGetAvailableMemBlock m = fold (\<lambda>i c. c + of_nat (length (mp_pools m ! i))) [0..<MAX_NUM_POOL_SIZE] 0"

text \<open>
  The first pool whose blocks are large enough; \<open>None\<close> is the answer \<open>-1\<close>.
\<close>

fun find_pool :: "MemPoolConfig list \<Rightarrow> nat \<Rightarrow> u32 \<Rightarrow> nat option" where
  "find_pool [] i sz = None"
| "find_pool (c # cs) i sz = (if sz \<le> pc_size c then Some i else find_pool cs (i + 1) sz)"

definition findMatchPool :: "mempool \<Rightarrow> u32 \<Rightarrow> nat option" where
  "findMatchPool m sz = find_pool (mp_cfg m) 0 sz"

text \<open>
  The search loop of \<open>MemAlloc\<close>: pool \<open>k\<close> and, while they are empty, the
  \<open>n\<close> pools from there on.
\<close>

fun alloc_scan :: "nat \<Rightarrow> nat \<Rightarrow> mempool \<Rightarrow> ptr \<times> mempool" where
  "alloc_scan 0 k m = (NULL, m)"
| "alloc_scan (Suc n) k m =
     (case mp_pools m ! k of
        [] \<Rightarrow> alloc_scan n (k + 1) m
      | p # ps \<Rightarrow> (p, m\<lparr>mp_pools := (mp_pools m)[k := ps]\<rparr>))"

definition MemAlloc :: "mempool \<Rightarrow> u32 \<Rightarrow> (ptr \<times> mempool) option" where
  "MemAlloc m len =
     (case findMatchPool m len of
        None \<Rightarrow> Some (NULL, m)
      | Some k \<Rightarrow>
          (let (p, m) = alloc_scan (MAX_NUM_POOL_SIZE - k) k m in
           if p \<noteq> NULL then do {
             n \<leftarrow> mp_nodes m p;
             Some (p, m\<lparr>mp_nodes := (mp_nodes m)(p \<mapsto> n\<lparr>mn_length := ucast len, mn_isInUsed := 1\<rparr>)\<rparr>)
           } else Some (NULL, m)))"

text \<open>
  \<open>CheckNode\<close>: the outer option is the access to the header, the inner one its answer (the
  node, or the null pointer).
\<close>

definition CheckNode :: "mempool \<Rightarrow> ptr \<Rightarrow> MemNode option option" where
  "CheckNode m p =
     (if p = NULL then Some None
      else do {
        n \<leftarrow> mp_nodes m p;
        if mn_magicNo n \<noteq> MAGIC_NUMBER \<or> unat (mn_poolId n) \<ge> MAX_NUM_POOL_SIZE then Some None
        else Some (Some n) })"

definition MemFree :: "mempool \<Rightarrow> ptr \<Rightarrow> mempool option" where
  "MemFree m p = do {
     c \<leftarrow> CheckNode m p;
     case c of None \<Rightarrow> Some m
     | Some n \<Rightarrow>
         if mn_isInUsed n \<noteq> 0 then
           (let k = unat (mn_poolId n) in
            Some (m\<lparr>mp_nodes := (mp_nodes m)(p \<mapsto> n\<lparr>mn_length := 0, mn_isInUsed := 0\<rparr>),
                    mp_pools := (mp_pools m)[k := mp_pools m ! k @ [p]]\<rparr>))
         else Some m }"

definition MemGetLength :: "mempool \<Rightarrow> ptr \<Rightarrow> u32 option" where
  "MemGetLength m p = map_option (\<lambda>c. case c of None \<Rightarrow> 0 | Some n \<Rightarrow> ucast (mn_length n)) (CheckNode m p)"

definition MemGetSize :: "mempool \<Rightarrow> ptr \<Rightarrow> u32 option" where
  "MemGetSize m p = map_option (\<lambda>c. case c of None \<Rightarrow> 0 | Some n \<Rightarrow> ucast (mn_size n)) (CheckNode m p)"

section \<open>Bytes\<close>

text \<open>The bytes that really belong to a block, whatever its 16-bit size field says.\<close>

definition blk_cap :: "mempool \<Rightarrow> ptr \<Rightarrow> nat" where
  "blk_cap m p = (case mp_nodes m p of None \<Rightarrow> 0
     | Some n \<Rightarrow> unat (pc_size (mp_cfg m ! unat (mn_poolId n))))"

definition blk_read :: "mempool \<Rightarrow> ptr \<Rightarrow> nat \<Rightarrow> u8 option" where
  "blk_read m p i = (if i < blk_cap m p then Some (mp_data m p i) else None)"

definition blk_write :: "mempool \<Rightarrow> ptr \<Rightarrow> nat \<Rightarrow> u8 \<Rightarrow> mempool option" where
  "blk_write m p i b =
     (if i < blk_cap m p then Some (m\<lparr>mp_data := (mp_data m)(p := (mp_data m p)(i := b))\<rparr>) else None)"

definition blk_bytes :: "mempool \<Rightarrow> ptr \<Rightarrow> nat \<Rightarrow> u8 list" where
  "blk_bytes m p n = map (mp_data m p) [0..<n]"

definition blk_store :: "mempool \<Rightarrow> ptr \<Rightarrow> nat \<Rightarrow> u8 list \<Rightarrow> mempool option" where
  "blk_store m p i bs =
     (if i + length bs \<le> blk_cap m p
      then Some (m\<lparr>mp_data := (mp_data m)(p := (\<lambda>j. if i \<le> j \<and> j < i + length bs then bs ! (j - i)
        else mp_data m p j))\<rparr>)
      else None)"

definition mem_move :: "mempool \<Rightarrow> ptr \<Rightarrow> nat \<Rightarrow> ptr \<Rightarrow> nat \<Rightarrow> nat \<Rightarrow> mempool option" where
  "mem_move m d di s si n = do {
     ensure (si + n \<le> blk_cap m s);
     blk_store m d di (map (\<lambda>j. mp_data m s (si + j)) [0..<n]) }"

definition mem_copy :: "mempool \<Rightarrow> ptr \<Rightarrow> nat \<Rightarrow> ptr \<Rightarrow> nat \<Rightarrow> nat \<Rightarrow> mempool option" where
  "mem_copy m d di s si n = do {
     ensure (d \<noteq> s \<or> di + n \<le> si \<or> si + n \<le> di);
     mem_move m d di s si n }"

definition set_len :: "mempool \<Rightarrow> ptr \<Rightarrow> u16 \<Rightarrow> mempool option" where
  "set_len m p l = do {
     n \<leftarrow> mp_nodes m p;
     Some (m\<lparr>mp_nodes := (mp_nodes m)(p \<mapsto> n\<lparr>mn_length := l\<rparr>)\<rparr>) }"

section \<open>Joining and shortening buffers\<close>

definition MemJoin :: "mempool \<Rightarrow> ptr \<Rightarrow> ptr \<Rightarrow> (ptr \<times> mempool) option" where
  "MemJoin m src dst = do {
     cs \<leftarrow> CheckNode m src;
     cd \<leftarrow> CheckNode m dst;
     case (cs, cd) of
       (Some s, Some d) \<Rightarrow>
         (let ls = unat (mn_length s); ld = unat (mn_length d) in
          if unat (mn_size s) \<ge> ls + ld then do {
            m1 \<leftarrow> mem_copy m src ls dst 0 ld;
            m2 \<leftarrow> set_len m1 src (of_nat (ls + ld));
            m3 \<leftarrow> MemFree m2 dst;
            Some (src, m3)
          } else if unat (mn_size d) \<ge> ls + ld then do {
            m1 \<leftarrow> mem_copy m dst ls dst 0 ld;
            m2 \<leftarrow> mem_copy m1 dst 0 src 0 ls;
            m3 \<leftarrow> set_len m2 dst (of_nat (ls + ld));
            m4 \<leftarrow> MemFree m3 src;
            Some (dst, m4)
          } else do {
            (r, m1) \<leftarrow> MemAlloc m (of_nat (ls + ld));
            m3 \<leftarrow> (if r \<noteq> NULL then do {
                m2 \<leftarrow> mem_copy m1 r 0 src 0 ls;
                mem_copy m2 r ls dst 0 ld
              } else Some m1);
            m4 \<leftarrow> MemFree m3 src;
            m5 \<leftarrow> MemFree m4 dst;
            Some (r, m5)
          })
     | (Some s, None) \<Rightarrow> do { m1 \<leftarrow> MemFree m src; Some (NULL, m1) }
     | (None, Some d) \<Rightarrow> do { m1 \<leftarrow> MemFree m dst; Some (NULL, m1) }
     | (None, None) \<Rightarrow> Some (NULL, m) }"

definition MemRemove :: "mempool \<Rightarrow> ptr \<Rightarrow> u32 \<Rightarrow> u32 \<Rightarrow> (u32 \<times> mempool) option" where
  "MemRemove m p wh count = do {
     c \<leftarrow> CheckNode m p;
     case c of None \<Rightarrow> Some (0, m)
     | Some n \<Rightarrow>
         (let len = (ucast (mn_length n) :: u32) in
          if wh \<ge> len then Some (0, m)
          else if count > len - wh then do {
            m1 \<leftarrow> set_len m p (ucast (len - (len - wh)));
            Some (len - wh, m1)
          } else do {
            m1 \<leftarrow> mem_move m p (unat wh) p (unat wh + unat count) (unat (len - wh - count));
            m2 \<leftarrow> set_len m1 p (ucast (len - count));
            Some (count, m2)
          }) }"

section \<open>The invariant\<close>

abbreviation pool_of :: "MemNode \<Rightarrow> nat" where "pool_of n \<equiv> unat (mn_poolId n)"

text \<open>
  The header of a block: never damaged, its size field is the (truncated) size of its pool,
  its length fits the block, and it is marked free exactly when its pool holds it.
\<close>

definition node_ok :: "mempool \<Rightarrow> ptr \<Rightarrow> MemNode \<Rightarrow> bool" where
  "node_ok m p n \<longleftrightarrow> mn_magicNo n = MAGIC_NUMBER \<and> pool_of n < MAX_NUM_POOL_SIZE \<and>
     mn_size n = ucast (pc_size (mp_cfg m ! pool_of n)) \<and>
     unat (mn_length n) \<le> unat (pc_size (mp_cfg m ! pool_of n)) \<and>
     (mn_isInUsed n = 0 \<longleftrightarrow> p \<in> set (mp_pools m ! pool_of n))"

definition pool_ok :: "mempool \<Rightarrow> nat \<Rightarrow> bool" where
  "pool_ok m k \<longleftrightarrow> distinct (mp_pools m ! k) \<and>
     (\<forall>p\<in>set (mp_pools m ! k). \<exists>n. mp_nodes m p = Some n \<and> pool_of n = k)"

definition mem_inv :: "mempool \<Rightarrow> bool" where
  "mem_inv m \<longleftrightarrow> length (mp_pools m) = MAX_NUM_POOL_SIZE \<and> length (mp_cfg m) = MAX_NUM_POOL_SIZE \<and>
     mp_nodes m NULL = None \<and> finite (dom (mp_nodes m)) \<and> sorted (map pc_size (mp_cfg m)) \<and>
     (\<forall>p n. mp_nodes m p = Some n \<longrightarrow> node_ok m p n) \<and> (\<forall>k<MAX_NUM_POOL_SIZE. pool_ok m k)"

text \<open>The blocks the program currently owns.\<close>

definition live :: "mempool \<Rightarrow> ptr set" where
  "live m = {p. \<exists>n. mp_nodes m p = Some n \<and> mn_isInUsed n \<noteq> 0}"

lemma mem_invD:
  assumes "mem_inv m"
  shows "length (mp_pools m) = MAX_NUM_POOL_SIZE" "length (mp_cfg m) = MAX_NUM_POOL_SIZE"
    "mp_nodes m NULL = None" "finite (dom (mp_nodes m))"
    "mp_nodes m p = Some n \<Longrightarrow> node_ok m p n" "k < MAX_NUM_POOL_SIZE \<Longrightarrow> pool_ok m k"
    "sorted (map pc_size (mp_cfg m))"
  using assms unfolding mem_inv_def by auto

lemma live_CheckNode:
  assumes "mem_inv m" "mp_nodes m p = Some n"
  shows "CheckNode m p = Some (Some n)" "p \<noteq> NULL"
proof -
  show "p \<noteq> NULL" using assms mem_invD(3) by (metis option.distinct(1))
  then show "CheckNode m p = Some (Some n)"
    using assms mem_invD(5) [OF assms] by (simp add: CheckNode_def node_ok_def)
qed

lemma liveD: "p \<in> live m \<Longrightarrow> \<exists>n. mp_nodes m p = Some n \<and> mn_isInUsed n \<noteq> 0"
  by (simp add: live_def)

subsection \<open>Changing one header\<close>

text \<open>Taking the first block of pool \<open>k\<close>, and giving block \<open>p\<close> back.\<close>

lemma mem_inv_take:
  assumes inv: "mem_inv m" and k: "k < MAX_NUM_POOL_SIZE" "mp_pools m ! k = p # ps"
    and n: "mp_nodes m p = Some n" and l: "unat l \<le> unat (pc_size (mp_cfg m ! pool_of n))"
    and m': "m' = m\<lparr>mp_nodes := (mp_nodes m)(p \<mapsto> n\<lparr>mn_length := l, mn_isInUsed := 1\<rparr>),
      mp_pools := (mp_pools m)[k := ps]\<rparr>"
  shows "mem_inv m' \<and> p \<notin> live m \<and> live m' = insert p (live m)"
proof -
  note d = mem_invD [OF inv]
  have pk: "pool_of n = k" "p \<notin> set ps" "distinct ps" using d(6) [OF k(1)] k(2) n
    by (auto simp: pool_ok_def)
  have free: "mn_isInUsed n = 0" using d(5) [OF n] pk k by (simp add: node_ok_def)
  have "node_ok m' q nq" if "mp_nodes m' q = Some nq" for q nq
  proof (cases "q = p")
    case True
    with that m' d(5) [OF n] pk l k d(1) show ?thesis by (auto simp: node_ok_def)
  next
    case False
    then have "mp_nodes m q = Some nq" using that m' by simp
    with d(5) [OF this] False m' d(1) k show ?thesis
      by (auto simp: node_ok_def nth_list_update)
  qed
  moreover have "pool_ok m' j" if "j < MAX_NUM_POOL_SIZE" for j
    using d(6) [OF that] m' d(1) k pk n that by (force simp: pool_ok_def nth_list_update)
  moreover have "p \<noteq> NULL" using live_CheckNode [OF inv n] by simp
  ultimately have "mem_inv m'" using d(1-4,7) m' n unfolding mem_inv_def by simp
  moreover have "live m' = insert p (live m)" using m' n by (auto simp: live_def)
  ultimately show ?thesis using free n by (auto simp: live_def)
qed

lemma mem_inv_give:
  assumes inv: "mem_inv m" and n: "mp_nodes m p = Some n" "mn_isInUsed n \<noteq> 0" and k: "k = pool_of n"
    and m': "m' = m\<lparr>mp_nodes := (mp_nodes m)(p \<mapsto> n\<lparr>mn_length := 0, mn_isInUsed := 0\<rparr>),
      mp_pools := (mp_pools m)[k := mp_pools m ! k @ [p]]\<rparr>"
  shows "mem_inv m' \<and> live m' = live m - {p}"
proof -
  note d = mem_invD [OF inv]
  have kk: "k < MAX_NUM_POOL_SIZE" "p \<notin> set (mp_pools m ! k)"
    using d(5) [OF n(1)] n k by (auto simp: node_ok_def)
  have "node_ok m' q nq" if "mp_nodes m' q = Some nq" for q nq
  proof (cases "q = p")
    case True
    with that m' d(5) [OF n(1)] kk k d(1) show ?thesis by (auto simp: node_ok_def)
  next
    case False
    then have "mp_nodes m q = Some nq" using that m' by simp
    with d(5) [OF this] False m' d(1) kk show ?thesis
      by (auto simp: node_ok_def nth_list_update)
  qed
  moreover have "pool_ok m' j" if "j < MAX_NUM_POOL_SIZE" for j
    using d(6) [OF that] m' d(1) kk k n that by (force simp: pool_ok_def nth_list_update)
  ultimately have "mem_inv m'" using d(1-4,7) m' n live_CheckNode [OF inv n(1)]
    unfolding mem_inv_def by simp
  moreover have "live m' = live m - {p}" using m' n by (auto simp: live_def)
  ultimately show ?thesis by simp
qed

lemma mem_inv_set_len:
  assumes inv: "mem_inv m" and n: "mp_nodes m p = Some n"
    and l: "unat l \<le> unat (pc_size (mp_cfg m ! pool_of n))"
    and m': "set_len m p l = Some m'"
  shows "mem_inv m' \<and> live m' = live m"
proof -
  note d = mem_invD [OF inv]
  have e: "m' = m\<lparr>mp_nodes := (mp_nodes m)(p \<mapsto> n\<lparr>mn_length := l\<rparr>)\<rparr>" using m' n by (simp add: set_len_def)
  have "node_ok m' q nq" if "mp_nodes m' q = Some nq" for q nq
    using that e n l d(5) by (auto simp: node_ok_def split: if_splits)
  moreover have "pool_ok m' j" if "j < MAX_NUM_POOL_SIZE" for j
    using d(6) [OF that] e n by (force simp: pool_ok_def)
  ultimately have "mem_inv m'" using d(1-4,7) e n live_CheckNode [OF inv n]
    unfolding mem_inv_def by simp
  moreover have "live m' = live m" using e n by (auto simp: live_def)
  ultimately show ?thesis by simp
qed

lemma mem_inv_data [simp]: "mem_inv (m\<lparr>mp_data := f\<rparr>) = mem_inv m" "live (m\<lparr>mp_data := f\<rparr>) = live m"
  by (simp_all add: mem_inv_def node_ok_def pool_ok_def live_def)

subsection \<open>Allocation\<close>

lemma find_pool_Some:
  "find_pool cs i sz = Some k \<Longrightarrow>
   i \<le> k \<and> k < i + length cs \<and> sz \<le> pc_size (cs ! (k - i)) \<and> (\<forall>j<k - i. \<not> sz \<le> pc_size (cs ! j))"
  by (induction cs arbitrary: i) (fastforce split: if_splits simp: nth_Cons' less_Suc_eq_le)+

lemma find_pool_None: "find_pool cs i sz = None \<Longrightarrow> (\<forall>c\<in>set cs. \<not> sz \<le> pc_size c)"
  by (induction cs arbitrary: i) (auto split: if_splits)

lemma alloc_scan_cases:
  obtains (full) "alloc_scan n k m = (NULL, m)" "\<forall>j. k \<le> j \<and> j < k + n \<longrightarrow> mp_pools m ! j = []"
  | (hit) j p ps where "alloc_scan n k m = (p, m\<lparr>mp_pools := (mp_pools m)[j := ps]\<rparr>)"
    "k \<le> j" "j < k + n" "mp_pools m ! j = p # ps" "\<forall>i. k \<le> i \<and> i < j \<longrightarrow> mp_pools m ! i = []"
proof (induction n arbitrary: k thesis)
  case 0
  show ?case by (rule 0(1)) auto
next
  case (Suc n)
  show ?case
  proof (cases "mp_pools m ! k")
    case Nil
    show ?thesis
    proof (rule Suc.IH [of "k + 1"])
      assume a: "alloc_scan n (k + 1) m = (NULL, m)"
        "\<forall>j. k + 1 \<le> j \<and> j < k + 1 + n \<longrightarrow> mp_pools m ! j = []"
      have "\<forall>j. k \<le> j \<and> j < k + Suc n \<longrightarrow> mp_pools m ! j = []"
        using a(2) Nil by (metis add_Suc_right add_Suc_shift Suc_eq_plus1 le_eq_less_or_eq Suc_leI)
      with a Nil show ?thesis by (intro Suc.prems(1)) simp_all
    next
      fix j p ps
      assume a: "alloc_scan n (k + 1) m = (p, m\<lparr>mp_pools := (mp_pools m)[j := ps]\<rparr>)"
        "k + 1 \<le> j" "j < k + 1 + n" "mp_pools m ! j = p # ps"
        "\<forall>i. k + 1 \<le> i \<and> i < j \<longrightarrow> mp_pools m ! i = []"
      have "\<forall>i. k \<le> i \<and> i < j \<longrightarrow> mp_pools m ! i = []"
        using a(5) Nil by (metis Suc_eq_plus1 le_eq_less_or_eq Suc_leI)
      with a Nil show ?thesis by (intro Suc.prems(2)) simp_all
    qed
  next
    case (Cons p ps)
    then show ?thesis by (intro Suc.prems(2) [of p k ps]) auto
  qed
qed

text \<open>What an allocation does, in one place: nothing, or the smallest fitting non-empty pool.\<close>

lemma MemAlloc_cases [consumes 1, case_names none block]:
  assumes inv: "mem_inv m"
  obtains (none) "MemAlloc m len = Some (NULL, m)"
    "\<forall>j<MAX_NUM_POOL_SIZE. len \<le> pc_size (mp_cfg m ! j) \<longrightarrow> mp_pools m ! j = []"
  | (block) p n m' where "MemAlloc m len = Some (p, m')" "mem_inv m'" "p \<noteq> NULL" "p \<notin> live m"
    "live m' = insert p (live m)" "mp_data m' = mp_data m" "mp_cfg m' = mp_cfg m"
    "mp_nodes m p = Some n"
    "mp_nodes m' = (mp_nodes m)(p \<mapsto> n\<lparr>mn_length := ucast len, mn_isInUsed := 1\<rparr>)"
    "len \<le> pc_size (mp_cfg m ! pool_of n)" "mp_total m' = mp_total m"
    "\<forall>j<pool_of n. len \<le> pc_size (mp_cfg m ! j) \<longrightarrow> mp_pools m ! j = []"
    "length (concat (mp_pools m')) + 1 = length (concat (mp_pools m))"
proof (cases "findMatchPool m len")
  case None
  with find_pool_None [of "mp_cfg m" 0 len] mem_invD(2) [OF inv] show thesis
    by (intro none) (auto simp: MemAlloc_def findMatchPool_def)
next
  case (Some k)
  note d = mem_invD [OF inv]
  from Some find_pool_Some [of "mp_cfg m" 0 len k] d(2)
  have k: "k < MAX_NUM_POOL_SIZE" "len \<le> pc_size (mp_cfg m ! k)"
    "\<forall>j<k. \<not> len \<le> pc_size (mp_cfg m ! j)"
    by (auto simp: findMatchPool_def)
  show thesis
  proof (cases rule: alloc_scan_cases [of "MAX_NUM_POOL_SIZE - k" k m])
    case full
    with Some k show thesis
      by (intro none) (auto simp: MemAlloc_def not_le dest: leD leI)
  next
    case (hit j p ps)
    then have j: "j < MAX_NUM_POOL_SIZE" "k \<le> j" using k by auto
    obtain n where n: "mp_nodes m p = Some n" "pool_of n = j"
      using d(6) [OF j(1)] hit(4) by (auto simp: pool_ok_def)
    have "pc_size (mp_cfg m ! k) \<le> pc_size (mp_cfg m ! j)"
      using sorted_nth_mono [OF d(7), of k j] j d(2) by simp
    then have fit: "len \<le> pc_size (mp_cfg m ! pool_of n)" using k n by simp
    have "unat (ucast len :: u16) \<le> unat len" by (simp add: unsigned_ucast_eq)
    then have l: "unat (ucast len :: u16) \<le> unat (pc_size (mp_cfg m ! pool_of n))"
      using fit by (meson le_trans word_le_nat_alt)
    define m' where "m' = m\<lparr>mp_nodes := (mp_nodes m)(p \<mapsto> n\<lparr>mn_length := ucast len, mn_isInUsed := 1\<rparr>),
      mp_pools := (mp_pools m)[j := ps]\<rparr>"
    have p: "p \<noteq> NULL" using live_CheckNode [OF inv n(1)] by simp
    have "MemAlloc m len = Some (p, m')"
      using Some hit n p by (simp add: MemAlloc_def m'_def)
    moreover note mem_inv_take [OF inv j(1) hit(4) n(1) l m'_def]
    moreover have "length (concat (mp_pools m')) + 1 = length (concat (mp_pools m))"
    proof -
      have "mp_pools m = take j (mp_pools m) @ (p # ps) # drop (Suc j) (mp_pools m)"
        using id_take_nth_drop [of j "mp_pools m"] j d(1) hit(4) by simp
      moreover have "mp_pools m' = take j (mp_pools m) @ ps # drop (Suc j) (mp_pools m)"
        using j d(1) by (simp add: m'_def upd_conv_take_nth_drop)
      ultimately show ?thesis by (metis (no_types, lifting) Suc_eq_plus1 add_Suc_right concat.simps(2)
        concat_append length_Cons length_append append_Cons)
    qed
    moreover have "\<forall>i<pool_of n. len \<le> pc_size (mp_cfg m ! i) \<longrightarrow> mp_pools m ! i = []"
      using hit(5) k(3) n(2) by (metis not_le)
    ultimately show thesis using p fit n by (intro block [of p m' n]) (auto simp: m'_def)
  qed
qed

text \<open>The pool of the largest blocks serves every request that the smaller ones cannot.\<close>

lemma MemAlloc_spare:
  assumes inv: "mem_inv m" and n: "Suc n \<le> length (mp_pools m ! 9)" and len: "len \<le> pc_size (mp_cfg m ! 9)"
    and a: "MemAlloc m len = Some (p, m')"
  shows "p \<noteq> NULL \<and> n \<le> length (mp_pools m' ! 9) \<and> mp_cfg m' = mp_cfg m"
  using inv
proof (cases rule: MemAlloc_cases [of m len])
  case none
  then show ?thesis using n len by auto
next
  case (block q nd m'')
  obtain k where k: "findMatchPool m len = Some k" using a block by (cases "findMatchPool m len") (auto simp: MemAlloc_def)
  have "n \<le> length (mp_pools m' ! 9)"
  proof (cases rule: alloc_scan_cases [of "MAX_NUM_POOL_SIZE - k" k m])
    case full
    then show ?thesis using a k block by (simp add: MemAlloc_def)
  next
    case (hit j p' ps)
    have "mp_pools m' = (mp_pools m)[j := ps]"
      using a k hit block by (auto simp: MemAlloc_def bind_Some_iff split: if_splits)
    moreover have "length (mp_pools m) = 10" using mem_invD(1) [OF inv] by simp
    ultimately show ?thesis using hit n by (cases "j = 9") auto
  qed
  then show ?thesis using a block by simp
qed

subsection \<open>Release\<close>

lemma MemFree_live:
  assumes inv: "mem_inv m" and p: "p \<in> live m"
  obtains n m' where "MemFree m p = Some m'" "mem_inv m'" "live m' = live m - {p}"
    "mp_data m' = mp_data m" "mp_cfg m' = mp_cfg m" "mp_total m' = mp_total m" "mp_nodes m p = Some n"
    "mp_nodes m' = (mp_nodes m)(p \<mapsto> n\<lparr>mn_length := 0, mn_isInUsed := 0\<rparr>)"
    "length (concat (mp_pools m')) = length (concat (mp_pools m)) + 1"
proof -
  obtain n where n: "mp_nodes m p = Some n" "mn_isInUsed n \<noteq> 0" using liveD [OF p] by blast
  define k where "k = pool_of n"
  define m' where "m' = m\<lparr>mp_nodes := (mp_nodes m)(p \<mapsto> n\<lparr>mn_length := 0, mn_isInUsed := 0\<rparr>),
    mp_pools := (mp_pools m)[k := mp_pools m ! k @ [p]]\<rparr>"
  have k: "k < MAX_NUM_POOL_SIZE" using mem_invD(5) [OF inv n(1)] by (simp add: node_ok_def k_def)
  have "mp_pools m = take k (mp_pools m) @ mp_pools m ! k # drop (Suc k) (mp_pools m)"
    using id_take_nth_drop [of k "mp_pools m"] k mem_invD(1) [OF inv] by simp
  moreover have "mp_pools m' = take k (mp_pools m) @ (mp_pools m ! k @ [p]) # drop (Suc k) (mp_pools m)"
    using k mem_invD(1) [OF inv] by (simp add: m'_def upd_conv_take_nth_drop)
  ultimately have "length (concat (mp_pools m')) = length (concat (mp_pools m)) + 1"
    by (metis (no_types, lifting) Suc_eq_plus1 add_Suc_right add_Suc concat.simps(2) concat_append
        length_append length_append_singleton append_Cons)
  moreover have "MemFree m p = Some m'"
    using live_CheckNode [OF inv n(1)] n by (simp add: MemFree_def m'_def k_def Let_def)
  moreover note mem_inv_give [OF inv n k_def m'_def]
  ultimately show thesis using n by (intro that [of m' n]) (auto simp: m'_def)
qed

lemma MemFree_not_live:
  assumes inv: "mem_inv m" and p: "p \<notin> live m" "p = NULL \<or> p \<in> dom (mp_nodes m)"
  shows "MemFree m p = Some m"
proof (cases "p = NULL")
  case True
  then show ?thesis by (simp add: MemFree_def CheckNode_def)
next
  case False
  then obtain n where n: "mp_nodes m p = Some n" using p by auto
  with p have "mn_isInUsed n = 0" by (auto simp: live_def)
  then show ?thesis using live_CheckNode [OF inv n] by (simp add: MemFree_def)
qed

interpretation mp: allocator mem_inv live "\<lambda>m. length (concat (mp_pools m))" mp_data MemAlloc MemFree
proof unfold_locales
  fix m n assume inv: "mem_inv m"
  show "MemAlloc m n = Some (NULL, m) \<or> (\<exists>p m'. MemAlloc m n = Some (p, m') \<and> p \<noteq> NULL \<and>
    p \<notin> live m \<and> mem_inv m' \<and> live m' = insert p (live m) \<and>
    length (concat (mp_pools m)) = Suc (length (concat (mp_pools m'))) \<and> mp_data m' = mp_data m)"
    by (rule MemAlloc_cases [OF inv, of n]) auto
next
  fix m p assume inv: "mem_inv m" and p: "p \<in> live m"
  show "\<exists>m'. MemFree m p = Some m' \<and> mem_inv m' \<and> live m' = live m - {p} \<and>
    length (concat (mp_pools m')) = Suc (length (concat (mp_pools m))) \<and> mp_data m' = mp_data m"
    by (rule MemFree_live [OF inv p]) auto
qed

subsection \<open>The count of free blocks\<close>

lemma MemGetAvailable_eq:
  "length (mp_pools m) = MAX_NUM_POOL_SIZE \<Longrightarrow>
   MemGetAvailableMemBlock m = of_nat (length (concat (mp_pools m)))"
proof -
  have g: "fold (\<lambda>x c. c + of_nat (length x)) xs c = c + (of_nat (length (concat xs)) :: u32)"
    for xs :: "ptr list list" and c
    by (induction xs arbitrary: c) (simp_all add: add.assoc)
  have "fold (\<lambda>i c. c + of_nat (length (xs ! i))) [0..<length xs] c =
      fold (\<lambda>x c. c + of_nat (length x)) (map ((!) xs) [0..<length xs]) (c :: u32)"
    for xs :: "ptr list list" and c
    by (simp only: fold_map comp_def)
  then have "fold (\<lambda>i c. c + of_nat (length (xs ! i))) [0..<length xs] c =
      c + (of_nat (length (concat xs)) :: u32)" for xs :: "ptr list list" and c
    by (simp only: map_nth g)
  from this [of "mp_pools m" 0] show ?thesis if "length (mp_pools m) = MAX_NUM_POOL_SIZE"
    using that by (simp add: MemGetAvailableMemBlock_def)
qed

lemma mem_inv_count:
  assumes inv: "mem_inv m"
  shows "length (concat (mp_pools m)) + card (live m) = card (dom (mp_nodes m))"
proof -
  note d = mem_invD [OF inv]
  let ?P = "\<lambda>k. set (mp_pools m ! k)"
  have "card (\<Union>k\<in>{..<MAX_NUM_POOL_SIZE}. ?P k) = (\<Sum>k<MAX_NUM_POOL_SIZE. card (?P k))"
  proof (rule card_UN_disjoint)
    show "\<forall>i\<in>{..<MAX_NUM_POOL_SIZE}. \<forall>j\<in>{..<MAX_NUM_POOL_SIZE}. i \<noteq> j \<longrightarrow> ?P i \<inter> ?P j = {}"
    proof (intro ballI impI equals0I)
      fix i j p assume ij: "i \<in> {..<MAX_NUM_POOL_SIZE}" "j \<in> {..<MAX_NUM_POOL_SIZE}" "i \<noteq> j"
        and p: "p \<in> ?P i \<inter> ?P j"
      obtain n where "mp_nodes m p = Some n" "pool_of n = i"
        using d(6) [of i] ij p by (auto simp: pool_ok_def)
      moreover obtain n' where "mp_nodes m p = Some n'" "pool_of n' = j"
        using d(6) [of j] ij p by (auto simp: pool_ok_def)
      ultimately show False using ij by simp
    qed
  qed simp_all
  also have "\<dots> = (\<Sum>k<MAX_NUM_POOL_SIZE. length (mp_pools m ! k))"
    using d(6) by (intro sum.cong) (auto simp: pool_ok_def distinct_card)
  also have "\<dots> = length (concat (mp_pools m))"
    using d(1) by (simp add: length_concat sum_list_sum_nth atLeast0LessThan)
  finally have 1: "card (\<Union>k\<in>{..<MAX_NUM_POOL_SIZE}. ?P k) = length (concat (mp_pools m))" .
  have free: "p \<in> dom (mp_nodes m) \<and> p \<notin> live m" if "k < MAX_NUM_POOL_SIZE" "p \<in> ?P k" for k p
    using d(5) [of p] d(6) [OF that(1)] that(2) by (auto simp: pool_ok_def live_def node_ok_def)
  have "dom (mp_nodes m) = (\<Union>k\<in>{..<MAX_NUM_POOL_SIZE}. ?P k) \<union> live m"
  proof (intro set_eqI iffI)
    fix p assume "p \<in> dom (mp_nodes m)"
    then obtain n where n: "mp_nodes m p = Some n" by auto
    from d(5) [OF n] n show "p \<in> (\<Union>k\<in>{..<MAX_NUM_POOL_SIZE}. ?P k) \<union> live m"
      by (auto simp: node_ok_def live_def)
  next
    fix p assume "p \<in> (\<Union>k\<in>{..<MAX_NUM_POOL_SIZE}. ?P k) \<union> live m"
    then show "p \<in> dom (mp_nodes m)" using free by (auto dest: liveD)
  qed
  moreover have "(\<Union>k\<in>{..<MAX_NUM_POOL_SIZE}. ?P k) \<inter> live m = {}"
    using free by blast
  moreover have "finite (live m)" using d(4) by (rule finite_subset [rotated]) (auto simp: live_def)
  ultimately show ?thesis using 1 by (simp add: card_Un_disjoint)
qed

subsection \<open>Copies\<close>

lemma blk_cap_ok:
  assumes "mem_inv m" "mp_nodes m p = Some n"
  shows "unat (mn_length n) \<le> blk_cap m p" "unat (mn_size n) \<le> blk_cap m p"
proof -
  have "node_ok m p n" using mem_invD(5) [OF assms] .
  moreover have "unat (ucast x :: u16) \<le> unat x" for x :: u32 by (simp add: unsigned_ucast_eq)
  ultimately show "unat (mn_length n) \<le> blk_cap m p" "unat (mn_size n) \<le> blk_cap m p"
    using assms(2) by (simp_all add: node_ok_def blk_cap_def)
qed

lemma blk_cap_cong: "mp_nodes m' p = mp_nodes m p \<Longrightarrow> mp_cfg m' = mp_cfg m \<Longrightarrow> blk_cap m' p = blk_cap m p"
  by (auto simp: blk_cap_def split: option.splits)

lemma blk_cap_data [simp]: "blk_cap (m\<lparr>mp_data := f\<rparr>) = blk_cap m"
  by (auto simp: blk_cap_def fun_eq_iff split: option.splits)

definition copied :: "mempool \<Rightarrow> ptr \<Rightarrow> nat \<Rightarrow> ptr \<Rightarrow> nat \<Rightarrow> nat \<Rightarrow> ptr \<Rightarrow> nat \<Rightarrow> u8" where
  "copied m d di s si n = (mp_data m)(d := (\<lambda>j. if di \<le> j \<and> j < di + n then mp_data m s (si + (j - di))
     else mp_data m d j))"

lemma mem_move_Some:
  "si + n \<le> blk_cap m s \<Longrightarrow> di + n \<le> blk_cap m d \<Longrightarrow>
   mem_move m d di s si n = Some (m\<lparr>mp_data := copied m d di s si n\<rparr>)"
  by (auto simp: mem_move_def blk_store_def copied_def fun_eq_iff intro!: mempool.unfold_congs(3))

lemma mem_copy_Some:
  "si + n \<le> blk_cap m s \<Longrightarrow> di + n \<le> blk_cap m d \<Longrightarrow> d \<noteq> s \<or> di + n \<le> si \<or> si + n \<le> di \<Longrightarrow>
   mem_copy m d di s si n = Some (m\<lparr>mp_data := copied m d di s si n\<rparr>)"
  by (simp add: mem_copy_def mem_move_Some)

lemma blk_bytes_append:
  assumes "\<And>j. j < a \<Longrightarrow> mp_data m' r j = mp_data m s j"
    and "\<And>j. j < b \<Longrightarrow> mp_data m' r (a + j) = mp_data m d j"
  shows "blk_bytes m' r (a + b) = blk_bytes m s a @ blk_bytes m d b"
proof (rule nth_equalityI)
  fix i assume i: "i < length (blk_bytes m' r (a + b))"
  show "blk_bytes m' r (a + b) ! i = (blk_bytes m s a @ blk_bytes m d b) ! i"
  proof (cases "i < a")
    case True
    with i assms(1) show ?thesis by (simp add: blk_bytes_def nth_append)
  next
    case False
    with i assms(2) [of "i - a"] show ?thesis by (simp add: blk_bytes_def nth_append)
  qed
qed (simp add: blk_bytes_def)

text \<open>The headers and bytes of all blocks but \<open>A\<close> are the same.\<close>

definition same_but :: "ptr set \<Rightarrow> mempool \<Rightarrow> mempool \<Rightarrow> bool" where
  "same_but A m m' \<longleftrightarrow> (\<forall>q. q \<notin> A \<longrightarrow> mp_nodes m' q = mp_nodes m q \<and> mp_data m' q = mp_data m q)"

text \<open>What the two orders of growth leave behind: a longer block, the other one released.\<close>

definition grown :: "mempool \<Rightarrow> mempool \<Rightarrow> ptr \<Rightarrow> ptr set \<Rightarrow> u8 list \<Rightarrow> bool" where
  "grown m m' r gone bs \<longleftrightarrow> mem_inv m' \<and> live m' = insert r (live m - gone) \<and>
     (\<exists>n. mp_nodes m' r = Some n \<and> mn_length n = of_nat (length bs)) \<and>
     length bs \<le> blk_cap m' r \<and> blk_bytes m' r (length bs) = bs \<and>
     mp_cfg m' = mp_cfg m \<and> same_but (insert r gone) m m'"

lemma set_len_then_free:
  assumes inv: "mem_inv m" and k: "k \<in> live m" and f: "f \<in> live m" "f \<noteq> k"
    and l: "l \<le> blk_cap m k" "l < 2 ^ 16"
  obtains m2 m3 where "set_len m k (of_nat l) = Some m2" "MemFree m2 f = Some m3" "mem_inv m3"
    "live m3 = live m - {f}" "mp_data m3 = mp_data m" "mp_cfg m3 = mp_cfg m"
    "\<exists>n. mp_nodes m3 k = Some n \<and> mn_length n = of_nat l" "blk_cap m3 k = blk_cap m k"
    "\<And>q. q \<noteq> k \<Longrightarrow> q \<noteq> f \<Longrightarrow> mp_nodes m3 q = mp_nodes m q"
proof -
  obtain n where n: "mp_nodes m k = Some n" using liveD [OF k] by blast
  define m2 where "m2 = m\<lparr>mp_nodes := (mp_nodes m)(k \<mapsto> n\<lparr>mn_length := of_nat l\<rparr>)\<rparr>"
  have 2: "set_len m k (of_nat l) = Some m2" using n by (simp add: set_len_def m2_def)
  have "unat (of_nat l :: u16) \<le> unat (pc_size (mp_cfg m ! pool_of n))"
    using l n by (simp add: unat_of_nat_small blk_cap_def)
  from mem_inv_set_len [OF inv n this 2] have i2: "mem_inv m2" "live m2 = live m" by simp_all
  have "f \<in> live m2" using i2 f by simp
  from MemFree_live [OF i2(1) this] obtain n' m3 where 3: "MemFree m2 f = Some m3" "mem_inv m3"
    "live m3 = live m2 - {f}" "mp_data m3 = mp_data m2" "mp_cfg m3 = mp_cfg m2"
    "mp_nodes m3 = (mp_nodes m2)(f \<mapsto> n'\<lparr>mn_length := 0, mn_isInUsed := 0\<rparr>)" by metis
  show thesis
    using 2 3 i2 f n by (intro that [of m2 m3]) (auto simp: m2_def blk_cap_def)
qed

lemma MemJoin_into_src:
  assumes inv: "mem_inv m" and sd: "src \<in> live m" "dst \<in> live m" "src \<noteq> dst"
    and n: "mp_nodes m src = Some s" "mp_nodes m dst = Some d"
    and l: "ls = unat (mn_length s)" "ld = unat (mn_length d)" and fit: "ls + ld \<le> unat (mn_size s)"
  shows "\<exists>m'. MemJoin m src dst = Some (src, m') \<and>
    grown m m' src {src, dst} (blk_bytes m src ls @ blk_bytes m dst ld)"
proof -
  have caps: "ls + ld \<le> blk_cap m src" "ld \<le> blk_cap m dst" "ls + ld < 2 ^ 16"
    using blk_cap_ok [OF inv n(1)] blk_cap_ok [OF inv n(2)] fit l unsigned_less [of "mn_size s", where 'a = nat]
    by auto
  let ?m = "m\<lparr>mp_data := copied m src ls dst 0 ld\<rparr>"
  have c: "mem_copy m src ls dst 0 ld = Some ?m" using caps sd by (intro mem_copy_Some) auto
  obtain m2 m3 where 3: "set_len ?m src (of_nat (ls + ld)) = Some m2" "MemFree m2 dst = Some m3" "mem_inv m3"
    "live m3 = live ?m - {dst}" "mp_data m3 = mp_data ?m" "mp_cfg m3 = mp_cfg ?m"
    "\<exists>n. mp_nodes m3 src = Some n \<and> mn_length n = of_nat (ls + ld)" "blk_cap m3 src = blk_cap ?m src"
    "\<And>q. q \<noteq> src \<Longrightarrow> q \<noteq> dst \<Longrightarrow> mp_nodes m3 q = mp_nodes ?m q"
    using set_len_then_free [of ?m src dst "ls + ld"] inv sd caps by auto
  have "MemJoin m src dst = Some (src, m3)"
    using live_CheckNode(1) [OF inv n(1)] live_CheckNode(1) [OF inv n(2)] fit c 3
    by (simp add: MemJoin_def l)
  moreover have "blk_bytes m3 src (ls + ld) = blk_bytes m src ls @ blk_bytes m dst ld"
    using 3(5) sd(3) by (intro blk_bytes_append) (auto simp: copied_def)
  moreover have "same_but {src, dst} m m3" using 3(5,9) by (auto simp: same_but_def copied_def)
  ultimately show ?thesis using 3 sd caps by (auto simp: grown_def blk_bytes_def)
qed

lemma MemJoin_into_dst:
  assumes inv: "mem_inv m" and sd: "src \<in> live m" "dst \<in> live m" "src \<noteq> dst"
    and n: "mp_nodes m src = Some s" "mp_nodes m dst = Some d"
    and l: "ls = unat (mn_length s)" "ld = unat (mn_length d)"
    and fit: "unat (mn_size s) < ls + ld" "ls + ld \<le> unat (mn_size d)" and apart: "ld \<le> ls"
  shows "\<exists>m'. MemJoin m src dst = Some (dst, m') \<and>
    grown m m' dst {src, dst} (blk_bytes m src ls @ blk_bytes m dst ld)"
proof -
  have caps: "ls \<le> blk_cap m src" "ls + ld \<le> blk_cap m dst" "ls + ld < 2 ^ 16"
    using blk_cap_ok [OF inv n(1)] blk_cap_ok [OF inv n(2)] fit l unsigned_less [of "mn_size d", where 'a = nat]
    by auto
  let ?m = "m\<lparr>mp_data := copied m dst ls dst 0 ld\<rparr>"
  let ?n = "?m\<lparr>mp_data := copied ?m dst 0 src 0 ls\<rparr>"
  have c: "mem_copy m dst ls dst 0 ld = Some ?m" using caps apart by (intro mem_copy_Some) auto
  have c2: "mem_copy ?m dst 0 src 0 ls = Some ?n" using caps sd by (intro mem_copy_Some) auto
  obtain m2 m3 where 3: "set_len ?n dst (of_nat (ls + ld)) = Some m2" "MemFree m2 src = Some m3" "mem_inv m3"
    "live m3 = live ?n - {src}" "mp_data m3 = mp_data ?n" "mp_cfg m3 = mp_cfg ?n"
    "\<exists>n. mp_nodes m3 dst = Some n \<and> mn_length n = of_nat (ls + ld)" "blk_cap m3 dst = blk_cap ?n dst"
    "\<And>q. q \<noteq> dst \<Longrightarrow> q \<noteq> src \<Longrightarrow> mp_nodes m3 q = mp_nodes ?n q"
    using set_len_then_free [of ?n dst src "ls + ld"] inv sd caps by auto
  have "MemJoin m src dst = Some (dst, m3)"
    using live_CheckNode(1) [OF inv n(1)] live_CheckNode(1) [OF inv n(2)] fit c c2 3
    by (simp add: MemJoin_def l)
  moreover have "blk_bytes m3 dst (ls + ld) = blk_bytes m src ls @ blk_bytes m dst ld"
    using 3(5) sd(3) by (intro blk_bytes_append) (auto simp: copied_def)
  moreover have "same_but (insert dst {src, dst}) m m3" using 3(5,9) by (auto simp: same_but_def copied_def)
  ultimately show ?thesis using 3 sd caps by (auto simp: grown_def blk_bytes_def)
qed

lemma MemJoin_into_new:
  assumes inv: "mem_inv m" and sd: "src \<in> live m" "dst \<in> live m" "src \<noteq> dst"
    and n: "mp_nodes m src = Some s" "mp_nodes m dst = Some d"
    and l: "ls = unat (mn_length s)" "ld = unat (mn_length d)"
    and fit: "unat (mn_size s) < ls + ld" "unat (mn_size d) < ls + ld"
  shows "\<exists>r m'. MemJoin m src dst = Some (r, m') \<and>
    (if r = NULL then mem_inv m' \<and> live m' = live m - {src, dst} \<and> mp_cfg m' = mp_cfg m \<and> same_but {src, dst} m m' \<and>
       (\<forall>j<MAX_NUM_POOL_SIZE. of_nat (ls + ld) \<le> pc_size (mp_cfg m ! j) \<longrightarrow> mp_pools m ! j = [])
     else r \<notin> live m \<and> grown m m' r {src, dst} (blk_bytes m src ls @ blk_bytes m dst ld))"
proof -
  let ?len = "of_nat (ls + ld) :: u32"
  have small: "ls + ld < 2 ^ 32"
    using l unsigned_less [of "mn_length s", where 'a = nat] unsigned_less [of "mn_length d", where 'a = nat] by simp
  have caps: "ls \<le> blk_cap m src" "ld \<le> blk_cap m dst"
    using blk_cap_ok [OF inv n(1)] blk_cap_ok [OF inv n(2)] l by auto
  have chk: "CheckNode m src = Some (Some s)" "CheckNode m dst = Some (Some d)"
    using live_CheckNode(1) [OF inv n(1)] live_CheckNode(1) [OF inv n(2)] by auto
  from inv show ?thesis
  proof (cases rule: MemAlloc_cases [of m ?len])
    case none
    obtain n1 m1 where 1: "MemFree m src = Some m1" "mem_inv m1" "live m1 = live m - {src}"
      "mp_data m1 = mp_data m" "mp_cfg m1 = mp_cfg m"
      "mp_nodes m1 = (mp_nodes m)(src \<mapsto> n1\<lparr>mn_length := 0, mn_isInUsed := 0\<rparr>)" using MemFree_live [OF inv sd(1)] by metis
    have "dst \<in> live m1" using 1 sd by auto
    then obtain n2 m2 where 2: "MemFree m1 dst = Some m2" "mem_inv m2" "live m2 = live m1 - {dst}"
      "mp_data m2 = mp_data m1" "mp_cfg m2 = mp_cfg m1"
      "mp_nodes m2 = (mp_nodes m1)(dst \<mapsto> n2\<lparr>mn_length := 0, mn_isInUsed := 0\<rparr>)" using MemFree_live [OF 1(2)] by metis
    have "MemJoin m src dst = Some (NULL, m2)"
      using chk fit none 1 2 by (simp add: MemJoin_def l)
    moreover have "same_but {src, dst} m m2" using 1 2 by (simp add: same_but_def)
    ultimately show ?thesis using 1 2 none(2) by auto
  next
    case (block r n0 m1)
    have r: "r \<noteq> src" "r \<noteq> dst" using block(4) sd by auto
    have capr: "ls + ld \<le> blk_cap m1 r"
      using block(7-10) small by (simp add: blk_cap_def word_le_nat_alt unat_of_nat_small del: of_nat_add)
    have caps1: "blk_cap m1 src = blk_cap m src" "blk_cap m1 dst = blk_cap m dst"
      using block(7,9) r by (auto intro!: blk_cap_cong)
    let ?m = "m1\<lparr>mp_data := copied m1 r 0 src 0 ls\<rparr>"
    let ?n = "?m\<lparr>mp_data := copied ?m r ls dst 0 ld\<rparr>"
    have c: "mem_copy m1 r 0 src 0 ls = Some ?m" using caps caps1 capr r by (intro mem_copy_Some) auto
    have c2: "mem_copy ?m r ls dst 0 ld = Some ?n" using caps caps1 capr r by (intro mem_copy_Some) auto
    have i: "mem_inv ?n" "src \<in> live ?n" using block sd by auto
    obtain k1 m2 where 2: "MemFree ?n src = Some m2" "mem_inv m2" "live m2 = live ?n - {src}"
      "mp_data m2 = mp_data ?n" "mp_cfg m2 = mp_cfg ?n"
      "mp_nodes m2 = (mp_nodes ?n)(src \<mapsto> k1\<lparr>mn_length := 0, mn_isInUsed := 0\<rparr>)"
      using MemFree_live [OF i] by metis
    have "dst \<in> live m2" using 2(3) block sd by auto
    then obtain k2 m3 where 3: "MemFree m2 dst = Some m3" "mem_inv m3" "live m3 = live m2 - {dst}"
      "mp_data m3 = mp_data m2" "mp_cfg m3 = mp_cfg m2"
      "mp_nodes m3 = (mp_nodes m2)(dst \<mapsto> k2\<lparr>mn_length := 0, mn_isInUsed := 0\<rparr>)"
      using MemFree_live [OF 2(2)] by metis
    have "MemJoin m src dst = Some (r, m3)"
      using chk fit block(1,3) c c2 2(1) 3(1) by (simp add: MemJoin_def l)
    moreover have "blk_bytes m3 r (ls + ld) = blk_bytes m src ls @ blk_bytes m dst ld"
      using 3(4) 2(4) block(6) r by (intro blk_bytes_append) (auto simp: copied_def)
    moreover have "mp_nodes m3 r = Some (n0\<lparr>mn_length := ucast ?len, mn_isInUsed := 1\<rparr>)"
      using 3(6) 2(6) block(9) r by simp
    moreover have "(ucast ?len :: u16) = of_nat (ls + ld)"
      using small by (simp add: unsigned_of_nat take_bit_nat_eq_self_iff [THEN iffD2] del: of_nat_add)
    moreover have "live m3 = insert r (live m - {src, dst})"
      using 3(3) 2(3) block(5) r by auto
    moreover have "same_but (insert r {src, dst}) m m3"
      using 3(4,6) 2(4,6) block(6,9) by (simp add: same_but_def copied_def)
    moreover have "blk_cap m3 r = blk_cap m1 r" using 3(5,6) 2(5,6) r by (intro blk_cap_cong) auto
    ultimately show ?thesis using 2 3 block(3,4,7) capr
      by (intro exI [of _ r] exI [of _ m3]) (auto simp: grown_def blk_bytes_def)
  qed
qed

section \<open>Initialisation establishes the invariant\<close>

definition block_addr :: "MemPoolConfig \<Rightarrow> nat \<Rightarrow> ptr" where
  "block_addr c j = pc_start c + j * unat (pc_size c + MEM_NODE_SIZE) + unat MEM_NODE_SIZE"

definition block_addrs :: "MemPoolConfig \<Rightarrow> ptr list" where
  "block_addrs c = map (block_addr c) [0..<unat (pc_num c)]"

text \<open>
  A usable table: ten pools in ascending block size, no block size near the end of the 32-bit
  range, every pool's buffer shorter than 4 GB, and buffers that do not overlap.
\<close>

definition cfg_ok :: "MemPoolConfig list \<Rightarrow> bool" where
  "cfg_ok cs \<longleftrightarrow> length cs = MAX_NUM_POOL_SIZE \<and> sorted (map pc_size cs) \<and>
     (\<forall>c\<in>set cs. unat (pc_size c) + 40 < 2 ^ 32 \<and> unat (pc_num c) * (unat (pc_size c) + 40) < 2 ^ 32) \<and>
     distinct (concat (map block_addrs cs))"

definition fresh_node :: "nat \<Rightarrow> MemPoolConfig \<Rightarrow> MemNode" where
  "fresh_node i c = \<lparr>mn_magicNo = MAGIC_NUMBER, mn_poolId = of_nat i, mn_isInUsed = 0,
     mn_size = ucast (pc_size c), mn_length = 0\<rparr>"

definition adds_blocks :: "nat \<Rightarrow> MemPoolConfig \<Rightarrow> ptr list \<Rightarrow> mempool \<Rightarrow> mempool" where
  "adds_blocks i c ps m = m\<lparr>mp_nodes := (\<lambda>q. if q \<in> set ps then Some (fresh_node i c) else mp_nodes m q),
     mp_pools := (mp_pools m)[i := mp_pools m ! i @ ps]\<rparr>"

lemma adds_blocks_Nil [simp]: "adds_blocks i c [] m = m"
  by (simp add: adds_blocks_def)

lemma adds_blocks_Cons:
  "i < length (mp_pools m) \<Longrightarrow>
   adds_blocks i c ps (m\<lparr>mp_nodes := (mp_nodes m)(p \<mapsto> fresh_node i c),
     mp_pools := (mp_pools m)[i := mp_pools m ! i @ [p]]\<rparr>) = adds_blocks i c (p # ps) m"
  by (auto simp: adds_blocks_def fun_eq_iff intro!: mempool.unfold_congs)

lemma init_pool_eq:
  assumes "i < length (mp_pools m)" "unat (pc_size c) + 40 < 2 ^ 32"
    "(k + n) * (unat (pc_size c) + 40) < 2 ^ 32"
  shows "init_pool n i c (of_nat (k * (unat (pc_size c) + 40))) m =
    adds_blocks i c (map (block_addr c) [k..<k + n]) m"
  using assms
proof (induction n arbitrary: k m)
  case 0
  then show ?case by simp
next
  case (Suc n)
  let ?s = "unat (pc_size c) + 40"
  have sz: "unat (pc_size c + MEM_NODE_SIZE) = ?s" using Suc.prems(2)
    by (simp add: unat_word_ariths)
  have "k * ?s \<le> (k + Suc n) * ?s" by (intro mult_le_mono) simp_all
  then have k: "k * ?s < 2 ^ 32" using Suc.prems(3) by linarith
  have len: "unat (of_nat (k * ?s) :: u32) = k * ?s" using k by (intro unat_of_nat_small) simp
  have next': "of_nat (k * ?s) + pc_size c + MEM_NODE_SIZE = of_nat (Suc k * ?s)"
    by (simp add: algebra_simps)
  have up: "[k..<k + Suc n] = k # [Suc k..<Suc k + n]" by (simp add: upt_rec)
  have "init_pool (Suc n) i c (of_nat (k * ?s)) m = init_pool n i c (of_nat (Suc k * ?s))
    (m\<lparr>mp_nodes := (mp_nodes m)(block_addr c k \<mapsto> fresh_node i c),
       mp_pools := (mp_pools m)[i := mp_pools m ! i @ [block_addr c k]]\<rparr>)"
    unfolding init_pool.simps Let_def next' len
    by (simp add: block_addr_def sz fresh_node_def)
  also have "\<dots> = adds_blocks i c (map (block_addr c) [Suc k..<Suc k + n])
    (m\<lparr>mp_nodes := (mp_nodes m)(block_addr c k \<mapsto> fresh_node i c),
       mp_pools := (mp_pools m)[i := mp_pools m ! i @ [block_addr c k]]\<rparr>)"
    using Suc.prems by (intro Suc.IH) simp_all
  also have "\<dots> = adds_blocks i c (map (block_addr c) [k..<k + Suc n]) m"
    unfolding up list.map using Suc.prems(1) by (rule adds_blocks_Cons)
  finally show ?case .
qed

lemma init_pool_full:
  assumes "i < length (mp_pools m)" "unat (pc_size c) + 40 < 2 ^ 32"
    "unat (pc_num c) * (unat (pc_size c) + 40) < 2 ^ 32"
  shows "init_pool (unat (pc_num c)) i c 0 m = adds_blocks i c (block_addrs c) m"
  using init_pool_eq [of i m c 0 "unat (pc_num c)"] assms by (simp add: block_addrs_def)

lemma init_pools_eq:
  assumes "distinct is" "\<forall>i\<in>set is. i < length (mp_pools m)"
    and "\<forall>i\<in>set is. unat (pc_size (mp_cfg m ! i)) + 40 < 2 ^ 32 \<and>
      unat (pc_num (mp_cfg m ! i)) * (unat (pc_size (mp_cfg m ! i)) + 40) < 2 ^ 32"
    and "\<forall>i\<in>set is. \<forall>j\<in>set is. i \<noteq> j \<longrightarrow>
      set (block_addrs (mp_cfg m ! i)) \<inter> set (block_addrs (mp_cfg m ! j)) = {}"
  shows "let m' = init_pools is m in mp_cfg m' = mp_cfg m \<and> mp_data m' = mp_data m \<and>
    length (mp_pools m') = length (mp_pools m) \<and>
    (\<forall>i. mp_pools m' ! i = (if i \<in> set is then block_addrs (mp_cfg m ! i) else mp_pools m ! i)) \<and>
    (\<forall>i\<in>set is. \<forall>q\<in>set (block_addrs (mp_cfg m ! i)). mp_nodes m' q = Some (fresh_node i (mp_cfg m ! i))) \<and>
    (\<forall>q. (\<forall>i\<in>set is. q \<notin> set (block_addrs (mp_cfg m ! i))) \<longrightarrow> mp_nodes m' q = mp_nodes m q) \<and>
    mp_total m' = mp_total m + sum_list (map (\<lambda>i. pc_num (mp_cfg m ! i)) is)"
  using assms
proof (induction "is" arbitrary: m)
  case Nil
  then show ?case by simp
next
  case (Cons i js)
  let ?c = "mp_cfg m ! i"
  let ?m0 = "m\<lparr>mp_pools := (mp_pools m)[i := []]\<rparr>"
  let ?m1 = "adds_blocks i ?c (block_addrs ?c) ?m0"
  let ?m2 = "?m1\<lparr>mp_total := mp_total ?m1 + pc_num ?c\<rparr>"
  have i: "i < length (mp_pools m)" "i \<notin> set js" using Cons.prems by auto
  have "init_pool (unat (pc_num ?c)) i ?c 0 ?m0 = ?m1"
    using Cons.prems by (intro init_pool_full) auto
  then have step: "init_pools (i # js) m = init_pools js ?m2" by (simp add: Let_def)
  have IH: "let m' = init_pools js ?m2 in mp_cfg m' = mp_cfg ?m2 \<and> mp_data m' = mp_data ?m2 \<and>
    length (mp_pools m') = length (mp_pools ?m2) \<and>
    (\<forall>i. mp_pools m' ! i = (if i \<in> set js then block_addrs (mp_cfg ?m2 ! i) else mp_pools ?m2 ! i)) \<and>
    (\<forall>i\<in>set js. \<forall>q\<in>set (block_addrs (mp_cfg ?m2 ! i)). mp_nodes m' q = Some (fresh_node i (mp_cfg ?m2 ! i))) \<and>
    (\<forall>q. (\<forall>i\<in>set js. q \<notin> set (block_addrs (mp_cfg ?m2 ! i))) \<longrightarrow> mp_nodes m' q = mp_nodes ?m2 q) \<and>
    mp_total m' = mp_total ?m2 + sum_list (map (\<lambda>i. pc_num (mp_cfg ?m2 ! i)) js)"
    using Cons.prems by (intro Cons.IH) (auto simp: adds_blocks_def)
  have pools: "mp_pools ?m2 ! k = (if k = i then block_addrs ?c else mp_pools m ! k)" for k
    using i by (simp add: adds_blocks_def)
  have other: "q \<notin> set (block_addrs (mp_cfg m ! j))" if "j \<in> set js" "q \<in> set (block_addrs ?c)" for j q
    using Cons.prems(4) that i(2) by auto
  have nodes: "mp_nodes ?m2 q = (if q \<in> set (block_addrs ?c) then Some (fresh_node i ?c) else mp_nodes m q)" for q
    by (simp add: adds_blocks_def)
  from IH show ?case unfolding step Let_def
    using pools nodes other i by (auto simp: adds_blocks_def)
qed

lemma distinct_concat_disjoint:
  "distinct (concat xss) \<Longrightarrow> i < length xss \<Longrightarrow> j < length xss \<Longrightarrow> i \<noteq> j \<Longrightarrow>
   set (xss ! i) \<inter> set (xss ! j) = {}"
proof (induction xss arbitrary: i j)
  case (Cons xs xss)
  have "set xs \<inter> set (xss ! k) = {}" if "k < length xss" for k
    using Cons.prems(1) nth_mem [OF that] by (auto simp del: nth_mem)
  then show ?case using Cons
    by (cases i; cases j) auto
qed simp

lemma distinct_concat_nth: "distinct (concat xss) \<Longrightarrow> i < length xss \<Longrightarrow> distinct (xss ! i)"
  by (induction xss arbitrary: i) (auto simp: nth_Cons')

lemma InitMemPool_inv:
  assumes cfg: "cfg_ok (mp_cfg m)" and m: "length (mp_pools m) = MAX_NUM_POOL_SIZE" "mp_nodes m = Map.empty"
  shows "mem_inv (InitMemPool m) \<and> live (InitMemPool m) = {} \<and>
    mp_pools (InitMemPool m) = map block_addrs (mp_cfg m) \<and> mp_cfg (InitMemPool m) = mp_cfg m \<and>
    MemGetNumMemBlock (InitMemPool m) = MemGetAvailableMemBlock (InitMemPool m)"
proof -
  define m' where "m' = InitMemPool m"
  let ?A = "\<lambda>i. block_addrs (mp_cfg m ! i)"
  have len: "length (mp_cfg m) = MAX_NUM_POOL_SIZE" and srt: "sorted (map pc_size (mp_cfg m))"
    and sz: "\<And>i. i < MAX_NUM_POOL_SIZE \<Longrightarrow> unat (pc_size (mp_cfg m ! i)) + 40 < 2 ^ 32 \<and>
      unat (pc_num (mp_cfg m ! i)) * (unat (pc_size (mp_cfg m ! i)) + 40) < 2 ^ 32"
    and dis: "distinct (concat (map block_addrs (mp_cfg m)))"
    using cfg by (auto simp: cfg_ok_def)
  have dj: "set (?A i) \<inter> set (?A j) = {}" if "i < MAX_NUM_POOL_SIZE" "j < MAX_NUM_POOL_SIZE" "i \<noteq> j" for i j
    using distinct_concat_disjoint [OF dis, of i j] that len by simp
  have da: "distinct (?A i)" if "i < MAX_NUM_POOL_SIZE" for i
    using distinct_concat_nth [OF dis, of i] that len by simp
  have "let m' = init_pools [0..<MAX_NUM_POOL_SIZE] (m\<lparr>mp_total := 0\<rparr>) in mp_cfg m' = mp_cfg (m\<lparr>mp_total := 0\<rparr>) \<and> mp_data m' = mp_data (m\<lparr>mp_total := 0\<rparr>) \<and>
    length (mp_pools m') = length (mp_pools (m\<lparr>mp_total := 0\<rparr>)) \<and>
    (\<forall>i. mp_pools m' ! i = (if i \<in> set [0..<MAX_NUM_POOL_SIZE] then block_addrs (mp_cfg (m\<lparr>mp_total := 0\<rparr>) ! i) else mp_pools (m\<lparr>mp_total := 0\<rparr>) ! i)) \<and>
    (\<forall>i\<in>set [0..<MAX_NUM_POOL_SIZE]. \<forall>q\<in>set (block_addrs (mp_cfg (m\<lparr>mp_total := 0\<rparr>) ! i)). mp_nodes m' q = Some (fresh_node i (mp_cfg (m\<lparr>mp_total := 0\<rparr>) ! i))) \<and>
    (\<forall>q. (\<forall>i\<in>set [0..<MAX_NUM_POOL_SIZE]. q \<notin> set (block_addrs (mp_cfg (m\<lparr>mp_total := 0\<rparr>) ! i))) \<longrightarrow> mp_nodes m' q = mp_nodes (m\<lparr>mp_total := 0\<rparr>) q) \<and>
    mp_total m' = mp_total (m\<lparr>mp_total := 0\<rparr>) + sum_list (map (\<lambda>i. pc_num (mp_cfg (m\<lparr>mp_total := 0\<rparr>) ! i)) [0..<MAX_NUM_POOL_SIZE])"
    using m sz dj by (intro init_pools_eq) auto
  then have i: "mp_cfg m' = mp_cfg m" "length (mp_pools m') = MAX_NUM_POOL_SIZE"
    "\<And>i. i < MAX_NUM_POOL_SIZE \<Longrightarrow> mp_pools m' ! i = ?A i"
    "\<And>i q. i < MAX_NUM_POOL_SIZE \<Longrightarrow> q \<in> set (?A i) \<Longrightarrow> mp_nodes m' q = Some (fresh_node i (mp_cfg m ! i))"
    "\<And>q. (\<forall>i<MAX_NUM_POOL_SIZE. q \<notin> set (?A i)) \<Longrightarrow> mp_nodes m' q = None"
    "mp_total m' = sum_list (map (\<lambda>i. pc_num (mp_cfg m ! i)) [0..<MAX_NUM_POOL_SIZE])"
    using m by (simp_all add: Let_def m'_def InitMemPool_def Ball_def del: upt_rec_numeral)
  have pools: "mp_pools m' = map block_addrs (mp_cfg m)"
    using i len by (intro nth_equalityI) auto
  have ex: "\<exists>i<MAX_NUM_POOL_SIZE. q \<in> set (?A i) \<and> n = fresh_node i (mp_cfg m ! i)"
    if "mp_nodes m' q = Some n" for q n
    using that i(4,5) by (metis option.distinct(1) option.inject)
  have pid: "pool_of (fresh_node i c) = i" if "i < MAX_NUM_POOL_SIZE" for i c
    using that by (simp add: fresh_node_def unat_of_nat_small)
  have "mp_nodes m' NULL = None"
    by (rule i(5)) (simp add: block_addrs_def block_addr_def image_iff)
  moreover have "dom (mp_nodes m') \<subseteq> (\<Union>i<MAX_NUM_POOL_SIZE. set (?A i))"
    using ex by blast
  then have "finite (dom (mp_nodes m'))" by (rule finite_subset) simp
  moreover have "node_ok m' q n" if q: "mp_nodes m' q = Some n" for q n
  proof -
    obtain k where k: "k < MAX_NUM_POOL_SIZE" "q \<in> set (?A k)" "n = fresh_node k (mp_cfg m ! k)"
      using ex [OF q] by blast
    have "pool_of n = k" using pid k by simp
    with k i show ?thesis by (simp add: node_ok_def) (simp add: fresh_node_def)
  qed
  moreover have "pool_ok m' k" if "k < MAX_NUM_POOL_SIZE" for k
    using i(3,4) [OF that] da [OF that] pid [OF that] by (auto simp: pool_ok_def)
  ultimately have inv: "mem_inv m'" using i(1,2) len srt by (simp add: mem_inv_def)
  have "live m' = {}" using ex by (fastforce simp: live_def fresh_node_def)
  moreover have "mp_total m' = of_nat (length (concat (mp_pools m')))"
  proof -
    have "sum_list (map (\<lambda>i. pc_num (f i)) xs) = (of_nat (length (concat (map (\<lambda>i. block_addrs (f i)) xs))) :: u32)"
      for f and xs :: "nat list"
      by (induction xs) (simp_all add: block_addrs_def)
    moreover have "map block_addrs (mp_cfg m) = map (\<lambda>i. block_addrs (mp_cfg m ! i)) [0..<MAX_NUM_POOL_SIZE]"
      using len by (intro nth_equalityI) simp_all
    ultimately show ?thesis unfolding pools i(6) by simp
  qed
  ultimately show ?thesis using inv pools i(1,2)
    by (simp add: m'_def [symmetric] MemGetNumMemBlock_def MemGetAvailable_eq)
qed

section \<open>Properties\<close>

text \<open>
  After \<open>InitMemPool\<close> with a table of disjoint buffers every block of every pool is
  free exactly once, in address order, the number of free blocks is the number of blocks, and
  the invariant of the pools holds.
\<close>

theorem InitMemPool_establishes:
  assumes "cfg_ok (mp_cfg m)" "length (mp_pools m) = MAX_NUM_POOL_SIZE" "mp_nodes m = Map.empty"
  shows "mem_inv (InitMemPool m) \<and> live (InitMemPool m) = {} \<and>
    mp_pools (InitMemPool m) = map block_addrs (mp_cfg m) \<and>
    MemGetNumMemBlock (InitMemPool m) = MemGetAvailableMemBlock (InitMemPool m)"
  using InitMemPool_inv [OF assms] by blast

text \<open>
  A small table for concrete runs: pool \<open>i\<close> has one block of \<open>8 * (i + 1)\<close>
  bytes.
\<close>

definition demo_cfg :: "MemPoolConfig list" where
  "demo_cfg = map (\<lambda>i. \<lparr>pc_size = 8 * of_nat (i + 1), pc_num = 1, pc_start = 1000 * (i + 1)\<rparr>) [0..<10]"

definition demo_mem :: mempool where
  "demo_mem = InitMemPool \<lparr>mp_nodes = Map.empty, mp_pools = replicate 10 [], mp_data = (\<lambda>_ _. 0),
     mp_cfg = demo_cfg, mp_total = 0\<rparr>"

lemma demo_cfg_ok: "cfg_ok demo_cfg"
  by (simp add: cfg_ok_def demo_cfg_def block_addrs_def block_addr_def upt_rec)

lemma demo_mem_inv: "mem_inv demo_mem" "live demo_mem = {}"
  "mp_pools demo_mem = map block_addrs demo_cfg" "mp_cfg demo_mem = demo_cfg"
  using InitMemPool_inv [of "\<lparr>mp_nodes = Map.empty, mp_pools = replicate 10 [], mp_data = (\<lambda>_ _. 0),
     mp_cfg = demo_cfg, mp_total = 0\<rparr>"] demo_cfg_ok
  by (simp_all add: demo_mem_def)

theorem InitMemPool_establishes_witness:
  "mem_inv demo_mem \<and> mp_pools demo_mem ! 2 = [3040]"
  using InitMemPool_establishes [of "\<lparr>mp_nodes = Map.empty, mp_pools = replicate 10 [], mp_data = (\<lambda>_ _. 0),
     mp_cfg = demo_cfg, mp_total = 0\<rparr>"] demo_cfg_ok
  by (simp add: demo_mem_def demo_cfg_def block_addrs_def block_addr_def)

text \<open>
  C12. Whatever sequence of allocations and releases a client makes, it runs to its end; the
  blocks the client owns at any end are distinct and none of them was owned before it
  started; nobody's bytes change; and the number of free blocks that
  \<open>MemGetAvailableMemBlock\<close> reports dropped by exactly the number of blocks the client
  still owns.
\<close>

theorem mempool_client_run:
  assumes "mem_inv m"
  shows "\<exists>own m'. alloc_run MemAlloc MemFree rs [] m = Some (own, m') \<and> mem_inv m' \<and> distinct own \<and>
    live m' = live m \<union> set own \<and> live m \<inter> set own = {} \<and> mp_data m' = mp_data m \<and>
    MemGetAvailableMemBlock m = MemGetAvailableMemBlock m' + of_nat (length own)"
proof -
  obtain own m' where r: "alloc_run MemAlloc MemFree rs [] m = Some (own, m')" "mem_inv m'" "distinct own"
    "live m' = live m \<union> set own" "live m \<inter> set own = {}" "mp_data m' = mp_data m"
    "length (concat (mp_pools m')) + length own = length (concat (mp_pools m))"
    using mp.run_ok [OF assms, of "[]" rs] by auto
  then have "(of_nat (length (concat (mp_pools m))) :: u32) =
      of_nat (length (concat (mp_pools m'))) + of_nat (length own)"
    by (metis of_nat_add)
  with r show ?thesis
    using MemGetAvailable_eq mem_invD(1) [OF assms] mem_invD(1) [OF r(2)] by auto
qed

theorem mempool_client_run_witness:
  "\<exists>own m'. alloc_run MemAlloc MemFree [Req 8, Req 8, Rel 0, Req 100] [] demo_mem = Some (own, m') \<and>
     distinct own \<and> live m' = set own"
  using mempool_client_run [OF demo_mem_inv(1), of "[Req 8, Req 8, Rel 0, Req 100]"] demo_mem_inv(2)
  by auto

text \<open>
  C30. \<open>MemAlloc\<close> fails only when every pool whose blocks are large enough is empty; otherwise
  the block comes from the first such pool that is not empty, holds at least the requested
  bytes, and its recorded length is the requested one truncated to 16 bits.
\<close>

theorem MemAlloc_best_fit:
  assumes "mem_inv m"
  shows "\<exists>p m'. MemAlloc m len = Some (p, m') \<and>
    (if p = NULL then m' = m \<and> (\<forall>j<MAX_NUM_POOL_SIZE. len \<le> pc_size (mp_cfg m ! j) \<longrightarrow> mp_pools m ! j = [])
     else p \<notin> live m \<and> unat len \<le> blk_cap m' p \<and> MemGetLength m' p = Some (ucast (ucast len :: u16)) \<and>
       (\<exists>n. mp_nodes m p = Some n \<and> p \<in> set (mp_pools m ! pool_of n) \<and>
         (\<forall>j<pool_of n. len \<le> pc_size (mp_cfg m ! j) \<longrightarrow> mp_pools m ! j = [])))"
  using assms
proof (cases rule: MemAlloc_cases [of m len])
  case none
  then show ?thesis by auto
next
  case (block p n m')
  have "p \<in> set (mp_pools m ! pool_of n)"
    using mem_invD(5) [OF assms block(8)] block(4,8) by (auto simp: node_ok_def live_def)
  moreover have "mp_nodes m' p = Some (n\<lparr>mn_length := ucast len, mn_isInUsed := 1\<rparr>)"
    using block(9) by simp
  moreover from live_CheckNode(1) [OF block(2) this]
  have "MemGetLength m' p = Some (ucast (ucast len :: u16))" by (simp add: MemGetLength_def)
  moreover have "unat len \<le> blk_cap m' p"
    using block(7,9,10) by (simp add: blk_cap_def word_le_nat_alt)
  ultimately show ?thesis using block by auto
qed

theorem MemAlloc_best_fit_witness:
  "\<exists>p m'. MemAlloc demo_mem 60 = Some (p, m') \<and>
    (if p = NULL then m' = demo_mem \<and>
       (\<forall>j<MAX_NUM_POOL_SIZE. (60 :: u32) \<le> pc_size (mp_cfg demo_mem ! j) \<longrightarrow> mp_pools demo_mem ! j = [])
     else p \<notin> live demo_mem \<and> 60 \<le> blk_cap m' p)"
proof -
  from MemAlloc_best_fit [OF demo_mem_inv(1), of 60] obtain p m' where
    "MemAlloc demo_mem 60 = Some (p, m')"
    "if p = NULL then m' = demo_mem \<and>
       (\<forall>j<MAX_NUM_POOL_SIZE. (60 :: u32) \<le> pc_size (mp_cfg demo_mem ! j) \<longrightarrow> mp_pools demo_mem ! j = [])
     else p \<notin> live demo_mem \<and> 60 \<le> blk_cap m' p"
    by (auto split: if_splits)
  then show ?thesis by blast
qed

text \<open>
  Freeing a block that is already free, or the null pointer, changes nothing; in
  particular a second release of the same block cannot enter it into its pool twice.
\<close>

theorem MemFree_twice:
  assumes "mem_inv m" "p = NULL \<or> p \<in> dom (mp_nodes m)"
  shows "\<exists>m'. MemFree m p = Some m' \<and> MemFree m' p = Some m' \<and> (p \<notin> live m \<longrightarrow> m' = m)"
proof (cases "p \<in> live m")
  case True
  obtain n m' where f: "MemFree m p = Some m'" "mem_inv m'" "live m' = live m - {p}"
    "mp_nodes m' = (mp_nodes m)(p \<mapsto> n\<lparr>mn_length := 0, mn_isInUsed := 0\<rparr>)"
    using MemFree_live [OF assms(1) True] by metis
  have "MemFree m' p = Some m'" using f by (intro MemFree_not_live) auto
  with f True show ?thesis by auto
next
  case False
  with MemFree_not_live [OF assms(1) False] assms(2) show ?thesis by auto
qed

theorem MemFree_twice_witness:
  "\<exists>m'. MemFree demo_mem 1040 = Some m' \<and> MemFree m' 1040 = Some m'"
proof -
  have "1040 \<in> set (mp_pools demo_mem ! 0)"
    by (simp add: demo_mem_inv demo_cfg_def block_addrs_def block_addr_def)
  then have "1040 \<in> dom (mp_nodes demo_mem)"
    using mem_invD(6) [OF demo_mem_inv(1), of 0] by (auto simp: pool_ok_def)
  with MemFree_twice [OF demo_mem_inv(1), of 1040] show ?thesis by blast
qed

lemma MemJoin_joined:
  assumes "mem_inv m" "src \<in> live m" "dst \<in> live m" "src \<noteq> dst"
    and "mp_nodes m src = Some s" "mp_nodes m dst = Some d"
    and "unat (mn_length s) + unat (mn_length d) \<le> unat (mn_size s) \<or>
      unat (mn_size d) < unat (mn_length s) + unat (mn_length d) \<or> mn_length d \<le> mn_length s"
  shows "\<exists>r m'. MemJoin m src dst = Some (r, m') \<and>
    (if r = NULL then mem_inv m' \<and> live m' = live m - {src, dst} \<and> mp_cfg m' = mp_cfg m \<and> same_but {src, dst} m m' \<and>
       (\<forall>j<MAX_NUM_POOL_SIZE. of_nat (unat (mn_length s) + unat (mn_length d)) \<le> pc_size (mp_cfg m ! j) \<longrightarrow>
         mp_pools m ! j = [])
     else r \<notin> live m - {src, dst} \<and> grown m m' r {src, dst} (blk_bytes m src (unat (mn_length s)) @ blk_bytes m dst (unat (mn_length d))))"
proof -
  have nz: "src \<noteq> NULL" "dst \<noteq> NULL" using live_CheckNode(2) [OF assms(1,5)] live_CheckNode(2) [OF assms(1,6)] .
  consider (a) "unat (mn_length s) + unat (mn_length d) \<le> unat (mn_size s)"
    | (b) "unat (mn_size s) < unat (mn_length s) + unat (mn_length d)"
      "unat (mn_length s) + unat (mn_length d) \<le> unat (mn_size d)" "unat (mn_length d) \<le> unat (mn_length s)"
    | (c) "unat (mn_size s) < unat (mn_length s) + unat (mn_length d)"
      "unat (mn_size d) < unat (mn_length s) + unat (mn_length d)"
    using assms(7) unfolding word_le_nat_alt by linarith
  then show ?thesis
  proof cases
    case a
    from MemJoin_into_src [OF assms(1-6) refl refl a] obtain m' where
      "MemJoin m src dst = Some (src, m')"
      "grown m m' src {src, dst} (blk_bytes m src (unat (mn_length s)) @ blk_bytes m dst (unat (mn_length d)))"
      by blast
    then show ?thesis using nz(1) by (intro exI [of _ src] exI [of _ m']) simp
  next
    case b
    from MemJoin_into_dst [OF assms(1-6) refl refl b] obtain m' where
      "MemJoin m src dst = Some (dst, m')"
      "grown m m' dst {src, dst} (blk_bytes m src (unat (mn_length s)) @ blk_bytes m dst (unat (mn_length d)))"
      by blast
    then show ?thesis using nz(2) by (intro exI [of _ dst] exI [of _ m']) simp
  next
    case c
    from MemJoin_into_new [OF assms(1-6) refl refl c] obtain r m' where
      j: "MemJoin m src dst = Some (r, m')" and
      r: "if r = NULL then mem_inv m' \<and> live m' = live m - {src, dst} \<and> mp_cfg m' = mp_cfg m \<and> same_but {src, dst} m m' \<and>
          (\<forall>j<MAX_NUM_POOL_SIZE. of_nat (unat (mn_length s) + unat (mn_length d)) \<le> pc_size (mp_cfg m ! j) \<longrightarrow>
            mp_pools m ! j = [])
        else r \<notin> live m \<and> grown m m' r {src, dst} (blk_bytes m src (unat (mn_length s)) @ blk_bytes m dst (unat (mn_length d)))"
      by blast
    from j r show ?thesis by (intro exI [of _ r] exI [of _ m']) (cases "r = NULL", simp_all)
  qed
qed

text \<open>
  C31. \<open>MemJoin\<close> of two owned blocks releases both but the one it answers, and the answered
  block holds the bytes of the first followed by the bytes of the second, with the sum of the
  lengths (modulo 16 bits) as its length; it answers the null pointer, with both blocks
  released, only when no pool can hold the sum.  The exception is a first block that is too
  small and shorter than a second block that is large enough: there the program copies
  between overlapping ranges with \<open>memcpy\<close>.  No other block is touched.
\<close>

theorem MemJoin_concatenates:
  assumes "mem_inv m" "src \<in> live m" "dst \<in> live m" "src \<noteq> dst"
    and "mp_nodes m src = Some s" "mp_nodes m dst = Some d"
    and "unat (mn_length s) + unat (mn_length d) \<le> unat (mn_size s) \<or>
      unat (mn_size d) < unat (mn_length s) + unat (mn_length d) \<or> mn_length d \<le> mn_length s"
  shows "\<exists>r m'. MemJoin m src dst = Some (r, m') \<and>
    (if r = NULL then mem_inv m' \<and> live m' = live m - {src, dst} \<and> mp_cfg m' = mp_cfg m \<and> same_but {src, dst} m m' \<and>
       (\<forall>j<MAX_NUM_POOL_SIZE. of_nat (unat (mn_length s) + unat (mn_length d)) \<le> pc_size (mp_cfg m ! j) \<longrightarrow>
         mp_pools m ! j = [])
     else r \<notin> live m - {src, dst} \<and> grown m m' r {src, dst} (blk_bytes m src (unat (mn_length s)) @ blk_bytes m dst (unat (mn_length d))))"
  using assms by (rule MemJoin_joined)

text \<open>Two blocks of \<open>demo_mem\<close> in use, of 48 and 56 bytes, with lengths 10 and 20.\<close>

definition demo_join :: mempool where
  "demo_join = demo_mem\<lparr>
     mp_nodes := (mp_nodes demo_mem)(
       6040 \<mapsto> (the (mp_nodes demo_mem 6040))\<lparr>mn_length := 10, mn_isInUsed := 1\<rparr>,
       7040 \<mapsto> (the (mp_nodes demo_mem 7040))\<lparr>mn_length := 20, mn_isInUsed := 1\<rparr>),
     mp_pools := (mp_pools demo_mem)[5 := [], 6 := []],
     mp_data := (\<lambda>p i. of_nat (p + i))\<rparr>"

lemma demo_mem_block:
  "mp_pools demo_mem ! 5 = [6040]" "mp_pools demo_mem ! 6 = [7040]"
  "mp_cfg demo_mem ! 5 = \<lparr>pc_size = 48, pc_num = 1, pc_start = 6000\<rparr>"
  "mp_cfg demo_mem ! 6 = \<lparr>pc_size = 56, pc_num = 1, pc_start = 7000\<rparr>"
  by (simp_all add: demo_mem_inv demo_cfg_def block_addrs_def block_addr_def)

lemma demo_mem_node:
  "\<exists>n. mp_nodes demo_mem 6040 = Some n \<and> pool_of n = 5 \<and> mn_size n = 48"
  "\<exists>n. mp_nodes demo_mem 7040 = Some n \<and> pool_of n = 6 \<and> mn_size n = 56"
  using mem_invD(6) [OF demo_mem_inv(1), of 5] mem_invD(6) [OF demo_mem_inv(1), of 6]
    mem_invD(5) [OF demo_mem_inv(1), of 6040] mem_invD(5) [OF demo_mem_inv(1), of 7040]
  by (auto simp: pool_ok_def node_ok_def demo_mem_block)

lemma demo_join_inv: "mem_inv demo_join" "6040 \<in> live demo_join" "7040 \<in> live demo_join"
proof -
  obtain n5 n6 where n: "mp_nodes demo_mem 6040 = Some n5" "pool_of n5 = 5"
    "mp_nodes demo_mem 7040 = Some n6" "pool_of n6 = 6" using demo_mem_node by blast
  define m1 where "m1 = demo_mem\<lparr>mp_nodes := (mp_nodes demo_mem)(6040 \<mapsto> n5\<lparr>mn_length := 10, mn_isInUsed := 1\<rparr>),
    mp_pools := (mp_pools demo_mem)[5 := []]\<rparr>"
  have "mem_inv m1 \<and> 6040 \<notin> live demo_mem \<and> live m1 = insert 6040 (live demo_mem)"
    using n by (intro mem_inv_take [OF demo_mem_inv(1) _ _ n(1) _ m1_def]) (simp_all add: demo_mem_block)
  then have 1: "mem_inv m1" "live m1 = {6040}" using demo_mem_inv by auto
  define m2 where "m2 = m1\<lparr>mp_nodes := (mp_nodes m1)(7040 \<mapsto> n6\<lparr>mn_length := 20, mn_isInUsed := 1\<rparr>),
    mp_pools := (mp_pools m1)[6 := []]\<rparr>"
  have "mp_nodes m1 7040 = Some n6" using n by (simp add: m1_def)
  then have "mem_inv m2 \<and> 7040 \<notin> live m1 \<and> live m2 = insert 7040 (live m1)"
    using n by (intro mem_inv_take [OF 1(1) _ _ _ _ m2_def]) (simp_all add: m1_def demo_mem_block)
  then have 2: "mem_inv m2" "live m2 = {7040, 6040}" using 1 by simp_all
  have e: "demo_join = m2\<lparr>mp_data := (\<lambda>p i. of_nat (p + i))\<rparr>"
    by (simp add: demo_join_def m2_def m1_def n)
  show "mem_inv demo_join" "6040 \<in> live demo_join" "7040 \<in> live demo_join"
    unfolding e mem_inv_data using 2 by simp_all
qed

theorem MemJoin_concatenates_witness:
  "\<exists>r m'. MemJoin demo_join 6040 7040 = Some (r, m') \<and>
    (if r = NULL then mem_inv m' \<and> live m' = live demo_join - {6040, 7040} \<and> mp_cfg m' = mp_cfg demo_join \<and>
       same_but {6040, 7040} demo_join m' \<and>
       (\<forall>j<MAX_NUM_POOL_SIZE. of_nat (10 + 20) \<le> pc_size (mp_cfg demo_join ! j) \<longrightarrow> mp_pools demo_join ! j = [])
     else r \<notin> live demo_join - {6040, 7040} \<and> grown demo_join m' r {6040, 7040} (blk_bytes demo_join 6040 10 @ blk_bytes demo_join 7040 20))"
proof -
  obtain n5 n6 where n: "mp_nodes demo_mem 6040 = Some n5" "mn_size n5 = 48"
    "mp_nodes demo_mem 7040 = Some n6" using demo_mem_node by blast
  then have "mp_nodes demo_join 6040 = Some (n5\<lparr>mn_length := 10, mn_isInUsed := 1\<rparr>)"
    "mp_nodes demo_join 7040 = Some (n6\<lparr>mn_length := 20, mn_isInUsed := 1\<rparr>)"
    by (simp_all add: demo_join_def)
  note t = MemJoin_concatenates [OF demo_join_inv _ this]
  have e: "unat (mn_length (n5\<lparr>mn_length := 10, mn_isInUsed := 1\<rparr>)) = 10"
    "unat (mn_length (n6\<lparr>mn_length := 20, mn_isInUsed := 1\<rparr>)) = 20" by simp_all
  show ?thesis by (rule t [unfolded e]) (simp_all add: n)
qed

lemma set_len_live:
  assumes inv: "mem_inv m" and n: "mp_nodes m p = Some n" and l: "l \<le> unat (mn_length n)"
  obtains m' where "set_len m p (of_nat l) = Some m'" "mem_inv m'" "live m' = live m"
    "mp_data m' = mp_data m" "MemGetLength m' p = Some (of_nat l)"
    "mp_nodes m' = (mp_nodes m)(p \<mapsto> n\<lparr>mn_length := of_nat l\<rparr>)" "mp_cfg m' = mp_cfg m" "l < 2 ^ 16"
proof -
  define m' where "m' = m\<lparr>mp_nodes := (mp_nodes m)(p \<mapsto> n\<lparr>mn_length := of_nat l\<rparr>)\<rparr>"
  have e: "set_len m p (of_nat l) = Some m'" using n by (simp add: set_len_def m'_def)
  have l16: "l < 2 ^ 16" using l unsigned_less [of "mn_length n", where 'a = nat] by simp
  have "unat (of_nat l :: u16) \<le> unat (pc_size (mp_cfg m ! pool_of n))"
    using mem_invD(5) [OF inv n] l l16 by (simp add: node_ok_def unat_of_nat_small)
  from mem_inv_set_len [OF inv n this e] have i: "mem_inv m'" "live m' = live m" by simp_all
  have "mp_nodes m' p = Some (n\<lparr>mn_length := of_nat l\<rparr>)" by (simp add: m'_def)
  from live_CheckNode(1) [OF i(1) this] have "MemGetLength m' p = Some (ucast (of_nat l :: u16))"
    by (simp add: MemGetLength_def)
  also have "(ucast (of_nat l :: u16) :: u32) = of_nat l"
  proof -
    have "take_bit 16 l = l" using l16 by (simp add: take_bit_nat_eq_self_iff)
    then show ?thesis by (simp add: unsigned_of_nat)
  qed
  finally show thesis using that [OF e i] l16 by (simp add: m'_def)
qed

lemma MemRemove_taken:
  assumes "mem_inv m" "p \<in> live m" "mp_nodes m p = Some n" "len = unat (mn_length n)"
  shows "\<exists>m' c. MemRemove m p wh count = Some (c, m') \<and> mem_inv m' \<and> live m' = live m \<and>
    unat c = min (unat count) (len - unat wh) \<and> MemGetLength m' p = Some (of_nat (len - unat c)) \<and>
    blk_bytes m' p (len - unat c) =
      take (unat wh) (blk_bytes m p len) @ drop (unat wh + unat count) (blk_bytes m p len) \<and>
    mp_cfg m' = mp_cfg m \<and> same_but {p} m m' \<and> blk_cap m' p = blk_cap m p \<and>
    (\<exists>n'. mp_nodes m' p = Some n' \<and> unat (mn_length n') = len - unat c)"
proof -
  have chk: "CheckNode m p = Some (Some n)" using live_CheckNode(1) [OF assms(1,3)] .
  define L where "L = (ucast (mn_length n) :: u32)"
  have L: "unat L = len" using assms(4) unsigned_less [of "mn_length n", where 'a = nat]
    by (simp add: L_def unsigned_ucast_eq take_bit_nat_eq_self_iff)
  have len16: "len < 2 ^ 16" using assms(4) unsigned_less [of "mn_length n", where 'a = nat] by simp
  have cap: "len \<le> blk_cap m p" using blk_cap_ok [OF assms(1,3)] assms(4) by simp
  have down: "(ucast x :: u16) = of_nat (unat x)" for x :: u32 by simp
  have bytes: "length (blk_bytes m p len) = len" "take k (blk_bytes m p len) = blk_bytes m p (min k len)" for k
    by (simp_all add: blk_bytes_def take_map min_def)
  consider (beyond) "wh \<ge> L" | (rest) "wh < L" "count > L - wh" | (mid) "wh < L" "count \<le> L - wh"
    by (meson not_le)
  then show ?thesis
  proof cases
    case beyond
    then have w: "len \<le> unat wh" using L by (simp add: word_le_nat_alt)
    have "MemRemove m p wh count = Some (0, m)" using chk beyond by (simp add: MemRemove_def L_def)
    moreover have "MemGetLength m p = Some (of_nat len)"
      using chk by (simp add: MemGetLength_def L [symmetric] flip: L_def)
    ultimately show ?thesis using w assms bytes by (simp add: same_but_def)
  next
    case rest
    have sub: "unat (L - wh) = len - unat wh" using rest L by (simp add: unat_sub less_imp_le)
    have e: "ucast (L - (L - wh)) = (of_nat (unat wh) :: u16)" by simp
    have w: "unat wh < len" using rest L by (simp add: word_less_nat_alt)
    obtain m' where m': "set_len m p (of_nat (unat wh)) = Some m'" "mem_inv m'" "live m' = live m"
      "mp_data m' = mp_data m" "MemGetLength m' p = Some (of_nat (unat wh))"
      "mp_nodes m' = (mp_nodes m)(p \<mapsto> n\<lparr>mn_length := of_nat (unat wh)\<rparr>)" "mp_cfg m' = mp_cfg m" "unat wh < 2 ^ 16"
      using set_len_live [OF assms(1,3), of "unat wh"] w assms(4) by auto
    have "MemRemove m p wh count = Some (L - wh, m')"
      using chk not_le [THEN iffD2, OF rest(1)] rest(2) m'(1) e by (simp add: MemRemove_def flip: L_def)
    moreover have "len - unat wh < unat count" using rest(2) sub by (simp add: word_less_nat_alt)
    moreover have "blk_bytes m' p (unat wh) = take (unat wh) (blk_bytes m p len)"
      using m'(4) w bytes(2) by (simp add: blk_bytes_def)
    moreover have "blk_cap m' p = blk_cap m p" using m'(6,7) assms(3) by (simp add: blk_cap_def)
    moreover have "same_but {p} m m'" using m'(4,6) by (simp add: same_but_def)
    moreover have "\<exists>n'. mp_nodes m' p = Some n' \<and> unat (mn_length n') = len - unat (L - wh)"
      using m'(6,8) sub w by (simp add: unat_of_nat_small del: of_nat_unat)
    ultimately show ?thesis using m'(1-5,7) sub w bytes(1) by (intro exI [of _ m'] exI [of _ "L - wh"]) auto
  next
    case mid
    have sub: "unat (L - wh) = len - unat wh" using mid L by (simp add: unat_sub less_imp_le)
    have w: "unat wh < len" using mid L by (simp add: word_less_nat_alt)
    have c: "unat count \<le> len - unat wh" using mid(2) sub by (simp add: word_le_nat_alt)
    have sub2: "unat (L - wh - count) = len - unat wh - unat count"
      using sub mid(2) by (simp add: unat_sub)
    have sub3: "unat (L - count) = len - unat count"
      using c L w by (simp add: unat_sub word_le_nat_alt)
    let ?m = "m\<lparr>mp_data := copied m p (unat wh) p (unat wh + unat count) (len - unat wh - unat count)\<rparr>"
    have mv: "mem_move m p (unat wh) p (unat wh + unat count) (len - unat wh - unat count) = Some ?m"
      using cap w c by (intro mem_move_Some) auto
    obtain m' where m': "set_len ?m p (of_nat (len - unat count)) = Some m'" "mem_inv m'" "live m' = live m"
      "mp_data m' = mp_data ?m" "MemGetLength m' p = Some (of_nat (len - unat count))"
      "mp_nodes m' = (mp_nodes ?m)(p \<mapsto> n\<lparr>mn_length := of_nat (len - unat count)\<rparr>)" "mp_cfg m' = mp_cfg ?m"
      using set_len_live [of ?m p n "len - unat count"] assms by auto
    have "MemRemove m p wh count = Some (count, m')"
      using chk not_le [THEN iffD2, OF mid(1)] not_less [THEN iffD2, OF mid(2)] mv m'(1)
      by (simp add: MemRemove_def sub2 down sub3 flip: L_def)
    moreover have "blk_bytes m' p (len - unat count) =
        take (unat wh) (blk_bytes m p len) @ drop (unat wh + unat count) (blk_bytes m p len)"
      using m'(4) w c
      by (intro nth_equalityI) (auto simp: blk_bytes_def copied_def nth_append)
    moreover have "blk_cap m' p = blk_cap m p" using m'(6,7) assms(3) by (simp add: blk_cap_def)
    moreover have "same_but {p} m m'" using m'(4,6) by (simp add: same_but_def copied_def)
    moreover have "\<exists>n'. mp_nodes m' p = Some n' \<and> unat (mn_length n') = len - unat count"
    proof -
      have "len - unat count < 2 ^ LENGTH(16)" using len16 by simp
      then have "unat (of_nat (len - unat count) :: u16) = len - unat count" by (rule unat_of_nat_small)
      then show ?thesis using m'(6) by simp
    qed
    ultimately show ?thesis using m'(1-5,7) c by (intro exI [of _ m'] exI [of _ count]) auto
  qed
qed

text \<open>
  \<open>MemRemove\<close> takes \<open>count\<close> bytes out at \<open>where\<close>, or all bytes
  from there on when fewer remain, and answers how many it took; the bytes before and after keep their
  order, and nothing happens when \<open>where\<close> is beyond the end.
\<close>

theorem MemRemove_removes:
  assumes "mem_inv m" "p \<in> live m" "mp_nodes m p = Some n" "len = unat (mn_length n)"
  shows "\<exists>m' c. MemRemove m p wh count = Some (c, m') \<and> mem_inv m' \<and> live m' = live m \<and>
    unat c = min (unat count) (len - unat wh) \<and> MemGetLength m' p = Some (of_nat (len - unat c)) \<and>
    blk_bytes m' p (len - unat c) =
      take (unat wh) (blk_bytes m p len) @ drop (unat wh + unat count) (blk_bytes m p len)"
  using MemRemove_taken [OF assms] by blast

theorem MemRemove_removes_witness:
  "\<exists>m' c. MemRemove demo_join 7040 5 3 = Some (c, m') \<and> mem_inv m' \<and> unat c = 3 \<and>
    blk_bytes m' 7040 17 = take 5 (blk_bytes demo_join 7040 20) @ drop 8 (blk_bytes demo_join 7040 20)"
proof -
  obtain n6 where n: "mp_nodes demo_mem 7040 = Some n6" using demo_mem_node by blast
  have "mp_nodes demo_join 7040 = Some (n6\<lparr>mn_length := 20, mn_isInUsed := 1\<rparr>)"
    using n by (simp add: demo_join_def)
  from MemRemove_removes [OF demo_join_inv(1,3) this, of 20 5 3] show ?thesis
    by auto
qed

end
