(* ===== verification/Asn1_Bits.thy ===== *)
theory Asn1_Bits
  imports Ulp_Prelude
begin

text \<open>
  The bit vectors of \<open>ulp/src/asn1Lib.c\<close>: one byte per bit in a fixed array, written from
  bytes and integers and read back as integers through a moving pointer (here an index).
  \<open>None\<close> is an access outside of the array.
\<close>

abbreviation (input) LIBLTE_MAX_MSG_SIZE_BITS :: nat where "LIBLTE_MAX_MSG_SIZE_BITS \<equiv> 102048"
abbreviation (input) LIBLTE_MAX_MSG_SIZE_BYTES :: nat where "LIBLTE_MAX_MSG_SIZE_BYTES \<equiv> 12756"

text \<open>The array, and where bytes are read from (\<open>None\<close> beyond the object).\<close>

type_synonym bitbuf = "nat \<Rightarrow> u8"
type_synonym reader = "nat \<Rightarrow> u8 option"

definition reader_of :: "u8 list \<Rightarrow> reader" where
  "reader_of bs i = (if i < length bs then Some (bs ! i) else None)"

text \<open>
  \<open>LIBLTE_ERROR_ENUM\<close>; the program also compares these values with \<open>ASN1_SUCCES\<close> and
  \<open>ASN1_ERROR\<close>, which have the same numbers.
\<close>

datatype asn1_err = LIBLTE_SUCCESS | LIBLTE_ERROR_INVALID_INPUTS

text \<open>
  \<open>LIBLTE_SIMPLE_BYTE_MSG_STRUCT\<close>: an array of 12756 bytes and the number of bytes in use.
\<close>

record simple_msg =
  N_bytes :: u32
  sm_msg :: "nat \<Rightarrow> u8"

section \<open>Writing and reading\<close>

definition convert_int_to_bits_vector :: "bitbuf \<Rightarrow> nat \<Rightarrow> u32 \<Rightarrow> nat \<Rightarrow> (bitbuf \<times> nat) option" where
  "convert_int_to_bits_vector b p v n = do {
     ensure (p + n \<le> LIBLTE_MAX_MSG_SIZE_BITS);
     Some (fold (\<lambda>i b. b(p + i := ucast (drop_bit (n - i - 1) v AND 1))) [0..<n] b, p + n) }"

text \<open>
  The loop over the whole bytes, from byte \<open>i\<close> on with \<open>k\<close> bytes to go.
\<close>

fun convert_bytes :: "nat \<Rightarrow> nat \<Rightarrow> bitbuf \<Rightarrow> nat \<Rightarrow> reader \<Rightarrow> (bitbuf \<times> nat) option" where
  "convert_bytes 0 i b p rd = Some (b, p)"
| "convert_bytes (Suc k) i b p rd = do {
     v \<leftarrow> rd i;
     (b, p) \<leftarrow> convert_int_to_bits_vector b p (ucast v) 8;
     convert_bytes k (i + 1) b p rd }"

definition convert_bytes_to_bits_vector :: "bitbuf \<Rightarrow> nat \<Rightarrow> reader \<Rightarrow> nat \<Rightarrow> bitbuf option" where
  "convert_bytes_to_bits_vector b p rd num_bits = do {
     let nbytes = num_bits div 8;
     (b, p) \<leftarrow> convert_bytes nbytes 0 b p rd;
     let temp = nbytes * 8;
     if num_bits > temp then do {
       v \<leftarrow> rd nbytes;
       (b, p) \<leftarrow> convert_int_to_bits_vector b p (drop_bit (8 - (num_bits - temp)) (ucast v)) (num_bits - temp);
       Some b
     } else Some b }"

definition liblte_bits_2_value :: "bitbuf \<Rightarrow> nat \<Rightarrow> nat \<Rightarrow> (u32 \<times> nat) option" where
  "liblte_bits_2_value b p n = do {
     ensure (p + n \<le> LIBLTE_MAX_MSG_SIZE_BITS);
     Some (fold (\<lambda>i v. v OR push_bit (n - i - 1) (ucast (b (p + i)))) [0..<n] 0, p + n) }"

section \<open>Bit strings\<close>

text \<open>The most significant bit first, as the program writes them.\<close>

definition bits_of :: "nat \<Rightarrow> nat \<Rightarrow> bool list" where
  "bits_of n v = map (\<lambda>i. bit v (n - i - 1)) [0..<n]"

definition bits_of_bytes :: "u8 list \<Rightarrow> bool list" where
  "bits_of_bytes bs = concat (map (\<lambda>b. bits_of 8 (unat b)) bs)"

definition has_bits :: "bitbuf \<Rightarrow> nat \<Rightarrow> bool list \<Rightarrow> bool" where
  "has_bits b p bs \<longleftrightarrow> (\<forall>i<length bs. b (p + i) = of_bool (bs ! i))"

lemma length_bits_of [simp]: "length (bits_of n v) = n"
  by (simp add: bits_of_def)

lemma length_bits_of_bytes [simp]: "length (bits_of_bytes bs) = 8 * length bs"
  by (induction bs) (simp_all add: bits_of_bytes_def)

lemma bits_of_bytes_simps [simp]:
  "bits_of_bytes [] = []" "bits_of_bytes (b # bs) = bits_of 8 (unat b) @ bits_of_bytes bs"
  by (simp_all add: bits_of_bytes_def)

lemma has_bits_Nil [simp]: "has_bits b p []"
  by (simp add: has_bits_def)

lemma has_bits_append:
  "has_bits b p (xs @ ys) \<longleftrightarrow> has_bits b p xs \<and> has_bits b (p + length xs) ys"
proof
  assume h: "has_bits b p (xs @ ys)"
  have "has_bits b p xs" using h by (auto simp: has_bits_def nth_append)
  moreover have "b (p + length xs + i) = of_bool (ys ! i)" if "i < length ys" for i
    using h that by (auto simp: has_bits_def nth_append dest!: spec [of _ "length xs + i"] simp: add.assoc)
  ultimately show "has_bits b p xs \<and> has_bits b (p + length xs) ys" by (simp add: has_bits_def)
next
  assume h: "has_bits b p xs \<and> has_bits b (p + length xs) ys"
  show "has_bits b p (xs @ ys)" unfolding has_bits_def
  proof (intro allI impI)
    fix i assume i: "i < length (xs @ ys)"
    show "b (p + i) = of_bool ((xs @ ys) ! i)"
    proof (cases "i < length xs")
      case True
      with h show ?thesis by (simp add: has_bits_def nth_append)
    next
      case False
      then obtain j where j: "i = length xs + j" by (metis le_Suc_ex not_less)
      then have "b (p + length xs + j) = of_bool (ys ! j)"
        using h i by (simp add: has_bits_def)
      with j show ?thesis by (simp add: nth_append add.assoc)
    qed
  qed
qed

lemma has_bits_cong: "(\<And>i. p \<le> i \<Longrightarrow> i < p + length bs \<Longrightarrow> b' i = b i) \<Longrightarrow> has_bits b' p bs = has_bits b p bs"
  by (auto simp: has_bits_def)

subsection \<open>Reading a bit string\<close>

lemma bits_fold:
  assumes "n \<le> 32" "m \<le> n" "\<And>i. i < n \<Longrightarrow> b (p + i) = of_bool (f i)"
  shows "bit (fold (\<lambda>i v. v OR push_bit (n - i - 1) (ucast (b (p + i)))) [0..<m] (0 :: u32)) k \<longleftrightarrow>
    (\<exists>i<m. k = n - i - 1 \<and> f i)"
  using assms(2)
proof (induction m)
  case 0
  then show ?case by simp
next
  case (Suc m)
  have bm: "b (p + m) = of_bool (f m)" using assms(3) Suc.prems by simp
  have "bit (push_bit (n - m - 1) (ucast (b (p + m))) :: u32) k \<longleftrightarrow> k = n - m - 1 \<and> f m"
    unfolding bm using assms(1) Suc.prems by (auto simp: bit_simps)
  with Suc show ?case by (auto simp: bit_or_iff less_Suc_eq)
qed

lemma liblte_bits_2_value_bits_of:
  assumes "has_bits b p (bits_of n v)" "n \<le> 32" "v < 2 ^ n" "p + n \<le> LIBLTE_MAX_MSG_SIZE_BITS"
  shows "liblte_bits_2_value b p n = Some (of_nat v, p + n)"
proof -
  have b: "b (p + i) = of_bool (bit v (n - i - 1))" if "i < n" for i
    using assms(1) that by (simp add: has_bits_def bits_of_def)
  have "fold (\<lambda>i v. v OR push_bit (n - i - 1) (ucast (b (p + i)))) [0..<n] (0 :: u32) = of_nat v"
  proof (rule bit_eqI)
    fix k assume "possible_bit TYPE(u32) k"
    then have k32: "k < 32" by simp
    have "bit v k \<Longrightarrow> k < n"
    proof -
      assume "bit v k"
      moreover have "take_bit n v = v" using assms(3) by (simp add: take_bit_nat_eq_self_iff)
      ultimately show "k < n" by (metis bit_take_bit_iff)
    qed
    then have "(\<exists>i<n. k = n - i - 1 \<and> bit v (n - i - 1)) \<longleftrightarrow> bit v k"
      by (auto intro: exI [of _ "n - 1 - k"])
    then show "bit (fold (\<lambda>i v. v OR push_bit (n - i - 1) (ucast (b (p + i)))) [0..<n] (0 :: u32)) k =
        bit (of_nat v :: u32) k"
      using bits_fold [of n n b p "\<lambda>i. bit v (n - i - 1)" k] assms(2) b k32 by (auto simp: bit_simps)
  qed
  then show ?thesis using assms(4) by (simp add: liblte_bits_2_value_def)
qed

subsection \<open>Writing bytes\<close>

lemma convert_int_fold:
  "fold (\<lambda>i b. b(p + i := f i)) [0..<n] b = (\<lambda>j. if p \<le> j \<and> j < p + n then f (j - p) else b j)"
  by (induction n arbitrary: b) (auto simp: fun_eq_iff less_Suc_eq)

lemma ucast_bit_at: "ucast (drop_bit m (ucast (v :: u8) :: u32) AND 1) = (of_bool (bit v m) :: u8)"
  by (rule bit_eqI) (auto simp: bit_simps dest: bit_imp_le_length)

lemma convert_bytes_bits:
  assumes "\<And>j. j < k \<Longrightarrow> rd (i + j) = Some (bs ! j)" "length bs = k"
    "p + 8 * k \<le> LIBLTE_MAX_MSG_SIZE_BITS"
  shows "\<exists>b'. convert_bytes k i b p rd = Some (b', p + 8 * k) \<and> has_bits b' p (bits_of_bytes bs) \<and>
    (\<forall>j. j < p \<or> p + 8 * k \<le> j \<longrightarrow> b' j = b j)"
  using assms
proof (induction k arbitrary: i bs b p)
  case 0
  then show ?case by simp
next
  case (Suc k)
  then obtain v vs where bs: "bs = v # vs" "length vs = k" by (cases bs) auto
  have rv: "rd i = Some v" using Suc.prems(1) [of 0] bs by simp
  let ?b = "\<lambda>j. if p \<le> j \<and> j < p + 8 then ucast (drop_bit (8 - (j - p) - 1) (ucast v :: u32) AND 1) else b j"
  have c: "convert_int_to_bits_vector b p (ucast v) 8 = Some (?b, p + 8)"
    using Suc.prems(3) by (auto simp: convert_int_to_bits_vector_def convert_int_fold fun_eq_iff)
  have "\<exists>b'. convert_bytes k (i + 1) ?b (p + 8) rd = Some (b', p + 8 + 8 * k) \<and>
    has_bits b' (p + 8) (bits_of_bytes vs) \<and> (\<forall>j. j < p + 8 \<or> p + 8 + 8 * k \<le> j \<longrightarrow> b' j = ?b j)"
  proof (rule Suc.IH)
    show "rd (i + 1 + j) = Some (vs ! j)" if "j < k" for j
      using Suc.prems(1) [of "Suc j"] bs that by simp
  qed (use Suc.prems bs in simp_all)
  then obtain b' where b': "convert_bytes k (i + 1) ?b (p + 8) rd = Some (b', p + 8 + 8 * k)"
    "has_bits b' (p + 8) (bits_of_bytes vs)" "\<And>j. j < p + 8 \<or> p + 8 + 8 * k \<le> j \<Longrightarrow> b' j = ?b j" by blast
  have "has_bits ?b p (bits_of 8 (unat v))"
    by (auto simp: has_bits_def bits_of_def ucast_bit_at bit_unsigned_iff)
  then have "has_bits b' p (bits_of 8 (unat v))" using b'(3) by (subst has_bits_cong) auto
  with b' c rv bs show ?case by (auto simp: has_bits_append)
qed

text \<open>
  Writing the bytes of a message and reading back: the whole conversion leaves the bit string
  of the bytes in the array and nothing else changes.
\<close>

lemma convert_bytes_to_bits_vector_bits:
  assumes "\<And>j. j < k \<Longrightarrow> rd j = Some (bs ! j)" "length bs = k" "8 * k \<le> LIBLTE_MAX_MSG_SIZE_BITS"
  shows "\<exists>b'. convert_bytes_to_bits_vector b 0 rd (8 * k) = Some b' \<and> has_bits b' 0 (bits_of_bytes bs) \<and>
    (\<forall>j. 8 * k \<le> j \<longrightarrow> b' j = b j)"
  using convert_bytes_bits [of k rd 0 bs 0 b] assms
  by (auto simp: convert_bytes_to_bits_vector_def)

lemma convert_bytes_frame:
  "convert_bytes k i b p rd = Some (b', p') \<Longrightarrow>
   p' = p + 8 * k \<and> (\<forall>j. j < p \<or> p + 8 * k \<le> j \<longrightarrow> b' j = b j)"
proof (induction k arbitrary: i b p)
  case 0
  then show ?case by simp
next
  case (Suc k)
  obtain v where rv: "rd i = Some v" using Suc.prems by (cases "rd i") auto
  obtain b1 p1 where c1: "convert_int_to_bits_vector b p (ucast v) 8 = Some (b1, p1)"
    using Suc.prems rv by (cases "convert_int_to_bits_vector b p (ucast v) 8") auto
  have 0: "convert_int_to_bits_vector b p (ucast v) 8 = Some (b1, p1)"
    "convert_bytes k (i + 1) b1 p1 rd = Some (b', p')"
    using Suc.prems rv c1 by simp_all
  then have "p1 = p + 8" by (auto simp: convert_int_to_bits_vector_def bind_Some_iff)
  with 0 have 1: "convert_int_to_bits_vector b p (ucast v) 8 = Some (b1, p + 8)"
    "convert_bytes k (i + 1) b1 (p + 8) rd = Some (b', p')" by simp_all
  have "b1 j = b j" if "j < p \<or> p + 8 \<le> j" for j
    using 1(1) that by (auto simp: convert_int_to_bits_vector_def convert_int_fold bind_Some_iff)
  with Suc.IH [OF 1(2)] show ?case by auto
qed

lemma convert_bytes_to_bits_vector_frame:
  "convert_bytes_to_bits_vector b 0 rd (8 * k) = Some b' \<Longrightarrow> 8 * k \<le> j \<Longrightarrow> b' j = b j"
  by (auto simp: convert_bytes_to_bits_vector_def bind_Some_iff dest!: convert_bytes_frame)

end
