(* ===== verification/Asn1_Rrc.thy ===== *)
theory Asn1_Rrc
  imports Asn1_Bits
begin

text \<open>
  The uplink RRC messages of \<open>ulp/src/asn1Lib.c\<close> and their entry points in
  \<open>ulp/src/asn1.c\<close>: RRC connection request, RRC connection setup complete and UL
  information transfer. The global \<open>gMsgBitBuffer\<close> is threaded through as the array
  \<open>bitbuf\<close>; its other two fields are set before every use. \<open>nBits\<close>, a signed
  counter of remaining bits, is an integer (its values stay within 32 bits).
\<close>

section \<open>Message structures\<close>

record ul_info_transfer =
  dedicated_info :: simple_msg
  dedicated_info_type :: u32

record plmn_identity =
  pl_mcc :: u16
  pl_mnc :: u16

record registered_mme =
  rm_plmn_id :: plmn_identity
  rm_mmegi :: u16
  rm_mmec :: u8
  rm_plmn_id_present :: u8

record rrc_setup_complete =
  sc_registered_mme :: registered_mme
  dedicated_info_nas :: simple_msg
  sc_rrc_transaction_id :: u8
  sc_selected_plmn_id :: u8
  sc_registered_mme_present :: u8

text \<open>
  The union \<open>LIBLTE_RRC_CON_REQ_UE_ID_UNION\<close> with the member that was written last.
\<close>

datatype con_req_ue_id = S_TMSI (stmsi_m_tmsi: u32) (stmsi_mmec: u8) | Random_Value u64

record rrc_con_request =
  cr_ue_id :: con_req_ue_id
  cr_ue_id_type :: u32
  cr_cause :: u32

section \<open>Information elements\<close>

text \<open>
  The copy loop of the NAS container: \<open>k\<close> octets to go, the next one goes to index
  \<open>i\<close>.
\<close>

fun read_octets :: "nat \<Rightarrow> nat \<Rightarrow> bitbuf \<Rightarrow> nat \<Rightarrow> (nat \<Rightarrow> u8) \<Rightarrow> ((nat \<Rightarrow> u8) \<times> nat) option" where
  "read_octets 0 i b p m = Some (m, p)"
| "read_octets (Suc k) i b p m = do {
     (v, p) \<leftarrow> liblte_bits_2_value b p 8;
     read_octets k (i + 1) b p (m(i := ucast v)) }"

definition liblte_rrc_unpack_dedicated_info_nas_ie ::
    "bitbuf \<Rightarrow> nat \<Rightarrow> simple_msg \<Rightarrow> int \<Rightarrow> (asn1_err \<times> nat \<times> simple_msg \<times> int) option" where
  "liblte_rrc_unpack_dedicated_info_nas_ie b p msg nBits = do {
     (f, p) \<leftarrow> liblte_bits_2_value b p 1;
     (n, p, nBits) \<leftarrow>
       (if f = 0 then do {
          (n, p) \<leftarrow> liblte_bits_2_value b p 7;
          Some (n, p, nBits - 7)
        } else do {
          (g, p) \<leftarrow> liblte_bits_2_value b p 1;
          (n, p, nBits) \<leftarrow>
            (if g = 0 then do {
               (n, p) \<leftarrow> liblte_bits_2_value b p 14;
               Some (n, p, nBits - 14)
             } else Some (0, p, nBits));
          Some (n, p, nBits - 1)
        });
     let nBits = nBits - 1;
     if nBits < 0 \<or> n = 0 \<or> unat n > LIBLTE_MAX_MSG_SIZE_BYTES \<or> push_bit 3 n > word_of_int (nBits + 7)
     then Some (LIBLTE_ERROR_INVALID_INPUTS, p, msg\<lparr>N_bytes := 0\<rparr>, -1)
     else do {
       (m, p) \<leftarrow> read_octets (unat n) 0 b p (sm_msg msg);
       Some (LIBLTE_SUCCESS, p, msg\<lparr>N_bytes := n, sm_msg := m\<rparr>, nBits)
     } }"

definition liblte_rrc_unpack_rrc_transaction_identifier_ie :: "bitbuf \<Rightarrow> nat \<Rightarrow> (u8 \<times> nat) option" where
  "liblte_rrc_unpack_rrc_transaction_identifier_ie b p = do {
     (v, p) \<leftarrow> liblte_bits_2_value b p 2;
     Some (ucast v, p) }"

definition liblte_rrc_unpack_mmec_ie :: "bitbuf \<Rightarrow> nat \<Rightarrow> (u8 \<times> nat) option" where
  "liblte_rrc_unpack_mmec_ie b p = do {
     (v, p) \<leftarrow> liblte_bits_2_value b p 8;
     Some (ucast v, p) }"

definition liblte_rrc_unpack_plmn_identity_ie ::
    "bitbuf \<Rightarrow> nat \<Rightarrow> plmn_identity \<Rightarrow> int \<Rightarrow> (plmn_identity \<times> nat \<times> int) option" where
  "liblte_rrc_unpack_plmn_identity_ie b p pl nBits = do {
     (mcc_opt, p) \<leftarrow> liblte_bits_2_value b p 1;
     let nBits = nBits - 1;
     (mcc, p, nBits) \<leftarrow>
       (if (ucast mcc_opt :: u8) = 1 then do {
          (x, p) \<leftarrow> liblte_bits_2_value b p 4;
          (y, p) \<leftarrow> liblte_bits_2_value b p 4;
          (z, p) \<leftarrow> liblte_bits_2_value b p 4;
          Some (0xF000 OR ucast (push_bit 8 x) OR ucast (push_bit 4 y) OR ucast z, p, nBits - 12)
        } else Some (0xFFFF, p, nBits));
     (sz, p) \<leftarrow> liblte_bits_2_value b p 1;
     let mnc_size = (ucast (sz + 2) :: u8);
     let nBits = nBits - 1;
     (mnc, p, nBits) \<leftarrow>
       (if mnc_size = 2 then do {
          (x, p) \<leftarrow> liblte_bits_2_value b p 4;
          (y, p) \<leftarrow> liblte_bits_2_value b p 4;
          Some (0xFF00 OR ucast (push_bit 4 x) OR ucast y, p, nBits - 8)
        } else do {
          (x, p) \<leftarrow> liblte_bits_2_value b p 4;
          (y, p) \<leftarrow> liblte_bits_2_value b p 4;
          (z, p) \<leftarrow> liblte_bits_2_value b p 4;
          Some (0xF000 OR ucast (push_bit 8 x) OR ucast (push_bit 4 y) OR ucast z, p, nBits - 12)
        });
     Some (pl\<lparr>pl_mcc := mcc, pl_mnc := mnc\<rparr>, p, nBits) }"

definition liblte_rrc_unpack_s_tmsi_ie :: "bitbuf \<Rightarrow> nat \<Rightarrow> (con_req_ue_id \<times> nat) option" where
  "liblte_rrc_unpack_s_tmsi_ie b p = do {
     (mmec, p) \<leftarrow> liblte_rrc_unpack_mmec_ie b p;
     (t, p) \<leftarrow> liblte_bits_2_value b p 32;
     Some (S_TMSI t mmec, p) }"

section \<open>Messages\<close>

text \<open>
  The message starts at index \<open>p\<close> and has \<open>nb\<close> bits (\<open>N_bits\<close>
  read as a signed value).
\<close>

definition liblte_rrc_unpack_ul_information_transfer_msg ::
    "bitbuf \<Rightarrow> nat \<Rightarrow> u32 \<Rightarrow> ul_info_transfer \<Rightarrow> (asn1_err \<times> ul_info_transfer) option" where
  "liblte_rrc_unpack_ul_information_transfer_msg b p nb m = do {
     let nBits = sint nb;
     (ext, p) \<leftarrow> liblte_bits_2_value b p 1;
     let nBits = nBits - 1;
     (c1, p) \<leftarrow> liblte_bits_2_value b p 2;
     let nBits = nBits - 2;
     (opt, p) \<leftarrow> liblte_bits_2_value b p 1;
     let nBits = nBits - 1;
     (ty, p) \<leftarrow> liblte_bits_2_value b p 2;
     let m = m\<lparr>dedicated_info_type := ty\<rparr>;
     let nBits = nBits - 2;
     (m, nBits) \<leftarrow>
       (if ty = 0 then do {
          (e, p, info, nBits) \<leftarrow> liblte_rrc_unpack_dedicated_info_nas_ie b p (dedicated_info m) nBits;
          Some (m\<lparr>dedicated_info := info\<rparr>, nBits)
        } else Some (m, nBits));
     Some (if nBits \<ge> 0 then LIBLTE_SUCCESS else LIBLTE_ERROR_INVALID_INPUTS, m) }"

definition liblte_rrc_unpack_rrc_connection_setup_complete_msg ::
    "bitbuf \<Rightarrow> nat \<Rightarrow> u32 \<Rightarrow> rrc_setup_complete \<Rightarrow> (asn1_err \<times> rrc_setup_complete) option" where
  "liblte_rrc_unpack_rrc_connection_setup_complete_msg b p nb m = do {
     let nBits = sint nb;
     (tid, p) \<leftarrow> liblte_rrc_unpack_rrc_transaction_identifier_ie b p;
     let m = m\<lparr>sc_rrc_transaction_id := tid\<rparr>;
     let nBits = nBits - 2;
     (ext, p) \<leftarrow> liblte_bits_2_value b p 1;
     let nBits = nBits - 1;
     (c1, p) \<leftarrow> liblte_bits_2_value b p 2;
     let nBits = nBits - 2;
     (pres, p) \<leftarrow> liblte_bits_2_value b p 1;
     let m = m\<lparr>sc_registered_mme_present := ucast pres\<rparr>;
     (opt, p) \<leftarrow> liblte_bits_2_value b p 1;
     let nBits = nBits - 2;
     (plmn, p) \<leftarrow> liblte_bits_2_value b p 3;
     let m = m\<lparr>sc_selected_plmn_id := ucast (plmn + 1)\<rparr>;
     let nBits = nBits - 3;
     (m, p, nBits) \<leftarrow>
       (if sc_registered_mme_present m \<noteq> 0 then do {
          let r = sc_registered_mme m;
          (pp, p) \<leftarrow> liblte_bits_2_value b p 1;
          let r = r\<lparr>rm_plmn_id_present := ucast pp\<rparr>;
          let nBits = nBits - 1;
          (r, p, nBits) \<leftarrow>
            (if rm_plmn_id_present r \<noteq> 0 then do {
               (pl, p, nBits) \<leftarrow> liblte_rrc_unpack_plmn_identity_ie b p (rm_plmn_id r) nBits;
               Some (r\<lparr>rm_plmn_id := pl\<rparr>, p, nBits)
             } else Some (r, p, nBits));
          (gi, p) \<leftarrow> liblte_bits_2_value b p 16;
          let r = r\<lparr>rm_mmegi := ucast gi\<rparr>;
          let nBits = nBits - 16;
          (mc, p) \<leftarrow> liblte_rrc_unpack_mmec_ie b p;
          let r = r\<lparr>rm_mmec := mc\<rparr>;
          let nBits = nBits - 8;
          Some (m\<lparr>sc_registered_mme := r\<rparr>, p, nBits)
        } else Some (m, p, nBits));
     (e, p, info, nBits) \<leftarrow> liblte_rrc_unpack_dedicated_info_nas_ie b p (dedicated_info_nas m) nBits;
     Some (if nBits \<ge> 0 then LIBLTE_SUCCESS else LIBLTE_ERROR_INVALID_INPUTS,
           m\<lparr>dedicated_info_nas := info\<rparr>) }"

definition liblte_rrc_unpack_rrc_connection_request_msg ::
    "bitbuf \<Rightarrow> nat \<Rightarrow> rrc_con_request \<Rightarrow> (asn1_err \<times> rrc_con_request) option" where
  "liblte_rrc_unpack_rrc_connection_request_msg b p m = do {
     (ext, p) \<leftarrow> liblte_bits_2_value b p 1;
     (ty, p) \<leftarrow> liblte_bits_2_value b p 1;
     let m = m\<lparr>cr_ue_id_type := ty\<rparr>;
     (m, p) \<leftarrow>
       (if ty = 0 then do {
          (t, p) \<leftarrow> liblte_rrc_unpack_s_tmsi_ie b p;
          Some (m\<lparr>cr_ue_id := t\<rparr>, p)
        } else do {
          (hi, p) \<leftarrow> liblte_bits_2_value b p 8;
          (lo, p) \<leftarrow> liblte_bits_2_value b p 32;
          Some (m\<lparr>cr_ue_id := Random_Value (push_bit 32 (ucast hi) OR ucast lo)\<rparr>, p)
        });
     (c, p) \<leftarrow> liblte_bits_2_value b p 3;
     Some (LIBLTE_SUCCESS, m\<lparr>cr_cause := c\<rparr>) }"

section \<open>Entry points\<close>

text \<open>\<open>memset (buff, 0, n)\<close>.\<close>

definition clear_bits :: "bitbuf \<Rightarrow> nat \<Rightarrow> bitbuf" where
  "clear_bits b n = (\<lambda>i. if i < n then 0 else b i)"

definition Asn1Init :: "bitbuf \<Rightarrow> bitbuf" where
  "Asn1Init b = clear_bits b LIBLTE_MAX_MSG_SIZE_BITS"

text \<open>
  The three parsers differ in the message they unpack and in the number of bits of the
  message type they skip; the answer, the message and the array after the call.
\<close>

definition Asn1ParseUlInfoTransMsg ::
    "bitbuf \<Rightarrow> reader \<Rightarrow> u32 \<Rightarrow> ul_info_transfer \<Rightarrow> (asn1_err \<times> ul_info_transfer \<times> bitbuf) option" where
  "Asn1ParseUlInfoTransMsg b rd len m =
     (let bitLen = push_bit 3 len in
      if unat bitLen > LIBLTE_MAX_MSG_SIZE_BITS then Some (LIBLTE_ERROR_INVALID_INPUTS, m, b)
      else do {
        b1 \<leftarrow> convert_bytes_to_bits_vector b 0 rd (unat bitLen);
        (e, m) \<leftarrow> liblte_rrc_unpack_ul_information_transfer_msg b1 5 (bitLen - 5) m;
        Some (e, m, clear_bits b1 (unat bitLen)) })"

definition Asn1ParseRrcSetupComplMsg ::
    "bitbuf \<Rightarrow> reader \<Rightarrow> u32 \<Rightarrow> rrc_setup_complete \<Rightarrow> (asn1_err \<times> rrc_setup_complete \<times> bitbuf) option" where
  "Asn1ParseRrcSetupComplMsg b rd len m =
     (let bitLen = push_bit 3 len in
      if unat bitLen > LIBLTE_MAX_MSG_SIZE_BITS then Some (LIBLTE_ERROR_INVALID_INPUTS, m, b)
      else do {
        b1 \<leftarrow> convert_bytes_to_bits_vector b 0 rd (unat bitLen);
        (e, m) \<leftarrow> liblte_rrc_unpack_rrc_connection_setup_complete_msg b1 5 (bitLen - 5) m;
        Some (e, m, clear_bits b1 (unat bitLen)) })"

definition Asn1ParseRrcConnReqMsg ::
    "bitbuf \<Rightarrow> reader \<Rightarrow> u32 \<Rightarrow> rrc_con_request \<Rightarrow> (asn1_err \<times> rrc_con_request \<times> bitbuf) option" where
  "Asn1ParseRrcConnReqMsg b rd len m =
     (let bitLen = push_bit 3 len in
      if unat bitLen > LIBLTE_MAX_MSG_SIZE_BITS then Some (LIBLTE_ERROR_INVALID_INPUTS, m, b)
      else do {
        b1 \<leftarrow> convert_bytes_to_bits_vector b 0 rd (unat bitLen);
        (e, m) \<leftarrow> liblte_rrc_unpack_rrc_connection_request_msg b1 2 m;
        Some (e, m, clear_bits b1 (unat bitLen)) })"

text \<open>The three header parsers; the null checks are the zero-length and valid-pointer cases.\<close>

definition Asn1ParseDcchMsgHeader :: "u8 \<Rightarrow> u32 \<Rightarrow> (u8 \<times> u8) option" where
  "Asn1ParseDcchMsgHeader b0 len = (if len \<noteq> 0 then Some (drop_bit 7 b0, drop_bit 3 b0 AND 0x0f) else None)"

definition Asn1ParseUlCcchMsgHeader :: "u8 \<Rightarrow> u32 \<Rightarrow> (u8 \<times> u8) option" where
  "Asn1ParseUlCcchMsgHeader b0 len = (if len \<noteq> 0 then Some (drop_bit 7 b0, drop_bit 3 b0 AND 0x0f) else None)"

text \<open>
  \<open>Asn1ParseDlCcchMsgHeader\<close> writes the message type into the message instead of the
  result.
\<close>

definition Asn1ParseDlCcchMsgHeader :: "u8 \<Rightarrow> u32 \<Rightarrow> (u8 \<times> u8) option" where
  "Asn1ParseDlCcchMsgHeader b0 len = (if len \<noteq> 0 then Some (drop_bit 7 b0, drop_bit 5 b0 AND 0x03) else None)"

section \<open>Reading encoded messages\<close>

lemma read_bits:
  assumes "has_bits b p (bits_of n v @ rest)" "n \<le> 32" "v < 2 ^ n" "p + n \<le> LIBLTE_MAX_MSG_SIZE_BITS"
  shows "liblte_bits_2_value b p n = Some (of_nat v, p + n)" "has_bits b (p + n) rest"
  using assms liblte_bits_2_value_bits_of [of b p n v] by (simp_all add: has_bits_append)

lemma read_octets_bits:
  "has_bits b p (bits_of_bytes xs) \<Longrightarrow> p + 8 * length xs \<le> LIBLTE_MAX_MSG_SIZE_BITS \<Longrightarrow>
   read_octets (length xs) i b p m =
     Some ((\<lambda>j. if i \<le> j \<and> j < i + length xs then xs ! (j - i) else m j), p + 8 * length xs)"
proof (induction xs arbitrary: i p m)
  case Nil
  then show ?case by (auto simp: fun_eq_iff)
next
  case (Cons x xs)
  have x: "unat x < 2 ^ 8" using unsigned_less [of x, where 'a = nat] by simp
  have r: "liblte_bits_2_value b p 8 = Some (of_nat (unat x), p + 8)" "has_bits b (p + 8) (bits_of_bytes xs)"
    using read_bits [of b p 8 "unat x" "bits_of_bytes xs"] Cons.prems x by simp_all
  have "ucast (of_nat (unat x) :: u32) = x"
    by (rule bit_eqI) (auto simp: bit_simps)
  moreover have "(\<lambda>j. if i + 1 \<le> j \<and> j < i + 1 + length xs then xs ! (j - (i + 1)) else (m(i := x)) j) =
      (\<lambda>j. if i \<le> j \<and> j < i + length (x # xs) then (x # xs) ! (j - i) else m j)"
    by (auto simp: fun_eq_iff nth_Cons')
  ultimately show ?case using r(1) Cons.IH [OF r(2), of "i + 1" "m(i := x)"] Cons.prems(2)
    by (simp add: add.assoc del: fun_upd_apply)
qed

text \<open>The length determinant of an octet string: one octet below 128, two octets up to 16383.\<close>

definition length_bits :: "nat \<Rightarrow> bool list" where
  "length_bits n = (if n < 128 then bits_of 1 0 @ bits_of 7 n else bits_of 1 1 @ bits_of 1 0 @ bits_of 14 n)"

definition nas_info :: "simple_msg \<Rightarrow> u8 list \<Rightarrow> simple_msg" where
  "nas_info m xs = m\<lparr>N_bytes := of_nat (length xs), sm_msg := (\<lambda>j. if j < length xs then xs ! j else sm_msg m j)\<rparr>"

lemma dedicated_info_bits:
  assumes h: "has_bits b p (length_bits (length xs) @ bits_of_bytes xs @ pad)"
    and xs: "xs \<noteq> []" "length xs \<le> LIBLTE_MAX_MSG_SIZE_BYTES"
    and n: "nBits = int (length (length_bits (length xs) @ bits_of_bytes xs @ pad))"
    and fit: "p + length (length_bits (length xs) @ bits_of_bytes xs) \<le> LIBLTE_MAX_MSG_SIZE_BITS"
    and small: "nBits < 2 ^ 31"
  shows "\<exists>q n'. liblte_rrc_unpack_dedicated_info_nas_ie b p m nBits = Some (LIBLTE_SUCCESS, q, nas_info m xs, n') \<and> n' \<ge> 0"
proof -
  let ?n = "length xs"
  have n0: "(of_nat ?n :: u32) \<noteq> 0" "unat (of_nat ?n :: u32) = ?n"
    using xs of_nat_word_eq_0 [of ?n, where 'a = 32] by (auto simp: unat_of_nat_small)
  have chk: "\<not> push_bit 3 (of_nat ?n :: u32) > word_of_int (k + 7)" if k: "8 * int ?n \<le> k" "k < 2 ^ 31" for k
  proof -
    have "unat (push_bit 3 (of_nat ?n) :: u32) = 8 * ?n"
      using xs by (simp add: push_bit_eq_mult unat_word_ariths unat_of_nat_small)
    moreover have "unat (word_of_int (k + 7) :: u32) = nat (k + 7)"
    proof -
      have "k + 7 = int (nat (k + 7))" using k by simp
      then have "(word_of_int (k + 7) :: u32) = of_nat (nat (k + 7))" by (metis of_int_of_nat_eq)
      moreover have "nat (k + 7) < 2 ^ LENGTH(32)" using k by simp
      ultimately show ?thesis using unat_of_nat_small by metis
    qed
    ultimately show ?thesis using k by (simp add: word_less_nat_alt)
  qed
  have msg: "m\<lparr>N_bytes := of_nat ?n, sm_msg := (\<lambda>j. if 0 \<le> j \<and> j < 0 + ?n then xs ! (j - 0) else sm_msg m j)\<rparr> = nas_info m xs"
  proof -
    have "(\<lambda>j. if 0 \<le> j \<and> j < 0 + ?n then xs ! (j - 0) else sm_msg m j) =
        (\<lambda>j. if j < ?n then xs ! j else sm_msg m j)" by (rule ext) simp
    then show ?thesis by (simp only: nas_info_def)
  qed
  show ?thesis
  proof (cases "?n < 128")
    case True
    have h0: "has_bits b p (bits_of 1 0 @ bits_of 7 ?n @ bits_of_bytes xs @ pad)"
      using h True by (simp add: length_bits_def)
    have fit0: "p + 8 + 8 * ?n \<le> LIBLTE_MAX_MSG_SIZE_BITS" using fit True by (simp add: length_bits_def)
    have r1: "liblte_bits_2_value b p 1 = Some (0, p + 1)" "has_bits b (p + 1) (bits_of 7 ?n @ bits_of_bytes xs @ pad)"
      using read_bits [OF h0] fit0 by simp_all
    have r2: "liblte_bits_2_value b (p + 1) 7 = Some (of_nat ?n, p + 8)" "has_bits b (p + 8) (bits_of_bytes xs @ pad)"
      using read_bits [OF r1(2)] fit0 True by (simp_all add: add.commute)
    have "read_octets ?n 0 b (p + 8) (sm_msg m) = Some ((\<lambda>j. if 0 \<le> j \<and> j < 0 + ?n then xs ! (j - 0) else sm_msg m j), p + 8 + 8 * ?n)"
      using r2(2) fit0 by (intro read_octets_bits) (simp_all add: has_bits_append)
    moreover obtain k where k: "nBits = k + 8" "8 * int ?n \<le> k"
      using n True by (auto simp: length_bits_def intro: that [of "nBits - 8"])
    ultimately show ?thesis
      unfolding liblte_rrc_unpack_dedicated_info_nas_ie_def
      using r1 r2 n0 xs chk [of k] small msg k(2) unfolding k(1) by (simp add: not_less add.commute)
  next
    case False
    have n14: "?n < 2 ^ 14" using xs by simp
    have h0: "has_bits b p (bits_of 1 1 @ bits_of 1 0 @ bits_of 14 ?n @ bits_of_bytes xs @ pad)"
      using h False by (simp add: length_bits_def)
    have fit0: "p + 16 + 8 * ?n \<le> LIBLTE_MAX_MSG_SIZE_BITS" using fit False by (simp add: length_bits_def)
    have r1: "liblte_bits_2_value b p 1 = Some (1, p + 1)"
      "has_bits b (p + 1) (bits_of 1 0 @ bits_of 14 ?n @ bits_of_bytes xs @ pad)"
      using read_bits [OF h0] fit0 by simp_all
    have r2: "liblte_bits_2_value b (p + 1) 1 = Some (0, p + 2)"
      "has_bits b (p + 2) (bits_of 14 ?n @ bits_of_bytes xs @ pad)"
      using read_bits [OF r1(2)] fit0 by (simp_all add: add.commute)
    have r3: "liblte_bits_2_value b (p + 2) 14 = Some (of_nat ?n, p + 16)" "has_bits b (p + 16) (bits_of_bytes xs @ pad)"
      using read_bits [OF r2(2)] fit0 n14 by (simp_all add: add.commute)
    have "read_octets ?n 0 b (p + 16) (sm_msg m) = Some ((\<lambda>j. if 0 \<le> j \<and> j < 0 + ?n then xs ! (j - 0) else sm_msg m j), p + 16 + 8 * ?n)"
      using r3(2) fit0 by (intro read_octets_bits) (simp_all add: has_bits_append)
    moreover obtain k where k: "nBits = k + 16" "8 * int ?n \<le> k"
      using n False by (auto simp: length_bits_def intro: that [of "nBits - 16"])
    ultimately show ?thesis
      unfolding liblte_rrc_unpack_dedicated_info_nas_ie_def
      using r1 r2 r3 n0 xs chk [of k] small msg k(2) unfolding k(1) by (simp add: not_less add.commute)
  qed
qed

lemma bit_length:
  "length bs \<le> LIBLTE_MAX_MSG_SIZE_BYTES \<Longrightarrow> unat (push_bit 3 (of_nat (length bs)) :: u32) = 8 * length bs"
  by (simp add: push_bit_eq_mult unat_word_ariths unat_of_nat_small)

text \<open>The message \<open>bs\<close> is what the reader delivers first.\<close>

definition reads :: "reader \<Rightarrow> u8 list \<Rightarrow> bool" where
  "reads rd bs \<longleftrightarrow> (\<forall>j<length bs. rd j = Some (bs ! j))"

lemma reads_reader_of [simp]: "reads (reader_of bs) bs"
  by (simp add: reads_def reader_of_def)

lemma converted:
  assumes "length bs \<le> LIBLTE_MAX_MSG_SIZE_BYTES" "reads rd bs"
  obtains b1 where "convert_bytes_to_bits_vector b 0 rd (8 * length bs) = Some b1"
    "has_bits b1 0 (bits_of_bytes bs)" "\<And>j. 8 * length bs \<le> j \<Longrightarrow> b1 j = b j"
  using convert_bytes_to_bits_vector_bits [of "length bs" rd bs b] assms
  by (auto simp: reads_def)

lemma remaining_bits:
  assumes "length bs \<le> LIBLTE_MAX_MSG_SIZE_BYTES" "bs \<noteq> []"
  shows "sint (push_bit 3 (of_nat (length bs)) - 5 :: u32) = 8 * int (length bs) - 5"
proof -
  have "(push_bit 3 (of_nat (length bs)) - 5 :: u32) = of_nat (8 * length bs - 5)"
  proof -
    have "5 \<le> 8 * length bs" using assms by (cases bs) auto
    then show ?thesis by (simp add: push_bit_eq_mult of_nat_diff mult.commute)
  qed
  moreover have "8 * length bs - 5 < 2 ^ 31" using assms by simp
  then have "sint (of_nat (8 * length bs - 5) :: u32) = int (8 * length bs - 5)"
    by (simp add: signed_of_nat signed_take_bit_int_eq_self_iff)
  ultimately show ?thesis using assms by (cases bs) auto
qed

section \<open>Properties\<close>

text \<open>The UL information transfer that carries the NAS message \<open>xs\<close>.\<close>

definition ul_info_bits :: "nat \<Rightarrow> nat \<Rightarrow> u8 list \<Rightarrow> bool list" where
  "ul_info_bits h c1 xs = bits_of 5 h @ bits_of 1 0 @ bits_of 2 c1 @ bits_of 1 0 @ bits_of 2 0 @
     length_bits (length xs) @ bits_of_bytes xs"

lemma ul_info_decoded:
  assumes enc: "bits_of_bytes bs = ul_info_bits h c1 xs @ pad" and len: "length bs \<le> LIBLTE_MAX_MSG_SIZE_BYTES"
    and h: "h < 32" "c1 < 4" and xs: "xs \<noteq> []" and rd: "reads rd bs"
  shows "\<exists>b'. Asn1ParseUlInfoTransMsg b rd (of_nat (length bs)) m = Some (LIBLTE_SUCCESS,
    m\<lparr>dedicated_info_type := 0, dedicated_info := nas_info (dedicated_info m) xs\<rparr>, b')"
proof -
  have l: "8 * length bs = length (ul_info_bits h c1 xs @ pad)" using enc by (metis length_bits_of_bytes)
  obtain b1 where b1: "convert_bytes_to_bits_vector b 0 rd (8 * length bs) = Some b1"
    "has_bits b1 0 (bits_of_bytes bs)" using converted [OF len rd] by metis
  have h0: "has_bits b1 0 (bits_of 5 h @ bits_of 1 0 @ bits_of 2 c1 @ bits_of 1 0 @ bits_of 2 0 @
     length_bits (length xs) @ bits_of_bytes xs @ pad)"
    using b1(2) unfolding enc ul_info_bits_def by simp
  have r0: "has_bits b1 5 (bits_of 1 0 @ bits_of 2 c1 @ bits_of 1 0 @ bits_of 2 0 @
     length_bits (length xs) @ bits_of_bytes xs @ pad)"
    using h0 by (simp add: has_bits_append)
  have l0: "length pad + 27 \<le> 8 * length bs" "8 * length bs \<le> LIBLTE_MAX_MSG_SIZE_BITS"
    using l len by (auto simp: ul_info_bits_def length_bits_def Suc_le_eq xs)
  have r1: "liblte_bits_2_value b1 5 1 = Some (0, 6)"
    "has_bits b1 6 (bits_of 2 c1 @ bits_of 1 0 @ bits_of 2 0 @ length_bits (length xs) @ bits_of_bytes xs @ pad)"
    using read_bits [OF r0] by simp_all
  have r2: "liblte_bits_2_value b1 6 2 = Some (of_nat c1, 8)"
    "has_bits b1 8 (bits_of 1 0 @ bits_of 2 0 @ length_bits (length xs) @ bits_of_bytes xs @ pad)"
    using read_bits [OF r1(2)] h by simp_all
  have r3: "liblte_bits_2_value b1 8 1 = Some (0, 9)"
    "has_bits b1 9 (bits_of 2 0 @ length_bits (length xs) @ bits_of_bytes xs @ pad)"
    using read_bits [OF r2(2)] by simp_all
  have r4: "liblte_bits_2_value b1 9 2 = Some (0, 11)"
    "has_bits b1 11 (length_bits (length xs) @ bits_of_bytes xs @ pad)"
    using read_bits [OF r3(2)] by simp_all
  have nx: "length xs \<le> LIBLTE_MAX_MSG_SIZE_BYTES" using l len by (simp add: ul_info_bits_def)
  have bl: "8 * int (length bs) - 5 - 1 - 2 - 1 - 2 = int (length (length_bits (length xs) @ bits_of_bytes xs @ pad))"
    using l by (simp add: ul_info_bits_def)
  have "\<exists>q n'. liblte_rrc_unpack_dedicated_info_nas_ie b1 11 (dedicated_info m)
      (8 * int (length bs) - 5 - 1 - 2 - 1 - 2) = Some (LIBLTE_SUCCESS, q, nas_info (dedicated_info m) xs, n') \<and> n' \<ge> 0"
    using l len by (intro dedicated_info_bits [OF r4(2) xs nx bl]) (simp_all add: ul_info_bits_def)
  then obtain q n' where d: "liblte_rrc_unpack_dedicated_info_nas_ie b1 11 (dedicated_info m)
      (8 * int (length bs) - 5 - 1 - 2 - 1 - 2) = Some (LIBLTE_SUCCESS, q, nas_info (dedicated_info m) xs, n')" "n' \<ge> 0"
    by blast
  have ne: "bs \<noteq> []" using l by (auto simp: ul_info_bits_def)
  have "liblte_rrc_unpack_ul_information_transfer_msg b1 5 (push_bit 3 (of_nat (length bs)) - 5) m =
    Some (LIBLTE_SUCCESS, m\<lparr>dedicated_info_type := 0, dedicated_info := nas_info (dedicated_info m) xs\<rparr>)"
    unfolding liblte_rrc_unpack_ul_information_transfer_msg_def remaining_bits [OF len ne]
    using r1(1) r2(1) r3(1) r4(1) d by simp
  then show ?thesis
    unfolding Asn1ParseUlInfoTransMsg_def Let_def bit_length [OF len]
    using b1(1) len by simp
qed

text \<open>
  C32. A well formed UL information transfer is decoded: whatever NAS message \<open>xs\<close> it carries
  (1 to 12756 octets, not octet aligned, with either form of the length), the parser succeeds
  and delivers exactly its octets.
\<close>

theorem ul_info_transfer_decoded:
  assumes enc: "bits_of_bytes bs = ul_info_bits h c1 xs @ pad" and len: "length bs \<le> LIBLTE_MAX_MSG_SIZE_BYTES"
    and h: "h < 32" "c1 < 4" and xs: "xs \<noteq> []"
  shows "\<exists>b'. Asn1ParseUlInfoTransMsg b (reader_of bs) (of_nat (length bs)) m = Some (LIBLTE_SUCCESS,
    m\<lparr>dedicated_info_type := 0, dedicated_info := nas_info (dedicated_info m) xs\<rparr>, b')"
  by (rule ul_info_decoded [OF enc len h xs reads_reader_of])

definition demo_info :: ul_info_transfer where
  "demo_info = \<lparr>dedicated_info = \<lparr>N_bytes = 9, sm_msg = (\<lambda>_. 0xAA)\<rparr>, dedicated_info_type = 3\<rparr>"

lemma demo_info_bits:
  "bits_of_bytes [0x48, 0x00, 0x40, 0xE8, 0x20] = ul_info_bits 9 0 [0x07, 0x41] @ [False, False, False, False, False]"
  by (simp add: ul_info_bits_def length_bits_def bits_of_def upt_rec bit_iff_odd)

theorem ul_info_transfer_decoded_witness:
  "\<exists>b'. Asn1ParseUlInfoTransMsg (\<lambda>_. 0) (reader_of [0x48, 0x00, 0x40, 0xE8, 0x20]) 5 demo_info =
    Some (LIBLTE_SUCCESS, \<lparr>dedicated_info = nas_info (dedicated_info demo_info) [0x07, 0x41],
      dedicated_info_type = 0\<rparr>, b')"
  using ul_info_transfer_decoded [OF demo_info_bits, of "\<lambda>_. 0" demo_info]
  by (simp add: demo_info_def)

text \<open>The RRC connection request with the S-TMSI of a UE.\<close>

definition con_req_bits :: "nat \<Rightarrow> nat \<Rightarrow> nat \<Rightarrow> nat \<Rightarrow> nat \<Rightarrow> bool list" where
  "con_req_bits h ext mmec tmsi cause = bits_of 2 h @ bits_of 1 ext @ bits_of 1 0 @ bits_of 8 mmec @
     bits_of 32 tmsi @ bits_of 3 cause"

lemma con_req_decoded:
  assumes enc: "bits_of_bytes bs = con_req_bits h ext mmec tmsi cause @ pad"
    and len: "length bs \<le> LIBLTE_MAX_MSG_SIZE_BYTES"
    and v: "h < 4" "ext < 2" "mmec < 256" "tmsi < 2 ^ 32" "cause < 8" and rd: "reads rd bs"
  shows "\<exists>b'. Asn1ParseRrcConnReqMsg b rd (of_nat (length bs)) m = Some (LIBLTE_SUCCESS,
    m\<lparr>cr_ue_id := S_TMSI (of_nat tmsi) (of_nat mmec), cr_ue_id_type := 0, cr_cause := of_nat cause\<rparr>, b')"
proof -
  obtain b1 where b1: "convert_bytes_to_bits_vector b 0 rd (8 * length bs) = Some b1"
    "has_bits b1 0 (bits_of_bytes bs)" using converted [OF len rd] by metis
  have r0: "has_bits b1 2 (bits_of 1 ext @ bits_of 1 0 @ bits_of 8 mmec @ bits_of 32 tmsi @ bits_of 3 cause @ pad)"
  proof -
    have "has_bits b1 0 (bits_of 2 h @ bits_of 1 ext @ bits_of 1 0 @ bits_of 8 mmec @ bits_of 32 tmsi @ bits_of 3 cause @ pad)"
      using b1(2) unfolding enc con_req_bits_def by simp
    from this [THEN has_bits_append [THEN iffD1, THEN conjunct2]] show ?thesis
      by (simp only: length_bits_of add_0)
  qed
  have r1: "liblte_bits_2_value b1 2 1 = Some (of_nat ext, 3)"
    "has_bits b1 3 (bits_of 1 0 @ bits_of 8 mmec @ bits_of 32 tmsi @ bits_of 3 cause @ pad)"
    using read_bits [OF r0] v by simp_all
  have r2: "liblte_bits_2_value b1 3 1 = Some (0, 4)"
    "has_bits b1 4 (bits_of 8 mmec @ bits_of 32 tmsi @ bits_of 3 cause @ pad)"
    using read_bits [OF r1(2)] v by simp_all
  have r3: "liblte_bits_2_value b1 4 8 = Some (of_nat mmec, 12)"
    "has_bits b1 12 (bits_of 32 tmsi @ bits_of 3 cause @ pad)"
    using read_bits [OF r2(2)] v by simp_all
  have r4: "liblte_bits_2_value b1 12 32 = Some (of_nat tmsi, 44)" "has_bits b1 44 (bits_of 3 cause @ pad)"
    using read_bits [OF r3(2)] v by simp_all
  have r5: "liblte_bits_2_value b1 44 3 = Some (of_nat cause, 47)"
    using read_bits [OF r4(2)] v by simp_all
  have u: "ucast (of_nat mmec :: u32) = (of_nat mmec :: u8)"
  proof -
    have "take_bit 32 mmec = mmec" using v by (simp add: take_bit_nat_eq_self_iff)
    then show ?thesis by (simp add: unsigned_of_nat)
  qed
  show ?thesis
    unfolding Asn1ParseRrcConnReqMsg_def Let_def bit_length [OF len]
      liblte_rrc_unpack_rrc_connection_request_msg_def liblte_rrc_unpack_s_tmsi_ie_def
      liblte_rrc_unpack_mmec_ie_def
    using b1(1) len r1(1) r2(1) r3(1) r4(1) r5 u by simp
qed

text \<open>
  A connection request that carries an S-TMSI is decoded to exactly that M-TMSI, MME code
  and cause.
\<close>

theorem con_request_decoded:
  assumes enc: "bits_of_bytes bs = con_req_bits h ext mmec tmsi cause @ pad"
    and len: "length bs \<le> LIBLTE_MAX_MSG_SIZE_BYTES"
    and v: "h < 4" "ext < 2" "mmec < 256" "tmsi < 2 ^ 32" "cause < 8"
  shows "\<exists>b'. Asn1ParseRrcConnReqMsg b (reader_of bs) (of_nat (length bs)) m = Some (LIBLTE_SUCCESS,
    m\<lparr>cr_ue_id := S_TMSI (of_nat tmsi) (of_nat mmec), cr_ue_id_type := 0, cr_cause := of_nat cause\<rparr>, b')"
  by (rule con_req_decoded [OF enc len v reads_reader_of])

section \<open>Staying within the bit array\<close>

definition bits_value :: "bitbuf \<Rightarrow> nat \<Rightarrow> nat \<Rightarrow> u32" where
  "bits_value b p n = fold (\<lambda>i v. v OR push_bit (n - i - 1) (ucast (b (p + i)))) [0..<n] 0"

lemma liblte_bits_total:
  "p + n \<le> LIBLTE_MAX_MSG_SIZE_BITS \<Longrightarrow> liblte_bits_2_value b p n = Some (bits_value b p n, p + n)"
  by (simp add: liblte_bits_2_value_def bits_value_def)

lemma read_octets_total:
  "p + 8 * k \<le> LIBLTE_MAX_MSG_SIZE_BITS \<Longrightarrow> \<exists>m'. read_octets k i b p m = Some (m', p + 8 * k)"
proof (induction k arbitrary: i p m)
  case (Suc k)
  then show ?case using Suc.IH [of "p + 8" "i + 1" "m(i := ucast (bits_value b p 8))"]
    by (simp add: liblte_bits_total add.assoc del: fun_upd_apply)
qed simp

lemma octets_fit:
  assumes "\<not> push_bit 3 n > (word_of_int (k + 7) :: u32)" "unat n \<le> LIBLTE_MAX_MSG_SIZE_BYTES" "0 \<le> k" "k < 2 ^ 31"
  shows "8 * int (unat n) \<le> k + 7"
proof -
  have "unat (push_bit 3 n) = 8 * unat n"
    using assms(2) by (simp add: push_bit_eq_mult unat_word_ariths)
  moreover have "unat (word_of_int (k + 7) :: u32) = nat (k + 7)"
  proof -
    have "(word_of_int (k + 7) :: u32) = of_nat (nat (k + 7))" using assms by simp
    moreover have "nat (k + 7) < 2 ^ LENGTH(32)" using assms by simp
    ultimately show ?thesis using unat_of_nat_small by metis
  qed
  ultimately have "8 * unat n \<le> nat (k + 7)" using assms(1) by (simp only: not_less word_le_nat_alt)
  then show ?thesis using assms(3) by linarith
qed

text \<open>The element ends at most seven bits behind the \<open>nBits\<close> bits that are left.\<close>

lemma dedicated_info_total:
  assumes p: "p + 16 \<le> LIBLTE_MAX_MSG_SIZE_BITS" and n: "int p + nBits + 7 \<le> 102048"
  shows "\<exists>r. liblte_rrc_unpack_dedicated_info_nas_ie b p msg nBits = Some r"
proof -
  have body: "(k < 0 \<or> n = 0 \<or> unat n > LIBLTE_MAX_MSG_SIZE_BYTES \<or> push_bit 3 n > (word_of_int (k + 7) :: u32)) \<or>
     (\<exists>m'. read_octets (unat n) 0 b q (sm_msg msg) = Some (m', q + 8 * unat n))"
    if q: "int q + k = int p + nBits" for n q k
  proof (rule disjCI)
    assume c: "\<nexists>m'. read_octets (unat n) 0 b q (sm_msg msg) = Some (m', q + 8 * unat n)"
    have k: "k < 2 ^ 31" using q n by simp
    show "k < 0 \<or> n = 0 \<or> unat n > LIBLTE_MAX_MSG_SIZE_BYTES \<or> push_bit 3 n > (word_of_int (k + 7) :: u32)"
    proof (rule ccontr)
      assume f: "\<not> ?thesis"
      then have "8 * int (unat n) \<le> k + 7" using k by (intro octets_fit) auto
      then have "q + 8 * unat n \<le> LIBLTE_MAX_MSG_SIZE_BITS" using q n by linarith
      with read_octets_total c show False by blast
    qed
  qed
  show ?thesis
  proof (cases "bits_value b p 1 = 0")
    case True
    then show ?thesis using p body [of "p + 8" "nBits - 8" "bits_value b (Suc p) 7"]
      by (auto simp: liblte_rrc_unpack_dedicated_info_nas_ie_def liblte_bits_total Let_def add.commute)
  next
    case False
    show ?thesis
    proof (cases "bits_value b (p + 1) 1 = 0")
      case True
      with False show ?thesis using p body [of "p + 16" "nBits - 16" "bits_value b (Suc (Suc p)) 14"]
        by (auto simp: liblte_rrc_unpack_dedicated_info_nas_ie_def liblte_bits_total Let_def add.commute)
    next
      case False
      with \<open>bits_value b p 1 \<noteq> 0\<close> show ?thesis using p
        by (simp add: liblte_rrc_unpack_dedicated_info_nas_ie_def liblte_bits_total Let_def)
    qed
  qed
qed

lemma plmn_total:
  assumes "p + 26 \<le> LIBLTE_MAX_MSG_SIZE_BITS"
  shows "\<exists>pl' q n'. liblte_rrc_unpack_plmn_identity_ie b p pl nBits = Some (pl', q, n') \<and>
    q \<le> p + 26 \<and> int q + n' = int p + nBits"
  using assms by (auto simp: liblte_rrc_unpack_plmn_identity_ie_def liblte_bits_total Let_def)

lemma ul_info_total:
  assumes "length bs < LIBLTE_MAX_MSG_SIZE_BYTES" "reads rd bs" "bs \<noteq> []"
  shows "\<exists>r. Asn1ParseUlInfoTransMsg b rd (of_nat (length bs)) m = Some r"
proof -
  have len: "length bs \<le> LIBLTE_MAX_MSG_SIZE_BYTES" using assms by simp
  obtain b1 where b1: "convert_bytes_to_bits_vector b 0 rd (8 * length bs) = Some b1"
    using converted [OF len assms(2)] by metis
  obtain e q i n' where d: "liblte_rrc_unpack_dedicated_info_nas_ie b1 11 (dedicated_info m)
      (8 * int (length bs) - 5 - 1 - 2 - 1 - 2) = Some (e, q, i, n')"
    using dedicated_info_total [of 11 "8 * int (length bs) - 5 - 1 - 2 - 1 - 2" b1 "dedicated_info m"] assms(1)
    by auto
  have "\<exists>r. liblte_rrc_unpack_ul_information_transfer_msg b1 5 (push_bit 3 (of_nat (length bs)) - 5) m = Some r"
    unfolding liblte_rrc_unpack_ul_information_transfer_msg_def remaining_bits [OF len assms(3)]
    using d by (simp add: liblte_bits_total Let_def)
  with b1 len show ?thesis
    by (auto simp: Asn1ParseUlInfoTransMsg_def Let_def bit_length)
qed

lemma setup_complete_total:
  assumes "length bs < LIBLTE_MAX_MSG_SIZE_BYTES" "reads rd bs" "bs \<noteq> []"
  shows "\<exists>r. Asn1ParseRrcSetupComplMsg b rd (of_nat (length bs)) m = Some r"
proof -
  have len: "length bs \<le> LIBLTE_MAX_MSG_SIZE_BYTES" using assms by simp
  obtain b1 where b1: "convert_bytes_to_bits_vector b 0 rd (8 * length bs) = Some b1"
    using converted [OF len assms(2)] by metis
  let ?n = "8 * int (length bs)"
  have info: "\<exists>r. liblte_rrc_unpack_dedicated_info_nas_ie b1 p i k = Some r"
    if "int p + k = ?n" "p \<le> 80" for p k i
    using that assms(1) by (intro dedicated_info_total) simp_all
  obtain pl q n' where pl: "liblte_rrc_unpack_plmn_identity_ie b1 16 (rm_plmn_id (sc_registered_mme m)) (?n - 16) =
      Some (pl, q, n')" "q \<le> 42" "int q + n' = ?n"
    using plmn_total [of 16 b1 "rm_plmn_id (sc_registered_mme m)" "?n - 16"] by auto
  have "\<exists>r. liblte_rrc_unpack_rrc_connection_setup_complete_msg b1 5 (push_bit 3 (of_nat (length bs)) - 5) m = Some r"
    unfolding liblte_rrc_unpack_rrc_connection_setup_complete_msg_def remaining_bits [OF len assms(3)]
      liblte_rrc_unpack_rrc_transaction_identifier_ie_def liblte_rrc_unpack_mmec_ie_def
    using info [of 15 "?n - 15" "dedicated_info_nas m"] info [of 40 "?n - 40" "dedicated_info_nas m"]
      info [of "24 + q" "n' - 24" "dedicated_info_nas m"] pl
    by (auto simp: liblte_bits_total Let_def add.commute [of q])
  with b1 len show ?thesis
    by (auto simp: Asn1ParseRrcSetupComplMsg_def Let_def bit_length)
qed

definition demo_req :: rrc_con_request where
  "demo_req = \<lparr>cr_ue_id = Random_Value 0, cr_ue_id_type = 7, cr_cause = 7\<rparr>"

lemma demo_req_bits:
  "bits_of_bytes [0x40, 0x12, 0xDE, 0xAD, 0xBE, 0xE6] = con_req_bits 1 0 1 0x2DEADBEE 3 @ [False]"
  by (simp add: con_req_bits_def bits_of_def upt_rec bit_iff_odd)

theorem con_request_decoded_witness:
  "\<exists>b'. Asn1ParseRrcConnReqMsg (\<lambda>_. 0) (reader_of [0x40, 0x12, 0xDE, 0xAD, 0xBE, 0xE6]) 6 demo_req =
    Some (LIBLTE_SUCCESS, \<lparr>cr_ue_id = S_TMSI 0x2DEADBEE 1, cr_ue_id_type = 0, cr_cause = 3\<rparr>, b')"
  using con_request_decoded [OF demo_req_bits, of "\<lambda>_. 0" demo_req]
  by (simp add: demo_req_def)

lemma con_request_total:
  assumes "length bs \<le> LIBLTE_MAX_MSG_SIZE_BYTES" "reads rd bs"
  shows "\<exists>m' b'. Asn1ParseRrcConnReqMsg b rd (of_nat (length bs)) m = Some (LIBLTE_SUCCESS, m', b')"
proof -
  obtain b1 where b1: "convert_bytes_to_bits_vector b 0 rd (8 * length bs) = Some b1"
    using converted [OF assms] by metis
  have "\<exists>m'. liblte_rrc_unpack_rrc_connection_request_msg b1 2 m = Some (LIBLTE_SUCCESS, m')"
    by (cases "(ucast (b1 3) :: u32) = 0")
      (simp_all add: liblte_rrc_unpack_rrc_connection_request_msg_def liblte_rrc_unpack_s_tmsi_ie_def
        liblte_rrc_unpack_mmec_ie_def liblte_bits_2_value_def Let_def)
  with b1 show ?thesis using assms
    by (auto simp: Asn1ParseRrcConnReqMsg_def Let_def bit_length)
qed

text \<open>
  The connection request parser never reports an error: however short the message is,
  also when it does not hold an identity at all, the missing bits are taken from the rest of
  the bit array and the answer is success.
\<close>

theorem con_request_never_fails:
  assumes "length bs \<le> LIBLTE_MAX_MSG_SIZE_BYTES"
  shows "\<exists>m' b'. Asn1ParseRrcConnReqMsg b (reader_of bs) (of_nat (length bs)) m = Some (LIBLTE_SUCCESS, m', b')"
  by (rule con_request_total [OF assms reads_reader_of])

theorem con_request_never_fails_witness:
  "\<exists>m' b'. Asn1ParseRrcConnReqMsg (\<lambda>_. 0) (reader_of [0x40]) 1 demo_req = Some (LIBLTE_SUCCESS, m', b')"
  using con_request_never_fails [of "[0x40]" "\<lambda>_. 0" demo_req] by simp

text \<open>
  C21. The parsers of the three uplink RRC messages never leave the bit array, the message or
  the NAS array, whatever a message of 1 to 12755 octets holds (for 12756 octets, the whole
  bit array, the comparison of the lengths in bits admits up to seven bits behind its end).
\<close>

theorem rrc_parsers_in_bounds:
  assumes "length bs < LIBLTE_MAX_MSG_SIZE_BYTES" "bs \<noteq> []"
  shows "Asn1ParseUlInfoTransMsg b (reader_of bs) (of_nat (length bs)) m1 \<noteq> None \<and>
    Asn1ParseRrcSetupComplMsg b (reader_of bs) (of_nat (length bs)) m2 \<noteq> None \<and>
    Asn1ParseRrcConnReqMsg b (reader_of bs) (of_nat (length bs)) m3 \<noteq> None"
  using ul_info_total [OF assms(1) reads_reader_of assms(2), of b m1]
    setup_complete_total [OF assms(1) reads_reader_of assms(2), of b m2]
    con_request_total [OF less_imp_le [OF assms(1)] reads_reader_of, of b m3]
  by auto

definition demo_setup :: rrc_setup_complete where
  "demo_setup = \<lparr>sc_registered_mme = \<lparr>rm_plmn_id = \<lparr>pl_mcc = 0, pl_mnc = 0\<rparr>, rm_mmegi = 0, rm_mmec = 0,
     rm_plmn_id_present = 0\<rparr>, dedicated_info_nas = \<lparr>N_bytes = 0, sm_msg = (\<lambda>_. 0)\<rparr>,
     sc_rrc_transaction_id = 0, sc_selected_plmn_id = 0, sc_registered_mme_present = 0\<rparr>"

theorem rrc_parsers_in_bounds_witness:
  "Asn1ParseUlInfoTransMsg (\<lambda>_. 0) (reader_of [0x48, 0x1F]) 2 demo_info \<noteq> None \<and>
   Asn1ParseRrcSetupComplMsg (\<lambda>_. 0) (reader_of [0x48, 0x1F]) 2 demo_setup \<noteq> None"
  using rrc_parsers_in_bounds [of "[0x48, 0x1F]" "\<lambda>_. 0" demo_info demo_setup] by simp

lemma cleared:
  assumes "convert_bytes_to_bits_vector b 0 rd (unat (push_bit 3 len :: u32)) = Some b1" "\<And>i. b i = 0"
  shows "clear_bits b1 (unat (push_bit 3 len)) i = 0"
proof -
  have "8 dvd unat (push_bit 3 len)"
    by (simp add: push_bit_eq_mult unat_word_ariths dvd_mod)
  then obtain k where k: "unat (push_bit 3 len) = 8 * k" by (auto simp: dvd_def)
  with convert_bytes_to_bits_vector_frame [of b rd k b1 i] assms show ?thesis
    by (auto simp: clear_bits_def not_less)
qed

text \<open>
  Every parser leaves the global bit array as \<open>Asn1Init\<close> made it, all zero, whatever
  the message and whether it is accepted, so no message can be decoded with bits of an
  earlier one.
\<close>

theorem parsers_restore_zero:
  assumes "\<And>i. b i = 0"
  shows "(Asn1ParseUlInfoTransMsg b rd len m1 = Some (e1, m1', b') \<longrightarrow> b' i = 0) \<and>
    (Asn1ParseRrcSetupComplMsg b rd len m2 = Some (e2, m2', b') \<longrightarrow> b' i = 0) \<and>
    (Asn1ParseRrcConnReqMsg b rd len m3 = Some (e3, m3', b') \<longrightarrow> b' i = 0)"
  using assms
  by (auto simp: Asn1ParseUlInfoTransMsg_def Asn1ParseRrcSetupComplMsg_def Asn1ParseRrcConnReqMsg_def
      Let_def bind_Some_iff intro: cleared split: if_splits)

theorem parsers_restore_zero_witness:
  "\<exists>m' b'. Asn1ParseRrcConnReqMsg (\<lambda>_. 0) (reader_of [0x40]) 1 demo_req = Some (LIBLTE_SUCCESS, m', b') \<and>
     b' 1 = 0"
proof -
  obtain m' b' where p: "Asn1ParseRrcConnReqMsg (\<lambda>_. 0) (reader_of [0x40]) 1 demo_req = Some (LIBLTE_SUCCESS, m', b')"
    using con_request_total [OF _ reads_reader_of, of "[0x40]" "\<lambda>_. 0" demo_req] by auto
  have "b' 1 = 0" using parsers_restore_zero [of "\<lambda>_. 0" _ _ _ _ _ _ 1] p by blast
  with p show ?thesis by blast
qed

end
