(* ===== verification/Asn1_Nas.thy ===== *)
theory Asn1_Nas
  imports Asn1_Bits
begin

text \<open>
  The NAS messages of \<open>ulp/src/asn1Lib.c\<close>: the message header, identity response, attach
  request, detach request, extended service request and tracking area update request, with
  all their information elements.  A message is the fixed array of a
  \<open>LIBLTE_SIMPLE_BYTE_MSG_STRUCT\<close>; the parsers move an index through it and never look at
  the number of bytes in use.  \<open>None\<close> is a read beyond the array.  Values that the program
  casts to an enumeration stay numbers.
\<close>

section \<open>Structures\<close>

record nas_ksi_ie =
  tsc_flag :: u8
  ksi_value :: u8

record mobile_id =
  mi_type_of_id :: u8
  mi_imsi :: "u8 list"
  mi_imei :: "u8 list"
  mi_imeisv :: "u8 list"

record guti_id =
  gu_m_tmsi :: u32
  gu_mcc :: u16
  gu_mnc :: u16
  gu_mme_group_id :: u16
  gu_mme_code :: u8

record eps_mobile_id =
  em_guti :: guti_id
  em_type_of_id :: u8
  em_imsi :: "u8 list"
  em_imei :: "u8 list"
  em_m_tmsi :: u32

record ue_network_cap =
  nc_eea :: "u8 list"
  nc_eia :: "u8 list"
  nc_uea :: "u8 list"
  nc_uea_present :: u8
  nc_ucs2 :: u8
  nc_ucs2_present :: u8
  nc_uia :: "u8 list"
  nc_uia_present :: u8
  nc_lpp :: u8
  nc_lpp_present :: u8
  nc_lcs :: u8
  nc_lcs_present :: u8
  nc_onexsrvcc :: u8
  nc_onexsrvcc_present :: u8
  nc_nf :: u8
  nc_nf_present :: u8

record tracking_area_id =
  ta_mcc :: u16
  ta_mnc :: u16
  ta_tac :: u16

record drx_parameter =
  dx_non_drx_timer :: u8
  dx_split_pg_cycle_code :: u8
  dx_cycle_len_coeff_and_value :: u8
  dx_split_on_ccch :: u8

record ms_network_cap =
  mc_ss_screening :: u8
  mc_gea :: "u8 list"
  mc_sm_cap_ded :: u8
  mc_sm_cap_gprs :: u8
  mc_ucs2 :: u8
  mc_solsa :: u8
  mc_revision :: u8
  mc_pfc :: u8
  mc_lcsva :: u8
  mc_ho_g2u_via_iu :: u8
  mc_ho_g2e_via_s1 :: u8
  mc_emm_comb :: u8
  mc_isr :: u8
  mc_srvcc :: u8
  mc_epc :: u8
  mc_nf :: u8

record location_area_id =
  la_mcc :: u16
  la_mnc :: u16
  la_lac :: u16

record ms_classmark2 =
  c2_rev_lev :: u8
  c2_rf_power_cap :: u8
  c2_ss_screen_ind :: u8
  c2_es_ind :: u8
  c2_a5_1 :: u8
  c2_ps_cap :: u8
  c2_sm_cap :: u8
  c2_vbs :: u8
  c2_vgcs :: u8
  c2_fc :: u8
  c2_cm3 :: u8
  c2_lcsva_cap :: u8
  c2_ucs2 :: u8
  c2_solsa :: u8
  c2_cmsp :: u8
  c2_a5_3 :: u8
  c2_a5_2 :: u8

text \<open>A codec: the system id and the bitmap; the array beyond the count keeps what it held.\<close>

record supported_codecs =
  cl_codec :: "nat \<Rightarrow> u8 \<times> u16"
  cl_N :: u32

record voice_domain =
  vd_ue_usage_setting :: u8
  vd_voice_domain_pref :: u8

record detach_type =
  dt_switch_off :: u8
  dt_type_of_detach :: u8

section \<open>Access\<close>

definition byte_at :: "simple_msg \<Rightarrow> nat \<Rightarrow> u8 option" where
  "byte_at m p = (if p < LIBLTE_MAX_MSG_SIZE_BYTES then Some (sm_msg m p) else None)"

definition hi4 :: "u8 \<Rightarrow> u8" where "hi4 b = drop_bit 4 b AND 0x0F"
definition lo4 :: "u8 \<Rightarrow> u8" where "lo4 b = b AND 0x0F"

text \<open>Bit \<open>k\<close> of a byte, \<open>(b >> k) & 0x01\<close>.\<close>

definition bit1 :: "nat \<Rightarrow> u8 \<Rightarrow> u8" where "bit1 k b = drop_bit k b AND 0x01"

text \<open>\<open>k\<close> consecutive bytes from \<open>p\<close>.\<close>

fun bytes_at :: "simple_msg \<Rightarrow> nat \<Rightarrow> nat \<Rightarrow> u8 list option" where
  "bytes_at m p 0 = Some []"
| "bytes_at m p (Suc k) = do { b \<leftarrow> byte_at m p; bs \<leftarrow> bytes_at m (p + 1) k; Some (b # bs) }"

section \<open>Message header\<close>

text \<open>The answer is the protocol discriminator and the message type.\<close>

definition liblte_mme_parse_msg_header :: "simple_msg \<Rightarrow> (u8 \<times> u8) option" where
  "liblte_mme_parse_msg_header m = do {
     b0 \<leftarrow> byte_at m 0;
     let sec_hdr_type = hi4 b0;
     let pd = lo4 b0;
     if sec_hdr_type = 0xC then Some (pd, 0xC)
     else if pd = 0x2 then do { t \<leftarrow> byte_at m 2; Some (pd, t) }
     else if sec_hdr_type = 0 then do { t \<leftarrow> byte_at m 1; Some (pd, t) }
     else do {
       b6 \<leftarrow> byte_at m 6;
       let pd = lo4 b6;
       if pd = 0x2 then do { t \<leftarrow> byte_at m 8; Some (pd, t) }
       else do { t \<leftarrow> byte_at m 7; Some (pd, t) } } }"

text \<open>Where the message type ends: after the plain header, or after the security header.\<close>

definition nas_body :: "simple_msg \<Rightarrow> nat option" where
  "nas_body m = do {
     b0 \<leftarrow> byte_at m 0;
     Some ((if hi4 b0 = 0 then 1 else 7) + 1) }"

section \<open>Information elements\<close>

text \<open>The digits of an identity: the high half of the first byte, then low and high halves.\<close>

definition id_digits :: "u8 \<Rightarrow> u8 list \<Rightarrow> u8 list" where
  "id_digits b bs = drop_bit 4 b # concat (map (\<lambda>x. [x AND 0x0F, drop_bit 4 x]) bs)"

definition liblte_mme_unpack_mobile_id_ie :: "simple_msg \<Rightarrow> nat \<Rightarrow> mobile_id \<Rightarrow> (asn1_err \<times> mobile_id) option" where
  "liblte_mme_unpack_mobile_id_ie m p r = do {
     b \<leftarrow> byte_at m (p + 1);
     let ty = b AND 0x07;
     let r = r\<lparr>mi_type_of_id := ty\<rparr>;
     if ty = 1 \<or> ty = 2 then do {
       bs \<leftarrow> bytes_at m (p + 2) 7;
       let d = id_digits b bs;
       Some (LIBLTE_SUCCESS, if ty = 1 then r\<lparr>mi_imsi := d\<rparr> else r\<lparr>mi_imei := d\<rparr>)
     } else if ty = 3 then do {
       bs \<leftarrow> bytes_at m (p + 2) 7;
       l \<leftarrow> byte_at m (p + 9);
       Some (LIBLTE_SUCCESS, r\<lparr>mi_imeisv := id_digits b bs @ [l AND 0x0F]\<rparr>)
     } else Some (LIBLTE_ERROR_INVALID_INPUTS, r) }"

definition liblte_mme_unpack_nas_key_set_id_ie :: "simple_msg \<Rightarrow> nat \<Rightarrow> nat \<Rightarrow> nas_ksi_ie option" where
  "liblte_mme_unpack_nas_key_set_id_ie m p off = do {
     b \<leftarrow> byte_at m p;
     Some \<lparr>tsc_flag = bit1 (off + 3) b, ksi_value = drop_bit off b AND 0x07\<rparr> }"

definition liblte_mme_unpack_eps_attach_type_ie :: "simple_msg \<Rightarrow> nat \<Rightarrow> nat \<Rightarrow> u8 option" where
  "liblte_mme_unpack_eps_attach_type_ie m p off = do { b \<leftarrow> byte_at m p; Some (drop_bit off b AND 0x07) }"

text \<open>A PLMN in three bytes: the country code and the network code in decimal.\<close>

definition plmn_mcc :: "u8 \<Rightarrow> u8 \<Rightarrow> u16" where
  "plmn_mcc a b = ucast (lo4 a) * 100 + ucast (hi4 a) * 10 + ucast (lo4 b)"

definition plmn_mnc :: "u8 \<Rightarrow> u8 \<Rightarrow> u16" where
  "plmn_mnc b c = (if hi4 b = 0x0F then ucast (lo4 c) * 10 + ucast (hi4 c)
     else ucast (hi4 b) + ucast (lo4 c) * 100 + ucast (hi4 c) * 10)"

definition be16 :: "u8 \<Rightarrow> u8 \<Rightarrow> u16" where
  "be16 a b = push_bit 8 (ucast a) OR ucast b"

definition be32 :: "u8 \<Rightarrow> u8 \<Rightarrow> u8 \<Rightarrow> u8 \<Rightarrow> u32" where
  "be32 a b c d = push_bit 24 (ucast a) OR push_bit 16 (ucast b) OR push_bit 8 (ucast c) OR ucast d"

text \<open>The length byte of the identity is read and not used; the index moves past the content.\<close>

definition liblte_mme_unpack_eps_mobile_id_ie ::
    "simple_msg \<Rightarrow> nat \<Rightarrow> eps_mobile_id \<Rightarrow> (eps_mobile_id \<times> nat) option" where
  "liblte_mme_unpack_eps_mobile_id_ie m p r = do {
     len \<leftarrow> byte_at m p;
     b \<leftarrow> byte_at m (p + 1);
     let ty = b AND 0x07;
     let r = r\<lparr>em_type_of_id := ty\<rparr>;
     if ty = 6 then do {
       a \<leftarrow> byte_at m (p + 2);
       b2 \<leftarrow> byte_at m (p + 3);
       c \<leftarrow> byte_at m (p + 4);
       g1 \<leftarrow> byte_at m (p + 5);
       g2 \<leftarrow> byte_at m (p + 6);
       code \<leftarrow> byte_at m (p + 7);
       t1 \<leftarrow> byte_at m (p + 8);
       t2 \<leftarrow> byte_at m (p + 9);
       t3 \<leftarrow> byte_at m (p + 10);
       t4 \<leftarrow> byte_at m (p + 11);
       Some (r\<lparr>em_guti := \<lparr>gu_m_tmsi = be32 t1 t2 t3 t4, gu_mcc = plmn_mcc a b2, gu_mnc = plmn_mnc b2 c,
         gu_mme_group_id = be16 g1 g2, gu_mme_code = code\<rparr>\<rparr>, p + 12)
     } else if ty = 4 then do {
       t1 \<leftarrow> byte_at m (p + 2);
       t2 \<leftarrow> byte_at m (p + 3);
       t3 \<leftarrow> byte_at m (p + 4);
       t4 \<leftarrow> byte_at m (p + 5);
       Some (r\<lparr>em_m_tmsi := be32 t1 t2 t3 t4\<rparr>, p + 6)
     } else do {
       bs \<leftarrow> bytes_at m (p + 2) 7;
       let d = id_digits b bs;
       Some (if ty = 1 then r\<lparr>em_imsi := d\<rparr> else r\<lparr>em_imei := d\<rparr>, p + 9)
     } }"

text \<open>The eight flags of a byte, most significant first.\<close>

definition flags8 :: "u8 \<Rightarrow> u8 list" where
  "flags8 b = map (\<lambda>k. bit1 (7 - k) b) [0..<8]"

definition liblte_mme_unpack_ue_network_capability_ie ::
    "simple_msg \<Rightarrow> nat \<Rightarrow> ue_network_cap \<Rightarrow> (ue_network_cap \<times> nat) option" where
  "liblte_mme_unpack_ue_network_capability_ie m p r = do {
     len \<leftarrow> byte_at m p;
     a \<leftarrow> byte_at m (p + 1);
     i \<leftarrow> byte_at m (p + 2);
     let r = r\<lparr>nc_eea := flags8 a, nc_eia := flags8 i\<rparr>;
     let p = p + 3;
     (r, p) \<leftarrow>
       (if len > 2 then do {
          b \<leftarrow> byte_at m p;
          Some (r\<lparr>nc_uea := flags8 b, nc_uea_present := 1\<rparr>, p + 1)
        } else Some (r\<lparr>nc_uea_present := 0\<rparr>, p));
     (r, p) \<leftarrow>
       (if len > 3 then do {
          b \<leftarrow> byte_at m p;
          Some (r\<lparr>nc_ucs2 := bit1 7 b, nc_ucs2_present := 1, nc_uia := take 1 (nc_uia r) @ tl (flags8 b),
                  nc_uia_present := 1\<rparr>, p + 1)
        } else Some (r\<lparr>nc_ucs2_present := 0, nc_uia_present := 0\<rparr>, p));
     (r, p) \<leftarrow>
       (if len > 4 then do {
          b \<leftarrow> byte_at m p;
          Some (r\<lparr>nc_lpp := bit1 3 b, nc_lpp_present := 1, nc_lcs := bit1 2 b, nc_lcs_present := 1,
                  nc_onexsrvcc := bit1 1 b, nc_onexsrvcc_present := 1, nc_nf := drop_bit 1 b,
                  nc_nf_present := 1\<rparr>, p + 1)
        } else Some (r\<lparr>nc_lpp_present := 0, nc_lcs_present := 0, nc_onexsrvcc_present := 0,
                       nc_nf_present := 0\<rparr>, p));
     Some (r, if len > 5 then p + (unat len - 5) else p) }"

text \<open>
  The copy loop of the ESM container, \<open>k\<close> bytes from source index \<open>p\<close> to index
  \<open>i\<close>.
\<close>

fun copy_bytes :: "nat \<Rightarrow> nat \<Rightarrow> simple_msg \<Rightarrow> nat \<Rightarrow> (nat \<Rightarrow> u8) \<Rightarrow> (nat \<Rightarrow> u8) option" where
  "copy_bytes 0 i m p d = Some d"
| "copy_bytes (Suc k) i m p d = do { b \<leftarrow> byte_at m p; copy_bytes k (i + 1) m (p + 1) (d(i := b)) }"

definition liblte_mme_unpack_esm_message_container_ie ::
    "simple_msg \<Rightarrow> nat \<Rightarrow> simple_msg \<Rightarrow> (asn1_err \<times> simple_msg \<times> nat) option" where
  "liblte_mme_unpack_esm_message_container_ie m p r = do {
     a \<leftarrow> byte_at m p;
     b \<leftarrow> byte_at m (p + 1);
     let n = unat (be16 a b);
     if n > LIBLTE_MAX_MSG_SIZE_BYTES then Some (LIBLTE_ERROR_INVALID_INPUTS, r\<lparr>N_bytes := 0\<rparr>, p)
     else do {
       d \<leftarrow> copy_bytes n 0 m (p + 2) (sm_msg r);
       Some (LIBLTE_SUCCESS, r\<lparr>N_bytes := of_nat n, sm_msg := d\<rparr>, p + n + 2)
     } }"

definition liblte_mme_unpack_p_tmsi_signature_ie :: "simple_msg \<Rightarrow> nat \<Rightarrow> (u32 \<times> nat) option" where
  "liblte_mme_unpack_p_tmsi_signature_ie m p = do {
     a \<leftarrow> byte_at m p; b \<leftarrow> byte_at m (p + 1); c \<leftarrow> byte_at m (p + 2); d \<leftarrow> byte_at m (p + 3);
     Some (be32 a b c d, p + 4) }"

definition liblte_mme_unpack_tracking_area_id_ie :: "simple_msg \<Rightarrow> nat \<Rightarrow> (tracking_area_id \<times> nat) option" where
  "liblte_mme_unpack_tracking_area_id_ie m p = do {
     a \<leftarrow> byte_at m p; b \<leftarrow> byte_at m (p + 1); c \<leftarrow> byte_at m (p + 2);
     d \<leftarrow> byte_at m (p + 3); e \<leftarrow> byte_at m (p + 4);
     Some (\<lparr>ta_mcc = plmn_mcc a b, ta_mnc = plmn_mnc b c, ta_tac = be16 d e\<rparr>, p + 5) }"

definition liblte_mme_unpack_location_area_id_ie :: "simple_msg \<Rightarrow> nat \<Rightarrow> (location_area_id \<times> nat) option" where
  "liblte_mme_unpack_location_area_id_ie m p = do {
     a \<leftarrow> byte_at m p; b \<leftarrow> byte_at m (p + 1); c \<leftarrow> byte_at m (p + 2);
     d \<leftarrow> byte_at m (p + 3); e \<leftarrow> byte_at m (p + 4);
     Some (\<lparr>la_mcc = plmn_mcc a b, la_mnc = plmn_mnc b c, la_lac = be16 d e\<rparr>, p + 5) }"

definition liblte_mme_unpack_drx_parameter_ie :: "simple_msg \<Rightarrow> nat \<Rightarrow> (drx_parameter \<times> nat) option" where
  "liblte_mme_unpack_drx_parameter_ie m p = do {
     a \<leftarrow> byte_at m p; b \<leftarrow> byte_at m (p + 1);
     Some (\<lparr>dx_non_drx_timer = b AND 0x07, dx_split_pg_cycle_code = a,
            dx_cycle_len_coeff_and_value = hi4 b, dx_split_on_ccch = bit1 3 b\<rparr>, p + 2) }"

definition liblte_mme_unpack_ms_network_capability_ie ::
    "simple_msg \<Rightarrow> nat \<Rightarrow> ms_network_cap \<Rightarrow> (ms_network_cap \<times> nat) option" where
  "liblte_mme_unpack_ms_network_capability_ie m p r = do {
     n \<leftarrow> byte_at m p; a \<leftarrow> byte_at m (p + 1); b \<leftarrow> byte_at m (p + 2); c \<leftarrow> byte_at m (p + 3);
     Some (r\<lparr>mc_gea := take 1 (mc_gea r) @ [bit1 7 a, bit1 6 b, bit1 5 b, bit1 4 b, bit1 3 b, bit1 2 b, bit1 1 b],
             mc_sm_cap_ded := bit1 6 a, mc_sm_cap_gprs := bit1 5 a, mc_ucs2 := bit1 4 a,
             mc_ss_screening := drop_bit 2 a AND 0x03, mc_solsa := bit1 1 a, mc_revision := bit1 0 a,
             mc_pfc := bit1 7 b, mc_lcsva := bit1 0 b, mc_ho_g2u_via_iu := bit1 7 c,
             mc_ho_g2e_via_s1 := bit1 6 c, mc_emm_comb := bit1 5 c, mc_isr := bit1 4 c,
             mc_srvcc := bit1 3 c, mc_epc := bit1 2 c, mc_nf := bit1 1 c\<rparr>, p + unat n + 1) }"

definition liblte_mme_unpack_mobile_station_classmark_2_ie ::
    "simple_msg \<Rightarrow> nat \<Rightarrow> (ms_classmark2 \<times> nat) option" where
  "liblte_mme_unpack_mobile_station_classmark_2_ie m p = do {
     a \<leftarrow> byte_at m (p + 1); b \<leftarrow> byte_at m (p + 2); c \<leftarrow> byte_at m (p + 3);
     Some (\<lparr>c2_rev_lev = drop_bit 5 a AND 0x03, c2_rf_power_cap = a AND 0x07,
            c2_ss_screen_ind = drop_bit 4 b AND 0x03, c2_es_ind = bit1 4 a, c2_a5_1 = bit1 3 a,
            c2_ps_cap = bit1 6 b, c2_sm_cap = bit1 3 b, c2_vbs = bit1 2 b, c2_vgcs = bit1 1 b,
            c2_fc = bit1 0 b, c2_cm3 = bit1 7 c, c2_lcsva_cap = bit1 5 c, c2_ucs2 = bit1 4 c,
            c2_solsa = bit1 3 c, c2_cmsp = bit1 2 c, c2_a5_3 = bit1 1 c, c2_a5_2 = bit1 0 c\<rparr>, p + 4) }"

text \<open>Classmark 3 reads nothing and does not move the index.\<close>

definition liblte_mme_unpack_mobile_station_classmark_3_ie :: "simple_msg \<Rightarrow> nat \<Rightarrow> nat option" where
  "liblte_mme_unpack_mobile_station_classmark_3_ie m p = Some p"

fun read_codecs :: "nat \<Rightarrow> nat \<Rightarrow> simple_msg \<Rightarrow> nat \<Rightarrow> (nat \<Rightarrow> u8 \<times> u16) \<Rightarrow> (nat \<Rightarrow> u8 \<times> u16) option" where
  "read_codecs 0 i m p d = Some d"
| "read_codecs (Suc k) i m p d = do {
     s \<leftarrow> byte_at m (p + 1 + i * 4);
     a \<leftarrow> byte_at m (p + 1 + i * 4 + 2);
     b \<leftarrow> byte_at m (p + 1 + i * 4 + 3);
     read_codecs k (i + 1) m p (d(i := (s, be16 a b))) }"

definition liblte_mme_unpack_supported_codec_list_ie ::
    "simple_msg \<Rightarrow> nat \<Rightarrow> supported_codecs \<Rightarrow> (supported_codecs \<times> nat) option" where
  "liblte_mme_unpack_supported_codec_list_ie m p r = do {
     n \<leftarrow> byte_at m p;
     let k = unat n div 4;
     d \<leftarrow> read_codecs k 0 m p (cl_codec r);
     Some (r\<lparr>cl_codec := d, cl_N := of_nat k\<rparr>, p + k * 4 + 1) }"

text \<open>The four elements that are one bit of the current byte.\<close>

definition liblte_mme_unpack_tmsi_status_ie :: "simple_msg \<Rightarrow> nat \<Rightarrow> nat \<Rightarrow> u8 option" where
  "liblte_mme_unpack_tmsi_status_ie m p off = map_option (bit1 off) (byte_at m p)"

definition liblte_mme_unpack_additional_update_type_ie :: "simple_msg \<Rightarrow> nat \<Rightarrow> nat \<Rightarrow> u8 option" where
  "liblte_mme_unpack_additional_update_type_ie m p off = map_option (bit1 off) (byte_at m p)"

definition liblte_mme_unpack_device_properties_ie :: "simple_msg \<Rightarrow> nat \<Rightarrow> nat \<Rightarrow> u8 option" where
  "liblte_mme_unpack_device_properties_ie m p off = map_option (bit1 off) (byte_at m p)"

definition liblte_mme_unpack_guti_type_ie :: "simple_msg \<Rightarrow> nat \<Rightarrow> nat \<Rightarrow> u8 option" where
  "liblte_mme_unpack_guti_type_ie m p off = map_option (bit1 off) (byte_at m p)"

definition liblte_mme_unpack_voice_domain_pref_and_ue_usage_setting_ie ::
    "simple_msg \<Rightarrow> nat \<Rightarrow> (voice_domain \<times> nat) option" where
  "liblte_mme_unpack_voice_domain_pref_and_ue_usage_setting_ie m p = do {
     b \<leftarrow> byte_at m (p + 1);
     Some (\<lparr>vd_ue_usage_setting = bit1 2 b, vd_voice_domain_pref = b AND 0x03\<rparr>, p + 2) }"

definition liblte_mme_unpack_detach_type_ie :: "simple_msg \<Rightarrow> nat \<Rightarrow> nat \<Rightarrow> detach_type option" where
  "liblte_mme_unpack_detach_type_ie m p off = do {
     b \<leftarrow> byte_at m p;
     Some \<lparr>dt_switch_off = bit1 (3 + off) b, dt_type_of_detach = drop_bit off b AND 0x07\<rparr> }"

section \<open>Messages\<close>

record id_response =
  ir_mobile_id :: mobile_id

record attach_request =
  ar_nas_ksi :: nas_ksi_ie
  ar_eps_mobile_id :: eps_mobile_id
  ar_ue_network_cap :: ue_network_cap
  ar_esm_msg :: simple_msg
  ar_additional_guti :: eps_mobile_id
  ar_last_visited_registered_tai :: tracking_area_id
  ar_drx_param :: drx_parameter
  ar_ms_network_cap :: ms_network_cap
  ar_old_lai :: location_area_id
  ar_ms_cm2 :: ms_classmark2
  ar_supported_codecs :: supported_codecs
  ar_voice_domain :: voice_domain
  ar_tmsi_status :: u8
  ar_additional_update_type :: u8
  ar_device_properties :: u8
  ar_old_guti_type :: u8
  ar_old_p_tmsi_signature :: u32
  ar_eps_attach_type :: u8
  ar_old_p_tmsi_signature_present :: u8
  ar_additional_guti_present :: u8
  ar_last_visited_registered_tai_present :: u8
  ar_drx_param_present :: u8
  ar_ms_network_cap_present :: u8
  ar_old_lai_present :: u8
  ar_tmsi_status_present :: u8
  ar_ms_cm2_present :: u8
  ar_ms_cm3_present :: u8
  ar_supported_codecs_present :: u8
  ar_additional_update_type_present :: u8
  ar_voice_domain_present :: u8
  ar_device_properties_present :: u8
  ar_old_guti_type_present :: u8

record detach_request =
  dr_detach_type :: detach_type
  dr_nas_ksi :: nas_ksi_ie
  dr_eps_mobile_id :: eps_mobile_id

record ext_service_request =
  es_service_type :: u8
  es_nas_ksi :: nas_ksi_ie
  es_eps_mobile_id :: eps_mobile_id

record tau_request =
  tau_value :: u8
  tau_activeFlag :: u8
  tau_nas_ksi :: nas_ksi_ie
  tau_eps_mobile_id :: eps_mobile_id

definition liblte_mme_unpack_identity_response_msg ::
    "simple_msg \<Rightarrow> id_response \<Rightarrow> (asn1_err \<times> id_response) option" where
  "liblte_mme_unpack_identity_response_msg m r = do {
     p \<leftarrow> nas_body m;
     (err, i) \<leftarrow> liblte_mme_unpack_mobile_id_ie m p (ir_mobile_id r);
     Some (err, r\<lparr>ir_mobile_id := i\<rparr>) }"

text \<open>
  An optional element of the attach request: when the current byte is its identifier, the
  element after it is read and reported present; otherwise the index stays.  The second form is
  an element of half a byte, whose identifier is the high half.
\<close>

definition opt_ie :: "u8 \<Rightarrow> simple_msg \<Rightarrow> nat \<Rightarrow> (nat \<Rightarrow> ('a \<times> nat) option) \<Rightarrow> 'a \<Rightarrow> ('a \<times> u8 \<times> nat) option" where
  "opt_ie iei m p get old = do {
     b \<leftarrow> byte_at m p;
     if iei = b then do { (v, p) \<leftarrow> get (p + 1); Some (v, TRUE8, p) }
     else Some (old, FALSE8, p) }"

definition opt_half_ie :: "u8 \<Rightarrow> simple_msg \<Rightarrow> nat \<Rightarrow> (nat \<Rightarrow> 'a option) \<Rightarrow> 'a \<Rightarrow> ('a \<times> u8 \<times> nat) option" where
  "opt_half_ie iei m p get old = do {
     b \<leftarrow> byte_at m p;
     if push_bit 4 iei = b AND 0xF0 then do { v \<leftarrow> get p; Some (v, TRUE8, p + 1) }
     else Some (old, FALSE8, p) }"

text \<open>The optional elements, in the order in which the program looks for them.\<close>

definition attach_optional :: "simple_msg \<Rightarrow> nat \<Rightarrow> attach_request \<Rightarrow> attach_request option" where
  "attach_optional m p r = do {
     (v, f, p) \<leftarrow> opt_ie 0x19 m p (liblte_mme_unpack_p_tmsi_signature_ie m) (ar_old_p_tmsi_signature r);
     let r = r\<lparr>ar_old_p_tmsi_signature := v, ar_old_p_tmsi_signature_present := f\<rparr>;
     (v, f, p) \<leftarrow> opt_ie 0x50 m p (\<lambda>p. liblte_mme_unpack_eps_mobile_id_ie m p (ar_additional_guti r))
       (ar_additional_guti r);
     let r = r\<lparr>ar_additional_guti := v, ar_additional_guti_present := f\<rparr>;
     (v, f, p) \<leftarrow> opt_ie 0x52 m p (liblte_mme_unpack_tracking_area_id_ie m) (ar_last_visited_registered_tai r);
     let r = r\<lparr>ar_last_visited_registered_tai := v, ar_last_visited_registered_tai_present := f\<rparr>;
     (v, f, p) \<leftarrow> opt_ie 0x5C m p (liblte_mme_unpack_drx_parameter_ie m) (ar_drx_param r);
     let r = r\<lparr>ar_drx_param := v, ar_drx_param_present := f\<rparr>;
     (v, f, p) \<leftarrow> opt_ie 0x31 m p (\<lambda>p. liblte_mme_unpack_ms_network_capability_ie m p (ar_ms_network_cap r))
       (ar_ms_network_cap r);
     let r = r\<lparr>ar_ms_network_cap := v, ar_ms_network_cap_present := f\<rparr>;
     (v, f, p) \<leftarrow> opt_ie 0x13 m p (liblte_mme_unpack_location_area_id_ie m) (ar_old_lai r);
     let r = r\<lparr>ar_old_lai := v, ar_old_lai_present := f\<rparr>;
     (v, f, p) \<leftarrow> opt_half_ie 0x9 m p (\<lambda>p. liblte_mme_unpack_tmsi_status_ie m p 0) (ar_tmsi_status r);
     let r = r\<lparr>ar_tmsi_status := v, ar_tmsi_status_present := f\<rparr>;
     (v, f, p) \<leftarrow> opt_ie 0x11 m p (liblte_mme_unpack_mobile_station_classmark_2_ie m) (ar_ms_cm2 r);
     let r = r\<lparr>ar_ms_cm2 := v, ar_ms_cm2_present := f\<rparr>;
     (_, f, p) \<leftarrow> opt_ie 0x20 m p (\<lambda>p. map_option (Pair ()) (liblte_mme_unpack_mobile_station_classmark_3_ie m p)) ();
     let r = r\<lparr>ar_ms_cm3_present := f\<rparr>;
     (v, f, p) \<leftarrow> opt_ie 0x40 m p (\<lambda>p. liblte_mme_unpack_supported_codec_list_ie m p (ar_supported_codecs r))
       (ar_supported_codecs r);
     let r = r\<lparr>ar_supported_codecs := v, ar_supported_codecs_present := f\<rparr>;
     (v, f, p) \<leftarrow> opt_half_ie 0xF m p (\<lambda>p. liblte_mme_unpack_additional_update_type_ie m p 0)
       (ar_additional_update_type r);
     let r = r\<lparr>ar_additional_update_type := v, ar_additional_update_type_present := f\<rparr>;
     (v, f, p) \<leftarrow> opt_ie 0x5D m p (liblte_mme_unpack_voice_domain_pref_and_ue_usage_setting_ie m)
       (ar_voice_domain r);
     let r = r\<lparr>ar_voice_domain := v, ar_voice_domain_present := f\<rparr>;
     (v, f, p) \<leftarrow> opt_half_ie 0xD m p (\<lambda>p. liblte_mme_unpack_device_properties_ie m p 0) (ar_device_properties r);
     let r = r\<lparr>ar_device_properties := v, ar_device_properties_present := f\<rparr>;
     (v, f, p) \<leftarrow> opt_half_ie 0xE m p (\<lambda>p. liblte_mme_unpack_guti_type_ie m p 0) (ar_old_guti_type r);
     Some (r\<lparr>ar_old_guti_type := v, ar_old_guti_type_present := f\<rparr>) }"

definition liblte_mme_unpack_attach_request_msg ::
    "simple_msg \<Rightarrow> attach_request \<Rightarrow> (asn1_err \<times> attach_request) option" where
  "liblte_mme_unpack_attach_request_msg m r = do {
     p \<leftarrow> nas_body m;
     t \<leftarrow> liblte_mme_unpack_eps_attach_type_ie m p 0;
     k \<leftarrow> liblte_mme_unpack_nas_key_set_id_ie m p 4;
     let r = r\<lparr>ar_eps_attach_type := t, ar_nas_ksi := k\<rparr>;
     (i, p) \<leftarrow> liblte_mme_unpack_eps_mobile_id_ie m (p + 1) (ar_eps_mobile_id r);
     let r = r\<lparr>ar_eps_mobile_id := i\<rparr>;
     (c, p) \<leftarrow> liblte_mme_unpack_ue_network_capability_ie m p (ar_ue_network_cap r);
     let r = r\<lparr>ar_ue_network_cap := c\<rparr>;
     (err, e, p) \<leftarrow> liblte_mme_unpack_esm_message_container_ie m p (ar_esm_msg r);
     let r = r\<lparr>ar_esm_msg := e\<rparr>;
     if err \<noteq> LIBLTE_SUCCESS then Some (LIBLTE_ERROR_INVALID_INPUTS, r)
     else do {
       r \<leftarrow> attach_optional m p r;
       Some (LIBLTE_SUCCESS, r)
     } }"

definition liblte_mme_unpack_detach_request_msg ::
    "simple_msg \<Rightarrow> detach_request \<Rightarrow> (asn1_err \<times> detach_request) option" where
  "liblte_mme_unpack_detach_request_msg m r = do {
     p \<leftarrow> nas_body m;
     t \<leftarrow> liblte_mme_unpack_detach_type_ie m p 0;
     k \<leftarrow> liblte_mme_unpack_nas_key_set_id_ie m p 4;
     (i, p) \<leftarrow> liblte_mme_unpack_eps_mobile_id_ie m (p + 1) (dr_eps_mobile_id r);
     Some (LIBLTE_SUCCESS, r\<lparr>dr_detach_type := t, dr_nas_ksi := k, dr_eps_mobile_id := i\<rparr>) }"

definition liblte_mme_unpack_ext_service_request_msg ::
    "simple_msg \<Rightarrow> ext_service_request \<Rightarrow> (asn1_err \<times> ext_service_request) option" where
  "liblte_mme_unpack_ext_service_request_msg m r = do {
     p \<leftarrow> nas_body m;
     b \<leftarrow> byte_at m p;
     k \<leftarrow> liblte_mme_unpack_nas_key_set_id_ie m p 4;
     (i, p) \<leftarrow> liblte_mme_unpack_eps_mobile_id_ie m (p + 1) (es_eps_mobile_id r);
     Some (LIBLTE_SUCCESS, r\<lparr>es_service_type := b AND 0x0F, es_nas_ksi := k, es_eps_mobile_id := i\<rparr>) }"

definition liblte_mme_unpack_tau_request_msg ::
    "simple_msg \<Rightarrow> tau_request \<Rightarrow> (asn1_err \<times> tau_request) option" where
  "liblte_mme_unpack_tau_request_msg m r = do {
     p \<leftarrow> nas_body m;
     b \<leftarrow> byte_at m p;
     k \<leftarrow> liblte_mme_unpack_nas_key_set_id_ie m p 4;
     (i, p) \<leftarrow> liblte_mme_unpack_eps_mobile_id_ie m (p + 1) (tau_eps_mobile_id r);
     Some (LIBLTE_SUCCESS, r\<lparr>tau_value := b AND 0x07, tau_activeFlag := drop_bit 3 (b AND 0x08),
       tau_nas_ksi := k, tau_eps_mobile_id := i\<rparr>) }"

section \<open>Reading a message\<close>

text \<open>The message holds the bytes \<open>bs\<close> from index \<open>p\<close>.\<close>

definition msg_has :: "simple_msg \<Rightarrow> nat \<Rightarrow> u8 list \<Rightarrow> bool" where
  "msg_has m p bs \<longleftrightarrow> bytes_at m p (length bs) = Some bs"

lemma msg_has_Nil [simp]: "msg_has m p []"
  by (simp add: msg_has_def)

lemma msg_has_Cons [simp]: "msg_has m p (b # bs) \<longleftrightarrow> byte_at m p = Some b \<and> msg_has m (Suc p) bs"
  by (auto simp: msg_has_def bind_Some_iff)

lemma msg_has_append: "msg_has m p (xs @ ys) \<longleftrightarrow> msg_has m p xs \<and> msg_has m (p + length xs) ys"
  by (induction xs arbitrary: p) auto

lemma msg_has_nth: "msg_has m p bs \<Longrightarrow> i < length bs \<Longrightarrow> byte_at m (p + i) = Some (bs ! i)"
proof (induction bs arbitrary: p i)
  case (Cons b bs)
  then show ?case by (cases i) fastforce+
qed simp

lemma byte_at_total [simp]: "p < LIBLTE_MAX_MSG_SIZE_BYTES \<Longrightarrow> byte_at m p = Some (sm_msg m p)"
  by (simp add: byte_at_def)

lemma byte_at_None: "byte_at m p = None \<longleftrightarrow> LIBLTE_MAX_MSG_SIZE_BYTES \<le> p"
  by (simp add: byte_at_def)

lemma bytes_at_total: "p + k \<le> LIBLTE_MAX_MSG_SIZE_BYTES \<Longrightarrow> \<exists>bs. bytes_at m p k = Some bs \<and> length bs = k"
proof (induction k arbitrary: p)
  case (Suc k)
  from Suc.IH [of "p + 1"] Suc.prems show ?case by auto
qed simp

lemma nas_body_total: "\<exists>p. nas_body m = Some p \<and> (p = 2 \<or> p = 8)"
  by (simp add: nas_body_def)

lemma unpack_eps_mobile_id_total:
  "p + 12 \<le> LIBLTE_MAX_MSG_SIZE_BYTES \<Longrightarrow>
    \<exists>i q. liblte_mme_unpack_eps_mobile_id_ie m p r = Some (i, q) \<and> q \<le> p + 12"
  using bytes_at_total [of "p + 2" 7 m]
  by (auto simp: liblte_mme_unpack_eps_mobile_id_ie_def Let_def)

lemma unpack_mobile_id_total:
  "p + 10 \<le> LIBLTE_MAX_MSG_SIZE_BYTES \<Longrightarrow> \<exists>e i. liblte_mme_unpack_mobile_id_ie m p r = Some (e, i)"
  using bytes_at_total [of "p + 2" 7 m]
  by (auto simp: liblte_mme_unpack_mobile_id_ie_def Let_def)

lemma nas_key_set_id_total:
  "p < LIBLTE_MAX_MSG_SIZE_BYTES \<Longrightarrow> \<exists>k. liblte_mme_unpack_nas_key_set_id_ie m p off = Some k"
  by (simp add: liblte_mme_unpack_nas_key_set_id_ie_def)

lemma nas_fixed_total:
  "liblte_mme_parse_msg_header m \<noteq> None \<and> liblte_mme_unpack_identity_response_msg m r1 \<noteq> None \<and>
   liblte_mme_unpack_detach_request_msg m r2 \<noteq> None \<and> liblte_mme_unpack_ext_service_request_msg m r3 \<noteq> None \<and>
   liblte_mme_unpack_tau_request_msg m r4 \<noteq> None"
proof -
  obtain p where p: "nas_body m = Some p" "p = 2 \<or> p = 8" using nas_body_total by blast
  then have le: "p < LIBLTE_MAX_MSG_SIZE_BYTES" "p + 10 \<le> LIBLTE_MAX_MSG_SIZE_BYTES" "p + 1 + 12 \<le> LIBLTE_MAX_MSG_SIZE_BYTES"
    by auto
  have "liblte_mme_unpack_identity_response_msg m r1 \<noteq> None"
    using p unpack_mobile_id_total [OF le(2), of m "ir_mobile_id r1"]
    by (auto simp: liblte_mme_unpack_identity_response_msg_def)
  moreover have "liblte_mme_parse_msg_header m \<noteq> None"
    by (simp add: liblte_mme_parse_msg_header_def Let_def)
  moreover have "liblte_mme_unpack_detach_request_msg m r2 \<noteq> None"
    using p le nas_key_set_id_total [OF le(1), of m 4] unpack_eps_mobile_id_total [OF le(3), of m "dr_eps_mobile_id r2"]
    by (auto simp: liblte_mme_unpack_detach_request_msg_def liblte_mme_unpack_detach_type_ie_def)
  moreover have "liblte_mme_unpack_ext_service_request_msg m r3 \<noteq> None"
    using p le nas_key_set_id_total [OF le(1), of m 4] unpack_eps_mobile_id_total [OF le(3), of m "es_eps_mobile_id r3"]
    by (auto simp: liblte_mme_unpack_ext_service_request_msg_def)
  moreover have "liblte_mme_unpack_tau_request_msg m r4 \<noteq> None"
    using p le nas_key_set_id_total [OF le(1), of m 4] unpack_eps_mobile_id_total [OF le(3), of m "tau_eps_mobile_id r4"]
    by (auto simp: liblte_mme_unpack_tau_request_msg_def)
  ultimately show ?thesis by blast
qed

text \<open>
  The parsers of the fixed-size messages (identity response, detach request, extended
  service request, tracking area update request) and the header parser never read outside the
  message array, whatever the message is.
\<close>

theorem nas_fixed_messages_in_bounds:
  "liblte_mme_parse_msg_header m \<noteq> None \<and> liblte_mme_unpack_identity_response_msg m r1 \<noteq> None \<and>
   liblte_mme_unpack_detach_request_msg m r2 \<noteq> None \<and> liblte_mme_unpack_ext_service_request_msg m r3 \<noteq> None \<and>
   liblte_mme_unpack_tau_request_msg m r4 \<noteq> None"
  by (rule nas_fixed_total)

lemma copy_bytes_None: "copy_bytes k i m p d = None \<longleftrightarrow> 0 < k \<and> LIBLTE_MAX_MSG_SIZE_BYTES < p + k"
proof (induction k arbitrary: i p d)
  case (Suc k)
  show ?case
  proof (cases "p < LIBLTE_MAX_MSG_SIZE_BYTES")
    case True
    then show ?thesis using Suc.IH by (simp only: copy_bytes.simps byte_at_total bind.simps) auto
  next
    case False
    then show ?thesis by (simp add: byte_at_def)
  qed
qed simp

text \<open>
  C33. The ESM message container compares its length only with the capacity of the array, not
  with what is left of it behind the container: with the container at index \<open>p\<close> the parser
  reads outside the array exactly when the (accepted) length exceeds the rest.
\<close>

theorem esm_container_overread_iff:
  assumes "byte_at m p = Some a" and "byte_at m (p + 1) = Some b"
  shows "liblte_mme_unpack_esm_message_container_ie m p r = None \<longleftrightarrow>
    unat (be16 a b) \<le> LIBLTE_MAX_MSG_SIZE_BYTES \<and> LIBLTE_MAX_MSG_SIZE_BYTES < p + 2 + unat (be16 a b)"
proof -
  have p: "p + 1 < LIBLTE_MAX_MSG_SIZE_BYTES" using assms by (auto simp: byte_at_def split: if_splits)
  show ?thesis
  proof (cases "unat (be16 a b) \<le> LIBLTE_MAX_MSG_SIZE_BYTES")
    case True
    show ?thesis
    proof (cases "copy_bytes (unat (be16 a b)) 0 m (p + 2) (sm_msg r)")
      case None
      then show ?thesis using assms True copy_bytes_None [of "unat (be16 a b)" 0 m "p + 2" "sm_msg r"]
        by (simp add: liblte_mme_unpack_esm_message_container_ie_def Let_def)
    next
      case (Some d)
      then have "\<not> (0 < unat (be16 a b) \<and> LIBLTE_MAX_MSG_SIZE_BYTES < p + 2 + unat (be16 a b))"
        using copy_bytes_None [of "unat (be16 a b)" 0 m "p + 2" "sm_msg r"] by simp
      with Some True assms p show ?thesis
        by (auto simp: liblte_mme_unpack_esm_message_container_ie_def Let_def)
    qed
  next
    case False
    then show ?thesis using assms by (simp add: liblte_mme_unpack_esm_message_container_ie_def Let_def)
  qed
qed

definition demo_msg :: "(nat \<times> u8) list \<Rightarrow> simple_msg" where
  "demo_msg kvs = \<lparr>N_bytes = 40, sm_msg = (\<lambda>i. case map_of kvs i of Some b \<Rightarrow> b | None \<Rightarrow> 0)\<rparr>"

theorem esm_container_overread_iff_witness:
  "liblte_mme_unpack_esm_message_container_ie (demo_msg [(18, 0x31), (19, 0xD4)]) 18 (demo_msg []) = None"
proof -
  have b: "byte_at (demo_msg [(18, 0x31), (19, 0xD4)]) 18 = Some 0x31"
    "byte_at (demo_msg [(18, 0x31), (19, 0xD4)]) (18 + 1) = Some 0xD4"
    by (simp_all add: byte_at_def demo_msg_def)
  have "unat (be16 0x31 0xD4) = 12756" by (simp add: be16_def push_bit_eq_mult)
  then show ?thesis unfolding esm_container_overread_iff [OF b] by simp
qed

section \<open>Digits\<close>

text \<open>Two decimal digits in a byte, and the identities as 3GPP 24.008 and 24.301 code them.\<close>

definition bcd :: "nat \<Rightarrow> nat \<Rightarrow> u8" where
  "bcd lo hi = of_nat (lo + 16 * hi)"

fun bcd_pairs :: "nat list \<Rightarrow> u8 list" where
  "bcd_pairs (x # y # ds) = bcd x y # bcd_pairs ds"
| "bcd_pairs [x] = [bcd x 15]"
| "bcd_pairs [] = []"

definition id_bytes :: "nat \<Rightarrow> nat list \<Rightarrow> u8 list" where
  "id_bytes ty ds = bcd (ty + 8 * (length ds mod 2)) (hd ds) # bcd_pairs (tl ds)"

lemma unat_and_mask: "unat (w AND mask n) = unat w mod 2 ^ n"
proof -
  have "w AND mask n = take_bit n w" by (simp only: take_bit_eq_mask)
  then show ?thesis by (simp only: unsigned_take_bit_eq) (simp only: take_bit_eq_mod)
qed

lemma unat_bcd: "lo < 16 \<Longrightarrow> hi < 16 \<Longrightarrow> unat (bcd lo hi) = lo + 16 * hi"
  unfolding bcd_def by (rule unat_of_nat_small) simp

lemma digit_word: "d < 256 \<Longrightarrow> w = (of_nat d :: u8) \<longleftrightarrow> unat w = d"
  by (auto simp: word_unat_eq_iff unat_of_nat_small)

lemma bcd_halves:
  assumes "lo < 16" "hi < 16"
  shows "bcd lo hi AND 0x0F = of_nat lo" "drop_bit 4 (bcd lo hi) = of_nat hi"
proof -
  have m: "(0x0F :: u8) = mask 4" by (simp add: mask_eq_exp_minus_1)
  have "unat (bcd lo hi AND 0x0F) = lo"
    unfolding m unat_and_mask unat_bcd [OF assms] using assms by simp
  then show "bcd lo hi AND 0x0F = of_nat lo" using assms by (subst digit_word) simp_all
  have "unat (drop_bit 4 (bcd lo hi)) = hi"
    unfolding unat_drop_bit_eq unat_bcd [OF assms] using assms by (simp add: drop_bit_eq_div)
  then show "drop_bit 4 (bcd lo hi) = of_nat hi" using assms by (subst digit_word) simp_all
qed

lemma bcd_nibbles:
  assumes "lo < 16" "hi < 16"
  shows "lo4 (bcd lo hi) = of_nat lo" "hi4 (bcd lo hi) = of_nat hi"
proof -
  have "bcd hi 0 AND 0x0F = of_nat hi" using assms by (intro bcd_halves) simp_all
  then have "(of_nat hi :: u8) AND 0x0F = of_nat hi" by (simp only: bcd_def mult_0_right add_0_right)
  then show "lo4 (bcd lo hi) = of_nat lo" "hi4 (bcd lo hi) = of_nat hi"
    by (simp_all only: lo4_def hi4_def bcd_halves [OF assms])
qed

lemma bcd_type:
  assumes "ty < 8" "b < 2" "d < 16"
  shows "bcd (ty + 8 * b) d AND 0x07 = of_nat ty"
proof -
  have m: "(0x07 :: u8) = mask 3" by (simp add: mask_eq_exp_minus_1)
  have lo: "ty + 8 * b < 16" using assms by simp
  have "(ty + 8 * (b + 2 * d)) mod 8 = ty" using assms by (simp only: mod_mult_self2 mod_less)
  then have "(ty + 8 * b + 16 * d) mod 2 ^ 3 = ty" by (simp add: algebra_simps)
  then have "unat (bcd (ty + 8 * b) d AND 0x07) = ty"
    by (simp only: m unat_and_mask unat_bcd [OF lo assms(3)])
  then show ?thesis using assms by (subst digit_word) simp_all
qed

lemma id_digits_pairs:
  assumes "\<forall>d\<in>set ds. d < 16" "even (length ds)"
  shows "concat (map (\<lambda>x. [x AND 0x0F, drop_bit 4 x]) (bcd_pairs ds)) = map of_nat ds"
  using assms by (induction ds rule: bcd_pairs.induct) (simp_all add: bcd_halves)

lemma length_bcd_pairs: "length (bcd_pairs ds) = (length ds + 1) div 2"
  by (induction ds rule: bcd_pairs.induct) simp_all

lemma bcd_pairs_snoc: "even (length ds) \<Longrightarrow> bcd_pairs (ds @ [x]) = bcd_pairs ds @ [bcd x 15]"
  by (induction ds rule: bcd_pairs.induct) simp_all

lemma id_digits_bytes:
  assumes "\<forall>d\<in>set ds. d < 16" "odd (length ds)" "ty < 8"
  shows "id_digits (hd (id_bytes ty ds)) (tl (id_bytes ty ds)) = map of_nat ds"
proof -
  obtain d ds' where ds: "ds = d # ds'" using assms(2) by (cases ds) auto
  have "drop_bit 4 (bcd (ty + 8) d) = of_nat d"
    using assms ds bcd_halves(2) [of "ty + 8" d] by simp
  then show ?thesis
    using assms ds id_digits_pairs [of ds'] by (simp add: id_bytes_def id_digits_def mod_2_eq_odd)
qed

lemma byte_tail:
  assumes "msg_has m p (b # bs)"
  shows "byte_at m p = Some b" "bytes_at m (p + 1) (length bs) = Some bs"
  using assms by (simp_all add: msg_has_def bind_Some_iff)

lemma id_response_digits:
  assumes p: "nas_body m = Some p" and has: "msg_has m (p + 1) (id_bytes ty ds)"
    and ty: "ty = 1 \<or> ty = 2 \<or> ty = 3" and len: "length ds = (if ty = 3 then 16 else 15)"
    and dig: "\<forall>d\<in>set ds. d < 10"
  shows "liblte_mme_unpack_identity_response_msg m r = Some (LIBLTE_SUCCESS, r\<lparr>ir_mobile_id :=
    (if ty = 1 then (ir_mobile_id r)\<lparr>mi_type_of_id := 1, mi_imsi := map of_nat ds\<rparr>
     else if ty = 2 then (ir_mobile_id r)\<lparr>mi_type_of_id := 2, mi_imei := map of_nat ds\<rparr>
     else (ir_mobile_id r)\<lparr>mi_type_of_id := 3, mi_imeisv := map of_nat ds\<rparr>)\<rparr>)"
proof -
  obtain d ds' where ds: "ds = d # ds'" using len by (cases ds) (auto split: if_splits)
  have t8: "ty < 8" using ty by auto
  have d16: "\<forall>d\<in>set ds. d < 16" and d: "d < 16" using dig ds by force+
  have t: "hd (id_bytes ty ds) AND 0x07 = of_nat ty"
    unfolding id_bytes_def list.sel using ty d ds by (intro bcd_type) auto
  show ?thesis
  proof (cases "ty = 3")
    case True
    then have l: "length ds' = 15" using len ds by simp
    then obtain es e where es: "ds' = es @ [e]" "length es = 14" by (cases ds' rule: rev_cases) auto
    have e: "e < 16" using d16 ds es by simp
    let ?bs = "bcd_pairs es"
    have lb: "length ?bs = 7" using es by (simp add: length_bcd_pairs)
    have b: "id_bytes ty ds = hd (id_bytes ty ds) # ?bs @ [bcd e 15]"
      using ds es by (simp add: id_bytes_def bcd_pairs_snoc)
    have "msg_has m (p + 1) (hd (id_bytes ty ds) # ?bs @ [bcd e 15])" using has b by simp
    then have r: "byte_at m (p + 1) = Some (hd (id_bytes ty ds))" "bytes_at m (p + 2) 7 = Some ?bs"
      "byte_at m (p + 9) = Some (bcd e 15)"
      using lb by (simp_all add: msg_has_append) (simp_all add: msg_has_def add.commute)
    have g: "id_digits (hd (id_bytes ty ds)) ?bs = map of_nat (d # es)"
    proof -
      have "drop_bit 4 (hd (id_bytes ty ds)) = of_nat d"
        unfolding id_bytes_def list.sel using True d ds by (simp add: l bcd_halves)
      then show ?thesis using d16 ds es id_digits_pairs [of es] by (simp add: id_digits_def)
    qed
    have eq: "map of_nat ds = id_digits (hd (id_bytes ty ds)) ?bs @ [bcd e 15 AND 0x0F]"
      unfolding g using ds es e by (simp add: bcd_halves)
    show ?thesis unfolding eq
      using p r t True by (simp add: liblte_mme_unpack_identity_response_msg_def
          liblte_mme_unpack_mobile_id_ie_def Let_def)
  next
    case False
    then have l: "length ds' = 14" using len ds by simp
    let ?bs = "bcd_pairs ds'"
    have lb: "length ?bs = 7" using l by (simp add: length_bcd_pairs)
    have b: "id_bytes ty ds = hd (id_bytes ty ds) # ?bs" using ds by (simp add: id_bytes_def)
    have "msg_has m (p + 1) (hd (id_bytes ty ds) # ?bs)" using has b by simp
    from byte_tail [OF this] have r: "byte_at m (p + 1) = Some (hd (id_bytes ty ds))"
      "bytes_at m (p + 2) 7 = Some ?bs" using lb by simp_all
    have "tl (id_bytes ty ds) = ?bs" using ds by (simp add: id_bytes_def)
    then have g: "id_digits (hd (id_bytes ty ds)) ?bs = map of_nat ds"
      using id_digits_bytes [OF d16, of ty] l ds t8 by simp
    show ?thesis
      using p r t ty False by (auto simp: liblte_mme_unpack_identity_response_msg_def
          liblte_mme_unpack_mobile_id_ie_def Let_def g)
  qed
qed

text \<open>
  C34. An identity response carries the digits of the UE: for an IMSI or IMEI of 15 digits and
  an IMEISV of 16 digits, coded as the standard has them, plain or behind a security header,
  the parser delivers exactly the digits, in order.
\<close>

theorem identity_response_digits:
  assumes p: "nas_body m = Some p" and has: "msg_has m (p + 1) (id_bytes ty ds)"
    and ty: "ty = 1 \<or> ty = 2 \<or> ty = 3" and len: "length ds = (if ty = 3 then 16 else 15)"
    and dig: "\<forall>d\<in>set ds. d < 10"
  shows "liblte_mme_unpack_identity_response_msg m r = Some (LIBLTE_SUCCESS, r\<lparr>ir_mobile_id :=
    (if ty = 1 then (ir_mobile_id r)\<lparr>mi_type_of_id := 1, mi_imsi := map of_nat ds\<rparr>
     else if ty = 2 then (ir_mobile_id r)\<lparr>mi_type_of_id := 2, mi_imei := map of_nat ds\<rparr>
     else (ir_mobile_id r)\<lparr>mi_type_of_id := 3, mi_imeisv := map of_nat ds\<rparr>)\<rparr>)"
  by (rule id_response_digits [OF p has ty len dig])

definition demo_identity :: simple_msg where
  "demo_identity = demo_msg [(0, 0x07), (1, 0x56), (2, 8), (3, 0x49), (4, 0x06), (5, 0x10), (6, 0x32), (7, 0x54),
     (8, 0x76), (9, 0x98), (10, 0x10)]"

definition demo_id_response :: id_response where
  "demo_id_response = \<lparr>ir_mobile_id = \<lparr>mi_type_of_id = 0, mi_imsi = [], mi_imei = [], mi_imeisv = []\<rparr>\<rparr>"

lemma demo_identity_has:
  "nas_body demo_identity = Some 2"
  "msg_has demo_identity (2 + 1) (id_bytes 1 [4, 6, 0, 0, 1, 2, 3, 4, 5, 6, 7, 8, 9, 0, 1])"
  by (simp_all add: nas_body_def demo_identity_def demo_msg_def hi4_def byte_at_def id_bytes_def bcd_def)

theorem identity_response_digits_witness:
  "liblte_mme_unpack_identity_response_msg demo_identity demo_id_response = Some (LIBLTE_SUCCESS,
    \<lparr>ir_mobile_id = \<lparr>mi_type_of_id = 1, mi_imsi = [4, 6, 0, 0, 1, 2, 3, 4, 5, 6, 7, 8, 9, 0, 1],
      mi_imei = [], mi_imeisv = []\<rparr>\<rparr>)"
  using identity_response_digits [OF demo_identity_has, of demo_id_response]
  by (simp add: demo_id_response_def)

section \<open>Temporary identities\<close>

text \<open>
  The GUTI of 3GPP 24.301: the digits of the PLMN (the third digit of the network code is the
  filler 15 when there are two), the group, the code and the M-TMSI.
\<close>

definition plmn_bytes :: "nat \<times> nat \<times> nat \<Rightarrow> nat \<times> nat \<times> nat option \<Rightarrow> u8 list" where
  "plmn_bytes mcc mnc = (case (mcc, mnc) of ((c1, c2, c3), (n1, n2, n3)) \<Rightarrow>
     [bcd c1 c2, bcd c3 (case n3 of Some n \<Rightarrow> n | None \<Rightarrow> 15), bcd n1 n2])"

definition digit_code :: "nat \<times> nat \<times> nat \<Rightarrow> nat" where
  "digit_code c = (case c of (c1, c2, c3) \<Rightarrow> 100 * c1 + 10 * c2 + c3)"

definition network_code :: "nat \<times> nat \<times> nat option \<Rightarrow> nat" where
  "network_code n = (case n of (n1, n2, Some n3) \<Rightarrow> 100 * n1 + 10 * n2 + n3 | (n1, n2, None) \<Rightarrow> 10 * n1 + n2)"

definition valid_plmn :: "nat \<times> nat \<times> nat \<Rightarrow> nat \<times> nat \<times> nat option \<Rightarrow> bool" where
  "valid_plmn mcc mnc = (case (mcc, mnc) of ((c1, c2, c3), (n1, n2, n3)) \<Rightarrow>
     c1 < 10 \<and> c2 < 10 \<and> c3 < 10 \<and> n1 < 10 \<and> n2 < 10 \<and> (case n3 of Some n \<Rightarrow> n < 10 | None \<Rightarrow> True))"

definition guti_bytes :: "nat \<times> nat \<times> nat \<Rightarrow> nat \<times> nat \<times> nat option \<Rightarrow> u16 \<Rightarrow> u8 \<Rightarrow> u32 \<Rightarrow> u8 list" where
  "guti_bytes mcc mnc grp code tmsi = [11, 0xF6] @ plmn_bytes mcc mnc @
     [ucast (drop_bit 8 grp), ucast grp, code,
      ucast (drop_bit 24 tmsi), ucast (drop_bit 16 tmsi), ucast (drop_bit 8 tmsi), ucast tmsi]"

lemma be16_split: "be16 (ucast (drop_bit 8 w)) (ucast w) = w"
  by (rule bit_word_eqI) (auto simp: be16_def bit_simps)

lemma be32_split:
  "be32 (ucast (drop_bit 24 w)) (ucast (drop_bit 16 w)) (ucast (drop_bit 8 w)) (ucast w) = w"
proof (rule bit_word_eqI)
  fix n assume "n < LENGTH(32)"
  then show "bit (be32 (ucast (drop_bit 24 w)) (ucast (drop_bit 16 w)) (ucast (drop_bit 8 w)) (ucast w)) n = bit w n"
    by (cases "n < 16"; cases "n < 24") (auto simp: be32_def bit_simps)
qed

lemma ucast_digit: "d < 256 \<Longrightarrow> ucast (of_nat d :: u8) = (of_nat d :: u16)"
  by (simp add: unsigned_of_nat take_bit_nat_eq_self)

lemma digit_not_filler: "d < 10 \<Longrightarrow> (of_nat d :: u8) \<noteq> 15"
  using of_nat_word_inj [of d 15, where 'a = 8] by simp

lemma plmn_decoded:
  assumes "valid_plmn mcc mnc" "plmn_bytes mcc mnc = [a, b, c]"
  shows "plmn_mcc a b = of_nat (digit_code mcc)" "plmn_mnc b c = of_nat (network_code mnc)"
  using assms
  by (auto simp: valid_plmn_def plmn_bytes_def plmn_mcc_def plmn_mnc_def digit_code_def network_code_def
      bcd_nibbles ucast_digit digit_not_filler split: option.splits)

lemma eps_mobile_id_guti:
  assumes has: "msg_has m p (guti_bytes mcc mnc grp code tmsi)" and v: "valid_plmn mcc mnc"
  shows "liblte_mme_unpack_eps_mobile_id_ie m p r = Some (r\<lparr>em_type_of_id := 6, em_guti :=
    \<lparr>gu_m_tmsi = tmsi, gu_mcc = of_nat (digit_code mcc), gu_mnc = of_nat (network_code mnc),
     gu_mme_group_id = grp, gu_mme_code = code\<rparr>\<rparr>, p + 12)"
proof -
  obtain a b c where abc: "plmn_bytes mcc mnc = [a, b, c]"
    by (cases mcc; cases mnc) (simp add: plmn_bytes_def)
  note n = msg_has_nth [OF has]
  have r: "byte_at m p = Some 11" "byte_at m (Suc p) = Some 0xF6" "byte_at m (Suc (Suc p)) = Some a"
    "byte_at m (p + 3) = Some b" "byte_at m (p + 4) = Some c"
    "byte_at m (p + 5) = Some (ucast (drop_bit 8 grp))" "byte_at m (p + 6) = Some (ucast grp)"
    "byte_at m (p + 7) = Some code" "byte_at m (p + 8) = Some (ucast (drop_bit 24 tmsi))"
    "byte_at m (p + 9) = Some (ucast (drop_bit 16 tmsi))" "byte_at m (p + 10) = Some (ucast (drop_bit 8 tmsi))"
    "byte_at m (p + 11) = Some (ucast tmsi)"
    using n [of 0] n [of 1] n [of 2] n [of 3] n [of 4] n [of 5] n [of 6] n [of 7] n [of 8] n [of 9] n [of 10] n [of 11]
    by (simp_all add: guti_bytes_def abc)
  show ?thesis
    by (simp add: liblte_mme_unpack_eps_mobile_id_ie_def r Let_def be32_split be16_split
        plmn_decoded [OF v abc])
qed

text \<open>
  C35. The requests a registered UE sends (detach, extended service, tracking area update) are
  decoded with exactly the GUTI they carry, its PLMN digits, MME and M-TMSI, whether they are
  plain or behind a security header; the two type fields and the key set are the halves of
  the byte before it.
\<close>

theorem nas_guti_decoded:
  assumes p: "nas_body m = Some p" and b: "byte_at m p = Some b"
    and has: "msg_has m (p + 1) (guti_bytes mcc mnc grp code tmsi)" and v: "valid_plmn mcc mnc"
  defines "guti \<equiv> \<lparr>gu_m_tmsi = tmsi, gu_mcc = of_nat (digit_code mcc), gu_mnc = of_nat (network_code mnc),
    gu_mme_group_id = grp, gu_mme_code = code\<rparr>"
  shows "liblte_mme_unpack_detach_request_msg m r1 = Some (LIBLTE_SUCCESS, r1\<lparr>
      dr_detach_type := \<lparr>dt_switch_off = bit1 3 b, dt_type_of_detach = b AND 7\<rparr>,
      dr_nas_ksi := \<lparr>tsc_flag = bit1 7 b, ksi_value = drop_bit 4 b AND 7\<rparr>,
      dr_eps_mobile_id := (dr_eps_mobile_id r1)\<lparr>em_type_of_id := 6, em_guti := guti\<rparr>\<rparr>) \<and>
    liblte_mme_unpack_ext_service_request_msg m r2 = Some (LIBLTE_SUCCESS, r2\<lparr>
      es_service_type := b AND 15, es_nas_ksi := \<lparr>tsc_flag = bit1 7 b, ksi_value = drop_bit 4 b AND 7\<rparr>,
      es_eps_mobile_id := (es_eps_mobile_id r2)\<lparr>em_type_of_id := 6, em_guti := guti\<rparr>\<rparr>) \<and>
    liblte_mme_unpack_tau_request_msg m r3 = Some (LIBLTE_SUCCESS, r3\<lparr>
      tau_value := b AND 7, tau_activeFlag := bit1 3 b,
      tau_nas_ksi := \<lparr>tsc_flag = bit1 7 b, ksi_value = drop_bit 4 b AND 7\<rparr>,
      tau_eps_mobile_id := (tau_eps_mobile_id r3)\<lparr>em_type_of_id := 6, em_guti := guti\<rparr>\<rparr>)"
proof -
  have has': "msg_has m (Suc p) (guti_bytes mcc mnc grp code tmsi)" using has by simp
  have "drop_bit 3 (b AND 8) = bit1 3 b"
  proof -
    have "(8 :: u8) = push_bit 3 1" by (simp add: push_bit_eq_mult)
    then have "drop_bit 3 (b AND 8) = drop_bit 3 b AND drop_bit 3 (push_bit 3 1)" by (simp only: drop_bit_and)
    then show ?thesis by (simp add: bit1_def push_bit_eq_mult)
  qed
  then show ?thesis
    by (simp add: p b liblte_mme_unpack_detach_request_msg_def liblte_mme_unpack_ext_service_request_msg_def
        liblte_mme_unpack_tau_request_msg_def liblte_mme_unpack_nas_key_set_id_ie_def
        liblte_mme_unpack_detach_type_ie_def eps_mobile_id_guti [OF has' v] guti_def)
qed

definition demo_guti_msg :: simple_msg where
  "demo_guti_msg = demo_msg [(0, 0x17), (6, 0x07), (7, 0x45), (8, 0xA9), (9, 11), (10, 0xF6), (11, 0x64),
     (12, 0xF0), (13, 0x10), (14, 0x01), (15, 0x02), (16, 0x2A), (17, 0xC0), (18, 0xDE), (19, 0x00), (20, 0x07)]"

definition demo_detach :: detach_request where
  "demo_detach = \<lparr>dr_detach_type = \<lparr>dt_switch_off = 0, dt_type_of_detach = 0\<rparr>,
     dr_nas_ksi = \<lparr>tsc_flag = 0, ksi_value = 0\<rparr>,
     dr_eps_mobile_id = \<lparr>em_guti = \<lparr>gu_m_tmsi = 0, gu_mcc = 0, gu_mnc = 0, gu_mme_group_id = 0, gu_mme_code = 0\<rparr>,
       em_type_of_id = 0, em_imsi = [], em_imei = [], em_m_tmsi = 0\<rparr>\<rparr>"

lemma demo_guti_has:
  "nas_body demo_guti_msg = Some 8" "byte_at demo_guti_msg 8 = Some 0xA9"
  "msg_has demo_guti_msg (8 + 1) (guti_bytes (4, 6, 0) (0, 1, None) 0x0102 0x2A 0xC0DE0007)"
  "valid_plmn (4, 6, 0) (0, 1, None)"
  by (simp_all add: nas_body_def demo_guti_msg_def demo_msg_def hi4_def byte_at_def guti_bytes_def
      plmn_bytes_def bcd_def valid_plmn_def)

theorem nas_guti_decoded_witness:
  "\<exists>r. liblte_mme_unpack_detach_request_msg demo_guti_msg demo_detach = Some (LIBLTE_SUCCESS, r) \<and>
     dr_detach_type r = \<lparr>dt_switch_off = 1, dt_type_of_detach = 1\<rparr> \<and>
     dr_nas_ksi r = \<lparr>tsc_flag = 1, ksi_value = 2\<rparr> \<and>
     em_guti (dr_eps_mobile_id r) = \<lparr>gu_m_tmsi = 0xC0DE0007, gu_mcc = 460, gu_mnc = 1,
       gu_mme_group_id = 0x0102, gu_mme_code = 0x2A\<rparr>"
  using nas_guti_decoded [OF demo_guti_has, of demo_detach]
  by (simp add: digit_code_def network_code_def bit1_def)

end
