(* ===== verification/Ulp_State.thy ===== *)
theory Ulp_State
  imports Mempool Asn1_Rrc Sync_Event
begin

text \<open>
  The state the layers share: the memory pools, the typed objects that live in their blocks,
  the lists of contexts, the counters (\<open>ulp/src/lteKpi.c\<close>) and the clock
  (\<open>ulp/src/lteCommon.c\<close>).  An object is a record kept at the address of its block; reading
  an address that holds no object of the expected type (a null, dangling or foreign pointer)
  is \<open>None\<close>.  Lists of objects are sequences of addresses, as the list component shows.
\<close>

section \<open>Counters\<close>

record LteKpi =
  k_imsi :: u32
  k_mTmsi :: u32
  k_idResp :: u32
  k_rrcConnReq :: u32
  k_rrcSetupCompl :: u32
  k_attachReq :: u32
  k_tauReq :: u32
  k_servReq :: u32
  k_extServReq :: u32
  k_detachReq :: u32
  k_lcIdArray :: "nat \<Rightarrow> u32"
  k_activeRlcCtx :: u32
  k_activeRrcCtx :: u32
  k_semLock :: u32
  k_mem :: u32
  k_crcCorrect :: u32
  k_crcError :: u32
  k_heartbeatResp :: u32
  k_rrcSetupComplRbNum :: "nat \<Rightarrow> u32"
  k_idRespRbNum :: "nat \<Rightarrow> u32"

text \<open>
  \<open>KpiInit\<close> clears all counters (its other task, opening the report files, is not
  modelled).
\<close>

definition KpiInit :: "LteKpi \<Rightarrow> LteKpi" where
  "KpiInit k = \<lparr>k_imsi = 0, k_mTmsi = 0, k_idResp = 0, k_rrcConnReq = 0, k_rrcSetupCompl = 0,
     k_attachReq = 0, k_tauReq = 0, k_servReq = 0, k_extServReq = 0, k_detachReq = 0,
     k_lcIdArray = (\<lambda>_. 0), k_activeRlcCtx = 0, k_activeRrcCtx = 0, k_semLock = 0, k_mem = 0,
     k_crcCorrect = 0, k_crcError = 0, k_heartbeatResp = 0, k_rrcSetupComplRbNum = (\<lambda>_. 0),
     k_idRespRbNum = (\<lambda>_. 0)\<rparr>"

text \<open>
  The answer: the static counter of \<open>NotifyKpi\<close> and whether the report thread is woken.
\<close>

definition NotifyKpi :: "int \<Rightarrow> int \<Rightarrow> int \<times> bool" where
  "NotifyKpi period count = (if count + 1 = period then (0, True) else (count + 1, False))"

section \<open>Clock\<close>

record SystemTime =
  st_year :: u16
  st_month :: u16
  st_day :: u16
  st_hour :: u16
  st_minute :: u16
  st_second :: u16
  st_millisecond :: u16

record SystemSfnSf =
  ss_sfn :: u16
  ss_sf :: u8

text \<open>
  The values \<open>r1\<close> and \<open>r2\<close> of the two hardware registers are inputs.
\<close>

definition UpdateSystemTime :: "u32 \<Rightarrow> u32 \<Rightarrow> SystemTime \<times> SystemSfnSf \<Rightarrow> SystemTime \<times> SystemSfnSf" where
  "UpdateSystemTime r1 r2 = (\<lambda>(t, s).
     let s = s\<lparr>ss_sfn := ucast (r1 AND 0x3FF)\<rparr>;
         s = s\<lparr>ss_sf := drop_bit 1 (ucast (drop_bit 19 r2 AND 0xFF))\<rparr>;
         t = t\<lparr>st_millisecond := st_millisecond t + 1\<rparr>;
         t = (if st_millisecond t \<ge> 1000 then t\<lparr>st_millisecond := 0, st_second := st_second t + 1\<rparr> else t);
         t = (if st_second t \<ge> 60 then t\<lparr>st_second := 0, st_minute := st_minute t + 1\<rparr> else t);
         t = (if st_minute t \<ge> 60 then t\<lparr>st_minute := 0, st_hour := st_hour t + 1\<rparr> else t);
         t = (if st_hour t \<ge> 24 then t\<lparr>st_hour := 0, st_day := st_day t + 1\<rparr> else t);
         t = (if st_day t \<ge> 30 then t\<lparr>st_day := 0, st_month := st_month t + 1\<rparr> else t)
     in (t, s))"

definition UpdateSfnSf :: "u16 \<Rightarrow> u8 \<Rightarrow> SystemSfnSf \<Rightarrow> SystemSfnSf" where
  "UpdateSfnSf sfn sf s = s\<lparr>ss_sfn := sfn, ss_sf := sf\<rparr>"

definition GetSfnAndSf :: "SystemSfnSf \<Rightarrow> u16 \<times> u8" where
  "GetSfnAndSf s = (ss_sfn s, ss_sf s)"

section \<open>Objects\<close>

text \<open>Power, timing advance and resource blocks of the uplink grants an SDU arrived in.\<close>

record UlReportInfo =
  ur_rbNum :: u8
  ur_ta :: u16
  ur_prbPower :: u32

abbreviation (input) MAX_RLC_SEGMENTS_NUM :: nat where "MAX_RLC_SEGMENTS_NUM \<equiv> 10"

record UlReportInfoList =
  ur_count :: u8
  ur_info :: "nat \<Rightarrow> UlReportInfo"

record UeIdentity =
  ui_rnti :: u16
  ui_imsiPresent :: u8
  ui_mTmsiPresent :: u8
  ui_msgType :: u8
  ui_mTmsi :: u32
  ui_imsi :: "u8 list"

record MacUeContext =
  mc_idleCount :: u32
  mc_rnti :: u16
  mc_rbNum :: u8
  mc_deleteFlag :: u8
  mc_prbPower :: u32
  mc_ta :: u16

record RrcUeContext =
  rr_idleCount :: u16
  rr_rnti :: u16
  rr_rrcSetupComplRecvdFlag :: u8
  rr_deleteFlag :: u8
  rr_ueIdentity :: UeIdentity

text \<open>The receiver of an RLC bearer: the ring of PDUs by sequence number and the partial SDU.\<close>

datatype RingNodeStatus = RS_FREE | RS_IN_USE | RS_READY
datatype RlcAmPduStatus = PDU_AM_COMPLETE | PDU_AM_SEGMENT | PDU_AM_SEGMENT_COMPLETE
datatype RlcSduStatus = AM_PDU_MAP_SDU_FULL | AM_PDU_MAP_SDU_START | AM_PDU_MAP_SDU_END | AM_PDU_MAP_SDU_MID

record RingNode =
  rn_status :: RingNodeStatus
  rn_data :: ptr

record RlcAmBuffer =
  rb_size :: u32
  rb_pData :: ptr

record RlcAmRawSdu =
  rs_sn :: u16
  rs_rawSdu :: RlcAmBuffer

record RxAMEntity =
  am_rnti :: u16
  am_lcId :: u8
  am_ring :: "nat \<Rightarrow> RingNode"
  am_ulRptInfoList :: UlReportInfoList
  am_rxRawSdu :: RlcAmRawSdu

record AmdDFE =
  df_status :: RlcSduStatus
  df_buffer :: RlcAmBuffer

record AmdPduSegment =
  sg_soStart :: u32
  sg_soEnd :: u32
  sg_dfeQ :: "ptr list"
  sg_lsf :: u8

record AmdPdu =
  pd_status :: RlcAmPduStatus
  pd_segList :: "ptr list"

record RlcUeContext =
  rl_idleCount :: u32
  rl_deleteFlag :: u8
  rl_rnti :: u16
  rl_rxAMEntityArray :: "nat \<Rightarrow> ptr"

text \<open>What the MAC hands to the RLC, and a received PHY message waiting for the worker.\<close>

record RlcUlDataInfo =
  rd_buffer :: ptr
  rd_length :: u32
  rd_lcId :: u8

record RlcUlData =
  rd_array :: "nat \<Rightarrow> RlcUlDataInfo"
  rd_numLCInfo :: u8

record MacUeDataInd_t =
  mi_rnti :: u16
  mi_rlcData :: ptr

record PhyDataIndNode =
  ph_length :: u32
  ph_pBuffer :: ptr

datatype obj = MacObj MacUeContext | RrcObj RrcUeContext | RlcObj RlcUeContext | AmObj RxAMEntity
  | PduObj AmdPdu | SegObj AmdPduSegment | DfeObj AmdDFE | IndObj MacUeDataInd_t | DataObj RlcUlData
  | PhyObj PhyDataIndNode

text \<open>
  What leaves the layers, in order: the integration points of \<open>lteIntegrationPoint.h\<close>
  (constantly true in this build; the unit tests hook them) and the datagrams to the OAM side.
\<close>

datatype ip_event =
    Ip_Mac_Ccch u16 "u8 list"
  | Ip_Mac_Data u16
  | Ip_Rlc_Data u16 u8 "u8 list" UlReportInfoList
  | Ip_Pdcp_Srb u16 u16 "u8 list"
  | Ip_Rrc_Data RrcUeContext
  | Ip_Rrc_Result u16 u8 u8
  | Oam_Identities u16 "UeIdentity list"
  | Oam_Heartbeat_Resp
  | Test_Heartbeat_Resp

section \<open>The state\<close>

text \<open>
  \<open>us_junk k\<close> is what the \<open>k\<close>-th block that the program allocates and reads
  before writing all of it happens to hold; it is arbitrary, and \<open>us_tick\<close> counts these
  allocations.
\<close>

record ulp_state =
  us_mem :: mempool
  us_heap :: "ptr \<Rightarrow> obj option"
  us_kpi :: LteKpi
  us_bits :: bitbuf
  gMacUeContext :: "ptr list"
  gRlcUeContextList :: "ptr list"
  gRrcUeContextList :: "ptr list"
  gReadyRrcUeContextList :: "ptr list"
  gRecvdPhyDataList :: "ptr list"
  us_junk :: "nat \<Rightarrow> nat \<Rightarrow> u8"
  us_tick :: nat
  us_trace :: "ip_event list"

definition us_alloc :: "ulp_state \<Rightarrow> u32 \<Rightarrow> (ptr \<times> ulp_state) option" where
  "us_alloc s len = do { (p, m) \<leftarrow> MemAlloc (us_mem s) len; Some (p, s\<lparr>us_mem := m\<rparr>) }"

definition us_free :: "ulp_state \<Rightarrow> ptr \<Rightarrow> ulp_state option" where
  "us_free s p = do { m \<leftarrow> MemFree (us_mem s) p; Some (s\<lparr>us_mem := m, us_heap := (us_heap s)(p := None)\<rparr>) }"

text \<open>
  The bytes of a buffer are cut or two buffers are joined.  Whatever object was kept at such an
  address is overwritten.
\<close>

definition us_remove :: "ulp_state \<Rightarrow> ptr \<Rightarrow> u32 \<Rightarrow> u32 \<Rightarrow> ulp_state option" where
  "us_remove s p wh count = do {
     (n, m) \<leftarrow> MemRemove (us_mem s) p wh count;
     Some (s\<lparr>us_mem := m, us_heap := (us_heap s)(p := None)\<rparr>) }"

definition us_join :: "ulp_state \<Rightarrow> ptr \<Rightarrow> ptr \<Rightarrow> (ptr \<times> ulp_state) option" where
  "us_join s p q = do {
     (r, m) \<leftarrow> MemJoin (us_mem s) p q;
     Some (r, s\<lparr>us_mem := m, us_heap := (us_heap s)(p := None, q := None)\<rparr>) }"

definition put_obj :: "ptr \<Rightarrow> obj \<Rightarrow> ulp_state \<Rightarrow> ulp_state" where
  "put_obj p x s = s\<lparr>us_heap := (us_heap s)(p \<mapsto> x)\<rparr>"

text \<open>Allocation of an object: the null pointer when there is no memory.\<close>

definition new_obj :: "ulp_state \<Rightarrow> u32 \<Rightarrow> obj \<Rightarrow> (ptr \<times> ulp_state) option" where
  "new_obj s len x = do {
     (p, s) \<leftarrow> us_alloc s len;
     Some (p, if p = NULL then s else put_obj p x s) }"

definition get_obj :: "(obj \<Rightarrow> 'a option) \<Rightarrow> ulp_state \<Rightarrow> ptr \<Rightarrow> 'a option" where
  "get_obj f s p = Option.bind (us_heap s p) f"

definition the_mac :: "obj \<Rightarrow> MacUeContext option" where
  "the_mac x = (case x of MacObj c \<Rightarrow> Some c | _ \<Rightarrow> None)"
definition the_rrc :: "obj \<Rightarrow> RrcUeContext option" where
  "the_rrc x = (case x of RrcObj c \<Rightarrow> Some c | _ \<Rightarrow> None)"
definition the_rlc :: "obj \<Rightarrow> RlcUeContext option" where
  "the_rlc x = (case x of RlcObj c \<Rightarrow> Some c | _ \<Rightarrow> None)"
definition the_am :: "obj \<Rightarrow> RxAMEntity option" where
  "the_am x = (case x of AmObj c \<Rightarrow> Some c | _ \<Rightarrow> None)"
definition the_pdu :: "obj \<Rightarrow> AmdPdu option" where
  "the_pdu x = (case x of PduObj c \<Rightarrow> Some c | _ \<Rightarrow> None)"
definition the_seg :: "obj \<Rightarrow> AmdPduSegment option" where
  "the_seg x = (case x of SegObj c \<Rightarrow> Some c | _ \<Rightarrow> None)"
definition the_dfe :: "obj \<Rightarrow> AmdDFE option" where
  "the_dfe x = (case x of DfeObj c \<Rightarrow> Some c | _ \<Rightarrow> None)"

definition the_ind :: "obj \<Rightarrow> MacUeDataInd_t option" where
  "the_ind x = (case x of IndObj c \<Rightarrow> Some c | _ \<Rightarrow> None)"
definition the_data :: "obj \<Rightarrow> RlcUlData option" where
  "the_data x = (case x of DataObj c \<Rightarrow> Some c | _ \<Rightarrow> None)"
definition the_phy :: "obj \<Rightarrow> PhyDataIndNode option" where
  "the_phy x = (case x of PhyObj c \<Rightarrow> Some c | _ \<Rightarrow> None)"

definition kpi :: "(LteKpi \<Rightarrow> LteKpi) \<Rightarrow> ulp_state \<Rightarrow> ulp_state" where
  "kpi f s = s\<lparr>us_kpi := f (us_kpi s)\<rparr>"

definition emit :: "ip_event \<Rightarrow> ulp_state \<Rightarrow> ulp_state" where
  "emit e s = s\<lparr>us_trace := us_trace s @ [e]\<rparr>"

text \<open>A lock of an object is created or destroyed: only its count shows in the state.\<close>

definition count_sem :: "bool \<Rightarrow> ulp_state \<Rightarrow> ulp_state" where
  "count_sem create = kpi (\<lambda>k. k\<lparr>k_semLock := KpiCountSem create (k_semLock k)\<rparr>)"

text \<open>A byte of a block the program owns.\<close>

definition mem_byte :: "mempool \<Rightarrow> ptr \<Rightarrow> nat \<Rightarrow> u8 option" where
  "mem_byte m p i = (case mp_nodes m p of
       Some n \<Rightarrow> if mn_isInUsed n \<noteq> 0 then blk_read m p i else None
     | None \<Rightarrow> None)"

text \<open>A null-terminated iteration over a list: the answer of \<open>ListGetNextNode\<close>.\<close>

fun list_next :: "ptr list \<Rightarrow> ptr \<Rightarrow> ptr" where
  "list_next (x # y # xs) p = (if x = p then y else list_next (y # xs) p)"
| "list_next xs p = NULL"

section \<open>Ownership\<close>

text \<open>
  Every object lives in a block the program owns; the other owned blocks are raw buffers.
\<close>

definition heap_ok :: "ulp_state \<Rightarrow> bool" where
  "heap_ok s \<longleftrightarrow> mem_inv (us_mem s) \<and> dom (us_heap s) \<subseteq> live (us_mem s)"

definition raw :: "ulp_state \<Rightarrow> ptr set" where
  "raw s = live (us_mem s) - dom (us_heap s)"

text \<open>The blocks \<open>A\<close> have the same header and bytes in both memories.\<close>

definition mem_kept :: "ptr set \<Rightarrow> mempool \<Rightarrow> mempool \<Rightarrow> bool" where
  "mem_kept A m m' \<longleftrightarrow> mp_cfg m' = mp_cfg m \<and>
     (\<forall>q\<in>A. mp_nodes m' q = mp_nodes m q \<and> mp_data m' q = mp_data m q)"

lemma mem_kept_refl [simp]: "mem_kept A m m"
  by (simp add: mem_kept_def)

lemma mem_kept_trans: "mem_kept A m1 m2 \<Longrightarrow> mem_kept B m2 m3 \<Longrightarrow> C \<subseteq> A \<Longrightarrow> C \<subseteq> B \<Longrightarrow> mem_kept C m1 m3"
  by (auto simp: mem_kept_def subset_iff)

lemma mem_kept_mono: "mem_kept A m m' \<Longrightarrow> B \<subseteq> A \<Longrightarrow> mem_kept B m m'"
  by (auto simp: mem_kept_def)

lemma mem_kept_blk:
  assumes "mem_kept A m m'" "q \<in> A"
  shows "mp_nodes m' q = mp_nodes m q" "mp_data m' q = mp_data m q" "blk_cap m' q = blk_cap m q"
    "blk_bytes m' q n = blk_bytes m q n" "mem_byte m' q = mem_byte m q"
proof -
  show n: "mp_nodes m' q = mp_nodes m q" and d: "mp_data m' q = mp_data m q"
    using assms by (simp_all add: mem_kept_def)
  show c: "blk_cap m' q = blk_cap m q" using assms n by (intro blk_cap_cong) (simp_all add: mem_kept_def)
  show "blk_bytes m' q n = blk_bytes m q n" using d by (simp add: blk_bytes_def)
  show "mem_byte m' q = mem_byte m q" proof
    fix i
    have "blk_read m' q i = blk_read m q i" using c d by (simp add: blk_read_def)
    then show "mem_byte m' q i = mem_byte m q i" using n by (simp add: mem_byte_def split: option.split)
  qed
qed

lemma mem_byte_live:
  assumes "p \<in> live m"
  shows "mem_byte m p i = (if i < blk_cap m p then Some (mp_data m p i) else None)"
  using liveD [OF assms] by (auto simp: mem_byte_def blk_read_def)

lemma heap_okD: "heap_ok s \<Longrightarrow> mem_inv (us_mem s)" "heap_ok s \<Longrightarrow> dom (us_heap s) \<subseteq> live (us_mem s)"
  by (simp_all add: heap_ok_def)

lemma us_alloc_cases [consumes 1, case_names none block]:
  assumes "heap_ok s"
  obtains (none) "us_alloc s len = Some (NULL, s)"
  | (block) p n m' where "us_alloc s len = Some (p, s\<lparr>us_mem := m'\<rparr>)" "p \<noteq> NULL" "p \<notin> live (us_mem s)"
    "mem_inv m'" "live m' = insert p (live (us_mem s))" "mem_kept (live (us_mem s)) (us_mem s) m'"
    "unat len \<le> blk_cap m' p" "mp_nodes m' p = Some n" "mn_length n = ucast len"
  using heap_okD(1) [OF assms]
proof (cases rule: MemAlloc_cases [of "us_mem s" len])
  case none
  then show ?thesis by (intro that(1)) (simp add: us_alloc_def)
next
  case (block p n m')
  from block(8,9) have n: "mp_nodes m' p = Some (n\<lparr>mn_length := ucast len, mn_isInUsed := 1\<rparr>)" by simp
  have "blk_cap m' p = unat (pc_size (mp_cfg (us_mem s) ! pool_of n))"
    using n block(7) by (simp add: blk_cap_def)
  moreover have "mem_kept (live (us_mem s)) (us_mem s) m'"
    using block by (auto simp: mem_kept_def)
  ultimately show ?thesis
    using block n by (intro that(2) [of p m']) (auto simp: us_alloc_def word_le_nat_alt)
qed

lemma new_obj_cases [consumes 1, case_names none block]:
  assumes "heap_ok s"
  obtains (none) "new_obj s len x = Some (NULL, s)"
  | (block) p m' where "new_obj s len x = Some (p, put_obj p x (s\<lparr>us_mem := m'\<rparr>))" "p \<noteq> NULL"
    "p \<notin> live (us_mem s)" "mem_inv m'" "live m' = insert p (live (us_mem s))"
    "mem_kept (live (us_mem s)) (us_mem s) m'"
  using assms by (cases rule: us_alloc_cases [of s len]) (auto simp: new_obj_def intro: that)

lemma us_free_live:
  assumes "heap_ok s" "p \<in> live (us_mem s)"
  obtains m' where "us_free s p = Some (s\<lparr>us_mem := m', us_heap := (us_heap s)(p := None)\<rparr>)"
    "mem_inv m'" "live m' = live (us_mem s) - {p}" "mem_kept (live (us_mem s) - {p}) (us_mem s) m'"
proof -
  obtain n m' where m': "MemFree (us_mem s) p = Some m'" "mem_inv m'" "live m' = live (us_mem s) - {p}"
    "mp_data m' = mp_data (us_mem s)" "mp_cfg m' = mp_cfg (us_mem s)" "mp_nodes (us_mem s) p = Some n"
    "mp_nodes m' = (mp_nodes (us_mem s))(p \<mapsto> n\<lparr>mn_length := 0, mn_isInUsed := 0\<rparr>)"
    using MemFree_live [OF heap_okD(1) [OF assms(1)] assms(2)] by metis
  then show ?thesis by (intro that [of m']) (auto simp: us_free_def mem_kept_def)
qed

lemma us_free_NULL: "heap_ok s \<Longrightarrow> us_free s NULL = Some s"
proof -
  assume ok: "heap_ok s"
  have "NULL \<notin> live (us_mem s)" using mem_invD(3) [OF heap_okD(1) [OF ok]] by (simp add: live_def)
  moreover from this have "us_heap s NULL = None" using heap_okD(2) [OF ok] by (auto simp: dom_def)
  then have "(us_heap s)(NULL := None) = us_heap s" by auto
  moreover have "MemFree (us_mem s) NULL = Some (us_mem s)"
    using MemFree_not_live [OF heap_okD(1) [OF ok] calculation(1)] by simp
  ultimately show ?thesis by (simp add: us_free_def)
qed

lemma live_nonnull: "heap_ok s \<Longrightarrow> p \<in> live (us_mem s) \<Longrightarrow> p \<noteq> NULL"
  by (auto simp: live_def dest: live_CheckNode(2) [OF heap_okD(1)])

lemma get_obj_Some: "get_obj f s p = Some c \<longleftrightarrow> (\<exists>x. us_heap s p = Some x \<and> f x = Some c)"
  by (simp add: get_obj_def bind_Some_iff)

lemma the_simps [simp]: "the_mac x = Some m \<longleftrightarrow> x = MacObj m" "the_rrc x = Some r \<longleftrightarrow> x = RrcObj r"
    "the_rlc x = Some l \<longleftrightarrow> x = RlcObj l" "the_am x = Some a \<longleftrightarrow> x = AmObj a"
    "the_pdu x = Some p \<longleftrightarrow> x = PduObj p" "the_seg x = Some g \<longleftrightarrow> x = SegObj g" "the_dfe x = Some d \<longleftrightarrow> x = DfeObj d"
    "the_ind x = Some i \<longleftrightarrow> x = IndObj i" "the_data x = Some t \<longleftrightarrow> x = DataObj t" "the_phy x = Some y \<longleftrightarrow> x = PhyObj y"
  by (auto simp: the_mac_def the_rrc_def the_rlc_def the_am_def the_pdu_def the_seg_def the_dfe_def
      the_ind_def the_data_def the_phy_def split: obj.splits)

lemma put_obj_simps [simp]:
  "us_heap (put_obj p x s) = (us_heap s)(p \<mapsto> x)" "us_mem (put_obj p x s) = us_mem s"
  "us_kpi (put_obj p x s) = us_kpi s" "us_bits (put_obj p x s) = us_bits s"
  "gMacUeContext (put_obj p x s) = gMacUeContext s" "gRlcUeContextList (put_obj p x s) = gRlcUeContextList s"
  "gRrcUeContextList (put_obj p x s) = gRrcUeContextList s"
  "gReadyRrcUeContextList (put_obj p x s) = gReadyRrcUeContextList s"
  "gRecvdPhyDataList (put_obj p x s) = gRecvdPhyDataList s" "us_junk (put_obj p x s) = us_junk s"
  "us_tick (put_obj p x s) = us_tick s" "us_trace (put_obj p x s) = us_trace s"
  by (simp_all add: put_obj_def)

lemma kpi_simps [simp]:
  "us_heap (kpi f s) = us_heap s" "us_mem (kpi f s) = us_mem s" "us_kpi (kpi f s) = f (us_kpi s)"
  "us_bits (kpi f s) = us_bits s" "gMacUeContext (kpi f s) = gMacUeContext s"
  "gRlcUeContextList (kpi f s) = gRlcUeContextList s" "gRrcUeContextList (kpi f s) = gRrcUeContextList s"
  "gReadyRrcUeContextList (kpi f s) = gReadyRrcUeContextList s"
  "gRecvdPhyDataList (kpi f s) = gRecvdPhyDataList s" "us_junk (kpi f s) = us_junk s"
  "us_tick (kpi f s) = us_tick s" "us_trace (kpi f s) = us_trace s"
  by (simp_all add: kpi_def)

lemma emit_simps [simp]:
  "us_heap (emit e s) = us_heap s" "us_mem (emit e s) = us_mem s" "us_kpi (emit e s) = us_kpi s"
  "us_bits (emit e s) = us_bits s" "gMacUeContext (emit e s) = gMacUeContext s"
  "gRlcUeContextList (emit e s) = gRlcUeContextList s" "gRrcUeContextList (emit e s) = gRrcUeContextList s"
  "gReadyRrcUeContextList (emit e s) = gReadyRrcUeContextList s"
  "gRecvdPhyDataList (emit e s) = gRecvdPhyDataList s" "us_junk (emit e s) = us_junk s"
  "us_tick (emit e s) = us_tick s" "us_trace (emit e s) = us_trace s @ [e]"
  by (simp_all add: emit_def)

lemma count_sem_simps [simp]:
  "us_heap (count_sem b s) = us_heap s" "us_mem (count_sem b s) = us_mem s"
  "us_bits (count_sem b s) = us_bits s" "gMacUeContext (count_sem b s) = gMacUeContext s"
  "gRlcUeContextList (count_sem b s) = gRlcUeContextList s"
  "gRrcUeContextList (count_sem b s) = gRrcUeContextList s"
  "gReadyRrcUeContextList (count_sem b s) = gReadyRrcUeContextList s"
  "gRecvdPhyDataList (count_sem b s) = gRecvdPhyDataList s" "us_junk (count_sem b s) = us_junk s"
  "us_tick (count_sem b s) = us_tick s" "us_trace (count_sem b s) = us_trace s"
  by (simp_all add: count_sem_def)

text \<open>The SDUs the RLC has delivered so far, with bearer and grants.\<close>

definition grants :: "UlReportInfoList \<Rightarrow> UlReportInfo list" where
  "grants l = map (ur_info l) [0..<unat (ur_count l)]"

type_synonym sdu_log = "(u16 \<times> u8 \<times> u8 list \<times> UlReportInfo list) list"

fun rlc_sdu :: "ip_event \<Rightarrow> (u16 \<times> u8 \<times> u8 list \<times> UlReportInfo list) option" where
  "rlc_sdu (Ip_Rlc_Data rnti lcId bs rpt) = Some (rnti, lcId, bs, grants rpt)"
| "rlc_sdu _ = None"

definition rlc_log :: "ulp_state \<Rightarrow> sdu_log" where
  "rlc_log s = List.map_filter rlc_sdu (us_trace s)"

lemma rlc_log_trace: "us_trace s' = us_trace s \<Longrightarrow> rlc_log s' = rlc_log s"
  by (simp add: rlc_log_def)

lemma rlc_log_emit [simp]: "rlc_log (emit e s) = rlc_log s @ (case rlc_sdu e of None \<Rightarrow> [] | Some x \<Rightarrow> [x])"
  by (simp add: rlc_log_def List.map_filter_def split: option.split)

lemma rlc_log_simps [simp]:
  "rlc_log (put_obj p x s) = rlc_log s" "rlc_log (kpi f s) = rlc_log s" "rlc_log (count_sem b s) = rlc_log s"
  "rlc_log (s\<lparr>us_mem := m\<rparr>) = rlc_log s" "rlc_log (s\<lparr>us_heap := h\<rparr>) = rlc_log s"
  "rlc_log (s\<lparr>us_bits := b'\<rparr>) = rlc_log s" "rlc_log (s\<lparr>us_tick := k\<rparr>) = rlc_log s"
  "rlc_log (s\<lparr>gMacUeContext := ps\<rparr>) = rlc_log s" "rlc_log (s\<lparr>gRlcUeContextList := ps\<rparr>) = rlc_log s"
  "rlc_log (s\<lparr>gRrcUeContextList := ps\<rparr>) = rlc_log s" "rlc_log (s\<lparr>gReadyRrcUeContextList := ps\<rparr>) = rlc_log s"
  "rlc_log (s\<lparr>gRecvdPhyDataList := ps\<rparr>) = rlc_log s"
  by (simp_all add: rlc_log_def)

text \<open>
  The first \<open>n\<close> bytes of a block, and buffers: blocks with exactly the bytes
  \<open>bs\<close>.
\<close>

definition block_bytes :: "ulp_state \<Rightarrow> ptr \<Rightarrow> nat \<Rightarrow> u8 list" where
  "block_bytes s p n = blk_bytes (us_mem s) p n"

definition buffer :: "ulp_state \<Rightarrow> ptr \<Rightarrow> u8 list \<Rightarrow> bool" where
  "buffer s p bs \<longleftrightarrow> p \<in> raw s \<and> length bs < 2 ^ 16 \<and> length bs \<le> blk_cap (us_mem s) p \<and>
     block_bytes s p (length bs) = bs \<and> (\<exists>n. mp_nodes (us_mem s) p = Some n \<and> unat (mn_length n) = length bs)"

lemma block_bytes_length [simp]: "length (block_bytes s p n) = n"
  by (simp add: block_bytes_def blk_bytes_def)

lemma raw_live: "p \<in> raw s \<Longrightarrow> p \<in> live (us_mem s)" "p \<in> raw s \<Longrightarrow> us_heap s p = None"
  by (auto simp: raw_def)

lemma reads_block:
  assumes "p \<in> live (us_mem s)" "n \<le> blk_cap (us_mem s) p"
  shows "reads (mem_byte (us_mem s) p) (block_bytes s p n)"
  using assms mem_byte_live [OF assms(1)] by (simp add: reads_def block_bytes_def blk_bytes_def)

lemma same_but_kept: "same_but A m m' \<Longrightarrow> mp_cfg m' = mp_cfg m \<Longrightarrow> B \<inter> A = {} \<Longrightarrow> mem_kept B m m'"
  by (auto simp: same_but_def mem_kept_def)

lemma buffer_kept:
  assumes "buffer s p bs" "mem_kept A (us_mem s) (us_mem s')" "p \<in> A" "p \<in> raw s'"
  shows "buffer s' p bs"
  using assms mem_kept_blk [OF assms(2,3)] by (auto simp: buffer_def block_bytes_def)

text \<open>Cutting the first \<open>k\<close> bytes off a buffer.\<close>

lemma us_remove_buffer:
  assumes ok: "heap_ok s" and b: "buffer s p bs" and k: "unat k \<le> length bs"
  obtains m where "us_remove s p 0 k = Some (s\<lparr>us_mem := m\<rparr>)" "mem_inv m" "live m = live (us_mem s)"
    "mem_kept (live (us_mem s) - {p}) (us_mem s) m" "buffer (s\<lparr>us_mem := m\<rparr>) p (drop (unat k) bs)"
proof -
  obtain n where n: "mp_nodes (us_mem s) p = Some n" "unat (mn_length n) = length bs" "p \<in> raw s" "length bs < 2 ^ 16"
    "block_bytes s p (length bs) = bs" "length bs \<le> blk_cap (us_mem s) p"
    using b by (auto simp: buffer_def)
  obtain m c where m: "MemRemove (us_mem s) p 0 k = Some (c, m)" "mem_inv m" "live m = live (us_mem s)"
    "unat c = min (unat k) (length bs)" "blk_bytes m p (length bs - unat c) = drop (unat k) (blk_bytes (us_mem s) p (length bs))"
    "mp_cfg m = mp_cfg (us_mem s)" "same_but {p} (us_mem s) m" "blk_cap m p = blk_cap (us_mem s) p"
    "\<exists>n'. mp_nodes m p = Some n' \<and> unat (mn_length n') = length bs - unat c"
    using MemRemove_taken [OF heap_okD(1) [OF ok] raw_live(1) [OF n(3)] n(1) n(2) [symmetric], of 0 k] by auto
  have h: "(us_heap s)(p := None) = us_heap s" using raw_live(2) [OF n(3)] by auto
  have c: "unat c = unat k" using m(4) k by simp
  have "buffer (s\<lparr>us_mem := m\<rparr>) p (drop (unat k) bs)"
    using m(3,5,8,9) n k c by (auto simp: buffer_def raw_def block_bytes_def)
  moreover have "mem_kept (live (us_mem s) - {p}) (us_mem s) m" by (rule same_but_kept [OF m(7,6)]) auto
  moreover have "us_remove s p 0 k = Some (s\<lparr>us_mem := m\<rparr>)" using m(1) h by (simp add: us_remove_def)
  ultimately show thesis using m(2,3) by (intro that)
qed

text \<open>
  A block may hold more bytes than its user looks at: \<open>carries\<close> is about the first ones.
\<close>

definition carries :: "ulp_state \<Rightarrow> ptr \<Rightarrow> u8 list \<Rightarrow> bool" where
  "carries s p bs \<longleftrightarrow> (\<exists>cs. buffer s p (bs @ cs))"

lemma carriesE:
  assumes "carries s p bs"
  obtains cs where "buffer s p (bs @ cs)" "p \<in> raw s" "p \<in> live (us_mem s)" "us_heap s p = None"
    "length bs < 2 ^ 16" "length bs \<le> blk_cap (us_mem s) p" "block_bytes s p (length bs) = bs"
proof -
  obtain cs where cs: "buffer s p (bs @ cs)" using assms by (auto simp: carries_def)
  have "block_bytes s p (length bs) = take (length bs) (block_bytes s p (length (bs @ cs)))"
    by (simp add: block_bytes_def blk_bytes_def take_map)
  also have "\<dots> = bs" using cs by (simp add: buffer_def)
  finally show thesis using cs raw_live [of p s] by (intro that [OF cs]) (auto simp: buffer_def)
qed

lemma buffer_carries: "buffer s p (bs @ cs) \<Longrightarrow> carries s p bs"
  by (auto simp: carries_def)

lemma buffer_carries0: "buffer s p bs \<Longrightarrow> carries s p bs"
  using buffer_carries [of s p bs "[]"] by simp

text \<open>Its recorded length can be made to fit, which no reader of the bytes notices.\<close>

lemma carries_trim:
  assumes "carries s p bs"
  obtains m where "buffer (s\<lparr>us_mem := m\<rparr>) p bs" "mem_byte m = mem_byte (us_mem s)"
proof -
  obtain cs where c: "buffer s p (bs @ cs)" "p \<in> raw s" "p \<in> live (us_mem s)" "us_heap s p = None"
    "length bs < 2 ^ 16" "length bs \<le> blk_cap (us_mem s) p" "block_bytes s p (length bs) = bs"
    using assms by (rule carriesE)
  obtain n where n: "mp_nodes (us_mem s) p = Some n" using c(1) by (auto simp: buffer_def)
  let ?m = "us_mem s\<lparr>mp_nodes := (mp_nodes (us_mem s))(p \<mapsto> n\<lparr>mn_length := of_nat (length bs)\<rparr>)\<rparr>"
  have cap: "blk_cap ?m q = blk_cap (us_mem s) q" for q
    using n by (simp add: blk_cap_def split: option.split)
  have "live ?m = live (us_mem s)" using n by (auto simp: live_def)
  then have "buffer (s\<lparr>us_mem := ?m\<rparr>) p bs"
    using c cap [of p] by (auto simp: buffer_def raw_def block_bytes_def blk_bytes_def unat_of_nat_small)
  moreover have "mem_byte ?m q i = mem_byte (us_mem s) q i" for q i
    using n cap [of q] by (auto simp: mem_byte_def blk_read_def split: option.splits)
  ultimately show thesis by (intro that [of ?m]) (simp_all add: fun_eq_iff)
qed

section \<open>A state to start from\<close>

text \<open>
  A machine after initialisation, with six blocks in each pool, for the concrete runs of the
  layers above; the block sizes are those of the program.
\<close>

definition idle_cfg :: "MemPoolConfig list" where
  "idle_cfg = map (\<lambda>(i, sz, n). \<lparr>pc_size = sz - MEM_NODE_SIZE, pc_num = n, pc_start = 1000000 * (i + 1)\<rparr>)
     [(0, 256, 6), (1, 1024, 6), (2, 2048, 6), (3, 3072, 6), (4, 6144, 6), (5, 10240, 6), (6, 16384, 6), (7, 20480, 6),
      (8, 65536, 6), (9, 262144, 16)]"

definition idle_mem :: mempool where
  "idle_mem = InitMemPool \<lparr>mp_nodes = Map.empty, mp_pools = replicate 10 [], mp_data = (\<lambda>_ _. 0),
     mp_cfg = idle_cfg, mp_total = 0\<rparr>"

definition idle_kpi :: LteKpi where
  "idle_kpi = KpiInit \<lparr>k_imsi = 0, k_mTmsi = 0, k_idResp = 0, k_rrcConnReq = 0, k_rrcSetupCompl = 0,
     k_attachReq = 0, k_tauReq = 0, k_servReq = 0, k_extServReq = 0, k_detachReq = 0,
     k_lcIdArray = (\<lambda>_. 0), k_activeRlcCtx = 0, k_activeRrcCtx = 0, k_semLock = 0, k_mem = 0,
     k_crcCorrect = 0, k_crcError = 0, k_heartbeatResp = 0, k_rrcSetupComplRbNum = (\<lambda>_. 0),
     k_idRespRbNum = (\<lambda>_. 0)\<rparr>"

definition idle_state :: ulp_state where
  "idle_state = \<lparr>us_mem = idle_mem, us_heap = Map.empty, us_kpi = idle_kpi, us_bits = (\<lambda>_. 0),
     gMacUeContext = [], gRlcUeContextList = [], gRrcUeContextList = [], gReadyRrcUeContextList = [],
     gRecvdPhyDataList = [], us_junk = (\<lambda>_ _. 0), us_tick = 0, us_trace = []\<rparr>"

lemma idle_cfg_ok: "cfg_ok idle_cfg"
  by (simp add: cfg_ok_def idle_cfg_def block_addrs_def block_addr_def upt_rec)

lemma idle_mem_inv: "mem_inv idle_mem" "live idle_mem = {}" "mp_pools idle_mem = map block_addrs idle_cfg"
    "mp_cfg idle_mem = idle_cfg"
  using InitMemPool_inv [of "\<lparr>mp_nodes = Map.empty, mp_pools = replicate 10 [], mp_data = (\<lambda>_ _. 0),
     mp_cfg = idle_cfg, mp_total = 0\<rparr>"] idle_cfg_ok
  by (simp_all add: idle_mem_def)

lemma idle_state_ok: "heap_ok idle_state" "us_heap idle_state = Map.empty" "live (us_mem idle_state) = {}"
  using idle_mem_inv by (simp_all add: idle_state_def heap_ok_def)

text \<open>
  At least \<open>n\<close> blocks of 64 KB or more are free, so \<open>n\<close> allocations succeed.
\<close>

definition spare :: "nat \<Rightarrow> ulp_state \<Rightarrow> bool" where
  "spare n s \<longleftrightarrow> n \<le> length (mp_pools (us_mem s) ! 9) \<and> 65536 \<le> pc_size (mp_cfg (us_mem s) ! 9)"

lemma spare_mem: "us_mem s' = us_mem s \<Longrightarrow> spare n s' = spare n s"
  by (simp add: spare_def)

lemma us_alloc_spare:
  assumes "heap_ok s" "spare (Suc n) s" "len \<le> 65536"
  obtains p m' nd where "us_alloc s len = Some (p, s\<lparr>us_mem := m'\<rparr>)" "p \<noteq> NULL" "p \<notin> live (us_mem s)"
    "mem_inv m'" "live m' = insert p (live (us_mem s))" "mem_kept (live (us_mem s)) (us_mem s) m'"
    "unat len \<le> blk_cap m' p" "mp_nodes m' p = Some nd" "mn_length nd = ucast len" "spare n (s\<lparr>us_mem := m'\<rparr>)"
proof -
  have len: "len \<le> pc_size (mp_cfg (us_mem s) ! 9)" using assms(2,3) by (auto simp: spare_def)
  have ne: "mp_pools (us_mem s) ! 9 \<noteq> []" "Suc n \<le> length (mp_pools (us_mem s) ! 9)"
    using assms(2) by (auto simp: spare_def)
  show thesis using assms(1)
  proof (cases rule: us_alloc_cases [of s len])
    case none
    then have "MemAlloc (us_mem s) len = Some (NULL, us_mem s)"
      by (auto simp: us_alloc_def bind_Some_iff)
        (metis ulp_state.surjective ulp_state.update_convs(1) ulp_state.select_convs(1))
    with MemAlloc_spare [OF heap_okD(1) [OF assms(1)] ne(2) len] show thesis by blast
  next
    case (block p nd m')
    have "MemAlloc (us_mem s) len = Some (p, m')"
    proof -
      obtain q m'' where q: "MemAlloc (us_mem s) len = Some (q, m'')" "q = p" "s\<lparr>us_mem := m''\<rparr> = s\<lparr>us_mem := m'\<rparr>"
        using block(1) by (auto simp: us_alloc_def bind_Some_iff)
      from q(3) have "us_mem (s\<lparr>us_mem := m''\<rparr>) = us_mem (s\<lparr>us_mem := m'\<rparr>)" by simp
      with q show ?thesis by simp
    qed
    with MemAlloc_spare [OF heap_okD(1) [OF assms(1)] ne(2) len] have "spare n (s\<lparr>us_mem := m'\<rparr>)"
      using assms(2) by (auto simp: spare_def)
    with block show thesis by (intro that [of p m' nd])
  qed
qed

lemma new_obj_spare:
  assumes "heap_ok s" "spare (Suc n) s" "len \<le> 65536"
  obtains p m' where "new_obj s len x = Some (p, put_obj p x (s\<lparr>us_mem := m'\<rparr>))" "p \<noteq> NULL" "spare n (s\<lparr>us_mem := m'\<rparr>)"
proof -
  obtain p m' where "us_alloc s len = Some (p, s\<lparr>us_mem := m'\<rparr>)" "p \<noteq> NULL" "spare n (s\<lparr>us_mem := m'\<rparr>)"
    by (rule us_alloc_spare [OF assms])
  then show thesis by (intro that [of p m']) (simp_all add: new_obj_def)
qed

text \<open>A raw buffer that holds the bytes \<open>bs\<close>.\<close>

definition with_buffer :: "u8 list \<Rightarrow> ulp_state \<Rightarrow> ptr \<times> ulp_state" where
  "with_buffer bs s = (case us_alloc s (of_nat (length bs)) of
     Some (p, s) \<Rightarrow> (p, s\<lparr>us_mem := (us_mem s)\<lparr>mp_data := (mp_data (us_mem s))
       (p := \<lambda>i. if i < length bs then bs ! i else 0)\<rparr>\<rparr>)
   | None \<Rightarrow> (NULL, s))"

lemma idle_spare: "spare 6 idle_state"
  by (simp add: spare_def idle_state_def idle_mem_inv) (simp add: idle_cfg_def block_addrs_def)

lemma idle_spare_all: "spare 16 idle_state"
  by (simp add: spare_def idle_state_def idle_mem_inv) (simp add: idle_cfg_def block_addrs_def)

lemma with_buffer_idle:
  assumes "length bs \<le> 65535"
  obtains p m where "with_buffer bs idle_state = (p, idle_state\<lparr>us_mem := m\<rparr>)" "p \<noteq> NULL" "mem_inv m"
    "live m = {p}" "buffer (idle_state\<lparr>us_mem := m\<rparr>) p bs" "spare 5 (idle_state\<lparr>us_mem := m\<rparr>)"
proof -
  have n: "unat (of_nat (length bs) :: u32) = length bs" using assms by (intro unat_of_nat_small) simp
  then have le: "(of_nat (length bs) :: u32) \<le> 65536" using assms by (simp add: word_le_nat_alt)
  have sp: "spare (Suc 5) idle_state" using idle_spare by simp
  obtain p m nd where m: "us_alloc idle_state (of_nat (length bs)) = Some (p, idle_state\<lparr>us_mem := m\<rparr>)"
    "p \<noteq> NULL" "mem_inv m" "live m = insert p (live (us_mem idle_state))" "unat (of_nat (length bs) :: u32) \<le> blk_cap m p"
    "mp_nodes m p = Some nd" "mn_length nd = ucast (of_nat (length bs) :: u32)" "spare 5 (idle_state\<lparr>us_mem := m\<rparr>)"
    by (rule us_alloc_spare [OF idle_state_ok(1) sp le])
  let ?m = "m\<lparr>mp_data := (mp_data m)(p := \<lambda>i. if i < length bs then bs ! i else 0)\<rparr>"
  have l: "unat (mn_length nd) = length bs"
    using assms unfolding m(7) by (simp add: unsigned_ucast_eq n take_bit_nat_eq_self_iff)
  have "block_bytes (idle_state\<lparr>us_mem := ?m\<rparr>) p (length bs) = bs"
    by (intro nth_equalityI) (simp_all add: block_bytes_def blk_bytes_def)
  then have "buffer (idle_state\<lparr>us_mem := ?m\<rparr>) p bs"
    using m(4-6) l n assms idle_state_ok(2) by (simp add: buffer_def raw_def)
  then show thesis
    using m idle_state_ok(3) by (intro that [of p ?m]) (simp_all add: with_buffer_def spare_def)
qed

text \<open>The buffer takes at most one of the large blocks.\<close>

lemma with_buffer_spare:
  assumes "length bs \<le> 65535" "with_buffer bs idle_state = (p, s)"
  shows "spare 15 s"
proof -
  have "unat (of_nat (length bs) :: u32) = length bs" using assms(1) by (intro unat_of_nat_small) simp
  then have le: "(of_nat (length bs) :: u32) \<le> 65536" using assms(1) by (simp add: word_le_nat_alt)
  have sp: "spare (Suc 15) idle_state" using idle_spare_all by simp
  obtain q m where "us_alloc idle_state (of_nat (length bs)) = Some (q, idle_state\<lparr>us_mem := m\<rparr>)" "spare 15 (idle_state\<lparr>us_mem := m\<rparr>)"
    using us_alloc_spare [OF idle_state_ok(1) sp le] by blast
  with assms(2) show ?thesis by (auto simp: with_buffer_def spare_def)
qed

end
