(* ===== verification/Table_Interface.thy ===== *)
theory Table_Interface
  imports Ulp_Prelude
begin

text \<open>
  The contract between a layer that keeps a table of UE contexts and the code that uses it:
  a search by RNTI answers the first context of the RNTI, a new context is appended (or there
  is no memory and nothing changes), a deletion takes out exactly the context it is given.
  The clients of the three layers search first and create when nothing is found; that this
  keeps one context per RNTI is proved once here.
\<close>

section \<open>The client\<close>

text \<open>Look the context of an RNTI up and create it when there is none.\<close>

definition ue_obtain :: "('s \<Rightarrow> u16 \<Rightarrow> ptr option) \<Rightarrow> ('s \<Rightarrow> u16 \<Rightarrow> (ptr \<times> 's) option) \<Rightarrow>
    's \<Rightarrow> u16 \<Rightarrow> (ptr \<times> 's) option" where
  "ue_obtain get create s r = do {
     p \<leftarrow> get s r;
     if p = NULL then create s r else Some (p, s) }"

text \<open>A history: data for an RNTI, or the expiry of its context.\<close>

datatype ue_req = Use u16 | Expire u16

fun ue_run :: "('s \<Rightarrow> u16 \<Rightarrow> ptr option) \<Rightarrow> ('s \<Rightarrow> u16 \<Rightarrow> (ptr \<times> 's) option) \<Rightarrow> ('s \<Rightarrow> ptr \<Rightarrow> 's option) \<Rightarrow>
    ue_req list \<Rightarrow> 's \<Rightarrow> 's option" where
  "ue_run get create delete [] s = Some s"
| "ue_run get create delete (Use r # rs) s = do {
     (p, s') \<leftarrow> ue_obtain get create s r;
     ue_run get create delete rs s' }"
| "ue_run get create delete (Expire r # rs) s = do {
     p \<leftarrow> get s r;
     s' \<leftarrow> (if p = NULL then Some s else delete s p);
     ue_run get create delete rs s' }"

section \<open>The contract\<close>

definition lookup_rnti :: "(ptr \<times> u16) list \<Rightarrow> u16 \<Rightarrow> ptr" where
  "lookup_rnti t r = (case find (\<lambda>x. snd x = r) t of None \<Rightarrow> NULL | Some x \<Rightarrow> fst x)"

lemma lookup_rnti_simps [simp]:
  "lookup_rnti [] r = NULL"
  "lookup_rnti ((p, q) # t) r = (if q = r then p else lookup_rnti t r)"
  by (simp_all add: lookup_rnti_def)

lemma lookup_rnti_in:
  "lookup_rnti t r \<noteq> NULL \<Longrightarrow> (lookup_rnti t r, r) \<in> set t"
  by (induction t) (auto split: if_splits)

lemma lookup_rnti_None:
  "NULL \<notin> fst ` set t \<Longrightarrow> lookup_rnti t r = NULL \<longleftrightarrow> r \<notin> snd ` set t"
  by (induction t) (auto split: if_splits intro: rev_image_eqI)

lemma lookup_rnti_append:
  "NULL \<notin> fst ` set t \<Longrightarrow> lookup_rnti (t @ u) r = (if r \<in> snd ` set t then lookup_rnti t r else lookup_rnti u r)"
  by (induction t) (auto split: if_splits intro: rev_image_eqI)

lemma lookup_rnti_filter:
  "distinct (map fst t) \<Longrightarrow> (p, q) \<in> set t \<Longrightarrow> r \<noteq> q \<Longrightarrow>
    lookup_rnti (filter (\<lambda>x. fst x \<noteq> p) t) r = lookup_rnti t r"
proof (induction t)
  case (Cons a t)
  obtain p' q' where a: "a = (p', q')" by (cases a)
  show ?case
  proof (cases "p' = p")
    case True
    with Cons.prems a have "q' = q" "p \<notin> fst ` set t" by (force simp: image_iff)+
    moreover from this have "filter (\<lambda>x. fst x \<noteq> p) t = t" by (auto intro!: filter_True)
    ultimately show ?thesis using Cons.prems a True by simp
  next
    case False
    with Cons a show ?thesis by auto
  qed
qed simp

locale ue_table =
  fixes ok :: "'s \<Rightarrow> bool"
    and tbl :: "'s \<Rightarrow> (ptr \<times> u16) list"
    and get :: "'s \<Rightarrow> u16 \<Rightarrow> ptr option"
    and create :: "'s \<Rightarrow> u16 \<Rightarrow> (ptr \<times> 's) option"
    and delete :: "'s \<Rightarrow> ptr \<Rightarrow> 's option"
  assumes tbl_law: "ok s \<Longrightarrow> distinct (map fst (tbl s)) \<and> NULL \<notin> fst ` set (tbl s)"
    and get_law: "ok s \<Longrightarrow> get s r = Some (lookup_rnti (tbl s) r)"
    and create_law: "ok s \<Longrightarrow> create s r = Some (NULL, s) \<or>
      (\<exists>p s'. create s r = Some (p, s') \<and> p \<noteq> NULL \<and> ok s' \<and> tbl s' = tbl s @ [(p, r)])"
    and delete_law: "ok s \<Longrightarrow> p \<in> fst ` set (tbl s) \<Longrightarrow>
      \<exists>s'. delete s p = Some s' \<and> ok s' \<and> tbl s' = filter (\<lambda>x. fst x \<noteq> p) (tbl s)"
begin

abbreviation unique :: "'s \<Rightarrow> bool" where
  "unique s \<equiv> distinct (map snd (tbl s))"

lemma obtain_cases:
  assumes "ok s"
  obtains (found) "ue_obtain get create s r = Some (lookup_rnti (tbl s) r, s)" "r \<in> snd ` set (tbl s)"
      "lookup_rnti (tbl s) r \<noteq> NULL"
  | (full) "ue_obtain get create s r = Some (NULL, s)" "r \<notin> snd ` set (tbl s)"
  | (fresh) p s' where "ue_obtain get create s r = Some (p, s')" "p \<noteq> NULL" "ok s'"
      "tbl s' = tbl s @ [(p, r)]" "r \<notin> snd ` set (tbl s)" "create s r = Some (p, s')"
proof (cases "r \<in> snd ` set (tbl s)")
  case True
  then have "lookup_rnti (tbl s) r \<noteq> NULL" using tbl_law [OF assms] by (simp add: lookup_rnti_None)
  with True show thesis using get_law [OF assms] by (intro found) (simp_all add: ue_obtain_def)
next
  case False
  then have "get s r = Some NULL"
    using get_law [OF assms] tbl_law [OF assms] lookup_rnti_None [of "tbl s" r] by simp
  then have "ue_obtain get create s r = create s r" by (simp add: ue_obtain_def)
  with create_law [OF assms, of r] False full fresh show thesis by metis
qed

lemma obtain_unique:
  assumes "ok s" "unique s"
  shows "\<exists>p s'. ue_obtain get create s r = Some (p, s') \<and> ok s' \<and> unique s' \<and>
    (p = NULL \<longrightarrow> s' = s) \<and> (p \<noteq> NULL \<longrightarrow> get s' r = Some p) \<and>
    (\<forall>q. q \<noteq> r \<longrightarrow> get s' q = get s q) \<and> snd ` set (tbl s') \<subseteq> insert r (snd ` set (tbl s))"
  using assms(1)
proof (cases rule: obtain_cases [of s r])
  case found
  then show ?thesis using assms get_law [OF assms(1)] by auto
next
  case full
  then show ?thesis using assms by auto
next
  case (fresh p s')
  have "lookup_rnti (tbl s') q = (if q = r then p else lookup_rnti (tbl s) q)" for q
    using fresh(5) tbl_law [OF assms(1)] lookup_rnti_None [of "tbl s" q]
    by (simp add: fresh(4) lookup_rnti_append)
  then show ?thesis
    using fresh assms get_law [OF assms(1)] get_law [OF fresh(3)] by auto
qed

lemma expire_unique:
  assumes "ok s" "unique s" "p = lookup_rnti (tbl s) r" "p \<noteq> NULL"
  shows "\<exists>s'. delete s p = Some s' \<and> ok s' \<and> unique s' \<and> get s' r = Some NULL \<and>
    (\<forall>q. q \<noteq> r \<longrightarrow> get s' q = get s q) \<and> snd ` set (tbl s') = snd ` set (tbl s) - {r}"
proof -
  have pin: "(p, r) \<in> set (tbl s)" using lookup_rnti_in assms by metis
  then obtain s' where s': "delete s p = Some s'" "ok s'" "tbl s' = filter (\<lambda>x. fst x \<noteq> p) (tbl s)"
    using delete_law [OF assms(1), of p] by force
  have df: "distinct (map fst (tbl s))" using tbl_law [OF assms(1)] by simp
  have rs: "snd ` set (tbl s') = snd ` set (tbl s) - {r}"
  proof -
    have "fst x = p \<longleftrightarrow> snd x = r" if "x \<in> set (tbl s)" for x
      using that pin df assms(2) by (metis distinct_map inj_onD fst_conv snd_conv)
    then show ?thesis unfolding s'(3) by (auto simp: image_iff)
  qed
  moreover have "get s' r = Some NULL"
    using get_law [OF s'(2)] rs tbl_law [OF s'(2)] lookup_rnti_None [of "tbl s'" r] by simp
  moreover have "get s' q = get s q" if "q \<noteq> r" for q
    using get_law [OF assms(1)] get_law [OF s'(2)] lookup_rnti_filter [OF df pin that] s'(3) by simp
  moreover have "unique s'" using assms(2) unfolding s'(3) by (simp add: distinct_map_filter)
  ultimately show ?thesis using s' by blast
qed

lemma run_unique:
  "ok s \<Longrightarrow> unique s \<Longrightarrow> \<exists>s'. ue_run get create delete rs s = Some s' \<and> ok s' \<and> unique s' \<and>
    (\<forall>r. Use r \<notin> set rs \<and> Expire r \<notin> set rs \<longrightarrow> get s' r = get s r) \<and>
    snd ` set (tbl s') \<subseteq> snd ` set (tbl s) \<union> {r. Use r \<in> set rs}"
proof (induction rs arbitrary: s)
  case (Cons x rs)
  have step: ?case
    if "ue_run get create delete (x # rs) s = ue_run get create delete rs s1" "ok s1" "unique s1"
      "\<forall>r. Use r \<noteq> x \<and> Expire r \<noteq> x \<longrightarrow> get s1 r = get s r"
      "snd ` set (tbl s1) \<subseteq> snd ` set (tbl s) \<union> {r. Use r = x}" for s1
  proof -
    from Cons.IH [OF that(2,3)] obtain s' where s': "ue_run get create delete rs s1 = Some s'" "ok s'" "unique s'"
      "\<forall>r. Use r \<notin> set rs \<and> Expire r \<notin> set rs \<longrightarrow> get s' r = get s1 r"
      "snd ` set (tbl s') \<subseteq> snd ` set (tbl s1) \<union> {r. Use r \<in> set rs}" by blast
    have "snd ` set (tbl s') \<subseteq> snd ` set (tbl s) \<union> {r. Use r \<in> set (x # rs)}"
      using s'(5) that(5) by auto
    moreover have "\<forall>r. Use r \<notin> set (x # rs) \<and> Expire r \<notin> set (x # rs) \<longrightarrow> get s' r = get s r"
      using s'(4) that(4) by auto
    ultimately show ?thesis using s'(1-3) that(1) by metis
  qed
  show ?case
  proof (cases x)
    case (Use r)
    obtain p s1 where s1: "ue_obtain get create s r = Some (p, s1)" "ok s1" "unique s1"
      "\<forall>q. q \<noteq> r \<longrightarrow> get s1 q = get s q" "snd ` set (tbl s1) \<subseteq> insert r (snd ` set (tbl s))"
      using obtain_unique [OF Cons.prems, of r] by blast
    show ?thesis by (rule step [OF _ s1(2,3)]) (use Use s1 in auto)
  next
    case (Expire r)
    show ?thesis
    proof (cases "lookup_rnti (tbl s) r = NULL")
      case True
      show ?thesis by (rule step [OF _ Cons.prems]) (use Expire True get_law [OF Cons.prems(1)] in auto)
    next
      case False
      obtain s1 where s1: "delete s (lookup_rnti (tbl s) r) = Some s1" "ok s1" "unique s1"
        "\<forall>q. q \<noteq> r \<longrightarrow> get s1 q = get s q" "snd ` set (tbl s1) = snd ` set (tbl s) - {r}"
        using expire_unique [OF Cons.prems refl False] by blast
      show ?thesis by (rule step [OF _ s1(2,3)]) (use Expire False s1 get_law [OF Cons.prems(1)] in auto)
    qed
  qed
qed auto

end

end
