(* ===== verification/Ue_Context.thy ===== *)
theory Ue_Context
  imports Ulp_State Table_Interface
begin

text \<open>
  The tables of UE contexts that the MAC (\<open>lteMac.c\<close>) and the RRC (\<open>lteRrc.c\<close>)
  keep: lists of objects that are searched by RNTI. The operations are modelled on the shared state; the
  locale \<open>ue_table\<close> is the contract their clients rely on.
\<close>

section \<open>MAC contexts\<close>

abbreviation (input) sizeof_MacUeContext :: u32 where "sizeof_MacUeContext \<equiv> 72"

text \<open>The loop of \<open>MacGetUeContext\<close>, from the first node on.\<close>

fun mac_search :: "ulp_state \<Rightarrow> ptr list \<Rightarrow> u16 \<Rightarrow> ptr option" where
  "mac_search s [] rnti = Some NULL"
| "mac_search s (p # ps) rnti = do {
     c \<leftarrow> get_obj the_mac s p;
     if mc_rnti c = rnti then Some p else mac_search s ps rnti }"

definition MacGetUeContext :: "ulp_state \<Rightarrow> u16 \<Rightarrow> ptr option" where
  "MacGetUeContext s rnti = mac_search s (gMacUeContext s) rnti"

text \<open>The field \<open>ta\<close> is not initialised: it keeps what the block holds.\<close>

definition MacCreateUeContext :: "ulp_state \<Rightarrow> u16 \<Rightarrow> (ptr \<times> ulp_state) option" where
  "MacCreateUeContext s rnti = do {
     (p, s) \<leftarrow> new_obj s sizeof_MacUeContext
       (MacObj \<lparr>mc_idleCount = 0, mc_rnti = rnti, mc_rbNum = 0, mc_deleteFlag = 0, mc_prbPower = 0,
          mc_ta = push_bit 8 (ucast (us_junk s (us_tick s) 69)) OR ucast (us_junk s (us_tick s) 68)\<rparr>);
     if p = NULL then Some (NULL, s)
     else Some (p, (count_sem True s)\<lparr>us_tick := us_tick s + 1, gMacUeContext := gMacUeContext s @ [p]\<rparr>) }"

definition MacDeleteUeContext :: "ulp_state \<Rightarrow> ptr \<Rightarrow> ulp_state option" where
  "MacDeleteUeContext s p =
     (if p \<noteq> NULL then do {
        c \<leftarrow> get_obj the_mac s p;
        us_free (count_sem False (s\<lparr>gMacUeContext := remove1 p (gMacUeContext s)\<rparr>)) p
      } else Some s)"

definition MacUpdateUeContextTime :: "ulp_state \<Rightarrow> ptr \<Rightarrow> u32 \<Rightarrow> ulp_state option" where
  "MacUpdateUeContextTime s p v =
     (if p \<noteq> NULL then do {
        c \<leftarrow> get_obj the_mac s p;
        Some (put_obj p (MacObj (c\<lparr>mc_idleCount := (if v = 0 then 0 else mc_idleCount c + v)\<rparr>)) s)
      } else Some s)"

definition InitMacLayer :: "ulp_state \<Rightarrow> ulp_state" where
  "InitMacLayer s = s\<lparr>gMacUeContext := []\<rparr>"

section \<open>RRC contexts\<close>

abbreviation (input) sizeof_RrcUeContext :: u32 where "sizeof_RrcUeContext \<equiv> 52"

definition blank_identity :: UeIdentity where
  "blank_identity = \<lparr>ui_rnti = 0, ui_imsiPresent = 0, ui_mTmsiPresent = 0, ui_msgType = 0,
     ui_mTmsi = 0, ui_imsi = replicate 16 0\<rparr>"

fun rrc_search :: "ulp_state \<Rightarrow> ptr list \<Rightarrow> u16 \<Rightarrow> ptr option" where
  "rrc_search s [] rnti = Some NULL"
| "rrc_search s (p # ps) rnti = do {
     c \<leftarrow> get_obj the_rrc s p;
     if rr_rnti c = rnti then Some p else rrc_search s ps rnti }"

definition RrcGetUeContext :: "ulp_state \<Rightarrow> u16 \<Rightarrow> ptr option" where
  "RrcGetUeContext s rnti = rrc_search s (gRrcUeContextList s) rnti"

definition RrcCreateUeContext :: "ulp_state \<Rightarrow> u16 \<Rightarrow> (ptr \<times> ulp_state) option" where
  "RrcCreateUeContext s rnti = do {
     (p, s) \<leftarrow> new_obj s sizeof_RrcUeContext
       (RrcObj \<lparr>rr_idleCount = 0, rr_rnti = rnti, rr_rrcSetupComplRecvdFlag = 0, rr_deleteFlag = 0,
          rr_ueIdentity = blank_identity\<rparr>);
     if p = NULL then Some (NULL, s)
     else Some (p, s\<lparr>gRrcUeContextList := gRrcUeContextList s @ [p]\<rparr>) }"

definition RrcDeleteUeContext :: "ulp_state \<Rightarrow> ptr \<Rightarrow> ulp_state option" where
  "RrcDeleteUeContext s p =
     (if p \<noteq> NULL then do {
        c \<leftarrow> get_obj the_rrc s p;
        us_free (s\<lparr>gRrcUeContextList := remove1 p (gRrcUeContextList s)\<rparr>) p
      } else Some s)"

definition RrcGetUeContextCount :: "ulp_state \<Rightarrow> nat" where
  "RrcGetUeContextCount s = length (gRrcUeContextList s)"

definition RrcUpdateUeContextTime :: "ulp_state \<Rightarrow> ptr \<Rightarrow> u32 \<Rightarrow> ulp_state option" where
  "RrcUpdateUeContextTime s p v =
     (if p \<noteq> NULL then do {
        c \<leftarrow> get_obj the_rrc s p;
        Some (put_obj p (RrcObj (c\<lparr>rr_idleCount := (if v = 0 then 0 else rr_idleCount c + ucast v)\<rparr>)) s)
      } else Some s)"

definition InitRrcLayer :: "ulp_state \<Rightarrow> ulp_state" where
  "InitRrcLayer s = s\<lparr>gRrcUeContextList := [], gReadyRrcUeContextList := []\<rparr>"

section \<open>Invariants\<close>

text \<open>
  The MAC list holds every MAC context once.  The two RRC lists together hold every RRC
  context once; a context in the table is never marked for deletion, and one that waits to be
  reported has an identity.
\<close>

definition mac_ok :: "ulp_state \<Rightarrow> bool" where
  "mac_ok s \<longleftrightarrow> heap_ok s \<and> distinct (gMacUeContext s) \<and>
     set (gMacUeContext s) = {p. \<exists>c. us_heap s p = Some (MacObj c)}"

definition mac_rnti :: "ulp_state \<Rightarrow> ptr \<Rightarrow> u16" where
  "mac_rnti s p = (case get_obj the_mac s p of Some c \<Rightarrow> mc_rnti c | None \<Rightarrow> 0)"

definition mac_tbl :: "ulp_state \<Rightarrow> (ptr \<times> u16) list" where
  "mac_tbl s = map (\<lambda>p. (p, mac_rnti s p)) (gMacUeContext s)"

definition has_identity :: "RrcUeContext \<Rightarrow> bool" where
  "has_identity c \<longleftrightarrow> ui_imsiPresent (rr_ueIdentity c) \<noteq> 0 \<or> ui_mTmsiPresent (rr_ueIdentity c) \<noteq> 0"

definition rrc_ok :: "ulp_state \<Rightarrow> bool" where
  "rrc_ok s \<longleftrightarrow> heap_ok s \<and> distinct (gRrcUeContextList s @ gReadyRrcUeContextList s) \<and>
     set (gRrcUeContextList s @ gReadyRrcUeContextList s) = {p. \<exists>c. us_heap s p = Some (RrcObj c)} \<and>
     (\<forall>p\<in>set (gRrcUeContextList s). \<forall>c. us_heap s p = Some (RrcObj c) \<longrightarrow> rr_deleteFlag c = 0) \<and>
     (\<forall>p\<in>set (gReadyRrcUeContextList s). \<forall>c. us_heap s p = Some (RrcObj c) \<longrightarrow> has_identity c)"

definition rrc_rnti :: "ulp_state \<Rightarrow> ptr \<Rightarrow> u16" where
  "rrc_rnti s p = (case get_obj the_rrc s p of Some c \<Rightarrow> rr_rnti c | None \<Rightarrow> 0)"

definition rrc_tbl :: "ulp_state \<Rightarrow> (ptr \<times> u16) list" where
  "rrc_tbl s = map (\<lambda>p. (p, rrc_rnti s p)) (gRrcUeContextList s)"

lemma mac_okD: "mac_ok s \<Longrightarrow> heap_ok s" "mac_ok s \<Longrightarrow> distinct (gMacUeContext s)"
    "mac_ok s \<Longrightarrow> p \<in> set (gMacUeContext s) \<longleftrightarrow> (\<exists>c. us_heap s p = Some (MacObj c))"
  by (auto simp: mac_ok_def)

lemma rrc_okD: "rrc_ok s \<Longrightarrow> heap_ok s" "rrc_ok s \<Longrightarrow> distinct (gRrcUeContextList s @ gReadyRrcUeContextList s)"
    "rrc_ok s \<Longrightarrow> p \<in> set (gRrcUeContextList s) \<or> p \<in> set (gReadyRrcUeContextList s) \<longleftrightarrow>
       (\<exists>c. us_heap s p = Some (RrcObj c))"
    "rrc_ok s \<Longrightarrow> p \<in> set (gRrcUeContextList s) \<Longrightarrow> us_heap s p = Some (RrcObj c) \<Longrightarrow> rr_deleteFlag c = 0"
    "rrc_ok s \<Longrightarrow> p \<in> set (gReadyRrcUeContextList s) \<Longrightarrow> us_heap s p = Some (RrcObj c) \<Longrightarrow> has_identity c"
  by (auto simp: rrc_ok_def)

lemma heap_live: "heap_ok s \<Longrightarrow> us_heap s p = Some x \<Longrightarrow> p \<in> live (us_mem s)"
  by (auto simp: heap_ok_def dom_def)

lemma heap_nonnull: "heap_ok s \<Longrightarrow> us_heap s p = Some x \<Longrightarrow> p \<noteq> NULL"
  using heap_live live_nonnull by blast

text \<open>Creating and deleting objects keep the ownership of blocks.\<close>

lemma heap_ok_put: "heap_ok s \<Longrightarrow> p \<in> live (us_mem s) \<Longrightarrow> heap_ok (put_obj p x s)"
  by (auto simp: heap_ok_def)

lemma heap_ok_new:
  assumes "heap_ok s" "mem_inv m'" "live m' = insert p (live (us_mem s))"
  shows "heap_ok (put_obj p x (s\<lparr>us_mem := m'\<rparr>))"
  using assms by (auto simp: heap_ok_def)

lemma heap_ok_del:
  assumes "heap_ok s" "mem_inv m'" "live m' = live (us_mem s) - {p}"
  shows "heap_ok (s\<lparr>us_mem := m', us_heap := (us_heap s)(p := None)\<rparr>)"
  using assms by (auto simp: heap_ok_def)

lemma mac_search_eq:
  "\<forall>p\<in>set ps. \<exists>c. us_heap s p = Some (MacObj c) \<Longrightarrow>
    mac_search s ps r = Some (lookup_rnti (map (\<lambda>p. (p, mac_rnti s p)) ps) r)"
  by (induction ps) (auto simp: get_obj_def the_mac_def mac_rnti_def)

lemma rrc_search_eq:
  "\<forall>p\<in>set ps. \<exists>c. us_heap s p = Some (RrcObj c) \<Longrightarrow>
    rrc_search s ps r = Some (lookup_rnti (map (\<lambda>p. (p, rrc_rnti s p)) ps) r)"
  by (induction ps) (auto simp: get_obj_def the_rrc_def rrc_rnti_def)

lemma MacCreate_cases [consumes 1, case_names none block]:
  assumes "heap_ok s"
  obtains (none) "MacCreateUeContext s r = Some (NULL, s)"
  | (block) p m' c where "p \<noteq> NULL" "p \<notin> live (us_mem s)" "mem_inv m'" "live m' = insert p (live (us_mem s))"
    "mem_kept (live (us_mem s)) (us_mem s) m'" "mc_rnti c = r"
    "MacCreateUeContext s r = Some (p, (count_sem True (put_obj p (MacObj c) (s\<lparr>us_mem := m'\<rparr>)))
       \<lparr>us_tick := us_tick s + 1, gMacUeContext := gMacUeContext s @ [p]\<rparr>)"
proof -
  define c where "c = \<lparr>mc_idleCount = 0, mc_rnti = r, mc_rbNum = 0, mc_deleteFlag = 0, mc_prbPower = 0,
    mc_ta = push_bit 8 (ucast (us_junk s (us_tick s) 69)) OR ucast (us_junk s (us_tick s) 68)\<rparr>"
  show thesis using assms
  proof (cases rule: new_obj_cases [of s sizeof_MacUeContext "MacObj c"])
    case none
    then show thesis by (intro that(1)) (simp add: MacCreateUeContext_def c_def)
  next
    case (block p m')
    then show thesis by (intro that(2) [of p m' c]) (simp_all add: MacCreateUeContext_def c_def)
  qed
qed

lemma RrcCreate_cases [consumes 1, case_names none block]:
  assumes "heap_ok s"
  obtains (none) "RrcCreateUeContext s r = Some (NULL, s)"
  | (block) p m' c where "p \<noteq> NULL" "p \<notin> live (us_mem s)" "mem_inv m'" "live m' = insert p (live (us_mem s))"
    "mem_kept (live (us_mem s)) (us_mem s) m'"
    "c = \<lparr>rr_idleCount = 0, rr_rnti = r, rr_rrcSetupComplRecvdFlag = 0, rr_deleteFlag = 0,
          rr_ueIdentity = blank_identity\<rparr>"
    "RrcCreateUeContext s r = Some (p, (put_obj p (RrcObj c) (s\<lparr>us_mem := m'\<rparr>))
       \<lparr>gRrcUeContextList := gRrcUeContextList s @ [p]\<rparr>)"
proof -
  define c where "c = \<lparr>rr_idleCount = 0, rr_rnti = r, rr_rrcSetupComplRecvdFlag = 0, rr_deleteFlag = 0,
    rr_ueIdentity = blank_identity\<rparr>"
  show thesis using assms
  proof (cases rule: new_obj_cases [of s sizeof_RrcUeContext "RrcObj c"])
    case none
    then show thesis by (intro that(1)) (simp add: RrcCreateUeContext_def c_def)
  next
    case (block p m')
    then show thesis by (intro that(2) [of p m' c]) (simp_all add: RrcCreateUeContext_def c_def)
  qed
qed

section \<open>The tables keep the contract\<close>

lemma map_filter_remove1: "distinct ps \<Longrightarrow> filter (\<lambda>x. fst x \<noteq> p) (map (\<lambda>q. (q, f q)) ps) = map (\<lambda>q. (q, f q)) (remove1 p ps)"
  by (induction ps) (auto simp: remove1_idem intro!: filter_True)

lemma mac_create_ok:
  assumes "mac_ok s"
  shows "MacCreateUeContext s r = Some (NULL, s) \<or>
    (\<exists>p s'. MacCreateUeContext s r = Some (p, s') \<and> p \<noteq> NULL \<and> mac_ok s' \<and> mac_tbl s' = mac_tbl s @ [(p, r)])"
  using mac_okD(1) [OF assms]
proof (cases rule: MacCreate_cases [of s r])
  case (block p m' c)
  define s' where "s' = (count_sem True (put_obj p (MacObj c) (s\<lparr>us_mem := m'\<rparr>)))
       \<lparr>us_tick := us_tick s + 1, gMacUeContext := gMacUeContext s @ [p]\<rparr>"
  have new: "p \<notin> set (gMacUeContext s)"
    using block(2) mac_okD(3) [OF assms, of p] heap_live [OF mac_okD(1) [OF assms], of p] by blast
  have "heap_ok s'" using heap_ok_new [OF mac_okD(1) [OF assms] block(3,4)] by (simp add: s'_def heap_ok_def)
  then have "mac_ok s'"
    using assms new by (auto simp: mac_ok_def s'_def)
  moreover have "mac_rnti s' q = mac_rnti s q" if "q \<in> set (gMacUeContext s)" for q
  proof -
    have "q \<noteq> p" using that new by blast
    then show ?thesis by (simp add: mac_rnti_def get_obj_def s'_def)
  qed
  moreover have "mac_rnti s' p = r" using block(6) by (simp add: mac_rnti_def get_obj_def s'_def the_mac_def)
  moreover have "gMacUeContext s' = gMacUeContext s @ [p]" by (simp add: s'_def)
  ultimately have "mac_ok s' \<and> mac_tbl s' = mac_tbl s @ [(p, r)]" by (simp add: mac_tbl_def)
  with block(1,7) show ?thesis unfolding s'_def by blast
qed simp

lemma mac_delete_ok:
  assumes "mac_ok s" "p \<in> set (gMacUeContext s)"
  shows "\<exists>s'. MacDeleteUeContext s p = Some s' \<and> mac_ok s' \<and>
    mac_tbl s' = filter (\<lambda>x. fst x \<noteq> p) (mac_tbl s) \<and> raw s' = raw s"
proof -
  obtain c where c: "us_heap s p = Some (MacObj c)" using mac_okD(3) [OF assms(1)] assms(2) by blast
  note h = mac_okD(1) [OF assms(1)]
  let ?s = "count_sem False (s\<lparr>gMacUeContext := remove1 p (gMacUeContext s)\<rparr>)"
  have h': "heap_ok ?s" "p \<in> live (us_mem ?s)" using h heap_live [OF h c] by (simp_all add: heap_ok_def)
  obtain m' where m': "us_free ?s p = Some (?s\<lparr>us_mem := m', us_heap := (us_heap ?s)(p := None)\<rparr>)"
    "mem_inv m'" "live m' = live (us_mem ?s) - {p}"
    using us_free_live [OF h'] by metis
  define s' where "s' = ?s\<lparr>us_mem := m', us_heap := (us_heap ?s)(p := None)\<rparr>"
  have "MacDeleteUeContext s p = Some s'"
    using c heap_nonnull [OF h c] m'(1) by (simp add: MacDeleteUeContext_def get_obj_def the_mac_def s'_def)
  moreover have "heap_ok s'" unfolding s'_def by (rule heap_ok_del [OF h'(1) m'(2,3)])
  moreover from this have "mac_ok s'" using assms(1) by (auto simp: mac_ok_def s'_def)
  moreover have "mac_tbl s' = filter (\<lambda>x. fst x \<noteq> p) (mac_tbl s)"
    using mac_okD(2) [OF assms(1)]
    by (auto simp: mac_tbl_def s'_def map_filter_remove1 mac_rnti_def get_obj_def)
  moreover have "raw s' = raw s" using c m'(3) by (auto simp: raw_def s'_def dom_def)
  ultimately show ?thesis by blast
qed

interpretation mac: ue_table mac_ok mac_tbl MacGetUeContext MacCreateUeContext MacDeleteUeContext
proof unfold_locales
  fix s r assume ok: "mac_ok s"
  have "NULL \<notin> set (gMacUeContext s)"
    using mac_okD(3) [OF ok, of NULL] heap_nonnull [OF mac_okD(1) [OF ok], of NULL] by blast
  then show "distinct (map fst (mac_tbl s)) \<and> NULL \<notin> fst ` set (mac_tbl s)"
    using mac_okD(2) [OF ok] by (auto simp: mac_tbl_def comp_def)
  show "MacGetUeContext s r = Some (lookup_rnti (mac_tbl s) r)"
    unfolding MacGetUeContext_def mac_tbl_def using mac_okD(3) [OF ok] by (intro mac_search_eq) blast
  show "MacCreateUeContext s r = Some (NULL, s) \<or> (\<exists>p s'. MacCreateUeContext s r = Some (p, s') \<and>
    p \<noteq> NULL \<and> mac_ok s' \<and> mac_tbl s' = mac_tbl s @ [(p, r)])"
    by (rule mac_create_ok [OF ok])
next
  fix s p assume "mac_ok s" "p \<in> fst ` set (mac_tbl s)"
  then show "\<exists>s'. MacDeleteUeContext s p = Some s' \<and> mac_ok s' \<and> mac_tbl s' = filter (\<lambda>x. fst x \<noteq> p) (mac_tbl s)"
    using mac_delete_ok [of s p] by (auto simp: mac_tbl_def)
qed

lemma rrc_create_ok:
  assumes "rrc_ok s"
  shows "RrcCreateUeContext s r = Some (NULL, s) \<or>
    (\<exists>p s'. RrcCreateUeContext s r = Some (p, s') \<and> p \<noteq> NULL \<and> rrc_ok s' \<and> rrc_tbl s' = rrc_tbl s @ [(p, r)])"
  using rrc_okD(1) [OF assms]
proof (cases rule: RrcCreate_cases [of s r])
  case (block p m' c)
  define s' where "s' = (put_obj p (RrcObj c) (s\<lparr>us_mem := m'\<rparr>))
       \<lparr>gRrcUeContextList := gRrcUeContextList s @ [p]\<rparr>"
  have new: "p \<notin> set (gRrcUeContextList s)" "p \<notin> set (gReadyRrcUeContextList s)"
    using block(2) rrc_okD(3) [OF assms, of p] heap_live [OF rrc_okD(1) [OF assms], of p] by blast+
  have h: "heap_ok s'" using heap_ok_new [OF rrc_okD(1) [OF assms] block(3,4)] by (simp add: s'_def heap_ok_def)
  have "rrc_ok s'"
    unfolding rrc_ok_def
  proof (intro conjI ballI allI impI)
    show "heap_ok s'" by fact
    show "distinct (gRrcUeContextList s' @ gReadyRrcUeContextList s')"
      using rrc_okD(2) [OF assms] new by (auto simp: s'_def)
    show "set (gRrcUeContextList s' @ gReadyRrcUeContextList s') = {p. \<exists>c. us_heap s' p = Some (RrcObj c)}"
      using rrc_okD(3) [OF assms] by (auto simp: s'_def)
  next
    fix q d assume "q \<in> set (gRrcUeContextList s')" "us_heap s' q = Some (RrcObj d)"
    then show "rr_deleteFlag d = 0"
      using rrc_okD(4) [OF assms, of q d] block(6) new by (auto simp: s'_def split: if_splits)
  next
    fix q d assume "q \<in> set (gReadyRrcUeContextList s')" "us_heap s' q = Some (RrcObj d)"
    then show "has_identity d"
      using rrc_okD(5) [OF assms, of q d] new by (auto simp: s'_def split: if_splits)
  qed
  moreover have "rrc_rnti s' q = rrc_rnti s q" if "q \<in> set (gRrcUeContextList s)" for q
  proof -
    have "q \<noteq> p" using that new by blast
    then show ?thesis by (simp add: rrc_rnti_def get_obj_def s'_def)
  qed
  moreover have "rrc_rnti s' p = r" using block(6) by (simp add: rrc_rnti_def get_obj_def s'_def the_rrc_def)
  moreover have "gRrcUeContextList s' = gRrcUeContextList s @ [p]" by (simp add: s'_def)
  ultimately have "rrc_ok s' \<and> rrc_tbl s' = rrc_tbl s @ [(p, r)]" by (simp add: rrc_tbl_def)
  with block(1,7) show ?thesis unfolding s'_def by blast
qed simp

lemma rrc_delete_ok:
  assumes "rrc_ok s" "p \<in> set (gRrcUeContextList s)"
  shows "\<exists>s'. RrcDeleteUeContext s p = Some s' \<and> rrc_ok s' \<and>
    rrc_tbl s' = filter (\<lambda>x. fst x \<noteq> p) (rrc_tbl s) \<and> raw s' = raw s"
proof -
  obtain c where c: "us_heap s p = Some (RrcObj c)" using rrc_okD(3) [OF assms(1)] assms(2) by blast
  note h = rrc_okD(1) [OF assms(1)]
  let ?s = "s\<lparr>gRrcUeContextList := remove1 p (gRrcUeContextList s)\<rparr>"
  have h': "heap_ok ?s" "p \<in> live (us_mem ?s)" using h heap_live [OF h c] by (simp_all add: heap_ok_def)
  obtain m' where m': "us_free ?s p = Some (?s\<lparr>us_mem := m', us_heap := (us_heap ?s)(p := None)\<rparr>)"
    "mem_inv m'" "live m' = live (us_mem ?s) - {p}"
    using us_free_live [OF h'] by metis
  define s' where "s' = ?s\<lparr>us_mem := m', us_heap := (us_heap ?s)(p := None)\<rparr>"
  have "RrcDeleteUeContext s p = Some s'"
    using c heap_nonnull [OF h c] m'(1) by (simp add: RrcDeleteUeContext_def get_obj_def the_rrc_def s'_def)
  moreover have h'': "heap_ok s'" unfolding s'_def by (rule heap_ok_del [OF h'(1) m'(2,3)])
  moreover have "rrc_ok s'"
    unfolding rrc_ok_def
  proof (intro conjI ballI allI impI)
    show "heap_ok s'" by fact
    have d: "distinct (gRrcUeContextList s @ gReadyRrcUeContextList s)" by (rule rrc_okD(2) [OF assms(1)])
    then show "distinct (gRrcUeContextList s' @ gReadyRrcUeContextList s')"
      by (auto simp: s'_def dest: notin_set_remove1)
    show "set (gRrcUeContextList s' @ gReadyRrcUeContextList s') = {p. \<exists>c. us_heap s' p = Some (RrcObj c)}"
      using rrc_okD(3) [OF assms(1)] d assms(2) by (auto simp: s'_def)
  next
    fix q d assume "q \<in> set (gRrcUeContextList s')" "us_heap s' q = Some (RrcObj d)"
    then show "rr_deleteFlag d = 0"
      using rrc_okD(4) [OF assms(1), of q d] by (auto simp: s'_def split: if_splits dest: notin_set_remove1)
  next
    fix q d assume "q \<in> set (gReadyRrcUeContextList s')" "us_heap s' q = Some (RrcObj d)"
    then show "has_identity d"
      using rrc_okD(5) [OF assms(1), of q d] by (auto simp: s'_def split: if_splits)
  qed
  moreover have "rrc_tbl s' = filter (\<lambda>x. fst x \<noteq> p) (rrc_tbl s)"
    using rrc_okD(2) [OF assms(1)]
    by (auto simp: rrc_tbl_def s'_def map_filter_remove1 rrc_rnti_def get_obj_def)
  moreover have "raw s' = raw s" using c m'(3) by (auto simp: raw_def s'_def dom_def)
  ultimately show ?thesis by blast
qed

interpretation rrc: ue_table rrc_ok rrc_tbl RrcGetUeContext RrcCreateUeContext RrcDeleteUeContext
proof unfold_locales
  fix s r assume ok: "rrc_ok s"
  have "NULL \<notin> set (gRrcUeContextList s)"
    using rrc_okD(3) [OF ok, of NULL] heap_nonnull [OF rrc_okD(1) [OF ok], of NULL] by blast
  then show "distinct (map fst (rrc_tbl s)) \<and> NULL \<notin> fst ` set (rrc_tbl s)"
    using rrc_okD(2) [OF ok] by (auto simp: rrc_tbl_def comp_def)
  show "RrcGetUeContext s r = Some (lookup_rnti (rrc_tbl s) r)"
    unfolding RrcGetUeContext_def rrc_tbl_def using rrc_okD(3) [OF ok] by (intro rrc_search_eq) blast
  show "RrcCreateUeContext s r = Some (NULL, s) \<or> (\<exists>p s'. RrcCreateUeContext s r = Some (p, s') \<and>
    p \<noteq> NULL \<and> rrc_ok s' \<and> rrc_tbl s' = rrc_tbl s @ [(p, r)])"
    by (rule rrc_create_ok [OF ok])
next
  fix s p assume "rrc_ok s" "p \<in> fst ` set (rrc_tbl s)"
  then show "\<exists>s'. RrcDeleteUeContext s p = Some s' \<and> rrc_ok s' \<and> rrc_tbl s' = filter (\<lambda>x. fst x \<noteq> p) (rrc_tbl s)"
    using rrc_delete_ok [of s p] by (auto simp: rrc_tbl_def)
qed

section \<open>One context per RNTI\<close>

text \<open>
  C22. Whatever history of received data and expiries the MAC and the RRC tables go through,
  every lookup, creation and deletion succeeds, at no time are there two contexts of one RNTI,
  a table holds only RNTIs for which data arrived, and the answers for the RNTIs that the
  history does not mention stay what they were.
\<close>

theorem ue_contexts_unique:
  assumes "mac_ok s" "distinct (map snd (mac_tbl s))" "rrc_ok t" "distinct (map snd (rrc_tbl t))"
  shows "\<exists>s' t'. ue_run MacGetUeContext MacCreateUeContext MacDeleteUeContext rs s = Some s' \<and>
    ue_run RrcGetUeContext RrcCreateUeContext RrcDeleteUeContext rs t = Some t' \<and>
    distinct (map snd (mac_tbl s')) \<and> distinct (map snd (rrc_tbl t')) \<and> mac_ok s' \<and> rrc_ok t' \<and>
    snd ` set (mac_tbl s') \<subseteq> snd ` set (mac_tbl s) \<union> {r. Use r \<in> set rs} \<and>
    snd ` set (rrc_tbl t') \<subseteq> snd ` set (rrc_tbl t) \<union> {r. Use r \<in> set rs} \<and>
    (Use r \<notin> set rs \<and> Expire r \<notin> set rs \<longrightarrow>
       MacGetUeContext s' r = MacGetUeContext s r \<and> RrcGetUeContext t' r = RrcGetUeContext t r)"
proof -
  note m = mac.run_unique [OF assms(1,2), of rs] and r = rrc.run_unique [OF assms(3,4), of rs]
  from m r show ?thesis by blast
qed

lemma idle_tables: "mac_ok idle_state" "mac_tbl idle_state = []" "rrc_ok idle_state" "rrc_tbl idle_state = []"
  using idle_state_ok
  by (simp_all add: mac_ok_def rrc_ok_def mac_tbl_def rrc_tbl_def) (simp_all add: idle_state_def)

theorem ue_contexts_unique_witness:
  "\<exists>s' t'. ue_run MacGetUeContext MacCreateUeContext MacDeleteUeContext [Use 61, Use 62, Use 61, Expire 62] idle_state = Some s' \<and>
    ue_run RrcGetUeContext RrcCreateUeContext RrcDeleteUeContext [Use 61, Use 62, Use 61, Expire 62] idle_state = Some t' \<and>
    distinct (map snd (mac_tbl s')) \<and> distinct (map snd (rrc_tbl t'))"
  using ue_contexts_unique [OF idle_tables(1) _ idle_tables(3), of "[Use 61, Use 62, Use 61, Expire 62]" 7]
    idle_tables by auto

end
