(* ===== verification/Rrc.thy ===== *)
theory Rrc
  imports Ue_Context Asn1_Nas
begin

text \<open>
  The RRC layer, \<open>ulp/src/lteRrc.c\<close>: the messages of the uplink channels, the NAS messages
  they carry, and the identities that are collected per UE.  A log statement is not modelled,
  except where its arguments read through a null pointer.  Temporary message structures take
  a block of the pools while they live; the fields a parser leaves alone are never read, so
  they start out blank, but the bytes of a NAS message behind its end are whatever the block
  held (\<open>us_junk\<close>).
\<close>

section \<open>Constants\<close>

abbreviation (input) sizeof_UlInfoTransfer :: u32 where "sizeof_UlInfoTransfer \<equiv> 12764"
abbreviation (input) sizeof_SetupComplete :: u32 where "sizeof_SetupComplete \<equiv> 12772"
abbreviation (input) sizeof_ConRequest :: u32 where "sizeof_ConRequest \<equiv> 16"
abbreviation (input) sizeof_IdResponse :: u32 where "sizeof_IdResponse \<equiv> 47"
abbreviation (input) sizeof_AttachRequest :: u32 where "sizeof_AttachRequest \<equiv> 38548"
abbreviation (input) sizeof_DetachRequest :: u32 where "sizeof_DetachRequest \<equiv> 60"
abbreviation (input) sizeof_ExtServiceRequest :: u32 where "sizeof_ExtServiceRequest \<equiv> 60"
abbreviation (input) sizeof_TauRequest :: u32 where "sizeof_TauRequest \<equiv> 60"

abbreviation (input) ATTACH_REQUEST :: u8 where "ATTACH_REQUEST \<equiv> 1"
abbreviation (input) TAU_REQUEST :: u8 where "TAU_REQUEST \<equiv> 2"
abbreviation (input) SERVICE_REQUEST :: u8 where "SERVICE_REQUEST \<equiv> 3"
abbreviation (input) EXT_SERVICE_REQUEST :: u8 where "EXT_SERVICE_REQUEST \<equiv> 4"
abbreviation (input) DETACH_REQUEST :: u8 where "DETACH_REQUEST \<equiv> 5"

section \<open>Blank message structures\<close>

definition blank_guti :: guti_id where
  "blank_guti = \<lparr>gu_m_tmsi = 0, gu_mcc = 0, gu_mnc = 0, gu_mme_group_id = 0, gu_mme_code = 0\<rparr>"

definition blank_eps_id :: eps_mobile_id where
  "blank_eps_id = \<lparr>em_guti = blank_guti, em_type_of_id = 0, em_imsi = [], em_imei = [], em_m_tmsi = 0\<rparr>"

definition blank_ksi :: nas_ksi_ie where
  "blank_ksi = \<lparr>tsc_flag = 0, ksi_value = 0\<rparr>"

definition blank_bytes :: simple_msg where
  "blank_bytes = \<lparr>N_bytes = 0, sm_msg = (\<lambda>_. 0)\<rparr>"

definition blank_id_response :: id_response where
  "blank_id_response = \<lparr>ir_mobile_id = \<lparr>mi_type_of_id = 0, mi_imsi = [], mi_imei = [], mi_imeisv = []\<rparr>\<rparr>"

definition blank_attach :: attach_request where
  "blank_attach = \<lparr>ar_nas_ksi = blank_ksi, ar_eps_mobile_id = blank_eps_id,
     ar_ue_network_cap = \<lparr>nc_eea = [], nc_eia = [], nc_uea = [], nc_uea_present = 0, nc_ucs2 = 0,
       nc_ucs2_present = 0, nc_uia = [], nc_uia_present = 0, nc_lpp = 0, nc_lpp_present = 0, nc_lcs = 0,
       nc_lcs_present = 0, nc_onexsrvcc = 0, nc_onexsrvcc_present = 0, nc_nf = 0, nc_nf_present = 0\<rparr>,
     ar_esm_msg = blank_bytes, ar_additional_guti = blank_eps_id,
     ar_last_visited_registered_tai = \<lparr>ta_mcc = 0, ta_mnc = 0, ta_tac = 0\<rparr>,
     ar_drx_param = \<lparr>dx_non_drx_timer = 0, dx_split_pg_cycle_code = 0, dx_cycle_len_coeff_and_value = 0,
       dx_split_on_ccch = 0\<rparr>,
     ar_ms_network_cap = \<lparr>mc_ss_screening = 0, mc_gea = [], mc_sm_cap_ded = 0, mc_sm_cap_gprs = 0,
       mc_ucs2 = 0, mc_solsa = 0, mc_revision = 0, mc_pfc = 0, mc_lcsva = 0, mc_ho_g2u_via_iu = 0,
       mc_ho_g2e_via_s1 = 0, mc_emm_comb = 0, mc_isr = 0, mc_srvcc = 0, mc_epc = 0, mc_nf = 0\<rparr>,
     ar_old_lai = \<lparr>la_mcc = 0, la_mnc = 0, la_lac = 0\<rparr>,
     ar_ms_cm2 = \<lparr>c2_rev_lev = 0, c2_rf_power_cap = 0, c2_ss_screen_ind = 0, c2_es_ind = 0, c2_a5_1 = 0,
       c2_ps_cap = 0, c2_sm_cap = 0, c2_vbs = 0, c2_vgcs = 0, c2_fc = 0, c2_cm3 = 0, c2_lcsva_cap = 0,
       c2_ucs2 = 0, c2_solsa = 0, c2_cmsp = 0, c2_a5_3 = 0, c2_a5_2 = 0\<rparr>,
     ar_supported_codecs = \<lparr>cl_codec = (\<lambda>_. (0, 0)), cl_N = 0\<rparr>,
     ar_voice_domain = \<lparr>vd_ue_usage_setting = 0, vd_voice_domain_pref = 0\<rparr>,
     ar_tmsi_status = 0, ar_additional_update_type = 0, ar_device_properties = 0, ar_old_guti_type = 0,
     ar_old_p_tmsi_signature = 0, ar_eps_attach_type = 0, ar_old_p_tmsi_signature_present = 0,
     ar_additional_guti_present = 0, ar_last_visited_registered_tai_present = 0, ar_drx_param_present = 0,
     ar_ms_network_cap_present = 0, ar_old_lai_present = 0, ar_tmsi_status_present = 0,
     ar_ms_cm2_present = 0, ar_ms_cm3_present = 0, ar_supported_codecs_present = 0,
     ar_additional_update_type_present = 0, ar_voice_domain_present = 0, ar_device_properties_present = 0,
     ar_old_guti_type_present = 0\<rparr>"

definition blank_detach :: detach_request where
  "blank_detach = \<lparr>dr_detach_type = \<lparr>dt_switch_off = 0, dt_type_of_detach = 0\<rparr>, dr_nas_ksi = blank_ksi,
     dr_eps_mobile_id = blank_eps_id\<rparr>"

definition blank_ext_service :: ext_service_request where
  "blank_ext_service = \<lparr>es_service_type = 0, es_nas_ksi = blank_ksi, es_eps_mobile_id = blank_eps_id\<rparr>"

definition blank_tau :: tau_request where
  "blank_tau = \<lparr>tau_value = 0, tau_activeFlag = 0, tau_nas_ksi = blank_ksi, tau_eps_mobile_id = blank_eps_id\<rparr>"

definition blank_con_request :: rrc_con_request where
  "blank_con_request = \<lparr>cr_ue_id = Random_Value 0, cr_ue_id_type = 0, cr_cause = 0\<rparr>"

text \<open>
  The NAS message array of a fresh block: \<open>off\<close> is where it starts in the structure.
\<close>

definition junk_bytes :: "ulp_state \<Rightarrow> nat \<Rightarrow> simple_msg" where
  "junk_bytes s off = \<lparr>N_bytes = 0, sm_msg = (\<lambda>i. us_junk s (us_tick s) (off + i))\<rparr>"

definition junk_info :: "ulp_state \<Rightarrow> ul_info_transfer" where
  "junk_info s = \<lparr>dedicated_info = junk_bytes s 4, dedicated_info_type = 0\<rparr>"

definition junk_setup :: "ulp_state \<Rightarrow> rrc_setup_complete" where
  "junk_setup s = \<lparr>sc_registered_mme = \<lparr>rm_plmn_id = \<lparr>pl_mcc = 0, pl_mnc = 0\<rparr>, rm_mmegi = 0, rm_mmec = 0,
     rm_plmn_id_present = 0\<rparr>, dedicated_info_nas = junk_bytes s 12, sc_rrc_transaction_id = 0,
     sc_selected_plmn_id = 0, sc_registered_mme_present = 0\<rparr>"

section \<open>The identities of a UE\<close>

text \<open>
  A context that is marked for deletion is replaced; the log statement of the failure reads
  \<open>pUeCtx->rnti\<close> through the null pointer, so this case is undefined.
\<close>

definition rrc_replace :: "ulp_state \<Rightarrow> ptr \<Rightarrow> (ptr \<times> ulp_state) option" where
  "rrc_replace s p = do {
     c \<leftarrow> get_obj the_rrc s p;
     if rr_deleteFlag c \<noteq> 0 then do {
       (q, s) \<leftarrow> RrcCreateUeContext s (rr_rnti c);
       ensure (q \<noteq> NULL);
       Some (q, s)
     } else Some (p, s) }"

text \<open>A copy of the context with its old identity waits to be reported, if there is memory.\<close>

definition rrc_keep_old :: "ulp_state \<Rightarrow> RrcUeContext \<Rightarrow> ulp_state option" where
  "rrc_keep_old s c = do {
     (q, s) \<leftarrow> new_obj s sizeof_RrcUeContext (RrcObj c);
     Some (if q \<noteq> NULL then s\<lparr>gReadyRrcUeContextList := gReadyRrcUeContextList s @ [q]\<rparr> else s) }"

definition RrcUpdateImsi :: "ulp_state \<Rightarrow> ptr \<Rightarrow> u8 list \<Rightarrow> u8 \<Rightarrow> (ptr \<times> ulp_state) option" where
  "RrcUpdateImsi s p imsi msgType = do {
     let tmpImsi = map (\<lambda>d. d + 0x30) (take 15 imsi) @ [0];
     (p, s) \<leftarrow> rrc_replace s p;
     c \<leftarrow> get_obj the_rrc s p;
     let u = rr_ueIdentity c;
     if ui_imsiPresent u \<noteq> 0 \<and> take 15 (ui_imsi u) = take 15 tmpImsi then Some (p, s)
     else do {
       s \<leftarrow> (if ui_imsiPresent u \<noteq> 0 then rrc_keep_old s c else Some s);
       let s = kpi (\<lambda>k. k\<lparr>k_imsi := k_imsi k + 1\<rparr>) s;
       let u = u\<lparr>ui_imsiPresent := TRUE8, ui_imsi := tmpImsi\<rparr>;
       let u = (if msgType \<noteq> 0xFF then u\<lparr>ui_msgType := msgType\<rparr> else u);
       Some (p, put_obj p (RrcObj (c\<lparr>rr_ueIdentity := u\<rparr>)) s)
     } }"

definition RrcUpdateMTmsi :: "ulp_state \<Rightarrow> ptr \<Rightarrow> u32 \<Rightarrow> u8 \<Rightarrow> (ptr \<times> ulp_state) option" where
  "RrcUpdateMTmsi s p mTmsi msgType = do {
     (p, s) \<leftarrow> rrc_replace s p;
     c \<leftarrow> get_obj the_rrc s p;
     let u = rr_ueIdentity c;
     if ui_mTmsiPresent u \<noteq> 0 \<and> ui_mTmsi u = mTmsi then Some (p, s)
     else do {
       s \<leftarrow> (if ui_mTmsiPresent u \<noteq> 0 then rrc_keep_old s c else Some s);
       let s = kpi (\<lambda>k. k\<lparr>k_mTmsi := k_mTmsi k + 1\<rparr>) s;
       let u = u\<lparr>ui_mTmsiPresent := TRUE8, ui_mTmsi := mTmsi\<rparr>;
       let u = (if msgType \<noteq> 0xFF then u\<lparr>ui_msgType := msgType\<rparr> else u);
       Some (p, put_obj p (RrcObj (c\<lparr>rr_ueIdentity := u\<rparr>)) s)
     } }"

definition RrcUeDataInd :: "ulp_state \<Rightarrow> ptr \<Rightarrow> ulp_state option" where
  "RrcUeDataInd s p =
     (if p = NULL then Some s
      else do { c \<leftarrow> get_obj the_rrc s p; Some (emit (Ip_Rrc_Data c) s) })"

text \<open>
  The context of the RNTI, created when there is none: \<open>NULL\<close> when there is no memory.
\<close>

definition rrc_obtain :: "ulp_state \<Rightarrow> u16 \<Rightarrow> (ptr \<times> ulp_state) option" where
  "rrc_obtain = ue_obtain RrcGetUeContext RrcCreateUeContext"

section \<open>NAS messages\<close>

definition RrcDecodeIdentityResponse :: "ulp_state \<Rightarrow> u16 \<Rightarrow> simple_msg \<Rightarrow> ulp_state option" where
  "RrcDecodeIdentityResponse s rnti m = do {
     (q, s) \<leftarrow> us_alloc s sizeof_IdResponse;
     if q = NULL then Some s
     else do {
       (err, r) \<leftarrow> liblte_mme_unpack_identity_response_msg m blank_id_response;
       s \<leftarrow> (if err = LIBLTE_SUCCESS then
               (let s = kpi (\<lambda>k. k\<lparr>k_idResp := k_idResp k + 1\<rparr>) s in
                if mi_type_of_id (ir_mobile_id r) = 1 then do {
                  (p, s) \<leftarrow> rrc_obtain s rnti;
                  if p = NULL then Some s
                  else do {
                    (p, s) \<leftarrow> RrcUpdateImsi s p (mi_imsi (ir_mobile_id r)) 0xFF;
                    RrcUeDataInd s p
                  }
                } else Some s)
             else Some s);
       us_free s q
     } }"

text \<open>
  What the four request handlers do with the mobile identity: \<open>tmsi\<close> is the temporary
  identity of the message and \<open>ty\<close> the type under which it carries one.
\<close>

definition rrc_report_eps_id ::
    "ulp_state \<Rightarrow> u16 \<Rightarrow> u8 \<Rightarrow> u32 \<Rightarrow> eps_mobile_id \<Rightarrow> u8 \<Rightarrow> ulp_state option" where
  "rrc_report_eps_id s rnti ty tmsi i msgType = do {
     (p, s) \<leftarrow> rrc_obtain s rnti;
     if p = NULL then Some s
     else do {
       (p, s) \<leftarrow> (if em_type_of_id i = ty then RrcUpdateMTmsi s p tmsi msgType
                  else if em_type_of_id i = 1 then RrcUpdateImsi s p (em_imsi i) msgType
                  else Some (p, s));
       RrcUeDataInd s p
     } }"

definition RrcDecodeAttachReq :: "ulp_state \<Rightarrow> u16 \<Rightarrow> simple_msg \<Rightarrow> ulp_state option" where
  "RrcDecodeAttachReq s rnti m = do {
     (q, s) \<leftarrow> us_alloc s sizeof_AttachRequest;
     if q = NULL then Some s
     else do {
       (err, r) \<leftarrow> liblte_mme_unpack_attach_request_msg m blank_attach;
       s \<leftarrow> (if err = LIBLTE_SUCCESS then
               rrc_report_eps_id (kpi (\<lambda>k. k\<lparr>k_attachReq := k_attachReq k + 1\<rparr>) s) rnti 6
                 (gu_m_tmsi (em_guti (ar_eps_mobile_id r))) (ar_eps_mobile_id r) ATTACH_REQUEST
             else Some s);
       us_free s q
     } }"

definition RrcDecodeDetachReq :: "ulp_state \<Rightarrow> u16 \<Rightarrow> simple_msg \<Rightarrow> ulp_state option" where
  "RrcDecodeDetachReq s rnti m = do {
     (q, s) \<leftarrow> us_alloc s sizeof_DetachRequest;
     if q = NULL then Some s
     else do {
       (err, r) \<leftarrow> liblte_mme_unpack_detach_request_msg m blank_detach;
       s \<leftarrow> (if err = LIBLTE_SUCCESS then
               rrc_report_eps_id (kpi (\<lambda>k. k\<lparr>k_detachReq := k_detachReq k + 1\<rparr>) s) rnti 6
                 (gu_m_tmsi (em_guti (dr_eps_mobile_id r))) (dr_eps_mobile_id r) DETACH_REQUEST
             else Some s);
       us_free s q
     } }"

definition RrcDecodeExtServiceReq :: "ulp_state \<Rightarrow> u16 \<Rightarrow> simple_msg \<Rightarrow> ulp_state option" where
  "RrcDecodeExtServiceReq s rnti m = do {
     (q, s) \<leftarrow> us_alloc s sizeof_ExtServiceRequest;
     if q = NULL then Some s
     else do {
       (err, r) \<leftarrow> liblte_mme_unpack_ext_service_request_msg m blank_ext_service;
       s \<leftarrow> (if err = LIBLTE_SUCCESS then
               rrc_report_eps_id (kpi (\<lambda>k. k\<lparr>k_extServReq := k_extServReq k + 1\<rparr>) s) rnti 4
                 (em_m_tmsi (es_eps_mobile_id r)) (es_eps_mobile_id r) EXT_SERVICE_REQUEST
             else Some s);
       us_free s q
     } }"

definition RrcDecodeTauReq :: "ulp_state \<Rightarrow> u16 \<Rightarrow> simple_msg \<Rightarrow> ulp_state option" where
  "RrcDecodeTauReq s rnti m = do {
     (q, s) \<leftarrow> us_alloc s sizeof_TauRequest;
     if q = NULL then Some s
     else do {
       (err, r) \<leftarrow> liblte_mme_unpack_tau_request_msg m blank_tau;
       s \<leftarrow> (if err = LIBLTE_SUCCESS then
               rrc_report_eps_id (kpi (\<lambda>k. k\<lparr>k_tauReq := k_tauReq k + 1\<rparr>) s) rnti 6
                 (gu_m_tmsi (em_guti (tau_eps_mobile_id r))) (tau_eps_mobile_id r) TAU_REQUEST
             else Some s);
       us_free s q
     } }"

definition RrcDecodeServiceReq :: "ulp_state \<Rightarrow> u16 \<Rightarrow> simple_msg \<Rightarrow> ulp_state option" where
  "RrcDecodeServiceReq s rnti m = do {
     let s = kpi (\<lambda>k. k\<lparr>k_servReq := k_servReq k + 1\<rparr>) s;
     (p, s) \<leftarrow> rrc_obtain s rnti;
     if p = NULL then Some s
     else do {
       c \<leftarrow> get_obj the_rrc s p;
       let c = c\<lparr>rr_ueIdentity := (rr_ueIdentity c)\<lparr>ui_msgType := SERVICE_REQUEST\<rparr>\<rparr>;
       Some (emit (Ip_Rrc_Data c) (put_obj p (RrcObj c) s))
     } }"

text \<open>The answer is the NAS message type.\<close>

definition RrcParseNasMsg :: "ulp_state \<Rightarrow> u16 \<Rightarrow> simple_msg \<Rightarrow> (u8 \<times> ulp_state) option" where
  "RrcParseNasMsg s rnti m = do {
     (pd, t) \<leftarrow> liblte_mme_parse_msg_header m;
     s \<leftarrow> (if t = 0x56 then RrcDecodeIdentityResponse s rnti m
           else if t = 0x41 then RrcDecodeAttachReq s rnti m
           else if t = 0x48 then RrcDecodeTauReq s rnti m
           else if t = 0x45 then RrcDecodeDetachReq s rnti m
           else if t = 0x4C then RrcDecodeExtServiceReq s rnti m
           else if t = 0xC then RrcDecodeServiceReq s rnti m
           else Some s);
     Some (t, s) }"

section \<open>RRC messages\<close>

text \<open>
  The debug counters by number of resource blocks: entry \<open>i\<close> of the report list counts at
  index \<open>rbNum - 1\<close>, when \<open>rbNum\<close> is at most 19; the index of 0 resource
  blocks is outside of the array.
\<close>

fun count_rb :: "nat \<Rightarrow> nat \<Rightarrow> UlReportInfoList \<Rightarrow> (nat \<Rightarrow> u32) \<Rightarrow> (nat \<Rightarrow> u32) option" where
  "count_rb 0 i l a = Some a"
| "count_rb (Suc n) i l a = do {
     ensure (i < MAX_RLC_SEGMENTS_NUM);
     let r = unat (ur_rbNum (ur_info l i));
     if r \<le> 19 then do {
       ensure (r \<noteq> 0);
       count_rb n (i + 1) l (a(r - 1 := a (r - 1) + 1))
     } else count_rb n (i + 1) l a }"

definition RrcParseUlDcchMsg ::
    "ulp_state \<Rightarrow> u16 \<Rightarrow> ptr \<Rightarrow> u16 \<Rightarrow> UlReportInfoList option \<Rightarrow> ulp_state option" where
  "RrcParseUlDcchMsg s rnti pData sz rpt = do {
     b \<leftarrow> mem_byte (us_mem s) pData 0;
     let rrcMsgType = drop_bit 3 b AND 0x0F;
     (nasMsgType, s) \<leftarrow>
       (if rrcMsgType = 9 then do {
          let junk = junk_info s;
          (q, s) \<leftarrow> us_alloc s sizeof_UlInfoTransfer;
          if q = NULL then Some (0xFF, s)
          else do {
            let s = s\<lparr>us_tick := us_tick s + 1\<rparr>;
            (err, r, bits) \<leftarrow> Asn1ParseUlInfoTransMsg (us_bits s) (mem_byte (us_mem s) pData) (ucast sz) junk;
            let s = s\<lparr>us_bits := bits\<rparr>;
            (t, s) \<leftarrow>
              (if err = LIBLTE_SUCCESS \<and> dedicated_info_type r = 0 then do {
                 (t, s) \<leftarrow> RrcParseNasMsg s rnti (dedicated_info r);
                 if t = 0x56 then do {
                   l \<leftarrow> rpt;
                   a \<leftarrow> count_rb (unat (ur_count l)) 0 l (k_idRespRbNum (us_kpi s));
                   Some (t, kpi (\<lambda>k. k\<lparr>k_idRespRbNum := a\<rparr>) s)
                 } else Some (t, s)
               } else Some (0xFF, s));
            s \<leftarrow> us_free s q;
            Some (t, s)
          }
        } else if rrcMsgType = 4 then do {
          let junk = junk_setup s;
          (q, s) \<leftarrow> us_alloc s sizeof_SetupComplete;
          if q = NULL then Some (0xFF, s)
          else do {
            let s = s\<lparr>us_tick := us_tick s + 1\<rparr>;
            (err, r, bits) \<leftarrow> Asn1ParseRrcSetupComplMsg (us_bits s) (mem_byte (us_mem s) pData) (ucast sz) junk;
            let s = s\<lparr>us_bits := bits\<rparr>;
            (t, s) \<leftarrow>
              (if err = LIBLTE_SUCCESS then do {
                 let s = kpi (\<lambda>k. k\<lparr>k_rrcSetupCompl := k_rrcSetupCompl k + 1\<rparr>) s;
                 (t, s) \<leftarrow> RrcParseNasMsg s rnti (dedicated_info_nas r);
                 l \<leftarrow> rpt;
                 a \<leftarrow> count_rb (unat (ur_count l)) 0 l (k_rrcSetupComplRbNum (us_kpi s));
                 Some (t, kpi (\<lambda>k. k\<lparr>k_rrcSetupComplRbNum := a\<rparr>) s)
               } else Some (0xFF, s));
            s \<leftarrow> us_free s q;
            Some (t, s)
          }
        } else Some (0xFF, s));
     let s = emit (Ip_Rrc_Result rnti rrcMsgType nasMsgType) s;
     us_free s pData }"

definition RrcParseUlCcchMsg :: "ulp_state \<Rightarrow> u16 \<Rightarrow> ptr \<Rightarrow> u16 \<Rightarrow> ulp_state option" where
  "RrcParseUlCcchMsg s rnti pData sz =
     (if pData = NULL \<or> sz = 0 then Some s
      else do {
        b \<leftarrow> mem_byte (us_mem s) pData 0;
        let rrcCcchMsgType = drop_bit 6 b AND 0x01;
        (stop, s) \<leftarrow>
          (if rrcCcchMsgType = 1 then do {
             (q, s) \<leftarrow> us_alloc s sizeof_ConRequest;
             if q = NULL then Some (False, s)
             else do {
               (err, r, bits) \<leftarrow> Asn1ParseRrcConnReqMsg (us_bits s) (mem_byte (us_mem s) pData) (ucast sz)
                 blank_con_request;
               let s = s\<lparr>us_bits := bits\<rparr>;
               (stop, s) \<leftarrow>
                 (if err = LIBLTE_SUCCESS then
                    (let s = kpi (\<lambda>k. k\<lparr>k_rrcConnReq := k_rrcConnReq k + 1\<rparr>) s in
                     if cr_ue_id_type r = 0 then do {
                       (p, s) \<leftarrow> rrc_obtain s rnti;
                       if p = NULL then Some (True, s)
                       else do {
                         (p, s) \<leftarrow> RrcUpdateMTmsi s p (stmsi_m_tmsi (cr_ue_id r)) SERVICE_REQUEST;
                         s \<leftarrow> RrcUeDataInd s p;
                         Some (False, s)
                       }
                     } else Some (False, s))
                  else Some (False, s));
               s \<leftarrow> us_free s q;
               Some (stop, s)
             }
           } else Some (False, s));
        if stop then Some s
        else us_free (emit (Ip_Rrc_Result rnti rrcCcchMsgType 0xFF) s) pData })"

section \<open>Entry points\<close>

definition PdcpUeSrbDataInd ::
    "ulp_state \<Rightarrow> u16 \<Rightarrow> u16 \<Rightarrow> ptr \<Rightarrow> u16 \<Rightarrow> UlReportInfoList option \<Rightarrow> ulp_state option" where
  "PdcpUeSrbDataInd s rnti lcId pData sz rpt =
     (if pData = NULL \<or> sz = 0 then Some s
      else if lcId > 0 then RrcParseUlDcchMsg s rnti pData sz rpt
      else RrcParseUlCcchMsg s rnti pData sz)"

definition MacUeCcchDataInd ::
    "ulp_state \<Rightarrow> u16 \<Rightarrow> ptr \<Rightarrow> u16 \<Rightarrow> UlReportInfoList option \<Rightarrow> ulp_state option" where
  "MacUeCcchDataInd s rnti pData sz rpt =
     (if pData = NULL \<or> sz = 0 then Some s else RrcParseUlCcchMsg s rnti pData sz)"

section \<open>What the layer may change\<close>

text \<open>
  The effect of an RRC operation: it keeps the layer's invariant and one context per RNTI,
  gives back the raw blocks \<open>A\<close> and no other, leaves header and bytes of all other blocks
  alone, and touches no object and no list of the other layers.
\<close>

definition is_rrc :: "obj \<Rightarrow> bool" where
  "is_rrc x \<longleftrightarrow> the_rrc x \<noteq> None"

definition others_same :: "ulp_state \<Rightarrow> ulp_state \<Rightarrow> bool" where
  "others_same s s' \<longleftrightarrow> (\<forall>q x. \<not> is_rrc x \<longrightarrow> us_heap s' q = Some x \<longleftrightarrow> us_heap s q = Some x) \<and>
     gMacUeContext s' = gMacUeContext s \<and> gRlcUeContextList s' = gRlcUeContextList s \<and>
     gRecvdPhyDataList s' = gRecvdPhyDataList s \<and> rlc_log s' = rlc_log s"

definition rrc_effect :: "ptr set \<Rightarrow> ulp_state \<Rightarrow> ulp_state \<Rightarrow> bool" where
  "rrc_effect A s s' \<longleftrightarrow> rrc_ok s' \<and> raw s' = raw s - A \<and> others_same s s' \<and>
     mem_kept (live (us_mem s) - A) (us_mem s) (us_mem s') \<and>
     (distinct (map snd (rrc_tbl s)) \<longrightarrow> distinct (map snd (rrc_tbl s')))"

lemma is_rrc_simps [simp]: "is_rrc (RrcObj c)" "\<not> is_rrc (MacObj m)" "\<not> is_rrc (RlcObj l)" "\<not> is_rrc (AmObj a)"
    "\<not> is_rrc (PduObj d)" "\<not> is_rrc (SegObj g)" "\<not> is_rrc (DfeObj f)" "\<not> is_rrc (IndObj i)"
    "\<not> is_rrc (DataObj r)" "\<not> is_rrc (PhyObj y)"
  by (simp_all add: is_rrc_def the_rrc_def)

lemma mem_kept_live: "mem_kept A m m' \<Longrightarrow> q \<in> A \<Longrightarrow> q \<in> live m \<longleftrightarrow> q \<in> live m'"
  by (auto simp: mem_kept_def live_def)

lemma others_same_refl [simp]: "others_same s s"
  by (simp add: others_same_def)

lemma others_same_trans: "others_same s t \<Longrightarrow> others_same t u \<Longrightarrow> others_same s u"
  by (simp add: others_same_def)

lemma rrc_effect_refl: "rrc_ok s \<Longrightarrow> rrc_effect {} s s"
  by (simp add: rrc_effect_def)

lemma rrc_effectD:
  assumes "rrc_effect A s s'"
  shows "rrc_ok s'" "raw s' = raw s - A" "others_same s s'"
    "mem_kept (live (us_mem s) - A) (us_mem s) (us_mem s')"
    "distinct (map snd (rrc_tbl s)) \<Longrightarrow> distinct (map snd (rrc_tbl s'))"
  using assms by (simp_all add: rrc_effect_def)

lemma rrc_effect_trans:
  assumes a: "rrc_effect A s t" and b: "rrc_effect B t u"
  shows "rrc_effect (A \<union> B) s u"
proof -
  have "live (us_mem s) - (A \<union> B) \<subseteq> live (us_mem t) - B"
    using mem_kept_live [OF rrc_effectD(4) [OF a]] by blast
  then have "mem_kept (live (us_mem s) - (A \<union> B)) (us_mem s) (us_mem u)"
    by (intro mem_kept_trans [OF rrc_effectD(4) [OF a] rrc_effectD(4) [OF b]]) blast+
  moreover have "raw u = raw s - (A \<union> B)"
    using rrc_effectD(2) [OF a] rrc_effectD(2) [OF b] by blast
  moreover note rrc_effectD(1) [OF b] others_same_trans [OF rrc_effectD(3) [OF a] rrc_effectD(3) [OF b]]
    rrc_effectD(5) [OF a] rrc_effectD(5) [OF b]
  ultimately show ?thesis by (simp add: rrc_effect_def)
qed

lemma rrc_effect_trans0: "rrc_effect {} s t \<Longrightarrow> rrc_effect {} t u \<Longrightarrow> rrc_effect {} s u"
  using rrc_effect_trans [of "{}" s t "{}" u] by simp

lemma rrc_effect_ok: "rrc_effect A s s' \<Longrightarrow> rrc_ok s'"
  by (simp add: rrc_effect_def)

text \<open>
  Counters, the trace (but for SDUs of the RLC), the bit buffer and the tick do not matter for it.
\<close>

definition rrc_view :: "ulp_state \<Rightarrow> mempool \<times> (ptr \<Rightarrow> obj option) \<times> ptr list \<times> ptr list \<times> ptr list \<times> ptr list \<times>
    ptr list \<times> sdu_log" where
  "rrc_view s = (us_mem s, us_heap s, gMacUeContext s, gRlcUeContextList s, gRrcUeContextList s,
     gReadyRrcUeContextList s, gRecvdPhyDataList s, rlc_log s)"

lemma rrc_view_simps [simp]:
  "rrc_view (kpi f s) = rrc_view s" "rlc_sdu e = None \<Longrightarrow> rrc_view (emit e s) = rrc_view s"
  "rrc_view (s\<lparr>us_bits := b\<rparr>) = rrc_view s" "rrc_view (s\<lparr>us_tick := k\<rparr>) = rrc_view s"
  by (simp_all add: rrc_view_def)

lemma rrc_viewD:
  assumes "rrc_view s' = rrc_view s"
  shows "us_mem s' = us_mem s" "us_heap s' = us_heap s" "gMacUeContext s' = gMacUeContext s"
    "gRlcUeContextList s' = gRlcUeContextList s" "gRrcUeContextList s' = gRrcUeContextList s"
    "gReadyRrcUeContextList s' = gReadyRrcUeContextList s" "gRecvdPhyDataList s' = gRecvdPhyDataList s"
    "rlc_log s' = rlc_log s"
  using assms by (simp_all add: rrc_view_def)

lemma rrc_view_cong:
  assumes "rrc_view s' = rrc_view s"
  shows "rrc_ok s' = rrc_ok s" "rrc_effect A s' t = rrc_effect A s t" "rrc_effect A t s' = rrc_effect A t s"
    "raw s' = raw s" "rrc_tbl s' = rrc_tbl s"
proof -
  note v = rrc_viewD [OF assms]
  show ok: "rrc_ok s' = rrc_ok s" by (simp add: rrc_ok_def heap_ok_def v)
  show raw: "raw s' = raw s" by (simp add: raw_def v)
  have "rrc_rnti s' = rrc_rnti s" by (simp add: rrc_rnti_def get_obj_def v fun_eq_iff)
  then show tbl: "rrc_tbl s' = rrc_tbl s" by (simp add: rrc_tbl_def v)
  have "others_same s' t = others_same s t" "others_same t s' = others_same t s"
    by (simp_all add: others_same_def v)
  with ok raw tbl show "rrc_effect A s' t = rrc_effect A s t" "rrc_effect A t s' = rrc_effect A t s"
    by (simp_all only: rrc_effect_def v)
qed

lemmas rrc_view_kpi = rrc_view_cong [OF rrc_view_simps(1)]
lemmas rrc_view_emit = rrc_view_cong [OF rrc_view_simps(2)]
lemmas rrc_view_bits = rrc_view_cong [OF rrc_view_simps(3)]
lemmas rrc_view_tick = rrc_view_cong [OF rrc_view_simps(4)]

text \<open>A raw block that is allocated, used by a computation and released again.\<close>

lemma temp_block [consumes 1, case_names none block]:
  assumes ok: "rrc_ok s"
  obtains (none) "us_alloc s len = Some (NULL, s)"
  | (block) q m1 where "us_alloc s len = Some (q, s\<lparr>us_mem := m1\<rparr>)" "q \<noteq> NULL" "rrc_ok (s\<lparr>us_mem := m1\<rparr>)"
      "raw (s\<lparr>us_mem := m1\<rparr>) = insert q (raw s)" "q \<notin> live (us_mem s)"
      "mem_kept (live (us_mem s)) (us_mem s) m1"
      "rrc_tbl (s\<lparr>us_mem := m1\<rparr>) = rrc_tbl s"
      "\<And>s2. rrc_effect {} (s\<lparr>us_mem := m1\<rparr>) s2 \<Longrightarrow>
         \<exists>m2. us_free s2 q = Some (s2\<lparr>us_mem := m2\<rparr>) \<and> rrc_effect {} s (s2\<lparr>us_mem := m2\<rparr>)"
  using rrc_okD(1) [OF ok]
proof (cases rule: us_alloc_cases [of s len])
  case (block q n m1)
  let ?s1 = "s\<lparr>us_mem := m1\<rparr>"
  have dom: "q \<notin> dom (us_heap s)" using block(3) heap_okD(2) [OF rrc_okD(1) [OF ok]] by blast
  have ok1: "rrc_ok ?s1" using ok block(4,5) by (auto simp: rrc_ok_def heap_ok_def)
  have raw1: "raw ?s1 = insert q (raw s)" using dom block(5) by (auto simp: raw_def)
  have tbl1: "rrc_tbl ?s1 = rrc_tbl s" by (simp add: rrc_tbl_def rrc_rnti_def get_obj_def)
  have "\<exists>m2. us_free s2 q = Some (s2\<lparr>us_mem := m2\<rparr>) \<and> rrc_effect {} s (s2\<lparr>us_mem := m2\<rparr>)"
    if e: "rrc_effect {} ?s1 s2" for s2
  proof -
    have ok2: "rrc_ok s2" and raw2: "raw s2 = insert q (raw s)" and same: "others_same ?s1 s2"
      and kept: "mem_kept (live m1) m1 (us_mem s2)" and tbl2: "distinct (map snd (rrc_tbl s)) \<longrightarrow> distinct (map snd (rrc_tbl s2))"
      using e raw1 tbl1 by (simp_all add: rrc_effect_def)
    have q: "q \<in> live (us_mem s2)" "us_heap s2 q = None" using raw2 by (auto simp: raw_def)
    obtain m2 where m2: "us_free s2 q = Some (s2\<lparr>us_mem := m2, us_heap := (us_heap s2)(q := None)\<rparr>)"
      "mem_inv m2" "live m2 = live (us_mem s2) - {q}" "mem_kept (live (us_mem s2) - {q}) (us_mem s2) m2"
      using us_free_live [OF rrc_okD(1) [OF ok2] q(1)] by metis
    have h: "(us_heap s2)(q := None) = us_heap s2" using q(2) by auto
    have sub: "live (us_mem s) \<subseteq> live (us_mem s2) - {q}"
      using block(3,5) mem_kept_live [OF kept] by auto
    have "mem_kept (live (us_mem s)) (us_mem s) (us_mem s2)"
      using mem_kept_trans [OF block(6) kept] block(5) by blast
    from mem_kept_trans [OF this m2(4)] sub have k: "mem_kept (live (us_mem s)) (us_mem s) m2" by blast
    have "rrc_ok (s2\<lparr>us_mem := m2\<rparr>)"
      using ok2 m2(2,3) q(2) by (auto simp: rrc_ok_def heap_ok_def)
    moreover have "raw (s2\<lparr>us_mem := m2\<rparr>) = raw s"
      using m2(3) raw2 block(3) by (auto simp: raw_def)
    moreover have "others_same s (s2\<lparr>us_mem := m2\<rparr>)" using same by (simp add: others_same_def)
    moreover have "rrc_tbl (s2\<lparr>us_mem := m2\<rparr>) = rrc_tbl s2" by (simp add: rrc_tbl_def rrc_rnti_def get_obj_def)
    ultimately show ?thesis using m2(1) k tbl2 h by (auto simp: rrc_effect_def)
  qed
  with block(1-3,6) ok1 raw1 tbl1 show thesis by (intro that(2) [of q m1]) auto
qed (rule that(1))

section \<open>The operations on contexts\<close>

text \<open>The context of a table entry.\<close>

lemma rrc_tbl_entry:
  assumes "rrc_ok s" "p \<in> set (gRrcUeContextList s)"
  obtains c where "us_heap s p = Some (RrcObj c)" "rr_deleteFlag c = 0" "p \<noteq> NULL" "p \<in> live (us_mem s)"
proof -
  obtain c where c: "us_heap s p = Some (RrcObj c)" using rrc_okD(3) [OF assms(1)] assms(2) by blast
  show thesis
    by (rule that [OF c rrc_okD(4) [OF assms c] heap_nonnull [OF rrc_okD(1) [OF assms(1)] c]
      heap_live [OF rrc_okD(1) [OF assms(1)] c]])
qed

lemma rrc_put_effect:
  assumes ok: "rrc_ok s" and p: "p \<in> set (gRrcUeContextList s)" and c: "us_heap s p = Some (RrcObj c)"
    and c': "rr_rnti c' = rr_rnti c" "rr_deleteFlag c' = 0"
  shows "rrc_effect {} s (put_obj p (RrcObj c') s)" "rrc_tbl (put_obj p (RrcObj c') s) = rrc_tbl s"
proof -
  let ?s = "put_obj p (RrcObj c') s"
  have notin: "p \<notin> set (gReadyRrcUeContextList s)" using rrc_okD(2) [OF ok] p by auto
  have "heap_ok ?s" using heap_ok_put [OF rrc_okD(1) [OF ok] heap_live [OF rrc_okD(1) [OF ok] c]] .
  moreover have "{q. \<exists>d. us_heap ?s q = Some (RrcObj d)} = {q. \<exists>d. us_heap s q = Some (RrcObj d)}" using c by auto
  moreover have "rr_deleteFlag d = 0" if "q \<in> set (gRrcUeContextList s)" "us_heap ?s q = Some (RrcObj d)" for q d
    using that rrc_okD(4) [OF ok, of q d] c'(2) by (auto split: if_splits)
  moreover have "has_identity d" if "q \<in> set (gReadyRrcUeContextList s)" "us_heap ?s q = Some (RrcObj d)" for q d
    using that rrc_okD(5) [OF ok, of q d] notin by (auto split: if_splits)
  ultimately have "rrc_ok ?s" using ok by (simp add: rrc_ok_def)
  moreover have "raw ?s = raw s" using c by (auto simp: raw_def)
  moreover have "others_same s ?s" using c by (auto simp: others_same_def)
  moreover have "rrc_rnti ?s q = rrc_rnti s q" for q
    using c c'(1) by (simp add: rrc_rnti_def get_obj_def the_rrc_def)
  then show tbl: "rrc_tbl ?s = rrc_tbl s" by (simp add: rrc_tbl_def)
  ultimately show "rrc_effect {} s ?s" using tbl by (simp add: rrc_effect_def)
qed

lemma rrc_keep_old_cases [consumes 2, case_names full kept]:
  assumes ok: "rrc_ok s" and id: "has_identity c"
  obtains (full) "rrc_keep_old s c = Some s" "new_obj s sizeof_RrcUeContext (RrcObj c) = Some (NULL, s)"
  | (kept) q s' where "rrc_keep_old s c = Some s'" "rrc_effect {} s s'" "rrc_tbl s' = rrc_tbl s"
      "gRrcUeContextList s' = gRrcUeContextList s" "gReadyRrcUeContextList s' = gReadyRrcUeContextList s @ [q]"
      "us_heap s' = (us_heap s)(q \<mapsto> RrcObj c)" "q \<notin> live (us_mem s)" "us_kpi s' = us_kpi s"
      "us_trace s' = us_trace s"
  using rrc_okD(1) [OF ok]
proof (cases rule: new_obj_cases [of s sizeof_RrcUeContext "RrcObj c"])
  case none
  then show thesis by (intro that(1)) (simp_all add: rrc_keep_old_def)
next
  case (block q m')
  define s' where "s' = (put_obj q (RrcObj c) (s\<lparr>us_mem := m'\<rparr>))\<lparr>gReadyRrcUeContextList := gReadyRrcUeContextList s @ [q]\<rparr>"
  have new: "q \<notin> set (gRrcUeContextList s)" "q \<notin> set (gReadyRrcUeContextList s)" "q \<notin> dom (us_heap s)"
    using block(3) rrc_okD(3) [OF ok, of q] heap_live [OF rrc_okD(1) [OF ok], of q] by blast+
  have "heap_ok s'" using heap_ok_new [OF rrc_okD(1) [OF ok] block(4,5)] by (simp add: s'_def heap_ok_def)
  moreover have "distinct (gRrcUeContextList s' @ gReadyRrcUeContextList s')"
    using rrc_okD(2) [OF ok] new by (auto simp: s'_def)
  moreover have "set (gRrcUeContextList s' @ gReadyRrcUeContextList s') = {p. \<exists>c. us_heap s' p = Some (RrcObj c)}"
    using rrc_okD(3) [OF ok] by (auto simp: s'_def)
  moreover have "rr_deleteFlag d = 0" if "p \<in> set (gRrcUeContextList s')" "us_heap s' p = Some (RrcObj d)" for p d
    using that rrc_okD(4) [OF ok, of p d] new by (auto simp: s'_def split: if_splits)
  moreover have "has_identity d" if "p \<in> set (gReadyRrcUeContextList s')" "us_heap s' p = Some (RrcObj d)" for p d
    using that rrc_okD(5) [OF ok, of p d] id by (auto simp: s'_def split: if_splits)
  ultimately have "rrc_ok s'" unfolding rrc_ok_def by blast
  moreover have "raw s' = raw s" using block(3,5) by (auto simp: raw_def s'_def dom_def)
  moreover have "others_same s s'" using new(3) by (auto simp: others_same_def s'_def)
  moreover have "mem_kept (live (us_mem s)) (us_mem s) (us_mem s')" using block(6) by (simp add: s'_def)
  moreover have "rrc_rnti s' p = rrc_rnti s p" if "p \<in> set (gRrcUeContextList s)" for p
    using that new(1) by (auto simp: rrc_rnti_def get_obj_def s'_def)
  then have tbl: "rrc_tbl s' = rrc_tbl s" by (simp add: rrc_tbl_def s'_def)
  ultimately have eff: "rrc_effect {} s s'" by (simp add: rrc_effect_def)
  have run: "rrc_keep_old s c = Some s'" using block(1,2) by (simp add: rrc_keep_old_def s'_def)
  show thesis by (rule that(2) [OF run eff tbl]) (use block(3) in \<open>simp_all add: s'_def\<close>)
qed

lemma rrc_obtain_cases [consumes 1, case_names full entry]:
  assumes ok: "rrc_ok s"
  obtains (full) "rrc_obtain s r = Some (NULL, s)" "r \<notin> snd ` set (rrc_tbl s)"
      "RrcCreateUeContext s r = Some (NULL, s)"
  | (entry) p s' c where "rrc_obtain s r = Some (p, s')" "p \<noteq> NULL" "rrc_effect {} s s'"
      "p \<in> set (gRrcUeContextList s')" "us_heap s' p = Some (RrcObj c)" "rr_rnti c = r"
      "gReadyRrcUeContextList s' = gReadyRrcUeContextList s" "us_kpi s' = us_kpi s"
      "us_trace s' = us_trace s"
      "s' = s \<or> p \<notin> live (us_mem s) \<and> r \<notin> snd ` set (rrc_tbl s) \<and> rr_ueIdentity c = blank_identity"
  using ok
proof (cases rule: rrc.obtain_cases [of s r])
  case found
  define p where "p = lookup_rnti (rrc_tbl s) r"
  have p: "p \<in> set (gRrcUeContextList s)" "rrc_rnti s p = r"
    using lookup_rnti_in [OF found(3)] by (auto simp: p_def rrc_tbl_def)
  obtain c where c: "us_heap s p = Some (RrcObj c)" using rrc_tbl_entry [OF ok p(1)] by metis
  have "rr_rnti c = r" using p(2) c by (simp add: rrc_rnti_def get_obj_def the_rrc_def)
  with found p c show thesis
    by (intro that(2) [of p s c]) (simp_all add: rrc_obtain_def rrc_effect_refl [OF ok] p_def)
next
  case full
  have "RrcGetUeContext s r = Some NULL"
    using rrc.get_law [OF ok, of r] full(2) rrc.tbl_law [OF ok] by (simp add: lookup_rnti_None)
  then show thesis using full by (intro that(1)) (simp_all add: rrc_obtain_def ue_obtain_def)
next
  case (fresh p s')
  note ok' = fresh(3) and tbl = fresh(4)
  show thesis using rrc_okD(1) [OF ok]
  proof (cases rule: RrcCreate_cases [of s r])
    case none
    then show thesis using fresh by simp
  next
    case (block q m' c)
    have s': "s' = put_obj q (RrcObj c) (s\<lparr>us_mem := m'\<rparr>)\<lparr>gRrcUeContextList := gRrcUeContextList s @ [q]\<rparr>" "q = p"
      using block(7) fresh(6) by simp_all
    have new: "p \<notin> dom (us_heap s)" using block(2) heap_live [OF rrc_okD(1) [OF ok], of p] s'(2) by blast
    have "raw s' = raw s" using block(2,4) s' by (auto simp: raw_def dom_def)
    moreover have "others_same s s'" using new s' by (auto simp: others_same_def)
    moreover have "mem_kept (live (us_mem s)) (us_mem s) (us_mem s')" using block(5) s' by simp
    moreover have "distinct (map snd (rrc_tbl s'))" if "distinct (map snd (rrc_tbl s))"
      using that fresh(5) by (simp add: tbl)
    ultimately have "rrc_effect {} s s'" using ok' by (simp add: rrc_effect_def)
    with fresh block s' show thesis
      by (intro that(2) [of p s' c]) (simp_all add: rrc_obtain_def)
  qed
qed

end
