(* ===== verification/Rrc_Safety.thy ===== *)
theory Rrc_Safety
  imports Rrc
begin

text \<open>
  What the handlers of \<open>lteRrc.c\<close> guarantee: every NAS and RRC message is processed without
  undefined behaviour, keeps one context per UE, loses no identity, and gives back exactly
  the buffer of the message.
\<close>

section \<open>Identities\<close>

text \<open>
  After an update the context \<open>c\<close> of the table entry is what it was, or it has been replaced
  and a copy with the old identity waits in the ready list (unless the pools are exhausted).
\<close>

definition old_identity_waits :: "ulp_state \<Rightarrow> ulp_state \<Rightarrow> RrcUeContext \<Rightarrow> bool" where
  "old_identity_waits s s' c \<longleftrightarrow>
     (\<exists>q. gReadyRrcUeContextList s' = gReadyRrcUeContextList s @ [q] \<and> us_heap s' q = Some (RrcObj c)) \<or>
     (gReadyRrcUeContextList s' = gReadyRrcUeContextList s \<and> new_obj s sizeof_RrcUeContext (RrcObj c) = Some (NULL, s))"

text \<open>The common shape of the two updates.\<close>

lemma rrc_store_effect:
  assumes ok: "rrc_ok s" and p: "p \<in> set (gRrcUeContextList s)" and c: "us_heap s p = Some (RrcObj c)"
    and c': "rr_rnti c' = rr_rnti c" "rr_deleteFlag c' = 0" and old: "old \<Longrightarrow> has_identity c"
  shows "\<exists>s1. (if old then rrc_keep_old s c else Some s) = Some s1 \<and>
    (let s' = put_obj p (RrcObj c') (kpi f s1) in
      rrc_effect {} s s' \<and> gRrcUeContextList s' = gRrcUeContextList s \<and> us_heap s' p = Some (RrcObj c') \<and>
      us_trace s' = us_trace s \<and> (\<forall>q\<in>live (us_mem s) - {p}. us_heap s' q = us_heap s q) \<and>
      us_kpi s' = f (us_kpi s) \<and>
      (if old then old_identity_waits s s' c else gReadyRrcUeContextList s' = gReadyRrcUeContextList s))"
proof -
  have plive: "p \<in> live (us_mem s)" by (rule heap_live [OF rrc_okD(1) [OF ok] c])
  have keep: ?thesis if s1: "(if old then rrc_keep_old s c else Some s) = Some s1"
    and e: "rrc_effect {} s s1" and g: "gRrcUeContextList s1 = gRrcUeContextList s"
    and h: "\<forall>q\<in>live (us_mem s). us_heap s1 q = us_heap s q" and t: "us_trace s1 = us_trace s" "us_kpi s1 = us_kpi s"
    and w: "if old then old_identity_waits s s1 c else gReadyRrcUeContextList s1 = gReadyRrcUeContextList s" for s1
  proof (intro exI conjI)
    let ?s' = "put_obj p (RrcObj c') (kpi f s1)"
    have ok1: "rrc_ok (kpi f s1)" using rrc_effect_ok [OF e] by (simp add: rrc_view_kpi)
    have e1: "rrc_effect {} s (kpi f s1)" using e by (simp add: rrc_view_kpi)
    have "rrc_effect {} (kpi f s1) ?s'"
      using ok1 p c plive g h c' by (intro rrc_put_effect(1) [of _ _ c]) simp_all
    from rrc_effect_trans0 [OF e1 this] have eff: "rrc_effect {} s ?s'" .
    have wait: "old_identity_waits s ?s' c" if old
    proof -
      have "old_identity_waits s s1 c" using w that by simp
      moreover have "q \<noteq> p" if "gReadyRrcUeContextList s1 = gReadyRrcUeContextList s @ [q]" for q
        using rrc_okD(2) [OF rrc_effect_ok [OF e]] that p g by auto
      ultimately show ?thesis by (auto simp: old_identity_waits_def)
    qed
    show "(if old then rrc_keep_old s c else Some s) = Some s1" by (rule s1)
    show "let s' = ?s' in
      rrc_effect {} s s' \<and> gRrcUeContextList s' = gRrcUeContextList s \<and> us_heap s' p = Some (RrcObj c') \<and>
      us_trace s' = us_trace s \<and> (\<forall>q\<in>live (us_mem s) - {p}. us_heap s' q = us_heap s q) \<and>
      us_kpi s' = f (us_kpi s) \<and>
      (if old then old_identity_waits s s' c else gReadyRrcUeContextList s' = gReadyRrcUeContextList s)"
      using eff g h t w wait by (simp add: Let_def)
  qed
  show ?thesis
  proof (cases old)
    case False
    then show ?thesis by (intro keep [of s]) (simp_all add: rrc_effect_refl [OF ok])
  next
    case True
    show ?thesis using ok old [OF True]
    proof (cases rule: rrc_keep_old_cases [of s c])
      case full
      with True show ?thesis
        by (intro keep [of s]) (simp_all add: rrc_effect_refl [OF ok] old_identity_waits_def)
    next
      case (kept q s')
      with True show ?thesis
        by (intro keep [of s']) (auto simp: old_identity_waits_def)
    qed
  qed
qed

lemma rrc_replace_table:
  assumes "rrc_ok s" "p \<in> set (gRrcUeContextList s)" "us_heap s p = Some (RrcObj c)"
  shows "rrc_replace s p = Some (p, s)"
  using assms(3) rrc_okD(4) [OF assms] by (simp add: rrc_replace_def get_obj_def the_rrc_def)

text \<open>The identity after an update; the message type is kept when it is unknown (255).\<close>

definition with_msg_type :: "u8 \<Rightarrow> UeIdentity \<Rightarrow> UeIdentity" where
  "with_msg_type t u = (if t \<noteq> 0xFF then u\<lparr>ui_msgType := t\<rparr> else u)"

definition imsi_digits :: "u8 list \<Rightarrow> u8 list" where
  "imsi_digits imsi = map (\<lambda>d. d + 0x30) (take 15 imsi) @ [0]"

lemma RrcUpdateImsi_effect:
  fixes imsi :: "u8 list" and t :: u8
  assumes ok: "rrc_ok s" and p: "p \<in> set (gRrcUeContextList s)" and c: "us_heap s p = Some (RrcObj c)"
  defines "u \<equiv> rr_ueIdentity c"
  defines "same \<equiv> ui_imsiPresent u \<noteq> 0 \<and> take 15 (ui_imsi u) = take 15 (imsi_digits imsi)"
  defines "c' \<equiv> c\<lparr>rr_ueIdentity := with_msg_type t (u\<lparr>ui_imsiPresent := TRUE8, ui_imsi := imsi_digits imsi\<rparr>)\<rparr>"
  shows "\<exists>s'. RrcUpdateImsi s p imsi t = Some (p, s') \<and> rrc_effect {} s s' \<and>
    gRrcUeContextList s' = gRrcUeContextList s \<and> us_trace s' = us_trace s \<and>
    (\<forall>q\<in>live (us_mem s) - {p}. us_heap s' q = us_heap s q) \<and>
    (if same then s' = s
     else us_heap s' p = Some (RrcObj c') \<and> us_kpi s' = (us_kpi s)\<lparr>k_imsi := k_imsi (us_kpi s) + 1\<rparr> \<and>
       (if ui_imsiPresent u \<noteq> 0 then old_identity_waits s s' c
        else gReadyRrcUeContextList s' = gReadyRrcUeContextList s))"
proof -
  note rep = rrc_replace_table [OF ok p c]
  have get: "get_obj the_rrc s p = Some c" using c by (simp add: get_obj_def the_rrc_def)
  show ?thesis
  proof (cases same)
    case True
    then have "RrcUpdateImsi s p imsi t = Some (p, s)"
      using get by (simp add: RrcUpdateImsi_def rep Let_def u_def same_def imsi_digits_def)
    with True show ?thesis by (simp add: rrc_effect_refl [OF ok])
  next
    case False
    obtain s1 where s1: "(if ui_imsiPresent u \<noteq> 0 then rrc_keep_old s c else Some s) = Some s1"
      "let s' = put_obj p (RrcObj c') (kpi (\<lambda>k. k\<lparr>k_imsi := k_imsi k + 1\<rparr>) s1) in
        rrc_effect {} s s' \<and> gRrcUeContextList s' = gRrcUeContextList s \<and> us_heap s' p = Some (RrcObj c') \<and>
        us_trace s' = us_trace s \<and> (\<forall>q\<in>live (us_mem s) - {p}. us_heap s' q = us_heap s q) \<and>
        us_kpi s' = (us_kpi s)\<lparr>k_imsi := k_imsi (us_kpi s) + 1\<rparr> \<and>
        (if ui_imsiPresent u \<noteq> 0 then old_identity_waits s s' c else gReadyRrcUeContextList s' = gReadyRrcUeContextList s)"
      using rrc_store_effect [OF ok p c, of c' "ui_imsiPresent u \<noteq> 0" "\<lambda>k. k\<lparr>k_imsi := k_imsi k + 1\<rparr>"]
        rrc_okD(4) [OF ok p c] by (auto simp: c'_def has_identity_def u_def)
    have "RrcUpdateImsi s p imsi t = Some (p, put_obj p (RrcObj c') (kpi (\<lambda>k. k\<lparr>k_imsi := k_imsi k + 1\<rparr>) s1))"
      using get False s1(1)
      by (auto simp: RrcUpdateImsi_def rep Let_def u_def same_def imsi_digits_def c'_def with_msg_type_def)
    with False s1(2) show ?thesis by (auto simp: Let_def split: if_splits)
  qed
qed

lemma RrcUpdateMTmsi_effect:
  fixes tmsi :: u32 and t :: u8
  assumes ok: "rrc_ok s" and p: "p \<in> set (gRrcUeContextList s)" and c: "us_heap s p = Some (RrcObj c)"
  defines "u \<equiv> rr_ueIdentity c"
  defines "same \<equiv> ui_mTmsiPresent u \<noteq> 0 \<and> ui_mTmsi u = tmsi"
  defines "c' \<equiv> c\<lparr>rr_ueIdentity := with_msg_type t (u\<lparr>ui_mTmsiPresent := TRUE8, ui_mTmsi := tmsi\<rparr>)\<rparr>"
  shows "\<exists>s'. RrcUpdateMTmsi s p tmsi t = Some (p, s') \<and> rrc_effect {} s s' \<and>
    gRrcUeContextList s' = gRrcUeContextList s \<and> us_trace s' = us_trace s \<and>
    (\<forall>q\<in>live (us_mem s) - {p}. us_heap s' q = us_heap s q) \<and>
    (if same then s' = s
     else us_heap s' p = Some (RrcObj c') \<and> us_kpi s' = (us_kpi s)\<lparr>k_mTmsi := k_mTmsi (us_kpi s) + 1\<rparr> \<and>
       (if ui_mTmsiPresent u \<noteq> 0 then old_identity_waits s s' c
        else gReadyRrcUeContextList s' = gReadyRrcUeContextList s))"
proof -
  note rep = rrc_replace_table [OF ok p c]
  have get: "get_obj the_rrc s p = Some c" using c by (simp add: get_obj_def the_rrc_def)
  show ?thesis
  proof (cases same)
    case True
    then have "RrcUpdateMTmsi s p tmsi t = Some (p, s)"
      using get by (simp add: RrcUpdateMTmsi_def rep Let_def u_def same_def)
    with True show ?thesis by (simp add: rrc_effect_refl [OF ok])
  next
    case False
    obtain s1 where s1: "(if ui_mTmsiPresent u \<noteq> 0 then rrc_keep_old s c else Some s) = Some s1"
      "let s' = put_obj p (RrcObj c') (kpi (\<lambda>k. k\<lparr>k_mTmsi := k_mTmsi k + 1\<rparr>) s1) in
        rrc_effect {} s s' \<and> gRrcUeContextList s' = gRrcUeContextList s \<and> us_heap s' p = Some (RrcObj c') \<and>
        us_trace s' = us_trace s \<and> (\<forall>q\<in>live (us_mem s) - {p}. us_heap s' q = us_heap s q) \<and>
        us_kpi s' = (us_kpi s)\<lparr>k_mTmsi := k_mTmsi (us_kpi s) + 1\<rparr> \<and>
        (if ui_mTmsiPresent u \<noteq> 0 then old_identity_waits s s' c else gReadyRrcUeContextList s' = gReadyRrcUeContextList s)"
      using rrc_store_effect [OF ok p c, of c' "ui_mTmsiPresent u \<noteq> 0" "\<lambda>k. k\<lparr>k_mTmsi := k_mTmsi k + 1\<rparr>"]
        rrc_okD(4) [OF ok p c] by (auto simp: c'_def has_identity_def u_def)
    have "RrcUpdateMTmsi s p tmsi t = Some (p, put_obj p (RrcObj c') (kpi (\<lambda>k. k\<lparr>k_mTmsi := k_mTmsi k + 1\<rparr>) s1))"
      using get False s1(1)
      by (auto simp: RrcUpdateMTmsi_def rep Let_def u_def same_def c'_def with_msg_type_def)
    with False s1(2) show ?thesis by (auto simp: Let_def split: if_splits)
  qed
qed

lemma RrcUpdateImsi_stored:
  assumes "rrc_ok s" "p \<in> set (gRrcUeContextList s)" "us_heap s p = Some (RrcObj c)"
  obtains s' u' where "RrcUpdateImsi s p imsi t = Some (p, s')" "rrc_effect {} s s'"
    "us_heap s' p = Some (RrcObj (c\<lparr>rr_ueIdentity := u'\<rparr>))" "us_trace s' = us_trace s"
    "gRrcUeContextList s' = gRrcUeContextList s"
    "take 15 (ui_imsi u') = take 15 (imsi_digits imsi)" "ui_imsiPresent u' \<noteq> 0"
    "ui_mTmsi u' = ui_mTmsi (rr_ueIdentity c)" "ui_mTmsiPresent u' = ui_mTmsiPresent (rr_ueIdentity c)"
    "ui_imsiPresent (rr_ueIdentity c) \<noteq> 0 \<Longrightarrow>
      if take 15 (ui_imsi (rr_ueIdentity c)) = take 15 (imsi_digits imsi) then s' = s else old_identity_waits s s' c"
proof (cases "ui_imsiPresent (rr_ueIdentity c) \<noteq> 0 \<and> take 15 (ui_imsi (rr_ueIdentity c)) = take 15 (imsi_digits imsi)")
  case True
  with RrcUpdateImsi_effect [OF assms, of imsi t] have r: "RrcUpdateImsi s p imsi t = Some (p, s)" by auto
  show thesis
    by (rule that [OF r rrc_effect_refl [OF assms(1)], of "rr_ueIdentity c"]) (use True assms(3) in auto)
next
  case False
  with RrcUpdateImsi_effect [OF assms, of imsi t] obtain s' where s':
    "RrcUpdateImsi s p imsi t = Some (p, s')" "rrc_effect {} s s'" "gRrcUeContextList s' = gRrcUeContextList s"
    "us_trace s' = us_trace s"
    "us_heap s' p = Some (RrcObj (c\<lparr>rr_ueIdentity := with_msg_type t ((rr_ueIdentity c)
       \<lparr>ui_imsiPresent := TRUE8, ui_imsi := imsi_digits imsi\<rparr>)\<rparr>))"
    "if ui_imsiPresent (rr_ueIdentity c) \<noteq> 0 then old_identity_waits s s' c
     else gReadyRrcUeContextList s' = gReadyRrcUeContextList s"
    by (simp only: if_False) blast
  show thesis
    by (rule that [OF s'(1,2,5)]) (use s'(3,4,6) False in \<open>simp_all add: with_msg_type_def\<close>)
qed

lemma RrcUpdateMTmsi_stored:
  assumes "rrc_ok s" "p \<in> set (gRrcUeContextList s)" "us_heap s p = Some (RrcObj c)"
  obtains s' u' where "RrcUpdateMTmsi s p tmsi t = Some (p, s')" "rrc_effect {} s s'"
    "us_heap s' p = Some (RrcObj (c\<lparr>rr_ueIdentity := u'\<rparr>))" "us_trace s' = us_trace s"
    "gRrcUeContextList s' = gRrcUeContextList s"
    "ui_mTmsi u' = tmsi" "ui_mTmsiPresent u' \<noteq> 0"
    "ui_imsi u' = ui_imsi (rr_ueIdentity c)" "ui_imsiPresent u' = ui_imsiPresent (rr_ueIdentity c)"
    "ui_mTmsiPresent (rr_ueIdentity c) \<noteq> 0 \<Longrightarrow>
      if ui_mTmsi (rr_ueIdentity c) = tmsi then s' = s else old_identity_waits s s' c"
proof (cases "ui_mTmsiPresent (rr_ueIdentity c) \<noteq> 0 \<and> ui_mTmsi (rr_ueIdentity c) = tmsi")
  case True
  with RrcUpdateMTmsi_effect [OF assms, of tmsi t] have r: "RrcUpdateMTmsi s p tmsi t = Some (p, s)" by auto
  show thesis
    by (rule that [OF r rrc_effect_refl [OF assms(1)], of "rr_ueIdentity c"]) (use True assms(3) in auto)
next
  case False
  with RrcUpdateMTmsi_effect [OF assms, of tmsi t] obtain s' where s':
    "RrcUpdateMTmsi s p tmsi t = Some (p, s')" "rrc_effect {} s s'" "gRrcUeContextList s' = gRrcUeContextList s"
    "us_trace s' = us_trace s"
    "us_heap s' p = Some (RrcObj (c\<lparr>rr_ueIdentity := with_msg_type t ((rr_ueIdentity c)
       \<lparr>ui_mTmsiPresent := TRUE8, ui_mTmsi := tmsi\<rparr>)\<rparr>))"
    "if ui_mTmsiPresent (rr_ueIdentity c) \<noteq> 0 then old_identity_waits s s' c
     else gReadyRrcUeContextList s' = gReadyRrcUeContextList s"
    by (simp only: if_False) blast
  show thesis
    by (rule that [OF s'(1,2,5)]) (use s'(3,4,6) False in \<open>simp_all add: with_msg_type_def\<close>)
qed

lemma RrcCreate_spare:
  assumes "heap_ok s" "spare (Suc n) s"
  obtains p s' where "RrcCreateUeContext s r = Some (p, s')" "p \<noteq> NULL"
proof -
  let ?c = "RrcObj \<lparr>rr_idleCount = 0, rr_rnti = r, rr_rrcSetupComplRecvdFlag = 0, rr_deleteFlag = 0,
    rr_ueIdentity = blank_identity\<rparr>"
  have l: "sizeof_RrcUeContext \<le> 65536" by simp
  obtain p m' where "new_obj s sizeof_RrcUeContext ?c = Some (p, put_obj p ?c (s\<lparr>us_mem := m'\<rparr>))" "p \<noteq> NULL"
    by (rule new_obj_spare [OF assms l])
  then show thesis by (intro that) (simp_all add: RrcCreateUeContext_def)
qed

text \<open>
  An identity that arrives for a context of the table is stored in it, in the other's
  place if it differs, and no identity is lost: before a different IMSI or M-TMSI is
  overwritten, a copy of the context with the old identities is queued for the report, unless
  no block is free for it.  The same identity again changes nothing.
\<close>

theorem identities_stored_and_kept:
  assumes "rrc_ok s" "p \<in> set (gRrcUeContextList s)" "us_heap s p = Some (RrcObj c)"
  shows "\<exists>s1 s2 c1 c2. RrcUpdateImsi s p imsi t = Some (p, s1) \<and> us_heap s1 p = Some (RrcObj c1) \<and>
    take 15 (ui_imsi (rr_ueIdentity c1)) = take 15 (imsi_digits imsi) \<and> ui_imsiPresent (rr_ueIdentity c1) \<noteq> 0 \<and>
    ui_mTmsi (rr_ueIdentity c1) = ui_mTmsi (rr_ueIdentity c) \<and>
    ui_mTmsiPresent (rr_ueIdentity c1) = ui_mTmsiPresent (rr_ueIdentity c) \<and>
    RrcUpdateMTmsi s p tmsi t = Some (p, s2) \<and> us_heap s2 p = Some (RrcObj c2) \<and>
    ui_mTmsi (rr_ueIdentity c2) = tmsi \<and> ui_mTmsiPresent (rr_ueIdentity c2) \<noteq> 0 \<and>
    ui_imsi (rr_ueIdentity c2) = ui_imsi (rr_ueIdentity c) \<and>
    ui_imsiPresent (rr_ueIdentity c2) = ui_imsiPresent (rr_ueIdentity c) \<and>
    (ui_imsiPresent (rr_ueIdentity c) \<noteq> 0 \<longrightarrow>
      (if take 15 (ui_imsi (rr_ueIdentity c)) = take 15 (imsi_digits imsi) then s1 = s else old_identity_waits s s1 c)) \<and>
    (ui_mTmsiPresent (rr_ueIdentity c) \<noteq> 0 \<longrightarrow>
      (if ui_mTmsi (rr_ueIdentity c) = tmsi then s2 = s else old_identity_waits s s2 c)) \<and>
    rrc_effect {} s s1 \<and> rrc_effect {} s s2"
proof -
  obtain s1 u1 where 1: "RrcUpdateImsi s p imsi t = Some (p, s1)" "rrc_effect {} s s1"
    "us_heap s1 p = Some (RrcObj (c\<lparr>rr_ueIdentity := u1\<rparr>))"
    "take 15 (ui_imsi u1) = take 15 (imsi_digits imsi)" "ui_imsiPresent u1 \<noteq> 0"
    "ui_mTmsi u1 = ui_mTmsi (rr_ueIdentity c)" "ui_mTmsiPresent u1 = ui_mTmsiPresent (rr_ueIdentity c)"
    "ui_imsiPresent (rr_ueIdentity c) \<noteq> 0 \<longrightarrow>
      (if take 15 (ui_imsi (rr_ueIdentity c)) = take 15 (imsi_digits imsi) then s1 = s else old_identity_waits s s1 c)"
    by (rule RrcUpdateImsi_stored [OF assms, of imsi t]) blast
  obtain s2 u2 where 2: "RrcUpdateMTmsi s p tmsi t = Some (p, s2)" "rrc_effect {} s s2"
    "us_heap s2 p = Some (RrcObj (c\<lparr>rr_ueIdentity := u2\<rparr>))"
    "ui_mTmsi u2 = tmsi" "ui_mTmsiPresent u2 \<noteq> 0"
    "ui_imsi u2 = ui_imsi (rr_ueIdentity c)" "ui_imsiPresent u2 = ui_imsiPresent (rr_ueIdentity c)"
    "ui_mTmsiPresent (rr_ueIdentity c) \<noteq> 0 \<longrightarrow>
      (if ui_mTmsi (rr_ueIdentity c) = tmsi then s2 = s else old_identity_waits s s2 c)"
    by (rule RrcUpdateMTmsi_stored [OF assms, of tmsi t]) blast
  show ?thesis
    by (intro exI [of _ s1] exI [of _ s2] exI [of _ "c\<lparr>rr_ueIdentity := u1\<rparr>"] exI [of _ "c\<lparr>rr_ueIdentity := u2\<rparr>"])
      (use 1 2 in simp)
qed

theorem identities_stored_and_kept_witness:
  "case RrcCreateUeContext idle_state 61 of None \<Rightarrow> False | Some (p, s) \<Rightarrow>
     \<exists>s1 s2 c1 c2. RrcUpdateImsi s p [4, 6, 0] 0xFF = Some (p, s1) \<and> us_heap s1 p = Some (RrcObj c1) \<and>
       take 3 (ui_imsi (rr_ueIdentity c1)) = [0x34, 0x36, 0x30] \<and>
       RrcUpdateMTmsi s p 77 0xFF = Some (p, s2) \<and> us_heap s2 p = Some (RrcObj c2) \<and> ui_mTmsi (rr_ueIdentity c2) = 77"
proof -
  have sp: "spare (Suc 5) idle_state" using idle_spare by simp
  obtain p s where s: "RrcCreateUeContext idle_state 61 = Some (p, s)" "p \<noteq> NULL"
    by (rule RrcCreate_spare [OF idle_state_ok(1) sp])
  then have "rrc_ok s \<and> rrc_tbl s = [(p, 61)]"
    using rrc_create_ok [OF idle_tables(3), of 61] idle_tables(4) by auto
  then have t: "rrc_ok s" "p \<in> set (gRrcUeContextList s)" by (auto simp: rrc_tbl_def)
  obtain c where c: "us_heap s p = Some (RrcObj c)" using rrc_tbl_entry [OF t] by metis
  obtain s1 s2 c1 c2 where u: "RrcUpdateImsi s p [4, 6, 0] 0xFF = Some (p, s1)" "us_heap s1 p = Some (RrcObj c1)"
    "take 15 (ui_imsi (rr_ueIdentity c1)) = take 15 (imsi_digits [4, 6, 0])"
    "RrcUpdateMTmsi s p 77 0xFF = Some (p, s2)" "us_heap s2 p = Some (RrcObj c2)" "ui_mTmsi (rr_ueIdentity c2) = 77"
    using identities_stored_and_kept [OF t c, where imsi = "[4, 6, 0]" and t = "0xFF" and tmsi = 77] by blast
  have "take 3 (ui_imsi (rr_ueIdentity c1)) = take 3 (take 15 (ui_imsi (rr_ueIdentity c1)))" by simp
  then have "take 3 (ui_imsi (rr_ueIdentity c1)) = [0x34, 0x36, 0x30]" unfolding u(3) by (simp add: imsi_digits_def)
  with s u show ?thesis by auto
qed

section \<open>The NAS handlers\<close>

lemma RrcUeDataInd_effect:
  assumes "rrc_ok s" "us_heap s p = Some (RrcObj c)"
  shows "RrcUeDataInd s p = Some (emit (Ip_Rrc_Data c) s)" "rrc_effect {} s (emit (Ip_Rrc_Data c) s)"
  using assms heap_nonnull [OF rrc_okD(1) [OF assms(1)] assms(2)]
  by (simp_all add: RrcUeDataInd_def get_obj_def the_rrc_def rrc_view_emit rrc_effect_refl)

text \<open>Obtain a context and do something with it.\<close>

lemma with_context_effect:
  assumes ok: "rrc_ok s"
    and body: "\<And>p c s1. rrc_ok s1 \<Longrightarrow> p \<in> set (gRrcUeContextList s1) \<Longrightarrow> us_heap s1 p = Some (RrcObj c) \<Longrightarrow>
      rr_rnti c = r \<Longrightarrow> \<exists>s2. X p s1 = Some s2 \<and> rrc_effect {} s1 s2"
  shows "\<exists>s'. do { (p, s) \<leftarrow> rrc_obtain s r; if p = NULL then Some s else X p s } = Some s' \<and> rrc_effect {} s s'"
  using ok
proof (cases rule: rrc_obtain_cases [of s r])
  case full
  then show ?thesis by (simp add: rrc_effect_refl [OF ok])
next
  case (entry p s1 c)
  obtain s2 where s2: "X p s1 = Some s2" "rrc_effect {} s1 s2"
    using body [OF rrc_effect_ok [OF entry(3)] entry(4,5,6)] by blast
  with entry rrc_effect_trans0 [OF entry(3) s2(2)] show ?thesis by simp
qed

text \<open>Take a block for a message structure, and release it in the end.\<close>

lemma with_block_effect:
  assumes ok: "rrc_ok s"
    and body: "\<And>q m1. q \<noteq> NULL \<Longrightarrow> rrc_ok (s\<lparr>us_mem := m1\<rparr>) \<Longrightarrow> mem_kept (live (us_mem s)) (us_mem s) m1 \<Longrightarrow>
      raw (s\<lparr>us_mem := m1\<rparr>) = insert q (raw s) \<Longrightarrow>
      \<exists>s2. X (s\<lparr>us_mem := m1\<rparr>) = Some s2 \<and> rrc_effect {} (s\<lparr>us_mem := m1\<rparr>) s2"
  shows "\<exists>s'. do { (q, s) \<leftarrow> us_alloc s len; if q = NULL then Some s else do { s \<leftarrow> X s; us_free s q } } = Some s' \<and>
    rrc_effect {} s s'"
  using ok
proof (cases rule: temp_block [of s len])
  case none
  then show ?thesis by (simp add: rrc_effect_refl [OF ok])
next
  case (block q m1)
  obtain s2 where s2: "X (s\<lparr>us_mem := m1\<rparr>) = Some s2" "rrc_effect {} (s\<lparr>us_mem := m1\<rparr>) s2"
    using body [OF block(2,3,6,4)] by blast
  from block(8) [OF s2(2)] block(1,2) s2(1) show ?thesis by auto
qed

lemma update_then_report:
  assumes ok: "rrc_ok s" and p: "p \<in> set (gRrcUeContextList s)" "us_heap s p = Some (RrcObj c)"
  shows "\<exists>s'. do { (p, s) \<leftarrow> RrcUpdateImsi s p imsi t; RrcUeDataInd s p } = Some s' \<and> rrc_effect {} s s'"
    "\<exists>s'. do { (p, s) \<leftarrow> RrcUpdateMTmsi s p tmsi t; RrcUeDataInd s p } = Some s' \<and> rrc_effect {} s s'"
proof -
  obtain s1 u1 where s1: "RrcUpdateImsi s p imsi t = Some (p, s1)" "rrc_effect {} s s1"
    "us_heap s1 p = Some (RrcObj (c\<lparr>rr_ueIdentity := u1\<rparr>))"
    by (rule RrcUpdateImsi_stored [OF ok p, of imsi t])
  note r1 = RrcUeDataInd_effect [OF rrc_effect_ok [OF s1(2)] s1(3)]
  show "\<exists>s'. do { (p, s) \<leftarrow> RrcUpdateImsi s p imsi t; RrcUeDataInd s p } = Some s' \<and> rrc_effect {} s s'"
    using s1(1) r1(1) rrc_effect_trans0 [OF s1(2) r1(2)] by simp
  obtain s2 u2 where s2: "RrcUpdateMTmsi s p tmsi t = Some (p, s2)" "rrc_effect {} s s2"
    "us_heap s2 p = Some (RrcObj (c\<lparr>rr_ueIdentity := u2\<rparr>))"
    by (rule RrcUpdateMTmsi_stored [OF ok p, of tmsi t])
  note r2 = RrcUeDataInd_effect [OF rrc_effect_ok [OF s2(2)] s2(3)]
  show "\<exists>s'. do { (p, s) \<leftarrow> RrcUpdateMTmsi s p tmsi t; RrcUeDataInd s p } = Some s' \<and> rrc_effect {} s s'"
    using s2(1) r2(1) rrc_effect_trans0 [OF s2(2) r2(2)] by simp
qed

lemma rrc_report_eps_id_effect:
  assumes "rrc_ok s"
  shows "\<exists>s'. rrc_report_eps_id s r ty tmsi i t = Some s' \<and> rrc_effect {} s s'"
  unfolding rrc_report_eps_id_def
proof (rule with_context_effect [OF assms])
  fix p c s1 assume a: "rrc_ok s1" "p \<in> set (gRrcUeContextList s1)" "us_heap s1 p = Some (RrcObj c)" "rr_rnti c = r"
  show "\<exists>s2. do { (p, s) \<leftarrow> (if em_type_of_id i = ty then RrcUpdateMTmsi s1 p tmsi t
      else if em_type_of_id i = 1 then RrcUpdateImsi s1 p (em_imsi i) t else Some (p, s1));
      RrcUeDataInd s p } = Some s2 \<and> rrc_effect {} s1 s2"
    using update_then_report(1) [OF a(1-3), of "em_imsi i" t] update_then_report(2) [OF a(1-3), of tmsi t]
      RrcUeDataInd_effect [OF a(1,3)] by (cases "em_type_of_id i = ty"; cases "em_type_of_id i = 1") simp_all
qed

lemma kpi_report_effect:
  assumes "rrc_ok s"
  shows "\<exists>s'. rrc_report_eps_id (kpi f s) r ty tmsi i t = Some s' \<and> rrc_effect {} s s'"
  using rrc_report_eps_id_effect [of "kpi f s" r ty tmsi i t] assms by (simp add: rrc_view_kpi)

lemma RrcDecodeIdentityResponse_effect:
  assumes ok: "rrc_ok s"
  shows "\<exists>s'. RrcDecodeIdentityResponse s r m = Some s' \<and> rrc_effect {} s s'"
proof -
  obtain e d where d: "liblte_mme_unpack_identity_response_msg m blank_id_response = Some (e, d)"
    using nas_fixed_total by fastforce
  show ?thesis unfolding RrcDecodeIdentityResponse_def d bind.bind_lunit prod.case
  proof (rule with_block_effect [OF ok])
    fix q m1 assume "rrc_ok (s\<lparr>us_mem := m1\<rparr>)"
    then have ok1: "rrc_ok (kpi f (s\<lparr>us_mem := m1\<rparr>))" for f by (simp add: rrc_view_kpi)
    let ?s = "kpi (\<lambda>k. k\<lparr>k_idResp := k_idResp k + 1\<rparr>) (s\<lparr>us_mem := m1\<rparr>)"
    have "\<exists>s'. do { (p, s) \<leftarrow> rrc_obtain ?s r; if p = NULL then Some s
       else do { (p, s) \<leftarrow> RrcUpdateImsi s p (mi_imsi (ir_mobile_id d)) 0xFF; RrcUeDataInd s p } } = Some s' \<and>
       rrc_effect {} ?s s'"
      by (intro with_context_effect ok1 update_then_report)
    then show "\<exists>s2. (if e = LIBLTE_SUCCESS then
         (let s = kpi (\<lambda>k. k\<lparr>k_idResp := k_idResp k + 1\<rparr>) (s\<lparr>us_mem := m1\<rparr>) in
          if mi_type_of_id (ir_mobile_id d) = 1 then do {
            (p, s) \<leftarrow> rrc_obtain s r;
            if p = NULL then Some s
            else do { (p, s) \<leftarrow> RrcUpdateImsi s p (mi_imsi (ir_mobile_id d)) 0xFF; RrcUeDataInd s p }
          } else Some s)
       else Some (s\<lparr>us_mem := m1\<rparr>)) = Some s2 \<and> rrc_effect {} (s\<lparr>us_mem := m1\<rparr>) s2"
      using ok1 \<open>rrc_ok (s\<lparr>us_mem := m1\<rparr>)\<close>
      by (simp add: Let_def rrc_view_kpi rrc_effect_refl)
  qed
qed

lemma report_or_skip:
  assumes "rrc_ok (s\<lparr>us_mem := m1\<rparr>)"
  shows "\<exists>s2. (if e = LIBLTE_SUCCESS then rrc_report_eps_id (kpi f (s\<lparr>us_mem := m1\<rparr>)) r ty tmsi i t
      else Some (s\<lparr>us_mem := m1\<rparr>)) = Some s2 \<and> rrc_effect {} (s\<lparr>us_mem := m1\<rparr>) s2"
  using kpi_report_effect [OF assms] assms by (simp add: rrc_effect_refl)

lemma RrcDecodeAttachReq_effect:
  assumes ok: "rrc_ok s" and d: "liblte_mme_unpack_attach_request_msg m blank_attach = Some (e, d)"
  shows "\<exists>s'. RrcDecodeAttachReq s r m = Some s' \<and> rrc_effect {} s s'"
  unfolding RrcDecodeAttachReq_def d bind.bind_lunit prod.case
  by (intro with_block_effect [OF ok] report_or_skip)

lemma request_handlers_effect:
  assumes ok: "rrc_ok s"
  shows "\<exists>s'. RrcDecodeDetachReq s r m = Some s' \<and> rrc_effect {} s s'"
    "\<exists>s'. RrcDecodeExtServiceReq s r m = Some s' \<and> rrc_effect {} s s'"
    "\<exists>s'. RrcDecodeTauReq s r m = Some s' \<and> rrc_effect {} s s'"
proof -
  obtain e1 d1 e2 d2 e3 d3 where d: "liblte_mme_unpack_detach_request_msg m blank_detach = Some (e1, d1)"
    "liblte_mme_unpack_ext_service_request_msg m blank_ext_service = Some (e2, d2)"
    "liblte_mme_unpack_tau_request_msg m blank_tau = Some (e3, d3)"
    using nas_fixed_total by (metis option.exhaust surj_pair)
  show "\<exists>s'. RrcDecodeDetachReq s r m = Some s' \<and> rrc_effect {} s s'"
    unfolding RrcDecodeDetachReq_def d bind.bind_lunit prod.case
    by (intro with_block_effect [OF ok] report_or_skip)
  show "\<exists>s'. RrcDecodeExtServiceReq s r m = Some s' \<and> rrc_effect {} s s'"
    unfolding RrcDecodeExtServiceReq_def d bind.bind_lunit prod.case
    by (intro with_block_effect [OF ok] report_or_skip)
  show "\<exists>s'. RrcDecodeTauReq s r m = Some s' \<and> rrc_effect {} s s'"
    unfolding RrcDecodeTauReq_def d bind.bind_lunit prod.case
    by (intro with_block_effect [OF ok] report_or_skip)
qed

lemma RrcDecodeServiceReq_effect:
  assumes ok: "rrc_ok s"
  shows "\<exists>s'. RrcDecodeServiceReq s r m = Some s' \<and> rrc_effect {} s s'"
proof -
  let ?s = "kpi (\<lambda>k. k\<lparr>k_servReq := k_servReq k + 1\<rparr>) s"
  have ok1: "rrc_ok ?s" using ok by (simp add: rrc_view_kpi)
  have "\<exists>s'. do { (p, s) \<leftarrow> rrc_obtain ?s r; if p = NULL then Some s
     else do {
       c \<leftarrow> get_obj the_rrc s p;
       let c = c\<lparr>rr_ueIdentity := (rr_ueIdentity c)\<lparr>ui_msgType := SERVICE_REQUEST\<rparr>\<rparr>;
       Some (emit (Ip_Rrc_Data c) (put_obj p (RrcObj c) s)) } } = Some s' \<and> rrc_effect {} ?s s'"
  proof (rule with_context_effect [OF ok1])
    fix p c s1 assume a: "rrc_ok s1" "p \<in> set (gRrcUeContextList s1)" "us_heap s1 p = Some (RrcObj c)" "rr_rnti c = r"
    let ?c = "c\<lparr>rr_ueIdentity := (rr_ueIdentity c)\<lparr>ui_msgType := SERVICE_REQUEST\<rparr>\<rparr>"
    have "rrc_effect {} s1 (put_obj p (RrcObj ?c) s1)"
      using rrc_okD(4) [OF a(1-3)] by (intro rrc_put_effect(1) [OF a(1-3)]) simp_all
    then show "\<exists>s2. do { c \<leftarrow> get_obj the_rrc s1 p;
       let c = c\<lparr>rr_ueIdentity := (rr_ueIdentity c)\<lparr>ui_msgType := SERVICE_REQUEST\<rparr>\<rparr>;
       Some (emit (Ip_Rrc_Data c) (put_obj p (RrcObj c) s1)) } = Some s2 \<and> rrc_effect {} s1 s2"
      using a(3) by (simp add: get_obj_def the_rrc_def Let_def rrc_view_emit)
  qed
  then show ?thesis by (simp add: RrcDecodeServiceReq_def Let_def rrc_view_kpi)
qed

text \<open>
  The NAS parsers of fixed size never fail; an attach request can make its parser read behind
  the message, so its messages are those for which the parser stays inside.
\<close>

definition nas_ok :: "simple_msg \<Rightarrow> bool" where
  "nas_ok m \<longleftrightarrow> (case liblte_mme_parse_msg_header m of
     Some (pd, t) \<Rightarrow> t = 0x41 \<longrightarrow> liblte_mme_unpack_attach_request_msg m blank_attach \<noteq> None
   | None \<Rightarrow> False)"

lemma RrcParseNasMsg_effect:
  assumes ok: "rrc_ok s" and m: "nas_ok m"
  shows "\<exists>t s'. RrcParseNasMsg s r m = Some (t, s') \<and> rrc_effect {} s s'"
proof -
  obtain pd t where h: "liblte_mme_parse_msg_header m = Some (pd, t)"
    using m by (auto simp: nas_ok_def split: option.splits)
  have "\<exists>s'. RrcDecodeAttachReq s r m = Some s' \<and> rrc_effect {} s s'" if "t = 0x41"
    using m h that by (auto simp: nas_ok_def intro: RrcDecodeAttachReq_effect [OF ok])
  with h RrcDecodeIdentityResponse_effect [OF ok, of r m] request_handlers_effect [OF ok, of r m]
    RrcDecodeServiceReq_effect [OF ok, of r m] rrc_effect_refl [OF ok]
  show ?thesis
    by (cases "t = 0x56"; cases "t = 0x41"; cases "t = 0x48"; cases "t = 0x45"; cases "t = 0x4C"; cases "t = 0xC")
      (auto simp: RrcParseNasMsg_def)
qed

section \<open>RRC messages\<close>

lemma count_rb_total:
  "i + n \<le> MAX_RLC_SEGMENTS_NUM \<Longrightarrow> (\<And>j. j < i + n \<Longrightarrow> ur_rbNum (ur_info l j) \<noteq> 0) \<Longrightarrow>
    \<exists>a'. count_rb n i l a = Some a'"
proof (induction n arbitrary: i a)
  case (Suc n)
  have "unat (ur_rbNum (ur_info l i)) \<noteq> 0" using Suc.prems(2) [of i] by (simp add: unat_eq_0)
  with Suc show ?case by (simp add: Let_def)
qed simp

text \<open>The report list that comes with a message: at most ten grants, none of them empty.\<close>

definition report_ok :: "UlReportInfoList option \<Rightarrow> bool" where
  "report_ok rpt \<longleftrightarrow> (\<exists>l. rpt = Some l \<and> unat (ur_count l) \<le> MAX_RLC_SEGMENTS_NUM \<and>
     (\<forall>j<unat (ur_count l). ur_rbNum (ur_info l j) \<noteq> 0))"

lemma report_ok_count:
  assumes "report_ok rpt"
  obtains l where "rpt = Some l" "\<And>a. \<exists>a'. count_rb (unat (ur_count l)) 0 l a = Some a'"
  using assms count_rb_total [of 0] by (auto simp: report_ok_def)

lemma release_effect:
  assumes ok: "rrc_ok s" and p: "p \<in> raw s"
  shows "\<exists>m. us_free s p = Some (s\<lparr>us_mem := m\<rparr>) \<and> rrc_effect {p} s (s\<lparr>us_mem := m\<rparr>)"
proof -
  obtain m where m: "us_free s p = Some (s\<lparr>us_mem := m, us_heap := (us_heap s)(p := None)\<rparr>)"
    "mem_inv m" "live m = live (us_mem s) - {p}" "mem_kept (live (us_mem s) - {p}) (us_mem s) m"
    using us_free_live [OF rrc_okD(1) [OF ok] raw_live(1) [OF p]] by metis
  have h: "(us_heap s)(p := None) = us_heap s" using raw_live(2) [OF p] by auto
  have "rrc_ok (s\<lparr>us_mem := m\<rparr>)" using ok m(2,3) raw_live(2) [OF p] by (auto simp: rrc_ok_def heap_ok_def)
  moreover have "raw (s\<lparr>us_mem := m\<rparr>) = raw s - {p}" using m(3) by (auto simp: raw_def)
  moreover have "others_same s (s\<lparr>us_mem := m\<rparr>)" by (simp add: others_same_def)
  moreover have "rrc_tbl (s\<lparr>us_mem := m\<rparr>) = rrc_tbl s" by (simp add: rrc_tbl_def rrc_rnti_def get_obj_def)
  ultimately show ?thesis using m(1,4) h by (auto simp: rrc_effect_def)
qed

text \<open>
  A DCCH message whose NAS message, if it can be decoded, does not lead its parser outside.
\<close>

definition dcch_ok :: "ulp_state \<Rightarrow> ptr \<Rightarrow> u16 \<Rightarrow> bool" where
  "dcch_ok s pData sz \<longleftrightarrow> (case mem_byte (us_mem s) pData 0 of None \<Rightarrow> False | Some b0 \<Rightarrow>
     (drop_bit 3 b0 AND 0x0F = 9 \<longrightarrow>
       (case Asn1ParseUlInfoTransMsg (us_bits s) (mem_byte (us_mem s) pData) (ucast sz) (junk_info s) of
          Some (e, r, b) \<Rightarrow> e = LIBLTE_SUCCESS \<longrightarrow> nas_ok (dedicated_info r) | None \<Rightarrow> True)) \<and>
     (drop_bit 3 b0 AND 0x0F = 4 \<longrightarrow>
       (case Asn1ParseRrcSetupComplMsg (us_bits s) (mem_byte (us_mem s) pData) (ucast sz) (junk_setup s) of
          Some (e, r, b) \<Rightarrow> e = LIBLTE_SUCCESS \<longrightarrow> nas_ok (dedicated_info_nas r) | None \<Rightarrow> True)))"

lemma dcch_decodes:
  assumes "reads rd bs" "length bs < 2 ^ 16" "length bs \<noteq> LIBLTE_MAX_MSG_SIZE_BYTES" "bs \<noteq> []"
  shows "\<exists>e d b'. Asn1ParseUlInfoTransMsg b rd (of_nat (length bs)) m1 = Some (e, d, b')"
    "\<exists>e d b'. Asn1ParseRrcSetupComplMsg b rd (of_nat (length bs)) m2 = Some (e, d, b')"
proof -
  consider "length bs < LIBLTE_MAX_MSG_SIZE_BYTES" | "LIBLTE_MAX_MSG_SIZE_BYTES < length bs"
    using assms(3) by linarith
  note c = this
  have n: "unat (push_bit 3 (of_nat (length bs)) :: u32) = 8 * length bs"
    using assms(2) by (simp add: push_bit_eq_mult unat_word_ariths unat_of_nat_small)
  show "\<exists>e d b'. Asn1ParseUlInfoTransMsg b rd (of_nat (length bs)) m1 = Some (e, d, b')"
    using c
  proof cases
    case 1
    from ul_info_total [OF this assms(1,4), of b m1] show ?thesis by auto
  next
    case 2
    with n show ?thesis by (simp add: Asn1ParseUlInfoTransMsg_def Let_def)
  qed
  show "\<exists>e d b'. Asn1ParseRrcSetupComplMsg b rd (of_nat (length bs)) m2 = Some (e, d, b')"
    using c
  proof cases
    case 1
    from setup_complete_total [OF this assms(1,4), of b m2] show ?thesis by auto
  next
    case 2
    with n show ?thesis by (simp add: Asn1ParseRrcSetupComplMsg_def Let_def)
  qed
qed

lemma rrc_free_temp:
  assumes "\<exists>t s2. X = Some (t, s2) \<and> rrc_effect {} s1 s2"
    and "\<And>s2. rrc_effect {} s1 s2 \<Longrightarrow> \<exists>m2. us_free s2 q = Some (s2\<lparr>us_mem := m2\<rparr>) \<and> rrc_effect {} s (s2\<lparr>us_mem := m2\<rparr>)"
  shows "\<exists>t s'. do { (t, s) \<leftarrow> X; s \<leftarrow> us_free s q; Some (t, s) } = Some (t, s') \<and> rrc_effect {} s s'"
proof -
  obtain t s2 where "X = Some (t, s2)" "rrc_effect {} s1 s2" using assms(1) by blast
  with assms(2) [of s2] show ?thesis by auto
qed

lemma dcch_info_effect:
  assumes ok: "rrc_ok s" and p: "pData \<in> live (us_mem s)" and rpt: "report_ok rpt"
    and dec: "Asn1ParseUlInfoTransMsg (us_bits s) (mem_byte (us_mem s) pData) (ucast sz) (junk_info s) = Some (e, d, b)"
    and nas: "e = LIBLTE_SUCCESS \<longrightarrow> nas_ok (dedicated_info d)"
  shows "\<exists>t s'. (let junk = junk_info s in do {
      (q, s) \<leftarrow> us_alloc s sizeof_UlInfoTransfer;
      if q = NULL then Some (0xFF, s)
      else do {
        let s = s\<lparr>us_tick := us_tick s + 1\<rparr>;
        (err, r, bits) \<leftarrow> Asn1ParseUlInfoTransMsg (us_bits s) (mem_byte (us_mem s) pData) (ucast sz) junk;
        let s = s\<lparr>us_bits := bits\<rparr>;
        (t, s) \<leftarrow>
          (if err = LIBLTE_SUCCESS \<and> dedicated_info_type r = 0 then do {
             (t, s) \<leftarrow> RrcParseNasMsg s rnti (dedicated_info r);
             if t = 0x56 then do {
               l \<leftarrow> rpt;
               a \<leftarrow> count_rb (unat (ur_count l)) 0 l (k_idRespRbNum (us_kpi s));
               Some (t, kpi (\<lambda>k. k\<lparr>k_idRespRbNum := a\<rparr>) s)
             } else Some (t, s)
           } else Some (0xFF, s));
        s \<leftarrow> us_free s q;
        Some (t, s)
      } }) = Some (t, s') \<and> rrc_effect {} s s'"
  using ok
proof (cases rule: temp_block [of s sizeof_UlInfoTransfer])
  case none
  then show ?thesis by (simp add: rrc_effect_refl [OF ok] Let_def)
next
  case (block q m1)
  let ?s1 = "s\<lparr>us_mem := m1\<rparr>\<lparr>us_tick := us_tick s + 1\<rparr>\<lparr>us_bits := b\<rparr>"
  have rd: "mem_byte m1 pData = mem_byte (us_mem s) pData" by (rule mem_kept_blk(5) [OF block(6) p])
  have v: "rrc_view ?s1 = rrc_view (s\<lparr>us_mem := m1\<rparr>)" by simp
  then have ok1: "rrc_ok ?s1" using block(3) rrc_view_cong(1) by blast
  obtain l where l: "rpt = Some l" "\<And>a. \<exists>a'. count_rb (unat (ur_count l)) 0 l a = Some a'"
    using report_ok_count [OF rpt] by blast
  let ?X = "if e = LIBLTE_SUCCESS \<and> dedicated_info_type d = 0 then do {
             (t, s) \<leftarrow> RrcParseNasMsg ?s1 rnti (dedicated_info d);
             if t = 0x56 then do {
               l \<leftarrow> rpt;
               a \<leftarrow> count_rb (unat (ur_count l)) 0 l (k_idRespRbNum (us_kpi s));
               Some (t, kpi (\<lambda>k. k\<lparr>k_idRespRbNum := a\<rparr>) s)
             } else Some (t, s)
           } else Some (0xFF, ?s1)"
  have X: "\<exists>t s2. ?X = Some (t, s2) \<and> rrc_effect {} (s\<lparr>us_mem := m1\<rparr>) s2"
  proof (cases "e = LIBLTE_SUCCESS \<and> dedicated_info_type d = 0")
    case True
    obtain t s2 where n: "RrcParseNasMsg ?s1 rnti (dedicated_info d) = Some (t, s2)" "rrc_effect {} ?s1 s2"
      using RrcParseNasMsg_effect [OF ok1] nas True by blast
    from n(2) have e2: "rrc_effect {} (s\<lparr>us_mem := m1\<rparr>) s2" using rrc_view_cong(2) [OF v] by blast
    obtain a where "count_rb (unat (ur_count l)) 0 l (k_idRespRbNum (us_kpi s2)) = Some a" using l(2) by blast
    with n(1) e2 True l(1) show ?thesis by (simp add: rrc_view_kpi)
  next
    case False
    have "rrc_effect {} (s\<lparr>us_mem := m1\<rparr>) ?s1"
      using rrc_effect_refl [OF block(3)] rrc_view_cong(3) [OF v] by blast
    with False show ?thesis by auto
  qed
  from rrc_free_temp [OF X block(8)]
  show ?thesis
    using block(1,2) by (cases "e = LIBLTE_SUCCESS \<and> dedicated_info_type d = 0") (auto simp: rd dec Let_def)
qed

lemma dcch_setup_effect:
  assumes ok: "rrc_ok s" and p: "pData \<in> live (us_mem s)" and rpt: "report_ok rpt"
    and dec: "Asn1ParseRrcSetupComplMsg (us_bits s) (mem_byte (us_mem s) pData) (ucast sz) (junk_setup s) = Some (e, d, b)"
    and nas: "e = LIBLTE_SUCCESS \<longrightarrow> nas_ok (dedicated_info_nas d)"
  shows "\<exists>t s'. (let junk = junk_setup s in do {
      (q, s) \<leftarrow> us_alloc s sizeof_SetupComplete;
      if q = NULL then Some (0xFF, s)
      else do {
        let s = s\<lparr>us_tick := us_tick s + 1\<rparr>;
        (err, r, bits) \<leftarrow> Asn1ParseRrcSetupComplMsg (us_bits s) (mem_byte (us_mem s) pData) (ucast sz) junk;
        let s = s\<lparr>us_bits := bits\<rparr>;
        (t, s) \<leftarrow>
          (if err = LIBLTE_SUCCESS then do {
             let s = kpi (\<lambda>k. k\<lparr>k_rrcSetupCompl := k_rrcSetupCompl k + 1\<rparr>) s;
             (t, s) \<leftarrow> RrcParseNasMsg s rnti (dedicated_info_nas r);
             l \<leftarrow> rpt;
             a \<leftarrow> count_rb (unat (ur_count l)) 0 l (k_rrcSetupComplRbNum (us_kpi s));
             Some (t, kpi (\<lambda>k. k\<lparr>k_rrcSetupComplRbNum := a\<rparr>) s)
           } else Some (0xFF, s));
        s \<leftarrow> us_free s q;
        Some (t, s)
      } }) = Some (t, s') \<and> rrc_effect {} s s'"
  using ok
proof (cases rule: temp_block [of s sizeof_SetupComplete])
  case none
  then show ?thesis by (simp add: rrc_effect_refl [OF ok] Let_def)
next
  case (block q m1)
  let ?s1 = "s\<lparr>us_mem := m1\<rparr>\<lparr>us_tick := us_tick s + 1\<rparr>\<lparr>us_bits := b\<rparr>"
  let ?s2 = "kpi (\<lambda>k. k\<lparr>k_rrcSetupCompl := k_rrcSetupCompl k + 1\<rparr>) ?s1"
  have rd: "mem_byte m1 pData = mem_byte (us_mem s) pData" by (rule mem_kept_blk(5) [OF block(6) p])
  have v: "rrc_view ?s1 = rrc_view (s\<lparr>us_mem := m1\<rparr>)" "rrc_view ?s2 = rrc_view (s\<lparr>us_mem := m1\<rparr>)" by simp_all
  then have ok2: "rrc_ok ?s2" using block(3) rrc_view_cong(1) by blast
  obtain l where l: "rpt = Some l" "\<And>a. \<exists>a'. count_rb (unat (ur_count l)) 0 l a = Some a'"
    using report_ok_count [OF rpt] by blast
  let ?X = "if e = LIBLTE_SUCCESS then do {
             (t, s) \<leftarrow> RrcParseNasMsg ?s2 rnti (dedicated_info_nas d);
             l \<leftarrow> rpt;
             a \<leftarrow> count_rb (unat (ur_count l)) 0 l (k_rrcSetupComplRbNum (us_kpi s));
             Some (t, kpi (\<lambda>k. k\<lparr>k_rrcSetupComplRbNum := a\<rparr>) s)
           } else Some (0xFF, ?s1)"
  have X: "\<exists>t s2. ?X = Some (t, s2) \<and> rrc_effect {} (s\<lparr>us_mem := m1\<rparr>) s2"
  proof (cases "e = LIBLTE_SUCCESS")
    case True
    obtain t s2 where n: "RrcParseNasMsg ?s2 rnti (dedicated_info_nas d) = Some (t, s2)" "rrc_effect {} ?s2 s2"
      using RrcParseNasMsg_effect [OF ok2] nas True by blast
    from n(2) have e2: "rrc_effect {} (s\<lparr>us_mem := m1\<rparr>) s2" using rrc_view_cong(2) [OF v(2)] by blast
    obtain a where "count_rb (unat (ur_count l)) 0 l (k_rrcSetupComplRbNum (us_kpi s2)) = Some a" using l(2) by blast
    with n(1) e2 True l(1) show ?thesis by (simp add: rrc_view_kpi)
  next
    case False
    have "rrc_effect {} (s\<lparr>us_mem := m1\<rparr>) ?s1"
      using rrc_effect_refl [OF block(3)] rrc_view_cong(3) [OF v(1)] by blast
    with False show ?thesis by auto
  qed
  from rrc_free_temp [OF X block(8)]
  show ?thesis
    using block(1,2) by (cases "e = LIBLTE_SUCCESS") (auto simp: rd dec Let_def)
qed

lemma block_length_word: "of_nat (length (block_bytes s p (unat sz))) = (ucast (sz :: u16) :: u32)"
    "length (block_bytes s p (unat sz)) < 2 ^ 16"
  using unsigned_less [of sz, where 'a = nat] by simp_all

lemma RrcParseUlDcchMsg_effect:
  assumes ok: "rrc_ok s" and p: "pData \<in> raw s" and sz: "sz \<noteq> 0" "unat sz \<le> blk_cap (us_mem s) pData"
    "sz \<noteq> 12756" and rpt: "report_ok rpt" and d: "dcch_ok s pData sz"
  shows "\<exists>s'. RrcParseUlDcchMsg s rnti pData sz rpt = Some s' \<and> rrc_effect {pData} s s'"
proof -
  have live: "pData \<in> live (us_mem s)" by (rule raw_live(1) [OF p])
  obtain b where b: "mem_byte (us_mem s) pData 0 = Some b"
    using mem_byte_live [OF live, of 0] sz unat_gt_0 [of sz] by auto
  let ?ty = "drop_bit 3 b AND 0x0F"
  let ?bs = "block_bytes s pData (unat sz)"
  have "unat sz \<noteq> 12756" using sz(3) by (metis of_nat_numeral of_nat_unat ucast_id)
  then have bs: "length ?bs \<noteq> LIBLTE_MAX_MSG_SIZE_BYTES" "?bs \<noteq> []" using sz(1) unat_gt_0 [of sz]
    by (simp_all flip: length_greater_0_conv)
  note dec = dcch_decodes [OF reads_block [OF live sz(2)] block_length_word(2) bs, unfolded block_length_word(1)]
  obtain e1 d1 b1 where p1: "Asn1ParseUlInfoTransMsg (us_bits s) (mem_byte (us_mem s) pData) (ucast sz) (junk_info s) = Some (e1, d1, b1)"
    using dec(1) by blast
  obtain e2 d2 b2 where p2: "Asn1ParseRrcSetupComplMsg (us_bits s) (mem_byte (us_mem s) pData) (ucast sz) (junk_setup s) = Some (e2, d2, b2)"
    using dec(2) by blast
  define F where "F t s = us_free (emit (Ip_Rrc_Result rnti ?ty t) s) pData" for t s
  have fin: "\<exists>s2. F t s1 = Some s2 \<and> rrc_effect {pData} s s2" if e: "rrc_effect {} s s1" for t s1
  proof -
    have "rrc_ok (emit (Ip_Rrc_Result rnti ?ty t) s1)" using rrc_effect_ok [OF e] by (simp add: rrc_view_emit)
    moreover have "pData \<in> raw (emit (Ip_Rrc_Result rnti ?ty t) s1)"
      using p rrc_effectD(2) [OF e] by (simp add: rrc_view_emit)
    ultimately obtain m where m: "F t s1 = Some (emit (Ip_Rrc_Result rnti ?ty t) s1\<lparr>us_mem := m\<rparr>)"
      "rrc_effect {pData} (emit (Ip_Rrc_Result rnti ?ty t) s1) (emit (Ip_Rrc_Result rnti ?ty t) s1\<lparr>us_mem := m\<rparr>)"
      unfolding F_def using release_effect by blast
    define s2 where "s2 = emit (Ip_Rrc_Result rnti ?ty t) s1\<lparr>us_mem := m\<rparr>"
    have s2: "F t s1 = Some s2" "rrc_effect {pData} s1 s2" using m by (simp_all add: s2_def rrc_view_emit)
    with rrc_effect_trans [OF e s2(2)] show ?thesis by auto
  qed
  have inf: "?ty = 9 \<Longrightarrow> e1 = LIBLTE_SUCCESS \<longrightarrow> nas_ok (dedicated_info d1)"
    and stp: "?ty = 4 \<Longrightarrow> e2 = LIBLTE_SUCCESS \<longrightarrow> nas_ok (dedicated_info_nas d2)"
    using d p1 p2 b by (simp_all add: dcch_ok_def)
  have "\<exists>t s1. RrcParseUlDcchMsg s rnti pData sz rpt = F t s1 \<and> rrc_effect {} s s1"
  proof (cases "?ty = 9")
    case True
    from dcch_info_effect [OF ok live rpt p1 inf [OF True], of rnti]
    show ?thesis unfolding RrcParseUlDcchMsg_def b Let_def F_def bind.bind_lunit if_P [OF True]
      by (elim exE conjE) (simp only: bind.bind_lunit prod.case, blast)
  next
    case n9: False
    show ?thesis
    proof (cases "?ty = 4")
      case True
      from dcch_setup_effect [OF ok live rpt p2 stp [OF True], of rnti] show ?thesis
        unfolding RrcParseUlDcchMsg_def b Let_def F_def bind.bind_lunit if_not_P [OF n9] if_P [OF True]
        by (elim exE conjE) (simp only: bind.bind_lunit prod.case, blast)
    next
      case n4: False
      show ?thesis
        unfolding RrcParseUlDcchMsg_def b Let_def F_def bind.bind_lunit if_not_P [OF n9] if_not_P [OF n4] prod.case
        using rrc_effect_refl [OF ok] by blast
    qed
  qed
  with fin show ?thesis by metis
qed

lemma con_request_any:
  assumes "reads rd bs" "length bs < 2 ^ 16"
  shows "\<exists>e m' b'. Asn1ParseRrcConnReqMsg b rd (of_nat (length bs)) m = Some (e, m', b')"
proof (cases "length bs \<le> LIBLTE_MAX_MSG_SIZE_BYTES")
  case True
  with con_request_total [OF _ assms(1)] show ?thesis by blast
next
  case False
  have "unat (push_bit 3 (of_nat (length bs)) :: u32) = 8 * length bs"
    using assms(2) by (simp add: push_bit_eq_mult unat_word_ariths unat_of_nat_small)
  with False show ?thesis by (simp add: Asn1ParseRrcConnReqMsg_def Let_def)
qed

text \<open>A connection request asks for a context and there is no memory for it.\<close>

definition ccch_no_context :: "ulp_state \<Rightarrow> u16 \<Rightarrow> ptr \<Rightarrow> u16 \<Rightarrow> bool" where
  "ccch_no_context s rnti pData sz \<longleftrightarrow>
     (case mem_byte (us_mem s) pData 0 of None \<Rightarrow> False | Some b0 \<Rightarrow> drop_bit 6 b0 AND 0x01 = 1) \<and>
     (case us_alloc s sizeof_ConRequest of None \<Rightarrow> False
      | Some (q, s1) \<Rightarrow> q \<noteq> NULL \<and>
        (case Asn1ParseRrcConnReqMsg (us_bits s) (mem_byte (us_mem s) pData) (ucast sz) blank_con_request of
           None \<Rightarrow> False
         | Some (e, r, b) \<Rightarrow> e = LIBLTE_SUCCESS \<and> cr_ue_id_type r = 0 \<and>
             (case rrc_obtain (kpi (\<lambda>k. k\<lparr>k_rrcConnReq := k_rrcConnReq k + 1\<rparr>) (s1\<lparr>us_bits := b\<rparr>)) rnti of
                None \<Rightarrow> False | Some (p, s2) \<Rightarrow> p = NULL)))"

lemma connection_request_effect:
  assumes ok: "rrc_ok s"
  shows "\<exists>stop s'. do {
      (p, s) \<leftarrow> rrc_obtain s rnti;
      if p = NULL then Some (True, s)
      else do {
        (p, s) \<leftarrow> RrcUpdateMTmsi s p tmsi t;
        s \<leftarrow> RrcUeDataInd s p;
        Some (False, s)
      } } = Some (stop, s') \<and> rrc_effect {} s s' \<and>
      stop = (case rrc_obtain s rnti of None \<Rightarrow> False | Some (p, s2) \<Rightarrow> p = NULL)"
  using ok
proof (cases rule: rrc_obtain_cases [of s rnti])
  case full
  then show ?thesis by (auto simp: rrc_effect_refl [OF ok])
next
  case (entry p s1 c)
  obtain s2 where s2: "do { (p, s) \<leftarrow> RrcUpdateMTmsi s1 p tmsi t; RrcUeDataInd s p } = Some s2" "rrc_effect {} s1 s2"
    using update_then_report(2) [OF rrc_effect_ok [OF entry(3)] entry(4,5), of tmsi t] by blast
  then obtain p' s' where "RrcUpdateMTmsi s1 p tmsi t = Some (p', s')" "RrcUeDataInd s' p' = Some s2"
    by (auto simp: bind_Some_iff)
  with entry rrc_effect_trans0 [OF entry(3) s2(2)] show ?thesis by auto
qed

lemma RrcParseUlCcchMsg_effect:
  assumes ok: "rrc_ok s" and p: "pData \<in> raw s" and sz: "sz \<noteq> 0" "unat sz \<le> blk_cap (us_mem s) pData"
  shows "\<exists>s'. RrcParseUlCcchMsg s rnti pData sz = Some s' \<and>
    rrc_effect (if ccch_no_context s rnti pData sz then {} else {pData}) s s'"
proof -
  note live = raw_live(1) [OF p]
  have nn: "pData \<noteq> NULL" by (rule live_nonnull [OF rrc_okD(1) [OF ok] live])
  obtain b0 where b0: "mem_byte (us_mem s) pData 0 = Some b0"
    using mem_byte_live [OF live, of 0] sz unat_gt_0 [of sz] by auto
  let ?ty = "drop_bit 6 b0 AND 0x01"
  obtain e d b where dec: "Asn1ParseRrcConnReqMsg (us_bits s) (mem_byte (us_mem s) pData) (ucast sz) blank_con_request = Some (e, d, b)"
    using con_request_any [OF reads_block [OF live sz(2)] block_length_word(2), of "us_bits s" blank_con_request]
    unfolding block_length_word(1) by blast
  have fin: "\<exists>s2. us_free (emit (Ip_Rrc_Result rnti ?ty 0xFF) s1) pData = Some s2 \<and> rrc_effect {pData} s s2"
    if e: "rrc_effect {} s s1" for s1
  proof -
    have "rrc_ok (emit (Ip_Rrc_Result rnti ?ty 0xFF) s1)" "pData \<in> raw (emit (Ip_Rrc_Result rnti ?ty 0xFF) s1)"
      using p rrc_effect_ok [OF e] rrc_effectD(2) [OF e] by (simp_all add: rrc_view_emit)
    from release_effect [OF this] obtain m where
      "us_free (emit (Ip_Rrc_Result rnti ?ty 0xFF) s1) pData = Some (emit (Ip_Rrc_Result rnti ?ty 0xFF) s1\<lparr>us_mem := m\<rparr>)"
      "rrc_effect {pData} s1 (emit (Ip_Rrc_Result rnti ?ty 0xFF) s1\<lparr>us_mem := m\<rparr>)"
      by (auto simp: rrc_view_emit)
    with rrc_effect_trans [OF e this(2)] show ?thesis by simp
  qed
  show ?thesis
  proof (cases "?ty = 1")
    case False
    with fin [OF rrc_effect_refl [OF ok]] nn sz(1) b0 show ?thesis
      by (auto simp: RrcParseUlCcchMsg_def ccch_no_context_def Let_def)
  next
    case True
    show ?thesis using ok
    proof (cases rule: temp_block [of s sizeof_ConRequest])
      case none
      with fin [OF rrc_effect_refl [OF ok]] nn sz(1) b0 True show ?thesis
        by (auto simp: RrcParseUlCcchMsg_def ccch_no_context_def Let_def)
    next
      case (block q m1)
      let ?s1 = "s\<lparr>us_mem := m1\<rparr>\<lparr>us_bits := b\<rparr>"
      let ?s2 = "kpi (\<lambda>k. k\<lparr>k_rrcConnReq := k_rrcConnReq k + 1\<rparr>) ?s1"
      have v: "rrc_view ?s1 = rrc_view (s\<lparr>us_mem := m1\<rparr>)" "rrc_view ?s2 = rrc_view (s\<lparr>us_mem := m1\<rparr>)" by simp_all
      then have ok2: "rrc_ok ?s2" using block(3) rrc_view_cong(1) by blast
      have rd: "mem_byte m1 pData = mem_byte (us_mem s) pData" by (rule mem_kept_blk(5) [OF block(6) live])
      have e1: "rrc_effect {} (s\<lparr>us_mem := m1\<rparr>) ?s1" "rrc_effect {} (s\<lparr>us_mem := m1\<rparr>) ?s2"
        using rrc_effect_refl [OF block(3)] rrc_view_cong(3) [OF v(1)] rrc_view_cong(3) [OF v(2)] by blast+
      define no where "no = (case rrc_obtain ?s2 rnti of None \<Rightarrow> False | Some (p, s2) \<Rightarrow> p = NULL)"
      obtain st s3 where s3: "do {
          (p, s) \<leftarrow> rrc_obtain ?s2 rnti;
          if p = NULL then Some (True, s)
          else do {
            (p, s) \<leftarrow> RrcUpdateMTmsi s p (stmsi_m_tmsi (cr_ue_id d)) SERVICE_REQUEST;
            s \<leftarrow> RrcUeDataInd s p;
            Some (False, s)
          } } = Some (st, s3)" "rrc_effect {} (s\<lparr>us_mem := m1\<rparr>) s3" "st = no"
        using connection_request_effect [OF ok2, of rnti "stmsi_m_tmsi (cr_ue_id d)" SERVICE_REQUEST]
          rrc_view_cong(2) [OF v(2)] unfolding no_def by blast
      let ?X = "if e = LIBLTE_SUCCESS then if cr_ue_id_type d = 0 then Some (st, s3) else Some (False, ?s2)
        else Some (False, ?s1)"
      obtain stop s4 where X: "?X = Some (stop, s4)" "rrc_effect {} (s\<lparr>us_mem := m1\<rparr>) s4"
        "stop = (e = LIBLTE_SUCCESS \<and> cr_ue_id_type d = 0 \<and> no)"
        using e1 s3(2,3) by (cases "e = LIBLTE_SUCCESS"; cases "cr_ue_id_type d = 0") auto
      obtain m2 where m2: "us_free s4 q = Some (s4\<lparr>us_mem := m2\<rparr>)" "rrc_effect {} s (s4\<lparr>us_mem := m2\<rparr>)"
        using block(8) [OF X(2)] by blast
      have sel: "us_mem (s\<lparr>us_mem := m1\<rparr>) = m1" "us_bits (s\<lparr>us_mem := m1\<rparr>) = us_bits s" by simp_all
      have run: "RrcParseUlCcchMsg s rnti pData sz =
        (if stop then Some (s4\<lparr>us_mem := m2\<rparr>) else us_free (emit (Ip_Rrc_Result rnti ?ty 0xFF) (s4\<lparr>us_mem := m2\<rparr>)) pData)"
        using nn sz(1) X(1) m2(1)
        by (simp only: RrcParseUlCcchMsg_def b0 Let_def bind.bind_lunit True block(1) prod.case if_True if_not_P [OF block(2)]
            sel rd dec s3(1) if_False simp_thms)
      have "ccch_no_context s rnti pData sz \<longleftrightarrow> stop"
        using True block(1,2) dec b0 X(3) by (simp add: ccch_no_context_def no_def)
      with run m2(2) fin [OF m2(2)] show ?thesis by auto
    qed
  qed
qed

section \<open>From the message to the context\<close>

lemma identity_recorded:
  assumes ok: "rrc_ok s" and sp: "spare 2 s"
    and dec: "liblte_mme_unpack_identity_response_msg m blank_id_response = Some (LIBLTE_SUCCESS, d)"
    "mi_type_of_id (ir_mobile_id d) = 1"
  obtains s' p c where "RrcDecodeIdentityResponse s rnti m = Some s'" "rrc_effect {} s s'"
    "p \<in> set (gRrcUeContextList s')" "us_heap s' p = Some (RrcObj c)" "rr_rnti c = rnti"
    "take 15 (ui_imsi (rr_ueIdentity c)) = take 15 (imsi_digits (mi_imsi (ir_mobile_id d)))"
    "ui_imsiPresent (rr_ueIdentity c) \<noteq> 0" "us_trace s' = us_trace s @ [Ip_Rrc_Data c]"
proof -
  have sp': "spare (Suc 1) s" using sp by (simp add: numeral_2_eq_2)
  obtain q0 m0 where a: "us_alloc s sizeof_IdResponse = Some (q0, s\<lparr>us_mem := m0\<rparr>)" "q0 \<noteq> NULL"
    "spare 1 (s\<lparr>us_mem := m0\<rparr>)"
    by (rule us_alloc_spare [OF rrc_okD(1) [OF ok] sp', of sizeof_IdResponse]) simp_all
  show thesis using ok
  proof (cases rule: temp_block [of s sizeof_IdResponse])
    case none
    with a show thesis by simp
  next
    case (block q m1)
    have "s\<lparr>us_mem := m0\<rparr> = s\<lparr>us_mem := m1\<rparr>" using a(1) block(1) by simp
    with a(3) have sp1: "spare 1 (s\<lparr>us_mem := m1\<rparr>)" by simp
    define s2 where "s2 = kpi (\<lambda>k. k\<lparr>k_idResp := k_idResp k + 1\<rparr>) (s\<lparr>us_mem := m1\<rparr>)"
    have ok2: "rrc_ok s2" using block(3) by (simp add: s2_def rrc_view_kpi)
    have sp2: "spare (Suc 0) s2" using sp1 by (simp add: s2_def spare_def)
    show thesis using ok2
    proof (cases rule: rrc_obtain_cases [of s2 rnti])
      case full
      obtain p' s' where "RrcCreateUeContext s2 rnti = Some (p', s')" "p' \<noteq> NULL"
        by (rule RrcCreate_spare [OF rrc_okD(1) [OF ok2] sp2])
      with full(3) show thesis by simp
    next
      case (entry p s3 c0)
      obtain s4 u where s4: "RrcUpdateImsi s3 p (mi_imsi (ir_mobile_id d)) 0xFF = Some (p, s4)" "rrc_effect {} s3 s4"
        "us_heap s4 p = Some (RrcObj (c0\<lparr>rr_ueIdentity := u\<rparr>))" "us_trace s4 = us_trace s3"
        "gRrcUeContextList s4 = gRrcUeContextList s3"
        "take 15 (ui_imsi u) = take 15 (imsi_digits (mi_imsi (ir_mobile_id d)))" "ui_imsiPresent u \<noteq> 0"
        by (rule RrcUpdateImsi_stored [OF rrc_effect_ok [OF entry(3)] entry(4,5)])
      let ?c = "c0\<lparr>rr_ueIdentity := u\<rparr>"
      note rep = RrcUeDataInd_effect [OF rrc_effect_ok [OF s4(2)] s4(3)]
      have e: "rrc_effect {} (s\<lparr>us_mem := m1\<rparr>) (emit (Ip_Rrc_Data ?c) s4)"
        using rrc_effect_trans0 [OF rrc_effect_trans0 [OF entry(3) s4(2)] rep(2)] by (simp add: s2_def rrc_view_kpi)
      obtain m2 where m2: "us_free (emit (Ip_Rrc_Data ?c) s4) q = Some (emit (Ip_Rrc_Data ?c) s4\<lparr>us_mem := m2\<rparr>)"
        "rrc_effect {} s (emit (Ip_Rrc_Data ?c) s4\<lparr>us_mem := m2\<rparr>)"
        using block(8) [OF e] by blast
      have run: "RrcDecodeIdentityResponse s rnti m = Some (emit (Ip_Rrc_Data ?c) s4\<lparr>us_mem := m2\<rparr>)"
        using block(1,2) dec entry(1,2) s4(1) rep(1) m2(1)
        by (simp add: RrcDecodeIdentityResponse_def Let_def s2_def)
      have tr: "us_trace s2 = us_trace s" by (simp add: s2_def)
      show thesis
        by (rule that [OF run m2(2), of p ?c]) (use entry(4,6,9) s4(3-7) tr in simp_all)
    qed
  qed
qed

text \<open>The identity response of 3GPP 24.301 with an IMSI, without security protection.\<close>

definition identity_nas :: "nat list \<Rightarrow> u8 list" where
  "identity_nas ds = [0x07, 0x56, 8] @ id_bytes 1 ds"

lemma msg_has_nas_info:
  "length xs + length ys + length zs \<le> LIBLTE_MAX_MSG_SIZE_BYTES \<Longrightarrow>
    msg_has (nas_info m (xs @ ys @ zs)) (length xs) ys"
proof (induction ys arbitrary: xs)
  case (Cons y ys)
  have "byte_at (nas_info m (xs @ (y # ys) @ zs)) (length xs) = Some y"
    using Cons.prems by (simp add: nas_info_def byte_at_def nth_append)
  moreover have "msg_has (nas_info m (xs @ (y # ys) @ zs)) (Suc (length xs)) ys"
    using Cons.IH [of "xs @ [y]"] Cons.prems by simp
  ultimately show ?case by simp
qed simp

lemma identity_nas_parsed:
  assumes ds: "length ds = 15" "\<forall>d\<in>set ds. d < 10" and m: "m = nas_info m0 (identity_nas ds)"
  shows "liblte_mme_parse_msg_header m = Some (7, 0x56)"
    "\<exists>d. liblte_mme_unpack_identity_response_msg m blank_id_response = Some (LIBLTE_SUCCESS, d) \<and>
      mi_type_of_id (ir_mobile_id d) = 1 \<and> mi_imsi (ir_mobile_id d) = map of_nat ds"
proof -
  show "liblte_mme_parse_msg_header m = Some (7, 0x56)"
    by (simp add: m identity_nas_def nas_info_def liblte_mme_parse_msg_header_def hi4_def lo4_def byte_at_def Let_def)
  have p: "nas_body m = Some 2"
    by (simp add: m identity_nas_def nas_info_def nas_body_def hi4_def byte_at_def)
  have "length (id_bytes 1 ds) = 8" using ds(1) by (cases ds) (simp_all add: id_bytes_def length_bcd_pairs)
  then have "msg_has m (2 + 1) (id_bytes 1 ds)"
    using msg_has_nas_info [of "[0x07, 0x56, 8]" "id_bytes 1 ds" "[]" m0]
    by (simp add: m identity_nas_def numeral_3_eq_3)
  from id_response_digits [OF p this, of blank_id_response] ds
  show "\<exists>d. liblte_mme_unpack_identity_response_msg m blank_id_response = Some (LIBLTE_SUCCESS, d) \<and>
      mi_type_of_id (ir_mobile_id d) = 1 \<and> mi_imsi (ir_mobile_id d) = map of_nat ds"
    by simp
qed

text \<open>The context that holds the identity is the one the table answers for the RNTI.\<close>

lemma rrc_get_entry:
  assumes ok: "rrc_ok s" and d: "distinct (map snd (rrc_tbl s))" and p: "p \<in> set (gRrcUeContextList s)"
    and c: "us_heap s p = Some (RrcObj c)" "rr_rnti c = r"
  shows "RrcGetUeContext s r = Some p"
proof -
  have "(p, r) \<in> set (rrc_tbl s)" using p c by (auto simp: rrc_tbl_def rrc_rnti_def get_obj_def the_rrc_def)
  moreover have "lookup_rnti t r = q" if "(q, r) \<in> set t" "distinct (map snd t)" for t :: "(ptr \<times> u16) list" and q
    using that by (induction t) (auto simp: rev_image_eqI)
  ultimately have "lookup_rnti (rrc_tbl s) r = p" using d by blast
  with rrc.get_law [OF ok] show ?thesis by simp
qed

lemma dcch_identity_recorded:
  assumes ok: "rrc_ok s" and p: "pData \<in> raw s" and cap: "unat sz \<le> blk_cap (us_mem s) pData"
    and ty: "drop_bit 3 (mp_data (us_mem s) pData 0) AND 0x0F = 9"
    and enc: "bits_of_bytes (block_bytes s pData (unat sz)) = ul_info_bits h c1 (identity_nas ds) @ pad"
    and v: "unat sz < LIBLTE_MAX_MSG_SIZE_BYTES" "h < 32" "c1 < 4" "length ds = 15" "\<forall>d\<in>set ds. d < 10"
    and rpt: "report_ok rpt" and sp: "spare 3 s"
  obtains s' q c where "RrcParseUlDcchMsg s rnti pData sz rpt = Some s'" "rrc_effect {pData} s s'"
    "q \<in> set (gRrcUeContextList s')" "us_heap s' q = Some (RrcObj c)" "rr_rnti c = rnti"
    "take 15 (ui_imsi (rr_ueIdentity c)) = map (\<lambda>d. of_nat d + 0x30) ds" "ui_imsiPresent (rr_ueIdentity c) \<noteq> 0"
    "us_trace s' = us_trace s @ [Ip_Rrc_Data c, Ip_Rrc_Result rnti 9 0x56]"
proof -
  note live = raw_live(1) [OF p]
  let ?bs = "block_bytes s pData (unat sz)"
  have sz0: "sz \<noteq> 0" using arg_cong [OF enc, of length] by (auto simp: ul_info_bits_def)
  have b0: "mem_byte (us_mem s) pData 0 = Some (mp_data (us_mem s) pData 0)"
    using mem_byte_live [OF live, of 0] cap sz0 unat_gt_0 [of sz] by auto
  have len: "length ?bs \<le> LIBLTE_MAX_MSG_SIZE_BYTES" using v(1) by simp
  let ?m = "nas_info (dedicated_info (junk_info s)) (identity_nas ds)"
  have "identity_nas ds \<noteq> []" by (simp add: identity_nas_def)
  from ul_info_decoded [OF enc len v(2,3) this reads_block [OF live cap], of "us_bits s" "junk_info s", unfolded block_length_word(1)]
  obtain b where dec: "Asn1ParseUlInfoTransMsg (us_bits s) (mem_byte (us_mem s) pData) (ucast sz) (junk_info s) =
    Some (LIBLTE_SUCCESS, (junk_info s)\<lparr>dedicated_info_type := 0, dedicated_info := ?m\<rparr>, b)" by blast
  note hdr = identity_nas_parsed(1) [OF v(4,5) refl, of "dedicated_info (junk_info s)"]
  obtain d where d: "liblte_mme_unpack_identity_response_msg ?m blank_id_response = Some (LIBLTE_SUCCESS, d)"
    "mi_type_of_id (ir_mobile_id d) = 1" "mi_imsi (ir_mobile_id d) = map of_nat ds"
    using identity_nas_parsed(2) [OF v(4,5) refl] by blast
  have sp': "spare (Suc 2) s" using sp by simp
  have l: "sizeof_UlInfoTransfer \<le> 65536" by simp
  obtain q0 m0 where a: "us_alloc s sizeof_UlInfoTransfer = Some (q0, s\<lparr>us_mem := m0\<rparr>)" "q0 \<noteq> NULL" "spare 2 (s\<lparr>us_mem := m0\<rparr>)"
    by (rule us_alloc_spare [OF rrc_okD(1) [OF ok] sp' l])
  show thesis using ok
  proof (cases rule: temp_block [of s sizeof_UlInfoTransfer])
    case none
    with a show thesis by simp
  next
    case (block q m1)
    have "s\<lparr>us_mem := m0\<rparr> = s\<lparr>us_mem := m1\<rparr>" using a(1) block(1) by simp
    with a(3) have sp1: "spare 2 (s\<lparr>us_mem := m1\<rparr>)" by simp
    let ?s1 = "s\<lparr>us_mem := m1\<rparr>\<lparr>us_tick := us_tick s + 1\<rparr>\<lparr>us_bits := b\<rparr>"
    have v1: "rrc_view ?s1 = rrc_view (s\<lparr>us_mem := m1\<rparr>)" by simp
    then have ok1: "rrc_ok ?s1" using block(3) rrc_view_cong(1) by blast
    have sp2: "spare 2 ?s1" using sp1 by (simp add: spare_def)
    have rd: "mem_byte m1 pData = mem_byte (us_mem s) pData" by (rule mem_kept_blk(5) [OF block(6) live])
    obtain s2 r c where s2: "RrcDecodeIdentityResponse ?s1 rnti ?m = Some s2" "rrc_effect {} ?s1 s2"
      "r \<in> set (gRrcUeContextList s2)" "us_heap s2 r = Some (RrcObj c)" "rr_rnti c = rnti"
      "take 15 (ui_imsi (rr_ueIdentity c)) = take 15 (imsi_digits (mi_imsi (ir_mobile_id d)))"
      "ui_imsiPresent (rr_ueIdentity c) \<noteq> 0" "us_trace s2 = us_trace ?s1 @ [Ip_Rrc_Data c]"
      by (rule identity_recorded [OF ok1 sp2 d(1,2), of rnti])
    obtain l a where la: "rpt = Some l" "count_rb (unat (ur_count l)) 0 l (k_idRespRbNum (us_kpi s2)) = Some a"
      using report_ok_count [OF rpt] by metis
    let ?s3 = "kpi (\<lambda>k. k\<lparr>k_idRespRbNum := a\<rparr>) s2"
    have e3: "rrc_effect {} (s\<lparr>us_mem := m1\<rparr>) ?s3" using s2(2) rrc_view_cong(2) [OF v1] by (simp add: rrc_view_kpi)
    obtain m2 where m2: "us_free ?s3 q = Some (?s3\<lparr>us_mem := m2\<rparr>)" "rrc_effect {} s (?s3\<lparr>us_mem := m2\<rparr>)"
      using block(8) [OF e3] by blast
    let ?s4 = "emit (Ip_Rrc_Result rnti 9 0x56) (?s3\<lparr>us_mem := m2\<rparr>)"
    have "rrc_ok ?s4" "pData \<in> raw ?s4"
      using p rrc_effect_ok [OF m2(2)] rrc_effectD(2) [OF m2(2)] by (simp_all add: rrc_view_emit)
    from release_effect [OF this] obtain m3 where m3: "us_free ?s4 pData = Some (?s4\<lparr>us_mem := m3\<rparr>)"
      "rrc_effect {pData} (?s3\<lparr>us_mem := m2\<rparr>) (?s4\<lparr>us_mem := m3\<rparr>)" by (auto simp: rrc_view_emit)
    have run: "RrcParseUlDcchMsg s rnti pData sz rpt = Some (?s4\<lparr>us_mem := m3\<rparr>)"
      using block(1,2) s2(1) la m2(1) m3(1) hdr ty
      by (simp add: RrcParseUlDcchMsg_def b0 rd dec RrcParseNasMsg_def Let_def)
    have eff: "rrc_effect {pData} s (?s4\<lparr>us_mem := m3\<rparr>)" using rrc_effect_trans [OF m2(2) m3(2)] by simp
    have im: "take 15 (imsi_digits (map of_nat ds)) = map (\<lambda>d. of_nat d + 0x30) ds"
      using v(4) by (simp add: imsi_digits_def)
    show thesis
      by (rule that [OF run eff, of r c]) (use s2(3-8) d(3) im in simp_all)
  qed
qed

section \<open>Concrete messages\<close>

definition demo_report :: UlReportInfoList where
  "demo_report = \<lparr>ur_count = 1, ur_info = (\<lambda>_. \<lparr>ur_rbNum = 5, ur_ta = 0, ur_prbPower = 0\<rparr>)\<rparr>"

lemma demo_report_ok: "report_ok (Some demo_report)"
  by (simp add: report_ok_def demo_report_def)

lemma buffer_state:
  assumes "length bs \<le> 65535"
  obtains p s where "with_buffer bs idle_state = (p, s)" "rrc_ok s" "rrc_tbl s = []" "buffer s p bs"
    "spare 5 s" "raw s = {p}"
proof -
  obtain p m where m: "with_buffer bs idle_state = (p, idle_state\<lparr>us_mem := m\<rparr>)" "mem_inv m"
    "live m = {p}" "buffer (idle_state\<lparr>us_mem := m\<rparr>) p bs" "spare 5 (idle_state\<lparr>us_mem := m\<rparr>)"
    using with_buffer_idle [OF assms] by metis
  have idle: "gRrcUeContextList idle_state = []" "gReadyRrcUeContextList idle_state = []" "us_heap idle_state = Map.empty"
    by (simp_all add: idle_state_def)
  with m show thesis
    by (intro that [of p "idle_state\<lparr>us_mem := m\<rparr>"]) (simp_all add: rrc_ok_def rrc_tbl_def heap_ok_def raw_def)
qed

text \<open>The identity response with the IMSI 460012345678901, in an UL information transfer.\<close>

definition demo_dcch :: "u8 list" where
  "demo_dcch = [0x48, 0x01, 0x60, 0xEA, 0xC1, 0x09, 0x20, 0xC2, 0x06, 0x4A, 0x8E, 0xD3, 0x02, 0x00]"

definition demo_imsi :: "nat list" where
  "demo_imsi = [4, 6, 0, 0, 1, 2, 3, 4, 5, 6, 7, 8, 9, 0, 1]"

lemma demo_dcch_bits:
  "bits_of_bytes demo_dcch = ul_info_bits 9 0 (identity_nas demo_imsi) @ [False, False, False, False, False]"
  by (simp add: demo_dcch_def demo_imsi_def identity_nas_def id_bytes_def bcd_def ul_info_bits_def length_bits_def
      bits_of_def upt_rec bit_iff_odd)

lemma demo_state:
  obtains p s where "with_buffer demo_dcch idle_state = (p, s)" "rrc_ok s" "rrc_tbl s = []" "p \<in> raw s"
    "14 \<le> blk_cap (us_mem s) p" "block_bytes s p 14 = demo_dcch" "spare 3 s" "mp_data (us_mem s) p 0 = 0x48"
    "mem_byte (us_mem s) p 0 = Some 0x48" "raw s = {p}"
proof -
  have l: "length demo_dcch = 14" by (simp add: demo_dcch_def)
  obtain p s where s: "with_buffer demo_dcch idle_state = (p, s)" "rrc_ok s" "rrc_tbl s = []" "buffer s p demo_dcch"
    "spare 5 s" "raw s = {p}"
    using buffer_state [of demo_dcch] l by auto
  then have b: "p \<in> raw s" "14 \<le> blk_cap (us_mem s) p" "block_bytes s p 14 = demo_dcch"
    using l by (simp_all add: buffer_def)
  then have "mp_data (us_mem s) p 0 = demo_dcch ! 0" by (auto simp: block_bytes_def blk_bytes_def dest: arg_cong [of _ _ "\<lambda>x. x ! 0"])
  then have "mp_data (us_mem s) p 0 = 0x48" "spare 3 s" using s(5) by (simp_all add: demo_dcch_def spare_def)
  moreover from this(1) have "mem_byte (us_mem s) p 0 = Some 0x48"
    using mem_byte_live [OF raw_live(1) [OF b(1)], of 0] b(2) by simp
  ultimately show thesis using s b by (intro that [of p s])
qed





text \<open>
  C6. From the air to the table: a DCCH message with the identity response of a UE, however
  it is aligned and padded, ends in the context of its RNTI, where exactly the 15 digits of
  its IMSI are stored as characters; the context is reported once, before the result, and the
  buffer of the message is released.
\<close>

theorem imsi_reaches_context:
  assumes "rrc_ok s" "distinct (map snd (rrc_tbl s))" "pData \<in> raw s" "unat sz \<le> blk_cap (us_mem s) pData"
    and "drop_bit 3 (mp_data (us_mem s) pData 0) AND 0x0F = 9"
    and "bits_of_bytes (block_bytes s pData (unat sz)) = ul_info_bits h c1 (identity_nas ds) @ pad"
    and "unat sz < LIBLTE_MAX_MSG_SIZE_BYTES" "h < 32" "c1 < 4" "length ds = 15" "\<forall>d\<in>set ds. d < 10"
    and "report_ok rpt" "spare 3 s"
  shows "\<exists>s' q c. RrcParseUlDcchMsg s rnti pData sz rpt = Some s' \<and> rrc_effect {pData} s s' \<and>
    RrcGetUeContext s' rnti = Some q \<and> us_heap s' q = Some (RrcObj c) \<and> rr_rnti c = rnti \<and>
    take 15 (ui_imsi (rr_ueIdentity c)) = map (\<lambda>d. of_nat d + 0x30) ds \<and>
    us_trace s' = us_trace s @ [Ip_Rrc_Data c, Ip_Rrc_Result rnti 9 0x56]"
proof -
  obtain s' q c where s': "RrcParseUlDcchMsg s rnti pData sz rpt = Some s'" "rrc_effect {pData} s s'"
    "q \<in> set (gRrcUeContextList s')" "us_heap s' q = Some (RrcObj c)" "rr_rnti c = rnti"
    "take 15 (ui_imsi (rr_ueIdentity c)) = map (\<lambda>d. of_nat d + 0x30) ds"
    "us_trace s' = us_trace s @ [Ip_Rrc_Data c, Ip_Rrc_Result rnti 9 0x56]"
    by (rule dcch_identity_recorded [OF assms(1,3-13), of rnti])
  have "RrcGetUeContext s' rnti = Some q"
    by (rule rrc_get_entry [OF rrc_effect_ok [OF s'(2)] rrc_effectD(5) [OF s'(2) assms(2)] s'(3-5)])
  with s' show ?thesis by blast
qed

theorem imsi_reaches_context_witness:
  "case with_buffer demo_dcch idle_state of (p, s) \<Rightarrow>
     \<exists>s' q c. RrcParseUlDcchMsg s 61 p 14 (Some demo_report) = Some s' \<and> RrcGetUeContext s' 61 = Some q \<and>
       us_heap s' q = Some (RrcObj c) \<and>
       take 15 (ui_imsi (rr_ueIdentity c)) = [0x34, 0x36, 0x30, 0x30, 0x31, 0x32, 0x33, 0x34, 0x35, 0x36, 0x37,
         0x38, 0x39, 0x30, 0x31]"
proof -
  obtain p s where s: "with_buffer demo_dcch idle_state = (p, s)" "rrc_ok s" "rrc_tbl s = []" "p \<in> raw s"
    "14 \<le> blk_cap (us_mem s) p" "block_bytes s p 14 = demo_dcch" "spare 3 s" "mp_data (us_mem s) p 0 = 0x48"
    by (rule demo_state)
  have enc: "bits_of_bytes (block_bytes s p (unat (14 :: u16))) =
      ul_info_bits 9 0 (identity_nas demo_imsi) @ [False, False, False, False, False]"
    using demo_dcch_bits s(6) by simp
  have "\<exists>s' q c. RrcParseUlDcchMsg s 61 p 14 (Some demo_report) = Some s' \<and> rrc_effect {p} s s' \<and>
    RrcGetUeContext s' 61 = Some q \<and> us_heap s' q = Some (RrcObj c) \<and> rr_rnti c = 61 \<and>
    take 15 (ui_imsi (rr_ueIdentity c)) = map (\<lambda>d. of_nat d + 0x30) demo_imsi \<and>
    us_trace s' = us_trace s @ [Ip_Rrc_Data c, Ip_Rrc_Result 61 9 0x56]"
    by (rule imsi_reaches_context [OF s(2) _ s(4) _ _ enc _ _ _ _ _ demo_report_ok s(7)])
      (use s in \<open>simp_all add: demo_imsi_def\<close>)
  with s(1) show ?thesis by (auto simp: demo_imsi_def)
qed

end
