(* ===== verification/Pdcp.thy ===== *)
theory Pdcp
  imports Rrc_Safety
begin

text \<open>
  The PDCP layer, \<open>ulp/src/ltePdcp.c\<close>: an SDU of the RLC loses its one-byte header and goes on
  to the RRC; ciphered signalling and user data are dropped.
\<close>

section \<open>Operations\<close>

definition PdcpProcessRxSrb ::
    "ulp_state \<Rightarrow> u16 \<Rightarrow> u16 \<Rightarrow> ptr \<Rightarrow> u16 \<Rightarrow> UlReportInfoList option \<Rightarrow> ulp_state option" where
  "PdcpProcessRxSrb s rnti lcId pData sz rpt = do {
     b \<leftarrow> mem_byte (us_mem s) pData 0;
     if lcId < 2 then do {
       s \<leftarrow> us_remove s pData 0 1;
       PdcpUeSrbDataInd (emit (Ip_Pdcp_Srb rnti lcId (block_bytes s pData (unat (sz - 1)))) s) rnti lcId pData (sz - 1) rpt
     } else if pData \<noteq> NULL then us_free s pData
     else Some s }"

definition PdcpProcessRxDrb ::
    "ulp_state \<Rightarrow> u16 \<Rightarrow> u16 \<Rightarrow> ptr \<Rightarrow> u16 \<Rightarrow> UlReportInfoList option \<Rightarrow> ulp_state option" where
  "PdcpProcessRxDrb s rnti lcId pData sz rpt = (if pData \<noteq> NULL then us_free s pData else Some s)"

definition RlcUeDataInd ::
    "ulp_state \<Rightarrow> u16 \<Rightarrow> u16 \<Rightarrow> ptr \<Rightarrow> u16 \<Rightarrow> UlReportInfoList option \<Rightarrow> ulp_state option" where
  "RlcUeDataInd s rnti lcId pData sz rpt =
     (if pData = NULL \<or> sz = 0 \<or> rpt = None then Some s
      else if lcId \<le> 2 then PdcpProcessRxSrb s rnti lcId pData sz rpt
      else PdcpProcessRxDrb s rnti lcId pData sz rpt)"

section \<open>Ownership\<close>

text \<open>
  What happens to a buffer \<open>p\<close> does not matter to the effect of an operation that consumes
  it.
\<close>

lemma rrc_effect_buffer:
  assumes e: "rrc_effect A (s\<lparr>us_mem := m\<rparr>) s'" and p: "p \<in> A" and ok: "rrc_ok s"
    and m: "live m = live (us_mem s)" "mem_kept (live (us_mem s) - {p}) (us_mem s) m"
  shows "rrc_effect A s s'"
proof -
  have "raw (s\<lparr>us_mem := m\<rparr>) = raw s" using m(1) by (simp add: raw_def)
  moreover have "others_same s s'" using rrc_effectD(3) [OF e] by (simp add: others_same_def)
  moreover have "mem_kept (live (us_mem s) - A) (us_mem s) (us_mem s')"
    using rrc_effectD(4) [OF e] m p by (intro mem_kept_trans [OF m(2)]) auto
  moreover have "rrc_tbl (s\<lparr>us_mem := m\<rparr>) = rrc_tbl s" by (simp add: rrc_tbl_def rrc_rnti_def get_obj_def)
  ultimately show ?thesis using e by (simp add: rrc_effect_def)
qed

lemma rrc_ok_mem: "rrc_ok s \<Longrightarrow> mem_inv m \<Longrightarrow> live m = live (us_mem s) \<Longrightarrow> rrc_ok (s\<lparr>us_mem := m\<rparr>)"
  by (simp add: rrc_ok_def heap_ok_def)

text \<open>A message whose NAS part never leads its parser outside, whatever its block held before.\<close>

definition safe_rrc :: "u8 list \<Rightarrow> bool" where
  "safe_rrc bs \<longleftrightarrow> bs \<noteq> [] \<and> length bs \<noteq> LIBLTE_MAX_MSG_SIZE_BYTES \<and>
     (\<forall>s p. buffer s p bs \<longrightarrow> dcch_ok s p (of_nat (length bs)))"

lemma dcch_ok_emit [simp]: "dcch_ok (emit e s) p n = dcch_ok s p n"
proof -
  have "junk_info (emit e s) = junk_info s" "junk_setup (emit e s) = junk_setup s"
    by (simp_all add: junk_info_def junk_setup_def junk_bytes_def)
  then show ?thesis by (simp only: dcch_ok_def emit_simps)
qed

lemma safe_rrc_carries:
  assumes "safe_rrc bs" "carries s p bs"
  shows "dcch_ok s p (of_nat (length bs))"
proof -
  obtain m where m: "buffer (s\<lparr>us_mem := m\<rparr>) p bs" "mem_byte m = mem_byte (us_mem s)"
    by (rule carries_trim [OF assms(2)])
  have "junk_info (s\<lparr>us_mem := m\<rparr>) = junk_info s" "junk_setup (s\<lparr>us_mem := m\<rparr>) = junk_setup s"
    by (simp_all add: junk_info_def junk_setup_def junk_bytes_def)
  moreover have "dcch_ok (s\<lparr>us_mem := m\<rparr>) p (of_nat (length bs))" using assms(1) m(1) by (simp add: safe_rrc_def)
  moreover have "us_bits (s\<lparr>us_mem := m\<rparr>) = us_bits s" "us_mem (s\<lparr>us_mem := m\<rparr>) = m" by simp_all
  ultimately show ?thesis by (simp only: dcch_ok_def m(2))
qed

text \<open>The header is cut off and the rest goes to the RRC.\<close>

lemma RlcUeDataInd_srb1_run:
  assumes ok: "rrc_ok s" and b: "carries s p (h # bs)" and rpt: "rpt \<noteq> None"
  obtains m s1 where "RlcUeDataInd s rnti 1 p (of_nat (length (h # bs))) rpt = PdcpUeSrbDataInd s1 rnti 1 p (of_nat (length bs)) rpt"
    "s1 = emit (Ip_Pdcp_Srb rnti 1 bs) (s\<lparr>us_mem := m\<rparr>)" "rrc_ok s1" "carries (s\<lparr>us_mem := m\<rparr>) p bs"
    "live m = live (us_mem s)" "mem_kept (live (us_mem s) - {p}) (us_mem s) m"
proof -
  let ?n = "length bs"
  obtain cs where cs: "buffer s p ((h # bs) @ cs)" "?n + 1 < 2 ^ 16" using b by (auto elim: carriesE)
  have w: "unat (of_nat (?n + 1) :: u16) = ?n + 1" "unat (of_nat ?n :: u16) = ?n"
    using cs(2) by (simp_all add: unat_of_nat_small del: of_nat_Suc of_nat_add)
  have nz: "(of_nat (?n + 1) :: u16) \<noteq> 0" using w(1) by (metis unat_0 add_is_0 one_neq_zero)
  obtain m where m: "us_remove s p 0 1 = Some (s\<lparr>us_mem := m\<rparr>)" "mem_inv m" "live m = live (us_mem s)"
    "mem_kept (live (us_mem s) - {p}) (us_mem s) m" "buffer (s\<lparr>us_mem := m\<rparr>) p (bs @ cs)"
    using us_remove_buffer [OF rrc_okD(1) [OF ok] cs(1), of 1] by auto
  let ?s = "emit (Ip_Pdcp_Srb rnti 1 bs) (s\<lparr>us_mem := m\<rparr>)"
  have okm: "rrc_ok ?s" using rrc_ok_mem [OF ok m(2,3)] by (simp add: rrc_view_emit)
  have live: "p \<in> live (us_mem s)" "p \<noteq> NULL"
    using b live_nonnull [OF rrc_okD(1) [OF ok], of p] by (auto elim: carriesE)
  note c = buffer_carries [OF m(5)]
  have bb: "block_bytes (s\<lparr>us_mem := m\<rparr>) p ?n = bs" using c by (rule carriesE)
  have b0: "\<exists>v. mem_byte (us_mem s) p 0 = Some v"
    using mem_byte_live [OF live(1), of 0] cs(1) by (simp add: buffer_def)
  have "RlcUeDataInd s rnti 1 p (of_nat (length (h # bs))) rpt = PdcpUeSrbDataInd ?s rnti 1 p (of_nat ?n) rpt"
    using b0 live(2) m(1) nz w rpt bb by (auto simp: RlcUeDataInd_def PdcpProcessRxSrb_def)
  from this refl okm c m(3,4) show thesis by (rule that)
qed

lemma RlcUeDataInd_srb1:
  assumes ok: "rrc_ok s" and b: "carries s p (h # bs)" and safe: "safe_rrc bs" and rpt: "report_ok rpt"
  shows "\<exists>s'. RlcUeDataInd s rnti 1 p (of_nat (length (h # bs))) rpt = Some s' \<and> rrc_effect {p} s s'"
proof -
  let ?n = "length bs"
  have rn: "rpt \<noteq> None" using rpt by (auto simp: report_ok_def)
  obtain m s1 where r: "RlcUeDataInd s rnti 1 p (of_nat (length (h # bs))) rpt = PdcpUeSrbDataInd s1 rnti 1 p (of_nat ?n) rpt"
    and s1: "s1 = emit (Ip_Pdcp_Srb rnti 1 bs) (s\<lparr>us_mem := m\<rparr>)" and okm: "rrc_ok s1"
    and m: "carries (s\<lparr>us_mem := m\<rparr>) p bs" "live m = live (us_mem s)" "mem_kept (live (us_mem s) - {p}) (us_mem s) m"
    by (rule RlcUeDataInd_srb1_run [OF ok b rn, of rnti])
  obtain cs where c: "p \<in> raw (s\<lparr>us_mem := m\<rparr>)" "?n < 2 ^ 16" "?n \<le> blk_cap m p"
    using m(1) by (auto elim: carriesE)
  have n: "0 < ?n" using safe by (simp add: safe_rrc_def)
  have w: "unat (of_nat ?n :: u16) = ?n" using c(2) by (simp add: unat_of_nat_small)
  have nz: "(of_nat ?n :: u16) \<noteq> 0" using w n by (metis unat_0 less_irrefl)
  have pr: "p \<in> raw s1" "?n \<le> blk_cap (us_mem s1) p" using c by (simp_all add: raw_def s1)
  then have nn: "p \<noteq> NULL" using live_nonnull [OF rrc_okD(1) [OF okm], of p] by (simp add: raw_def)
  have d: "dcch_ok s1 p (of_nat ?n)" using safe_rrc_carries [OF safe m(1)] by (simp add: s1)
  have ne: "(of_nat ?n :: u16) \<noteq> 12756"
  proof
    assume "(of_nat ?n :: u16) = 12756"
    then have "?n = unat (12756 :: u16)" using w by simp
    with safe show False by (simp add: safe_rrc_def)
  qed
  obtain s' where s': "RrcParseUlDcchMsg s1 rnti p (of_nat ?n) rpt = Some s'" "rrc_effect {p} s1 s'"
    using RrcParseUlDcchMsg_effect [OF okm pr(1) nz _ ne rpt d, of rnti] w pr(2) by auto
  have "rrc_effect {p} (s\<lparr>us_mem := m\<rparr>) s'" using s'(2) by (simp add: s1 rrc_view_emit)
  from rrc_effect_buffer [OF this _ ok m(2,3)] have "rrc_effect {p} s s'" by simp
  with r s'(1) nz nn show ?thesis by (simp add: PdcpUeSrbDataInd_def)
qed

lemma RlcUeDataInd_dropped:
  assumes ok: "rrc_ok s" and b: "carries s p bs" and ne: "bs \<noteq> []" and lc: "1 < lcId" and rpt: "rpt \<noteq> None"
  shows "\<exists>m. RlcUeDataInd s rnti lcId p (of_nat (length bs)) rpt = Some (s\<lparr>us_mem := m\<rparr>) \<and> rrc_effect {p} s (s\<lparr>us_mem := m\<rparr>)"
proof -
  have p: "p \<in> raw s" "length bs < 2 ^ 16" "length bs \<le> blk_cap (us_mem s) p" using b by (auto elim: carriesE)
  have "unat (of_nat (length bs) :: u16) = length bs" using p(2) by (simp add: unat_of_nat_small)
  with ne have nz: "(of_nat (length bs) :: u16) \<noteq> 0" by (metis unat_0 length_0_conv)
  have nn: "p \<noteq> NULL" by (rule live_nonnull [OF rrc_okD(1) [OF ok] raw_live(1) [OF p(1)]])
  have b0: "\<exists>v. mem_byte (us_mem s) p 0 = Some v"
    using mem_byte_live [OF raw_live(1) [OF p(1)], of 0] p(3) ne by (cases bs) auto
  have "\<not> lcId < 2" using lc by (simp add: word_less_nat_alt)
  with release_effect [OF ok p(1)] b0 nn nz rpt show ?thesis
    by (auto simp: RlcUeDataInd_def PdcpProcessRxSrb_def PdcpProcessRxDrb_def)
qed

text \<open>
  C37. The PDCP forwards signalling and forgets nothing but empty messages: an SDU of SRB 1
  reaches the RRC without its header byte and exactly its buffer is consumed; SDUs of other
  bearers are released unread; but the buffer of an SDU that is only a header is never
  released.
\<close>

theorem pdcp_sdu_consumed:
  assumes "rrc_ok s" "carries s p (h # bs)" "report_ok rpt"
  shows "(safe_rrc bs \<longrightarrow> (\<exists>s1 s'. RlcUeDataInd s rnti 1 p (of_nat (length (h # bs))) rpt = Some s' \<and>
      RrcParseUlDcchMsg s1 rnti p (of_nat (length bs)) rpt = Some s' \<and> carries s1 p bs \<and>
      us_trace s1 = us_trace s @ [Ip_Pdcp_Srb rnti 1 bs] \<and> rrc_effect {p} s s')) \<and>
    (1 < lcId \<longrightarrow> (\<exists>s'. RlcUeDataInd s rnti lcId p (of_nat (length (h # bs))) rpt = Some s' \<and>
      rrc_effect {p} s s' \<and> us_trace s' = us_trace s)) \<and>
    (bs = [] \<longrightarrow> (\<exists>s'. RlcUeDataInd s rnti 1 p 1 rpt = Some s' \<and> raw s' = raw s))"
proof (intro conjI impI)
  have rn: "rpt \<noteq> None" using assms(3) by (auto simp: report_ok_def)
  obtain m s1 where r: "RlcUeDataInd s rnti 1 p (of_nat (length (h # bs))) rpt = PdcpUeSrbDataInd s1 rnti 1 p (of_nat (length bs)) rpt"
    and s1: "s1 = emit (Ip_Pdcp_Srb rnti 1 bs) (s\<lparr>us_mem := m\<rparr>)" "rrc_ok s1" "carries (s\<lparr>us_mem := m\<rparr>) p bs" "live m = live (us_mem s)"
    by (rule RlcUeDataInd_srb1_run [OF assms(1,2) rn, of rnti])
  {
    assume safe: "safe_rrc bs"
    then have "bs \<noteq> []" "length bs < 2 ^ 16" using s1(3) by (auto simp: safe_rrc_def elim: carriesE)
    then have "(of_nat (length bs) :: u16) \<noteq> 0" using unat_of_nat_small [of "length bs", where 'a = 16] by auto
    moreover have c: "carries s1 p bs" using s1(3) by (simp add: s1(1) carries_def buffer_def raw_def block_bytes_def)
    moreover from c have "p \<noteq> NULL" using live_nonnull [OF rrc_okD(1) [OF s1(2)], of p] by (auto elim: carriesE)
    moreover have "us_trace s1 = us_trace s @ [Ip_Pdcp_Srb rnti 1 bs]" by (simp add: s1(1))
    ultimately show "\<exists>s1 s'. RlcUeDataInd s rnti 1 p (of_nat (length (h # bs))) rpt = Some s' \<and>
        RrcParseUlDcchMsg s1 rnti p (of_nat (length bs)) rpt = Some s' \<and> carries s1 p bs \<and>
        us_trace s1 = us_trace s @ [Ip_Pdcp_Srb rnti 1 bs] \<and> rrc_effect {p} s s'"
      using RlcUeDataInd_srb1 [OF assms(1,2) safe assms(3), of rnti] r
      unfolding PdcpUeSrbDataInd_def by - (rule exI [of _ s1], auto)
  next
    assume "1 < lcId"
    from RlcUeDataInd_dropped [OF assms(1,2) _ this rn, of rnti]
    show "\<exists>s'. RlcUeDataInd s rnti lcId p (of_nat (length (h # bs))) rpt = Some s' \<and>
        rrc_effect {p} s s' \<and> us_trace s' = us_trace s" by auto
  next
    assume "bs = []"
    then have "RlcUeDataInd s rnti 1 p 1 rpt = Some s1" using r by (simp add: PdcpUeSrbDataInd_def)
    moreover have "raw s1 = raw s" using s1(4) by (simp add: s1(1) raw_def)
    ultimately show "\<exists>s'. RlcUeDataInd s rnti 1 p 1 rpt = Some s' \<and> raw s' = raw s" by blast
  }
qed

theorem pdcp_sdu_consumed_witness:
  "case with_buffer [5] idle_state of (p, s) \<Rightarrow>
     (\<exists>s'. RlcUeDataInd s 61 1 p 1 (Some demo_report) = Some s' \<and> raw s' = {p}) \<and>
     (\<exists>s'. RlcUeDataInd s 61 3 p 1 (Some demo_report) = Some s' \<and> raw s' = {})"
proof -
  obtain p s where s: "with_buffer [5] idle_state = (p, s)" "rrc_ok s" "buffer s p [5]" "raw s = {p}"
    by (rule buffer_state [of "[5]"]) simp_all
  from pdcp_sdu_consumed [OF s(2) buffer_carries0 [OF s(3)] demo_report_ok, of 61 3]
  have "\<exists>s'. RlcUeDataInd s 61 1 p 1 (Some demo_report) = Some s' \<and> raw s' = raw s"
    "\<exists>s'. RlcUeDataInd s 61 3 p 1 (Some demo_report) = Some s' \<and> rrc_effect {p} s s'"
    by (simp_all add: word_less_nat_alt) blast
  with s(1,4) show ?thesis by (auto dest: rrc_effectD(2))
qed

end
