(* ===== verification/Rlc.thy ===== *)
theory Rlc
  imports Pdcp
begin

text \<open>
  The RLC layer, \<open>ulp/src/lteRlc.c\<close>: the receiving side of the acknowledged mode bearers.
  Per UE there is a context with one receiver per bearer; a receiver holds a ring of PDUs by
  sequence number and the SDU it is putting together.  A PDU is a list of segments, a segment
  a list of data field elements (DFEs), each with a buffer of its own.
\<close>

section \<open>Constants and structures\<close>

abbreviation (input) sizeof_RlcUeContext :: u32 where "sizeof_RlcUeContext \<equiv> 160"
abbreviation (input) sizeof_RxAMEntity :: u32 where "sizeof_RxAMEntity \<equiv> 8320"
abbreviation (input) sizeof_AmdPdu :: u32 where "sizeof_AmdPdu \<equiv> 80"
abbreviation (input) sizeof_AmdPduSegment :: u32 where "sizeof_AmdPduSegment \<equiv> 104"
abbreviation (input) sizeof_AmdDFE :: u32 where "sizeof_AmdDFE \<equiv> 40"
abbreviation (input) MAX_LC_ID :: nat where "MAX_LC_ID \<equiv> 11"
abbreviation (input) RING_SIZE :: nat where "RING_SIZE \<equiv> 512"
abbreviation (input) RLC_MAX_DFE_IN_UL_PDU :: nat where "RLC_MAX_DFE_IN_UL_PDU \<equiv> 256"
abbreviation (input) MAX_NUM_UL_PKTS :: nat where "MAX_NUM_UL_PKTS \<equiv> 106"

record AmdHeader =
  ah_dc :: u8
  ah_rf :: u8
  ah_p :: u8
  ah_fi :: u8
  ah_e :: u8
  ah_lsf :: u8
  ah_sn :: u16
  ah_so :: u16

text \<open>
  The fields \<open>hdrSize\<close> and \<open>dfeLength\<close> (with \<open>numDfe\<close> entries) of
  the concatenation header.
\<close>

record RlcConcatenatePduHeader =
  ch_hdrSize :: u32
  ch_dfeLength :: "u16 list"

section \<open>UE contexts\<close>

definition InitRlcLayer :: "ulp_state \<Rightarrow> ulp_state" where
  "InitRlcLayer s = s\<lparr>gRlcUeContextList := []\<rparr>"

fun rlc_search :: "ulp_state \<Rightarrow> ptr list \<Rightarrow> u16 \<Rightarrow> ptr option" where
  "rlc_search s [] rnti = Some NULL"
| "rlc_search s (p # ps) rnti = do {
     c \<leftarrow> get_obj the_rlc s p;
     if rl_rnti c = rnti then Some p else rlc_search s ps rnti }"

definition RlcGetUeContext :: "ulp_state \<Rightarrow> u16 \<Rightarrow> ptr option" where
  "RlcGetUeContext s rnti = rlc_search s (gRlcUeContextList s) rnti"

definition RlcCreateUeContext :: "ulp_state \<Rightarrow> u16 \<Rightarrow> (ptr \<times> ulp_state) option" where
  "RlcCreateUeContext s rnti = do {
     (p, s) \<leftarrow> new_obj s sizeof_RlcUeContext
       (RlcObj \<lparr>rl_idleCount = 0, rl_deleteFlag = 0, rl_rnti = rnti, rl_rxAMEntityArray = (\<lambda>_. NULL)\<rparr>);
     if p = NULL then Some (NULL, s)
     else Some (p, (count_sem True s)\<lparr>gRlcUeContextList := gRlcUeContextList s @ [p]\<rparr>) }"

definition RlcGetUeContextCount :: "ulp_state \<Rightarrow> nat" where
  "RlcGetUeContextCount s = length (gRlcUeContextList s)"

definition RlcUpdateUeContextTime :: "ulp_state \<Rightarrow> ptr \<Rightarrow> u32 \<Rightarrow> ulp_state option" where
  "RlcUpdateUeContextTime s p v =
     (if p \<noteq> NULL then do {
        c \<leftarrow> get_obj the_rlc s p;
        Some (put_obj p (RlcObj (c\<lparr>rl_idleCount := (if v = 0 then 0 else rl_idleCount c + v)\<rparr>)) s)
      } else Some s)"

section \<open>Receivers\<close>

definition RlcGetRxAmEntity :: "ulp_state \<Rightarrow> ptr \<Rightarrow> u16 \<Rightarrow> ptr option" where
  "RlcGetRxAmEntity s pUeCtx lcId =
     (if pUeCtx \<noteq> NULL \<and> unat lcId < MAX_LC_ID then do {
        c \<leftarrow> get_obj the_rlc s pUeCtx;
        Some (rl_rxAMEntityArray c (unat lcId))
      } else Some NULL)"

definition blank_entity :: "u16 \<Rightarrow> u8 \<Rightarrow> RxAMEntity" where
  "blank_entity rnti lcId = \<lparr>am_rnti = rnti, am_lcId = lcId,
     am_ring = (\<lambda>_. \<lparr>rn_status = RS_FREE, rn_data = NULL\<rparr>),
     am_ulRptInfoList = \<lparr>ur_count = 0, ur_info = (\<lambda>_. \<lparr>ur_rbNum = 0, ur_ta = 0, ur_prbPower = 0\<rparr>)\<rparr>,
     am_rxRawSdu = \<lparr>rs_sn = 0, rs_rawSdu = \<lparr>rb_size = 0, rb_pData = NULL\<rparr>\<rparr>\<rparr>"

definition RlcCreateRxAmEntity :: "ulp_state \<Rightarrow> ptr \<Rightarrow> u16 \<Rightarrow> (ptr \<times> ulp_state) option" where
  "RlcCreateRxAmEntity s pUeCtx lcId =
     (if pUeCtx \<noteq> NULL \<and> unat lcId < MAX_LC_ID then do {
        c \<leftarrow> get_obj the_rlc s pUeCtx;
        (p, s) \<leftarrow> new_obj s sizeof_RxAMEntity (AmObj (blank_entity (rl_rnti c) (ucast lcId)));
        if p = NULL then Some (NULL, s)
        else Some (p, put_obj pUeCtx (RlcObj (c\<lparr>rl_rxAMEntityArray := (rl_rxAMEntityArray c)(unat lcId := p)\<rparr>)) s)
      } else Some (NULL, s))"

text \<open>Releasing a DFE with its buffer; a segment pops and releases its DFEs, a PDU its segments.\<close>

fun delete_dfes :: "ptr list \<Rightarrow> ulp_state \<Rightarrow> ulp_state option" where
  "delete_dfes [] s = Some s"
| "delete_dfes (p # ps) s = do {
     d \<leftarrow> get_obj the_dfe s p;
     s \<leftarrow> (if rb_pData (df_buffer d) \<noteq> NULL then us_free s (rb_pData (df_buffer d)) else Some s);
     s \<leftarrow> us_free s p;
     delete_dfes ps s }"

definition RlcDeleteAmdPduSegment :: "ulp_state \<Rightarrow> ptr \<Rightarrow> ulp_state option" where
  "RlcDeleteAmdPduSegment s p =
     (if p \<noteq> NULL then do {
        g \<leftarrow> get_obj the_seg s p;
        s \<leftarrow> delete_dfes (sg_dfeQ g) s;
        us_free s p
      } else Some s)"

fun delete_segments :: "ptr list \<Rightarrow> ulp_state \<Rightarrow> ulp_state option" where
  "delete_segments [] s = Some s"
| "delete_segments (p # ps) s = do {
     s \<leftarrow> RlcDeleteAmdPduSegment s p;
     delete_segments ps s }"

definition RlcDeleteAmdPdu :: "ulp_state \<Rightarrow> ptr \<Rightarrow> ulp_state option" where
  "RlcDeleteAmdPdu s p =
     (if p \<noteq> NULL then do {
        d \<leftarrow> get_obj the_pdu s p;
        s \<leftarrow> delete_segments (pd_segList d) s;
        us_free s p
      } else Some s)"

text \<open>
  The field \<open>status\<close> of a new PDU is whatever the block held; it is written before it is
  read.
\<close>

definition junk_status :: "u8 \<Rightarrow> RlcAmPduStatus" where
  "junk_status b = (if b mod 3 = 0 then PDU_AM_COMPLETE else if b mod 3 = 1 then PDU_AM_SEGMENT
     else PDU_AM_SEGMENT_COMPLETE)"

definition RlcCreateAmdPdu :: "ulp_state \<Rightarrow> ptr \<Rightarrow> u16 \<Rightarrow> (ptr \<times> ulp_state) option" where
  "RlcCreateAmdPdu s pe ringSn =
     (if pe = NULL then Some (NULL, s)
      else do {
        (p, s) \<leftarrow> new_obj s sizeof_AmdPdu
          (PduObj \<lparr>pd_status = junk_status (us_junk s (us_tick s) 0), pd_segList = []\<rparr>);
        Some (p, if p = NULL then s else s\<lparr>us_tick := us_tick s + 1\<rparr>) })"

text \<open>The ring entries \<open>i\<close> to 511 of a receiver that is deleted.\<close>

fun delete_ring :: "nat list \<Rightarrow> RxAMEntity \<Rightarrow> ulp_state \<Rightarrow> ulp_state option" where
  "delete_ring [] e s = Some s"
| "delete_ring (i # is) e s = do {
     s \<leftarrow> (if rn_status (am_ring e i) \<noteq> RS_FREE then RlcDeleteAmdPdu s (rn_data (am_ring e i)) else Some s);
     delete_ring is e s }"

definition RlcDeleteRxAmEntity :: "ulp_state \<Rightarrow> ptr \<Rightarrow> ulp_state option" where
  "RlcDeleteRxAmEntity s p =
     (if p \<noteq> NULL then do {
        e \<leftarrow> get_obj the_am s p;
        s \<leftarrow> delete_ring [0..<RING_SIZE] e s;
        let d = rb_pData (rs_rawSdu (am_rxRawSdu e));
        s \<leftarrow> (if d \<noteq> NULL then us_free s d else Some s);
        us_free s p
      } else Some s)"

fun delete_entities :: "nat list \<Rightarrow> RlcUeContext \<Rightarrow> ulp_state \<Rightarrow> ulp_state option" where
  "delete_entities [] c s = Some s"
| "delete_entities (i # is) c s = do {
     s \<leftarrow> RlcDeleteRxAmEntity s (rl_rxAMEntityArray c i);
     delete_entities is c s }"

definition RlcDeleteUeContext :: "ulp_state \<Rightarrow> ptr \<Rightarrow> ulp_state option" where
  "RlcDeleteUeContext s p =
     (if p \<noteq> NULL then do {
        c \<leftarrow> get_obj the_rlc s p;
        s \<leftarrow> delete_entities [0..<MAX_LC_ID] c (s\<lparr>gRlcUeContextList := remove1 p (gRlcUeContextList s)\<rparr>);
        us_free (count_sem False s) p
      } else Some s)"

section \<open>Decoding a PDU\<close>

definition isSNEqual :: "u16 \<Rightarrow> u16 \<Rightarrow> bool" where
  "isSNEqual x y \<longleftrightarrow> x AND 1023 = y AND 1023"

definition no_header :: AmdHeader where
  "no_header = \<lparr>ah_dc = 0, ah_rf = 0, ah_p = 0, ah_fi = 0, ah_e = 0, ah_lsf = 0, ah_sn = 0, ah_so = 0\<rparr>"

text \<open>The answer is \<open>RLC_SUCCESS\<close> or \<open>RLC_FAILURE\<close> and the header.\<close>

definition RlcDecodeAmdHeader :: "ulp_state \<Rightarrow> RlcUlDataInfo \<Rightarrow> AmdHeader \<Rightarrow> (bool \<times> AmdHeader) option" where
  "RlcDecodeAmdHeader s i h =
     (if rd_buffer i = NULL \<or> rd_length i = 0 \<or> rd_length i < 2 then Some (False, h)
      else do {
        d0 \<leftarrow> mem_byte (us_mem s) (rd_buffer i) 0;
        d1 \<leftarrow> mem_byte (us_mem s) (rd_buffer i) 1;
        let h = h\<lparr>ah_dc := drop_bit 7 d0 AND 1\<rparr>;
        if ah_dc h \<noteq> 0 then do {
          let h = h\<lparr>ah_rf := drop_bit 6 d0 AND 1, ah_p := drop_bit 5 d0 AND 1, ah_fi := drop_bit 3 d0 AND 3,
            ah_e := drop_bit 2 d0 AND 1, ah_sn := push_bit 8 (ucast d0 AND 3) OR ucast d1\<rparr>;
          if ah_rf h \<noteq> 0 then
            (if rd_length i < 4 then Some (False, h)
             else do {
               d2 \<leftarrow> mem_byte (us_mem s) (rd_buffer i) 2;
               d3 \<leftarrow> mem_byte (us_mem s) (rd_buffer i) 3;
               Some (True, h\<lparr>ah_lsf := drop_bit 7 d2 AND 1, ah_so := push_bit 8 (ucast d2 AND 0x7F) OR ucast d3\<rparr>) })
          else Some (True, h)
        } else Some (True, h) })"

text \<open>
  The extension bit and the 11-bit length of indicator \<open>k\<close>: 12 bits each, behind the
  header.
\<close>

definition length_indicator :: "mempool \<Rightarrow> ptr \<Rightarrow> nat \<Rightarrow> (u8 \<times> u32) option" where
  "length_indicator m p k = do {
     let off = 12 * k div 8;
     let bitoff = 12 * k mod 8;
     e0 \<leftarrow> mem_byte m p (2 + off);
     e1 \<leftarrow> mem_byte m p (2 + off + 1);
     Some (drop_bit (7 - bitoff) e0 AND 1,
       (push_bit (4 + bitoff) (ucast e0) OR drop_bit (4 - bitoff) (ucast e1)) AND 0x7FF) }"

text \<open>
  The loop over the length indicators: \<open>ls\<close> are the lengths read so far, \<open>n\<close>
  the iterations that are left until the array is full; the answer is \<open>None\<close> inside for a
  length 0.
\<close>

fun length_indicators :: "nat \<Rightarrow> mempool \<Rightarrow> ptr \<Rightarrow> u16 list \<Rightarrow> u16 list option option" where
  "length_indicators 0 m p ls = Some (Some ls)"
| "length_indicators (Suc n) m p ls = do {
     (ext, li) \<leftarrow> length_indicator m p (length ls);
     if li = 0 then Some None
     else if ext \<noteq> 0 then length_indicators n m p (ls @ [ucast li])
     else Some (Some (ls @ [ucast li])) }"

text \<open>The answer is the number of DFEs, 0 on error, and the header.\<close>

definition RlcGetConcatenationHeaderInfo :: "ulp_state \<Rightarrow> RlcUlDataInfo \<Rightarrow> (u32 \<times> RlcConcatenatePduHeader) option" where
  "RlcGetConcatenationHeaderInfo s i =
     (if rd_buffer i = NULL then Some (0, \<lparr>ch_hdrSize = 0, ch_dfeLength = []\<rparr>)
      else do {
        r \<leftarrow> length_indicators RLC_MAX_DFE_IN_UL_PDU (us_mem s) (rd_buffer i) [];
        case r of None \<Rightarrow> Some (0, \<lparr>ch_hdrSize = 0, ch_dfeLength = []\<rparr>)
        | Some ls \<Rightarrow> Some (of_nat (length ls) + 1,
            \<lparr>ch_hdrSize = of_nat ((12 * length ls + 7) div 8 + 2), ch_dfeLength = ls\<rparr>) })"

definition push_dfe :: "ulp_state \<Rightarrow> ptr \<Rightarrow> ptr \<Rightarrow> ulp_state option" where
  "push_dfe s pg pd = do {
     g \<leftarrow> get_obj the_seg s pg;
     Some (put_obj pg (SegObj (g\<lparr>sg_dfeQ := sg_dfeQ g @ [pd]\<rparr>)) s) }"

definition us_copy :: "ulp_state \<Rightarrow> ptr \<Rightarrow> ptr \<Rightarrow> nat \<Rightarrow> nat \<Rightarrow> ulp_state option" where
  "us_copy s d p off n = do {
     m \<leftarrow> mem_copy (us_mem s) d 0 p off n;
     Some (s\<lparr>us_mem := m\<rparr>) }"

text \<open>
  Splitting the payload at the length indicators: the DFE \<open>pd\<close> holds what is left of it, and
  is queued in the segment \<open>pg\<close> once it has been cut to its length.  One round of the loop
  answers the DFE with the rest, or the null pointer when it fails and has released \<open>pd\<close>.
\<close>

definition split_dfe :: "ulp_state \<Rightarrow> ptr \<Rightarrow> ptr \<Rightarrow> u16 \<Rightarrow> (ptr \<times> ulp_state) option" where
  "split_dfe s pg pd l = do {
     d \<leftarrow> get_obj the_dfe s pd;
     let li = (ucast l :: u32);
     let b = df_buffer d;
     if li > rb_size b then do {
       s \<leftarrow> us_free s (rb_pData b);
       s \<leftarrow> us_free s pd;
       Some (NULL, s)
     } else do {
       (nx, s) \<leftarrow> new_obj s sizeof_AmdDFE
         (DfeObj \<lparr>df_status = AM_PDU_MAP_SDU_FULL, df_buffer = \<lparr>rb_size = 0, rb_pData = NULL\<rparr>\<rparr>);
       if nx = NULL then do {
         s \<leftarrow> us_free s (rb_pData b);
         s \<leftarrow> us_free s pd;
         Some (NULL, s)
       } else do {
         (nb, s) \<leftarrow> us_alloc s (rb_size b - li);
         if nb = NULL then do {
           s \<leftarrow> us_free s (rb_pData b);
           s \<leftarrow> us_free s nx;
           s \<leftarrow> us_free s pd;
           Some (NULL, s)
         } else do {
           s \<leftarrow> us_copy s nb (rb_pData b) (unat li) (unat (rb_size b - li));
           let s = put_obj nx (DfeObj \<lparr>df_status = AM_PDU_MAP_SDU_FULL,
             df_buffer = \<lparr>rb_size = rb_size b - li, rb_pData = nb\<rparr>\<rparr>) s;
           s \<leftarrow> push_dfe (put_obj pd (DfeObj (d\<lparr>df_buffer := b\<lparr>rb_size := li\<rparr>\<rparr>)) s) pg pd;
           Some (nx, s)
         } } } }"

fun RlcDecodeAndEnqueueAMSegment :: "u16 list \<Rightarrow> ulp_state \<Rightarrow> ptr \<Rightarrow> ptr \<Rightarrow> u8 \<Rightarrow> (bool \<times> ulp_state) option" where
  "RlcDecodeAndEnqueueAMSegment [] s pg pd fi = do {
     d \<leftarrow> get_obj the_dfe s pd;
     let st = (if fi AND 1 = 0 then AM_PDU_MAP_SDU_FULL else AM_PDU_MAP_SDU_START);
     s \<leftarrow> push_dfe (put_obj pd (DfeObj (d\<lparr>df_status := st\<rparr>)) s) pg pd;
     Some (True, s) }"
| "RlcDecodeAndEnqueueAMSegment (l # ls) s pg pd fi = do {
     (nx, s) \<leftarrow> split_dfe s pg pd l;
     if nx = NULL then Some (False, s) else RlcDecodeAndEnqueueAMSegment ls s pg nx fi }"

definition RlcSetAmdPduAndDfeStatus :: "ulp_state \<Rightarrow> ptr \<Rightarrow> AmdHeader \<Rightarrow> ptr \<Rightarrow> ulp_state option" where
  "RlcSetAmdPduAndDfeStatus s pp h pd = do {
     p \<leftarrow> get_obj the_pdu s pp;
     let p = (if ah_rf h = 1 \<and> ah_lsf h = 0 then p\<lparr>pd_status := PDU_AM_SEGMENT\<rparr>
              else if ah_rf h = 1 \<and> ah_lsf h = 1 then p\<lparr>pd_status := PDU_AM_SEGMENT_COMPLETE\<rparr> else p);
     let s = put_obj pp (PduObj p) s;
     d \<leftarrow> get_obj the_dfe s pd;
     let d = (if ah_fi h = 1 then d\<lparr>df_status := AM_PDU_MAP_SDU_START\<rparr>
              else if ah_fi h = 3 then d\<lparr>df_status := AM_PDU_MAP_SDU_MID\<rparr>
              else if ah_fi h = 2 then d\<lparr>df_status := AM_PDU_MAP_SDU_END\<rparr> else d);
     Some (put_obj pd (DfeObj d) s) }"

definition fail_segment :: "ulp_state \<Rightarrow> ptr \<Rightarrow> ptr \<Rightarrow> (bool \<times> ulp_state) option" where
  "fail_segment s buf pg = do {
     s \<leftarrow> us_free s buf;
     s \<leftarrow> RlcDeleteAmdPduSegment s pg;
     Some (False, s) }"

definition RlcDecodeAmdPdu :: "ulp_state \<Rightarrow> ptr \<Rightarrow> AmdHeader \<Rightarrow> RlcUlDataInfo \<Rightarrow> (bool \<times> ulp_state) option" where
  "RlcDecodeAmdPdu s pp h i = do {
     let buf = rd_buffer i;
     let sz = rd_length i - 2;
     p \<leftarrow> get_obj the_pdu s pp;
     if pd_segList p \<noteq> [] then do { s \<leftarrow> us_free s buf; Some (False, s) }
     else do {
       (pg, s) \<leftarrow> new_obj s sizeof_AmdPduSegment
         (SegObj \<lparr>sg_soStart = 0, sg_soEnd = 0xFFFF, sg_dfeQ = [], sg_lsf = 0\<rparr>);
       if pg = NULL then do { s \<leftarrow> us_free s buf; Some (False, s) }
       else do {
         (r, s) \<leftarrow>
           (if ah_e h = 0 then do {
              (pd, s) \<leftarrow> new_obj s sizeof_AmdDFE
                (DfeObj \<lparr>df_status = AM_PDU_MAP_SDU_FULL, df_buffer = \<lparr>rb_size = sz, rb_pData = buf\<rparr>\<rparr>);
              if pd = NULL then fail_segment s buf pg
              else do {
                s \<leftarrow> us_remove s buf 0 2;
                s \<leftarrow> RlcSetAmdPduAndDfeStatus s pp h pd;
                s \<leftarrow> push_dfe s pg pd;
                Some (True, s)
              }
            } else do {
              (n, ch) \<leftarrow> RlcGetConcatenationHeaderInfo s i;
              if n = 0 then fail_segment s buf pg
              else do {
                (pd, s) \<leftarrow> new_obj s sizeof_AmdDFE
                  (DfeObj \<lparr>df_status = (if ah_fi h AND 2 \<noteq> 0 then AM_PDU_MAP_SDU_END else AM_PDU_MAP_SDU_FULL),
                     df_buffer = \<lparr>rb_size = rd_length i - ch_hdrSize ch, rb_pData = buf\<rparr>\<rparr>);
                if pd = NULL then fail_segment s buf pg
                else do {
                  s \<leftarrow> us_remove s buf 0 (ch_hdrSize ch);
                  (r, s) \<leftarrow> RlcDecodeAndEnqueueAMSegment (ch_dfeLength ch) s pg pd (ah_fi h);
                  if \<not> r then do { s \<leftarrow> RlcDeleteAmdPduSegment s pg; Some (False, s) }
                  else Some (True, s)
                } } });
         if r then do {
           p \<leftarrow> get_obj the_pdu s pp;
           Some (True, put_obj pp (PduObj (p\<lparr>pd_segList := pd_segList p @ [pg]\<rparr>)) s)
         } else Some (False, s)
       } } }"

definition RlcProcessAmdPduSegment :: "ulp_state \<Rightarrow> ptr \<Rightarrow> AmdHeader \<Rightarrow> RlcUlDataInfo \<Rightarrow> (bool \<times> ulp_state) option" where
  "RlcProcessAmdPduSegment s pp h i = do {
     s \<leftarrow> us_free s (rd_buffer i);
     Some (False, s) }"

section \<open>Reassembly\<close>

definition set_raw :: "ptr \<Rightarrow> RlcAmRawSdu \<Rightarrow> ulp_state \<Rightarrow> ulp_state option" where
  "set_raw pe r s = do {
     e \<leftarrow> get_obj the_am s pe;
     Some (put_obj pe (AmObj (e\<lparr>am_rxRawSdu := r\<rparr>)) s) }"

definition set_report :: "ptr \<Rightarrow> (UlReportInfoList \<Rightarrow> UlReportInfoList) \<Rightarrow> ulp_state \<Rightarrow> ulp_state option" where
  "set_report pe f s = do {
     e \<leftarrow> get_obj the_am s pe;
     Some (put_obj pe (AmObj (e\<lparr>am_ulRptInfoList := f (am_ulRptInfoList e)\<rparr>)) s) }"

definition grant_of :: "MacUeContext \<Rightarrow> UlReportInfo" where
  "grant_of c = \<lparr>ur_rbNum = mc_rbNum c, ur_ta = mc_ta c, ur_prbPower = mc_prbPower c\<rparr>"

text \<open>
  The grant of the MAC context becomes the first entry, or one more entry while there is room.
\<close>

definition first_grant :: "ptr \<Rightarrow> ptr \<Rightarrow> ulp_state \<Rightarrow> ulp_state option" where
  "first_grant pe pm s =
     (if pm = NULL then Some s
      else do {
        c \<leftarrow> get_obj the_mac s pm;
        set_report pe (\<lambda>l. \<lparr>ur_count = 1, ur_info = (ur_info l)(0 := grant_of c)\<rparr>) s })"

definition add_grant :: "ptr \<Rightarrow> ptr \<Rightarrow> ulp_state \<Rightarrow> ulp_state option" where
  "add_grant pe pm s =
     (if pm = NULL then Some s
      else do {
        c \<leftarrow> get_obj the_mac s pm;
        set_report pe (\<lambda>l. if unat (ur_count l) < MAX_RLC_SEGMENTS_NUM
          then \<lparr>ur_count = ur_count l + 1, ur_info = (ur_info l)(unat (ur_count l) := grant_of c)\<rparr> else l) s })"

abbreviation (input) clear_grants :: "ptr \<Rightarrow> ulp_state \<Rightarrow> ulp_state option" where
  "clear_grants pe \<equiv> set_report pe (\<lambda>l. l\<lparr>ur_count := 0\<rparr>)"

text \<open>The PDCP takes the size as an \<open>unsigned short\<close>.\<close>

definition RlcDeliverAmSduToPdcp :: "ulp_state \<Rightarrow> ptr \<Rightarrow> RlcAmBuffer \<Rightarrow> ulp_state option" where
  "RlcDeliverAmSduToPdcp s pe b = do {
     e \<leftarrow> get_obj the_am s pe;
     let s = emit (Ip_Rlc_Data (am_rnti e) (am_lcId e) (block_bytes s (rb_pData b) (unat (rb_size b)))
       (am_ulRptInfoList e)) s;
     RlcUeDataInd s (am_rnti e) (ucast (am_lcId e)) (rb_pData b) (ucast (rb_size b)) (Some (am_ulRptInfoList e)) }"

definition RlcReassembleFirstSduSegment :: "u16 \<Rightarrow> ptr \<Rightarrow> ptr \<Rightarrow> ulp_state \<Rightarrow> ulp_state option" where
  "RlcReassembleFirstSduSegment sn pe pd s = do {
     e \<leftarrow> get_obj the_am s pe;
     pm \<leftarrow> MacGetUeContext s (am_rnti e);
     d \<leftarrow> get_obj the_dfe s pd;
     case df_status d of
       AM_PDU_MAP_SDU_FULL \<Rightarrow> do {
         s \<leftarrow> first_grant pe pm s;
         s \<leftarrow> RlcDeliverAmSduToPdcp s pe (df_buffer d);
         clear_grants pe s }
     | AM_PDU_MAP_SDU_START \<Rightarrow> do {
         s \<leftarrow> set_raw pe \<lparr>rs_sn = sn, rs_rawSdu = df_buffer d\<rparr> s;
         first_grant pe pm (put_obj pd (DfeObj (d\<lparr>df_buffer := \<lparr>rb_size = 0, rb_pData = NULL\<rparr>\<rparr>)) s) }
     | _ \<Rightarrow> us_free s (rb_pData (df_buffer d)) }"

text \<open>
  Appending a segment to the partial SDU.  When the two buffers cannot be joined the partial
  SDU is left as it is, although its buffer has been released.
\<close>

definition join_raw :: "ptr \<Rightarrow> u16 \<Rightarrow> RlcAmRawSdu \<Rightarrow> AmdDFE \<Rightarrow> ulp_state \<Rightarrow> (bool \<times> ulp_state) option" where
  "join_raw pe sn r d s = do {
     (t, s) \<leftarrow> us_join s (rb_pData (rs_rawSdu r)) (rb_pData (df_buffer d));
     if t = NULL then Some (False, s)
     else do {
       s \<leftarrow> set_raw pe \<lparr>rs_sn = sn,
         rs_rawSdu = \<lparr>rb_size = rb_size (rs_rawSdu r) + rb_size (df_buffer d), rb_pData = t\<rparr>\<rparr> s;
       Some (True, s) } }"

definition RlcReassembleInCmpAMSdu :: "u16 \<Rightarrow> ptr \<Rightarrow> ptr \<Rightarrow> ulp_state \<Rightarrow> ulp_state option" where
  "RlcReassembleInCmpAMSdu sn pe pd s = do {
     e \<leftarrow> get_obj the_am s pe;
     pm \<leftarrow> MacGetUeContext s (am_rnti e);
     d \<leftarrow> get_obj the_dfe s pd;
     let r = am_rxRawSdu e;
     let prev = rs_rawSdu r;
     let cur = df_buffer d;
     if isSNEqual sn (rs_sn r + 1) \<or> isSNEqual sn (rs_sn r) then
       (case df_status d of
          AM_PDU_MAP_SDU_END \<Rightarrow> do {
            (j, s) \<leftarrow> join_raw pe (rs_sn r) r d s;
            if \<not> j then Some s
            else do {
              s \<leftarrow> add_grant pe pm s;
              e \<leftarrow> get_obj the_am s pe;
              s \<leftarrow> RlcDeliverAmSduToPdcp s pe (rs_rawSdu (am_rxRawSdu e));
              s \<leftarrow> clear_grants pe s;
              set_raw pe \<lparr>rs_sn = rs_sn r, rs_rawSdu = \<lparr>rb_size = 0, rb_pData = NULL\<rparr>\<rparr> s } }
        | AM_PDU_MAP_SDU_MID \<Rightarrow>
            if \<not> isSNEqual sn (rs_sn r) then do {
              (j, s) \<leftarrow> join_raw pe sn r d s;
              if \<not> j then Some s else add_grant pe pm s
            } else us_free s (rb_pData cur)
        | AM_PDU_MAP_SDU_FULL \<Rightarrow> do {
            s \<leftarrow> us_free s (rb_pData prev);
            s \<leftarrow> set_raw pe \<lparr>rs_sn = rs_sn r, rs_rawSdu = \<lparr>rb_size = 0, rb_pData = NULL\<rparr>\<rparr> s;
            s \<leftarrow> first_grant pe pm s;
            s \<leftarrow> RlcDeliverAmSduToPdcp s pe cur;
            clear_grants pe s }
        | AM_PDU_MAP_SDU_START \<Rightarrow> do {
            s \<leftarrow> us_free s (rb_pData prev);
            set_raw pe \<lparr>rs_sn = sn, rs_rawSdu = cur\<rparr> s })
     else if df_status d = AM_PDU_MAP_SDU_FULL \<or> df_status d = AM_PDU_MAP_SDU_START then do {
       s \<leftarrow> us_free s (rb_pData prev);
       s \<leftarrow> set_raw pe \<lparr>rs_sn = rs_sn r, rs_rawSdu = \<lparr>rb_size = 0, rb_pData = NULL\<rparr>\<rparr> s;
       RlcReassembleFirstSduSegment sn pe pd s
     } else us_free s (rb_pData cur) }"

text \<open>The DFEs of a segment, popped one by one.\<close>

definition reassemble_dfe :: "u16 \<Rightarrow> ptr \<Rightarrow> ptr \<Rightarrow> ulp_state \<Rightarrow> ulp_state option" where
  "reassemble_dfe sn pe pd s = do {
     d \<leftarrow> get_obj the_dfe s pd;
     s \<leftarrow> (if rb_pData (df_buffer d) \<noteq> NULL then do {
             e \<leftarrow> get_obj the_am s pe;
             if rb_pData (rs_rawSdu (am_rxRawSdu e)) \<noteq> NULL then RlcReassembleInCmpAMSdu sn pe pd s
             else RlcReassembleFirstSduSegment sn pe pd s
           } else Some s);
     us_free s pd }"

fun reassemble_dfes :: "ptr list \<Rightarrow> u16 \<Rightarrow> ptr \<Rightarrow> ulp_state \<Rightarrow> ulp_state option" where
  "reassemble_dfes [] sn pe s = Some s"
| "reassemble_dfes (pd # pds) sn pe s = do {
     s \<leftarrow> reassemble_dfe sn pe pd s;
     reassemble_dfes pds sn pe s }"

definition RlcReassembleAmdDfeQ :: "u16 \<Rightarrow> ptr \<Rightarrow> ptr \<Rightarrow> ulp_state \<Rightarrow> ulp_state option" where
  "RlcReassembleAmdDfeQ sn pe pg s = do {
     g \<leftarrow> get_obj the_seg s pg;
     reassemble_dfes (sg_dfeQ g) sn pe (put_obj pg (SegObj (g\<lparr>sg_dfeQ := []\<rparr>)) s) }"

fun reassemble_segments :: "ptr list \<Rightarrow> u16 \<Rightarrow> ptr \<Rightarrow> ulp_state \<Rightarrow> ulp_state option" where
  "reassemble_segments [] sn pe s = Some s"
| "reassemble_segments (pg # pgs) sn pe s = do {
     s \<leftarrow> RlcReassembleAmdDfeQ sn pe pg s;
     s \<leftarrow> us_free s pg;
     reassemble_segments pgs sn pe s }"

definition set_ring :: "ptr \<Rightarrow> nat \<Rightarrow> RingNode \<Rightarrow> ulp_state \<Rightarrow> ulp_state option" where
  "set_ring pe i n s = do {
     e \<leftarrow> get_obj the_am s pe;
     Some (put_obj pe (AmObj (e\<lparr>am_ring := (am_ring e)(i := n)\<rparr>)) s) }"

definition RlcReassembleRlcSdu :: "u16 \<Rightarrow> ptr \<Rightarrow> ulp_state \<Rightarrow> ulp_state option" where
  "RlcReassembleRlcSdu sn pe s = do {
     let ringSn = unat (sn AND 511);
     e \<leftarrow> get_obj the_am s pe;
     let n = am_ring e ringSn;
     if rn_status n = RS_IN_USE then
       (if rn_data n = NULL then set_ring pe ringSn (n\<lparr>rn_status := RS_FREE\<rparr>) s
        else do {
          p \<leftarrow> get_obj the_pdu s (rn_data n);
          if pd_status p = PDU_AM_COMPLETE \<or> pd_status p = PDU_AM_SEGMENT_COMPLETE then do {
            s \<leftarrow> set_ring pe ringSn (n\<lparr>rn_status := RS_READY\<rparr>) s;
            s \<leftarrow> reassemble_segments (pd_segList p) sn pe (put_obj (rn_data n) (PduObj (p\<lparr>pd_segList := []\<rparr>)) s);
            s \<leftarrow> us_free s (rn_data n);
            set_ring pe ringSn \<lparr>rn_status = RS_FREE, rn_data = NULL\<rparr> s
          } else Some s })
     else Some s }"

section \<open>Received packets\<close>

definition RlcProcessUmOrTmRxPacket :: "ulp_state \<Rightarrow> RlcUlDataInfo \<Rightarrow> u16 \<Rightarrow> ulp_state option" where
  "RlcProcessUmOrTmRxPacket s i rnti = us_free s (rd_buffer i)"

text \<open>
  The PDU of a new sequence number: decode it and enter it into the ring.  \<open>None\<close> inside
  when the packet is dropped without going on to the reassembly.
\<close>

definition rlc_new_pdu :: "ulp_state \<Rightarrow> ptr \<Rightarrow> nat \<Rightarrow> AmdHeader \<Rightarrow> RlcUlDataInfo \<Rightarrow> (bool option \<times> ulp_state) option" where
  "rlc_new_pdu s pe ringSn h i = do {
     e \<leftarrow> get_obj the_am s pe;
     let old = rn_data (am_ring e ringSn);
     s \<leftarrow> (if old = NULL then Some s
           else do {
             s \<leftarrow> RlcDeleteAmdPdu s old;
             set_ring pe ringSn ((am_ring e ringSn)\<lparr>rn_data := NULL\<rparr>) s });
     (pp, s) \<leftarrow> RlcCreateAmdPdu s pe (of_nat ringSn);
     if pp = NULL then do { s \<leftarrow> us_free s (rd_buffer i); Some (None, s) }
     else do {
       (r, s) \<leftarrow>
         (if ah_rf h \<noteq> 0 then RlcProcessAmdPduSegment s pp h i
          else do {
            (r, s) \<leftarrow> RlcDecodeAmdPdu s pp h i;
            if r then do {
              p \<leftarrow> get_obj the_pdu s pp;
              Some (True, put_obj pp (PduObj (p\<lparr>pd_status := PDU_AM_COMPLETE\<rparr>)) s)
            } else Some (False, s) });
       if r then do {
         s \<leftarrow> set_ring pe ringSn \<lparr>rn_status = RS_IN_USE, rn_data = pp\<rparr> s;
         Some (Some True, s)
       } else do {
         s \<leftarrow> RlcDeleteAmdPdu s pp;
         Some (Some False, s)
       } } }"

text \<open>A packet for a sequence number whose PDU is still in the ring.\<close>

definition rlc_more_pdu :: "ulp_state \<Rightarrow> ptr \<Rightarrow> nat \<Rightarrow> AmdHeader \<Rightarrow> RlcUlDataInfo \<Rightarrow> (bool option \<times> ulp_state) option" where
  "rlc_more_pdu s pe ringSn h i = do {
     e \<leftarrow> get_obj the_am s pe;
     let pp = rn_data (am_ring e ringSn);
     if pp = NULL then do { s \<leftarrow> us_free s (rd_buffer i); Some (None, s) }
     else do {
       (r, s) \<leftarrow>
         (if ah_rf h \<noteq> 0 then RlcProcessAmdPduSegment s pp h i
          else do {
            p \<leftarrow> get_obj the_pdu s pp;
            Some (True, put_obj pp (PduObj (p\<lparr>pd_status := PDU_AM_COMPLETE\<rparr>)) s) });
       s \<leftarrow> us_free s (rd_buffer i);
       Some (Some r, s)
     } }"

text \<open>The receiver of the bearer, created together with the context when they do not exist.\<close>

definition rlc_receiver :: "ulp_state \<Rightarrow> u16 \<Rightarrow> u8 \<Rightarrow> (ptr \<times> ulp_state) option" where
  "rlc_receiver s rnti lcId = do {
     p \<leftarrow> RlcGetUeContext s rnti;
     (p, s) \<leftarrow>
       (if p = NULL then RlcCreateUeContext s rnti
        else do {
          c \<leftarrow> get_obj the_rlc s p;
          if rl_deleteFlag c \<noteq> 0 then Some (NULL, s)
          else do { s \<leftarrow> RlcUpdateUeContextTime s p 0; Some (p, s) } });
     if p = NULL then Some (NULL, s)
     else do {
       pe \<leftarrow> RlcGetRxAmEntity s p (ucast lcId);
       if pe = NULL then RlcCreateRxAmEntity s p (ucast lcId) else Some (pe, s) } }"

definition RlcProcessAMRxPacket :: "ulp_state \<Rightarrow> RlcUlDataInfo \<Rightarrow> u16 \<Rightarrow> ulp_state option" where
  "RlcProcessAMRxPacket s i rnti =
     (if rd_lcId i > 2 then us_free s (rd_buffer i)
      else do {
        (ok, h) \<leftarrow> RlcDecodeAmdHeader s i no_header;
        if \<not> ok \<or> ah_dc h = 0 then us_free s (rd_buffer i)
        else do {
          (pe, s) \<leftarrow> rlc_receiver s rnti (rd_lcId i);
          if pe = NULL then us_free s (rd_buffer i)
          else do {
            let ringSn = unat (ah_sn h AND 511);
            e \<leftarrow> get_obj the_am s pe;
            (r, s) \<leftarrow> (if rn_status (am_ring e ringSn) = RS_FREE then rlc_new_pdu s pe ringSn h i
                       else rlc_more_pdu s pe ringSn h i);
            if r = Some True then RlcReassembleRlcSdu (ah_sn h) pe s else Some s
          } } })"

text \<open>The packets of a MAC message, from number \<open>i\<close> on.\<close>

fun process_packets :: "nat \<Rightarrow> nat \<Rightarrow> RlcUlData \<Rightarrow> u16 \<Rightarrow> ulp_state \<Rightarrow> ulp_state option" where
  "process_packets 0 i d rnti s = Some s"
| "process_packets (Suc n) i d rnti s = do {
     ensure (i < MAX_NUM_UL_PKTS);
     let x = rd_array d i;
     s \<leftarrow> (if rd_lcId x \<le> 2 then RlcProcessAMRxPacket s x rnti else RlcProcessUmOrTmRxPacket s x rnti);
     process_packets n (i + 1) d rnti s }"

definition MacUeDataInd :: "ulp_state \<Rightarrow> ptr \<Rightarrow> ulp_state option" where
  "MacUeDataInd s p =
     (if p = NULL then Some s
      else do {
        i \<leftarrow> get_obj the_ind s p;
        if mi_rlcData i = NULL then us_free s p
        else do {
          d \<leftarrow> get_obj the_data s (mi_rlcData i);
          s \<leftarrow> process_packets (unat (rd_numLCInfo d)) 0 d (mi_rnti i) s;
          s \<leftarrow> us_free s (mi_rlcData i);
          us_free s p
        } })"

end
