(* ===== verification/Rlc_Frame.thy ===== *)
theory Rlc_Frame
  imports Rlc
begin

text \<open>
  Accounting of blocks for the layers above the RRC. The contexts of the RRC come and go with the
  messages the RLC delivers; all other blocks in use (\<open>own\<close>) change only as the effect of
  an operation says: \<open>eff A B L\<close> takes the blocks \<open>A\<close>, leaves the blocks
  \<open>B\<close> behind (a block that is changed in place is in both), keeps address, header, bytes
  and object of all others, and delivers the SDUs \<open>L\<close>.
\<close>

section \<open>Effects\<close>

definition own :: "ulp_state \<Rightarrow> ptr set" where
  "own s = {q \<in> live (us_mem s). \<forall>c. us_heap s q \<noteq> Some (RrcObj c)}"

definition eff :: "ptr set \<Rightarrow> ptr set \<Rightarrow> sdu_log \<Rightarrow> ulp_state \<Rightarrow> ulp_state \<Rightarrow> bool" where
  "eff A B L s s' \<longleftrightarrow> rrc_ok s' \<and> own s' = (own s - A) \<union> B \<and> B \<inter> (own s - A) = {} \<and>
     mem_kept (own s - A) (us_mem s) (us_mem s') \<and> (\<forall>q\<in>own s - A. us_heap s' q = us_heap s q) \<and>
     gMacUeContext s' = gMacUeContext s \<and> gRlcUeContextList s' = gRlcUeContextList s \<and>
     gRecvdPhyDataList s' = gRecvdPhyDataList s \<and> rlc_log s' = rlc_log s @ L"

lemma effD:
  assumes "eff A B L s s'"
  shows "rrc_ok s'" "own s' = (own s - A) \<union> B" "B \<inter> (own s - A) = {}"
    "mem_kept (own s - A) (us_mem s) (us_mem s')" "q \<in> own s \<Longrightarrow> q \<notin> A \<Longrightarrow> us_heap s' q = us_heap s q"
    "gMacUeContext s' = gMacUeContext s" "gRlcUeContextList s' = gRlcUeContextList s"
    "gRecvdPhyDataList s' = gRecvdPhyDataList s" "rlc_log s' = rlc_log s @ L"
  using assms by (simp_all add: eff_def)

lemma eff_refl: "rrc_ok s \<Longrightarrow> eff {} {} [] s s"
  by (simp add: eff_def)

lemma eff_trans:
  assumes a: "eff A B L s t" and b: "eff C D M t u"
  shows "eff (A \<union> (C - B)) ((B - C) \<union> D) (L @ M) s u"
proof -
  have sub: "own s - (A \<union> (C - B)) \<subseteq> own s - A" "own s - (A \<union> (C - B)) \<subseteq> own t - C"
    using effD(2,3) [OF a] by auto
  have "own u = own s - (A \<union> (C - B)) \<union> (B - C \<union> D)"
    using effD(2,3) [OF a] effD(2) [OF b] by auto
  moreover have "(B - C \<union> D) \<inter> (own s - (A \<union> (C - B))) = {}"
    using effD(2,3) [OF a] effD(3) [OF b] by auto
  moreover have "mem_kept (own s - (A \<union> (C - B))) (us_mem s) (us_mem u)"
    by (rule mem_kept_trans [OF effD(4) [OF a] effD(4) [OF b] sub])
  moreover have "us_heap u q = us_heap s q" if "q \<in> own s - (A \<union> (C - B))" for q
    using effD(5) [OF a, of q] effD(5) [OF b, of q] that sub by auto
  ultimately show ?thesis
    using effD(1) [OF b] effD(6-9) [OF a] effD(6-9) [OF b] by (simp add: eff_def)
qed

text \<open>Composition with the resulting sets given, and only as they matter.\<close>

lemma eff_comp:
  assumes "eff A B L s t" "eff C D M t u"
    and "own s \<inter> A' = own s \<inter> (A \<union> (C - B))" "B' = (B - C) \<union> D" "N = L @ M"
  shows "eff A' B' N s u"
proof -
  have "own s - A' = own s - (A \<union> (C - B))" using assms(3) by blast
  then show ?thesis using eff_trans [OF assms(1,2)] assms(4,5) by (simp add: eff_def)
qed

lemma eff_then:
  assumes "eff A B L s t" "eff {} {} M t u"
  shows "eff A B (L @ M) s u"
  by (rule eff_comp [OF assms]) simp_all

text \<open>Blocks that an operation leaves alone may be counted as changed in place.\<close>

lemma eff_widen:
  assumes "eff A B L s s'" "X \<subseteq> own s" "X \<inter> A = {}"
  shows "eff (A \<union> X) (B \<union> X) L s s'"
proof -
  have "mem_kept (own s - (A \<union> X)) (us_mem s) (us_mem s')"
    by (rule mem_kept_mono [OF effD(4) [OF assms(1)]]) blast
  then show ?thesis using assms unfolding eff_def by auto
qed

lemma own_live: "q \<in> own s \<Longrightarrow> q \<in> live (us_mem s)"
  by (simp add: own_def)

lemma own_raw: "q \<in> raw s \<longleftrightarrow> q \<in> own s \<and> us_heap s q = None"
  by (auto simp: own_def raw_def)

lemma own_obj: "rrc_ok s \<Longrightarrow> us_heap s q = Some x \<Longrightarrow> \<not> is_rrc x \<Longrightarrow> q \<in> own s"
  using heap_live [OF rrc_okD(1)] by (auto simp: own_def)

lemma own_nonnull: "rrc_ok s \<Longrightarrow> q \<in> own s \<Longrightarrow> q \<noteq> NULL"
  using live_nonnull [OF rrc_okD(1)] by (auto simp: own_def)

text \<open>Buffers and objects outside of an effect stay.\<close>

lemma eff_buffer:
  assumes "eff A B L s s'" "buffer s q bs" "q \<notin> A"
  shows "buffer s' q bs"
proof -
  have q: "q \<in> own s - A" "us_heap s q = None" using assms by (simp_all add: buffer_def own_raw)
  then have "q \<in> raw s'" using effD(2,5) [OF assms(1)] by (simp add: own_raw)
  with buffer_kept [OF assms(2) effD(4) [OF assms(1)] q(1)] show ?thesis by simp
qed

lemma eff_obj:
  assumes "eff A B L s s'" "us_heap s q = Some x" "\<not> is_rrc x" "q \<notin> A" "rrc_ok s"
  shows "us_heap s' q = Some x"
  using assms effD(5) [OF assms(1)] own_obj by metis

section \<open>The basic operations\<close>

lemma rrc_ok_frame:
  assumes "rrc_ok s" "heap_ok s'" "gRrcUeContextList s' = gRrcUeContextList s"
    "gReadyRrcUeContextList s' = gReadyRrcUeContextList s"
    "\<And>q c. us_heap s' q = Some (RrcObj c) \<longleftrightarrow> us_heap s q = Some (RrcObj c)"
  shows "rrc_ok s'"
  using assms by (simp add: rrc_ok_def)

lemma eff_view:
  assumes "rrc_ok s" "rrc_view s' = rrc_view s"
  shows "eff {} {} [] s s'"
proof -
  have "own s' = own s" using rrc_viewD [OF assms(2)] by (simp add: own_def)
  then show ?thesis using rrc_view_cong(1) [OF assms(2)] assms(1) rrc_viewD [OF assms(2)] by (simp add: eff_def)
qed

lemma eff_emit:
  assumes "rrc_ok s"
  shows "eff {} {} (case rlc_sdu e of None \<Rightarrow> [] | Some x \<Rightarrow> [x]) s (emit e s)"
proof -
  have "rrc_ok (emit e s)" using assms by (simp add: rrc_ok_def heap_ok_def)
  then show ?thesis by (simp add: eff_def own_def)
qed

lemma eff_put:
  assumes ok: "rrc_ok s" and p: "us_heap s p = Some y" "\<not> is_rrc y" "\<not> is_rrc x"
  shows "eff {p} {p} [] s (put_obj p x s)"
proof -
  have "heap_ok (put_obj p x s)"
    by (rule heap_ok_put [OF rrc_okD(1) [OF ok] heap_live [OF rrc_okD(1) [OF ok] p(1)]])
  then have "rrc_ok (put_obj p x s)" using p by (intro rrc_ok_frame [OF ok]) auto
  moreover have "own (put_obj p x s) = own s - {p} \<union> {p}"
    using own_obj [OF ok p(1,2)] p(3) by (auto simp: own_def)
  ultimately show ?thesis by (simp add: eff_def)
qed

lemma eff_free:
  assumes ok: "rrc_ok s" and p: "p \<in> own s"
  obtains s' where "us_free s p = Some s'" "eff {p} {} [] s s'" "us_heap s' = (us_heap s)(p := None)"
proof -
  obtain m where m: "us_free s p = Some (s\<lparr>us_mem := m, us_heap := (us_heap s)(p := None)\<rparr>)"
    "mem_inv m" "live m = live (us_mem s) - {p}" "mem_kept (live (us_mem s) - {p}) (us_mem s) m"
    using us_free_live [OF rrc_okD(1) [OF ok] own_live [OF p]] by metis
  let ?s = "s\<lparr>us_mem := m, us_heap := (us_heap s)(p := None)\<rparr>"
  have "heap_ok ?s" by (rule heap_ok_del [OF rrc_okD(1) [OF ok] m(2,3)])
  then have "rrc_ok ?s" using p by (intro rrc_ok_frame [OF ok]) (auto simp: own_def)
  moreover have "own ?s = own s - {p}" using m(3) by (auto simp: own_def)
  moreover have "mem_kept (own s - {p}) (us_mem s) m" using m(4) by (rule mem_kept_mono) (auto simp: own_def)
  ultimately have "eff {p} {} [] s ?s" by (simp add: eff_def)
  then show thesis by (rule that [OF m(1)]) simp
qed

lemma eff_block:
  assumes ok: "rrc_ok s" and "p \<notin> live (us_mem s)" "mem_inv m" "live m = insert p (live (us_mem s))"
    "mem_kept (live (us_mem s)) (us_mem s) m"
  shows "eff {} {p} [] s (s\<lparr>us_mem := m\<rparr>)" "us_heap s p = None"
proof -
  show h: "us_heap s p = None"
    using assms(2) heap_live [OF rrc_okD(1) [OF ok], of p] by (cases "us_heap s p") auto
  have "heap_ok (s\<lparr>us_mem := m\<rparr>)" using rrc_okD(1) [OF ok] assms by (auto simp: heap_ok_def)
  then have "rrc_ok (s\<lparr>us_mem := m\<rparr>)" by (intro rrc_ok_frame [OF ok]) simp_all
  moreover have "own (s\<lparr>us_mem := m\<rparr>) = own s \<union> {p}" using assms(4) h by (auto simp: own_def)
  moreover have "p \<notin> own s" using assms(2) own_live by blast
  moreover have "mem_kept (own s) (us_mem s) m" using assms(5) by (rule mem_kept_mono) (auto simp: own_def)
  ultimately show "eff {} {p} [] s (s\<lparr>us_mem := m\<rparr>)" by (simp add: eff_def)
qed

lemma eff_alloc [consumes 1, case_names none block]:
  assumes ok: "rrc_ok s"
  obtains (none) "us_alloc s len = Some (NULL, s)"
  | (block) p s' where "us_alloc s len = Some (p, s')" "p \<noteq> NULL" "eff {} {p} [] s s'" "p \<notin> own s"
      "us_heap s' = us_heap s" "us_heap s p = None" "unat len \<le> blk_cap (us_mem s') p"
      "\<exists>n. mp_nodes (us_mem s') p = Some n \<and> mn_length n = ucast len"
  using rrc_okD(1) [OF ok]
proof (cases rule: us_alloc_cases [of s len])
  case (block p n m')
  note e = eff_block [OF ok block(3-6)]
  show thesis by (rule that(2) [of p "s\<lparr>us_mem := m'\<rparr>"]) (use block e own_live in auto)
qed (rule that(1))

lemma eff_new [consumes 2, case_names none block]:
  assumes ok: "rrc_ok s" and x: "\<not> is_rrc x"
  obtains (none) "new_obj s len x = Some (NULL, s)"
  | (block) p s' where "new_obj s len x = Some (p, s')" "p \<noteq> NULL" "eff {} {p} [] s s'" "p \<notin> own s"
      "us_heap s' = (us_heap s)(p \<mapsto> x)" "us_heap s p = None"
  using rrc_okD(1) [OF ok]
proof (cases rule: new_obj_cases [of s len x])
  case (block p m')
  let ?s = "s\<lparr>us_mem := m'\<rparr>"
  note e = eff_block [OF ok block(3-6)]
  have h: "heap_ok (put_obj p x ?s)" by (rule heap_ok_new [OF rrc_okD(1) [OF ok] block(4,5)])
  have "rrc_ok (put_obj p x ?s)" using x e(2) by (intro rrc_ok_frame [OF ok h]) (auto simp: is_rrc_def)
  moreover have "own (put_obj p x ?s) = own ?s"
    using x e(2) block(5) by (auto simp: own_def)
  ultimately have "eff {} {p} [] s (put_obj p x ?s)"
    using e(1) block(3) own_live by (auto simp: eff_def)
  then show thesis by (rule that(2) [OF block(1,2)]) (use block(3) own_live e(2) in auto)
qed (rule that(1))

lemma eff_mem:
  assumes ok: "rrc_ok s" and p: "p \<in> own s"
    and m: "mem_inv m" "live m = live (us_mem s)" "mem_kept (live (us_mem s) - {p}) (us_mem s) m"
  shows "eff {p} {p} [] s (s\<lparr>us_mem := m\<rparr>)"
proof -
  have "rrc_ok (s\<lparr>us_mem := m\<rparr>)" by (rule rrc_ok_mem [OF ok m(1,2)])
  moreover have "own (s\<lparr>us_mem := m\<rparr>) = own s" using m(2) by (simp add: own_def)
  moreover have "mem_kept (own s - {p}) (us_mem s) m" using m(3) by (rule mem_kept_mono) (auto simp: own_def)
  ultimately show ?thesis using p by (auto simp: eff_def)
qed

lemma eff_cut:
  assumes ok: "rrc_ok s" and b: "buffer s p bs" and k: "unat k \<le> length bs"
  obtains s' where "us_remove s p 0 k = Some s'" "eff {p} {p} [] s s'" "us_heap s' = us_heap s"
    "buffer s' p (drop (unat k) bs)"
proof -
  obtain m where m: "us_remove s p 0 k = Some (s\<lparr>us_mem := m\<rparr>)" "mem_inv m" "live m = live (us_mem s)"
    "mem_kept (live (us_mem s) - {p}) (us_mem s) m" "buffer (s\<lparr>us_mem := m\<rparr>) p (drop (unat k) bs)"
    by (rule us_remove_buffer [OF rrc_okD(1) [OF ok] b k])
  have "p \<in> own s" using b by (simp add: buffer_def own_raw)
  from eff_mem [OF ok this m(2-4)] show thesis by (intro that [OF m(1)]) (simp_all add: m(5))
qed

text \<open>What the RRC does with a message.\<close>

lemma eff_rrc:
  assumes "rrc_ok s" "p \<in> raw s" "rrc_effect {p} s s'"
  shows "eff {p} {} [] s s'"
proof -
  note e = rrc_effectD [OF assms(3)]
  have heap: "us_heap s' q = Some x \<longleftrightarrow> us_heap s q = Some x" if "\<not> is_rrc x" for q x
    using e(3) that by (simp add: others_same_def)
  have own: "own t = raw t \<union> {q. \<exists>x. us_heap t q = Some x \<and> \<not> is_rrc x}" if "rrc_ok t" for t
    using heap_live [OF rrc_okD(1) [OF that]] by (auto simp: own_def raw_def is_rrc_def)
  have "own s' = own s - {p}"
    using raw_live(2) [OF assms(2)] heap unfolding own [OF assms(1)] own [OF e(1)] e(2) by fastforce
  moreover have "mem_kept (own s - {p}) (us_mem s) (us_mem s')" using e(4) by (rule mem_kept_mono) (auto simp: own_def)
  moreover have "us_heap s' q = us_heap s q" if "q \<in> own s - {p}" for q
  proof (cases "us_heap s q")
    case None
    then have "q \<in> raw s'" using that e(2) by (simp add: own_raw)
    then show ?thesis using None raw_live(2) by simp
  next
    case (Some x)
    then show ?thesis using that heap [of x q] by (auto simp: own_def is_rrc_def)
  qed
  ultimately show ?thesis using e(1,3) by (simp add: eff_def others_same_def)
qed

lemma eff_carries: "eff A B L s s' \<Longrightarrow> carries s q bs \<Longrightarrow> q \<notin> A \<Longrightarrow> carries s' q bs"
  unfolding carries_def using eff_buffer by blast

text \<open>
  Two buffers that the program can join: the sum fits into the first one, or the second one
  is too small for it, or the first one is not the shorter one.  Then the result is one buffer
  with the bytes of both, or none when no block is large enough.
\<close>

definition joinable :: "ulp_state \<Rightarrow> ptr \<Rightarrow> ptr \<Rightarrow> bool" where
  "joinable s p q \<longleftrightarrow> (\<exists>n k. mp_nodes (us_mem s) p = Some n \<and> mp_nodes (us_mem s) q = Some k \<and>
     (unat (mn_length n) + unat (mn_length k) \<le> unat (mn_size n) \<or>
      unat (mn_size k) < unat (mn_length n) + unat (mn_length k) \<or> mn_length k \<le> mn_length n))"

lemma eff_join:
  assumes ok: "rrc_ok s" and p: "buffer s p bs" and q: "buffer s q cs" and pq: "p \<noteq> q"
    and j: "joinable s p q" and n: "length bs + length cs < 2 ^ 16" and sp: "spare 1 s"
  obtains r s' where "us_join s p q = Some (r, s')" "r \<noteq> NULL" "eff {p, q} {r} [] s s'"
    "us_heap s' = us_heap s" "buffer s' r (bs @ cs)"
proof -
  obtain a b where a: "mp_nodes (us_mem s) p = Some a" "unat (mn_length a) = length bs"
    and b: "mp_nodes (us_mem s) q = Some b" "unat (mn_length b) = length cs"
    using p q by (auto simp: buffer_def)
  have own: "p \<in> own s" "q \<in> own s" and live: "p \<in> live (us_mem s)" "q \<in> live (us_mem s)"
    and h: "us_heap s p = None" "us_heap s q = None"
    using p q by (simp_all add: buffer_def own_raw own_live)
  have bytes: "blk_bytes (us_mem s) p (length bs) = bs" "blk_bytes (us_mem s) q (length cs) = cs"
    using p q by (simp_all add: buffer_def block_bytes_def)
  have inv: "mem_inv (us_mem s)" by (rule heap_okD(1) [OF rrc_okD(1) [OF ok]])
  obtain r m where r: "MemJoin (us_mem s) p q = Some (r, m)"
    "if r = NULL then mem_inv m \<and> live m = live (us_mem s) - {p, q} \<and> mp_cfg m = mp_cfg (us_mem s) \<and>
       same_but {p, q} (us_mem s) m \<and> (\<forall>j<MAX_NUM_POOL_SIZE. of_nat (unat (mn_length a) + unat (mn_length b))
         \<le> pc_size (mp_cfg (us_mem s) ! j) \<longrightarrow> mp_pools (us_mem s) ! j = [])
     else r \<notin> live (us_mem s) - {p, q} \<and>
       grown (us_mem s) m r {p, q} (blk_bytes (us_mem s) p (unat (mn_length a)) @ blk_bytes (us_mem s) q (unat (mn_length b)))"
    using MemJoin_joined [OF inv live pq a(1) b(1)] j a(1) b(1) by (auto simp: joinable_def)
  have "(of_nat (length bs + length cs) :: u32) \<le> 65536"
    using n by (simp add: word_le_nat_alt unat_of_nat_small del: of_nat_add)
  then have "(of_nat (length bs + length cs) :: u32) \<le> pc_size (mp_cfg (us_mem s) ! 9)"
    using sp by (auto simp: spare_def)
  moreover have "mp_pools (us_mem s) ! 9 \<noteq> []" using sp by (auto simp: spare_def)
  ultimately have nn: "r \<noteq> NULL" using r(2) a(2) b(2) by (cases "r = NULL") (auto dest: spec [of _ 9])
  then have fresh: "r \<notin> live (us_mem s) - {p, q}" and g: "grown (us_mem s) m r {p, q} (bs @ cs)"
    using r(2) a(2) b(2) bytes by simp_all
  let ?s = "s\<lparr>us_mem := m\<rparr>"
  have heap: "(us_heap s)(p := None, q := None) = us_heap s" using h by auto
  have run: "us_join s p q = Some (r, ?s)" using r(1) heap by (simp add: us_join_def)
  have hr: "us_heap s r = None"
    using fresh h heap_live [OF rrc_okD(1) [OF ok], of r] by (cases "us_heap s r") auto
  have lv: "live m = insert r (live (us_mem s) - {p, q})" and inv': "mem_inv m"
    and same: "same_but {r, p, q} (us_mem s) m" "mp_cfg m = mp_cfg (us_mem s)" using g by (simp_all add: grown_def)
  have "heap_ok ?s" using rrc_okD(1) [OF ok] lv inv' h by (auto simp: heap_ok_def dom_def)
  then have "rrc_ok ?s" by (intro rrc_ok_frame [OF ok]) simp_all
  moreover have "own ?s = own s - {p, q} \<union> {r}" using lv hr by (auto simp: own_def)
  moreover have "r \<notin> own s - {p, q}" using fresh own_live by blast
  moreover have "mem_kept (own s - {p, q}) (us_mem s) m"
    using fresh own_live by (intro same_but_kept [OF same]) auto
  ultimately have e: "eff {p, q} {r} [] s ?s" by (simp add: eff_def)
  have "buffer ?s r (bs @ cs)"
    using g n hr lv unfolding grown_def
    by (auto simp: buffer_def raw_def block_bytes_def unat_of_nat_small simp del: of_nat_add)
  then show thesis by (intro that [OF run nn e]) simp_all
qed

text \<open>
  Copying a part of one buffer, or its end, to the start of a fresh block of the right length.
\<close>

lemma eff_copy_part:
  assumes ok: "rrc_ok s" and p: "buffer s p bs" and k: "k + n \<le> length bs" and q: "q \<in> own s" "us_heap s q = None" "p \<noteq> q"
    and cap: "n \<le> blk_cap (us_mem s) q"
    and nd: "\<exists>nd. mp_nodes (us_mem s) q = Some nd \<and> unat (mn_length nd) = n"
  obtains s' where "us_copy s q p k n = Some s'" "eff {q} {q} [] s s'" "us_heap s' = us_heap s"
    "buffer s' q (take n (drop k bs))"
proof -
  let ?m = "us_mem s\<lparr>mp_data := copied (us_mem s) q 0 p k n\<rparr>"
  have pc: "length bs \<le> blk_cap (us_mem s) p" "p \<in> own s" "length bs < 2 ^ 16" "blk_bytes (us_mem s) p (length bs) = bs"
    using p by (simp_all add: buffer_def own_raw block_bytes_def)
  have run: "us_copy s q p k n = Some (s\<lparr>us_mem := ?m\<rparr>)"
    using mem_copy_Some [of k n "us_mem s" p 0 q] pc k cap q(3) by (simp add: us_copy_def)
  have m: "mem_inv ?m" "live ?m = live (us_mem s)" "mem_kept (live (us_mem s) - {q}) (us_mem s) ?m"
    using heap_okD(1) [OF rrc_okD(1) [OF ok]] by (auto simp: mem_kept_def copied_def)
  have "mp_data (us_mem s) p i = bs ! i" if "i < length bs" for i
    using that arg_cong [OF pc(4), of "\<lambda>xs. xs ! i"] by (simp add: blk_bytes_def)
  then have "blk_bytes ?m q n = take n (drop k bs)"
    using k by (intro nth_equalityI) (auto simp: blk_bytes_def copied_def)
  moreover have "length (take n (drop k bs)) = n" using k by simp
  moreover have "blk_cap ?m q = blk_cap (us_mem s) q" by (simp add: blk_cap_def split: option.split)
  ultimately have "buffer (s\<lparr>us_mem := ?m\<rparr>) q (take n (drop k bs))"
    using q cap nd pc(3) m(2) k unfolding buffer_def by (simp add: own_raw raw_def own_def block_bytes_def) auto
  with eff_mem [OF ok q(1) m] show thesis by (intro that [OF run]) simp_all
qed

lemma eff_copy:
  assumes "rrc_ok s" "buffer s p bs" and k: "k \<le> length bs" and "q \<in> own s" "us_heap s q = None" "p \<noteq> q"
    and "length bs - k \<le> blk_cap (us_mem s) q"
    and "\<exists>n. mp_nodes (us_mem s) q = Some n \<and> unat (mn_length n) = length bs - k"
  obtains s' where "us_copy s q p k (length bs - k) = Some s'" "eff {q} {q} [] s s'" "us_heap s' = us_heap s"
    "buffer s' q (drop k bs)"
proof -
  have "k + (length bs - k) \<le> length bs" using k by simp
  from eff_copy_part [OF assms(1,2) this assms(4-8)] obtain s' where "us_copy s q p k (length bs - k) = Some s'"
    "eff {q} {q} [] s s'" "us_heap s' = us_heap s" "buffer s' q (take (length bs - k) (drop k bs))" by blast
  then show thesis by (intro that [of s']) simp_all
qed

end
