(* ===== verification/Rlc_Reassembly.thy ===== *)
theory Rlc_Reassembly
  imports Rlc_Frame
begin

text \<open>
  The reassembly of SDUs.  The abstract receiver keeps the bytes of the partial SDU with the
  sequence number of its last PDU and the uplink grants it came in; one data field element
  makes it grow, completes it, or throws it away.  The functions of \<open>lteRlc.c\<close> are shown to
  do exactly this on the blocks of the memory pools.
\<close>

section \<open>The abstract receiver\<close>

type_synonym rx_state = "(u16 \<times> u8 list) option \<times> UlReportInfo list"

text \<open>\<open>g\<close> is the grant the MAC holds for the UE at that time, if it knows the UE.\<close>

definition start_grants :: "UlReportInfo option \<Rightarrow> UlReportInfo list \<Rightarrow> UlReportInfo list" where
  "start_grants g gs = (case g of None \<Rightarrow> gs | Some x \<Rightarrow> [x])"

definition more_grants :: "UlReportInfo option \<Rightarrow> UlReportInfo list \<Rightarrow> UlReportInfo list" where
  "more_grants g gs = (case g of None \<Rightarrow> gs
     | Some x \<Rightarrow> if length gs < MAX_RLC_SEGMENTS_NUM then gs @ [x] else gs)"

definition rx_first :: "UlReportInfo option \<Rightarrow> u16 \<Rightarrow> RlcSduStatus \<Rightarrow> u8 list \<Rightarrow> UlReportInfo list \<Rightarrow>
    rx_state \<times> (u8 list \<times> UlReportInfo list) list" where
  "rx_first g sn st bs gs = (case st of
     AM_PDU_MAP_SDU_FULL \<Rightarrow> ((None, []), [(bs, start_grants g gs)])
   | AM_PDU_MAP_SDU_START \<Rightarrow> ((Some (sn, bs), start_grants g gs), [])
   | _ \<Rightarrow> ((None, gs), []))"

definition rx_next :: "UlReportInfo option \<Rightarrow> u16 \<Rightarrow> RlcSduStatus \<Rightarrow> u8 list \<Rightarrow> u16 \<Rightarrow> u8 list \<Rightarrow>
    UlReportInfo list \<Rightarrow> rx_state \<times> (u8 list \<times> UlReportInfo list) list" where
  "rx_next g sn st bs n part gs =
     (if isSNEqual sn (n + 1) \<or> isSNEqual sn n then (case st of
        AM_PDU_MAP_SDU_END \<Rightarrow> ((None, []), [(part @ bs, more_grants g gs)])
      | AM_PDU_MAP_SDU_MID \<Rightarrow> (if isSNEqual sn n then ((Some (n, part), gs), [])
                              else ((Some (sn, part @ bs), more_grants g gs), []))
      | AM_PDU_MAP_SDU_FULL \<Rightarrow> ((None, []), [(bs, start_grants g gs)])
      | AM_PDU_MAP_SDU_START \<Rightarrow> ((Some (sn, bs), gs), []))
      else if st = AM_PDU_MAP_SDU_FULL \<or> st = AM_PDU_MAP_SDU_START then rx_first g sn st bs gs
      else ((Some (n, part), gs), []))"

definition rx_dfe :: "UlReportInfo option \<Rightarrow> u16 \<Rightarrow> RlcSduStatus \<times> u8 list \<Rightarrow> rx_state \<Rightarrow>
    rx_state \<times> (u8 list \<times> UlReportInfo list) list" where
  "rx_dfe g sn x r = (case fst r of
     None \<Rightarrow> rx_first g sn (fst x) (snd x) (snd r)
   | Some (n, part) \<Rightarrow> rx_next g sn (fst x) (snd x) n part (snd r))"

fun rx_dfes :: "UlReportInfo option \<Rightarrow> u16 \<Rightarrow> (RlcSduStatus \<times> u8 list) list \<Rightarrow> rx_state \<Rightarrow>
    rx_state \<times> (u8 list \<times> UlReportInfo list) list" where
  "rx_dfes g sn [] r = (r, [])"
| "rx_dfes g sn (x # xs) r = (let (r, o1) = rx_dfe g sn x r; (r, o2) = rx_dfes g sn xs r in (r, o1 @ o2))"

section \<open>Its representation\<close>

text \<open>
  A data field element at address \<open>pd\<close> with the buffer \<open>pb\<close>. Where the bytes
  may be joined to others later, the recorded length of the buffer has to be exact.
\<close>

definition dfe_at :: "ulp_state \<Rightarrow> ptr \<Rightarrow> ptr \<Rightarrow> RlcSduStatus \<Rightarrow> u8 list \<Rightarrow> bool" where
  "dfe_at s pd pb st bs \<longleftrightarrow>
     us_heap s pd = Some (DfeObj \<lparr>df_status = st, df_buffer = \<lparr>rb_size = of_nat (length bs), rb_pData = pb\<rparr>\<rparr>) \<and>
     carries s pb bs \<and> (st = AM_PDU_MAP_SDU_START \<or> st = AM_PDU_MAP_SDU_MID \<longrightarrow> buffer s pb bs)"

definition partial_blocks :: "RxAMEntity \<Rightarrow> ptr set" where
  "partial_blocks e = {rb_pData (rs_rawSdu (am_rxRawSdu e))} - {NULL}"

definition rx_at :: "ulp_state \<Rightarrow> ptr \<Rightarrow> RxAMEntity \<Rightarrow> rx_state \<Rightarrow> bool" where
  "rx_at s pe e r \<longleftrightarrow> us_heap s pe = Some (AmObj e) \<and> grants (am_ulRptInfoList e) = snd r \<and>
     unat (ur_count (am_ulRptInfoList e)) \<le> MAX_RLC_SEGMENTS_NUM \<and>
     (case fst r of None \<Rightarrow> rb_pData (rs_rawSdu (am_rxRawSdu e)) = NULL
      | Some (n, bs) \<Rightarrow> rs_sn (am_rxRawSdu e) = n \<and> rb_size (rs_rawSdu (am_rxRawSdu e)) = of_nat (length bs) \<and>
          buffer s (rb_pData (rs_rawSdu (am_rxRawSdu e))) bs)"

text \<open>What the reassembly leaves alone in a receiver.\<close>

definition same_rx :: "RxAMEntity \<Rightarrow> RxAMEntity \<Rightarrow> bool" where
  "same_rx e e' \<longleftrightarrow> am_rnti e' = am_rnti e \<and> am_lcId e' = am_lcId e \<and> am_ring e' = am_ring e"

text \<open>The grant of the UE in the MAC table.\<close>

definition mac_ready :: "ulp_state \<Rightarrow> bool" where
  "mac_ready s \<longleftrightarrow> (\<forall>p\<in>set (gMacUeContext s). \<exists>c. us_heap s p = Some (MacObj c))"

definition mac_grant :: "ulp_state \<Rightarrow> u16 \<Rightarrow> UlReportInfo option" where
  "mac_grant s rnti = do {
     p \<leftarrow> MacGetUeContext s rnti;
     c \<leftarrow> get_obj the_mac s p;
     Some (grant_of c) }"

text \<open>An SDU that the layers above can take: see the PDCP.\<close>

definition deliverable :: "u8 \<Rightarrow> u8 list \<Rightarrow> bool" where
  "deliverable lc bs \<longleftrightarrow> length bs < 2 ^ 16 \<and> (lc = 1 \<and> (\<exists>h t. bs = h # t \<and> safe_rrc t) \<or> lc = 2 \<and> bs \<noteq> [])"

abbreviation delivered :: "RxAMEntity \<Rightarrow> (u8 list \<times> UlReportInfo list) list \<Rightarrow> sdu_log" where
  "delivered e os \<equiv> map (\<lambda>(bs, gs). (am_rnti e, am_lcId e, bs, gs)) os"

lemma grants_simps [simp]:
  "grants (l\<lparr>ur_count := 0\<rparr>) = []"
  "grants \<lparr>ur_count = 1, ur_info = (ur_info l)(0 := g)\<rparr> = [g]"
  by (simp_all add: grants_def)

lemma grants_add:
  assumes "unat (ur_count l) < MAX_RLC_SEGMENTS_NUM"
  shows "grants \<lparr>ur_count = ur_count l + 1, ur_info = (ur_info l)(unat (ur_count l) := g)\<rparr> = grants l @ [g]"
    "unat (ur_count l + 1) = unat (ur_count l) + 1"
proof -
  show u: "unat (ur_count l + 1) = unat (ur_count l) + 1"
    using assms by (intro unat_plus_simple [THEN iffD1, THEN trans]) (simp_all add: word_le_nat_alt unat_word_ariths)
  show "grants \<lparr>ur_count = ur_count l + 1, ur_info = (ur_info l)(unat (ur_count l) := g)\<rparr> = grants l @ [g]"
    by (simp add: grants_def u)
qed

lemma grants_length: "length (grants l) = unat (ur_count l)"
  by (simp add: grants_def)

lemma report_ok_grants: "report_ok (Some l) \<longleftrightarrow> length (grants l) \<le> MAX_RLC_SEGMENTS_NUM \<and> (\<forall>g\<in>set (grants l). ur_rbNum g \<noteq> 0)"
  by (auto simp: report_ok_def grants_def)

section \<open>Grants\<close>

lemma heap_NULL: "rrc_ok s \<Longrightarrow> us_heap s NULL = None"
  using heap_nonnull [OF rrc_okD(1), of s NULL] by (cases "us_heap s NULL") auto

lemma mac_ready_get:
  assumes "rrc_ok s" "mac_ready s"
  obtains (no) "MacGetUeContext s r = Some NULL" "mac_grant s r = None"
  | (ue) pm c where "MacGetUeContext s r = Some pm" "pm \<noteq> NULL" "us_heap s pm = Some (MacObj c)"
      "pm \<in> set (gMacUeContext s)" "mac_grant s r = Some (grant_of c)"
proof -
  let ?p = "lookup_rnti (mac_tbl s) r"
  have g: "MacGetUeContext s r = Some ?p"
    using assms(2) unfolding MacGetUeContext_def mac_tbl_def mac_ready_def by (intro mac_search_eq) blast
  show thesis
  proof (cases "?p = NULL")
    case True
    with g heap_NULL [OF assms(1)] show thesis by (intro no) (simp_all add: mac_grant_def get_obj_def)
  next
    case False
    then have p: "?p \<in> set (gMacUeContext s)" using lookup_rnti_in [of "mac_tbl s" r] by (auto simp: mac_tbl_def)
    then obtain c where "us_heap s ?p = Some (MacObj c)" using assms(2) by (auto simp: mac_ready_def)
    with g False p show thesis by (intro ue [of ?p c]) (simp_all add: mac_grant_def get_obj_def the_mac_def)
  qed
qed

lemma mac_stays:
  assumes e: "eff A B L s s'" and ok: "rrc_ok s" "mac_ready s" and A: "A \<inter> set (gMacUeContext s) = {}"
  shows "mac_ready s'" "mac_grant s' r = mac_grant s r" "set (gMacUeContext s') = set (gMacUeContext s)"
    "MacGetUeContext s' r = MacGetUeContext s r"
proof -
  have h: "us_heap s' p = us_heap s p" if p: "p \<in> set (gMacUeContext s)" for p
  proof -
    obtain c where "us_heap s p = Some (MacObj c)" using p ok(2) by (auto simp: mac_ready_def)
    with eff_obj [OF e this _ _ ok(1)] p A show ?thesis by auto
  qed
  show "mac_ready s'" using ok(2) h effD(6) [OF e] by (simp add: mac_ready_def)
  show "set (gMacUeContext s') = set (gMacUeContext s)" using effD(6) [OF e] by simp
  have sr: "mac_search s' ps r = mac_search s ps r" if "set ps \<subseteq> set (gMacUeContext s)" for ps
    using that by (induction ps) (simp_all add: get_obj_def h cong: Option.bind_cong if_cong)
  then show g: "MacGetUeContext s' r = MacGetUeContext s r"
    using effD(6) [OF e] by (simp add: MacGetUeContext_def)
  show "mac_grant s' r = mac_grant s r"
    using ok
  proof (cases rule: mac_ready_get [of s r])
    case no
    then show ?thesis using g heap_NULL [OF effD(1) [OF e]] by (simp add: mac_grant_def get_obj_def)
  next
    case (ue pm c)
    then show ?thesis using g h by (simp add: mac_grant_def get_obj_def the_mac_def)
  qed
qed

lemma put_obj_same: "us_heap s p = Some x \<Longrightarrow> put_obj p x s = s"
  by (simp add: put_obj_def fun_upd_idem)

lemma put_obj_twice [simp]: "put_obj p y (put_obj p x s) = put_obj p y s"
  by (simp add: put_obj_def)

text \<open>The three updates of the grant list.\<close>

lemma first_grant_run:
  assumes "us_heap s pe = Some (AmObj e)" "pm = NULL \<and> g = None \<or> pm \<noteq> NULL \<and> us_heap s pm = Some (MacObj c) \<and> g = Some (grant_of c)"
    "unat (ur_count (am_ulRptInfoList e)) \<le> MAX_RLC_SEGMENTS_NUM"
  obtains l where "first_grant pe pm s = Some (put_obj pe (AmObj (e\<lparr>am_ulRptInfoList := l\<rparr>)) s)"
    "grants l = start_grants g (grants (am_ulRptInfoList e))" "unat (ur_count l) \<le> MAX_RLC_SEGMENTS_NUM"
  using assms(2)
proof
  assume "pm = NULL \<and> g = None"
  then show thesis using assms(1,3)
    by (intro that [of "am_ulRptInfoList e"]) (simp_all add: first_grant_def start_grants_def put_obj_same)
next
  assume "pm \<noteq> NULL \<and> us_heap s pm = Some (MacObj c) \<and> g = Some (grant_of c)"
  then show thesis using assms(1)
    by (intro that [of "\<lparr>ur_count = 1, ur_info = (ur_info (am_ulRptInfoList e))(0 := grant_of c)\<rparr>"])
      (simp_all add: first_grant_def set_report_def get_obj_def the_mac_def the_am_def start_grants_def)
qed

lemma add_grant_run:
  assumes "us_heap s pe = Some (AmObj e)" "pm = NULL \<and> g = None \<or> pm \<noteq> NULL \<and> us_heap s pm = Some (MacObj c) \<and> g = Some (grant_of c)"
    "unat (ur_count (am_ulRptInfoList e)) \<le> MAX_RLC_SEGMENTS_NUM"
  obtains l where "add_grant pe pm s = Some (put_obj pe (AmObj (e\<lparr>am_ulRptInfoList := l\<rparr>)) s)"
    "grants l = more_grants g (grants (am_ulRptInfoList e))" "unat (ur_count l) \<le> MAX_RLC_SEGMENTS_NUM"
  using assms(2)
proof
  assume "pm = NULL \<and> g = None"
  then show thesis using assms(1,3)
    by (intro that [of "am_ulRptInfoList e"]) (simp_all add: add_grant_def more_grants_def put_obj_same)
next
  assume pm: "pm \<noteq> NULL \<and> us_heap s pm = Some (MacObj c) \<and> g = Some (grant_of c)"
  let ?l = "am_ulRptInfoList e"
  define l where "l = (if unat (ur_count ?l) < MAX_RLC_SEGMENTS_NUM
    then \<lparr>ur_count = ur_count ?l + 1, ur_info = (ur_info ?l)(unat (ur_count ?l) := grant_of c)\<rparr> else ?l)"
  have "add_grant pe pm s = Some (put_obj pe (AmObj (e\<lparr>am_ulRptInfoList := l\<rparr>)) s)"
    using pm assms(1) by (simp add: add_grant_def set_report_def get_obj_def the_mac_def the_am_def l_def)
  moreover have "grants l = more_grants g (grants ?l)" "unat (ur_count l) \<le> MAX_RLC_SEGMENTS_NUM"
    using pm assms(3) grants_add [of ?l] by (auto simp: more_grants_def l_def grants_length)
  ultimately show thesis by (rule that)
qed

lemma clear_grants_run:
  assumes "us_heap s pe = Some (AmObj e)"
  shows "clear_grants pe s = Some (put_obj pe (AmObj (e\<lparr>am_ulRptInfoList := (am_ulRptInfoList e)\<lparr>ur_count := 0\<rparr>\<rparr>)) s)"
  using assms by (simp add: set_report_def get_obj_def the_am_def)

lemma set_raw_run:
  assumes "us_heap s pe = Some (AmObj e)"
  shows "set_raw pe r s = Some (put_obj pe (AmObj (e\<lparr>am_rxRawSdu := r\<rparr>)) s)"
  using assms by (simp add: set_raw_def get_obj_def the_am_def)

section \<open>Delivery\<close>

lemma deliver_effect:
  assumes ok: "rrc_ok s" and e: "us_heap s pe = Some (AmObj e)" and b: "carries s pb bs"
    and del: "deliverable (am_lcId e) bs" and rpt: "report_ok (Some (am_ulRptInfoList e))"
  shows "\<exists>s'. RlcDeliverAmSduToPdcp s pe \<lparr>rb_size = of_nat (length bs), rb_pData = pb\<rparr> = Some s' \<and>
    eff {pb} {} [(am_rnti e, am_lcId e, bs, grants (am_ulRptInfoList e))] s s'"
proof -
  let ?l = "am_ulRptInfoList e"
  have n: "length bs < 2 ^ 16" "block_bytes s pb (length bs) = bs" "pb \<in> raw s"
    using b by (auto elim: carriesE)
  have w: "unat (of_nat (length bs) :: u32) = length bs" using n(1) by (simp add: unat_of_nat_small)
  have uc: "(ucast (of_nat (length bs) :: u32) :: u16) = of_nat (length bs)"
    using n(1) by (simp add: unsigned_of_nat take_bit_nat_eq_self_iff [THEN iffD2])
  let ?ev = "Ip_Rlc_Data (am_rnti e) (am_lcId e) bs ?l"
  let ?s = "emit ?ev s"
  have e1: "eff {} {} [(am_rnti e, am_lcId e, bs, grants ?l)] s ?s" using eff_emit [OF ok, of ?ev] by simp
  have ok1: "rrc_ok ?s" by (rule effD(1) [OF e1])
  have c1: "carries ?s pb bs" using b by (simp add: carries_def buffer_def raw_def block_bytes_def)
  have run: "RlcDeliverAmSduToPdcp s pe \<lparr>rb_size = of_nat (length bs), rb_pData = pb\<rparr> =
    RlcUeDataInd ?s (am_rnti e) (ucast (am_lcId e)) pb (of_nat (length bs)) (Some ?l)"
    using e n(2) w uc by (simp add: RlcDeliverAmSduToPdcp_def get_obj_def the_am_def Let_def)
  have "\<exists>s'. RlcUeDataInd ?s (am_rnti e) (ucast (am_lcId e)) pb (of_nat (length bs)) (Some ?l) = Some s' \<and> rrc_effect {pb} ?s s'"
    using del unfolding deliverable_def
  proof (elim conjE disjE exE)
    fix h t assume h: "am_lcId e = 1" "bs = h # t" "safe_rrc t"
    have "carries ?s pb (h # t)" using c1 by (simp add: h(2))
    from RlcUeDataInd_srb1 [OF ok1 this h(3) rpt, of "am_rnti e"] show ?thesis
      by (simp add: h(1,2))
  next
    assume h: "am_lcId e = 2" "bs \<noteq> []"
    have "(1 :: u16) < 2" by (simp add: word_less_nat_alt)
    from RlcUeDataInd_dropped [OF ok1 c1 h(2) this, of "Some ?l" "am_rnti e"] show ?thesis
      unfolding h(1) by auto
  qed
  then obtain s' where s': "RlcUeDataInd ?s (am_rnti e) (ucast (am_lcId e)) pb (of_nat (length bs)) (Some ?l) = Some s'"
    "rrc_effect {pb} ?s s'" by blast
  have "eff {pb} {} [] ?s s'" using n(3) by (intro eff_rrc [OF ok1 _ s'(2)]) (simp add: raw_def)
  from eff_comp [OF e1 this, where A' = "{pb}" and B' = "{}"] show ?thesis using run s'(1) by auto
qed

section \<open>One data field element\<close>

text \<open>
  The result of a step of the reassembly: the receiver at \<open>pe\<close> now represents
  \<open>r\<close>, the blocks \<open>D\<close> have been used up but for \<open>K\<close>, and the SDUs
  \<open>os\<close> have been delivered.
\<close>

definition stepped :: "ptr set \<Rightarrow> ptr set \<Rightarrow> ptr \<Rightarrow> RxAMEntity \<Rightarrow> rx_state \<Rightarrow> (u8 list \<times> UlReportInfo list) list \<Rightarrow>
    ulp_state \<Rightarrow> ulp_state \<Rightarrow> bool" where
  "stepped D K pe e r os s s' \<longleftrightarrow> (\<exists>e'. rx_at s' pe e' r \<and> same_rx e e' \<and> K \<inter> partial_blocks e' = {} \<and>
     eff (D \<union> insert pe (partial_blocks e)) (K \<union> insert pe (partial_blocks e')) (delivered e os) s s')"

definition out_ok :: "u8 \<Rightarrow> (u8 list \<times> UlReportInfo list) list \<Rightarrow> bool" where
  "out_ok lc os \<longleftrightarrow> (\<forall>(bs, gs)\<in>set os. deliverable lc bs \<and> length gs \<le> MAX_RLC_SEGMENTS_NUM \<and> (\<forall>g\<in>set gs. ur_rbNum g \<noteq> 0))"

text \<open>Where the blocks of a receiver and of an element can and cannot be.\<close>

lemma rx_dfe_blocks:
  assumes "rrc_ok s" "rx_at s pe e r" "dfe_at s pd pb st bs"
  shows "pe \<in> own s" "pd \<in> own s" "pb \<in> own s" "pe \<noteq> pd" "pe \<noteq> pb" "pd \<noteq> pb" "partial_blocks e \<subseteq> own s"
    "pe \<notin> partial_blocks e" "pd \<notin> partial_blocks e" "pb \<noteq> NULL" "us_heap s pb = None" "pd \<noteq> NULL"
    "mac_ready s \<Longrightarrow> {pe, pd, pb} \<inter> set (gMacUeContext s) = {}"
    "mac_ready s \<Longrightarrow> partial_blocks e \<inter> set (gMacUeContext s) = {}"
proof -
  have pe: "us_heap s pe = Some (AmObj e)" using assms(2) by (simp add: rx_at_def)
  have pd: "us_heap s pd = Some (DfeObj \<lparr>df_status = st, df_buffer = \<lparr>rb_size = of_nat (length bs), rb_pData = pb\<rparr>\<rparr>)"
    using assms(3) by (simp add: dfe_at_def)
  have pb: "pb \<in> raw s" using assms(3) by (auto simp: dfe_at_def elim: carriesE)
  have part: "q \<in> raw s" if "q \<in> partial_blocks e" for q
    using that assms(2) by (auto simp: partial_blocks_def rx_at_def buffer_def split: option.splits)
  show "pe \<in> own s" "pd \<in> own s" "pb \<in> own s" "pe \<noteq> pd" "pe \<noteq> pb" "pd \<noteq> pb" "us_heap s pb = None"
    using own_obj [OF assms(1) pe] own_obj [OF assms(1) pd] pb pe pd by (auto simp: own_raw)
  show "partial_blocks e \<subseteq> own s" using part by (auto simp: own_raw)
  show "pe \<notin> partial_blocks e" "pd \<notin> partial_blocks e" using part [of pe] part [of pd] pe pd by (auto simp: own_raw)
  show "pb \<noteq> NULL" using own_nonnull [OF assms(1), of pb] pb by (auto simp: own_raw)
  show "pd \<noteq> NULL" using heap_NULL [OF assms(1)] pd by (cases "pd = NULL") auto
  assume "mac_ready s"
  then have m: "\<exists>c. us_heap s p = Some (MacObj c)" if "p \<in> set (gMacUeContext s)" for p
    using that by (auto simp: mac_ready_def)
  show "{pe, pd, pb} \<inter> set (gMacUeContext s) = {}" using m [of pe] m [of pd] m [of pb] pe pd pb by (auto simp: own_raw)
  show "partial_blocks e \<inter> set (gMacUeContext s) = {}" using m part by (fastforce simp: own_raw)
qed

lemma rx_at_eff:
  assumes "eff A B L s s'" "rrc_ok s" "rx_at s pe e r" "pe \<notin> A" "partial_blocks e \<inter> A = {}"
  shows "rx_at s' pe e r"
proof -
  have "us_heap s' pe = Some (AmObj e)" using assms(3,4) eff_obj [OF assms(1) _ _ _ assms(2)] by (simp add: rx_at_def)
  moreover have "buffer s' (rb_pData (rs_rawSdu (am_rxRawSdu e))) bs"
    if b: "buffer s (rb_pData (rs_rawSdu (am_rxRawSdu e))) bs" for bs
  proof -
    have "rb_pData (rs_rawSdu (am_rxRawSdu e)) \<in> partial_blocks e"
      using own_nonnull [OF assms(2)] b by (auto simp: partial_blocks_def buffer_def own_raw)
    with assms(5) show ?thesis by (intro eff_buffer [OF assms(1) b]) blast
  qed
  ultimately show ?thesis using assms(3) by (auto simp: rx_at_def split: option.splits)
qed

text \<open>A complete SDU is delivered with the grant; the grant list is empty afterwards.\<close>

lemma deliver_clear:
  assumes ok: "rrc_ok s" and pe: "us_heap s pe = Some (AmObj e)" and b: "carries s pb bs" "sz = of_nat (length bs)"
    and out: "out_ok (am_lcId e) [(bs, grants (am_ulRptInfoList e))]"
  shows "\<exists>s'. do { s \<leftarrow> RlcDeliverAmSduToPdcp s pe \<lparr>rb_size = sz, rb_pData = pb\<rparr>; clear_grants pe s } = Some s' \<and>
    us_heap s' pe = Some (AmObj (e\<lparr>am_ulRptInfoList := (am_ulRptInfoList e)\<lparr>ur_count := 0\<rparr>\<rparr>)) \<and>
    eff {pe, pb} {pe} (delivered e [(bs, grants (am_ulRptInfoList e))]) s s'"
proof -
  have pb: "pb \<noteq> pe" using b(1) pe by (auto elim: carriesE)
  have "report_ok (Some (am_ulRptInfoList e))" "deliverable (am_lcId e) bs"
    using out by (simp_all add: out_ok_def report_ok_grants)
  then obtain s2 where s2: "RlcDeliverAmSduToPdcp s pe \<lparr>rb_size = sz, rb_pData = pb\<rparr> = Some s2"
    "eff {pb} {} (delivered e [(bs, grants (am_ulRptInfoList e))]) s s2"
    using deliver_effect [OF ok pe b(1)] b(2) by auto
  have h2: "us_heap s2 pe = Some (AmObj e)" using eff_obj [OF s2(2) pe _ _ ok] pb by simp
  let ?e3 = "e\<lparr>am_ulRptInfoList := (am_ulRptInfoList e)\<lparr>ur_count := 0\<rparr>\<rparr>"
  have e3: "eff {pe} {pe} [] s2 (put_obj pe (AmObj ?e3) s2)" by (rule eff_put [OF effD(1) [OF s2(2)] h2]) simp_all
  have "eff {pe, pb} {pe} (delivered e [(bs, grants (am_ulRptInfoList e))]) s (put_obj pe (AmObj ?e3) s2)"
    using pb by (intro eff_comp [OF s2(2) e3]) auto
  then show ?thesis using s2(1) clear_grants_run [OF h2] by (intro exI [of _ "put_obj pe (AmObj ?e3) s2"]) simp
qed

text \<open>A complete SDU is delivered with the grant; the grant list is empty afterwards.\<close>

lemma deliver_first:
  assumes ok: "rrc_ok s" "mac_ready s" and rx: "rx_at s pe e (None, gs)"
    and pm: "MacGetUeContext s (am_rnti e) = Some pm" and b: "carries s pb bs" and size: "sz = of_nat (length bs)"
    and out: "out_ok (am_lcId e) [(bs, start_grants (mac_grant s (am_rnti e)) gs)]"
  shows "\<exists>s' e'. do { s \<leftarrow> first_grant pe pm s; s \<leftarrow> RlcDeliverAmSduToPdcp s pe \<lparr>rb_size = sz, rb_pData = pb\<rparr>;
      clear_grants pe s } = Some s' \<and> rx_at s' pe e' (None, []) \<and> same_rx e e' \<and>
    eff {pe, pb} {pe} (delivered e [(bs, start_grants (mac_grant s (am_rnti e)) gs)]) s s'"
proof -
  let ?g = "mac_grant s (am_rnti e)"
  have pe: "us_heap s pe = Some (AmObj e)" and gs: "grants (am_ulRptInfoList e) = gs"
    and cnt: "unat (ur_count (am_ulRptInfoList e)) \<le> MAX_RLC_SEGMENTS_NUM"
    and nd: "rb_pData (rs_rawSdu (am_rxRawSdu e)) = NULL" using rx by (simp_all add: rx_at_def)
  obtain c where c: "pm = NULL \<and> ?g = None \<or> pm \<noteq> NULL \<and> us_heap s pm = Some (MacObj c) \<and> ?g = Some (grant_of c)"
    using ok by (cases rule: mac_ready_get [of s "am_rnti e"]) (use pm in auto)
  obtain l where l: "first_grant pe pm s = Some (put_obj pe (AmObj (e\<lparr>am_ulRptInfoList := l\<rparr>)) s)"
    "grants l = start_grants ?g gs" "unat (ur_count l) \<le> MAX_RLC_SEGMENTS_NUM"
    using first_grant_run [OF pe c cnt] gs by auto
  let ?e1 = "e\<lparr>am_ulRptInfoList := l\<rparr>"
  let ?s1 = "put_obj pe (AmObj ?e1) s"
  have e1: "eff {pe} {pe} [] s ?s1" by (rule eff_put [OF ok(1) pe]) simp_all
  have "pb \<noteq> pe" using b pe by (auto elim: carriesE)
  then have "carries ?s1 pb bs" by (intro eff_carries [OF e1 b]) simp
  then obtain s2 where s2: "do { s \<leftarrow> RlcDeliverAmSduToPdcp ?s1 pe \<lparr>rb_size = sz, rb_pData = pb\<rparr>; clear_grants pe s } = Some s2"
    "us_heap s2 pe = Some (AmObj (?e1\<lparr>am_ulRptInfoList := l\<lparr>ur_count := 0\<rparr>\<rparr>))"
    "eff {pe, pb} {pe} (delivered e [(bs, start_grants ?g gs)]) ?s1 s2"
    using deliver_clear [OF effD(1) [OF e1], of pe ?e1 pb bs sz] out l(2) size by auto
  have "eff {pe, pb} {pe} (delivered e [(bs, start_grants ?g gs)]) s s2"
    by (rule eff_comp [OF e1 s2(3)]) auto
  moreover have "rx_at s2 pe (?e1\<lparr>am_ulRptInfoList := l\<lparr>ur_count := 0\<rparr>\<rparr>) (None, [])" using s2(2) nd by (simp add: rx_at_def)
  ultimately show ?thesis using l(1) s2(1)
    by (intro exI [of _ s2] exI [of _ "?e1\<lparr>am_ulRptInfoList := l\<lparr>ur_count := 0\<rparr>\<rparr>"]) (simp add: same_rx_def)
qed

lemma steppedI:
  assumes "eff A B (delivered e os) s s'" "rx_at s' pe e' r" "same_rx e e'"
    "D \<union> insert pe (partial_blocks e) = A \<union> X" "K \<union> insert pe (partial_blocks e') = B \<union> X" "X \<subseteq> own s" "X \<inter> A = {}"
    "K \<inter> partial_blocks e' = {}"
  shows "stepped D K pe e r os s s'"
proof -
  have "eff (D \<union> insert pe (partial_blocks e)) (K \<union> insert pe (partial_blocks e')) (delivered e os) s s'"
    unfolding assms(4,5) by (rule eff_widen [OF assms(1,6,7)])
  with assms(2,3,8) show ?thesis by (auto simp: stepped_def)
qed

lemma dfe_at_obj: "dfe_at s pd pb st bs \<Longrightarrow>
    us_heap s pd = Some (DfeObj \<lparr>df_status = st, df_buffer = \<lparr>rb_size = of_nat (length bs), rb_pData = pb\<rparr>\<rparr>)"
  by (simp add: dfe_at_def)

text \<open>The first segment of an SDU.\<close>

lemma first_segment:
  assumes ok: "rrc_ok s" "mac_ready s" and rx: "rx_at s pe e (None, gs)" and d: "dfe_at s pd pb st bs"
    and r: "rx_first (mac_grant s (am_rnti e)) sn st bs gs = (r', os)" and out: "out_ok (am_lcId e) os"
  shows "\<exists>s'. RlcReassembleFirstSduSegment sn pe pd s = Some s' \<and> stepped {pd, pb} {pd} pe e r' os s s'"
proof -
  let ?g = "mac_grant s (am_rnti e)"
  let ?d = "\<lparr>df_status = st, df_buffer = \<lparr>rb_size = of_nat (length bs), rb_pData = pb\<rparr>\<rparr>"
  note blocks = rx_dfe_blocks [OF ok(1) rx d]
  have pe: "us_heap s pe = Some (AmObj e)" and gs: "grants (am_ulRptInfoList e) = gs"
    and cnt: "unat (ur_count (am_ulRptInfoList e)) \<le> MAX_RLC_SEGMENTS_NUM"
    and nd: "rb_pData (rs_rawSdu (am_rxRawSdu e)) = NULL" using rx by (simp_all add: rx_at_def)
  have part: "partial_blocks e = {}" using nd by (simp add: partial_blocks_def)
  have part0: "partial_blocks e' = {}" if "rx_at t pe e' (None, x)" for t e' x
    using that by (simp add: rx_at_def partial_blocks_def)
  obtain pm c where pm: "MacGetUeContext s (am_rnti e) = Some pm"
    "pm = NULL \<and> ?g = None \<or> pm \<noteq> NULL \<and> us_heap s pm = Some (MacObj c) \<and> ?g = Some (grant_of c)"
    using ok by (cases rule: mac_ready_get [of s "am_rnti e"]) auto
  note run = RlcReassembleFirstSduSegment_def pe pm(1) dfe_at_obj [OF d] get_obj_def the_am_def the_dfe_def
  show ?thesis
  proof (cases st)
    case AM_PDU_MAP_SDU_FULL
    have os: "r' = (None, [])" "os = [(bs, start_grants ?g gs)]" using r AM_PDU_MAP_SDU_FULL by (simp_all add: rx_first_def)
    have "carries s pb bs" using d by (simp add: dfe_at_def)
    then obtain s' e' where s': "do { s \<leftarrow> first_grant pe pm s; s \<leftarrow> RlcDeliverAmSduToPdcp s pe \<lparr>rb_size = of_nat (length bs), rb_pData = pb\<rparr>;
      clear_grants pe s } = Some s'" "rx_at s' pe e' (None, [])" "same_rx e e'" "eff {pe, pb} {pe} (delivered e os) s s'"
      using deliver_first [OF ok rx pm(1) _ refl out [unfolded os(2)]] os(2) by blast
    have "stepped {pd, pb} {pd} pe e r' os s s'"
      using s'(2-4) part part0 [OF s'(2)] blocks os(1) by (intro steppedI [OF s'(4), of _ e' _ _ "{pd}"]) auto
    with s'(1) show ?thesis by (simp add: run AM_PDU_MAP_SDU_FULL)
  next
    case AM_PDU_MAP_SDU_START
    have os: "r' = (Some (sn, bs), start_grants ?g gs)" "os = []" using r AM_PDU_MAP_SDU_START by (simp_all add: rx_first_def)
    define e1 where "e1 = e\<lparr>am_rxRawSdu := \<lparr>rs_sn = sn, rs_rawSdu = df_buffer ?d\<rparr>\<rparr>"
    define s1 where "s1 = put_obj pe (AmObj e1) s"
    define s2 where "s2 = put_obj pd (DfeObj (?d\<lparr>df_buffer := \<lparr>rb_size = 0, rb_pData = NULL\<rparr>\<rparr>)) s1"
    have f1: "eff {pe} {pe} [] s s1" unfolding s1_def by (rule eff_put [OF ok(1) pe]) simp_all
    have f2: "eff {pd} {pd} [] s1 s2" unfolding s2_def
      by (rule eff_put [OF effD(1) [OF f1], of _ "DfeObj ?d"]) (use dfe_at_obj [OF d] blocks(4) in \<open>simp_all add: s1_def\<close>)
    have f12: "eff {pe, pd} {pe, pd} [] s s2" by (rule eff_comp [OF f1 f2]) (use blocks(4) in auto)
    have pe2: "us_heap s2 pe = Some (AmObj e1)" using blocks(4) by (simp add: s2_def s1_def)
    have pm2: "pm = NULL \<and> ?g = None \<or> pm \<noteq> NULL \<and> us_heap s2 pm = Some (MacObj c) \<and> ?g = Some (grant_of c)"
      using pm(2) pe dfe_at_obj [OF d] by (auto simp: s2_def s1_def)
    obtain l where l: "first_grant pe pm s2 = Some (put_obj pe (AmObj (e1\<lparr>am_ulRptInfoList := l\<rparr>)) s2)"
      "grants l = start_grants ?g gs" "unat (ur_count l) \<le> MAX_RLC_SEGMENTS_NUM"
      using first_grant_run [OF pe2 pm2] cnt gs by (auto simp: e1_def)
    let ?e3 = "e1\<lparr>am_ulRptInfoList := l\<rparr>"
    let ?s3 = "put_obj pe (AmObj ?e3) s2"
    have f3: "eff {pe} {pe} [] s2 ?s3" by (rule eff_put [OF effD(1) [OF f2] pe2]) simp_all
    have f: "eff {pe, pd} {pe, pd} (delivered e os) s ?s3" by (rule eff_comp [OF f12 f3]) (auto simp: os(2))
    have "buffer s pb bs" using d AM_PDU_MAP_SDU_START by (simp add: dfe_at_def)
    then have "buffer ?s3 pb bs" using blocks by (intro eff_buffer [OF f]) auto
    then have rx3: "rx_at ?s3 pe ?e3 r'" using l(2,3) by (simp add: rx_at_def os(1) e1_def)
    have "stepped {pd, pb} {pd} pe e r' os s ?s3"
      using blocks part by (intro steppedI [OF f rx3, where X = "{pb}"]) (auto simp: same_rx_def e1_def partial_blocks_def)
    moreover have "RlcReassembleFirstSduSegment sn pe pd s = Some ?s3"
      using l(1) set_raw_run [OF pe] by (simp add: run AM_PDU_MAP_SDU_START s2_def s1_def e1_def)
    ultimately show ?thesis by blast
  next
    case AM_PDU_MAP_SDU_END
    obtain s' where s': "us_free s pb = Some s'" "eff {pb} {} [] s s'" by (rule eff_free [OF ok(1) blocks(3)])
    have "rx_at s' pe e (None, gs)" using blocks part by (intro rx_at_eff [OF s'(2) ok(1) rx]) auto
    moreover have "r' = (None, gs)" "os = []" using r AM_PDU_MAP_SDU_END by (simp_all add: rx_first_def)
    ultimately have "stepped {pd, pb} {pd} pe e r' os s s'"
      using s'(2) blocks part by (intro steppedI [where A = "{pb}" and B = "{}" and X = "{pe, pd}"]) (auto simp: same_rx_def)
    with s'(1) show ?thesis by (simp add: run AM_PDU_MAP_SDU_END)
  next
    case AM_PDU_MAP_SDU_MID
    obtain s' where s': "us_free s pb = Some s'" "eff {pb} {} [] s s'" by (rule eff_free [OF ok(1) blocks(3)])
    have "rx_at s' pe e (None, gs)" using blocks part by (intro rx_at_eff [OF s'(2) ok(1) rx]) auto
    moreover have "r' = (None, gs)" "os = []" using r AM_PDU_MAP_SDU_MID by (simp_all add: rx_first_def)
    ultimately have "stepped {pd, pb} {pd} pe e r' os s s'"
      using s'(2) blocks part by (intro steppedI [where A = "{pb}" and B = "{}" and X = "{pe, pd}"]) (auto simp: same_rx_def)
    with s'(1) show ?thesis by (simp add: run AM_PDU_MAP_SDU_MID)
  qed
qed

text \<open>Joining an element to the partial SDU.\<close>

definition join_fits :: "ulp_state \<Rightarrow> ptr \<Rightarrow> ptr \<Rightarrow> bool" where
  "join_fits s p q \<longleftrightarrow> joinable s p q \<and> spare 1 s \<and>
     (\<forall>n k. mp_nodes (us_mem s) p = Some n \<and> mp_nodes (us_mem s) q = Some k \<longrightarrow>
        unat (mn_length n) + unat (mn_length k) < 2 ^ 16)"

lemma join_raw_run:
  assumes ok: "rrc_ok s" and rx: "rx_at s pe e (Some (n, part), gs)" and d: "dfe_at s pd pb st bs"
    and ne: "pb \<notin> partial_blocks e" and fit: "join_fits s (rb_pData (rs_rawSdu (am_rxRawSdu e))) pb"
  obtains t s' where "join_raw pe sn (am_rxRawSdu e)
      \<lparr>df_status = st, df_buffer = \<lparr>rb_size = of_nat (length bs), rb_pData = pb\<rparr>\<rparr> s = Some (True, s')"
    "us_heap s' pe = Some (AmObj (e\<lparr>am_rxRawSdu := \<lparr>rs_sn = sn, rs_rawSdu = \<lparr>rb_size = of_nat (length (part @ bs)), rb_pData = t\<rparr>\<rparr>\<rparr>))"
    "eff (insert pb (insert pe (partial_blocks e))) {pe, t} [] s s'" "t \<noteq> NULL" "t \<noteq> pe" "carries s' t (part @ bs)"
    "buffer s pb bs \<Longrightarrow> buffer s' t (part @ bs)" "t = pb \<or> t \<in> partial_blocks e \<or> t \<notin> own s"
proof -
  let ?q = "rb_pData (rs_rawSdu (am_rxRawSdu e))"
  have pe: "us_heap s pe = Some (AmObj e)" and part: "buffer s ?q part" and sz: "rb_size (rs_rawSdu (am_rxRawSdu e)) = of_nat (length part)"
    using rx by (simp_all add: rx_at_def)
  note blocks = rx_dfe_blocks [OF ok rx d]
  have q: "?q \<noteq> NULL" using own_nonnull [OF ok, of ?q] part by (auto simp: buffer_def own_raw)
  then have pq: "partial_blocks e = {?q}" by (simp add: partial_blocks_def)
  obtain cs where cs: "buffer s pb (bs @ cs)" "buffer s pb bs \<Longrightarrow> cs = []"
  proof (cases "buffer s pb bs")
    case False
    obtain cs where "buffer s pb (bs @ cs)" using d by (auto simp: dfe_at_def carries_def)
    with False show thesis by (intro that [of cs]) simp_all
  qed (use that [of "[]"] in simp)
  have len: "length part + length (bs @ cs) < 2 ^ 16"
    using fit part cs(1) unfolding join_fits_def buffer_def by force
  have qb: "?q \<noteq> pb" using ne pq by auto
  obtain t s1 where t: "us_join s ?q pb = Some (t, s1)" "t \<noteq> NULL" "eff {?q, pb} {t} [] s s1"
    "us_heap s1 = us_heap s" "buffer s1 t (part @ bs @ cs)"
    by (rule eff_join [OF ok part cs(1) qb _ len]) (use fit in \<open>simp_all add: join_fits_def\<close>)
  let ?r = "\<lparr>rs_sn = sn, rs_rawSdu = \<lparr>rb_size = of_nat (length (part @ bs)), rb_pData = t\<rparr>\<rparr>"
  have pe1: "us_heap s1 pe = Some (AmObj e)" using t(4) pe by simp
  have tpe: "t \<noteq> pe" using t(5) pe1 by (auto simp: buffer_def own_raw)
  let ?s2 = "put_obj pe (AmObj (e\<lparr>am_rxRawSdu := ?r\<rparr>)) s1"
  have f2: "eff {pe} {pe} [] s1 ?s2" by (rule eff_put [OF effD(1) [OF t(3)] pe1]) simp_all
  have f: "eff (insert pb (insert pe (partial_blocks e))) {pe, t} [] s ?s2"
    unfolding pq using tpe by (intro eff_comp [OF t(3) f2]) auto
  have b2: "buffer ?s2 t (part @ bs @ cs)" using tpe by (intro eff_buffer [OF f2 t(5)]) simp
  have "join_raw pe sn (am_rxRawSdu e) \<lparr>df_status = st, df_buffer = \<lparr>rb_size = of_nat (length bs), rb_pData = pb\<rparr>\<rparr> s = Some (True, ?s2)"
    using t(1,2) set_raw_run [OF pe1] sz by (simp add: join_raw_def)
  moreover have "carries ?s2 t (part @ bs)" using buffer_carries [of ?s2 t "part @ bs" cs] b2 by simp
  moreover have "buffer ?s2 t (part @ bs)" if "buffer s pb bs" using b2 cs(2) [OF that] by simp
  moreover have "t = pb \<or> t \<in> partial_blocks e \<or> t \<notin> own s" using effD(3) [OF t(3)] pq by auto
  ultimately show thesis using f t(2) tpe by (intro that [of ?s2 t]) simp_all
qed

definition needs_join :: "u16 \<Rightarrow> RlcSduStatus \<Rightarrow> u16 \<Rightarrow> bool" where
  "needs_join sn st n \<longleftrightarrow> st = AM_PDU_MAP_SDU_END \<and> (isSNEqual sn (n + 1) \<or> isSNEqual sn n) \<or>
     st = AM_PDU_MAP_SDU_MID \<and> isSNEqual sn (n + 1) \<and> \<not> isSNEqual sn n"

text \<open>Throwing the partial SDU away.\<close>

lemma drop_partial:
  assumes ok: "rrc_ok s" and rx: "rx_at s pe e (Some (n, part), gs)"
  obtains s' e' where "do { s \<leftarrow> us_free s (rb_pData (rs_rawSdu (am_rxRawSdu e)));
      set_raw pe \<lparr>rs_sn = rs_sn (am_rxRawSdu e), rs_rawSdu = \<lparr>rb_size = 0, rb_pData = NULL\<rparr>\<rparr> s } = Some s'"
    "rx_at s' pe e' (None, gs)" "same_rx e e'" "partial_blocks e' = {}"
    "eff (insert pe (partial_blocks e)) {pe} [] s s'"
proof -
  let ?q = "rb_pData (rs_rawSdu (am_rxRawSdu e))"
  have pe: "us_heap s pe = Some (AmObj e)" and part: "buffer s ?q part" using rx by (simp_all add: rx_at_def)
  have q: "?q \<in> own s" "?q \<noteq> pe" using part pe by (auto simp: buffer_def own_raw)
  obtain s1 where s1: "us_free s ?q = Some s1" "eff {?q} {} [] s s1" "us_heap s1 = (us_heap s)(?q := None)"
    by (rule eff_free [OF ok q(1)])
  have pe1: "us_heap s1 pe = Some (AmObj e)" using s1(3) q(2) pe by simp
  let ?e = "e\<lparr>am_rxRawSdu := \<lparr>rs_sn = rs_sn (am_rxRawSdu e), rs_rawSdu = \<lparr>rb_size = 0, rb_pData = NULL\<rparr>\<rparr>\<rparr>"
  let ?s = "put_obj pe (AmObj ?e) s1"
  have f2: "eff {pe} {pe} [] s1 ?s" by (rule eff_put [OF effD(1) [OF s1(2)] pe1]) simp_all
  have pq: "partial_blocks e = {?q}" using own_nonnull [OF ok q(1)] by (simp add: partial_blocks_def)
  have f: "eff (insert pe (partial_blocks e)) {pe} [] s ?s"
    unfolding pq using q(2) by (intro eff_comp [OF s1(2) f2]) auto
  have "rx_at ?s pe ?e (None, gs)" using rx by (simp add: rx_at_def)
  then show thesis using f s1(1) set_raw_run [OF pe1]
    by (intro that [of ?s ?e]) (simp_all add: same_rx_def partial_blocks_def)
qed

lemma same_rx_trans: "same_rx a b \<Longrightarrow> same_rx b c \<Longrightarrow> same_rx a c"
  by (simp add: same_rx_def)

lemma same_rx_delivered: "same_rx e e' \<Longrightarrow> delivered e' os = delivered e os"
  by (simp add: same_rx_def)

text \<open>After the partial SDU has gone the element is the first of a new one.\<close>

lemma stepped_after_drop:
  assumes a: "eff (insert pe (partial_blocks e)) {pe} [] s t" and same: "same_rx e e1" and p0: "partial_blocks e1 = {}"
    and b: "stepped D K pe e1 r os t u" and D: "pe \<notin> D" "D \<inter> partial_blocks e = {}" "D \<subseteq> own s"
  shows "stepped D K pe e r os s u"
proof -
  obtain e' where e': "rx_at u pe e' r" "same_rx e1 e'" "K \<inter> partial_blocks e' = {}"
    "eff (D \<union> insert pe (partial_blocks e1)) (K \<union> insert pe (partial_blocks e')) (delivered e1 os) t u"
    using b by (auto simp: stepped_def)
  have "eff (D \<union> insert pe (partial_blocks e)) (K \<union> insert pe (partial_blocks e')) (delivered e os) s u"
    by (rule eff_comp [OF a e'(4)]) (use p0 same_rx_delivered [OF same] in auto)
  then show ?thesis using e' same_rx_trans [OF same e'(2)] by (auto simp: stepped_def)
qed

lemma dfe_at_eff:
  assumes "eff A B L s s'" "rrc_ok s" "dfe_at s pd pb st bs" "pd \<notin> A" "pb \<notin> A"
  shows "dfe_at s' pd pb st bs"
  using assms(3) eff_obj [OF assms(1) dfe_at_obj [OF assms(3)] _ assms(4,2)] eff_carries [OF assms(1) _ assms(5)]
    eff_buffer [OF assms(1) _ assms(5)] by (auto simp: dfe_at_def)

text \<open>A first or complete segment that arrives out of sequence.\<close>

lemma next_out_of_order:
  assumes ok: "rrc_ok s" "mac_ready s" and rx: "rx_at s pe e (Some (n, part), gs)" and d: "dfe_at s pd pb st bs"
    and ne: "pb \<notin> partial_blocks e"
    and r: "rx_first (mac_grant s (am_rnti e)) sn st bs gs = (r', os)" and out: "out_ok (am_lcId e) os"
  shows "\<exists>s'. do { s \<leftarrow> us_free s (rb_pData (rs_rawSdu (am_rxRawSdu e)));
      s \<leftarrow> set_raw pe \<lparr>rs_sn = rs_sn (am_rxRawSdu e), rs_rawSdu = \<lparr>rb_size = 0, rb_pData = NULL\<rparr>\<rparr> s;
      RlcReassembleFirstSduSegment sn pe pd s } = Some s' \<and> stepped {pd, pb} {pd} pe e r' os s s'"
proof -
  note blocks = rx_dfe_blocks [OF ok(1) rx d]
  obtain s1 e1 where s1: "do { s \<leftarrow> us_free s (rb_pData (rs_rawSdu (am_rxRawSdu e)));
      set_raw pe \<lparr>rs_sn = rs_sn (am_rxRawSdu e), rs_rawSdu = \<lparr>rb_size = 0, rb_pData = NULL\<rparr>\<rparr> s } = Some s1"
    "rx_at s1 pe e1 (None, gs)" "same_rx e e1" "partial_blocks e1 = {}" "eff (insert pe (partial_blocks e)) {pe} [] s s1"
    by (rule drop_partial [OF ok(1) rx])
  have ap: "insert pe (partial_blocks e) \<inter> set (gMacUeContext s) = {}" using blocks(13,14) [OF ok(2)] by auto
  note m = mac_stays [OF s1(5) ok ap]
  have d1: "dfe_at s1 pd pb st bs" using blocks ne by (intro dfe_at_eff [OF s1(5) ok(1) d]) auto
  have id: "am_rnti e1 = am_rnti e" "am_lcId e1 = am_lcId e" using s1(3) by (simp_all add: same_rx_def)
  obtain s2 where s2: "RlcReassembleFirstSduSegment sn pe pd s1 = Some s2" "stepped {pd, pb} {pd} pe e1 r' os s1 s2"
    using first_segment [OF effD(1) [OF s1(5)] m(1) s1(2) d1, of sn r' os] r out m(2) id by auto
  have "stepped {pd, pb} {pd} pe e r' os s s2"
    using blocks ne by (intro stepped_after_drop [OF s1(5,3,4) s2(2)]) auto
  with s1(1) s2(1) show ?thesis by (auto simp: bind_Some_iff)
qed

lemma rx_partial:
  assumes ok: "rrc_ok s" and rx: "rx_at s pe e (Some (n, part), gs)"
  shows "partial_blocks e = {rb_pData (rs_rawSdu (am_rxRawSdu e))}" "rb_pData (rs_rawSdu (am_rxRawSdu e)) \<noteq> NULL"
    "rb_pData (rs_rawSdu (am_rxRawSdu e)) \<in> own s" "rs_sn (am_rxRawSdu e) = n"
proof -
  have b: "buffer s (rb_pData (rs_rawSdu (am_rxRawSdu e))) part" using rx by (simp add: rx_at_def)
  then show "rb_pData (rs_rawSdu (am_rxRawSdu e)) \<in> own s" by (simp add: buffer_def own_raw)
  from own_nonnull [OF ok this] show "rb_pData (rs_rawSdu (am_rxRawSdu e)) \<noteq> NULL" .
  then show "partial_blocks e = {rb_pData (rs_rawSdu (am_rxRawSdu e))}" by (simp add: partial_blocks_def)
  show "rs_sn (am_rxRawSdu e) = n" using rx by (simp add: rx_at_def)
qed

text \<open>Joining touches no context of the MAC.\<close>

lemma join_keeps_mac:
  assumes ok: "rrc_ok s" and rx: "rx_at s pe e (Some (n, part), gs)" and d: "dfe_at s pd pb st bs"
    and f: "eff (insert pb (insert pe (partial_blocks e))) B L s s'"
    and pm: "pm = NULL \<and> g = None \<or> pm \<noteq> NULL \<and> us_heap s pm = Some (MacObj c) \<and> g = Some (grant_of c)"
  shows "pm = NULL \<and> g = None \<or> pm \<noteq> NULL \<and> us_heap s' pm = Some (MacObj c) \<and> g = Some (grant_of c)"
proof -
  have "us_heap s' pm = us_heap s pm" if m: "us_heap s pm = Some (MacObj c)"
  proof -
    have "us_heap s pe = Some (AmObj e)" "us_heap s pb = None"
      using rx rx_dfe_blocks(11) [OF ok rx d] by (simp_all add: rx_at_def)
    moreover have "us_heap s q = None" if "q \<in> partial_blocks e" for q
      using that rx_partial(1) [OF ok rx] rx by (auto simp: rx_at_def buffer_def own_raw)
    ultimately have "pm \<notin> insert pb (insert pe (partial_blocks e))" using m by auto
    with eff_obj [OF f m _ _ ok] m show ?thesis by simp
  qed
  with pm show ?thesis by auto
qed

text \<open>A segment in the middle of the SDU is appended.\<close>

lemma next_middle:
  assumes ok: "rrc_ok s" "mac_ready s" and rx: "rx_at s pe e (Some (n, part), gs)"
    and d: "dfe_at s pd pb AM_PDU_MAP_SDU_MID bs" and ne: "pb \<notin> partial_blocks e"
    and fit: "join_fits s (rb_pData (rs_rawSdu (am_rxRawSdu e))) pb"
    and pm: "pm = NULL \<and> g = None \<or> pm \<noteq> NULL \<and> us_heap s pm = Some (MacObj c) \<and> g = Some (grant_of c)"
  shows "\<exists>s'. do { (j, s) \<leftarrow> join_raw pe sn (am_rxRawSdu e)
        \<lparr>df_status = AM_PDU_MAP_SDU_MID, df_buffer = \<lparr>rb_size = of_nat (length bs), rb_pData = pb\<rparr>\<rparr> s;
      if \<not> j then Some s else add_grant pe pm s } = Some s' \<and>
    stepped {pd, pb} {pd} pe e (Some (sn, part @ bs), more_grants g gs) [] s s'"
proof -
  note blocks = rx_dfe_blocks [OF ok(1) rx d]
  have bex: "buffer s pb bs" using d by (simp add: dfe_at_def)
  obtain t s1 where t: "join_raw pe sn (am_rxRawSdu e)
      \<lparr>df_status = AM_PDU_MAP_SDU_MID, df_buffer = \<lparr>rb_size = of_nat (length bs), rb_pData = pb\<rparr>\<rparr> s = Some (True, s1)"
    "us_heap s1 pe = Some (AmObj (e\<lparr>am_rxRawSdu := \<lparr>rs_sn = sn, rs_rawSdu = \<lparr>rb_size = of_nat (length (part @ bs)), rb_pData = t\<rparr>\<rparr>\<rparr>))"
    "eff (insert pb (insert pe (partial_blocks e))) {pe, t} [] s s1" "t \<noteq> NULL" "t \<noteq> pe"
    "buffer s1 t (part @ bs)" "t = pb \<or> t \<in> partial_blocks e \<or> t \<notin> own s"
    by (rule join_raw_run [OF ok(1) rx d ne fit, of sn]) (use bex in blast)
  let ?e1 = "e\<lparr>am_rxRawSdu := \<lparr>rs_sn = sn, rs_rawSdu = \<lparr>rb_size = of_nat (length (part @ bs)), rb_pData = t\<rparr>\<rparr>\<rparr>"
  note pm1 = join_keeps_mac [OF ok(1) rx d t(3) pm]
  obtain l where l: "add_grant pe pm s1 = Some (put_obj pe (AmObj (?e1\<lparr>am_ulRptInfoList := l\<rparr>)) s1)"
    "grants l = more_grants g gs" "unat (ur_count l) \<le> MAX_RLC_SEGMENTS_NUM"
    using add_grant_run [OF t(2) pm1] rx by (auto simp: rx_at_def)
  let ?e2 = "?e1\<lparr>am_ulRptInfoList := l\<rparr>"
  let ?s2 = "put_obj pe (AmObj ?e2) s1"
  have f2: "eff {pe} {pe} [] s1 ?s2" by (rule eff_put [OF effD(1) [OF t(3)] t(2)]) simp_all
  have f: "eff (insert pb (insert pe (partial_blocks e))) {pe, t} (delivered e []) s ?s2"
    by (rule eff_comp [OF t(3) f2]) auto
  have "buffer ?s2 t (part @ bs)" using t(5) by (intro eff_buffer [OF f2 t(6)]) simp
  then have rx2: "rx_at ?s2 pe ?e2 (Some (sn, part @ bs), more_grants g gs)" using l(2,3) by (simp add: rx_at_def)
  have "stepped {pd, pb} {pd} pe e (Some (sn, part @ bs), more_grants g gs) [] s ?s2"
    using t(4,7) blocks by (intro steppedI [OF f rx2, where X = "{pd}"]) (auto simp: same_rx_def partial_blocks_def)
  with t(1) l(1) show ?thesis by auto
qed

text \<open>The last segment completes the SDU, which is delivered.\<close>

lemma next_last:
  assumes ok: "rrc_ok s" "mac_ready s" and rx: "rx_at s pe e (Some (n, part), gs)"
    and d: "dfe_at s pd pb AM_PDU_MAP_SDU_END bs" and ne: "pb \<notin> partial_blocks e"
    and fit: "join_fits s (rb_pData (rs_rawSdu (am_rxRawSdu e))) pb"
    and pm: "pm = NULL \<and> g = None \<or> pm \<noteq> NULL \<and> us_heap s pm = Some (MacObj c) \<and> g = Some (grant_of c)"
    and out: "out_ok (am_lcId e) [(part @ bs, more_grants g gs)]"
  shows "\<exists>s'. do { (j, s) \<leftarrow> join_raw pe n (am_rxRawSdu e)
        \<lparr>df_status = AM_PDU_MAP_SDU_END, df_buffer = \<lparr>rb_size = of_nat (length bs), rb_pData = pb\<rparr>\<rparr> s;
      if \<not> j then Some s
      else do {
        s \<leftarrow> add_grant pe pm s;
        e \<leftarrow> get_obj the_am s pe;
        s \<leftarrow> RlcDeliverAmSduToPdcp s pe (rs_rawSdu (am_rxRawSdu e));
        s \<leftarrow> clear_grants pe s;
        set_raw pe \<lparr>rs_sn = n, rs_rawSdu = \<lparr>rb_size = 0, rb_pData = NULL\<rparr>\<rparr> s } } = Some s' \<and>
    stepped {pd, pb} {pd} pe e (None, []) [(part @ bs, more_grants g gs)] s s'"
proof -
  note blocks = rx_dfe_blocks [OF ok(1) rx d]
  obtain t s1 where t: "join_raw pe n (am_rxRawSdu e)
      \<lparr>df_status = AM_PDU_MAP_SDU_END, df_buffer = \<lparr>rb_size = of_nat (length bs), rb_pData = pb\<rparr>\<rparr> s = Some (True, s1)"
    "us_heap s1 pe = Some (AmObj (e\<lparr>am_rxRawSdu := \<lparr>rs_sn = n, rs_rawSdu = \<lparr>rb_size = of_nat (length (part @ bs)), rb_pData = t\<rparr>\<rparr>\<rparr>))"
    "eff (insert pb (insert pe (partial_blocks e))) {pe, t} [] s s1" "t \<noteq> NULL" "t \<noteq> pe"
    "carries s1 t (part @ bs)" "t = pb \<or> t \<in> partial_blocks e \<or> t \<notin> own s"
    by (rule join_raw_run [OF ok(1) rx d ne fit, of n]) blast
  let ?e1 = "e\<lparr>am_rxRawSdu := \<lparr>rs_sn = n, rs_rawSdu = \<lparr>rb_size = of_nat (length (part @ bs)), rb_pData = t\<rparr>\<rparr>\<rparr>"
  note pm1 = join_keeps_mac [OF ok(1) rx d t(3) pm]
  obtain l where l: "add_grant pe pm s1 = Some (put_obj pe (AmObj (?e1\<lparr>am_ulRptInfoList := l\<rparr>)) s1)"
    "grants l = more_grants g gs"
    using add_grant_run [OF t(2) pm1] rx by (auto simp: rx_at_def)
  let ?e2 = "?e1\<lparr>am_ulRptInfoList := l\<rparr>"
  let ?s2 = "put_obj pe (AmObj ?e2) s1"
  have f2: "eff {pe} {pe} [] s1 ?s2" by (rule eff_put [OF effD(1) [OF t(3)] t(2)]) simp_all
  have f12: "eff (insert pb (insert pe (partial_blocks e))) {pe, t} [] s ?s2"
    by (rule eff_comp [OF t(3) f2]) auto
  have "carries ?s2 t (part @ bs)" using t(5) by (intro eff_carries [OF f2 t(6)]) simp
  moreover have "out_ok (am_lcId ?e2) [(part @ bs, grants (am_ulRptInfoList ?e2))]" using out l(2) by simp
  ultimately obtain s3 where s3: "do { s \<leftarrow> RlcDeliverAmSduToPdcp ?s2 pe \<lparr>rb_size = of_nat (length (part @ bs)), rb_pData = t\<rparr>;
      clear_grants pe s } = Some s3"
    "us_heap s3 pe = Some (AmObj (?e2\<lparr>am_ulRptInfoList := l\<lparr>ur_count := 0\<rparr>\<rparr>))"
    "eff {pe, t} {pe} (delivered e [(part @ bs, more_grants g gs)]) ?s2 s3"
    using deliver_clear [OF effD(1) [OF f2], of pe ?e2 t "part @ bs"] l(2) by auto
  let ?e4 = "?e2\<lparr>am_ulRptInfoList := l\<lparr>ur_count := 0\<rparr>, am_rxRawSdu := \<lparr>rs_sn = n, rs_rawSdu = \<lparr>rb_size = 0, rb_pData = NULL\<rparr>\<rparr>\<rparr>"
  let ?s4 = "put_obj pe (AmObj ?e4) s3"
  have f4: "eff {pe} {pe} [] s3 ?s4" by (rule eff_put [OF effD(1) [OF s3(3)] s3(2)]) simp_all
  have f13: "eff (insert pb (insert pe (partial_blocks e))) {pe} (delivered e [(part @ bs, more_grants g gs)]) s s3"
    using t(7) by (intro eff_comp [OF f12 s3(3)]) auto
  have f: "eff (insert pb (insert pe (partial_blocks e))) {pe} (delivered e [(part @ bs, more_grants g gs)]) s ?s4"
    by (rule eff_comp [OF f13 f4]) auto
  have rx4: "rx_at ?s4 pe ?e4 (None, [])" by (simp add: rx_at_def)
  have "stepped {pd, pb} {pd} pe e (None, []) [(part @ bs, more_grants g gs)] s ?s4"
    using blocks by (intro steppedI [OF f rx4, where X = "{pd}"]) (auto simp: same_rx_def partial_blocks_def)
  with t(1) l(1) s3(1) set_raw_run [OF s3(2)] show ?thesis
    by (intro exI [of _ ?s4]) (auto simp: get_obj_def the_am_def bind_Some_iff)
qed

text \<open>A complete SDU in place of the expected segment, and a new first segment.\<close>

lemma next_full:
  assumes ok: "rrc_ok s" "mac_ready s" and rx: "rx_at s pe e (Some (n, part), gs)"
    and d: "dfe_at s pd pb AM_PDU_MAP_SDU_FULL bs" and ne: "pb \<notin> partial_blocks e"
    and pm: "MacGetUeContext s (am_rnti e) = Some pm"
    and out: "out_ok (am_lcId e) [(bs, start_grants (mac_grant s (am_rnti e)) gs)]"
  shows "\<exists>s'. do { s \<leftarrow> us_free s (rb_pData (rs_rawSdu (am_rxRawSdu e)));
        s \<leftarrow> set_raw pe \<lparr>rs_sn = rs_sn (am_rxRawSdu e), rs_rawSdu = \<lparr>rb_size = 0, rb_pData = NULL\<rparr>\<rparr> s;
        s \<leftarrow> first_grant pe pm s;
        s \<leftarrow> RlcDeliverAmSduToPdcp s pe \<lparr>rb_size = of_nat (length bs), rb_pData = pb\<rparr>;
        clear_grants pe s } = Some s' \<and>
    stepped {pd, pb} {pd} pe e (None, []) [(bs, start_grants (mac_grant s (am_rnti e)) gs)] s s'"
proof -
  let ?os = "[(bs, start_grants (mac_grant s (am_rnti e)) gs)]"
  note blocks = rx_dfe_blocks [OF ok(1) rx d]
  obtain s1 e1 where s1: "do { s \<leftarrow> us_free s (rb_pData (rs_rawSdu (am_rxRawSdu e)));
      set_raw pe \<lparr>rs_sn = rs_sn (am_rxRawSdu e), rs_rawSdu = \<lparr>rb_size = 0, rb_pData = NULL\<rparr>\<rparr> s } = Some s1"
    "rx_at s1 pe e1 (None, gs)" "same_rx e e1" "partial_blocks e1 = {}" "eff (insert pe (partial_blocks e)) {pe} [] s s1"
    by (rule drop_partial [OF ok(1) rx])
  have ap: "insert pe (partial_blocks e) \<inter> set (gMacUeContext s) = {}" using blocks(13,14) [OF ok(2)] by auto
  note m = mac_stays [OF s1(5) ok ap]
  have id: "am_rnti e1 = am_rnti e" "am_lcId e1 = am_lcId e" using s1(3) by (simp_all add: same_rx_def)
  have pm1: "MacGetUeContext s1 (am_rnti e1) = Some pm" using m(4) pm by (simp add: id)
  have "carries s1 pb bs" using d blocks ne by (intro eff_carries [OF s1(5)]) (auto simp: dfe_at_def)
  then obtain s2 e2 where s2: "do { s \<leftarrow> first_grant pe pm s1; s \<leftarrow> RlcDeliverAmSduToPdcp s pe \<lparr>rb_size = of_nat (length bs), rb_pData = pb\<rparr>;
      clear_grants pe s } = Some s2" "rx_at s2 pe e2 (None, [])" "same_rx e1 e2" "eff {pe, pb} {pe} (delivered e1 ?os) s1 s2"
    using deliver_first [OF effD(1) [OF s1(5)] m(1) s1(2) pm1 _ refl, of pb bs] out m(2) id by auto
  have d1: "us_heap s1 pd = us_heap s pd" using eff_obj [OF s1(5) dfe_at_obj [OF d] _ _ ok(1)] dfe_at_obj [OF d] blocks by simp
  have own1: "pd \<in> own s1" using own_obj [OF effD(1) [OF s1(5)], of pd] d1 dfe_at_obj [OF d] by simp
  have p2: "partial_blocks e2 = {}" using s2(2) by (simp add: rx_at_def partial_blocks_def)
  have "stepped {pd, pb} {pd} pe e1 (None, []) ?os s1 s2"
    using blocks s1(4) p2 own1 by (intro steppedI [OF s2(4,2,3), where X = "{pd}"]) auto
  then have "stepped {pd, pb} {pd} pe e (None, []) ?os s s2"
    using blocks ne by (intro stepped_after_drop [OF s1(5,3,4)]) auto
  with s1(1) s2(1) show ?thesis by (auto simp: bind_Some_iff)
qed

lemma next_start:
  assumes ok: "rrc_ok s" and rx: "rx_at s pe e (Some (n, part), gs)"
    and d: "dfe_at s pd pb AM_PDU_MAP_SDU_START bs" and ne: "pb \<notin> partial_blocks e"
  shows "\<exists>s'. do { s \<leftarrow> us_free s (rb_pData (rs_rawSdu (am_rxRawSdu e)));
        set_raw pe \<lparr>rs_sn = sn, rs_rawSdu = \<lparr>rb_size = of_nat (length bs), rb_pData = pb\<rparr>\<rparr> s } = Some s' \<and>
    stepped {pd, pb} {pd} pe e (Some (sn, bs), gs) [] s s'"
proof -
  let ?q = "rb_pData (rs_rawSdu (am_rxRawSdu e))"
  note blocks = rx_dfe_blocks [OF ok rx d] and q = rx_partial [OF ok rx]
  have pe: "us_heap s pe = Some (AmObj e)" using rx by (simp add: rx_at_def)
  obtain s1 where s1: "us_free s ?q = Some s1" "eff {?q} {} [] s s1" "us_heap s1 = (us_heap s)(?q := None)"
    by (rule eff_free [OF ok q(3)])
  have qpe: "?q \<noteq> pe" "?q \<noteq> pd" "?q \<noteq> pb" using blocks(8,9) ne q(1) by auto
  have pe1: "us_heap s1 pe = Some (AmObj e)" using s1(3) qpe pe by simp
  let ?e = "e\<lparr>am_rxRawSdu := \<lparr>rs_sn = sn, rs_rawSdu = \<lparr>rb_size = of_nat (length bs), rb_pData = pb\<rparr>\<rparr>\<rparr>"
  let ?s = "put_obj pe (AmObj ?e) s1"
  have f2: "eff {pe} {pe} [] s1 ?s" by (rule eff_put [OF effD(1) [OF s1(2)] pe1]) simp_all
  have f: "eff (insert pe (partial_blocks e)) {pe} (delivered e []) s ?s"
    unfolding q(1) using qpe by (intro eff_comp [OF s1(2) f2]) auto
  have "buffer s pb bs" using d by (simp add: dfe_at_def)
  then have "buffer ?s pb bs" using blocks ne by (intro eff_buffer [OF f]) auto
  then have rx': "rx_at ?s pe ?e (Some (sn, bs), gs)" using rx by (simp add: rx_at_def)
  have "stepped {pd, pb} {pd} pe e (Some (sn, bs), gs) [] s ?s"
    using blocks ne by (intro steppedI [OF f rx', where X = "{pd, pb}"]) (auto simp: same_rx_def partial_blocks_def)
  with s1(1) set_raw_run [OF pe1] show ?thesis by auto
qed

text \<open>An element that arrives while a partial SDU is held.\<close>

lemma next_segment:
  assumes ok: "rrc_ok s" "mac_ready s" and rx: "rx_at s pe e (Some (n, part), gs)" and d: "dfe_at s pd pb st bs"
    and ne: "pb \<notin> partial_blocks e"
    and fit: "needs_join sn st n \<Longrightarrow> join_fits s (rb_pData (rs_rawSdu (am_rxRawSdu e))) pb"
    and r: "rx_next (mac_grant s (am_rnti e)) sn st bs n part gs = (r', os)" and out: "out_ok (am_lcId e) os"
  shows "\<exists>s'. RlcReassembleInCmpAMSdu sn pe pd s = Some s' \<and> stepped {pd, pb} {pd} pe e r' os s s'"
proof -
  let ?g = "mac_grant s (am_rnti e)"
  note blocks = rx_dfe_blocks [OF ok(1) rx d]
  have pe: "us_heap s pe = Some (AmObj e)" and sn: "rs_sn (am_rxRawSdu e) = n" using rx by (simp_all add: rx_at_def)
  obtain pm c where pm: "MacGetUeContext s (am_rnti e) = Some pm"
    "pm = NULL \<and> ?g = None \<or> pm \<noteq> NULL \<and> us_heap s pm = Some (MacObj c) \<and> ?g = Some (grant_of c)"
    using ok by (cases rule: mac_ready_get [of s "am_rnti e"]) auto
  note run = RlcReassembleInCmpAMSdu_def pe pm(1) dfe_at_obj [OF d] get_obj_def the_am_def the_dfe_def sn
  have dropped: "\<exists>s'. us_free s pb = Some s' \<and> stepped {pd, pb} {pd} pe e (Some (n, part), gs) [] s s'"
  proof -
    obtain s' where s': "us_free s pb = Some s'" "eff {pb} {} [] s s'" by (rule eff_free [OF ok(1) blocks(3)])
    have rx': "rx_at s' pe e (Some (n, part), gs)" using blocks ne by (intro rx_at_eff [OF s'(2) ok(1) rx]) auto
    have "eff {pb} {} (delivered e []) s s'" using s'(2) by simp
    then have "stepped {pd, pb} {pd} pe e (Some (n, part), gs) [] s s'"
      by (rule steppedI [OF _ rx', where X = "insert pe (insert pd (partial_blocks e))"])
        (use blocks ne in \<open>auto simp: same_rx_def\<close>)
    with s'(1) show ?thesis by blast
  qed
  show ?thesis
  proof (cases "isSNEqual sn (n + 1) \<or> isSNEqual sn n")
    case False
    note out_of_order = next_out_of_order [OF ok rx d ne _ out, of sn r']
    show ?thesis
    proof (cases "st = AM_PDU_MAP_SDU_FULL \<or> st = AM_PDU_MAP_SDU_START")
      case True
      then have "rx_first ?g sn st bs gs = (r', os)" using r False by (simp add: rx_next_def)
      from out_of_order [OF this] show ?thesis using False True by (simp add: run)
    next
      case n: False
      then have "r' = (Some (n, part), gs)" "os = []" using r False by (simp_all add: rx_next_def)
      with dropped show ?thesis using False n by (simp add: run)
    qed
  next
    case True
    show ?thesis
    proof (cases st)
      case AM_PDU_MAP_SDU_FULL
      have ro: "r' = (None, [])" "os = [(bs, start_grants ?g gs)]" using r True AM_PDU_MAP_SDU_FULL by (simp_all add: rx_next_def)
      from next_full [OF ok rx d [unfolded AM_PDU_MAP_SDU_FULL] ne pm(1) out [unfolded ro(2)]]
      show ?thesis using True AM_PDU_MAP_SDU_FULL ro by (simp add: run Let_def)
    next
      case AM_PDU_MAP_SDU_START
      have ro: "r' = (Some (sn, bs), gs)" "os = []" using r True AM_PDU_MAP_SDU_START by (simp_all add: rx_next_def)
      from next_start [OF ok(1) rx d [unfolded AM_PDU_MAP_SDU_START] ne, of sn]
      show ?thesis using True AM_PDU_MAP_SDU_START ro by (simp add: run)
    next
      case AM_PDU_MAP_SDU_END
      have ro: "r' = (None, [])" "os = [(part @ bs, more_grants ?g gs)]" using r True AM_PDU_MAP_SDU_END by (simp_all add: rx_next_def)
      have "join_fits s (rb_pData (rs_rawSdu (am_rxRawSdu e))) pb" using fit True AM_PDU_MAP_SDU_END by (simp add: needs_join_def)
      from next_last [OF ok rx d [unfolded AM_PDU_MAP_SDU_END] ne this pm(2) out [unfolded ro(2)]]
      show ?thesis using True AM_PDU_MAP_SDU_END ro by (simp add: run Let_def cong: if_cong)
    next
      case AM_PDU_MAP_SDU_MID
      show ?thesis
      proof (cases "isSNEqual sn n")
        case same: True
        then have "r' = (Some (n, part), gs)" "os = []" using r True AM_PDU_MAP_SDU_MID by (simp_all add: rx_next_def)
        with dropped show ?thesis using True same AM_PDU_MAP_SDU_MID by (simp add: run)
      next
        case new: False
        then have ro: "r' = (Some (sn, part @ bs), more_grants ?g gs)" "os = []"
          using r True AM_PDU_MAP_SDU_MID by (simp_all add: rx_next_def)
        have "join_fits s (rb_pData (rs_rawSdu (am_rxRawSdu e))) pb"
          using fit True new AM_PDU_MAP_SDU_MID by (simp add: needs_join_def)
        from next_middle [OF ok rx d [unfolded AM_PDU_MAP_SDU_MID] ne this pm(2), of sn]
        show ?thesis using True new AM_PDU_MAP_SDU_MID ro by (simp add: run)
      qed
    qed
  qed
qed

lemma dfe_step:
  assumes ok: "rrc_ok s" "mac_ready s" and rx: "rx_at s pe e r" and d: "dfe_at s pd pb st bs"
    and ne: "pb \<notin> partial_blocks e"
    and fit: "\<And>n part. fst r = Some (n, part) \<Longrightarrow> needs_join sn st n \<Longrightarrow>
      join_fits s (rb_pData (rs_rawSdu (am_rxRawSdu e))) pb"
    and r: "rx_dfe (mac_grant s (am_rnti e)) sn (st, bs) r = (r', os)" and out: "out_ok (am_lcId e) os"
  shows "\<exists>s'. reassemble_dfe sn pe pd s = Some s' \<and> stepped {pd, pb} {} pe e r' os s s'"
proof -
  note blocks = rx_dfe_blocks [OF ok(1) rx d]
  have pe: "us_heap s pe = Some (AmObj e)" using rx by (simp add: rx_at_def)
  note run = reassemble_dfe_def pe dfe_at_obj [OF d] get_obj_def the_am_def the_dfe_def
  obtain s1 where s1: "(if rb_pData (rs_rawSdu (am_rxRawSdu e)) \<noteq> NULL then RlcReassembleInCmpAMSdu sn pe pd s
      else RlcReassembleFirstSduSegment sn pe pd s) = Some s1" "stepped {pd, pb} {pd} pe e r' os s s1"
  proof (cases "fst r")
    case None
    then have rx0: "rx_at s pe e (None, snd r)" using rx by (cases r) simp
    have "rx_first (mac_grant s (am_rnti e)) sn st bs (snd r) = (r', os)" using r None by (simp add: rx_dfe_def)
    from first_segment [OF ok rx0 d this out] show thesis using that rx0 by (auto simp: rx_at_def)
  next
    case (Some x)
    obtain n part where x: "fst r = Some (n, part)" using Some by (cases x) auto
    then have rx1: "rx_at s pe e (Some (n, part), snd r)" using rx by (cases r) simp
    have "rx_next (mac_grant s (am_rnti e)) sn st bs n part (snd r) = (r', os)" using r x by (simp add: rx_dfe_def)
    from next_segment [OF ok rx1 d ne fit [OF x] this out] show thesis
      using that rx_partial(2) [OF ok(1) rx1] by auto
  qed
  obtain e' where e': "rx_at s1 pe e' r'" "same_rx e e'"
    "eff ({pd, pb} \<union> insert pe (partial_blocks e)) ({pd} \<union> insert pe (partial_blocks e')) (delivered e os) s s1"
    and pd: "pd \<noteq> pe" "pd \<notin> partial_blocks e'" using s1(2) blocks(4) by (auto simp: stepped_def)
  have "pd \<in> own s1" using effD(2) [OF e'(3)] by simp
  then obtain s' where s': "us_free s1 pd = Some s'" "eff {pd} {} [] s1 s'" by (rule eff_free [OF effD(1) [OF e'(3)]])
  have "eff ({pd, pb} \<union> insert pe (partial_blocks e)) ({} \<union> insert pe (partial_blocks e')) (delivered e os) s s'"
    using pd by (intro eff_comp [OF e'(3) s'(2)]) auto
  moreover have "rx_at s' pe e' r'" using pd by (intro rx_at_eff [OF s'(2) effD(1) [OF e'(3)] e'(1)]) auto
  ultimately have "stepped {pd, pb} {} pe e r' os s s'" using e'(2) by (auto simp: stepped_def)
  moreover have "reassemble_dfe sn pe pd s = Some s'" using s1(1) s'(1) blocks(10) by (auto simp: run split: if_splits)
  ultimately show ?thesis by blast
qed

section \<open>All elements of a segment\<close>

text \<open>Elements with their addresses: DFE, buffer, status and bytes.\<close>

definition dfes :: "ulp_state \<Rightarrow> (ptr \<times> ptr \<times> RlcSduStatus \<times> u8 list) list \<Rightarrow> bool" where
  "dfes s xs \<longleftrightarrow> (\<forall>(pd, pb, st, bs)\<in>set xs. dfe_at s pd pb st bs) \<and> distinct (map fst xs) \<and>
     distinct (map (\<lambda>(pd, pb, x). pb) xs)"

definition dfe_blocks :: "(ptr \<times> ptr \<times> RlcSduStatus \<times> u8 list) list \<Rightarrow> ptr set" where
  "dfe_blocks xs = set (map fst xs) \<union> set (map (\<lambda>(pd, pb, x). pb) xs)"

definition dfe_data :: "(ptr \<times> ptr \<times> RlcSduStatus \<times> u8 list) list \<Rightarrow> (RlcSduStatus \<times> u8 list) list" where
  "dfe_data xs = map (\<lambda>(pd, pb, x). x) xs"

lemma dfes_simps [simp]:
  "dfes s []" "dfe_blocks [] = {}" "dfe_data [] = []"
  "dfes s ((pd, pb, st, bs) # xs) \<longleftrightarrow> dfe_at s pd pb st bs \<and> dfes s xs \<and> pd \<notin> fst ` set xs \<and> pb \<notin> (\<lambda>(pd, pb, x). pb) ` set xs"
  "dfe_blocks ((pd, pb, st, bs) # xs) = insert pd (insert pb (dfe_blocks xs))"
  "dfe_data ((pd, pb, st, bs) # xs) = (st, bs) # dfe_data xs"
  by (auto simp: dfes_def dfe_blocks_def dfe_data_def)

lemma dfes_eff:
  assumes "eff A B L s s'" "rrc_ok s" "dfes s xs" "dfe_blocks xs \<inter> A = {}"
  shows "dfes s' xs"
  using assms(3,4)
proof (induction xs)
  case (Cons x xs)
  obtain pd pb st bs where x: "x = (pd, pb, st, bs)" by (cases x)
  have "dfe_at s' pd pb st bs" using Cons.prems x by (intro dfe_at_eff [OF assms(1,2)]) auto
  with Cons x show ?case by auto
qed simp

lemma dfes_own:
  assumes "rrc_ok s" "dfes s xs"
  shows "dfe_blocks xs \<subseteq> own s" "q \<in> dfe_blocks xs \<Longrightarrow> us_heap s q = None \<or> (\<exists>d. us_heap s q = Some (DfeObj d))"
    "fst ` set xs \<inter> (\<lambda>(pd, pb, x). pb) ` set xs = {}"
proof -
  have a: "us_heap s pd \<noteq> None \<and> (\<exists>d. us_heap s pd = Some (DfeObj d)) \<and> pb \<in> raw s"
    if "(pd, pb, x) \<in> set xs" for pd pb x
  proof (cases x)
    case (Pair st bs)
    then have "dfe_at s pd pb st bs" using that assms(2) by (auto simp: dfes_def)
    then show ?thesis by (auto simp: dfe_at_def elim: carriesE)
  qed
  show "dfe_blocks xs \<subseteq> own s"
    using a own_obj [OF assms(1)] by (fastforce simp: dfe_blocks_def own_raw)
  show "q \<in> dfe_blocks xs \<Longrightarrow> us_heap s q = None \<or> (\<exists>d. us_heap s q = Some (DfeObj d))"
    using a by (fastforce simp: dfe_blocks_def own_raw)
  have "q \<notin> (\<lambda>(pd, pb, x). pb) ` set xs" if q: "q \<in> fst ` set xs" for q
  proof
    assume "q \<in> (\<lambda>(pd, pb, x). pb) ` set xs"
    then obtain pd x where "(pd, q, x) \<in> set xs" by auto
    moreover obtain pb y where "(q, pb, y) \<in> set xs" using q by auto
    ultimately show False using a [of pd q x] a [of q pb y] by (auto simp: own_raw)
  qed
  then show "fst ` set xs \<inter> (\<lambda>(pd, pb, x). pb) ` set xs = {}" by blast
qed

lemma no_join_step: "st = AM_PDU_MAP_SDU_FULL \<or> st = AM_PDU_MAP_SDU_START \<Longrightarrow> \<not> needs_join sn st n"
  by (auto simp: needs_join_def)

lemma reassemble_dfes_refines:
  assumes "rrc_ok s" "mac_ready s" "rx_at s pe e r" "dfes s xs" "dfe_blocks xs \<inter> partial_blocks e = {}"
    and "\<And>pd pb st bs xs' n part. xs = (pd, pb, st, bs) # xs' \<Longrightarrow> fst r = Some (n, part) \<Longrightarrow> needs_join sn st n \<Longrightarrow>
      join_fits s (rb_pData (rs_rawSdu (am_rxRawSdu e))) pb"
    and "\<forall>x\<in>set (tl (dfe_data xs)). fst x = AM_PDU_MAP_SDU_FULL \<or> fst x = AM_PDU_MAP_SDU_START"
    and "rx_dfes (mac_grant s (am_rnti e)) sn (dfe_data xs) r = (r', os)" "out_ok (am_lcId e) os"
  shows "\<exists>s'. reassemble_dfes (map fst xs) sn pe s = Some s' \<and> stepped (dfe_blocks xs) {} pe e r' os s s'"
  using assms
proof (induction xs arbitrary: s e r os)
  case Nil
  then show ?case
    using eff_refl [OF Nil(1)] eff_widen [OF eff_refl [OF Nil(1)], of "insert pe (partial_blocks e)"]
  proof -
    have "insert pe (partial_blocks e) \<subseteq> own s"
      using Nil.prems(3) own_obj [OF Nil(1), of pe] rx_partial(1,3) [OF Nil(1), of pe e _ _ "snd r"]
      by (cases "fst r") (auto simp: rx_at_def partial_blocks_def)
    from eff_widen [OF eff_refl [OF Nil(1)] this] Nil show ?thesis by (auto simp: stepped_def same_rx_def)
  qed
next
  case (Cons x xs)
  obtain pd pb st bs where x: "x = (pd, pb, st, bs)" by (cases x)
  let ?g = "mac_grant s (am_rnti e)"
  obtain r1 o1 where a1: "rx_dfe ?g sn (st, bs) r = (r1, o1)" by fastforce
  obtain o2 where a2: "rx_dfes ?g sn (dfe_data xs) r1 = (r', o2)" "os = o1 @ o2"
    using Cons.prems(8) a1 x by (auto simp: Let_def split: prod.splits)
  have d: "dfe_at s pd pb st bs" "dfes s xs" "pd \<notin> fst ` set xs" "pb \<notin> (\<lambda>(pd, pb, x). pb) ` set xs"
    "pb \<notin> partial_blocks e" "dfe_blocks xs \<inter> partial_blocks e = {}" using Cons.prems(4,5) x by auto
  note blocks = rx_dfe_blocks [OF Cons.prems(1,3) d(1)]
  note own = dfes_own [OF Cons.prems(1,4)]
  have out1: "out_ok (am_lcId e) o1" "out_ok (am_lcId e) o2" using Cons.prems(9) a2(2) by (auto simp: out_ok_def)
  have fit: "join_fits s (rb_pData (rs_rawSdu (am_rxRawSdu e))) pb"
    if "fst r = Some (n, part)" "needs_join sn st n" for n part
    by (rule Cons.prems(6) [OF _ that]) (simp add: x)
  obtain s1 where s1: "reassemble_dfe sn pe pd s = Some s1" "stepped {pd, pb} {} pe e r1 o1 s s1"
    using dfe_step [OF Cons.prems(1-3) d(1,5) _ a1 out1(1)] fit by blast
  obtain e1 where e1: "rx_at s1 pe e1 r1" "same_rx e e1"
    "eff ({pd, pb} \<union> insert pe (partial_blocks e)) (insert pe (partial_blocks e1)) (delivered e o1) s s1"
    using s1(2) by (auto simp: stepped_def)
  let ?A = "{pd, pb} \<union> insert pe (partial_blocks e)"
  have pe: "us_heap s pe = Some (AmObj e)" using Cons.prems(3) by (simp add: rx_at_def)
  have disj: "dfe_blocks xs \<inter> ?A = {}"
  proof -
    have "pe \<notin> dfe_blocks (x # xs)" using own(2) [of pe] pe by auto
    with own(3) d(3,4,6) show ?thesis unfolding x by (auto simp: dfe_blocks_def)
  qed
  have d1: "dfes s1 xs" by (rule dfes_eff [OF e1(3) Cons.prems(1) d(2) disj])
  have sub: "dfe_blocks xs \<subseteq> own s - ?A" using own(1) disj x by auto
  then have p1: "dfe_blocks xs \<inter> partial_blocks e1 = {}" using effD(3) [OF e1(3)] by auto
  have ap: "?A \<inter> set (gMacUeContext s) = {}" using blocks(13,14) [OF Cons.prems(2)] by auto
  note m = mac_stays [OF e1(3) Cons.prems(1,2) ap]
  have id: "am_rnti e1 = am_rnti e" "am_lcId e1 = am_lcId e" using e1(2) by (simp_all add: same_rx_def)
  have "\<exists>s2. reassemble_dfes (map fst xs) sn pe s1 = Some s2 \<and> stepped (dfe_blocks xs) {} pe e1 r' o2 s1 s2"
  proof (rule Cons.IH [OF effD(1) [OF e1(3)] m(1) e1(1) d1 p1])
    show "join_fits s1 (rb_pData (rs_rawSdu (am_rxRawSdu e1))) pb'"
      if "xs = (pd', pb', st', bs') # xs'" "fst r1 = Some (n', part')" "needs_join sn st' n'" for pd' pb' st' bs' xs' n' part'
      using that Cons.prems(7) x no_join_step by auto
    show "\<forall>x\<in>set (tl (dfe_data xs)). fst x = AM_PDU_MAP_SDU_FULL \<or> fst x = AM_PDU_MAP_SDU_START"
      using Cons.prems(7) x by (cases "dfe_data xs") auto
  qed (use a2 m(2) id out1 in simp_all)
  then obtain s2 where s2: "reassemble_dfes (map fst xs) sn pe s1 = Some s2" "stepped (dfe_blocks xs) {} pe e1 r' o2 s1 s2" by blast
  obtain e2 where e2: "rx_at s2 pe e2 r'" "same_rx e1 e2"
    "eff (dfe_blocks xs \<union> insert pe (partial_blocks e1)) (insert pe (partial_blocks e2)) (delivered e1 o2) s1 s2"
    using s2(2) by (auto simp: stepped_def)
  have "eff (dfe_blocks (x # xs) \<union> insert pe (partial_blocks e)) ({} \<union> insert pe (partial_blocks e2)) (delivered e os) s s2"
    using p1 same_rx_delivered [OF e1(2), of o2]
    by (intro eff_comp [OF e1(3) e2(3)]) (auto simp: x a2(2))
  then have "stepped (dfe_blocks (x # xs)) {} pe e r' os s s2"
    using e2 same_rx_trans [OF e1(2) e2(2)] by (auto simp: stepped_def)
  with s1(1) s2(1) show ?case by (auto simp: x)
qed

section \<open>A PDU of the ring\<close>

text \<open>Changing the ring of a receiver.\<close>

lemma ring_step:
  assumes ok: "rrc_ok s" and rx: "rx_at s pe e r"
  obtains s' where "set_ring pe i n s = Some s'" "rx_at s' pe (e\<lparr>am_ring := (am_ring e)(i := n)\<rparr>) r"
    "eff {pe} {pe} [] s s'"
proof -
  have pe: "us_heap s pe = Some (AmObj e)" using rx by (simp add: rx_at_def)
  let ?e = "e\<lparr>am_ring := (am_ring e)(i := n)\<rparr>"
  let ?s = "put_obj pe (AmObj ?e) s"
  have f: "eff {pe} {pe} [] s ?s" by (rule eff_put [OF ok pe]) simp_all
  have "buffer ?s q bs" if "buffer s q bs" for q bs
  proof -
    have "q \<noteq> pe" using that pe by (auto simp: buffer_def own_raw)
    then show ?thesis by (intro eff_buffer [OF f that]) simp
  qed
  then have "rx_at ?s pe ?e r" using rx by (auto simp: rx_at_def split: option.splits)
  with f show thesis using pe by (intro that [of ?s]) (simp_all add: set_ring_def get_obj_def the_am_def)
qed

lemma partial_blocks_ring [simp]: "partial_blocks (e\<lparr>am_ring := x\<rparr>) = partial_blocks e"
  by (simp add: partial_blocks_def)

text \<open>
  A complete PDU with one segment: what the ring position \<open>i\<close> points to is used up, and the
  receiver has gone through its elements.
\<close>

definition pdu_at :: "ulp_state \<Rightarrow> ptr \<Rightarrow> ptr \<Rightarrow> (ptr \<times> ptr \<times> RlcSduStatus \<times> u8 list) list \<Rightarrow> bool" where
  "pdu_at s pp pg xs \<longleftrightarrow> us_heap s pp = Some (PduObj \<lparr>pd_status = PDU_AM_COMPLETE, pd_segList = [pg]\<rparr>) \<and>
     (\<exists>g. us_heap s pg = Some (SegObj g) \<and> sg_dfeQ g = map fst xs) \<and> dfes s xs"

definition pdu_blocks :: "ptr \<Rightarrow> ptr \<Rightarrow> (ptr \<times> ptr \<times> RlcSduStatus \<times> u8 list) list \<Rightarrow> ptr set" where
  "pdu_blocks pp pg xs = insert pp (insert pg (dfe_blocks xs))"

lemma pdu_reassembled:
  assumes ok: "rrc_ok s" "mac_ready s" and rx: "rx_at s pe e r" and pdu: "pdu_at s pp pg xs"
    and ring: "am_ring e (unat (sn AND 511)) = \<lparr>rn_status = RS_IN_USE, rn_data = pp\<rparr>"
    and disj: "dfe_blocks xs \<inter> partial_blocks e = {}"
    and fit: "\<And>pd pb st bs xs' n part t. xs = (pd, pb, st, bs) # xs' \<Longrightarrow> fst r = Some (n, part) \<Longrightarrow> needs_join sn st n \<Longrightarrow>
      us_mem t = us_mem s \<Longrightarrow> join_fits t (rb_pData (rs_rawSdu (am_rxRawSdu e))) pb"
    and tl: "\<forall>x\<in>set (tl (dfe_data xs)). fst x = AM_PDU_MAP_SDU_FULL \<or> fst x = AM_PDU_MAP_SDU_START"
    and r: "rx_dfes (mac_grant s (am_rnti e)) sn (dfe_data xs) r = (r', os)" and out: "out_ok (am_lcId e) os"
  shows "\<exists>s' e'. RlcReassembleRlcSdu sn pe s = Some s' \<and> rx_at s' pe e' r' \<and>
    am_rnti e' = am_rnti e \<and> am_lcId e' = am_lcId e \<and>
    am_ring e' = (am_ring e)(unat (sn AND 511) := \<lparr>rn_status = RS_FREE, rn_data = NULL\<rparr>) \<and>
    eff (pdu_blocks pp pg xs \<union> insert pe (partial_blocks e)) (insert pe (partial_blocks e')) (delivered e os) s s'"
proof -
  let ?i = "unat (sn AND 511)"
  obtain g where h: "us_heap s pe = Some (AmObj e)" "us_heap s pp = Some (PduObj \<lparr>pd_status = PDU_AM_COMPLETE, pd_segList = [pg]\<rparr>)"
    "us_heap s pg = Some (SegObj g)" "sg_dfeQ g = map fst xs" "dfes s xs"
    using rx pdu by (auto simp: rx_at_def pdu_at_def)
  note own = dfes_own [OF ok(1) h(5)]
  have part: "us_heap s q = None" if "q \<in> partial_blocks e" for q
    using that rx by (auto simp: partial_blocks_def rx_at_def buffer_def own_raw split: option.splits)
  have ne: "pe \<noteq> pp" "pe \<noteq> pg" "pp \<noteq> pg" "pp \<notin> dfe_blocks xs" "pg \<notin> dfe_blocks xs" "pe \<notin> dfe_blocks xs"
    "pp \<notin> partial_blocks e" "pg \<notin> partial_blocks e" "pe \<notin> partial_blocks e"
    using h own(2) [of pe] own(2) [of pp] own(2) [of pg] part [of pe] part [of pp] part [of pg] by auto
  have pp0: "pp \<noteq> NULL" using heap_NULL [OF ok(1)] h(2) by (cases "pp = NULL") auto
  \<comment> \<open>the position is marked and the PDU loses its segment\<close>
  obtain s1 where s1: "set_ring pe ?i \<lparr>rn_status = RS_READY, rn_data = pp\<rparr> s = Some s1"
    "rx_at s1 pe (e\<lparr>am_ring := (am_ring e)(?i := \<lparr>rn_status = RS_READY, rn_data = pp\<rparr>)\<rparr>) r" "eff {pe} {pe} [] s s1"
    by (rule ring_step [OF ok(1) rx])
  let ?e1 = "e\<lparr>am_ring := (am_ring e)(?i := \<lparr>rn_status = RS_READY, rn_data = pp\<rparr>)\<rparr>"
  have h1: "us_heap s1 q = us_heap s q" if "q \<in> own s" "q \<noteq> pe" for q using effD(5) [OF s1(3)] that by simp
  have o1: "pp \<in> own s" "pg \<in> own s" using own_obj [OF ok(1) h(2)] own_obj [OF ok(1) h(3)] by simp_all
  let ?s2 = "put_obj pp (PduObj \<lparr>pd_status = PDU_AM_COMPLETE, pd_segList = []\<rparr>) s1"
  have f2: "eff {pp} {pp} [] s1 ?s2" using h1 [OF o1(1)] h(2) ne by (intro eff_put [OF effD(1) [OF s1(3)]]) auto
  let ?s3 = "put_obj pg (SegObj (g\<lparr>sg_dfeQ := []\<rparr>)) ?s2"
  have pg2: "us_heap ?s2 pg = Some (SegObj g)" using h1 [OF o1(2)] h(3) ne by auto
  have f3: "eff {pg} {pg} [] ?s2 ?s3" by (intro eff_put [OF effD(1) [OF f2] pg2]) simp_all
  have "eff {pe, pp} {pe, pp} [] s ?s2" using ne by (intro eff_comp [OF s1(3) f2]) auto
  then have f13: "eff {pe, pp, pg} {pe, pp, pg} [] s ?s3" using ne by (intro eff_comp [OF _ f3]) auto
  have rx3: "rx_at ?s3 pe ?e1 r"
  proof -
    have "rx_at ?s2 pe ?e1 r" using ne by (intro rx_at_eff [OF f2 effD(1) [OF s1(3)] s1(2)]) auto
    then show ?thesis using ne by (intro rx_at_eff [OF f3 effD(1) [OF f2]]) auto
  qed
  have d3: "dfes ?s3 xs" using ne by (intro dfes_eff [OF f13 ok(1) h(5)]) auto
  have a3: "{pe, pp, pg} \<inter> set (gMacUeContext s) = {}" using ok(2) h(1-3) unfolding mac_ready_def by fastforce
  note m3 = mac_stays [OF f13 ok a3]
  \<comment> \<open>the elements are reassembled\<close>
  have mem3: "us_mem ?s3 = us_mem s" using s1(1) h(1) by (auto simp: set_ring_def get_obj_def the_am_def)
  obtain s4 where s4: "reassemble_dfes (map fst xs) sn pe ?s3 = Some s4" "stepped (dfe_blocks xs) {} pe ?e1 r' os ?s3 s4"
    using reassemble_dfes_refines [OF effD(1) [OF f3] m3(1) rx3 d3, of sn r' os] fit [OF _ _ _ mem3] tl r out disj m3(2) by auto
  obtain e4 where e4: "rx_at s4 pe e4 r'" "same_rx ?e1 e4"
    "eff (dfe_blocks xs \<union> insert pe (partial_blocks e)) (insert pe (partial_blocks e4)) (delivered e os) ?s3 s4"
    using s4(2) by (auto simp: stepped_def)
  \<comment> \<open>segment and PDU are released, the position is free\<close>
  have fr: "pp \<in> own s4" "pg \<in> own s4" "pp \<notin> partial_blocks e4" "pg \<notin> partial_blocks e4"
  proof -
    have *: "q \<in> own ?s3 - (dfe_blocks xs \<union> insert pe (partial_blocks e))" if "q = pp \<or> q = pg" for q
      using that ne effD(2) [OF f13] by auto
    show "pp \<in> own s4" "pg \<in> own s4" using * effD(2) [OF e4(3)] by auto
    show "pp \<notin> partial_blocks e4" "pg \<notin> partial_blocks e4" using * effD(3) [OF e4(3)] by blast+
  qed
  obtain s5 where s5: "us_free s4 pg = Some s5" "eff {pg} {} [] s4 s5" by (rule eff_free [OF effD(1) [OF e4(3)] fr(2)])
  have rx5: "rx_at s5 pe e4 r'" using ne fr by (intro rx_at_eff [OF s5(2) effD(1) [OF e4(3)] e4(1)]) auto
  have "pp \<in> own s5" using fr ne effD(2) [OF s5(2)] by auto
  then obtain s6 where s6: "us_free s5 pp = Some s6" "eff {pp} {} [] s5 s6" by (rule eff_free [OF effD(1) [OF s5(2)]])
  have rx6: "rx_at s6 pe e4 r'" using ne fr by (intro rx_at_eff [OF s6(2) effD(1) [OF s5(2)] rx5]) auto
  obtain s7 where s7: "set_ring pe ?i \<lparr>rn_status = RS_FREE, rn_data = NULL\<rparr> s6 = Some s7"
    "rx_at s7 pe (e4\<lparr>am_ring := (am_ring e4)(?i := \<lparr>rn_status = RS_FREE, rn_data = NULL\<rparr>)\<rparr>) r'" "eff {pe} {pe} [] s6 s7"
    by (rule ring_step [OF effD(1) [OF s6(2)] rx6])
  have "eff (dfe_blocks xs \<union> {pp, pg} \<union> insert pe (partial_blocks e)) ({pp, pg} \<union> insert pe (partial_blocks e4)) (delivered e os) s s4"
    using fr ne by (intro eff_comp [OF f13 e4(3)]) auto
  then have "eff (dfe_blocks xs \<union> {pp, pg} \<union> insert pe (partial_blocks e)) ({pp} \<union> insert pe (partial_blocks e4)) (delivered e os) s s5"
    using fr ne by (intro eff_comp [OF _ s5(2)]) auto
  then have f6: "eff (dfe_blocks xs \<union> {pp, pg} \<union> insert pe (partial_blocks e)) (insert pe (partial_blocks e4)) (delivered e os) s s6"
    using fr ne by (intro eff_comp [OF _ s6(2)]) auto
  have f: "eff (pdu_blocks pp pg xs \<union> insert pe (partial_blocks e)) (insert pe (partial_blocks e4)) (delivered e os) s s7"
    unfolding pdu_blocks_def by (rule eff_comp [OF f6 s7(3)]) auto
  have "RlcReassembleRlcSdu sn pe s = Some s7"
    using h(1,2) ring pp0 s1(1) h(4) pg2 s4(1) s5(1) s6(1) s7(1)
    by (simp add: RlcReassembleRlcSdu_def RlcReassembleAmdDfeQ_def get_obj_def the_am_def the_pdu_def the_seg_def)
  then show ?thesis using s7(2) f e4(2)
    by (intro exI [of _ s7] exI [of _ "e4\<lparr>am_ring := (am_ring e4)(?i := \<lparr>rn_status = RS_FREE, rn_data = NULL\<rparr>)\<rparr>"])
      (simp add: same_rx_def)
qed

end
