(* ===== verification/Rlc_Format.thy ===== *)
theory Rlc_Format
  imports Rlc_Frame
begin

text \<open>
  The format of an acknowledged mode data PDU, written as an encoder: a fixed header of two
  bytes, length indicators of 12 bits each, and the payload.  The decoders of \<open>lteRlc.c\<close> are
  shown to recover what was encoded.
\<close>

section \<open>The encoder\<close>

definition amd_header :: "u8 \<Rightarrow> u8 \<Rightarrow> u8 \<Rightarrow> u16 \<Rightarrow> u8 list" where
  "amd_header p fi e sn =
     [0x80 OR push_bit 5 p OR push_bit 3 fi OR push_bit 2 e OR ucast (drop_bit 8 sn), ucast sn]"

text \<open>Every indicator but the last has its extension bit set; two of them take three bytes.\<close>

definition more_bit :: "'a list \<Rightarrow> u8 \<Rightarrow> u8" where
  "more_bit ls b = (if ls = [] then 0 else b)"

fun encode_lis :: "u16 list \<Rightarrow> u8 list" where
  "encode_lis [] = []"
| "encode_lis [l] = [ucast (drop_bit 4 l), ucast (push_bit 4 l)]"
| "encode_lis (l # k # ls) = [0x80 OR ucast (drop_bit 4 l),
     ucast (push_bit 4 l) OR more_bit ls 8 OR ucast (drop_bit 8 k), ucast k] @ encode_lis ls"

definition amd_pdu :: "u8 \<Rightarrow> u8 \<Rightarrow> u16 \<Rightarrow> u16 list \<Rightarrow> u8 list \<Rightarrow> u8 list" where
  "amd_pdu p fi sn lens payload = amd_header p fi (if lens = [] then 0 else 1) sn @ encode_lis lens @ payload"

definition amd_fields :: "u8 \<Rightarrow> u8 \<Rightarrow> u16 \<Rightarrow> u16 list \<Rightarrow> bool" where
  "amd_fields p fi sn lens \<longleftrightarrow> p < 2 \<and> fi < 4 \<and> sn < 1024 \<and> length lens \<le> RLC_MAX_DFE_IN_UL_PDU - 1 \<and>
     (\<forall>l\<in>set lens. l \<noteq> 0 \<and> l < 2048)"

text \<open>The data field elements: the payload cut at the lengths, with their place in an SDU.\<close>

fun cut_at :: "u16 list \<Rightarrow> u8 list \<Rightarrow> u8 list list" where
  "cut_at [] bs = [bs]"
| "cut_at (l # ls) bs = take (unat l) bs # cut_at ls (drop (unat l) bs)"

definition only_status :: "u8 \<Rightarrow> RlcSduStatus" where
  "only_status fi = (if fi = 0 then AM_PDU_MAP_SDU_FULL else if fi = 1 then AM_PDU_MAP_SDU_START
     else if fi = 2 then AM_PDU_MAP_SDU_END else AM_PDU_MAP_SDU_MID)"

definition first_status :: "u8 \<Rightarrow> RlcSduStatus" where
  "first_status fi = (if fi AND 2 \<noteq> 0 then AM_PDU_MAP_SDU_END else AM_PDU_MAP_SDU_FULL)"

definition last_status :: "u8 \<Rightarrow> RlcSduStatus" where
  "last_status fi = (if fi AND 1 = 0 then AM_PDU_MAP_SDU_FULL else AM_PDU_MAP_SDU_START)"

fun mark :: "u8 \<Rightarrow> RlcSduStatus \<Rightarrow> u8 list list \<Rightarrow> (RlcSduStatus \<times> u8 list) list" where
  "mark fi st [] = []"
| "mark fi st [bs] = [(last_status fi, bs)]"
| "mark fi st (bs # bss) = (st, bs) # mark fi AM_PDU_MAP_SDU_FULL bss"

definition amd_elements :: "u8 \<Rightarrow> u16 list \<Rightarrow> u8 list \<Rightarrow> (RlcSduStatus \<times> u8 list) list" where
  "amd_elements fi lens payload = (if lens = [] then [(only_status fi, payload)]
     else mark fi (first_status fi) (cut_at lens payload))"

lemma cut_at_concat: "concat (cut_at lens payload) = payload"
  by (induction lens arbitrary: payload) simp_all

lemma cut_at_length [simp]: "length (cut_at lens payload) = length lens + 1"
  by (induction lens arbitrary: payload) simp_all

lemma cut_at_ne [simp]: "cut_at lens payload \<noteq> []"
  by (cases lens) simp_all

lemma mark_snd [simp]: "map snd (mark fi st bss) = bss"
  by (induction fi st bss rule: mark.induct) simp_all

lemma mark_Cons: "bss \<noteq> [] \<Longrightarrow> mark fi st (bs # bss) = (st, bs) # mark fi AM_PDU_MAP_SDU_FULL bss"
  by (cases bss) simp_all

lemma mark_full: "x \<in> set (mark fi AM_PDU_MAP_SDU_FULL bss) \<Longrightarrow> fst x = AM_PDU_MAP_SDU_FULL \<or> fst x = AM_PDU_MAP_SDU_START"
  by (induction fi AM_PDU_MAP_SDU_FULL bss rule: mark.induct) (auto simp: last_status_def split: if_splits)

lemma mark_tl: "x \<in> set (tl (mark fi st bss)) \<Longrightarrow> fst x = AM_PDU_MAP_SDU_FULL \<or> fst x = AM_PDU_MAP_SDU_START"
  using mark_full by (cases "(fi, st, bss)" rule: mark.cases) auto

lemma amd_elements_concat: "concat (map snd (amd_elements fi lens payload)) = payload"
  by (simp add: amd_elements_def cut_at_concat)

lemma amd_elements_tl:
  "x \<in> set (tl (amd_elements fi lens payload)) \<Longrightarrow> fst x = AM_PDU_MAP_SDU_FULL \<or> fst x = AM_PDU_MAP_SDU_START"
  by (auto simp: amd_elements_def dest: mark_tl split: if_splits)

lemma encode_lis_length: "length (encode_lis lens) = (12 * length lens + 7) div 8"
  by (induction lens rule: encode_lis.induct) auto

section \<open>The header\<close>

lemma u8_cases4: "(fi :: u8) < 4 \<Longrightarrow> fi = 0 \<or> fi = 1 \<or> fi = 2 \<or> fi = 3"
proof -
  assume "fi < 4"
  then have "unat fi < 4" by (simp add: word_less_nat_alt)
  then have "unat fi = 0 \<or> unat fi = 1 \<or> unat fi = 2 \<or> unat fi = 3" by linarith
  then show ?thesis by (auto simp: unat_eq_0 dest!: arg_cong [where f = "of_nat :: nat \<Rightarrow> u8"])
qed

lemma u8_cases2: "(e :: u8) < 2 \<Longrightarrow> e = 0 \<or> e = 1"
  using u8_cases4 [of e] by (auto simp: word_less_nat_alt)

lemma byte_consts: "(0x80 :: u8) = push_bit 7 1" "(8 :: u8) = push_bit 3 1" "(0x7FF :: u32) = mask 11"
    "(3 :: u8) = mask 2" "(1 :: u8) = mask 1" "(3 :: u16) = mask 2" "(1023 :: u16) = mask 10" "(0x0F :: u8) = mask 4"
  by (simp_all add: mask_eq_exp_minus_1)

lemma less_mask_bit:
  assumes "(x :: 'a::len word) < 2 ^ k" "k < LENGTH('a)" "bit x n"
  shows "n < k"
proof (rule ccontr)
  assume "\<not> n < k"
  moreover have "take_bit k x = x"
    using assms(1,2) by (simp add: less_mask_eq take_bit_eq_mask word_less_nat_alt)
  then have "bit (take_bit k x) n" using assms(3) by simp
  ultimately show False by (simp add: bit_take_bit_iff)
qed

lemma sn_bits: "(sn :: u16) < 1024 \<Longrightarrow> bit sn n \<Longrightarrow> n < 10"
  using less_mask_bit [of sn 10 n] by simp

lemma li_bits: "(l :: u16) < 2048 \<Longrightarrow> bit l n \<Longrightarrow> n < 11"
  using less_mask_bit [of l 11 n] by simp

text \<open>
  The fields of the first byte; \<open>t\<close> are the two high bits of the sequence number.
\<close>

lemma header_byte:
  assumes "p = 0 \<or> p = (1 :: u8)" "fi = 0 \<or> fi = 1 \<or> fi = 2 \<or> fi = 3" "e = 0 \<or> e = 1" "t = 0 \<or> t = 1 \<or> t = 2 \<or> t = 3"
    and b: "b = 0x80 OR push_bit 5 p OR push_bit 3 fi OR push_bit 2 e OR t"
  shows "drop_bit 7 b AND 1 = 1" "drop_bit 6 b AND 1 = 0" "drop_bit 5 b AND 1 = p" "drop_bit 3 b AND 3 = fi"
    "drop_bit 2 b AND 1 = e" "b AND 3 = t"
  using assms(1-4) unfolding b by (elim disjE; simp)+

lemma sn_high: "(sn :: u16) < 1024 \<Longrightarrow> (ucast (drop_bit 8 sn) :: u8) < 4"
  by (simp add: word_less_nat_alt unsigned_ucast_eq drop_bit_eq_div take_bit_nat_def unat_div)

lemma sn_split:
  assumes "(sn :: u16) < 1024"
  shows "push_bit 8 (ucast (ucast (drop_bit 8 sn) :: u8)) OR ucast (ucast sn :: u8) = sn"
proof (rule bit_word_eqI)
  fix n assume n: "n < LENGTH(16)"
  show "bit (push_bit 8 (ucast (ucast (drop_bit 8 sn) :: u8)) OR ucast (ucast sn :: u8) :: u16) n = bit sn n"
    using n sn_bits [OF assms, of n] by (cases "n < 8") (auto simp: bit_simps)
qed

section \<open>The length indicators\<close>

lemma bit_80: "bit (0x80 :: u8) n \<longleftrightarrow> n = 7" and bit_8: "bit (8 :: u8) n \<longleftrightarrow> n = 3"
proof -
  have "(0x80 :: u8) = 2 ^ 7" "(8 :: u8) = 2 ^ 3" by simp_all
  then show "bit (0x80 :: u8) n \<longleftrightarrow> n = 7" "bit (8 :: u8) n \<longleftrightarrow> n = 3"
    by (simp_all only: bit_exp_iff) auto
qed

lemma drop_bit_flag: "drop_bit n (w :: 'a::len word) AND 1 = of_bool (bit w n)"
  by (simp add: and_one_eq bit_iff_odd_drop_bit odd_iff_mod_2_eq_one)

lemmas word_bit_simps = bit_and_iff bit_or_iff bit_push_bit_iff bit_drop_bit_eq bit_unsigned_iff bit_mask_iff o_apply

lemma mask_11: "(0x7FF :: u32) = mask 11" by (simp add: mask_eq_exp_minus_1)

text \<open>An indicator that starts at a byte, and one that starts in the middle of a byte.\<close>

lemma li_even:
  assumes l: "(l :: u16) < 2048" and x: "\<And>n. bit (x :: u8) n \<Longrightarrow> n = 7" and y: "\<And>n. bit (y :: u8) n \<Longrightarrow> n < 4"
  shows "drop_bit 7 (x OR ucast (drop_bit 4 l)) AND 1 = of_bool (bit x 7)"
    "(push_bit 4 (ucast (x OR ucast (drop_bit 4 l))) OR drop_bit 4 (ucast (ucast (push_bit 4 l) OR y))) AND 0x7FF = (ucast l :: u32)"
proof -
  show "drop_bit 7 (x OR ucast (drop_bit 4 l)) AND 1 = of_bool (bit x 7)"
    using li_bits [OF l, of 11] unfolding drop_bit_flag word_bit_simps by auto
  show "(push_bit 4 (ucast (x OR ucast (drop_bit 4 l))) OR drop_bit 4 (ucast (ucast (push_bit 4 l) OR y))) AND 0x7FF = (ucast l :: u32)"
  proof (rule bit_word_eqI)
    fix n assume n: "n < LENGTH(32)"
    then have p: "possible_bit TYPE(u32) n" "possible_bit TYPE(u32) m = (m < 32)" "possible_bit TYPE(u8) m = (m < 8)" "possible_bit TYPE(u16) m = (m < 16)" for m 
      by (simp_all add: possible_bit_def)
    note b = li_bits [OF l, of n] x [of "n - 4"] y [of "4 + n"] li_bits [OF l, of "4 + (n - 4)"] bit_imp_le_length[of x "n - 4"]
    show "bit ((push_bit 4 (ucast (x OR ucast (drop_bit 4 l))) OR drop_bit 4 (ucast (ucast (push_bit 4 l) OR y))) AND 0x7FF :: u32) n
      = bit (ucast l :: u32) n"
      using n b  unfolding mask_11 word_bit_simps p by (cases "n < 4"; cases "n < 11") (auto simp: p)
  qed
qed
lemma li_odd:
  assumes k: "(k :: u16) < 2048" and x: "\<And>n. bit (x :: u8) n \<Longrightarrow> n = 3" and y: "\<And>n. bit (y :: u8) n \<Longrightarrow> 4 \<le> n"
  shows "drop_bit 3 (y OR x OR ucast (drop_bit 8 k)) AND 1 = of_bool (bit x 3)"
    "(push_bit 8 (ucast (y OR x OR ucast (drop_bit 8 k))) OR ucast (ucast k :: u8)) AND 0x7FF = (ucast k :: u32)"
proof -
  show "drop_bit 3 (y OR x OR ucast (drop_bit 8 k)) AND 1 = of_bool (bit x 3)"
    using li_bits [OF k, of 11] y [of 3] unfolding drop_bit_flag word_bit_simps by auto
  show "(push_bit 8 (ucast (y OR x OR ucast (drop_bit 8 k))) OR ucast (ucast k :: u8)) AND 0x7FF = (ucast k :: u32)"
  proof (rule bit_word_eqI)
    fix n assume n: "n < LENGTH(32)"
    then have p: "possible_bit TYPE(u32) n" "possible_bit TYPE(u32) m = (m < 32)" "possible_bit TYPE(u8) m = (m < 8)" "possible_bit TYPE(u16) m = (m < 16)" for m 
      by (simp_all add: possible_bit_def)
    note b = li_bits [OF k, of n] x [of "n - 8"] y [of "n - 8"] li_bits [OF k, of "8 + (n - 8)"]
    show "bit ((push_bit 8 (ucast (y OR x OR ucast (drop_bit 8 k))) OR ucast (ucast k :: u8)) AND 0x7FF :: u32) n
      = bit (ucast k :: u32) n"
      using n b unfolding mask_11 word_bit_simps p by (cases "n < 8"; cases "n < 11") (auto simp: p)
  qed
qed
lemma length_indicator_even:
  assumes "mem_byte m p (2 + 3 * j) = Some e0" "mem_byte m p (3 + 3 * j) = Some e1"
  shows "length_indicator m p (2 * j) = Some (drop_bit 7 e0 AND 1, (push_bit 4 (ucast e0) OR drop_bit 4 (ucast e1)) AND 0x7FF)"
proof -
  have a: "12 * (2 * j) div 8 = 3 * j" "12 * (2 * j) mod 8 = 0" "2 + 3 * j + 1 = 3 + 3 * j" by presburger+
  show ?thesis unfolding length_indicator_def Let_def a assms by simp
qed

lemma length_indicator_odd:
  assumes "mem_byte m p (3 + 3 * j) = Some e0" "mem_byte m p (4 + 3 * j) = Some e1"
  shows "length_indicator m p (2 * j + 1) = Some (drop_bit 3 e0 AND 1, (push_bit 8 (ucast e0) OR ucast e1) AND 0x7FF)"
proof -
  have a: "12 * (2 * j + 1) div 8 = 3 * j + 1" "12 * (2 * j + 1) mod 8 = 4" "2 + (3 * j + 1) = 3 + 3 * j" "3 + 3 * j + 1 = 4 + 3 * j" by presburger+
  show ?thesis unfolding length_indicator_def Let_def a assms by simp
qed
lemma high_bits: "bit (ucast (push_bit 4 (l :: u16)) :: u8) n \<Longrightarrow> 4 \<le> n"
  by (auto simp: word_bit_simps)

lemma ucast_u16: "(ucast (ucast l :: u32) :: u16) = l" and ucast_u16_nz: "(l :: u16) \<noteq> 0 \<Longrightarrow> (ucast l :: u32) \<noteq> 0"
proof -
  show u: "(ucast (ucast l :: u32) :: u16) = l" for l by (rule bit_word_eqI) (simp add: word_bit_simps)
  show "(ucast l :: u32) \<noteq> 0" if "l \<noteq> 0" for l :: u16
  proof
    assume "(ucast l :: u32) = 0"
    with u [of l] that show False by simp
  qed
qed
lemma more_bit_simps: "bit (more_bit ls 8) n \<Longrightarrow> n = 3" "bit (more_bit ls 8) 3 \<longleftrightarrow> ls \<noteq> []"
  by (cases "ls = []"; simp only: more_bit_def bit_8 if_True if_False bit_0_eq simp_thms bot_apply bot_bool_def not_False_eq_True)+

lemma low_bits: "(k :: u16) < 2048 \<Longrightarrow> bit (more_bit ls 8 OR ucast (drop_bit 8 k) :: u8) n \<Longrightarrow> n < 4"
  unfolding word_bit_simps using more_bit_simps(1) [of ls n] li_bits [of k "8 + n"] by auto

lemma length_indicators_decode:
  assumes "lens \<noteq> []" "length ls = 2 * j" "length lens \<le> n" "\<forall>l\<in>set lens. l \<noteq> 0 \<and> l < 2048"
    and "\<And>i. i < length (encode_lis lens) \<Longrightarrow> mem_byte m p (2 + 3 * j + i) = Some (encode_lis lens ! i)"
  shows "length_indicators n m p ls = Some (Some (ls @ lens))"
  using assms
proof (induction lens arbitrary: ls j n rule: encode_lis.induct)
  case (2 l)
  obtain n' where n: "n = Suc n'" using 2(3) by (cases n) auto
  have b: "mem_byte m p (2 + 3 * j) = Some (0 OR ucast (drop_bit 4 l))" "mem_byte m p (3 + 3 * j) = Some (ucast (push_bit 4 l) OR 0)"
    using 2(5) [of 0] 2(5) [of 1] by (simp_all add: eval_nat_numeral)
  have l: "l < 2048" "(ucast l :: u32) \<noteq> 0" using 2(4) ucast_u16_nz by auto
  have "length_indicator m p (length ls) = Some (0, ucast l)"
    unfolding 2(2) length_indicator_even [OF b] using li_even [OF l(1), of 0 0] by simp
  then show ?case using l(2) by (simp add: n ucast_u16)
next
  case (3 l k lens)
  obtain n' where n: "n = Suc (Suc n')" using 3(4) by (cases n; cases "n - 1") auto
  let ?y = "more_bit lens 8 OR ucast (drop_bit 8 k) :: u8"
  have b: "mem_byte m p (2 + 3 * j) = Some (0x80 OR ucast (drop_bit 4 l))"
    "mem_byte m p (3 + 3 * j) = Some (ucast (push_bit 4 l) OR more_bit lens 8 OR ucast (drop_bit 8 k))"
    "mem_byte m p (4 + 3 * j) = Some (ucast k)"
    using 3(6) [of 0] 3(6) [of 1] 3(6) [of 2] by (simp_all add: eval_nat_numeral)
  have lk: "l < 2048" "(ucast l :: u32) \<noteq> 0" "k < 2048" "(ucast k :: u32) \<noteq> 0" using 3(5) ucast_u16_nz by auto
  have a: "length_indicator m p (length ls) = Some (1, ucast l)"
    unfolding 3(3) length_indicator_even [OF b(1,2)]
    using li_even [where x = "0x80" and y = ?y, OF lk(1) bit_80 [THEN iffD1] low_bits [OF lk(3)]] by (simp only: bit_80) simp
  have l1: "length (ls @ [l]) = 2 * j + 1" using 3(3) by simp
  have "\<And>n. bit (more_bit lens 8) n \<Longrightarrow> n = 3" "\<And>n. bit (ucast (push_bit 4 l) :: u8) n \<Longrightarrow> 4 \<le> n"
    by (erule more_bit_simps(1) high_bits)+
  note odd = li_odd [OF lk(3) this]
  have c: "length_indicator m p (length (ls @ [l])) = Some (of_bool (lens \<noteq> []), ucast k)"
    unfolding l1 length_indicator_odd [OF b(2,3)] using odd by (simp only: more_bit_simps(2))
  show ?case
  proof (cases "lens = []")
    case True
    then show ?thesis using a c lk by (simp add: n ucast_u16)
  next
    case False
    have "length_indicators n' m p (ls @ [l, k]) = Some (Some ((ls @ [l, k]) @ lens))"
    proof (rule 3(1) [of _ "j + 1"])
      fix i assume "i < length (encode_lis lens)"
      with 3(6) [of "3 + i"] show "mem_byte m p (2 + 3 * (j + 1) + i) = Some (encode_lis lens ! i)"
        by (simp add: numeral_3_eq_3)
    qed (use False 3(3-5) n in auto)
    then show ?thesis using a c lk False by (simp add: n ucast_u16)
  qed
qed simp

section \<open>Decoding what was encoded\<close>

lemma buffer_byte:
  assumes "buffer s p bs" "i < length bs"
  shows "mem_byte (us_mem s) p i = Some (bs ! i)"
proof -
  have b: "p \<in> live (us_mem s)" "length bs \<le> blk_cap (us_mem s) p" "block_bytes s p (length bs) = bs"
    using assms(1) by (simp_all add: buffer_def raw_live)
  have "mp_data (us_mem s) p i = bs ! i"
    using assms(2) arg_cong [OF b(3), of "\<lambda>xs. xs ! i"] by (simp add: block_bytes_def blk_bytes_def)
  with b(1,2) assms(2) show ?thesis by (simp add: mem_byte_live)
qed

lemma amd_pdu_length: "length (amd_pdu p fi sn lens payload) = 2 + (12 * length lens + 7) div 8 + length payload"
  by (simp add: amd_pdu_def amd_header_def encode_lis_length)

lemma amd_pdu_drop:
  "drop (2 + (12 * length lens + 7) div 8) (amd_pdu p fi sn lens payload) = payload"
  by (simp add: amd_pdu_def amd_header_def flip: encode_lis_length)

definition decoded :: "u8 \<Rightarrow> u8 \<Rightarrow> u16 \<Rightarrow> u16 list \<Rightarrow> AmdHeader \<Rightarrow> AmdHeader" where
  "decoded p fi sn lens h = h\<lparr>ah_dc := 1, ah_rf := 0, ah_p := p, ah_fi := fi,
     ah_e := (if lens = [] then 0 else 1), ah_sn := sn\<rparr>"

lemma header_decode:
  assumes b: "buffer s (rd_buffer i) (amd_pdu p fi sn lens payload)" and f: "amd_fields p fi sn lens"
    and n: "rd_length i = of_nat (length (amd_pdu p fi sn lens payload))" and ok: "rrc_ok s"
  shows "RlcDecodeAmdHeader s i h = Some (True, decoded p fi sn lens h)"
proof -
  let ?b = "amd_pdu p fi sn lens payload"
  let ?e = "if lens = [] then 0 else (1 :: u8)"
  let ?h = "0x80 OR push_bit 5 p OR push_bit 3 fi OR push_bit 2 ?e OR ucast (drop_bit 8 sn) :: u8"
  have len: "length ?b < 2 ^ 16" "2 \<le> length ?b" using b by (simp_all add: buffer_def amd_pdu_length)
  then have l: "\<not> rd_length i < 2" "rd_length i \<noteq> 0"
    using n unat_of_nat_small [of "length ?b", where 'a = 32] by (auto simp: word_less_nat_alt)
  have nn: "rd_buffer i \<noteq> NULL"
    using b live_nonnull [OF rrc_okD(1) [OF ok]] by (auto simp: buffer_def raw_live)
  have d: "mem_byte (us_mem s) (rd_buffer i) 0 = Some ?h" "mem_byte (us_mem s) (rd_buffer i) 1 = Some (ucast sn)"
    using buffer_byte [OF b, of 0] buffer_byte [OF b, of 1] len(2) by (simp_all add: amd_pdu_def amd_header_def)
  have sn: "sn < 1024" using f by (simp add: amd_fields_def)
  have "p = 0 \<or> p = 1" "fi = 0 \<or> fi = 1 \<or> fi = 2 \<or> fi = 3" "?e = 0 \<or> ?e = 1"
    "(ucast (drop_bit 8 sn) :: u8) = 0 \<or> ucast (drop_bit 8 sn) = (1 :: u8) \<or> ucast (drop_bit 8 sn) = (2 :: u8) \<or> ucast (drop_bit 8 sn) = (3 :: u8)"
    using f u8_cases2 u8_cases4 sn_high [OF sn] by (simp_all add: amd_fields_def)
  note hb = header_byte [OF this refl]
  have "(ucast ?h AND 3 :: u16) = ucast (?h AND 3)" by (simp add: unsigned_and_eq)
  then have "(ucast ?h AND 3 :: u16) = ucast (ucast (drop_bit 8 sn) :: u8)" unfolding hb(6) .
  then have s: "push_bit 8 (ucast ?h AND 3) OR ucast (ucast sn :: u8) = sn" using sn_split [OF sn] by simp
  show ?thesis
    unfolding RlcDecodeAmdHeader_def decoded_def d Let_def bind.bind_lunit using l nn s hb(1-5) by simp
qed

lemma concatenation_decode:
  assumes b: "buffer s (rd_buffer i) (amd_pdu p fi sn lens payload)" and f: "amd_fields p fi sn lens" "lens \<noteq> []"
    and ok: "rrc_ok s"
  shows "RlcGetConcatenationHeaderInfo s i = Some (of_nat (length lens) + 1,
    \<lparr>ch_hdrSize = of_nat ((12 * length lens + 7) div 8 + 2), ch_dfeLength = lens\<rparr>)"
proof -
  let ?b = "amd_pdu p fi sn lens payload"
  have nn: "rd_buffer i \<noteq> NULL"
    using b live_nonnull [OF rrc_okD(1) [OF ok]] by (auto simp: buffer_def raw_live)
  have "mem_byte (us_mem s) (rd_buffer i) (2 + 3 * 0 + k) = Some (encode_lis lens ! k)" if "k < length (encode_lis lens)" for k
    using buffer_byte [OF b, of "2 + k"] that by (simp add: amd_pdu_def amd_header_def nth_append)
  then have "length_indicators RLC_MAX_DFE_IN_UL_PDU (us_mem s) (rd_buffer i) [] = Some (Some ([] @ lens))"
    using f by (intro length_indicators_decode [where j = 0]) (simp_all add: amd_fields_def)
  then show ?thesis using nn by (simp add: RlcGetConcatenationHeaderInfo_def)
qed

text \<open>
  C10. The PDU format round trip: from a buffer that holds an encoded acknowledged mode PDU
  the decoders recover the fields of the fixed header, the number of data field elements, the
  size of the header and every length, whatever the number of indicators (up to the 255 that
  the program has room for) and the payload are.
\<close>

theorem amd_pdu_roundtrip:
  assumes "rrc_ok s" "buffer s (rd_buffer i) (amd_pdu p fi sn lens payload)" "amd_fields p fi sn lens"
    and "rd_length i = of_nat (length (amd_pdu p fi sn lens payload))"
  shows "RlcDecodeAmdHeader s i h = Some (True, decoded p fi sn lens h) \<and>
    (lens \<noteq> [] \<longrightarrow> RlcGetConcatenationHeaderInfo s i = Some (of_nat (length lens) + 1,
      \<lparr>ch_hdrSize = of_nat ((12 * length lens + 7) div 8 + 2), ch_dfeLength = lens\<rparr>))"
  using header_decode [OF assms(2-4,1)] concatenation_decode [OF assms(2,3) _ assms(1)] by simp

theorem amd_pdu_roundtrip_witness:
  "case with_buffer (amd_pdu 1 2 517 [3, 2] [10, 11, 12, 20, 21, 30]) idle_state of (p, s) \<Rightarrow>
     amd_pdu 1 2 517 [3, 2] [10, 11, 12, 20, 21, 30] = [0xB6, 5, 0x80, 0x30, 2, 10, 11, 12, 20, 21, 30] \<and>
     RlcDecodeAmdHeader s \<lparr>rd_buffer = p, rd_length = 11, rd_lcId = 1\<rparr> no_header =
       Some (True, \<lparr>ah_dc = 1, ah_rf = 0, ah_p = 1, ah_fi = 2, ah_e = 1, ah_lsf = 0, ah_sn = 517, ah_so = 0\<rparr>) \<and>
     RlcGetConcatenationHeaderInfo s \<lparr>rd_buffer = p, rd_length = 11, rd_lcId = 1\<rparr> =
       Some (3, \<lparr>ch_hdrSize = 5, ch_dfeLength = [3, 2]\<rparr>)"
proof -
  let ?b = "amd_pdu 1 2 517 [3, 2] [10, 11, 12, 20, 21, 30]"
  have b: "?b = [0xB6, 5, 0x80, 0x30, 2, 10, 11, 12, 20, 21, 30]"
    by (simp add: amd_pdu_def amd_header_def more_bit_def)
  obtain p s where s: "with_buffer ?b idle_state = (p, s)" "rrc_ok s" "buffer s p ?b" "raw s = {p}"
    by (rule buffer_state [of ?b]) (simp_all add: b)
  let ?i = "\<lparr>rd_buffer = p, rd_length = 11, rd_lcId = 1\<rparr>"
  have "amd_fields 1 2 517 [3, 2]" by (simp add: amd_fields_def word_less_nat_alt)
  from amd_pdu_roundtrip [OF s(2) _ this, of ?i "[10, 11, 12, 20, 21, 30]" no_header] s(1,3) b
  show ?thesis by (simp add: decoded_def no_header_def)
qed

end
