(* ===== verification/Rlc_Decode.thy ===== *)
theory Rlc_Decode
  imports Rlc_Reassembly Rlc_Format
begin

text \<open>
  Decoding of an acknowledged mode PDU: the payload of a received buffer is cut into data field
  elements with buffers of their own.  Either the PDU gets one segment with exactly the elements
  of the format, or everything the packet used is released.
\<close>

section \<open>Allocations that succeed\<close>

lemma alloc_spare:
  assumes "rrc_ok s" "us_alloc s len = Some (p, s')" "spare (Suc n) s" "len \<le> 65536"
  shows "p \<noteq> NULL" "spare n s'"
  using us_alloc_spare [OF rrc_okD(1) [OF assms(1)] assms(3,4)] assms(2) by auto

lemma new_spare:
  assumes "rrc_ok s" "new_obj s len x = Some (p, s')" "spare (Suc n) s" "len \<le> 65536"
  shows "p \<noteq> NULL" "spare n s'"
proof -
  obtain q m where "new_obj s len x = Some (q, put_obj q x (s\<lparr>us_mem := m\<rparr>))" "q \<noteq> NULL" "spare n (s\<lparr>us_mem := m\<rparr>)"
    by (rule new_obj_spare [OF rrc_okD(1) [OF assms(1)] assms(3,4)])
  with assms(2) show "p \<noteq> NULL" "spare n s'" by (auto simp: spare_def put_obj_def)
qed

lemma unat_ucast_16_32: "unat (ucast (l :: u16) :: u32) = unat l"
proof -
  have "unat l < 2 ^ 16" using unsigned_less [of l, where 'a = nat] by simp
  then show ?thesis by (simp add: unsigned_ucast_eq take_bit_nat_eq_self_iff)
qed

lemma spare_le: "spare n s \<Longrightarrow> k \<le> n \<Longrightarrow> spare k s"
  by (simp add: spare_def)

lemma spare_put [simp]: "spare n (put_obj p x s) = spare n s"
  by (simp add: spare_def put_obj_def)

lemma mem_move_pools: "mem_move m d di p si n = Some m' \<Longrightarrow> mp_pools m' = mp_pools m \<and> mp_cfg m' = mp_cfg m"
  by (auto simp: mem_move_def blk_store_def bind_Some_iff split: if_splits)

lemma spare_copy: "us_copy s d p off k = Some s' \<Longrightarrow> spare n s' = spare n s"
  by (auto simp: us_copy_def mem_copy_def spare_def bind_Some_iff Let_def dest!: mem_move_pools split: if_splits)

lemma set_len_pools: "set_len m p l = Some m' \<Longrightarrow> mp_pools m' = mp_pools m \<and> mp_cfg m' = mp_cfg m"
  by (auto simp: set_len_def bind_Some_iff)

lemma spare_remove:
  assumes "us_remove s p w k = Some s'"
  shows "spare n s' = spare n s"
proof -
  have "mp_pools m' = mp_pools m \<and> mp_cfg m' = mp_cfg m" if r: "MemRemove m p w k = Some (r, m')" for m m' r
  proof -
    obtain c where c: "CheckNode m p = Some c" using r by (auto simp: MemRemove_def bind_Some_iff)
    show ?thesis
    proof (cases c)
      case None
      then show ?thesis using r c by (simp add: MemRemove_def)
    next
      case (Some n)
      then show ?thesis
        using r c mem_move_pools set_len_pools [of _ p _ m'] by (fastforce simp: MemRemove_def Let_def bind_Some_iff split: if_splits)
    qed
  qed
  then show ?thesis using assms by (auto simp: us_remove_def bind_Some_iff spare_def)
qed

section \<open>One element is split off\<close>

lemma release_dfe:
  assumes ok: "rrc_ok s" and own: "pb \<in> own s" "pd \<in> own s" "pb \<noteq> pd"
  obtains s1 s' where "us_free s pb = Some s1" "us_free s1 pd = Some s'" "eff {pd, pb} {} [] s s'"
proof -
  obtain s1 where s1: "us_free s pb = Some s1" "eff {pb} {} [] s s1" by (rule eff_free [OF ok own(1)])
  have "pd \<in> own s1" using effD(2) [OF s1(2)] own by simp
  then obtain s2 where s2: "us_free s1 pd = Some s2" "eff {pd} {} [] s1 s2" by (rule eff_free [OF effD(1) [OF s1(2)]])
  have "eff {pd, pb} {} [] s s2" by (rule eff_comp [OF s1(2) s2(2)]) auto
  then show thesis by (rule that [OF s1(1) s2(1)])
qed

definition dfe_obj :: "RlcSduStatus \<Rightarrow> nat \<Rightarrow> ptr \<Rightarrow> obj" where
  "dfe_obj st n pb = DfeObj \<lparr>df_status = st, df_buffer = \<lparr>rb_size = of_nat n, rb_pData = pb\<rparr>\<rparr>"

lemma dfe_at_iff: "dfe_at s pd pb st bs \<longleftrightarrow> us_heap s pd = Some (dfe_obj st (length bs) pb) \<and>
    carries s pb bs \<and> (st = AM_PDU_MAP_SDU_START \<or> st = AM_PDU_MAP_SDU_MID \<longrightarrow> buffer s pb bs)"
  by (simp add: dfe_at_def dfe_obj_def)

lemma get_dfe [simp]: "us_heap s p = Some (dfe_obj st n pb) \<Longrightarrow>
    get_obj the_dfe s p = Some \<lparr>df_status = st, df_buffer = \<lparr>rb_size = of_nat n, rb_pData = pb\<rparr>\<rparr>"
  by (simp add: get_obj_def the_dfe_def dfe_obj_def)

lemma dfe_not_rrc [simp]: "\<not> is_rrc (dfe_obj st n pb)" "dfe_obj st n pb \<noteq> SegObj g" "SegObj g \<noteq> dfe_obj st n pb" "dfe_obj st n pb \<noteq> PduObj p"
  by (simp_all add: dfe_obj_def)

lemma push_dfe_run:
  "us_heap s pg = Some (SegObj g) \<Longrightarrow> push_dfe s pg pd = Some (put_obj pg (SegObj (g\<lparr>sg_dfeQ := sg_dfeQ g @ [pd]\<rparr>)) s)"
  by (simp add: push_dfe_def get_obj_def the_seg_def)

lemma split_dfe_cases [consumes 4, case_names fail split]:
  assumes ok: "rrc_ok s" and g: "us_heap s pg = Some (SegObj g)" and d: "us_heap s pd = Some (dfe_obj st (length bs) pb)"
    and b: "buffer s pb bs"
  obtains (fail) s' where "split_dfe s pg pd l = Some (NULL, s')" "eff {pd, pb} {} [] s s'"
      "\<not> (unat l \<le> length bs \<and> spare 2 s)"
  | (split) nx nb s' where "split_dfe s pg pd l = Some (nx, s')" "nx \<noteq> NULL" "unat l \<le> length bs"
      "eff {pg, pd} {pg, pd, nx, nb} [] s s'" "nx \<notin> own s" "nb \<notin> own s" "nx \<noteq> nb"
      "us_heap s' pg = Some (SegObj (g\<lparr>sg_dfeQ := sg_dfeQ g @ [pd]\<rparr>))" "us_heap s' pd = Some (dfe_obj st (unat l) pb)"
      "us_heap s' nx = Some (dfe_obj AM_PDU_MAP_SDU_FULL (length bs - unat l) nb)" "buffer s' nb (drop (unat l) bs)"
      "\<And>n. spare (n + 2) s \<Longrightarrow> spare n s'"
proof -
  have own: "pb \<in> own s" "pd \<in> own s" "pg \<in> own s" "pb \<noteq> pd" "pb \<noteq> pg" "pg \<noteq> pd" and hb: "us_heap s pb = None"
    using b own_obj [OF ok g] own_obj [OF ok d] d g by (auto simp: buffer_def own_raw)
  have len: "length bs < 2 ^ 16" using b by (simp add: buffer_def)
  have w: "unat (of_nat (length bs) :: u32) = length bs" "unat (ucast l :: u32) = unat l"
    using len by (simp_all add: unat_of_nat_small unat_ucast_16_32)
  have big: "(of_nat (length bs) < (ucast l :: u32)) = (length bs < unat l)"
    using w by (simp add: word_less_nat_alt)
  let ?rest = "of_nat (length bs) - (ucast l :: u32)"
  obtain f1 f2 where free: "us_free s pb = Some f1" "us_free f1 pd = Some f2" "eff {pd, pb} {} [] s f2"
    by (rule release_dfe [OF ok own(1,2,4)])
  note def = split_dfe_def Let_def get_dfe [OF d] bind.bind_lunit
  show thesis
  proof (cases "length bs < unat l")
    case True
    show thesis
      by (rule fail [of f2]) (use True big free in \<open>simp_all add: split_dfe_def get_dfe [OF d]\<close>)
  next
    case le: False
    have rest: "?rest = of_nat (length bs - unat l)" "unat ?rest = length bs - unat l" "?rest \<le> 65536"
    proof -
      show "?rest = of_nat (length bs - unat l)" using le by (simp add: of_nat_diff)
      then show u: "unat ?rest = length bs - unat l" using len by (simp add: unat_of_nat_small del: of_nat_diff)
      show "?rest \<le> 65536" using len by (simp add: word_le_nat_alt u)
    qed
    let ?x = "DfeObj \<lparr>df_status = AM_PDU_MAP_SDU_FULL, df_buffer = \<lparr>rb_size = 0, rb_pData = NULL\<rparr>\<rparr>"
    have nx: "\<not> is_rrc ?x" by simp
    from ok nx show thesis
    proof (cases rule: eff_new [of s ?x sizeof_AmdDFE])
      case none
      have "\<not> spare (Suc 1) s"
        using new_spare(1) [OF ok none] by auto
      then show thesis
        by (intro fail [of f2]) (use le big free none in \<open>simp_all add: split_dfe_def get_dfe [OF d] numeral_2_eq_2\<close>)
    next
      case (block nx s1)
      have ok1: "rrc_ok s1" by (rule effD(1) [OF block(3)])
      have sp1: "spare (Suc n) s1" if "spare (n + 2) s" for n
        using new_spare(2) [OF ok block(1), of "Suc n"] that by simp
      have own1: "pb \<in> own s1" "pd \<in> own s1" "nx \<in> own s1" "pg \<in> own s1" "nx \<noteq> pb" "nx \<noteq> pd" "nx \<noteq> pg"
        using effD(2) [OF block(3)] own block(4) by auto
      from ok1 show thesis
      proof (cases rule: eff_alloc [of s1 ?rest])
        case none
        have ns: "\<not> spare 2 s"
          using alloc_spare(1) [OF ok1 none _ rest(3), of 0] sp1 [of 0] by (auto simp: numeral_2_eq_2)
        obtain s2 where s2: "us_free s1 pb = Some s2" "eff {pb} {} [] s1 s2" by (rule eff_free [OF ok1 own1(1)])
        have "nx \<in> own s2" "pd \<in> own s2" using effD(2) [OF s2(2)] own1 own by auto
        then obtain s3 s4 where s34: "us_free s2 nx = Some s3" "us_free s3 pd = Some s4" "eff {pd, nx} {} [] s2 s4"
          by (rule release_dfe [OF effD(1) [OF s2(2)] _ _ own1(6)])
        have "eff {pb} {nx} [] s s2" using own1 by (intro eff_comp [OF block(3) s2(2)]) auto
        then have "eff {pd, pb} {} [] s s4" using block(4) by (intro eff_comp [OF _ s34(3)]) auto
        then show thesis
          by (intro fail [of s4]) (use le big block none s2(1) s34 ns in \<open>simp_all add: split_dfe_def get_dfe [OF d]\<close>)
      next
        case b2: (block nb s2)
        have nb: "nb \<notin> own s" "nb \<noteq> nx" "nb \<noteq> pb" "nb \<noteq> pd" "nb \<noteq> pg"
          using b2(4) own1 effD(2) [OF block(3)] by auto
        have f2: "eff {} {nx, nb} [] s s2" using nb by (intro eff_comp [OF block(3) b2(3)]) auto
        have pb2: "buffer s2 pb bs" by (rule eff_buffer [OF f2 b]) simp
        have o2: "nb \<in> own s2" "us_heap s2 nb = None" using effD(2) [OF f2] b2(5,6) by auto
        obtain k where k: "mp_nodes (us_mem s2) nb = Some k" "mn_length k = ucast ?rest" using b2(8) by blast
        have kl: "unat (mn_length k) = length bs - unat l"
          unfolding k(2) using rest(2) len by (simp add: unsigned_ucast_eq take_bit_nat_eq_self_iff)
        obtain s3 where s3: "us_copy s2 nb pb (unat l) (length bs - unat l) = Some s3" "eff {nb} {nb} [] s2 s3"
          "us_heap s3 = us_heap s2" "buffer s3 nb (drop (unat l) bs)"
          using eff_copy [OF effD(1) [OF f2] pb2 _ o2 nb(3) [symmetric], of "unat l"] le k(1) kl b2(7) rest(2) by auto
        have f3: "eff {} {nx, nb} [] s s3" using nb by (intro eff_comp [OF f2 s3(2)]) auto
        have h3: "us_heap s3 = (us_heap s)(nx \<mapsto> ?x)" using s3(3) b2(5) block(5) by simp
        let ?s4 = "put_obj nx (dfe_obj AM_PDU_MAP_SDU_FULL (length bs - unat l) nb) s3"
        have f4: "eff {nx} {nx} [] s3 ?s4" by (rule eff_put [OF effD(1) [OF f3], of _ ?x]) (simp_all add: h3)
        have f4': "eff {} {nx, nb} [] s ?s4" using nb by (intro eff_comp [OF f3 f4]) auto
        let ?s5 = "put_obj pd (dfe_obj st (unat l) pb) ?s4"
        have f5: "eff {pd} {pd} [] ?s4 ?s5"
          by (rule eff_put [OF effD(1) [OF f4], of _ "dfe_obj st (length bs) pb"]) (use own1 d in \<open>simp_all add: h3\<close>)
        have f5': "eff {pd} {pd, nx, nb} [] s ?s5" using nb own1 by (intro eff_comp [OF f4' f5]) auto
        let ?s6 = "put_obj pg (SegObj (g\<lparr>sg_dfeQ := sg_dfeQ g @ [pd]\<rparr>)) ?s5"
        have pg5: "us_heap ?s5 pg = Some (SegObj g)" using own own1 g by (simp add: h3)
        have f6: "eff {pg} {pg} [] ?s5 ?s6" by (rule eff_put [OF effD(1) [OF f5] pg5]) simp_all
        have f6': "eff {pg, pd} {pg, pd, nx, nb} [] s ?s6" using nb own1 own by (intro eff_comp [OF f5' f6]) auto
        have "buffer ?s6 nb (drop (unat l) bs)"
        proof -
          have "nb \<noteq> pd" "nb \<noteq> pg" "nb \<noteq> nx" using nb by simp_all
          with s3(4) show ?thesis by (simp add: buffer_def raw_def block_bytes_def put_obj_def)
        qed
        moreover have "split_dfe s pg pd l = Some (nx, ?s6)"
          using le big block(1,2) b2(1,2) rest s3(1) push_dfe_run [OF pg5] w
          by (simp add: split_dfe_def get_dfe [OF d] dfe_obj_def del: of_nat_diff)
        moreover have "spare n ?s6" if "spare (n + 2) s" for n
          using alloc_spare(2) [OF ok1 b2(1) sp1 [OF that] rest(3)] spare_copy [OF s3(1)] by simp
        ultimately show thesis
          using le block(2) f6' block(4) nb own own1 by (intro split [of nx ?s6 nb]) (simp_all del: of_nat_diff)
      qed
    qed
  qed
qed

section \<open>The payload is cut\<close>

abbreviation lens_sum :: "u16 list \<Rightarrow> nat" where "lens_sum ls \<equiv> sum_list (map unat ls)"

definition cut_result :: "bool \<Rightarrow> u8 \<Rightarrow> RlcSduStatus \<Rightarrow> u16 list \<Rightarrow> u8 list \<Rightarrow> ulp_state \<Rightarrow> ulp_state \<Rightarrow>
    (ptr \<times> ptr \<times> RlcSduStatus \<times> u8 list) list \<Rightarrow> bool" where
  "cut_result r fi st lens bs s s' xs \<longleftrightarrow>
     (r \<longrightarrow> dfe_data xs = mark fi st (cut_at lens bs) \<and> lens_sum lens \<le> length bs) \<and>
     (\<forall>n. lens_sum lens \<le> length bs \<and> spare (n + 2 * length lens) s \<longrightarrow> r \<and> spare n s')"

lemma mark_one [simp]: "mark fi st [bs] = [(last_status fi, bs)]"
  by simp

lemma enqueue_all:
  assumes ok: "rrc_ok s" and g: "us_heap s pg = Some (SegObj g)" and d: "us_heap s pd = Some (dfe_obj st (length bs) pb)"
    and b: "buffer s pb bs" and st: "st = AM_PDU_MAP_SDU_FULL \<or> st = AM_PDU_MAP_SDU_END"
  shows "\<exists>r s' xs. RlcDecodeAndEnqueueAMSegment lens s pg pd fi = Some (r, s') \<and>
    us_heap s' pg = Some (SegObj (g\<lparr>sg_dfeQ := sg_dfeQ g @ map fst xs\<rparr>)) \<and> dfes s' xs \<and> pg \<notin> dfe_blocks xs \<and>
    eff {pg, pd, pb} (insert pg (dfe_blocks xs)) [] s s' \<and> cut_result r fi st lens bs s s' xs \<and>
    (r \<longrightarrow> (\<exists>d ys. xs = (pd, pb, d) # ys) \<and> mp_nodes (us_mem s') pb = mp_nodes (us_mem s) pb)"
  using assms
proof (induction lens arbitrary: s g pd st bs pb)
  case Nil
  have own: "pb \<in> own s" "pg \<noteq> pd" "pb \<noteq> pd" "pb \<noteq> pg"
    using Nil by (auto simp: buffer_def own_raw)
  let ?s1 = "put_obj pd (dfe_obj (last_status fi) (length bs) pb) s"
  have f1: "eff {pd} {pd} [] s ?s1" by (rule eff_put [OF Nil(1) Nil(3)]) simp_all
  have pg1: "us_heap ?s1 pg = Some (SegObj g)" using own Nil(2) by simp
  let ?s2 = "put_obj pg (SegObj (g\<lparr>sg_dfeQ := sg_dfeQ g @ [pd]\<rparr>)) ?s1"
  have f2: "eff {pg} {pg} [] ?s1 ?s2" by (rule eff_put [OF effD(1) [OF f1] pg1]) simp_all
  have "eff {pd, pg} {pd, pg} [] s ?s2" using own by (intro eff_comp [OF f1 f2]) auto
  then have f: "eff {pg, pd, pb} {pg, pd, pb} [] s ?s2"
    using eff_widen [of "{pd, pg}" "{pd, pg}" "[]" s ?s2 "{pb}"] own by (simp add: insert_commute)
  have run: "RlcDecodeAndEnqueueAMSegment [] s pg pd fi = Some (True, ?s2)"
    using push_dfe_run [OF pg1, of pd] by (simp add: get_dfe [OF Nil(3)] dfe_obj_def last_status_def)
  have bf: "buffer ?s2 pb bs" using own Nil(4) by (simp add: buffer_def raw_def block_bytes_def put_obj_def)
  then have "dfes ?s2 [(pd, pb, last_status fi, bs)]"
    using own by (simp add: dfe_at_iff buffer_carries0)
  moreover have "cut_result True fi st [] bs s ?s2 [(pd, pb, last_status fi, bs)]"
    by (simp add: cut_result_def)
  ultimately show ?case using run f own by (intro exI [of _ True] exI [of _ ?s2] exI [of _ "[(pd, pb, last_status fi, bs)]"]) auto
next
  case (Cons l ls)
  have own: "pb \<in> own s" "pg \<noteq> pd" "pb \<noteq> pd" "pb \<noteq> pg" "pg \<in> own s" "pd \<in> own s"
    using Cons.prems own_obj [OF Cons.prems(1,2)] own_obj [OF Cons.prems(1,3)] by (auto simp: buffer_def own_raw)
  have len: "length bs < 2 ^ 16" using Cons.prems(4) by (simp add: buffer_def)
  show ?case using Cons.prems(1-4)
  proof (cases rule: split_dfe_cases [of s pg g pd st bs pb l])
    case (fail s')
    have "us_heap s' pg = Some (SegObj g)" using own Cons.prems by (intro eff_obj [OF fail(2)]) simp_all
    moreover have "eff {pg, pd, pb} {pg} [] s s'"
      using eff_widen [OF fail(2), of "{pg}"] own by (simp add: insert_commute)
    moreover have "cut_result False fi st (l # ls) bs s s' []"
      using fail(3) by (auto simp: cut_result_def spare_def)
    moreover have "RlcDecodeAndEnqueueAMSegment (l # ls) s pg pd fi = Some (False, s')" using fail(1) by simp
    ultimately show ?thesis by (intro exI [of _ False] exI [of _ s'] exI [of _ "[]"]) simp
  next
    case (split nx nb s1)
    let ?g = "g\<lparr>sg_dfeQ := sg_dfeQ g @ [pd]\<rparr>"
    have nx: "us_heap s1 nx = Some (dfe_obj AM_PDU_MAP_SDU_FULL (length (drop (unat l) bs)) nb)" using split(10) by simp
    from Cons.IH [OF effD(1) [OF split(4)] split(8) nx split(11) disjI1 [OF refl]]
    obtain r s' xs where ih: "RlcDecodeAndEnqueueAMSegment ls s1 pg nx fi = Some (r, s')"
      "us_heap s' pg = Some (SegObj (?g\<lparr>sg_dfeQ := sg_dfeQ ?g @ map fst xs\<rparr>))" "dfes s' xs" "pg \<notin> dfe_blocks xs"
      "eff {pg, nx, nb} (insert pg (dfe_blocks xs)) [] s1 s'"
      "cut_result r fi AM_PDU_MAP_SDU_FULL ls (drop (unat l) bs) s1 s' xs"
      by blast
    have ne: "nx \<notin> {pg, pd, pb}" "nb \<notin> {pg, pd, pb}" using split(5,6) own by auto
    have c1: "carries s1 pb (take (unat l) bs)"
      using own by (intro eff_carries [OF split(4)] buffer_carries [where cs = "drop (unat l) bs"]) (simp_all add: Cons.prems(4))
    let ?x = "(pd, pb, st, take (unat l) bs)"
    have "dfe_at s1 pd pb st (take (unat l) bs)"
      using split(3,9) c1 Cons.prems(5) by (auto simp: dfe_at_iff min_absorb2)
    then have x': "dfe_at s' pd pb st (take (unat l) bs)"
      using ne own by (intro dfe_at_eff [OF ih(5) effD(1) [OF split(4)]]) auto
    have in1: "{pd, pb} \<subseteq> own s1 - {pg, nx, nb}" using effD(2) [OF split(4)] ne own by auto
    then have dx: "{pd, pb} \<inter> dfe_blocks xs = {}" using effD(3) [OF ih(5)] by auto
    then have "dfes s' (?x # xs)" using x' ih(3) by (auto simp: dfe_blocks_def)
    moreover have "eff {pg, pd, pb} (insert pg (dfe_blocks (?x # xs))) [] s s'"
    proof -
      have f1: "eff {pg, pd, pb} {pg, pd, nx, nb, pb} [] s s1"
        using eff_widen [OF split(4), of "{pb}"] own by (simp add: insert_commute)
      show ?thesis using ne split(7) own by (intro eff_comp [OF f1 ih(5)]) auto
    qed
    moreover have "cut_result r fi st (l # ls) bs s s' (?x # xs)"
    proof -
      have "spare n s' \<and> r" if "lens_sum (l # ls) \<le> length bs" "spare (n + 2 * length (l # ls)) s" for n
        using that ih(6) split(12) [of "n + 2 * length ls"] by (auto simp: cut_result_def)
      moreover have "lens_sum (l # ls) \<le> length bs" if r
        using ih(6) that split(3) by (auto simp: cut_result_def)
      moreover have "dfe_data (?x # xs) = mark fi st (cut_at (l # ls) bs)" if r
        using ih(6) that by (simp add: cut_result_def mark_Cons)
      ultimately show ?thesis unfolding cut_result_def by blast
    qed
    moreover have "RlcDecodeAndEnqueueAMSegment (l # ls) s pg pd fi = Some (r, s')" using split(1,2) ih(1) by simp
    moreover have "us_heap s' pg = Some (SegObj (g\<lparr>sg_dfeQ := sg_dfeQ g @ map fst (?x # xs)\<rparr>))" using ih(2) by simp
    moreover have "pg \<notin> dfe_blocks (?x # xs)" using ih(4) own by auto
    moreover have "mp_nodes (us_mem s') pb = mp_nodes (us_mem s) pb"
      using effD(4) [OF split(4)] effD(4) [OF ih(5)] own in1 by (simp add: mem_kept_def)
    then have "r \<longrightarrow> (\<exists>d ys. ?x # xs = (pd, pb, d) # ys) \<and> mp_nodes (us_mem s') pb = mp_nodes (us_mem s) pb" by blast
    ultimately show ?thesis by (intro exI [of _ r] exI [of _ s'] exI [of _ "?x # xs"] conjI)
  qed
qed

section \<open>Everything is released\<close>

lemma delete_dfes_run:
  assumes "rrc_ok s" "dfes s xs"
  shows "\<exists>s'. delete_dfes (map fst xs) s = Some s' \<and> eff (dfe_blocks xs) {} [] s s'"
  using assms
proof (induction xs arbitrary: s)
  case Nil
  then show ?case using eff_refl by auto
next
  case (Cons x xs)
  obtain pd pb st bs where x: "x = (pd, pb, st, bs)" by (cases x)
  have d: "us_heap s pd = Some (dfe_obj st (length bs) pb)" "dfes s xs" and pb: "pb \<in> raw s"
    using Cons.prems(2) x by (auto simp: dfe_at_iff elim: carriesE)
  have own: "pb \<in> own s" "pd \<in> own s" "pb \<noteq> pd"
    using pb d(1) own_obj [OF Cons.prems(1) d(1)] by (auto simp: own_raw)
  have nn: "pb \<noteq> NULL" by (rule own_nonnull [OF Cons.prems(1) own(1)])
  obtain s1 s2 where s2: "us_free s pb = Some s1" "us_free s1 pd = Some s2" "eff {pd, pb} {} [] s s2"
    by (rule release_dfe [OF Cons.prems(1) own])
  have disj: "dfe_blocks xs \<inter> {pd, pb} = {}"
    using Cons.prems(2) dfes_own(3) [OF Cons.prems] unfolding x by (auto simp: dfe_blocks_def)
  have "dfes s2 xs" by (rule dfes_eff [OF s2(3) Cons.prems(1) d(2) disj])
  from Cons.IH [OF effD(1) [OF s2(3)] this] obtain s3 where s3: "delete_dfes (map fst xs) s2 = Some s3"
    "eff (dfe_blocks xs) {} [] s2 s3" by blast
  have "eff (dfe_blocks (x # xs)) {} [] s s3" unfolding x by (rule eff_comp [OF s2(3) s3(2)]) auto
  then show ?case using s2(1,2) s3(1) nn by (auto simp: x get_dfe [OF d(1)])
qed

lemma delete_segment_run:
  assumes ok: "rrc_ok s" and g: "us_heap s pg = Some (SegObj g)" "sg_dfeQ g = map fst xs" and d: "dfes s xs"
  obtains s' where "RlcDeleteAmdPduSegment s pg = Some s'" "eff (insert pg (dfe_blocks xs)) {} [] s s'"
proof -
  obtain s1 where s1: "delete_dfes (map fst xs) s = Some s1" "eff (dfe_blocks xs) {} [] s s1"
    using delete_dfes_run [OF ok d] by blast
  have pg: "pg \<in> own s" "pg \<notin> dfe_blocks xs" "pg \<noteq> NULL"
    using own_obj [OF ok g(1)] dfes_own(2) [OF ok d, of pg] g(1) own_nonnull [OF ok, of pg] by auto
  then have "pg \<in> own s1" using effD(2) [OF s1(2)] by simp
  then obtain s2 where s2: "us_free s1 pg = Some s2" "eff {pg} {} [] s1 s2" by (rule eff_free [OF effD(1) [OF s1(2)]])
  have "eff (insert pg (dfe_blocks xs)) {} [] s s2" by (rule eff_comp [OF s1(2) s2(2)]) auto
  with s1(1) s2(1) g pg(3) show thesis
    by (intro that [of s2]) (simp_all add: RlcDeleteAmdPduSegment_def get_obj_def the_seg_def)
qed

lemma fail_segment_run:
  assumes ok: "rrc_ok s" and b: "buf \<in> raw s" and g: "us_heap s pg = Some (SegObj g)" "sg_dfeQ g = []"
  obtains s' where "fail_segment s buf pg = Some (False, s')" "eff {buf, pg} {} [] s s'"
proof -
  have ne: "buf \<in> own s" "buf \<noteq> pg" using b g by (auto simp: own_raw)
  obtain s1 where s1: "us_free s buf = Some s1" "eff {buf} {} [] s s1" by (rule eff_free [OF ok ne(1)])
  have "us_heap s1 pg = Some (SegObj g)" using ne(2) by (intro eff_obj [OF s1(2) g(1)] ok) simp_all
  then obtain s2 where s2: "RlcDeleteAmdPduSegment s1 pg = Some s2" "eff {pg} {} [] s1 s2"
    using delete_segment_run [OF effD(1) [OF s1(2)], of pg g "[]"] g(2) by auto
  have "eff {buf, pg} {} [] s s2" by (rule eff_comp [OF s1(2) s2(2)]) auto
  with s1(1) s2(1) show thesis by (intro that [of s2]) (simp_all add: fail_segment_def)
qed

section \<open>A PDU is decoded\<close>

lemma set_len_node:
  "set_len m p l = Some m' \<Longrightarrow> mp_nodes m p = Some n \<Longrightarrow> \<exists>n'. mp_nodes m' p = Some n' \<and> mn_size n' = mn_size n"
  by (auto simp: set_len_def)

lemma mem_move_nodes: "mem_move m d di p si n = Some m' \<Longrightarrow> mp_nodes m' = mp_nodes m"
  by (auto simp: mem_move_def blk_store_def bind_Some_iff split: if_splits)

lemma remove_node:
  assumes r: "us_remove s p w k = Some s'" and n: "mp_nodes (us_mem s) p = Some n"
  shows "\<exists>n'. mp_nodes (us_mem s') p = Some n' \<and> mn_size n' = mn_size n"
proof -
  have "\<exists>n'. mp_nodes m' p = Some n' \<and> mn_size n' = mn_size n" if r: "MemRemove (us_mem s) p w k = Some (c, m')" for m' c
  proof -
    obtain x where x: "CheckNode (us_mem s) p = Some x" using r by (auto simp: MemRemove_def bind_Some_iff)
    show ?thesis
    proof (cases x)
      case None
      then show ?thesis using r x n by (simp add: MemRemove_def)
    next
      case (Some y)
      consider "m' = us_mem s" | l where "set_len (us_mem s) p l = Some m'"
        | l t a b j where "mem_move (us_mem s) p a p b j = Some t" "set_len t p l = Some m'"
        using r x Some by (auto simp: MemRemove_def Let_def bind_Some_iff split: if_splits)
      then show ?thesis
      proof cases
        case (3 l t a b j)
        then show ?thesis using n set_len_node [of t p l m' n] mem_move_nodes [OF 3(1)] by simp
      qed (use n set_len_node in auto)
    qed
  qed
  with r show ?thesis by (auto simp: us_remove_def bind_Some_iff)
qed

text \<open>The header is cut off the received buffer.\<close>

lemma cut_header:
  assumes ok: "rrc_ok s" and b: "buffer s buf (amd_pdu pb fi sn lens payload)"
  obtains s' where "us_remove s buf 0 (of_nat ((12 * length lens + 7) div 8 + 2)) = Some s'" "eff {buf} {buf} [] s s'"
    "us_heap s' = us_heap s" "buffer s' buf payload" "\<And>n. spare n s' = spare n s"
    "\<And>n. mp_nodes (us_mem s) buf = Some n \<Longrightarrow> \<exists>n'. mp_nodes (us_mem s') buf = Some n' \<and> mn_size n' = mn_size n"
proof -
  let ?k = "(12 * length lens + 7) div 8 + 2" and ?b = "amd_pdu pb fi sn lens payload"
  have len: "length ?b < 2 ^ 16" using b by (simp add: buffer_def)
  then have k: "unat (of_nat ?k :: u32) = ?k" by (intro unat_of_nat_small) (simp add: amd_pdu_length)
  then have le: "unat (of_nat ?k :: u32) \<le> length ?b" by (simp add: amd_pdu_length)
  obtain s' where s': "us_remove s buf 0 (of_nat ?k) = Some s'" "eff {buf} {buf} [] s s'" "us_heap s' = us_heap s"
    "buffer s' buf (drop ?k ?b)" using eff_cut [OF ok b le] unfolding k by blast
  have "buffer s' buf payload" using s'(4) amd_pdu_drop [of lens pb fi sn payload] by (simp add: add.commute)
  with s'(1-3) show thesis using spare_remove [OF s'(1)] remove_node [OF s'(1)] by (intro that) simp_all
qed

end
