(* ===== verification/Rlc_Packet.thy ===== *)
theory Rlc_Packet
  imports Rlc_Decode
begin

text \<open>
  A received packet of an acknowledged mode bearer, from the decoding of the PDU to the delivery
  of the SDUs: \<open>RlcDecodeAmdPdu\<close> and \<open>RlcProcessAMRxPacket\<close>.
\<close>

section \<open>The PDU\<close>

text \<open>What a decoded PDU looks like; its first element is in the buffer that was received.\<close>

definition pdu_decoded :: "ulp_state \<Rightarrow> ulp_state \<Rightarrow> ptr \<Rightarrow> AmdPdu \<Rightarrow> ptr \<Rightarrow> u8 \<Rightarrow> u16 list \<Rightarrow> u8 list \<Rightarrow> ptr \<Rightarrow>
    (ptr \<times> ptr \<times> RlcSduStatus \<times> u8 list) list \<Rightarrow> bool" where
  "pdu_decoded s s' pp p buf fi lens payload pg xs \<longleftrightarrow>
     us_heap s' pp = Some (PduObj (p\<lparr>pd_segList := [pg]\<rparr>)) \<and>
     (\<exists>g. us_heap s' pg = Some (SegObj g) \<and> sg_dfeQ g = map fst xs) \<and> dfes s' xs \<and>
     dfe_data xs = amd_elements fi lens payload \<and> (\<exists>d ys. xs = (hd (map fst xs), buf, d) # ys) \<and>
     (\<forall>n. mp_nodes (us_mem s) buf = Some n \<longrightarrow> (\<exists>n'. mp_nodes (us_mem s') buf = Some n' \<and>
        mn_size n' = mn_size n \<and> unat (mn_length n') = length payload))"

lemma set_status_run:
  assumes p: "us_heap s pp = Some (PduObj p)" and d: "us_heap s pd = Some (dfe_obj AM_PDU_MAP_SDU_FULL n pb)" and ne: "pp \<noteq> pd"
    and h: "ah_rf h = 0" "ah_fi h < 4"
  shows "RlcSetAmdPduAndDfeStatus s pp h pd = Some (put_obj pd (dfe_obj (only_status (ah_fi h)) n pb) s)"
proof -
  have same: "put_obj pp (PduObj p) s = s" by (rule put_obj_same [OF p])
  have gp: "get_obj the_pdu s pp = Some p" using p by (simp add: get_obj_def the_pdu_def)
  show ?thesis
    using u8_cases4 [OF h(2)] h(1)
    by (elim disjE) (simp_all add: RlcSetAmdPduAndDfeStatus_def gp same get_dfe [OF d] only_status_def dfe_obj_def)
qed

lemma spare_two: "spare 2 s = spare (Suc (Suc 0)) s"
  by (simp add: numeral_2_eq_2)

lemma decode_single:
  assumes ok: "rrc_ok s" and p: "us_heap s pp = Some (PduObj p)" "pd_segList p = []"
    and b: "buffer s buf (amd_pdu pb fi sn [] payload)" and f: "amd_fields pb fi sn []"
    and i: "rd_buffer i = buf" "rd_length i = of_nat (length (amd_pdu pb fi sn [] payload))"
    and h: "h = decoded pb fi sn [] h0"
  shows "(\<exists>s'. RlcDecodeAmdPdu s pp h i = Some (False, s') \<and> eff {buf} {} [] s s' \<and> \<not> spare 2 s) \<or>
    (\<exists>s' pg xs. RlcDecodeAmdPdu s pp h i = Some (True, s') \<and> pdu_decoded s s' pp p buf fi [] payload pg xs \<and>
       eff {pp, buf} (insert pp (insert pg (dfe_blocks xs))) [] s s' \<and> pg \<noteq> pp \<and>
       (\<forall>n. spare (n + 2) s \<longrightarrow> spare n s'))"
proof -
  let ?b = "amd_pdu pb fi sn [] payload"
  have len: "length ?b < 2 ^ 16" "length ?b = length payload + 2" using b by (simp_all add: buffer_def amd_pdu_length)
  have sz: "rd_length i - 2 = of_nat (length payload)" by (simp add: i(2) len(2))
  have hh: "ah_e h = 0" "ah_rf h = 0" "ah_fi h = fi" "fi < 4" using f by (simp_all add: h decoded_def amd_fields_def)
  have own: "buf \<in> raw s" "buf \<in> own s" "pp \<in> own s" "buf \<noteq> pp" and hb: "us_heap s buf = None"
    using b own_obj [OF ok p(1)] p(1) by (auto simp: buffer_def own_raw)
  let ?g = "\<lparr>sg_soStart = 0, sg_soEnd = 0xFFFF, sg_dfeQ = [], sg_lsf = 0\<rparr>"
  have gp: "get_obj the_pdu s pp = Some p" using p by (simp add: get_obj_def the_pdu_def)
  note run = RlcDecodeAmdPdu_def Let_def gp
  have ns: "\<not> is_rrc (SegObj ?g)" by simp
  from ok ns show ?thesis
  proof (cases rule: eff_new [of s "SegObj ?g" sizeof_AmdPduSegment])
    case none
    obtain s1 where s1: "us_free s buf = Some s1" "eff {buf} {} [] s s1" by (rule eff_free [OF ok own(2)])
    have "\<not> spare 2 s" using new_spare(1) [OF ok none, of "Suc 0"] by (auto simp: spare_two)
    with s1 none p(2) show ?thesis by (auto simp: run i(1))
  next
    case (block pg s1)
    have ok1: "rrc_ok s1" by (rule effD(1) [OF block(3)])
    have ne: "pg \<noteq> buf" "pg \<noteq> pp" "pg \<noteq> NULL" using block(2,4) own by auto
    have pg1: "us_heap s1 pg = Some (SegObj ?g)" by (simp add: block(5))
    have b1: "buffer s1 buf ?b" by (rule eff_buffer [OF block(3) b]) simp
    let ?d = "dfe_obj AM_PDU_MAP_SDU_FULL (length payload) buf"
    have dd: "DfeObj \<lparr>df_status = AM_PDU_MAP_SDU_FULL, df_buffer = \<lparr>rb_size = of_nat (length payload), rb_pData = buf\<rparr>\<rparr> = ?d"
      by (simp add: dfe_obj_def)
    have nd: "\<not> is_rrc ?d" by simp
    from ok1 nd show ?thesis
    proof (cases rule: eff_new [of s1 ?d sizeof_AmdDFE])
      case none
      have "\<not> spare (Suc 0) s1" using new_spare(1) [OF ok1 none, of 0] by auto
      then have ns2: "\<not> spare 2 s" using new_spare(2) [OF ok block(1), of "Suc 0"] by (auto simp: spare_two)
      obtain s2 where s2: "fail_segment s1 buf pg = Some (False, s2)" "eff {buf, pg} {} [] s1 s2"
        using fail_segment_run [OF ok1 _ pg1] b1 by (auto simp: buffer_def)
      have "eff {buf} {} [] s s2" using block(4) by (intro eff_comp [OF block(3) s2(2)]) auto
      with s2(1) ns2 block(1,2) none p(2) show ?thesis by (simp add: run i(1) hh sz dd)
    next
      case b2: (block pd s2)
      have ok2: "rrc_ok s2" by (rule effD(1) [OF b2(3)])
      have pd: "pd \<notin> own s" "pd \<noteq> pg" "pd \<noteq> buf" "pd \<noteq> pp" "pd \<noteq> NULL"
        using b2(2,4) own effD(2) [OF block(3)] by auto
      have f2: "eff {} {pg, pd} [] s s2" using pd by (intro eff_comp [OF block(3) b2(3)]) auto
      have b2': "buffer s2 buf ?b" by (rule eff_buffer [OF f2 b]) simp
      obtain s3 where s3: "us_remove s2 buf 0 2 = Some s3" "eff {buf} {buf} [] s2 s3" "us_heap s3 = us_heap s2"
        "buffer s3 buf payload" "\<And>n. spare n s3 = spare n s2"
        "\<And>n. mp_nodes (us_mem s2) buf = Some n \<Longrightarrow> \<exists>n'. mp_nodes (us_mem s3) buf = Some n' \<and> mn_size n' = mn_size n"
        using cut_header [OF ok2 b2'] by auto
      have h3: "us_heap s3 = (us_heap s)(pg \<mapsto> SegObj ?g, pd \<mapsto> ?d)" by (simp add: s3(3) b2(5) block(5))
      have p3: "us_heap s3 pp = Some (PduObj p)" "us_heap s3 pd = Some ?d" using p(1) pd ne by (simp_all add: h3)
      let ?s4 = "put_obj pd (dfe_obj (only_status fi) (length payload) buf) s3"
      have r4: "RlcSetAmdPduAndDfeStatus s3 pp h pd = Some ?s4"
        using set_status_run [OF p3 pd(4) [symmetric]] hh by simp
      have pg4: "us_heap ?s4 pg = Some (SegObj ?g)" using pd by (simp add: h3)
      let ?s5 = "put_obj pg (SegObj (?g\<lparr>sg_dfeQ := [pd]\<rparr>)) ?s4"
      have r5: "push_dfe ?s4 pg pd = Some ?s5" using push_dfe_run [OF pg4, of pd] by simp
      let ?s6 = "put_obj pp (PduObj (p\<lparr>pd_segList := [pg]\<rparr>)) ?s5"
      have p5: "us_heap ?s5 pp = Some (PduObj p)" using p3(1) ne pd by simp
      have f3: "eff {buf} {pg, pd, buf} [] s s3" using pd ne by (intro eff_comp [OF f2 s3(2)]) auto
      have f4: "eff {buf} {pg, pd, buf} [] s ?s4"
        by (rule eff_comp [OF f3 eff_put [OF effD(1) [OF s3(2)] p3(2)]]) (use pd ne in auto)
      have f5: "eff {buf} {pg, pd, buf} [] s ?s5"
        by (rule eff_comp [OF f4 eff_put [OF effD(1) [OF f4] pg4]]) (use pd ne in auto)
      have f6: "eff {pp, buf} {pp, pg, pd, buf} [] s ?s6"
        by (rule eff_comp [OF f5 eff_put [OF effD(1) [OF f5] p5]]) (use pd ne own in auto)
      let ?xs = "[(pd, buf, only_status fi, payload)]"
      have b6: "buffer ?s6 buf payload"
        using s3(4) pd ne own by (simp add: buffer_def raw_def block_bytes_def put_obj_def)
      obtain n0 where n0: "mp_nodes (us_mem s) buf = Some n0" using b by (auto simp: buffer_def)
      have "mp_nodes (us_mem s2) buf = Some n0" using effD(4) [OF f2] own n0 by (simp add: mem_kept_def)
      then obtain n3 where n3: "mp_nodes (us_mem s3) buf = Some n3" "mn_size n3 = mn_size n0" "unat (mn_length n3) = length payload"
        using s3(4,6) by (auto simp: buffer_def)
      have "pdu_decoded s ?s6 pp p buf fi [] payload pg ?xs"
        unfolding pdu_decoded_def
      proof (intro conjI)
        show "dfes ?s6 ?xs" using b6 pd ne by (simp add: dfe_at_iff buffer_carries0)
        show "\<exists>g. us_heap ?s6 pg = Some (SegObj g) \<and> sg_dfeQ g = map fst ?xs" using ne by simp
      qed (use n0 n3 in \<open>simp_all add: amd_elements_def\<close>)
      moreover have "RlcDecodeAmdPdu s pp h i = Some (True, ?s6)"
        using block(1) b2(1) s3(1) r4 r5 p5 ne pd p(2)
        by (simp add: run i(1) hh sz dd) (simp add: get_obj_def the_pdu_def)
      moreover have "spare n ?s6" if "spare (n + 2) s" for n
        using that new_spare(2) [OF ok block(1), of "Suc n"] new_spare(2) [OF ok1 b2(1), of n] s3(5) by simp
      ultimately show ?thesis using f6 ne(2) by (intro disjI2 exI [of _ ?s6] exI [of _ pg] exI [of _ ?xs]) simp
    qed
  qed
qed

lemma decode_concatenated:
  assumes ok: "rrc_ok s" and p: "us_heap s pp = Some (PduObj p)" "pd_segList p = []" and lens: "lens \<noteq> []"
    and b: "buffer s buf (amd_pdu pb fi sn lens payload)" and f: "amd_fields pb fi sn lens"
    and i: "rd_buffer i = buf" "rd_length i = of_nat (length (amd_pdu pb fi sn lens payload))"
    and h: "h = decoded pb fi sn lens h0"
  shows "(\<exists>s'. RlcDecodeAmdPdu s pp h i = Some (False, s') \<and> eff {buf} {} [] s s' \<and>
      \<not> (lens_sum lens \<le> length payload \<and> spare (2 + 2 * length lens) s)) \<or>
    (\<exists>s' pg xs. RlcDecodeAmdPdu s pp h i = Some (True, s') \<and> pdu_decoded s s' pp p buf fi lens payload pg xs \<and>
       eff {pp, buf} (insert pp (insert pg (dfe_blocks xs))) [] s s' \<and> pg \<noteq> pp \<and> pp \<notin> dfe_blocks xs \<and>
       lens_sum lens \<le> length payload \<and> (\<forall>n. spare (n + 2 + 2 * length lens) s \<longrightarrow> spare n s'))"
proof -
  let ?b = "amd_pdu pb fi sn lens payload" and ?k = "(12 * length lens + 7) div 8 + 2"
  have len: "length ?b < 2 ^ 16" "length ?b = length payload + ?k" using b by (simp_all add: buffer_def amd_pdu_length)
  have sz: "rd_length i - of_nat ?k = of_nat (length payload)" unfolding i(2) len(2) by simp
  have hh: "ah_e h \<noteq> 0" "ah_fi h = fi" using lens by (simp_all add: h decoded_def)
  have own: "buf \<in> raw s" "buf \<in> own s" "pp \<in> own s" "buf \<noteq> pp" and hb: "us_heap s buf = None"
    using b own_obj [OF ok p(1)] p(1) by (auto simp: buffer_def own_raw)
  let ?g = "\<lparr>sg_soStart = 0, sg_soEnd = 0xFFFF, sg_dfeQ = [], sg_lsf = 0\<rparr>"
  have gp: "get_obj the_pdu s pp = Some p" using p by (simp add: get_obj_def the_pdu_def)
  note run = RlcDecodeAmdPdu_def Let_def gp
  have nn: "(of_nat (length lens) + 1 :: u32) \<noteq> 0"
  proof
    assume a: "(of_nat (length lens) + 1 :: u32) = 0"
    have "unat (of_nat (length lens + 1) :: u32) = length lens + 1"
      using f by (intro unat_of_nat_small) (simp add: amd_fields_def)
    with a show False by (simp add: add.commute)
  qed
  have ns: "\<not> is_rrc (SegObj ?g)" by simp
  from ok ns show ?thesis
  proof (cases rule: eff_new [of s "SegObj ?g" sizeof_AmdPduSegment])
    case none
    obtain s1 where s1: "us_free s buf = Some s1" "eff {buf} {} [] s s1" by (rule eff_free [OF ok own(2)])
    have "\<not> spare (Suc (Suc (2 * length lens))) s" using new_spare(1) [OF ok none] by auto
    with s1 none p(2) show ?thesis by (auto simp: run i(1))
  next
    case (block pg s1)
    have ok1: "rrc_ok s1" by (rule effD(1) [OF block(3)])
    have ne: "pg \<noteq> buf" "pg \<noteq> pp" "pg \<noteq> NULL" using block(2,4) own by auto
    have pg1: "us_heap s1 pg = Some (SegObj ?g)" by (simp add: block(5))
    have b1: "buffer s1 buf ?b" by (rule eff_buffer [OF block(3) b]) simp
    have info: "RlcGetConcatenationHeaderInfo s1 i = Some (of_nat (length lens) + 1, \<lparr>ch_hdrSize = of_nat ?k, ch_dfeLength = lens\<rparr>)"
      using concatenation_decode [OF _ f lens ok1] b1 i(1) by simp
    let ?d = "dfe_obj (first_status fi) (length payload) buf"
    have dd: "DfeObj \<lparr>df_status = (if fi AND 2 \<noteq> 0 then AM_PDU_MAP_SDU_END else AM_PDU_MAP_SDU_FULL),
        df_buffer = \<lparr>rb_size = of_nat (length payload), rb_pData = buf\<rparr>\<rparr> = ?d"
      by (simp add: dfe_obj_def first_status_def)
    have nd: "\<not> is_rrc ?d" by simp
    note run2 = run i(1) hh info sz dd block(1) bind.bind_lunit prod.case
    from ok1 nd show ?thesis
    proof (cases rule: eff_new [of s1 ?d sizeof_AmdDFE])
      case none
      have "\<not> spare (Suc (2 * length lens)) s1" using new_spare(1) [OF ok1 none] by auto
      then have ns2: "\<not> spare (2 + 2 * length lens) s"
        using new_spare(2) [OF ok block(1), of "Suc (2 * length lens)"] by auto
      obtain s2 where s2: "fail_segment s1 buf pg = Some (False, s2)" "eff {buf, pg} {} [] s1 s2"
        using fail_segment_run [OF ok1 _ pg1] b1 by (auto simp: buffer_def)
      have "eff {buf} {} [] s s2" using block(4) by (intro eff_comp [OF block(3) s2(2)]) auto
      moreover have "RlcDecodeAmdPdu s pp h i = Some (False, s2)"
        unfolding run2 using s2(1) block(2) none p(2) hh(1) nn by (simp only: RlcConcatenatePduHeader.simps dd sz) simp
      ultimately show ?thesis using ns2 by blast
    next
      case b2: (block pd s2)
      have ok2: "rrc_ok s2" by (rule effD(1) [OF b2(3)])
      have pd: "pd \<notin> own s" "pd \<noteq> pg" "pd \<noteq> buf" "pd \<noteq> pp" "pd \<noteq> NULL"
        using b2(2,4) own effD(2) [OF block(3)] by auto
      have f2: "eff {} {pg, pd} [] s s2" using pd by (intro eff_comp [OF block(3) b2(3)]) auto
      have b2': "buffer s2 buf ?b" by (rule eff_buffer [OF f2 b]) simp
      obtain s3 where s3: "us_remove s2 buf 0 (of_nat ?k) = Some s3" "eff {buf} {buf} [] s2 s3" "us_heap s3 = us_heap s2"
        "buffer s3 buf payload" "\<And>n. spare n s3 = spare n s2"
        "\<And>n. mp_nodes (us_mem s2) buf = Some n \<Longrightarrow> \<exists>n'. mp_nodes (us_mem s3) buf = Some n' \<and> mn_size n' = mn_size n"
        by (rule cut_header [OF ok2 b2']) blast
      have h3: "us_heap s3 = (us_heap s)(pg \<mapsto> SegObj ?g, pd \<mapsto> ?d)" by (simp add: s3(3) b2(5) block(5))
      have p3: "us_heap s3 pg = Some (SegObj ?g)" "us_heap s3 pd = Some ?d" using pd by (simp_all add: h3)
      have f3: "eff {buf} {pg, pd, buf} [] s s3" using pd ne by (intro eff_comp [OF f2 s3(2)]) auto
      have st: "first_status fi = AM_PDU_MAP_SDU_FULL \<or> first_status fi = AM_PDU_MAP_SDU_END" by (simp add: first_status_def)
      obtain r s4 xs where q: "RlcDecodeAndEnqueueAMSegment lens s3 pg pd fi = Some (r, s4)"
        "us_heap s4 pg = Some (SegObj (?g\<lparr>sg_dfeQ := sg_dfeQ ?g @ map fst xs\<rparr>))" "dfes s4 xs" "pg \<notin> dfe_blocks xs"
        "eff {pg, pd, buf} (insert pg (dfe_blocks xs)) [] s3 s4" "cut_result r fi (first_status fi) lens payload s3 s4 xs"
        "r \<longrightarrow> (\<exists>d ys. xs = (pd, buf, d) # ys) \<and> mp_nodes (us_mem s4) buf = mp_nodes (us_mem s3) buf"
        using enqueue_all [OF effD(1) [OF s3(2)] p3 s3(4) st, of lens fi] by blast
      have f4: "eff {buf} (insert pg (dfe_blocks xs)) [] s s4"
        using block(4) pd ne by (intro eff_comp [OF f3 q(5)]) auto
      have run4: "RlcDecodeAmdPdu s pp h i = (if r then do {
          p \<leftarrow> get_obj the_pdu s4 pp;
          Some (True, put_obj pp (PduObj (p\<lparr>pd_segList := pd_segList p @ [pg]\<rparr>)) s4)
        } else do { s \<leftarrow> RlcDeleteAmdPduSegment s4 pg; Some (False, s) })"
        unfolding run2 using b2(1) s3(1) q(1) block(2) b2(2) p(2) hh(1) nn
        by (cases "RlcDeleteAmdPduSegment s4 pg"; simp only: RlcConcatenatePduHeader.simps dd sz) simp_all
      show ?thesis
      proof (cases r)
        case False
        have ok4: "rrc_ok s4" by (rule effD(1) [OF q(5)])
        obtain s5 where s5: "RlcDeleteAmdPduSegment s4 pg = Some s5" "eff (insert pg (dfe_blocks xs)) {} [] s4 s5"
          by (rule delete_segment_run [OF ok4 q(2) _ q(3)]) simp
        have "eff {buf} {} [] s s5" by (rule eff_comp [OF f4 s5(2)]) (use effD(3) [OF f4] in auto)
        moreover have "\<not> (lens_sum lens \<le> length payload \<and> spare (2 + 2 * length lens) s)"
          using False q(6) s3(5) new_spare(2) [OF ok block(1), of "Suc (2 * length lens)"]
            new_spare(2) [OF ok1 b2(1), of "2 * length lens"] by (auto simp: cut_result_def dest: spec [of _ 0])
        ultimately show ?thesis using s5(1) run4 False by auto
      next
        case True
        have pp4: "pp \<in> own s4" "us_heap s4 pp = Some (PduObj p)" "pp \<notin> dfe_blocks xs"
          using effD(2,3) [OF f4] effD(5) [OF f4, of pp] own p(1) by auto
        let ?s5 = "put_obj pp (PduObj (p\<lparr>pd_segList := [pg]\<rparr>)) s4"
        have f45: "eff {pp} {pp} [] s4 ?s5" by (rule eff_put [OF effD(1) [OF f4] pp4(2)]) simp_all
        have f5: "eff {pp, buf} (insert pp (insert pg (dfe_blocks xs))) [] s ?s5"
          by (rule eff_comp [OF f4 f45]) (use pp4 ne own in auto)
        have d5: "dfes ?s5 xs" by (rule dfes_eff [OF f45 effD(1) [OF f4] q(3)]) (use pp4 in simp)
        have cr: "dfe_data xs = mark fi (first_status fi) (cut_at lens payload)" "lens_sum lens \<le> length payload"
          using q(6) True by (simp_all add: cut_result_def)
        have sp: "spare n ?s5" if "spare (n + 2 + 2 * length lens) s" for n
          using that cr(2) q(6) s3(5) new_spare(2) [OF ok block(1), of "Suc (n + 2 * length lens)"]
            new_spare(2) [OF ok1 b2(1), of "n + 2 * length lens"] by (auto simp: cut_result_def)
        obtain n0 where n0: "mp_nodes (us_mem s) buf = Some n0" using b by (auto simp: buffer_def)
        have "mp_nodes (us_mem s2) buf = Some n0" using effD(4) [OF f2] own n0 by (simp add: mem_kept_def)
        then obtain n3 where n3: "mp_nodes (us_mem s4) buf = Some n3" "mn_size n3 = mn_size n0" "unat (mn_length n3) = length payload"
          using s3(4,6) q(7) True by (auto simp: buffer_def)
        have "pdu_decoded s ?s5 pp p buf fi lens payload pg xs"
          unfolding pdu_decoded_def
        proof (intro conjI)
          show "\<exists>g. us_heap ?s5 pg = Some (SegObj g) \<and> sg_dfeQ g = map fst xs" using ne q(2) by simp
          show "\<exists>d ys. xs = (hd (map fst xs), buf, d) # ys" using q(7) True by auto
        qed (use d5 cr n0 n3 lens in \<open>simp_all add: amd_elements_def\<close>)
        moreover have "RlcDecodeAmdPdu s pp h i = Some (True, ?s5)"
          using run4 True pp4(2) p(2) by (simp add: get_obj_def the_pdu_def)
        ultimately show ?thesis using f5 ne(2) pp4(3) cr(2) sp
          by (intro disjI2 exI [of _ ?s5] exI [of _ pg] exI [of _ xs]) simp
      qed
    qed
  qed
qed

end
