(* ===== verification/Rlc_Tables.thy ===== *)
theory Rlc_Tables
  imports Rlc_Packet
begin

text \<open>
  The contexts and receivers of the RLC between two packets: each receiver has an empty ring
  and at most one partial SDU in a buffer of its own.
\<close>

section \<open>The invariant\<close>

definition rlc_rnti :: "ulp_state \<Rightarrow> ptr \<Rightarrow> u16" where
  "rlc_rnti s p = (case get_obj the_rlc s p of Some c \<Rightarrow> rl_rnti c | None \<Rightarrow> 0)"

definition rlc_tbl :: "ulp_state \<Rightarrow> (ptr \<times> u16) list" where
  "rlc_tbl s = map (\<lambda>p. (p, rlc_rnti s p)) (gRlcUeContextList s)"

definition slots :: "ulp_state \<Rightarrow> ptr \<Rightarrow> ptr list" where
  "slots s p = (case get_obj the_rlc s p of Some c \<Rightarrow> filter (\<lambda>pe. pe \<noteq> NULL) (map (rl_rxAMEntityArray c) [0..<MAX_LC_ID]) | None \<Rightarrow> [])"

definition receivers :: "ulp_state \<Rightarrow> ptr set" where
  "receivers s = (\<Union>p\<in>set (gRlcUeContextList s). set (slots s p))"

definition partial_of :: "ulp_state \<Rightarrow> ptr \<Rightarrow> ptr set" where
  "partial_of s pe = (case get_obj the_am s pe of Some e \<Rightarrow> partial_blocks e | None \<Rightarrow> {})"

definition rlc_blocks :: "ulp_state \<Rightarrow> ptr set" where
  "rlc_blocks s = set (gRlcUeContextList s) \<union> receivers s \<union> (\<Union>pe\<in>receivers s. partial_of s pe)"

definition rx_value :: "ulp_state \<Rightarrow> RxAMEntity \<Rightarrow> rx_state" where
  "rx_value s e = (let r = am_rxRawSdu e; b = rs_rawSdu r in
     (if rb_pData b = NULL then None else Some (rs_sn r, block_bytes s (rb_pData b) (unat (rb_size b))),
      grants (am_ulRptInfoList e)))"

definition free_ring :: "RxAMEntity \<Rightarrow> bool" where
  "free_ring e \<longleftrightarrow> (\<forall>i. am_ring e i = \<lparr>rn_status = RS_FREE, rn_data = NULL\<rparr>)"

definition receiver_ok :: "ulp_state \<Rightarrow> u16 \<Rightarrow> nat \<Rightarrow> ptr \<Rightarrow> bool" where
  "receiver_ok s rnti k pe \<longleftrightarrow> (\<exists>e. rx_at s pe e (rx_value s e) \<and> am_rnti e = rnti \<and> am_lcId e = of_nat k \<and> free_ring e)"

definition rlc_ok :: "ulp_state \<Rightarrow> bool" where
  "rlc_ok s \<longleftrightarrow> rrc_ok s \<and> distinct (gRlcUeContextList s) \<and> distinct (map snd (rlc_tbl s)) \<and>
     (\<forall>p\<in>set (gRlcUeContextList s). \<exists>c. us_heap s p = Some (RlcObj c) \<and> rl_deleteFlag c = 0 \<and>
        (\<forall>k<MAX_LC_ID. rl_rxAMEntityArray c k \<noteq> NULL \<longrightarrow> receiver_ok s (rl_rnti c) k (rl_rxAMEntityArray c k))) \<and>
     (\<forall>pe\<in>receivers s. \<forall>qe\<in>receivers s. pe \<noteq> qe \<longrightarrow> partial_of s pe \<inter> partial_of s qe = {})"

text \<open>The state of the receiver of a bearer, if there is one.\<close>

definition receiver_ptr :: "ulp_state \<Rightarrow> u16 \<Rightarrow> nat \<Rightarrow> ptr" where
  "receiver_ptr s rnti k = (case get_obj the_rlc s (lookup_rnti (rlc_tbl s) rnti) of
     Some c \<Rightarrow> rl_rxAMEntityArray c k | None \<Rightarrow> NULL)"

definition rx_of :: "ulp_state \<Rightarrow> u16 \<Rightarrow> nat \<Rightarrow> rx_state" where
  "rx_of s rnti k = (case get_obj the_am s (receiver_ptr s rnti k) of
     Some e \<Rightarrow> rx_value s e | None \<Rightarrow> (None, []))"

definition partial_ptr :: "ulp_state \<Rightarrow> u16 \<Rightarrow> nat \<Rightarrow> ptr" where
  "partial_ptr s rnti k = (case get_obj the_am s (receiver_ptr s rnti k) of
     Some e \<Rightarrow> rb_pData (rs_rawSdu (am_rxRawSdu e)) | None \<Rightarrow> NULL)"

lemma rx_value_at:
  assumes ok: "rrc_ok s" and rx: "rx_at s pe e r"
  shows "rx_value s e = r"
proof -
  obtain w gs where r: "r = (w, gs)" by (cases r)
  show ?thesis
  proof (cases w)
    case None
    then show ?thesis using rx r by (simp add: rx_at_def rx_value_def)
  next
    case (Some x)
    then obtain n bs where x: "w = Some (n, bs)" by (cases x) auto
    then have rx': "rx_at s pe e (Some (n, bs), gs)" using rx r by simp
    then have b: "buffer s (rb_pData (rs_rawSdu (am_rxRawSdu e))) bs" and sz: "rb_size (rs_rawSdu (am_rxRawSdu e)) = of_nat (length bs)"
      and sn: "rs_sn (am_rxRawSdu e) = n" "grants (am_ulRptInfoList e) = gs"
      by (simp_all add: rx_at_def)
    have "unat (of_nat (length bs) :: u32) = length bs" using b by (intro unat_of_nat_small) (simp add: buffer_def)
    then show ?thesis using rx_partial(2) [OF ok rx'] b sz sn r x by (simp add: rx_value_def Let_def buffer_def)
  qed
qed

lemma get_am [simp]: "us_heap s pe = Some (AmObj e) \<Longrightarrow> get_obj the_am s pe = Some e"
  by (simp add: get_obj_def the_am_def)

lemma get_rlc [simp]: "us_heap s p = Some (RlcObj c) \<Longrightarrow> get_obj the_rlc s p = Some c"
  by (simp add: get_obj_def the_rlc_def)

lemma rlc_okD:
  assumes "rlc_ok s"
  shows "rrc_ok s" "distinct (gRlcUeContextList s)" "distinct (map snd (rlc_tbl s))"
    "pe \<in> receivers s \<Longrightarrow> qe \<in> receivers s \<Longrightarrow> pe \<noteq> qe \<Longrightarrow> partial_of s pe \<inter> partial_of s qe = {}"
  using assms by (simp_all add: rlc_ok_def)

lemma rlc_ctx:
  assumes "rlc_ok s" "p \<in> set (gRlcUeContextList s)"
  obtains c where "us_heap s p = Some (RlcObj c)" "rl_deleteFlag c = 0" "rlc_rnti s p = rl_rnti c"
    "\<And>k. k < MAX_LC_ID \<Longrightarrow> rl_rxAMEntityArray c k \<noteq> NULL \<Longrightarrow> receiver_ok s (rl_rnti c) k (rl_rxAMEntityArray c k)"
  using assms that by (auto simp: rlc_ok_def rlc_rnti_def)

lemma slots_iff:
  assumes "us_heap s p = Some (RlcObj c)"
  shows "pe \<in> set (slots s p) \<longleftrightarrow> pe \<noteq> NULL \<and> (\<exists>k<MAX_LC_ID. rl_rxAMEntityArray c k = pe)"
  using assms by (auto simp: slots_def)

lemma slot_receiver:
  "p \<in> set (gRlcUeContextList s) \<Longrightarrow> us_heap s p = Some (RlcObj c) \<Longrightarrow> k < MAX_LC_ID \<Longrightarrow>
    rl_rxAMEntityArray c k \<noteq> NULL \<Longrightarrow> rl_rxAMEntityArray c k \<in> receivers s"
  unfolding receivers_def by (rule UN_I [of p]) (auto simp: slots_iff)

lemma receiverE:
  assumes ok: "rlc_ok s" and pe: "pe \<in> receivers s"
  obtains p c k e where "p \<in> set (gRlcUeContextList s)" "us_heap s p = Some (RlcObj c)" "k < MAX_LC_ID"
    "rl_rxAMEntityArray c k = pe" "pe \<noteq> NULL" "rx_at s pe e (rx_value s e)" "am_rnti e = rl_rnti c" "am_lcId e = of_nat k"
    "free_ring e" "us_heap s pe = Some (AmObj e)" "partial_of s pe = partial_blocks e"
proof -
  obtain p where p: "p \<in> set (gRlcUeContextList s)" "pe \<in> set (slots s p)" using pe by (auto simp: receivers_def)
  obtain c where c: "us_heap s p = Some (RlcObj c)"
    "\<And>k. k < MAX_LC_ID \<Longrightarrow> rl_rxAMEntityArray c k \<noteq> NULL \<Longrightarrow> receiver_ok s (rl_rnti c) k (rl_rxAMEntityArray c k)"
    by (rule rlc_ctx [OF ok p(1)]) blast
  obtain k where k: "k < MAX_LC_ID" "rl_rxAMEntityArray c k = pe" "pe \<noteq> NULL" using p(2) slots_iff [OF c(1)] by auto
  obtain e where e: "rx_at s pe e (rx_value s e)" "am_rnti e = rl_rnti c" "am_lcId e = of_nat k" "free_ring e"
    using c(2) [OF k(1)] k by (auto simp: receiver_ok_def)
  then have "us_heap s pe = Some (AmObj e)" by (simp add: rx_at_def)
  with p(1) c(1) k e show thesis by (intro that [of p c k e]) (simp_all add: partial_of_def)
qed

lemma small_of_nat: "j < MAX_LC_ID \<Longrightarrow> k < MAX_LC_ID \<Longrightarrow> (of_nat j :: u8) = of_nat k \<longleftrightarrow> j = k"
  using of_nat_word_inj [of j k, where 'a = 8] by simp

lemma rlc_tbl_inj:
  assumes "rlc_ok s" "p \<in> set (gRlcUeContextList s)" "q \<in> set (gRlcUeContextList s)" "rlc_rnti s p = rlc_rnti s q"
  shows "p = q"
proof -
  have "inj_on (rlc_rnti s) (set (gRlcUeContextList s))"
    using rlc_okD(3) [OF assms(1)] by (simp add: rlc_tbl_def distinct_map comp_def)
  then show ?thesis using assms(2-4) by (auto dest: inj_onD)
qed

text \<open>A receiver belongs to one context and one bearer.\<close>

lemma slot_unique:
  assumes ok: "rlc_ok s" and p: "p \<in> set (gRlcUeContextList s)" "us_heap s p = Some (RlcObj c)" "k < MAX_LC_ID"
    and q: "q \<in> set (gRlcUeContextList s)" "us_heap s q = Some (RlcObj d)" "j < MAX_LC_ID"
    and eq: "rl_rxAMEntityArray c k = rl_rxAMEntityArray d j" "rl_rxAMEntityArray c k \<noteq> NULL"
  shows "p = q" "k = j"
proof -
  obtain c' where c': "us_heap s p = Some (RlcObj c')" "rlc_rnti s p = rl_rnti c'"
    "rl_rxAMEntityArray c' k \<noteq> NULL \<Longrightarrow> receiver_ok s (rl_rnti c') k (rl_rxAMEntityArray c' k)"
    by (rule rlc_ctx [OF ok p(1)]) (use p(3) in blast)
  obtain d' where d': "us_heap s q = Some (RlcObj d')" "rlc_rnti s q = rl_rnti d'"
    "rl_rxAMEntityArray d' j \<noteq> NULL \<Longrightarrow> receiver_ok s (rl_rnti d') j (rl_rxAMEntityArray d' j)"
    by (rule rlc_ctx [OF ok q(1)]) (use q(3) in blast)
  have "receiver_ok s (rl_rnti c) k (rl_rxAMEntityArray c k)" "receiver_ok s (rl_rnti d) j (rl_rxAMEntityArray c k)"
    using c'(1,3) d'(1,3) p(2) q(2) eq by auto
  then have "rl_rnti c = rl_rnti d" "(of_nat k :: u8) = of_nat j"
    by (auto simp: receiver_ok_def rx_at_def)
  then show "p = q" "k = j"
    using rlc_tbl_inj [OF ok p(1) q(1)] c'(1,2) d'(1,2) p(2,3) q(2,3) small_of_nat by auto
qed

lemma partial_raw:
  assumes "rlc_ok s" "pe \<in> receivers s"
  shows "partial_of s pe \<subseteq> raw s"
proof -
  obtain e where e: "rx_at s pe e (rx_value s e)" "partial_of s pe = partial_blocks e"
    by (rule receiverE [OF assms]) blast
  show ?thesis
  proof (cases "rb_pData (rs_rawSdu (am_rxRawSdu e)) = NULL")
    case True
    then show ?thesis by (simp add: e(2) partial_blocks_def)
  next
    case False
    then have "buffer s (rb_pData (rs_rawSdu (am_rxRawSdu e))) (block_bytes s (rb_pData (rs_rawSdu (am_rxRawSdu e)))
        (unat (rb_size (rs_rawSdu (am_rxRawSdu e)))))"
      using e(1) by (simp add: rx_at_def rx_value_def Let_def)
    then show ?thesis by (auto simp: e(2) partial_blocks_def buffer_def)
  qed
qed

lemma rlc_blocks_own:
  assumes ok: "rlc_ok s"
  shows "rlc_blocks s \<subseteq> own s"
proof -
  note ok' = rlc_okD(1) [OF ok]
  have "p \<in> own s" if "p \<in> set (gRlcUeContextList s)" for p
    by (rule rlc_ctx [OF ok that]) (auto intro: own_obj [OF ok'])
  moreover have "pe \<in> own s" if "pe \<in> receivers s" for pe
    by (rule receiverE [OF ok that]) (auto intro: own_obj [OF ok'])
  moreover have "partial_of s pe \<subseteq> own s" if "pe \<in> receivers s" for pe
    using partial_raw [OF ok that] by (auto simp: own_raw)
  ultimately show ?thesis by (auto simp: rlc_blocks_def)
qed

lemma receiver_ptr_in:
  assumes ok: "rlc_ok s" and k: "k < MAX_LC_ID" and n: "receiver_ptr s rnti k \<noteq> NULL"
  shows "receiver_ptr s rnti k \<in> receivers s"
proof -
  let ?p = "lookup_rnti (rlc_tbl s) rnti"
  have h0: "us_heap s NULL = None" by (rule heap_NULL [OF rlc_okD(1) [OF ok]])
  then have "?p \<noteq> NULL" using n by (cases "?p = NULL") (simp_all add: receiver_ptr_def get_obj_def)
  then have p: "?p \<in> set (gRlcUeContextList s)" using lookup_rnti_in [of "rlc_tbl s" rnti] by (auto simp: rlc_tbl_def)
  show ?thesis
  proof (rule rlc_ctx [OF ok p])
    fix c assume c: "us_heap s ?p = Some (RlcObj c)"
    show ?thesis using slot_receiver [OF p c k] n by (simp add: receiver_ptr_def get_rlc [OF c])
  qed
qed

lemma partial_ptr_in:
  assumes ok: "rlc_ok s" and k: "k < MAX_LC_ID" and r: "fst (rx_of s rnti k) \<noteq> None"
  shows "partial_ptr s rnti k \<in> rlc_blocks s"
proof -
  have h0: "us_heap s NULL = None" by (rule heap_NULL [OF rlc_okD(1) [OF ok]])
  then have "receiver_ptr s rnti k \<noteq> NULL"
    using r by (cases "receiver_ptr s rnti k = NULL") (simp_all add: rx_of_def get_obj_def)
  from receiver_ptr_in [OF ok k this] have q: "receiver_ptr s rnti k \<in> receivers s" .
  show ?thesis
  proof (rule receiverE [OF ok q])
    fix e assume e: "us_heap s (receiver_ptr s rnti k) = Some (AmObj e)" "partial_of s (receiver_ptr s rnti k) = partial_blocks e"
    have "rb_pData (rs_rawSdu (am_rxRawSdu e)) \<noteq> NULL" using r e(1) by (auto simp: rx_of_def rx_value_def Let_def split: if_splits)
    then have "partial_ptr s rnti k \<in> partial_of s (receiver_ptr s rnti k)"
      by (simp add: partial_ptr_def e(2) get_am [OF e(1)]) (simp add: partial_blocks_def)
    then show ?thesis using q by (auto simp: rlc_blocks_def)
  qed
qed

lemma partial_ptr_own: "rlc_ok s \<Longrightarrow> k < MAX_LC_ID \<Longrightarrow> fst (rx_of s rnti k) \<noteq> None \<Longrightarrow> partial_ptr s rnti k \<in> own s"
  using partial_ptr_in rlc_blocks_own by blast

section \<open>What a packet does to one receiver\<close>

lemma rlc_step:
  assumes ok: "rlc_ok s" and f: "eff (X \<union> insert pe (partial_blocks e)) (insert pe (partial_blocks e')) L s s'"
    and X: "X \<inter> rlc_blocks s = {}" and pe: "pe \<in> receivers s" "us_heap s pe = Some (AmObj e)"
    and rx: "rx_at s' pe e' r'" and same: "am_rnti e' = am_rnti e" "am_lcId e' = am_lcId e" "free_ring e'"
  shows "rlc_ok s'" "receivers s' = receivers s" "rlc_tbl s' = rlc_tbl s"
    "receiver_ptr s' rnti k = receiver_ptr s rnti k" 
    "k < MAX_LC_ID \<Longrightarrow> rx_of s' rnti k = (if receiver_ptr s rnti k = pe then r' else rx_of s rnti k)"
    "own s' - rlc_blocks s' = own s - rlc_blocks s - X"
proof -
  let ?A = "X \<union> insert pe (partial_blocks e)"
  have ok0: "rrc_ok s" and ok1: "rrc_ok s'" and list: "gRlcUeContextList s' = gRlcUeContextList s"
    using rlc_okD(1) [OF ok] effD(1,7) [OF f] by simp_all
  have pb: "partial_of s pe = partial_blocks e" using pe(2) by (simp add: partial_of_def)
  have ctx: "us_heap s' p = us_heap s p" if p: "p \<in> set (gRlcUeContextList s)" for p
  proof (rule rlc_ctx [OF ok p])
    fix c assume c: "us_heap s p = Some (RlcObj c)"
    then have "p \<notin> insert pe (partial_blocks e)" using pe partial_raw [OF ok pe(1)] pb by (auto simp: own_raw)
    moreover have "p \<notin> X" using X p by (auto simp: rlc_blocks_def)
    ultimately show ?thesis using eff_obj [OF f c _ _ ok0] c by simp
  qed
  have slots: "slots s' p = slots s p" if "p \<in> set (gRlcUeContextList s)" for p
    using ctx [OF that] by (simp add: slots_def get_obj_def)
  then show rec: "receivers s' = receivers s" by (simp add: receivers_def list)
  have rn: "rlc_rnti s' p = rlc_rnti s p" if "p \<in> set (gRlcUeContextList s)" for p
    using ctx [OF that] by (simp add: rlc_rnti_def get_obj_def)
  then show tbl: "rlc_tbl s' = rlc_tbl s" by (simp add: rlc_tbl_def list)
  \<comment> \<open>the other receivers\<close>
  have other: "rx_at s' qe d (rx_value s d) \<and> partial_of s' qe = partial_of s qe \<and> partial_of s qe \<inter> ?A = {}"
    if q: "qe \<in> receivers s" "qe \<noteq> pe" "us_heap s qe = Some (AmObj d)" for qe d
  proof -
    have r: "rx_at s qe d (rx_value s d)" "partial_of s qe = partial_blocks d"
      by (rule receiverE [OF ok q(1)], use q(3) in simp)+
    have nA: "qe \<notin> ?A" using q X partial_raw [OF ok pe(1)] pb by (auto simp: rlc_blocks_def own_raw)
    have dj: "partial_blocks d \<inter> ?A = {}"
    proof -
      have "partial_blocks d \<inter> partial_blocks e = {}" using rlc_okD(4) [OF ok q(1) pe(1) q(2)] r(2) pb by simp
      moreover have "pe \<notin> partial_blocks d" using partial_raw [OF ok q(1)] r(2) pe(2) by (auto simp: own_raw)
      moreover have "partial_blocks d \<inter> X = {}" using X q(1) r(2) by (auto simp: rlc_blocks_def)
      ultimately show ?thesis by blast
    qed
    have "rx_at s' qe d (rx_value s d)" by (rule rx_at_eff [OF f ok0 r(1) nA dj])
    then show ?thesis using r(2) dj by (simp add: partial_of_def rx_at_def)
  qed
  have pe1: "us_heap s' pe = Some (AmObj e')" using rx by (simp add: rx_at_def)
  have pb1: "partial_of s' pe = partial_blocks e'" using pe1 by (simp add: partial_of_def)
  have rok: "receiver_ok s' rnti k qe" if q: "qe \<in> receivers s" and r: "receiver_ok s rnti k qe" for rnti k qe
  proof (cases "qe = pe")
    case True
    then show ?thesis using r pe(2) rx same rx_value_at [OF ok1 rx] by (auto simp: receiver_ok_def rx_at_def)
  next
    case False
    obtain d where d: "rx_at s qe d (rx_value s d)" "am_rnti d = rnti" "am_lcId d = of_nat k" "free_ring d"
      using r by (auto simp: receiver_ok_def)
    then have "us_heap s qe = Some (AmObj d)" by (simp add: rx_at_def)
    with other [OF q False] have r1: "rx_at s' qe d (rx_value s d)" by blast
    then show ?thesis using d(2-4) rx_value_at [OF ok1 r1] unfolding receiver_ok_def by metis
  qed
  have fresh: "partial_blocks e' \<inter> (own s - ?A) = {}" using effD(3) [OF f] by blast
  show "rlc_ok s'"
    unfolding rlc_ok_def
  proof (intro conjI ballI impI)
    show "rrc_ok s'" by (rule ok1)
    show "distinct (gRlcUeContextList s')" using rlc_okD(2) [OF ok] list by simp
    show "distinct (map snd (rlc_tbl s'))" using rlc_okD(3) [OF ok] tbl by simp
  next
    fix p assume "p \<in> set (gRlcUeContextList s')"
    then have p: "p \<in> set (gRlcUeContextList s)" using list by simp
    obtain c where c: "us_heap s p = Some (RlcObj c)" "rl_deleteFlag c = 0"
      "\<And>k. k < MAX_LC_ID \<Longrightarrow> rl_rxAMEntityArray c k \<noteq> NULL \<Longrightarrow> receiver_ok s (rl_rnti c) k (rl_rxAMEntityArray c k)"
      by (rule rlc_ctx [OF ok p]) blast
    have "receiver_ok s' (rl_rnti c) k (rl_rxAMEntityArray c k)" if "k < MAX_LC_ID" "rl_rxAMEntityArray c k \<noteq> NULL" for k
      using c(3) [OF that] p that slots_iff [OF c(1)] by (intro rok) (auto simp: receivers_def)
    with c(1,2) ctx [OF p] show "\<exists>c. us_heap s' p = Some (RlcObj c) \<and> rl_deleteFlag c = 0 \<and>
        (\<forall>k<MAX_LC_ID. rl_rxAMEntityArray c k \<noteq> NULL \<longrightarrow> receiver_ok s' (rl_rnti c) k (rl_rxAMEntityArray c k))" by auto
  next
    fix qe re assume q: "qe \<in> receivers s'" "re \<in> receivers s'" "qe \<noteq> re"
    have fr: "partial_of s' pe \<inter> partial_of s' ue = {}" if u: "ue \<in> receivers s" "ue \<noteq> pe" for ue
    proof (rule receiverE [OF ok u(1)])
      fix d assume "us_heap s ue = Some (AmObj d)"
      moreover have "partial_of s ue \<subseteq> own s" using partial_raw [OF ok u(1)] by (auto simp: own_raw)
      ultimately show ?thesis using other [OF u] fresh pb1 by blast
    qed
    show "partial_of s' qe \<inter> partial_of s' re = {}"
    proof (cases "qe = pe \<or> re = pe")
      case True
      then show ?thesis using fr [of qe] fr [of re] q rec by auto
    next
      case False
      have "partial_of s' ue = partial_of s ue" if "ue \<in> {qe, re}" for ue
        by (rule receiverE [OF ok, of ue]) (use that q rec other [of ue] False in auto)
      then show ?thesis using rlc_okD(4) [OF ok] q rec by simp
    qed
  qed
  have lk: "lookup_rnti (rlc_tbl s) rnti = NULL \<or> lookup_rnti (rlc_tbl s) rnti \<in> set (gRlcUeContextList s)" for rnti
    using lookup_rnti_in [of "rlc_tbl s" rnti] by (auto simp: rlc_tbl_def)
  have h0: "us_heap s NULL = None" "us_heap s' NULL = None" using heap_NULL ok0 ok1 by auto
  show rp: "receiver_ptr s' rnti k = receiver_ptr s rnti k" for rnti k
    using lk [of rnti] ctx h0 by (auto simp: receiver_ptr_def tbl get_obj_def)
  show "rx_of s' rnti k = (if receiver_ptr s rnti k = pe then r' else rx_of s rnti k)" if k: "k < MAX_LC_ID"
  proof (cases "receiver_ptr s rnti k = NULL")
    case True
    have "pe \<noteq> NULL" by (rule receiverE [OF ok pe(1)])
    then show ?thesis using True h0 rp by (simp add: rx_of_def get_obj_def)
  next
    case False
    have in_rec: "receiver_ptr s rnti k \<in> receivers s" by (rule receiver_ptr_in [OF ok k False])
    show ?thesis
    proof (cases "receiver_ptr s rnti k = pe")
      case True
      then show ?thesis using rp pe1 rx_value_at [OF ok1 rx] by (simp add: rx_of_def)
    next
      case ne: False
      show ?thesis
      proof (rule receiverE [OF ok in_rec])
        fix d assume d: "us_heap s (receiver_ptr s rnti k) = Some (AmObj d)"
        have "rx_at s' (receiver_ptr s rnti k) d (rx_value s d)" using other [OF in_rec ne d] by blast
        with rx_value_at [OF ok1 this] d ne show ?thesis by (simp add: rx_of_def rp rx_at_def)
      qed
    qed
  qed
  show "own s' - rlc_blocks s' = own s - rlc_blocks s - X"
  proof -
    have "(\<Union>qe\<in>receivers s. partial_of s' qe) = (\<Union>qe\<in>receivers s - {pe}. partial_of s qe) \<union> partial_blocks e'"
    proof -
      have "partial_of s' qe = partial_of s qe" if "qe \<in> receivers s" "qe \<noteq> pe" for qe
        by (rule receiverE [OF ok that(1)]) (use other [OF that] in blast)
      then show ?thesis using pe(1) pb1 by auto
    qed
    moreover have "(\<Union>qe\<in>receivers s. partial_of s qe) = (\<Union>qe\<in>receivers s - {pe}. partial_of s qe) \<union> partial_blocks e"
      using pe(1) pb by auto
    ultimately show ?thesis
      using effD(2,3) [OF f] pe(1) X by (auto simp: rlc_blocks_def list rec)
  qed
qed

section \<open>Contexts and receivers are created\<close>

text \<open>
  The tables have grown: everything that was there is as it was, but for the idle counters and
  slots of contexts, and no receiver has changed its state.
\<close>

definition grown_to :: "ulp_state \<Rightarrow> ulp_state \<Rightarrow> bool" where
  "grown_to s s' \<longleftrightarrow> rlc_ok s' \<and> mem_kept (own s) (us_mem s) (us_mem s') \<and> own s \<subseteq> own s' \<and>
     (\<forall>q\<in>own s. (\<forall>c. us_heap s q \<noteq> Some (RlcObj c)) \<longrightarrow> us_heap s' q = us_heap s q) \<and>
     gMacUeContext s' = gMacUeContext s \<and> gRecvdPhyDataList s' = gRecvdPhyDataList s \<and> rlc_log s' = rlc_log s \<and>
     (\<forall>rnti. \<forall>k<MAX_LC_ID. rx_of s' rnti k = rx_of s rnti k \<and> partial_ptr s' rnti k = partial_ptr s rnti k) \<and>
     rlc_blocks s' \<inter> own s = rlc_blocks s \<and> own s' - rlc_blocks s' = own s - rlc_blocks s"

lemma grown_toD:
  assumes "grown_to s s'"
  shows "rlc_ok s'" "mem_kept (own s) (us_mem s) (us_mem s')" "own s \<subseteq> own s'"
    "q \<in> own s \<Longrightarrow> \<forall>c. us_heap s q \<noteq> Some (RlcObj c) \<Longrightarrow> us_heap s' q = us_heap s q"
    "gMacUeContext s' = gMacUeContext s" "gRecvdPhyDataList s' = gRecvdPhyDataList s" "rlc_log s' = rlc_log s"
    "k < MAX_LC_ID \<Longrightarrow> rx_of s' rnti k = rx_of s rnti k" "rlc_blocks s' \<inter> own s = rlc_blocks s"
    "own s' - rlc_blocks s' = own s - rlc_blocks s" "k < MAX_LC_ID \<Longrightarrow> partial_ptr s' rnti k = partial_ptr s rnti k"
  using assms by (simp_all add: grown_to_def)

lemma grown_refl: "rlc_ok s \<Longrightarrow> grown_to s s"
  using rlc_blocks_own [of s] by (auto simp: grown_to_def)

lemma grown_trans:
  assumes a: "grown_to s t" and b: "grown_to t u"
  shows "grown_to s u"
  unfolding grown_to_def
proof (intro conjI ballI allI impI)
  show "mem_kept (own s) (us_mem s) (us_mem u)"
    by (rule mem_kept_trans [OF grown_toD(2) [OF a] grown_toD(2) [OF b]]) (use grown_toD(3) [OF a] in auto)
  show "us_heap u q = us_heap s q" if q: "q \<in> own s" "\<forall>c. us_heap s q \<noteq> Some (RlcObj c)" for q
    using grown_toD(4) [OF a q] grown_toD(4) [OF b, of q] grown_toD(3) [OF a] q by auto
  show "own s \<subseteq> own u" using grown_toD(3) [OF a] grown_toD(3) [OF b] by blast
  show "rlc_blocks u \<inter> own s = rlc_blocks s"
    using grown_toD(3,9) [OF a] grown_toD(9) [OF b] by blast
qed (use grown_toD [OF a] grown_toD [OF b] in simp_all)

lemma grown_buffer:
  assumes "grown_to s s'" "buffer s q bs"
  shows "buffer s' q bs"
proof -
  have q: "q \<in> own s" "us_heap s q = None" using assms(2) by (simp_all add: buffer_def own_raw)
  then have "q \<in> raw s'" using grown_toD(3,4) [OF assms(1)] by (auto simp: own_raw)
  with buffer_kept [OF assms(2) grown_toD(2) [OF assms(1)] q(1)] show ?thesis by simp
qed

lemma grown_mac:
  assumes g: "grown_to s s'" and ok: "rrc_ok s" "mac_ready s"
  shows "mac_ready s'" "mac_grant s' r = mac_grant s r"
proof -
  have h: "us_heap s' p = us_heap s p" if p: "p \<in> set (gMacUeContext s)" for p
  proof -
    obtain c where c: "us_heap s p = Some (MacObj c)" using p ok(2) by (auto simp: mac_ready_def)
    have "p \<in> own s" by (rule own_obj [OF ok(1) c]) simp
    then show ?thesis using grown_toD(4) [OF g, of p] c by simp
  qed
  show m: "mac_ready s'" using ok(2) h grown_toD(5) [OF g] by (simp add: mac_ready_def)
  have sr: "mac_search s' ps r = mac_search s ps r" if "set ps \<subseteq> set (gMacUeContext s)" for ps
    using that by (induction ps) (simp_all add: get_obj_def h cong: Option.bind_cong if_cong)
  then have e: "MacGetUeContext s' r = MacGetUeContext s r"
    using grown_toD(5) [OF g] by (simp add: MacGetUeContext_def)
  have ok1: "rrc_ok s'" by (rule rlc_okD(1) [OF grown_toD(1) [OF g]])
  show "mac_grant s' r = mac_grant s r"
    using ok
  proof (cases rule: mac_ready_get [of s r])
    case no
    then show ?thesis using e heap_NULL [OF ok1] by (simp add: mac_grant_def get_obj_def)
  next
    case (ue pm c)
    then show ?thesis using e h by (simp add: mac_grant_def get_obj_def the_mac_def)
  qed
qed

text \<open>A table grows when old receivers stay and new ones have nothing to put together.\<close>

lemma rx_at_kept:
  assumes "mem_kept (own s) (us_mem s) (us_mem s')" "own s \<subseteq> own s'"
    and h: "\<And>q. q \<in> own s \<Longrightarrow> \<forall>c. us_heap s q \<noteq> Some (RlcObj c) \<Longrightarrow> us_heap s' q = us_heap s q"
    and ok: "rrc_ok s" and rx: "rx_at s pe e r"
  shows "rx_at s' pe e r"
proof -
  have pe: "us_heap s pe = Some (AmObj e)" using rx by (simp add: rx_at_def)
  have "us_heap s' pe = Some (AmObj e)" using h [of pe] own_obj [OF ok pe] pe by simp
  moreover have "buffer s' q bs" if b: "buffer s q bs" for q bs
  proof -
    have q: "q \<in> own s" "us_heap s q = None" using b by (simp_all add: buffer_def own_raw)
    then have "q \<in> raw s'" using h [of q] assms(2) by (auto simp: own_raw)
    with buffer_kept [OF b assms(1) q(1)] show ?thesis by simp
  qed
  ultimately show ?thesis using rx by (auto simp: rx_at_def split: option.splits)
qed

abbreviation (input) blank_at :: "ulp_state \<Rightarrow> u16 \<Rightarrow> nat \<Rightarrow> ptr \<Rightarrow> bool" where
  "blank_at s rnti k pe \<equiv> us_heap s pe = Some (AmObj (blank_entity rnti (of_nat k)))"

lemma blank_rx: "us_heap s pe = Some (AmObj (blank_entity rnti lc)) \<Longrightarrow> rx_at s pe (blank_entity rnti lc) (None, [])"
  by (simp add: rx_at_def blank_entity_def grants_def)

lemma blank_value [simp]: "rx_value s (blank_entity rnti lc) = (None, [])"
  by (simp add: rx_value_def blank_entity_def grants_def)

lemma blank_receiver:
  assumes "blank_at s rnti k pe"
  shows "receiver_ok s rnti k pe" "partial_of s pe = {}"
proof -
  show "receiver_ok s rnti k pe" unfolding receiver_ok_def
    by (rule exI [of _ "blank_entity rnti (of_nat k)"]) (use blank_rx [OF assms] in \<open>simp add: blank_entity_def free_ring_def\<close>,
      simp add: rx_value_def grants_def)
  show "partial_of s pe = {}" using assms by (simp add: partial_of_def partial_blocks_def blank_entity_def)
qed

lemma rlc_grow:
  assumes ok: "rlc_ok s" and ok1: "rrc_ok s'" and keep: "mem_kept (own s) (us_mem s) (us_mem s')"
    and own: "own s' = own s \<union> N" "N \<inter> own s = {}" "N \<subseteq> rlc_blocks s'"
    and h: "\<And>q. q \<in> own s \<Longrightarrow> \<forall>c. us_heap s q \<noteq> Some (RlcObj c) \<Longrightarrow> us_heap s' q = us_heap s q"
    and glob: "gMacUeContext s' = gMacUeContext s" "gRecvdPhyDataList s' = gRecvdPhyDataList s" "rlc_log s' = rlc_log s"
    and list: "gRlcUeContextList s' = gRlcUeContextList s @ ps" "distinct (gRlcUeContextList s')" "distinct (map snd (rlc_tbl s'))"
    and old: "\<And>p c. p \<in> set (gRlcUeContextList s) \<Longrightarrow> us_heap s p = Some (RlcObj c) \<Longrightarrow> rl_deleteFlag c = 0 \<Longrightarrow>
      \<exists>c'. us_heap s' p = Some (RlcObj c') \<and> rl_rnti c' = rl_rnti c \<and> rl_deleteFlag c' = 0 \<and>
        (\<forall>k<MAX_LC_ID. rl_rxAMEntityArray c' k = rl_rxAMEntityArray c k \<or> rl_rxAMEntityArray c k = NULL \<and>
          rl_rxAMEntityArray c' k \<in> N \<and> blank_at s' (rl_rnti c) k (rl_rxAMEntityArray c' k))"
    and new: "\<And>p. p \<in> set ps \<Longrightarrow> p \<in> N \<and> (\<exists>c. us_heap s' p = Some (RlcObj c) \<and> rl_deleteFlag c = 0 \<and>
        (\<forall>k<MAX_LC_ID. rl_rxAMEntityArray c k = NULL))"
  shows "grown_to s s'"
proof -
  note ok0 = rlc_okD(1) [OF ok]
  have sub: "own s \<subseteq> own s'" using own(1) by blast
  have N0: "NULL \<notin> N" using own_nonnull [OF ok1] own(1) by blast
  have kept: "rx_at s' pe e r" if "rx_at s pe e r" for pe e r
    by (rule rx_at_kept [OF keep sub _ ok0 that]) (rule h)
  have old': "\<exists>c c'. us_heap s p = Some (RlcObj c) \<and> us_heap s' p = Some (RlcObj c') \<and> rl_rnti c' = rl_rnti c \<and>
      rl_deleteFlag c' = 0 \<and> (\<forall>k<MAX_LC_ID. rl_rxAMEntityArray c' k = rl_rxAMEntityArray c k \<or>
        rl_rxAMEntityArray c k = NULL \<and> rl_rxAMEntityArray c' k \<in> N \<and> blank_at s' (rl_rnti c) k (rl_rxAMEntityArray c' k))"
    if p: "p \<in> set (gRlcUeContextList s)" for p
    by (rule rlc_ctx [OF ok p]) (use old [OF p] in blast)
  have rec_old: "qe \<in> receivers s' \<and> receiver_ok s' rnti k qe \<and> partial_of s' qe = partial_of s qe"
    if q: "qe \<in> receivers s" "receiver_ok s rnti k qe" for qe rnti k
  proof -
    obtain d where d: "rx_at s qe d (rx_value s d)" "am_rnti d = rnti" "am_lcId d = of_nat k" "free_ring d"
      using q(2) by (auto simp: receiver_ok_def)
    have r: "rx_at s' qe d (rx_value s d)" by (rule kept [OF d(1)])
    have "qe \<in> receivers s'"
    proof (rule receiverE [OF ok q(1)])
      fix p c j
      assume p: "p \<in> set (gRlcUeContextList s)" and c: "us_heap s p = Some (RlcObj c)" and j: "j < MAX_LC_ID"
        and qe: "rl_rxAMEntityArray c j = qe" "qe \<noteq> NULL"
      obtain c' where c': "us_heap s' p = Some (RlcObj c')" "rl_rxAMEntityArray c' j = qe"
        using old' [OF p] c j qe by auto
      show ?thesis using slot_receiver [of p s' c' j] p c' j qe list(1) by simp
    qed
    moreover have "receiver_ok s' rnti k qe"
      using r d rx_value_at [OF ok1 r] unfolding receiver_ok_def by metis
    ultimately show ?thesis using r d(1) by (simp add: rx_at_def partial_of_def)
  qed
  have rec_new: "receiver_ok s' (rl_rnti c') k (rl_rxAMEntityArray c' k) \<and>
      (rl_rxAMEntityArray c' k \<in> receivers s \<and> partial_of s' (rl_rxAMEntityArray c' k) = partial_of s (rl_rxAMEntityArray c' k) \<or>
       rl_rxAMEntityArray c' k \<in> N \<and> partial_of s' (rl_rxAMEntityArray c' k) = {})"
    if p: "p \<in> set (gRlcUeContextList s')" "us_heap s' p = Some (RlcObj c')" "k < MAX_LC_ID" "rl_rxAMEntityArray c' k \<noteq> NULL" for p c' k
  proof (cases "p \<in> set ps")
    case True
    with new [of p] p show ?thesis by auto
  next
    case False
    then have p0: "p \<in> set (gRlcUeContextList s)" using p(1) list(1) by simp
    obtain c where c: "us_heap s p = Some (RlcObj c)" "rl_rnti c' = rl_rnti c" "rl_rxAMEntityArray c' k = rl_rxAMEntityArray c k \<or>
        rl_rxAMEntityArray c' k \<in> N \<and> blank_at s' (rl_rnti c) k (rl_rxAMEntityArray c' k)"
      using old' [OF p0] p(2,3) by auto
    from c(3) show ?thesis
    proof
      assume e: "rl_rxAMEntityArray c' k = rl_rxAMEntityArray c k"
      have "receiver_ok s (rl_rnti c) k (rl_rxAMEntityArray c k)"
        by (rule rlc_ctx [OF ok p0]) (use c(1) e p in auto)
      with rec_old [OF slot_receiver [OF p0 c(1) p(3)] this] show ?thesis using slot_receiver [OF p0 c(1) p(3)] e p(4) c(2) by simp
    next
      assume "rl_rxAMEntityArray c' k \<in> N \<and> blank_at s' (rl_rnti c) k (rl_rxAMEntityArray c' k)"
      with blank_receiver c(2) show ?thesis by simp
    qed
  qed
  have rec: "qe \<in> receivers s \<and> partial_of s' qe = partial_of s qe \<or> qe \<in> N \<and> partial_of s' qe = {}"
    if q: "qe \<in> receivers s'" for qe
  proof -
    obtain p where p: "p \<in> set (gRlcUeContextList s')" "qe \<in> set (slots s' p)" using q by (auto simp: receivers_def)
    obtain c' where c': "us_heap s' p = Some (RlcObj c')" using p(1) list(1) old' new by fastforce
    obtain k where "k < MAX_LC_ID" "rl_rxAMEntityArray c' k = qe" "qe \<noteq> NULL" using p(2) slots_iff [OF c'] by auto
    with rec_new [OF p(1) c'] show ?thesis by auto
  qed
  have rlc: "rlc_ok s'"
    unfolding rlc_ok_def
  proof (intro conjI ballI impI)
    fix p assume p: "p \<in> set (gRlcUeContextList s')"
    obtain c where c: "us_heap s' p = Some (RlcObj c)" "rl_deleteFlag c = 0"
      using p list(1) old' new by fastforce
    then show "\<exists>c. us_heap s' p = Some (RlcObj c) \<and> rl_deleteFlag c = 0 \<and> (\<forall>k<MAX_LC_ID. rl_rxAMEntityArray c k \<noteq> NULL \<longrightarrow>
        receiver_ok s' (rl_rnti c) k (rl_rxAMEntityArray c k))" using rec_new [OF p c(1)] by auto
  next
    fix qe re assume "qe \<in> receivers s'" "re \<in> receivers s'" "qe \<noteq> re"
    then show "partial_of s' qe \<inter> partial_of s' re = {}"
      using rec [of qe] rec [of re] rlc_okD(4) [OF ok, of qe re] by auto
  qed (use ok1 list in simp_all)
  have rn: "rlc_rnti s' p = rlc_rnti s p" if "p \<in> set (gRlcUeContextList s)" for p
    using old' [OF that] by (auto simp: rlc_rnti_def)
  then have tbl: "rlc_tbl s' = rlc_tbl s @ map (\<lambda>p. (p, rlc_rnti s' p)) ps" by (simp add: rlc_tbl_def list(1))
  have h0: "us_heap s NULL = None" "us_heap s' NULL = None" using heap_NULL ok0 ok1 by auto
  have l0: "NULL \<notin> fst ` set (rlc_tbl s)"
  proof
    assume "NULL \<in> fst ` set (rlc_tbl s)"
    then have "NULL \<in> set (gRlcUeContextList s)" by (auto simp: rlc_tbl_def)
    from old' [OF this] h0(1) show False by simp
  qed
  have rx: "rx_of s' rnti k = rx_of s rnti k \<and> partial_ptr s' rnti k = partial_ptr s rnti k" if k: "k < MAX_LC_ID" for rnti k
  proof (cases "rnti \<in> snd ` set (rlc_tbl s)")
    case True
    let ?p = "lookup_rnti (rlc_tbl s) rnti"
    have p': "lookup_rnti (rlc_tbl s') rnti = ?p" using True l0 by (simp add: tbl lookup_rnti_append)
    have "?p \<noteq> NULL" using True l0 by (simp add: lookup_rnti_None)
    then have p: "?p \<in> set (gRlcUeContextList s)" using lookup_rnti_in [of "rlc_tbl s" rnti] by (auto simp: rlc_tbl_def)
    obtain c c' where c: "us_heap s ?p = Some (RlcObj c)" "us_heap s' ?p = Some (RlcObj c')"
      "rl_rxAMEntityArray c' k = rl_rxAMEntityArray c k \<or>
        rl_rxAMEntityArray c k = NULL \<and> blank_at s' (rl_rnti c) k (rl_rxAMEntityArray c' k)"
      using old' [OF p] k by auto
    have rp: "receiver_ptr s rnti k = rl_rxAMEntityArray c k" "receiver_ptr s' rnti k = rl_rxAMEntityArray c' k"
      by (simp_all add: receiver_ptr_def p' get_rlc [OF c(1)] get_rlc [OF c(2)])
    show ?thesis
    proof (cases "rl_rxAMEntityArray c' k = rl_rxAMEntityArray c k \<and> rl_rxAMEntityArray c k \<noteq> NULL")
      case e: True
      then have q: "rl_rxAMEntityArray c k \<in> receivers s" using slot_receiver [OF p c(1) k] by simp
      show ?thesis
      proof (rule receiverE [OF ok q])
        fix d assume d: "rx_at s (rl_rxAMEntityArray c k) d (rx_value s d)" "us_heap s (rl_rxAMEntityArray c k) = Some (AmObj d)"
        have r: "rx_at s' (rl_rxAMEntityArray c k) d (rx_value s d)" by (rule kept [OF d(1)])
        with rx_value_at [OF ok1 r] d(2) e show ?thesis by (simp add: rx_of_def partial_ptr_def rp rx_at_def)
      qed
    next
      case False
      then show ?thesis using c(3) h0
        by (auto simp: rx_of_def partial_ptr_def rp get_obj_def [of _ _ NULL]) (simp_all add: blank_entity_def)
    qed
  next
    case False
    then have n: "lookup_rnti (rlc_tbl s) rnti = NULL" using l0 by (simp add: lookup_rnti_None)
    let ?p = "lookup_rnti (rlc_tbl s') rnti"
    have "?p = NULL \<or> ?p \<in> set ps"
      using lookup_rnti_in [of "map (\<lambda>p. (p, rlc_rnti s' p)) ps" rnti] False l0 by (auto simp: tbl lookup_rnti_append)
    then have "receiver_ptr s' rnti k = NULL"
      using new k h0 by (fastforce simp: receiver_ptr_def get_obj_def [of _ _ NULL])
    moreover have "receiver_ptr s rnti k = NULL" using n h0 by (simp add: receiver_ptr_def get_obj_def)
    ultimately show ?thesis using h0 by (simp add: rx_of_def partial_ptr_def get_obj_def)
  qed
  have blk: "rlc_blocks s' = rlc_blocks s \<union> N"
  proof
    show "rlc_blocks s' \<subseteq> rlc_blocks s \<union> N" using rec list(1) new by (fastforce simp: rlc_blocks_def)
    have r1: "qe \<in> receivers s' \<and> partial_of s' qe = partial_of s qe" if "qe \<in> receivers s" for qe
    proof (rule receiverE [OF ok that])
      fix c k e
      assume "rx_at s qe e (rx_value s e)" "am_rnti e = rl_rnti c" "am_lcId e = of_nat k" "free_ring e"
      then have "receiver_ok s (rl_rnti c) k qe" by (auto simp: receiver_ok_def)
      from rec_old [OF that this] show ?thesis by blast
    qed
    then show "rlc_blocks s \<union> N \<subseteq> rlc_blocks s'" using own(3) list(1) by (fastforce simp: rlc_blocks_def)
  qed
  have bo: "rlc_blocks s \<subseteq> own s" by (rule rlc_blocks_own [OF ok])
  show ?thesis
    unfolding grown_to_def
    using rlc keep sub h glob rx blk bo own(1,2) by blast
qed

lemma eff_list:
  assumes "eff A B L s s'"
  shows "eff A B L (s\<lparr>gRlcUeContextList := l\<rparr>) (s'\<lparr>gRlcUeContextList := l\<rparr>)"
  using assms by (simp add: eff_def own_def rrc_ok_def heap_ok_def rlc_log_def)

lemma touch_tbl: "us_heap s p = Some (RlcObj c) \<Longrightarrow> rlc_tbl (put_obj p (RlcObj (c\<lparr>rl_idleCount := v\<rparr>)) s) = rlc_tbl s"
  by (simp add: rlc_tbl_def rlc_rnti_def get_obj_def the_rlc_def put_obj_def)

lemma touch_context:
  assumes ok: "rlc_ok s" and p: "p \<in> set (gRlcUeContextList s)" and c: "us_heap s p = Some (RlcObj c)"
  shows "grown_to s (put_obj p (RlcObj (c\<lparr>rl_idleCount := v\<rparr>)) s)"
proof -
  let ?s = "put_obj p (RlcObj (c\<lparr>rl_idleCount := v\<rparr>)) s"
  note ok0 = rlc_okD(1) [OF ok]
  have f: "eff {p} {p} [] s ?s" by (rule eff_put [OF ok0 c]) simp_all
  have po: "p \<in> own s" by (rule own_obj [OF ok0 c]) simp
  have tbl: "rlc_tbl ?s = rlc_tbl s" by (rule touch_tbl [OF c])
  show ?thesis
  proof (rule rlc_grow [where N = "{}" and ps = "[]", OF ok effD(1) [OF f]])
    show "own ?s = own s \<union> {}" using effD(2) [OF f] po by auto
    show "us_heap ?s q = us_heap s q" if "q \<in> own s" "\<forall>c. us_heap s q \<noteq> Some (RlcObj c)" for q
      using that c by auto
    show "distinct (map snd (rlc_tbl ?s))" using rlc_okD(3) [OF ok] tbl by simp
    show "distinct (gRlcUeContextList ?s)" using rlc_okD(2) [OF ok] by simp
  next
    fix q d assume "q \<in> set (gRlcUeContextList s)" "us_heap s q = Some (RlcObj d)" "rl_deleteFlag d = 0"
    then show "\<exists>c'. us_heap ?s q = Some (RlcObj c') \<and> rl_rnti c' = rl_rnti d \<and> rl_deleteFlag c' = 0 \<and>
        (\<forall>k<MAX_LC_ID. rl_rxAMEntityArray c' k = rl_rxAMEntityArray d k \<or> rl_rxAMEntityArray d k = NULL \<and>
          rl_rxAMEntityArray c' k \<in> {} \<and> blank_at ?s (rl_rnti d) k (rl_rxAMEntityArray c' k))"
      using c by (cases "q = p") auto
  qed simp_all
qed

lemma create_context [consumes 2, case_names none block]:
  assumes ok: "rlc_ok s" and r: "rnti \<notin> snd ` set (rlc_tbl s)"
  obtains (none) "RlcCreateUeContext s rnti = Some (NULL, s)" "\<not> spare 1 s"
  | (block) p s' where "RlcCreateUeContext s rnti = Some (p, s')" "p \<noteq> NULL" "grown_to s s'" "rlc_tbl s' = rlc_tbl s @ [(p, rnti)]"
      "us_heap s' p = Some (RlcObj \<lparr>rl_idleCount = 0, rl_deleteFlag = 0, rl_rnti = rnti, rl_rxAMEntityArray = (\<lambda>_. NULL)\<rparr>)"
      "p \<notin> own s" "\<And>n. spare (Suc n) s \<Longrightarrow> spare n s'"
proof -
  let ?c = "\<lparr>rl_idleCount = 0, rl_deleteFlag = 0, rl_rnti = rnti, rl_rxAMEntityArray = (\<lambda>_. NULL)\<rparr>"
  note ok0 = rlc_okD(1) [OF ok]
  have nr: "\<not> is_rrc (RlcObj ?c)" by simp
  from ok0 nr show thesis
  proof (cases rule: eff_new [of s "RlcObj ?c" sizeof_RlcUeContext])
    case none
    then show thesis using new_spare(1) [OF ok0 none, of 0] by (intro that(1)) (auto simp: RlcCreateUeContext_def)
  next
    case (block p s1)
    let ?s = "(count_sem True s1)\<lparr>gRlcUeContextList := gRlcUeContextList s @ [p]\<rparr>"
    have pl: "p \<notin> set (gRlcUeContextList s)" using rlc_blocks_own [OF ok] block(4) by (auto simp: rlc_blocks_def)
    have g1: "gRlcUeContextList s1 = gRlcUeContextList s" by (rule effD(7) [OF block(3)])
    have run: "RlcCreateUeContext s rnti = Some (p, ?s)" using block(1,2) by (simp add: RlcCreateUeContext_def g1)
    have v: "eff {} {} [] s1 (count_sem True s1)" by (rule eff_view [OF effD(1) [OF block(3)]]) (simp add: count_sem_def)
    have f: "eff {} {p} [] s (count_sem True s1)" by (rule eff_comp [OF block(3) v]) simp_all
    note fl = eff_list [OF f, of "gRlcUeContextList s @ [p]"]
    have heap: "us_heap ?s = (us_heap s)(p \<mapsto> RlcObj ?c)" by (simp add: block(5))
    have tbl: "rlc_tbl ?s = rlc_tbl s @ [(p, rnti)]"
      using pl by (auto simp: rlc_tbl_def rlc_rnti_def get_obj_def heap the_rlc_def)
    have own: "own ?s = own s \<union> {p}" using effD(2) [OF fl] by (simp add: own_def)
    have "grown_to s ?s"
    proof (rule rlc_grow [where N = "{p}" and ps = "[p]", OF ok effD(1) [OF fl]])
      show "mem_kept (own s) (us_mem s) (us_mem ?s)" using effD(4) [OF f] by simp
      show "own ?s = own s \<union> {p}" by (rule own)
      show "{p} \<inter> own s = {}" using block(4) by simp
      show "{p} \<subseteq> rlc_blocks ?s" by (simp add: rlc_blocks_def)
      show "distinct (map snd (rlc_tbl ?s))" using rlc_okD(3) [OF ok] r by (simp add: tbl)
      show "distinct (gRlcUeContextList ?s)" using rlc_okD(2) [OF ok] pl by simp
      show "us_heap ?s q = us_heap s q" if "q \<in> own s" for q using that block(4) by (auto simp: heap)
      show "rlc_log ?s = rlc_log s" using effD(9) [OF f] by (simp add: rlc_log_def)
    next
      fix q d assume q: "q \<in> set (gRlcUeContextList s)" "us_heap s q = Some (RlcObj d)" "rl_deleteFlag d = 0"
      then have "q \<noteq> p" using pl by blast
      then show "\<exists>c'. us_heap ?s q = Some (RlcObj c') \<and> rl_rnti c' = rl_rnti d \<and> rl_deleteFlag c' = 0 \<and>
          (\<forall>k<MAX_LC_ID. rl_rxAMEntityArray c' k = rl_rxAMEntityArray d k \<or> rl_rxAMEntityArray d k = NULL \<and>
            rl_rxAMEntityArray c' k \<in> {p} \<and> blank_at ?s (rl_rnti d) k (rl_rxAMEntityArray c' k))"
        using q by (simp add: heap)
    qed (use effD(6,8) [OF f] heap in simp_all)
    moreover have "spare n ?s" if "spare (Suc n) s" for n using new_spare(2) [OF ok0 block(1) that] by (simp add: spare_def)
    ultimately show thesis using block(2,4) run tbl heap by (intro that(2) [of p ?s]) simp_all
  qed
qed

lemma create_receiver [consumes 6, case_names none block]:
  assumes ok: "rlc_ok s" and p: "p \<in> set (gRlcUeContextList s)" and c: "us_heap s p = Some (RlcObj c)"
    and k: "k < MAX_LC_ID" "lc = of_nat k" and n: "rl_rxAMEntityArray c k = NULL"
  obtains (none) "RlcCreateRxAmEntity s p lc = Some (NULL, s)" "\<not> spare 1 s"
  | (block) pe s' where "RlcCreateRxAmEntity s p lc = Some (pe, s')" "pe \<noteq> NULL" "grown_to s s'" "receiver_ptr s' (rl_rnti c) k = pe"
      "blank_at s' (rl_rnti c) k pe" "pe \<in> receivers s'" "\<And>n. spare (Suc n) s \<Longrightarrow> spare n s'"
proof -
  let ?e = "blank_entity (rl_rnti c) (of_nat k)"
  note ok0 = rlc_okD(1) [OF ok]
  have k16: "unat (lc :: u16) = k" using k by (simp add: unat_of_nat_small)
  have k8: "(ucast lc :: u8) = of_nat k" using k(1) unfolding k(2)
    by (simp add: word_eq_iff_unsigned unsigned_ucast_eq unsigned_of_nat take_bit_nat_eq_self_iff [THEN iffD2])
  have nn: "p \<noteq> NULL" using c heap_NULL [OF ok0] by (cases "p = NULL") auto
  have nr: "\<not> is_rrc (AmObj ?e)" by simp
  note run = RlcCreateRxAmEntity_def nn k16 k8 get_rlc [OF c]
  from ok0 nr show thesis
  proof (cases rule: eff_new [of s "AmObj ?e" sizeof_RxAMEntity])
    case none
    then show thesis using new_spare(1) [OF ok0 none, of 0] nn k(1) by (intro that(1)) (auto simp: run)
  next
    case (block pe s1)
    let ?c = "c\<lparr>rl_rxAMEntityArray := (rl_rxAMEntityArray c)(k := pe)\<rparr>"
    let ?s = "put_obj p (RlcObj ?c) s1"
    have po: "p \<in> own s" by (rule own_obj [OF ok0 c]) simp
    then have pp: "p \<noteq> pe" using block(4) by blast
    have c1: "us_heap s1 p = Some (RlcObj c)" using c pp by (simp add: block(5))
    have f1: "eff {p} {p} [] s1 ?s" by (rule eff_put [OF effD(1) [OF block(3)] c1]) simp_all
    have f: "eff {p} {p, pe} [] s ?s" using pp by (intro eff_comp [OF block(3) f1]) auto
    have heap: "us_heap ?s = (us_heap s)(pe \<mapsto> AmObj ?e, p \<mapsto> RlcObj ?c)" by (simp add: block(5) put_obj_def)
    have list: "gRlcUeContextList ?s = gRlcUeContextList s" "gRlcUeContextList s1 = gRlcUeContextList s"
      using effD(7) [OF f] effD(7) [OF block(3)] by simp_all
    have "rlc_rnti ?s q = rlc_rnti s q" if "q \<in> set (gRlcUeContextList s)" for q
    proof -
      have "q \<noteq> pe" using that rlc_blocks_own [OF ok] block(4) by (auto simp: rlc_blocks_def)
      then show ?thesis using c by (simp add: rlc_rnti_def get_obj_def heap block(5) the_rlc_def)
    qed
    then have tbl: "rlc_tbl ?s = rlc_tbl s" by (simp add: rlc_tbl_def list)
    have bl: "blank_at ?s (rl_rnti c) k pe" using pp by (simp add: heap block(5))
    have hp: "us_heap ?s p = Some (RlcObj ?c)" by simp
    have rec: "pe \<in> receivers ?s" using slot_receiver [of p ?s ?c k] p k(1) block(2) list by simp
    have "grown_to s ?s"
    proof (rule rlc_grow [where N = "{pe}" and ps = "[]", OF ok effD(1) [OF f]])
      show "mem_kept (own s) (us_mem s) (us_mem ?s)" using effD(4) [OF block(3)] by simp
      show "own ?s = own s \<union> {pe}" using effD(2) [OF f] po by auto
      show "{pe} \<subseteq> rlc_blocks ?s" using rec by (simp add: rlc_blocks_def)
      show "distinct (map snd (rlc_tbl ?s))" using rlc_okD(3) [OF ok] tbl by simp
      show "us_heap ?s q = us_heap s q" if "q \<in> own s" "\<forall>c. us_heap s q \<noteq> Some (RlcObj c)" for q
        using that block(4) c by (auto simp: heap block(5))
    next
      fix q d assume q: "q \<in> set (gRlcUeContextList s)" "us_heap s q = Some (RlcObj d)" "rl_deleteFlag d = 0"
      have "q \<noteq> pe" using q(1) rlc_blocks_own [OF ok] block(4) by (auto simp: rlc_blocks_def)
      then show "\<exists>c'. us_heap ?s q = Some (RlcObj c') \<and> rl_rnti c' = rl_rnti d \<and> rl_deleteFlag c' = 0 \<and>
          (\<forall>k<MAX_LC_ID. rl_rxAMEntityArray c' k = rl_rxAMEntityArray d k \<or> rl_rxAMEntityArray d k = NULL \<and>
            rl_rxAMEntityArray c' k \<in> {pe} \<and> blank_at ?s (rl_rnti d) k (rl_rxAMEntityArray c' k))"
        using q c n bl by (cases "q = p") (auto simp: heap block(5))
    qed (use effD(6-9) [OF f] rlc_okD(2) [OF ok] block(4) list in simp_all)
    moreover have "receiver_ptr ?s (rl_rnti c) k = pe"
    proof -
      have "(p, rl_rnti c) \<in> set (rlc_tbl s)" using p c by (auto simp: rlc_tbl_def rlc_rnti_def)
      then have r: "rl_rnti c \<in> snd ` set (rlc_tbl s)" by force
      have "lookup_rnti (rlc_tbl s) (rl_rnti c) \<noteq> NULL"
      proof -
        have "NULL \<notin> fst ` set (rlc_tbl s)" using rlc_blocks_own [OF ok] own_nonnull [OF ok0, of NULL] by (auto simp: rlc_tbl_def rlc_blocks_def)
        with r show ?thesis by (simp add: lookup_rnti_None)
      qed
      then have "(lookup_rnti (rlc_tbl s) (rl_rnti c), rl_rnti c) \<in> set (rlc_tbl s)" by (rule lookup_rnti_in)
      then have l: "lookup_rnti (rlc_tbl s) (rl_rnti c) \<in> set (gRlcUeContextList s)"
        "rlc_rnti s (lookup_rnti (rlc_tbl s) (rl_rnti c)) = rlc_rnti s p"
        using c by (auto simp: rlc_tbl_def rlc_rnti_def)
      then have "lookup_rnti (rlc_tbl s) (rl_rnti c) = p" using rlc_tbl_inj [OF ok l(1) p l(2)] by simp
      then show ?thesis using k by (simp add: receiver_ptr_def tbl get_rlc [OF hp])
    qed
    moreover have "spare n ?s" if "spare (Suc n) s" for n using new_spare(2) [OF ok0 block(1) that] by simp
    moreover have "RlcCreateRxAmEntity s p lc = Some (pe, ?s)" using block(1,2) nn k(1) by (simp add: run)
    ultimately show thesis using block(2) bl rec by (intro that(2) [of pe ?s]) simp_all
  qed
qed

lemma RlcGet_run:
  assumes "rlc_ok s"
  shows "RlcGetUeContext s rnti = Some (lookup_rnti (rlc_tbl s) rnti)"
proof -
  have "rlc_search s ps rnti = Some (lookup_rnti (map (\<lambda>p. (p, rlc_rnti s p)) ps) rnti)"
    if "set ps \<subseteq> set (gRlcUeContextList s)" for ps
    using that
  proof (induction ps)
    case (Cons p ps)
    obtain c where "us_heap s p = Some (RlcObj c)" "rlc_rnti s p = rl_rnti c"
      using Cons.prems by (auto intro: rlc_ctx [OF assms, of p])
    with Cons show ?case by simp
  qed simp
  then show ?thesis by (simp add: RlcGetUeContext_def rlc_tbl_def)
qed

text \<open>The context for a packet: found and touched, or created.\<close>

definition obtain_context :: "ulp_state \<Rightarrow> u16 \<Rightarrow> ptr \<Rightarrow> (ptr \<times> ulp_state) option" where
  "obtain_context s rnti p = (if p = NULL then RlcCreateUeContext s rnti
     else do {
       c \<leftarrow> get_obj the_rlc s p;
       if rl_deleteFlag c \<noteq> 0 then Some (NULL, s)
       else do { s \<leftarrow> RlcUpdateUeContextTime s p 0; Some (p, s) } })"

lemma rlc_receiver_alt:
  "rlc_receiver s rnti lcId = do {
     p \<leftarrow> RlcGetUeContext s rnti;
     (p, s) \<leftarrow> obtain_context s rnti p;
     if p = NULL then Some (NULL, s)
     else do {
       pe \<leftarrow> RlcGetRxAmEntity s p (ucast lcId);
       if pe = NULL then RlcCreateRxAmEntity s p (ucast lcId) else Some (pe, s) } }"
  by (simp add: rlc_receiver_def obtain_context_def)

lemma obtain_context_run [consumes 1, case_names none block]:
  assumes ok: "rlc_ok s"
  obtains (none) "obtain_context s rnti (lookup_rnti (rlc_tbl s) rnti) = Some (NULL, s)" "\<not> spare 1 s"
  | (block) p c s' where "obtain_context s rnti (lookup_rnti (rlc_tbl s) rnti) = Some (p, s')" "p \<noteq> NULL" "grown_to s s'"
      "p \<in> set (gRlcUeContextList s')" "us_heap s' p = Some (RlcObj c)" "rl_rnti c = rnti" "lookup_rnti (rlc_tbl s') rnti = p"
      "\<And>n. spare (Suc n) s \<Longrightarrow> spare n s'"
proof -
  let ?p = "lookup_rnti (rlc_tbl s) rnti"
  have l0: "NULL \<notin> fst ` set (rlc_tbl s)"
    using rlc_blocks_own [OF ok] own_nonnull [OF rlc_okD(1) [OF ok], of NULL] by (auto simp: rlc_tbl_def rlc_blocks_def)
  show thesis
  proof (cases "rnti \<in> snd ` set (rlc_tbl s)")
    case True
    then have nn: "?p \<noteq> NULL" using l0 by (simp add: lookup_rnti_None)
    then have p: "?p \<in> set (gRlcUeContextList s)" "rlc_rnti s ?p = rnti" using lookup_rnti_in [of "rlc_tbl s" rnti] by (auto simp: rlc_tbl_def)
    obtain c where c: "us_heap s ?p = Some (RlcObj c)" "rl_deleteFlag c = 0" "rlc_rnti s ?p = rl_rnti c"
      by (rule rlc_ctx [OF ok p(1)]) blast
    let ?c = "c\<lparr>rl_idleCount := 0\<rparr>"
    let ?s = "put_obj ?p (RlcObj ?c) s"
    have g: "grown_to s ?s" by (rule touch_context [OF ok p(1) c(1)])
    have "rlc_tbl ?s = rlc_tbl s" by (rule touch_tbl [OF c(1)])
    then show thesis
      using g p nn c by (intro block [of ?p ?s ?c])
        (simp_all add: obtain_context_def RlcUpdateUeContextTime_def get_rlc [OF c(1)] spare_le)
  next
    case False
    then have n: "?p = NULL" using l0 by (simp add: lookup_rnti_None)
    show thesis using ok False
    proof (cases rule: create_context [of s rnti])
      case none
      then show thesis using n by (intro that(1)) (simp_all add: obtain_context_def)
    next
      case (block p s')
      have l: "map fst (rlc_tbl s') = gRlcUeContextList s'" by (simp add: rlc_tbl_def comp_def)
      have "p \<in> set (gRlcUeContextList s')" unfolding l [symmetric] block(4) by simp
      moreover have "lookup_rnti (rlc_tbl s') rnti = p" using False l0 by (simp add: block(4) lookup_rnti_append)
      ultimately show thesis using block n by (intro that(2) [OF _ _ _ _ block(5)]) (simp_all add: obtain_context_def)
    qed
  qed
qed

lemma receiver_run [consumes 2, case_names none block]:
  assumes ok: "rlc_ok s" and lc: "unat lcId < MAX_LC_ID"
  obtains (none) s' where "rlc_receiver s rnti lcId = Some (NULL, s')" "grown_to s s'" "\<not> spare 2 s"
  | (block) pe e s' where "rlc_receiver s rnti lcId = Some (pe, s')" "pe \<noteq> NULL" "grown_to s s'" "pe \<in> receivers s'"
      "receiver_ptr s' rnti (unat lcId) = pe" "us_heap s' pe = Some (AmObj e)" "am_rnti e = rnti" "am_lcId e = lcId"
      "\<And>n. spare (n + 2) s \<Longrightarrow> spare n s'"
  using ok
proof (cases rule: obtain_context_run [of s rnti])
  case none
  then have "\<not> spare 2 s" using spare_le [of 2 s 1] by auto
  with none grown_refl [OF ok] show thesis by (intro that(1)) (simp_all add: rlc_receiver_alt RlcGet_run [OF ok])
next
  case ctx: (block p c s1)
  let ?k = "unat lcId"
  note ok1 = grown_toD(1) [OF ctx(3)]
  have lc16: "(ucast lcId :: u16) = of_nat ?k" by simp
  have k16: "unat (ucast lcId :: u16) = ?k"
    by (simp add: unsigned_ucast_eq take_bit_nat_eq_self_iff less_trans [OF unsigned_less])
  have run: "rlc_receiver s rnti lcId = (if rl_rxAMEntityArray c ?k = NULL then RlcCreateRxAmEntity s1 p (ucast lcId)
      else Some (rl_rxAMEntityArray c ?k, s1))"
    using ctx(1,2) lc k16
    by (simp add: rlc_receiver_alt RlcGet_run [OF ok] RlcGetRxAmEntity_def get_rlc [OF ctx(5)])
  show thesis
  proof (cases "rl_rxAMEntityArray c ?k = NULL")
    case True
    from ok1 ctx(4,5) lc lc16 True show thesis
    proof (cases rule: create_receiver [of s1 p c ?k "ucast lcId"])
      case none
      then have "\<not> spare 2 s" using ctx(8) [of 1] by (auto simp: spare_two)
      with none True ctx(3) show thesis by (intro that(1)) (simp_all add: run)
    next
      case (block pe s2)
      have "spare n s2" if "spare (n + 2) s" for n using that block(7) [of n] ctx(8) [of "Suc n"] by simp
      then show thesis using block True ctx(6) grown_trans [OF ctx(3) block(3)]
        by (intro that(2) [of pe s2 "blank_entity (rl_rnti c) (of_nat ?k)"]) (simp_all add: run, simp_all add: blank_entity_def)
    qed
  next
    case False
    have r: "rl_rxAMEntityArray c ?k \<in> receivers s1" by (rule slot_receiver [OF ctx(4,5) lc False])
    have "receiver_ok s1 (rl_rnti c) ?k (rl_rxAMEntityArray c ?k)"
      by (rule rlc_ctx [OF ok1 ctx(4)]) (use ctx(5) False lc in auto)
    then obtain e where e: "us_heap s1 (rl_rxAMEntityArray c ?k) = Some (AmObj e)" "am_rnti e = rnti" "am_lcId e = lcId"
      using ctx(6) by (auto simp: receiver_ok_def rx_at_def)
    have "receiver_ptr s1 rnti ?k = rl_rxAMEntityArray c ?k" by (simp add: receiver_ptr_def ctx(7) get_rlc [OF ctx(5)])
    moreover have "spare n s1" if "spare (n + 2) s" for n using that ctx(8) [of n] spare_le [of "n + 2" s "Suc n"] by simp
    ultimately show thesis using False r e ctx(3) by (intro that(2) [of "rl_rxAMEntityArray c ?k" s1 e]) (simp_all add: run)
  qed
qed

end
