(* ===== verification/Rlc_Refinement.thy ===== *)
theory Rlc_Refinement
  imports Rlc_Tables
begin

text \<open>
  \<open>RlcProcessAMRxPacket\<close> refines the abstract receiver: a packet that holds an encoded PDU
  changes the receiver of its bearer as \<open>rx_dfes\<close> says for the elements of the format, delivers
  exactly the SDUs it says, leaves every other receiver alone, and uses up its buffer.
\<close>

section \<open>A PDU enters the ring\<close>

definition join_room :: "ulp_state \<Rightarrow> ptr \<Rightarrow> ptr \<Rightarrow> nat \<Rightarrow> bool" where
  "join_room s p q m \<longleftrightarrow> (\<exists>n k. mp_nodes (us_mem s) p = Some n \<and> mp_nodes (us_mem s) q = Some k \<and>
     unat (mn_length n) + m < 2 ^ 16 \<and> (unat (mn_length n) + m \<le> unat (mn_size n) \<or>
       unat (mn_size k) < unat (mn_length n) + m \<or> m \<le> unat (mn_length n)))"

definition pdu_entered :: "ulp_state \<Rightarrow> ulp_state \<Rightarrow> ptr \<Rightarrow> RxAMEntity \<Rightarrow> rx_state \<Rightarrow> nat \<Rightarrow> ptr \<Rightarrow> u8 \<Rightarrow> u16 list \<Rightarrow> u8 list \<Rightarrow>
    ptr \<Rightarrow> ptr \<Rightarrow> (ptr \<times> ptr \<times> RlcSduStatus \<times> u8 list) list \<Rightarrow> bool" where
  "pdu_entered s s' pe e r i buf fi lens payload pp pg xs \<longleftrightarrow>
     rx_at s' pe (e\<lparr>am_ring := (am_ring e)(i := \<lparr>rn_status = RS_IN_USE, rn_data = pp\<rparr>)\<rparr>) r \<and>
     pdu_at s' pp pg xs \<and> dfe_data xs = amd_elements fi lens payload \<and> (\<exists>d ys. xs = (hd (map fst xs), buf, d) # ys) \<and>
     eff {pe, buf} (insert pe (pdu_blocks pp pg xs)) [] s s' \<and> pe \<notin> pdu_blocks pp pg xs \<and>
     (\<forall>n. mp_nodes (us_mem s) buf = Some n \<longrightarrow> (\<exists>n'. mp_nodes (us_mem s') buf = Some n' \<and>
        mn_size n' = mn_size n \<and> unat (mn_length n') = length payload))"

lemma create_pdu [consumes 2, case_names none block]:
  assumes ok: "rrc_ok s" and pe: "pe \<noteq> NULL"
  obtains (none) "RlcCreateAmdPdu s pe r = Some (NULL, s)" "\<not> spare 1 s"
  | (block) pp p s' where "RlcCreateAmdPdu s pe r = Some (pp, s')" "pp \<noteq> NULL" "eff {} {pp} [] s s'" "pp \<notin> own s"
      "us_heap s' = (us_heap s)(pp \<mapsto> PduObj p)" "pd_segList p = []" "\<And>n. spare (Suc n) s \<Longrightarrow> spare n s'"
proof -
  let ?p = "\<lparr>pd_status = junk_status (us_junk s (us_tick s) 0), pd_segList = []\<rparr>"
  have nr: "\<not> is_rrc (PduObj ?p)" by simp
  from ok nr show thesis
  proof (cases rule: eff_new [of s "PduObj ?p" sizeof_AmdPdu])
    case none
    then show thesis using new_spare(1) [OF ok none, of 0] pe by (intro that(1)) (auto simp: RlcCreateAmdPdu_def)
  next
    case (block pp s1)
    let ?s = "s1\<lparr>us_tick := us_tick s1 + 1\<rparr>"
    have v: "eff {} {} [] s1 ?s" by (rule eff_view [OF effD(1) [OF block(3)]]) simp
    have "eff {} {pp} [] s ?s" by (rule eff_comp [OF block(3) v]) simp_all
    moreover have "spare n ?s" if "spare (Suc n) s" for n using new_spare(2) [OF ok block(1) that] by (simp add: spare_def)
    ultimately show thesis using block pe by (intro that(2) [of pp ?s ?p]) (simp_all add: RlcCreateAmdPdu_def)
  qed
qed

text \<open>Both ways to decode a PDU, in one statement.\<close>

lemma decode_pdu:
  assumes ok: "rrc_ok s" and p: "us_heap s pp = Some (PduObj p)" "pd_segList p = []"
    and b: "buffer s buf (amd_pdu pb fi sn lens payload)" and f: "amd_fields pb fi sn lens"
    and i: "rd_buffer i = buf" "rd_length i = of_nat (length (amd_pdu pb fi sn lens payload))"
  shows "(\<exists>s'. RlcDecodeAmdPdu s pp (decoded pb fi sn lens h0) i = Some (False, s') \<and> eff {buf} {} [] s s' \<and>
      \<not> (lens_sum lens \<le> length payload \<and> spare (2 + 2 * length lens) s)) \<or>
    (\<exists>s' pg xs. RlcDecodeAmdPdu s pp (decoded pb fi sn lens h0) i = Some (True, s') \<and>
       pdu_decoded s s' pp p buf fi lens payload pg xs \<and>
       eff {pp, buf} (insert pp (insert pg (dfe_blocks xs))) [] s s' \<and> pg \<noteq> pp \<and> lens_sum lens \<le> length payload \<and>
       (\<forall>n. spare (n + 2 + 2 * length lens) s \<longrightarrow> spare n s'))"
proof (cases "lens = []")
  case True
  then have b': "buffer s buf (amd_pdu pb fi sn [] payload)" "amd_fields pb fi sn []"
    "rd_length i = of_nat (length (amd_pdu pb fi sn [] payload))" using b f i(2) by simp_all
  from decode_single [OF ok p b'(1,2) i(1) b'(3) refl, of h0] True show ?thesis by auto
next
  case False
  from decode_concatenated [OF ok p False b f i refl, of h0] show ?thesis by blast
qed

lemma delete_pdu_empty:
  assumes ok: "rrc_ok s" and p: "us_heap s pp = Some (PduObj p)" "pd_segList p = []"
  obtains s' where "RlcDeleteAmdPdu s pp = Some s'" "eff {pp} {} [] s s'"
proof -
  have own: "pp \<in> own s" by (rule own_obj [OF ok p(1)]) simp
  obtain s' where "us_free s pp = Some s'" "eff {pp} {} [] s s'" by (rule eff_free [OF ok own])
  with p own_nonnull [OF ok own] show thesis
    by (intro that [of s']) (simp_all add: RlcDeleteAmdPdu_def get_obj_def the_pdu_def)
qed

lemma new_pdu_run:
  assumes ok: "rrc_ok s" and rx: "rx_at s pe e r" and ring: "free_ring e" and nb: "buf \<notin> partial_blocks e"
    and b: "buffer s buf (amd_pdu pb fi sn lens payload)" and f: "amd_fields pb fi sn lens"
    and i: "rd_buffer i = buf" "rd_length i = of_nat (length (amd_pdu pb fi sn lens payload))"
  shows "(\<exists>s' x. rlc_new_pdu s pe k (decoded pb fi sn lens h0) i = Some (x, s') \<and> x \<noteq> Some True \<and> eff {buf} {} [] s s' \<and>
      \<not> (lens_sum lens \<le> length payload \<and> spare (3 + 2 * length lens) s)) \<or>
    (\<exists>s' pp pg xs. rlc_new_pdu s pe k (decoded pb fi sn lens h0) i = Some (Some True, s') \<and>
       pdu_entered s s' pe e r k buf fi lens payload pp pg xs \<and> lens_sum lens \<le> length payload \<and>
       (\<forall>n. spare (n + 3 + 2 * length lens) s \<longrightarrow> spare n s'))"
proof -
  let ?h = "decoded pb fi sn lens h0"
  have pe: "us_heap s pe = Some (AmObj e)" using rx by (simp add: rx_at_def)
  have own: "pe \<in> own s" "buf \<in> own s" "buf \<noteq> pe" "pe \<noteq> NULL"
    using own_obj [OF ok pe] own_nonnull [OF ok, of pe] b pe by (auto simp: buffer_def own_raw)
  have h: "ah_rf ?h = 0" by (simp add: decoded_def)
  have old: "rn_data (am_ring e k) = NULL" using ring by (simp add: free_ring_def)
  from ok own(4) show ?thesis
  proof (cases rule: create_pdu [of s pe "of_nat k"])
    case none
    obtain s1 where s1: "us_free s buf = Some s1" "eff {buf} {} [] s s1" by (rule eff_free [OF ok own(2)])
    have "\<not> spare (3 + 2 * length lens) s" using none(2) spare_le [of "3 + 2 * length lens" s 1] by auto
    with s1 none(1) old show ?thesis
      by (intro disjI1 exI [of _ s1] exI [of _ None]) (simp add: rlc_new_pdu_def get_am [OF pe] i(1))
  next
    case (block pp p s1)
    have ok1: "rrc_ok s1" by (rule effD(1) [OF block(3)])
    have ne: "pp \<noteq> buf" "pp \<noteq> pe" using block(4) own by auto
    have p1: "us_heap s1 pp = Some (PduObj p)" by (simp add: block(5))
    have b1: "buffer s1 buf (amd_pdu pb fi sn lens payload)" by (rule eff_buffer [OF block(3) b]) simp
    have run: "rlc_new_pdu s pe k ?h i = do {
        (r, s) \<leftarrow> do {
            (r, s) \<leftarrow> RlcDecodeAmdPdu s1 pp ?h i;
            if r then do {
              p \<leftarrow> get_obj the_pdu s pp;
              Some (True, put_obj pp (PduObj (p\<lparr>pd_status := PDU_AM_COMPLETE\<rparr>)) s)
            } else Some (False, s) };
       if r then do {
         s \<leftarrow> set_ring pe k \<lparr>rn_status = RS_IN_USE, rn_data = pp\<rparr> s;
         Some (Some True, s)
       } else do {
         s \<leftarrow> RlcDeleteAmdPdu s pp;
         Some (Some False, s)
       } }"
      using block(1,2) old h by (simp add: rlc_new_pdu_def get_am [OF pe] Let_def)
    from decode_pdu [OF ok1 p1 block(6) b1 f i, of h0] show ?thesis
    proof (elim disjE exE conjE)
      fix s2
      assume d: "RlcDecodeAmdPdu s1 pp ?h i = Some (False, s2)" "eff {buf} {} [] s1 s2"
        "\<not> (lens_sum lens \<le> length payload \<and> spare (2 + 2 * length lens) s1)"
      have p2: "us_heap s2 pp = Some (PduObj p)" using ne by (intro eff_obj [OF d(2) p1] ok1) simp_all
      obtain s3 where s3: "RlcDeleteAmdPdu s2 pp = Some s3" "eff {pp} {} [] s2 s3"
        by (rule delete_pdu_empty [OF effD(1) [OF d(2)] p2 block(6)])
      have "eff {buf} {pp} [] s s2" using ne by (intro eff_comp [OF block(3) d(2)]) auto
      then have "eff {buf} {} [] s s3" using block(4) by (intro eff_comp [OF _ s3(2)]) auto
      moreover have "\<not> (lens_sum lens \<le> length payload \<and> spare (3 + 2 * length lens) s)"
        using d(3) block(7) [of "2 + 2 * length lens"] by (auto simp: numeral_3_eq_3)
      ultimately show ?thesis using d(1) s3(1) by (intro disjI1 exI [of _ s3] exI [of _ "Some False"]) (simp add: run)
    next
      fix s2 pg xs
      assume d: "RlcDecodeAmdPdu s1 pp ?h i = Some (True, s2)" "pdu_decoded s1 s2 pp p buf fi lens payload pg xs"
        "eff {pp, buf} (insert pp (insert pg (dfe_blocks xs))) [] s1 s2" "pg \<noteq> pp" "lens_sum lens \<le> length payload"
        "\<forall>n. spare (n + 2 + 2 * length lens) s1 \<longrightarrow> spare n s2"
      have ok2: "rrc_ok s2" by (rule effD(1) [OF d(3)])
      obtain g where dd: "us_heap s2 pp = Some (PduObj (p\<lparr>pd_segList := [pg]\<rparr>))" "us_heap s2 pg = Some (SegObj g)"
        "sg_dfeQ g = map fst xs" "dfes s2 xs" "dfe_data xs = amd_elements fi lens payload"
        "\<exists>d ys. xs = (hd (map fst xs), buf, d) # ys"
        "\<And>n. mp_nodes (us_mem s1) buf = Some n \<Longrightarrow> \<exists>n'. mp_nodes (us_mem s2) buf = Some n' \<and>
          mn_size n' = mn_size n \<and> unat (mn_length n') = length payload"
        using d(2) by (auto simp: pdu_decoded_def)
      have f2: "eff {buf} (pdu_blocks pp pg xs) [] s s2"
        using ne unfolding pdu_blocks_def by (intro eff_comp [OF block(3) d(3)]) auto
      have pe2: "pe \<notin> pdu_blocks pp pg xs" using effD(3) [OF f2] own by auto
      let ?p = "\<lparr>pd_status = PDU_AM_COMPLETE, pd_segList = [pg]\<rparr>"
      have upd: "p\<lparr>pd_segList := [pg], pd_status := PDU_AM_COMPLETE\<rparr> = ?p" by (cases p) simp
      let ?s3 = "put_obj pp (PduObj ?p) s2"
      have f23: "eff {pp} {pp} [] s2 ?s3" by (rule eff_put [OF ok2 dd(1)]) simp_all
      have f3: "eff {buf} (pdu_blocks pp pg xs) [] s ?s3"
        by (rule eff_comp [OF f2 f23]) (use block(4) in \<open>auto simp: pdu_blocks_def\<close>)
      have ppd: "pp \<notin> dfe_blocks xs" using dfes_own(2) [OF ok2 dd(4), of pp] dd(1) by auto
      have d3: "dfes ?s3 xs" by (rule dfes_eff [OF f23 ok2 dd(4)]) (use ppd in simp)
      have rx3: "rx_at ?s3 pe e r" using own nb by (intro rx_at_eff [OF f3 ok rx]) auto
      obtain s4 where s4: "set_ring pe k \<lparr>rn_status = RS_IN_USE, rn_data = pp\<rparr> ?s3 = Some s4"
        "rx_at s4 pe (e\<lparr>am_ring := (am_ring e)(k := \<lparr>rn_status = RS_IN_USE, rn_data = pp\<rparr>)\<rparr>) r" "eff {pe} {pe} [] ?s3 s4"
        by (rule ring_step [OF effD(1) [OF f3] rx3])
      have f4: "eff {pe, buf} (insert pe (pdu_blocks pp pg xs)) [] s s4"
        by (rule eff_comp [OF f3 s4(3)]) (use pe2 own in auto)
      have h4: "us_heap s4 q = us_heap ?s3 q" if "q \<in> pdu_blocks pp pg xs" for q
      proof -
        have "q \<notin> {pe}" "q \<in> own ?s3" using that pe2 effD(2) [OF f3] by auto
        then show ?thesis using effD(5) [OF s4(3)] by blast
      qed
      have pdu: "pdu_at s4 pp pg xs"
        unfolding pdu_at_def
      proof (intro conjI)
        show "us_heap s4 pp = Some (PduObj ?p)" using h4 [of pp] by (simp add: pdu_blocks_def)
        show "\<exists>g. us_heap s4 pg = Some (SegObj g) \<and> sg_dfeQ g = map fst xs"
          using h4 [of pg] dd(2,3) d(4) by (simp add: pdu_blocks_def)
        show "dfes s4 xs" by (rule dfes_eff [OF s4(3) effD(1) [OF f3] d3]) (use pe2 in \<open>auto simp: pdu_blocks_def\<close>)
      qed
      have mem: "us_mem s4 = us_mem s2" using s4(1) by (auto simp: set_ring_def bind_Some_iff)
      have "mp_nodes (us_mem s1) buf = mp_nodes (us_mem s) buf" using effD(4) [OF block(3)] own by (simp add: mem_kept_def)
      then have "pdu_entered s s4 pe e r k buf fi lens payload pp pg xs"
        unfolding pdu_entered_def using s4(2) pdu dd(5,6,7) f4 pe2 mem by simp
      moreover have "rlc_new_pdu s pe k ?h i = Some (Some True, s4)"
      proof -
        have "rlc_new_pdu s pe k ?h i = do {
            s \<leftarrow> set_ring pe k \<lparr>rn_status = RS_IN_USE, rn_data = pp\<rparr> (put_obj pp (PduObj (p\<lparr>pd_segList := [pg], pd_status := PDU_AM_COMPLETE\<rparr>)) s2);
            Some (Some True, s) }"
          using d(1) dd(1) by (simp add: run get_obj_def the_pdu_def)
        then show ?thesis unfolding upd using s4(1) by simp
      qed
      moreover have "spare n s4" if "spare (n + 3 + 2 * length lens) s" for n
      proof -
        have "Suc (n + 2 + 2 * length lens) = n + 3 + 2 * length lens" by simp
        then have "spare n s2" using that d(6) block(7) [of "n + 2 + 2 * length lens"] by metis
        then show ?thesis by (simp add: spare_def mem)
      qed
      ultimately show ?thesis using d(5) by (intro disjI2 exI [of _ s4] exI [of _ pp] exI [of _ pg] exI [of _ xs]) simp
    qed
  qed
qed

section \<open>A packet\<close>

lemma join_room_fits:
  assumes room: "join_room s p buf m" and p: "mp_nodes (us_mem t) p = mp_nodes (us_mem s) p"
    and b: "\<And>n. mp_nodes (us_mem s) buf = Some n \<Longrightarrow> \<exists>n'. mp_nodes (us_mem t) buf = Some n' \<and>
      mn_size n' = mn_size n \<and> unat (mn_length n') = m"
    and sp: "spare 1 t"
  shows "join_fits t p buf"
proof -
  obtain n k where nk: "mp_nodes (us_mem s) p = Some n" "mp_nodes (us_mem s) buf = Some k" "unat (mn_length n) + m < 2 ^ 16"
    "unat (mn_length n) + m \<le> unat (mn_size n) \<or> unat (mn_size k) < unat (mn_length n) + m \<or> m \<le> unat (mn_length n)"
    using room by (auto simp: join_room_def)
  obtain k' where k': "mp_nodes (us_mem t) buf = Some k'" "mn_size k' = mn_size k" "unat (mn_length k') = m"
    using b [OF nk(2)] by blast
  have "joinable t p buf" using nk(1,4) k' p by (auto simp: joinable_def word_le_nat_alt)
  then show ?thesis using sp nk(1,3) k' p by (simp add: join_fits_def)
qed

text \<open>
  The state after a packet: the receiver has become \<open>r'\<close> and the SDUs \<open>os\<close>
  have been delivered.
\<close>

definition packet_done :: "ulp_state \<Rightarrow> ulp_state \<Rightarrow> ptr \<Rightarrow> u16 \<Rightarrow> u8 \<Rightarrow> rx_state \<Rightarrow> (u8 list \<times> UlReportInfo list) list \<Rightarrow> bool" where
  "packet_done s s' buf rnti lc r' os \<longleftrightarrow> rlc_ok s' \<and> rx_of s' rnti (unat lc) = r' \<and>
     (\<forall>q. \<forall>k<MAX_LC_ID. (q, k) \<noteq> (rnti, unat lc) \<longrightarrow> rx_of s' q k = rx_of s q k) \<and>
     rlc_log s' = rlc_log s @ map (\<lambda>(bs, gs). (rnti, lc, bs, gs)) os \<and>
     own s' - rlc_blocks s' = own s - rlc_blocks s - {buf} \<and>
     mac_ready s' \<and> (\<forall>q. mac_grant s' q = mac_grant s q) \<and> gMacUeContext s' = gMacUeContext s \<and>
     gRecvdPhyDataList s' = gRecvdPhyDataList s \<and> mem_kept (own s - rlc_blocks s - {buf}) (us_mem s) (us_mem s') \<and>
     (\<forall>q\<in>own s - rlc_blocks s - {buf}. (\<forall>c. us_heap s q \<noteq> Some (RlcObj c)) \<longrightarrow> us_heap s' q = us_heap s q)"

lemma mac_blocks: "rlc_ok s \<Longrightarrow> mac_ready s \<Longrightarrow> rlc_blocks s \<inter> set (gMacUeContext s) = {}"
proof -
  assume ok: "rlc_ok s" and m: "mac_ready s"
  have "q \<notin> rlc_blocks s" if "us_heap s q = Some (MacObj c)" for q c
  proof -
    have "q \<notin> set (gRlcUeContextList s)" using that by (auto elim: rlc_ctx [OF ok])
    moreover have "q \<notin> receivers s" using that by (auto elim: receiverE [OF ok])
    moreover have "q \<notin> partial_of s pe" if "pe \<in> receivers s" for pe
      using partial_raw [OF ok that] \<open>us_heap s q = _\<close> by (auto simp: own_raw)
    ultimately show ?thesis by (auto simp: rlc_blocks_def)
  qed
  then show ?thesis using m by (force simp: mac_ready_def)
qed

lemma receiver_ptr_inj:
  assumes ok: "rlc_ok s" and k: "k < MAX_LC_ID" "j < MAX_LC_ID" and e: "receiver_ptr s q j = receiver_ptr s r k" "receiver_ptr s r k \<noteq> NULL"
  shows "q = r \<and> j = k"
proof -
  have at: "\<exists>p c. p \<in> set (gRlcUeContextList s) \<and> us_heap s p = Some (RlcObj c) \<and> receiver_ptr s r k = rl_rxAMEntityArray c k \<and> rl_rnti c = r"
    if "receiver_ptr s r k \<noteq> NULL" for r k
  proof -
    let ?p = "lookup_rnti (rlc_tbl s) r"
    have "?p \<noteq> NULL"
      using that heap_NULL [OF rlc_okD(1) [OF ok]] by (cases "?p = NULL") (simp_all add: receiver_ptr_def get_obj_def)
    then have p: "?p \<in> set (gRlcUeContextList s)" "rlc_rnti s ?p = r"
      using lookup_rnti_in [of "rlc_tbl s" r] by (auto simp: rlc_tbl_def)
    show ?thesis
    proof (rule rlc_ctx [OF ok p(1)])
      fix c assume c: "us_heap s ?p = Some (RlcObj c)" "rlc_rnti s ?p = rl_rnti c"
      then have "receiver_ptr s r k = rl_rxAMEntityArray c k" by (simp add: receiver_ptr_def get_rlc [OF c(1)])
      with p c show ?thesis by metis
    qed
  qed
  obtain p c where p: "p \<in> set (gRlcUeContextList s)" "us_heap s p = Some (RlcObj c)" "receiver_ptr s r k = rl_rxAMEntityArray c k" "rl_rnti c = r"
    using at [OF e(2)] by blast
  obtain p' c' where p': "p' \<in> set (gRlcUeContextList s)" "us_heap s p' = Some (RlcObj c')" "receiver_ptr s q j = rl_rxAMEntityArray c' j" "rl_rnti c' = q"
    using at [of q j] e by auto
  have "p' = p" "j = k" using slot_unique [OF ok p'(1,2) k(2) p(1,2) k(1)] e p(3) p'(3) by simp_all
  then show ?thesis using p p' by simp
qed

lemma am_packet_run:
  assumes ok: "rlc_ok s" and mac: "mac_ready s" and lc: "rd_lcId i = lc" "lc = 1 \<or> lc = 2"
    and b: "buffer s buf (amd_pdu pb fi sn lens payload)" and nb: "buf \<notin> rlc_blocks s" and f: "amd_fields pb fi sn lens"
    and i: "rd_buffer i = buf" "rd_length i = of_nat (length (amd_pdu pb fi sn lens payload))"
    and sum: "lens_sum lens \<le> length payload" and sp: "spare (6 + 2 * length lens) s"
    and join: "\<And>n part. fst (rx_of s rnti (unat lc)) = Some (n, part) \<Longrightarrow> needs_join sn (fst (hd (amd_elements fi lens payload))) n \<Longrightarrow>
      join_room s (partial_ptr s rnti (unat lc)) buf (length payload)"
    and rx: "rx_dfes (mac_grant s rnti) sn (amd_elements fi lens payload) (rx_of s rnti (unat lc)) = (r', os)" and out: "out_ok lc os"
  shows "\<exists>s'. RlcProcessAMRxPacket s i rnti = Some s' \<and> packet_done s s' buf rnti lc r' os"
proof -
  let ?k = "unat lc" and ?h = "decoded pb fi sn lens no_header" and ?n = "unat (sn AND 511)"
  note ok0 = rlc_okD(1) [OF ok]
  have k: "?k < MAX_LC_ID" "\<not> lc > 2" using lc(2) by auto
  have hdr: "RlcDecodeAmdHeader s i no_header = Some (True, ?h)" using header_decode [OF _ f i(2) ok0, of no_header] b i(1) by simp
  have hh: "ah_dc ?h \<noteq> 0" "ah_sn ?h = sn" by (simp_all add: decoded_def)
  have bo: "buf \<in> own s" using b by (simp add: buffer_def own_raw)
  have sp2: "spare (4 + 2 * length lens + 2) s" using sp by simp
  from ok k(1) show ?thesis
  proof (cases rule: receiver_run [of s lc rnti])
    case none
    then show ?thesis using spare_le [OF sp, of 2] by simp
  next
    case (block pe e s1)
    note ok1 = grown_toD(1) [OF block(3)]
    note ok10 = rlc_okD(1) [OF ok1]
    obtain e' where e': "us_heap s1 pe = Some (AmObj e')" "rx_at s1 pe e' (rx_value s1 e')" "free_ring e'" "partial_of s1 pe = partial_blocks e'"
      by (rule receiverE [OF ok1 block(4)]) blast
    have e: "rx_at s1 pe e (rx_value s1 e)" "free_ring e" "partial_of s1 pe = partial_blocks e"
      using e' block(6) by simp_all
    have rv: "rx_value s1 e = rx_of s rnti ?k"
      using grown_toD(8) [OF block(3) k(1), of rnti] block(5,6) by (simp add: rx_of_def)
    have pp: "rb_pData (rs_rawSdu (am_rxRawSdu e)) = partial_ptr s rnti ?k"
      using grown_toD(11) [OF block(3) k(1), of rnti] block(5,6) by (simp add: partial_ptr_def)
    have b1: "buffer s1 buf (amd_pdu pb fi sn lens payload)" by (rule grown_buffer [OF block(3) b])
    have nb1: "buf \<notin> rlc_blocks s1" using grown_toD(9) [OF block(3)] nb bo by blast
    have nbp: "buf \<notin> partial_blocks e" using nb1 block(4) e(3) by (auto simp: rlc_blocks_def)
    have m1: "mac_ready s1" "mac_grant s1 q = mac_grant s q" for q using grown_mac [OF block(3) ok0 mac] by simp_all
    have sp1: "spare (1 + 3 + 2 * length lens) s1" using block(9) [OF sp2] by simp
    from new_pdu_run [OF ok10 e(1,2) nbp b1 f i, of ?n no_header]
    obtain s2 pd pg xs where n: "rlc_new_pdu s1 pe ?n ?h i = Some (Some True, s2)"
      "pdu_entered s1 s2 pe e (rx_value s1 e) ?n buf fi lens payload pd pg xs" and sp_2: "spare 1 s2"
      using sum sp1 spare_le [OF sp1, of "3 + 2 * length lens"] by auto
    let ?e = "e\<lparr>am_ring := (am_ring e)(?n := \<lparr>rn_status = RS_IN_USE, rn_data = pd\<rparr>)\<rparr>"
    have n2: "rx_at s2 pe ?e (rx_of s rnti ?k)" "pdu_at s2 pd pg xs" "dfe_data xs = amd_elements fi lens payload"
      "\<exists>d ys. xs = (hd (map fst xs), buf, d) # ys" "eff {pe, buf} (insert pe (pdu_blocks pd pg xs)) [] s1 s2" "pe \<notin> pdu_blocks pd pg xs"
      "\<And>n. mp_nodes (us_mem s1) buf = Some n \<Longrightarrow> \<exists>n'. mp_nodes (us_mem s2) buf = Some n' \<and>
        mn_size n' = mn_size n \<and> unat (mn_length n') = length payload"
      using n(2) rv by (simp_all add: pdu_entered_def)
    have ok2: "rrc_ok s2" by (rule effD(1) [OF n2(5)])
    have pe1: "pe \<in> own s1" and part1: "partial_blocks e \<subseteq> own s1" and peM: "insert pe (partial_blocks e) \<subseteq> rlc_blocks s1"
    proof -
      have "partial_of s1 pe \<subseteq> rlc_blocks s1" "pe \<in> rlc_blocks s1" using block(4) by (auto simp: rlc_blocks_def)
      then show "pe \<in> own s1" "partial_blocks e \<subseteq> own s1" "insert pe (partial_blocks e) \<subseteq> rlc_blocks s1"
        using rlc_blocks_own [OF ok1] e(3) by auto
    qed
    have pep: "pe \<notin> partial_blocks e" using partial_raw [OF ok1 block(4)] e(3) block(6) by (auto simp: own_raw)
    have "partial_blocks e \<subseteq> own s1 - {pe, buf}" using part1 pep nbp by auto
    then have dj: "pdu_blocks pd pg xs \<inter> partial_blocks e = {}" using effD(3) [OF n2(5)] by blast
    then have disj: "dfe_blocks xs \<inter> partial_blocks ?e = {}" by (auto simp: pdu_blocks_def)
    have bufM: "buf \<notin> set (gMacUeContext s1)"
    proof
      assume "buf \<in> set (gMacUeContext s1)"
      then obtain c where "us_heap s1 buf = Some (MacObj c)" using m1(1) by (auto simp: mac_ready_def)
      with b1 show False by (simp add: buffer_def own_raw)
    qed
    have am: "{pe, buf} \<inter> set (gMacUeContext s1) = {}" using mac_blocks [OF ok1 m1(1)] peM bufM by blast
    note m2 = mac_stays [OF n2(5) ok10 m1(1) am]
    have fit: "join_fits t (rb_pData (rs_rawSdu (am_rxRawSdu ?e))) pb'"
      if x: "xs = (pd', pb', st, bs) # xs'" "fst (rx_of s rnti ?k) = Some (n', part)" "needs_join sn st n'" "us_mem t = us_mem s2"
      for pd' pb' st bs xs' n' part t
    proof -
      have pb: "pb' = buf" using n2(4) x(1) by auto
      have st: "st = fst (hd (amd_elements fi lens payload))" using n2(3) x(1) by (auto simp flip: n2(3))
      have room: "join_room s (partial_ptr s rnti ?k) buf (length payload)" using join [OF x(2)] x(3) st by simp
      have po: "partial_ptr s rnti ?k \<in> own s" using partial_ptr_own [OF ok k(1)] x(2) by simp
      have pn: "partial_ptr s rnti ?k \<in> partial_blocks e"
        using own_nonnull [OF ok0 po] pp by (simp add: partial_blocks_def)
      have "mp_nodes (us_mem s2) (partial_ptr s rnti ?k) = mp_nodes (us_mem s1) (partial_ptr s rnti ?k)"
        using effD(4) [OF n2(5)] part1 pn pep nbp by (auto simp: mem_kept_def)
      moreover have "mp_nodes (us_mem s1) q = mp_nodes (us_mem s) q" if "q \<in> own s" for q
        using grown_toD(2) [OF block(3)] that by (simp add: mem_kept_def)
      ultimately have "mp_nodes (us_mem t) (partial_ptr s rnti ?k) = mp_nodes (us_mem s) (partial_ptr s rnti ?k)"
        "mp_nodes (us_mem s1) buf = mp_nodes (us_mem s) buf" using po bo x(4) by simp_all
      moreover have "spare 1 t" using sp_2 x(4) by (simp add: spare_def)
      ultimately have "join_fits t (partial_ptr s rnti ?k) buf"
        using n2(7) x(4) by (intro join_room_fits [OF room]) simp_all
      then show ?thesis using pp pb by simp
    qed
    have rx2: "rx_dfes (mac_grant s2 (am_rnti ?e)) sn (dfe_data xs) (rx_of s rnti ?k) = (r', os)"
      using rx m2(2) m1(2) block(7) n2(3) by simp
    have tl: "\<forall>x\<in>set (tl (dfe_data xs)). fst x = AM_PDU_MAP_SDU_FULL \<or> fst x = AM_PDU_MAP_SDU_START"
      using amd_elements_tl n2(3) by metis
    have ring: "am_ring ?e ?n = \<lparr>rn_status = RS_IN_USE, rn_data = pd\<rparr>" by simp
    have out2: "out_ok (am_lcId ?e) os" using out block(8) by simp
    have "\<exists>s' e'. RlcReassembleRlcSdu sn pe s2 = Some s' \<and> rx_at s' pe e' r' \<and>
        am_rnti e' = am_rnti ?e \<and> am_lcId e' = am_lcId ?e \<and>
        am_ring e' = (am_ring ?e)(?n := \<lparr>rn_status = RS_FREE, rn_data = NULL\<rparr>) \<and>
        eff (pdu_blocks pd pg xs \<union> insert pe (partial_blocks ?e)) (insert pe (partial_blocks e')) (delivered ?e os) s2 s'"
      by (rule pdu_reassembled [OF ok2 m2(1) n2(1,2) ring disj _ tl rx2 out2]) (rule fit)
    then obtain s3 e3 where s3: "RlcReassembleRlcSdu sn pe s2 = Some s3" "rx_at s3 pe e3 r'" "am_rnti e3 = am_rnti ?e" "am_lcId e3 = am_lcId ?e"
      "am_ring e3 = (am_ring ?e)(?n := \<lparr>rn_status = RS_FREE, rn_data = NULL\<rparr>)"
      "eff (pdu_blocks pd pg xs \<union> insert pe (partial_blocks ?e)) (insert pe (partial_blocks e3)) (delivered ?e os) s2 s3" by blast
    have f3: "eff ({buf} \<union> insert pe (partial_blocks e)) (insert pe (partial_blocks e3)) (delivered e os) s1 s3"
      using n2(6) dj by (intro eff_comp [OF n2(5) s3(6)]) auto
    have fr: "free_ring e3" using s3(5) e(2) by (simp add: free_ring_def)
    have X: "{buf} \<inter> rlc_blocks s1 = {}" using nb1 by simp
    note st = rlc_step [OF ok1 f3 X block(4,6) s3(2) _ _ fr]
    have same: "am_rnti e3 = am_rnti e" "am_lcId e3 = am_lcId e" using s3(3,4) by simp_all
    have am3: "({buf} \<union> insert pe (partial_blocks e)) \<inter> set (gMacUeContext s1) = {}"
      using mac_blocks [OF ok1 m1(1)] peM bufM by blast
    note m3 = mac_stays [OF f3 ok10 m1(1) am3]
    have "rx_of s3 q j = (if (q, j) = (rnti, ?k) then r' else rx_of s q j)" if j: "j < MAX_LC_ID" for q j
    proof -
      have "receiver_ptr s1 q j = pe \<longleftrightarrow> (q, j) = (rnti, ?k)"
        using receiver_ptr_inj [OF ok1 k(1) j, of q rnti] block(2,5) by auto
      then show ?thesis using st(5) [OF same j, of q] grown_toD(8) [OF block(3) j, of q] by simp
    qed
    moreover have "rlc_log s3 = rlc_log s @ map (\<lambda>(bs, gs). (rnti, lc, bs, gs)) os"
      using effD(9) [OF f3] grown_toD(7) [OF block(3)] block(7,8) by simp
    moreover have "own s3 - rlc_blocks s3 = own s - rlc_blocks s - {buf}"
      using st(6) [OF same] grown_toD(10) [OF block(3)] by simp
    moreover have "mem_kept (own s - rlc_blocks s - {buf}) (us_mem s) (us_mem s3) \<and>
        (\<forall>q\<in>own s - rlc_blocks s - {buf}. (\<forall>c. us_heap s q \<noteq> Some (RlcObj c)) \<longrightarrow> us_heap s3 q = us_heap s q) \<and>
        gMacUeContext s3 = gMacUeContext s \<and> gRecvdPhyDataList s3 = gRecvdPhyDataList s"
    proof (intro conjI ballI impI)
      have out: "q \<in> own s1 \<and> q \<notin> {buf} \<union> insert pe (partial_blocks e) \<and> q \<in> own s" if "q \<in> own s - rlc_blocks s - {buf}" for q
        using that grown_toD(3,9) [OF block(3)] peM by blast
      show "mem_kept (own s - rlc_blocks s - {buf}) (us_mem s) (us_mem s3)"
        by (rule mem_kept_trans [OF grown_toD(2) [OF block(3)] effD(4) [OF f3]]) (use out in auto)
      show "gMacUeContext s3 = gMacUeContext s" using effD(6) [OF f3] grown_toD(5) [OF block(3)] by simp
      show "gRecvdPhyDataList s3 = gRecvdPhyDataList s" using effD(8) [OF f3] grown_toD(6) [OF block(3)] by simp
      fix q assume q: "q \<in> own s - rlc_blocks s - {buf}" and "\<forall>c. us_heap s q \<noteq> Some (RlcObj c)"
      then show "us_heap s3 q = us_heap s q"
        using effD(5) [OF f3, of q] grown_toD(4) [OF block(3), of q] out [OF q] by simp
    qed
    ultimately have "packet_done s s3 buf rnti lc r' os"
      using st(1) [OF same] m3(1,2) m1(2) k(1) by (simp add: packet_done_def)
    moreover have "RlcProcessAMRxPacket s i rnti = Some s3"
    proof -
      have "rn_status (am_ring e ?n) = RS_FREE" using e(2) by (simp add: free_ring_def)
      then show ?thesis
        using lc(1) k(2) hdr hh block(1,2) n(1) s3(1)
        by (simp add: RlcProcessAMRxPacket_def get_am [OF block(6)])
    qed
    ultimately show ?thesis by blast
  qed
qed

section \<open>Packets that are dropped\<close>

text \<open>Blocks that the tables do not hold are released.\<close>

lemma rlc_outside:
  assumes ok: "rlc_ok s" and f: "eff X B L s s'" and X: "X \<inter> rlc_blocks s = {}"
  shows "rlc_ok s'" "k < MAX_LC_ID \<Longrightarrow> rx_of s' rnti k = rx_of s rnti k" "own s' - rlc_blocks s' = (own s - rlc_blocks s - X) \<union> B"
    "rlc_blocks s' = rlc_blocks s" "k < MAX_LC_ID \<Longrightarrow> partial_ptr s' rnti k = partial_ptr s rnti k"
proof -
  have ok0: "rrc_ok s" and ok1: "rrc_ok s'" and list: "gRlcUeContextList s' = gRlcUeContextList s"
    using rlc_okD(1) [OF ok] effD(1,7) [OF f] by simp_all
  have h: "us_heap s' q = us_heap s q" if "q \<in> rlc_blocks s" for q
    using effD(5) [OF f, of q] rlc_blocks_own [OF ok] X that by auto
  have ctx: "us_heap s' p = us_heap s p" if "p \<in> set (gRlcUeContextList s)" for p using h that by (simp add: rlc_blocks_def)
  have rec: "receivers s' = receivers s"
  proof -
    have "slots s' p = slots s p" if "p \<in> set (gRlcUeContextList s)" for p using ctx [OF that] by (simp add: slots_def get_obj_def)
    then show ?thesis by (simp add: receivers_def list)
  qed
  have tbl: "rlc_tbl s' = rlc_tbl s"
  proof -
    have "rlc_rnti s' p = rlc_rnti s p" if "p \<in> set (gRlcUeContextList s)" for p using ctx [OF that] by (simp add: rlc_rnti_def get_obj_def)
    then show ?thesis by (simp add: rlc_tbl_def list)
  qed
  have am: "get_obj the_am s' pe = get_obj the_am s pe" if "pe \<in> receivers s" for pe
    using h [of pe] that by (simp add: get_obj_def rlc_blocks_def)
  then have part: "partial_of s' pe = partial_of s pe" if "pe \<in> receivers s" for pe using that by (simp add: partial_of_def)
  have rx: "rx_at s' pe e (rx_value s e)" if pe: "pe \<in> receivers s" and e: "us_heap s pe = Some (AmObj e)" for pe e
  proof (rule receiverE [OF ok pe])
    fix d assume "rx_at s pe d (rx_value s d)" "us_heap s pe = Some (AmObj d)" "partial_of s pe = partial_blocks d"
    with e have r: "rx_at s pe e (rx_value s e)" "partial_of s pe = partial_blocks e" by simp_all
    have "pe \<notin> X" "partial_blocks e \<inter> X = {}" using X pe r(2) by (auto simp: rlc_blocks_def)
    then show ?thesis by (rule rx_at_eff [OF f ok0 r(1)])
  qed
  have rok: "receiver_ok s' r j pe" if pe: "pe \<in> receivers s" "receiver_ok s r j pe" for r j pe
  proof -
    obtain e where e: "rx_at s pe e (rx_value s e)" "am_rnti e = r" "am_lcId e = of_nat j" "free_ring e"
      using pe(2) by (auto simp: receiver_ok_def)
    have r1: "rx_at s' pe e (rx_value s e)" using rx [OF pe(1)] e(1) by (simp add: rx_at_def)
    then show ?thesis using e(2-4) rx_value_at [OF ok1 r1] unfolding receiver_ok_def by metis
  qed
  show "rlc_ok s'"
    unfolding rlc_ok_def
  proof (intro conjI ballI impI)
    fix p assume "p \<in> set (gRlcUeContextList s')"
    then have p: "p \<in> set (gRlcUeContextList s)" using list by simp
    obtain c where c: "us_heap s p = Some (RlcObj c)" "rl_deleteFlag c = 0"
      "\<And>k. k < MAX_LC_ID \<Longrightarrow> rl_rxAMEntityArray c k \<noteq> NULL \<Longrightarrow> receiver_ok s (rl_rnti c) k (rl_rxAMEntityArray c k)"
      by (rule rlc_ctx [OF ok p]) blast
    with ctx [OF p] rok slot_receiver [OF p c(1)]
    show "\<exists>c. us_heap s' p = Some (RlcObj c) \<and> rl_deleteFlag c = 0 \<and>
        (\<forall>k<MAX_LC_ID. rl_rxAMEntityArray c k \<noteq> NULL \<longrightarrow> receiver_ok s' (rl_rnti c) k (rl_rxAMEntityArray c k))" by auto
  next
    fix qe re assume "qe \<in> receivers s'" "re \<in> receivers s'" "qe \<noteq> re"
    then show "partial_of s' qe \<inter> partial_of s' re = {}" using rlc_okD(4) [OF ok] rec part by simp
  qed (use ok1 list tbl rlc_okD(2,3) [OF ok] in simp_all)
  have h0: "us_heap s NULL = None" "us_heap s' NULL = None" using heap_NULL ok0 ok1 by auto
  have rp: "receiver_ptr s' r j = receiver_ptr s r j" for r j
  proof (cases "lookup_rnti (rlc_tbl s) r = NULL")
    case True
    then show ?thesis using h0 by (simp add: receiver_ptr_def tbl get_obj_def)
  next
    case False
    then have "lookup_rnti (rlc_tbl s) r \<in> set (gRlcUeContextList s)"
      using lookup_rnti_in [of "rlc_tbl s" r] by (auto simp: rlc_tbl_def)
    from ctx [OF this] show ?thesis by (simp add: receiver_ptr_def tbl get_obj_def)
  qed
  show "rx_of s' rnti k = rx_of s rnti k" if k: "k < MAX_LC_ID"
  proof (cases "receiver_ptr s rnti k = NULL")
    case True
    then show ?thesis using h0 rp by (simp add: rx_of_def get_obj_def)
  next
    case False
    from receiver_ptr_in [OF ok k False] have q: "receiver_ptr s rnti k \<in> receivers s" .
    show ?thesis
    proof (rule receiverE [OF ok q])
      fix e assume e: "us_heap s (receiver_ptr s rnti k) = Some (AmObj e)"
      from rx_value_at [OF ok1 rx [OF q e]] have "rx_value s' e = rx_value s e" .
      then show ?thesis using am [OF q] e by (simp add: rx_of_def rp)
    qed
  qed
  show b: "rlc_blocks s' = rlc_blocks s" using rec part by (simp add: rlc_blocks_def list)
  show "own s' - rlc_blocks s' = (own s - rlc_blocks s - X) \<union> B"
    using effD(2,3) [OF f] X rlc_blocks_own [OF ok] unfolding b by blast
  show "partial_ptr s' rnti k = partial_ptr s rnti k" if k: "k < MAX_LC_ID"
  proof (cases "receiver_ptr s rnti k = NULL")
    case True
    then show ?thesis using h0 rp by (simp add: partial_ptr_def get_obj_def)
  next
    case False
    have "us_heap s' (receiver_ptr s rnti k) = us_heap s (receiver_ptr s rnti k)"
      using receiver_ptr_in [OF ok k False] h by (simp add: rlc_blocks_def)
    then show ?thesis by (simp add: partial_ptr_def rp get_obj_def)
  qed
qed

text \<open>
  What the receivers of the MAC and the RLC leave alone: every block that is neither theirs nor in
  \<open>X\<close> is still in use, outside the tables, with the same header, bytes and object.
\<close>

definition kept_out :: "ptr set \<Rightarrow> ulp_state \<Rightarrow> ulp_state \<Rightarrow> bool" where
  "kept_out X s s' \<longleftrightarrow> gRecvdPhyDataList s' = gRecvdPhyDataList s \<and> mp_cfg (us_mem s') = mp_cfg (us_mem s) \<and>
     (\<forall>q\<in>own s - rlc_blocks s - X. (\<forall>c. us_heap s q \<noteq> Some (RlcObj c)) \<and> (\<forall>c. us_heap s q \<noteq> Some (MacObj c)) \<longrightarrow>
        q \<in> own s' \<and> q \<notin> rlc_blocks s' \<and> us_heap s' q = us_heap s q \<and>
        mp_nodes (us_mem s') q = mp_nodes (us_mem s) q \<and> mp_data (us_mem s') q = mp_data (us_mem s) q)"

lemma kept_out_trans:
  assumes "kept_out X s t" "kept_out Y t u" "(X \<union> Y) \<inter> own s \<subseteq> Z"
  shows "kept_out Z s u"
  unfolding kept_out_def
proof (intro conjI ballI impI)
  show "gRecvdPhyDataList u = gRecvdPhyDataList s" "mp_cfg (us_mem u) = mp_cfg (us_mem s)"
    using assms(1,2) by (simp_all add: kept_out_def)
  fix q assume q: "q \<in> own s - rlc_blocks s - Z" and n: "(\<forall>c. us_heap s q \<noteq> Some (RlcObj c)) \<and> (\<forall>c. us_heap s q \<noteq> Some (MacObj c))"
  have x: "q \<notin> X" "q \<notin> Y" using q assms(3) by auto
  have t: "q \<in> own t" "q \<notin> rlc_blocks t" "us_heap t q = us_heap s q"
    "mp_nodes (us_mem t) q = mp_nodes (us_mem s) q" "mp_data (us_mem t) q = mp_data (us_mem s) q"
    using assms(1) q n x(1) by (simp_all add: kept_out_def)
  have u: "q \<in> own u \<and> q \<notin> rlc_blocks u \<and> us_heap u q = us_heap t q \<and>
      mp_nodes (us_mem u) q = mp_nodes (us_mem t) q \<and> mp_data (us_mem u) q = mp_data (us_mem t) q"
    using assms(2) t n x(2) by (simp add: kept_out_def)
  then show "q \<in> own u" "q \<notin> rlc_blocks u" "us_heap u q = us_heap s q" "mp_nodes (us_mem u) q = mp_nodes (us_mem s) q"
    "mp_data (us_mem u) q = mp_data (us_mem s) q" using t by simp_all
qed

lemma kept_out_eff:
  assumes "rlc_ok s" "eff A B L s s'" "A \<inter> rlc_blocks s = {}"
  shows "kept_out A s s'"
proof -
  have "q \<in> own s' \<and> q \<notin> rlc_blocks s'" if "q \<in> own s - rlc_blocks s - A" for q
    using rlc_outside(3) [OF assms] that by blast
  moreover have "mem_kept (own s - A) (us_mem s) (us_mem s')" by (rule effD(4) [OF assms(2)])
  ultimately show ?thesis using effD(5,8) [OF assms(2)] by (simp add: kept_out_def mem_kept_def)
qed

lemma kept_out_packet:
  assumes "packet_done s s' buf rnti lc r' os"
  shows "kept_out {buf} s s'"
proof -
  have "q \<in> own s' \<and> q \<notin> rlc_blocks s'" if "q \<in> own s - rlc_blocks s - {buf}" for q
    using assms that unfolding packet_done_def by blast
  then show ?thesis using assms by (simp add: kept_out_def packet_done_def mem_kept_def)
qed

lemma kept_out_buffer:
  assumes "kept_out X s s'" "buffer s q bs" "q \<notin> rlc_blocks s" "q \<notin> X"
  shows "buffer s' q bs" "q \<notin> rlc_blocks s'"
proof -
  have q: "q \<in> own s" "us_heap s q = None" using assms(2) by (simp_all add: buffer_def own_raw)
  then have k: "q \<in> own s' \<and> q \<notin> rlc_blocks s' \<and> us_heap s' q = us_heap s q \<and>
        mp_nodes (us_mem s') q = mp_nodes (us_mem s) q \<and> mp_data (us_mem s') q = mp_data (us_mem s) q"
    using assms by (simp add: kept_out_def)
  then have "mem_kept {q} (us_mem s) (us_mem s')" using assms(1) by (simp add: kept_out_def mem_kept_def)
  moreover have "q \<in> raw s'" using k q(2) by (simp add: own_raw)
  ultimately show "buffer s' q bs" "q \<notin> rlc_blocks s'" using buffer_kept [OF assms(2), of "{q}" s'] k by simp_all
qed

lemma kept_out_obj:
  assumes "kept_out X s s'" "us_heap s q = Some x" "\<not> is_rrc x" "\<forall>c. x \<noteq> RlcObj c" "\<forall>c. x \<noteq> MacObj c" "q \<notin> rlc_blocks s" "q \<notin> X" "rrc_ok s"
  shows "us_heap s' q = Some x" "q \<notin> rlc_blocks s'" "q \<in> own s'"
proof -
  have "q \<in> own s" by (rule own_obj [OF assms(8,2,3)])
  then have "q \<in> own s' \<and> q \<notin> rlc_blocks s' \<and> us_heap s' q = us_heap s q"
    using assms(1,2,4-7) by (simp add: kept_out_def)
  then show "us_heap s' q = Some x" "q \<notin> rlc_blocks s'" "q \<in> own s'" using assms(2) by simp_all
qed

lemma rlc_release:
  assumes "rlc_ok s" "eff X {} L s s'" "X \<inter> rlc_blocks s = {}"
  shows "rlc_ok s'" "k < MAX_LC_ID \<Longrightarrow> rx_of s' rnti k = rx_of s rnti k" "own s' - rlc_blocks s' = own s - rlc_blocks s - X"
  using rlc_outside [OF assms] by auto

definition packet_dropped :: "ulp_state \<Rightarrow> ulp_state \<Rightarrow> ptr \<Rightarrow> bool" where
  "packet_dropped s s' buf \<longleftrightarrow> rlc_ok s' \<and> (\<forall>q. \<forall>k<MAX_LC_ID. rx_of s' q k = rx_of s q k) \<and> rlc_log s' = rlc_log s \<and>
     own s' - rlc_blocks s' = own s - rlc_blocks s - {buf}"

lemma grown_dropped:
  assumes g: "grown_to s s1" and f: "eff {buf} {} [] s1 s2" and bo: "buf \<in> own s" "buf \<notin> rlc_blocks s"
  shows "packet_dropped s s2 buf"
proof -
  have "{buf} \<inter> rlc_blocks s1 = {}" using grown_toD(9) [OF g] bo by blast
  note r = rlc_release [OF grown_toD(1) [OF g] f this]
  show ?thesis
    unfolding packet_dropped_def using r(1) effD(9) [OF f] grown_toD(7) [OF g]
    by (auto simp: r(2,3) grown_toD(8) [OF g] grown_toD(10) [OF g])
qed

lemma am_packet_dropped:
  assumes ok: "rlc_ok s" and b: "rd_buffer i \<in> raw s" and nb: "rd_buffer i \<notin> rlc_blocks s"
    and bad: "rd_lcId i > 2 \<or> (\<exists>h. RlcDecodeAmdHeader s i no_header = Some (False, h)) \<or>
      (\<exists>h. RlcDecodeAmdHeader s i no_header = Some (True, h) \<and> ah_dc h = 0) \<or>
      (\<exists>p fi sn lens payload. buffer s (rd_buffer i) (amd_pdu p fi sn lens payload) \<and> amd_fields p fi sn lens \<and>
        rd_length i = of_nat (length (amd_pdu p fi sn lens payload)) \<and> length payload < lens_sum lens)"
  shows "\<exists>s'. RlcProcessAMRxPacket s i rnti = Some s' \<and> packet_dropped s s' (rd_buffer i)"
proof -
  note ok0 = rlc_okD(1) [OF ok]
  have bo: "rd_buffer i \<in> own s" using b by (simp add: own_raw)
  obtain s0 where s0: "us_free s (rd_buffer i) = Some s0" "eff {rd_buffer i} {} [] s s0" by (rule eff_free [OF ok0 bo])
  note d0 = grown_dropped [OF grown_refl [OF ok] s0(2) bo nb]
  have simple: ?thesis if "RlcProcessAMRxPacket s i rnti = us_free s (rd_buffer i)" using that s0(1) d0 by auto
  show ?thesis
  proof (cases "rd_lcId i > 2")
    case True
    then show ?thesis by (intro simple) (simp add: RlcProcessAMRxPacket_def)
  next
    case lc: False
    with bad consider h where "RlcDecodeAmdHeader s i no_header = Some (False, h)"
      | h where "RlcDecodeAmdHeader s i no_header = Some (True, h)" "ah_dc h = 0"
      | p fi sn lens payload where "buffer s (rd_buffer i) (amd_pdu p fi sn lens payload)" "amd_fields p fi sn lens"
        "rd_length i = of_nat (length (amd_pdu p fi sn lens payload))" "length payload < lens_sum lens" by blast
    then show ?thesis
    proof cases
      case 3
      let ?h = "decoded p fi sn lens no_header" and ?n = "unat (sn AND 511)"
      have hdr: "RlcDecodeAmdHeader s i no_header = Some (True, ?h)" by (rule header_decode [OF 3(1-3) ok0])
      have hh: "ah_dc ?h \<noteq> 0" "ah_sn ?h = sn" by (simp_all add: decoded_def)
      have k: "unat (rd_lcId i) < MAX_LC_ID" using lc by (simp add: word_less_nat_alt)
      from ok k show ?thesis
      proof (cases rule: receiver_run [of s "rd_lcId i" rnti])
        case (none s1)
        have "rd_buffer i \<in> own s1" using grown_toD(3) [OF none(2)] bo by blast
        then obtain s2 where s2: "us_free s1 (rd_buffer i) = Some s2" "eff {rd_buffer i} {} [] s1 s2"
          by (rule eff_free [OF rlc_okD(1) [OF grown_toD(1) [OF none(2)]]])
        have "RlcProcessAMRxPacket s i rnti = Some s2"
          using lc hdr hh none(1) s2(1) by (simp add: RlcProcessAMRxPacket_def)
        with grown_dropped [OF none(2) s2(2) bo nb] show ?thesis by blast
      next
        case (block pe e s1)
        note ok1 = grown_toD(1) [OF block(3)]
        obtain e' where e': "us_heap s1 pe = Some (AmObj e')" "rx_at s1 pe e' (rx_value s1 e')" "free_ring e'" "partial_of s1 pe = partial_blocks e'"
          by (rule receiverE [OF ok1 block(4)]) blast
        have e: "rx_at s1 pe e (rx_value s1 e)" "free_ring e" "partial_of s1 pe = partial_blocks e"
          using e' block(6) by simp_all
        have b1: "buffer s1 (rd_buffer i) (amd_pdu p fi sn lens payload)" by (rule grown_buffer [OF block(3) 3(1)])
        have "rd_buffer i \<notin> rlc_blocks s1" using grown_toD(9) [OF block(3)] nb bo by blast
        then have nbp: "rd_buffer i \<notin> partial_blocks e" using block(4) e(3) by (auto simp: rlc_blocks_def)
        obtain s2 x where s2: "rlc_new_pdu s1 pe ?n ?h i = Some (x, s2)" "x \<noteq> Some True" "eff {rd_buffer i} {} [] s1 s2"
          using new_pdu_run [OF rlc_okD(1) [OF ok1] e(1,2) nbp b1 3(2) refl 3(3), of ?n no_header] 3(4) by auto
        have "RlcProcessAMRxPacket s i rnti = Some s2"
          using lc hdr hh block(1,2) s2(1,2) e(2)
          by (simp add: RlcProcessAMRxPacket_def get_am [OF block(6)] free_ring_def)
        with grown_dropped [OF block(3) s2(3) bo nb] show ?thesis by blast
      qed
    qed (use lc in \<open>intro simple; simp add: RlcProcessAMRxPacket_def\<close>)+
  qed
qed

section \<open>The refinement\<close>

text \<open>
  C3. The RLC receiver refines its specification: for every acknowledged mode PDU of the format
  (any fields, any number of length indicators, any payload) that arrives for an RNTI on bearer
  1 or 2, with enough free blocks and a partial SDU that the program can extend,
  \<open>RlcProcessAMRxPacket\<close> creates the context and the receiver if they are missing, changes the
  state of that receiver exactly as the abstract receiver \<open>rx_dfes\<close> does for the elements of the
  PDU, delivers exactly the SDUs that it delivers, in order and with their uplink grants, leaves
  the receivers of all other UEs and bearers alone, keeps the invariant of the layer and uses up
  the packet's buffer: every other block is still in use or belongs to the tables.
\<close>

theorem am_packet_refines:
  assumes "rlc_ok s" "mac_ready s" "rd_lcId i = 1 \<or> rd_lcId i = 2"
    and "buffer s (rd_buffer i) (amd_pdu p fi sn lens payload)" "rd_buffer i \<notin> rlc_blocks s" "amd_fields p fi sn lens"
    and "rd_length i = of_nat (length (amd_pdu p fi sn lens payload))" "sum_list (map unat lens) \<le> length payload"
    and "spare (6 + 2 * length lens) s"
    and "\<And>n part. fst (rx_of s rnti (unat (rd_lcId i))) = Some (n, part) \<Longrightarrow>
      needs_join sn (fst (hd (amd_elements fi lens payload))) n \<Longrightarrow>
      join_room s (partial_ptr s rnti (unat (rd_lcId i))) (rd_buffer i) (length payload)"
    and "rx_dfes (mac_grant s rnti) sn (amd_elements fi lens payload) (rx_of s rnti (unat (rd_lcId i))) = (r', os)"
    and "out_ok (rd_lcId i) os"
  shows "\<exists>s'. RlcProcessAMRxPacket s i rnti = Some s' \<and> rlc_ok s' \<and> rx_of s' rnti (unat (rd_lcId i)) = r' \<and>
    (\<forall>q. \<forall>k<MAX_LC_ID. (q, k) \<noteq> (rnti, unat (rd_lcId i)) \<longrightarrow> rx_of s' q k = rx_of s q k) \<and>
    rlc_log s' = rlc_log s @ map (\<lambda>(bs, gs). (rnti, rd_lcId i, bs, gs)) os \<and>
    own s' - rlc_blocks s' = own s - rlc_blocks s - {rd_buffer i} \<and> mac_ready s' \<and> (\<forall>q. mac_grant s' q = mac_grant s q)"
  using am_packet_run [OF assms(1,2) refl assms(3-6) refl assms(7-9), of rnti r' os] assms(10-12)
  unfolding packet_done_def by blast

lemma idle_rlc:
  assumes "length bs \<le> 65535"
  obtains p s where "with_buffer bs idle_state = (p, s)" "buffer s p bs" "spare 15 s" "rlc_ok s" "mac_ready s"
    "rlc_blocks s = {}" "\<And>r k. rx_of s r k = (None, [])" "\<And>r. mac_grant s r = None" "rlc_log s = []" "own s = {p}"
proof -
  obtain p m where m: "with_buffer bs idle_state = (p, idle_state\<lparr>us_mem := m\<rparr>)" "p \<noteq> NULL" "mem_inv m"
    "live m = {p}" "buffer (idle_state\<lparr>us_mem := m\<rparr>) p bs"
    using with_buffer_idle [OF assms] by metis
  let ?s = "idle_state\<lparr>us_mem := m\<rparr>"
  have e: "gRlcUeContextList ?s = []" "gMacUeContext ?s = []" "gRrcUeContextList ?s = []" "gReadyRrcUeContextList ?s = []"
    "us_heap ?s = Map.empty" "us_trace ?s = []" by (simp_all add: idle_state_def)
  have rec: "receivers ?s = {}" by (simp add: receivers_def idle_state_def)
  have rr: "rrc_ok ?s" using m(3,4) e by (simp add: rrc_ok_def heap_ok_def)
  have "rlc_ok ?s" using rr e rec by (simp add: rlc_ok_def rlc_tbl_def)
  moreover have "mac_ready ?s" "mac_grant ?s r = None" for r
    using e by (simp_all add: mac_ready_def mac_grant_def MacGetUeContext_def get_obj_def)
  moreover have "rlc_blocks ?s = {}" using rec e by (simp add: rlc_blocks_def)
  moreover have "rx_of ?s r k = (None, [])" for r k using e by (simp add: rx_of_def get_obj_def)
  moreover have "rlc_log ?s = []" using e by (simp add: rlc_log_def)
  moreover have "own ?s = {p}" using m(4) e by (simp add: own_def)
  ultimately show thesis using m(1,5) with_buffer_spare [OF assms m(1)] by (intro that [of p ?s])
qed

text \<open>A whole SDU and the start of another one, in one PDU.\<close>

theorem am_packet_refines_witness:
  "case with_buffer (amd_pdu 0 1 517 [3] [10, 11, 12, 20, 21]) idle_state of (p, s) \<Rightarrow>
     \<exists>s'. RlcProcessAMRxPacket s \<lparr>rd_buffer = p, rd_length = 9, rd_lcId = 2\<rparr> 61 = Some s' \<and> rlc_ok s' \<and>
       rx_of s' 61 2 = (Some (517, [20, 21]), []) \<and> rx_of s' 61 1 = (None, []) \<and>
       rlc_log s' = [(61, 2, [10, 11, 12], [])] \<and> own s' = rlc_blocks s'"
proof -
  let ?b = "amd_pdu 0 1 517 [3] [10, 11, 12, 20, 21]"
  have b: "length ?b = 9" by (simp add: amd_pdu_length)
  obtain p s where s: "with_buffer ?b idle_state = (p, s)" "buffer s p ?b" "spare 15 s" "rlc_ok s" "mac_ready s"
    "rlc_blocks s = {}" "\<And>r k. rx_of s r k = (None, [])" "\<And>r. mac_grant s r = None" "rlc_log s = []" "own s = {p}"
    using idle_rlc [of ?b] b by auto
  let ?i = "\<lparr>rd_buffer = p, rd_length = 9, rd_lcId = 2\<rparr>"
  have el: "amd_elements 1 [3] [10, 11, 12, 20, 21] = [(AM_PDU_MAP_SDU_FULL, [10, 11, 12]), (AM_PDU_MAP_SDU_START, [20, 21])]"
    by (simp add: amd_elements_def first_status_def last_status_def)
  have rx: "rx_dfes (mac_grant s 61) 517 (amd_elements 1 [3] [10, 11, 12, 20, 21]) (rx_of s 61 (unat (rd_lcId ?i))) =
      ((Some (517, [20, 21]), []), [([10, 11, 12], [])])"
    by (simp add: el s(7,8) rx_dfe_def rx_next_def rx_first_def start_grants_def)
  have out: "out_ok (rd_lcId ?i) [([10, 11, 12], [])]" by (simp add: out_ok_def deliverable_def)
  have f: "amd_fields 0 1 517 [3]" by (simp add: amd_fields_def word_less_nat_alt)
  from am_packet_refines [OF s(4,5) _ _ _ f, of ?i "[10, 11, 12, 20, 21]" 61 "(Some (517, [20, 21]), [])" "[([10, 11, 12], [])]"]
  obtain s' where s': "RlcProcessAMRxPacket s ?i 61 = Some s'" "rlc_ok s'" "rx_of s' 61 2 = (Some (517, [20, 21]), [])"
    "\<forall>q. \<forall>k<MAX_LC_ID. (q, k) \<noteq> (61, 2) \<longrightarrow> rx_of s' q k = rx_of s q k"
    "rlc_log s' = rlc_log s @ [(61, 2, [10, 11, 12], [])]" "own s' - rlc_blocks s' = own s - rlc_blocks s - {p}"
    using s b rx out spare_le [OF s(3), of 8] by auto
  have "own s' = rlc_blocks s'" using s'(6) s(10) rlc_blocks_own [OF s'(2)] by auto
  moreover have "rx_of s' 61 1 = (None, [])" using s'(4) s(7) by simp
  ultimately show ?thesis using s(1,9) s'(1-3,5) by auto
qed



end
