(* ===== verification/Res_Cleaner.thy ===== *)
theory Res_Cleaner
  imports Rlc_Refinement
begin

text \<open>
  The resource cleaner, \<open>ulp/src/lteResCleaner.c\<close>: every round ages the RLC contexts, and
  deletes those that have been idle for too long with everything they hold.  A packet resets
  the idle counter of its context.
\<close>

section \<open>The code\<close>

text \<open>
  The loop takes the next node before it deletes a context, so it goes through the list as it was.
\<close>

fun cleanup_contexts :: "ptr list \<Rightarrow> u32 \<Rightarrow> ulp_state \<Rightarrow> ulp_state option" where
  "cleanup_contexts [] gMaxIdleCount s = Some s"
| "cleanup_contexts (p # ps) gMaxIdleCount s = do {
     c \<leftarrow> get_obj the_rlc s p;
     s \<leftarrow> (if rl_idleCount c \<ge> gMaxIdleCount then
             RlcDeleteUeContext (put_obj p (RlcObj (c\<lparr>rl_deleteFlag := 1\<rparr>)) s) p
           else RlcUpdateUeContextTime s p 1);
     cleanup_contexts ps gMaxIdleCount s }"

definition ExecuteCleanup :: "u32 \<Rightarrow> ulp_state \<Rightarrow> ulp_state option" where
  "ExecuteCleanup gMaxIdleCount s =
     (if RlcGetUeContextCount s > 0 then cleanup_contexts (gRlcUeContextList s) gMaxIdleCount s else Some s)"

text \<open>Rounds without a packet in between.\<close>

fun cleanup_rounds :: "nat \<Rightarrow> u32 \<Rightarrow> ulp_state \<Rightarrow> ulp_state option" where
  "cleanup_rounds 0 gMaxIdleCount s = Some s"
| "cleanup_rounds (Suc n) gMaxIdleCount s = do {
     s \<leftarrow> ExecuteCleanup gMaxIdleCount s;
     cleanup_rounds n gMaxIdleCount s }"

section \<open>A receiver is deleted\<close>

lemma delete_ring_free: "free_ring e \<Longrightarrow> delete_ring is e s = Some s"
  by (induction "is") (simp_all add: free_ring_def)

lemma delete_receiver_run:
  assumes ok: "rrc_ok s" and rx: "rx_at s pe e r" and fr: "free_ring e"
  obtains s' where "RlcDeleteRxAmEntity s pe = Some s'" "eff (insert pe (partial_blocks e)) {} [] s s'"
proof -
  let ?q = "rb_pData (rs_rawSdu (am_rxRawSdu e))"
  have pe: "us_heap s pe = Some (AmObj e)" using rx by (simp add: rx_at_def)
  have own: "pe \<in> own s" by (rule own_obj [OF ok pe]) simp
  have nn: "pe \<noteq> NULL" by (rule own_nonnull [OF ok own])
  obtain s1 where s1: "(if ?q \<noteq> NULL then us_free s ?q else Some s) = Some s1" "eff (partial_blocks e) {} [] s s1"
  proof (cases "?q = NULL")
    case True
    then show thesis using eff_refl [OF ok] that [of s] by (simp add: partial_blocks_def)
  next
    case False
    then have "?q \<in> own s" using rx by (auto simp: rx_at_def buffer_def own_raw split: option.splits)
    then obtain s1 where "us_free s ?q = Some s1" "eff {?q} {} [] s s1" by (rule eff_free [OF ok])
    with False show thesis by (intro that [of s1]) (simp_all add: partial_blocks_def)
  qed
  have "pe \<notin> partial_blocks e"
    using rx pe by (auto simp: partial_blocks_def rx_at_def buffer_def own_raw split: option.splits)
  then have "pe \<in> own s1" using effD(2) [OF s1(2)] own by simp
  then obtain s2 where s2: "us_free s1 pe = Some s2" "eff {pe} {} [] s1 s2" by (rule eff_free [OF effD(1) [OF s1(2)]])
  have "eff (insert pe (partial_blocks e)) {} [] s s2" by (rule eff_comp [OF s1(2) s2(2)]) auto
  moreover have "RlcDeleteRxAmEntity s pe = Some s2"
    using nn s1(1) s2(1) fr by (simp add: RlcDeleteRxAmEntity_def get_am [OF pe] delete_ring_free Let_def split: if_splits)
  ultimately show thesis by (rule that [rotated])
qed

text \<open>The receivers in the slots \<open>ks\<close> of a context.\<close>

definition slot_blocks :: "ulp_state \<Rightarrow> RlcUeContext \<Rightarrow> nat \<Rightarrow> ptr set" where
  "slot_blocks s c k = (if rl_rxAMEntityArray c k = NULL then {}
     else insert (rl_rxAMEntityArray c k) (partial_of s (rl_rxAMEntityArray c k)))"

lemma delete_receivers_run:
  assumes "rrc_ok s" "distinct ks"
    and "\<forall>k\<in>set ks. rl_rxAMEntityArray c k \<noteq> NULL \<longrightarrow>
      (\<exists>e r. rx_at s (rl_rxAMEntityArray c k) e r \<and> free_ring e)"
    and "\<forall>j\<in>set ks. \<forall>k\<in>set ks. j \<noteq> k \<longrightarrow> slot_blocks s c j \<inter> slot_blocks s c k = {}"
  shows "\<exists>s'. delete_entities ks c s = Some s' \<and> eff (\<Union>k\<in>set ks. slot_blocks s c k) {} [] s s'"
  using assms
proof (induction ks arbitrary: s)
  case Nil
  then show ?case using eff_refl by auto
next
  case (Cons k ks)
  let ?pe = "rl_rxAMEntityArray c k"
  obtain s1 where s1: "RlcDeleteRxAmEntity s ?pe = Some s1" "eff (slot_blocks s c k) {} [] s s1"
  proof (cases "?pe = NULL")
    case True
    then show thesis using eff_refl [OF Cons.prems(1)] that [of s] by (simp add: RlcDeleteRxAmEntity_def slot_blocks_def)
  next
    case False
    then obtain e r where e: "rx_at s ?pe e r" "free_ring e" using Cons.prems(3) by auto
    from delete_receiver_run [OF Cons.prems(1) this] obtain s1 where
      "RlcDeleteRxAmEntity s ?pe = Some s1" "eff (insert ?pe (partial_blocks e)) {} [] s s1" by blast
    moreover have "slot_blocks s c k = insert ?pe (partial_blocks e)"
      using False e(1) by (simp add: slot_blocks_def partial_of_def rx_at_def)
    ultimately show thesis using that by simp
  qed
  have later: "(rl_rxAMEntityArray c j \<noteq> NULL \<longrightarrow> (\<exists>e r. rx_at s1 (rl_rxAMEntityArray c j) e r \<and> free_ring e)) \<and>
      slot_blocks s1 c j = slot_blocks s c j" if j: "j \<in> set ks" for j
  proof (cases "rl_rxAMEntityArray c j = NULL")
    case False
    then obtain e r where e: "rx_at s (rl_rxAMEntityArray c j) e r" "free_ring e" using Cons.prems(3) j by auto
    have sb: "slot_blocks s c j = insert (rl_rxAMEntityArray c j) (partial_blocks e)"
      using False e(1) by (simp add: slot_blocks_def partial_of_def rx_at_def)
    have "slot_blocks s c j \<inter> slot_blocks s c k = {}" using Cons.prems(2,4) j by auto
    then have "rx_at s1 (rl_rxAMEntityArray c j) e r"
      using sb by (intro rx_at_eff [OF s1(2) Cons.prems(1) e(1)]) auto
    with e(2) sb False show ?thesis by (auto simp: slot_blocks_def partial_of_def rx_at_def)
  qed (simp add: slot_blocks_def)
  obtain s2 where s2: "delete_entities ks c s1 = Some s2" "eff (\<Union>j\<in>set ks. slot_blocks s1 c j) {} [] s1 s2"
    using Cons.IH [OF effD(1) [OF s1(2)]] Cons.prems(2,4) later by auto
  have "eff (\<Union>j\<in>set (k # ks). slot_blocks s c j) {} [] s s2"
    using later by (intro eff_comp [OF s1(2) s2(2)]) auto
  with s1(1) s2(1) show ?case by auto
qed

section \<open>A context is deleted\<close>

definition ctx_blocks :: "ulp_state \<Rightarrow> ptr \<Rightarrow> ptr set" where
  "ctx_blocks s p = insert p (\<Union>pe\<in>set (slots s p). insert pe (partial_of s pe))"

lemma ctx_blocks_slots:
  assumes "us_heap s p = Some (RlcObj c)"
  shows "ctx_blocks s p = insert p (\<Union>k\<in>set [0..<MAX_LC_ID]. slot_blocks s c k)"
  using assms by (auto simp: ctx_blocks_def slots_def slot_blocks_def)

lemma buffer_list [simp]: "buffer (s\<lparr>gRlcUeContextList := l\<rparr>) q bs = buffer s q bs"
  by (simp add: buffer_def raw_def block_bytes_def)

lemma rx_at_list [simp]: "rx_at (s\<lparr>gRlcUeContextList := l\<rparr>) pe e x = rx_at s pe e x"
  by (auto simp: rx_at_def split: option.split)

text \<open>The table without a context: the context's blocks are no longer the table's.\<close>

lemma rlc_forget:
  assumes ok: "rlc_ok s" and p: "p \<in> set (gRlcUeContextList s)" and c: "us_heap s p = Some (RlcObj c)"
    and t: "t = s\<lparr>gRlcUeContextList := remove1 p (gRlcUeContextList s)\<rparr>"
  shows "rlc_ok t" "rlc_blocks t = rlc_blocks s - ctx_blocks s p" "ctx_blocks s p \<subseteq> rlc_blocks s"
    "k < MAX_LC_ID \<Longrightarrow> rx_of t r k = (if r = rl_rnti c then (None, []) else rx_of s r k)"
proof -
  have heap: "us_heap t = us_heap s" "us_mem t = us_mem s" by (simp_all add: t)
  have list: "set (gRlcUeContextList t) = set (gRlcUeContextList s) - {p}" "distinct (gRlcUeContextList t)"
    using rlc_okD(2) [OF ok] by (simp_all add: t)
  have ok1: "rrc_ok t" using rlc_okD(1) [OF ok] by (simp add: t rrc_ok_def heap_ok_def)
  have same: "slots t q = slots s q" "partial_of t q = partial_of s q" "rlc_rnti t q = rlc_rnti s q" "rx_value t e = rx_value s e"
    "rx_at t q e x = rx_at s q e x" "receiver_ok t r' k' q = receiver_ok s r' k' q" for q e x r' k'
  proof -
    show "slots t q = slots s q" "partial_of t q = partial_of s q" "rlc_rnti t q = rlc_rnti s q"
      by (simp_all add: slots_def partial_of_def rlc_rnti_def get_obj_def heap)
    show v: "rx_value t e = rx_value s e" for e by (simp add: rx_value_def Let_def block_bytes_def heap)
    show r: "rx_at t q e x = rx_at s q e x" for q e x by (simp add: t)
    show "receiver_ok t r' k' q = receiver_ok s r' k' q" by (simp add: receiver_ok_def v r)
  qed
  have rec: "receivers t = (\<Union>q\<in>set (gRlcUeContextList s) - {p}. set (slots s q))"
    by (simp add: receivers_def list same)
  then have sub: "receivers t \<subseteq> receivers s" by (auto simp: receivers_def)
  have tbl: "rlc_tbl t = filter (\<lambda>x. fst x \<noteq> p) (rlc_tbl s)"
    using map_filter_remove1 [OF rlc_okD(2) [OF ok], of p "rlc_rnti s"] by (simp add: rlc_tbl_def same) (simp add: t)
  show rok: "rlc_ok t"
    unfolding rlc_ok_def
  proof (intro conjI ballI impI)
    show "distinct (map snd (rlc_tbl t))" using rlc_okD(3) [OF ok] by (simp add: tbl distinct_map_filter)
  next
    fix q assume "q \<in> set (gRlcUeContextList t)"
    then have "q \<in> set (gRlcUeContextList s)" using list by simp
    from rlc_ctx [OF ok this] show "\<exists>c. us_heap t q = Some (RlcObj c) \<and> rl_deleteFlag c = 0 \<and>
        (\<forall>k<MAX_LC_ID. rl_rxAMEntityArray c k \<noteq> NULL \<longrightarrow> receiver_ok t (rl_rnti c) k (rl_rxAMEntityArray c k))"
      unfolding heap same by metis
  next
    fix qe re assume "qe \<in> receivers t" "re \<in> receivers t" "qe \<noteq> re"
    then show "partial_of t qe \<inter> partial_of t re = {}" using rlc_okD(4) [OF ok] sub by (auto simp: same)
  qed (use ok1 list in simp_all)
  \<comment> \<open>the receivers of different contexts are apart\<close>
  have apart: "qe \<noteq> pe" if q: "q \<in> set (gRlcUeContextList s)" "q \<noteq> p" "qe \<in> set (slots s q)" and pe: "pe \<in> set (slots s p)" for q qe pe
  proof
    assume e: "qe = pe"
    obtain d where d: "us_heap s q = Some (RlcObj d)" by (rule rlc_ctx [OF ok q(1)])
    obtain j k where "j < MAX_LC_ID" "k < MAX_LC_ID" "rl_rxAMEntityArray d j = qe" "rl_rxAMEntityArray c k = pe" "pe \<noteq> NULL"
      using q(3) pe slots_iff [OF d] slots_iff [OF c] by auto
    with slot_unique(1) [OF ok q(1) d _ p c, of j k] e q(2) show False by simp
  qed
  have ctxs: "\<exists>d. us_heap s q = Some (RlcObj d)" if "q \<in> set (gRlcUeContextList s)" for q by (rule rlc_ctx [OF ok that]) blast
  have ams: "\<exists>e. us_heap s qe = Some (AmObj e)" if "qe \<in> receivers s" for qe by (rule receiverE [OF ok that]) blast
  have raws: "us_heap s x = None" if "x \<in> partial_of s qe" "qe \<in> receivers s" for x qe
    using partial_raw [OF ok that(2)] that(1) by (auto simp: own_raw)
  have slot_rec: "qe \<in> receivers s" if "q \<in> set (gRlcUeContextList s)" "qe \<in> set (slots s q)" for q qe
    using that by (auto simp: receivers_def)
  show "ctx_blocks s p \<subseteq> rlc_blocks s" using p slot_rec [OF p] by (auto simp: ctx_blocks_def rlc_blocks_def)
  show "rlc_blocks t = rlc_blocks s - ctx_blocks s p"
  proof
    show "rlc_blocks t \<subseteq> rlc_blocks s - ctx_blocks s p"
    proof
      fix x assume "x \<in> rlc_blocks t"
      then consider "x \<in> set (gRlcUeContextList s)" "x \<noteq> p"
        | q where "q \<in> set (gRlcUeContextList s)" "q \<noteq> p" "x \<in> set (slots s q)"
        | q qe where "q \<in> set (gRlcUeContextList s)" "q \<noteq> p" "qe \<in> set (slots s q)" "x \<in> partial_of s qe"
        by (auto simp: rlc_blocks_def list rec same)
      then show "x \<in> rlc_blocks s - ctx_blocks s p"
      proof cases
        case 1
        have "x \<notin> ctx_blocks s p"
          using 1 ctxs [OF 1(1)] ams [OF slot_rec [OF p]] raws [OF _ slot_rec [OF p]] by (fastforce simp: ctx_blocks_def)
        with 1 show ?thesis by (simp add: rlc_blocks_def)
      next
        case (2 q)
        have "x \<notin> ctx_blocks s p"
          using ams [OF slot_rec [OF 2(1,3)]] c apart [OF 2] raws [OF _ slot_rec [OF p]] by (fastforce simp: ctx_blocks_def)
        with slot_rec [OF 2(1,3)] show ?thesis by (simp add: rlc_blocks_def)
      next
        case (3 q qe)
        have n: "us_heap s x = None" by (rule raws [OF 3(4) slot_rec [OF 3(1,3)]])
        have "x \<notin> partial_of s pe" if "pe \<in> set (slots s p)" for pe
          using rlc_okD(4) [OF ok slot_rec [OF 3(1,3)] slot_rec [OF p that] apart [OF 3(1-3) that]] 3(4) by blast
        then have "x \<notin> ctx_blocks s p" using n c ams [OF slot_rec [OF p]] by (fastforce simp: ctx_blocks_def)
        with 3(4) slot_rec [OF 3(1,3)] show ?thesis by (auto simp: rlc_blocks_def)
      qed
    qed
    show "rlc_blocks s - ctx_blocks s p \<subseteq> rlc_blocks t"
      by (auto simp: rlc_blocks_def ctx_blocks_def list rec same receivers_def)
  qed
  show "rx_of t r k = (if r = rl_rnti c then (None, []) else rx_of s r k)" if k: "k < MAX_LC_ID"
  proof -
    have pr: "(p, rl_rnti c) \<in> set (rlc_tbl s)" using p c by (auto simp: rlc_tbl_def rlc_rnti_def)
    have d: "distinct (map fst (rlc_tbl s))" using rlc_okD(2) [OF ok] by (simp add: rlc_tbl_def comp_def)
    have h0: "us_heap s NULL = None" by (rule heap_NULL [OF rlc_okD(1) [OF ok]])
    show ?thesis
    proof (cases "r = rl_rnti c")
      case True
      have "lookup_rnti (rlc_tbl t) r = NULL"
      proof (rule ccontr)
        assume "lookup_rnti (rlc_tbl t) r \<noteq> NULL"
        from lookup_rnti_in [OF this] have "(lookup_rnti (rlc_tbl t) r, r) \<in> set (rlc_tbl s)" "lookup_rnti (rlc_tbl t) r \<noteq> p"
          by (auto simp: tbl)
        with pr True rlc_okD(3) [OF ok] show False by (metis distinct_map inj_onD fst_conv snd_conv)
      qed
      then show ?thesis using True h0 by (simp add: rx_of_def receiver_ptr_def get_obj_def heap)
    next
      case False
      then have "lookup_rnti (rlc_tbl t) r = lookup_rnti (rlc_tbl s) r" unfolding tbl by (rule lookup_rnti_filter [OF d pr])
      then have rp: "receiver_ptr t r k = receiver_ptr s r k" by (simp add: receiver_ptr_def get_obj_def heap)
      then show ?thesis using False by (simp add: rx_of_def get_obj_def heap same(4) split: option.split)
    qed
  qed
qed

lemma delete_context_run:
  assumes ok: "rlc_ok s" and p: "p \<in> set (gRlcUeContextList s)" and c: "us_heap s p = Some (RlcObj c)"
  obtains s' where "RlcDeleteUeContext (put_obj p (RlcObj (c\<lparr>rl_deleteFlag := f\<rparr>)) s) p = Some s'" "rlc_ok s'"
    "gRlcUeContextList s' = remove1 p (gRlcUeContextList s)" "rlc_blocks s' = rlc_blocks s - ctx_blocks s p"
    "own s' - rlc_blocks s' = own s - rlc_blocks s" "rlc_log s' = rlc_log s"
    "\<And>q. q \<in> set (gRlcUeContextList s) \<Longrightarrow> q \<noteq> p \<Longrightarrow> us_heap s' q = us_heap s q"
    "\<And>r k. k < MAX_LC_ID \<Longrightarrow> rx_of s' r k = (if r = rl_rnti c then (None, []) else rx_of s r k)"
proof -
  let ?l = "remove1 p (gRlcUeContextList s)"
  let ?t = "s\<lparr>gRlcUeContextList := ?l\<rparr>"
  note fg = rlc_forget [OF ok p c refl]
  let ?c = "c\<lparr>rl_deleteFlag := f\<rparr>"
  let ?u = "put_obj p (RlcObj ?c) ?t"
  have ok1: "rrc_ok ?t" by (rule rlc_okD(1) [OF fg(1)])
  have pt: "us_heap ?t p = Some (RlcObj c)" using c by simp
  have f1: "eff {p} {p} [] ?t ?u" by (rule eff_put [OF ok1 pt]) simp_all
  have own: "own ?t = own s" by (simp add: own_def)
  have po: "p \<in> own s" by (rule own_obj [OF rlc_okD(1) [OF ok] c]) simp
  have ams: "\<exists>e. rx_at s (rl_rxAMEntityArray c k) e (rx_value s e) \<and> free_ring e \<and>
      partial_of s (rl_rxAMEntityArray c k) = partial_blocks e" if "k < MAX_LC_ID" "rl_rxAMEntityArray c k \<noteq> NULL" for k
    by (rule receiverE [OF ok slot_receiver [OF p c that]]) blast
  have rx: "rx_at ?u (rl_rxAMEntityArray c k) e x" if r: "rx_at s (rl_rxAMEntityArray c k) e x" for k e x
  proof -
    have a: "us_heap s (rl_rxAMEntityArray c k) = Some (AmObj e)" using r by (simp add: rx_at_def)
    have "p \<notin> partial_blocks e"
      using r c by (auto simp: partial_blocks_def rx_at_def buffer_def own_raw split: option.splits)
    moreover have "rx_at ?t (rl_rxAMEntityArray c k) e x" using r by simp
    moreover have "rl_rxAMEntityArray c k \<notin> {p}" using a c by auto
    ultimately show ?thesis by (intro rx_at_eff [OF f1 ok1]) auto
  qed
  have sb: "slot_blocks ?u ?c k = slot_blocks s c k" if k: "k < MAX_LC_ID" for k
  proof (cases "rl_rxAMEntityArray c k = NULL")
    case False
    then obtain e where e: "rx_at s (rl_rxAMEntityArray c k) e (rx_value s e)" using ams [OF k] by blast
    have "us_heap s (rl_rxAMEntityArray c k) = Some (AmObj e)" "us_heap ?u (rl_rxAMEntityArray c k) = Some (AmObj e)"
      using e rx [OF e] by (simp_all only: rx_at_def)
    then show ?thesis by (simp add: slot_blocks_def partial_of_def del: put_obj_simps)
  qed (simp add: slot_blocks_def)
  have dis: "slot_blocks s c j \<inter> slot_blocks s c k = {}" if jk: "j < MAX_LC_ID" "k < MAX_LC_ID" "j \<noteq> k" for j k
  proof (cases "rl_rxAMEntityArray c j = NULL \<or> rl_rxAMEntityArray c k = NULL")
    case False
    then have r: "rl_rxAMEntityArray c j \<in> receivers s" "rl_rxAMEntityArray c k \<in> receivers s"
      using slot_receiver [OF p c] jk by auto
    have ne: "rl_rxAMEntityArray c j \<noteq> rl_rxAMEntityArray c k" using slot_unique(2) [OF ok p c jk(1) p c jk(2)] jk(3) False by auto
    have ra: "partial_of s x \<subseteq> raw s \<and> (\<exists>e. us_heap s x = Some (AmObj e))" if "x \<in> receivers s" for x
      by (rule receiverE [OF ok that]) (use partial_raw [OF ok that] in blast)
    have "rl_rxAMEntityArray c j \<notin> partial_of s (rl_rxAMEntityArray c k)" "rl_rxAMEntityArray c k \<notin> partial_of s (rl_rxAMEntityArray c j)"
      using ra [OF r(1)] ra [OF r(2)] by (auto simp: own_raw)
    with rlc_okD(4) [OF ok r ne] ne False show ?thesis by (auto simp: slot_blocks_def)
  qed (auto simp: slot_blocks_def)
  have "\<exists>s2. delete_entities [0..<MAX_LC_ID] ?c ?u = Some s2 \<and> eff (\<Union>k\<in>set [0..<MAX_LC_ID]. slot_blocks ?u ?c k) {} [] ?u s2"
  proof (rule delete_receivers_run [OF effD(1) [OF f1]])
    show "\<forall>k\<in>set [0..<MAX_LC_ID]. rl_rxAMEntityArray ?c k \<noteq> NULL \<longrightarrow> (\<exists>e r. rx_at ?u (rl_rxAMEntityArray ?c k) e r \<and> free_ring e)"
    proof (intro ballI impI)
      fix k assume "k \<in> set [0..<MAX_LC_ID]" and n: "rl_rxAMEntityArray ?c k \<noteq> NULL"
      then have k: "k < MAX_LC_ID" by simp
      from n have n': "rl_rxAMEntityArray c k \<noteq> NULL" by simp
      obtain e where e: "rx_at s (rl_rxAMEntityArray c k) e (rx_value s e)" "free_ring e" using ams [OF k n'] by blast
      have "rx_at ?u (rl_rxAMEntityArray ?c k) e (rx_value s e)" using rx [OF e(1)] by simp
      with e(2) show "\<exists>e r. rx_at ?u (rl_rxAMEntityArray ?c k) e r \<and> free_ring e" by blast
    qed
    show "\<forall>j\<in>set [0..<MAX_LC_ID]. \<forall>k\<in>set [0..<MAX_LC_ID]. j \<noteq> k \<longrightarrow> slot_blocks ?u ?c j \<inter> slot_blocks ?u ?c k = {}"
      using dis sb by simp
  qed simp
  then obtain s2 where s2: "delete_entities [0..<MAX_LC_ID] ?c ?u = Some s2"
    "eff (\<Union>k\<in>set [0..<MAX_LC_ID]. slot_blocks ?u ?c k) {} [] ?u s2" by blast
  have pn: "p \<notin> slot_blocks s c k" if k: "k < MAX_LC_ID" for k
  proof (cases "rl_rxAMEntityArray c k = NULL")
    case False
    have "partial_of s (rl_rxAMEntityArray c k) \<subseteq> raw s" by (rule partial_raw [OF ok slot_receiver [OF p c k False]])
    with ams [OF k False] c show ?thesis by (auto simp: slot_blocks_def rx_at_def own_raw)
  qed (simp add: slot_blocks_def)
  have cb: "ctx_blocks s p = insert p (\<Union>k\<in>set [0..<MAX_LC_ID]. slot_blocks ?u ?c k)"
    using ctx_blocks_slots [OF c] sb by simp
  have pn2: "p \<notin> (\<Union>k\<in>set [0..<MAX_LC_ID]. slot_blocks ?u ?c k)" using pn sb by simp
  have f2: "eff (ctx_blocks s p) {p} [] ?t s2" using pn2 unfolding cb by (intro eff_comp [OF f1 s2(2)]) auto
  let ?s3 = "count_sem False s2"
  have v: "eff {} {} [] s2 ?s3" by (rule eff_view [OF effD(1) [OF f2]]) (simp add: count_sem_def)
  have f3: "eff (ctx_blocks s p) {p} [] ?t ?s3" by (rule eff_comp [OF f2 v]) simp_all
  have "p \<in> own ?s3" using effD(2) [OF f3] by simp
  then obtain s4 where s4: "us_free ?s3 p = Some s4" "eff {p} {} [] ?s3 s4" by (rule eff_free [OF effD(1) [OF f3]])
  have f4: "eff (ctx_blocks s p) {} [] ?t s4" by (rule eff_comp [OF f3 s4(2)]) (auto simp: cb)
  have X: "ctx_blocks s p \<inter> rlc_blocks ?t = {}" using fg(2) by blast
  note rel = rlc_release [OF fg(1) f4 X]
  have blk: "rlc_blocks s4 = rlc_blocks s - ctx_blocks s p"
  proof -
    have "rlc_blocks s4 \<subseteq> own s4" "rlc_blocks ?t \<subseteq> own ?t" by (rule rlc_blocks_own [OF rel(1)], rule rlc_blocks_own [OF fg(1)])
    then have "rlc_blocks s4 = rlc_blocks ?t" using rel(3) effD(2) [OF f4] X by blast
    then show ?thesis using fg(2) by simp
  qed
  have run: "RlcDeleteUeContext (put_obj p (RlcObj ?c) s) p = Some s4"
  proof -
    have e: "(put_obj p (RlcObj ?c) s)\<lparr>gRlcUeContextList := ?l\<rparr> = ?u" by (simp add: put_obj_def)
    have "get_obj the_rlc (put_obj p (RlcObj ?c) s) p = Some ?c" by simp
    moreover have "gRlcUeContextList (put_obj p (RlcObj ?c) s) = gRlcUeContextList s" by simp
    ultimately show ?thesis using own_nonnull [OF rlc_okD(1) [OF ok] po] s2(1) s4(1)
      unfolding RlcDeleteUeContext_def by (simp only: e if_True bind.bind_lunit not_False_eq_True)
  qed
  have "own s4 - rlc_blocks s4 = own s - rlc_blocks s"
    using effD(2) [OF f4] fg(2,3) rlc_blocks_own [OF ok] by (auto simp: blk own)
  moreover have "us_heap s4 q = us_heap s q" if q: "q \<in> set (gRlcUeContextList s)" "q \<noteq> p" for q
  proof -
    have "q \<in> rlc_blocks ?t" using q rlc_okD(2) [OF ok] by (simp add: rlc_blocks_def)
    then have "q \<in> own ?t" "q \<notin> ctx_blocks s p" using rlc_blocks_own [OF fg(1)] X by auto
    with effD(5) [OF f4] show ?thesis by simp
  qed
  moreover have "rlc_log s4 = rlc_log s" using effD(9) [OF f4] by (simp add: rlc_log_def)
  moreover have "gRlcUeContextList s4 = ?l" using effD(7) [OF f4] by simp
  ultimately show thesis using run rel(1,2) blk fg(4) by (intro that [of s4]) simp_all
qed

section \<open>A round\<close>

definition idle_of :: "ulp_state \<Rightarrow> ptr \<Rightarrow> nat" where
  "idle_of s p = (case get_obj the_rlc s p of Some c \<Rightarrow> unat (rl_idleCount c) | None \<Rightarrow> 0)"

text \<open>
  What a round over the contexts \<open>ps\<close> does: those that have been idle for \<open>g\<close>
  rounds are gone and their receivers forgotten, the others are a round older.
\<close>

definition cleaned :: "ptr list \<Rightarrow> nat \<Rightarrow> ulp_state \<Rightarrow> ulp_state \<Rightarrow> bool" where
  "cleaned ps g s s' \<longleftrightarrow> rlc_ok s' \<and>
     gRlcUeContextList s' = filter (\<lambda>p. p \<in> set ps \<longrightarrow> idle_of s p < g) (gRlcUeContextList s) \<and>
     (\<forall>p\<in>set (gRlcUeContextList s'). idle_of s' p = idle_of s p + (if p \<in> set ps then 1 else 0) \<and>
        rlc_rnti s' p = rlc_rnti s p) \<and>
     own s' - rlc_blocks s' = own s - rlc_blocks s \<and> rlc_log s' = rlc_log s \<and>
     (\<forall>r. \<forall>k<MAX_LC_ID. rx_of s' r k = (if \<exists>p\<in>set ps. g \<le> idle_of s p \<and> rlc_rnti s p = r then (None, []) else rx_of s r k))"

lemma cleaned_one:
  assumes ok: "rlc_ok s" and p: "p \<in> set (gRlcUeContextList s)"
  shows "\<exists>c s'. get_obj the_rlc s p = Some c \<and> (if rl_idleCount c \<ge> g then
      RlcDeleteUeContext (put_obj p (RlcObj (c\<lparr>rl_deleteFlag := 1\<rparr>)) s) p else RlcUpdateUeContextTime s p 1) = Some s' \<and>
    cleaned [p] (unat g) s s'"
proof -
  obtain c where c: "us_heap s p = Some (RlcObj c)" "rlc_rnti s p = rl_rnti c" by (rule rlc_ctx [OF ok p])
  have idle: "idle_of s p = unat (rl_idleCount c)" by (simp add: idle_of_def get_rlc [OF c(1)])
  have ctxs: "get_obj the_rlc s' q = get_obj the_rlc s q" if "us_heap s' q = us_heap s q" for s' q
    using that by (simp add: get_obj_def)
  show ?thesis
  proof (cases "rl_idleCount c \<ge> g")
    case True
    show ?thesis
    proof (rule delete_context_run [OF ok p c(1), where f = 1])
      fix s' assume s': "RlcDeleteUeContext (put_obj p (RlcObj (c\<lparr>rl_deleteFlag := 1\<rparr>)) s) p = Some s'" "rlc_ok s'"
        "gRlcUeContextList s' = remove1 p (gRlcUeContextList s)" "own s' - rlc_blocks s' = own s - rlc_blocks s" "rlc_log s' = rlc_log s"
        "\<And>q. q \<in> set (gRlcUeContextList s) \<Longrightarrow> q \<noteq> p \<Longrightarrow> us_heap s' q = us_heap s q"
        "\<And>r k. k < MAX_LC_ID \<Longrightarrow> rx_of s' r k = (if r = rl_rnti c then (None, []) else rx_of s r k)"
      have "gRlcUeContextList s' = filter (\<lambda>q. q \<in> set [p] \<longrightarrow> idle_of s q < unat g) (gRlcUeContextList s)"
        using True rlc_okD(2) [OF ok] idle
        by (simp add: s'(3) distinct_remove1_removeAll removeAll_filter_not_eq word_le_nat_alt) (rule filter_cong, auto)
      moreover have "idle_of s' q = idle_of s q \<and> rlc_rnti s' q = rlc_rnti s q \<and> q \<noteq> p" if q: "q \<in> set (gRlcUeContextList s')" for q
      proof -
        have q': "q \<in> set (gRlcUeContextList s)" "q \<noteq> p" using q rlc_okD(2) [OF ok] unfolding s'(3) by auto
        with ctxs [OF s'(6) [OF q']] show ?thesis by (simp add: idle_of_def rlc_rnti_def)
      qed
      ultimately have "cleaned [p] (unat g) s s'"
        using s'(2,4,5,7) True idle c(2) by (auto simp: cleaned_def word_le_nat_alt)
      then show ?thesis using s'(1) True by (auto simp: get_rlc [OF c(1)])
    qed
  next
    case False
    let ?s = "put_obj p (RlcObj (c\<lparr>rl_idleCount := rl_idleCount c + 1\<rparr>)) s"
    have less: "unat (rl_idleCount c) < unat g" using False by (simp add: word_le_nat_alt)
    then have "unat (rl_idleCount c) + 1 < 2 ^ 32" using unsigned_less [of g, where 'a = nat] by simp
    then have inc: "unat (rl_idleCount c + 1) = unat (rl_idleCount c) + 1" by (simp add: unat_word_ariths)
    have g: "grown_to s ?s" by (rule touch_context [OF ok p c(1)])
    have nn: "p \<noteq> NULL" using c(1) heap_NULL [OF rlc_okD(1) [OF ok]] by (cases "p = NULL") auto
    have "RlcUpdateUeContextTime s p 1 = Some ?s" using nn by (simp add: RlcUpdateUeContextTime_def get_rlc [OF c(1)])
    moreover have "cleaned [p] (unat g) s ?s"
      unfolding cleaned_def
    proof (intro conjI allI ballI impI)
      show "gRlcUeContextList ?s = filter (\<lambda>q. q \<in> set [p] \<longrightarrow> idle_of s q < unat g) (gRlcUeContextList s)"
        using less idle by simp
      show "idle_of ?s q = idle_of s q + (if q \<in> set [p] then 1 else 0)" for q
        using inc c(1) by (cases "q = p") (simp_all add: idle_of_def get_obj_def the_rlc_def)
      show "rlc_rnti ?s q = rlc_rnti s q" for q
        using c(1) by (cases "q = p") (simp_all add: rlc_rnti_def get_obj_def the_rlc_def)
    qed (use grown_toD [OF g] less idle in auto)
    ultimately show ?thesis using False by (auto simp: get_rlc [OF c(1)])
  qed
qed

lemma cleaned_all:
  assumes "rlc_ok s" "set ps \<subseteq> set (gRlcUeContextList s)" "distinct ps"
  shows "\<exists>s'. cleanup_contexts ps g s = Some s' \<and> cleaned ps (unat g) s s'"
  using assms
proof (induction ps arbitrary: s)
  case Nil
  then show ?case by (simp add: cleaned_def)
next
  case (Cons p ps)
  obtain c s1 where s1: "get_obj the_rlc s p = Some c" "(if rl_idleCount c \<ge> g then
      RlcDeleteUeContext (put_obj p (RlcObj (c\<lparr>rl_deleteFlag := 1\<rparr>)) s) p else RlcUpdateUeContextTime s p 1) = Some s1"
    "cleaned [p] (unat g) s s1"
    using cleaned_one [OF Cons.prems(1), of p g] Cons.prems(2) by auto
  have l1: "gRlcUeContextList s1 = filter (\<lambda>q. q = p \<longrightarrow> idle_of s q < unat g) (gRlcUeContextList s)"
    using s1(3) by (simp add: cleaned_def)
  have "set ps \<subseteq> set (gRlcUeContextList s1)" using Cons.prems(2,3) l1 by auto
  then obtain s2 where s2: "cleanup_contexts ps g s1 = Some s2" "cleaned ps (unat g) s1 s2"
    using Cons.IH [of s1] Cons.prems(3) s1(3) by (auto simp: cleaned_def)
  have same: "idle_of s1 q = idle_of s q \<and> rlc_rnti s1 q = rlc_rnti s q" if "q \<in> set (gRlcUeContextList s)" "q \<noteq> p" for q
    using s1(3) that l1 by (auto simp: cleaned_def)
  have keep: "rlc_rnti s1 q = rlc_rnti s q \<and> idle_of s1 q = idle_of s q + (if q = p then 1 else 0)" if "q \<in> set (gRlcUeContextList s1)" for q
    using s1(3) that by (auto simp: cleaned_def)
  have "cleaned (p # ps) (unat g) s s2"
    unfolding cleaned_def
  proof (intro conjI allI ballI impI)
    show "gRlcUeContextList s2 = filter (\<lambda>q. q \<in> set (p # ps) \<longrightarrow> idle_of s q < unat g) (gRlcUeContextList s)"
    proof -
      have "gRlcUeContextList s2 = filter (\<lambda>q. q \<in> set ps \<longrightarrow> idle_of s1 q < unat g) (gRlcUeContextList s1)"
        using s2(2) by (simp add: cleaned_def)
      moreover have "idle_of s1 q = idle_of s q" if "q \<in> set (gRlcUeContextList s)" "q \<in> set ps" for q
        using same that Cons.prems(3) by auto
      ultimately show ?thesis unfolding l1 filter_filter by (auto intro!: filter_cong)
    qed
    fix q assume q: "q \<in> set (gRlcUeContextList s2)"
    then have q1: "q \<in> set (gRlcUeContextList s1)" using s2(2) by (auto simp: cleaned_def)
    show "idle_of s2 q = idle_of s q + (if q \<in> set (p # ps) then 1 else 0)" "rlc_rnti s2 q = rlc_rnti s q"
      using s2(2) q keep [OF q1] Cons.prems(3) by (auto simp: cleaned_def)
  next
    fix r k assume k: "k < MAX_LC_ID"
    have a: "rx_of s1 r k = (if unat g \<le> idle_of s p \<and> rlc_rnti s p = r then (None, []) else rx_of s r k)"
      using s1(3) k by (simp add: cleaned_def)
    have b: "rx_of s2 r k = (if \<exists>q\<in>set ps. unat g \<le> idle_of s1 q \<and> rlc_rnti s1 q = r then (None, []) else rx_of s1 r k)"
      using s2(2) k by (simp add: cleaned_def)
    have "(\<exists>q\<in>set ps. unat g \<le> idle_of s1 q \<and> rlc_rnti s1 q = r) \<longleftrightarrow> (\<exists>q\<in>set ps. unat g \<le> idle_of s q \<and> rlc_rnti s q = r)"
      
    proof (rule bex_cong [OF refl])
      fix q assume "q \<in> set ps"
      then have "q \<in> set (gRlcUeContextList s)" "q \<noteq> p" using Cons.prems(2,3) by auto
      from same [OF this] show "(unat g \<le> idle_of s1 q \<and> rlc_rnti s1 q = r) = (unat g \<le> idle_of s q \<and> rlc_rnti s q = r)" by simp
    qed
    with a b show "rx_of s2 r k = (if \<exists>q\<in>set (p # ps). unat g \<le> idle_of s q \<and> rlc_rnti s q = r then (None, []) else rx_of s r k)"
      by auto
  qed (use s1(3) s2(2) in \<open>simp_all add: cleaned_def\<close>)
  with s1(1,2) s2(1) show ?case by auto
qed

lemma round_run:
  assumes "rlc_ok s"
  shows "\<exists>s'. ExecuteCleanup g s = Some s' \<and> cleaned (gRlcUeContextList s) (unat g) s s'"
proof (cases "gRlcUeContextList s = []")
  case True
  then show ?thesis using assms by (simp add: ExecuteCleanup_def RlcGetUeContextCount_def cleaned_def)
next
  case False
  then show ?thesis using cleaned_all [OF assms _ rlc_okD(2) [OF assms], of g]
    by (simp add: ExecuteCleanup_def RlcGetUeContextCount_def)
qed

section \<open>Contexts expire\<close>

lemma rounds_run:
  assumes "rlc_ok s" "\<forall>p\<in>set (gRlcUeContextList s). j \<le> idle_of s p"
  shows "\<exists>s'. cleanup_rounds n g s = Some s' \<and> rlc_ok s' \<and> own s' - rlc_blocks s' = own s - rlc_blocks s \<and>
    rlc_log s' = rlc_log s \<and> (unat g < j + n \<and> 0 < n \<longrightarrow> gRlcUeContextList s' = []) \<and>
    set (gRlcUeContextList s') \<subseteq> set (gRlcUeContextList s)"
  using assms
proof (induction n arbitrary: s j)
  case (Suc n)
  obtain s1 where s1: "ExecuteCleanup g s = Some s1" "cleaned (gRlcUeContextList s) (unat g) s s1"
    using round_run [OF Suc.prems(1)] by blast
  have l: "set (gRlcUeContextList s1) \<subseteq> set (gRlcUeContextList s)" "\<forall>p\<in>set (gRlcUeContextList s1). Suc j \<le> idle_of s1 p"
    using s1(2) Suc.prems(2) by (auto simp: cleaned_def)
  obtain s2 where s2: "cleanup_rounds n g s1 = Some s2" "rlc_ok s2" "own s2 - rlc_blocks s2 = own s1 - rlc_blocks s1"
    "rlc_log s2 = rlc_log s1" "unat g < Suc j + n \<and> 0 < n \<longrightarrow> gRlcUeContextList s2 = []"
    "set (gRlcUeContextList s2) \<subseteq> set (gRlcUeContextList s1)"
    using Suc.IH [OF _ l(2)] s1(2) by (auto simp: cleaned_def)
  have "gRlcUeContextList s2 = []" if g: "unat g < j + Suc n"
  proof (cases "n = 0")
    case True
    then have "gRlcUeContextList s1 = []" using g s1(2) Suc.prems(2) by (auto simp: cleaned_def filter_empty_conv)
    then show ?thesis using s2(6) by simp
  next
    case False
    then show ?thesis using s2(5) g by simp
  qed
  then show ?case using s1 s2 l(1) by (auto simp: cleaned_def)
qed simp

lemma forgotten [simp]: "gRlcUeContextList s = [] \<Longrightarrow> us_heap s NULL = None \<Longrightarrow> rx_of s r k = (None, [])"
  by (simp add: rx_of_def receiver_ptr_def rlc_tbl_def get_obj_def)

lemma no_contexts: "gRlcUeContextList s = [] \<Longrightarrow> rlc_blocks s = {}"
  by (simp add: rlc_blocks_def receivers_def)

text \<open>
  C19. Idle contexts expire, and only they.  One round of the cleaner runs without undefined
  behaviour from every state of the layer; it deletes exactly the contexts whose idle counter has
  reached the limit, which forgets exactly the receivers of their RNTIs, makes the others one round
  older and changes nothing outside the tables.  After more rounds than the limit without a packet
  no context is left whatever the counters were: no receiver holds a partial SDU, and every block
  that the tables held is back in the pools, those outside are still in use.
\<close>

theorem idle_contexts_expire:
  assumes "rlc_ok s"
  shows "(\<exists>s'. ExecuteCleanup g s = Some s' \<and> cleaned (gRlcUeContextList s) (unat g) s s') \<and>
    (\<forall>n>unat g. \<exists>s'. cleanup_rounds n g s = Some s' \<and> rlc_ok s' \<and> gRlcUeContextList s' = [] \<and>
       (\<forall>r k. rx_of s' r k = (None, [])) \<and> own s' = own s - rlc_blocks s \<and> rlc_log s' = rlc_log s)"
proof (intro conjI allI impI)
  show "\<exists>s'. ExecuteCleanup g s = Some s' \<and> cleaned (gRlcUeContextList s) (unat g) s s'" by (rule round_run [OF assms])
  fix n assume n: "unat g < n"
  obtain s' where s': "cleanup_rounds n g s = Some s'" "rlc_ok s'" "own s' - rlc_blocks s' = own s - rlc_blocks s"
    "rlc_log s' = rlc_log s" "unat g < n \<and> 0 < n \<longrightarrow> gRlcUeContextList s' = []"
    using rounds_run [OF assms, of 0 n g] by auto
  then have e: "gRlcUeContextList s' = []" using n by simp
  have h: "us_heap s' NULL = None" by (rule heap_NULL [OF rlc_okD(1) [OF s'(2)]])
  from s' e show "\<exists>s'. cleanup_rounds n g s = Some s' \<and> rlc_ok s' \<and> gRlcUeContextList s' = [] \<and>
      (\<forall>r k. rx_of s' r k = (None, [])) \<and> own s' = own s - rlc_blocks s \<and> rlc_log s' = rlc_log s"
    by (simp add: no_contexts forgotten [OF e h])
qed

text \<open>
  A receiver that waits for the rest of an SDU is gone after three rounds with the limit two.
\<close>

theorem idle_contexts_expire_witness:
  "case with_buffer (amd_pdu 0 1 517 [] [20, 21]) idle_state of (p, s) \<Rightarrow>
     \<exists>s1 s2. RlcProcessAMRxPacket s \<lparr>rd_buffer = p, rd_length = 4, rd_lcId = 2\<rparr> 61 = Some s1 \<and>
       rx_of s1 61 2 = (Some (517, [20, 21]), []) \<and>
       cleanup_rounds 3 2 s1 = Some s2 \<and> rlc_ok s2 \<and> rx_of s2 61 2 = (None, []) \<and> own s2 = {}"
proof -
  let ?b = "amd_pdu 0 1 517 [] [20, 21]"
  have b: "length ?b = 4" by (simp add: amd_pdu_length)
  obtain p s where s: "with_buffer ?b idle_state = (p, s)" "buffer s p ?b" "spare 15 s" "rlc_ok s" "mac_ready s"
    "rlc_blocks s = {}" "\<And>r k. rx_of s r k = (None, [])" "\<And>r. mac_grant s r = None" "rlc_log s = []" "own s = {p}"
    using idle_rlc [of ?b] b by auto
  let ?i = "\<lparr>rd_buffer = p, rd_length = 4, rd_lcId = 2\<rparr>"
  have el: "amd_elements 1 [] [20, 21] = [(AM_PDU_MAP_SDU_START, [20, 21])]"
    by (simp add: amd_elements_def only_status_def)
  have rx: "rx_dfes (mac_grant s 61) 517 (amd_elements 1 [] [20, 21]) (rx_of s 61 (unat (2 :: u8))) = ((Some (517, [20, 21]), []), [])"
    by (simp add: el s(7,8) rx_dfe_def rx_next_def rx_first_def start_grants_def)
  have f: "amd_fields 0 1 517 []" by (simp add: amd_fields_def)
  obtain s1 where s1: "RlcProcessAMRxPacket s ?i 61 = Some s1" "packet_done s s1 p 61 2 (Some (517, [20, 21]), []) []"
    using am_packet_run [OF s(4,5) _ _ s(2) _ f _ _ _ _ _ rx, of ?i] s(6,7) b spare_le [OF s(3), of 6] by (auto simp: out_ok_def)
  then have d: "rlc_ok s1" "rx_of s1 61 2 = (Some (517, [20, 21]), [])" "own s1 - rlc_blocks s1 = {}"
    using s(6,10) by (simp_all add: packet_done_def)
  obtain s2 where s2: "cleanup_rounds 3 2 s1 = Some s2" "rlc_ok s2" "rx_of s2 61 2 = (None, [])" "own s2 = own s1 - rlc_blocks s1"
    using idle_contexts_expire [OF d(1), of 2] by auto
  show ?thesis using s(1) s1(1) d s2 by auto
qed

end
