(* ===== verification/Mac_Pdu.thy ===== *)
theory Mac_Pdu
  imports Rlc_Refinement "HOL-Library.While_Combinator"
begin

text \<open>
  The MAC receiver, \<open>ulp/src/lteMac.c\<close>: a PHY message carries transport blocks, each a MAC PDU
  of subheaders, control elements and SDUs.  The subheaders are decoded first, into an array of
  logical channels and lengths; then the payload is taken apart and handed to the RRC and the
  RLC.  A C pointer into the message is its block and an offset; a byte that is read through it
  lies in the block, or the behaviour is undefined.
\<close>

section \<open>Data\<close>

abbreviation (input) MAX_NUM_CHANNELS :: u32 where "MAX_NUM_CHANNELS \<equiv> 17"
abbreviation (input) MAC_UL_CCCH_LCH :: u32 where "MAC_UL_CCCH_LCH \<equiv> 0"
abbreviation (input) MAC_LCID_10 :: u32 where "MAC_LCID_10 \<equiv> 10"
abbreviation (input) MAC_POWER_HEAD_LCH :: u32 where "MAC_POWER_HEAD_LCH \<equiv> 26"
abbreviation (input) MAC_CRNTI_LCH :: u32 where "MAC_CRNTI_LCH \<equiv> 27"
abbreviation (input) MAC_TRUNCATED_BSR :: u32 where "MAC_TRUNCATED_BSR \<equiv> 28"
abbreviation (input) MAC_S_BSR_LCH :: u32 where "MAC_S_BSR_LCH \<equiv> 29"
abbreviation (input) MAC_L_BSR_LCH :: u32 where "MAC_L_BSR_LCH \<equiv> 30"
abbreviation (input) MAC_PADDING_LCH :: u32 where "MAC_PADDING_LCH \<equiv> 31"
abbreviation (input) MAC_UL_PDU_EXTN_FLAG :: u8 where "MAC_UL_PDU_EXTN_FLAG \<equiv> 0x20"
abbreviation (input) CRNTI_MAC_CE_LENGTH :: u32 where "CRNTI_MAC_CE_LENGTH \<equiv> 2"
abbreviation (input) LONG_BSR_MAC_CE_LENGTH :: u32 where "LONG_BSR_MAC_CE_LENGTH \<equiv> 3"
abbreviation (input) SHORT_BSR_MAC_CE_LENGTH :: u32 where "SHORT_BSR_MAC_CE_LENGTH \<equiv> 1"
abbreviation (input) POWER_HEADROOM_MAC_CE_LENGTH :: u32 where "POWER_HEADROOM_MAC_CE_LENGTH \<equiv> 1"

abbreviation (input) RX_ULSCH_INDICATION :: u16 where "RX_ULSCH_INDICATION \<equiv> 0x87"
abbreviation (input) sizeof_S_PhyHlMsgHead :: u16 where "sizeof_S_PhyHlMsgHead \<equiv> 32"
abbreviation (input) sizeof_S_UlIndHead :: u16 where "sizeof_S_UlIndHead \<equiv> 4"
abbreviation (input) sizeof_S_RxUlschIndHeadPdu :: u16 where "sizeof_S_RxUlschIndHeadPdu \<equiv> 28"
abbreviation (input) sizeof_MacUeDataInd :: u32 where "sizeof_MacUeDataInd \<equiv> 16"
abbreviation (input) sizeof_RlcUlData :: u32 where "sizeof_RlcUlData \<equiv> 1704"

record DemuxDataBase =
  dm_lchId :: u8
  dm_length :: u32

text \<open>
  The pointer \<open>buffer\<close> is the offset \<open>up_start\<close> in the block
  \<open>up_block\<close>.
\<close>

record UlSchPdu =
  up_rnti :: u16
  up_length :: u16
  up_block :: ptr
  up_start :: nat

text \<open>
  The local variables of \<open>MacProcessUlSchPdu\<close>, which its helpers change through pointers.  The
  remaining length is a signed integer in two's complement; compared with an unsigned one it is
  taken as unsigned.
\<close>

record UlSchScan =
  sc_extnFlag :: bool
  sc_ok :: bool
  sc_startPadding :: bool
  sc_pData :: nat
  sc_pos :: u32
  sc_dataPtrPos :: u32
  sc_localLength :: u32
  sc_remaining :: u32
  sc_demux :: "DemuxDataBase list"

section \<open>Subheaders\<close>

type_synonym reader = "nat \<Rightarrow> u8 option"

text \<open>
  The answer: the pointer to the last byte of the length, the length, and the header position.
\<close>

definition MacCalculateSubHeaderLength :: "reader \<Rightarrow> nat \<Rightarrow> u32 \<Rightarrow> (nat \<times> u32 \<times> u32) option" where
  "MacCalculateSubHeaderLength rd p dataPtrPos = do {
     b \<leftarrow> rd p;
     if b AND 0x80 \<noteq> 0 then do {
       c \<leftarrow> rd (p + 1);
       Some (p + 1, push_bit 8 (ucast (b AND 0x7F)) OR ucast c, dataPtrPos + 3)
     } else Some (p, ucast (b AND 0x7F), dataPtrPos + 2) }"

text \<open>An entry of the array of channels, and the payload that is accounted for.\<close>

definition demux_entry :: "u32 \<Rightarrow> u32 \<Rightarrow> UlSchScan \<Rightarrow> UlSchScan" where
  "demux_entry lcId len sc =
     (if sc_pos sc < MAX_NUM_CHANNELS
      then sc\<lparr>sc_demux := (sc_demux sc)[unat (sc_pos sc) := \<lparr>dm_lchId = ucast lcId, dm_length = len\<rparr>],
              sc_pos := sc_pos sc + 1\<rparr>
      else sc)"

definition demux_take :: "u32 \<Rightarrow> UlSchScan \<Rightarrow> UlSchScan" where
  "demux_take len sc = sc\<lparr>sc_remaining := sc_remaining sc - len\<rparr>"

text \<open>
  The length of an SDU: without extension it is the last one and takes what is left, otherwise
  the subheader has a length.  Both kinds of logical channels begin like this; the flag of the
  answer is false when the function returns.
\<close>

definition mac_sdu_length :: "reader \<Rightarrow> UlSchScan \<Rightarrow> (bool \<times> UlSchScan) option" where
  "mac_sdu_length rd sc =
     (if \<not> sc_extnFlag sc then
        (let sc = sc\<lparr>sc_dataPtrPos := sc_dataPtrPos sc + 1\<rparr> in
         if sc_remaining sc \<le> sc_dataPtrPos sc then Some (False, sc\<lparr>sc_ok := False\<rparr>)
         else Some (True, sc\<lparr>sc_localLength := sc_remaining sc - sc_dataPtrPos sc\<rparr>))
      else do {
        (p, l, d) \<leftarrow> MacCalculateSubHeaderLength rd (sc_pData sc + 1) (sc_dataPtrPos sc);
        Some (True, sc\<lparr>sc_pData := p, sc_localLength := l, sc_dataPtrPos := d\<rparr>) })"

definition MacProcessMacLcId :: "reader \<Rightarrow> u32 \<Rightarrow> UlSchScan \<Rightarrow> UlSchScan option" where
  "MacProcessMacLcId rd lcId sc = do {
     (go, sc) \<leftarrow> mac_sdu_length rd sc;
     let l = sc_localLength sc;
     Some (if \<not> go then sc
       else if l = 0 \<or> sc_remaining sc < l then sc\<lparr>sc_ok := False\<rparr>
       else demux_take l (demux_entry lcId l sc)) }"

definition MacProcessUlCcchLch :: "reader \<Rightarrow> UlSchScan \<Rightarrow> UlSchScan option" where
  "MacProcessUlCcchLch rd sc = do {
     (go, sc) \<leftarrow> mac_sdu_length rd sc;
     let l = sc_localLength sc;
     Some (if \<not> go then sc
       else if l = 0 \<or> sc_remaining sc < l \<or> l > 100 then sc\<lparr>sc_ok := False\<rparr>
       else demux_take l (demux_entry MAC_UL_CCCH_LCH l sc)) }"

text \<open>The remaining length is compared with a signed constant here.\<close>

definition MacProcessPowerHeadLch :: "UlSchScan \<Rightarrow> UlSchScan" where
  "MacProcessPowerHeadLch sc =
     (if sc_remaining sc <s POWER_HEADROOM_MAC_CE_LENGTH then sc\<lparr>sc_ok := False\<rparr>
      else (let sc = demux_take POWER_HEADROOM_MAC_CE_LENGTH
                       (demux_entry MAC_POWER_HEAD_LCH POWER_HEADROOM_MAC_CE_LENGTH sc)
            in sc\<lparr>sc_dataPtrPos := sc_dataPtrPos sc + 1\<rparr>))"

definition MacProcessCrntiLch :: "UlSchScan \<Rightarrow> UlSchScan" where
  "MacProcessCrntiLch sc =
     (if sc_remaining sc <s CRNTI_MAC_CE_LENGTH then sc\<lparr>sc_ok := False\<rparr>
      else (let sc = demux_take CRNTI_MAC_CE_LENGTH (demux_entry MAC_CRNTI_LCH CRNTI_MAC_CE_LENGTH sc)
            in sc\<lparr>sc_dataPtrPos := sc_dataPtrPos sc + 1\<rparr>))"

definition MacProcessShortOrTruncatedBsr :: "u32 \<Rightarrow> UlSchScan \<Rightarrow> UlSchScan" where
  "MacProcessShortOrTruncatedBsr lcId sc =
     (if sc_remaining sc <s SHORT_BSR_MAC_CE_LENGTH then sc\<lparr>sc_ok := False\<rparr>
      else (let sc = demux_take SHORT_BSR_MAC_CE_LENGTH (demux_entry lcId SHORT_BSR_MAC_CE_LENGTH sc)
            in sc\<lparr>sc_dataPtrPos := sc_dataPtrPos sc + 1\<rparr>))"

definition MacProcessLongBsrLch :: "UlSchScan \<Rightarrow> UlSchScan" where
  "MacProcessLongBsrLch sc =
     (if sc_remaining sc <s LONG_BSR_MAC_CE_LENGTH then sc\<lparr>sc_ok := False\<rparr>
      else (let sc = demux_take LONG_BSR_MAC_CE_LENGTH (demux_entry MAC_L_BSR_LCH LONG_BSR_MAC_CE_LENGTH sc)
            in sc\<lparr>sc_dataPtrPos := sc_dataPtrPos sc + 1\<rparr>))"

definition MacProcessPaddingLch :: "UlSchScan \<Rightarrow> UlSchScan" where
  "MacProcessPaddingLch sc =
     (if \<not> sc_extnFlag sc then
        (let sc = sc\<lparr>sc_dataPtrPos := sc_dataPtrPos sc + 1\<rparr>;
             l = (if sc_remaining sc > sc_dataPtrPos sc then sc_remaining sc - sc_dataPtrPos sc
                  else sc_dataPtrPos sc - sc_remaining sc);
             sc = sc\<lparr>sc_localLength := l\<rparr>
         in if sc_remaining sc \<ge> l then
              (let sc = demux_take l sc in
               if sc_pos sc < MAX_NUM_CHANNELS
               then sc\<lparr>sc_demux := (sc_demux sc)[unat (sc_pos sc) := (sc_demux sc ! unat (sc_pos sc))\<lparr>dm_length := 0\<rparr>]\<rparr>
               else sc)
            else sc\<lparr>sc_ok := False\<rparr>)
      else sc\<lparr>sc_startPadding := True, sc_dataPtrPos := sc_dataPtrPos sc + 1\<rparr>)"

text \<open>The \<open>switch\<close> over the logical channels; channels 11 to 25 are logged only.\<close>

definition mac_channel :: "reader \<Rightarrow> u32 \<Rightarrow> UlSchScan \<Rightarrow> UlSchScan option" where
  "mac_channel rd lcId sc =
     (if lcId = MAC_UL_CCCH_LCH then MacProcessUlCcchLch rd sc
      else if lcId \<le> MAC_LCID_10 then MacProcessMacLcId rd lcId sc
      else if lcId = MAC_POWER_HEAD_LCH then Some (MacProcessPowerHeadLch sc)
      else if lcId = MAC_CRNTI_LCH then Some (MacProcessCrntiLch sc)
      else if lcId = MAC_TRUNCATED_BSR \<or> lcId = MAC_S_BSR_LCH then Some (MacProcessShortOrTruncatedBsr lcId sc)
      else if lcId = MAC_L_BSR_LCH then Some (MacProcessLongBsrLch sc)
      else if lcId = MAC_PADDING_LCH then Some (MacProcessPaddingLch sc)
      else Some sc)"

text \<open>One round of the loop of \<open>MacProcessUlSchPdu\<close>.\<close>

definition mac_subheader :: "reader \<Rightarrow> UlSchScan \<Rightarrow> UlSchScan option" where
  "mac_subheader rd sc = do {
     b \<leftarrow> rd (sc_pData sc);
     sc \<leftarrow> mac_channel rd (ucast (b AND 0x1F))
       (sc\<lparr>sc_extnFlag := (b AND MAC_UL_PDU_EXTN_FLAG \<noteq> 0), sc_localLength := 0\<rparr>);
     let sc = (if sc_remaining sc <s 0 then sc\<lparr>sc_ok := False\<rparr> else sc);
     Some (sc\<lparr>sc_pData := sc_pData sc + 1\<rparr>) }"

text \<open>
  The loop, with the outer option for its termination and the inner one for undefined
  behaviour: nothing but the extension flags bounds the number of rounds.
\<close>

definition scan_more :: "UlSchScan option \<Rightarrow> bool" where
  "scan_more r = (case r of Some sc \<Rightarrow> sc_extnFlag sc \<and> sc_ok sc | None \<Rightarrow> False)"

definition mac_scan :: "reader \<Rightarrow> UlSchScan \<Rightarrow> UlSchScan option option" where
  "mac_scan rd sc = while_option scan_more (\<lambda>r. Option.bind r (mac_subheader rd)) (mac_subheader rd sc)"

definition scan_start :: "UlSchPdu \<Rightarrow> UlSchScan" where
  "scan_start pdu = \<lparr>sc_extnFlag = False, sc_ok = True, sc_startPadding = False, sc_pData = up_start pdu,
     sc_pos = 0, sc_dataPtrPos = 0, sc_localLength = 0, sc_remaining = ucast (up_length pdu),
     sc_demux = replicate 17 \<lparr>dm_lchId = 0, dm_length = 0\<rparr>\<rparr>"

section \<open>Demultiplexing\<close>

text \<open>
  The structure for the RLC is not cleared: length and bearer of an entry are what the block
  holds until they are set.  (Its other fields are written before they are read.)
\<close>

definition junk_entry :: "(nat \<Rightarrow> u8) \<Rightarrow> nat \<Rightarrow> RlcUlDataInfo" where
  "junk_entry junk i = \<lparr>rd_buffer = NULL,
     rd_length = push_bit 24 (ucast (junk (16 * i + 11))) OR push_bit 16 (ucast (junk (16 * i + 10))) OR
       push_bit 8 (ucast (junk (16 * i + 9))) OR ucast (junk (16 * i + 8)),
     rd_lcId = junk (16 * i + 12)\<rparr>"

text \<open>
  An SDU for the RLC: copied to a buffer of its own and entered in the structure at \<open>pi\<close>, which
  is allocated for the first one.  The answer is the number of entries.
\<close>

definition MacDemuxOneToTenLchMsg :: "u32 \<Rightarrow> u32 \<Rightarrow> u32 \<Rightarrow> ptr \<Rightarrow> nat \<Rightarrow> ptr \<Rightarrow> ulp_state \<Rightarrow> (u32 \<times> ulp_state) option" where
  "MacDemuxOneToTenLchMsg lchId lcIdx len blk off pi s =
     (if lcIdx \<ge> of_nat MAX_NUM_UL_PKTS then Some (lcIdx, s)
      else do {
        i \<leftarrow> get_obj the_ind s pi;
        s \<leftarrow> (if mi_rlcData i = NULL then do {
               (q, s) \<leftarrow> new_obj s sizeof_RlcUlData
                 (DataObj \<lparr>rd_array = junk_entry (us_junk s (us_tick s)), rd_numLCInfo = 0\<rparr>);
               Some (put_obj pi (IndObj (i\<lparr>mi_rlcData := q\<rparr>)) (s\<lparr>us_tick := us_tick s + 1\<rparr>))
             } else Some s);
        i \<leftarrow> get_obj the_ind s pi;
        let q = mi_rlcData i;
        if q \<noteq> NULL then do {
          d \<leftarrow> get_obj the_data s q;
          (b, s) \<leftarrow> us_alloc s len;
          let x = rd_array d (unat lcIdx);
          s \<leftarrow> (if b \<noteq> NULL then us_copy s b blk off (unat len) else Some s);
          let x = (if b \<noteq> NULL then \<lparr>rd_buffer = b, rd_length = len, rd_lcId = ucast lchId\<rparr>
                   else x\<lparr>rd_buffer := NULL\<rparr>);
          Some (lcIdx + 1, put_obj q (DataObj \<lparr>rd_array = (rd_array d)(unat lcIdx := x),
                  rd_numLCInfo = ucast (lcIdx + 1)\<rparr>) s)
        } else Some (lcIdx, s) })"

definition count_lch :: "u32 \<Rightarrow> ulp_state \<Rightarrow> ulp_state" where
  "count_lch lchId = kpi (\<lambda>k. k\<lparr>k_lcIdArray := (k_lcIdArray k)(unat lchId := k_lcIdArray k (unat lchId) + 1)\<rparr>)"

text \<open>
  One entry: the answer is the offset of the next one, the number of SDUs for the RLC and the state.
\<close>

definition mac_demux :: "u16 \<Rightarrow> ptr \<Rightarrow> ptr \<Rightarrow> DemuxDataBase \<Rightarrow> nat \<times> u32 \<times> ulp_state \<Rightarrow> (nat \<times> u32 \<times> ulp_state) option" where
  "mac_demux rnti blk pi d = (\<lambda>(off, lcIdx, s).
     (let lchId = (ucast (dm_lchId d) :: u32); len = dm_length d in
      if lchId = MAC_UL_CCCH_LCH then do {
        (b, s) \<leftarrow> us_alloc s len;
        s \<leftarrow> (if b \<noteq> NULL then do {
               s \<leftarrow> us_copy s b blk off (unat len);
               MacUeCcchDataInd (emit (Ip_Mac_Ccch rnti (block_bytes s b (unat len))) s) rnti b (ucast len) None
             } else Some s);
        Some (off + unat len, lcIdx, count_lch lchId s)
      } else if lchId \<le> MAC_LCID_10 then do {
        (lcIdx, s) \<leftarrow> MacDemuxOneToTenLchMsg lchId lcIdx len blk off pi s;
        Some (off + unat len, lcIdx, count_lch lchId s)
      } else if lchId = MAC_TRUNCATED_BSR \<or> lchId = MAC_S_BSR_LCH then do {
        b \<leftarrow> mem_byte (us_mem s) blk off;
        Some (off + 1, lcIdx, s)
      } else if lchId = MAC_L_BSR_LCH then do {
        b0 \<leftarrow> mem_byte (us_mem s) blk off;
        b1 \<leftarrow> mem_byte (us_mem s) blk (off + 1);
        b2 \<leftarrow> mem_byte (us_mem s) blk (off + 2);
        Some (off + 3, lcIdx, s)
      } else if lchId = MAC_POWER_HEAD_LCH then do {
        b \<leftarrow> mem_byte (us_mem s) blk off;
        Some (off + 1, lcIdx, s)
      } else Some (off + unat len, lcIdx, s)))"

fun mac_demuxes :: "u16 \<Rightarrow> ptr \<Rightarrow> ptr \<Rightarrow> DemuxDataBase list \<Rightarrow> nat \<times> u32 \<times> ulp_state \<Rightarrow> (nat \<times> u32 \<times> ulp_state) option" where
  "mac_demuxes rnti blk pi [] st = Some st"
| "mac_demuxes rnti blk pi (d # ds) st = do {
     st \<leftarrow> mac_demux rnti blk pi d st;
     mac_demuxes rnti blk pi ds st }"

definition MacDeMultiplexAndSend :: "DemuxDataBase list \<Rightarrow> u32 \<Rightarrow> ptr \<Rightarrow> nat \<Rightarrow> u16 \<Rightarrow> ulp_state \<Rightarrow> ulp_state option" where
  "MacDeMultiplexAndSend demuxData pos blk off rnti s = do {
     (pi, s) \<leftarrow> new_obj s sizeof_MacUeDataInd (IndObj \<lparr>mi_rnti = rnti, mi_rlcData = NULL\<rparr>);
     if pi = NULL then Some s
     else do {
       (off, lcIdx, s) \<leftarrow> mac_demuxes rnti blk pi (if pos \<le> MAX_NUM_CHANNELS then take (unat pos) demuxData else [])
         (off, 0, s);
       MacUeDataInd (emit (Ip_Mac_Data rnti) s) pi } }"

definition MacProcessUlSchPdu :: "ulp_state \<Rightarrow> UlSchPdu \<Rightarrow> ulp_state option" where
  "MacProcessUlSchPdu s pdu =
     (if up_block pdu = NULL \<or> up_length pdu = 0 then Some s
      else do {
        r \<leftarrow> mac_scan (mem_byte (us_mem s) (up_block pdu)) (scan_start pdu);
        sc \<leftarrow> r;
        if sc_ok sc then MacDeMultiplexAndSend (sc_demux sc) (sc_pos sc) (up_block pdu) (sc_pData sc) (up_rnti pdu) s
        else Some s })"

section \<open>Transport blocks\<close>

definition read16 :: "reader \<Rightarrow> nat \<Rightarrow> u16 option" where
  "read16 rd i = do { a \<leftarrow> rd i; b \<leftarrow> rd (i + 1); Some (push_bit 8 (ucast b) OR ucast a) }"

definition read32 :: "reader \<Rightarrow> nat \<Rightarrow> u32 option" where
  "read32 rd i = do { a \<leftarrow> read16 rd i; b \<leftarrow> read16 rd (i + 2); Some (push_bit 16 (ucast b) OR ucast a) }"

text \<open>
  The grant of the transport block whose header is at \<open>h\<close> is kept in the context of the UE.
\<close>

definition mac_record_grant :: "ptr \<Rightarrow> nat \<Rightarrow> u16 \<Rightarrow> ulp_state \<Rightarrow> ulp_state option" where
  "mac_record_grant p h rnti s = do {
     pu \<leftarrow> MacGetUeContext s rnti;
     (pu, s) \<leftarrow> (if pu = NULL then MacCreateUeContext s rnti else Some (pu, s));
     if pu \<noteq> NULL then do {
       c \<leftarrow> get_obj the_mac s pu;
       rb \<leftarrow> mem_byte (us_mem s) p (h + 18);
       power \<leftarrow> read32 (mem_byte (us_mem s) p) (h + 20);
       ta \<leftarrow> read16 (mem_byte (us_mem s) p) (h + 16);
       Some (put_obj pu (MacObj (c\<lparr>mc_rbNum := rb, mc_prbPower := power, mc_ta := ta\<rparr>)) s)
     } else Some s }"

text \<open>
  A transport block that has been received without errors: its MAC PDU is at \<open>t\<close>.
\<close>

definition mac_ul_pdu :: "ptr \<Rightarrow> nat \<Rightarrow> nat \<Rightarrow> ulp_state \<Rightarrow> ulp_state option" where
  "mac_ul_pdu p h t s = do {
     let s = kpi (\<lambda>k. k\<lparr>k_crcCorrect := k_crcCorrect k + 1\<rparr>) s;
     rnti \<leftarrow> read16 (mem_byte (us_mem s) p) (h + 4);
     s \<leftarrow> mac_record_grant p h rnti s;
     bitLen \<leftarrow> read32 (mem_byte (us_mem s) p) (h + 8);
     MacProcessUlSchPdu s \<lparr>up_rnti = rnti, up_length = ucast (drop_bit 3 (bitLen + 7)), up_block = p, up_start = t\<rparr> }"

text \<open>The loop over the transport blocks; the number of blocks is in the byte 35 of the message.\<close>

function mac_ul_pdus :: "ptr \<Rightarrow> u16 \<Rightarrow> u16 \<Rightarrow> u8 \<Rightarrow> ulp_state \<Rightarrow> ulp_state option" where
  "mac_ul_pdus p len tempLen numPdu s = do {
     n \<leftarrow> mem_byte (us_mem s) p 35;
     if tempLen < len \<and> numPdu < n then
       (let h = unat tempLen; tempLen = tempLen + sizeof_S_RxUlschIndHeadPdu in
        if tempLen > len then Some s
        else do {
          crc \<leftarrow> mem_byte (us_mem s) p (h + 14);
          s \<leftarrow> (if crc = 1 then mac_ul_pdu p h (unat tempLen) s
                else Some (kpi (\<lambda>k. k\<lparr>k_crcError := k_crcError k + 1\<rparr>) s));
          w \<leftarrow> read16 (mem_byte (us_mem s) p) (h + 12);
          mac_ul_pdus p len (tempLen + push_bit 2 w) (numPdu + 1) s
        })
     else Some s }"
  by pat_completeness auto

termination
proof (relation "measure (\<lambda>(p, len, tempLen, numPdu, s). 255 - unat numPdu)")
  fix p :: ptr and len tempLen :: u16 and numPdu n :: u8
  assume "tempLen < len \<and> numPdu < n"
  then have "unat numPdu < 255" using unsigned_less [of n, where 'a = nat] by (simp add: word_less_nat_alt)
  then show "((p, len, x, numPdu + 1, t), p, len, tempLen, numPdu, s)
      \<in> measure (\<lambda>(p, len, tempLen, numPdu, s). 255 - unat numPdu)" for x s t
    by (simp add: unat_word_ariths)
qed simp_all

declare mac_ul_pdus.simps [simp del]

definition MacProcessPhyDataInd :: "ulp_state \<Rightarrow> ptr \<Rightarrow> u16 \<Rightarrow> ulp_state option" where
  "MacProcessPhyDataInd s p len =
     (if p = NULL then Some s
      else do {
        opc \<leftarrow> read16 (mem_byte (us_mem s) p) 14;
        if opc = RX_ULSCH_INDICATION
        then mac_ul_pdus p len (sizeof_S_PhyHlMsgHead + sizeof_S_UlIndHead) 0 s
        else Some s })"

end
