(* ===== verification/Mac_Scan.thy ===== *)
theory Mac_Scan
  imports Mac_Pdu
begin

text \<open>
  The subheaders of a MAC PDU.  The loop over them ends for every content of the memory, within
  the block that holds the message; and for a PDU of the format it finds exactly the elements the
  PDU was made of, and the start of their payload.
\<close>

section \<open>The loop ends\<close>

lemma sdu_length_pData:
  assumes "mac_sdu_length rd sc = Some (go, sc')"
  shows "sc_pData sc \<le> sc_pData sc'" "sc_pData sc < sc_pData sc' \<Longrightarrow> rd (sc_pData sc') \<noteq> None"
  using assms by (auto simp: mac_sdu_length_def MacCalculateSubHeaderLength_def bind_Some_iff Let_def split: if_splits)

lemma demux_pData [simp]:
  "sc_pData (demux_entry l n sc) = sc_pData sc" "sc_pData (demux_take n sc) = sc_pData sc"
  by (simp_all add: demux_entry_def demux_take_def)

lemmas mac_handlers = MacProcessMacLcId_def MacProcessUlCcchLch_def MacProcessPowerHeadLch_def MacProcessCrntiLch_def
  MacProcessShortOrTruncatedBsr_def MacProcessLongBsrLch_def MacProcessPaddingLch_def

lemma channel_pData:
  assumes "mac_channel rd l sc = Some sc'"
  shows "sc_pData sc' = sc_pData sc \<or> sc_pData sc < sc_pData sc' \<and> rd (sc_pData sc') \<noteq> None"
proof -
  have "\<exists>go u. mac_sdu_length rd sc = Some (go, u) \<and> sc_pData sc' = sc_pData u"
    if "MacProcessMacLcId rd l sc = Some sc' \<or> MacProcessUlCcchLch rd sc = Some sc'"
    using that by (cases "mac_sdu_length rd sc") (auto simp: mac_handlers Let_def)
  then have "MacProcessMacLcId rd l sc = Some sc' \<or> MacProcessUlCcchLch rd sc = Some sc' \<Longrightarrow> ?thesis"
    using sdu_length_pData [of rd sc] by fastforce
  then show ?thesis
    using assms by (auto simp: mac_channel_def MacProcessPowerHeadLch_def MacProcessCrntiLch_def MacProcessShortOrTruncatedBsr_def
        MacProcessLongBsrLch_def MacProcessPaddingLch_def Let_def split: if_splits)
qed

text \<open>Every round goes ahead, and has read the byte before the place where it stops.\<close>

lemma subheader_progress:
  assumes "mac_subheader rd sc = Some sc'"
  shows "sc_pData sc < sc_pData sc'" "rd (sc_pData sc' - 1) \<noteq> None"
proof -
  obtain b sc1 where b: "rd (sc_pData sc) = Some b" "sc_pData sc' = sc_pData sc1 + 1"
    and c: "mac_channel rd (ucast (b AND 0x1F)) (sc\<lparr>sc_extnFlag := (b AND 0x20 \<noteq> 0), sc_localLength := 0\<rparr>) = Some sc1"
    using assms by (auto simp: mac_subheader_def bind_Some_iff Let_def if_distrib [of sc_pData] intro: that)
  from channel_pData [OF c] have d: "sc_pData sc1 = sc_pData sc \<or> sc_pData sc < sc_pData sc1 \<and> rd (sc_pData sc1) \<noteq> None"
    by simp
  with b show "sc_pData sc < sc_pData sc'" "rd (sc_pData sc' - 1) \<noteq> None" by auto
qed

lemma mac_scan_ends:
  assumes cap: "\<forall>i\<ge>cap. rd i = None"
  shows "\<exists>r. mac_scan rd sc = Some r"
proof -
  have inside: "sc_pData t \<le> cap" if "mac_subheader rd u = Some t" for t u
  proof -
    have "\<not> cap \<le> sc_pData t - 1" using subheader_progress(2) [OF that] spec [OF cap, of "sc_pData t - 1"] by auto
    then show ?thesis by simp
  qed
  show ?thesis
    unfolding mac_scan_def
  proof (rule measure_while_option_Some [where P = "\<lambda>r. \<forall>t. r = Some t \<longrightarrow> sc_pData t \<le> cap"
        and f = "\<lambda>r. case r of None \<Rightarrow> 0 | Some t \<Rightarrow> Suc (cap - sc_pData t)"])
    fix r assume "\<forall>t. r = Some t \<longrightarrow> sc_pData t \<le> cap" and m: "scan_more r"
    then obtain u where u: "r = Some u" "sc_pData u \<le> cap" by (cases r) (auto simp: scan_more_def)
    show "(\<forall>t. Option.bind r (mac_subheader rd) = Some t \<longrightarrow> sc_pData t \<le> cap) \<and>
        (case Option.bind r (mac_subheader rd) of None \<Rightarrow> 0 | Some t \<Rightarrow> Suc (cap - sc_pData t)) <
        (case r of None \<Rightarrow> 0 | Some t \<Rightarrow> Suc (cap - sc_pData t))"
    proof (cases "mac_subheader rd u")
      case (Some t)
      with u inside [OF Some] subheader_progress(1) [OF Some] show ?thesis by auto
    qed (simp add: u)
  next
    show "\<forall>t. mac_subheader rd sc = Some t \<longrightarrow> sc_pData t \<le> cap" using inside by blast
  qed
qed

section \<open>What is accounted for\<close>

definition entries :: "UlSchScan \<Rightarrow> DemuxDataBase list" where
  "entries sc = take (unat (sc_pos sc)) (sc_demux sc)"

lemma entries_view [simp]:
  "entries (sc\<lparr>sc_extnFlag := e\<rparr>) = entries sc" "entries (sc\<lparr>sc_ok := e\<rparr>) = entries sc"
  "entries (sc\<lparr>sc_startPadding := e\<rparr>) = entries sc" "entries (sc\<lparr>sc_pData := p\<rparr>) = entries sc"
  "entries (sc\<lparr>sc_dataPtrPos := d\<rparr>) = entries sc" "entries (sc\<lparr>sc_localLength := d\<rparr>) = entries sc"
  by (simp_all add: entries_def)

definition scan_ok :: "nat \<Rightarrow> UlSchScan \<Rightarrow> bool" where
  "scan_ok tot sc \<longleftrightarrow> sc_pos sc \<le> 17 \<and> length (sc_demux sc) = 17 \<and> (\<forall>d\<in>set (entries sc). dm_length d \<noteq> 0) \<and>
     sum_list (map (unat \<circ> dm_length) (entries sc)) + unat (sc_remaining sc) \<le> tot"

lemma scan_ok_view:
  "scan_ok tot (sc\<lparr>sc_extnFlag := e\<rparr>) = scan_ok tot sc" "scan_ok tot (sc\<lparr>sc_ok := e\<rparr>) = scan_ok tot sc"
  "scan_ok tot (sc\<lparr>sc_startPadding := e\<rparr>) = scan_ok tot sc" "scan_ok tot (sc\<lparr>sc_pData := p\<rparr>) = scan_ok tot sc"
  "scan_ok tot (sc\<lparr>sc_dataPtrPos := d\<rparr>) = scan_ok tot sc" "scan_ok tot (sc\<lparr>sc_localLength := d\<rparr>) = scan_ok tot sc"
  by (simp_all add: scan_ok_def entries_def)

lemma demux_entry_entries:
  assumes "sc_pos sc < 17" "length (sc_demux sc) = 17"
  shows "entries (demux_entry l n sc) = entries sc @ [\<lparr>dm_lchId = ucast l, dm_length = n\<rparr>]"
proof -
  have p: "unat (sc_pos sc) < 17" using assms(1) by (simp add: word_less_nat_alt)
  then have "unat (sc_pos sc + 1) = Suc (unat (sc_pos sc))" by (simp add: unat_word_ariths)
  then show ?thesis using assms p by (simp add: demux_entry_def entries_def take_Suc_conv_app_nth)
qed

lemma scan_ok_take:
  assumes "scan_ok tot sc" "n \<noteq> 0" "n \<le> sc_remaining sc"
  shows "scan_ok tot (demux_take n (demux_entry l n sc))"
proof (cases "sc_pos sc < 17")
  case True
  have r: "unat (sc_remaining sc - n) + unat n = unat (sc_remaining sc)"
    using assms(3) by (simp add: unat_sub word_le_nat_alt)
  have "entries (demux_take n (demux_entry l n sc)) = entries (demux_entry l n sc)" by (simp add: entries_def demux_take_def)
  moreover have "sc_pos sc + 1 \<le> 17" using True by unat_arith
  ultimately show ?thesis
    using assms True r demux_entry_entries [OF True, of l n] by (auto simp: scan_ok_def) (simp_all add: demux_entry_def demux_take_def)
next
  case False
  then show ?thesis using assms(1,3) by (auto simp: scan_ok_def demux_entry_def demux_take_def entries_def unat_sub word_le_nat_alt)
qed

lemma uint_sint_pos: "0 \<le> sint (x :: u32) \<Longrightarrow> uint x = sint x"
  using sint_lt [of x] by (simp add: uint_sint take_bit_int_eq_self)

lemma signed_enough: "\<not> (r :: u32) <s n \<Longrightarrow> 0 \<le>s n \<Longrightarrow> n \<le> r"
  by (simp add: word_sless_alt word_sle_eq word_le_def uint_sint_pos)

lemma sdu_length_ok:
  assumes "mac_sdu_length rd sc = Some (go, sc')"
  shows "scan_ok tot sc' = scan_ok tot sc"
  using assms by (auto simp: mac_sdu_length_def bind_Some_iff Let_def scan_ok_view split: if_splits)

lemma channel_ok:
  assumes "mac_channel rd l sc = Some sc'" "scan_ok tot sc"
  shows "scan_ok tot sc'"
proof -
  have sdu: "scan_ok tot sc'" if h: "MacProcessMacLcId rd l sc = Some sc' \<or> MacProcessUlCcchLch rd sc = Some sc'"
  proof -
    obtain go u where u: "mac_sdu_length rd sc = Some (go, u)" using h by (auto simp: mac_handlers bind_Some_iff)
    have "scan_ok tot u" using sdu_length_ok [OF u] assms(2) by simp
    then show ?thesis using h u by (auto simp: mac_handlers Let_def scan_ok_view intro!: scan_ok_take split: if_splits)
  qed
  have ce: "scan_ok tot (if sc_remaining sc <s n then sc\<lparr>sc_ok := False\<rparr>
      else (let sc = demux_take n (demux_entry k n sc) in sc\<lparr>sc_dataPtrPos := sc_dataPtrPos sc + 1\<rparr>))" if "n \<in> {1, 2, 3}" for n k
    using that assms(2) signed_enough [of "sc_remaining sc" n]
    by (auto simp: Let_def scan_ok_view word_sle_eq intro!: scan_ok_take)
  have pad: "scan_ok tot (MacProcessPaddingLch sc)"
  proof -
    have take: "scan_ok tot (demux_take n t)" if "scan_ok tot t" "n \<le> sc_remaining t" for n t
      using that by (auto simp: scan_ok_def demux_take_def entries_def unat_sub word_le_nat_alt)
    have upd: "scan_ok tot (t\<lparr>sc_demux := (sc_demux t)[unat (sc_pos t) := d]\<rparr>) = scan_ok tot t" for t d
      by (simp add: scan_ok_def entries_def)
    show ?thesis using assms(2)
      by (auto simp: MacProcessPaddingLch_def Let_def scan_ok_view upd intro!: take)
  qed
  show ?thesis
    using assms sdu pad ce [of 1] ce [of 2] ce [of 3]
    by (auto simp: mac_channel_def MacProcessPowerHeadLch_def MacProcessCrntiLch_def MacProcessShortOrTruncatedBsr_def
        MacProcessLongBsrLch_def split: if_splits)
qed

lemma subheader_ok:
  assumes "mac_subheader rd sc = Some sc'" "scan_ok tot sc"
  shows "scan_ok tot sc'"
  using assms by (auto simp: mac_subheader_def bind_Some_iff Let_def scan_ok_view dest!: channel_ok)

lemma scan_result:
  assumes cap: "\<forall>i\<ge>cap. rd i = None" and r: "mac_scan rd sc = Some (Some t)" and ok: "scan_ok tot sc"
  shows "scan_ok tot t" "sc_pData sc < sc_pData t" "sc_pData t \<le> cap"
proof -
  let ?P = "\<lambda>r. \<forall>t. r = Some t \<longrightarrow> scan_ok tot t \<and> sc_pData sc < sc_pData t \<and> rd (sc_pData t - 1) \<noteq> None"
  have "?P (Some t)"
  proof (rule while_option_rule [where P = ?P, OF _ r [unfolded mac_scan_def]])
    fix r assume p: "?P r" and m: "scan_more r"
    then obtain u where u: "r = Some u" by (cases r) (auto simp: scan_more_def)
    show "?P (Option.bind r (mac_subheader rd))"
    proof (intro allI impI)
      fix t assume "Option.bind r (mac_subheader rd) = Some t"
      then have t: "mac_subheader rd u = Some t" by (simp add: u)
      show "scan_ok tot t \<and> sc_pData sc < sc_pData t \<and> rd (sc_pData t - 1) \<noteq> None"
        using subheader_ok [OF t] subheader_progress [OF t] p u by auto
    qed
  next
    show "?P (mac_subheader rd sc)" using subheader_ok [OF _ ok] subheader_progress by blast
  qed
  then have t: "scan_ok tot t" "sc_pData sc < sc_pData t" "rd (sc_pData t - 1) \<noteq> None" by simp_all
  then show "scan_ok tot t" "sc_pData sc < sc_pData t" by blast+
  have "\<not> cap \<le> sc_pData t - 1" using t(3) spec [OF cap, of "sc_pData t - 1"] by auto
  then show "sc_pData t \<le> cap" by simp
qed

lemma scan_start_ok: "scan_ok (unat (up_length pdu)) (scan_start pdu)" "sc_pData (scan_start pdu) = up_start pdu"
  by (simp_all add: scan_ok_def scan_start_def entries_def unat_ucast_16_32)

section \<open>The format\<close>

text \<open>
  An element of a MAC PDU is a channel and its payload: an SDU, a control element of the fixed
  length of its channel, or padding in front of the last element, which has no payload.  All but
  the last element have the extension flag, and their SDUs a length of one or two bytes.
\<close>

type_synonym mac_element = "u8 \<times> u8 list"

definition ce_length :: "u8 \<Rightarrow> nat option" where
  "ce_length lc = (if lc = 26 \<or> lc = 28 \<or> lc = 29 then Some 1 else if lc = 27 then Some 2
     else if lc = 30 then Some 3 else None)"

definition sdu_element :: "mac_element \<Rightarrow> bool" where
  "sdu_element x \<longleftrightarrow> fst x \<le> 10 \<and> snd x \<noteq> [] \<and> (fst x = 0 \<longrightarrow> length (snd x) \<le> 100)"

definition element_ok :: "mac_element \<Rightarrow> bool" where
  "element_ok x \<longleftrightarrow> sdu_element x \<and> length (snd x) < 2 ^ 15 \<or> ce_length (fst x) = Some (length (snd x)) \<or>
     fst x = 31 \<and> snd x = []"

definition last_ok :: "mac_element \<Rightarrow> bool" where
  "last_ok x \<longleftrightarrow> sdu_element x \<or> ce_length (fst x) = Some (length (snd x)) \<or> fst x = 31"

definition subheader :: "mac_element \<Rightarrow> u8 list" where
  "subheader x = (fst x OR 0x20) # (if fst x \<le> 10 then
     (if length (snd x) < 128 then [of_nat (length (snd x))]
      else [0x80 OR of_nat (length (snd x) div 256), of_nat (length (snd x))]) else [])"

definition mac_header :: "mac_element list \<Rightarrow> mac_element \<Rightarrow> u8 list" where
  "mac_header xs y = concat (map subheader xs) @ [fst y]"

definition mac_pdu :: "mac_element list \<Rightarrow> mac_element \<Rightarrow> u8 list" where
  "mac_pdu xs y = mac_header xs y @ concat (map snd xs) @ snd y"

text \<open>The entries that are decoded: padding leaves none.\<close>

definition element_entries :: "mac_element list \<Rightarrow> DemuxDataBase list" where
  "element_entries xs = map (\<lambda>(lc, bs). \<lparr>dm_lchId = lc, dm_length = of_nat (length bs)\<rparr>) (filter (\<lambda>x. fst x \<noteq> 31) xs)"

definition reads_at :: "reader \<Rightarrow> nat \<Rightarrow> u8 list \<Rightarrow> bool" where
  "reads_at rd i bs \<longleftrightarrow> (\<forall>k<length bs. rd (i + k) = Some (bs ! k))"

lemma reads_at_simps [simp]:
  "reads_at rd i []" "reads_at rd i (b # bs) \<longleftrightarrow> rd i = Some b \<and> reads_at rd (Suc i) bs"
  by (auto simp: reads_at_def nth_Cons split: nat.splits)

lemma reads_at_append [simp]: "reads_at rd i (as @ bs) \<longleftrightarrow> reads_at rd i as \<and> reads_at rd (i + length as) bs"
  by (induction as arbitrary: i) auto

section \<open>Bytes of a subheader\<close>

lemma small_byte:
  assumes "n < 128"
  shows "of_nat n AND 0x80 = (0 :: u8)" "of_nat n AND 0x7F = (of_nat n :: u8)" "(0x80 OR of_nat n) AND 0x80 \<noteq> (0 :: u8)"
    "(0x80 OR of_nat n) AND 0x7F = (of_nat n :: u8)"
proof -
  have "\<forall>n\<in>set [0..<128]. of_nat n AND 0x80 = (0 :: u8) \<and> of_nat n AND 0x7F = (of_nat n :: u8) \<and>
    (0x80 OR of_nat n) AND 0x80 \<noteq> (0 :: u8) \<and> (0x80 OR of_nat n) AND 0x7F = (of_nat n :: u8)" by code_simp
  then show "of_nat n AND 0x80 = (0 :: u8)" "of_nat n AND 0x7F = (of_nat n :: u8)" "(0x80 OR of_nat n) AND 0x80 \<noteq> (0 :: u8)"
    "(0x80 OR of_nat n) AND 0x7F = (of_nat n :: u8)" using assms by auto
qed

lemma channel_byte:
  assumes "lc \<le> (31 :: u8)"
  shows "(lc OR 0x20) AND 0x1F = lc" "(lc OR 0x20) AND 0x20 \<noteq> 0" "lc AND 0x1F = lc" "lc AND 0x20 = 0"
proof -
  have "\<forall>n\<in>set [0..<32]. (of_nat n OR 0x20) AND 0x1F = (of_nat n :: u8) \<and> (of_nat n OR 0x20) AND 0x20 \<noteq> (0 :: u8) \<and>
    of_nat n AND 0x1F = (of_nat n :: u8) \<and> of_nat n AND 0x20 = (0 :: u8)" by code_simp
  moreover have "unat lc \<in> set [0..<32]" using assms by (simp add: word_le_nat_alt)
  moreover have "lc = of_nat (unat lc)" by simp
  ultimately show "(lc OR 0x20) AND 0x1F = lc" "(lc OR 0x20) AND 0x20 \<noteq> 0" "lc AND 0x1F = lc" "lc AND 0x20 = 0" by metis+
qed

lemma bit_of_nat_word: "bit (of_nat n :: 'a::len word) k \<longleftrightarrow> k < LENGTH('a) \<and> bit n k"
proof -
  have "bit (of_nat n :: 'a word) k = bit (unat (of_nat n :: 'a word)) k" by (simp add: bit_unsigned_iff)
  also have "\<dots> = bit (take_bit LENGTH('a) n) k" by (simp add: unsigned_of_nat)
  also have "\<dots> \<longleftrightarrow> k < LENGTH('a) \<and> bit n k" by (simp add: bit_take_bit_iff)
  finally show ?thesis .
qed

lemma two_bytes:
  assumes "n < 2 ^ 16"
  shows "push_bit 8 (ucast (of_nat (n div 256) :: u8)) OR ucast (of_nat n :: u8) = (of_nat n :: u32)"
proof (rule bit_word_eqI)
  fix k assume k: "k < LENGTH(32)"
  have d: "n div 256 = drop_bit 8 n" by (simp add: drop_bit_eq_div)
  have "\<not> bit n k" if "16 \<le> k"
    using assms that by (metis bit_take_bit_iff not_le take_bit_nat_eq_self_iff)
  then show "bit (push_bit 8 (ucast (of_nat (n div 256) :: u8)) OR ucast (of_nat n :: u8) :: u32) k = bit (of_nat n :: u32) k"
    using k unfolding d
    by (cases "k < 8"; cases "k < 16") (auto simp: word_bit_simps bit_of_nat_word)
qed

lemma length_decoded:
  assumes "n < 2 ^ 15" and r: "reads_at rd p (if n < 128 then [of_nat n] else [0x80 OR of_nat (n div 256), of_nat n])"
  shows "MacCalculateSubHeaderLength rd p d = Some (if n < 128 then (p, of_nat n, d + 2) else (p + 1, of_nat n, d + 3))"
proof (cases "n < 128")
  case True
  then have "take_bit 8 n = n" by (simp add: take_bit_nat_eq_self_iff)
  with True show ?thesis using r small_byte [OF True]
    by (simp add: MacCalculateSubHeaderLength_def unsigned_of_nat)
next
  case False
  then have h: "n div 256 < 128" using assms(1) by simp
  have t: "push_bit 8 (ucast (of_nat (n div 256) :: u8)) OR ucast (of_nat n :: u8) = (of_nat n :: u32)"
    using assms(1) by (intro two_bytes) simp
  show ?thesis using False r small_byte(3,4) [OF h] t by (simp add: MacCalculateSubHeaderLength_def)
qed

section \<open>One element\<close>

text \<open>
  Where the loop stands after \<open>hdr\<close> bytes of subheaders that account for
  \<open>paid\<close> of the \<open>tot\<close> bytes of the PDU.
\<close>

definition scan_at :: "nat \<Rightarrow> nat \<Rightarrow> nat \<Rightarrow> nat \<Rightarrow> DemuxDataBase list \<Rightarrow> UlSchScan \<Rightarrow> bool" where
  "scan_at start tot hdr paid es sc \<longleftrightarrow> sc_ok sc \<and> sc_pData sc = start + hdr \<and> sc_dataPtrPos sc = of_nat hdr \<and>
     sc_remaining sc = of_nat (tot - paid) \<and> length (sc_demux sc) = 17 \<and> sc_pos sc \<le> 17 \<and>
     entries sc = take 17 es \<and> unat (sc_pos sc) = min 17 (length es)"

lemma scan_at_entry:
  assumes "length (sc_demux sc) = 17" "sc_pos sc \<le> 17" "entries sc = take 17 es" "unat (sc_pos sc) = min 17 (length es)"
  shows "length (sc_demux (demux_entry l n sc)) = 17" "sc_pos (demux_entry l n sc) \<le> 17"
    "entries (demux_entry l n sc) = take 17 (es @ [\<lparr>dm_lchId = ucast l, dm_length = n\<rparr>])"
    "unat (sc_pos (demux_entry l n sc)) = min 17 (length (es @ [\<lparr>dm_lchId = ucast l, dm_length = n\<rparr>]))"
proof -
  show "length (sc_demux (demux_entry l n sc)) = 17" using assms(1) by (simp add: demux_entry_def)
  show p: "sc_pos (demux_entry l n sc) \<le> 17" using assms(2) by (auto simp: demux_entry_def) unat_arith
  show "entries (demux_entry l n sc) = take 17 (es @ [\<lparr>dm_lchId = ucast l, dm_length = n\<rparr>])"
  proof (cases "sc_pos sc < 17")
    case True
    then have "length es < 17" using assms(4) by (simp add: word_less_nat_alt)
    with demux_entry_entries [OF True assms(1)] assms(3) show ?thesis by simp
  next
    case False
    then have "17 \<le> length es" using assms(4) by (simp add: word_less_nat_alt)
    with False assms(3) show ?thesis by (simp add: demux_entry_def)
  qed
  show "unat (sc_pos (demux_entry l n sc)) = min 17 (length (es @ [\<lparr>dm_lchId = ucast l, dm_length = n\<rparr>]))"
    using assms(4) by (auto simp: demux_entry_def word_less_nat_alt unat_word_ariths)
qed

lemma small_signed:
  assumes "n < 2 ^ 31"
  shows "\<not> (of_nat n :: u32) <s 0"
proof -
  have t: "take_bit 31 n = n" using assms by (simp add: take_bit_nat_eq_self_iff)
  have "bit (take_bit 31 n) 31 = False" by (simp add: bit_take_bit_iff)
  then have "\<not> bit n 31" unfolding t by simp
  then have "\<not> bit (int n) 31" by (simp add: bit_of_nat_iff)
  then have "sint (of_nat n :: u32) = take_bit 31 (int n)" by (simp add: signed_of_nat signed_take_bit_eq_if_positive)
  then show ?thesis by (simp add: word_sless_alt)
qed

lemma small_le: "m < 2 ^ 32 \<Longrightarrow> n < 2 ^ 32 \<Longrightarrow> (of_nat m :: u32) \<le> of_nat n \<longleftrightarrow> m \<le> n"
    "m < 2 ^ 32 \<Longrightarrow> n < 2 ^ 32 \<Longrightarrow> (of_nat m :: u32) < of_nat n \<longleftrightarrow> m < n"
  by (simp_all add: word_le_nat_alt word_less_nat_alt unat_of_nat_small)

lemma subtract_of_nat: "k \<le> n \<Longrightarrow> (of_nat n :: u32) - of_nat k = of_nat (n - k)"
  by (simp add: of_nat_diff)

text \<open>The common end of the handlers: an entry, and the payload accounted for.\<close>

lemma scan_at_taken:
  assumes at: "scan_at start tot hdr paid es sc" and n: "paid + n \<le> tot" and l: "of_nat n = w" "ucast l = lc"
    and t: "sc_ok t" "sc_pos t = sc_pos sc" "sc_demux t = sc_demux sc" "sc_remaining t = sc_remaining sc"
    and d: "sc_dataPtrPos u = of_nat hdr'" "sc_pData u = start + hdr'"
    and u: "u = demux_take w (demux_entry l w t) \<lparr>sc_dataPtrPos := sc_dataPtrPos u, sc_pData := sc_pData u\<rparr>"
  shows "scan_at start tot hdr' (paid + n) (es @ [\<lparr>dm_lchId = lc, dm_length = w\<rparr>]) u"
proof -
  have et: "entries t = entries sc" using t(2,3) by (simp add: entries_def)
  note e = scan_at_entry [of t es l w, unfolded et t(2,3)]
  have uu: "sc_ok u = sc_ok (demux_entry l w t)" "sc_demux u = sc_demux (demux_entry l w t)"
    "sc_pos u = sc_pos (demux_entry l w t)" "sc_remaining u = sc_remaining (demux_entry l w t) - w"
    by (subst u, simp add: demux_take_def)+
  then have eu: "entries u = entries (demux_entry l w t)" by (simp add: entries_def)
  have "sc_remaining (demux_entry l w t) = of_nat (tot - paid)" "sc_ok (demux_entry l w t)"
    using at t(1,4) by (simp_all add: demux_entry_def scan_at_def)
  moreover have "(of_nat (tot - paid) :: u32) - w = of_nat (tot - (paid + n))"
    using n l(1) subtract_of_nat [of n "tot - paid"] by (simp del: of_nat_diff)
  ultimately show ?thesis using at e d l(2) unfolding scan_at_def uu eu by auto
qed

lemma demux_fields [simp]:
  "sc_extnFlag (demux_take w (demux_entry l n sc)) = sc_extnFlag sc" "sc_dataPtrPos (demux_take w (demux_entry l n sc)) = sc_dataPtrPos sc"
  "sc_remaining (demux_take w (demux_entry l n sc)) = sc_remaining sc - w"
  by (simp_all add: demux_take_def demux_entry_def)

lemma scan_at_room:
  assumes "scan_at start tot hdr paid es sc" "paid + n \<le> tot" "tot < 2 ^ 16"
  shows "of_nat n \<le> sc_remaining sc" "\<not> sc_remaining sc - of_nat n <s 0" "unat (sc_remaining sc) = tot - paid"
proof -
  have r: "sc_remaining sc = of_nat (tot - paid)" using assms(1) by (simp add: scan_at_def)
  show "of_nat n \<le> sc_remaining sc" using assms(2,3) unfolding r by (subst small_le) simp_all
  have "sc_remaining sc - of_nat n = of_nat (tot - paid - n)" using assms(2) unfolding r by (intro subtract_of_nat) simp
  then show "\<not> sc_remaining sc - of_nat n <s 0" using assms(3) small_signed [of "tot - paid - n"] by simp
  show "unat (sc_remaining sc) = tot - paid" using assms(3) unfolding r by (intro unat_of_nat_small) simp
qed

lemma ucast_channel: "ucast (ucast lc :: u32) = (lc :: u8)" "(ucast lc :: u32) = 0 \<longleftrightarrow> lc = 0" "(ucast lc :: u32) \<le> 10 \<longleftrightarrow> lc \<le> 10"
proof -
  show u: "ucast (ucast lc :: u32) = lc" by (rule bit_word_eqI) (simp add: word_bit_simps)
  have n: "unat (ucast lc :: u32) = unat lc" using unsigned_less [of lc, where 'a = nat]
    by (simp add: unsigned_ucast_eq take_bit_nat_eq_self_iff)
  then show "(ucast lc :: u32) = 0 \<longleftrightarrow> lc = 0" by (metis u unsigned_0 unsigned_eq_0_iff)
  show "(ucast lc :: u32) \<le> 10 \<longleftrightarrow> lc \<le> 10" using n by (simp add: word_le_nat_alt)
qed

text \<open>
  What the \<open>switch\<close> does with an SDU whose length is known, and with a control element.
\<close>

lemma channel_sdu:
  assumes x: "sdu_element (lc, bs)" and n: "length bs < 2 ^ 16" and r: "of_nat (length bs) \<le> sc_remaining t"
    and l: "mac_sdu_length rd sc = Some (True, t)" "sc_localLength t = of_nat (length bs)"
  shows "mac_channel rd (ucast lc) sc = Some (demux_take (of_nat (length bs)) (demux_entry (ucast lc) (of_nat (length bs)) t))"
proof -
  have w: "unat (of_nat (length bs) :: u32) = length bs" using n by (intro unat_of_nat_small) simp
  have nz: "(of_nat (length bs) :: u32) \<noteq> 0" using x w by (metis sdu_element_def length_0_conv snd_conv unsigned_0)
  have c: "lc = 0 \<Longrightarrow> \<not> (of_nat (length bs) :: u32) > 100" using x w by (simp add: sdu_element_def word_less_nat_alt)
  show ?thesis
    using x nz c r l ucast_channel [of lc]
    by (auto simp: mac_channel_def MacProcessUlCcchLch_def MacProcessMacLcId_def Let_def sdu_element_def not_less)
qed

lemma channel_ce:
  assumes "ce_length lc = Some n" "\<not> sc_remaining sc <s of_nat n"
  shows "mac_channel rd (ucast lc) sc = Some ((demux_take (of_nat n) (demux_entry (ucast lc) (of_nat n) sc))
    \<lparr>sc_dataPtrPos := sc_dataPtrPos sc + 1\<rparr>)"
  using assms by (auto simp: ce_length_def mac_channel_def MacProcessPowerHeadLch_def MacProcessCrntiLch_def
      MacProcessShortOrTruncatedBsr_def MacProcessLongBsrLch_def Let_def split: if_splits)

lemma after_channel:
  assumes "rd (sc_pData sc) = Some b" "\<not> sc_remaining u <s 0"
    and "mac_channel rd (ucast (b AND 0x1F)) (sc\<lparr>sc_extnFlag := (b AND 0x20 \<noteq> 0), sc_localLength := 0\<rparr>) = Some u"
  shows "mac_subheader rd sc = Some (u\<lparr>sc_pData := sc_pData u + 1\<rparr>)"
  using assms by (simp add: mac_subheader_def)

lemma ce_channels:
  assumes "ce_length lc = Some n"
  shows "\<not> lc \<le> 10" "lc \<noteq> 31" "n = 1 \<or> n = 2 \<or> n = 3"
proof -
  have "lc = 26 \<or> lc = 27 \<or> lc = 28 \<or> lc = 29 \<or> lc = 30"
    using assms by (metis ce_length_def option.distinct(1))
  then show "\<not> lc \<le> 10" "lc \<noteq> 31" by auto
  show "n = 1 \<or> n = 2 \<or> n = 3" using assms by (auto simp: ce_length_def split: if_splits)
qed

lemma channel_le: "element_ok x \<or> last_ok x \<Longrightarrow> fst x \<le> 31"
proof -
  assume "element_ok x \<or> last_ok x"
  then have "fst x \<le> 10 \<or> fst x = 26 \<or> fst x = 27 \<or> fst x = 28 \<or> fst x = 29 \<or> fst x = 30 \<or> fst x = 31"
    by (simp add: element_ok_def last_ok_def sdu_element_def ce_length_def split: if_splits) blast+
  moreover have "fst x \<le> 31" if "fst x \<le> 10" by (rule order_trans [OF that]) simp
  ultimately show "fst x \<le> 31" by auto
qed

lemma ce_fits:
  assumes at: "scan_at start tot hdr paid es sc" and ce: "ce_length lc = Some n" and n: "paid + n \<le> tot" "tot < 2 ^ 16"
  shows "\<not> sc_remaining sc <s of_nat n"
proof -
  have rem: "sc_remaining sc = of_nat (tot - paid)" using at by (simp add: scan_at_def)
  have "sint (of_nat n :: u32) = int n" using ce_channels(3) [OF ce] by (elim disjE) simp_all
  moreover have "tot - paid < 2 ^ 31" using n(2) by simp
  then have "0 \<le> sint (sc_remaining sc)" using small_signed [of "tot - paid"] unfolding rem word_sless_alt by simp
  then have "sint (sc_remaining sc) = int (tot - paid)"
    using uint_sint_pos [of "sc_remaining sc"] scan_at_room(3) [OF at n] by (simp add: uint_nat)
  ultimately show ?thesis using n(1) by (simp add: word_sless_alt)
qed

lemma element_step:
  assumes x: "element_ok x" and at: "scan_at start tot hdr paid es sc"
    and r: "reads_at rd (start + hdr) (subheader x)" and n: "paid + length (snd x) \<le> tot" and tot: "tot < 2 ^ 16"
  shows "\<exists>u. mac_subheader rd sc = Some u \<and> sc_extnFlag u \<and>
    scan_at start tot (hdr + length (subheader x)) (paid + length (snd x)) (es @ element_entries [x]) u"
proof -
  obtain lc bs where lb: "x = (lc, bs)" by force
  let ?n = "length bs" and ?t = "sc\<lparr>sc_extnFlag := True, sc_localLength := 0\<rparr>"
  have b: "rd (sc_pData sc) = Some (lc OR 0x20)" using r at by (simp add: subheader_def scan_at_def lb)
  note cb = channel_byte [of lc]
  have lc: "lc \<le> 31" using channel_le [of x] x lb by simp
  have room: "of_nat ?n \<le> sc_remaining sc" "\<not> sc_remaining sc - of_nat ?n <s 0" "unat (sc_remaining sc) = tot - paid"
    using scan_at_room [OF at, of ?n] n tot lb by simp_all
  have rem: "sc_remaining sc = of_nat (tot - paid)" and ok: "sc_ok sc" and dp: "sc_dataPtrPos sc = of_nat hdr" "sc_pData sc = start + hdr"
    using at by (simp_all add: scan_at_def)
  have sub: "mac_channel rd (ucast lc) ?t = Some u \<Longrightarrow> \<not> sc_remaining u <s 0 \<Longrightarrow> mac_subheader rd sc = Some (u\<lparr>sc_pData := sc_pData u + 1\<rparr>)" for u
    using after_channel [of rd sc _ u, OF b] cb(1,2) [OF lc] by simp
  consider (sdu) "sdu_element x" "?n < 2 ^ 15" | (ce) "ce_length lc = Some ?n" | (pad) "lc = 31" "bs = []"
    using x lb by (auto simp: element_ok_def)
  then show ?thesis
  proof cases
    case sdu
    let ?k = "if ?n < 128 then 1 else 2 :: nat"
    let ?u = "?t\<lparr>sc_pData := start + hdr + ?k, sc_localLength := of_nat ?n, sc_dataPtrPos := of_nat (hdr + 1 + ?k)\<rparr>"
    have lc10: "lc \<le> 10" using sdu(1) lb by (simp add: sdu_element_def)
    then have "reads_at rd (start + hdr + 1) (if ?n < 128 then [of_nat ?n] else [0x80 OR of_nat (?n div 256), of_nat ?n])"
      using r by (cases "?n < 128") (simp_all add: subheader_def lb)
    from length_decoded [OF sdu(2) this, of "of_nat hdr"] have "mac_sdu_length rd ?t = Some (True, ?u)"
      using dp by (simp add: mac_sdu_length_def)
    from channel_sdu [OF _ _ _ this, of lc bs] have c: "mac_channel rd (ucast lc) ?t =
        Some (demux_take (of_nat ?n) (demux_entry (ucast lc) (of_nat ?n) ?u))"
      using sdu room(1) lb by simp
    let ?v = "demux_take (of_nat ?n) (demux_entry (ucast lc) (of_nat ?n) ?u)"
    have hl: "length (subheader x) = 1 + ?k" using lc10 by (simp add: subheader_def lb)
    have "scan_at start tot (hdr + length (subheader x)) (paid + ?n) (es @ [\<lparr>dm_lchId = lc, dm_length = of_nat ?n\<rparr>])
        (?v\<lparr>sc_pData := sc_pData ?v + 1\<rparr>)"
      by (rule scan_at_taken [OF at, where t = ?u and l = "ucast lc"]) (use n lb ok hl ucast_channel(1) in simp_all)
    moreover have "lc \<noteq> 31" using lc10 by auto
    ultimately show ?thesis using sub [OF c] room(2) lb by (simp add: element_entries_def)
  next
    case ce
    have "\<not> sc_remaining ?t <s of_nat ?n" using ce_fits [OF at ce] n tot lb by simp
    from channel_ce [OF ce this, of rd] have c: "mac_channel rd (ucast lc) ?t =
        Some ((demux_take (of_nat ?n) (demux_entry (ucast lc) (of_nat ?n) ?t))\<lparr>sc_dataPtrPos := of_nat (hdr + 1)\<rparr>)"
      using dp by simp
    let ?v = "(demux_take (of_nat ?n) (demux_entry (ucast lc) (of_nat ?n) ?t))\<lparr>sc_dataPtrPos := of_nat (hdr + 1)\<rparr>"
    have lc': "\<not> lc \<le> 10" "lc \<noteq> 31" by (rule ce_channels [OF ce])+
    have "scan_at start tot (hdr + 1) (paid + ?n) (es @ [\<lparr>dm_lchId = lc, dm_length = of_nat ?n\<rparr>])
        (?v\<lparr>sc_pData := sc_pData ?v + 1\<rparr>)"
      by (rule scan_at_taken [OF at, where t = ?t and l = "ucast lc"]) (use n lb ok dp ucast_channel(1) in simp_all)
    then show ?thesis using sub [OF c] room(2) lb lc' by (simp add: element_entries_def subheader_def)
  next
    case pad
    have c: "mac_channel rd (ucast lc) ?t = Some (?t\<lparr>sc_startPadding := True, sc_dataPtrPos := sc_dataPtrPos sc + 1\<rparr>)"
      using pad by (simp add: mac_channel_def MacProcessPaddingLch_def)
    have "\<not> sc_remaining sc <s 0" using small_signed [of "tot - paid"] tot unfolding rem by simp
    with sub [OF c] show ?thesis using at pad lb
      by (simp add: scan_at_def element_entries_def subheader_def)
  qed
qed

text \<open>
  The last element, of which only the entries and the place of the payload matter afterwards.
\<close>

lemma last_step:
  assumes x: "last_ok x" and at: "scan_at start tot hdr paid es sc"
    and r: "rd (start + hdr) = Some (fst x)" and n: "tot = hdr + 1 + paid + length (snd x)" and tot: "tot < 2 ^ 16"
  shows "\<exists>u. mac_subheader rd sc = Some u \<and> \<not> sc_extnFlag u \<and> sc_ok u \<and> sc_pData u = start + hdr + 1 \<and>
    entries u = take 17 (es @ element_entries [x]) \<and> sc_pos u \<le> 17"
proof -
  obtain lc bs where lb: "x = (lc, bs)" by force
  let ?n = "length bs" and ?t = "sc\<lparr>sc_extnFlag := False, sc_localLength := 0\<rparr>"
  have b: "rd (sc_pData sc) = Some lc" using r at by (simp add: scan_at_def lb)
  note cb = channel_byte [of lc]
  have lc: "lc \<le> 31" using channel_le [of x] x lb by simp
  have room: "of_nat ?n \<le> sc_remaining sc" "\<not> sc_remaining sc - of_nat ?n <s 0" "unat (sc_remaining sc) = tot - paid"
    using scan_at_room [OF at, of ?n] n tot lb by simp_all
  have rem: "sc_remaining sc = of_nat (tot - paid)" and ok: "sc_ok sc" and dp: "sc_dataPtrPos sc = of_nat hdr" "sc_pData sc = start + hdr"
    using at by (simp_all add: scan_at_def)
  have sub: "mac_channel rd (ucast lc) ?t = Some u \<Longrightarrow> \<not> sc_remaining u <s 0 \<Longrightarrow> mac_subheader rd sc = Some (u\<lparr>sc_pData := sc_pData u + 1\<rparr>)" for u
    using after_channel [of rd sc _ u, OF b] cb(3,4) [OF lc] by simp
  have h1: "(of_nat hdr :: u32) + 1 = of_nat (hdr + 1)" by simp
  have tp: "tot - paid = hdr + 1 + ?n" using n lb by simp
  consider (sdu) "sdu_element x" | (ce) "ce_length lc = Some ?n" | (pad) "lc = 31" using x lb by (auto simp: last_ok_def)
  then show ?thesis
  proof cases
    case sdu
    let ?u = "?t\<lparr>sc_dataPtrPos := of_nat (hdr + 1), sc_localLength := of_nat ?n\<rparr>"
    have lc10: "lc \<le> 10" "bs \<noteq> []" using sdu lb by (simp_all add: sdu_element_def)
    have "\<not> (of_nat (hdr + 1 + ?n) :: u32) \<le> of_nat (hdr + 1)"
      using n tot lc10(2) lb by (subst small_le) auto
    moreover have "(of_nat (hdr + 1 + ?n) :: u32) - of_nat (hdr + 1) = of_nat ?n" by simp
    ultimately have "mac_sdu_length rd ?t = Some (True, ?u)"
      by (simp add: mac_sdu_length_def dp h1 rem tp Let_def del: of_nat_add of_nat_Suc)
    from channel_sdu [OF _ _ _ this, of lc bs] have c: "mac_channel rd (ucast lc) ?t =
        Some (demux_take (of_nat ?n) (demux_entry (ucast lc) (of_nat ?n) ?u))"
      using sdu room(1) lb n tot by simp
    let ?v = "demux_take (of_nat ?n) (demux_entry (ucast lc) (of_nat ?n) ?u)"
    have "scan_at start tot (hdr + 1) (paid + ?n) (es @ [\<lparr>dm_lchId = lc, dm_length = of_nat ?n\<rparr>])
        (?v\<lparr>sc_pData := sc_pData ?v + 1\<rparr>)"
      by (rule scan_at_taken [OF at, where t = ?u and l = "ucast lc"]) (use n lb ok dp ucast_channel(1) in simp_all)
    moreover have "lc \<noteq> 31" using lc10 by auto
    ultimately show ?thesis using sub [OF c] room(2) lb by (simp add: element_entries_def scan_at_def)
  next
    case ce
    have "\<not> sc_remaining ?t <s of_nat ?n" using ce_fits [OF at ce] n tot lb by simp
    from channel_ce [OF ce this, of rd] have c: "mac_channel rd (ucast lc) ?t =
        Some ((demux_take (of_nat ?n) (demux_entry (ucast lc) (of_nat ?n) ?t))\<lparr>sc_dataPtrPos := of_nat (hdr + 1)\<rparr>)"
      using dp by simp
    let ?v = "(demux_take (of_nat ?n) (demux_entry (ucast lc) (of_nat ?n) ?t))\<lparr>sc_dataPtrPos := of_nat (hdr + 1)\<rparr>"
    have "scan_at start tot (hdr + 1) (paid + ?n) (es @ [\<lparr>dm_lchId = lc, dm_length = of_nat ?n\<rparr>])
        (?v\<lparr>sc_pData := sc_pData ?v + 1\<rparr>)"
      by (rule scan_at_taken [OF at, where t = ?t and l = "ucast lc"]) (use n lb ok dp ucast_channel(1) in simp_all)
    then show ?thesis using sub [OF c] room(2) lb ce_channels(2) [OF ce] demux_fields(1)
      by (simp add: element_entries_def scan_at_def)
  next
    case pad
    let ?d = "(sc_demux sc)[unat (sc_pos sc) := (sc_demux sc ! unat (sc_pos sc))\<lparr>dm_length := 0\<rparr>]"
    let ?v = "demux_take (of_nat ?n) (?t\<lparr>sc_dataPtrPos := of_nat (hdr + 1), sc_localLength := of_nat ?n\<rparr>)"
    let ?w = "if sc_pos sc < 17 then ?v\<lparr>sc_demux := ?d\<rparr> else ?v"
    have "(of_nat (hdr + 1 + ?n) :: u32) > of_nat (hdr + 1) \<or> ?n = 0" using n tot lb by (subst small_le) auto
    moreover have "(of_nat (hdr + 1 + ?n) :: u32) - of_nat (hdr + 1) = of_nat ?n" by simp
    moreover have "(of_nat ?n :: u32) \<le> of_nat (hdr + 1 + ?n)" using n tot lb by (subst small_le) auto
    ultimately have c: "mac_channel rd (ucast lc) ?t = Some ?w"
      using pad by (auto simp: mac_channel_def MacProcessPaddingLch_def dp h1 rem tp Let_def demux_take_def simp del: of_nat_add of_nat_Suc)
    have "sc_remaining ?w = sc_remaining sc - of_nat ?n" "sc_ok ?w" "\<not> sc_extnFlag ?w" "sc_pData ?w = start + hdr"
      "entries ?w = entries sc" "sc_pos ?w = sc_pos sc"
      using ok dp by (simp_all add: demux_take_def entries_def)
    with sub [OF c] show ?thesis using at pad lb room(2) by (simp add: scan_at_def element_entries_def)
  qed
qed

section \<open>The whole header\<close>

lemma scan_loop:
  assumes "\<forall>x\<in>set xs. element_ok x" "last_ok y" "tot < 2 ^ 16"
    and "tot = hdr + length (mac_header xs y) + paid + length (concat (map snd xs)) + length (snd y)"
    and "scan_at start tot hdr paid es sc" "reads_at rd (start + hdr) (mac_header xs y)"
  shows "\<exists>u. mac_scan rd sc = Some (Some u) \<and> sc_ok u \<and> sc_pData u = start + hdr + length (mac_header xs y) \<and>
    entries u = take 17 (es @ element_entries (xs @ [y])) \<and> sc_pos u \<le> 17"
  using assms
proof (induction xs arbitrary: hdr paid es sc)
  case Nil
  obtain u where u: "mac_subheader rd sc = Some u" "\<not> sc_extnFlag u" "sc_ok u" "sc_pData u = start + hdr + 1"
    "entries u = take 17 (es @ element_entries [y])" "sc_pos u \<le> 17"
    using last_step [OF Nil.prems(2,5) _ _ Nil.prems(3)] Nil.prems(4,6) by (auto simp: mac_header_def)
  have "mac_scan rd sc = Some (Some u)"
    using u by (simp add: mac_scan_def scan_more_def while_option_unfold)
  with u show ?case by (simp add: mac_header_def)
next
  case (Cons x xs)
  have r: "reads_at rd (start + hdr) (subheader x)" "reads_at rd (start + (hdr + length (subheader x))) (mac_header xs y)"
    using Cons.prems(6) by (simp_all add: mac_header_def add.assoc)
  obtain t where t: "mac_subheader rd sc = Some t" "sc_extnFlag t"
    "scan_at start tot (hdr + length (subheader x)) (paid + length (snd x)) (es @ element_entries [x]) t"
    using element_step [OF _ Cons.prems(5) r(1) _ Cons.prems(3)] Cons.prems(1,4) by auto
  have len: "tot = hdr + length (subheader x) + length (mac_header xs y) + (paid + length (snd x)) + length (concat (map snd xs)) + length (snd y)"
    using Cons.prems(4) by (simp add: mac_header_def)
  obtain u where u: "mac_scan rd t = Some (Some u)" "sc_ok u" "sc_pData u = start + (hdr + length (subheader x)) + length (mac_header xs y)"
    "entries u = take 17 ((es @ element_entries [x]) @ element_entries (xs @ [y]))" "sc_pos u \<le> 17"
    using Cons.IH [OF _ Cons.prems(2,3) len t(3) r(2)] Cons.prems(1) by auto
  have "mac_scan rd sc = mac_scan rd t"
    using t by (simp add: mac_scan_def scan_more_def scan_at_def while_option_unfold [of _ _ "Some t"])
  moreover have "(es @ element_entries [x]) @ element_entries (xs @ [y]) = es @ element_entries ((x # xs) @ [y])"
    by (simp add: element_entries_def)
  ultimately show ?case using u by (simp add: mac_header_def)
qed

lemma pdu_scanned:
  assumes "\<forall>x\<in>set xs. element_ok x" "last_ok y" "length (mac_pdu xs y) < 2 ^ 16"
    and "up_length pdu = of_nat (length (mac_pdu xs y))" "reads_at rd (up_start pdu) (mac_header xs y)"
  shows "\<exists>u. mac_scan rd (scan_start pdu) = Some (Some u) \<and> sc_ok u \<and> sc_pData u = up_start pdu + length (mac_header xs y) \<and>
    entries u = take 17 (element_entries (xs @ [y])) \<and> sc_pos u \<le> 17"
proof -
  have "unat (up_length pdu) = length (mac_pdu xs y)" using assms(3) unfolding assms(4) by (intro unat_of_nat_small) simp
  then have "(ucast (up_length pdu) :: u32) = of_nat (length (mac_pdu xs y))" by (metis of_nat_unat)
  then have "scan_at (up_start pdu) (length (mac_pdu xs y)) 0 0 [] (scan_start pdu)"
    by (simp add: scan_at_def scan_start_def entries_def)
  from scan_loop [OF assms(1-3) _ this, of rd] assms(5) show ?thesis by (simp add: mac_pdu_def)
qed

lemma buffer_reads: "buffer s p bs \<Longrightarrow> reads_at (mem_byte (us_mem s) p) 0 bs"
proof -
  assume b: "buffer s p bs"
  then have p: "p \<in> live (us_mem s)" "length bs \<le> blk_cap (us_mem s) p" "blk_bytes (us_mem s) p (length bs) = bs"
    by (auto simp: buffer_def raw_def block_bytes_def)
  have "mp_data (us_mem s) p i = bs ! i" if "i < length bs" for i
    using that arg_cong [OF p(3), of "\<lambda>xs. xs ! i"] by (simp add: blk_bytes_def)
  then show ?thesis using p(2) mem_byte_live [OF p(1)] by (simp add: reads_at_def)
qed

text \<open>
  C8. The loop over the subheaders ends, whatever the memory and the PDU hold: nothing but the
  extension flag of the last byte bounds it, but every round reads a byte further on in the block
  of the message.  If it stays inside the block, it has stopped behind the start of the PDU and
  not behind the end of the block, the array of channels has not overflowed, none of its
  entries is empty, and their lengths together with the rest are not more than the PDU.
\<close>

theorem mac_scan_terminates:
  "\<exists>r. mac_scan (mem_byte m (up_block pdu)) (scan_start pdu) = Some r \<and>
    (\<forall>sc. r = Some sc \<longrightarrow> up_start pdu < sc_pData sc \<and> sc_pData sc \<le> blk_cap m (up_block pdu) \<and> sc_pos sc \<le> 17 \<and>
       (\<forall>d\<in>set (entries sc). dm_length d \<noteq> 0) \<and>
       sum_list (map (unat \<circ> dm_length) (entries sc)) + unat (sc_remaining sc) \<le> unat (up_length pdu))"
proof -
  have cap: "\<forall>i\<ge>blk_cap m (up_block pdu). mem_byte m (up_block pdu) i = None"
    by (simp add: mem_byte_def blk_read_def split: option.split)
  obtain r where r: "mac_scan (mem_byte m (up_block pdu)) (scan_start pdu) = Some r" using mac_scan_ends [OF cap] by blast
  show ?thesis
    using r scan_result [OF cap _ scan_start_ok(1)] by (intro exI [of _ r]) (auto simp: scan_start_ok(2) scan_ok_def)
qed

theorem mac_scan_terminates_witness:
  "case with_buffer [0x21, 2, 0x1F, 7, 8, 9] idle_state of (p, s) \<Rightarrow>
     \<exists>sc. mac_scan (mem_byte (us_mem s) p) (scan_start \<lparr>up_rnti = 61, up_length = 6, up_block = p, up_start = 0\<rparr>) = Some (Some sc) \<and>
       0 < sc_pData sc \<and> sc_pData sc \<le> blk_cap (us_mem s) p \<and>
       sum_list (map (unat \<circ> dm_length) (entries sc)) + unat (sc_remaining sc) \<le> 6"
proof -
  let ?b = "[0x21, 2, 0x1F, 7, 8, 9] :: u8 list"
  have e: "mac_pdu [(1, [7, 8])] (31, [9]) = ?b" by (simp add: mac_pdu_def mac_header_def subheader_def)
  obtain p m where m: "with_buffer ?b idle_state = (p, idle_state\<lparr>us_mem := m\<rparr>)" "buffer (idle_state\<lparr>us_mem := m\<rparr>) p ?b"
    by (rule with_buffer_idle [of ?b]) simp_all
  let ?pdu = "\<lparr>up_rnti = 61, up_length = 6, up_block = p, up_start = 0\<rparr>"
  have "reads_at (mem_byte m p) 0 ?b" using buffer_reads [OF m(2)] by simp
  then have h: "reads_at (mem_byte m p) 0 (mac_header [(1, [7, 8])] (31, [9]))" by (simp add: mac_header_def subheader_def)
  obtain sc where sc: "mac_scan (mem_byte m p) (scan_start ?pdu) = Some (Some sc)"
    using pdu_scanned [of "[(1, [7, 8])]" "(31, [9])" ?pdu "mem_byte m p"] h
    by (auto simp: e element_ok_def sdu_element_def last_ok_def)
  from mac_scan_terminates [of m ?pdu] sc have "0 < sc_pData sc" "sc_pData sc \<le> blk_cap m p"
    "sum_list (map (unat \<circ> dm_length) (entries sc)) + unat (sc_remaining sc) \<le> 6" by auto
  with sc m(1) show ?thesis by auto
qed

text \<open>
  C9. A MAC PDU of the format comes apart into what it was made of: for any elements (SDUs of
  the channels 0 to 10 with one or two length bytes, control elements, padding) and any last
  element, anywhere inside a message buffer, the decoded entries are the channels and the lengths
  of the elements in order (the first 17 of them, the array has no room for more), padding leaves
  none, and the payload of all elements lies where the loop has stopped.
\<close>

theorem mac_pdu_roundtrip:
  assumes "buffer s (up_block pdu) (as @ mac_pdu xs y @ bs)" "\<forall>x\<in>set xs. element_ok x" "last_ok y"
    and "up_start pdu = length as" "up_length pdu = of_nat (length (mac_pdu xs y))"
  shows "\<exists>sc. mac_scan (mem_byte (us_mem s) (up_block pdu)) (scan_start pdu) = Some (Some sc) \<and> sc_ok sc \<and>
    entries sc = take 17 (element_entries (xs @ [y])) \<and>
    reads_at (mem_byte (us_mem s) (up_block pdu)) (sc_pData sc) (concat (map snd (xs @ [y])))"
proof -
  have "length (mac_pdu xs y) < 2 ^ 16" using assms(1) by (simp add: buffer_def)
  moreover have "reads_at (mem_byte (us_mem s) (up_block pdu)) (up_start pdu) (mac_header xs y)"
    "reads_at (mem_byte (us_mem s) (up_block pdu)) (up_start pdu + length (mac_header xs y)) (concat (map snd (xs @ [y])))"
    using buffer_reads [OF assms(1)] assms(4) by (simp_all add: mac_pdu_def add.assoc)
  ultimately show ?thesis using pdu_scanned [OF assms(2,3) _ assms(5)] by metis
qed

text \<open>A report of the buffer, an SDU of 200 bytes for a bearer, padding, and a last SDU.\<close>

theorem mac_pdu_roundtrip_witness:
  "case with_buffer (mac_pdu [(29, [0x41]), (1, replicate 200 5), (31, [])] (2, [6, 7])) idle_state of (p, s) \<Rightarrow>
     \<exists>sc. mac_scan (mem_byte (us_mem s) p) (scan_start \<lparr>up_rnti = 61, up_length = 209, up_block = p, up_start = 0\<rparr>) = Some (Some sc) \<and>
       sc_ok sc \<and> map dm_lchId (entries sc) = [29, 1, 2] \<and> map dm_length (entries sc) = [1, 200, 2]"
proof -
  let ?x = "[(29, [0x41]), (1, replicate 200 5), (31, [])] :: mac_element list" and ?y = "(2, [6, 7]) :: mac_element"
  have n: "length (mac_pdu ?x ?y) = 209" by (simp add: mac_pdu_def mac_header_def subheader_def)
  have ok: "\<forall>x\<in>set ?x. element_ok x" "last_ok ?y"
    by (simp_all add: element_ok_def last_ok_def sdu_element_def ce_length_def)
  obtain p m where m: "with_buffer (mac_pdu ?x ?y) idle_state = (p, idle_state\<lparr>us_mem := m\<rparr>)"
    "buffer (idle_state\<lparr>us_mem := m\<rparr>) p (mac_pdu ?x ?y)"
    by (rule with_buffer_idle [of "mac_pdu ?x ?y"]) (simp_all add: n)
  let ?pdu = "\<lparr>up_rnti = 61, up_length = 209, up_block = p, up_start = 0\<rparr>"
  obtain sc where sc: "mac_scan (mem_byte m p) (scan_start ?pdu) = Some (Some sc)" "sc_ok sc"
    "entries sc = take 17 (element_entries (?x @ [?y]))"
    using mac_pdu_roundtrip [of "idle_state\<lparr>us_mem := m\<rparr>" ?pdu "[]" ?x ?y "[]", OF _ ok] m(2) n by auto
  with m(1) show ?thesis by (simp add: element_entries_def)
qed

end
