(* ===== verification/Mac_Delivery.thy ===== *)
theory Mac_Delivery
  imports Mac_Scan
begin

text \<open>
  From the PHY message to the layers above: what the MAC receiver does with a transport block
  that carries an RLC packet, put together with the receiver of the RLC.
\<close>

section \<open>State the MAC changes but the RLC does not look at\<close>

text \<open>
  The two states differ in the MAC table, the queue of PHY messages, the counters and the clock of
  uninitialised blocks only.
\<close>

definition mac_view :: "ulp_state \<Rightarrow> ulp_state \<Rightarrow> bool" where
  "mac_view s t \<longleftrightarrow> us_mem t = us_mem s \<and> us_heap t = us_heap s \<and> gRlcUeContextList t = gRlcUeContextList s \<and>
     gRrcUeContextList t = gRrcUeContextList s \<and> gReadyRrcUeContextList t = gReadyRrcUeContextList s \<and> rlc_log t = rlc_log s"

lemma mac_view_own: "mac_view s t \<Longrightarrow> own t = own s" "mac_view s t \<Longrightarrow> raw t = raw s"
    "mac_view s t \<Longrightarrow> buffer t p bs = buffer s p bs" "mac_view s t \<Longrightarrow> spare n t = spare n s"
  by (simp_all add: mac_view_def own_def raw_def buffer_def block_bytes_def spare_def)

lemma mac_view_rlc:
  assumes v: "mac_view s t"
  shows "rlc_ok t = rlc_ok s" "rlc_blocks t = rlc_blocks s" "rx_of t r k = rx_of s r k" "partial_ptr t r k = partial_ptr s r k"
proof -
  have g: "get_obj f t q = get_obj f s q" for f :: "obj \<Rightarrow> 'a option" and q using v by (simp add: get_obj_def mac_view_def)
  have g1: "get_obj the_rlc t q = get_obj the_rlc s q" "get_obj the_am t q = get_obj the_am s q" for q
    using v by (simp_all add: get_obj_def mac_view_def)
  have tbl: "rlc_tbl t = rlc_tbl s" using v g1 by (simp add: rlc_tbl_def rlc_rnti_def mac_view_def)
  have sl: "slots t q = slots s q" "partial_of t q = partial_of s q" for q by (simp_all add: slots_def partial_of_def g1)
  have rec: "receivers t = receivers s" using v by (simp add: receivers_def sl mac_view_def)
  have val: "rx_value t e = rx_value s e" for e using v by (simp add: rx_value_def block_bytes_def Let_def mac_view_def)
  have at: "rx_at t q e x = rx_at s q e x" for q e x
    using v mac_view_own(3) [OF v] by (simp add: rx_at_def mac_view_def split: option.split)
  have rok: "receiver_ok t r k q = receiver_ok s r k q" for r k q by (simp add: receiver_ok_def at val)
  have "rrc_ok t = rrc_ok s" using v by (simp add: rrc_ok_def heap_ok_def mac_view_def)
  then show "rlc_ok t = rlc_ok s" using v by (simp add: rlc_ok_def tbl rec sl rok mac_view_def)
  show "rlc_blocks t = rlc_blocks s" using v by (simp add: rlc_blocks_def rec sl mac_view_def)
  have rp: "receiver_ptr t r k = receiver_ptr s r k" by (simp add: receiver_ptr_def g1 tbl)
  show "rx_of t r k = rx_of s r k" by (simp add: rx_of_def rp g1 val split: option.split)
  show "partial_ptr t r k = partial_ptr s r k" by (simp add: partial_ptr_def rp g1)
qed

lemma queue_view: "mac_view s (s\<lparr>gRecvdPhyDataList := l\<rparr>)"
  by (simp add: mac_view_def rlc_log_def)

lemmas queue_same [simp] = mac_view_own [OF queue_view] mac_view_rlc [OF queue_view]

lemma queue_mac [simp]: "mac_ready (s\<lparr>gRecvdPhyDataList := l\<rparr>) = mac_ready s"
    "mac_grant (s\<lparr>gRecvdPhyDataList := l\<rparr>) r = mac_grant s r" "rlc_log (s\<lparr>gRecvdPhyDataList := l\<rparr>) = rlc_log s"
proof -
  have m: "mac_search (s\<lparr>gRecvdPhyDataList := l\<rparr>) ps r = mac_search s ps r" for ps
    by (induction ps) (simp_all add: get_obj_def cong: Option.bind_cong if_cong)
  show "mac_ready (s\<lparr>gRecvdPhyDataList := l\<rparr>) = mac_ready s" by (simp add: mac_ready_def)
  show "mac_grant (s\<lparr>gRecvdPhyDataList := l\<rparr>) r = mac_grant s r"
    by (simp add: mac_grant_def MacGetUeContext_def m) (simp add: get_obj_def)
  show "rlc_log (s\<lparr>gRecvdPhyDataList := l\<rparr>) = rlc_log s" by (simp add: rlc_log_def)
qed

section \<open>The context of the UE gets the grant\<close>

text \<open>The table as a map: the first context of an RNTI.\<close>

definition mac_map :: "ulp_state \<Rightarrow> u16 \<Rightarrow> ptr option" where
  "mac_map s = map_of (map (\<lambda>p. (mac_rnti s p, p)) (gMacUeContext s))"

lemma mac_get_map:
  assumes "mac_ready s"
  shows "MacGetUeContext s r = Some (case mac_map s r of None \<Rightarrow> NULL | Some p \<Rightarrow> p)"
proof -
  have "mac_search s ps r = Some (case map_of (map (\<lambda>p. (mac_rnti s p, p)) ps) r of None \<Rightarrow> NULL | Some p \<Rightarrow> p)"
    if "set ps \<subseteq> set (gMacUeContext s)" for ps
    using that
  proof (induction ps)
    case (Cons p ps)
    obtain c where "us_heap s p = Some (MacObj c)" using Cons.prems assms(1) by (auto simp: mac_ready_def)
    with Cons show ?case by (simp add: get_obj_def the_mac_def mac_rnti_def)
  qed simp
  then show ?thesis by (simp add: MacGetUeContext_def mac_map_def)
qed

lemma mac_map_SomeD: "mac_map s r = Some p \<Longrightarrow> p \<in> set (gMacUeContext s) \<and> mac_rnti s p = r"
  by (auto simp: mac_map_def dest: map_of_SomeD)

lemma mac_map_snoc:
  assumes "gMacUeContext t = gMacUeContext s @ [p]" "mac_rnti t p = r"
    and "\<And>q. q \<in> set (gMacUeContext s) \<Longrightarrow> mac_rnti t q = mac_rnti s q"
  shows "mac_map t q = (case mac_map s q of None \<Rightarrow> if q = r then Some p else None | Some x \<Rightarrow> Some x)"
proof -
  have m: "map (\<lambda>p. (mac_rnti t p, p)) (gMacUeContext s) = map (\<lambda>p. (mac_rnti s p, p)) (gMacUeContext s)"
    using assms(3) by (intro map_cong) auto
  show ?thesis unfolding mac_map_def assms(1) map_append m using assms(2) by (simp add: map_add_def split: option.split)
qed

lemma mac_grant_map:
  assumes "rrc_ok s" "mac_ready s"
  shows "mac_grant s r = (case mac_map s r of None \<Rightarrow> None | Some p \<Rightarrow> map_option grant_of (get_obj the_mac s p))"
  using heap_NULL [OF assms(1)]
  by (cases "mac_map s r") (simp_all add: mac_grant_def mac_get_map [OF assms(2)] get_obj_def map_conv_bind_option comp_def)

text \<open>
  The state after the grant \<open>g\<close> has been recorded for an RNTI: contexts of the MAC apart, no
  block of the program and nothing the RLC sees has changed.
\<close>

definition granted :: "ulp_state \<Rightarrow> ulp_state \<Rightarrow> u16 \<Rightarrow> UlReportInfo \<Rightarrow> bool" where
  "granted s s' rnti g \<longleftrightarrow> rlc_ok s' \<and> mac_ready s' \<and> rlc_blocks s' = rlc_blocks s \<and> rlc_log s' = rlc_log s \<and>
     (\<forall>q. \<forall>k<MAX_LC_ID. rx_of s' q k = rx_of s q k \<and> partial_ptr s' q k = partial_ptr s q k) \<and>
     mac_grant s' rnti = Some g \<and> (\<forall>q. q \<noteq> rnti \<longrightarrow> mac_grant s' q = mac_grant s q) \<and>
     gRecvdPhyDataList s' = gRecvdPhyDataList s \<and> own s \<subseteq> own s' \<and> own s' - set (gMacUeContext s') = own s - set (gMacUeContext s) \<and>
     mem_kept (own s - set (gMacUeContext s)) (us_mem s) (us_mem s') \<and>
     (\<forall>q\<in>own s - set (gMacUeContext s). us_heap s' q = us_heap s q)"

lemma granted_by:
  assumes ok: "rlc_ok s" and mac: "mac_ready s" and f: "eff A {pu} [] s u" and v: "mac_view u s'"
    and gr: "gRecvdPhyDataList s' = gRecvdPhyDataList u"
    and A: "A \<subseteq> set (gMacUeContext s)" and heap: "us_heap u = (us_heap s)(pu \<mapsto> MacObj c)"
    and list: "set (gMacUeContext s') = insert pu (set (gMacUeContext s))"
    and m: "mac_map s' rnti = Some pu" "\<And>q. q \<noteq> rnti \<Longrightarrow> mac_map s' q = mac_map s q" "\<And>q. q \<noteq> rnti \<Longrightarrow> mac_map s q \<noteq> Some pu"
    and g: "grant_of c = g" and apu: "pu \<in> A \<or> pu \<notin> own s" "A \<subseteq> {pu}"
  shows "granted s s' rnti g"
proof -
  have A': "A \<inter> rlc_blocks s = {}" using mac_blocks [OF ok mac] A by blast
  note r = rlc_outside [OF ok f A']
  note w = mac_view_own [OF v] mac_view_rlc [OF v]
  have hs: "us_heap s' = us_heap u" "us_mem s' = us_mem u" "rlc_log s' = rlc_log u"
    "gRecvdPhyDataList s' = gRecvdPhyDataList s" using v gr effD(8) [OF f] by (simp_all add: mac_view_def)
  have ready: "mac_ready s'" using mac list hs(1) heap by (simp add: mac_ready_def)
  have rok: "rrc_ok s'" using r(1) w(5) rlc_okD(1) by blast
  have "mac_grant s' rnti = Some g"
    using m(1) g hs(1) heap by (simp add: mac_grant_map [OF rok ready] get_obj_def the_mac_def)
  moreover have "mac_grant s' q = mac_grant s q" if q: "q \<noteq> rnti" for q
    using m(2,3) [OF q] hs(1) heap
    by (simp add: mac_grant_map [OF rok ready] mac_grant_map [OF rlc_okD(1) [OF ok] mac] get_obj_def split: option.split)
  moreover have "own s' = own s - A \<union> {pu}" using effD(2) [OF f] w(1) by simp
  moreover have "mem_kept (own s - set (gMacUeContext s)) (us_mem s) (us_mem s')"
    unfolding hs(2) using A by (intro mem_kept_mono [OF effD(4) [OF f]]) blast
  ultimately show ?thesis
    using r(1,2,4,5) w(5-8) ready effD(9) [OF f] hs heap list apu A
    unfolding granted_def by auto
qed

lemma kept_out_granted:
  assumes "granted s s' rnti g" "rlc_ok s" "mac_ready s"
  shows "kept_out {} s s'"
proof -
  have g: "rlc_blocks s' = rlc_blocks s" "own s \<subseteq> own s'" "mem_kept (own s - set (gMacUeContext s)) (us_mem s) (us_mem s')"
    "\<forall>q\<in>own s - set (gMacUeContext s). us_heap s' q = us_heap s q" "gRecvdPhyDataList s' = gRecvdPhyDataList s"
    using assms(1) by (simp_all add: granted_def)
  have "q \<notin> set (gMacUeContext s)" if "\<forall>c. us_heap s q \<noteq> Some (MacObj c)" for q using that assms(3) by (auto simp: mac_ready_def)
  then show ?thesis using g by (auto simp: kept_out_def mem_kept_def)
qed

lemma get_mac: "us_heap s p = Some (MacObj c) \<Longrightarrow> get_obj the_mac s p = Some c"
  by (simp add: get_obj_def the_mac_def)

lemma record_run:
  assumes ok: "rlc_ok s" and mac: "mac_ready s" and p: "p \<in> own s" "us_heap s p = None" and sp: "spare (Suc n) s"
    and rd: "mem_byte (us_mem s) p (h + 18) = Some rb" "read32 (mem_byte (us_mem s) p) (h + 20) = Some pow"
      "read16 (mem_byte (us_mem s) p) (h + 16) = Some ta"
  shows "\<exists>s'. mac_record_grant p h rnti s = Some s' \<and> granted s s' rnti \<lparr>ur_rbNum = rb, ur_ta = ta, ur_prbPower = pow\<rparr> \<and>
    spare n s'"
proof -
  note ok0 = rlc_okD(1) [OF ok]
  note get = mac_get_map [OF mac, of rnti]
  show ?thesis
  proof (cases "mac_map s rnti")
    case None
    let ?blank = "\<lparr>mc_idleCount = 0, mc_rnti = rnti, mc_rbNum = 0, mc_deleteFlag = 0, mc_prbPower = 0,
      mc_ta = push_bit 8 (ucast (us_junk s (us_tick s) 69)) OR ucast (us_junk s (us_tick s) 68)\<rparr>"
    let ?c = "?blank\<lparr>mc_rbNum := rb, mc_prbPower := pow, mc_ta := ta\<rparr>"
    have nr: "\<not> is_rrc (MacObj ?blank)" by simp
    from ok0 nr show ?thesis
    proof (cases rule: eff_new [of s "MacObj ?blank" sizeof_MacUeContext])
      case none
      then show ?thesis using new_spare(1) [OF ok0 none sp] by simp
    next
      case (block pu s1)
      let ?t = "(count_sem True s1)\<lparr>us_tick := us_tick s1 + 1, gMacUeContext := gMacUeContext s1 @ [pu]\<rparr>"
      let ?s' = "put_obj pu (MacObj ?c) ?t" and ?u = "put_obj pu (MacObj ?c) s1"
      have h1: "us_heap s1 pu = Some (MacObj ?blank)" by (simp add: block(5))
      have run1: "MacCreateUeContext s rnti = Some (pu, ?t)"
        using block(1,2) by (simp add: MacCreateUeContext_def)
      have b: "mem_byte (us_mem s1) p = mem_byte (us_mem s) p"
        using mem_kept_blk(5) [OF effD(4) [OF block(3)], of p] p(1) by simp
      have run: "mac_record_grant p h rnti s = Some ?s'"
        using None block(2) rd by (simp add: mac_record_grant_def get run1 b get_obj_def the_mac_def block(5))
      have "eff {pu} {pu} [] s1 ?u" by (rule eff_put [OF effD(1) [OF block(3)] h1]) simp_all
      from eff_comp [OF block(3) this] have f: "eff {} {pu} [] s ?u" by simp
      have v: "mac_view ?u ?s'" by (simp add: mac_view_def)
      have heap: "us_heap ?u = (us_heap s)(pu \<mapsto> MacObj ?c)" by (simp add: block(5))
      have list: "gMacUeContext ?s' = gMacUeContext s @ [pu]" using effD(6) [OF block(3)] by simp
      have nin: "pu \<notin> set (gMacUeContext s)" using mac block(6) by (auto simp: mac_ready_def)
      have rn: "mac_rnti ?s' q = (if q = pu then rnti else mac_rnti s q)" for q
        using heap by (simp add: mac_rnti_def get_obj_def the_mac_def)
      have mp: "mac_map ?s' q = (case mac_map s q of None \<Rightarrow> if q = rnti then Some pu else None | Some x \<Rightarrow> Some x)" for q
        by (rule mac_map_snoc [OF list]) (use rn nin in auto)
      have "granted s ?s' rnti \<lparr>ur_rbNum = rb, ur_ta = ta, ur_prbPower = pow\<rparr>"
      proof (rule granted_by [OF ok mac f v _ _ heap])
        show "mac_map s q \<noteq> Some pu" for q using mac_map_SomeD [of s q pu] nin by auto
      qed (use list mp None block(4) in \<open>auto simp: grant_of_def split: option.split\<close>)
      moreover have "spare n ?s'" using new_spare(2) [OF ok0 block(1) sp] by (simp add: spare_def)
      ultimately show ?thesis using run by blast
    qed
  next
    case (Some pu)
    have pl: "pu \<in> set (gMacUeContext s)" "mac_rnti s pu = rnti" using mac_map_SomeD [OF Some] by auto
    obtain c where c: "us_heap s pu = Some (MacObj c)" using mac pl(1) by (auto simp: mac_ready_def)
    have nn: "pu \<noteq> NULL" using c heap_NULL [OF ok0] by (cases "pu = NULL") auto
    let ?c = "c\<lparr>mc_rbNum := rb, mc_prbPower := pow, mc_ta := ta\<rparr>"
    let ?s' = "put_obj pu (MacObj ?c) s"
    have run: "mac_record_grant p h rnti s = Some ?s'"
      using Some nn rd by (simp add: mac_record_grant_def get get_mac [OF c])
    have f: "eff {pu} {pu} [] s ?s'" by (rule eff_put [OF ok0 c]) simp_all
    have heap: "us_heap ?s' = (us_heap s)(pu \<mapsto> MacObj ?c)" by simp
    have "mac_rnti ?s' q = mac_rnti s q" for q
      using c by (simp add: mac_rnti_def get_obj_def the_mac_def)
    then have mp: "mac_map ?s' = mac_map s" by (simp add: mac_map_def)
    have "granted s ?s' rnti \<lparr>ur_rbNum = rb, ur_ta = ta, ur_prbPower = pow\<rparr>"
    proof (rule granted_by [OF ok mac f _ _ _ heap])
      show "mac_map s q \<noteq> Some pu" if "q \<noteq> rnti" for q using mac_map_SomeD [of s q pu] pl(2) that by auto
    qed (use pl mp Some in \<open>auto simp: grant_of_def mac_view_def\<close>)
    moreover have "spare n ?s'" using spare_le [OF sp, of n] by simp
    ultimately show ?thesis using run by blast
  qed
qed

section \<open>The payload is taken apart\<close>

text \<open>
  An SDU for the RLC, the first of its PDU: two blocks more, the entry and the copy of its bytes.
\<close>

lemma demux_sdu_run:
  assumes ok: "rrc_ok s" and pi: "us_heap s pi = Some (IndObj \<lparr>mi_rnti = r, mi_rlcData = NULL\<rparr>)"
    and b: "buffer s p msg" and off: "off + length sdu \<le> length msg" "take (length sdu) (drop off msg) = sdu"
    and sp: "spare (Suc (Suc n)) s"
  shows "\<exists>q d x s'. MacDemuxOneToTenLchMsg lch 0 (of_nat (length sdu)) p off pi s = Some (1, s') \<and>
    eff {pi} {pi, q, x} [] s s' \<and> us_heap s' pi = Some (IndObj \<lparr>mi_rnti = r, mi_rlcData = q\<rparr>) \<and>
    us_heap s' q = Some (DataObj d) \<and> rd_numLCInfo d = 1 \<and>
    rd_array d 0 = \<lparr>rd_buffer = x, rd_length = of_nat (length sdu), rd_lcId = ucast lch\<rparr> \<and> buffer s' x sdu \<and>
    q \<noteq> NULL \<and> q \<notin> own s \<and> x \<notin> own s \<and> x \<noteq> q \<and> spare n s'"
proof -
  let ?fresh = "\<lparr>rd_array = junk_entry (us_junk s (us_tick s)), rd_numLCInfo = 0\<rparr>"
  have pio: "pi \<in> own s" by (rule own_obj [OF ok pi]) simp
  have len: "length sdu < 2 ^ 16" "unat (of_nat (length sdu) :: u32) = length sdu" "(of_nat (length sdu) :: u32) \<le> 65536"
    "unat (ucast (of_nat (length sdu) :: u32) :: u16) = length sdu"
  proof -
    show l: "length sdu < 2 ^ 16" using b off(1) by (simp add: buffer_def)
    then show u: "unat (of_nat (length sdu) :: u32) = length sdu" by (intro unat_of_nat_small) simp
    then show "(of_nat (length sdu) :: u32) \<le> 65536" using l by (simp add: word_le_nat_alt)
    show "unat (ucast (of_nat (length sdu) :: u32) :: u16) = length sdu"
      using l u by (simp add: unsigned_ucast_eq take_bit_nat_eq_self_iff)
  qed
  have nr: "\<not> is_rrc (DataObj ?fresh)" by simp
  from ok nr show ?thesis
  proof (cases rule: eff_new [of s "DataObj ?fresh" sizeof_RlcUlData])
    case none
    then show ?thesis using new_spare(1) [OF ok none sp] by simp
  next
    case (block q s1)
    have sp1: "spare (Suc n) s1" by (rule new_spare(2) [OF ok block(1) sp]) simp
    have pq: "pi \<noteq> q" using pio block(4) by auto
    let ?i = "IndObj \<lparr>mi_rnti = r, mi_rlcData = q\<rparr>"
    let ?s1 = "s1\<lparr>us_tick := us_tick s1 + 1\<rparr>"
    let ?s2 = "put_obj pi ?i ?s1"
    have h1: "us_heap ?s1 pi = Some (IndObj \<lparr>mi_rnti = r, mi_rlcData = NULL\<rparr>)" using pi pq by (simp add: block(5))
    have v1: "eff {} {} [] s1 ?s1" by (rule eff_view [OF effD(1) [OF block(3)]]) simp
    have f1: "eff {} {q} [] s ?s1" by (rule eff_comp [OF block(3) v1]) simp_all
    have p2: "eff {pi} {pi} [] ?s1 ?s2" by (rule eff_put [OF effD(1) [OF f1] h1]) simp_all
    have f2: "eff {pi} {pi, q} [] s ?s2" using pq by (intro eff_comp [OF f1 p2]) auto
    have ok2: "rrc_ok ?s2" by (rule effD(1) [OF f2])
    have h2: "us_heap ?s2 pi = Some ?i" "us_heap ?s2 q = Some (DataObj ?fresh)" using pq by (simp_all add: block(5))
    have sp2: "spare (Suc n) ?s2" using sp1 by (simp add: spare_def)
    from ok2 show ?thesis
    proof (cases rule: eff_alloc [of ?s2 "of_nat (length sdu)"])
      case none
      then show ?thesis using alloc_spare(1) [OF ok2 none sp2 len(3)] by simp
    next
      case x: (block x s3)
      have f3: "eff {pi} {pi, q, x} [] s s3" by (rule eff_comp [OF f2 x(3)]) auto
      have o2: "own ?s2 = insert q (own s)" using effD(2) [OF f2] pio by blast
      have po: "p \<in> own s" "us_heap s p = None" using b by (simp_all add: buffer_def own_raw)
      have ne: "x \<noteq> pi" "x \<noteq> q" "x \<notin> own s" "p \<noteq> x" "p \<noteq> pi" "p \<noteq> q"
        using x(4) po pi pio block(4) unfolding o2 by auto
      have b3: "buffer s3 p msg" by (rule eff_buffer [OF f3 b]) (use ne in auto)
      have x3: "x \<in> own s3" "us_heap s3 x = None" using effD(2) [OF f3] x(5,6) by auto
      have cap: "length sdu \<le> blk_cap (us_mem s3) x" "\<exists>nd. mp_nodes (us_mem s3) x = Some nd \<and> unat (mn_length nd) = length sdu"
        using x(7,8) len(2,4) by auto
      obtain s4 where s4: "us_copy s3 x p off (length sdu) = Some s4" "eff {x} {x} [] s3 s4" "us_heap s4 = us_heap s3"
        "buffer s4 x (take (length sdu) (drop off msg))"
        by (rule eff_copy_part [OF effD(1) [OF f3] b3 off(1) x3 ne(4) cap])
      have f4: "eff {pi} {pi, q, x} [] s s4" using ne by (intro eff_comp [OF f3 s4(2)]) auto
      let ?x = "\<lparr>rd_buffer = x, rd_length = of_nat (length sdu), rd_lcId = ucast lch\<rparr>"
      let ?d = "\<lparr>rd_array = (rd_array ?fresh)(0 := ?x), rd_numLCInfo = 1\<rparr>"
      let ?s5 = "put_obj q (DataObj ?d) s4"
      have h4: "us_heap s4 = us_heap ?s2" using s4(3) x(5) by simp
      have q4: "us_heap s4 q = Some (DataObj ?fresh)" unfolding h4 by (rule h2(2))
      have p5: "eff {q} {q} [] s4 ?s5" by (rule eff_put [OF effD(1) [OF f4] q4]) simp_all
      have f5: "eff {pi} {pi, q, x} [] s ?s5" using pq ne block(4) by (intro eff_comp [OF f4 p5]) auto
      have bx: "buffer ?s5 x sdu" using eff_buffer [OF p5 s4(4)] ne off(2) by simp
      have run: "MacDemuxOneToTenLchMsg lch 0 (of_nat (length sdu)) p off pi s = Some (1, ?s5)"
        using pi block(1,2) x(1,2) s4(1) pq len(2)
        by (simp add: MacDemuxOneToTenLchMsg_def get_obj_def the_ind_def the_data_def block(5) Let_def)
      have "spare n ?s5" using alloc_spare(2) [OF ok2 x(1) sp2 len(3)] spare_copy [OF s4(1)] by simp
      moreover have "us_heap ?s5 pi = Some ?i" using pq by (simp add: h4)
      ultimately show ?thesis using run f5 bx ne block(2,4) by (intro exI [of _ q] exI [of _ ?d] exI [of _ x] exI [of _ ?s5]) simp
    qed
  qed
qed

abbreviation entry :: "mac_element \<Rightarrow> DemuxDataBase" where
  "entry \<equiv> \<lambda>(lc, bs). \<lparr>dm_lchId = lc, dm_length = of_nat (length bs)\<rparr>"

definition control :: "mac_element \<Rightarrow> bool" where
  "control x \<longleftrightarrow> ce_length (fst x) = Some (length (snd x))"

lemma ce_cases:
  assumes "ce_length lc = Some n"
  obtains "lc = 26" "n = 1" | "lc = 27" "n = 2" | "lc = 28" "n = 1" | "lc = 29" "n = 1" | "lc = 30" "n = 3"
  using assms by (auto simp: ce_length_def split: if_splits)

lemma demux_control:
  assumes ce: "ce_length lc = Some (length bs)" and r: "reads_at (mem_byte (us_mem s) p) off bs"
  shows "mac_demux rnti p pi (entry (lc, bs)) (off, l, s) = Some (off + length bs, l, s)"
  using ce
proof (cases rule: ce_cases)
  case 1
  then obtain a where "bs = [a]" by (auto simp: length_Suc_conv)
  with 1 r show ?thesis by (simp add: mac_demux_def)
next
  case 2
  then show ?thesis by (simp add: mac_demux_def)
next
  case 3
  then obtain a where "bs = [a]" by (auto simp: length_Suc_conv)
  with 3 r show ?thesis by (simp add: mac_demux_def)
next
  case 4
  then obtain a where "bs = [a]" by (auto simp: length_Suc_conv)
  with 4 r show ?thesis by (simp add: mac_demux_def)
next
  case 5
  then obtain a b c where "bs = [a, b, c]" by (auto simp: numeral_3_eq_3 length_Suc_conv)
  with 5 r show ?thesis by (simp add: mac_demux_def)
qed

lemma demuxes_control:
  assumes "\<forall>x\<in>set zs. control x" "reads_at (mem_byte (us_mem s) p) off (concat (map snd zs))"
  shows "mac_demuxes rnti p pi (map entry zs) (off, l, s) = Some (off + length (concat (map snd zs)), l, s)"
  using assms
proof (induction zs arbitrary: off)
  case (Cons x zs)
  obtain lc bs where x: "x = (lc, bs)" by force
  have "ce_length lc = Some (length bs)" "reads_at (mem_byte (us_mem s) p) off bs"
    using Cons.prems x by (simp_all add: control_def)
  then have "mac_demux rnti p pi (entry x) (off, l, s) = Some (off + length bs, l, s)"
    unfolding x by (rule demux_control)
  moreover have "mac_demuxes rnti p pi (map entry zs) (off + length bs, l, s) =
      Some (off + length bs + length (concat (map snd zs)), l, s)"
    using Cons.prems x by (intro Cons.IH) simp_all
  ultimately show ?case by (simp add: x)
qed simp

lemma demuxes_append:
  "mac_demuxes rnti p pi (xs @ ys) st = Option.bind (mac_demuxes rnti p pi xs st) (mac_demuxes rnti p pi ys)"
proof (induction xs arbitrary: st)
  case (Cons x xs)
  then show ?case by (cases "mac_demux rnti p pi x st") simp_all
qed simp

text \<open>Control elements around one SDU for the RLC.\<close>

lemma demuxes_run:
  assumes ok: "rrc_ok s" and pi: "us_heap s pi = Some (IndObj \<lparr>mi_rnti = r, mi_rlcData = NULL\<rparr>)"
    and b: "buffer s p msg" and d: "drop off msg = concat (map snd (cs @ (lc, sdu) # ds)) @ rest" "off \<le> length msg"
    and c: "\<forall>x\<in>set (cs @ ds). control x" and lc: "lc = 1 \<or> lc = 2" and sp: "spare (Suc (Suc n)) s"
  shows "\<exists>q e x off' s'. mac_demuxes rnti p pi (map entry (cs @ (lc, sdu) # ds)) (off, 0, s) = Some (off', 1, s') \<and>
    eff {pi} {pi, q, x} [] s s' \<and> us_heap s' pi = Some (IndObj \<lparr>mi_rnti = r, mi_rlcData = q\<rparr>) \<and>
    us_heap s' q = Some (DataObj e) \<and> rd_numLCInfo e = 1 \<and>
    rd_array e 0 = \<lparr>rd_buffer = x, rd_length = of_nat (length sdu), rd_lcId = lc\<rparr> \<and> buffer s' x sdu \<and>
    q \<noteq> NULL \<and> q \<notin> own s \<and> x \<notin> own s \<and> x \<noteq> q \<and> spare n s'"
proof -
  let ?o1 = "off + length (concat (map snd cs))" and ?o2 = "off + length (concat (map snd (cs @ [(lc, sdu)])))"
  obtain pre where m: "msg = pre @ concat (map snd cs) @ sdu @ concat (map snd ds) @ rest" and l: "length pre = off"
    using d append_take_drop_id [of off msg] by (intro that [of "take off msg"]) simp_all
  have r: "reads_at (mem_byte (us_mem t) p) off (concat (map snd cs))" "reads_at (mem_byte (us_mem t) p) ?o2 (concat (map snd ds))"
    if t: "buffer t p msg" for t
    using buffer_reads [OF t] unfolding m by (simp_all add: l add.assoc)
  have s1: "?o1 + length sdu \<le> length msg" "take (length sdu) (drop ?o1 msg) = sdu"
    unfolding m by (simp_all add: l)
  obtain q e x s2 where s2: "MacDemuxOneToTenLchMsg (ucast lc) 0 (of_nat (length sdu)) p ?o1 pi s = Some (1, s2)"
    "eff {pi} {pi, q, x} [] s s2" "us_heap s2 pi = Some (IndObj \<lparr>mi_rnti = r, mi_rlcData = q\<rparr>)"
    "us_heap s2 q = Some (DataObj e)" "rd_numLCInfo e = 1"
    "rd_array e 0 = \<lparr>rd_buffer = x, rd_length = of_nat (length sdu), rd_lcId = ucast (ucast lc :: u32)\<rparr>" "buffer s2 x sdu"
    "q \<noteq> NULL" "q \<notin> own s" "x \<notin> own s" "x \<noteq> q" "spare n s2"
    using demux_sdu_run [OF ok pi b s1 sp, of "ucast lc"] by blast
  let ?s3 = "count_lch (ucast lc) s2"
  have v: "eff {} {} [] s2 ?s3" by (rule eff_view [OF effD(1) [OF s2(2)]]) (simp add: count_lch_def)
  have f: "eff {pi} {pi, q, x} [] s ?s3" by (rule eff_comp [OF s2(2) v]) simp_all
  have "p \<noteq> pi" using b pi by (auto simp: buffer_def own_raw)
  then have b3: "buffer ?s3 p msg" by (intro eff_buffer [OF f b]) simp
  have "length sdu < 2 ^ 16" using b s1(1) by (simp add: buffer_def)
  then have u: "unat (of_nat (length sdu) :: u32) = length sdu" by (intro unat_of_nat_small) simp
  have one: "mac_demux rnti p pi (entry (lc, sdu)) (?o1, 0, s) = Some (?o2, 1, ?s3)"
    using lc s2(1) u ucast_channel(2,3) [of lc] by (auto simp: mac_demux_def)
  have "mac_demuxes rnti p pi (map entry (cs @ (lc, sdu) # ds)) (off, 0, s) = Some (?o2 + length (concat (map snd ds)), 1, ?s3)"
    using demuxes_control [of cs s p off rnti pi 0] r(1) [OF b] one demuxes_control [of ds ?s3 p ?o2 rnti pi 1] r(2) [OF b3] c
    by (simp add: demuxes_append)
  moreover have "us_heap ?s3 = us_heap s2" "us_mem ?s3 = us_mem s2" by (simp_all add: count_lch_def)
  moreover have "buffer ?s3 x sdu" by (rule eff_buffer [OF v s2(7)]) simp
  ultimately show ?thesis using f s2 ucast_channel(1) [of lc]
    by (intro exI [of _ q] exI [of _ e] exI [of _ x] exI [of _ "?o2 + length (concat (map snd ds))"] exI [of _ ?s3])
      (simp add: spare_def)
qed

section \<open>An SDU reaches the receiver of its bearer\<close>

text \<open>The block of the partial SDU has room for the payload, should the PDU continue it.\<close>

definition part_room :: "ulp_state \<Rightarrow> ptr \<Rightarrow> nat \<Rightarrow> bool" where
  "part_room s q m \<longleftrightarrow> (\<exists>n. mp_nodes (us_mem s) q = Some n \<and> unat (mn_length n) + m < 2 ^ 16 \<and>
     unat (mn_length n) + m \<le> unat (mn_size n))"

lemma part_room_join: "part_room s q m \<Longrightarrow> buffer s p bs \<Longrightarrow> join_room s q p m"
  by (auto simp: part_room_def join_room_def buffer_def)

definition sdu_done :: "ulp_state \<Rightarrow> ulp_state \<Rightarrow> ptr \<Rightarrow> u8 list \<Rightarrow> u16 \<Rightarrow> u8 \<Rightarrow> rx_state \<Rightarrow> (u8 list \<times> UlReportInfo list) list \<Rightarrow> bool" where
  "sdu_done s s' p msg rnti lc r' os \<longleftrightarrow> rlc_ok s' \<and> mac_ready s' \<and> rx_of s' rnti (unat lc) = r' \<and>
     (\<forall>q. \<forall>k<MAX_LC_ID. (q, k) \<noteq> (rnti, unat lc) \<longrightarrow> rx_of s' q k = rx_of s q k) \<and>
     rlc_log s' = rlc_log s @ map (\<lambda>(bs, gs). (rnti, lc, bs, gs)) os \<and>
     own s' - rlc_blocks s' = own s - rlc_blocks s \<and> (\<forall>q. mac_grant s' q = mac_grant s q) \<and>
     gMacUeContext s' = gMacUeContext s \<and> buffer s' p msg \<and> p \<notin> rlc_blocks s' \<and> kept_out {} s s'"

lemma mac_own: "rrc_ok s \<Longrightarrow> mac_ready s \<Longrightarrow> set (gMacUeContext s) \<subseteq> own s"
  using own_obj by (fastforce simp: mac_ready_def)

lemma release_run:
  assumes ok: "rlc_ok s" and mac: "mac_ready s" and b: "buffer s p msg" and q: "q \<in> own s - rlc_blocks s" "q \<noteq> p"
    and nm: "q \<notin> set (gMacUeContext s)"
  obtains s' where "us_free s q = Some s'" "rlc_ok s'" "mac_ready s'" "buffer s' p msg" "gMacUeContext s' = gMacUeContext s"
    "\<And>r. mac_grant s' r = mac_grant s r" "\<And>r k. k < MAX_LC_ID \<Longrightarrow> rx_of s' r k = rx_of s r k" "rlc_log s' = rlc_log s"
    "own s' - rlc_blocks s' = own s - rlc_blocks s - {q}" "rlc_blocks s' = rlc_blocks s" "kept_out {q} s s'"
proof -
  note ok0 = rlc_okD(1) [OF ok]
  obtain s' where s': "us_free s q = Some s'" "eff {q} {} [] s s'" by (rule eff_free [OF ok0]) (use q in auto)
  have X: "{q} \<inter> rlc_blocks s = {}" using q by simp
  note r = rlc_outside [OF ok s'(2) X]
  note m = mac_stays [OF s'(2) ok0 mac]
  show thesis
    by (rule that [OF s'(1) r(1)]) (use kept_out_eff [OF ok s'(2) X] r m nm q effD(6,9) [OF s'(2)] eff_buffer [OF s'(2) b] in simp_all)
qed

lemma send_run:
  assumes ok: "rlc_ok s" and mac: "mac_ready s" and b: "buffer s p msg" and nb: "p \<notin> rlc_blocks s"
    and es: "pos \<le> 17" "take (unat pos) demux = map entry (cs @ (lc, amd_pdu pb fi sn lens payload) # ds)"
    and d: "drop off msg = concat (map snd (cs @ (lc, amd_pdu pb fi sn lens payload) # ds)) @ rest" "off \<le> length msg"
    and c: "\<forall>x\<in>set (cs @ ds). control x" and lc: "lc = 1 \<or> lc = 2"
    and f: "amd_fields pb fi sn lens" and sum: "lens_sum lens \<le> length payload" and sp: "spare (9 + 2 * length lens) s"
    and room: "\<And>n part. fst (rx_of s rnti (unat lc)) = Some (n, part) \<Longrightarrow> part_room s (partial_ptr s rnti (unat lc)) (length payload)"
    and rx: "rx_dfes (mac_grant s rnti) sn (amd_elements fi lens payload) (rx_of s rnti (unat lc)) = (r', os)" and out: "out_ok lc os"
  shows "\<exists>s'. MacDeMultiplexAndSend demux pos p off rnti s = Some s' \<and> sdu_done s s' p msg rnti lc r' os"
proof -
  let ?sdu = "amd_pdu pb fi sn lens payload"
  note ok0 = rlc_okD(1) [OF ok]
  have k: "unat lc < MAX_LC_ID" using lc by auto
  have po: "p \<in> own s" using b by (simp add: buffer_def own_raw)
  have sp3: "spare (Suc (Suc (Suc (6 + 2 * length lens)))) s" using sp by simp
  let ?i = "IndObj \<lparr>mi_rnti = rnti, mi_rlcData = NULL\<rparr>"
  have nr: "\<not> is_rrc ?i" by simp
  from ok0 nr show ?thesis
  proof (cases rule: eff_new [of s ?i sizeof_MacUeDataInd])
    case none
    then show ?thesis using new_spare(1) [OF ok0 none sp3] by simp
  next
    case (block pi s1)
    have sp1: "spare (Suc (Suc (6 + 2 * length lens))) s1" by (rule new_spare(2) [OF ok0 block(1) sp3]) simp
    have ok1: "rrc_ok s1" by (rule effD(1) [OF block(3)])
    have h1: "us_heap s1 pi = Some ?i" by (simp add: block(5))
    have b1: "buffer s1 p msg" by (rule eff_buffer [OF block(3) b]) simp
    obtain q e x off' s2 where s2: "mac_demuxes rnti p pi (map entry (cs @ (lc, ?sdu) # ds)) (off, 0, s1) = Some (off', 1, s2)"
      "eff {pi} {pi, q, x} [] s1 s2" "us_heap s2 pi = Some (IndObj \<lparr>mi_rnti = rnti, mi_rlcData = q\<rparr>)"
      "us_heap s2 q = Some (DataObj e)" "rd_numLCInfo e = 1"
      "rd_array e 0 = \<lparr>rd_buffer = x, rd_length = of_nat (length ?sdu), rd_lcId = lc\<rparr>" "buffer s2 x ?sdu"
      "q \<noteq> NULL" "q \<notin> own s1" "x \<notin> own s1" "x \<noteq> q" "spare (6 + 2 * length lens) s2"
      using demuxes_run [OF ok1 h1 b1 d c lc sp1] by blast
    have o1: "own s1 = insert pi (own s)" using effD(2) [OF block(3)] by simp
    then have new: "pi \<notin> own s" "q \<notin> own s" "x \<notin> own s" "q \<noteq> pi" "x \<noteq> pi" using block(4) s2(9,10) by auto
    let ?s3 = "emit (Ip_Mac_Data rnti) s2"
    have e3: "eff {} {} [] s2 ?s3" using eff_emit [OF effD(1) [OF s2(2)], of "Ip_Mac_Data rnti"] by simp
    have f2: "eff {} {pi, q, x} [] s s2" by (rule eff_comp [OF block(3) s2(2)]) (use new in auto)
    have f3: "eff {} {pi, q, x} [] s ?s3" by (rule eff_comp [OF f2 e3]) simp_all
    note r3 = rlc_outside [OF ok f3 Int_empty_left]
    note m3 = mac_stays [OF f3 ok0 mac Int_empty_left]
    have own_sub: "rlc_blocks s \<subseteq> own s" "set (gMacUeContext s) \<subseteq> own s" using rlc_blocks_own [OF ok] mac_own [OF ok0 mac] by auto
    have nb3: "pi \<notin> rlc_blocks ?s3" "q \<notin> rlc_blocks ?s3" "x \<notin> rlc_blocks ?s3" "p \<notin> rlc_blocks ?s3"
      using new own_sub(1) nb unfolding r3(4) by auto
    have h3: "us_heap ?s3 pi = Some (IndObj \<lparr>mi_rnti = rnti, mi_rlcData = q\<rparr>)" "us_heap ?s3 q = Some (DataObj e)"
      using s2(3,4) by simp_all
    have x3: "buffer ?s3 x ?sdu" by (rule eff_buffer [OF e3 s2(7)]) simp
    have p3: "buffer ?s3 p msg" by (rule eff_buffer [OF f3 b]) simp
    have rx3: "rx_dfes (mac_grant ?s3 rnti) sn (amd_elements fi lens payload) (rx_of ?s3 rnti (unat lc)) = (r', os)"
      using rx by (simp only: m3(2) r3(2) [OF k])
    have "\<exists>s'. RlcProcessAMRxPacket ?s3 (rd_array e 0) rnti = Some s' \<and> packet_done ?s3 s' x rnti lc r' os"
    proof (rule am_packet_run [OF r3(1) m3(1) _ lc x3 nb3(3) f _ _ sum _ _ rx3 out])
      fix n part assume "fst (rx_of ?s3 rnti (unat lc)) = Some (n, part)"
      then have p: "fst (rx_of s rnti (unat lc)) = Some (n, part)" by (simp only: r3(2) [OF k])
      have pp: "partial_ptr s rnti (unat lc) \<in> own s" using partial_ptr_own [OF ok k] p by simp
      have "mp_nodes (us_mem ?s3) (partial_ptr s rnti (unat lc)) = mp_nodes (us_mem s) (partial_ptr s rnti (unat lc))"
        using effD(4) [OF f3] pp by (simp add: mem_kept_def)
      then have "part_room ?s3 (partial_ptr s rnti (unat lc)) (length payload)" using room [OF p] by (simp add: part_room_def)
      then show "join_room ?s3 (partial_ptr ?s3 rnti (unat lc)) x (length payload)"
        using part_room_join [OF _ x3] by (simp only: r3(5) [OF k])
    qed (use s2(6,12) in \<open>simp_all add: spare_def\<close>)
    then obtain s4 where s4: "RlcProcessAMRxPacket ?s3 (rd_array e 0) rnti = Some s4" "packet_done ?s3 s4 x rnti lc r' os" by blast
    have d4: "rlc_ok s4" "mac_ready s4" "rx_of s4 rnti (unat lc) = r'"
      "\<And>q k. k < MAX_LC_ID \<Longrightarrow> (q, k) \<noteq> (rnti, unat lc) \<Longrightarrow> rx_of s4 q k = rx_of s q k"
      "rlc_log s4 = rlc_log s @ map (\<lambda>(bs, gs). (rnti, lc, bs, gs)) os"
      "own s4 - rlc_blocks s4 = own ?s3 - rlc_blocks ?s3 - {x}" "\<And>q. mac_grant s4 q = mac_grant s q" "gMacUeContext s4 = gMacUeContext s"
      using s4(2) r3(2) m3(2) effD(6,9) [OF f3] unfolding packet_done_def by simp_all
    have o4: "own s4 - rlc_blocks s4 = own s - rlc_blocks s \<union> {pi, q}"
      using d4(6) r3(3) new s2(11) by auto
    have p4: "buffer s4 p msg" "p \<notin> rlc_blocks s4"
    proof -
      have pn: "p \<in> own ?s3 - rlc_blocks ?s3 - {x}" using po new nb effD(2) [OF f3] nb3(4) by auto
      have "p \<in> own s4 - rlc_blocks s4" using pn d4(6) by simp
      moreover have "us_heap ?s3 p = None" using p3 by (simp add: buffer_def own_raw)
      then have "us_heap s4 p = None" using s4(2) pn unfolding packet_done_def by (metis option.distinct(1))
      ultimately have pr: "p \<in> raw s4" and "p \<notin> rlc_blocks s4" by (simp_all add: own_raw)
      then show "p \<notin> rlc_blocks s4" by simp
      have "mem_kept (own ?s3 - rlc_blocks ?s3 - {x}) (us_mem ?s3) (us_mem s4)" using s4(2) by (simp add: packet_done_def)
      from buffer_kept [OF p3 this pn pr] show "buffer s4 p msg" .
    qed
    have q4: "q \<in> own s4 - rlc_blocks s4" "q \<noteq> p" "q \<notin> set (gMacUeContext s4)" "pi \<noteq> p" "pi \<notin> set (gMacUeContext s4)"
      using o4 new po own_sub(2) d4(8) by auto
    obtain s5 where s5: "us_free s4 q = Some s5" "rlc_ok s5" "mac_ready s5" "buffer s5 p msg" "gMacUeContext s5 = gMacUeContext s4"
      "\<And>r. mac_grant s5 r = mac_grant s4 r" "\<And>r k. k < MAX_LC_ID \<Longrightarrow> rx_of s5 r k = rx_of s4 r k" "rlc_log s5 = rlc_log s4"
      "own s5 - rlc_blocks s5 = own s4 - rlc_blocks s4 - {q}" "rlc_blocks s5 = rlc_blocks s4" "kept_out {q} s4 s5"
      by (rule release_run [OF d4(1,2) p4(1) q4(1-3)]) (rule that; assumption)
    have q5: "pi \<in> own s5 - rlc_blocks s5" "pi \<notin> set (gMacUeContext s5)" using s5(5,9) o4 new q4(5) by auto
    obtain s6 where s6: "us_free s5 pi = Some s6" "rlc_ok s6" "mac_ready s6" "buffer s6 p msg" "gMacUeContext s6 = gMacUeContext s5"
      "\<And>r. mac_grant s6 r = mac_grant s5 r" "\<And>r k. k < MAX_LC_ID \<Longrightarrow> rx_of s6 r k = rx_of s5 r k" "rlc_log s6 = rlc_log s5"
      "own s6 - rlc_blocks s6 = own s5 - rlc_blocks s5 - {pi}" "rlc_blocks s6 = rlc_blocks s5" "kept_out {pi} s5 s6"
      by (rule release_run [OF s5(2,3,4) q5(1) q4(4) q5(2)]) (rule that; assumption)
    have "MacUeDataInd ?s3 pi = Some s6"
    proof -
      have "get_obj the_ind ?s3 pi = Some \<lparr>mi_rnti = rnti, mi_rlcData = q\<rparr>" "get_obj the_data ?s3 q = Some e"
        using h3 by (simp_all add: get_obj_def)
      moreover have "process_packets (unat (rd_numLCInfo e)) 0 e rnti ?s3 = Some s4"
        using s2(5,6) s4(1) lc by auto
      ultimately show ?thesis using block(2) s2(8) s5(1) s6(1) by (simp add: MacUeDataInd_def)
    qed
    then have "MacDeMultiplexAndSend demux pos p off rnti s = Some s6"
      using block(1,2) es s2(1) by (simp add: MacDeMultiplexAndSend_def)
    moreover have "kept_out {} s s6"
    proof -
      have a: "kept_out {x} s s4" by (rule kept_out_trans [OF kept_out_eff [OF ok f3 Int_empty_left] kept_out_packet [OF s4(2)]]) auto
      have "kept_out {x, q} s s5" by (rule kept_out_trans [OF a s5(11)]) auto
      from kept_out_trans [OF this s6(11)] show ?thesis using new by auto
    qed
    then have "sdu_done s s6 p msg rnti lc r' os"
      unfolding sdu_done_def using s6(2-10) s5(2-10) d4 k p4(2) o4 new own_sub(1) by auto
    ultimately show ?thesis by blast
  qed
qed

end
