(* ===== verification/Mac_Uplink.thy ===== *)
theory Mac_Uplink
  imports Mac_Delivery
begin

text \<open>
  The whole way of an SDU: the PHY message with its headers (\<open>ulp/inc/lteMacPhyInterface.h\<close>), the
  MAC PDU in its transport block, the RLC PDU in the MAC PDU, and the SDUs in the RLC PDU.
\<close>

section \<open>The PHY message\<close>

record S_PhyHlMsgHead =
  mh_mNum :: u32
  mh_tLen :: u32
  mh_sno :: u32
  mh_attr :: u8
  mh_common :: u8
  mh_opc :: u16
  mh_UeId :: u32
  mh_cRnti :: u16
  mh_cellId :: u8
  mh_reserved1 :: u8
  mh_handle :: u32
  mh_reserved2 :: u32

record S_UlIndHead =
  ih_sfn :: u16
  ih_sf :: u8
  ih_numOfPDUs :: u8

record S_RxUlschIndHeadPdu =
  hp_UeId :: u32
  hp_RNTI :: u16
  hp_RNTIType :: u8
  hp_mcs :: u8
  hp_bitLen :: u32
  hp_wordLen :: u16
  hp_CRCFlag :: u8
  hp_SNR :: u8
  hp_TA :: u16
  hp_rbNum :: u8
  hp_Reserved :: u8
  hp_prbPower :: u32
  hp_puschRssi :: u32

text \<open>The bytes of the structures in memory, least significant byte first.\<close>

definition le16 :: "u16 \<Rightarrow> u8 list" where
  "le16 w = [ucast w, ucast (drop_bit 8 w)]"

definition le32 :: "u32 \<Rightarrow> u8 list" where
  "le32 w = le16 (ucast w) @ le16 (ucast (drop_bit 16 w))"

definition msg_head :: "S_PhyHlMsgHead \<Rightarrow> u8 list" where
  "msg_head h = le32 (mh_mNum h) @ le32 (mh_tLen h) @ le32 (mh_sno h) @ [mh_attr h, mh_common h] @ le16 (mh_opc h) @
     le32 (mh_UeId h) @ le16 (mh_cRnti h) @ [mh_cellId h, mh_reserved1 h] @ le32 (mh_handle h) @ le32 (mh_reserved2 h)"

definition ind_head :: "S_UlIndHead \<Rightarrow> u8 list" where
  "ind_head i = le16 (ih_sfn i) @ [ih_sf i, ih_numOfPDUs i]"

definition block_head :: "S_RxUlschIndHeadPdu \<Rightarrow> u8 list" where
  "block_head t = le32 (hp_UeId t) @ le16 (hp_RNTI t) @ [hp_RNTIType t, hp_mcs t] @ le32 (hp_bitLen t) @
     le16 (hp_wordLen t) @ [hp_CRCFlag t, hp_SNR t] @ le16 (hp_TA t) @ [hp_rbNum t, hp_Reserved t] @
     le32 (hp_prbPower t) @ le32 (hp_puschRssi t)"

definition phy_message :: "S_PhyHlMsgHead \<Rightarrow> S_UlIndHead \<Rightarrow> S_RxUlschIndHeadPdu \<Rightarrow> u8 list \<Rightarrow> u8 list" where
  "phy_message h i t block = msg_head h @ ind_head i @ block_head t @ block"

lemma le_length [simp]: "length (le16 w) = 2" "length (le32 v) = 4"
  by (simp_all add: le16_def le32_def)

lemma head_length [simp]: "length (msg_head h) = 32" "length (ind_head i) = 4" "length (block_head t) = 28"
  by (simp_all add: msg_head_def ind_head_def block_head_def)

lemma read16_le: "reads_at rd i (le16 w) \<Longrightarrow> read16 rd i = Some w"
proof -
  have "push_bit 8 (ucast (ucast (drop_bit 8 w) :: u8)) OR ucast (ucast w :: u8) = w"
    by (rule bit_word_eqI) (auto simp: word_bit_simps not_less)
  then show "reads_at rd i (le16 w) \<Longrightarrow> read16 rd i = Some w" by (simp add: read16_def le16_def)
qed

lemma read32_le: "reads_at rd i (le32 w) \<Longrightarrow> read32 rd i = Some w"
proof -
  have "push_bit 16 (ucast (ucast (drop_bit 16 w) :: u16)) OR ucast (ucast w :: u16) = w"
    by (rule bit_word_eqI) (auto simp: word_bit_simps not_less)
  then show "reads_at rd i (le32 w) \<Longrightarrow> read32 rd i = Some w"
    by (auto simp: read32_def le32_def dest!: read16_le)
qed

text \<open>What the receiver reads of a message with one transport block.\<close>

lemma message_read:
  assumes "reads_at rd 0 (phy_message h i t block)"
  shows "read16 rd 14 = Some (mh_opc h)" "rd 35 = Some (ih_numOfPDUs i)" "read16 rd 40 = Some (hp_RNTI t)"
    "read32 rd 44 = Some (hp_bitLen t)" "read16 rd 48 = Some (hp_wordLen t)" "rd 50 = Some (hp_CRCFlag t)"
    "read16 rd 52 = Some (hp_TA t)" "rd 54 = Some (hp_rbNum t)" "read32 rd 56 = Some (hp_prbPower t)"
  using assms by (auto simp: phy_message_def msg_head_def ind_head_def block_head_def intro!: read16_le read32_le)

section \<open>One SDU in a MAC PDU\<close>

text \<open>The elements of a PDU with one SDU: the others are control elements and padding.\<close>

lemma one_sdu:
  assumes xs: "\<forall>x\<in>set xs. element_ok x" "last_ok y" and one: "filter (\<lambda>x. fst x \<le> 10) (xs @ [y]) = [(lc, sdu)]"
  obtains cs ds where "filter (\<lambda>x. fst x \<noteq> 31) (xs @ [y]) = cs @ (lc, sdu) # ds" "\<forall>x\<in>set (cs @ ds). control x"
    "concat (map snd (xs @ [y])) = concat (map snd (cs @ (lc, sdu) # ds)) @ (if fst y = 31 then snd y else [])"
proof -
  let ?zs = "filter (\<lambda>x. fst x \<noteq> 31) (xs @ [y])"
  have "filter (\<lambda>x. fst x \<le> 10) ?zs = filter (\<lambda>x. fst x \<le> 10) (xs @ [y])"
    unfolding filter_filter by (rule filter_cong) auto
  with one have f: "filter (\<lambda>x. fst x \<le> 10) ?zs = [(lc, sdu)]" by simp
  then obtain cs ds where z: "?zs = cs @ (lc, sdu) # ds" "\<forall>x\<in>set cs. \<not> fst x \<le> 10" "filter (\<lambda>x. fst x \<le> 10) ds = []"
    unfolding filter_eq_Cons_iff by metis
  have "control x" if x: "x \<in> set (cs @ ds)" for x
  proof -
    have "x \<in> set ?zs" using x unfolding z(1) by auto
    then have "x \<in> set (xs @ [y])" "fst x \<noteq> 31" unfolding set_filter by blast+
    then have "fst x \<noteq> 31" "element_ok x \<or> last_ok x" using xs by auto
    moreover have "\<not> fst x \<le> 10" using x z(2,3) by (auto simp: filter_empty_conv)
    ultimately show ?thesis by (auto simp: element_ok_def last_ok_def sdu_element_def control_def)
  qed
  moreover have "concat (map snd (xs @ [y])) = concat (map snd ?zs) @ (if fst y = 31 then snd y else [])"
  proof -
    have "concat (map snd (filter (\<lambda>x. fst x \<noteq> 31) ws)) = concat (map snd ws)" if "\<forall>x\<in>set ws. element_ok x" for ws
      using that by (induction ws) (auto simp: element_ok_def sdu_element_def ce_length_def)
    from this [OF xs(1)] show ?thesis by simp
  qed
  ultimately show thesis using that z(1) by metis
qed

lemma sch_pdu_run:
  assumes ok: "rlc_ok s" and mac: "mac_ready s" and b: "buffer s p (as @ mac_pdu xs y @ bs)" and nb: "p \<notin> rlc_blocks s"
    and xs: "\<forall>x\<in>set xs. element_ok x" "last_ok y" "length xs < 17"
    and one: "filter (\<lambda>x. fst x \<le> 10) (xs @ [y]) = [(lc, amd_pdu pb fi sn lens payload)]" and lc: "lc = 1 \<or> lc = 2"
    and f: "amd_fields pb fi sn lens" and sum: "lens_sum lens \<le> length payload" and sp: "spare (9 + 2 * length lens) s"
    and room: "\<And>n part. fst (rx_of s rnti (unat lc)) = Some (n, part) \<Longrightarrow> part_room s (partial_ptr s rnti (unat lc)) (length payload)"
    and rx: "rx_dfes (mac_grant s rnti) sn (amd_elements fi lens payload) (rx_of s rnti (unat lc)) = (r', os)" and out: "out_ok lc os"
    and pdu: "pdu = \<lparr>up_rnti = rnti, up_length = of_nat (length (mac_pdu xs y)), up_block = p, up_start = length as\<rparr>"
  shows "\<exists>s'. MacProcessUlSchPdu s pdu = Some s' \<and> sdu_done s s' p (as @ mac_pdu xs y @ bs) rnti lc r' os"
proof -
  let ?msg = "as @ mac_pdu xs y @ bs" and ?sdu = "amd_pdu pb fi sn lens payload"
  have len: "length (mac_pdu xs y) < 2 ^ 16" using b by (simp add: buffer_def)
  have po: "p \<noteq> NULL" using own_nonnull [OF rlc_okD(1) [OF ok], of p] b by (simp add: buffer_def own_raw)
  have "0 < length (mac_pdu xs y)" by (simp add: mac_pdu_def mac_header_def)
  then have nz: "(of_nat (length (mac_pdu xs y)) :: u16) \<noteq> 0" using of_nat_word_eq_0 [where 'a = 16, of "length (mac_pdu xs y)"] len by auto
  have "reads_at (mem_byte (us_mem s) p) (length as) (mac_header xs y)"
    using buffer_reads [OF b] by (simp add: mac_pdu_def)
  then obtain sc where sc: "mac_scan (mem_byte (us_mem s) p) (scan_start pdu) = Some (Some sc)" "sc_ok sc"
    "sc_pData sc = length as + length (mac_header xs y)" "entries sc = take 17 (element_entries (xs @ [y]))" "sc_pos sc \<le> 17"
    using pdu_scanned [OF xs(1,2) len, of pdu "mem_byte (us_mem s) p"] pdu by auto
  obtain cs ds where z: "filter (\<lambda>x. fst x \<noteq> 31) (xs @ [y]) = cs @ (lc, ?sdu) # ds" "\<forall>x\<in>set (cs @ ds). control x"
    "concat (map snd (xs @ [y])) = concat (map snd (cs @ (lc, ?sdu) # ds)) @ (if fst y = 31 then snd y else [])"
    by (rule one_sdu [OF xs(1,2) one])
  have "length (filter (\<lambda>x. fst x \<noteq> 31) (xs @ [y])) \<le> length (xs @ [y])" by (rule length_filter_le)
  then have es: "take (unat (sc_pos sc)) (sc_demux sc) = map entry (cs @ (lc, ?sdu) # ds)"
    using sc(4) xs(3) unfolding entries_def element_entries_def z(1) by simp
  have d: "drop (sc_pData sc) ?msg = concat (map snd (cs @ (lc, ?sdu) # ds)) @ ((if fst y = 31 then snd y else []) @ bs)"
    using z(3) by (simp add: sc(3) mac_pdu_def)
  have le: "sc_pData sc \<le> length ?msg" by (simp add: sc(3) mac_pdu_def)
  from send_run [OF ok mac b nb sc(5) es d le z(2) lc f sum sp room rx out] show ?thesis
    using sc(1,2) po nz pdu by (auto simp: MacProcessUlSchPdu_def)
qed

section \<open>From the PHY message to the bearer\<close>

lemma bits_bytes:
  assumes "n < 2 ^ 16"
  shows "(ucast (drop_bit 3 ((of_nat (8 * n) :: u32) + 7)) :: u16) = of_nat n"
proof -
  have "unat (of_nat (8 * n + 7) :: u32) = 8 * n + 7" using assms by (intro unat_of_nat_small) simp
  then have "unat (drop_bit 3 (of_nat (8 * n + 7) :: u32)) = n" by (simp only: unat_drop_bit_eq) (simp add: drop_bit_eq_div)
  then have "drop_bit 3 ((of_nat (8 * n) :: u32) + 7) = of_nat n" by (metis of_nat_add of_nat_numeral of_nat_unat ucast_id)
  moreover have "(ucast (of_nat n :: u32) :: u16) = of_nat n"
    by (rule bit_word_eqI) (auto simp: word_bit_simps bit_of_nat_word)
  ultimately show ?thesis by simp
qed

text \<open>The grant of a transport block, and the state after its message.\<close>

definition block_grant :: "S_RxUlschIndHeadPdu \<Rightarrow> UlReportInfo" where
  "block_grant t = \<lparr>ur_rbNum = hp_rbNum t, ur_ta = hp_TA t, ur_prbPower = hp_prbPower t\<rparr>"

definition uplink_done :: "ulp_state \<Rightarrow> ulp_state \<Rightarrow> u16 \<Rightarrow> u8 \<Rightarrow> UlReportInfo \<Rightarrow> rx_state \<Rightarrow> (u8 list \<times> UlReportInfo list) list \<Rightarrow> bool" where
  "uplink_done s s' rnti lc g r' os \<longleftrightarrow> rlc_ok s' \<and> mac_ready s' \<and> rx_of s' rnti (unat lc) = r' \<and>
     (\<forall>q. \<forall>k<MAX_LC_ID. (q, k) \<noteq> (rnti, unat lc) \<longrightarrow> rx_of s' q k = rx_of s q k) \<and>
     rlc_log s' = rlc_log s @ map (\<lambda>(bs, gs). (rnti, lc, bs, gs)) os \<and>
     mac_grant s' rnti = Some g \<and> (\<forall>q. q \<noteq> rnti \<longrightarrow> mac_grant s' q = mac_grant s q) \<and>
     own s' - rlc_blocks s' - set (gMacUeContext s') = own s - rlc_blocks s - set (gMacUeContext s) \<and> kept_out {} s s'"

lemma part_room_kept:
  "part_room s q m \<Longrightarrow> mp_nodes (us_mem s') q = mp_nodes (us_mem s) q \<Longrightarrow> part_room s' q m"
  by (simp add: part_room_def)

lemma block_run:
  assumes ok: "rlc_ok s" and mac: "mac_ready s" and b: "buffer s p (phy_message h i t (mac_pdu xs y @ bs))" and nb: "p \<notin> rlc_blocks s"
    and t: "hp_bitLen t = of_nat (8 * length (mac_pdu xs y))"
    and xs: "\<forall>x\<in>set xs. element_ok x" "last_ok y" "length xs < 17"
    and one: "filter (\<lambda>x. fst x \<le> 10) (xs @ [y]) = [(lc, amd_pdu pb fi sn lens payload)]" and lc: "lc = 1 \<or> lc = 2"
    and f: "amd_fields pb fi sn lens" and sum: "lens_sum lens \<le> length payload" and sp: "spare (10 + 2 * length lens) s"
    and room: "\<And>n part. fst (rx_of s (hp_RNTI t) (unat lc)) = Some (n, part) \<Longrightarrow>
      part_room s (partial_ptr s (hp_RNTI t) (unat lc)) (length payload)"
    and rx: "rx_dfes (Some (block_grant t)) sn (amd_elements fi lens payload) (rx_of s (hp_RNTI t) (unat lc)) = (r', os)" and out: "out_ok lc os"
  shows "\<exists>s'. mac_ul_pdu p 36 64 s = Some s' \<and> uplink_done s s' (hp_RNTI t) lc (block_grant t) r' os \<and>
    buffer s' p (phy_message h i t (mac_pdu xs y @ bs))"
proof -
  let ?msg = "phy_message h i t (mac_pdu xs y @ bs)" and ?rnti = "hp_RNTI t" and ?g = "block_grant t"
  let ?s0 = "kpi (\<lambda>k. k\<lparr>k_crcCorrect := k_crcCorrect k + 1\<rparr>) s"
  note ok_s = rlc_okD(1) [OF ok]
  have k: "unat lc < MAX_LC_ID" using lc by auto
  have f0: "eff {} {} [] s ?s0" by (rule eff_view [OF ok_s]) simp
  note r0 = rlc_outside [OF ok f0 Int_empty_left]
  note m0 = mac_stays [OF f0 ok_s mac Int_empty_left]
  have b0: "buffer ?s0 p ?msg" by (rule eff_buffer [OF f0 b]) simp
  have p0: "p \<in> own ?s0" "us_heap ?s0 p = None" using b0 by (simp_all only: buffer_def own_raw)
  note rd0 = message_read [OF buffer_reads [OF b0]]
  have mem: "us_mem ?s0 = us_mem s" "own ?s0 = own s" "gMacUeContext ?s0 = gMacUeContext s" by (simp_all add: own_def)
  have sp0: "spare (Suc (9 + 2 * length lens)) ?s0" using sp by (simp add: spare_def)
  obtain s1 where s1: "mac_record_grant p 36 ?rnti ?s0 = Some s1" "granted ?s0 s1 ?rnti ?g" "spare (9 + 2 * length lens) s1"
    using record_run [OF r0(1) m0(1) p0 sp0, of 36 "hp_rbNum t" "hp_prbPower t" "hp_TA t" ?rnti] rd0(7,8,9) by (auto simp: block_grant_def)
  have d1: "rlc_ok s1" "mac_ready s1" "rlc_blocks s1 = rlc_blocks s" "rlc_log s1 = rlc_log s" "mac_grant s1 ?rnti = Some ?g"
    "\<And>q. q \<noteq> ?rnti \<Longrightarrow> mac_grant s1 q = mac_grant s q" "own s \<subseteq> own s1"
    "own s1 - set (gMacUeContext s1) = own s - set (gMacUeContext s)"
    "\<And>q k. k < MAX_LC_ID \<Longrightarrow> rx_of s1 q k = rx_of s q k" "\<And>q k. k < MAX_LC_ID \<Longrightarrow> partial_ptr s1 q k = partial_ptr s q k"
    using s1(2) r0 m0 effD(9) [OF f0] mem unfolding granted_def by simp_all
  have kept: "mem_kept (own s - set (gMacUeContext s)) (us_mem s) (us_mem s1)" "\<And>q. q \<in> own s - set (gMacUeContext s) \<Longrightarrow> us_heap s1 q = us_heap s q"
    using s1(2) mem unfolding granted_def by simp_all
  have pn: "p \<in> own s - set (gMacUeContext s)" "us_heap s p = None"
    using b mac by (auto simp: buffer_def own_raw mac_ready_def)
  have "p \<in> raw s1" using pn kept(2) d1(7) by (auto simp: own_raw)
  then have b1: "buffer s1 p ?msg" by (rule buffer_kept [OF b kept(1) pn(1)])
  note rd1 = message_read [OF buffer_reads [OF b1]]
  have split: "?msg = (msg_head h @ ind_head i @ block_head t) @ mac_pdu xs y @ bs" by (simp add: phy_message_def)
  have bs: "buffer s1 p ((msg_head h @ ind_head i @ block_head t) @ mac_pdu xs y @ bs)" using b1 unfolding split .
  have len: "length (mac_pdu xs y) < 2 ^ 16" using bs by (simp add: buffer_def)
  let ?pdu = "\<lparr>up_rnti = ?rnti, up_length = of_nat (length (mac_pdu xs y)), up_block = p, up_start = length (msg_head h @ ind_head i @ block_head t)\<rparr>"
  have "\<exists>s'. MacProcessUlSchPdu s1 ?pdu = Some s' \<and> sdu_done s1 s' p ((msg_head h @ ind_head i @ block_head t) @ mac_pdu xs y @ bs) ?rnti lc r' os"
  proof (rule sch_pdu_run [OF d1(1,2) bs _ xs one lc f sum s1(3) _ _ out refl])
    show "p \<notin> rlc_blocks s1" using nb d1(3) by simp
    show "rx_dfes (mac_grant s1 ?rnti) sn (amd_elements fi lens payload) (rx_of s1 ?rnti (unat lc)) = (r', os)"
      using rx by (simp only: d1(5) d1(9) [OF k])
    fix n part assume "fst (rx_of s1 ?rnti (unat lc)) = Some (n, part)"
    then have r: "fst (rx_of s ?rnti (unat lc)) = Some (n, part)" by (simp only: d1(9) [OF k])
    have "partial_ptr s ?rnti (unat lc) \<in> rlc_blocks s" using partial_ptr_in [OF ok k] r by simp
    then have "partial_ptr s ?rnti (unat lc) \<in> own s - set (gMacUeContext s)" using mac_blocks [OF ok mac] rlc_blocks_own [OF ok] by blast
    then have "mp_nodes (us_mem s1) (partial_ptr s ?rnti (unat lc)) = mp_nodes (us_mem s) (partial_ptr s ?rnti (unat lc))"
      using kept(1) by (simp add: mem_kept_def)
    with part_room_kept [OF room [OF r]] show "part_room s1 (partial_ptr s1 ?rnti (unat lc)) (length payload)"
      by (simp only: d1(10) [OF k])
  qed
  then obtain s2 where s2: "MacProcessUlSchPdu s1 ?pdu = Some s2" "sdu_done s1 s2 p ?msg ?rnti lc r' os" unfolding split by blast
  have run: "mac_ul_pdu p 36 64 s = Some s2"
    using rd0(3) rd1(4) s1(1) s2(1) t bits_bytes [OF len] by (simp add: mac_ul_pdu_def del: of_nat_mult)
  have d2: "own s2 - rlc_blocks s2 = own s1 - rlc_blocks s1" "gMacUeContext s2 = gMacUeContext s1" using s2(2) by (simp_all add: sdu_done_def)
  have "own s2 - rlc_blocks s2 - set (gMacUeContext s2) = own s - rlc_blocks s - set (gMacUeContext s)"
    using d1(3,8) unfolding d2 by blast
  moreover have "kept_out {} s s2"
  proof -
    have a: "kept_out {} s s1"
      by (rule kept_out_trans [OF kept_out_eff [OF ok f0 Int_empty_left] kept_out_granted [OF s1(2) r0(1) m0(1)]]) simp
    have "kept_out {} s1 s2" using s2(2) by (simp add: sdu_done_def)
    from kept_out_trans [OF a this] show ?thesis by simp
  qed
  ultimately have "uplink_done s s2 ?rnti lc ?g r' os"
    using s2(2) d1 unfolding uplink_done_def sdu_done_def by auto
  then show ?thesis using run s2(2) by (auto simp: sdu_done_def)
qed

lemma phy_message_run:
  assumes "rlc_ok s" "mac_ready s" "buffer s p (phy_message h i t (mac_pdu xs y @ bs))" "p \<notin> rlc_blocks s"
    and "mh_opc h = 0x87" "ih_numOfPDUs i = 1" "hp_CRCFlag t = 1" "hp_bitLen t = of_nat (8 * length (mac_pdu xs y))"
    and "\<forall>x\<in>set xs. element_ok x" "last_ok y" "length xs < 17"
    and "filter (\<lambda>x. fst x \<le> 10) (xs @ [y]) = [(lc, amd_pdu pb fi sn lens payload)]" "lc = 1 \<or> lc = 2"
    and "amd_fields pb fi sn lens" "sum_list (map unat lens) \<le> length payload" "spare (10 + 2 * length lens) s"
    and "fst (rx_of s (hp_RNTI t) (unat lc)) \<noteq> None \<longrightarrow> part_room s (partial_ptr s (hp_RNTI t) (unat lc)) (length payload)"
    and "rx_dfes (Some (block_grant t)) sn (amd_elements fi lens payload) (rx_of s (hp_RNTI t) (unat lc)) = (r', os)"
    and "out_ok lc os"
  shows "\<exists>s'. MacProcessPhyDataInd s p (of_nat (length (phy_message h i t (mac_pdu xs y @ bs)))) = Some s' \<and>
    uplink_done s s' (hp_RNTI t) lc (block_grant t) r' os \<and> buffer s' p (phy_message h i t (mac_pdu xs y @ bs))"
proof -
  let ?msg = "phy_message h i t (mac_pdu xs y @ bs)"
  have "\<exists>s'. mac_ul_pdu p 36 64 s = Some s' \<and> uplink_done s s' (hp_RNTI t) lc (block_grant t) r' os \<and> buffer s' p ?msg"
    by (rule block_run [OF assms(1-4,8-16) _ assms(18,19)]) (use assms(17) in simp)
  then obtain s' where s': "mac_ul_pdu p 36 64 s = Some s'" "uplink_done s s' (hp_RNTI t) lc (block_grant t) r' os" "buffer s' p ?msg"
    by blast
  note rd = message_read [OF buffer_reads [OF assms(3)]] and rd' = message_read [OF buffer_reads [OF s'(3)]]
  have nn: "p \<noteq> NULL" using own_nonnull [OF rlc_okD(1) [OF assms(1)], of p] assms(3) by (simp add: buffer_def own_raw)
  have "length ?msg < 2 ^ 16" "64 \<le> length ?msg" using assms(3) by (simp_all add: buffer_def phy_message_def)
  then have len: "unat (of_nat (length ?msg) :: u16) = length ?msg" "64 \<le> length ?msg" by (simp_all add: unat_of_nat_small)
  then have c: "(36 :: u16) < of_nat (length ?msg)" "\<not> (64 :: u16) > of_nat (length ?msg)" by (simp_all add: word_less_nat_alt)
  have stop: "mac_ul_pdus p (of_nat (length ?msg)) w 1 s' = Some s'" for w
    using rd'(2) assms(6) by (subst mac_ul_pdus.simps) simp
  have "mac_ul_pdus p (of_nat (length ?msg)) 36 0 s = Some s'"
    using rd(2,6) rd'(5) c s'(1) assms(6,7) stop by (subst mac_ul_pdus.simps) (simp add: Let_def)
  then have "MacProcessPhyDataInd s p (of_nat (length ?msg)) = Some s'"
    using rd(1) assms(5) nn by (simp add: MacProcessPhyDataInd_def)
  with s'(2,3) show ?thesis by blast
qed

text \<open>
  C2. The whole way of an uplink SDU.  A PHY message with one error-free transport block, whose
  MAC PDU has one SDU for bearer 1 or 2 among any control elements and padding, whose SDU is any
  acknowledged mode PDU of the RLC format, is processed without undefined behaviour: the context
  of the RNTI has the grant of this block (the grants of the other UEs stay), the receiver of the
  bearer has changed exactly as the abstract receiver says, given this grant, for the elements of the
  RLC PDU, exactly the SDUs it delivers have been delivered, in order and with their grants, no
  other receiver has changed, the invariant of the layers holds, and outside the tables of the MAC
  and the RLC the same blocks are in use as before: nothing leaks on the way.
\<close>

theorem uplink_message_delivered:
  assumes "rlc_ok s" "mac_ready s" "buffer s p (phy_message h i t (mac_pdu xs y @ bs))" "p \<notin> rlc_blocks s"
    and "mh_opc h = 0x87" "ih_numOfPDUs i = 1" "hp_CRCFlag t = 1" "hp_bitLen t = of_nat (8 * length (mac_pdu xs y))"
    and "\<forall>x\<in>set xs. element_ok x" "last_ok y" "length xs < 17"
    and "filter (\<lambda>x. fst x \<le> 10) (xs @ [y]) = [(lc, amd_pdu pb fi sn lens payload)]" "lc = 1 \<or> lc = 2"
    and "amd_fields pb fi sn lens" "sum_list (map unat lens) \<le> length payload" "spare (10 + 2 * length lens) s"
    and "fst (rx_of s (hp_RNTI t) (unat lc)) \<noteq> None \<longrightarrow> part_room s (partial_ptr s (hp_RNTI t) (unat lc)) (length payload)"
    and "rx_dfes (Some (block_grant t)) sn (amd_elements fi lens payload) (rx_of s (hp_RNTI t) (unat lc)) = (r', os)"
    and "out_ok lc os"
  shows "\<exists>s'. MacProcessPhyDataInd s p (of_nat (length (phy_message h i t (mac_pdu xs y @ bs)))) = Some s' \<and>
    rlc_ok s' \<and> mac_ready s' \<and> rx_of s' (hp_RNTI t) (unat lc) = r' \<and>
    (\<forall>q. \<forall>k<MAX_LC_ID. (q, k) \<noteq> (hp_RNTI t, unat lc) \<longrightarrow> rx_of s' q k = rx_of s q k) \<and>
    rlc_log s' = rlc_log s @ map (\<lambda>(bs, gs). (hp_RNTI t, lc, bs, gs)) os \<and>
    mac_grant s' (hp_RNTI t) = Some (block_grant t) \<and> (\<forall>q. q \<noteq> hp_RNTI t \<longrightarrow> mac_grant s' q = mac_grant s q) \<and>
    own s' - rlc_blocks s' - set (gMacUeContext s') = own s - rlc_blocks s - set (gMacUeContext s)"
  using phy_message_run [OF assms] unfolding uplink_done_def by blast

text \<open>A buffer report and a packet with one SDU of three bytes, from a UE that is not known yet.\<close>

abbreviation some_block :: S_RxUlschIndHeadPdu where
  "some_block \<equiv> \<lparr>hp_UeId = 0, hp_RNTI = 61, hp_RNTIType = 0, hp_mcs = 4, hp_bitLen = 64, hp_wordLen = 2, hp_CRCFlag = 1, hp_SNR = 9,
     hp_TA = 31, hp_rbNum = 3, hp_Reserved = 0, hp_prbPower = 77, hp_puschRssi = 0\<rparr>"

abbreviation some_head :: S_PhyHlMsgHead where
  "some_head \<equiv> \<lparr>mh_mNum = 1, mh_tLen = 72, mh_sno = 0, mh_attr = 0, mh_common = 0, mh_opc = 0x87, mh_UeId = 0, mh_cRnti = 0,
     mh_cellId = 0, mh_reserved1 = 0, mh_handle = 0, mh_reserved2 = 0\<rparr>"

abbreviation some_ind :: S_UlIndHead where
  "some_ind \<equiv> \<lparr>ih_sfn = 100, ih_sf = 2, ih_numOfPDUs = 1\<rparr>"

abbreviation some_message :: "u8 list" where
  "some_message \<equiv> phy_message some_head some_ind some_block (mac_pdu [(29, [0x41])] (2, amd_pdu 0 0 5 [] [10, 11, 12]))"

lemma some_message_facts:
  defines "sdu \<equiv> amd_pdu 0 0 5 [] [10, 11, 12]"
  shows "length some_message = 72" "\<forall>x\<in>set [(29, [0x41])]. element_ok x" "last_ok (2, sdu)" "length [(29 :: u8, [0x41 :: u8])] < 17"
    "filter (\<lambda>x. fst x \<le> 10) ([(29 :: u8, [0x41])] @ [(2, sdu)]) = [(2, sdu)]" "amd_fields 0 0 5 []"
    "hp_bitLen some_block = of_nat (8 * length (mac_pdu [(29, [0x41])] (2, sdu)))"
    "rx_dfes (Some (block_grant some_block)) 5 (amd_elements 0 [] [10, 11, 12]) (None, []) =
      ((None, []), [([10, 11, 12], [\<lparr>ur_rbNum = 3, ur_ta = 31, ur_prbPower = 77\<rparr>])])"
    "out_ok 2 [([10, 11, 12], [\<lparr>ur_rbNum = 3, ur_ta = 31, ur_prbPower = 77\<rparr>])]"
    "sum_list (map unat ([] :: u16 list)) \<le> length [10 :: u8, 11, 12]"
proof -
  have n: "length sdu = 5" by (simp add: amd_pdu_length sdu_def)
  then have m: "length (mac_pdu [(29, [0x41])] (2, sdu)) = 8" by (simp add: mac_pdu_def mac_header_def subheader_def)
  then show "length some_message = 72" "hp_bitLen some_block = of_nat (8 * length (mac_pdu [(29, [0x41])] (2, sdu)))"
    by (simp_all add: phy_message_def sdu_def)
  show "\<forall>x\<in>set [(29, [0x41])]. element_ok x" "last_ok (2, sdu)" "length [(29 :: u8, [0x41 :: u8])] < 17" "amd_fields 0 0 5 []"
    "filter (\<lambda>x. fst x \<le> 10) ([(29 :: u8, [0x41])] @ [(2, sdu)]) = [(2, sdu)]"
    using n by (auto simp: element_ok_def last_ok_def sdu_element_def ce_length_def amd_fields_def)
  have "amd_elements 0 [] [10, 11, 12] = [(AM_PDU_MAP_SDU_FULL, [10, 11, 12])]" by (simp add: amd_elements_def only_status_def)
  then show "rx_dfes (Some (block_grant some_block)) 5 (amd_elements 0 [] [10, 11, 12]) (None, []) =
      ((None, []), [([10, 11, 12], [\<lparr>ur_rbNum = 3, ur_ta = 31, ur_prbPower = 77\<rparr>])])"
    by (simp add: block_grant_def rx_dfe_def rx_first_def start_grants_def)
  show "out_ok 2 [([10, 11, 12], [\<lparr>ur_rbNum = 3, ur_ta = 31, ur_prbPower = 77\<rparr>])]" by (simp add: out_ok_def deliverable_def)
  show "sum_list (map unat ([] :: u16 list)) \<le> length [10 :: u8, 11, 12]" by simp
qed

lemma some_message_state:
  obtains p s where "with_buffer some_message idle_state = (p, s)"
    "buffer s p (phy_message some_head some_ind some_block (mac_pdu [(29, [0x41])] (2, amd_pdu 0 0 5 [] [10, 11, 12]) @ []))"
    "spare 15 s" "rlc_ok s" "mac_ready s" "rlc_blocks s = {}" "\<And>r k. rx_of s r k = (None, [])" "rlc_log s = []" "own s = {p}"
    "set (gMacUeContext s) = {}"
proof -
  obtain p s where s: "with_buffer some_message idle_state = (p, s)" "buffer s p some_message" "spare 15 s" "rlc_ok s" "mac_ready s"
    "rlc_blocks s = {}" "\<And>r k. rx_of s r k = (None, [])" "\<And>r. mac_grant s r = None" "rlc_log s = []" "own s = {p}"
    using idle_rlc [of some_message] some_message_facts(1) by auto
  have "us_heap s p = None" using s(2) by (simp only: buffer_def own_raw)
  then have "p \<notin> set (gMacUeContext s)" using s(5) by (auto simp: mac_ready_def)
  then have "set (gMacUeContext s) = {}" using mac_own [OF rlc_okD(1) [OF s(4)] s(5)] s(10) by (auto simp: subset_singleton_iff)
  with s show thesis by (intro that [of p s]) simp_all
qed

theorem uplink_message_delivered_witness:
  "case with_buffer some_message idle_state of (p, s) \<Rightarrow>
     \<exists>s'. MacProcessPhyDataInd s p 72 = Some s' \<and> rlc_ok s' \<and> rx_of s' 61 2 = (None, []) \<and>
       rlc_log s' = [(61, 2, [10, 11, 12], [\<lparr>ur_rbNum = 3, ur_ta = 31, ur_prbPower = 77\<rparr>])] \<and>
       mac_grant s' 61 = Some \<lparr>ur_rbNum = 3, ur_ta = 31, ur_prbPower = 77\<rparr> \<and>
       own s' - rlc_blocks s' - set (gMacUeContext s') = {p}"
proof (rule some_message_state)
  fix p s
  assume s: "with_buffer some_message idle_state = (p, s)"
    "buffer s p (phy_message some_head some_ind some_block (mac_pdu [(29, [0x41])] (2, amd_pdu 0 0 5 [] [10, 11, 12]) @ []))"
    "spare 15 s" "rlc_ok s" "mac_ready s" "rlc_blocks s = {}" "\<And>r k. rx_of s r k = (None, [])" "rlc_log s = []" "own s = {p}"
    "set (gMacUeContext s) = {}"
  note f = some_message_facts
  have nb: "p \<notin> rlc_blocks s" by (simp add: s(6))
  have sp: "spare (10 + 2 * length ([] :: u16 list)) s" using spare_le [OF s(3), of 10] by simp
  have room: "fst (rx_of s (hp_RNTI some_block) (unat (2 :: u8))) \<noteq> None \<longrightarrow>
      part_room s (partial_ptr s (hp_RNTI some_block) (unat (2 :: u8))) (length [10 :: u8, 11, 12])" by (simp add: s(7))
  show ?thesis
    using uplink_message_delivered [OF s(4,5,2) nb _ _ _ f(7) f(2-5) _ f(6,10) sp room _ f(9)] f(1,8) s(1)
    by (simp add: s(6-10) block_grant_def) blast
qed

end
