(* ===== verification/Oam_Report.thy ===== *)
theory Oam_Report
  imports Mac_Delivery "HOL-Library.Multiset"
begin

text \<open>
  The OAM side of the worker, \<open>UlpRecvAndHandleOamData\<close> of
  \<open>ulp/src/lteUlpWorker.c\<close>: in every period the worker answers heartbeats and sends one
  datagram with the identities of the UEs that are complete or have waited long enough; contexts that
  are not reported grow older.
\<close>

section \<open>The code\<close>

abbreviation (input) MAX_NUM_UE_INFO_REPORT :: nat where "MAX_NUM_UE_INFO_REPORT \<equiv> 32"
abbreviation (input) LTE_OAM_DATA_REQ_HEAD_LENGTH :: int where "LTE_OAM_DATA_REQ_HEAD_LENGTH \<equiv> 4"
abbreviation (input) LTE_ULP_DATA_IND_HEAD_LENGTH :: u16 where "LTE_ULP_DATA_IND_HEAD_LENGTH \<equiv> 4"
abbreviation (input) LTE_UE_ID_IND_MSG_HEAD_LENGTH :: u16 where "LTE_UE_ID_IND_MSG_HEAD_LENGTH \<equiv> 4"
abbreviation (input) MSG_ULP_HEARTBEAT_REQ :: u16 where "MSG_ULP_HEARTBEAT_REQ \<equiv> 0x80"
abbreviation (input) sizeof_UeIdentity :: u16 where "sizeof_UeIdentity \<equiv> 28"

text \<open>
  The datagram under construction: its length field, the number \<open>ueIndex\<close> of entries, and the
  array of entries, which lies in the uninitialised buffer on the stack.
\<close>

record LteUlpDataInd =
  oi_length :: u16
  oi_index :: nat
  oi_array :: "nat \<Rightarrow> UeIdentity"

text \<open>
  What a socket has received: the answer of \<open>SocketUdpRecv\<close> and the message type.
\<close>

record OamDatagram =
  od_byteRecvd :: int
  od_msgType :: u16

definition oam_heartbeat :: "OamDatagram \<Rightarrow> ip_event \<Rightarrow> (LteKpi \<Rightarrow> LteKpi) \<Rightarrow> ulp_state \<Rightarrow> ulp_state" where
  "oam_heartbeat d answer bump s =
     (if od_byteRecvd d \<ge> LTE_OAM_DATA_REQ_HEAD_LENGTH \<and> od_msgType d = MSG_ULP_HEARTBEAT_REQ
      then emit answer (kpi bump s) else s)"

text \<open>An entry is written; outside the array the behaviour is undefined.\<close>

definition add_entry :: "UeIdentity \<Rightarrow> LteUlpDataInd \<Rightarrow> LteUlpDataInd option" where
  "add_entry u r = (if oi_index r < MAX_NUM_UE_INFO_REPORT
     then Some (r\<lparr>oi_length := oi_length r + sizeof_UeIdentity, oi_index := oi_index r + 1,
       oi_array := (oi_array r)(oi_index r := u)\<rparr>) else None)"

definition reported_identity :: "RrcUeContext \<Rightarrow> UeIdentity" where
  "reported_identity c = (rr_ueIdentity c)\<lparr>ui_rnti := rr_rnti c\<rparr>"

text \<open>The contexts that the RRC has put aside, at most \<open>rrcCtxCount\<close> of them.\<close>

fun report_ready :: "nat \<Rightarrow> LteUlpDataInd \<Rightarrow> ulp_state \<Rightarrow> (LteUlpDataInd \<times> ulp_state) option" where
  "report_ready 0 r s = Some (r, s)"
| "report_ready (Suc rrcCtxCount) r s =
     (case gReadyRrcUeContextList s of
        [] \<Rightarrow> Some (r, s)
      | p # ps \<Rightarrow> do {
          s \<leftarrow> Some (s\<lparr>gReadyRrcUeContextList := ps\<rparr>);
          c \<leftarrow> get_obj the_rrc s p;
          if has_identity c then do {
            r \<leftarrow> add_entry (reported_identity c) r;
            s \<leftarrow> us_free s p;
            if oi_index r = MAX_NUM_UE_INFO_REPORT then Some (r, s) else report_ready rrcCtxCount r s }
          else report_ready rrcCtxCount r s })"

text \<open>A context of the table is due when both identities are known or it has waited long enough.\<close>

definition rrc_due :: "u32 \<Rightarrow> RrcUeContext \<Rightarrow> bool" where
  "rrc_due gMaxRrcCtxIdleCount c \<longleftrightarrow>
     (ui_imsiPresent (rr_ueIdentity c) \<noteq> 0 \<and> ui_mTmsiPresent (rr_ueIdentity c) \<noteq> 0) \<or>
     ucast (rr_idleCount c) \<ge> gMaxRrcCtxIdleCount"

text \<open>
  The loops take the next node before they delete a context, so they go through the list as it
  was.  After a deletion the pointer to an RRC context is cleared before its time is updated.
\<close>

fun report_rrc :: "u32 \<Rightarrow> ptr list \<Rightarrow> LteUlpDataInd \<Rightarrow> ulp_state \<Rightarrow> (LteUlpDataInd \<times> ulp_state) option" where
  "report_rrc limit [] r s = Some (r, s)"
| "report_rrc limit (p # ps) r s = do {
     c \<leftarrow> get_obj the_rrc s p;
     (p, r, s) \<leftarrow> (if oi_index r < MAX_NUM_UE_INFO_REPORT \<and> rrc_due limit c then do {
         s \<leftarrow> Some (put_obj p (RrcObj (c\<lparr>rr_deleteFlag := 1\<rparr>)) s);
         r \<leftarrow> (if has_identity c then add_entry (reported_identity c) r else Some r);
         s \<leftarrow> RrcDeleteUeContext s p;
         Some (NULL, r, s) }
       else Some (p, r, s));
     s \<leftarrow> RrcUpdateUeContextTime s p 1;
     report_rrc limit ps r s }"

text \<open>
  The loop over the MAC contexts.  After a deletion it clears \<open>pRrcUeCtx\<close> instead of
  \<open>pMacUeCtx\<close>, so the time of the deleted context is updated.
\<close>

fun report_mac :: "u32 \<Rightarrow> ptr list \<Rightarrow> LteUlpDataInd \<Rightarrow> ulp_state \<Rightarrow> (LteUlpDataInd \<times> ulp_state) option" where
  "report_mac limit [] r s = Some (r, s)"
| "report_mac limit (p # ps) r s = do {
     c \<leftarrow> get_obj the_mac s p;
     (r, s) \<leftarrow> (if oi_index r < MAX_NUM_UE_INFO_REPORT \<and> mc_idleCount c \<ge> limit then do {
         s \<leftarrow> Some (put_obj p (MacObj (c\<lparr>mc_deleteFlag := 1\<rparr>)) s);
         r \<leftarrow> add_entry ((oi_array r (oi_index r))\<lparr>ui_imsiPresent := 0, ui_mTmsiPresent := 0, ui_rnti := mc_rnti c\<rparr>) r;
         s \<leftarrow> MacDeleteUeContext s p;
         Some (r, s) }
       else Some (r, s));
     s \<leftarrow> MacUpdateUeContextTime s p 1;
     report_mac limit ps r s }"

definition send_report :: "LteUlpDataInd \<Rightarrow> ulp_state \<Rightarrow> ulp_state" where
  "send_report r s = (if oi_index r > 0 then emit (Oam_Identities (oi_length r) (map (oi_array r) [0..<oi_index r])) s else s)"

text \<open>
  The arguments: the two limits, what the heartbeat sockets of the test OAM and of the OAM have
  received, and what the array of entries holds at the start.
\<close>

definition UlpRecvAndHandleOamData ::
  "u32 \<Rightarrow> u32 \<Rightarrow> OamDatagram \<Rightarrow> OamDatagram \<Rightarrow> (nat \<Rightarrow> UeIdentity) \<Rightarrow> ulp_state \<Rightarrow> ulp_state option" where
  "UlpRecvAndHandleOamData gMaxRrcCtxIdleCount gMaxIdleCount test oam stack s = do {
     s \<leftarrow> Some (oam_heartbeat test Test_Heartbeat_Resp (\<lambda>k. k\<lparr>k_heartbeatResp := k_heartbeatResp k + 1\<rparr>) s);
     s \<leftarrow> Some (oam_heartbeat oam Oam_Heartbeat_Resp id s);
     (r, s) \<leftarrow> report_ready (length (gReadyRrcUeContextList s))
       \<lparr>oi_length = LTE_ULP_DATA_IND_HEAD_LENGTH + LTE_UE_ID_IND_MSG_HEAD_LENGTH, oi_index = 0, oi_array = stack\<rparr> s;
     (r, s) \<leftarrow> (if length (gRrcUeContextList s) > 0
       then report_rrc gMaxRrcCtxIdleCount (gRrcUeContextList s) r s else Some (r, s));
     (r, s) \<leftarrow> (if length (gMacUeContext s) > 0
       then report_mac gMaxIdleCount (gMacUeContext s) r s else Some (r, s));
     Some (send_report r s) }"

section \<open>The specification of a round\<close>

definition rrc_ctx :: "ulp_state \<Rightarrow> ptr \<Rightarrow> RrcUeContext" where
  "rrc_ctx s p = the (get_obj the_rrc s p)"

definition rrc_table :: "ulp_state \<Rightarrow> (ptr \<times> RrcUeContext) list" where
  "rrc_table s = map (\<lambda>p. (p, rrc_ctx s p)) (gRrcUeContextList s)"

definition rrc_waiting :: "ulp_state \<Rightarrow> RrcUeContext list" where
  "rrc_waiting s = map (rrc_ctx s) (gReadyRrcUeContextList s)"

definition mac_ctx :: "ulp_state \<Rightarrow> ptr \<Rightarrow> MacUeContext" where
  "mac_ctx s p = the (get_obj the_mac s p)"

definition mac_table :: "ulp_state \<Rightarrow> (ptr \<times> MacUeContext) list" where
  "mac_table s = map (\<lambda>p. (p, mac_ctx s p)) (gMacUeContext s)"

definition rrc_older :: "RrcUeContext \<Rightarrow> RrcUeContext" where
  "rrc_older c = c\<lparr>rr_idleCount := rr_idleCount c + 1\<rparr>"

definition mac_older :: "MacUeContext \<Rightarrow> MacUeContext" where
  "mac_older c = c\<lparr>mc_idleCount := mc_idleCount c + 1\<rparr>"

text \<open>
  With room for \<open>n\<close> entries, the contexts of a table that are reported and those that stay:
  as long as there is room a context that is due leaves the table; all others grow older.
\<close>

fun report_scan :: "u32 \<Rightarrow> nat \<Rightarrow> ('p \<times> RrcUeContext) list \<Rightarrow> RrcUeContext list \<times> ('p \<times> RrcUeContext) list" where
  "report_scan limit n [] = ([], [])"
| "report_scan limit n ((p, c) # t) =
     (if 0 < n \<and> rrc_due limit c then
        (if has_identity c then (let (r, k) = report_scan limit (n - 1) t in (c # r, k)) else report_scan limit n t)
      else (let (r, k) = report_scan limit n t in (r, (p, rrc_older c) # k)))"

lemma report_scan_room: "length (fst (report_scan limit n t)) \<le> n"
proof (induction t arbitrary: n)
  case (Cons x t)
  obtain p c where x: "x = (p, c)" by (cases x)
  show ?case using Cons [of n] Cons [of "n - 1"] by (auto simp: x split: prod.splits)
qed simp

section \<open>The datagram\<close>

definition report_has :: "LteUlpDataInd \<Rightarrow> UeIdentity list \<Rightarrow> bool" where
  "report_has r ids \<longleftrightarrow> oi_index r = length ids \<and> map (oi_array r) [0..<length ids] = ids \<and>
     oi_length r = 8 + 28 * of_nat (length ids) \<and> length ids \<le> MAX_NUM_UE_INFO_REPORT"

lemma report_has_index: "report_has r ids \<Longrightarrow> oi_index r = length ids" "report_has r ids \<Longrightarrow> length ids \<le> 32"
  by (simp_all add: report_has_def)

lemma report_has_add:
  assumes "report_has r ids" "length ids < 32"
  obtains r' where "add_entry u r = Some r'" "report_has r' (ids @ [u])"
proof -
  let ?r = "r\<lparr>oi_length := oi_length r + 28, oi_index := oi_index r + 1, oi_array := (oi_array r)(oi_index r := u)\<rparr>"
  have "map ((oi_array r)(length ids := u)) [0..<length ids] = map (oi_array r) [0..<length ids]" by (intro map_cong) auto
  then have "report_has ?r (ids @ [u])" using assms by (simp add: report_has_def)
  moreover have "add_entry u r = Some ?r" using assms by (simp add: add_entry_def report_has_def)
  ultimately show thesis by (rule that [rotated])
qed

section \<open>RRC contexts leave or grow older\<close>

lemma get_rrc: "us_heap s p = Some (RrcObj c) \<Longrightarrow> get_obj the_rrc s p = Some c"
  by (simp add: get_obj_def the_rrc_def)

lemma rrc_ctx_eq: "us_heap s p = Some (RrcObj c) \<Longrightarrow> rrc_ctx s p = c"
  by (simp add: rrc_ctx_def get_rrc)

lemma rrc_ctx_same: "us_heap t p = us_heap s p \<Longrightarrow> rrc_ctx t p = rrc_ctx s p"
  by (simp add: rrc_ctx_def get_obj_def)

text \<open>Only RRC contexts have changed, and nothing has been sent.\<close>

definition rrc_only :: "ulp_state \<Rightarrow> ulp_state \<Rightarrow> bool" where
  "rrc_only s s' \<longleftrightarrow> eff {} {} [] s s' \<and> us_trace s' = us_trace s"

lemma rrc_onlyD: "rrc_only s s' \<Longrightarrow> eff {} {} [] s s'" "rrc_only s s' \<Longrightarrow> rrc_ok s'" "rrc_only s s' \<Longrightarrow> us_trace s' = us_trace s"
    "rrc_only s s' \<Longrightarrow> gMacUeContext s' = gMacUeContext s"
  by (auto simp: rrc_only_def eff_def)

lemma rrc_only_refl: "rrc_ok s \<Longrightarrow> rrc_only s s"
  by (simp add: rrc_only_def eff_refl)

lemma rrc_only_trans: "rrc_only s t \<Longrightarrow> rrc_only t u \<Longrightarrow> rrc_only s u"
  using eff_trans [of "{}" "{}" "[]" s t "{}" "{}" "[]" u] by (simp add: rrc_only_def)

lemma rrc_gone:
  assumes ok: "rrc_ok s" and c: "us_heap s p = Some (RrcObj c)"
    and t: "t = s\<lparr>us_heap := (us_heap s)(p \<mapsto> x), gRrcUeContextList := remove1 p (gRrcUeContextList s),
      gReadyRrcUeContextList := remove1 p (gReadyRrcUeContextList s)\<rparr>"
  obtains s' where "us_free t p = Some s'" "rrc_only s s'" "us_heap s' = (us_heap s)(p := None)"
    "gRrcUeContextList s' = remove1 p (gRrcUeContextList s)" "gReadyRrcUeContextList s' = remove1 p (gReadyRrcUeContextList s)"
proof -
  note h = rrc_okD(1) [OF ok]
  have live: "p \<in> live (us_mem s)" by (rule heap_live [OF h c])
  have "heap_ok t" "p \<in> live (us_mem t)" using h live by (auto simp: t heap_ok_def)
  then obtain m where m: "us_free t p = Some (t\<lparr>us_mem := m, us_heap := (us_heap t)(p := None)\<rparr>)"
    "mem_inv m" "live m = live (us_mem s) - {p}" "mem_kept (live (us_mem s) - {p}) (us_mem s) m"
    using us_free_live [of t p] by (auto simp: t)
  let ?s = "t\<lparr>us_mem := m, us_heap := (us_heap t)(p := None)\<rparr>"
  have heap: "us_heap ?s = (us_heap s)(p := None)" by (simp add: t)
  have "heap_ok ?s" using h m(2,3) by (auto simp: heap_ok_def t dom_def)
  moreover have d: "distinct (gRrcUeContextList s @ gReadyRrcUeContextList s)" by (rule rrc_okD(2) [OF ok])
  then have "distinct (gRrcUeContextList ?s @ gReadyRrcUeContextList ?s)"
    by (auto simp: t dest: notin_set_remove1 in_set_remove1)
  moreover have "set (gRrcUeContextList ?s @ gReadyRrcUeContextList ?s) = {q. \<exists>c. us_heap ?s q = Some (RrcObj c)}"
    using rrc_okD(3) [OF ok] d by (auto simp: t)
  ultimately have "rrc_ok ?s"
    using rrc_okD(4,5) [OF ok] d unfolding rrc_ok_def heap by (auto simp: t)
  moreover have "own ?s = own s" using m(3) c by (auto simp: own_def heap)
  moreover have "mem_kept (own s) (us_mem s) (us_mem ?s)" using m(4) c by (auto simp: mem_kept_def own_def)
  moreover have "us_heap ?s q = us_heap s q" if "q \<in> own s" for q using that c by (auto simp: heap own_def)
  moreover have "rlc_log ?s = rlc_log s" by (simp add: t rlc_log_def)
  ultimately have "eff {} {} [] s ?s" by (simp add: eff_def) (simp add: t)
  then have "rrc_only s ?s" by (simp add: rrc_only_def) (simp add: t)
  then show thesis by (intro that [OF m(1)]) (simp_all add: heap, simp_all add: t)
qed

lemma rrc_aged:
  assumes ok: "rrc_ok s" and c: "us_heap s p = Some (RrcObj c)"
  shows "RrcUpdateUeContextTime s p 1 = Some (put_obj p (RrcObj (rrc_older c)) s)"
    "rrc_only s (put_obj p (RrcObj (rrc_older c)) s)"
proof -
  let ?s = "put_obj p (RrcObj (rrc_older c)) s"
  have "p \<noteq> NULL" by (rule heap_nonnull [OF rrc_okD(1) [OF ok] c])
  then show "RrcUpdateUeContextTime s p 1 = Some ?s"
    using get_rrc [OF c] by (simp add: RrcUpdateUeContextTime_def rrc_older_def)
  have "heap_ok ?s" by (rule heap_ok_put [OF rrc_okD(1) [OF ok] heap_live [OF rrc_okD(1) [OF ok] c]])
  then have "rrc_ok ?s"
    using ok c by (auto simp: rrc_ok_def has_identity_def rrc_older_def)
  moreover have "own ?s = own s" using c by (auto simp: own_def)
  moreover have "us_heap ?s q = us_heap s q" if "q \<in> own s" for q using that c by (auto simp: own_def)
  moreover have "rlc_log ?s = rlc_log s" by (simp add: rlc_log_def)
  ultimately show "rrc_only s ?s" by (simp add: rrc_only_def eff_def)
qed

section \<open>The loops over the RRC contexts\<close>

lemma report_ready_run:
  assumes "rrc_ok s" "report_has r ids" "length ids < 32" "n = length (gReadyRrcUeContextList s)"
  shows "\<exists>r' s'. report_ready n r s = Some (r', s') \<and>
    report_has r' (ids @ map reported_identity (take (32 - length ids) (rrc_waiting s))) \<and> rrc_only s s' \<and>
    gReadyRrcUeContextList s' = drop (32 - length ids) (gReadyRrcUeContextList s) \<and>
    gRrcUeContextList s' = gRrcUeContextList s \<and> (\<forall>q\<in>set (gRrcUeContextList s). us_heap s' q = us_heap s q)"
  using assms
proof (induction n arbitrary: r s ids)
  case 0
  then show ?case using rrc_only_refl by (simp add: rrc_waiting_def)
next
  case (Suc n)
  note ok = Suc.prems(1)
  obtain p ps where pps: "gReadyRrcUeContextList s = p # ps" using Suc.prems(4) by (cases "gReadyRrcUeContextList s") auto
  obtain c where c: "us_heap s p = Some (RrcObj c)" using rrc_okD(3) [OF ok, of p] pps by auto
  have id: "has_identity c" by (rule rrc_okD(5) [OF ok _ c]) (simp add: pps)
  have pn: "p \<notin> set (gRrcUeContextList s)" "p \<notin> set ps" "distinct ps" using rrc_okD(2) [OF ok] pps by auto
  let ?t = "s\<lparr>gReadyRrcUeContextList := ps\<rparr>"
  have t: "?t = s\<lparr>us_heap := (us_heap s)(p \<mapsto> RrcObj c), gRrcUeContextList := remove1 p (gRrcUeContextList s),
      gReadyRrcUeContextList := remove1 p (gReadyRrcUeContextList s)\<rparr>"
    using pps pn fun_upd_triv [of "us_heap s" p] c by (simp add: remove1_idem)
  obtain s1 where s1: "us_free ?t p = Some s1" "rrc_only s s1" "us_heap s1 = (us_heap s)(p := None)"
    "gRrcUeContextList s1 = gRrcUeContextList s" "gReadyRrcUeContextList s1 = ps"
    using rrc_gone [OF ok c t] pps pn by (metis remove1.simps(2) remove1_idem)
  obtain r1 where r1: "add_entry (reported_identity c) r = Some r1" "report_has r1 (ids @ [reported_identity c])"
    by (rule report_has_add [OF Suc.prems(2,3)])
  have w: "rrc_waiting s = c # rrc_waiting s1"
  proof -
    have "rrc_ctx s1 q = rrc_ctx s q" if "q \<in> set ps" for q using that pn(2) by (intro rrc_ctx_same) (auto simp: s1(3))
    then show ?thesis by (simp add: rrc_waiting_def pps s1(5) rrc_ctx_eq [OF c])
  qed
  have g: "get_obj the_rrc ?t p = Some c" using c by (simp add: get_obj_def the_rrc_def)
  have idx: "oi_index r1 = Suc (length ids)" using report_has_index(1) [OF r1(2)] by simp
  have keep: "\<forall>q\<in>set (gRrcUeContextList s). us_heap s1 q = us_heap s q" using pn(1) by (auto simp: s1(3))
  show ?case
  proof (cases "Suc (length ids) = 32")
    case True
    have "report_ready (Suc n) r s = Some (r1, s1)" using pps g id r1(1) s1(1) idx True by simp
    moreover have "ids @ map reported_identity (take (32 - length ids) (rrc_waiting s)) = ids @ [reported_identity c]"
      using True by (simp add: w numeral_eq_Suc)
    moreover have "drop (32 - length ids) (gReadyRrcUeContextList s) = ps" using True by (simp add: pps numeral_eq_Suc)
    ultimately show ?thesis using r1(2) s1 keep by auto
  next
    case False
    then have n: "32 - length ids = Suc (32 - length (ids @ [reported_identity c]))" "length (ids @ [reported_identity c]) < 32"
      using Suc.prems(3) by simp_all
    have run: "report_ready (Suc n) r s = report_ready n r1 s1" using pps g id r1(1) s1(1) idx False by simp
    have "n = length (gReadyRrcUeContextList s1)" using Suc.prems(4) by (simp add: pps s1(5))
    from Suc.IH [OF rrc_onlyD(2) [OF s1(2)] r1(2) n(2) this] obtain r' s' where s': "report_ready n r1 s1 = Some (r', s')"
      "report_has r' ((ids @ [reported_identity c]) @ map reported_identity (take (32 - length (ids @ [reported_identity c])) (rrc_waiting s1)))"
      "rrc_only s1 s'" "gReadyRrcUeContextList s' = drop (32 - length (ids @ [reported_identity c])) (gReadyRrcUeContextList s1)"
      "gRrcUeContextList s' = gRrcUeContextList s1" "\<forall>q\<in>set (gRrcUeContextList s1). us_heap s' q = us_heap s1 q" by blast
    have "ids @ map reported_identity (take (32 - length ids) (rrc_waiting s)) =
        (ids @ [reported_identity c]) @ map reported_identity (take (32 - length (ids @ [reported_identity c])) (rrc_waiting s1))"
      unfolding n(1) w by simp
    moreover have "drop (32 - length ids) (gReadyRrcUeContextList s) = drop (32 - length (ids @ [reported_identity c])) ps"
      unfolding n(1) pps by simp
    ultimately show ?thesis using s' run rrc_only_trans [OF s1(2) s'(3)] keep s1(4,5) by simp
  qed
qed

text \<open>The contexts \<open>ps\<close> at the end of the table are visited.\<close>

lemma report_rrc_run:
  assumes "rrc_ok s" "report_has r ids" "gRrcUeContextList s = pre @ ps"
    and "report_scan limit (32 - length ids) (map (\<lambda>p. (p, rrc_ctx s p)) ps) = (rep, kept)"
  shows "\<exists>r' s'. report_rrc limit ps r s = Some (r', s') \<and> report_has r' (ids @ map reported_identity rep) \<and>
    rrc_only s s' \<and> gReadyRrcUeContextList s' = gReadyRrcUeContextList s \<and> gRrcUeContextList s' = pre @ map fst kept \<and>
    map (\<lambda>p. (p, rrc_ctx s' p)) (map fst kept) = kept \<and> (\<forall>q. q \<notin> set ps \<longrightarrow> us_heap s' q = us_heap s q) \<and>
    set (map fst kept) \<subseteq> set ps"
  using assms
proof (induction ps arbitrary: r s ids pre rep kept)
  case Nil
  then show ?case using rrc_only_refl by auto
next
  case (Cons p ps)
  note ok = Cons.prems(1)
  have d: "distinct (pre @ p # ps)" "distinct (gRrcUeContextList s @ gReadyRrcUeContextList s)"
    using rrc_okD(2) [OF ok] Cons.prems(3) by auto
  have pt: "p \<in> set (gRrcUeContextList s)" by (simp add: Cons.prems(3))
  obtain c where c: "us_heap s p = Some (RrcObj c)" using rrc_okD(3) [OF ok, of p] pt by auto
  have idx: "oi_index r < 32 \<longleftrightarrow> 0 < 32 - length ids" using report_has_index(1) [OF Cons.prems(2)] by auto
  have nn: "p \<noteq> NULL" by (rule heap_nonnull [OF rrc_okD(1) [OF ok] c])
  show ?case
  proof (cases "0 < 32 - length ids \<and> rrc_due limit c")
    case True
    let ?s0 = "put_obj p (RrcObj (c\<lparr>rr_deleteFlag := 1\<rparr>)) s"
    let ?t = "?s0\<lparr>gRrcUeContextList := remove1 p (gRrcUeContextList ?s0)\<rparr>"
    have t: "?t = s\<lparr>us_heap := (us_heap s)(p \<mapsto> RrcObj (c\<lparr>rr_deleteFlag := 1\<rparr>)), gRrcUeContextList := remove1 p (gRrcUeContextList s),
        gReadyRrcUeContextList := remove1 p (gReadyRrcUeContextList s)\<rparr>"
    proof -
      have "p \<notin> set (gReadyRrcUeContextList s)" using d(2) pt by auto
      then show ?thesis by (simp add: put_obj_def remove1_idem)
    qed
    obtain s1 where s1: "us_free ?t p = Some s1" "rrc_only s s1" "us_heap s1 = (us_heap s)(p := None)"
      "gRrcUeContextList s1 = remove1 p (gRrcUeContextList s)" "gReadyRrcUeContextList s1 = remove1 p (gReadyRrcUeContextList s)"
      by (rule rrc_gone [OF ok c t])
    have list: "gRrcUeContextList s1 = pre @ ps" "gReadyRrcUeContextList s1 = gReadyRrcUeContextList s"
      using d pt by (auto simp: s1(4,5) Cons.prems(3) remove1_append remove1_idem)
    have del: "RrcDeleteUeContext ?s0 p = Some s1" using s1(1) nn by (simp add: RrcDeleteUeContext_def get_obj_def the_rrc_def)
    have ctx: "map (\<lambda>p. (p, rrc_ctx s p)) ps = map (\<lambda>p. (p, rrc_ctx s1 p)) ps"
      using d(1) by (intro map_cong refl) (auto simp: s1(3) intro!: rrc_ctx_same [symmetric])
    obtain r1 us where r1: "(if has_identity c then add_entry (reported_identity c) r else Some r) = Some r1"
      "report_has r1 (ids @ us)" "us = (if has_identity c then [reported_identity c] else [])"
    proof (cases "has_identity c")
      case True
      have "length ids < 32" using \<open>0 < 32 - length ids \<and> rrc_due limit c\<close> by simp
      from report_has_add [OF Cons.prems(2) this] show thesis using True that by metis
    next
      case False
      then show thesis using that [of r "[]"] Cons.prems(2) by simp
    qed
    obtain rep1 where scan: "report_scan limit (32 - length (ids @ us)) (map (\<lambda>p. (p, rrc_ctx s1 p)) ps) = (rep1, kept)"
      "ids @ map reported_identity rep = (ids @ us) @ map reported_identity rep1"
      using Cons.prems(4) True unfolding ctx [symmetric] by (auto simp: rrc_ctx_eq [OF c] r1(3) split: if_splits prod.splits)
    from Cons.IH [OF rrc_onlyD(2) [OF s1(2)] r1(2) list(1) scan(1)] obtain r' s' where
      s': "report_rrc limit ps r1 s1 = Some (r', s')" "report_has r' ((ids @ us) @ map reported_identity rep1)" "rrc_only s1 s'"
      "gReadyRrcUeContextList s' = gReadyRrcUeContextList s1" "gRrcUeContextList s' = pre @ map fst kept"
      "map (\<lambda>p. (p, rrc_ctx s' p)) (map fst kept) = kept" "\<forall>q. q \<notin> set ps \<longrightarrow> us_heap s' q = us_heap s1 q"
      "set (map fst kept) \<subseteq> set ps" by blast
    have "report_rrc limit (p # ps) r s = Some (r', s')"
      using True idx s'(1) r1(1) del by (simp add: get_rrc [OF c] RrcUpdateUeContextTime_def)
    moreover have "\<forall>q. q \<notin> set (p # ps) \<longrightarrow> us_heap s' q = us_heap s q" using s'(7) by (simp add: s1(3))
    ultimately show ?thesis
      using s' rrc_only_trans [OF s1(2) s'(3)] list(2) unfolding scan(2) by auto
  next
    case False
    let ?s1 = "put_obj p (RrcObj (rrc_older c)) s"
    note age = rrc_aged [OF ok c]
    obtain kept1 where scan: "report_scan limit (32 - length ids) (map (\<lambda>p. (p, rrc_ctx s p)) ps) = (rep, kept1)"
      "kept = (p, rrc_older c) # kept1"
      using Cons.prems(4) False by (auto simp: rrc_ctx_eq [OF c] split: prod.splits)
    have ctx: "map (\<lambda>p. (p, rrc_ctx ?s1 p)) ps = map (\<lambda>p. (p, rrc_ctx s p)) ps"
      using d(1) by (intro map_cong refl) (auto intro!: rrc_ctx_same)
    have list: "gRrcUeContextList ?s1 = (pre @ [p]) @ ps" using Cons.prems(3) by simp
    from Cons.IH [OF rrc_onlyD(2) [OF age(2)] Cons.prems(2) list, of rep kept1] obtain r' s' where
      s': "report_rrc limit ps r ?s1 = Some (r', s')" "report_has r' (ids @ map reported_identity rep)" "rrc_only ?s1 s'"
      "gReadyRrcUeContextList s' = gReadyRrcUeContextList s" "gRrcUeContextList s' = (pre @ [p]) @ map fst kept1"
      "map (\<lambda>p. (p, rrc_ctx s' p)) (map fst kept1) = kept1" "\<forall>q. q \<notin> set ps \<longrightarrow> us_heap s' q = us_heap ?s1 q"
      "set (map fst kept1) \<subseteq> set ps" using scan(1) ctx by auto
    have "report_rrc limit (p # ps) r s = report_rrc limit ps r ?s1"
      using False idx age(1) by (auto simp: get_rrc [OF c])
    moreover have "us_heap s' p = Some (RrcObj (rrc_older c))" using s'(7) d(1) by simp
    then have "rrc_ctx s' p = rrc_older c" by (rule rrc_ctx_eq)
    moreover have "\<forall>q. q \<notin> set (p # ps) \<longrightarrow> us_heap s' q = us_heap s q" using s'(7) by simp
    ultimately show ?thesis
      using s' rrc_only_trans [OF age(2) s'(3)] scan(2) by auto
  qed
qed

section \<open>The loop over the MAC contexts\<close>

lemma mac_ctx_eq: "us_heap s p = Some (MacObj c) \<Longrightarrow> mac_ctx s p = c"
  by (simp add: mac_ctx_def get_mac)

definition mac_expired :: "u32 \<Rightarrow> ulp_state \<Rightarrow> ptr \<Rightarrow> bool" where
  "mac_expired limit s p \<longleftrightarrow> mc_idleCount (mac_ctx s p) \<ge> limit"

lemma mac_aged:
  assumes ok: "rrc_ok s" and c: "us_heap s p = Some (MacObj c)"
  shows "MacUpdateUeContextTime s p 1 = Some (put_obj p (MacObj (mac_older c)) s)"
    "eff {p} {p} [] s (put_obj p (MacObj (mac_older c)) s)"
proof -
  have "p \<noteq> NULL" by (rule heap_nonnull [OF rrc_okD(1) [OF ok] c])
  then show "MacUpdateUeContextTime s p 1 = Some (put_obj p (MacObj (mac_older c)) s)"
    using get_mac [OF c] by (simp add: MacUpdateUeContextTime_def mac_older_def)
  show "eff {p} {p} [] s (put_obj p (MacObj (mac_older c)) s)" by (rule eff_put [OF ok c]) simp_all
qed

text \<open>Nothing is due, or there is no room: every context grows older.\<close>

lemma report_mac_run:
  assumes "rrc_ok s" "distinct ps" "\<forall>p\<in>set ps. \<exists>c. us_heap s p = Some (MacObj c)"
    and "\<forall>p\<in>set ps. \<not> (oi_index r < 32 \<and> mac_expired limit s p)"
  shows "\<exists>s'. report_mac limit ps r s = Some (r, s') \<and> eff (set ps) (set ps) [] s s' \<and> us_trace s' = us_trace s \<and>
    (\<forall>p\<in>set ps. us_heap s' p = Some (MacObj (mac_older (mac_ctx s p)))) \<and> (\<forall>q. q \<notin> set ps \<longrightarrow> us_heap s' q = us_heap s q) \<and>
    gRrcUeContextList s' = gRrcUeContextList s \<and> gReadyRrcUeContextList s' = gReadyRrcUeContextList s"
  using assms
proof (induction ps arbitrary: s)
  case Nil
  then show ?case using eff_refl by simp
next
  case (Cons p ps)
  obtain c where c: "us_heap s p = Some (MacObj c)" using Cons.prems(3) by auto
  let ?s1 = "put_obj p (MacObj (mac_older c)) s"
  note age = mac_aged [OF Cons.prems(1) c]
  have same: "us_heap ?s1 q = us_heap s q" "mac_ctx ?s1 q = mac_ctx s q" if "q \<in> set ps" for q
    using that Cons.prems(2) by (auto simp: mac_ctx_def get_obj_def)
  have "\<exists>s'. report_mac limit ps r ?s1 = Some (r, s') \<and> eff (set ps) (set ps) [] ?s1 s' \<and> us_trace s' = us_trace ?s1 \<and>
      (\<forall>p\<in>set ps. us_heap s' p = Some (MacObj (mac_older (mac_ctx ?s1 p)))) \<and> (\<forall>q. q \<notin> set ps \<longrightarrow> us_heap s' q = us_heap ?s1 q) \<and>
      gRrcUeContextList s' = gRrcUeContextList ?s1 \<and> gReadyRrcUeContextList s' = gReadyRrcUeContextList ?s1"
    using Cons.prems(2-4) same by (intro Cons.IH effD(1) [OF age(2)]) (auto simp: mac_expired_def)
  then obtain s' where s': "report_mac limit ps r ?s1 = Some (r, s')" "eff (set ps) (set ps) [] ?s1 s'" "us_trace s' = us_trace s"
    "\<forall>p\<in>set ps. us_heap s' p = Some (MacObj (mac_older (mac_ctx s p)))" "\<forall>q. q \<notin> set ps \<longrightarrow> us_heap s' q = us_heap ?s1 q"
    "gRrcUeContextList s' = gRrcUeContextList s" "gReadyRrcUeContextList s' = gReadyRrcUeContextList s"
    using same(2) by auto
  have nd: "\<not> (oi_index r < 32 \<and> mc_idleCount c \<ge> limit)" using Cons.prems(4) by (auto simp: mac_expired_def mac_ctx_eq [OF c])
  have "report_mac limit (p # ps) r s = Some (r, s')" using nd age(1) s'(1) by (auto simp: get_mac [OF c])
  moreover have "p \<in> own s" by (rule own_obj [OF Cons.prems(1) c]) simp
  then have "eff (set (p # ps)) (set (p # ps)) [] s s'"
    using Cons.prems(2) by (intro eff_comp [OF age(2) s'(2)]) auto
  moreover have "us_heap s' p = Some (MacObj (mac_older (mac_ctx s p)))" using s'(5) Cons.prems(2) by (simp add: mac_ctx_eq [OF c])
  ultimately show ?case using s' by auto
qed

lemma us_free_gone: "us_free s p = Some s' \<Longrightarrow> us_heap s' p = None"
  by (auto simp: us_free_def bind_Some_iff)

text \<open>A context is due: the code reads the context it has released.\<close>

lemma report_mac_stuck:
  assumes "rrc_ok s" "distinct ps" "\<forall>p\<in>set ps. \<exists>c. us_heap s p = Some (MacObj c)"
    and "\<exists>p\<in>set ps. oi_index r < 32 \<and> mac_expired limit s p"
  shows "report_mac limit ps r s = None"
  using assms
proof (induction ps arbitrary: s)
  case (Cons p ps)
  obtain c where c: "us_heap s p = Some (MacObj c)" using Cons.prems(3) by auto
  have nn: "p \<noteq> NULL" by (rule heap_nonnull [OF rrc_okD(1) [OF Cons.prems(1)] c])
  show ?case
  proof (cases "oi_index r < 32 \<and> mc_idleCount c \<ge> limit")
    case True
    let ?s0 = "put_obj p (MacObj (c\<lparr>mc_deleteFlag := 1\<rparr>)) s"
    have "MacUpdateUeContextTime s1 p 1 = None" if "MacDeleteUeContext ?s0 p = Some s1" for s1
    proof -
      have "us_heap s1 p = None" using that nn us_free_gone by (auto simp: MacDeleteUeContext_def bind_Some_iff)
      then show ?thesis using nn by (simp add: MacUpdateUeContextTime_def get_obj_def)
    qed
    then show ?thesis using True
      by (cases "MacDeleteUeContext ?s0 p") (auto simp: get_mac [OF c] add_entry_def)
  next
    case False
    let ?s1 = "put_obj p (MacObj (mac_older c)) s"
    note age = mac_aged [OF Cons.prems(1) c]
    have same: "us_heap ?s1 q = us_heap s q" "mac_ctx ?s1 q = mac_ctx s q" if "q \<in> set ps" for q
      using that Cons.prems(2) by (auto simp: mac_ctx_def get_obj_def)
    have "report_mac limit ps r ?s1 = None"
      using Cons.prems(2-4) same False mac_ctx_eq [OF c] by (intro Cons.IH effD(1) [OF age(2)]) (auto simp: mac_expired_def)
    then show ?thesis using False age(1) by (auto simp: get_mac [OF c])
  qed
qed simp

section \<open>A round\<close>

definition heartbeats :: "OamDatagram \<Rightarrow> OamDatagram \<Rightarrow> ip_event list" where
  "heartbeats test oam =
     (if od_byteRecvd test \<ge> 4 \<and> od_msgType test = 0x80 then [Test_Heartbeat_Resp] else []) @
     (if od_byteRecvd oam \<ge> 4 \<and> od_msgType oam = 0x80 then [Oam_Heartbeat_Resp] else [])"

definition datagram :: "UeIdentity list \<Rightarrow> ip_event list" where
  "datagram ids = (if ids = [] then [] else [Oam_Identities (8 + 28 * of_nat (length ids)) ids])"

text \<open>The state after a round.\<close>

definition round_done :: "ulp_state \<Rightarrow> ulp_state \<Rightarrow> (ptr \<times> RrcUeContext) list \<Rightarrow> ip_event list \<Rightarrow> bool" where
  "round_done s s' kept es \<longleftrightarrow> eff (set (gMacUeContext s)) (set (gMacUeContext s)) [] s s' \<and>
     gReadyRrcUeContextList s' = drop 32 (gReadyRrcUeContextList s) \<and> rrc_table s' = kept \<and>
     mac_ready s' \<and> mac_table s' = map (\<lambda>(p, c). (p, mac_older c)) (mac_table s) \<and> us_trace s' = us_trace s @ es"

lemma oam_heartbeat_same [simp]: "us_heap (oam_heartbeat d a f s) = us_heap s" "us_mem (oam_heartbeat d a f s) = us_mem s"
    "gMacUeContext (oam_heartbeat d a f s) = gMacUeContext s" "gRrcUeContextList (oam_heartbeat d a f s) = gRrcUeContextList s"
    "gReadyRrcUeContextList (oam_heartbeat d a f s) = gReadyRrcUeContextList s"
    "us_trace (oam_heartbeat d a f s) = us_trace s @ (if od_byteRecvd d \<ge> 4 \<and> od_msgType d = 0x80 then [a] else [])"
  by (simp_all add: oam_heartbeat_def)

lemma oam_heartbeat_eff:
  assumes "rrc_ok s" "rlc_sdu a = None"
  shows "eff {} {} [] s (oam_heartbeat d a f s)"
proof (cases "od_byteRecvd d \<ge> 4 \<and> od_msgType d = 0x80")
  case True
  have k: "eff {} {} [] s (kpi f s)" by (rule eff_view [OF assms(1)]) simp
  from eff_then [OF k eff_emit [OF effD(1) [OF k], of a, unfolded assms(2)]] True show ?thesis by (simp add: oam_heartbeat_def)
next
  case False
  then show ?thesis using eff_refl [OF assms(1)] by (auto simp: oam_heartbeat_def)
qed

lemma send_report_same [simp]: "us_heap (send_report r s) = us_heap s" "us_mem (send_report r s) = us_mem s"
    "gMacUeContext (send_report r s) = gMacUeContext s" "gRrcUeContextList (send_report r s) = gRrcUeContextList s"
    "gReadyRrcUeContextList (send_report r s) = gReadyRrcUeContextList s"
  by (simp_all add: send_report_def)

lemma send_report_run:
  assumes "rrc_ok s" "report_has r ids"
  shows "eff {} {} [] s (send_report r s)" "us_trace (send_report r s) = us_trace s @ datagram ids"
proof -
  show "eff {} {} [] s (send_report r s)"
    using eff_emit [OF assms(1), of "Oam_Identities (oi_length r) (map (oi_array r) [0..<oi_index r])"] eff_refl [OF assms(1)]
    by (simp add: send_report_def)
  show "us_trace (send_report r s) = us_trace s @ datagram ids"
    using assms(2) by (auto simp: send_report_def report_has_def datagram_def)
qed

lemma rrc_only_mac:
  assumes "rrc_only s t" "p \<in> set (gMacUeContext s)" "us_heap s p = Some (MacObj c)" "rrc_ok s"
  shows "us_heap t p = Some (MacObj c)"
  by (rule eff_obj [OF rrc_onlyD(1) [OF assms(1)] assms(3)]) (use assms(4) in simp_all)

lemma oam_round_run:
  fixes s0 :: ulp_state
  assumes ok: "rrc_ok s0" and mac: "distinct (gMacUeContext s0)" "mac_ready s0"
    and scan: "report_scan limit (32 - length (take 32 (rrc_waiting s0))) (rrc_table s0) = (rep, kept)"
    and ids: "ids = map reported_identity (take 32 (rrc_waiting s0) @ rep)"
  shows "if length ids < 32 \<and> (\<exists>p\<in>set (gMacUeContext s0). mac_expired mac_limit s0 p)
    then UlpRecvAndHandleOamData limit mac_limit test oam stack s0 = None
    else \<exists>s'. UlpRecvAndHandleOamData limit mac_limit test oam stack s0 = Some s' \<and>
      round_done s0 s' kept (heartbeats test oam @ datagram ids)"
proof -
  let ?k = "\<lambda>k :: LteKpi. k\<lparr>k_heartbeatResp := k_heartbeatResp k + 1\<rparr>"
  let ?h = "oam_heartbeat test Test_Heartbeat_Resp ?k s0"
  let ?s = "oam_heartbeat oam Oam_Heartbeat_Resp id ?h"
  have e1: "eff {} {} [] s0 ?h" by (rule oam_heartbeat_eff [OF ok]) simp
  have e0: "eff {} {} [] s0 ?s" using eff_then [OF e1 oam_heartbeat_eff [OF effD(1) [OF e1]]] by simp
  note ok1 = effD(1) [OF e0]
  have same: "rrc_waiting ?s = rrc_waiting s0" "rrc_table ?s = rrc_table s0" "us_trace ?s = us_trace s0 @ heartbeats test oam"
    by (simp_all add: rrc_waiting_def rrc_table_def rrc_ctx_def get_obj_def heartbeats_def)
  let ?r0 = "\<lparr>oi_length = 4 + 4, oi_index = 0, oi_array = stack\<rparr>"
  have r0: "report_has ?r0 []" by (simp add: report_has_def)
  \<comment> \<open>the contexts put aside\<close>
  obtain r1 s1 where s1: "report_ready (length (gReadyRrcUeContextList ?s)) ?r0 ?s = Some (r1, s1)"
    "report_has r1 (map reported_identity (take 32 (rrc_waiting s0)))" "rrc_only ?s s1"
    "gReadyRrcUeContextList s1 = drop 32 (gReadyRrcUeContextList s0)" "gRrcUeContextList s1 = gRrcUeContextList s0"
    "\<forall>q\<in>set (gRrcUeContextList s0). us_heap s1 q = us_heap s0 q"
    using report_ready_run [OF ok1 r0 _ refl] same(1) by auto
  \<comment> \<open>the table\<close>
  have "map (\<lambda>p. (p, rrc_ctx s1 p)) (gRrcUeContextList s0) = rrc_table s0"
    unfolding rrc_table_def using s1(6) by (intro map_cong refl) (auto intro: rrc_ctx_same)
  then have sc: "report_scan limit (32 - length (map reported_identity (take 32 (rrc_waiting s0))))
      (map (\<lambda>p. (p, rrc_ctx s1 p)) (gRrcUeContextList s0)) = (rep, kept)" using scan by simp
  have l1: "gRrcUeContextList s1 = [] @ gRrcUeContextList s0" using s1(5) by simp
  obtain r2 s2 where s2: "report_rrc limit (gRrcUeContextList s0) r1 s1 = Some (r2, s2)" "report_has r2 ids" "rrc_only s1 s2"
    "gReadyRrcUeContextList s2 = gReadyRrcUeContextList s1" "gRrcUeContextList s2 = map fst kept"
    "map (\<lambda>p. (p, rrc_ctx s2 p)) (map fst kept) = kept"
    using report_rrc_run [OF rrc_onlyD(2) [OF s1(3)] s1(2) l1 sc] by (auto simp: ids)
  have guard: "(if length (gRrcUeContextList s1) > 0 then report_rrc limit (gRrcUeContextList s1) r1 s1 else Some (r1, s1)) = Some (r2, s2)"
    using s1(5) s2(1) by (cases "gRrcUeContextList s0") simp_all
  have o2: "rrc_only ?s s2" by (rule rrc_only_trans [OF s1(3) s2(3)])
  note ok2 = rrc_onlyD(2) [OF s2(3)]
  have e2: "eff {} {} [] s0 s2" using eff_then [OF e0 rrc_onlyD(1) [OF o2]] by simp
  have list: "gMacUeContext s2 = gMacUeContext s0" by (rule effD(6) [OF e2])
  \<comment> \<open>the contexts of the MAC\<close>
  have m2: "us_heap s2 p = us_heap s0 p" "\<exists>c. us_heap s2 p = Some (MacObj c)" if p: "p \<in> set (gMacUeContext s0)" for p
  proof -
    obtain c where c: "us_heap s0 p = Some (MacObj c)" using mac(2) p by (auto simp: mac_ready_def)
    have "us_heap s2 p = Some (MacObj c)" by (rule eff_obj [OF e2 c _ _ ok]) simp_all
    with c show "us_heap s2 p = us_heap s0 p" "\<exists>c. us_heap s2 p = Some (MacObj c)" by simp_all
  qed
  have x2: "mac_expired l s2 p = mac_expired l s0 p" "mac_ctx s2 p = mac_ctx s0 p" if "p \<in> set (gMacUeContext s0)" for l p
    using m2(1) [OF that] by (simp_all add: mac_expired_def mac_ctx_def get_obj_def)
  have idx: "oi_index r2 = length ids" by (rule report_has_index(1) [OF s2(2)])
  have guard2: "(if length (gMacUeContext s2) > 0 then report_mac mac_limit (gMacUeContext s2) r2 s2 else Some (r2, s2)) =
      report_mac mac_limit (gMacUeContext s0) r2 s2" by (cases "gMacUeContext s0") (simp_all add: list del: report_mac.simps(2))
  have run: "UlpRecvAndHandleOamData limit mac_limit test oam stack s0 =
      report_mac mac_limit (gMacUeContext s0) r2 s2 \<bind> (\<lambda>(r, s). Some (send_report r s))"
    unfolding guard2 [symmetric] using s1(1) guard by (simp add: UlpRecvAndHandleOamData_def del: oam_heartbeat_same)
  show ?thesis
  proof (cases "length ids < 32 \<and> (\<exists>p\<in>set (gMacUeContext s0). mac_expired mac_limit s0 p)")
    case True
    then have "report_mac mac_limit (gMacUeContext s0) r2 s2 = None"
      using mac(1) m2(2) x2(1) idx by (intro report_mac_stuck [OF ok2]) auto
    then show ?thesis using True run by auto
  next
    case False
    have "\<exists>s'. report_mac mac_limit (gMacUeContext s0) r2 s2 = Some (r2, s') \<and>
        eff (set (gMacUeContext s0)) (set (gMacUeContext s0)) [] s2 s' \<and> us_trace s' = us_trace s2 \<and>
        (\<forall>p\<in>set (gMacUeContext s0). us_heap s' p = Some (MacObj (mac_older (mac_ctx s2 p)))) \<and>
        (\<forall>q. q \<notin> set (gMacUeContext s0) \<longrightarrow> us_heap s' q = us_heap s2 q) \<and>
        gRrcUeContextList s' = gRrcUeContextList s2 \<and> gReadyRrcUeContextList s' = gReadyRrcUeContextList s2"
      using mac(1) m2(2) x2(1) idx False by (intro report_mac_run [OF ok2]) auto
    then obtain s3 where s3: "report_mac mac_limit (gMacUeContext s0) r2 s2 = Some (r2, s3)"
      "eff (set (gMacUeContext s0)) (set (gMacUeContext s0)) [] s2 s3" "us_trace s3 = us_trace s2"
      "\<forall>p\<in>set (gMacUeContext s0). us_heap s3 p = Some (MacObj (mac_older (mac_ctx s0 p)))"
      "\<forall>q. q \<notin> set (gMacUeContext s0) \<longrightarrow> us_heap s3 q = us_heap s2 q"
      "gRrcUeContextList s3 = gRrcUeContextList s2" "gReadyRrcUeContextList s3 = gReadyRrcUeContextList s2"
      using x2(2) by auto
    note send = send_report_run [OF effD(1) [OF s3(2)] s2(2)]
    let ?s' = "send_report r2 s3"
    have res: "UlpRecvAndHandleOamData limit mac_limit test oam stack s0 = Some ?s'"
      using run s3(1) by simp
    have "eff (set (gMacUeContext s0)) (set (gMacUeContext s0)) [] s0 s3" by (rule eff_comp [OF e2 s3(2)]) auto
    from eff_then [OF this send(1)] have e: "eff (set (gMacUeContext s0)) (set (gMacUeContext s0)) [] s0 ?s'" by simp
    have tab: "rrc_table ?s' = kept"
    proof -
      have rr: "rrc_ctx ?s' p = rrc_ctx s2 p" if "p \<in> set (gRrcUeContextList s2)" for p
      proof -
        have "p \<notin> set (gMacUeContext s0)" using that rrc_okD(3) [OF ok2, of p] m2(2) [of p] by auto
        then show ?thesis using s3(5) by (intro rrc_ctx_same) simp
      qed
      have "rrc_table ?s' = map (\<lambda>p. (p, rrc_ctx s2 p)) (gRrcUeContextList s2)"
        unfolding rrc_table_def send_report_same s3(6) using rr by (intro map_cong refl) auto
      then show ?thesis unfolding s2(5) using s2(6) by (rule trans)
    qed
    have "mac_table ?s' = map (\<lambda>(p, c). (p, mac_older c)) (mac_table s0)"
      using s3(4) effD(6) [OF e] by (auto simp: mac_table_def mac_ctx_def get_obj_def the_mac_def)
    moreover have "us_trace ?s' = us_trace s0 @ heartbeats test oam @ datagram ids"
      using send(2) s3(3) rrc_onlyD(3) [OF o2] same(3) by simp
    moreover have "gReadyRrcUeContextList ?s' = drop 32 (gReadyRrcUeContextList s0)" using s3(7) s2(4) s1(4) by simp
    moreover have "mac_ready ?s'" using s3(4) effD(6) [OF e] by (auto simp: mac_ready_def)
    ultimately have "round_done s0 ?s' kept (heartbeats test oam @ datagram ids)" using e tab by (simp add: round_done_def)
    with res False show ?thesis by auto
  qed
qed

section \<open>Rounds keep the invariants of all layers\<close>

definition round_ok :: "ulp_state \<Rightarrow> bool" where
  "round_ok s \<longleftrightarrow> rlc_ok s \<and> mac_ok s"

lemma round_okD: "round_ok s \<Longrightarrow> rlc_ok s" "round_ok s \<Longrightarrow> rrc_ok s" "round_ok s \<Longrightarrow> mac_ready s" "round_ok s \<Longrightarrow> distinct (gMacUeContext s)"
    "round_ok s \<Longrightarrow> mac_ok s"
  using rlc_okD(1) mac_okD by (auto simp: round_ok_def mac_ready_def)

lemma round_done_ok:
  assumes ok: "round_ok s" and r: "round_done s s' kept es"
  shows "round_ok s'" "rlc_blocks s' = rlc_blocks s" "own s' = own s" "rlc_log s' = rlc_log s"
    "k < MAX_LC_ID \<Longrightarrow> rx_of s' q k = rx_of s q k"
proof -
  let ?M = "set (gMacUeContext s)"
  have e: "eff ?M ?M [] s s'" and m: "mac_ready s'" using r by (simp_all add: round_done_def)
  have "?M \<inter> rlc_blocks s = {}" using mac_blocks [OF round_okD(1,3) [OF ok]] by blast
  note out = rlc_outside [OF round_okD(1) [OF ok] e this]
  have sub: "?M \<subseteq> own s"
  proof
    fix p assume "p \<in> ?M"
    then obtain c where c: "us_heap s p = Some (MacObj c)" using round_okD(3) [OF ok] by (auto simp: mac_ready_def)
    show "p \<in> own s" by (rule own_obj [OF round_okD(2) [OF ok] c]) simp
  qed
  then show own: "own s' = own s" using effD(2) [OF e] by auto
  have list: "gMacUeContext s' = gMacUeContext s" by (rule effD(6) [OF e])
  have "set (gMacUeContext s') = {p. \<exists>c. us_heap s' p = Some (MacObj c)}"
  proof (intro equalityI subsetI)
    fix p assume "p \<in> set (gMacUeContext s')"
    then show "p \<in> {p. \<exists>c. us_heap s' p = Some (MacObj c)}" using m by (auto simp: mac_ready_def)
  next
    fix p assume "p \<in> {p. \<exists>c. us_heap s' p = Some (MacObj c)}"
    then obtain c where c: "us_heap s' p = Some (MacObj c)" by auto
    have "p \<in> own s'" by (rule own_obj [OF effD(1) [OF e] c]) simp
    then have "us_heap s p = Some (MacObj c)" if "p \<notin> set (gMacUeContext s)" using that c own effD(5) [OF e, of p] by simp
    then show "p \<in> set (gMacUeContext s')" using list mac_okD(3) [OF round_okD(5) [OF ok], of p] by auto
  qed
  then have "mac_ok s'" using rrc_okD(1) [OF effD(1) [OF e]] round_okD(4) [OF ok] by (simp add: mac_ok_def list)
  with out(1) show "round_ok s'" by (simp add: round_ok_def)
  show "rlc_blocks s' = rlc_blocks s" by (rule out(4))
  show "rlc_log s' = rlc_log s" using effD(9) [OF e] by simp
  show "k < MAX_LC_ID \<Longrightarrow> rx_of s' q k = rx_of s q k" by (rule out(2))
qed

text \<open>
  C4. One round of the worker's OAM side refines its specification.  With \<open>ids\<close> the identities
  of the first 32 contexts the RRC has put aside and of the contexts of the table that are due,
  as far as there is room: the round sends the heartbeat answers and, if \<open>ids\<close> is not empty, one
  datagram with exactly \<open>ids\<close> and the right length field; it releases the reported contexts, the
  others of the table grow older, and so do all MAC contexts; nothing the RLC sees changes and
  the invariants of all layers hold again.  There is one exception, which is stated exactly: when there is
  room left and a MAC context has expired, the behaviour is undefined, because the code goes on
  to use the context it has released.
\<close>

theorem oam_round_refines:
  assumes "rlc_ok s" "mac_ok s"
  shows "let (rep, kept) = report_scan gMaxRrcCtxIdleCount (32 - length (take 32 (rrc_waiting s))) (rrc_table s);
      ids = map reported_identity (take 32 (rrc_waiting s) @ rep)
    in length ids \<le> 32 \<and>
      (if length ids < 32 \<and> (\<exists>(p, c)\<in>set (mac_table s). mc_idleCount c \<ge> gMaxIdleCount)
       then UlpRecvAndHandleOamData gMaxRrcCtxIdleCount gMaxIdleCount test oam stack s = None
       else \<exists>s'. UlpRecvAndHandleOamData gMaxRrcCtxIdleCount gMaxIdleCount test oam stack s = Some s' \<and>
         us_trace s' = us_trace s @ heartbeats test oam @ datagram ids \<and>
         gReadyRrcUeContextList s' = drop 32 (gReadyRrcUeContextList s) \<and> rrc_table s' = kept \<and>
         mac_table s' = map (\<lambda>(p, c). (p, mac_older c)) (mac_table s) \<and>
         rlc_ok s' \<and> mac_ok s' \<and> own s' = own s \<and> (\<forall>q. \<forall>k<MAX_LC_ID. rx_of s' q k = rx_of s q k))"
proof -
  have ok: "round_ok s" using assms by (simp add: round_ok_def)
  obtain rep kept where sc: "report_scan gMaxRrcCtxIdleCount (32 - length (take 32 (rrc_waiting s))) (rrc_table s) = (rep, kept)"
    by (cases "report_scan gMaxRrcCtxIdleCount (32 - length (take 32 (rrc_waiting s))) (rrc_table s)")
  define ids where "ids = map reported_identity (take 32 (rrc_waiting s) @ rep)"
  have len: "length ids \<le> 32"
    using report_scan_room [of gMaxRrcCtxIdleCount "32 - length (take 32 (rrc_waiting s))" "rrc_table s"]
    unfolding sc ids_def by simp
  have x: "(\<exists>(p, c)\<in>set (mac_table s). mc_idleCount c \<ge> gMaxIdleCount) \<longleftrightarrow> (\<exists>p\<in>set (gMacUeContext s). mac_expired gMaxIdleCount s p)"
    by (auto simp: mac_table_def mac_expired_def)
  note run = oam_round_run [OF round_okD(2,4,3) [OF ok] sc ids_def, of gMaxIdleCount test oam stack]
  show ?thesis
  proof (cases "length ids < 32 \<and> (\<exists>p\<in>set (gMacUeContext s). mac_expired gMaxIdleCount s p)")
    case True
    then show ?thesis using run len x unfolding sc prod.case Let_def ids_def [symmetric] by simp
  next
    case False
    then obtain s' where s': "UlpRecvAndHandleOamData gMaxRrcCtxIdleCount gMaxIdleCount test oam stack s = Some s'"
      "round_done s s' kept (heartbeats test oam @ datagram ids)" using run by auto
    note r = round_done_ok [OF ok s'(2)]
    have "rlc_ok s' \<and> mac_ok s' \<and> own s' = own s \<and> (\<forall>q. \<forall>k<MAX_LC_ID. rx_of s' q k = rx_of s q k)"
      using r by (simp add: round_ok_def)
    then show ?thesis using False s' len x unfolding sc prod.case Let_def ids_def [symmetric] round_done_def by auto
  qed
qed

text \<open>Contexts for the concrete runs: the only one of the RRC, and the only one of the MAC.\<close>

definition with_rrc :: "RrcUeContext \<Rightarrow> ulp_state \<Rightarrow> ulp_state" where
  "with_rrc c s = (case RrcCreateUeContext s (rr_rnti c) of
     Some (p, s) \<Rightarrow> put_obj p (RrcObj c) s
   | None \<Rightarrow> s)"

lemma idle_round: "rlc_ok idle_state" "mac_ok idle_state" "rrc_table idle_state = []" "rrc_waiting idle_state = []"
    "mac_table idle_state = []" "us_trace idle_state = []"
proof -
  have e: "gRlcUeContextList idle_state = []" "gMacUeContext idle_state = []" "gRrcUeContextList idle_state = []"
    "gReadyRrcUeContextList idle_state = []" "us_trace idle_state = []" by (simp_all add: idle_state_def)
  have "receivers idle_state = {}" by (simp add: receivers_def e)
  then show "rlc_ok idle_state" using idle_tables(3) by (simp add: rlc_ok_def rlc_tbl_def e)
  show "mac_ok idle_state" by (rule idle_tables(1))
  show "rrc_table idle_state = []" "rrc_waiting idle_state = []" "mac_table idle_state = []" "us_trace idle_state = []"
    by (simp_all add: rrc_table_def rrc_waiting_def mac_table_def e)
qed

lemma with_rrc_idle:
  assumes "rr_deleteFlag c = 0"
  obtains p where "rlc_ok (with_rrc c idle_state)" "mac_ok (with_rrc c idle_state)" "rrc_table (with_rrc c idle_state) = [(p, c)]"
    "rrc_waiting (with_rrc c idle_state) = []" "mac_table (with_rrc c idle_state) = []" "us_trace (with_rrc c idle_state) = []"
    "gReadyRrcUeContextList (with_rrc c idle_state) = []"
proof -
  have sp: "spare (Suc 5) idle_state" using idle_spare by simp
  have le: "(sizeof_RrcUeContext :: u32) \<le> 65536" by simp
  obtain p m nd where m: "us_alloc idle_state sizeof_RrcUeContext = Some (p, idle_state\<lparr>us_mem := m\<rparr>)" "p \<noteq> NULL"
    "p \<notin> live (us_mem idle_state)" "mem_inv m" "live m = insert p (live (us_mem idle_state))"
    by (rule us_alloc_spare [OF idle_state_ok(1) sp le])
  let ?s = "idle_state\<lparr>us_mem := m, us_heap := [p \<mapsto> RrcObj c], gRrcUeContextList := [p]\<rparr>"
  have w: "with_rrc c idle_state = ?s"
    using m(1,2) idle_state_ok(2) by (simp add: with_rrc_def RrcCreateUeContext_def new_obj_def put_obj_def) (simp add: idle_state_def)
  have e: "gRlcUeContextList ?s = []" "gMacUeContext ?s = []" "gReadyRrcUeContextList ?s = []" "us_trace ?s = []" by (simp_all add: idle_state_def)
  have h: "heap_ok ?s" using m(4,5) by (simp add: heap_ok_def)
  have "rrc_ok ?s" using h e assms by (auto simp: rrc_ok_def)
  moreover have "receivers ?s = {}" by (simp add: receivers_def idle_state_def)
  ultimately have "rlc_ok ?s" using e by (simp add: rlc_ok_def rlc_tbl_def)
  moreover have "mac_ok ?s" using h e by (auto simp: mac_ok_def)
  moreover have "rrc_table ?s = [(p, c)]" "rrc_waiting ?s = []" "mac_table ?s = []"
    using e by (simp_all add: rrc_table_def rrc_waiting_def mac_table_def rrc_ctx_def get_obj_def the_rrc_def)
  ultimately show thesis using e by (intro that [of p]) (simp_all only: w)
qed

abbreviation some_ue :: RrcUeContext where
  "some_ue \<equiv> \<lparr>rr_idleCount = 3, rr_rnti = 61, rr_rrcSetupComplRecvdFlag = 1, rr_deleteFlag = 0,
     rr_ueIdentity = \<lparr>ui_rnti = 0, ui_imsiPresent = 1, ui_mTmsiPresent = 0, ui_msgType = 1, ui_mTmsi = 0,
       ui_imsi = [0x34, 0x36, 0x30, 0x30, 0x31, 0x31, 0x32, 0x33, 0x34, 0x35, 0x36, 0x37, 0x38, 0x39, 0x30, 0]\<rparr>\<rparr>"

abbreviation heartbeat_req :: OamDatagram where "heartbeat_req \<equiv> \<lparr>od_byteRecvd = 8, od_msgType = 0x80\<rparr>"
abbreviation no_datagram :: OamDatagram where "no_datagram \<equiv> \<lparr>od_byteRecvd = -1, od_msgType = 0x80\<rparr>"

theorem oam_round_refines_witness:
  "\<exists>s'. UlpRecvAndHandleOamData 3 10000 no_datagram heartbeat_req (\<lambda>_. blank_identity) (with_rrc some_ue idle_state) = Some s' \<and>
    us_trace s' = [Oam_Heartbeat_Resp, Oam_Identities 36 [(rr_ueIdentity some_ue)\<lparr>ui_rnti := 61\<rparr>]] \<and>
    rrc_table s' = [] \<and> rlc_ok s' \<and> mac_ok s'"
proof -
  have d: "rr_deleteFlag some_ue = 0" by simp
  obtain p where s: "rlc_ok (with_rrc some_ue idle_state)" "mac_ok (with_rrc some_ue idle_state)"
    "rrc_table (with_rrc some_ue idle_state) = [(p, some_ue)]" "rrc_waiting (with_rrc some_ue idle_state) = []"
    "mac_table (with_rrc some_ue idle_state) = []" "us_trace (with_rrc some_ue idle_state) = []"
    using with_rrc_idle [OF d] by metis
  have due: "rrc_due 3 some_ue" "has_identity some_ue" by (simp_all add: rrc_due_def has_identity_def)
  show ?thesis
    using oam_round_refines [OF s(1,2), of 3 10000 no_datagram heartbeat_req "\<lambda>_. blank_identity"]
    by (auto simp: s(3-6) due heartbeats_def datagram_def reported_identity_def)
qed

section \<open>Every identity is reported once\<close>

text \<open>Rounds without messages from the UEs; each has its own datagrams and its own stack.\<close>

fun oam_rounds :: "u32 \<Rightarrow> u32 \<Rightarrow> (OamDatagram \<times> OamDatagram \<times> (nat \<Rightarrow> UeIdentity)) list \<Rightarrow> ulp_state \<Rightarrow> ulp_state option" where
  "oam_rounds limit mac_limit [] s = Some s"
| "oam_rounds limit mac_limit ((test, oam, stack) # xs) s = do {
     s \<leftarrow> UlpRecvAndHandleOamData limit mac_limit test oam stack s;
     oam_rounds limit mac_limit xs s }"

text \<open>The identities that have been sent.\<close>

definition oam_sent :: "ulp_state \<Rightarrow> UeIdentity list" where
  "oam_sent s = concat (map (\<lambda>e. case e of Oam_Identities n ids \<Rightarrow> ids | _ \<Rightarrow> []) (us_trace s))"

lemma oam_sent_round: "us_trace s' = us_trace s @ heartbeats test oam @ datagram ids \<Longrightarrow> oam_sent s' = oam_sent s @ ids"
  by (simp add: oam_sent_def heartbeats_def datagram_def)

lemma report_scan_all:
  "length t \<le> n \<Longrightarrow> report_scan limit n t =
    (map snd (filter (\<lambda>x. rrc_due limit (snd x) \<and> has_identity (snd x)) t),
     map (\<lambda>x. (fst x, rrc_older (snd x))) (filter (\<lambda>x. \<not> rrc_due limit (snd x)) t))"
proof (induction t arbitrary: n)
  case (Cons x t)
  then show ?case by (cases x) auto
qed simp

lemma older_same [simp]: "has_identity (rrc_older c) = has_identity c" "reported_identity (rrc_older c) = reported_identity c"
  by (simp_all add: has_identity_def reported_identity_def rrc_older_def)

lemma not_due_older:
  assumes "\<not> rrc_due limit c"
  shows "unat (rr_idleCount c) < unat limit" "unat limit \<le> 65535 \<Longrightarrow> unat (rr_idleCount (rrc_older c)) = unat (rr_idleCount c) + 1"
proof -
  show l: "unat (rr_idleCount c) < unat limit"
    using assms by (simp add: rrc_due_def word_le_nat_alt not_le unat_ucast_16_32)
  assume "unat limit \<le> 65535"
  with l have "unat (rr_idleCount c) + 1 < 2 ^ 16" by simp
  then show "unat (rr_idleCount (rrc_older c)) = unat (rr_idleCount c) + 1"
    by (simp add: rrc_older_def unat_word_ariths)
qed

text \<open>The identities still to be sent.\<close>

definition pending :: "ulp_state \<Rightarrow> UeIdentity list" where
  "pending s = map reported_identity (rrc_waiting s @ filter has_identity (map snd (rrc_table s)))"

lemma kept_identities:
  "map reported_identity (filter has_identity (map snd (map (\<lambda>x. (fst x, rrc_older (snd x))) t))) =
    map reported_identity (filter has_identity (map snd t))"
  by (induction t) auto

lemma scan_identities:
  "mset (map reported_identity (filter has_identity (map snd (filter (\<lambda>x. \<not> rrc_due limit (snd x)) t)))) +
    mset (map reported_identity (map snd (filter (\<lambda>x. rrc_due limit (snd x) \<and> has_identity (snd x)) t))) =
    mset (map reported_identity (filter has_identity (map snd t)))"
  by (induction t) auto

lemma oam_rounds_run:
  assumes "round_ok s" "length (rrc_waiting s) + length (rrc_table s) \<le> 32" "unat limit \<le> 65535"
    and "\<forall>(p, c)\<in>set (rrc_table s). unat limit < unat (rr_idleCount c) + length xs"
    and "\<forall>(p, c)\<in>set (mac_table s). unat (mc_idleCount c) + length xs \<le> unat mac_limit"
    and "xs = [] \<longrightarrow> rrc_waiting s = [] \<and> rrc_table s = []"
  shows "\<exists>s'. oam_rounds limit mac_limit xs s = Some s' \<and> round_ok s' \<and> rrc_waiting s' = [] \<and> rrc_table s' = [] \<and>
    mset (oam_sent s') = mset (oam_sent s) + mset (pending s)"
  using assms
proof (induction xs arbitrary: s)
  case Nil
  then show ?case by (simp add: pending_def)
next
  case (Cons x xs)
  obtain test oam stack where x: "x = (test, oam, stack)" by (cases x)
  let ?t = "rrc_table s" and ?w = "rrc_waiting s"
  let ?due = "\<lambda>x. rrc_due limit (snd x)" and ?id = "\<lambda>x. has_identity (snd x)"
  let ?rep = "map snd (filter (\<lambda>x. ?due x \<and> ?id x) ?t)"
  let ?kept = "map (\<lambda>x. (fst x, rrc_older (snd x))) (filter (\<lambda>x. \<not> ?due x) ?t)"
  let ?ids = "map reported_identity (?w @ ?rep)"
  have w: "take 32 ?w = ?w" using Cons.prems(2) by simp
  have "length ?t \<le> 32 - length (take 32 ?w)" using Cons.prems(2) w by simp
  note sc = report_scan_all [OF this, of limit]
  have ids: "?ids = map reported_identity (take 32 ?w @ ?rep)" using w by simp
  have "\<not> mac_expired mac_limit s p" if "p \<in> set (gMacUeContext s)" for p
    using Cons.prems(5) that by (auto simp: mac_expired_def mac_table_def word_le_nat_alt)
  then obtain s1 where s1: "UlpRecvAndHandleOamData limit mac_limit test oam stack s = Some s1"
    "round_done s s1 ?kept (heartbeats test oam @ datagram ?ids)"
    using oam_round_run [OF round_okD(2,4,3) [OF Cons.prems(1)] sc ids, of mac_limit test oam stack] by (auto split: if_splits)
  have ok1: "round_ok s1" by (rule round_done_ok(1) [OF Cons.prems(1) s1(2)])
  have d: "gReadyRrcUeContextList s1 = drop 32 (gReadyRrcUeContextList s)" "rrc_table s1 = ?kept"
    "mac_table s1 = map (\<lambda>(p, c). (p, mac_older c)) (mac_table s)" "us_trace s1 = us_trace s @ heartbeats test oam @ datagram ?ids"
    using s1(2) by (simp_all add: round_done_def)
  have w1: "rrc_waiting s1 = []" using Cons.prems(2) d(1) by (simp add: rrc_waiting_def)
  have sent: "oam_sent s1 = oam_sent s @ ?ids" by (rule oam_sent_round [OF d(4)])
  have "\<exists>s'. oam_rounds limit mac_limit xs s1 = Some s' \<and> round_ok s' \<and> rrc_waiting s' = [] \<and> rrc_table s' = [] \<and>
      mset (oam_sent s') = mset (oam_sent s1) + mset (pending s1)"
  proof (rule Cons.IH [OF ok1 _ Cons.prems(3)])
    show "length (rrc_waiting s1) + length (rrc_table s1) \<le> 32"
      using Cons.prems(2) by (simp add: w1 d(2)) (rule order_trans [OF length_filter_le], simp)
    show "\<forall>(p, c)\<in>set (rrc_table s1). unat limit < unat (rr_idleCount c) + length xs"
      unfolding d(2) using Cons.prems(4) not_due_older(2) [OF _ Cons.prems(3)] by fastforce
    show "\<forall>(p, c)\<in>set (mac_table s1). unat (mc_idleCount c) + length xs \<le> unat mac_limit"
    proof (clarsimp simp: d(3))
      fix p c assume "(p, c) \<in> set (mac_table s)"
      then have "unat (mc_idleCount c) + Suc (length xs) \<le> unat mac_limit" using Cons.prems(5) by auto
      moreover have "unat mac_limit < 2 ^ 32" using unsigned_less [of mac_limit, where 'a = nat] by simp
      ultimately show "unat (mc_idleCount (mac_older c)) + length xs \<le> unat mac_limit"
        by (simp add: mac_older_def unat_word_ariths)
    qed
    have "\<not> ?due x \<Longrightarrow> xs = [] \<Longrightarrow> False" if "x \<in> set ?t" for x
      using Cons.prems(4) not_due_older(1) [of limit "snd x"] that by auto
    then show "xs = [] \<longrightarrow> rrc_waiting s1 = [] \<and> rrc_table s1 = []"
      by (auto simp: w1 d(2) filter_empty_conv)
  qed
  then obtain s' where s': "oam_rounds limit mac_limit xs s1 = Some s'" "round_ok s'" "rrc_waiting s' = []" "rrc_table s' = []"
    "mset (oam_sent s') = mset (oam_sent s1) + mset (pending s1)" by blast
  have "mset (pending s1) + mset ?ids = mset (pending s)"
  proof -
    have "mset (pending s1) = mset (map reported_identity (filter has_identity (map snd (filter (\<lambda>x. \<not> ?due x) ?t))))"
      by (simp only: pending_def w1 d(2) append_Nil kept_identities)
    then have "mset (pending s1) + mset (map reported_identity ?rep) = mset (map reported_identity (filter has_identity (map snd ?t)))"
      using scan_identities [of limit ?t] by (simp only:)
    then show ?thesis by (simp only: pending_def map_append mset_append) (simp only: ac_simps)
  qed
  then have "mset (oam_sent s') = mset (oam_sent s) + mset (pending s)"
    unfolding s'(5) sent by (simp only: mset_append ac_simps)
  moreover have "oam_rounds limit mac_limit (x # xs) s = Some s'" using s'(1) s1(1) by (simp add: x)
  ultimately show ?case using s'(2-4) by blast
qed

text \<open>
  C5. Nobody is lost and nobody is reported twice.  When no UE sends anything, no MAC context
  expires meanwhile and the contexts fit into one datagram, then after more rounds than the
  limit no context is left in the RRC's lists, and the identities that have been sent to the OAM are,
  counted with their multiplicity, exactly those sent before and one for every context
  that was waiting or had an identity in the table.  The limit must be one that the 16-bit idle counter
  of a context can reach.
\<close>

theorem identities_reported_once:
  assumes "rlc_ok s" "mac_ok s" "length (rrc_waiting s) + length (rrc_table s) \<le> 32"
    and "unat limit \<le> 65535" "unat limit < length xs"
    and "\<forall>(p, c)\<in>set (mac_table s). unat (mc_idleCount c) + length xs \<le> unat mac_limit"
  shows "\<exists>s'. oam_rounds limit mac_limit xs s = Some s' \<and> rlc_ok s' \<and> mac_ok s' \<and>
    gReadyRrcUeContextList s' = [] \<and> gRrcUeContextList s' = [] \<and>
    mset (oam_sent s') = mset (oam_sent s) +
      mset (map reported_identity (rrc_waiting s @ filter has_identity (map snd (rrc_table s))))"
proof -
  have "\<forall>(p, c)\<in>set (rrc_table s). unat limit < unat (rr_idleCount c) + length xs" using assms(5) by auto
  moreover have "xs = [] \<longrightarrow> rrc_waiting s = [] \<and> rrc_table s = []" using assms(5) by auto
  moreover have "round_ok s" using assms(1,2) by (simp add: round_ok_def)
  ultimately obtain s' where "oam_rounds limit mac_limit xs s = Some s'" "round_ok s'" "rrc_waiting s' = []" "rrc_table s' = []"
    "mset (oam_sent s') = mset (oam_sent s) + mset (pending s)"
    using oam_rounds_run [of s limit xs mac_limit] assms(3,4,6) by blast
  then show ?thesis by (auto simp: round_ok_def rrc_waiting_def rrc_table_def pending_def)
qed

theorem identities_reported_once_witness:
  "\<exists>s'. oam_rounds 5 10000 (replicate 6 (no_datagram, no_datagram, \<lambda>_. blank_identity)) (with_rrc some_ue idle_state) = Some s' \<and>
    gRrcUeContextList s' = [] \<and> oam_sent s' = [(rr_ueIdentity some_ue)\<lparr>ui_rnti := 61\<rparr>]"
proof -
  have d: "rr_deleteFlag some_ue = 0" by simp
  obtain p where s: "rlc_ok (with_rrc some_ue idle_state)" "mac_ok (with_rrc some_ue idle_state)"
    "rrc_table (with_rrc some_ue idle_state) = [(p, some_ue)]" "rrc_waiting (with_rrc some_ue idle_state) = []"
    "mac_table (with_rrc some_ue idle_state) = []" "us_trace (with_rrc some_ue idle_state) = []"
    using with_rrc_idle [OF d] by metis
  have id: "has_identity some_ue" by (simp add: has_identity_def)
  have sent: "oam_sent (with_rrc some_ue idle_state) = []" by (simp add: oam_sent_def s(6))
  obtain s' where s': "oam_rounds 5 10000 (replicate 6 (no_datagram, no_datagram, \<lambda>_. blank_identity)) (with_rrc some_ue idle_state) = Some s'"
    "gRrcUeContextList s' = []" "mset (oam_sent s') = {#reported_identity some_ue#}"
    using identities_reported_once [OF s(1,2), of 5 "replicate 6 (no_datagram, no_datagram, \<lambda>_. blank_identity)" 10000]
    by (auto simp: s(3-5) id sent simp del: oam_rounds.simps)
  then have "oam_sent s' = [reported_identity some_ue]" by (simp add: mset_single_iff)
  with s' show ?thesis by (simp add: reported_identity_def)
qed

text \<open>A limit the 16-bit counter cannot reach: a context with one identity is never due.\<close>

lemma rrc_never_due:
  assumes "unat limit > 65535" "ui_imsiPresent (rr_ueIdentity c) = 0 \<or> ui_mTmsiPresent (rr_ueIdentity c) = 0"
  shows "\<not> rrc_due limit c"
proof -
  have "unat (rr_idleCount c) < 2 ^ 16" using unsigned_less [of "rr_idleCount c", where 'a = nat] by simp
  with assms show ?thesis by (auto simp: rrc_due_def word_le_nat_alt unat_ucast_16_32)
qed

end
