(* ===== verification/Ulp_Worker.thy ===== *)
theory Ulp_Worker
  imports Mac_Uplink Oam_Report
begin

text \<open>
  The worker of \<open>ulp/src/lteUlpWorker.c\<close>: the PHY side copies a received message into a block of
  its own and queues it; once per period the worker takes the queued messages through the MAC and
  then does its round for the OAM.
\<close>

section \<open>The code\<close>

abbreviation (input) sizeof_PhyDataIndNode :: u32 where "sizeof_PhyDataIndNode \<equiv> 32"

text \<open>
  The flag says whether the worker has been started; without it the message is processed at once.
  The second allocation is not checked: the code looks at the pointer to the node again, which
  is not null, and copies into the null pointer when there is no memory.
\<close>

definition PhyUlDataInd :: "bool \<Rightarrow> ulp_state \<Rightarrow> ptr \<Rightarrow> u16 \<Rightarrow> ulp_state option" where
  "PhyUlDataInd gUlpWorkerInitilized s pBuffer len =
     (if pBuffer = NULL then Some s
      else if gUlpWorkerInitilized then do {
        (pn, s) \<leftarrow> new_obj s sizeof_PhyDataIndNode (PhyObj \<lparr>ph_length = ucast len, ph_pBuffer = NULL\<rparr>);
        if pn = NULL then Some s
        else do {
          (b, s) \<leftarrow> us_alloc s (ucast len);
          s \<leftarrow> Some (put_obj pn (PhyObj \<lparr>ph_length = ucast len, ph_pBuffer = b\<rparr>) s);
          s \<leftarrow> us_copy s b pBuffer 0 (unat len);
          Some (s\<lparr>gRecvdPhyDataList := gRecvdPhyDataList s @ [pn]\<rparr>) } }
      else MacProcessPhyDataInd s pBuffer len)"

text \<open>The loop pops messages until the queue is empty; it does not look at a count.\<close>

partial_function (option) recv_phy_data :: "ulp_state \<Rightarrow> ulp_state option" where
  "recv_phy_data s =
     (case gRecvdPhyDataList s of
        [] \<Rightarrow> Some s
      | p # ps \<Rightarrow> do {
          n \<leftarrow> get_obj the_phy s p;
          s \<leftarrow> MacProcessPhyDataInd (s\<lparr>gRecvdPhyDataList := ps\<rparr>) (ph_pBuffer n) (ucast (ph_length n));
          n \<leftarrow> get_obj the_phy s p;
          s \<leftarrow> us_free s (ph_pBuffer n);
          s \<leftarrow> us_free s p;
          recv_phy_data s })"

definition UlpRecvAndHandlePhyData :: "ulp_state \<Rightarrow> ulp_state option" where
  "UlpRecvAndHandlePhyData s = (if length (gRecvdPhyDataList s) > 0 then recv_phy_data s else Some s)"

text \<open>One period of \<open>UlpWorkerEntryFunc\<close>, after its event.\<close>

definition worker_period ::
  "u32 \<Rightarrow> u32 \<Rightarrow> OamDatagram \<Rightarrow> OamDatagram \<Rightarrow> (nat \<Rightarrow> UeIdentity) \<Rightarrow> ulp_state \<Rightarrow> ulp_state option" where
  "worker_period gMaxRrcCtxIdleCount gMaxIdleCount test oam stack s = do {
     s \<leftarrow> UlpRecvAndHandlePhyData s;
     UlpRecvAndHandleOamData gMaxRrcCtxIdleCount gMaxIdleCount test oam stack s }"

section \<open>A message is queued\<close>

lemma us_alloc_iff: "us_alloc s len = Some (p, s') \<longleftrightarrow> (\<exists>m. MemAlloc (us_mem s) len = Some (p, m) \<and> s' = s\<lparr>us_mem := m\<rparr>)"
  by (auto simp: us_alloc_def bind_Some_iff)

lemma new_obj_iff: "new_obj s len x = Some (p, s') \<longleftrightarrow>
    (\<exists>m. MemAlloc (us_mem s) len = Some (p, m) \<and> s' = (if p = NULL then s\<lparr>us_mem := m\<rparr> else put_obj p x (s\<lparr>us_mem := m\<rparr>)))"
proof (cases "MemAlloc (us_mem s) len")
  case (Some y)
  then show ?thesis by (cases y) (auto simp: new_obj_def us_alloc_def eq_commute [of _ s'])
qed (simp add: new_obj_def us_alloc_def)

lemma ucast_16_32_16 [simp]: "ucast (ucast (w :: u16) :: u32) = w"
proof -
  have "unat w < 2 ^ 16" using unsigned_less [of w, where 'a = nat] by simp
  then have "take_bit 16 (unat w) = unat w" by (simp add: take_bit_nat_eq_self_iff)
  then have "unat (ucast (ucast w :: u32) :: u16) = unat w"
    by (simp only: unsigned_ucast_eq [of "ucast w :: u32"] unat_ucast_16_32) simp
  then show ?thesis by (simp only: word_unat_eq_iff)
qed

lemma no_copy_to_NULL:
  assumes "rrc_ok s" "0 < n"
  shows "us_copy s NULL p k n = None"
proof -
  have "mp_nodes (us_mem s) NULL = None" using mem_invD(3) [OF heap_okD(1) [OF rrc_okD(1) [OF assms(1)]]] by simp
  then have "blk_cap (us_mem s) NULL = 0" by (simp add: blk_cap_def)
  then have "mem_move (us_mem s) NULL 0 p k n = None" using assms(2) by (simp add: mem_move_def blk_store_def)
  then show ?thesis by (simp add: us_copy_def mem_copy_def)
qed

definition phy_queued :: "ulp_state \<Rightarrow> ulp_state \<Rightarrow> u8 list \<Rightarrow> ptr \<Rightarrow> ptr \<Rightarrow> bool" where
  "phy_queued s s' bs pn b \<longleftrightarrow> (\<exists>t. eff {} {pn, b} [] s t \<and> s' = t\<lparr>gRecvdPhyDataList := gRecvdPhyDataList s @ [pn]\<rparr>) \<and>
     us_heap s' pn = Some (PhyObj \<lparr>ph_length = ucast (of_nat (length bs) :: u16), ph_pBuffer = b\<rparr>) \<and> buffer s' b bs \<and>
     pn \<notin> own s \<and> b \<notin> own s \<and> pn \<noteq> b \<and> (\<forall>n. spare (n + 2) s \<longrightarrow> spare n s')"

lemma phy_ind_cases [consumes 3, case_names no_node no_copy queued]:
  assumes ok: "rrc_ok s" and b: "buffer s p bs" and ne: "bs \<noteq> []"
  obtains (no_node) m where "MemAlloc (us_mem s) 32 = Some (NULL, m)" "PhyUlDataInd True s p (of_nat (length bs)) = Some s"
  | (no_copy) pn m m' where "MemAlloc (us_mem s) 32 = Some (pn, m)" "pn \<noteq> NULL" "MemAlloc m (of_nat (length bs)) = Some (NULL, m')"
      "PhyUlDataInd True s p (of_nat (length bs)) = None"
  | (queued) pn m b' m' s' where "MemAlloc (us_mem s) 32 = Some (pn, m)" "pn \<noteq> NULL" "MemAlloc m (of_nat (length bs)) = Some (b', m')"
      "b' \<noteq> NULL" "PhyUlDataInd True s p (of_nat (length bs)) = Some s'" "phy_queued s s' bs pn b'"
proof -
  let ?len = "of_nat (length bs) :: u16"
  let ?node = "\<lambda>b. PhyObj \<lparr>ph_length = ucast ?len, ph_pBuffer = b\<rparr>"
  have n: "unat ?len = length bs" "length bs < 2 ^ 16" using b by (simp_all add: buffer_def unat_of_nat_small)
  have l32: "(ucast ?len :: u32) = of_nat (length bs)" using n by (simp only: word_unat_eq_iff unat_ucast_16_32) (simp add: unat_of_nat_small)
  have po: "p \<in> own s" "p \<noteq> NULL" using b own_nonnull [OF ok, of p] by (simp_all add: buffer_def own_raw)
  have nr: "\<not> is_rrc (?node NULL)" by simp
  from ok nr show thesis
  proof (cases rule: eff_new [of s "?node NULL" sizeof_PhyDataIndNode])
    case none
    then obtain m where "MemAlloc (us_mem s) 32 = Some (NULL, m)" by (auto simp: new_obj_iff)
    moreover have "PhyUlDataInd True s p ?len = Some s" using none po(2) by (simp add: PhyUlDataInd_def)
    ultimately show thesis by (rule that(1))
  next
    case (block pn s1)
    obtain m where m: "MemAlloc (us_mem s) 32 = Some (pn, m)" "us_mem s1 = m" using block(1,2) by (auto simp: new_obj_iff)
    note ok1 = effD(1) [OF block(3)]
    have h1: "us_heap s1 pn = Some (?node NULL)" by (simp add: block(5))
    from ok1 show thesis
    proof (cases rule: eff_alloc [of s1 "of_nat (length bs)"])
      case none
      then obtain m' where m': "MemAlloc m (of_nat (length bs)) = Some (NULL, m')" using m(2) by (auto simp: us_alloc_iff)
      let ?s2 = "put_obj pn (?node NULL) s1"
      have "rrc_ok ?s2" by (rule effD(1) [OF eff_put [OF ok1 h1]]) simp_all
      then have "PhyUlDataInd True s p ?len = None"
        using block(1,2) none po(2) no_copy_to_NULL [of ?s2 "length bs" p 0] ne n(1) l32 by (simp add: PhyUlDataInd_def)
      with m(1) block(2) m' show thesis by (intro that(2) [of pn m m'])
    next
      case (block b' s2)
      note bl = \<open>new_obj s sizeof_PhyDataIndNode (?node NULL) = Some (pn, s1)\<close> \<open>pn \<noteq> NULL\<close> \<open>eff {} {pn} [] s s1\<close> \<open>pn \<notin> own s\<close>
      obtain m' where m': "MemAlloc m (of_nat (length bs)) = Some (b', m')" using block(1) m(2) by (auto simp: us_alloc_iff)
      note ok2 = effD(1) [OF block(3)]
      have o1: "own s1 = insert pn (own s)" using effD(2) [OF bl(3)] by simp
      have new: "b' \<noteq> pn" "b' \<notin> own s" "p \<noteq> b'" "p \<noteq> pn" using block(4) o1 po bl(4) by auto
      have h2: "us_heap s2 pn = Some (?node NULL)" using h1 block(5) by simp
      let ?s3 = "put_obj pn (?node b') s2"
      have f3: "eff {pn} {pn} [] s2 ?s3" by (rule eff_put [OF ok2 h2]) simp_all
      have f02: "eff {} {pn, b'} [] s s2" by (rule eff_comp [OF bl(3) block(3)]) auto
      have f03: "eff {} {pn, b'} [] s ?s3" by (rule eff_comp [OF f02 f3]) (use bl(4) in auto)
      have b3: "buffer ?s3 p bs" by (rule eff_buffer [OF f03 b]) simp
      have q3: "b' \<in> own ?s3" "us_heap ?s3 b' = None" using effD(2) [OF f03] new block(5,6) by auto
      have cap: "length bs - 0 \<le> blk_cap (us_mem ?s3) b'"
        using block(7) n(2) by (simp add: unat_of_nat_small)
      obtain nd where "mp_nodes (us_mem s2) b' = Some nd" "mn_length nd = ucast (of_nat (length bs) :: u32)" using block(8) by blast
      then have nd: "\<exists>n. mp_nodes (us_mem ?s3) b' = Some n \<and> unat (mn_length n) = length bs - 0"
        using n(1) l32 [symmetric] by simp
      obtain s4 where s4: "us_copy ?s3 b' p 0 (length bs - 0) = Some s4" "eff {b'} {b'} [] ?s3 s4" "us_heap s4 = us_heap ?s3"
        "buffer s4 b' (drop 0 bs)"
        using eff_copy [OF effD(1) [OF f03] b3 _ q3 new(3) cap nd] by auto
      let ?s' = "s4\<lparr>gRecvdPhyDataList := gRecvdPhyDataList s @ [pn]\<rparr>"
      have f04: "eff {} {pn, b'} [] s s4" by (rule eff_comp [OF f03 s4(2)]) (use new in auto)
      have "gRecvdPhyDataList s4 = gRecvdPhyDataList s" by (rule effD(8) [OF f04])
      then have run: "PhyUlDataInd True s p ?len = Some ?s'"
        using bl(1,2) block(1) s4(1) po(2) n(1) l32 by (simp add: PhyUlDataInd_def)
      have "spare k ?s'" if "spare (k + 2) s" for k
      proof -
        have "spare (Suc (Suc k)) s" using that by simp
        then have "spare (Suc k) s1" by (rule new_spare(2) [OF ok bl(1)]) simp
        moreover have "(of_nat (length bs) :: u32) \<le> 65536" using n(2) by (simp add: word_le_nat_alt unat_of_nat_small)
        ultimately have "spare k s2" using alloc_spare(2) [OF ok1 block(1)] by simp
        then show ?thesis using spare_copy [OF s4(1)] by simp
      qed
      moreover have "us_heap ?s' pn = Some (?node b')" using s4(3) by simp
      moreover have "buffer ?s' b' bs" using s4(4) by simp
      ultimately have "phy_queued s ?s' bs pn b'"
        using f04 bl(4) new unfolding phy_queued_def by auto
      with m(1) bl(2) m' block(2) run show thesis by (intro that(3) [of pn m b' m'])
    qed
  qed
qed

text \<open>What the queue does not touch.\<close>

lemma queued_frame:
  assumes ok: "rlc_ok s" and mac: "mac_ready s" and q: "phy_queued s s' bs pn b"
  shows "rlc_ok s'" "mac_ready s'" "rlc_blocks s' = rlc_blocks s" "rlc_log s' = rlc_log s" "own s' = insert pn (insert b (own s))"
    "gMacUeContext s' = gMacUeContext s" "gRecvdPhyDataList s' = gRecvdPhyDataList s @ [pn]" "mac_grant s' r = mac_grant s r"
    "k < MAX_LC_ID \<Longrightarrow> rx_of s' r k = rx_of s r k" "k < MAX_LC_ID \<Longrightarrow> partial_ptr s' r k = partial_ptr s r k"
    "buffer s x cs \<Longrightarrow> buffer s' x cs" "x \<in> own s \<Longrightarrow> mp_nodes (us_mem s') x = mp_nodes (us_mem s) x"
proof -
  obtain t where t: "eff {} {pn, b} [] s t" "s' = t\<lparr>gRecvdPhyDataList := gRecvdPhyDataList s @ [pn]\<rparr>"
    using q by (auto simp: phy_queued_def)
  note r = rlc_outside [OF ok t(1) Int_empty_left]
  note m = mac_stays [OF t(1) rlc_okD(1) [OF ok] mac Int_empty_left]
  show "rlc_ok s'" "mac_ready s'" "rlc_blocks s' = rlc_blocks s" "mac_grant s' r = mac_grant s r"
    "k < MAX_LC_ID \<Longrightarrow> rx_of s' r k = rx_of s r k" "k < MAX_LC_ID \<Longrightarrow> partial_ptr s' r k = partial_ptr s r k"
    using r m by (simp_all add: t(2))
  show "rlc_log s' = rlc_log s" "gMacUeContext s' = gMacUeContext s" "gRecvdPhyDataList s' = gRecvdPhyDataList s @ [pn]"
    using effD(6,9) [OF t(1)] by (simp_all add: t(2))
  show "own s' = insert pn (insert b (own s))" using effD(2) [OF t(1)] by (auto simp: t(2))
  show "buffer s x cs \<Longrightarrow> buffer s' x cs" using eff_buffer [OF t(1), of x cs] by (simp add: t(2))
  show "x \<in> own s \<Longrightarrow> mp_nodes (us_mem s') x = mp_nodes (us_mem s) x" using effD(4) [OF t(1)] by (simp add: t(2) mem_kept_def)
qed

text \<open>
  C16. What becomes of a message the PHY hands over to a running worker: it is copied, byte for
  byte, into a block of its own whose node is the last of the queue, and nothing the receivers see
  changes; or it is dropped without a trace when there is no memory for its node; or, when exactly
  the memory for the copy is missing, the behaviour is undefined, because the code does not test the pointer
  it copies to.
\<close>

theorem phy_message_queued:
  assumes "rlc_ok s" "mac_ready s" "buffer s p bs" "bs \<noteq> []"
  shows "case MemAlloc (us_mem s) 32 of None \<Rightarrow> False | Some (pn, m) \<Rightarrow>
    if pn = NULL then PhyUlDataInd True s p (of_nat (length bs)) = Some s
    else case MemAlloc m (of_nat (length bs)) of None \<Rightarrow> False | Some (b, m') \<Rightarrow>
      if b = NULL then PhyUlDataInd True s p (of_nat (length bs)) = None
      else \<exists>s'. PhyUlDataInd True s p (of_nat (length bs)) = Some s' \<and>
        gRecvdPhyDataList s' = gRecvdPhyDataList s @ [pn] \<and>
        get_obj the_phy s' pn = Some \<lparr>ph_length = of_nat (length bs), ph_pBuffer = b\<rparr> \<and> buffer s' b bs \<and> buffer s' p bs \<and>
        own s' = insert pn (insert b (own s)) \<and> pn \<notin> own s \<and> b \<notin> own s \<and> pn \<noteq> b \<and>
        rlc_ok s' \<and> mac_ready s' \<and> rlc_log s' = rlc_log s \<and> (\<forall>r. \<forall>k<MAX_LC_ID. rx_of s' r k = rx_of s r k)"
  using rlc_okD(1) [OF assms(1)] assms(3,4)
proof (cases rule: phy_ind_cases)
  case (no_node m)
  then show ?thesis by simp
next
  case (no_copy pn m m')
  then show ?thesis by simp
next
  case (queued pn m b m' s')
  note fr = queued_frame [OF assms(1,2) queued(6)]
  have n: "length bs < 2 ^ 16" using assms(3) by (simp add: buffer_def)
  then have "(ucast (of_nat (length bs) :: u16) :: u32) = of_nat (length bs)"
    by (simp only: word_unat_eq_iff unat_ucast_16_32) (simp add: unat_of_nat_small)
  then have "get_obj the_phy s' pn = Some \<lparr>ph_length = of_nat (length bs), ph_pBuffer = b\<rparr>"
    using queued(6) by (simp add: phy_queued_def get_obj_def)
  then show ?thesis using queued fr assms(3) by (auto simp: phy_queued_def)
qed

lemma with_buffer_queue: "with_buffer bs idle_state = (p, s) \<Longrightarrow> gRecvdPhyDataList s = []"
  by (auto simp: with_buffer_def us_alloc_def idle_state_def bind_Some_iff split: option.splits)

theorem phy_message_queued_witness:
  "case with_buffer [7, 8, 9] idle_state of (p, s) \<Rightarrow>
     \<exists>s' pn b. PhyUlDataInd True s p 3 = Some s' \<and> gRecvdPhyDataList s' = [pn] \<and>
       get_obj the_phy s' pn = Some \<lparr>ph_length = 3, ph_pBuffer = b\<rparr> \<and> buffer s' b [7, 8, 9]"
proof -
  obtain p s where s: "with_buffer [7, 8, 9] idle_state = (p, s)" "buffer s p [7, 8, 9]" "spare 15 s" "rlc_ok s" "mac_ready s"
    by (rule idle_rlc [of "[7, 8, 9]"]) simp_all
  have q: "gRecvdPhyDataList s = []" by (rule with_buffer_queue [OF s(1)])
  have sp: "spare (Suc (Suc 13)) s" using s(3) by simp
  obtain pn m nd where m: "us_alloc s 32 = Some (pn, s\<lparr>us_mem := m\<rparr>)" "pn \<noteq> NULL" "mem_inv m" "live m = insert pn (live (us_mem s))"
    "spare (Suc 13) (s\<lparr>us_mem := m\<rparr>)"
    by (rule us_alloc_spare [OF rrc_okD(1) [OF rlc_okD(1) [OF s(4)]] sp, of 32]) simp_all
  have h: "heap_ok (s\<lparr>us_mem := m\<rparr>)" using rrc_okD(1) [OF rlc_okD(1) [OF s(4)]] m(3,4) by (auto simp: heap_ok_def)
  obtain b m' nd' where m': "us_alloc (s\<lparr>us_mem := m\<rparr>) 3 = Some (b, (s\<lparr>us_mem := m\<rparr>)\<lparr>us_mem := m'\<rparr>)" "b \<noteq> NULL"
    by (rule us_alloc_spare [OF h m(5), of 3]) simp_all
  have a: "MemAlloc (us_mem s) 32 = Some (pn, m)" "MemAlloc m 3 = Some (b, m')"
    using m(1) m'(1) by (auto simp: us_alloc_def bind_Some_iff dest: arg_cong [where f = us_mem])
  show ?thesis
    using phy_message_queued [OF s(4,5,2)] a m(2) m'(2) q s(1) by auto
qed

section \<open>A queued message is processed\<close>

lemma recv_step:
  assumes "gRecvdPhyDataList s = pn # ps" "us_heap s pn = Some (PhyObj n)"
    and "MacProcessPhyDataInd (s\<lparr>gRecvdPhyDataList := ps\<rparr>) (ph_pBuffer n) (ucast (ph_length n)) = Some s1"
    and "us_heap s1 pn = Some (PhyObj n)" "us_free s1 (ph_pBuffer n) = Some s2" "us_free s2 pn = Some s3"
  shows "recv_phy_data s = recv_phy_data s3"
  using assms by (subst recv_phy_data.simps) (simp add: get_obj_def the_phy_def)

lemma recv_empty: "gRecvdPhyDataList s = [] \<Longrightarrow> recv_phy_data s = Some s"
  by (subst recv_phy_data.simps) simp

text \<open>With two spare blocks a message is queued.\<close>

lemma phy_ind_spare:
  assumes ok: "rrc_ok s" and b: "buffer s p bs" "bs \<noteq> []" and sp: "spare (n + 2) s"
  obtains pn b s1 where "PhyUlDataInd True s p (of_nat (length bs)) = Some s1" "phy_queued s s1 bs pn b"
proof -
  have sp': "spare (Suc (Suc n)) s" using sp by simp
  have le: "(of_nat (length bs) :: u32) \<le> 65536"
    using b(1) by (simp add: buffer_def word_le_nat_alt unat_of_nat_small)
  obtain q m nd where m: "us_alloc s 32 = Some (q, s\<lparr>us_mem := m\<rparr>)" "q \<noteq> NULL" "mem_inv m" "live m = insert q (live (us_mem s))"
    "spare (Suc n) (s\<lparr>us_mem := m\<rparr>)"
    by (rule us_alloc_spare [OF rrc_okD(1) [OF ok] sp', of 32]) simp_all
  have h: "heap_ok (s\<lparr>us_mem := m\<rparr>)" using rrc_okD(1) [OF ok] m(3,4) by (auto simp: heap_ok_def)
  obtain b m' nd' where m': "us_alloc (s\<lparr>us_mem := m\<rparr>) (of_nat (length bs)) = Some (b, (s\<lparr>us_mem := m\<rparr>)\<lparr>us_mem := m'\<rparr>)" "b \<noteq> NULL"
    by (rule us_alloc_spare [OF h m(5) le]) simp_all
  have a: "MemAlloc (us_mem s) 32 = Some (q, m)" "MemAlloc m (of_nat (length bs)) = Some (b, m')"
    using m(1) m'(1) by (auto simp: us_alloc_def bind_Some_iff dest: arg_cong [where f = us_mem])
  show thesis using ok b by (cases rule: phy_ind_cases) (use a m(2) m'(2) that in auto)
qed

text \<open>The loop takes a message whose processing is known, and releases its two blocks.\<close>

lemma recv_one:
  assumes ok: "rlc_ok s2" and mac: "mac_ready s2" and s2: "s2 = s1\<lparr>gRecvdPhyDataList := []\<rparr>" "gRecvdPhyDataList s1 = [pn]"
    and nd: "us_heap s2 pn = Some (PhyObj \<lparr>ph_length = ucast (of_nat (length msg) :: u16), ph_pBuffer = b\<rparr>)"
    and bb: "buffer s2 b msg" "buffer s2 p msg" "pn \<noteq> b" "pn \<noteq> p" "b \<noteq> p" "{pn, b, p} \<inter> rlc_blocks s2 = {}"
    and run: "MacProcessPhyDataInd s2 b (of_nat (length msg)) = Some s3" "uplink_done s2 s3 rnti lc g r' os"
    and k: "unat lc < MAX_LC_ID"
  shows "\<exists>s'. UlpRecvAndHandlePhyData s1 = Some s' \<and> rlc_ok s' \<and> mac_ready s' \<and> gRecvdPhyDataList s' = [] \<and> buffer s' p msg \<and>
    rx_of s' rnti (unat lc) = r' \<and>
    (\<forall>q. \<forall>k<MAX_LC_ID. (q, k) \<noteq> (rnti, unat lc) \<longrightarrow> rx_of s' q k = rx_of s2 q k) \<and>
    rlc_log s' = rlc_log s2 @ map (\<lambda>(bs, gs). (rnti, lc, bs, gs)) os \<and>
    mac_grant s' rnti = Some g \<and> (\<forall>q. q \<noteq> rnti \<longrightarrow> mac_grant s' q = mac_grant s2 q) \<and>
    own s' - rlc_blocks s' - set (gMacUeContext s') = own s2 - rlc_blocks s2 - set (gMacUeContext s2) - {pn, b}"
proof -
  have d: "rlc_ok s3" "mac_ready s3" "kept_out {} s2 s3" using run(2) by (simp_all add: uplink_done_def)
  have q3: "gRecvdPhyDataList s3 = []" using d(3) s2 by (simp add: kept_out_def)
  note ok0 = rlc_okD(1) [OF ok]
  have bo: "b \<in> own s2" "us_heap s2 b = None" using bb(1) by (simp_all add: buffer_def own_raw)
  have nM: "b \<notin> set (gMacUeContext s3)"
  proof -
    have "buffer s3 b msg" by (rule kept_out_buffer(1) [OF d(3) bb(1)]) (use bb(6) in auto)
    then show ?thesis using d(2) by (auto simp: buffer_def own_raw mac_ready_def)
  qed
  have b3: "b \<in> own s3 - rlc_blocks s3"
    using kept_out_buffer [OF d(3) bb(1)] bb(6) by (auto simp: buffer_def own_raw)
  have n3: "us_heap s3 pn = Some (PhyObj \<lparr>ph_length = ucast (of_nat (length msg) :: u16), ph_pBuffer = b\<rparr>)" "pn \<in> own s3 - rlc_blocks s3"
    using kept_out_obj [OF d(3) nd] bb(6) ok0 by auto
  have p3: "buffer s3 p msg" by (rule kept_out_buffer(1) [OF d(3) bb(2)]) (use bb(6) in auto)
  have pM: "pn \<notin> set (gMacUeContext s3)" using d(2) n3(1) by (auto simp: mac_ready_def)
  obtain s4 where s4: "us_free s3 b = Some s4" "rlc_ok s4" "mac_ready s4" "buffer s4 p msg" "gMacUeContext s4 = gMacUeContext s3"
    "\<And>r. mac_grant s4 r = mac_grant s3 r" "\<And>r k. k < MAX_LC_ID \<Longrightarrow> rx_of s4 r k = rx_of s3 r k" "rlc_log s4 = rlc_log s3"
    "own s4 - rlc_blocks s4 = own s3 - rlc_blocks s3 - {b}" "rlc_blocks s4 = rlc_blocks s3" "kept_out {b} s3 s4"
    by (rule release_run [OF d(1,2) p3 b3 bb(5) nM]) (rule that; assumption)
  have n4: "pn \<in> own s4 - rlc_blocks s4" using s4(9) n3(2) bb(3) by auto
  have pM4: "pn \<notin> set (gMacUeContext s4)" using pM s4(5) by simp
  obtain s5 where s5: "us_free s4 pn = Some s5" "rlc_ok s5" "mac_ready s5" "buffer s5 p msg" "gMacUeContext s5 = gMacUeContext s4"
    "\<And>r. mac_grant s5 r = mac_grant s4 r" "\<And>r k. k < MAX_LC_ID \<Longrightarrow> rx_of s5 r k = rx_of s4 r k" "rlc_log s5 = rlc_log s4"
    "own s5 - rlc_blocks s5 = own s4 - rlc_blocks s4 - {pn}" "rlc_blocks s5 = rlc_blocks s4" "kept_out {pn} s4 s5"
    by (rule release_run [OF s4(2-4) n4 bb(4) pM4]) (rule that; assumption)
  have q5: "gRecvdPhyDataList s5 = []" using q3 s4(11) s5(11) by (simp add: kept_out_def)
  have "recv_phy_data s1 = recv_phy_data s5"
  proof (rule recv_step [OF s2(2) _ _ n3(1) _ s5(1)])
    show "us_heap s1 pn = Some (PhyObj \<lparr>ph_length = ucast (of_nat (length msg) :: u16), ph_pBuffer = b\<rparr>)" using nd s2(1) by simp
  qed (use run(1) s2(1) s4(1) in simp_all)
  then have r: "UlpRecvAndHandlePhyData s1 = Some s5" using recv_empty [OF q5] s2(2) by (simp add: UlpRecvAndHandlePhyData_def)
  have "own s5 - rlc_blocks s5 - set (gMacUeContext s5) = own s3 - rlc_blocks s3 - set (gMacUeContext s3) - {pn, b}"
    using s4(5,9) s5(5,9) by auto
  also have "\<dots> = own s2 - rlc_blocks s2 - set (gMacUeContext s2) - {pn, b}" using run(2) by (simp add: uplink_done_def)
  finally have own: "own s5 - rlc_blocks s5 - set (gMacUeContext s5) = own s2 - rlc_blocks s2 - set (gMacUeContext s2) - {pn, b}" .
  show ?thesis
    using r q5 own s4 s5 run(2) k unfolding uplink_done_def by (intro exI [of _ s5]) simp
qed

text \<open>
  C15. The worker is transparent. A PHY message of the kind of theorem
  \<open>uplink_message_delivered\<close> that is handed to a running worker with an empty queue is
  queued and, in the next period, processed with exactly the outcome of processing it at once: the same
  grant, receiver and delivered SDUs; the queue is empty again, the caller's buffer is untouched, and
  the two blocks that carried the message through the queue have been released.
\<close>

theorem queued_message_delivered:
  assumes "rlc_ok s" "mac_ready s" "buffer s p (phy_message h i t (mac_pdu xs y @ bs))" "p \<notin> rlc_blocks s"
    and "mh_opc h = 0x87" "ih_numOfPDUs i = 1" "hp_CRCFlag t = 1" "hp_bitLen t = of_nat (8 * length (mac_pdu xs y))"
    and "\<forall>x\<in>set xs. element_ok x" "last_ok y" "length xs < 17"
    and "filter (\<lambda>x. fst x \<le> 10) (xs @ [y]) = [(lc, amd_pdu pb fi sn lens payload)]" "lc = 1 \<or> lc = 2"
    and "amd_fields pb fi sn lens" "sum_list (map unat lens) \<le> length payload" "spare (12 + 2 * length lens) s"
    and "fst (rx_of s (hp_RNTI t) (unat lc)) \<noteq> None \<longrightarrow> part_room s (partial_ptr s (hp_RNTI t) (unat lc)) (length payload)"
    and "rx_dfes (Some (block_grant t)) sn (amd_elements fi lens payload) (rx_of s (hp_RNTI t) (unat lc)) = (r', os)"
    and "out_ok lc os" "gRecvdPhyDataList s = []"
  shows "\<exists>s1 s'. PhyUlDataInd True s p (of_nat (length (phy_message h i t (mac_pdu xs y @ bs)))) = Some s1 \<and>
    UlpRecvAndHandlePhyData s1 = Some s' \<and> gRecvdPhyDataList s' = [] \<and> buffer s' p (phy_message h i t (mac_pdu xs y @ bs)) \<and>
    rlc_ok s' \<and> mac_ready s' \<and> rx_of s' (hp_RNTI t) (unat lc) = r' \<and>
    (\<forall>q. \<forall>k<MAX_LC_ID. (q, k) \<noteq> (hp_RNTI t, unat lc) \<longrightarrow> rx_of s' q k = rx_of s q k) \<and>
    rlc_log s' = rlc_log s @ map (\<lambda>(bs, gs). (hp_RNTI t, lc, bs, gs)) os \<and>
    mac_grant s' (hp_RNTI t) = Some (block_grant t) \<and> (\<forall>q. q \<noteq> hp_RNTI t \<longrightarrow> mac_grant s' q = mac_grant s q) \<and>
    own s' - rlc_blocks s' - set (gMacUeContext s') = own s - rlc_blocks s - set (gMacUeContext s)"
proof -
  let ?msg = "phy_message h i t (mac_pdu xs y @ bs)"
  note ok0 = rlc_okD(1) [OF assms(1)]
  have ne: "?msg \<noteq> []" by (simp add: phy_message_def msg_head_def le32_def le16_def)
  have k: "unat lc < MAX_LC_ID" using assms(13) by auto
  have sp2: "spare (10 + 2 * length lens + 2) s" using assms(16) by simp
  obtain pn b s1 where s1: "PhyUlDataInd True s p (of_nat (length ?msg)) = Some s1" "phy_queued s s1 ?msg pn b"
    by (rule phy_ind_spare [OF ok0 assms(3) ne sp2])
  note fr = queued_frame [OF assms(1,2) s1(2)]
  let ?s2 = "s1\<lparr>gRecvdPhyDataList := []\<rparr>"
  have pq: "us_heap s1 pn = Some (PhyObj \<lparr>ph_length = ucast (of_nat (length ?msg) :: u16), ph_pBuffer = b\<rparr>)" "buffer s1 b ?msg"
    "pn \<notin> own s" "b \<notin> own s" "pn \<noteq> b" using s1(2) by (simp_all add: phy_queued_def)
  have sp: "spare (10 + 2 * length lens) ?s2" using s1(2) assms(16) by (simp add: phy_queued_def)
  have po: "p \<in> own s" using assms(3) by (simp add: buffer_def own_raw)
  have out: "{pn, b, p} \<inter> rlc_blocks ?s2 = {}" using rlc_blocks_own [OF assms(1)] pq(3,4) assms(4) fr(3) by auto
  have room: "fst (rx_of ?s2 (hp_RNTI t) (unat lc)) \<noteq> None \<longrightarrow> part_room ?s2 (partial_ptr ?s2 (hp_RNTI t) (unat lc)) (length payload)"
  proof
    assume a: "fst (rx_of ?s2 (hp_RNTI t) (unat lc)) \<noteq> None"
    then have "fst (rx_of s (hp_RNTI t) (unat lc)) \<noteq> None" by (simp add: fr(9) [OF k])
    then have "part_room s (partial_ptr s (hp_RNTI t) (unat lc)) (length payload)" "partial_ptr s (hp_RNTI t) (unat lc) \<in> own s"
      using assms(17) partial_ptr_own [OF assms(1) k] by auto
    then show "part_room ?s2 (partial_ptr ?s2 (hp_RNTI t) (unat lc)) (length payload)"
      by (simp add: part_room_def fr(10) [OF k] fr(12))
  qed
  have rx: "rx_dfes (Some (block_grant t)) sn (amd_elements fi lens payload) (rx_of ?s2 (hp_RNTI t) (unat lc)) = (r', os)"
    using assms(18) by (simp add: fr(9) [OF k])
  have b2: "buffer ?s2 b ?msg" "buffer ?s2 p ?msg" using pq(2) fr(11) [OF assms(3)] by simp_all
  have ok2: "rlc_ok ?s2" "mac_ready ?s2" using fr(1,2) by simp_all
  obtain s3 where s3: "MacProcessPhyDataInd ?s2 b (of_nat (length ?msg)) = Some s3"
    "uplink_done ?s2 s3 (hp_RNTI t) lc (block_grant t) r' os"
    using phy_message_run [OF ok2 b2(1) _ assms(5-15) sp room rx assms(19)] out by auto
  have q1: "gRecvdPhyDataList s1 = [pn]" using fr(7) assms(20) by simp
  have n2: "us_heap ?s2 pn = Some (PhyObj \<lparr>ph_length = ucast (of_nat (length ?msg) :: u16), ph_pBuffer = b\<rparr>)" using pq(1) by simp
  have ne2: "pn \<noteq> p" "b \<noteq> p" using po pq(3,4) by auto
  have own: "own ?s2 - rlc_blocks ?s2 - set (gMacUeContext ?s2) - {pn, b} = own s - rlc_blocks s - set (gMacUeContext s)"
    using pq(3,4) fr(3,5,6) by auto
  from recv_one [OF ok2 refl q1 n2 b2 pq(5) ne2 out s3 k] obtain s' where s': "UlpRecvAndHandlePhyData s1 = Some s'" "rlc_ok s'"
    "mac_ready s'" "gRecvdPhyDataList s' = []" "buffer s' p ?msg" "rx_of s' (hp_RNTI t) (unat lc) = r'"
    "\<forall>q. \<forall>k<MAX_LC_ID. (q, k) \<noteq> (hp_RNTI t, unat lc) \<longrightarrow> rx_of s' q k = rx_of ?s2 q k"
    "rlc_log s' = rlc_log ?s2 @ map (\<lambda>(bs, gs). (hp_RNTI t, lc, bs, gs)) os" "mac_grant s' (hp_RNTI t) = Some (block_grant t)"
    "\<forall>q. q \<noteq> hp_RNTI t \<longrightarrow> mac_grant s' q = mac_grant ?s2 q"
    "own s' - rlc_blocks s' - set (gMacUeContext s') = own ?s2 - rlc_blocks ?s2 - set (gMacUeContext ?s2) - {pn, b}"
    by auto
  have "\<forall>q. \<forall>k<MAX_LC_ID. (q, k) \<noteq> (hp_RNTI t, unat lc) \<longrightarrow> rx_of s' q k = rx_of s q k" using s'(7) fr(9) by simp
  moreover have "\<forall>q. q \<noteq> hp_RNTI t \<longrightarrow> mac_grant s' q = mac_grant s q" using s'(10) fr(8) by simp
  moreover have "rlc_log s' = rlc_log s @ map (\<lambda>(bs, gs). (hp_RNTI t, lc, bs, gs)) os" using s'(8) fr(4) by simp
  ultimately show ?thesis using s1(1) s'(1-6,9,11) own by metis
qed

theorem queued_message_delivered_witness:
  "case with_buffer some_message idle_state of (p, s) \<Rightarrow>
     \<exists>s1 s'. PhyUlDataInd True s p 72 = Some s1 \<and> UlpRecvAndHandlePhyData s1 = Some s' \<and> gRecvdPhyDataList s' = [] \<and>
       rlc_log s' = [(61, 2, [10, 11, 12], [\<lparr>ur_rbNum = 3, ur_ta = 31, ur_prbPower = 77\<rparr>])] \<and>
       own s' - rlc_blocks s' - set (gMacUeContext s') = {p}"
proof (rule some_message_state)
  fix p s
  assume s: "with_buffer some_message idle_state = (p, s)"
    "buffer s p (phy_message some_head some_ind some_block (mac_pdu [(29, [0x41])] (2, amd_pdu 0 0 5 [] [10, 11, 12]) @ []))"
    "spare 15 s" "rlc_ok s" "mac_ready s" "rlc_blocks s = {}" "\<And>r k. rx_of s r k = (None, [])" "rlc_log s = []" "own s = {p}"
    "set (gMacUeContext s) = {}"
  note f = some_message_facts
  have nb: "p \<notin> rlc_blocks s" by (simp add: s(6))
  have sp: "spare (12 + 2 * length ([] :: u16 list)) s" using spare_le [OF s(3), of 12] by simp
  have room: "fst (rx_of s (hp_RNTI some_block) (unat (2 :: u8))) \<noteq> None \<longrightarrow>
      part_room s (partial_ptr s (hp_RNTI some_block) (unat (2 :: u8))) (length [10 :: u8, 11, 12])" by (simp add: s(7))
  show ?thesis
    using queued_message_delivered [OF s(4,5,2) nb _ _ _ f(7) f(2-5) _ f(6,10) sp room _ f(9) with_buffer_queue [OF s(1)]] f(1,8) s(1)
    by (simp add: s(6-10) block_grant_def) blast
qed

end
