(* ===== verification/Lte_Config.thy ===== *)
theory Lte_Config
  imports Ulp_Prelude
begin

text \<open>
  The configuration (\<open>ulp/src/lteConfig.c\<close>, \<open>cm/src/loggerConfig.c\<close>): a JSON
  file is read into the global record, field by field; a value of the wrong kind leaves the default.
  What the tasks derive from it at their start divides by the polling interval. The parser of JSON
  (\<open>cm/src/cJSON.c\<close>, a vendored library) is a parameter; its search in an object is
  modelled.
\<close>

section \<open>JSON items\<close>

text \<open>
  Type bits, \<open>valuestring\<close>, \<open>valueint\<close>, the name of the item in its object,
  the items below it.
\<close>

datatype cJSON = CJSON (js_type: u32) (js_valuestring: "string option") (js_valueint: int)
  (js_string: "string option") (js_child: "cJSON list")

abbreviation (input) cJSON_False :: u32 where "cJSON_False \<equiv> 1"
abbreviation (input) cJSON_True :: u32 where "cJSON_True \<equiv> 2"
abbreviation (input) cJSON_Number :: u32 where "cJSON_Number \<equiv> 8"
abbreviation (input) cJSON_String :: u32 where "cJSON_String \<equiv> 16"
abbreviation (input) cJSON_Array :: u32 where "cJSON_Array \<equiv> 32"
abbreviation (input) cJSON_Object :: u32 where "cJSON_Object \<equiv> 64"

text \<open>The answers: undefined (a name is compared with a null string), not found, found.\<close>

fun get_object_item :: "cJSON list \<Rightarrow> string \<Rightarrow> cJSON option option" where
  "get_object_item [] name = Some None"
| "get_object_item (x # xs) name =
     (case js_string x of None \<Rightarrow> None
      | Some n \<Rightarrow> if n = name then Some (Some x) else get_object_item xs name)"

definition cJSON_GetObjectItemCaseSensitive :: "cJSON \<Rightarrow> string \<Rightarrow> cJSON option option" where
  "cJSON_GetObjectItemCaseSensitive j name = get_object_item (js_child j) name"

definition cJSON_IsBool :: "cJSON \<Rightarrow> bool" where
  "cJSON_IsBool j \<longleftrightarrow> js_type j AND (cJSON_True OR cJSON_False) \<noteq> 0"

section \<open>The configuration\<close>

record LoggerConfig =
  lc_logLevel :: u32
  lc_logType :: u32
  lc_logToConsoleFlag :: u8
  lc_logToFileFlag :: u8
  lc_maxLogFileSize :: u32
  lc_logFilePath :: string
  lc_logToSocketFlag :: u8
  lc_logServerIp :: string
  lc_logServerPort :: u16
  lc_logModuleNameFlag :: u8
  lc_logFileNameFlag :: u8
  lc_logFuncNameFlag :: u8
  lc_logThreadIdFlag :: u8
  lc_asyncWaitTime :: u32
  lc_logBufferingSize :: u32

record LteKpiConfig =
  kc_reportType :: u32
  kc_reportFilePeriod :: u32
  kc_kpiFileName :: string
  kc_detailFilePath :: string
  kc_udpPort :: u16
  kc_reportDebugInfoFlag :: u8

record LteConfig =
  cf_pollingInterval :: int
  cf_resCleanupTimer :: int
  cf_ueIdentityWaitTime :: int
  cf_oamIp :: string
  cf_oamUdpPort :: u16
  cf_explicitInitQmssFlag :: u8
  cf_reportToDpeFlag :: u8
  cf_dpeIp :: string
  cf_dpeUdpPort :: u16
  cf_logConfig :: LoggerConfig
  cf_kpiConfig :: LteKpiConfig

abbreviation (input) MAX_IP_ADDR_LENGTH :: nat where "MAX_IP_ADDR_LENGTH \<equiv> 64"
abbreviation (input) MAX_LOG_FILE_PATH_LENGTH :: nat where "MAX_LOG_FILE_PATH_LENGTH \<equiv> 128"
abbreviation (input) MAX_LOG_SERVER_IP_LENGTH :: nat where "MAX_LOG_SERVER_IP_LENGTH \<equiv> 64"
abbreviation (input) MAX_KPI_FILE_NAME_LENGTH :: nat where "MAX_KPI_FILE_NAME_LENGTH \<equiv> 128"
abbreviation (input) MAX_LOG_BLOCK_SIZE :: nat where "MAX_LOG_BLOCK_SIZE \<equiv> 16384"

definition gLteConfig :: LteConfig where
  "gLteConfig = \<lparr>cf_pollingInterval = 5, cf_resCleanupTimer = 10000, cf_ueIdentityWaitTime = 1000,
     cf_oamIp = ''127.0.0.1'', cf_oamUdpPort = 55012, cf_explicitInitQmssFlag = 1,
     cf_reportToDpeFlag = 0, cf_dpeIp = ''127.0.0.1'', cf_dpeUdpPort = 3737,
     cf_logConfig = \<lparr>lc_logLevel = 0, lc_logType = 0, lc_logToConsoleFlag = 1, lc_logToFileFlag = 0,
       lc_maxLogFileSize = 1024 * 1024 * 5, lc_logFilePath = '''', lc_logToSocketFlag = 0,
       lc_logServerIp = ''127.0.0.1'', lc_logServerPort = 5997, lc_logModuleNameFlag = 0, lc_logFileNameFlag = 0,
       lc_logFuncNameFlag = 1, lc_logThreadIdFlag = 1, lc_asyncWaitTime = 5, lc_logBufferingSize = 1024 * 4\<rparr>,
     cf_kpiConfig = \<lparr>kc_reportType = 0, kc_reportFilePeriod = 10000, kc_kpiFileName = '''',
       kc_detailFilePath = '''', kc_udpPort = 0, kc_reportDebugInfoFlag = 0\<rparr>\<rparr>"

text \<open>The comparison of strings: the lengths, then the characters by index.\<close>

fun same_from :: "nat \<Rightarrow> string \<Rightarrow> string \<Rightarrow> bool" where
  "same_from 0 src dst = True"
| "same_from (Suc n) src dst = (if src ! n \<noteq> dst ! n then False else same_from n src dst)"

definition IsStringEqual :: "string option \<Rightarrow> string option \<Rightarrow> bool" where
  "IsStringEqual src dst = (case (src, dst) of
     (Some s, Some d) \<Rightarrow> if length s \<noteq> length d then False else same_from (length s) s d
   | _ \<Rightarrow> False)"

section \<open>Reading fields\<close>

text \<open>
  The four patterns the code repeats: a number that passes a check, a truth value by its type
  or by its type bits, and a string that fits.  An item that is missing or does not pass
  leaves the field; a string item without a string is undefined (\<open>strlen\<close> of null, or
  null printed in the message of an unknown level).
\<close>

definition cfg_number :: "string \<Rightarrow> (int \<Rightarrow> bool) \<Rightarrow> (int \<Rightarrow> 'c \<Rightarrow> 'c) \<Rightarrow> cJSON \<Rightarrow> 'c \<Rightarrow> 'c option" where
  "cfg_number name check store j c = do {
     it \<leftarrow> cJSON_GetObjectItemCaseSensitive j name;
     Some (case it of None \<Rightarrow> c
       | Some i \<Rightarrow> if js_type i = cJSON_Number \<and> check (js_valueint i) then store (js_valueint i) c else c) }"

definition cfg_flag :: "string \<Rightarrow> (u8 \<Rightarrow> 'c \<Rightarrow> 'c) \<Rightarrow> cJSON \<Rightarrow> 'c \<Rightarrow> 'c option" where
  "cfg_flag name store j c = do {
     it \<leftarrow> cJSON_GetObjectItemCaseSensitive j name;
     Some (case it of None \<Rightarrow> c
       | Some i \<Rightarrow> if js_type i = cJSON_True \<or> js_type i = cJSON_False then store (of_int (js_valueint i)) c else c) }"

definition cfg_bool :: "string \<Rightarrow> (u8 \<Rightarrow> 'c \<Rightarrow> 'c) \<Rightarrow> cJSON \<Rightarrow> 'c \<Rightarrow> 'c option" where
  "cfg_bool name store j c = do {
     it \<leftarrow> cJSON_GetObjectItemCaseSensitive j name;
     Some (case it of None \<Rightarrow> c
       | Some i \<Rightarrow> if cJSON_IsBool i then store (of_int (js_valueint i)) c else c) }"

definition cfg_string :: "string \<Rightarrow> nat \<Rightarrow> (string \<Rightarrow> 'c \<Rightarrow> 'c) \<Rightarrow> cJSON \<Rightarrow> 'c \<Rightarrow> 'c option" where
  "cfg_string name cap store j c = do {
     it \<leftarrow> cJSON_GetObjectItemCaseSensitive j name;
     (case it of None \<Rightarrow> Some c
      | Some i \<Rightarrow> if js_type i = cJSON_String then
            (case js_valuestring i of None \<Rightarrow> None
             | Some v \<Rightarrow> Some (if length v < cap then store v c else c))
          else Some c) }"

definition cfg_level :: "cJSON \<Rightarrow> LoggerConfig \<Rightarrow> LoggerConfig option" where
  "cfg_level j c = do {
     it \<leftarrow> cJSON_GetObjectItemCaseSensitive j ''LogLevel'';
     (case it of None \<Rightarrow> Some c
       | Some i \<Rightarrow> if js_type i = cJSON_String then
           (let v = js_valuestring i in
            if IsStringEqual v (Some ''TRACE'') then Some (c\<lparr>lc_logLevel := 0\<rparr>)
            else if IsStringEqual v (Some ''DEBUG'') then Some (c\<lparr>lc_logLevel := 1\<rparr>)
            else if IsStringEqual v (Some ''INFO'') then Some (c\<lparr>lc_logLevel := 2\<rparr>)
            else if IsStringEqual v (Some ''WARNING'') then Some (c\<lparr>lc_logLevel := 3\<rparr>)
            else if IsStringEqual v (Some ''ERROR'') then Some (c\<lparr>lc_logLevel := 4\<rparr>)
            else if v = None then None
            else Some (c\<lparr>lc_logLevel := 2\<rparr>))
         else Some c) }"

definition LoggerParseConfig :: "cJSON \<Rightarrow> LoggerConfig \<Rightarrow> LoggerConfig option" where
  "LoggerParseConfig j c = do {
     c \<leftarrow> cfg_level j c;
     c \<leftarrow> cfg_number ''LogType'' (\<lambda>v. v \<ge> 0 \<and> v < 3) (\<lambda>v c. c\<lparr>lc_logType := of_int v\<rparr>) j c;
     c \<leftarrow> cfg_flag ''LogToConsole'' (\<lambda>v c. c\<lparr>lc_logToConsoleFlag := v\<rparr>) j c;
     c \<leftarrow> cfg_flag ''LogToFile'' (\<lambda>v c. c\<lparr>lc_logToFileFlag := v\<rparr>) j c;
     c \<leftarrow> cfg_number ''MaxLogFileSize'' (\<lambda>v. True) (\<lambda>v c. c\<lparr>lc_maxLogFileSize := of_int v\<rparr>) j c;
     c \<leftarrow> cfg_string ''LogFilePath'' MAX_LOG_FILE_PATH_LENGTH (\<lambda>v c. c\<lparr>lc_logFilePath := v\<rparr>) j c;
     c \<leftarrow> cfg_bool ''LogToSocket'' (\<lambda>v c. c\<lparr>lc_logToSocketFlag := v\<rparr>) j c;
     c \<leftarrow> cfg_string ''LogServerIp'' MAX_LOG_SERVER_IP_LENGTH (\<lambda>v c. c\<lparr>lc_logServerIp := v\<rparr>) j c;
     c \<leftarrow> cfg_number ''LogServerPort'' (\<lambda>v. True) (\<lambda>v c. c\<lparr>lc_logServerPort := of_int v\<rparr>) j c;
     c \<leftarrow> cfg_flag ''LogModuleName'' (\<lambda>v c. c\<lparr>lc_logModuleNameFlag := v\<rparr>) j c;
     c \<leftarrow> cfg_flag ''LogFileName'' (\<lambda>v c. c\<lparr>lc_logFileNameFlag := v\<rparr>) j c;
     c \<leftarrow> cfg_flag ''LogFuncName'' (\<lambda>v c. c\<lparr>lc_logFuncNameFlag := v\<rparr>) j c;
     c \<leftarrow> cfg_flag ''LogThreadId'' (\<lambda>v c. c\<lparr>lc_logThreadIdFlag := v\<rparr>) j c;
     c \<leftarrow> cfg_number ''LogAsyncWaitTime'' (\<lambda>v. True) (\<lambda>v c. c\<lparr>lc_asyncWaitTime := of_int v\<rparr>) j c;
     cfg_number ''LogBufferingSize'' (\<lambda>v. v \<le> int MAX_LOG_BLOCK_SIZE) (\<lambda>v c. c\<lparr>lc_logBufferingSize := of_int v\<rparr>) j c }"

definition parse_kpi :: "cJSON \<Rightarrow> LteKpiConfig \<Rightarrow> LteKpiConfig option" where
  "parse_kpi j c = do {
     c \<leftarrow> cfg_number ''ReportType'' (\<lambda>v. v \<le> 3 \<and> v \<ge> 0) (\<lambda>v c. c\<lparr>kc_reportType := of_int v\<rparr>) j c;
     c \<leftarrow> cfg_number ''ReportFilePeriod'' (\<lambda>v. True) (\<lambda>v c. c\<lparr>kc_reportFilePeriod := of_int v\<rparr>) j c;
     c \<leftarrow> cfg_string ''KpiFileName'' MAX_KPI_FILE_NAME_LENGTH (\<lambda>v c. c\<lparr>kc_kpiFileName := v\<rparr>) j c;
     c \<leftarrow> cfg_string ''KpiDetailFilePath'' MAX_KPI_FILE_NAME_LENGTH (\<lambda>v c. c\<lparr>kc_detailFilePath := v\<rparr>) j c;
     c \<leftarrow> cfg_number ''UdpPort'' (\<lambda>v. True) (\<lambda>v c. c\<lparr>kc_udpPort := of_int v\<rparr>) j c;
     cfg_bool ''ReportDebugInfo'' (\<lambda>v c. c\<lparr>kc_reportDebugInfoFlag := v\<rparr>) j c }"

text \<open>A nested object is handed on when there is an item of that name, whatever its type.\<close>

definition cfg_object :: "string \<Rightarrow> (cJSON \<Rightarrow> 'd \<Rightarrow> 'd option) \<Rightarrow> cJSON \<Rightarrow> 'd \<Rightarrow> 'd option" where
  "cfg_object name parse j c = do {
     it \<leftarrow> cJSON_GetObjectItemCaseSensitive j name;
     (case it of None \<Rightarrow> Some c | Some i \<Rightarrow> parse i c) }"

definition apply_config :: "cJSON \<Rightarrow> LteConfig \<Rightarrow> LteConfig option" where
  "apply_config j c = do {
     c \<leftarrow> cfg_number ''PollingInterval'' (\<lambda>v. v > 0) (\<lambda>v c. c\<lparr>cf_pollingInterval := v\<rparr>) j c;
     c \<leftarrow> cfg_number ''ResCleanupTimer'' (\<lambda>v. v > 0) (\<lambda>v c. c\<lparr>cf_resCleanupTimer := v\<rparr>) j c;
     c \<leftarrow> cfg_number ''UeIdentityWaitTime'' (\<lambda>v. v > 0) (\<lambda>v c. c\<lparr>cf_ueIdentityWaitTime := v\<rparr>) j c;
     c \<leftarrow> cfg_string ''OamServerIp'' MAX_IP_ADDR_LENGTH (\<lambda>v c. c\<lparr>cf_oamIp := v\<rparr>) j c;
     c \<leftarrow> cfg_number ''OamServerUdpPort'' (\<lambda>v. v > 0) (\<lambda>v c. c\<lparr>cf_oamUdpPort := of_int v\<rparr>) j c;
     c \<leftarrow> cfg_flag ''ExplicitInitQmss'' (\<lambda>v c. c\<lparr>cf_explicitInitQmssFlag := v\<rparr>) j c;
     c \<leftarrow> cfg_bool ''ReportToDpe'' (\<lambda>v c. c\<lparr>cf_reportToDpeFlag := v\<rparr>) j c;
     c \<leftarrow> cfg_string ''DpeIp'' MAX_IP_ADDR_LENGTH (\<lambda>v c. c\<lparr>cf_dpeIp := v\<rparr>) j c;
     c \<leftarrow> cfg_number ''DpeUdpPort'' (\<lambda>v. v > 0) (\<lambda>v c. c\<lparr>cf_dpeUdpPort := of_int v\<rparr>) j c;
     l \<leftarrow> cfg_object ''LoggerConfig'' LoggerParseConfig j (cf_logConfig c);
     c \<leftarrow> Some (c\<lparr>cf_logConfig := l\<rparr>);
     k \<leftarrow> cfg_object ''KpiConfig'' parse_kpi j (cf_kpiConfig c);
     Some (c\<lparr>cf_kpiConfig := k\<rparr>) }"

text \<open>
  The file: \<open>None\<close> when it has no name or cannot be opened or read. The code does not
  terminate what it has read, so the parser gets the bytes up to the first null byte of the file or of
  what the buffer on the stack holds behind it, and runs out of the buffer when there is none.
\<close>

definition ParseConfig :: "(string \<Rightarrow> cJSON option) \<Rightarrow> string option \<Rightarrow> (nat \<Rightarrow> char) \<Rightarrow> LteConfig \<Rightarrow> LteConfig option" where
  "ParseConfig parse file stack c = (case file of None \<Rightarrow> Some c
     | Some bytes \<Rightarrow>
         (let numBytesRead = min (length bytes) 8192 in
          if numBytesRead = 0 \<or> numBytesRead = 8192 then Some c
          else let jsonBuffer = bytes @ map stack [numBytesRead..<8192] in
            if CHR 0x00 \<notin> set jsonBuffer then None
            else case parse (takeWhile (\<lambda>x. x \<noteq> CHR 0x00) jsonBuffer) of
                None \<Rightarrow> Some c
              | Some root \<Rightarrow> apply_config root c))"

section \<open>What the tasks derive from it\<close>

text \<open>Division by zero is undefined.\<close>

definition worker_limit :: "LteConfig \<Rightarrow> u32 option" where
  "worker_limit c = (if cf_pollingInterval c = 0 then None
     else let n = of_int (cf_ueIdentityWaitTime c div cf_pollingInterval c) in Some (if n = 0 then 200 else n))"

definition cleaner_limit :: "LteConfig \<Rightarrow> u32 \<Rightarrow> u32" where
  "cleaner_limit c old = (if cf_pollingInterval c > 0 then
       let n = of_int (cf_resCleanupTimer c div cf_pollingInterval c) in (if n = 0 then 1000 else n)
     else old)"

text \<open>
  The period is unsigned, so the interval is converted; the quotient becomes a signed number.
\<close>

definition kpi_notify_count :: "LteConfig \<Rightarrow> int option" where
  "kpi_notify_count c =
     (let d = of_int (cf_pollingInterval c) :: u32 in
      if d = 0 then None
      else let n = sint (kc_reportFilePeriod (cf_kpiConfig c) div d) in Some (if n < 1 then 1 else n))"

section \<open>Well-typed configurations\<close>

lemma same_from_iff: "same_from n s d \<longleftrightarrow> (\<forall>i<n. s ! i = d ! i)"
  by (induction n) (auto simp: less_Suc_eq)

lemma IsStringEqual_iff [simp]: "IsStringEqual s d \<longleftrightarrow> s = d \<and> s \<noteq> None"
  by (auto simp: IsStringEqual_def same_from_iff list_eq_iff_nth_eq split: option.splits)

text \<open>
  What the parser returns (its documented behaviour): items of one of the types, whole numbers in the
  range of \<open>int\<close>, strings with their text, truth values 0 and 1, and names exactly below
  objects.
\<close>

fun parsed :: "cJSON \<Rightarrow> bool" where
  "parsed (CJSON t vs vi nm cs) \<longleftrightarrow>
     t \<in> {1, 2, 4, 8, 16, 32, 64} \<and> - (2 ^ 31) \<le> vi \<and> vi < 2 ^ 31 \<and>
     (t = cJSON_False \<longrightarrow> vi = 0) \<and> (t = cJSON_True \<longrightarrow> vi = 1) \<and> (t = cJSON_String \<longrightarrow> vs \<noteq> None) \<and>
     (t = cJSON_Object \<longrightarrow> (\<forall>c\<in>set cs. js_string c \<noteq> None)) \<and>
     (t = cJSON_Array \<longrightarrow> (\<forall>c\<in>set cs. js_string c = None)) \<and>
     (t \<noteq> cJSON_Object \<and> t \<noteq> cJSON_Array \<longrightarrow> cs = []) \<and> (\<forall>c\<in>set cs. parsed c)"

text \<open>An item can be searched by name unless it is an array with elements.\<close>

definition searchable :: "cJSON \<Rightarrow> bool" where
  "searchable j \<longleftrightarrow> js_type j \<noteq> cJSON_Array \<or> js_child j = []"

definition child :: "cJSON \<Rightarrow> string \<Rightarrow> cJSON option" where
  "child j name = find (\<lambda>i. js_string i = Some name) (js_child j)"

definition section_ok :: "cJSON \<Rightarrow> string \<Rightarrow> bool" where
  "section_ok j name \<longleftrightarrow> (case child j name of None \<Rightarrow> True | Some i \<Rightarrow> searchable i)"

definition config_tree :: "cJSON \<Rightarrow> bool" where
  "config_tree j \<longleftrightarrow> searchable j \<and> section_ok j ''LoggerConfig'' \<and> section_ok j ''KpiConfig''"

text \<open>The configuration every task may rely on.\<close>

definition log_config_ok :: "LoggerConfig \<Rightarrow> bool" where
  "log_config_ok c \<longleftrightarrow> lc_logLevel c < 5 \<and> lc_logType c < 3 \<and> length (lc_logFilePath c) < MAX_LOG_FILE_PATH_LENGTH \<and>
     length (lc_logServerIp c) < MAX_LOG_SERVER_IP_LENGTH \<and>
     {lc_logToConsoleFlag c, lc_logToFileFlag c, lc_logToSocketFlag c, lc_logModuleNameFlag c, lc_logFileNameFlag c,
      lc_logFuncNameFlag c, lc_logThreadIdFlag c} \<subseteq> {0, 1}"

definition kpi_config_ok :: "LteKpiConfig \<Rightarrow> bool" where
  "kpi_config_ok c \<longleftrightarrow> kc_reportType c \<le> 3 \<and> length (kc_kpiFileName c) < MAX_KPI_FILE_NAME_LENGTH \<and>
     length (kc_detailFilePath c) < MAX_KPI_FILE_NAME_LENGTH \<and> kc_reportDebugInfoFlag c \<in> {0, 1}"

definition config_ok :: "LteConfig \<Rightarrow> bool" where
  "config_ok c \<longleftrightarrow> {cf_pollingInterval c, cf_resCleanupTimer c, cf_ueIdentityWaitTime c} \<subseteq> {0<..<2 ^ 31} \<and>
     length (cf_oamIp c) < MAX_IP_ADDR_LENGTH \<and> length (cf_dpeIp c) < MAX_IP_ADDR_LENGTH \<and>
     {cf_explicitInitQmssFlag c, cf_reportToDpeFlag c} \<subseteq> {0, 1} \<and>
     log_config_ok (cf_logConfig c) \<and> kpi_config_ok (cf_kpiConfig c)"

section \<open>Reading keeps it\<close>

lemma get_object_item_found:
  "\<forall>i\<in>set xs. js_string i \<noteq> None \<Longrightarrow> get_object_item xs name = Some (find (\<lambda>i. js_string i = Some name) xs)"
  by (induction xs) auto

lemma get_object_item_array:
  "\<forall>i\<in>set xs. js_string i = None \<Longrightarrow> get_object_item xs name = (if xs = [] then Some None else None)"
  by (cases xs) auto

lemma item_lookup:
  "parsed j \<Longrightarrow> cJSON_GetObjectItemCaseSensitive j name = (if searchable j then Some (child j name) else None)"
  by (cases j) (auto simp: cJSON_GetObjectItemCaseSensitive_def searchable_def child_def get_object_item_found get_object_item_array)

lemma child_parsed: "parsed j \<Longrightarrow> child j name = Some i \<Longrightarrow> parsed i"
  by (cases j) (auto simp: child_def find_Some_iff)

lemma parsed_item:
  assumes "parsed i"
  shows "- (2 ^ 31) \<le> js_valueint i" "js_valueint i < 2 ^ 31" "js_type i = cJSON_String \<Longrightarrow> js_valuestring i \<noteq> None"
    and "cJSON_IsBool i \<Longrightarrow> js_valueint i \<in> {0, 1}"
    and "js_type i = cJSON_True \<or> js_type i = cJSON_False \<Longrightarrow> js_valueint i \<in> {0, 1}"
  using assms by (cases i; auto simp: cJSON_IsBool_def)+

text \<open>A step of the reading that is defined and keeps a predicate.\<close>

definition keeps :: "('c \<Rightarrow> bool) \<Rightarrow> ('c \<Rightarrow> 'c option) \<Rightarrow> bool" where
  "keeps P f \<longleftrightarrow> (\<forall>c. P c \<longrightarrow> (\<exists>c'. f c = Some c' \<and> P c'))"

named_theorems reads \<open>steps of the reading that keep a predicate\<close>

lemma keeps_bind [reads]: "keeps P f \<Longrightarrow> keeps P g \<Longrightarrow> keeps P (\<lambda>c. Option.bind (f c) g)"
  unfolding keeps_def by (metis bind.bind_lunit)

lemma below_three: "0 \<le> v \<Longrightarrow> v < 3 \<Longrightarrow> (word_of_int v :: u32) < 3"
  by (simp add: word_less_def uint_word_of_int)

lemma upto_three: "0 \<le> v \<Longrightarrow> v \<le> 3 \<Longrightarrow> (word_of_int v :: u32) \<le> 3"
  by (simp add: word_le_def uint_word_of_int)

text \<open>The steps read an item of the tree that can be searched.\<close>

definition readable :: "cJSON \<Rightarrow> bool" where
  "readable j \<longleftrightarrow> parsed j \<and> searchable j"

lemma lookup: "readable j \<Longrightarrow> cJSON_GetObjectItemCaseSensitive j name = Some (child j name)"
  by (simp add: item_lookup readable_def)

lemma readable_child: "readable j \<Longrightarrow> child j name = Some i \<Longrightarrow> parsed i"
  by (auto simp: readable_def child_parsed)

lemma keeps_number [reads]:
  "readable j \<Longrightarrow> (\<And>v c. - (2 ^ 31) \<le> v \<Longrightarrow> v < 2 ^ 31 \<Longrightarrow> check v \<Longrightarrow> P c \<Longrightarrow> P (store v c)) \<Longrightarrow>
    keeps P (cfg_number name check store j)"
  using parsed_item(1,2) readable_child by (auto simp: keeps_def cfg_number_def lookup split: option.splits)

lemma keeps_flag [reads]:
  "readable j \<Longrightarrow> (\<And>v c. v \<in> {0, 1} \<Longrightarrow> P c \<Longrightarrow> P (store v c)) \<Longrightarrow> keeps P (cfg_flag name store j)"
  using parsed_item(5) readable_child [of j name] by (fastforce simp: keeps_def cfg_flag_def lookup split: option.splits)

lemma keeps_bool [reads]:
  "readable j \<Longrightarrow> (\<And>v c. v \<in> {0, 1} \<Longrightarrow> P c \<Longrightarrow> P (store v c)) \<Longrightarrow> keeps P (cfg_bool name store j)"
  using parsed_item(4) readable_child [of j name] by (fastforce simp: keeps_def cfg_bool_def lookup split: option.splits)

lemma keeps_string [reads]:
  "readable j \<Longrightarrow> (\<And>v c. length v < cap \<Longrightarrow> P c \<Longrightarrow> P (store v c)) \<Longrightarrow> keeps P (cfg_string name cap store j)"
  using parsed_item(3) readable_child [of j name] by (fastforce simp: keeps_def cfg_string_def lookup split: option.splits)

lemma keeps_level [reads]: "readable j \<Longrightarrow> keeps log_config_ok (cfg_level j)"
  using parsed_item(3) readable_child [of j "''LogLevel''"]
  by (fastforce simp: keeps_def cfg_level_def lookup log_config_ok_def Let_def split: option.splits)

lemma keeps_log: "readable j \<Longrightarrow> keeps log_config_ok (LoggerParseConfig j)"
  unfolding LoggerParseConfig_def [abs_def] by (intro reads) (auto simp: log_config_ok_def below_three)

lemma keeps_kpi: "readable j \<Longrightarrow> keeps kpi_config_ok (parse_kpi j)"
  unfolding parse_kpi_def [abs_def] by (intro reads) (auto simp: kpi_config_ok_def upto_three)

text \<open>The first fields are read by a step of their own; then the two nested objects.\<close>

lemma item_array: "parsed j \<Longrightarrow> \<not> searchable j \<Longrightarrow> cJSON_GetObjectItemCaseSensitive j name = None"
  by (simp add: item_lookup)

lemma array_undefined:
  assumes "parsed j" "\<not> searchable j"
  shows "apply_config j c = None" "LoggerParseConfig j l = None" "parse_kpi j k = None"
  using item_array [OF assms]
  by (simp_all add: apply_config_def LoggerParseConfig_def parse_kpi_def cfg_number_def cfg_level_def)

lemma object_step:
  assumes "readable j" "\<And>i. readable i \<Longrightarrow> keeps P (f i)" "\<And>i l. parsed i \<Longrightarrow> \<not> searchable i \<Longrightarrow> f i l = None" "P l"
  shows "if section_ok j name then \<exists>l'. cfg_object name f j l = Some l' \<and> P l' else cfg_object name f j l = None"
proof (cases "child j name")
  case None
  then show ?thesis using assms(4) by (simp add: cfg_object_def lookup [OF assms(1)] section_ok_def)
next
  case (Some i)
  then have "parsed i" by (rule readable_child [OF assms(1)])
  then show ?thesis
    using assms(2) [of i] assms(3,4) Some by (auto simp: cfg_object_def lookup [OF assms(1)] section_ok_def readable_def keeps_def)
qed

lemma keeps_then: "keeps P f \<Longrightarrow> P c \<Longrightarrow> (\<And>c. P c \<Longrightarrow> Q (g c)) \<Longrightarrow> Q (Option.bind (f c) g)"
  by (auto simp: keeps_def)

lemma apply_config_cases:
  assumes "parsed j" "config_ok c"
  shows "if config_tree j then \<exists>c'. apply_config j c = Some c' \<and> config_ok c' else apply_config j c = None"
proof (cases "searchable j")
  case False
  then show ?thesis using array_undefined(1) [OF assms(1)] by (simp add: config_tree_def)
next
  case True
  then have r: "readable j" using assms(1) by (simp add: readable_def)
  define Q where "Q x \<longleftrightarrow> (if section_ok j ''LoggerConfig'' \<and> section_ok j ''KpiConfig''
    then \<exists>c'. x = Some c' \<and> config_ok c' else x = None)" for x
  have objects: "Q (do {
     l \<leftarrow> cfg_object ''LoggerConfig'' LoggerParseConfig j (cf_logConfig c);
     c \<leftarrow> Some (c\<lparr>cf_logConfig := l\<rparr>);
     k \<leftarrow> cfg_object ''KpiConfig'' parse_kpi j (cf_kpiConfig c);
     Some (c\<lparr>cf_kpiConfig := k\<rparr>) })" if "config_ok c" for c
  proof -
    have l: "log_config_ok (cf_logConfig c)" "kpi_config_ok (cf_kpiConfig c)" using that by (simp_all add: config_ok_def)
    note steps = object_step [where f = LoggerParseConfig and name = "''LoggerConfig''", OF r keeps_log array_undefined(2) l(1)]
      object_step [where f = parse_kpi and name = "''KpiConfig''", OF r keeps_kpi array_undefined(3) l(2)]
    show ?thesis using steps that unfolding Q_def by (auto simp: config_ok_def split: if_splits)
  qed
  have "Q (apply_config j c)"
    unfolding apply_config_def
    by (intro keeps_then [where P = config_ok and Q = Q] reads r objects assms(2)) (auto simp: config_ok_def)
  then show ?thesis using True by (simp add: Q_def config_tree_def)
qed

text \<open>The limits the tasks compute from a good configuration.\<close>

definition limits_ok :: "LteConfig \<Rightarrow> bool" where
  "limits_ok c \<longleftrightarrow> (\<exists>n. worker_limit c = Some n \<and> 0 < n) \<and> (\<forall>old. 0 < cleaner_limit c old) \<and>
     (\<exists>n. kpi_notify_count c = Some n \<and> 1 \<le> n)"

lemma config_limits: "config_ok c \<Longrightarrow> limits_ok c"
  by (auto simp: limits_ok_def config_ok_def worker_limit_def cleaner_limit_def kpi_notify_count_def Let_def
      word_neq_0_conv [symmetric] word_of_int_eq_0_iff dvd_imp_le zdvd_not_zless)

text \<open>
  What the parser is given: the file, and behind it what was on the stack, up to a null byte.
\<close>

definition json_text :: "string \<Rightarrow> (nat \<Rightarrow> char) \<Rightarrow> string option" where
  "json_text bytes stack =
     (let b = bytes @ map stack [length bytes..<8192] in
      if CHR 0x00 \<in> set b then Some (takeWhile (\<lambda>x. x \<noteq> CHR 0x00) b) else None)"


lemma default_config_ok: "config_ok gLteConfig"
  by (simp add: config_ok_def log_config_ok_def kpi_config_ok_def gLteConfig_def)

definition sample_tree :: cJSON where
  "sample_tree = CJSON cJSON_Object None 0 None
     [CJSON cJSON_Number None 20 (Some ''PollingInterval'') [], CJSON cJSON_Number None 0 (Some ''ResCleanupTimer'') [],
      CJSON cJSON_Object None 0 (Some ''LoggerConfig'') [CJSON cJSON_String (Some ''ERROR'') 0 (Some ''LogLevel'') []]]"


end
