(* ===== verification/Log_Text.thy ===== *)
theory Log_Text
  imports Lte_Config "HOL-Library.Signed_Division" "HOL-Library.Sublist"
begin

text \<open>
  The text of a log entry (\<open>cm/src/logger.c\<close>): character arrays with their capacity and the
  string functions of C the logger uses on them, the cached timestamp of
  \<open>LoggerGetTimestamp\<close>, and the line that \<open>LoggerWriteMsg\<close> and
  \<open>AsyncWriteMsg\<close> compose piece by piece.
\<close>

section \<open>Character arrays\<close>

abbreviation (input) NUL :: char where "NUL \<equiv> CHR 0x00"

type_synonym chars = "nat \<Rightarrow> char"

text \<open>Characters are stored from a position on; behind the capacity the behaviour is undefined.\<close>

definition put :: "nat \<Rightarrow> nat \<Rightarrow> string \<Rightarrow> chars \<Rightarrow> chars option" where
  "put cap pos t a = (if pos + length t \<le> cap
     then Some (\<lambda>i. if pos \<le> i \<and> i < pos + length t then t ! (i - pos) else a i) else None)"

primrec strlen_upto :: "nat \<Rightarrow> chars \<Rightarrow> nat \<Rightarrow> nat option" where
  "strlen_upto 0 a pos = None"
| "strlen_upto (Suc n) a pos = (if a pos = NUL then Some 0 else map_option Suc (strlen_upto n a (Suc pos)))"

definition c_strlen :: "nat \<Rightarrow> chars \<Rightarrow> nat \<Rightarrow> nat option" where
  "c_strlen cap a pos = strlen_upto (cap - pos) a pos"

text \<open>
  \<open>snprintf\<close> and \<open>vsnprintf\<close> of a text: nothing for size 0, else what fits and
  a null character. The callers compute the size as an \<open>int\<close>; a negative one becomes a huge
  unsigned bound.
\<close>

definition c_snprintf :: "nat \<Rightarrow> nat \<Rightarrow> int \<Rightarrow> string \<Rightarrow> chars \<Rightarrow> chars option" where
  "c_snprintf cap pos size_n t a =
     (if size_n = 0 then Some a
      else put cap pos ((if size_n > 0 then take (nat size_n - 1) t else t) @ [NUL]) a)"

text \<open>
  Decimal numbers, as \<open>%lu\<close>, \<open>%02d\<close> and \<open>%03d\<close> print them.
\<close>

fun dec :: "nat \<Rightarrow> string" where
  "dec n = (if n < 10 then [''0123456789'' ! n] else dec (n div 10) @ [''0123456789'' ! (n mod 10)])"

declare dec.simps [simp del]

definition fmt_int :: "nat \<Rightarrow> int \<Rightarrow> string" where
  "fmt_int w i = (if i < 0 then CHR ''-'' # replicate (w - 1 - length (dec (nat (- i)))) CHR ''0'' @ dec (nat (- i))
     else replicate (w - length (dec (nat i))) CHR ''0'' @ dec (nat i))"

section \<open>The cached timestamp\<close>

record stamp_cache =
  gCachedTimeStamp :: chars
  gPrevSysSecond :: int
  gPrevSysMilliSecond :: nat

definition no_stamp :: stamp_cache where
  "no_stamp = \<lparr>gCachedTimeStamp = (\<lambda>_. NUL), gPrevSysSecond = 0, gPrevSysMilliSecond = 0\<rparr>"

abbreviation (input) MAX_TIMESTAMP_LENGTH :: nat where "MAX_TIMESTAMP_LENGTH \<equiv> 32"
abbreviation (input) TIMESTAMP_MILLI_SECOND_OFFSET :: nat where "TIMESTAMP_MILLI_SECOND_OFFSET \<equiv> 20"
abbreviation (input) TIMESTAMP_SECOND_OFFSET :: nat where "TIMESTAMP_SECOND_OFFSET \<equiv> 17"

text \<open>
  \<open>clock t\<close> stands for the text \<open>strftime\<close> makes of \<open>localtime\<close>
  with the format of the code, a date and a time down to the second; it depends on the time zone.
\<close>

definition whole_stamp :: "(int \<Rightarrow> string) \<Rightarrow> int \<Rightarrow> nat \<Rightarrow> chars \<Rightarrow> chars option" where
  "whole_stamp clock tv_sec currMilliSecond a =
     (if length (clock tv_sec) \<ge> MAX_TIMESTAMP_LENGTH then None
      else do {
        a \<leftarrow> put MAX_TIMESTAMP_LENGTH 0 (clock tv_sec @ [NUL]) a;
        off \<leftarrow> c_strlen MAX_TIMESTAMP_LENGTH a 0;
        c_snprintf MAX_TIMESTAMP_LENGTH off (int MAX_TIMESTAMP_LENGTH - int off) (CHR ''.'' # fmt_int 3 (int currMilliSecond)) a })"

definition update_stamp :: "(int \<Rightarrow> string) \<Rightarrow> int \<Rightarrow> nat \<Rightarrow> stamp_cache \<Rightarrow> stamp_cache option" where
  "update_stamp clock tv_sec currMilliSecond c = do {
     a \<leftarrow> (if gPrevSysSecond c = 0 then whole_stamp clock tv_sec currMilliSecond (gCachedTimeStamp c)
       else if gPrevSysSecond c = tv_sec then
         c_snprintf MAX_TIMESTAMP_LENGTH TIMESTAMP_MILLI_SECOND_OFFSET
           (int MAX_TIMESTAMP_LENGTH - int TIMESTAMP_MILLI_SECOND_OFFSET) (fmt_int 3 (int currMilliSecond)) (gCachedTimeStamp c)
       else if gPrevSysSecond c sdiv 60 = tv_sec sdiv 60 then
         c_snprintf MAX_TIMESTAMP_LENGTH TIMESTAMP_SECOND_OFFSET
           (int MAX_TIMESTAMP_LENGTH - int TIMESTAMP_SECOND_OFFSET)
           (fmt_int 2 (sint (word_of_int tv_sec :: u32) smod 60) @ CHR ''.'' # fmt_int 3 (int currMilliSecond)) (gCachedTimeStamp c)
       else whole_stamp clock tv_sec currMilliSecond (gCachedTimeStamp c));
     Some \<lparr>gCachedTimeStamp = a, gPrevSysSecond = tv_sec, gPrevSysMilliSecond = currMilliSecond\<rparr> }"

definition LoggerGetTimestamp ::
  "(int \<Rightarrow> string) \<Rightarrow> nat \<Rightarrow> nat \<Rightarrow> int \<Rightarrow> nat \<Rightarrow> chars \<times> stamp_cache \<Rightarrow> (chars \<times> stamp_cache) option" where
  "LoggerGetTimestamp clock cap logBuff tv_sec tv_usec = (\<lambda>(a, c). do {
     currMilliSecond \<leftarrow> Some (tv_usec div 1000);
     c \<leftarrow> (if gPrevSysSecond c = tv_sec \<and> gPrevSysMilliSecond c = currMilliSecond then Some c
       else update_stamp clock tv_sec currMilliSecond c);
     off \<leftarrow> c_strlen MAX_TIMESTAMP_LENGTH (gCachedTimeStamp c) 0;
     a \<leftarrow> put cap logBuff (CHR ''['' # map (gCachedTimeStamp c) [0..<off] @ [CHR '']'', CHR '' '', NUL]) a;
     Some (a, c) })"

section \<open>A line\<close>

text \<open>
  A message: its format, its arguments as \<open>va_arg\<close> delivers them, and the text they make.
\<close>

record LogMsg =
  lm_moduleId :: string
  lm_logLevel :: u32
  lm_fileName :: string
  lm_funcName :: string
  lm_threadId :: nat
  lm_fmt :: string
  lm_args :: "nat \<Rightarrow> u32"
  lm_text :: string
  lm_sec :: int
  lm_usec :: nat

definition gLoggerLevelName_s :: "string list" where
  "gLoggerLevelName_s = [''TRACE'', ''DEBUG'', ''INFO '', ''WARN '', ''ERROR'']"

text \<open>Pieces copied as they are, and pieces printed into what is left of the given size.\<close>

definition lit :: "nat \<Rightarrow> nat \<Rightarrow> string \<Rightarrow> chars \<times> nat \<Rightarrow> (chars \<times> nat) option" where
  "lit cap base t = (\<lambda>(a, off). do { a \<leftarrow> put cap (base + off) t a; Some (a, off + length t) })"

definition printed :: "nat \<Rightarrow> nat \<Rightarrow> int \<Rightarrow> string \<Rightarrow> chars \<times> nat \<Rightarrow> (chars \<times> nat) option" where
  "printed cap base remain t = (\<lambda>(a, off). do {
     a \<leftarrow> c_snprintf cap (base + off) (remain - int off) t a;
     n \<leftarrow> c_strlen cap a (base + off);
     Some (a, off + n) })"

text \<open>
  A line is composed from \<open>base\<close> on in an array of \<open>cap\<close> characters, with
  \<open>remain\<close> characters for what is printed; the answer holds its length.
\<close>

definition log_line ::
  "(int \<Rightarrow> string) \<Rightarrow> LoggerConfig \<Rightarrow> nat \<Rightarrow> nat \<Rightarrow> int \<Rightarrow> LogMsg \<Rightarrow> chars \<Rightarrow> stamp_cache \<Rightarrow> (chars \<times> nat \<times> stamp_cache) option" where
  "log_line clock cfg cap base remain m a c = do {
     (a, c) \<leftarrow> LoggerGetTimestamp clock cap base (lm_sec m) (lm_usec m) (a, c);
     off \<leftarrow> c_strlen cap a base;
     x \<leftarrow> lit cap base (CHR ''['' # gLoggerLevelName_s ! unat (lm_logLevel m) @ ''] '') (a, off);
     x \<leftarrow> (if lc_logModuleNameFlag cfg \<noteq> 0 then lit cap base (CHR ''['' # lm_moduleId m @ ''] '') x else Some x);
     x \<leftarrow> (if lc_logThreadIdFlag cfg \<noteq> 0 then printed cap base remain (CHR ''['' # dec (lm_threadId m) @ ''] '') x else Some x);
     x \<leftarrow> (if lc_logFileNameFlag cfg \<noteq> 0 then lit cap base (CHR ''['' # lm_fileName m @ ''] '') x else Some x);
     x \<leftarrow> lit cap base ''- '' x;
     x \<leftarrow> (if lc_logFuncNameFlag cfg \<noteq> 0 then lit cap base (CHR ''['' # lm_funcName m @ ''], '') x else Some x);
     (a, off) \<leftarrow> printed cap base remain (lm_text m) x;
     Some (a, off, c) }"

section \<open>Strings in arrays\<close>

text \<open>A text stands at a position; and it ends there with a null character.\<close>

definition text_at :: "chars \<Rightarrow> nat \<Rightarrow> string \<Rightarrow> bool" where
  "text_at a pos t \<longleftrightarrow> map a [pos..<pos + length t] = t"

definition cstr :: "chars \<Rightarrow> nat \<Rightarrow> string \<Rightarrow> bool" where
  "cstr a pos t \<longleftrightarrow> text_at a pos t \<and> a (pos + length t) = NUL \<and> NUL \<notin> set t"

lemma text_at_nth: "text_at a pos t \<longleftrightarrow> (\<forall>i<length t. a (pos + i) = t ! i)"
  unfolding text_at_def list_eq_iff_nth_eq by simp

lemma text_at_Nil [simp]: "text_at a pos []"
  by (simp add: text_at_def)

lemma text_at_Cons [simp]: "text_at a pos (x # t) \<longleftrightarrow> a pos = x \<and> text_at a (Suc pos) t"
  by (simp add: text_at_nth All_less_Suc2)

lemma text_at_append [simp]: "text_at a pos (t @ u) \<longleftrightarrow> text_at a pos t \<and> text_at a (pos + length t) u"
  by (induction t arbitrary: pos) simp_all

lemma cstr_Cons: "cstr a pos (x # t) \<longleftrightarrow> a pos = x \<and> x \<noteq> NUL \<and> cstr a (Suc pos) t"
  by (auto simp: cstr_def)

lemma strlen_upto_cstr: "cstr a pos t \<Longrightarrow> length t < n \<Longrightarrow> strlen_upto n a pos = Some (length t)"
proof (induction n arbitrary: pos t)
  case (Suc n)
  then show ?case by (cases t) (auto simp: cstr_Cons cstr_def [of a pos "[]"])
qed simp

lemma c_strlen_cstr: "cstr a pos t \<Longrightarrow> pos + length t < cap \<Longrightarrow> c_strlen cap a pos = Some (length t)"
  by (auto simp: c_strlen_def intro!: strlen_upto_cstr)

section \<open>Writing pieces\<close>

lemma put_text:
  assumes "pos + length t \<le> cap"
  obtains a' where "put cap pos t a = Some a'" "text_at a' pos t" "\<And>i. i < pos \<or> pos + length t \<le> i \<Longrightarrow> a' i = a i"
proof (rule that)
  let ?a = "\<lambda>i. if pos \<le> i \<and> i < pos + length t then t ! (i - pos) else a i"
  show "put cap pos t a = Some ?a" using assms by (simp add: put_def)
qed (auto simp: text_at_nth)

text \<open>
  From \<open>base\<close> on the array holds the text so far; in front of it nothing has changed.
\<close>

definition wrote :: "chars \<Rightarrow> chars \<Rightarrow> nat \<Rightarrow> string \<Rightarrow> bool" where
  "wrote a0 a base t \<longleftrightarrow> (\<forall>i<base. a i = a0 i) \<and> text_at a base t"

lemma text_at_cong: "(\<And>i. i < length t \<Longrightarrow> a (pos + i) = b (pos + i)) \<Longrightarrow> text_at a pos t \<longleftrightarrow> text_at b pos t"
  by (simp add: text_at_nth)

lemma put_wrote:
  assumes "wrote a0 a base t" "base + length t + length u \<le> cap"
  obtains a' where "put cap (base + length t) u a = Some a'" "wrote a0 a' base (t @ u)"
proof -
  obtain a' where a': "put cap (base + length t) u a = Some a'" "text_at a' (base + length t) u"
    "\<And>i. i < base + length t \<or> base + length t + length u \<le> i \<Longrightarrow> a' i = a i"
    by (rule put_text [of "base + length t" u cap a]) (use assms(2) in simp_all)
  have "text_at a' base t" using assms(1) a'(3) by (simp add: wrote_def text_at_nth)
  then have "wrote a0 a' base (t @ u)" using assms(1) a'(2,3) by (simp add: wrote_def)
  with a'(1) show thesis by (rule that)
qed

lemma lit_step:
  assumes "wrote a0 a base t" "base + length (t @ u) \<le> cap"
  shows "\<exists>a'. lit cap base u (a, length t) = Some (a', length (t @ u)) \<and> wrote a0 a' base (t @ u)"
  using assms(2) by (auto intro: put_wrote [OF assms(1), of u cap] simp: lit_def add.assoc)

lemma wrote_appendD: "wrote a0 a base (t @ u) \<Longrightarrow> wrote a0 a base t \<and> text_at a (base + length t) u"
  by (simp add: wrote_def)

lemma printed_step:
  fixes remain :: int
  assumes "wrote a0 a base t" "int (length t) < remain" "base + nat remain \<le> cap" "NUL \<notin> set u"
  defines "v \<equiv> take (nat remain - length t - 1) u"
  shows "\<exists>a'. printed cap base remain u (a, length t) = Some (a', length (t @ v)) \<and> wrote a0 a' base (t @ v) \<and>
    a' (base + length (t @ v)) = NUL"
proof -
  have n: "nat (remain - int (length t)) - 1 = nat remain - length t - 1" "length t < nat remain" using assms(2) by auto
  have len: "length t + length v < nat remain" using n(2) by (simp add: v_def)
  obtain a' where a': "put cap (base + length t) (v @ [NUL]) a = Some a'" "wrote a0 a' base (t @ v @ [NUL])"
    by (rule put_wrote [OF assms(1), of "v @ [NUL]" cap]) (use assms(3) len in simp_all)
  have w: "wrote a0 a' base (t @ v)" "a' (base + length (t @ v)) = NUL" using a'(2) by (simp_all add: wrote_def add.assoc)
  have "NUL \<notin> set v" using assms(4) by (auto simp: v_def dest: in_set_takeD)
  then have "cstr a' (base + length t) v" using w by (simp add: cstr_def wrote_def add.assoc)
  then have "c_strlen cap a' (base + length t) = Some (length v)" by (rule c_strlen_cstr) (use assms(3) len in simp)
  moreover have "c_snprintf cap (base + length t) (remain - int (length t)) u a = Some a'"
    using a'(1) assms(2) n(1) by (simp add: c_snprintf_def v_def)
  ultimately show ?thesis using w by (simp add: printed_def)
qed

section \<open>The timestamp is the rendered time\<close>

lemma dec_small: "n < 10 \<Longrightarrow> dec n = [''0123456789'' ! n]"
  by (simp add: dec.simps [of n])

lemma dec_length: "0 < w \<Longrightarrow> n < 10 ^ w \<Longrightarrow> length (dec n) \<le> w"
proof (induction n arbitrary: w rule: dec.induct)
  case (1 n)
  show ?case
  proof (cases "n < 10")
    case False
    then obtain v where v: "w = Suc v" "0 < v" using 1(2,3) by (cases w; cases "w - 1") auto
    then have "n div 10 < 10 ^ v" using 1(3) by (simp add: div_less_iff_less_mult mult.commute)
    then show ?thesis using 1(1) [OF False v(2)] v(1) False by (simp add: dec.simps [of n])
  qed (use 1 in \<open>simp add: dec_small\<close>)
qed

lemma digit_set: "n < 10 \<Longrightarrow> ''0123456789'' ! n \<in> set ''0123456789''"
  by (rule nth_mem) simp

lemma dec_digits: "set (dec n) \<subseteq> set ''0123456789''"
proof (induction n rule: dec.induct)
  case (1 n)
  have "n mod 10 < 10" by simp
  then show ?case using 1 digit_set [of n] digit_set [of "n mod 10"] by (simp only: dec.simps [of n]) (auto split: if_splits)
qed

lemma fmt_int_length: "0 \<le> i \<Longrightarrow> i < 10 ^ w \<Longrightarrow> 0 < w \<Longrightarrow> length (fmt_int w i) = w"
  using dec_length [of w "nat i"] by (simp add: fmt_int_def nat_less_iff)

lemma fmt_int_no_NUL: "NUL \<notin> set (fmt_int w i)"
  using dec_digits [of "nat i"] dec_digits [of "nat (- i)"] by (auto simp: fmt_int_def)

text \<open>
  What the code relies on in \<open>localtime\<close> and \<open>strftime\<close>: the text consists of
  17 characters that depend on the minute only, and the two digits of the second (zones differ by whole
  minutes).
\<close>

definition clock_ok :: "(int \<Rightarrow> string) \<Rightarrow> bool" where
  "clock_ok clock \<longleftrightarrow> (\<exists>minute. \<forall>t>0. clock t = minute (t div 60) @ fmt_int 2 (t mod 60) \<and>
     length (minute (t div 60)) = 17 \<and> NUL \<notin> set (minute (t div 60)))"

definition render :: "(int \<Rightarrow> string) \<Rightarrow> int \<Rightarrow> nat \<Rightarrow> string" where
  "render clock t ms = clock t @ CHR ''.'' # fmt_int 3 (int ms)"

definition stamp_ok :: "(int \<Rightarrow> string) \<Rightarrow> stamp_cache \<Rightarrow> bool" where
  "stamp_ok clock c \<longleftrightarrow> gPrevSysSecond c = 0 \<or>
     0 < gPrevSysSecond c \<and> cstr (gCachedTimeStamp c) 0 (render clock (gPrevSysSecond c) (gPrevSysMilliSecond c)) \<and>
     gPrevSysMilliSecond c < 1000"

lemma clock_facts:
  assumes "clock_ok clock" "0 < t"
  shows "length (clock t) = 19" "NUL \<notin> set (clock t)" "drop 17 (clock t) = fmt_int 2 (t mod 60)"
    and "t div 60 = u div 60 \<Longrightarrow> 0 < u \<Longrightarrow> take 17 (clock t) = take 17 (clock u)"
proof -
  obtain minute where m: "\<And>t. t > 0 \<Longrightarrow> clock t = minute (t div 60) @ fmt_int 2 (t mod 60) \<and>
     length (minute (t div 60)) = 17 \<and> NUL \<notin> set (minute (t div 60))"
    using assms(1) by (auto simp: clock_ok_def)
  have l: "length (fmt_int 2 (t mod 60)) = 2"
    using pos_mod_bound [of 60 t] by (intro fmt_int_length) (auto intro: less_trans)
  show "length (clock t) = 19" "NUL \<notin> set (clock t)" "drop 17 (clock t) = fmt_int 2 (t mod 60)"
    using m [OF assms(2)] l fmt_int_no_NUL [of 2 "t mod 60"] by auto
  show "take 17 (clock t) = take 17 (clock u)" if "t div 60 = u div 60" "0 < u"
    using m [OF assms(2)] m [OF that(2)] that(1) by simp
qed

lemma render_facts:
  assumes "clock_ok clock" "0 < t" "ms < 1000"
  shows "length (render clock t ms) = 23" "NUL \<notin> set (render clock t ms)"
  using clock_facts(1,2) [OF assms(1,2)] fmt_int_length [of "int ms" 3] fmt_int_no_NUL [of 3 "int ms"] assms(3)
  by (auto simp: render_def)

text \<open>Overwriting the end of a string of the same length.\<close>

lemma snprintf_tail:
  assumes "cstr a 0 (t @ old)" "length new = length old" "NUL \<notin> set new" "length t + length new < n" "n \<le> cap"
  shows "\<exists>a'. c_snprintf cap (length t) (int n - int (length t)) new a = Some a' \<and> cstr a' 0 (t @ new)"
proof -
  have tk: "take (nat (int n - int (length t)) - 1) new = new" using assms(4) by simp
  obtain a' where a': "put cap (length t) (new @ [NUL]) a = Some a'" "text_at a' (length t) (new @ [NUL])"
    "\<And>i. i < length t \<or> length t + length (new @ [NUL]) \<le> i \<Longrightarrow> a' i = a i"
    by (rule put_text [of "length t" "new @ [NUL]" cap a]) (use assms(4,5) in simp_all)
  have "text_at a 0 t \<Longrightarrow> text_at a' 0 t" using a'(3) by (simp add: text_at_nth)
  then have "cstr a' 0 (t @ new)" using assms(1,3) a'(2) by (auto simp: cstr_def)
  then show ?thesis using a'(1) assms(4) tk by (simp add: c_snprintf_def)
qed

lemma whole_stamp_ok:
  assumes "clock_ok clock" "0 < t" "ms < 1000"
  shows "\<exists>a'. whole_stamp clock t ms a = Some a' \<and> cstr a' 0 (render clock t ms)"
proof -
  note cl = clock_facts(1,2) [OF assms(1,2)]
  obtain b where b: "put 32 0 (clock t @ [NUL]) a = Some b" "text_at b 0 (clock t @ [NUL])"
    by (rule put_text [of 0 "clock t @ [NUL]" 32 a]) (use cl in simp_all)
  then have cs: "cstr b 0 (clock t)" using cl by (simp add: cstr_def)
  then have n: "c_strlen 32 b 0 = Some 19" using c_strlen_cstr [OF cs, of 32] cl by simp
  let ?new = "CHR ''.'' # fmt_int 3 (int ms)"
  have new: "length ?new = 4" "NUL \<notin> set ?new"
    using fmt_int_length [of "int ms" 3] fmt_int_no_NUL [of 3 "int ms"] assms(3) by simp_all
  obtain a' where a': "put 32 (0 + length (clock t)) (?new @ [NUL]) b = Some a'" "wrote b a' 0 (clock t @ ?new @ [NUL])"
    by (rule put_wrote [where ?a0.0 = b and a = b and base = 0 and t = "clock t" and u = "?new @ [NUL]" and cap = 32])
      (use cs cl new in \<open>simp_all add: wrote_def cstr_def\<close>)
  have "c_snprintf 32 19 (int 32 - int 19) ?new b = Some a'" using a'(1) cl new(1) by (simp add: c_snprintf_def)
  moreover have "cstr a' 0 (render clock t ms)"
    using a'(2) cl new by (auto simp: wrote_def cstr_def render_def)
  ultimately show ?thesis using b(1) n cl by (simp add: whole_stamp_def)
qed

lemma sint_small: "0 \<le> t \<Longrightarrow> t < 2 ^ 31 \<Longrightarrow> sint (word_of_int t :: u32) = t"
  by (simp add: sint_uint uint_word_of_int signed_take_bit_eq_if_positive take_bit_eq_mod bit_iff_odd)

lemma positive_division: "0 < (t :: int) \<Longrightarrow> t sdiv 60 = t div 60" "0 < t \<Longrightarrow> t smod 60 = t mod 60"
  by (simp_all add: signed_divide_int_def signed_modulo_int_def)

lemma update_stamp_ok:
  assumes "clock_ok clock" "0 < t" "t < 2 ^ 31" "ms < 1000" "stamp_ok clock c"
  shows "\<exists>a. update_stamp clock t ms c = Some \<lparr>gCachedTimeStamp = a, gPrevSysSecond = t, gPrevSysMilliSecond = ms\<rparr> \<and>
    cstr a 0 (render clock t ms)"
proof -
  obtain w where w: "whole_stamp clock t ms (gCachedTimeStamp c) = Some w" "cstr w 0 (render clock t ms)"
    using whole_stamp_ok [OF assms(1,2,4)] by blast
  let ?p = "gPrevSysSecond c" and ?q = "gPrevSysMilliSecond c"
  note cl = clock_facts [OF assms(1,2)]
  show ?thesis
  proof (cases "?p = 0")
    case True
    then show ?thesis using w by (simp add: update_stamp_def)
  next
    case False
    then have p: "0 < ?p" "?q < 1000" "cstr (gCachedTimeStamp c) 0 (render clock ?p ?q)" using assms(5) by (auto simp: stamp_ok_def)
    note clp = clock_facts [OF assms(1) p(1)]
    have ms: "length (fmt_int 3 (int ms)) = 3" "length (fmt_int 3 (int ?q)) = 3" "NUL \<notin> set (fmt_int 3 (int ms))"
      using fmt_int_length [of "int ms" 3] fmt_int_length [of "int ?q" 3] fmt_int_no_NUL [of 3 "int ms"] p(2) assms(4) by simp_all
    consider "?p = t" | "?p \<noteq> t" "?p div 60 = t div 60" | "?p \<noteq> t" "?p div 60 \<noteq> t div 60" by blast
    then show ?thesis
    proof cases
      case 1
      have "cstr (gCachedTimeStamp c) 0 ((clock t @ ''.'') @ fmt_int 3 (int ?q))" using p(3) 1 by (simp add: render_def)
      then have "\<exists>a'. c_snprintf 32 (length (clock t @ ''.'')) (int 32 - int (length (clock t @ ''.''))) (fmt_int 3 (int ms)) (gCachedTimeStamp c) =
          Some a' \<and> cstr a' 0 ((clock t @ ''.'') @ fmt_int 3 (int ms))"
        by (rule snprintf_tail) (use ms cl in simp_all)
      then show ?thesis using False 1 cl by (auto simp: update_stamp_def render_def)
    next
      case 2
      let ?old = "fmt_int 2 (?p mod 60) @ CHR ''.'' # fmt_int 3 (int ?q)" and ?new = "fmt_int 2 (t mod 60) @ CHR ''.'' # fmt_int 3 (int ms)"
      have sec: "clock ?p = take 17 (clock t) @ fmt_int 2 (?p mod 60)" "clock t = take 17 (clock t) @ fmt_int 2 (t mod 60)"
        using append_take_drop_id [of 17 "clock ?p"] append_take_drop_id [of 17 "clock t"] clp(3) clp(4) [OF 2(2) assms(2)] cl(3) by metis+
      have l2: "length (fmt_int 2 (t mod 60)) = 2" "length (fmt_int 2 (?p mod 60)) = 2"
        using cl(1) clp(1) arg_cong [OF cl(3), of length] arg_cong [OF clp(3), of length] by simp_all
      have "cstr (gCachedTimeStamp c) 0 (take 17 (clock t) @ ?old)" using p(3) sec(1) by (simp add: render_def)
      then have "\<exists>a'. c_snprintf 32 (length (take 17 (clock t))) (int 32 - int (length (take 17 (clock t)))) ?new (gCachedTimeStamp c) =
          Some a' \<and> cstr a' 0 (take 17 (clock t) @ ?new)"
        by (rule snprintf_tail) (use ms l2 cl fmt_int_no_NUL [of 2 "t mod 60"] in simp_all)
      then obtain a' where a': "c_snprintf 32 17 15 ?new (gCachedTimeStamp c) = Some a'" "cstr a' 0 (take 17 (clock t) @ ?new)"
        using cl(1) by auto
      have "render clock t ms = take 17 (clock t) @ ?new" by (subst render_def, subst sec(2)) simp
      moreover have "?p sdiv 60 = t sdiv 60" using 2(2) p(1) assms(2) by (simp add: positive_division)
      ultimately show ?thesis using False 2(1) a' assms(2,3)
        by (intro exI [of _ a']) (simp add: update_stamp_def sint_small positive_division)
    next
      case 3
      then have "?p sdiv 60 \<noteq> t sdiv 60" using p(1) assms(2) by (simp add: positive_division)
      then show ?thesis using False 3 w by (simp add: update_stamp_def)
    qed
  qed
qed

abbreviation (input) bracketed :: "string \<Rightarrow> string" where
  "bracketed t \<equiv> CHR ''['' # t @ ''] ''"

lemma LoggerGetTimestamp_ok:
  assumes "clock_ok clock" "0 < t" "t < 2 ^ 31" "us < 10 ^ 6" "stamp_ok clock c" "base + 27 \<le> cap"
  shows "\<exists>a' c'. LoggerGetTimestamp clock cap base t us (a, c) = Some (a', c') \<and> stamp_ok clock c' \<and>
    wrote a a' base (bracketed (render clock t (us div 1000))) \<and> c_strlen cap a' base = Some 26"
proof -
  let ?ms = "us div 1000"
  have ms: "?ms < 1000" using assms(4) by (simp add: div_less_iff_less_mult)
  note r = render_facts [OF assms(1,2) ms]
  define c' where "c' = (if gPrevSysSecond c = t \<and> gPrevSysMilliSecond c = ?ms then c else the (update_stamp clock t ?ms c))"
  have c': "(if gPrevSysSecond c = t \<and> gPrevSysMilliSecond c = ?ms then Some c else update_stamp clock t ?ms c) = Some c'"
    "cstr (gCachedTimeStamp c') 0 (render clock t ?ms)" "stamp_ok clock c'"
    using update_stamp_ok [OF assms(1-3) ms assms(5)] assms(2,5) ms by (auto simp: c'_def stamp_ok_def)
  have n: "c_strlen 32 (gCachedTimeStamp c') 0 = Some 23" using c_strlen_cstr [OF c'(2), of 32] r by simp
  have m: "map (gCachedTimeStamp c') [0..<23] = render clock t ?ms" using c'(2) r by (simp add: cstr_def text_at_def)
  let ?b = "bracketed (render clock t ?ms)"
  obtain a' where a': "put cap (base + length []) (?b @ [NUL]) a = Some a'" "wrote a a' base ([] @ ?b @ [NUL])"
    by (rule put_wrote [where ?a0.0 = a and a = a and base = base and t = "[]" and u = "?b @ [NUL]" and cap = cap])
      (use assms(6) r in \<open>simp_all add: wrote_def\<close>)
  have "cstr a' base ?b" using a'(2) r by (simp add: wrote_def cstr_def add.commute)
  then have "c_strlen cap a' base = Some 26" using c_strlen_cstr [of a' base ?b cap] r assms(6) by simp
  moreover have "wrote a a' base ?b" using a'(2) by (simp add: wrote_def)
  ultimately show ?thesis
    using a'(1) c' n m by (auto simp: LoggerGetTimestamp_def)
qed

text \<open>
  The calls of a sequence of times, each into an array of its own; the answers are the texts.
\<close>

fun stamp_run :: "(int \<Rightarrow> string) \<Rightarrow> (int \<times> nat) list \<Rightarrow> stamp_cache \<Rightarrow> string list option" where
  "stamp_run clock [] c = Some []"
| "stamp_run clock ((t, us) # ts) c = do {
     (a, c) \<leftarrow> LoggerGetTimestamp clock 35 0 t us (\<lambda>_. NUL, c);
     n \<leftarrow> c_strlen 35 a 0;
     rest \<leftarrow> stamp_run clock ts c;
     Some (map a [0..<n] # rest) }"

lemma stamp_run_ok:
  assumes "clock_ok clock" "\<forall>(t, us)\<in>set ts. 0 < t \<and> t < 2 ^ 31 \<and> us < 10 ^ 6" "stamp_ok clock c"
  shows "stamp_run clock ts c = Some (map (\<lambda>(t, us). bracketed (render clock t (us div 1000))) ts)"
  using assms(2,3)
proof (induction ts arbitrary: c)
  case (Cons x ts)
  obtain t us where x: "x = (t, us)" by (cases x)
  then have p: "0 < t" "t < 2 ^ 31" "us < 10 ^ 6" using Cons.prems(1) by auto
  obtain a' c' where a': "LoggerGetTimestamp clock 35 0 t us (\<lambda>_. NUL, c) = Some (a', c')" "stamp_ok clock c'"
    "wrote (\<lambda>_. NUL) a' 0 (bracketed (render clock t (us div 1000)))" "c_strlen 35 a' 0 = Some 26"
    using LoggerGetTimestamp_ok [OF assms(1) p Cons.prems(2), of 0 35 "\<lambda>_. NUL"] by auto
  have "us div 1000 < 1000" using p(3) by (simp add: div_less_iff_less_mult)
  then have "length (bracketed (render clock t (us div 1000))) = 26" using render_facts [OF assms(1) p(1)] by simp
  then have "map a' [0..<26] = bracketed (render clock t (us div 1000))"
    using a'(3) by (simp add: wrote_def text_at_def del: text_at_Cons text_at_append)
  then show ?case using Cons.IH [OF _ a'(2)] Cons.prems(1) a'(1,4) x by simp
qed simp


definition noon :: "int \<Rightarrow> string" where
  "noon t = ''2018-06-29 12:00:'' @ fmt_int 2 (t mod 60)"


section \<open>The composed line\<close>

definition line_head :: "(int \<Rightarrow> string) \<Rightarrow> LoggerConfig \<Rightarrow> LogMsg \<Rightarrow> string" where
  "line_head clock cfg m = bracketed (render clock (lm_sec m) (lm_usec m div 1000)) @
     bracketed (gLoggerLevelName_s ! unat (lm_logLevel m)) @
     (if lc_logModuleNameFlag cfg \<noteq> 0 then bracketed (lm_moduleId m) else []) @
     (if lc_logThreadIdFlag cfg \<noteq> 0 then bracketed (dec (lm_threadId m)) else []) @
     (if lc_logFileNameFlag cfg \<noteq> 0 then bracketed (lm_fileName m) else []) @ ''- '' @
     (if lc_logFuncNameFlag cfg \<noteq> 0 then CHR ''['' # lm_funcName m @ ''], '' else [])"

definition msg_ok :: "LogMsg \<Rightarrow> bool" where
  "msg_ok m \<longleftrightarrow> lm_logLevel m < 5 \<and> 0 < lm_sec m \<and> lm_sec m < 2 ^ 31 \<and> lm_usec m < 10 ^ 6 \<and>
     NUL \<notin> set (lm_moduleId m) \<union> set (lm_fileName m) \<union> set (lm_funcName m) \<union> set (lm_text m)"

lemma lit_if:
  assumes "wrote a0 a base t" "base + length (t @ (if f then u else [])) \<le> cap"
  shows "\<exists>a'. (if f then lit cap base u (a, length t) else Some (a, length t)) = Some (a', length (t @ (if f then u else []))) \<and>
    wrote a0 a' base (t @ (if f then u else []))"
  using lit_step [OF assms(1), of u cap] assms by (cases f) auto

lemma printed_if:
  assumes "wrote a0 a base t" "int (length (t @ (if f then u else []))) < remain" "base + nat remain \<le> cap" "NUL \<notin> set u"
  shows "\<exists>a'. (if f then printed cap base remain u (a, length t) else Some (a, length t)) =
    Some (a', length (t @ (if f then u else []))) \<and> wrote a0 a' base (t @ (if f then u else []))"
proof (cases f)
  case True
  have "take (nat remain - length t - 1) u = u" using assms(2) True by simp
  then show ?thesis using printed_step [OF assms(1) _ assms(3,4)] assms(2) True by auto
qed (use assms(1) in simp)

lemma log_line_ok:
  assumes "clock_ok clock" "stamp_ok clock c" "msg_ok m"
    and "int (length (line_head clock cfg m)) < remain" "base + nat remain \<le> cap"
  shows "\<exists>a' c'. let l = line_head clock cfg m @ take (nat remain - length (line_head clock cfg m) - 1) (lm_text m) in
    log_line clock cfg cap base remain m a c = Some (a', length l, c') \<and>
    wrote a a' base l \<and> a' (base + length l) = NUL \<and> stamp_ok clock c'"
proof -
  let ?t = "bracketed (render clock (lm_sec m) (lm_usec m div 1000))"
  let ?l = "bracketed (gLoggerLevelName_s ! unat (lm_logLevel m))" and ?m = "bracketed (lm_moduleId m)"
    and ?i = "bracketed (dec (lm_threadId m))" and ?f = "bracketed (lm_fileName m)" and ?n = "CHR ''['' # lm_funcName m @ ''], ''"
  let ?M = "if lc_logModuleNameFlag cfg \<noteq> 0 then ?m else []" and ?I = "if lc_logThreadIdFlag cfg \<noteq> 0 then ?i else []"
    and ?F = "if lc_logFileNameFlag cfg \<noteq> 0 then ?f else []" and ?N = "if lc_logFuncNameFlag cfg \<noteq> 0 then ?n else []"
  have head: "line_head clock cfg m = ?t @ ?l @ ?M @ ?I @ ?F @ ''- '' @ ?N" by (simp add: line_head_def)
  have mo: "0 < lm_sec m" "lm_sec m < 2 ^ 31" "lm_usec m < 10 ^ 6" "NUL \<notin> set (lm_text m)" using assms(3) by (auto simp: msg_ok_def)
  have ms: "lm_usec m div 1000 < 1000" using mo(3) by (simp add: div_less_iff_less_mult)
  have t26: "length ?t = 26" using render_facts(1) [OF assms(1) mo(1) ms] by simp
  have len: "base + length (?t @ ?l @ ?M @ ?I @ ?F @ ''- '' @ ?N) < cap" "int (length (?t @ ?l @ ?M @ ?I @ ?F @ ''- '' @ ?N)) < remain"
    using assms(4,5) head by auto
  have "base + 27 \<le> cap" using len(1) t26 by simp
  then obtain a1 c1 where 1: "LoggerGetTimestamp clock cap base (lm_sec m) (lm_usec m) (a, c) = Some (a1, c1)" "stamp_ok clock c1"
    "wrote a a1 base ?t" "c_strlen cap a1 base = Some (length ?t)"
    using LoggerGetTimestamp_ok [OF assms(1) mo(1-3) assms(2)] t26 by metis
  obtain a2 where 2: "lit cap base ?l (a1, length ?t) = Some (a2, length (?t @ ?l))" "wrote a a2 base (?t @ ?l)"
    using lit_step [OF 1(3), of ?l cap] len(1) by auto
  obtain a3 where 3: "(if lc_logModuleNameFlag cfg \<noteq> 0 then lit cap base ?m (a2, length (?t @ ?l)) else Some (a2, length (?t @ ?l))) =
      Some (a3, length ((?t @ ?l) @ ?M))" "wrote a a3 base ((?t @ ?l) @ ?M)"
    using lit_if [OF 2(2), of "lc_logModuleNameFlag cfg \<noteq> 0" ?m cap] len(1) by auto
  have no: "NUL \<notin> set ?i" using dec_digits [of "lm_threadId m"] by auto
  obtain a4 where 4: "(if lc_logThreadIdFlag cfg \<noteq> 0 then printed cap base remain ?i (a3, length ((?t @ ?l) @ ?M))
      else Some (a3, length ((?t @ ?l) @ ?M))) = Some (a4, length (((?t @ ?l) @ ?M) @ ?I))" "wrote a a4 base (((?t @ ?l) @ ?M) @ ?I)"
    using printed_if [OF 3(2) _ assms(5) no, of "lc_logThreadIdFlag cfg \<noteq> 0"] len(2) by (auto simp del: append_assoc)
  obtain a5 where 5: "(if lc_logFileNameFlag cfg \<noteq> 0 then lit cap base ?f (a4, length (((?t @ ?l) @ ?M) @ ?I))
      else Some (a4, length (((?t @ ?l) @ ?M) @ ?I))) = Some (a5, length ((((?t @ ?l) @ ?M) @ ?I) @ ?F))"
      "wrote a a5 base ((((?t @ ?l) @ ?M) @ ?I) @ ?F)"
    using lit_if [OF 4(2), of "lc_logFileNameFlag cfg \<noteq> 0" ?f cap] len(1) by auto
  obtain a6 where 6: "lit cap base ''- '' (a5, length ((((?t @ ?l) @ ?M) @ ?I) @ ?F)) = Some (a6, length (((((?t @ ?l) @ ?M) @ ?I) @ ?F) @ ''- ''))"
      "wrote a a6 base (((((?t @ ?l) @ ?M) @ ?I) @ ?F) @ ''- '')"
    using lit_step [OF 5(2), of "''- ''" cap] len(1) by auto
  obtain a7 where 7: "(if lc_logFuncNameFlag cfg \<noteq> 0 then lit cap base ?n (a6, length (((((?t @ ?l) @ ?M) @ ?I) @ ?F) @ ''- ''))
      else Some (a6, length (((((?t @ ?l) @ ?M) @ ?I) @ ?F) @ ''- ''))) = Some (a7, length (line_head clock cfg m))"
      "wrote a a7 base (line_head clock cfg m)"
    using lit_if [OF 6(2), of "lc_logFuncNameFlag cfg \<noteq> 0" ?n cap] len(1) unfolding head by (auto simp: add.assoc)
  obtain a8 where 8: "printed cap base remain (lm_text m) (a7, length (line_head clock cfg m)) =
      Some (a8, length (line_head clock cfg m @ take (nat remain - length (line_head clock cfg m) - 1) (lm_text m)))"
      "wrote a a8 base (line_head clock cfg m @ take (nat remain - length (line_head clock cfg m) - 1) (lm_text m))"
      "a8 (base + length (line_head clock cfg m @ take (nat remain - length (line_head clock cfg m) - 1) (lm_text m))) = NUL"
    using printed_step [OF 7(2) assms(4,5) mo(4)] by blast
  show ?thesis
    unfolding Let_def log_line_def 1(1,4) 2(1) 3(1) 4(1) 5(1) 6(1) 7(1) bind.bind_lunit prod.case 8(1)
    using 1(2) 8(2,3) by blast
qed

end
