(* ===== verification/Async_Log.thy ===== *)
theory Async_Log
  imports Log_Text
begin

text \<open>
  The logger (\<open>cm/src/logger.c\<close>): entries are output at once, or go through a ring of
  buffers (type 1), or through a queue of preallocated nodes (type 2) to a thread that outputs them.
  Every operation of type 1 runs under \<open>gLoggerMutex\<close>, so an execution is a sequence of
  them; of type 2 the operations on the queues are atomic. This theory holds the code.
\<close>

section \<open>The code\<close>

abbreviation (input) MAX_LOG_MEMORY_LENGTH :: nat where "MAX_LOG_MEMORY_LENGTH \<equiv> 2048"
abbreviation (input) MAX_NUM_LOG_BUFFER_BLOCK :: nat where "MAX_NUM_LOG_BUFFER_BLOCK \<equiv> 6"

record LogBufferCache =
  lb_next :: nat
  lb_fullFlag :: u8
  lb_length :: u32
  lb_logData :: chars

text \<open>What leaves the logger: text for the console, the file and the log server; the file starts
  again from its beginning; an entry is given up.\<close>

datatype log_event = Log_Console string | Log_File string | Log_Rewind | Log_Socket string | Log_Dropped

text \<open>A node of type 2: a message, whose text is made later unless the flag is set, or a dump.\<close>

record LogMsgInfo =
  li_moduleId :: string
  li_logLevel :: u32
  li_fileName :: string
  li_funcName :: string
  li_threadId :: nat
  li_logContentFlag :: u8
  li_fmt :: string
  li_args :: "u32 list"
  li_logContent :: string

datatype LogInfo = LOG_MSG LogMsgInfo | LOG_MEM string

text \<open>
  The buffers and the indices of the two current ones; the nodes and their queues; the timestamp
  and the size of the file.
\<close>

record logger =
  gLogBufferQueue :: "nat \<Rightarrow> LogBufferCache"
  gpWriteBuffer :: nat
  gpReadBuffer :: nat
  gLogInfoNodeArray :: "nat \<Rightarrow> LogInfo"
  gIdleLogInfoQueue :: "nat list"
  gBusyLogInfoQueue :: "nat list"
  lg_stamp :: stamp_cache
  lg_logFileSize :: u32
  lg_out :: "log_event list"

abbreviation (input) MAX_NUM_LOG_INFO_NODE :: nat where "MAX_NUM_LOG_INFO_NODE \<equiv> 4096"

definition InitAsyncLogger :: "LoggerConfig \<Rightarrow> logger \<Rightarrow> logger" where
  "InitAsyncLogger cfg s =
     (if lc_logType cfg = 0 then s
      else if lc_logType cfg = 1 then
        s\<lparr>gLogBufferQueue := (\<lambda>i. if i < MAX_NUM_LOG_BUFFER_BLOCK
            then (gLogBufferQueue s i)\<lparr>lb_fullFlag := 0, lb_length := 0, lb_next := (if i < 5 then i + 1 else 0)\<rparr>
            else gLogBufferQueue s i),
          gpWriteBuffer := 0, gpReadBuffer := 0\<rparr>
      else s\<lparr>gIdleLogInfoQueue := [0..<MAX_NUM_LOG_INFO_NODE], gBusyLogInfoQueue := []\<rparr>)"

text \<open>
  The last step of the initialisation, when the thread is already running: the limit of the chunks.
\<close>

definition clamp_buffering :: "LoggerConfig \<Rightarrow> LoggerConfig" where
  "clamp_buffering cfg =
     (if lc_logType cfg \<noteq> 0 \<and> lc_logBufferingSize cfg > of_nat MAX_LOG_BLOCK_SIZE
      then cfg\<lparr>lc_logBufferingSize := of_nat MAX_LOG_BLOCK_SIZE\<rparr> else cfg)"

definition log_emit :: "log_event \<Rightarrow> logger \<Rightarrow> logger" where
  "log_emit e s = s\<lparr>lg_out := lg_out s @ [e]\<rparr>"

definition set_buffer :: "nat \<Rightarrow> (LogBufferCache \<Rightarrow> LogBufferCache) \<Rightarrow> logger \<Rightarrow> logger" where
  "set_buffer i f s = s\<lparr>gLogBufferQueue := (gLogBufferQueue s)(i := f (gLogBufferQueue s i))\<rparr>"

text \<open>The console prints up to the null character; the file takes all that is written.\<close>

definition LoggerOutputLog :: "LoggerConfig \<Rightarrow> nat \<Rightarrow> chars \<Rightarrow> u32 \<Rightarrow> logger \<Rightarrow> logger option" where
  "LoggerOutputLog cfg cap a len s = do {
     s \<leftarrow> (if lc_logToConsoleFlag cfg \<noteq> 0 then do {
         n \<leftarrow> c_strlen cap a 0;
         Some (log_emit (Log_Console (map a [0..<n])) s) }
       else Some s);
     ensure (lc_logToFileFlag cfg = 0 \<and> lc_logToSocketFlag cfg = 0 \<or> unat len \<le> cap);
     s \<leftarrow> Some (if lc_logToFileFlag cfg \<noteq> 0 then
         (let s = log_emit (Log_File (map a [0..<unat len])) s in
          if len > 0 then
            (let sz = lg_logFileSize s + len in
             if sz > lc_maxLogFileSize cfg then log_emit Log_Rewind (s\<lparr>lg_logFileSize := 0\<rparr>)
             else s\<lparr>lg_logFileSize := sz\<rparr>)
          else s)
       else s);
     Some (if lc_logToSocketFlag cfg \<noteq> 0 then log_emit (Log_Socket (map a [0..<unat len])) s else s) }"

text \<open>The write buffer is full: the next one becomes the write buffer.\<close>

definition mark_full :: "logger \<Rightarrow> logger" where
  "mark_full s = (let w = gpWriteBuffer s in
     set_buffer w (\<lambda>b. b\<lparr>lb_fullFlag := 1\<rparr>) s\<lparr>gpWriteBuffer := lb_next (gLogBufferQueue s w)\<rparr>)"

text \<open>
  What both writers do first: they drop the entry when the write buffer is full, and leave a
  write buffer in which the entry may not fit any more.
\<close>

definition log_reserve :: "LoggerConfig \<Rightarrow> (u32 \<Rightarrow> u32) \<Rightarrow> logger \<Rightarrow> bool \<times> logger" where
  "log_reserve cfg need s =
     (let w = gLogBufferQueue s (gpWriteBuffer s) in
      if lb_fullFlag w \<noteq> 0 then (False, log_emit Log_Dropped s)
      else if lc_logBufferingSize cfg \<noteq> 0 \<and> lb_length w \<noteq> 0 \<and> need (lb_length w) \<ge> lc_logBufferingSize cfg then
        (let s = mark_full s in
         if lb_fullFlag (gLogBufferQueue s (gpWriteBuffer s)) \<noteq> 0 then (False, log_emit Log_Dropped s) else (True, s))
      else (True, s))"

text \<open>And last: the entry of \<open>off\<close> characters is accounted for.\<close>

definition log_commit :: "LoggerConfig \<Rightarrow> chars \<Rightarrow> nat \<Rightarrow> logger \<Rightarrow> logger" where
  "log_commit cfg a off s =
     (let s = set_buffer (gpWriteBuffer s) (\<lambda>b. b\<lparr>lb_logData := a, lb_length := lb_length b + of_nat off\<rparr>) s in
      if lb_length (gLogBufferQueue s (gpWriteBuffer s)) \<ge> lc_logBufferingSize cfg then mark_full s else s)"

definition AsyncWriteMsg :: "(int \<Rightarrow> string) \<Rightarrow> LoggerConfig \<Rightarrow> LogMsg \<Rightarrow> logger \<Rightarrow> logger option" where
  "AsyncWriteMsg clock cfg m s =
     (case log_reserve cfg (\<lambda>len. of_nat MAX_TIMESTAMP_LENGTH + len + 128) s of
        (False, s) \<Rightarrow> Some s
      | (True, s) \<Rightarrow> do {
          w \<leftarrow> Some (gLogBufferQueue s (gpWriteBuffer s));
          (a, off, st) \<leftarrow> log_line clock cfg MAX_LOG_BLOCK_SIZE (unat (lb_length w)) (sint (lc_logBufferingSize cfg - lb_length w))
            m (lb_logData w) (lg_stamp s);
          Some (log_commit cfg a off (s\<lparr>lg_stamp := st\<rparr>)) })"

text \<open>A dump of memory: two digits and a blank for every byte, a new line after every sixteenth.\<close>

definition hex_byte :: "u8 \<Rightarrow> string" where
  "hex_byte b = [''0123456789abcdef'' ! (unat b div 16), ''0123456789abcdef'' ! (unat b mod 16), CHR '' '']"

fun dump_bytes :: "nat \<Rightarrow> nat \<Rightarrow> int \<Rightarrow> nat \<Rightarrow> u8 list \<Rightarrow> chars \<times> nat \<Rightarrow> (chars \<times> nat) option" where
  "dump_bytes cap base remain i [] x = Some x"
| "dump_bytes cap base remain i (b # bs) (a, off) = do {
     a \<leftarrow> c_snprintf cap (base + off) (remain - int off) (hex_byte b) a;
     off \<leftarrow> c_strlen cap a base;
     (a, off) \<leftarrow> (if (i + 1) mod 16 = 0 then do {
         a \<leftarrow> c_snprintf cap (base + off) (remain - int off) [CHR 0x0A] a;
         off \<leftarrow> c_strlen cap a base;
         Some (a, off) }
       else Some (a, off));
     if int off \<ge> remain then Some (a, off) else dump_bytes cap base remain (i + 1) bs (a, off) }"

text \<open>
  The loop of the synchronous dump; the flag says whether the function returns without output.
\<close>

fun dump_sync :: "nat \<Rightarrow> u8 list \<Rightarrow> chars \<times> nat \<Rightarrow> (bool \<times> chars \<times> nat) option" where
  "dump_sync i [] (a, off) = Some (False, a, off)"
| "dump_sync i (b # bs) (a, off) = do {
     a \<leftarrow> c_snprintf 4096 off (4096 - int off) (hex_byte b) a;
     off \<leftarrow> c_strlen 4096 a 0;
     if off \<ge> 4096 then Some (True, a, off)
     else if (i + 1) mod 16 = 0 then do {
       a \<leftarrow> c_snprintf 4096 off (4096 - int off) [CHR 0x0A] a;
       off \<leftarrow> c_strlen 4096 a 0;
       if off \<ge> 4096 then Some (bs \<noteq> [], a, off) else dump_sync (i + 1) bs (a, off) }
     else dump_sync (i + 1) bs (a, off) }"

text \<open>
  Type 2: the format is searched for conversions. The answer counts them up to the first
  \<open>%s\<close>, or \<open>l\<close> two characters behind a percent sign, or up to seven; a format
  that ends in a percent sign is read past its end.
\<close>

fun scan_format :: "string \<Rightarrow> nat \<Rightarrow> (nat \<times> nat \<times> nat) option" where
  "scan_format [] n = Some (n, 0, 0)"
| "scan_format (c # cs) n =
     (if c = CHR ''%'' then
        if n + 1 > 6 then Some (n + 1, 0, 0)
        else (case cs of
            [] \<Rightarrow> None
          | d # ds \<Rightarrow> if d = CHR ''s'' then Some (n + 1, 1, 0)
              else (case ds of
                  [] \<Rightarrow> Some (n + 1, 0, 0)
                | e # es \<Rightarrow> if e = CHR ''l'' then Some (n + 1, 0, 1) else scan_format es (n + 1)))
      else scan_format cs n)"

lemma scan_format_misses:
  "scan_format ''%ld'' 0 = Some (1, 0, 0)" "scan_format ''%d%s'' 0 = Some (1, 0, 0)" "scan_format ''%d %s'' 0 = Some (2, 1, 0)"
  "scan_format ''100%'' 0 = None"
  by simp_all

text \<open>
  The node of a message.  Six characters of the module name are copied, whatever its length; the
  text is made at once when the format has been found to need it.
\<close>

definition log_msg_info :: "LoggerConfig \<Rightarrow> LogMsg \<Rightarrow> LogMsgInfo option" where
  "log_msg_info cfg m = do {
     moduleId \<leftarrow> (if lc_logModuleNameFlag cfg = 0 then Some []
       else if length (lm_moduleId m) < 5 then None else Some (take 6 (lm_moduleId m @ [NUL])));
     (n, ns, ld) \<leftarrow> scan_format (lm_fmt m) 0;
     made \<leftarrow> Some (n > 6 \<or> ns > 0 \<or> ld > 0);
     Some \<lparr>li_moduleId = moduleId, li_logLevel = lm_logLevel m, li_fileName = lm_fileName m,
       li_funcName = lm_funcName m, li_threadId = lm_threadId m, li_logContentFlag = (if made then 1 else 0),
       li_fmt = lm_fmt m, li_args = (if made then [] else map (lm_args m) [0..<n]),
       li_logContent = (if made then take 255 (lm_text m) else [])\<rparr> }"

text \<open>
  A node leaves the idle queue, is filled and joins the busy queue; without an idle node the entry is
  dropped.
\<close>

definition queue_node :: "LogInfo option \<Rightarrow> logger \<Rightarrow> logger option" where
  "queue_node info s =
     (case gIdleLogInfoQueue s of
        [] \<Rightarrow> Some (log_emit Log_Dropped s)
      | n # ns \<Rightarrow> do {
          i \<leftarrow> info;
          Some (s\<lparr>gIdleLogInfoQueue := ns, gLogInfoNodeArray := (gLogInfoNodeArray s)(n := i),
            gBusyLogInfoQueue := gBusyLogInfoQueue s @ [n]\<rparr>) })"

text \<open>
  The node of a dump (the array is cleared here; its old content is cut off by the first null
  character).
\<close>

definition log_mem_info :: "u8 list \<Rightarrow> string option" where
  "log_mem_info bytes = do {
     (a, off) \<leftarrow> dump_bytes MAX_LOG_MEMORY_LENGTH 0 (int MAX_LOG_MEMORY_LENGTH) 0 bytes (\<lambda>_. NUL, 0);
     a \<leftarrow> c_snprintf MAX_LOG_MEMORY_LENGTH off (int MAX_LOG_MEMORY_LENGTH - int off) [CHR 0x0A] a;
     l \<leftarrow> c_strlen MAX_LOG_MEMORY_LENGTH a 0;
     Some (map a [0..<l]) }"

definition LoggerWriteMem :: "LoggerConfig \<Rightarrow> u32 \<Rightarrow> u8 list \<Rightarrow> logger \<Rightarrow> logger option" where
  "LoggerWriteMem cfg logLevel bytes s =
     (if bytes \<noteq> [] \<and> logLevel \<ge> lc_logLevel cfg \<and> logLevel < 5 then
        if lc_logType cfg = 1 then
          (let n = of_nat (length bytes) :: u32 in
           case log_reserve cfg (\<lambda>len. 3 * n + n div 16 + len + 5) s of
             (False, s) \<Rightarrow> Some s
           | (True, s) \<Rightarrow> do {
               w \<leftarrow> Some (gLogBufferQueue s (gpWriteBuffer s));
               base \<leftarrow> Some (unat (lb_length w));
               remain \<leftarrow> Some (sint (lc_logBufferingSize cfg - lb_length w));
               (a, off) \<leftarrow> dump_bytes MAX_LOG_BLOCK_SIZE base remain 0 bytes (lb_logData w, 0);
               a \<leftarrow> c_snprintf MAX_LOG_BLOCK_SIZE (base + off) (remain - int off) [CHR 0x0A] a;
               off \<leftarrow> c_strlen MAX_LOG_BLOCK_SIZE a base;
               Some (log_commit cfg a off s) })
        else if lc_logType cfg \<noteq> 0 then
          queue_node (map_option LOG_MEM (log_mem_info bytes)) s
        else do {
          (ret, a, off) \<leftarrow> dump_sync 0 bytes (\<lambda>_. NUL, 0);
          if ret then Some s
          else do {
            a \<leftarrow> c_snprintf 4096 off (4096 - int off) [CHR 0x0A] a;
            n \<leftarrow> c_strlen 4096 a 0;
            LoggerOutputLog cfg 4096 a (of_nat n) s } }
      else Some s)"

lemma short_module_overread: "lc_logModuleNameFlag cfg \<noteq> 0 \<Longrightarrow> lm_moduleId m = ''ULP'' \<Longrightarrow> log_msg_info cfg m = None"
  by (simp add: log_msg_info_def)

definition queue_write_msg :: "LoggerConfig \<Rightarrow> LogMsg \<Rightarrow> logger \<Rightarrow> logger option" where
  "queue_write_msg cfg m = queue_node (map_option LOG_MSG (log_msg_info cfg m))"

text \<open>
  The output of the nodes. \<open>print fmt args\<close> stands for what \<open>snprintf\<close> makes
  of the arguments that have been fetched, undefined when the format asks for others.
\<close>

definition queue_head :: "LoggerConfig \<Rightarrow> string \<Rightarrow> LogMsgInfo \<Rightarrow> chars \<times> nat \<Rightarrow> (chars \<times> nat) option" where
  "queue_head cfg timestamp i x = do {
     x \<leftarrow> lit 4096 0 timestamp x;
     x \<leftarrow> lit 4096 0 (CHR ''['' # gLoggerLevelName_s ! unat (li_logLevel i) @ ''] '') x;
     x \<leftarrow> (if lc_logModuleNameFlag cfg \<noteq> 0 then
         if NUL \<in> set (li_moduleId i) then lit 4096 0 (CHR ''['' # takeWhile (\<lambda>c. c \<noteq> NUL) (li_moduleId i) @ ''] '') x else None
       else Some x);
     x \<leftarrow> (if lc_logThreadIdFlag cfg \<noteq> 0 then printed 4096 0 4095 (CHR ''['' # dec (li_threadId i) @ ''] '') x else Some x);
     x \<leftarrow> (if lc_logFileNameFlag cfg \<noteq> 0 then lit 4096 0 (CHR ''['' # li_fileName i @ ''] '') x else Some x);
     x \<leftarrow> lit 4096 0 ''- '' x;
     if lc_logFuncNameFlag cfg \<noteq> 0 then lit 4096 0 (CHR ''['' # li_funcName i @ ''], '') x else Some x }"

definition queue_line ::
  "(string \<Rightarrow> u32 list \<Rightarrow> string option) \<Rightarrow> LoggerConfig \<Rightarrow> string \<Rightarrow> LogMsgInfo \<Rightarrow> chars \<times> nat \<Rightarrow> (chars \<times> nat) option" where
  "queue_line print cfg timestamp i x = do {
     x \<leftarrow> queue_head cfg timestamp i x;
     if li_logContentFlag i = 0 then do {
       t \<leftarrow> print (li_fmt i) (li_args i);
       printed 4096 0 4095 t x }
     else lit 4096 0 (li_logContent i) x }"

fun process_nodes ::
  "(string \<Rightarrow> u32 list \<Rightarrow> string option) \<Rightarrow> LoggerConfig \<Rightarrow> string \<Rightarrow> nat \<Rightarrow> chars \<times> nat \<Rightarrow> logger \<Rightarrow> ((chars \<times> nat) \<times> logger) option" where
  "process_nodes print cfg timestamp 0 x s = Some (x, s)"
| "process_nodes print cfg timestamp (Suc count) (a, off) s =
     (case gBusyLogInfoQueue s of
        [] \<Rightarrow> Some ((a, off), s)
      | n # ns \<Rightarrow>
          (case gLogInfoNodeArray s n of
             LOG_MEM t \<Rightarrow>
               if off + length t \<ge> 4096 then Some ((a, off), s)
               else do {
                 (a, off) \<leftarrow> lit 4096 0 t (a, off);
                 s \<leftarrow> Some (s\<lparr>gBusyLogInfoQueue := ns, gIdleLogInfoQueue := gIdleLogInfoQueue s @ [n]\<rparr>);
                 if off + MAX_TIMESTAMP_LENGTH + 128 \<ge> 4095 then Some ((a, off), s)
                 else process_nodes print cfg timestamp count (a, off) s }
           | LOG_MSG i \<Rightarrow> do {
               (a, off) \<leftarrow> queue_line print cfg timestamp i (a, off);
               s \<leftarrow> Some (s\<lparr>gBusyLogInfoQueue := ns, gIdleLogInfoQueue := gIdleLogInfoQueue s @ [n]\<rparr>);
               if off + MAX_TIMESTAMP_LENGTH + 128 \<ge> 4095 then Some ((a, off), s)
               else process_nodes print cfg timestamp count (a, off) s }))"

definition ProcessLogQueue ::
  "(int \<Rightarrow> string) \<Rightarrow> (string \<Rightarrow> u32 list \<Rightarrow> string option) \<Rightarrow> LoggerConfig \<Rightarrow> int \<Rightarrow> nat \<Rightarrow> logger \<Rightarrow> logger option" where
  "ProcessLogQueue clock print cfg tv_sec tv_usec s = do {
     (t, st) \<leftarrow> LoggerGetTimestamp clock MAX_TIMESTAMP_LENGTH 0 tv_sec tv_usec (\<lambda>_. NUL, lg_stamp s);
     n \<leftarrow> c_strlen MAX_TIMESTAMP_LENGTH t 0;
     ((a, off), s) \<leftarrow> process_nodes print cfg (map t [0..<n]) (length (gBusyLogInfoQueue s)) (\<lambda>_. NUL, 0) (s\<lparr>lg_stamp := st\<rparr>);
     a \<leftarrow> put 4096 off [NUL] a;
     n \<leftarrow> c_strlen 4096 a 0;
     if n > 0 then LoggerOutputLog cfg 4096 a (of_nat n) s else Some s }"

text \<open>A round of the logger thread; with nothing to read it waits.\<close>

definition LoggerEntryFunc ::
  "(int \<Rightarrow> string) \<Rightarrow> (string \<Rightarrow> u32 list \<Rightarrow> string option) \<Rightarrow> LoggerConfig \<Rightarrow> int \<Rightarrow> nat \<Rightarrow> logger \<Rightarrow> logger option" where
  "LoggerEntryFunc clock print cfg tv_sec tv_usec s =
     (if lc_logType cfg = 1 then
        (let r = gpReadBuffer s; b = gLogBufferQueue s r in
         if lb_length b = 0 then Some s
         else do {
           s \<leftarrow> LoggerOutputLog cfg MAX_LOG_BLOCK_SIZE (lb_logData b) (lb_length b) s;
           s \<leftarrow> Some (set_buffer r (\<lambda>b. b\<lparr>lb_length := 0\<rparr>) s);
           Some (if lb_fullFlag b \<noteq> 0
             then set_buffer r (\<lambda>b. b\<lparr>lb_fullFlag := 0\<rparr>) s\<lparr>gpReadBuffer := lb_next b\<rparr> else s) })
      else if gBusyLogInfoQueue s = [] then Some s
      else ProcessLogQueue clock print cfg tv_sec tv_usec s)"

text \<open>The entry point of the tasks, filtered by level.\<close>

definition LoggerWriteMsg :: "(int \<Rightarrow> string) \<Rightarrow> LoggerConfig \<Rightarrow> LogMsg \<Rightarrow> logger \<Rightarrow> logger option" where
  "LoggerWriteMsg clock cfg m s =
     (if lm_logLevel m \<ge> lc_logLevel cfg \<and> lm_logLevel m < 5 then
        if lc_logType cfg = 1 then AsyncWriteMsg clock cfg m s
        else if lc_logType cfg \<noteq> 0 then queue_write_msg cfg m s
        else do {
          (a, off, st) \<leftarrow> log_line clock cfg 4096 0 4096 m (\<lambda>_. NUL) (lg_stamp s);
          a \<leftarrow> put 4096 off [NUL] a;
          n \<leftarrow> c_strlen 4096 a 0;
          LoggerOutputLog cfg 4096 a (of_nat n) (s\<lparr>lg_stamp := st\<rparr>) }
      else Some s)"

text \<open>The level can be set by number.\<close>

definition LoggerSetlevel :: "int \<Rightarrow> LoggerConfig \<Rightarrow> LoggerConfig" where
  "LoggerSetlevel loglevel cfg =
     (if loglevel < 0 then cfg\<lparr>lc_logLevel := 0\<rparr>
      else if loglevel \<ge> 5 then cfg\<lparr>lc_logLevel := 4\<rparr>
      else cfg\<lparr>lc_logLevel := word_of_int loglevel\<rparr>)"

datatype log_op = Op_Msg LogMsg | Op_Mem u32 "u8 list" | Op_Read int nat

definition log_step ::
  "(int \<Rightarrow> string) \<Rightarrow> (string \<Rightarrow> u32 list \<Rightarrow> string option) \<Rightarrow> LoggerConfig \<Rightarrow> log_op \<Rightarrow> logger \<Rightarrow> logger option" where
  "log_step clock print cfg op s = (case op of
     Op_Msg m \<Rightarrow> LoggerWriteMsg clock cfg m s
   | Op_Mem lv bs \<Rightarrow> LoggerWriteMem cfg lv bs s
   | Op_Read t us \<Rightarrow> LoggerEntryFunc clock print cfg t us s)"

fun log_run ::
  "(int \<Rightarrow> string) \<Rightarrow> (string \<Rightarrow> u32 list \<Rightarrow> string option) \<Rightarrow> LoggerConfig \<Rightarrow> log_op list \<Rightarrow> logger \<Rightarrow> logger option" where
  "log_run clock print cfg [] s = Some s"
| "log_run clock print cfg (op # ops) s = do { s \<leftarrow> log_step clock print cfg op s; log_run clock print cfg ops s }"

end
