(* ===== verification/Log_Ring.thy ===== *)
theory Log_Ring
  imports Async_Log
begin

text \<open>
  The ring of buffers of the logger implements a bounded sequence of chunks: what the tasks write
  leaves the logger in order, and the thread drains it.
\<close>

section \<open>The specification\<close>

text \<open>
  The chunks that are full, the oldest first, and the text of the chunk being written; \<open>S\<close> is the
  configured size of a chunk.  An entry is kept as far as its chunk has room, and dropped when six
  chunks are full.
\<close>

type_synonym chunks = "string list \<times> string"

definition spec_reserve :: "nat \<Rightarrow> nat \<Rightarrow> chunks \<Rightarrow> chunks" where
  "spec_reserve S need = (\<lambda>(F, c). if length F < 6 \<and> c \<noteq> [] \<and> length c + need \<ge> S then (F @ [c], []) else (F, c))"

definition spec_write :: "nat \<Rightarrow> nat \<Rightarrow> string \<Rightarrow> chunks \<Rightarrow> chunks \<times> string option" where
  "spec_write S need l x = (case spec_reserve S need x of (F, c) \<Rightarrow>
     if length F \<ge> 6 then ((F, c), None)
     else (let k = take (S - 1 - length c) l in ((F, c @ k), Some k)))"

definition spec_read :: "chunks \<Rightarrow> chunks \<times> string" where
  "spec_read = (\<lambda>(F, c). case F of [] \<Rightarrow> (([], []), c) | f # F \<Rightarrow> ((F, c), f))"

definition spec_text :: "chunks \<Rightarrow> string" where
  "spec_text = (\<lambda>(F, c). concat F @ c)"

lemma spec_reserve_text: "spec_text (spec_reserve S need x) = spec_text x"
  by (cases x) (simp add: spec_reserve_def spec_text_def)

lemma spec_write_text:
  "spec_write S need l x = (y, r) \<Longrightarrow> spec_text y = spec_text x @ (case r of None \<Rightarrow> [] | Some k \<Rightarrow> k)"
  using spec_reserve_text [of S need x]
  by (auto simp: spec_write_def spec_text_def Let_def split: prod.splits if_splits)

lemma spec_read_text: "spec_read x = (y, t) \<Longrightarrow> spec_text x = t @ spec_text y"
  by (auto simp: spec_read_def spec_text_def split: prod.splits list.splits)

section \<open>The ring represents the chunks\<close>

definition slot :: "logger \<Rightarrow> nat \<Rightarrow> LogBufferCache" where
  "slot s i = gLogBufferQueue s ((gpReadBuffer s + i) mod 6)"

definition holds :: "LogBufferCache \<Rightarrow> string \<Rightarrow> bool" where
  "holds b t \<longleftrightarrow> lb_length b = of_nat (length t) \<and> (t \<noteq> [] \<longrightarrow> cstr (lb_logData b) 0 t)"

text \<open>The chunk of slot \<open>i\<close>.\<close>

definition chunk :: "chunks \<Rightarrow> nat \<Rightarrow> string" where
  "chunk = (\<lambda>(F, c) i. if i < length F then F ! i else if i = length F then c else [])"

definition ring :: "(int \<Rightarrow> string) \<Rightarrow> nat \<Rightarrow> logger \<Rightarrow> chunks \<Rightarrow> bool" where
  "ring clock S s x \<longleftrightarrow> (case x of (F, c) \<Rightarrow>
     gpReadBuffer s < 6 \<and> length F \<le> 6 \<and> gpWriteBuffer s = (gpReadBuffer s + length F) mod 6 \<and> (length F = 6 \<longrightarrow> c = []) \<and>
     (\<forall>i<6. lb_next (gLogBufferQueue s i) = (i + 1) mod 6) \<and>
     (\<forall>i<6. lb_fullFlag (slot s i) = (if i < length F then 1 else 0) \<and> holds (slot s i) (chunk (F, c) i)) \<and>
     (\<forall>f\<in>set F. f \<noteq> [] \<and> length f < S) \<and> length c < S) \<and> stamp_ok clock (lg_stamp s)"

lemma ring_index [simp]:
  assumes "i < 6" "j < 6"
  shows "((r :: nat) + i) mod 6 = (r + j) mod 6 \<longleftrightarrow> i = j"
proof -
  have "i = j" if "(r + i) mod 6 = (r + j) mod 6" "j \<le> i" "i < 6" for i j
  proof -
    have "6 dvd i - j" using that(1,2) mod_eq_dvd_iff_nat [of "r + j" "r + i" 6] by simp
    then show ?thesis using that(2,3) by (auto dest: dvd_imp_le)
  qed
  then show ?thesis using assms by (metis linear)
qed

lemma last_next: "\<not> i < 5 \<Longrightarrow> i < 6 \<Longrightarrow> Suc i mod 6 = 0"
  by (cases "i = 5") auto

lemma ring_init:
  assumes "lc_logType cfg = 1" "stamp_ok clock (lg_stamp s)" "0 < S"
  shows "ring clock S (InitAsyncLogger cfg s) ([], [])"
  using assms by (auto simp: ring_def InitAsyncLogger_def slot_def holds_def chunk_def last_next)

text \<open>A change of the write buffer changes one slot.\<close>

lemma slot_set:
  assumes "n < 6" "i < 6"
  shows "slot (set_buffer ((gpReadBuffer s + n) mod 6) f s) i = (if i = n then f (slot s n) else slot s i)"
  using assms by (simp add: slot_def set_buffer_def)

lemma set_buffer_simps [simp]:
  "gpReadBuffer (set_buffer i f s) = gpReadBuffer s" "gpWriteBuffer (set_buffer i f s) = gpWriteBuffer s"
  "lg_stamp (set_buffer i f s) = lg_stamp s" "lg_out (set_buffer i f s) = lg_out s" "lg_logFileSize (set_buffer i f s) = lg_logFileSize s"
  by (simp_all add: set_buffer_def)

lemma ring_write_slot: "ring clock S s (F, c) \<Longrightarrow> gLogBufferQueue s (gpWriteBuffer s) = slot s (length F mod 6)"
  by (simp add: ring_def slot_def mod_add_right_eq)

lemma ring_slot:
  "ring clock S s (F, c) \<Longrightarrow> i < 6 \<Longrightarrow> lb_fullFlag (slot s i) = (if i < length F then 1 else 0) \<and> holds (slot s i) (chunk (F, c) i)"
  by (simp add: ring_def)

lemma ring_full:
  assumes "ring clock S s (F, c)"
  shows "lb_fullFlag (gLogBufferQueue s (gpWriteBuffer s)) \<noteq> 0 \<longleftrightarrow> length F = 6"
proof (cases "length F = 6")
  case True
  then show ?thesis using assms ring_write_slot [OF assms] by (simp add: ring_def)
next
  case False
  then have "length F < 6" using assms by (simp add: ring_def)
  then show ?thesis using assms ring_write_slot [OF assms] False by (simp add: ring_def)
qed

lemma ring_mark_full:
  assumes "ring clock S s (F, c)" "length F < 6" "c \<noteq> []"
  shows "ring clock S (mark_full s) (F @ [c], [])" "lg_out (mark_full s) = lg_out s"
proof -
  let ?n = "length F" and ?s = "set_buffer (gpWriteBuffer s) (\<lambda>b. b\<lparr>lb_fullFlag := 1\<rparr>) s"
  have w: "gpWriteBuffer s = (gpReadBuffer s + ?n) mod 6" using assms(1) by (simp add: ring_def)
  then have nx: "lb_next (gLogBufferQueue s (gpWriteBuffer s)) = (gpReadBuffer s + Suc ?n) mod 6"
    using assms(1) by (simp add: ring_def mod_Suc_eq)
  have sl: "slot ?s i = (if i = ?n then slot s ?n\<lparr>lb_fullFlag := 1\<rparr> else slot s i)" if "i < 6" for i
    unfolding w by (rule slot_set [OF assms(2) that])
  have mk: "mark_full s = ?s\<lparr>gpWriteBuffer := (gpReadBuffer s + Suc ?n) mod 6\<rparr>" by (simp add: mark_full_def Let_def nx)
  have sl2: "slot (mark_full s) i = slot ?s i" for i by (simp add: mk slot_def)
  have "lb_next (gLogBufferQueue (mark_full s) i) = (i + 1) mod 6" if "i < 6" for i
    using assms(1) that by (simp add: mk set_buffer_def ring_def)
  moreover have "lb_fullFlag (slot (mark_full s) i) = (if i < Suc ?n then 1 else 0) \<and> holds (slot (mark_full s) i) (chunk (F @ [c], []) i)"
    if "i < 6" for i
    using assms(1) that unfolding sl2 sl [OF that]
    by (auto simp: ring_def holds_def chunk_def nth_append less_Suc_eq split: if_splits)
  ultimately show "ring clock S (mark_full s) (F @ [c], [])" using assms by (simp add: ring_def mk)
  show "lg_out (mark_full s) = lg_out s" by (simp add: mk)
qed

section \<open>Writing refines the specification\<close>

text \<open>
  The configurations the properties are about: the ring, with chunks of 160 characters at least.
\<close>

definition ring_config :: "LoggerConfig \<Rightarrow> nat \<Rightarrow> bool" where
  "ring_config cfg S \<longleftrightarrow> lc_logType cfg = 1 \<and> lc_logBufferingSize cfg = of_nat S \<and> 160 \<le> S \<and> S \<le> MAX_LOG_BLOCK_SIZE"

lemma unat_small: "n < 2 ^ 32 \<Longrightarrow> unat (of_nat n :: u32) = n"
  by (simp add: unat_of_nat_small)

lemma of_nat_le_small: "m < 2 ^ 32 \<Longrightarrow> n < 2 ^ 32 \<Longrightarrow> (of_nat m :: u32) \<le> of_nat n \<longleftrightarrow> m \<le> n"
  by (simp add: word_le_nat_alt unat_small)

lemma of_nat_zero_small: "n < 2 ^ 32 \<Longrightarrow> (of_nat n :: u32) = 0 \<longleftrightarrow> n = 0"
  by (simp add: unat_eq_zero [symmetric] unat_small)

lemma remain_room: "l \<le> S \<Longrightarrow> S \<le> MAX_LOG_BLOCK_SIZE \<Longrightarrow> sint (of_nat S - of_nat l :: u32) = int (S - l)"
  using sint_small [of "int (S - l)"] by (simp add: of_nat_diff)

lemma reserve_refines:
  assumes "ring clock S s (F, c)" "ring_config cfg S" "nf (of_nat (length c)) = of_nat (length c + need)" "length c + need < 2 ^ 32"
    and "spec_reserve S need (F, c) = (G, d)"
  shows "\<exists>s'. log_reserve cfg nf s = (length G \<noteq> 6, s') \<and> ring clock S s' (G, d) \<and>
    lg_out s' = lg_out s @ (if length G = 6 then [Log_Dropped] else [])"
proof -
  have S: "0 < S" "S < 2 ^ 32" "lc_logBufferingSize cfg = of_nat S" using assms(2) by (auto simp: ring_config_def)
  have le: "length F \<le> 6" using assms(1) by (simp add: ring_def)
  have emit: "ring clock S (log_emit Log_Dropped t) x = ring clock S t x" "lg_out (log_emit Log_Dropped t) = lg_out t @ [Log_Dropped]" for t x
    by (simp_all add: ring_def log_emit_def slot_def)
  show ?thesis
  proof (cases "length F = 6")
    case True
    then have "G = F" "d = c" using assms(5) by (auto simp: spec_reserve_def)
    moreover have "log_reserve cfg nf s = (False, log_emit Log_Dropped s)"
      using ring_full [OF assms(1)] True by (simp add: log_reserve_def)
    ultimately show ?thesis using assms(1) True emit by simp
  next
    case False
    then have f: "length F < 6" using le by simp
    then have w: "gLogBufferQueue s (gpWriteBuffer s) = slot s (length F)" using ring_write_slot [OF assms(1)] by simp
    have lc: "lb_length (slot s (length F)) = of_nat (length c)" "length c < S"
      using assms(1) f by (auto simp: ring_def holds_def chunk_def)
    have cnd: "lc_logBufferingSize cfg \<noteq> 0 \<and> lb_length (slot s (length F)) \<noteq> 0 \<and>
        nf (lb_length (slot s (length F))) \<ge> lc_logBufferingSize cfg \<longleftrightarrow> c \<noteq> [] \<and> length c + need \<ge> S"
      using S lc assms(3,4) by (simp add: of_nat_zero_small of_nat_le_small del: of_nat_add)
    have nf: "lb_fullFlag (slot s (length F)) = 0" using ring_full [OF assms(1)] False w by simp
    show ?thesis
    proof (cases "c \<noteq> [] \<and> length c + need \<ge> S")
      case True
      then have g: "G = F @ [c]" "d = []" using assms(5) f by (auto simp: spec_reserve_def)
      note mk = ring_mark_full [OF assms(1) f]
      have r: "ring clock S (mark_full s) (G, d)" using mk(1) True g by simp
      have "log_reserve cfg nf s = (if length G = 6 then (False, log_emit Log_Dropped (mark_full s)) else (True, mark_full s))"
        using cnd True nf ring_full [OF r] by (simp add: log_reserve_def w Let_def)
      then show ?thesis using r mk(2) True emit by (cases "length G = 6") simp_all
    next
      case no: False
      then have g: "G = F" "d = c" using assms(5) f by (auto simp: spec_reserve_def)
      have "log_reserve cfg nf s = (True, s)" using cnd no nf unfolding log_reserve_def w Let_def by auto
      then show ?thesis using assms(1) g False by simp
    qed
  qed
qed

lemma commit_refines:
  assumes "ring clock S s (F, c)" "ring_config cfg S" "length F < 6" "length (c @ k) < S" "NUL \<notin> set k"
    and "wrote (lb_logData (gLogBufferQueue s (gpWriteBuffer s))) a (length c) k" "a (length c + length k) = NUL"
  shows "ring clock S (log_commit cfg a (length k) s) (F, c @ k)" "lg_out (log_commit cfg a (length k) s) = lg_out s"
proof -
  let ?n = "length F" and ?f = "\<lambda>b. b\<lparr>lb_logData := a, lb_length := lb_length b + of_nat (length k)\<rparr>"
  let ?s = "set_buffer (gpWriteBuffer s) ?f s"
  have w: "gpWriteBuffer s = (gpReadBuffer s + ?n) mod 6" "gLogBufferQueue s (gpWriteBuffer s) = slot s ?n"
    using assms(1,3) ring_write_slot [OF assms(1)] by (simp_all add: ring_def)
  have h: "holds (slot s ?n) c" using assms(1,3) by (auto simp: ring_def chunk_def)
  have sl: "slot ?s i = (if i = ?n then ?f (slot s ?n) else slot s i)" if "i < 6" for i
    unfolding w(1) by (rule slot_set [OF assms(3) that])
  have "holds (?f (slot s ?n)) (c @ k)"
  proof (cases "c = []")
    case False
    then have "text_at a 0 c" "NUL \<notin> set c"
      using assms(6) h w(2) by (auto simp: wrote_def holds_def cstr_def text_at_nth)
    then show ?thesis using h assms(5-7) by (auto simp: holds_def cstr_def wrote_def)
  qed (use h assms(5-7) in \<open>auto simp: holds_def cstr_def wrote_def\<close>)
  then have "lb_fullFlag (slot ?s i) = (if i < ?n then 1 else 0) \<and> holds (slot ?s i) (chunk (F, c @ k) i)" if "i < 6" for i
  proof -
    have "chunk (F, c @ k) i = (if i = ?n then c @ k else chunk (F, c) i)" by (simp add: chunk_def)
    then show ?thesis using ring_slot [OF assms(1) that] \<open>holds (?f (slot s ?n)) (c @ k)\<close> sl [OF that] by (cases "i = ?n") simp_all
  qed
  moreover have "lb_next (gLogBufferQueue ?s i) = (i + 1) mod 6" if "i < 6" for i
    using assms(1) that by (simp add: set_buffer_def ring_def)
  ultimately have r: "ring clock S ?s (F, c @ k)" using assms(1,3,4) by (simp add: ring_def)
  have "lb_length (gLogBufferQueue ?s (gpWriteBuffer ?s)) = of_nat (length (c @ k))"
    using r assms(3) ring_write_slot [OF r] by (auto simp: ring_def holds_def chunk_def)
  then have "\<not> lb_length (gLogBufferQueue ?s (gpWriteBuffer ?s)) \<ge> lc_logBufferingSize cfg"
    using assms(2,4) by (simp add: ring_config_def of_nat_le_small not_le del: of_nat_add length_append)
  then have "log_commit cfg a (length k) s = ?s" by (simp add: log_commit_def Let_def)
  then show "ring clock S (log_commit cfg a (length k) s) (F, c @ k)" "lg_out (log_commit cfg a (length k) s) = lg_out s"
    using r by simp_all
qed

text \<open>
  After the reservation an entry that starts with a short head finds room for more than the head.
\<close>

lemma reserve_room:
  "spec_reserve S 160 (F, c) = (G, d) \<Longrightarrow> length G < 6 \<Longrightarrow> 160 \<le> S \<Longrightarrow> d = [] \<or> length d + 160 < S"
  by (auto simp: spec_reserve_def split: if_splits)

lemma take_tail: "length h \<le> n \<Longrightarrow> h @ take (n - length h) t = take n (h @ t)"
  by simp

lemma level_names: "lv < 5 \<Longrightarrow> NUL \<notin> set (gLoggerLevelName_s ! unat (lv :: u32))"
proof -
  have names: "\<forall>x\<in>set gLoggerLevelName_s. NUL \<notin> set x" "length gLoggerLevelName_s = 5" by (simp_all add: gLoggerLevelName_s_def)
  assume "lv < 5"
  then have "unat lv < length gLoggerLevelName_s" using names(2) by (simp add: word_less_nat_alt)
  then show ?thesis using names(1) by (auto dest: nth_mem)
qed

lemma line_head_text: "clock_ok clock \<Longrightarrow> msg_ok m \<Longrightarrow> NUL \<notin> set (line_head clock cfg m)"
  using level_names [of "lm_logLevel m"] render_facts(2) [of clock "lm_sec m" "lm_usec m div 1000"] dec_digits [of "lm_threadId m"]
  by (auto simp: line_head_def msg_ok_def div_less_iff_less_mult)

definition drop_event :: "string option \<Rightarrow> log_event list" where
  "drop_event r = (if r = None then [Log_Dropped] else [])"

lemma AsyncWriteMsg_refines:
  assumes "ring clock S s (F, c)" "ring_config cfg S" "clock_ok clock" "msg_ok m" "length (line_head clock cfg m) < 160"
    and "spec_write S 160 (line_head clock cfg m @ lm_text m) (F, c) = (y, r)"
  shows "\<exists>s'. AsyncWriteMsg clock cfg m s = Some s' \<and> ring clock S s' y \<and> lg_out s' = lg_out s @ drop_event r"
proof -
  obtain G d where g: "spec_reserve S 160 (F, c) = (G, d)" by (cases "spec_reserve S 160 (F, c)")
  have S: "160 \<le> S" "S \<le> 16384" "lc_logBufferingSize cfg = of_nat S" using assms(2) by (auto simp: ring_config_def)
  have cS: "length c < S" using assms(1) by (simp add: ring_def)
  obtain s1 where s1: "log_reserve cfg (\<lambda>len. of_nat 32 + len + 128) s = (length G \<noteq> 6, s1)" "ring clock S s1 (G, d)"
    "lg_out s1 = lg_out s @ (if length G = 6 then [Log_Dropped] else [])"
    using reserve_refines [OF assms(1,2) _ _ g, of "\<lambda>len. of_nat 32 + len + 128"] cS S by (auto simp: add.commute)
  show ?thesis
  proof (cases "length G = 6")
    case True
    then have "y = (G, d)" "r = None" using assms(6) g by (auto simp: spec_write_def)
    then show ?thesis using s1 True by (simp add: AsyncWriteMsg_def drop_event_def)
  next
    case False
    then have G: "length G < 6" using s1(2) by (simp add: ring_def)
    have w: "gLogBufferQueue s1 (gpWriteBuffer s1) = slot s1 (length G)" using ring_write_slot [OF s1(2)] G by simp
    have d: "lb_length (slot s1 (length G)) = of_nat (length d)" "length d < S" "stamp_ok clock (lg_stamp s1)"
      using s1(2) G by (auto simp: ring_def holds_def chunk_def)
    let ?h = "line_head clock cfg m" and ?R = "S - length d"
    define k where "k = ?h @ take (?R - length ?h - 1) (lm_text m)"
    have room: "length ?h < ?R" using reserve_room [OF g G S(1)] assms(5) S(1) by auto
    have sz: "sint (lc_logBufferingSize cfg - lb_length (slot s1 (length G))) = int ?R"
      using remain_room [of "length d" S] d S by simp
    have ln: "unat (lb_length (slot s1 (length G))) = length d" using d S(2) by (simp add: unat_small)
    obtain a st where l: "log_line clock cfg 16384 (length d) (int ?R) m (lb_logData (slot s1 (length G))) (lg_stamp s1) = Some (a, length k, st)"
      "wrote (lb_logData (slot s1 (length G))) a (length d) k" "a (length d + length k) = NUL" "stamp_ok clock st"
    proof -
      have "int (length ?h) < int ?R" "length d + nat (int ?R) \<le> 16384" using room S(2) by simp_all
      from log_line_ok [OF assms(3) d(3) assms(4) this, unfolded Let_def nat_int, folded k_def] show thesis using that by blast
    qed
    have kk: "k = take (S - 1 - length d) (?h @ lm_text m)" using room by (simp add: k_def)
    have "length (d @ k) < S" using kk d(2) by simp
    moreover have "NUL \<notin> set k"
      using line_head_text [OF assms(3,4), of cfg] assms(4) by (auto simp: k_def msg_ok_def dest: in_set_takeD)
    moreover have "ring clock S (s1\<lparr>lg_stamp := st\<rparr>) (G, d)" using s1(2) l(4) by (simp add: ring_def slot_def)
    ultimately have "ring clock S (log_commit cfg a (length k) (s1\<lparr>lg_stamp := st\<rparr>)) (G, d @ k)"
      "lg_out (log_commit cfg a (length k) (s1\<lparr>lg_stamp := st\<rparr>)) = lg_out s1"
      using commit_refines [of clock S "s1\<lparr>lg_stamp := st\<rparr>" G d cfg k a] assms(2) G l(2,3) w by auto
    moreover have "y = (G, d @ k)" "r = Some k" using assms(6) g G kk by (simp_all add: spec_write_def Let_def)
    moreover have "AsyncWriteMsg clock cfg m s = Some (log_commit cfg a (length k) (s1\<lparr>lg_stamp := st\<rparr>))"
      using s1(1) False l(1) by (simp add: AsyncWriteMsg_def w sz ln)
    ultimately show ?thesis using s1(3) False by (simp add: drop_event_def)
  qed
qed

section \<open>Dumping refines the specification\<close>

fun dump_text :: "nat \<Rightarrow> u8 list \<Rightarrow> string" where
  "dump_text i [] = []"
| "dump_text i (b # bs) = hex_byte b @ (if (i + 1) mod 16 = 0 then [CHR 0x0A] else []) @ dump_text (i + 1) bs"

lemma take_take_append: "take n (take n t @ u) = take n (t @ u)"
  by (simp add: min_def)

lemma hex_byte_text: "NUL \<notin> set (hex_byte b)" "length (hex_byte b) = 3"
proof -
  define H where "H = ''0123456789abcdef''"
  have n: "NUL \<notin> set H" "length H = 16" by (simp_all add: H_def)
  have "unat b div 16 < 16" "unat b mod 16 < 16" using unsigned_less [of b, where ?'a = nat] by (simp_all add: div_less_iff_less_mult)
  then have "H ! (unat b div 16) \<in> set H" "H ! (unat b mod 16) \<in> set H" using n(2) by simp_all
  moreover have "hex_byte b = [H ! (unat b div 16), H ! (unat b mod 16), CHR '' '']" by (simp only: hex_byte_def H_def)
  ultimately show "NUL \<notin> set (hex_byte b)" using n(1) by auto
qed (simp add: hex_byte_def)

lemma dump_text_length: "length (dump_text i bs) \<le> 3 * length bs + (i mod 16 + length bs) div 16"
proof (induction bs arbitrary: i)
  case (Cons b bs)
  have m: "(i + 1) mod 16 = (if i mod 16 = 15 then 0 else i mod 16 + 1)" by (simp add: mod_Suc)
  show ?case using Cons.IH [of "i + 1"] m by (cases "i mod 16 = 15") (auto simp: hex_byte_text)
qed simp

lemma dump_text_text: "NUL \<notin> set (dump_text i bs)"
  by (induction i bs rule: dump_text.induct) (auto simp: hex_byte_text)

text \<open>
  The text so far, cut off at what the size leaves room for, stands in the array and is terminated.
\<close>

definition printed_so_far :: "chars \<Rightarrow> chars \<Rightarrow> nat \<Rightarrow> nat \<Rightarrow> string \<Rightarrow> bool" where
  "printed_so_far a0 a base R t \<longleftrightarrow> wrote a0 a base (take (R - 1) t) \<and> NUL \<notin> set t"

lemma printed_more:
  assumes "printed_so_far a0 a base R t" "0 < R" "base + R \<le> cap" "NUL \<notin> set u"
  shows "\<exists>a'. c_snprintf cap (base + length (take (R - 1) t)) (int R - int (length (take (R - 1) t))) u a = Some a' \<and>
    c_strlen cap a' base = Some (length (take (R - 1) (t @ u))) \<and> printed_so_far a0 a' base R (t @ u) \<and>
    a' (base + length (take (R - 1) (t @ u))) = NUL"
proof -
  let ?t = "take (R - 1) t" and ?v = "take (R - 1) (t @ u)"
  define v where "v = take (R - length ?t - 1) u"
  have tv: "?t @ v = ?v" by (cases "length t \<le> R - 1") (simp_all add: v_def min_def)
  have lt: "length ?t < R" using assms(2) by simp
  obtain a' where a': "put cap (base + length ?t) (v @ [NUL]) a = Some a'" "wrote a0 a' base (?t @ v @ [NUL])"
    by (rule put_wrote [of a0 a base ?t "v @ [NUL]" cap])
      (use assms(1,3) lt in \<open>auto simp: printed_so_far_def v_def min_def split: if_splits\<close>)
  have "wrote a0 a' base (?t @ v)" "a' (base + length (?t @ v)) = NUL" using a'(2) by (simp_all add: wrote_def add.assoc)
  then have w: "wrote a0 a' base ?v" "a' (base + length ?v) = NUL" unfolding tv by simp_all
  have "NUL \<notin> set ?v" using assms(1,4) by (auto simp: printed_so_far_def dest: in_set_takeD)
  then have "cstr a' base ?v" using w by (simp add: cstr_def wrote_def)
  moreover have "base + length ?v < cap" using assms(2,3) by auto
  ultimately have "c_strlen cap a' base = Some (length ?v)" by (rule c_strlen_cstr)
  moreover have "c_snprintf cap (base + length ?t) (int R - int (length ?t)) u a = Some a'"
    using a'(1) lt by (simp add: c_snprintf_def v_def nat_diff_distrib)
  ultimately show ?thesis using w assms(1,4) by (auto simp: printed_so_far_def)
qed

lemma dump_bytes_ok:
  assumes "printed_so_far a0 a base R t" "0 < R" "base + R \<le> cap"
  shows "\<exists>a'. dump_bytes cap base (int R) i bs (a, length (take (R - 1) t)) = Some (a', length (take (R - 1) (t @ dump_text i bs))) \<and>
    printed_so_far a0 a' base R (t @ dump_text i bs)"
  using assms(1)
proof (induction bs arbitrary: i a t)
  case (Cons b bs)
  obtain a1 where a1: "c_snprintf cap (base + length (take (R - 1) t)) (int R - int (length (take (R - 1) t))) (hex_byte b) a = Some a1"
    "c_strlen cap a1 base = Some (length (take (R - 1) (t @ hex_byte b)))" "printed_so_far a0 a1 base R (t @ hex_byte b)"
    using printed_more [OF Cons.prems assms(2,3) hex_byte_text(1)] by blast
  define u where "u = (if (i + 1) mod 16 = 0 then [CHR 0x0A] else [] :: string)"
  obtain a2 where a2: "(if (i + 1) mod 16 = 0 then do {
         a \<leftarrow> c_snprintf cap (base + length (take (R - 1) (t @ hex_byte b))) (int R - int (length (take (R - 1) (t @ hex_byte b)))) [CHR 0x0A] a1;
         off \<leftarrow> c_strlen cap a base;
         Some (a, off) }
       else Some (a1, length (take (R - 1) (t @ hex_byte b)))) = Some (a2, length (take (R - 1) ((t @ hex_byte b) @ u)))"
    "printed_so_far a0 a2 base R ((t @ hex_byte b) @ u)"
    using printed_more [OF a1(3) assms(2,3), of "[CHR 0x0A]"] a1(3) by (cases "(i + 1) mod 16 = 0") (auto simp: u_def)
  have lt: "\<not> int (length (take (R - 1) ((t @ hex_byte b) @ u))) \<ge> int R" using assms(2) by simp
  show ?case
    using Cons.IH [OF a2(2), of "i + 1"] lt unfolding dump_bytes.simps a1(1,2) bind.bind_lunit a2(1) prod.case
    by (simp add: u_def)
qed simp

lemma LoggerWriteMem_refines:
  assumes "ring clock S s (F, c)" "ring_config cfg S" "bs \<noteq> []" "length bs < 2 ^ 16" "lc_logLevel cfg \<le> lv" "lv < 5"
    and "spec_write S (3 * length bs + length bs div 16 + 5) (dump_text 0 bs @ [CHR 0x0A]) (F, c) = (y, r)"
  shows "\<exists>s'. LoggerWriteMem cfg lv bs s = Some s' \<and> ring clock S s' y \<and> lg_out s' = lg_out s @ drop_event r"
proof -
  let ?need = "3 * length bs + length bs div 16 + 5" and ?n = "of_nat (length bs) :: u32"
  let ?nf = "\<lambda>len. 3 * ?n + ?n div 16 + len + 5"
  obtain G d where g: "spec_reserve S ?need (F, c) = (G, d)" by (cases "spec_reserve S ?need (F, c)")
  have S: "160 \<le> S" "S \<le> 16384" "lc_logBufferingSize cfg = of_nat S" "lc_logType cfg = 1" using assms(2) by (auto simp: ring_config_def)
  have cS: "length c < S" using assms(1) by (simp add: ring_def)
  have dv: "?n div 16 = of_nat (length bs div 16)" using assms(4) by (simp add: word_unat_eq_iff unat_div unat_small)
  have nf: "?nf (of_nat (length c)) = of_nat (length c + ?need)" by (simp add: dv)
  have sm: "length c + ?need < 2 ^ 32" using cS S assms(4) div_le_dividend [of "length bs" 16] by simp
  obtain s1 where s1: "log_reserve cfg ?nf s = (length G \<noteq> 6, s1)" "ring clock S s1 (G, d)"
    "lg_out s1 = lg_out s @ (if length G = 6 then [Log_Dropped] else [])"
    using reserve_refines [where nf = ?nf and need = ?need, OF assms(1,2) nf sm g] by blast
  show ?thesis
  proof (cases "length G = 6")
    case True
    then have "y = (G, d)" "r = None" using assms(7) g by (auto simp: spec_write_def)
    then show ?thesis using s1 True assms(3,5,6) S(4) by (simp add: LoggerWriteMem_def drop_event_def Let_def)
  next
    case False
    then have G: "length G < 6" using s1(2) by (simp add: ring_def)
    have w: "gLogBufferQueue s1 (gpWriteBuffer s1) = slot s1 (length G)" using ring_write_slot [OF s1(2)] G by simp
    have d: "lb_length (slot s1 (length G)) = of_nat (length d)" "length d < S"
      using s1(2) G by (auto simp: ring_def holds_def chunk_def)
    let ?R = "S - length d" and ?a = "lb_logData (slot s1 (length G))" and ?t = "dump_text 0 bs"
    have R: "0 < ?R" "length d + ?R \<le> 16384" using d S by simp_all
    have sz: "sint (lc_logBufferingSize cfg - lb_length (slot s1 (length G))) = int ?R"
      using remain_room [of "length d" S] d S by simp
    have ln: "unat (lb_length (slot s1 (length G))) = length d" using d S(2) by (simp add: unat_small)
    have "printed_so_far ?a ?a (length d) ?R []" by (simp add: printed_so_far_def wrote_def)
    from dump_bytes_ok [OF this R, of 0 bs] obtain a where
      a: "dump_bytes 16384 (length d) (int ?R) 0 bs (?a, 0) = Some (a, length (take (?R - 1) ?t))" "printed_so_far ?a a (length d) ?R ?t"
      by auto
    define k where "k = take (?R - 1) (?t @ [CHR 0x0A])"
    obtain a' where a': "c_snprintf 16384 (length d + length (take (?R - 1) ?t)) (int ?R - int (length (take (?R - 1) ?t))) [CHR 0x0A] a = Some a'"
      "c_strlen 16384 a' (length d) = Some (length k)" "wrote ?a a' (length d) k" "a' (length d + length k) = NUL"
      using printed_more [OF a(2) R, of "[CHR 0x0A]"] by (auto simp: printed_so_far_def k_def)
    have kk: "k = take (S - 1 - length d) (?t @ [CHR 0x0A])" by (simp add: k_def)
    have "length (d @ k) < S" using kk d(2) by simp
    moreover have "NUL \<notin> set k" using dump_text_text [of 0 bs] by (auto simp: k_def dest: in_set_takeD)
    ultimately have "ring clock S (log_commit cfg a' (length k) s1) (G, d @ k)" "lg_out (log_commit cfg a' (length k) s1) = lg_out s1"
      using commit_refines [OF s1(2) assms(2) G, of k a'] a'(3,4) w by auto
    moreover have "y = (G, d @ k)" "r = Some k" using assms(7) g G kk by (simp_all add: spec_write_def Let_def)
    moreover have "LoggerWriteMem cfg lv bs s = Some (log_commit cfg a' (length k) s1)"
      using s1(1) False a(1) a'(1,2) assms(3,5,6) S(4) by (simp add: LoggerWriteMem_def w sz ln Let_def)
    ultimately show ?thesis using s1(3) False by (simp add: drop_event_def)
  qed
qed

section \<open>Reading refines the specification\<close>

fun on_console :: "log_event \<Rightarrow> string" where
  "on_console (Log_Console t) = t" | "on_console _ = []"

fun in_file :: "log_event \<Rightarrow> string" where
  "in_file (Log_File t) = t" | "in_file _ = []"

fun on_socket :: "log_event \<Rightarrow> string" where
  "on_socket (Log_Socket t) = t" | "on_socket _ = []"

text \<open>Every output that is switched on has got the text.\<close>

definition delivered :: "LoggerConfig \<Rightarrow> log_event list \<Rightarrow> string \<Rightarrow> bool" where
  "delivered cfg es t \<longleftrightarrow> (lc_logToConsoleFlag cfg \<noteq> 0 \<longrightarrow> concat (map on_console es) = t) \<and>
     (lc_logToFileFlag cfg \<noteq> 0 \<longrightarrow> concat (map in_file es) = t) \<and>
     (lc_logToSocketFlag cfg \<noteq> 0 \<longrightarrow> concat (map on_socket es) = t)"

definition dropped :: "log_event list \<Rightarrow> nat" where
  "dropped es = length (filter ((=) Log_Dropped) es)"

lemma LoggerOutputLog_ok:
  assumes "cstr a 0 t" "length t < cap" "len = of_nat (length t)" "cap < 2 ^ 32"
  shows "\<exists>es z. LoggerOutputLog cfg cap a len s = Some (s\<lparr>lg_out := lg_out s @ es, lg_logFileSize := z\<rparr>) \<and>
    delivered cfg es t \<and> dropped es = 0"
proof -
  have n: "c_strlen cap a 0 = Some (length t)" using c_strlen_cstr [OF assms(1), of cap] assms(2) by simp
  have t: "map a [0..<length t] = t" using assms(1) by (simp add: cstr_def text_at_def)
  have l: "unat len = length t" using assms(2-4) by (simp add: unat_small)
  let ?over = "len > 0 \<and> lg_logFileSize s + len > lc_maxLogFileSize cfg"
  let ?es = "(if lc_logToConsoleFlag cfg \<noteq> 0 then [Log_Console t] else []) @
    (if lc_logToFileFlag cfg \<noteq> 0 then Log_File t # (if ?over then [Log_Rewind] else []) else []) @
    (if lc_logToSocketFlag cfg \<noteq> 0 then [Log_Socket t] else [])"
  let ?z = "if lc_logToFileFlag cfg \<noteq> 0 \<and> len > 0 then if ?over then 0 else lg_logFileSize s + len else lg_logFileSize s"
  have "LoggerOutputLog cfg cap a len s = Some (s\<lparr>lg_out := lg_out s @ ?es, lg_logFileSize := ?z\<rparr>)"
    using n t l assms(2) by (simp add: LoggerOutputLog_def log_emit_def Let_def)
  moreover have "delivered cfg ?es t" "dropped ?es = 0" by (auto simp: delivered_def dropped_def)
  ultimately show ?thesis by blast
qed

lemma delivered_append: "delivered cfg es t \<Longrightarrow> delivered cfg fs u \<Longrightarrow> delivered cfg (es @ fs) (t @ u)"
  by (simp add: delivered_def)

lemma delivered_Nil: "delivered cfg [] []"
  by (simp add: delivered_def)

lemma read_last:
  assumes "ring clock S s ([], c)"
  shows "ring clock S (set_buffer (gpReadBuffer s) (\<lambda>b. b\<lparr>lb_length := 0\<rparr>) s) ([], [])"
proof -
  let ?s = "set_buffer (gpReadBuffer s) (\<lambda>b. b\<lparr>lb_length := 0\<rparr>) s"
  have r: "gpReadBuffer s < 6" using assms by (simp add: ring_def)
  have sl: "slot ?s i = (if i = 0 then slot s 0\<lparr>lb_length := 0\<rparr> else slot s i)" if "i < 6" for i
    using slot_set [of 0 i s] that r by simp
  have "lb_fullFlag (slot ?s i) = 0 \<and> holds (slot ?s i) []" if "i < 6" for i
    using ring_slot [OF assms that] sl [OF that] by (auto simp: holds_def chunk_def split: if_splits)
  then show ?thesis using assms by (auto simp: ring_def set_buffer_def chunk_def)
qed

lemma read_first:
  assumes "ring clock S s (f # F, c)"
  defines "s' \<equiv> set_buffer (gpReadBuffer s) (\<lambda>b. b\<lparr>lb_length := 0, lb_fullFlag := 0\<rparr>) s
    \<lparr>gpReadBuffer := lb_next (gLogBufferQueue s (gpReadBuffer s))\<rparr>"
  shows "ring clock S s' (F, c)"
proof -
  let ?r = "gpReadBuffer s" and ?s = "set_buffer (gpReadBuffer s) (\<lambda>b. b\<lparr>lb_length := 0, lb_fullFlag := 0\<rparr>) s"
  have r: "?r < 6" "gpWriteBuffer s = (?r + Suc (length F)) mod 6" "length F < 6" "length F = 5 \<longrightarrow> c = []"
    using assms(1) by (simp_all add: ring_def)
  have nx: "gpReadBuffer s' = (?r + 1) mod 6" using assms(1) r(1) by (simp add: s'_def ring_def)
  have sl: "slot ?s i = (if i = 0 then slot s 0\<lparr>lb_length := 0, lb_fullFlag := 0\<rparr> else slot s i)" if "i < 6" for i
    using slot_set [of 0 i s] that r(1) by simp
  have sl': "slot s' i = slot ?s (Suc i mod 6)" for i
    unfolding slot_def nx by (simp add: s'_def mod_simps)
  have "lb_fullFlag (slot s' i) = (if i < length F then 1 else 0) \<and> holds (slot s' i) (chunk (F, c) i)" if "i < 6" for i
  proof (cases "i = 5")
    case True
    then have "slot s' i = slot s 0\<lparr>lb_length := 0, lb_fullFlag := 0\<rparr>" by (simp add: sl' sl)
    then show ?thesis using True r(3,4) by (auto simp: holds_def chunk_def)
  next
    case False
    then have i: "Suc i < 6" using that by simp
    then have "slot s' i = slot s (Suc i)" by (simp add: sl' sl)
    moreover have "chunk (f # F, c) (Suc i) = chunk (F, c) i" by (simp add: chunk_def)
    ultimately show ?thesis using ring_slot [OF assms(1) i] by simp
  qed
  moreover have "gpWriteBuffer s' = (gpReadBuffer s' + length F) mod 6"
    unfolding nx using r(2) by (simp add: s'_def mod_simps)
  ultimately show ?thesis using assms(1) r(3,4) nx by (auto simp: ring_def set_buffer_def s'_def)
qed

lemma LoggerEntryFunc_refines:
  assumes "ring clock S s x" "ring_config cfg S" "spec_read x = (y, t)"
  shows "\<exists>s' es. LoggerEntryFunc clock print cfg tv us s = Some s' \<and> ring clock S s' y \<and> lg_out s' = lg_out s @ es \<and>
    delivered cfg es t \<and> dropped es = 0"
proof -
  obtain F c where x: "x = (F, c)" by (cases x)
  let ?b = "gLogBufferQueue s (gpReadBuffer s)"
  have ty: "lc_logType cfg = 1" and S: "S \<le> 16384" using assms(2) by (simp_all add: ring_config_def)
  have b: "?b = slot s 0" using assms(1) x by (simp add: ring_def slot_def)
  have h: "lb_fullFlag ?b = (if F = [] then 0 else 1)" "holds ?b t"
    using ring_slot [OF assms(1) [unfolded x], of 0] assms(3) x b by (auto simp: chunk_def spec_read_def split: list.splits)
  have lt: "length t < S" using assms(1,3) x by (auto simp: ring_def spec_read_def split: list.splits)
  have z: "lb_length ?b = 0 \<longleftrightarrow> t = []" using h(2) lt S by (simp add: holds_def of_nat_zero_small)
  show ?thesis
  proof (cases "t = []")
    case True
    then have "x = y" using assms(1,3) x by (auto simp: ring_def spec_read_def split: list.splits)
    then show ?thesis using assms(1) z True ty delivered_Nil by (auto simp: LoggerEntryFunc_def dropped_def Let_def)
  next
    case False
    obtain es v where o: "LoggerOutputLog cfg 16384 (lb_logData ?b) (lb_length ?b) s = Some (s\<lparr>lg_out := lg_out s @ es, lg_logFileSize := v\<rparr>)"
      "delivered cfg es t" "dropped es = 0"
      using LoggerOutputLog_ok [of "lb_logData ?b" t 16384 "lb_length ?b" cfg s] h(2) False lt S by (auto simp: holds_def)
    let ?s = "s\<lparr>lg_out := lg_out s @ es, lg_logFileSize := v\<rparr>"
    have r: "ring clock S ?s (F, c)" using assms(1) x by (simp add: ring_def slot_def)
    show ?thesis
    proof (cases F)
      case Nil
      then have "y = ([], [])" using assms(3) x by (simp add: spec_read_def)
      then show ?thesis using read_last [of clock S ?s c] r Nil o(2,3) z h(1) False ty
        by (auto simp: LoggerEntryFunc_def Let_def o(1))
    next
      case (Cons f G)
      then have y: "y = (G, c)" using assms(3) x by (simp add: spec_read_def)
      let ?s' = "set_buffer (gpReadBuffer ?s) (\<lambda>b. b\<lparr>lb_length := 0, lb_fullFlag := 0\<rparr>) ?s
        \<lparr>gpReadBuffer := lb_next (gLogBufferQueue ?s (gpReadBuffer ?s))\<rparr>"
      have "LoggerEntryFunc clock print cfg tv us s = Some ?s'"
        using z h(1) False ty Cons by (simp add: LoggerEntryFunc_def Let_def o(1) set_buffer_def)
      moreover have "ring clock S ?s' y" using read_first [of clock S ?s f G c] r Cons y by simp
      ultimately show ?thesis using o(2,3) by (intro exI [of _ ?s'] exI [of _ es]) simp
    qed
  qed
qed

section \<open>Executions\<close>

text \<open>The entries that pass the filter, with what a writer asks for before it writes.\<close>

definition op_line :: "(int \<Rightarrow> string) \<Rightarrow> LoggerConfig \<Rightarrow> log_op \<Rightarrow> (nat \<times> string) option" where
  "op_line clock cfg op = (case op of
     Op_Msg m \<Rightarrow> if lm_logLevel m \<ge> lc_logLevel cfg then Some (160, line_head clock cfg m @ lm_text m) else None
   | Op_Mem lv bs \<Rightarrow> if bs \<noteq> [] \<and> lv \<ge> lc_logLevel cfg \<and> lv < 5
       then Some (3 * length bs + length bs div 16 + 5, dump_text 0 bs @ [CHR 0x0A]) else None
   | Op_Read t us \<Rightarrow> None)"

definition op_ok :: "(int \<Rightarrow> string) \<Rightarrow> LoggerConfig \<Rightarrow> log_op \<Rightarrow> bool" where
  "op_ok clock cfg op \<longleftrightarrow> (case op of
     Op_Msg m \<Rightarrow> msg_ok m \<and> length (line_head clock cfg m) < 160
   | Op_Mem lv bs \<Rightarrow> length bs < 2 ^ 16
   | Op_Read t us \<Rightarrow> True)"

text \<open>A step of the specification: the chunks, what is kept of an entry, what is output.\<close>

definition spec_step :: "(int \<Rightarrow> string) \<Rightarrow> LoggerConfig \<Rightarrow> nat \<Rightarrow> log_op \<Rightarrow> chunks \<Rightarrow> chunks \<times> string option list \<times> string" where
  "spec_step clock cfg S op x = (case op of
     Op_Read t us \<Rightarrow> (case spec_read x of (y, t) \<Rightarrow> (y, [], t))
   | _ \<Rightarrow> (case op_line clock cfg op of
       None \<Rightarrow> (x, [], [])
     | Some (need, l) \<Rightarrow> (case spec_write S need l x of (y, r) \<Rightarrow> (y, [r], []))))"

lemma log_step_refines:
  assumes "ring clock S s x" "ring_config cfg S" "clock_ok clock" "op_ok clock cfg op" "spec_step clock cfg S op x = (y, rs, t)"
  shows "\<exists>s' es. log_step clock print cfg op s = Some s' \<and> ring clock S s' y \<and> lg_out s' = lg_out s @ es \<and>
    delivered cfg es t \<and> dropped es = length (filter ((=) None) rs)"
proof -
  obtain F c where x: "x = (F, c)" by (cases x)
  note ring' = assms(1) [unfolded x]
  have drop: "delivered cfg (drop_event r) []" "dropped (drop_event r) = length (filter ((=) None) [r])" for r
    by (auto simp: drop_event_def delivered_def dropped_def)
  have ty: "lc_logType cfg = 1" using assms(2) by (simp add: ring_config_def)
  show ?thesis
  proof (cases op)
    case (Op_Msg m)
    show ?thesis
    proof (cases "lm_logLevel m \<ge> lc_logLevel cfg")
      case True
      then obtain r where r: "spec_write S 160 (line_head clock cfg m @ lm_text m) (F, c) = (y, r)" "rs = [r]" "t = []"
        using assms(5) x Op_Msg by (auto simp: spec_step_def op_line_def split: prod.splits)
      then show ?thesis using AsyncWriteMsg_refines [OF ring' assms(2,3) _ _ r(1)] assms(4) Op_Msg True ty drop
        by (auto simp: log_step_def LoggerWriteMsg_def op_ok_def msg_ok_def)
    next
      case False
      then show ?thesis using assms(1,5) Op_Msg delivered_Nil
        by (auto simp: log_step_def LoggerWriteMsg_def spec_step_def op_line_def dropped_def)
    qed
  next
    case (Op_Mem lv bs)
    show ?thesis
    proof (cases "bs \<noteq> [] \<and> lv \<ge> lc_logLevel cfg \<and> lv < 5")
      case True
      then obtain r where r: "spec_write S (3 * length bs + length bs div 16 + 5) (dump_text 0 bs @ [CHR 0x0A]) (F, c) = (y, r)" "rs = [r]" "t = []"
        using assms(5) x Op_Mem by (auto simp: spec_step_def op_line_def split: prod.splits)
      then show ?thesis using LoggerWriteMem_refines [OF ring' assms(2) _ _ _ _ r(1), of lv] assms(4) Op_Mem True drop
        by (auto simp: log_step_def op_ok_def)
    next
      case False
      then show ?thesis using assms(1,5) Op_Mem delivered_Nil
        by (auto simp: log_step_def LoggerWriteMem_def spec_step_def op_line_def dropped_def)
    qed
  next
    case (Op_Read tv us)
    then obtain t' where "spec_read x = (y, t')" "rs = []" "t = t'" using assms(5) by (auto simp: spec_step_def split: prod.splits)
    then show ?thesis using LoggerEntryFunc_refines [OF assms(1,2), of y t print tv us] Op_Read by (auto simp: log_step_def)
  qed
qed

text \<open>The entries of an execution, and the text that is kept of them.\<close>

fun entries :: "(int \<Rightarrow> string) \<Rightarrow> LoggerConfig \<Rightarrow> log_op list \<Rightarrow> string list" where
  "entries clock cfg [] = []"
| "entries clock cfg (op # ops) = (case op_line clock cfg op of None \<Rightarrow> [] | Some (need, l) \<Rightarrow> [l]) @ entries clock cfg ops"

definition kept_text :: "string option list \<Rightarrow> string" where
  "kept_text ks = concat (map (\<lambda>k. case k of None \<Rightarrow> [] | Some t \<Rightarrow> t) ks)"

definition kept_ok :: "string \<Rightarrow> string option \<Rightarrow> bool" where
  "kept_ok l k \<longleftrightarrow> (case k of None \<Rightarrow> True | Some t \<Rightarrow> prefix t l \<and> (length l < 160 \<longrightarrow> t = l))"

lemma kept_text_simps [simp]:
  "kept_text [] = []" "kept_text (ks @ ls) = kept_text ks @ kept_text ls" "kept_text [Some t] = t" "kept_text [None] = []"
  by (simp_all add: kept_text_def)

fun spec_run :: "(int \<Rightarrow> string) \<Rightarrow> LoggerConfig \<Rightarrow> nat \<Rightarrow> log_op list \<Rightarrow> chunks \<Rightarrow> chunks \<times> string option list \<times> string" where
  "spec_run clock cfg S [] x = (x, [], [])"
| "spec_run clock cfg S (op # ops) x = (case spec_step clock cfg S op x of (x, ks, t) \<Rightarrow>
     (case spec_run clock cfg S ops x of (x, ls, u) \<Rightarrow> (x, ks @ ls, t @ u)))"

lemma spec_write_kept:
  assumes "spec_write S need l x = (y, r)" "160 \<le> S" "160 \<le> need \<or> length l \<le> need"
  shows "kept_ok l r"
proof -
  obtain G d where g: "spec_reserve S need x = (G, d)" by (cases "spec_reserve S need x")
  have "d = [] \<or> length d + need < S \<or> length G \<ge> 6"
    using g assms(2) by (cases x) (auto simp: spec_reserve_def split: if_splits)
  then have "length l < 160 \<Longrightarrow> \<not> length G \<ge> 6 \<Longrightarrow> length l \<le> S - 1 - length d" using assms(2,3) by auto
  then show ?thesis using assms(1) g by (auto simp: spec_write_def kept_ok_def Let_def take_is_prefix split: if_splits)
qed

lemma spec_step_facts:
  assumes "spec_step clock cfg S op x = (y, ks, t)" "160 \<le> S"
  shows "spec_text x @ kept_text ks = t @ spec_text y" "list_all2 kept_ok (entries clock cfg [op]) ks"
proof -
  have d: "length (dump_text 0 bs @ [CHR 0x0A]) \<le> 3 * length bs + length bs div 16 + 5" for bs
    using dump_text_length [of 0 bs] by simp
  show "spec_text x @ kept_text ks = t @ spec_text y"
    using assms(1) by (auto simp: spec_step_def spec_read_text spec_write_text split: log_op.splits option.splits prod.splits)
  show "list_all2 kept_ok (entries clock cfg [op]) ks"
  proof (cases op)
    case (Op_Mem lv bs)
    then show ?thesis using assms d by (auto simp: spec_step_def op_line_def split: prod.splits if_splits intro!: spec_write_kept)
  qed (use assms in \<open>auto simp: spec_step_def op_line_def split: prod.splits if_splits intro!: spec_write_kept\<close>)
qed

lemma spec_run_facts:
  "spec_run clock cfg S ops x = (y, ks, t) \<Longrightarrow> 160 \<le> S \<Longrightarrow>
    spec_text x @ kept_text ks = t @ spec_text y \<and> list_all2 kept_ok (entries clock cfg ops) ks"
proof (induction ops arbitrary: x ks t)
  case (Cons op ops)
  obtain z ks1 t1 ks2 t2 where z: "spec_step clock cfg S op x = (z, ks1, t1)" "spec_run clock cfg S ops z = (y, ks2, t2)"
    "ks = ks1 @ ks2" "t = t1 @ t2"
    using Cons.prems(1) by (auto split: prod.splits)
  note f = spec_step_facts [OF z(1) Cons.prems(2)] and g = Cons.IH [OF z(2) Cons.prems(2)]
  have "spec_text x @ kept_text ks = (spec_text x @ kept_text ks1) @ kept_text ks2" using z(3) by simp
  also have "\<dots> = t @ spec_text y" using f(1) g z(4) by simp
  finally show ?case using f(2) g z(3) by (auto intro: list_all2_appendI)
qed simp

lemma log_run_refines:
  assumes "ring clock S s x" "ring_config cfg S" "clock_ok clock" "\<forall>op\<in>set ops. op_ok clock cfg op"
    and "spec_run clock cfg S ops x = (y, ks, t)"
  shows "\<exists>s' es. log_run clock print cfg ops s = Some s' \<and> ring clock S s' y \<and> lg_out s' = lg_out s @ es \<and>
    delivered cfg es t \<and> dropped es = length (filter ((=) None) ks)"
  using assms(1,4,5)
proof (induction ops arbitrary: s x ks t)
  case Nil
  then show ?case by (auto simp: delivered_Nil dropped_def)
next
  case (Cons op ops)
  obtain z ks1 t1 ks2 t2 where z: "spec_step clock cfg S op x = (z, ks1, t1)" "spec_run clock cfg S ops z = (y, ks2, t2)"
    "ks = ks1 @ ks2" "t = t1 @ t2"
    using Cons.prems(3) by (auto split: prod.splits)
  obtain s1 es1 where 1: "log_step clock print cfg op s = Some s1" "ring clock S s1 z" "lg_out s1 = lg_out s @ es1" "delivered cfg es1 t1"
    "dropped es1 = length (filter ((=) None) ks1)"
    using log_step_refines [OF Cons.prems(1) assms(2,3) _ z(1), of print] Cons.prems(2) by auto
  obtain s2 es2 where 2: "log_run clock print cfg ops s1 = Some s2" "ring clock S s2 y" "lg_out s2 = lg_out s1 @ es2" "delivered cfg es2 t2"
    "dropped es2 = length (filter ((=) None) ks2)"
    using Cons.IH [OF 1(2) _ z(2)] Cons.prems(2) by auto
  show ?case
    by (rule exI [of _ s2], rule exI [of _ "es1 @ es2"])
      (use 1 2 z(3,4) delivered_append in \<open>auto simp: dropped_def\<close>)
qed

text \<open>What the buffers hold, the read buffer first.\<close>

definition pending :: "logger \<Rightarrow> string" where
  "pending s = concat (map (\<lambda>i. map (lb_logData (slot s i)) [0..<unat (lb_length (slot s i))]) [0..<6])"

lemma concat_chunks: "length F \<le> n \<Longrightarrow> (n = length F \<longrightarrow> c = []) \<Longrightarrow> concat (map (chunk (F, c)) [0..<n]) = concat F @ c"
proof -
  assume a: "length F \<le> n" "n = length F \<longrightarrow> c = []"
  have F: "map (chunk (F, c)) [0..<length F] = F" by (rule nth_equalityI) (simp_all add: chunk_def)
  have up: "[0..<n] = [0..<length F] @ [length F..<n]" using a(1) by (metis le0 le_Suc_ex upt_add_eq_append)
  have "concat (map (chunk (F, c)) [length F..<n]) = c"
  proof (cases "length F < n")
    case True
    have "concat (map (chunk (F, c)) [Suc (length F)..<n]) = []" by (auto simp: chunk_def)
    then show ?thesis using True by (simp add: upt_conv_Cons chunk_def)
  qed (use a in simp)
  then show ?thesis using F up by simp
qed

lemma ring_pending:
  assumes "ring clock S s x" "S \<le> 16384"
  shows "pending s = spec_text x"
proof -
  obtain F c where x: "x = (F, c)" by (cases x)
  have r: "length F \<le> 6" "length F = 6 \<longrightarrow> c = []" using assms(1) x by (simp_all add: ring_def)
  have "map (lb_logData (slot s i)) [0..<unat (lb_length (slot s i))] = chunk (F, c) i" if i: "i < 6" for i
  proof -
    have h: "holds (slot s i) (chunk (F, c) i)" using ring_slot [OF assms(1) [unfolded x] i] by simp
    have "length (chunk (F, c) i) < S" using assms(1) x by (auto simp: ring_def chunk_def)
    then have "unat (lb_length (slot s i)) = length (chunk (F, c) i)" using h assms(2) by (simp add: holds_def unat_small)
    then show ?thesis using h by (cases "chunk (F, c) i = []") (simp_all add: holds_def cstr_def text_at_def)
  qed
  then have "pending s = concat (map (chunk (F, c)) [0..<6])"
    unfolding pending_def by (intro arg_cong [where f = concat] map_cong) auto
  then show ?thesis using concat_chunks [of F 6 c] r x by (simp add: spec_text_def)
qed

text \<open>
  C17. The ring of log buffers is a first in, first out queue.  Whatever sequence of messages, dumps
  and rounds of the thread there is, every step is defined (no buffer is ever overrun); every switched-on
  output has got a text which, followed by what the buffers still hold, is the sequence of the
  entries that passed the level filter, in order; an entry shorter than 160
  characters is kept whole or dropped whole, a longer one may lose its end; and the drops are counted.
\<close>

theorem log_ring_fifo:
  assumes "clock_ok clock" "ring_config cfg S" "\<forall>op\<in>set ops. op_ok clock cfg op" "lg_stamp s0 = no_stamp"
  shows "\<exists>s es ks t. log_run clock print cfg ops (InitAsyncLogger cfg s0) = Some s \<and> lg_out s = lg_out s0 @ es \<and>
    list_all2 kept_ok (entries clock cfg ops) ks \<and> dropped es = length (filter ((=) None) ks) \<and>
    delivered cfg es t \<and> t @ pending s = kept_text ks"
proof -
  have S: "160 \<le> S" "S \<le> 16384" "lc_logType cfg = 1" using assms(2) by (simp_all add: ring_config_def)
  have r: "ring clock S (InitAsyncLogger cfg s0) ([], [])"
    by (rule ring_init) (use S assms(4) in \<open>simp_all add: stamp_ok_def no_stamp_def\<close>)
  obtain y ks t where y: "spec_run clock cfg S ops ([], []) = (y, ks, t)" by (cases "spec_run clock cfg S ops ([], [])")
  have "kept_text ks = t @ spec_text y" "list_all2 kept_ok (entries clock cfg ops) ks"
    using spec_run_facts [OF y S(1)] by (simp_all add: spec_text_def)
  moreover have "lg_out (InitAsyncLogger cfg s0) = lg_out s0" by (simp add: InitAsyncLogger_def)
  ultimately show ?thesis
    using log_run_refines [OF r assms(2,1,3) y, of print] ring_pending [OF _ S(2), of clock] by metis
qed

definition ring_log_config :: LoggerConfig where
  "ring_log_config = (cf_logConfig gLteConfig)\<lparr>lc_logType := 1, lc_logThreadIdFlag := 0\<rparr>"

definition idle_logger :: logger where
  "idle_logger = \<lparr>gLogBufferQueue = (\<lambda>_. \<lparr>lb_next = 0, lb_fullFlag = 0, lb_length = 0, lb_logData = (\<lambda>_. NUL)\<rparr>),
     gpWriteBuffer = 0, gpReadBuffer = 0, gLogInfoNodeArray = (\<lambda>_. LOG_MEM []), gIdleLogInfoQueue = [], gBusyLogInfoQueue = [],
     lg_stamp = no_stamp, lg_logFileSize = 0, lg_out = []\<rparr>"

definition sample_msg :: LogMsg where
  "sample_msg = \<lparr>lm_moduleId = ''ULP'', lm_logLevel = 2, lm_fileName = ''lteRlc.c'', lm_funcName = ''InitRlcLayer'', lm_threadId = 7,
     lm_fmt = ''done'', lm_args = (\<lambda>_. 0), lm_text = ''done'', lm_sec = 60, lm_usec = 7000\<rparr>"

lemma noon_ok: "clock_ok noon"
  by (auto simp: clock_ok_def noon_def intro!: exI [of _ "\<lambda>_. ''2018-06-29 12:00:''"])

lemma replicate_two: "replicate 2 x = [x, x]"
  by (simp add: numeral_2_eq_2)

lemma sample_head: "line_head noon ring_log_config sample_msg = ''[2018-06-29 12:00:00.007] [INFO ] - [InitRlcLayer], ''"
  by (simp add: line_head_def ring_log_config_def gLteConfig_def sample_msg_def render_def noon_def fmt_int_def dec_small
      replicate_two gLoggerLevelName_s_def)

lemma sample_ok: "op_ok noon ring_log_config (Op_Msg sample_msg)" "ring_config ring_log_config 4096"
  unfolding op_ok_def by (simp_all add: sample_head) (simp_all add: msg_ok_def sample_msg_def ring_config_def ring_log_config_def gLteConfig_def)

theorem log_ring_fifo_witness:
  "\<exists>s es ks t. log_run noon (\<lambda>f _. Some f) ring_log_config [Op_Msg sample_msg, Op_Mem 2 [0xAB], Op_Read 60 0]
     (InitAsyncLogger ring_log_config idle_logger) = Some s \<and> lg_out s = es \<and>
   list_all2 kept_ok [''[2018-06-29 12:00:00.007] [INFO ] - [InitRlcLayer], done'', ''ab '' @ [CHR 0x0A]] ks \<and>
   dropped es = length (filter ((=) None) ks) \<and> delivered ring_log_config es t \<and> t @ pending s = kept_text ks"
proof -
  have e: "entries noon ring_log_config [Op_Msg sample_msg, Op_Mem 2 [0xAB], Op_Read 60 0] =
      [''[2018-06-29 12:00:00.007] [INFO ] - [InitRlcLayer], done'', ''ab '' @ [CHR 0x0A]]"
    by (simp add: op_line_def sample_head) (simp add: sample_msg_def ring_log_config_def gLteConfig_def hex_byte_def)
  have ok: "\<forall>op\<in>set [Op_Msg sample_msg, Op_Mem 2 [0xAB], Op_Read 60 0]. op_ok noon ring_log_config op"
    using sample_ok(1) by (simp add: op_ok_def)
  show ?thesis
    using log_ring_fifo [OF noon_ok sample_ok(2) ok, of idle_logger "\<lambda>f _. Some f"] unfolding e by (simp add: idle_logger_def)
qed

text \<open>Reading the chunks one after the other.\<close>

lemma spec_run_reads:
  "length (fst x) + (if snd x = [] then 0 else 1) \<le> length ts \<Longrightarrow>
    \<exists>t. spec_run clock cfg S (map (\<lambda>(t, us). Op_Read t us) ts) x = (([], []), [], t)"
proof (induction ts arbitrary: x)
  case Nil
  then show ?case by (cases x) (simp split: if_splits)
next
  case (Cons r ts)
  obtain F c where x: "x = (F, c)" by (cases x)
  obtain G d t where y: "spec_read x = ((G, d), t)" by (metis prod.exhaust)
  have "length G + (if d = [] then 0 else 1) \<le> length ts"
    using Cons.prems x y by (auto simp: spec_read_def split: list.splits if_splits)
  then obtain u where "spec_run clock cfg S (map (\<lambda>(t, us). Op_Read t us) ts) (G, d) = (([], []), [], u)"
    using Cons.IH [of "(G, d)"] by auto
  then show ?case using y by (cases r) (simp add: spec_step_def)
qed

lemma spec_run_append:
  "spec_run clock cfg S (ops @ qs) x = (case spec_run clock cfg S ops x of (y, ks, t) \<Rightarrow>
     (case spec_run clock cfg S qs y of (z, ls, u) \<Rightarrow> (z, ks @ ls, t @ u)))"
  by (induction ops arbitrary: x) (auto split: prod.splits)

lemma entries_append: "entries clock cfg (ops @ qs) = entries clock cfg ops @ entries clock cfg qs"
  by (induction ops) auto

lemma entries_reads [simp]: "entries clock cfg (map (\<lambda>(t, us). Op_Read t us) ts) = []"
  by (induction ts) (auto simp: op_line_def)

lemma spec_first_write:
  assumes "spec_step clock cfg S op ([], []) = (y, ks, t)" "entries clock cfg [op] = [l]" "160 \<le> S"
  shows "t = [] \<and> (\<exists>k. ks = [Some k]) \<and> spec_text y = kept_text ks"
  using assms spec_step_facts(1) [OF assms(1,3)]
  by (auto simp: spec_step_def op_line_def spec_write_def spec_reserve_def spec_text_def Let_def
      split: log_op.splits option.splits prod.splits if_splits)

text \<open>
  C39. The thread catches up.  After any execution six more rounds of the thread are enough: the
  buffers are empty, every switched-on output has got all that was kept of all entries, and the
  next entry, whatever it is, is not dropped.
\<close>

theorem log_ring_drained:
  assumes "clock_ok clock" "ring_config cfg S" "\<forall>op\<in>set ops. op_ok clock cfg op" "lg_stamp s0 = no_stamp" "6 \<le> length ts"
  shows "\<exists>s es ks. log_run clock print cfg (ops @ map (\<lambda>(t, us). Op_Read t us) ts) (InitAsyncLogger cfg s0) = Some s \<and>
    lg_out s = lg_out s0 @ es \<and> list_all2 kept_ok (entries clock cfg ops) ks \<and>
    delivered cfg es (kept_text ks) \<and> pending s = [] \<and>
    (\<forall>op l. op_ok clock cfg op \<longrightarrow> entries clock cfg [op] = [l] \<longrightarrow>
      (\<exists>s' k. log_step clock print cfg op s = Some s' \<and> dropped (lg_out s') = dropped (lg_out s) \<and> pending s' = k \<and> kept_ok l (Some k)))"
proof -
  let ?rs = "map (\<lambda>(t, us). Op_Read t us) ts"
  have S: "160 \<le> S" "S \<le> 16384" "lc_logType cfg = 1" using assms(2) by (simp_all add: ring_config_def)
  have r: "ring clock S (InitAsyncLogger cfg s0) ([], [])"
    by (rule ring_init) (use S assms(4) in \<open>simp_all add: stamp_ok_def no_stamp_def\<close>)
  have ok: "\<forall>op\<in>set (ops @ ?rs). op_ok clock cfg op" using assms(3) by (auto simp: op_ok_def)
  obtain y ks t where y: "spec_run clock cfg S ops ([], []) = (y, ks, t)" by (cases "spec_run clock cfg S ops ([], [])")
  obtain s1 where "ring clock S s1 y" using log_run_refines [OF r assms(2,1,3) y, of print] by blast
  then have "length (fst y) + (if snd y = [] then 0 else 1) \<le> length ts"
    using assms(5) by (cases "length (fst y) = 6") (auto simp: ring_def split: prod.splits)
  then obtain u where u: "spec_run clock cfg S ?rs y = (([], []), [], u)" using spec_run_reads by blast
  have run: "spec_run clock cfg S (ops @ ?rs) ([], []) = (([], []), ks, t @ u)" using y u by (simp add: spec_run_append)
  have f: "kept_text ks = t @ u" "list_all2 kept_ok (entries clock cfg ops) ks"
    using spec_run_facts [OF run S(1)] by (simp_all add: spec_text_def entries_append)
  obtain s es where s: "log_run clock print cfg (ops @ ?rs) (InitAsyncLogger cfg s0) = Some s" "ring clock S s ([], [])"
    "lg_out s = lg_out s0 @ es" "delivered cfg es (t @ u)"
    using log_run_refines [OF r assms(2,1) ok run, of print] by (auto simp: InitAsyncLogger_def split: if_splits)
  have "\<exists>s' k. log_step clock print cfg op s = Some s' \<and> dropped (lg_out s') = dropped (lg_out s) \<and> pending s' = k \<and> kept_ok l (Some k)"
    if op: "op_ok clock cfg op" "entries clock cfg [op] = [l]" for op l
  proof -
    obtain z ls v where z: "spec_step clock cfg S op ([], []) = (z, ls, v)" by (cases "spec_step clock cfg S op ([], [])")
    obtain s' fs where s': "log_step clock print cfg op s = Some s'" "ring clock S s' z" "lg_out s' = lg_out s @ fs"
      "dropped fs = length (filter ((=) None) ls)"
      using log_step_refines [OF s(2) assms(2,1) op(1) z, of print] by blast
    obtain k where k: "ls = [Some k]" "spec_text z = kept_text ls" using spec_first_write [OF z op(2) S(1)] by blast
    then have "kept_ok l (Some k)" using spec_step_facts(2) [OF z S(1)] op(2) by simp
    then show ?thesis using s' k ring_pending [OF s'(2) S(2)] by (auto simp: dropped_def)
  qed
  then show ?thesis using s f ring_pending [OF s(2) S(2)] by (auto simp: spec_text_def)
qed

theorem log_ring_drained_witness:
  "\<exists>s es ks. log_run noon (\<lambda>f _. Some f) ring_log_config ([Op_Msg sample_msg] @ replicate 6 (Op_Read 60 0))
     (InitAsyncLogger ring_log_config idle_logger) = Some s \<and> lg_out s = es \<and>
   list_all2 kept_ok (entries noon ring_log_config [Op_Msg sample_msg]) ks \<and> delivered ring_log_config es (kept_text ks) \<and> pending s = []"
proof -
  have ok: "\<forall>op\<in>set [Op_Msg sample_msg]. op_ok noon ring_log_config op" using sample_ok(1) by simp
  show ?thesis
    using log_ring_drained [OF noon_ok sample_ok(2) ok, of idle_logger "replicate 6 (60, 0)" "\<lambda>f _. Some f"]
    by (auto simp: idle_logger_def)
qed

section \<open>No buffering\<close>

text \<open>
  With the size 0 (no buffering) a dump is lost: nothing may be printed, the length of what an earlier entry
  left in the buffer is taken for the length of the dump, and that entry is output again.
\<close>

lemma zero_buffering_dump:
  assumes "lc_logType cfg = 1" "lc_logBufferingSize cfg = 0" "bs \<noteq> []" "lv \<ge> lc_logLevel cfg" "lv < 5"
    and "w = gLogBufferQueue s (gpWriteBuffer s)" "lb_fullFlag w = 0" "lb_length w = 0" "cstr (lb_logData w) 0 t" "t \<noteq> []" "length t < 16000"
  shows "\<exists>s'. LoggerWriteMem cfg lv bs s = Some s' \<and> holds (gLogBufferQueue s' (gpWriteBuffer s)) (t @ [CHR 0x0A])"
proof -
  let ?a = "lb_logData w"
  have n: "c_strlen 16384 ?a 0 = Some (length t)" using c_strlen_cstr [OF assms(9)] assms(11) by simp
  obtain b bs' where bs: "bs = b # bs'" using assms(3) by (cases bs) auto
  have d: "dump_bytes 16384 0 0 0 bs (?a, 0) = Some (?a, length t)" by (simp add: bs c_snprintf_def n)
  obtain a' where a': "put 16384 (0 + length t) [CHR 0x0A, NUL] ?a = Some a'" "wrote ?a a' 0 (t @ [CHR 0x0A, NUL])"
    by (rule put_wrote [of ?a ?a 0 t "[CHR 0x0A, NUL]" 16384]) (use assms(9,11) in \<open>simp_all add: wrote_def cstr_def\<close>)
  have f: "c_snprintf 16384 (length t) (- int (length t)) [CHR 0x0A] ?a = Some a'"
    using a'(1) assms(10) by (auto simp: c_snprintf_def)
  have c: "cstr a' 0 (t @ [CHR 0x0A])" using a'(2) assms(9) by (auto simp: wrote_def cstr_def)
  have n': "c_strlen 16384 a' 0 = Some (length t + 1)" using c_strlen_cstr [OF c, of 16384] assms(11) by simp
  have "LoggerWriteMem cfg lv bs s = Some (log_commit cfg a' (length t + 1) s)"
    using assms(1-8) d f n' by (simp add: LoggerWriteMem_def log_reserve_def Let_def)
  moreover have "gLogBufferQueue (log_commit cfg a' (length t + 1) s) (gpWriteBuffer s) =
      w\<lparr>lb_logData := a', lb_length := of_nat (length t + 1), lb_fullFlag := 1\<rparr>"
    using assms(2,6,8) by (simp add: log_commit_def mark_full_def set_buffer_def Let_def)
  ultimately show ?thesis using c by (simp add: holds_def)
qed

end
