(* ===== verification/Log_Queue.thy ===== *)
theory Log_Queue
  imports Log_Ring "HOL-Library.Multiset"
begin

text \<open>
  The logger with a queue of preallocated nodes (type 2): the nodes circulate between two queues,
  entries leave in order, and how long a line may be.
\<close>

section \<open>Lines\<close>

definition node_rest :: "LoggerConfig \<Rightarrow> LogMsgInfo \<Rightarrow> string" where
  "node_rest cfg i = bracketed (gLoggerLevelName_s ! unat (li_logLevel i)) @
     (if lc_logModuleNameFlag cfg \<noteq> 0 then bracketed (takeWhile (\<lambda>c. c \<noteq> NUL) (li_moduleId i)) else []) @
     (if lc_logThreadIdFlag cfg \<noteq> 0 then bracketed (dec (li_threadId i)) else []) @
     (if lc_logFileNameFlag cfg \<noteq> 0 then bracketed (li_fileName i) else []) @ ''- '' @
     (if lc_logFuncNameFlag cfg \<noteq> 0 then CHR ''['' # li_funcName i @ ''], '' else [])"

definition node_text :: "(string \<Rightarrow> u32 list \<Rightarrow> string option) \<Rightarrow> LogMsgInfo \<Rightarrow> string" where
  "node_text print i = (if li_logContentFlag i = 0 then the (print (li_fmt i) (li_args i)) else li_logContent i)"

definition node_line :: "(string \<Rightarrow> u32 list \<Rightarrow> string option) \<Rightarrow> LoggerConfig \<Rightarrow> string \<Rightarrow> LogInfo \<Rightarrow> string" where
  "node_line print cfg ts info = (case info of LOG_MEM t \<Rightarrow> t | LOG_MSG i \<Rightarrow> ts @ node_rest cfg i @ node_text print i)"

text \<open>A node whose parts are strings, whose format finds its arguments.\<close>

definition msg_info_ok :: "(string \<Rightarrow> u32 list \<Rightarrow> string option) \<Rightarrow> LoggerConfig \<Rightarrow> LogMsgInfo \<Rightarrow> bool" where
  "msg_info_ok print cfg i \<longleftrightarrow> li_logLevel i < 5 \<and> NUL \<notin> set (li_fileName i) \<union> set (li_funcName i) \<union> set (node_text print i) \<and>
     (lc_logModuleNameFlag cfg \<noteq> 0 \<longrightarrow> NUL \<in> set (li_moduleId i)) \<and>
     (li_logContentFlag i = 0 \<longrightarrow> print (li_fmt i) (li_args i) \<noteq> None)"

lemma queue_head_ok:
  assumes "wrote a0 a 0 t" "msg_info_ok print cfg i" "length (t @ ts @ node_rest cfg i) < 4095"
  shows "\<exists>a'. queue_head cfg ts i (a, length t) = Some (a', length (t @ ts @ node_rest cfg i)) \<and> wrote a0 a' 0 (t @ ts @ node_rest cfg i)"
proof -
  let ?l = "bracketed (gLoggerLevelName_s ! unat (li_logLevel i))" and ?m = "bracketed (takeWhile (\<lambda>c. c \<noteq> NUL) (li_moduleId i))"
    and ?i = "bracketed (dec (li_threadId i))" and ?f = "bracketed (li_fileName i)" and ?n = "CHR ''['' # li_funcName i @ ''], ''"
  let ?M = "if lc_logModuleNameFlag cfg \<noteq> 0 then ?m else []" and ?I = "if lc_logThreadIdFlag cfg \<noteq> 0 then ?i else []"
    and ?F = "if lc_logFileNameFlag cfg \<noteq> 0 then ?f else []" and ?N = "if lc_logFuncNameFlag cfg \<noteq> 0 then ?n else []"
  have rest: "node_rest cfg i = ?l @ ?M @ ?I @ ?F @ ''- '' @ ?N" by (simp add: node_rest_def)
  have len: "length (t @ ts @ ?l @ ?M @ ?I @ ?F @ ''- '' @ ?N) < 4095" using assms(3) unfolding rest .
  obtain a1 where 1: "lit 4096 0 ts (a, length t) = Some (a1, length (t @ ts))" "wrote a0 a1 0 (t @ ts)"
    using lit_step [OF assms(1), of ts 4096] len by auto
  obtain a2 where 2: "lit 4096 0 ?l (a1, length (t @ ts)) = Some (a2, length ((t @ ts) @ ?l))" "wrote a0 a2 0 ((t @ ts) @ ?l)"
    using lit_step [OF 1(2), of ?l 4096] len by auto
  obtain a3 where 3: "(if lc_logModuleNameFlag cfg \<noteq> 0 then
       if NUL \<in> set (li_moduleId i) then lit 4096 0 ?m (a2, length ((t @ ts) @ ?l)) else None
      else Some (a2, length ((t @ ts) @ ?l))) = Some (a3, length (((t @ ts) @ ?l) @ ?M))" "wrote a0 a3 0 (((t @ ts) @ ?l) @ ?M)"
    using lit_if [OF 2(2), of "lc_logModuleNameFlag cfg \<noteq> 0" ?m 4096] len assms(2)
    by (cases "lc_logModuleNameFlag cfg \<noteq> 0") (auto simp: msg_info_ok_def)
  have no: "NUL \<notin> set ?i" using dec_digits [of "li_threadId i"] by auto
  obtain a4 where 4: "(if lc_logThreadIdFlag cfg \<noteq> 0 then printed 4096 0 4095 ?i (a3, length (((t @ ts) @ ?l) @ ?M))
      else Some (a3, length (((t @ ts) @ ?l) @ ?M))) = Some (a4, length ((((t @ ts) @ ?l) @ ?M) @ ?I))" "wrote a0 a4 0 ((((t @ ts) @ ?l) @ ?M) @ ?I)"
    using printed_if [OF 3(2), of "lc_logThreadIdFlag cfg \<noteq> 0" ?i 4095 4096] len no by (auto simp del: append_assoc)
  obtain a5 where 5: "(if lc_logFileNameFlag cfg \<noteq> 0 then lit 4096 0 ?f (a4, length ((((t @ ts) @ ?l) @ ?M) @ ?I))
      else Some (a4, length ((((t @ ts) @ ?l) @ ?M) @ ?I))) = Some (a5, length (((((t @ ts) @ ?l) @ ?M) @ ?I) @ ?F))"
      "wrote a0 a5 0 (((((t @ ts) @ ?l) @ ?M) @ ?I) @ ?F)"
    using lit_if [OF 4(2), of "lc_logFileNameFlag cfg \<noteq> 0" ?f 4096] len by auto
  obtain a6 where 6: "lit 4096 0 ''- '' (a5, length (((((t @ ts) @ ?l) @ ?M) @ ?I) @ ?F)) =
      Some (a6, length ((((((t @ ts) @ ?l) @ ?M) @ ?I) @ ?F) @ ''- ''))" "wrote a0 a6 0 ((((((t @ ts) @ ?l) @ ?M) @ ?I) @ ?F) @ ''- '')"
    using lit_step [OF 5(2), of "''- ''" 4096] len by auto
  obtain a7 where 7: "(if lc_logFuncNameFlag cfg \<noteq> 0 then lit 4096 0 ?n (a6, length ((((((t @ ts) @ ?l) @ ?M) @ ?I) @ ?F) @ ''- ''))
      else Some (a6, length ((((((t @ ts) @ ?l) @ ?M) @ ?I) @ ?F) @ ''- ''))) = Some (a7, length (t @ ts @ node_rest cfg i))"
      "wrote a0 a7 0 (t @ ts @ node_rest cfg i)"
    using lit_if [OF 6(2), of "lc_logFuncNameFlag cfg \<noteq> 0" ?n 4096] len unfolding rest by auto
  show ?thesis
    unfolding queue_head_def 1(1) 2(1) 3(1) 4(1) 5(1) 6(1) 7(1) bind.bind_lunit using 7(2) by blast
qed

lemma queue_line_ok:
  assumes "wrote a0 a 0 t" "msg_info_ok print cfg i" "length (t @ node_line print cfg ts (LOG_MSG i)) < 4095"
  shows "\<exists>a'. queue_line print cfg ts i (a, length t) = Some (a', length (t @ node_line print cfg ts (LOG_MSG i))) \<and>
    wrote a0 a' 0 (t @ node_line print cfg ts (LOG_MSG i))"
proof -
  let ?h = "t @ ts @ node_rest cfg i" and ?x = "node_text print i"
  have line: "t @ node_line print cfg ts (LOG_MSG i) = ?h @ ?x" by (simp add: node_line_def)
  have len: "length (?h @ ?x) < 4095" using assms(3) unfolding line .
  obtain b where b: "queue_head cfg ts i (a, length t) = Some (b, length ?h)" "wrote a0 b 0 ?h"
    using queue_head_ok [OF assms(1,2), of ts] len by auto
  show ?thesis
  proof (cases "li_logContentFlag i = 0")
    case True
    then obtain x where x: "print (li_fmt i) (li_args i) = Some x" "?x = x" "NUL \<notin> set x"
      using assms(2) by (auto simp: msg_info_ok_def node_text_def)
    have tk: "take (nat 4095 - length ?h - 1) x = x" using len x(2) by simp
    obtain a' where "printed 4096 0 4095 x (b, length ?h) = Some (a', length (?h @ x))" "wrote a0 a' 0 (?h @ x)"
      using printed_step [OF b(2), of 4095 4096 x] len x(3) unfolding tk by auto
    then show ?thesis unfolding line using True x b(1) by (simp add: queue_line_def)
  next
    case False
    then have "?x = li_logContent i" by (simp add: node_text_def)
    moreover obtain a' where "lit 4096 0 ?x (b, length ?h) = Some (a', length (?h @ ?x))" "wrote a0 a' 0 (?h @ ?x)"
      using lit_step [OF b(2), of ?x 4096] len by auto
    ultimately show ?thesis unfolding line using False b(1) by (simp add: queue_line_def)
  qed
qed

section \<open>Output of the nodes\<close>

text \<open>
  The nodes the properties are about: dumps of at most 2047 characters, and messages whose whole line
  has at most 160 (the reserve the loop leaves at the end of its array).
\<close>

definition node_ok :: "(string \<Rightarrow> u32 list \<Rightarrow> string option) \<Rightarrow> LoggerConfig \<Rightarrow> LogInfo \<Rightarrow> bool" where
  "node_ok print cfg info \<longleftrightarrow> (case info of
     LOG_MEM t \<Rightarrow> NUL \<notin> set t \<and> length t < 2048
   | LOG_MSG i \<Rightarrow> msg_info_ok print cfg i \<and> 26 + length (node_rest cfg i @ node_text print i) \<le> 160)"

definition moved :: "nat \<Rightarrow> logger \<Rightarrow> logger" where
  "moved k s = s\<lparr>gBusyLogInfoQueue := drop k (gBusyLogInfoQueue s),
     gIdleLogInfoQueue := gIdleLogInfoQueue s @ take k (gBusyLogInfoQueue s)\<rparr>"

definition lines_of :: "(string \<Rightarrow> u32 list \<Rightarrow> string option) \<Rightarrow> LoggerConfig \<Rightarrow> string \<Rightarrow> logger \<Rightarrow> nat \<Rightarrow> string" where
  "lines_of print cfg ts s k = concat (map (\<lambda>n. node_line print cfg ts (gLogInfoNodeArray s n)) (take k (gBusyLogInfoQueue s)))"

lemma moved_Suc:
  assumes "gBusyLogInfoQueue s = n # ns"
  defines "s1 \<equiv> s\<lparr>gBusyLogInfoQueue := ns, gIdleLogInfoQueue := gIdleLogInfoQueue s @ [n]\<rparr>"
  shows "moved k s1 = moved (Suc k) s"
    and "lines_of print cfg ts s (Suc k) = node_line print cfg ts (gLogInfoNodeArray s n) @ lines_of print cfg ts s1 k"
  using assms by (simp_all add: moved_def lines_of_def)

lemma process_nodes_ok:
  assumes "wrote a0 a 0 t" "length t + 160 < 4095" "\<forall>n\<in>set (gBusyLogInfoQueue s). node_ok print cfg (gLogInfoNodeArray s n)"
    and "length ts = 26"
  shows "\<exists>a' k. process_nodes print cfg ts cnt (a, length t) s = Some ((a', length (t @ lines_of print cfg ts s k)), moved k s) \<and>
    wrote a0 a' 0 (t @ lines_of print cfg ts s k) \<and> length (t @ lines_of print cfg ts s k) < 4096 \<and> k \<le> length (gBusyLogInfoQueue s) \<and>
    (0 < cnt \<and> gBusyLogInfoQueue s \<noteq> [] \<and> t = [] \<longrightarrow> 0 < k)"
  using assms(1-3)
proof (induction cnt arbitrary: a t s)
  case 0
  then show ?case by (intro exI [of _ a] exI [of _ 0]) (simp add: lines_of_def moved_def)
next
  case (Suc cnt)
  have stop: "s = moved 0 s" "t = t @ lines_of print cfg ts s 0" by (simp_all add: lines_of_def moved_def)
  show ?case
  proof (cases "gBusyLogInfoQueue s")
    case Nil
    then show ?thesis using Suc.prems by (intro exI [of _ a] exI [of _ 0]) (simp add: lines_of_def moved_def)
  next
    case (Cons n ns)
    let ?i = "gLogInfoNodeArray s n" and ?s = "s\<lparr>gBusyLogInfoQueue := ns, gIdleLogInfoQueue := gIdleLogInfoQueue s @ [n]\<rparr>"
    let ?l = "node_line print cfg ts ?i"
    note mv = moved_Suc [OF Cons]
    have ok: "node_ok print cfg ?i" "\<forall>n\<in>set (gBusyLogInfoQueue ?s). node_ok print cfg (gLogInfoNodeArray ?s n)"
      using Suc.prems(3) Cons by simp_all
    have go: ?thesis if w: "wrote a0 a1 0 (t @ ?l)" "length (t @ ?l) < 4096"
      and p: "process_nodes print cfg ts (Suc cnt) (a, length t) s =
        (if length (t @ ?l) + 160 \<ge> 4095 then Some ((a1, length (t @ ?l)), ?s) else process_nodes print cfg ts cnt (a1, length (t @ ?l)) ?s)" for a1
    proof (cases "length (t @ ?l) + 160 \<ge> 4095")
      case True
      then show ?thesis using w p Cons mv(1) [of 0] mv(2) [of _ _ _ 0]
        by (intro exI [of _ a1] exI [of _ "Suc 0"]) (simp add: lines_of_def moved_def)
    next
      case False
      then obtain a' k where k: "process_nodes print cfg ts cnt (a1, length (t @ ?l)) ?s =
          Some ((a', length ((t @ ?l) @ lines_of print cfg ts ?s k)), moved k ?s)"
        "wrote a0 a' 0 ((t @ ?l) @ lines_of print cfg ts ?s k)" "length ((t @ ?l) @ lines_of print cfg ts ?s k) < 4096" "k \<le> length ns"
        using Suc.IH [OF w(1) _ ok(2)] by auto
      show ?thesis
        by (rule exI [of _ a'], rule exI [of _ "Suc k"]) (use k p False Cons mv in simp)
    qed
    show ?thesis
    proof (cases ?i)
      case (LOG_MEM m)
      then have l: "?l = m" by (simp add: node_line_def)
      show ?thesis
      proof (cases "length t + length m \<ge> 4096")
        case True
        then have "t \<noteq> []" using ok(1) LOG_MEM by (auto simp: node_ok_def)
        then show ?thesis using Suc.prems True Cons LOG_MEM stop
          by (intro exI [of _ a] exI [of _ 0]) (auto simp: lines_of_def moved_def)
      next
        case False
        obtain a1 where a1: "lit 4096 0 m (a, length t) = Some (a1, length (t @ m))" "wrote a0 a1 0 (t @ m)"
          using lit_step [OF Suc.prems(1), of m 4096] False by auto
        show ?thesis by (rule go [of a1]) (use a1 False Cons LOG_MEM l in simp_all)
      qed
    next
      case (LOG_MSG i)
      then have i: "msg_info_ok print cfg i" "length ?l \<le> 160" using ok(1) assms(4) by (simp_all add: node_ok_def node_line_def)
      then have len: "length (t @ ?l) < 4095" using Suc.prems(2) by simp
      obtain a1 where a1: "queue_line print cfg ts i (a, length t) = Some (a1, length (t @ ?l))" "wrote a0 a1 0 (t @ ?l)"
        using queue_line_ok [OF Suc.prems(1) i(1), of ts] len LOG_MSG by auto
      show ?thesis by (rule go [of a1]) (use a1 len Cons LOG_MSG in simp_all)
    qed
  qed
qed

lemma node_line_text:
  "node_ok print cfg i \<Longrightarrow> NUL \<notin> set ts \<Longrightarrow> NUL \<notin> set (node_line print cfg ts i)"
  using dec_digits level_names
  by (cases i) (auto simp: node_ok_def node_line_def msg_info_ok_def node_rest_def dest: set_takeWhileD)

lemma ProcessLogQueue_ok:
  assumes "clock_ok clock" "0 < tv" "tv < 2 ^ 31" "us < 10 ^ 6" "stamp_ok clock (lg_stamp s)"
    and "\<forall>n\<in>set (gBusyLogInfoQueue s). node_ok print cfg (gLogInfoNodeArray s n)" "gBusyLogInfoQueue s \<noteq> []"
  shows "\<exists>es k st z. let ts = bracketed (render clock tv (us div 1000)) in
    ProcessLogQueue clock print cfg tv us s = Some ((moved k s)\<lparr>lg_out := lg_out s @ es, lg_logFileSize := z, lg_stamp := st\<rparr>) \<and>
    stamp_ok clock st \<and> delivered cfg es (lines_of print cfg ts s k) \<and> dropped es = 0 \<and> 0 < k \<and> k \<le> length (gBusyLogInfoQueue s)"
proof -
  let ?ts = "bracketed (render clock tv (us div 1000))"
  have "us div 1000 < 1000" using assms(4) by (simp add: div_less_iff_less_mult)
  then have r: "length ?ts = 26" "NUL \<notin> set ?ts" using render_facts [OF assms(1,2)] by simp_all
  obtain t st where t: "LoggerGetTimestamp clock 32 0 tv us (\<lambda>_. NUL, lg_stamp s) = Some (t, st)" "stamp_ok clock st"
    "wrote (\<lambda>_. NUL) t 0 ?ts" "c_strlen 32 t 0 = Some 26"
    using LoggerGetTimestamp_ok [OF assms(1-5), of 0 32 "\<lambda>_. NUL"] by auto
  have mt: "map t [0..<26] = ?ts" using t(3) unfolding wrote_def text_at_def r(1) by (simp only: add_0)
  let ?s = "s\<lparr>lg_stamp := st\<rparr>"
  have w0: "wrote (\<lambda>_. NUL) (\<lambda>_. NUL) 0 []" "length [] + 160 < (4095 :: nat)" by (simp_all add: wrote_def)
  obtain a k where k: "process_nodes print cfg ?ts (length (gBusyLogInfoQueue s)) (\<lambda>_. NUL, 0) ?s =
      Some ((a, length (lines_of print cfg ?ts ?s k)), moved k ?s)"
    "wrote (\<lambda>_. NUL) a 0 (lines_of print cfg ?ts ?s k)" "length (lines_of print cfg ?ts ?s k) < 4096" "k \<le> length (gBusyLogInfoQueue s)" "0 < k"
    using process_nodes_ok [OF w0, of ?s print cfg ?ts "length (gBusyLogInfoQueue s)"] assms(6,7) r(1) by auto
  let ?l = "lines_of print cfg ?ts s k"
  have l: "lines_of print cfg ?ts ?s k = ?l" by (simp add: lines_of_def)
  have no: "NUL \<notin> set ?l"
    using assms(6) r(2) node_line_text by (fastforce simp: lines_of_def dest: in_set_takeD)
  obtain a' where a': "put 4096 (0 + length ?l) [NUL] a = Some a'" "wrote (\<lambda>_. NUL) a' 0 (?l @ [NUL])"
    by (rule put_wrote [OF k(2) [unfolded l], of "[NUL]" 4096]) (use k(3) l in simp_all)
  then have c: "cstr a' 0 ?l" using no by (simp add: wrote_def cstr_def)
  have n: "c_strlen 4096 a' 0 = Some (length ?l)" using c_strlen_cstr [OF c, of 4096] k(3) l by simp
  have m: "moved k ?s = (moved k s)\<lparr>lg_stamp := st\<rparr>" by (simp add: moved_def)
  have p: "ProcessLogQueue clock print cfg tv us s =
      (if length ?l > 0 then LoggerOutputLog cfg 4096 a' (of_nat (length ?l)) (moved k ?s) else Some (moved k ?s))"
    using a'(1) k(1) l by (simp add: ProcessLogQueue_def t(1,4) mt n)
  obtain es z where o: "LoggerOutputLog cfg 4096 a' (of_nat (length ?l)) (moved k ?s) =
      Some ((moved k ?s)\<lparr>lg_out := lg_out (moved k ?s) @ es, lg_logFileSize := z\<rparr>)" "delivered cfg es ?l" "dropped es = 0"
    using LoggerOutputLog_ok [OF c, of 4096 "of_nat (length ?l)" cfg "moved k ?s"] k(3) l by auto
  show ?thesis
  proof (cases "?l = []")
    case True
    then show ?thesis using p t(2) k(4,5) m delivered_Nil unfolding Let_def
      by (intro exI [of _ "[]"] exI [of _ k] exI [of _ st] exI [of _ "lg_logFileSize s"])
        (auto simp: moved_def dropped_def)
  next
    case False
    then show ?thesis using p o t(2) k(4,5) m unfolding Let_def
      by (intro exI [of _ es] exI [of _ k] exI [of _ st] exI [of _ z]) (auto simp: moved_def)
  qed
qed

section \<open>Executions\<close>

lemma log_mem_info_ok: "log_mem_info bs = Some (take 2047 (dump_text 0 bs @ [CHR 0x0A]))"
proof -
  let ?t = "dump_text 0 bs"
  have w: "printed_so_far (\<lambda>_. NUL) (\<lambda>_. NUL) 0 2048 []" by (simp add: printed_so_far_def wrote_def)
  have R: "0 < (2048 :: nat)" "0 + 2048 \<le> (2048 :: nat)" by simp_all
  obtain a where a: "dump_bytes 2048 0 2048 0 bs (\<lambda>_. NUL, 0) = Some (a, length (take (2048 - 1) ?t))" "printed_so_far (\<lambda>_. NUL) a 0 2048 ?t"
    using dump_bytes_ok [OF w R, of 0 bs] by auto
  obtain b where b: "c_snprintf 2048 (0 + length (take (2048 - 1) ?t)) (int 2048 - int (length (take (2048 - 1) ?t))) [CHR 0x0A] a = Some b"
    "c_strlen 2048 b 0 = Some (length (take (2048 - 1) (?t @ [CHR 0x0A])))" "printed_so_far (\<lambda>_. NUL) b 0 2048 (?t @ [CHR 0x0A])"
    using printed_more [OF a(2) R, of "[CHR 0x0A]"] by auto
  have "map b [0..<length (take (2048 - 1) (?t @ [CHR 0x0A]))] = take (2048 - 1) (?t @ [CHR 0x0A])"
    using b(3) unfolding printed_so_far_def wrote_def text_at_def by (simp only: add_0)
  then show ?thesis using a(1) b(1,2) by (simp add: log_mem_info_def del: take_append length_take)
qed

text \<open>The nodes the entries of an execution ask for, and what is kept of them.\<close>

definition op_info :: "LoggerConfig \<Rightarrow> log_op \<Rightarrow> LogInfo list" where
  "op_info cfg op = (case op of
     Op_Msg m \<Rightarrow> if lm_logLevel m \<ge> lc_logLevel cfg \<and> lm_logLevel m < 5 then [LOG_MSG (the (log_msg_info cfg m))] else []
   | Op_Mem lv bs \<Rightarrow> if bs \<noteq> [] \<and> lv \<ge> lc_logLevel cfg \<and> lv < 5 then [LOG_MEM (take 2047 (dump_text 0 bs @ [CHR 0x0A]))] else []
   | Op_Read t us \<Rightarrow> [])"

definition queue_op_ok :: "(string \<Rightarrow> u32 list \<Rightarrow> string option) \<Rightarrow> LoggerConfig \<Rightarrow> log_op \<Rightarrow> bool" where
  "queue_op_ok print cfg op = (case op of
     Op_Msg m \<Rightarrow> (case log_msg_info cfg m of None \<Rightarrow> False | Some i \<Rightarrow> node_ok print cfg (LOG_MSG i))
   | Op_Mem lv bs \<Rightarrow> True
   | Op_Read t us \<Rightarrow> 0 < t \<and> t < 2 ^ 31 \<and> us < 10 ^ 6)"

definition kept_nodes :: "LogInfo option list \<Rightarrow> LogInfo list" where
  "kept_nodes ks = concat (map (\<lambda>k. case k of None \<Rightarrow> [] | Some i \<Rightarrow> [i]) ks)"

definition whole_or_none :: "LogInfo \<Rightarrow> LogInfo option \<Rightarrow> bool" where
  "whole_or_none i k \<longleftrightarrow> k = None \<or> k = Some i"

text \<open>What has been output: every node with the timestamp of its round.\<close>

definition output_text :: "(string \<Rightarrow> u32 list \<Rightarrow> string option) \<Rightarrow> LoggerConfig \<Rightarrow> (string \<times> LogInfo) list \<Rightarrow> string" where
  "output_text print cfg xs = concat (map (\<lambda>(ts, i). node_line print cfg ts i) xs)"

definition waiting :: "logger \<Rightarrow> LogInfo list" where
  "waiting s = map (gLogInfoNodeArray s) (gBusyLogInfoQueue s)"

definition queue_inv :: "(int \<Rightarrow> string) \<Rightarrow> (string \<Rightarrow> u32 list \<Rightarrow> string option) \<Rightarrow> LoggerConfig \<Rightarrow> logger \<Rightarrow> bool" where
  "queue_inv clock print cfg s \<longleftrightarrow> mset (gIdleLogInfoQueue s @ gBusyLogInfoQueue s) = mset [0..<MAX_NUM_LOG_INFO_NODE] \<and>
     (\<forall>i\<in>set (waiting s). node_ok print cfg i) \<and> stamp_ok clock (lg_stamp s)"

text \<open>A step: what is output, what is kept, and that the nodes wait in order.\<close>

definition queue_step_ok ::
  "(int \<Rightarrow> string) \<Rightarrow> (string \<Rightarrow> u32 list \<Rightarrow> string option) \<Rightarrow> LoggerConfig \<Rightarrow> LogInfo list \<Rightarrow> logger \<Rightarrow> logger \<Rightarrow> bool" where
  "queue_step_ok clock print cfg infos s s' \<longleftrightarrow> queue_inv clock print cfg s' \<and>
     (\<exists>es ks xs. lg_out s' = lg_out s @ es \<and> delivered cfg es (output_text print cfg xs) \<and> list_all2 whole_or_none infos ks \<and>
       dropped es = length (filter ((=) None) ks) \<and> waiting s @ kept_nodes ks = map snd xs @ waiting s')"

lemma queue_node_ok:
  assumes "queue_inv clock print cfg s" "node_ok print cfg i"
  shows "\<exists>s'. queue_node (Some i) s = Some s' \<and> queue_step_ok clock print cfg [i] s s'"
proof (cases "gIdleLogInfoQueue s")
  case Nil
  let ?s = "log_emit Log_Dropped s"
  have "queue_inv clock print cfg ?s" "waiting ?s = waiting s" using assms(1) by (simp_all add: queue_inv_def waiting_def log_emit_def)
  then have "queue_step_ok clock print cfg [i] s ?s" unfolding queue_step_ok_def
    by (intro conjI exI [of _ "[Log_Dropped]"] exI [of _ "[None]"] exI [of _ "[]"])
      (simp_all add: log_emit_def delivered_def dropped_def output_text_def whole_or_none_def kept_nodes_def)
  then show ?thesis using Nil by (simp add: queue_node_def)
next
  case (Cons n ns)
  let ?s = "s\<lparr>gIdleLogInfoQueue := ns, gLogInfoNodeArray := (gLogInfoNodeArray s)(n := i), gBusyLogInfoQueue := gBusyLogInfoQueue s @ [n]\<rparr>"
  have m: "mset (gIdleLogInfoQueue s @ gBusyLogInfoQueue s) = mset [0..<4096]" using assms(1) by (simp add: queue_inv_def)
  then have "distinct (gIdleLogInfoQueue s @ gBusyLogInfoQueue s)" using mset_eq_imp_distinct_iff [OF m] by simp
  then have w: "waiting ?s = waiting s @ [i]" using Cons by (auto simp: waiting_def)
  have "mset (gIdleLogInfoQueue ?s @ gBusyLogInfoQueue ?s) = mset (gIdleLogInfoQueue s @ gBusyLogInfoQueue s)" using Cons by simp
  then have "queue_inv clock print cfg ?s" using assms m w by (simp add: queue_inv_def del: mset_append)
  then have "queue_step_ok clock print cfg [i] s ?s" unfolding queue_step_ok_def
    by (intro conjI exI [of _ "[]"] exI [of _ "[Some i]"] exI [of _ "[]"])
      (use w in \<open>simp_all add: delivered_def dropped_def output_text_def whole_or_none_def kept_nodes_def\<close>)
  then show ?thesis using Cons by (simp add: queue_node_def)
qed

lemma no_step: "queue_inv clock print cfg s \<Longrightarrow> queue_step_ok clock print cfg [] s s"
  unfolding queue_step_ok_def
  by (intro conjI exI [of _ "[]"] exI [of _ "[]"] exI [of _ "[]"])
    (simp_all add: delivered_def dropped_def output_text_def kept_nodes_def)

lemma queue_round_ok:
  assumes "queue_inv clock print cfg s" "clock_ok clock" "0 < tv" "tv < 2 ^ 31" "us < 10 ^ 6" "gBusyLogInfoQueue s \<noteq> []"
  shows "\<exists>s'. ProcessLogQueue clock print cfg tv us s = Some s' \<and> queue_step_ok clock print cfg [] s s' \<and>
    length (gBusyLogInfoQueue s') < length (gBusyLogInfoQueue s)"
proof -
  let ?ts = "bracketed (render clock tv (us div 1000))" and ?b = "gBusyLogInfoQueue s"
  have inv: "stamp_ok clock (lg_stamp s)" "\<forall>n\<in>set ?b. node_ok print cfg (gLogInfoNodeArray s n)"
    "mset (gIdleLogInfoQueue s @ ?b) = mset [0..<4096]"
    using assms(1) by (simp_all add: queue_inv_def waiting_def)
  obtain es k st z where k: "ProcessLogQueue clock print cfg tv us s = Some ((moved k s)\<lparr>lg_out := lg_out s @ es, lg_logFileSize := z, lg_stamp := st\<rparr>)"
    "stamp_ok clock st" "delivered cfg es (lines_of print cfg ?ts s k)" "dropped es = 0" "0 < k" "k \<le> length ?b"
    using ProcessLogQueue_ok [OF assms(2-5) inv(1,2) assms(6)] unfolding Let_def by blast
  let ?s = "(moved k s)\<lparr>lg_out := lg_out s @ es, lg_logFileSize := z, lg_stamp := st\<rparr>"
  define xs where "xs = map (\<lambda>n. (?ts, gLogInfoNodeArray s n)) (take k ?b)"
  have w: "waiting s = map snd xs @ waiting ?s"
    by (simp add: xs_def waiting_def moved_def o_def flip: map_append)
  have "output_text print cfg xs = lines_of print cfg ?ts s k" by (simp add: output_text_def xs_def lines_of_def o_def)
  moreover have "mset (take k ?b) + mset (drop k ?b) = mset ?b" by (metis append_take_drop_id mset_append)
  then have "queue_inv clock print cfg ?s"
    using inv k(2) by (auto simp: queue_inv_def waiting_def moved_def add.assoc dest: in_set_dropD)
  ultimately have "queue_step_ok clock print cfg [] s ?s" unfolding queue_step_ok_def
    by (intro conjI exI [of _ es] exI [of _ "[]"] exI [of _ xs]) (use k(3,4) w in \<open>simp_all add: kept_nodes_def\<close>)
  moreover have "length (gBusyLogInfoQueue ?s) < length ?b" using k(5,6) by (simp add: moved_def)
  ultimately show ?thesis using k(1) by blast
qed

lemma queue_log_step_ok:
  assumes "queue_inv clock print cfg s" "clock_ok clock" "lc_logType cfg = 2" "queue_op_ok print cfg op"
  shows "\<exists>s'. log_step clock print cfg op s = Some s' \<and> queue_step_ok clock print cfg (op_info cfg op) s s'"
proof (cases op)
  case (Op_Msg m)
  then obtain i where "log_msg_info cfg m = Some i" "node_ok print cfg (LOG_MSG i)"
    using assms(4) by (auto simp: queue_op_ok_def split: option.splits)
  then show ?thesis using queue_node_ok [OF assms(1), of "LOG_MSG i"] no_step [OF assms(1)] assms(3) Op_Msg
    by (auto simp: log_step_def LoggerWriteMsg_def queue_write_msg_def op_info_def)
next
  case (Op_Mem lv bs)
  have "node_ok print cfg (LOG_MEM (take 2047 (dump_text 0 bs @ [CHR 0x0A])))"
    using dump_text_text [of 0 bs] by (auto simp: node_ok_def dest: in_set_takeD simp del: take_append)
  then show ?thesis using queue_node_ok [OF assms(1), of "LOG_MEM (take 2047 (dump_text 0 bs @ [CHR 0x0A]))"] no_step [OF assms(1)] assms(3) Op_Mem
    by (auto simp: log_step_def LoggerWriteMem_def log_mem_info_ok op_info_def simp del: take_append)
next
  case (Op_Read tv us)
  then show ?thesis using queue_round_ok [OF assms(1,2), of tv us] no_step [OF assms(1)] assms(3,4)
    by (auto simp: log_step_def LoggerEntryFunc_def op_info_def queue_op_ok_def)
qed

lemma queue_step_trans:
  assumes "queue_step_ok clock print cfg is s s1" "queue_step_ok clock print cfg js s1 s2"
  shows "queue_step_ok clock print cfg (is @ js) s s2"
proof -
  obtain es ks xs where 1: "lg_out s1 = lg_out s @ es" "delivered cfg es (output_text print cfg xs)" "list_all2 whole_or_none is ks"
    "dropped es = length (filter ((=) None) ks)" "waiting s @ kept_nodes ks = map snd xs @ waiting s1"
    using assms(1) unfolding queue_step_ok_def by blast
  obtain fs ls ys where 2: "lg_out s2 = lg_out s1 @ fs" "delivered cfg fs (output_text print cfg ys)" "list_all2 whole_or_none js ls"
    "dropped fs = length (filter ((=) None) ls)" "waiting s1 @ kept_nodes ls = map snd ys @ waiting s2"
    using assms(2) unfolding queue_step_ok_def by blast
  have "waiting s @ kept_nodes (ks @ ls) = (waiting s @ kept_nodes ks) @ kept_nodes ls" by (simp add: kept_nodes_def)
  also have "\<dots> = map snd (xs @ ys) @ waiting s2" using 1(5) 2(5) by simp
  finally have w: "waiting s @ kept_nodes (ks @ ls) = map snd (xs @ ys) @ waiting s2" .
  have o: "output_text print cfg (xs @ ys) = output_text print cfg xs @ output_text print cfg ys" by (simp add: output_text_def)
  show ?thesis unfolding queue_step_ok_def
  proof (intro conjI exI [of _ "es @ fs"] exI [of _ "ks @ ls"] exI [of _ "xs @ ys"])
    show "queue_inv clock print cfg s2" using assms(2) by (simp add: queue_step_ok_def)
    show "delivered cfg (es @ fs) (output_text print cfg (xs @ ys))" unfolding o by (rule delivered_append [OF 1(2) 2(2)])
  qed (use 1 2 w in \<open>simp_all add: dropped_def list_all2_appendI\<close>)
qed

lemma queue_run_ok:
  assumes "clock_ok clock" "lc_logType cfg = 2" "queue_inv clock print cfg s" "\<forall>op\<in>set ops. queue_op_ok print cfg op"
  shows "\<exists>s'. log_run clock print cfg ops s = Some s' \<and> queue_step_ok clock print cfg (concat (map (op_info cfg) ops)) s s'"
  using assms(3,4)
proof (induction ops arbitrary: s)
  case Nil
  then show ?case by (simp add: no_step)
next
  case (Cons op ops)
  obtain s1 where 1: "log_step clock print cfg op s = Some s1" "queue_step_ok clock print cfg (op_info cfg op) s s1"
    using queue_log_step_ok [OF Cons.prems(1) assms(1,2)] Cons.prems(2) by auto
  then obtain s2 where "log_run clock print cfg ops s1 = Some s2" "queue_step_ok clock print cfg (concat (map (op_info cfg) ops)) s1 s2"
    using Cons.IH [of s1] Cons.prems(2) by (auto simp: queue_step_ok_def)
  then show ?case using 1 queue_step_trans by auto
qed

lemma queue_init:
  "lc_logType cfg = 2 \<Longrightarrow> lg_stamp s = no_stamp \<Longrightarrow> queue_inv clock print cfg (InitAsyncLogger cfg s)"
  by (simp add: queue_inv_def InitAsyncLogger_def waiting_def stamp_ok_def no_stamp_def)

text \<open>
  C18. The nodes of the queue are never lost and leave in order. Whatever sequence of short messages,
  dumps and rounds of the thread there is, every step is defined; every node is in exactly one of the
  two queues; what has been output (each node with the timestamp of its round) followed by what waits is
  the sequence of the entries, of which only those are missing that are counted as dropped.
\<close>

theorem log_queue_fifo:
  assumes "clock_ok clock" "lc_logType cfg = 2" "\<forall>op\<in>set ops. queue_op_ok print cfg op" "lg_stamp s0 = no_stamp"
  shows "\<exists>s es ks xs. log_run clock print cfg ops (InitAsyncLogger cfg s0) = Some s \<and>
    mset (gIdleLogInfoQueue s @ gBusyLogInfoQueue s) = mset [0..<4096] \<and> lg_out s = lg_out s0 @ es \<and>
    delivered cfg es (output_text print cfg xs) \<and> list_all2 whole_or_none (concat (map (op_info cfg) ops)) ks \<and>
    dropped es = length (filter ((=) None) ks) \<and>
    kept_nodes ks = map snd xs @ map (gLogInfoNodeArray s) (gBusyLogInfoQueue s)"
proof -
  have "lg_out (InitAsyncLogger cfg s0) = lg_out s0" "waiting (InitAsyncLogger cfg s0) = []"
    using assms(2) by (simp_all add: InitAsyncLogger_def waiting_def)
  then show ?thesis
    using queue_run_ok [OF assms(1,2) queue_init [OF assms(2,4)] assms(3)]
    unfolding queue_step_ok_def queue_inv_def waiting_def by fastforce
qed

definition queue_log_config :: LoggerConfig where
  "queue_log_config = (cf_logConfig gLteConfig)\<lparr>lc_logType := 2, lc_logThreadIdFlag := 0\<rparr>"

lemma sample_info: "log_msg_info queue_log_config sample_msg = Some \<lparr>li_moduleId = [], li_logLevel = 2, li_fileName = ''lteRlc.c'',
    li_funcName = ''InitRlcLayer'', li_threadId = 7, li_logContentFlag = 0, li_fmt = ''done'', li_args = [], li_logContent = []\<rparr>"
  by (simp add: log_msg_info_def queue_log_config_def gLteConfig_def sample_msg_def)

theorem log_queue_fifo_witness:
  "\<exists>s es ks xs. log_run noon (\<lambda>f _. Some f) queue_log_config [Op_Msg sample_msg, Op_Read 60 0] (InitAsyncLogger queue_log_config idle_logger) = Some s \<and>
    mset (gIdleLogInfoQueue s @ gBusyLogInfoQueue s) = mset [0..<4096] \<and> lg_out s = es \<and>
    delivered queue_log_config es (output_text (\<lambda>f _. Some f) queue_log_config xs) \<and>
    kept_nodes ks = map snd xs @ map (gLogInfoNodeArray s) (gBusyLogInfoQueue s)"
proof -
  have "queue_op_ok (\<lambda>f _. Some f) queue_log_config (Op_Msg sample_msg)"
    by (simp add: queue_op_ok_def sample_info node_ok_def msg_info_ok_def node_rest_def node_text_def gLoggerLevelName_s_def)
      (simp add: queue_log_config_def gLteConfig_def)
  then have ok: "\<forall>op\<in>set [Op_Msg sample_msg, Op_Read 60 0]. queue_op_ok (\<lambda>f _. Some f) queue_log_config op"
    by (simp add: queue_op_ok_def)
  have ty: "lc_logType queue_log_config = 2" by (simp add: queue_log_config_def)
  have i: "lg_stamp idle_logger = no_stamp" "lg_out idle_logger = []" by (simp_all add: idle_logger_def)
  obtain s es ks xs where x: "log_run noon (\<lambda>f _. Some f) queue_log_config [Op_Msg sample_msg, Op_Read 60 0] (InitAsyncLogger queue_log_config idle_logger) = Some s"
    "mset (gIdleLogInfoQueue s @ gBusyLogInfoQueue s) = mset [0..<4096]" "lg_out s = lg_out idle_logger @ es"
    "delivered queue_log_config es (output_text (\<lambda>f _. Some f) queue_log_config xs)"
    "kept_nodes ks = map snd xs @ map (gLogInfoNodeArray s) (gBusyLogInfoQueue s)"
    using log_queue_fifo [OF noon_ok ty ok i(1)] by blast
  show ?thesis using x i(2) by (intro exI [of _ s] exI [of _ es] exI [of _ ks] exI [of _ xs]) (simp del: log_run.simps mset_append)
qed

section \<open>The array of the thread overflows\<close>

text \<open>
  The loop leaves 160 characters at the end of its array, but the text of a message that was made
  when it was written has up to 255, and is copied without a bound.
\<close>

lemma queue_line_overflow:
  assumes "wrote a0 a 0 t" "msg_info_ok print cfg i" "length (t @ ts @ node_rest cfg i) < 4095" "li_logContentFlag i \<noteq> 0"
    and "4096 < length (t @ node_line print cfg ts (LOG_MSG i))"
  shows "queue_line print cfg ts i (a, length t) = None"
proof -
  obtain b where "queue_head cfg ts i (a, length t) = Some (b, length (t @ ts @ node_rest cfg i))"
    using queue_head_ok [OF assms(1-3)] by blast
  then show ?thesis using assms(4,5) by (simp add: queue_line_def node_line_def node_text_def lit_def put_def)
qed

lemma process_overflow:
  assumes "\<And>n. n \<in> set (gBusyLogInfoQueue s) \<Longrightarrow> gLogInfoNodeArray s n = LOG_MSG i" "msg_info_ok print cfg i" "li_logContentFlag i \<noteq> 0"
    and "length ts = 26" "l = length (node_line print cfg ts (LOG_MSG i))" "0 < l"
    and "length (gBusyLogInfoQueue s) = Suc k" "length t + k * l + 160 < 4095" "length t + k * l + 26 + length (node_rest cfg i) < 4095"
    and "4096 < length t + Suc k * l" "wrote a0 a 0 t" "k < cnt"
  shows "process_nodes print cfg ts cnt (a, length t) s = None"
  using assms(1,7-12)
proof (induction k arbitrary: s t a cnt)
  case 0
  obtain n where n: "gBusyLogInfoQueue s = [n]" using 0(2) by (cases "gBusyLogInfoQueue s") auto
  obtain c where c: "cnt = Suc c" using 0(7) by (cases cnt) auto
  have "queue_line print cfg ts i (a, length t) = None"
    by (rule queue_line_overflow [OF 0(6) assms(2) _ assms(3)]) (use 0(4,5) assms(4,5) in simp_all)
  then show ?case using n 0(1) [of n] c by simp
next
  case (Suc k)
  obtain n ns where n: "gBusyLogInfoQueue s = n # ns" "length ns = Suc k" using Suc.prems(2) by (cases "gBusyLogInfoQueue s") auto
  obtain c where c: "cnt = Suc c" using Suc.prems(7) by (cases cnt) auto
  let ?l = "node_line print cfg ts (LOG_MSG i)" and ?s = "s\<lparr>gBusyLogInfoQueue := ns, gIdleLogInfoQueue := gIdleLogInfoQueue s @ [n]\<rparr>"
  have fit: "length (t @ ?l) + 160 < 4095" using Suc.prems(3) assms(5) by simp
  obtain a1 where a1: "queue_line print cfg ts i (a, length t) = Some (a1, length (t @ ?l))" "wrote a0 a1 0 (t @ ?l)"
    using queue_line_ok [OF Suc.prems(6) assms(2), of ts] fit by auto
  have "process_nodes print cfg ts c (a1, length (t @ ?l)) ?s = None"
    by (rule Suc.IH [OF _ _ _ _ _ a1(2)]) (use Suc.prems n c assms(5) in \<open>simp_all add: algebra_simps\<close>)
  then show ?case using n(1) Suc.prems(1) [of n] c a1(1) fit by simp
qed

lemma replicate_run:
  assumes "lc_logType cfg = 2" "log_msg_info cfg m = Some i" "lm_logLevel m \<ge> lc_logLevel cfg" "lm_logLevel m < 5"
    and "k \<le> length (gIdleLogInfoQueue s)" "distinct (gIdleLogInfoQueue s @ gBusyLogInfoQueue s)"
    and "\<And>n. n \<in> set (gBusyLogInfoQueue s) \<Longrightarrow> gLogInfoNodeArray s n = LOG_MSG i"
  shows "\<exists>s'. log_run clock print cfg (replicate k (Op_Msg m) @ ops) s = log_run clock print cfg ops s' \<and>
    length (gBusyLogInfoQueue s') = length (gBusyLogInfoQueue s) + k \<and> lg_stamp s' = lg_stamp s \<and>
    (\<forall>n\<in>set (gBusyLogInfoQueue s'). gLogInfoNodeArray s' n = LOG_MSG i)"
  using assms(5-7)
proof (induction k arbitrary: s)
  case 0
  then show ?case by (intro exI [of _ s]) simp
next
  case (Suc k)
  obtain n ns where n: "gIdleLogInfoQueue s = n # ns" using Suc.prems(1) by (cases "gIdleLogInfoQueue s") auto
  let ?s = "s\<lparr>gIdleLogInfoQueue := ns, gLogInfoNodeArray := (gLogInfoNodeArray s)(n := LOG_MSG i), gBusyLogInfoQueue := gBusyLogInfoQueue s @ [n]\<rparr>"
  have step: "log_step clock print cfg (Op_Msg m) s = Some ?s"
    using n assms(1-4) by (simp add: log_step_def LoggerWriteMsg_def queue_write_msg_def queue_node_def)
  obtain s' where s': "log_run clock print cfg (replicate k (Op_Msg m) @ ops) ?s = log_run clock print cfg ops s'"
    "length (gBusyLogInfoQueue s') = length (gBusyLogInfoQueue ?s) + k" "lg_stamp s' = lg_stamp ?s"
    "\<forall>n\<in>set (gBusyLogInfoQueue s'). gLogInfoNodeArray s' n = LOG_MSG i"
  proof -
    have "gLogInfoNodeArray ?s na = LOG_MSG i" if "na \<in> set (gBusyLogInfoQueue ?s)" for na
      using that Suc.prems(3) by auto
    moreover have "k \<le> length (gIdleLogInfoQueue ?s)" "distinct (gIdleLogInfoQueue ?s @ gBusyLogInfoQueue ?s)"
      using Suc.prems(1,2) n by auto
    ultimately show thesis using Suc.IH [of ?s] that by blast
  qed
  then show ?case using step by (intro exI [of _ s']) simp
qed

text \<open>
  C40. The logger thread of type 2 overflows its array. When messages with a long text that was made
  when they were written wait, and \<open>k\<close> lines of length \<open>l\<close> leave more than the
  reserve of 160 characters but less than a further line needs, then the round of the thread that
  outputs them is undefined: it copies the text of the last one past the end of the array.
\<close>

theorem log_queue_overflow:
  assumes "clock_ok clock" "lc_logType cfg = 2" "lg_stamp s0 = no_stamp" "0 < tv" "tv < 2 ^ 31" "us < 10 ^ 6"
    and "log_msg_info cfg m = Some i" "lm_logLevel m \<ge> lc_logLevel cfg" "lm_logLevel m < 5" "msg_info_ok print cfg i" "li_logContentFlag i \<noteq> 0"
    and "l = 26 + length (node_rest cfg i) + length (li_logContent i)"
    and "k * l + 160 < 4095" "k * l + 26 + length (node_rest cfg i) < 4095" "4096 < Suc k * l"
  shows "log_run clock print cfg (replicate (Suc k) (Op_Msg m) @ [Op_Read tv us]) (InitAsyncLogger cfg s0) = None"
proof -
  let ?s0 = "InitAsyncLogger cfg s0" and ?ts = "bracketed (render clock tv (us div 1000))"
  have init: "gIdleLogInfoQueue ?s0 = [0..<4096]" "gBusyLogInfoQueue ?s0 = []" "stamp_ok clock (lg_stamp ?s0)"
    using assms(2,3) by (simp_all add: InitAsyncLogger_def stamp_ok_def no_stamp_def)
  have l: "0 < l" using assms(12) by simp
  have "k \<le> k * l" using l by simp
  then have "k < 3935" using assms(13) by linarith
  then have "Suc k \<le> length (gIdleLogInfoQueue ?s0)" using init(1) by simp
  then obtain s where s: "log_run clock print cfg (replicate (Suc k) (Op_Msg m) @ [Op_Read tv us]) ?s0 = log_run clock print cfg [Op_Read tv us] s"
    "length (gBusyLogInfoQueue s) = Suc k" "lg_stamp s = lg_stamp ?s0" "\<forall>n\<in>set (gBusyLogInfoQueue s). gLogInfoNodeArray s n = LOG_MSG i"
    using replicate_run [OF assms(2,7-9), of "Suc k" ?s0 clock print "[Op_Read tv us]"] init(1,2) by auto
  have "us div 1000 < 1000" using assms(6) by (simp add: div_less_iff_less_mult)
  then have r: "length ?ts = 26" using render_facts [OF assms(1,4)] by simp
  obtain t st where t: "LoggerGetTimestamp clock 32 0 tv us (\<lambda>_. NUL, lg_stamp s) = Some (t, st)"
    "wrote (\<lambda>_. NUL) t 0 ?ts" "c_strlen 32 t 0 = Some 26"
    using LoggerGetTimestamp_ok [OF assms(1,4-6), of "lg_stamp s" 0 32 "\<lambda>_. NUL"] init(3) s(3) by auto
  have mt: "map t [0..<26] = ?ts" using t(2) unfolding wrote_def text_at_def r by (simp only: add_0)
  have ln: "l = length (node_line print cfg ?ts (LOG_MSG i))" using assms(11,12) r by (simp add: node_line_def node_text_def)
  have "process_nodes print cfg ?ts (length (gBusyLogInfoQueue s)) (\<lambda>_. NUL, length ([] :: string)) (s\<lparr>lg_stamp := st\<rparr>) = None"
    by (rule process_overflow [OF _ assms(10,11) r ln l, where k = k and ?a0.0 = "\<lambda>_. NUL"])
      (use s(2,4) assms(13-15) in \<open>simp_all add: wrote_def\<close>)
  then have "ProcessLogQueue clock print cfg tv us s = None"
    by (simp add: ProcessLogQueue_def t(1,3) mt)
  moreover have "gBusyLogInfoQueue s \<noteq> []" using s(2) by auto
  ultimately show ?thesis using s(1) assms(2) by (simp add: log_step_def LoggerEntryFunc_def)
qed

definition long_msg :: LogMsg where
  "long_msg = sample_msg\<lparr>lm_fmt := ''%s'', lm_text := replicate 300 CHR ''x'', lm_funcName := replicate 60 CHR ''f''\<rparr>"

definition long_info :: LogMsgInfo where
  "long_info = \<lparr>li_moduleId = [], li_logLevel = 2, li_fileName = ''lteRlc.c'', li_funcName = replicate 60 CHR ''f'', li_threadId = 7,
     li_logContentFlag = 1, li_fmt = ''%s'', li_args = [], li_logContent = replicate 255 CHR ''x''\<rparr>"

theorem log_queue_overflow_witness:
  "log_run noon (\<lambda>f _. Some f) queue_log_config (replicate 12 (Op_Msg long_msg) @ [Op_Read 60 0]) (InitAsyncLogger queue_log_config idle_logger) = None"
proof -
  have cfg: "lc_logModuleNameFlag queue_log_config = 0" "lc_logFileNameFlag queue_log_config = 0" "lc_logFuncNameFlag queue_log_config = 1"
    "lc_logThreadIdFlag queue_log_config = 0" "lc_logType queue_log_config = 2" "lc_logLevel queue_log_config = 0"
    by (simp_all add: queue_log_config_def gLteConfig_def)
  have m: "log_msg_info queue_log_config long_msg = Some long_info"
    by (simp add: log_msg_info_def cfg long_msg_def sample_msg_def long_info_def)
  have lv: "lc_logLevel queue_log_config \<le> lm_logLevel long_msg" "lm_logLevel long_msg < 5" by (simp_all add: cfg long_msg_def sample_msg_def)
  have r: "length (node_rest queue_log_config long_info) = 74"
    by (simp add: node_rest_def cfg) (simp add: long_info_def gLoggerLevelName_s_def)
  have i: "msg_info_ok (\<lambda>f _. Some f) queue_log_config long_info" by (simp add: msg_info_ok_def cfg long_info_def node_text_def)
  have c: "li_logContentFlag long_info \<noteq> 0" "length (li_logContent long_info) = 255" by (simp_all add: long_info_def)
  have "log_run noon (\<lambda>f _. Some f) queue_log_config (replicate (Suc 11) (Op_Msg long_msg) @ [Op_Read 60 0])
      (InitAsyncLogger queue_log_config idle_logger) = None"
    by (rule log_queue_overflow [OF noon_ok cfg(5) _ _ _ _ m lv i c(1), where l = 355]) (simp_all add: r c(2) idle_logger_def)
  then show ?thesis by (simp del: log_run.simps replicate_Suc replicate.simps)
qed

end
