(* ===== verification/Db_Access.thy ===== *)
theory Db_Access
  imports Ulp_Prelude
begin

text \<open>
  The access to the login database (\<open>db/src/dbImpl.c\<close>). SQLite is vendored code: its
  answers are the argument \<open>q\<close> of the operations, whose results hold the calls they make,
  so that the use of statements can be followed. The messages to the logger are left out.
\<close>

section \<open>The interface of SQLite\<close>

text \<open>
  A row of \<open>login_info\<close>: the columns id, imsi, m_tmsi and time; a text can be null.
\<close>

type_synonym login_row = "u32 \<times> string option \<times> u32 \<times> string option"

text \<open>
  The answers: a result code and a handle for opening and preparing, result codes for binding, the
  number of columns, the rows that successive steps deliver, and the answer of the step behind them.
\<close>

record sqlite =
  sq_open :: "string \<Rightarrow> int \<times> ptr"
  sq_prepare :: "string \<Rightarrow> int \<times> ptr"
  sq_bind_text :: "nat \<Rightarrow> string \<Rightarrow> int"
  sq_bind_int :: "nat \<Rightarrow> u32 \<Rightarrow> int"
  sq_column_count :: int
  sq_rows :: "login_row list"
  sq_end :: int

abbreviation (input) SQLITE_OK :: int where "SQLITE_OK \<equiv> 0"
abbreviation (input) SQLITE_ROW :: int where "SQLITE_ROW \<equiv> 100"
abbreviation (input) SQLITE_DONE :: int where "SQLITE_DONE \<equiv> 101"
abbreviation (input) DB_SUCCESS :: int where "DB_SUCCESS \<equiv> 0"
abbreviation (input) DB_ERROR :: int where "DB_ERROR \<equiv> 1"
abbreviation (input) MAX_IMSI_BYTE_LENGTH :: nat where "MAX_IMSI_BYTE_LENGTH \<equiv> 15"
abbreviation (input) MAX_DB_TIMESTAMP_LENGTH :: nat where "MAX_DB_TIMESTAMP_LENGTH \<equiv> 21"

datatype sq_call = Sq_Prepare string | Sq_Bind_Text ptr nat string | Sq_Bind_Int ptr nat u32 | Sq_Column_Count ptr | Sq_Step ptr |
  Sq_Row ptr login_row | Sq_Finalize ptr | Sq_Close ptr

type_synonym 'a traced = "'a \<times> sq_call list"

definition first_step :: "sqlite \<Rightarrow> int" where
  "first_step q = (if sq_rows q = [] then sq_end q else SQLITE_ROW)"

section \<open>Operations\<close>

text \<open>The names of the two data bases.\<close>

record DbConfig =
  dbMobileId :: string
  dbUserInfo :: string

definition gDbConfig_s :: DbConfig where
  "gDbConfig_s = \<lparr>dbMobileId = ''/tmp/eq5_mobile_id.db'', dbUserInfo = ''/tmp/eq5_user_info.db''\<rparr>"

definition DbInit :: "DbConfig option \<Rightarrow> DbConfig \<Rightarrow> DbConfig" where
  "DbInit pDbConfig cfg = (case pDbConfig of None \<Rightarrow> cfg | Some c \<Rightarrow> c)"

text \<open>A connection that is missing or not open, and an IMSI that is missing, empty or too long.\<close>

definition no_connection :: "ptr option \<Rightarrow> bool" where
  "no_connection pDbConn \<longleftrightarrow> pDbConn = None \<or> pDbConn = Some NULL"

definition bad_imsi :: "string option \<Rightarrow> bool" where
  "bad_imsi imsi \<longleftrightarrow> (case imsi of None \<Rightarrow> True | Some t \<Rightarrow> length t = 0 \<or> length t > MAX_IMSI_BYTE_LENGTH)"

definition bad_dates :: "string option \<Rightarrow> string option \<Rightarrow> bool" where
  "bad_dates beginDate endDate \<longleftrightarrow> (case (beginDate, endDate) of
     (Some b, Some e) \<Rightarrow> length b > MAX_DB_TIMESTAMP_LENGTH \<or> length e > MAX_DB_TIMESTAMP_LENGTH
   | _ \<Rightarrow> True)"

definition DbGetConnection :: "sqlite \<Rightarrow> bool \<Rightarrow> string option \<Rightarrow> int \<times> ptr option" where
  "DbGetConnection q pDbConn dbName =
     (if \<not> pDbConn then (DB_ERROR, None)
      else case dbName of None \<Rightarrow> (DB_ERROR, None)
        | Some n \<Rightarrow> (case sq_open q n of (result, h) \<Rightarrow> (if result = SQLITE_OK then DB_SUCCESS else DB_ERROR, Some h)))"

text \<open>Closing; and the two operations that are not implemented.\<close>

definition DbCloseConnection :: "ptr option \<Rightarrow> sq_call list" where
  "DbCloseConnection pDbConn = (case pDbConn of None \<Rightarrow> [] | Some h \<Rightarrow> [Sq_Close h])"

definition DbInsertMTmsi :: "ptr option \<Rightarrow> u32 \<Rightarrow> int" where
  "DbInsertMTmsi pDbConn mTmsi = DB_ERROR"

definition DbInsertImsiAndMTmsi :: "ptr option \<Rightarrow> string option \<Rightarrow> u32 \<Rightarrow> int" where
  "DbInsertImsiAndMTmsi pDbConn imsi mTmsi = DB_ERROR"

text \<open>
  What every operation does with its statement: it is prepared and used; a statement that is
  returned with an error is finalised at once; after an error of a binding it is finalised.
\<close>

definition with_stmt :: "sqlite \<Rightarrow> string \<Rightarrow> 'a \<Rightarrow> (ptr \<Rightarrow> 'a traced) \<Rightarrow> 'a traced" where
  "with_stmt q sql fail use_stmt = (case sq_prepare q sql of (result, st) \<Rightarrow>
     if result \<noteq> SQLITE_OK then (fail, Sq_Prepare sql # (if st \<noteq> NULL then [Sq_Finalize st] else []))
     else (case use_stmt st of (r, tr) \<Rightarrow> (r, Sq_Prepare sql # tr)))"

definition checked :: "bool \<Rightarrow> sq_call \<Rightarrow> ptr \<Rightarrow> 'a \<Rightarrow> 'a traced \<Rightarrow> 'a traced" where
  "checked ok c st fail rest = (if \<not> ok then (fail, [c, Sq_Finalize st]) else (case rest of (r, tr) \<Rightarrow> (r, c # tr)))"

definition bind_text :: "sqlite \<Rightarrow> ptr \<Rightarrow> nat \<Rightarrow> string \<Rightarrow> 'a \<Rightarrow> 'a traced \<Rightarrow> 'a traced" where
  "bind_text q st i t = checked (sq_bind_text q i t = SQLITE_OK) (Sq_Bind_Text st i t) st"

definition DbInsertLoginImsi :: "sqlite \<Rightarrow> ptr option \<Rightarrow> string option \<Rightarrow> int traced" where
  "DbInsertLoginImsi q pDbConn imsi =
     (if no_connection pDbConn \<or> bad_imsi imsi then (DB_ERROR, [])
      else with_stmt q ''insert into login_info (imsi) values (?)'' DB_ERROR (\<lambda>st.
        bind_text q st 1 (the imsi) DB_ERROR
          (if first_step q = SQLITE_DONE then DB_SUCCESS else DB_ERROR, [Sq_Step st, Sq_Finalize st])))"

text \<open>
  The count is also the answer for errors: 0 for those of SQLite, \<open>DB_ERROR\<close> for bad
  arguments.
\<close>

definition DbSelectLoginCountByImsi :: "sqlite \<Rightarrow> ptr option \<Rightarrow> string option \<Rightarrow> int traced" where
  "DbSelectLoginCountByImsi q pDbConn imsi =
     (if no_connection pDbConn \<or> bad_imsi imsi then (DB_ERROR, [])
      else with_stmt q ''SELECT count( * ) FROM login_info WHERE imsi= ? '' 0 (\<lambda>st.
        bind_text q st 1 (the imsi) 0
          (case sq_rows q of
             [] \<Rightarrow> (0, [Sq_Step st, Sq_Finalize st])
           | r # rs \<Rightarrow> if sq_column_count q \<noteq> 0
               then (sint (fst r), [Sq_Step st, Sq_Column_Count st, Sq_Row st r, Sq_Finalize st])
               else (0, [Sq_Step st, Sq_Column_Count st, Sq_Finalize st]))))"

text \<open>
  The loop of the queries: as long as a step delivers a row, the callback gets it.  Whatever else
  the last step answers ends the loop.  The answers: the result, and the count when it is asked for.
\<close>

fun deliver :: "ptr \<Rightarrow> login_row list \<Rightarrow> sq_call list" where
  "deliver st [] = [Sq_Step st]"
| "deliver st (r # rs) = Sq_Step st # Sq_Row st r # deliver st rs"

definition query_rows :: "sqlite \<Rightarrow> ptr \<Rightarrow> bool \<Rightarrow> (int \<times> int option) traced" where
  "query_rows q st want_count =
     checked (sq_column_count q = 4) (Sq_Column_Count st) st (DB_ERROR, None)
       ((DB_SUCCESS, if want_count then Some (int (length (sq_rows q))) else None), deliver st (sq_rows q) @ [Sq_Finalize st])"

definition DbQueryLoginInfoByImsiAndDate ::
  "sqlite \<Rightarrow> ptr option \<Rightarrow> string option \<Rightarrow> string option \<Rightarrow> string option \<Rightarrow> bool \<Rightarrow> bool \<Rightarrow> (int \<times> int option) traced" where
  "DbQueryLoginInfoByImsiAndDate q pDbConn imsi beginDate endDate callbackFunc want_count =
     (if no_connection pDbConn \<or> bad_imsi imsi \<or> bad_dates beginDate endDate \<or> \<not> callbackFunc then ((DB_ERROR, None), [])
      else with_stmt q ''SELECT * FROM login_info WHERE imsi = ? AND time >= ? AND time <= ? '' (DB_ERROR, None) (\<lambda>st.
        bind_text q st 1 (the imsi) (DB_ERROR, None)
          (bind_text q st 2 (the beginDate) (DB_ERROR, None)
            (bind_text q st 3 (the endDate) (DB_ERROR, None) (query_rows q st want_count)))))"

definition DbQueryLoginInfoByDate ::
  "sqlite \<Rightarrow> ptr option \<Rightarrow> string option \<Rightarrow> string option \<Rightarrow> bool \<Rightarrow> bool \<Rightarrow> (int \<times> int option) traced" where
  "DbQueryLoginInfoByDate q pDbConn beginDate endDate callbackFunc want_count =
     (if no_connection pDbConn \<or> bad_dates beginDate endDate \<or> \<not> callbackFunc then ((DB_ERROR, None), [])
      else with_stmt q ''SELECT * FROM login_info WHERE time >= ? AND time <= ? '' (DB_ERROR, None) (\<lambda>st.
        bind_text q st 1 (the beginDate) (DB_ERROR, None)
          (bind_text q st 2 (the endDate) (DB_ERROR, None) (query_rows q st want_count))))"

definition DbInsertUserLoginBehaviour ::
  "sqlite \<Rightarrow> ptr option \<Rightarrow> string option \<Rightarrow> string option \<Rightarrow> string option \<Rightarrow> u32 \<Rightarrow> int traced" where
  "DbInsertUserLoginBehaviour q pDbConn imsi firstTime lastTime loginCount =
     (if no_connection pDbConn \<or> bad_imsi imsi \<or> firstTime = None \<or> lastTime = None then (DB_ERROR, [])
      else with_stmt q ''insert into user_login_behavior (imsi, first_time, last_time, login_count) values (?, ?, ?, ?)'' DB_ERROR (\<lambda>st.
        bind_text q st 1 (the imsi) DB_ERROR
          (bind_text q st 2 (the firstTime) DB_ERROR
            (bind_text q st 3 (the lastTime) DB_ERROR
              (checked (sq_bind_int q 4 loginCount = SQLITE_OK) (Sq_Bind_Int st 4 loginCount) st DB_ERROR
                (if first_step q = SQLITE_DONE then DB_SUCCESS else DB_ERROR, [Sq_Step st, Sq_Finalize st]))))))"

section \<open>Statements are finalised\<close>

fun stmt_of :: "sq_call \<Rightarrow> ptr option" where
  "stmt_of (Sq_Prepare sql) = None"
| "stmt_of (Sq_Finalize st) = None"
| "stmt_of (Sq_Close h) = None"
| "stmt_of (Sq_Bind_Text st i t) = Some st"
| "stmt_of (Sq_Bind_Int st i n) = Some st"
| "stmt_of (Sq_Column_Count st) = Some st"
| "stmt_of (Sq_Step st) = Some st"
| "stmt_of (Sq_Row st r) = Some st"

text \<open>The statement is used and finalised, once and last.\<close>

fun used_up :: "ptr \<Rightarrow> sq_call list \<Rightarrow> bool" where
  "used_up st [] = False"
| "used_up st (c # cs) = (if cs = [] then c = Sq_Finalize st else stmt_of c = Some st \<and> used_up st cs)"

text \<open>
  A trace without statement, or the preparation of one and its use; nothing when none came back.
\<close>

fun disciplined :: "sqlite \<Rightarrow> sq_call list \<Rightarrow> bool" where
  "disciplined q [] = True"
| "disciplined q (Sq_Prepare sql # cs) =
     (case sq_prepare q sql of (result, st) \<Rightarrow> if result \<noteq> SQLITE_OK \<and> st = NULL then cs = [] else used_up st cs)"
| "disciplined q (c # cs) = False"

lemma with_stmt_disciplined:
  "(\<And>st. used_up st (snd (k st))) \<Longrightarrow> disciplined q (snd (with_stmt q sql fail k))"
  by (auto simp: with_stmt_def split: prod.split) (metis snd_conv)+

lemma checked_used_up:
  "stmt_of c = Some st \<Longrightarrow> used_up st (snd rest) \<Longrightarrow> used_up st (snd (checked ok c st fail rest))"
  by (cases "snd rest") (auto simp: checked_def split: prod.split)

lemma bind_text_used_up: "used_up st (snd rest) \<Longrightarrow> used_up st (snd (bind_text q st i t fail rest))"
  by (simp add: bind_text_def checked_used_up)

lemma deliver_used_up: "used_up st (deliver st rs @ [Sq_Finalize st])"
  by (induction rs) auto

lemma query_rows_used_up: "used_up st (snd (query_rows q st w))"
  by (simp add: query_rows_def checked_used_up deliver_used_up)

lemmas statement_rules = with_stmt_disciplined bind_text_used_up checked_used_up query_rows_used_up

text \<open>
  C24. No statement is leaked and none is used after its end. Whatever the arguments and whatever SQLite
  answers, every operation on the tables either prepares no statement, or gets none, or uses only the
  one it has prepared and finalises it exactly once, as its last call.
\<close>

theorem db_statements_finalised:
  "disciplined q (snd (DbInsertLoginImsi q conn imsi)) \<and>
   disciplined q (snd (DbSelectLoginCountByImsi q conn imsi)) \<and>
   disciplined q (snd (DbQueryLoginInfoByImsiAndDate q conn imsi from_date to_date cb w)) \<and>
   disciplined q (snd (DbQueryLoginInfoByDate q conn from_date to_date cb w)) \<and>
   disciplined q (snd (DbInsertUserLoginBehaviour q conn imsi first_time last_time n))"
  by (intro conjI)
    (simp_all add: DbInsertLoginImsi_def DbSelectLoginCountByImsi_def DbQueryLoginInfoByImsiAndDate_def DbQueryLoginInfoByDate_def
      DbInsertUserLoginBehaviour_def statement_rules split: list.split)

section \<open>Results\<close>

fun rows_of :: "sq_call list \<Rightarrow> login_row list" where
  "rows_of [] = []"
| "rows_of (Sq_Row st r # cs) = r # rows_of cs"
| "rows_of (c # cs) = rows_of cs"

lemma rows_of_deliver: "rows_of (deliver st rs @ [Sq_Finalize st]) = rs"
  by (induction rs) auto

text \<open>
  A query that succeeds has handed every row to the callback, in order, and counted them; it succeeds
  also when the last step failed, because any answer but a row ends the loop.
\<close>

lemma query_by_date_result:
  assumes "DbQueryLoginInfoByDate q conn b e cb True = ((DB_SUCCESS, c), tr)"
  shows "rows_of tr = sq_rows q \<and> c = Some (int (length (sq_rows q)))"
  using assms
  by (auto simp: DbQueryLoginInfoByDate_def with_stmt_def bind_text_def checked_def query_rows_def rows_of_deliver
      split: if_splits prod.splits)

text \<open>Bad arguments count as one login.\<close>

lemma bad_arguments_count_one: "no_connection conn \<or> bad_imsi imsi \<Longrightarrow> DbSelectLoginCountByImsi q conn imsi = (1, [])"
  by (simp add: DbSelectLoginCountByImsi_def)

end
