(* ===== verification/Rlc_Stream.thy ===== *)
theory Rlc_Stream
  imports Rlc_Format Rlc_Reassembly
begin

text \<open>
  The abstract receiver and a sender.  A sender cuts its SDUs into pieces and packs the pieces into
  numbered PDUs; a receiver that gets the PDUs in order delivers exactly the SDUs.
\<close>

section \<open>The sender\<close>

text \<open>A piece of an SDU: whether it is the first, whether it is the last, and its bytes.\<close>

type_synonym piece = "bool \<times> bool \<times> u8 list"

fun label :: "bool \<Rightarrow> u8 list list \<Rightarrow> piece list" where
  "label first [] = []"
| "label first [b] = [(first, True, b)]"
| "label first (b # c # bs) = (first, False, b) # label False (c # bs)"

inductive cut_into :: "u8 list list \<Rightarrow> piece list \<Rightarrow> bool" where
  cut_none: "cut_into [] []"
| cut_sdu: "ps \<noteq> [] \<Longrightarrow> cut_into sdus qs \<Longrightarrow> cut_into (concat ps # sdus) (label True ps @ qs)"

text \<open>A PDU carries some pieces; within a PDU an SDU ends where the next piece begins.\<close>

definition packed :: "piece list \<Rightarrow> bool" where
  "packed ps \<longleftrightarrow> ps \<noteq> [] \<and> (\<forall>x\<in>set (butlast ps). fst (snd x))"

text \<open>
  The fields of a PDU with these pieces: framing information, lengths of all but the last, payload.
\<close>

definition pieces_fi :: "piece list \<Rightarrow> u8" where
  "pieces_fi ps = (if fst (hd ps) then 0 else 2) OR (if fst (snd (last ps)) then 0 else 1)"

definition pieces_payload :: "piece list \<Rightarrow> u8 list" where
  "pieces_payload ps = concat (map (snd \<circ> snd) ps)"

definition pieces_lens :: "piece list \<Rightarrow> u16 list \<Rightarrow> bool" where
  "pieces_lens ps lens \<longleftrightarrow> map unat lens = map (length \<circ> snd \<circ> snd) (butlast ps)"

text \<open>PDUs in sequence: number and pieces.\<close>

primrec in_sequence :: "u16 \<Rightarrow> (u16 \<times> piece list) list \<Rightarrow> bool" where
  "in_sequence n [] = True"
| "in_sequence n (x # xs) = (isSNEqual (fst x) n \<and> packed (snd x) \<and> in_sequence (n + 1) xs)"

section \<open>The elements of a PDU\<close>

definition piece_status :: "bool \<Rightarrow> bool \<Rightarrow> RlcSduStatus" where
  "piece_status f l = (if f then (if l then AM_PDU_MAP_SDU_FULL else AM_PDU_MAP_SDU_START)
     else if l then AM_PDU_MAP_SDU_END else AM_PDU_MAP_SDU_MID)"

definition piece_element :: "piece \<Rightarrow> RlcSduStatus \<times> u8 list" where
  "piece_element = (\<lambda>(f, l, b). (piece_status f l, b))"

lemma cut_pieces: "pieces_lens ps lens \<Longrightarrow> ps \<noteq> [] \<Longrightarrow> cut_at lens (pieces_payload ps) = map (snd \<circ> snd) ps"
proof (induction ps arbitrary: lens)
  case (Cons x xs)
  then show ?case
    by (cases xs; cases lens) (auto simp: pieces_lens_def pieces_payload_def)
qed simp

lemma mark_rest:
  "\<forall>x\<in>set ps. fst x \<Longrightarrow> \<forall>x\<in>set (butlast ps). fst (snd x) \<Longrightarrow> ps \<noteq> [] \<Longrightarrow>
    last_status fi = piece_status True (fst (snd (last ps))) \<Longrightarrow>
    mark fi AM_PDU_MAP_SDU_FULL (map (snd \<circ> snd) ps) = map piece_element ps"
proof (induction ps)
  case (Cons x xs)
  then show ?case
    by (cases xs; cases x) (auto simp: piece_element_def piece_status_def)
qed simp

lemma elements_of_pieces:
  assumes "packed ps" "\<forall>x\<in>set (tl ps). fst x" "pieces_lens ps lens"
  shows "amd_elements (pieces_fi ps) lens (pieces_payload ps) = map piece_element ps"
proof -
  obtain x xs where ps: "ps = x # xs" using assms(1) by (cases ps) (auto simp: packed_def)
  obtain f l b where x: "x = (f, l, b)" by (cases x)
  show ?thesis
  proof (cases xs)
    case Nil
    then show ?thesis
      using assms(3) by (simp add: ps x amd_elements_def pieces_lens_def pieces_payload_def pieces_fi_def only_status_def piece_element_def piece_status_def)
  next
    case (Cons y ys)
    have ne: "lens \<noteq> []" using assms(3) by (auto simp: pieces_lens_def ps Cons)
    have l: "l" using assms(1) by (simp add: packed_def ps x Cons)
    have first: "first_status (pieces_fi ps) = piece_status f True"
      by (simp add: pieces_fi_def first_status_def piece_status_def ps x)
    have lst: "last_status (pieces_fi ps) = piece_status True (fst (snd (last xs)))"
      by (simp add: pieces_fi_def last_status_def piece_status_def ps x Cons)
    have "mark (pieces_fi ps) AM_PDU_MAP_SDU_FULL (map (snd \<circ> snd) xs) = map piece_element xs"
      by (rule mark_rest) (use assms(1,2) lst in \<open>auto simp: packed_def ps Cons\<close>)
    then show ?thesis
      using ne first l cut_pieces [OF assms(3)] by (simp add: amd_elements_def ps x Cons piece_element_def)
  qed
qed

section \<open>Adjacent pieces\<close>

text \<open>The next piece is a first one exactly when the piece before it is a last one.\<close>

fun framed :: "piece list \<Rightarrow> bool" where
  "framed (x # y # zs) = (fst (snd x) = fst y \<and> framed (y # zs))"
| "framed xs = True"

lemma framed_Cons: "framed (x # ys) \<longleftrightarrow> (ys \<noteq> [] \<longrightarrow> fst (snd x) = fst (hd ys)) \<and> framed ys"
  by (cases ys) simp_all

lemma framed_append:
  "framed (xs @ ys) \<longleftrightarrow> framed xs \<and> framed ys \<and> (xs \<noteq> [] \<and> ys \<noteq> [] \<longrightarrow> fst (snd (last xs)) = fst (hd ys))"
  by (induction xs) (auto simp: framed_Cons hd_append)

lemma framed_label: "ps \<noteq> [] \<Longrightarrow> framed (label f ps) \<and> label f ps \<noteq> [] \<and> fst (hd (label f ps)) = f \<and> fst (snd (last (label f ps)))"
proof (induction f ps rule: label.induct)
  case (3 f b c bs)
  then show ?case by (cases "label False (c # bs)") auto
qed simp_all

lemma framed_cut: "cut_into sdus qs \<Longrightarrow> framed qs \<and> (qs \<noteq> [] \<longrightarrow> fst (hd qs) \<and> fst (snd (last qs)))"
proof (induction rule: cut_into.induct)
  case (cut_sdu ps sdus qs)
  then show ?case using framed_label [of ps True] by (auto simp: framed_append last_append)
qed simp

lemma framed_tl: "framed ps \<Longrightarrow> \<forall>x\<in>set (butlast ps). fst (snd x) \<Longrightarrow> \<forall>x\<in>set (tl ps). fst x"
  by (induction ps rule: framed.induct) (auto split: if_splits)

lemma framed_concat: "framed (concat pss) \<Longrightarrow> ps \<in> set pss \<Longrightarrow> framed ps"
  by (induction pss) (auto simp: framed_append)

section \<open>The receiver of a sequence\<close>

text \<open>
  What the receiver gets: the grant, the sequence number and the element, one after the other.
\<close>

fun rx_items :: "(UlReportInfo \<times> u16 \<times> piece) list \<Rightarrow> rx_state \<Rightarrow> rx_state \<times> (u8 list \<times> UlReportInfo list) list" where
  "rx_items [] r = (r, [])"
| "rx_items ((g, sn, x) # xs) r =
     (let (r, o1) = rx_dfe (Some g) sn (piece_element x) r; (r, o2) = rx_items xs r in (r, o1 @ o2))"

lemma rx_items_append:
  "rx_items (xs @ ys) r = (let (r, o1) = rx_items xs r; (r, o2) = rx_items ys r in (r, o1 @ o2))"
  by (induction xs r rule: rx_items.induct) (simp_all add: Let_def split: prod.split)

lemma rx_dfes_items: "rx_dfes (Some g) sn (map piece_element ps) r = rx_items (map (\<lambda>x. (g, sn, x)) ps) r"
  by (induction ps arbitrary: r) (simp_all add: Let_def split: prod.split)

text \<open>A piece that does not end its SDU is followed by a piece of the next PDU.\<close>

fun linked :: "(UlReportInfo \<times> u16 \<times> piece) list \<Rightarrow> bool" where
  "linked (x # y # zs) = ((fst (snd (snd (snd x))) \<or> isSNEqual (fst (snd y)) (fst (snd x) + 1)) \<and> linked (y # zs))"
| "linked xs = True"

lemma linked_Cons: "linked (x # ys) \<longleftrightarrow>
    (ys \<noteq> [] \<longrightarrow> fst (snd (snd (snd x))) \<or> isSNEqual (fst (snd (hd ys))) (fst (snd x) + 1)) \<and> linked ys"
  by (cases ys) simp_all

lemma linked_append:
  "linked (xs @ ys) \<longleftrightarrow> linked xs \<and> linked ys \<and>
     (xs \<noteq> [] \<and> ys \<noteq> [] \<longrightarrow> fst (snd (snd (snd (last xs)))) \<or> isSNEqual (fst (snd (hd ys))) (fst (snd (last xs)) + 1))"
  by (induction xs) (auto simp: linked_Cons hd_append)

text \<open>What the layers above rely on.\<close>

definition grants_ok :: "UlReportInfo list \<Rightarrow> bool" where
  "grants_ok gs \<longleftrightarrow> length gs \<le> MAX_RLC_SEGMENTS_NUM \<and> (\<forall>g\<in>set gs. ur_rbNum g \<noteq> 0)"

lemma isSNEqual_mod: "isSNEqual x y \<longleftrightarrow> unat x mod 1024 = unat y mod 1024"
proof -
  have "unat (z AND 1023) = unat z mod 1024" for z :: u16
    using unat_and_mask [of z 10] by (simp add: mask_eq_exp_minus_1)
  then show ?thesis unfolding isSNEqual_def word_unat_eq_iff by simp
qed

lemma next_mod: "unat (n + 1 :: u16) mod 1024 = Suc (unat n) mod 1024"
proof -
  have "unat (n + 1) = Suc (unat n) mod 65536" by (simp add: unat_word_ariths)
  then show ?thesis by (simp add: mod_mod_cancel)
qed

lemma isSNEqual_Suc: "isSNEqual x n \<Longrightarrow> isSNEqual y (n + 1) \<Longrightarrow> isSNEqual y (x + 1)"
  unfolding isSNEqual_mod next_mod by (simp add: mod_Suc)

lemma isSNEqual_other: "isSNEqual y (n + 1) \<Longrightarrow> \<not> isSNEqual y n"
  unfolding isSNEqual_mod next_mod by (auto simp: mod_Suc)

lemma label_ne: "label f (b # bs) \<noteq> []" "[] \<noteq> label f (b # bs)"
  by (cases bs; simp)+

lemma grants_more: "grants_ok gs \<Longrightarrow> ur_rbNum g \<noteq> 0 \<Longrightarrow> grants_ok (more_grants (Some g) gs)"
  by (auto simp: grants_ok_def more_grants_def)

lemma grants_start: "ur_rbNum g \<noteq> 0 \<Longrightarrow> grants_ok (start_grants (Some g) gs)"
  by (simp add: grants_ok_def start_grants_def)

text \<open>The rest of an SDU completes what has been received of it.\<close>

lemma rx_rest:
  assumes "map (\<lambda>x. snd (snd x)) is = label False ps" "ps \<noteq> []" "linked is" "\<forall>x\<in>set is. ur_rbNum (fst x) \<noteq> 0"
    and "isSNEqual (fst (snd (hd is))) (n + 1)" "grants_ok gs"
  shows "\<exists>gs'. rx_items is (Some (n, part), gs) = ((None, []), [(part @ concat ps, gs')]) \<and> grants_ok gs'"
  using assms
proof (induction ps arbitrary: "is" n part gs)
  case (Cons b bs)
  obtain g sn x js where i: "is = (g, sn, x) # js" using Cons.prems(1) by (cases bs; cases "is") auto
  have sn: "isSNEqual sn (n + 1)" "\<not> isSNEqual sn n" using Cons.prems(5) isSNEqual_other by (simp_all add: i)
  have g: "grants_ok (more_grants (Some g) gs)" by (rule grants_more) (use Cons.prems(4,6) in \<open>simp_all add: i\<close>)
  show ?case
  proof (cases bs)
    case Nil
    then have "x = (False, True, b)" "js = []" using Cons.prems(1) by (simp_all add: i)
    then show ?thesis using sn g by (simp add: i Nil rx_dfe_def rx_next_def piece_element_def piece_status_def)
  next
    case (Cons c cs)
    have x: "x = (False, False, b)" "map (\<lambda>x. snd (snd x)) js = label False bs" using Cons.prems(1) by (simp_all add: i Cons)
    then have js: "js \<noteq> []" by (auto simp: Cons label_ne)
    have "linked js" "isSNEqual (fst (snd (hd js))) (sn + 1)" using Cons.prems(3) js by (simp_all add: i x linked_Cons)
    then obtain gs' where "rx_items js (Some (sn, part @ b), more_grants (Some g) gs) = ((None, []), [((part @ b) @ concat bs, gs')])" "grants_ok gs'"
      using Cons.IH [OF x(2), of sn "more_grants (Some g) gs" "part @ b"] Cons.prems(4) g by (auto simp: i Cons)
    then show ?thesis using sn by (simp add: i x rx_dfe_def rx_next_def piece_element_def piece_status_def)
  qed
qed simp

lemma rx_sdu:
  assumes "map (\<lambda>x. snd (snd x)) is = label True ps" "ps \<noteq> []" "linked is" "\<forall>x\<in>set is. ur_rbNum (fst x) \<noteq> 0"
  shows "\<exists>gs'. rx_items is (None, gs) = ((None, []), [(concat ps, gs')]) \<and> grants_ok gs'"
proof -
  obtain b bs where ps: "ps = b # bs" using assms(2) by (cases ps) auto
  obtain g sn x js where i: "is = (g, sn, x) # js" using assms(1) by (cases bs; cases "is") (auto simp: ps)
  have g: "grants_ok (start_grants (Some g) gs)" by (rule grants_start) (use assms(4) in \<open>simp add: i\<close>)
  show ?thesis
  proof (cases bs)
    case Nil
    then have "x = (True, True, b)" "js = []" using assms(1) by (simp_all add: i ps)
    then show ?thesis using g by (simp add: i ps Nil rx_dfe_def rx_first_def piece_element_def piece_status_def)
  next
    case (Cons c cs)
    have x: "x = (True, False, b)" "map (\<lambda>x. snd (snd x)) js = label False bs" using assms(1) by (simp_all add: i ps Cons)
    then have js: "js \<noteq> []" by (auto simp: Cons label_ne)
    have "linked js" "isSNEqual (fst (snd (hd js))) (sn + 1)" using assms(3) js by (simp_all add: i x linked_Cons)
    then obtain gs' where "rx_items js (Some (sn, b), start_grants (Some g) gs) = ((None, []), [(b @ concat bs, gs')])" "grants_ok gs'"
      using rx_rest [OF x(2), of sn "start_grants (Some g) gs" b] assms(4) g by (auto simp: i Cons)
    then show ?thesis by (simp add: i ps x rx_dfe_def rx_first_def piece_element_def piece_status_def)
  qed
qed

text \<open>A sequence of pieces delivers the SDUs they were cut from.\<close>

lemma rx_cut:
  assumes "cut_into sdus qs" "map (\<lambda>x. snd (snd x)) is = qs" "linked is" "\<forall>x\<in>set is. ur_rbNum (fst x) \<noteq> 0"
  shows "\<exists>os. rx_items is (None, []) = ((None, []), os) \<and> map fst os = sdus \<and> (\<forall>gs\<in>snd ` set os. grants_ok gs)"
  using assms
proof (induction arbitrary: "is" rule: cut_into.induct)
  case (cut_sdu ps sdus qs)
  obtain js ks where i: "is = js @ ks" "map (\<lambda>x. snd (snd x)) js = label True ps" "map (\<lambda>x. snd (snd x)) ks = qs"
    using cut_sdu.prems(1) by (auto simp: map_eq_append_conv)
  have "linked js" "linked ks" using cut_sdu.prems(2) by (simp_all add: i(1) linked_append)
  then obtain gs' os where "rx_items js (None, []) = ((None, []), [(concat ps, gs')])" "grants_ok gs'"
    "rx_items ks (None, []) = ((None, []), os)" "map fst os = sdus" "\<forall>gs\<in>snd ` set os. grants_ok gs"
    using rx_sdu [OF i(2) cut_sdu.hyps(1), of "[]"] cut_sdu.IH [OF i(3)] cut_sdu.prems(3) by (auto simp: i(1))
  then show ?case by (simp add: i(1) rx_items_append)
qed simp

section \<open>PDUs\<close>

text \<open>
  A received PDU: the grant it came in, its number, framing information, lengths and payload.
\<close>

type_synonym rx_pdu = "UlReportInfo \<times> u16 \<times> u8 \<times> u16 list \<times> u8 list"

fun rx_pdus :: "rx_pdu list \<Rightarrow> rx_state \<Rightarrow> rx_state \<times> (u8 list \<times> UlReportInfo list) list" where
  "rx_pdus [] r = (r, [])"
| "rx_pdus ((g, sn, fi, lens, payload) # xs) r =
     (let (r, o1) = rx_dfes (Some g) sn (amd_elements fi lens payload) r; (r, o2) = rx_pdus xs r in (r, o1 @ o2))"

text \<open>The PDU has these pieces.\<close>

fun made_of :: "rx_pdu \<Rightarrow> piece list \<Rightarrow> bool" where
  "made_of (g, sn, fi, lens, payload) ps \<longleftrightarrow> fi = pieces_fi ps \<and> pieces_lens ps lens \<and> payload = pieces_payload ps"

text \<open>
  The PDUs carry the SDUs: they have been cut into pieces, the pieces packed into PDUs, and these
  numbered.
\<close>

definition carries :: "rx_pdu list \<Rightarrow> u8 list list \<Rightarrow> bool" where
  "carries xs sdus \<longleftrightarrow> (\<exists>n pps. map fst pps = xs \<and> (\<forall>(x, ps)\<in>set pps. made_of x ps) \<and>
     in_sequence n (map (\<lambda>((g, sn, y), ps). (sn, ps)) pps) \<and> cut_into sdus (concat (map snd pps)))"

definition items_of :: "rx_pdu \<Rightarrow> piece list \<Rightarrow> (UlReportInfo \<times> u16 \<times> piece) list" where
  "items_of = (\<lambda>(g, sn, y) ps. map (\<lambda>x. (g, sn, x)) ps)"

lemma linked_pdu: "\<forall>x\<in>set (butlast ps). fst (snd x) \<Longrightarrow> linked (items_of x ps)"
proof (induction ps)
  case (Cons p ps)
  then show ?case by (cases ps; cases x) (auto simp: items_of_def)
qed (cases x; simp add: items_of_def)

lemma linked_items:
  "in_sequence n (map (\<lambda>((g, sn, y), ps). (sn, ps)) pps) \<Longrightarrow>
     linked (concat (map (\<lambda>(x, ps). items_of x ps) pps)) \<and>
     (pps \<noteq> [] \<longrightarrow> concat (map (\<lambda>(x, ps). items_of x ps) pps) \<noteq> [] \<and>
        isSNEqual (fst (snd (hd (concat (map (\<lambda>(x, ps). items_of x ps) pps))))) n)"
proof (induction pps arbitrary: n)
  case (Cons a pps)
  obtain g sn y ps where a: "a = ((g, sn, y), ps)" by (metis prod.exhaust)
  let ?r = "concat (map (\<lambda>(x, ps). items_of x ps) pps)"
  have q: "isSNEqual sn n" "packed ps" "in_sequence (n + 1) (map (\<lambda>((g, sn, y), ps). (sn, ps)) pps)" using Cons.prems by (simp_all add: a)
  have ps: "ps \<noteq> []" "linked (items_of (g, sn, y) ps)" using q(2) by (simp_all add: packed_def linked_pdu)
  have i: "items_of (g, sn, y) ps \<noteq> []" "fst (snd (hd (items_of (g, sn, y) ps))) = sn" "fst (snd (last (items_of (g, sn, y) ps))) = sn"
    using ps(1) by (simp_all add: items_of_def hd_map last_map)
  have "isSNEqual (fst (snd (hd ?r))) (sn + 1)" if "?r \<noteq> []"
    using Cons.IH [OF q(3)] that isSNEqual_Suc [OF q(1)] by auto
  then have "linked (items_of (g, sn, y) ps @ ?r)" using ps(2) Cons.IH [OF q(3)] i by (simp add: linked_append)
  then show ?case using i q(1) by (simp add: a)
qed simp

lemma items_pieces: "map (\<lambda>x. snd (snd x)) (concat (map (\<lambda>(x, ps). items_of x ps) pps)) = concat (map snd pps)"
  by (induction pps) (auto simp: items_of_def comp_def)

lemma rx_pdus_items:
  "\<forall>(x, ps)\<in>set pps. made_of x ps \<and> packed ps \<and> framed ps \<Longrightarrow>
    rx_pdus (map fst pps) r = rx_items (concat (map (\<lambda>(x, ps). items_of x ps) pps)) r"
proof (induction pps arbitrary: r)
  case (Cons a pps)
  obtain g sn fi lens pl ps where a: "a = ((g, sn, fi, lens, pl), ps)" by (metis prod.exhaust)
  have "packed ps" "framed ps" and m: "fi = pieces_fi ps" "pieces_lens ps lens" "pl = pieces_payload ps" using Cons.prems by (auto simp: a)
  then have "amd_elements fi lens pl = map piece_element ps"
    using elements_of_pieces [of ps lens] framed_tl [of ps] by (simp add: packed_def)
  then have "rx_dfes (Some g) sn (amd_elements fi lens pl) r = rx_items (items_of (g, sn, fi, lens, pl) ps) r"
    by (simp add: rx_dfes_items items_of_def)
  moreover have "rx_pdus (map fst pps) q = rx_items (concat (map (\<lambda>(x, ps). items_of x ps) pps)) q" for q
    by (rule Cons.IH) (use Cons.prems in \<open>auto simp: a\<close>)
  ultimately show ?case by (simp add: a rx_items_append)
qed simp

lemma in_sequence_packed: "in_sequence n xs \<Longrightarrow> \<forall>x\<in>set xs. packed (snd x)"
  by (induction xs arbitrary: n) auto

text \<open>The receiver delivers what the sender has cut.\<close>

lemma rx_pdus_carries:
  assumes "carries xs sdus" "\<forall>x\<in>set xs. ur_rbNum (fst x) \<noteq> 0"
  shows "\<exists>os. rx_pdus xs (None, []) = ((None, []), os) \<and> map fst os = sdus \<and> (\<forall>gs\<in>snd ` set os. grants_ok gs)"
proof -
  obtain n pps where p: "map fst pps = xs" "\<forall>(x, ps)\<in>set pps. made_of x ps"
    "in_sequence n (map (\<lambda>((g, sn, y), ps). (sn, ps)) pps)" "cut_into sdus (concat (map snd pps))"
    using assms(1) by (auto simp: carries_def)
  let ?is = "concat (map (\<lambda>(x, ps). items_of x ps) pps)"
  have "packed ps \<and> framed ps" if a: "(x, ps) \<in> set pps" for x ps
  proof -
    obtain g sn y where x: "x = (g, sn, y)" by (cases x)
    have "(sn, ps) \<in> set (map (\<lambda>((g, sn, y), ps). (sn, ps)) pps)" using imageI [OF a, of "\<lambda>((g, sn, y), ps). (sn, ps)"] by (simp add: x)
    moreover have "ps \<in> set (map snd pps)" using imageI [OF a, of snd] by simp
    ultimately show ?thesis using in_sequence_packed [OF p(3)] framed_concat [OF conjunct1 [OF framed_cut [OF p(4)]]] by force
  qed
  then have "\<forall>(x, ps)\<in>set pps. made_of x ps \<and> packed ps \<and> framed ps" using p(2) by blast
  then have r: "rx_pdus xs (None, []) = rx_items ?is (None, [])" by (simp only: p(1) [symmetric] rx_pdus_items)
  have "ur_rbNum (fst x) \<noteq> 0" if "x \<in> set ?is" for x using that assms(2) by (auto simp: p(1) [symmetric] items_of_def)
  then show ?thesis using rx_cut [OF p(4) items_pieces conjunct1 [OF linked_items [OF p(3)]]] r by auto
qed

end
