(* ===== verification/Uplink_Stream.thy ===== *)
theory Uplink_Stream
  imports Ulp_Worker Rlc_Stream
begin

text \<open>
  The uplink as a whole: a batch of PHY messages of any number of UEs goes through the queue of the
  worker, the MAC and the RLC.  The blocks of memory and the tables are abstracted to one receiver
  per bearer; when the RLC PDUs of the bearers carry SDUs, exactly these SDUs are delivered.
\<close>

section \<open>Messages\<close>

text \<open>A PHY message with one transport block, whose MAC PDU has one acknowledged mode PDU.\<close>

record uplink =
  um_head :: S_PhyHlMsgHead
  um_ind :: S_UlIndHead
  um_block :: S_RxUlschIndHeadPdu
  um_elements :: "(u8 \<times> u8 list) list"
  um_last :: "u8 \<times> u8 list"
  um_tail :: "u8 list"
  um_lcId :: u8
  um_poll :: u8
  um_fi :: u8
  um_sn :: u16
  um_lens :: "u16 list"
  um_payload :: "u8 list"

definition uplink_bytes :: "uplink \<Rightarrow> u8 list" where
  "uplink_bytes m = phy_message (um_head m) (um_ind m) (um_block m) (mac_pdu (um_elements m) (um_last m) @ um_tail m)"

abbreviation uplink_len :: "uplink \<Rightarrow> u16" where
  "uplink_len m \<equiv> of_nat (length (uplink_bytes m))"

definition uplink_ok :: "uplink \<Rightarrow> bool" where
  "uplink_ok m \<longleftrightarrow> mh_opc (um_head m) = 0x87 \<and> ih_numOfPDUs (um_ind m) = 1 \<and> hp_CRCFlag (um_block m) = 1 \<and>
     hp_bitLen (um_block m) = of_nat (8 * length (mac_pdu (um_elements m) (um_last m))) \<and>
     (\<forall>x\<in>set (um_elements m). element_ok x) \<and> last_ok (um_last m) \<and> length (um_elements m) < 17 \<and>
     filter (\<lambda>x. fst x \<le> 10) (um_elements m @ [um_last m]) =
       [(um_lcId m, amd_pdu (um_poll m) (um_fi m) (um_sn m) (um_lens m) (um_payload m))] \<and>
     (um_lcId m = 1 \<or> um_lcId m = 2) \<and> amd_fields (um_poll m) (um_fi m) (um_sn m) (um_lens m) \<and>
     sum_list (map unat (um_lens m)) \<le> length (um_payload m) \<and> hp_rbNum (um_block m) \<noteq> 0"

definition bearer :: "uplink \<Rightarrow> u16 \<times> u8" where
  "bearer m = (hp_RNTI (um_block m), um_lcId m)"

definition uplink_pdu :: "uplink \<Rightarrow> rx_pdu" where
  "uplink_pdu m = (block_grant (um_block m), um_sn m, um_fi m, um_lens m, um_payload m)"

section \<open>The receivers of all bearers\<close>

primrec uplink_rx :: "uplink list \<Rightarrow> (u16 \<times> u8 \<Rightarrow> rx_state) \<Rightarrow> (u16 \<times> u8 \<Rightarrow> rx_state) \<times> sdu_log" where
  "uplink_rx [] T = (T, [])"
| "uplink_rx (m # ms) T =
     (let (r, os) = rx_pdus [uplink_pdu m] (T (bearer m)); (T, L) = uplink_rx ms (T(bearer m := r))
      in (T, map (\<lambda>(bs, gs). (fst (bearer m), snd (bearer m), bs, gs)) os @ L))"

text \<open>The part of the log that belongs to a bearer.\<close>

definition sdus_of :: "u16 \<times> u8 \<Rightarrow> sdu_log \<Rightarrow> (u8 list \<times> UlReportInfo list) list" where
  "sdus_of b L = map (\<lambda>(r, lc, x). x) (filter (\<lambda>(r, lc, x). (r, lc) = b) L)"

lemma sdus_of_append [simp]: "sdus_of b (K @ L) = sdus_of b K @ sdus_of b L"
  by (simp add: sdus_of_def)

lemma sdus_of_tagged: "sdus_of b (map (\<lambda>(bs, gs). (fst c, snd c, bs, gs)) os) = (if b = c then os else [])"
  by (induction os) (auto simp: sdus_of_def)

lemma rx_pdus_append:
  "rx_pdus (xs @ ys) r = (let (r, o1) = rx_pdus xs r; (r, o2) = rx_pdus ys r in (r, o1 @ o2))"
  by (induction xs r rule: rx_pdus.induct) (simp_all add: Let_def split: prod.split)

text \<open>The bearers do not interfere: each gets its own messages, in order.\<close>

lemma uplink_rx_bearer:
  "uplink_rx ms T = (T', L) \<Longrightarrow> rx_pdus (map uplink_pdu (filter (\<lambda>m. bearer m = b) ms)) (T b) = (T' b, sdus_of b L)"
proof (induction ms arbitrary: T L)
  case (Cons m ms)
  obtain r os where r: "rx_pdus [uplink_pdu m] (T (bearer m)) = (r, os)" by fastforce
  obtain L' where L: "uplink_rx ms (T(bearer m := r)) = (T', L')" "L = map (\<lambda>(bs, gs). (fst (bearer m), snd (bearer m), bs, gs)) os @ L'"
    using Cons.prems r by (auto simp: Let_def split: prod.splits)
  show ?case
  proof (cases "bearer m = b")
    case True
    let ?ms = "map uplink_pdu (filter (\<lambda>m. bearer m = b) ms)"
    have "rx_pdus (uplink_pdu m # ?ms) (T b) = (case rx_pdus ?ms r of (q, o2) \<Rightarrow> (q, os @ o2))"
      using rx_pdus_append [of "[uplink_pdu m]" ?ms "T b"] r True by simp
    then show ?thesis using Cons.IH [OF L(1)] True by (simp add: L(2) sdus_of_tagged)
  next
    case False
    then show ?thesis using Cons.IH [OF L(1)] by (simp add: L(2) sdus_of_tagged)
  qed
qed (simp add: sdus_of_def)

section \<open>Messages in the queue\<close>

text \<open>A queued message: the address of its node, the copy of its bytes, and what it is.\<close>

type_synonym queued = "ptr \<times> ptr \<times> uplink"

definition entry_ok :: "ulp_state \<Rightarrow> queued \<Rightarrow> bool" where
  "entry_ok s = (\<lambda>(pn, b, m). us_heap s pn = Some (PhyObj \<lparr>ph_length = ucast (uplink_len m), ph_pBuffer = b\<rparr>) \<and>
     buffer s b (uplink_bytes m) \<and> pn \<notin> rlc_blocks s \<and> b \<notin> rlc_blocks s)"

definition queue_blocks :: "queued list \<Rightarrow> ptr list" where
  "queue_blocks qs = concat (map (\<lambda>(pn, b, m). [pn, b]) qs)"

definition queue_ok :: "ulp_state \<Rightarrow> queued list \<Rightarrow> bool" where
  "queue_ok s qs \<longleftrightarrow> gRecvdPhyDataList s = map fst qs \<and> (\<forall>q\<in>set qs. entry_ok s q) \<and> distinct (queue_blocks qs)"

lemma queue_blocks_simps [simp]: "queue_blocks [] = []" "queue_blocks ((pn, b, m) # qs) = pn # b # queue_blocks qs"
  "queue_blocks (qs @ rs) = queue_blocks qs @ queue_blocks rs"
  by (simp_all add: queue_blocks_def)

lemma buffer_own: "buffer s p bs \<Longrightarrow> p \<in> own s" "buffer s p bs \<Longrightarrow> us_heap s p = None"
  by (simp_all add: buffer_def own_raw)

lemma entry_own: "rrc_ok s \<Longrightarrow> entry_ok s (pn, b, m) \<Longrightarrow> pn \<in> own s \<and> b \<in> own s"
  using own_obj [of s pn] buffer_own(1) [of s b] by (auto simp: entry_ok_def)

lemma queue_own: "rrc_ok s \<Longrightarrow> \<forall>q\<in>set qs. entry_ok s q \<Longrightarrow> set (queue_blocks qs) \<subseteq> own s"
  by (induction qs) (auto dest: entry_own)

text \<open>The queue is not affected by what keeps everything outside the tables.\<close>

lemma kept_entry:
  assumes "kept_out X s s'" "rrc_ok s" "entry_ok s (pn, b, m)" "pn \<notin> X" "b \<notin> X"
  shows "entry_ok s' (pn, b, m)"
  using kept_out_buffer [OF assms(1), of b] kept_out_obj [OF assms(1), of pn, OF _ _ _ _ _ assms(4,2)] assms(3,5)
  by (auto simp: entry_ok_def)

section \<open>A batch is queued\<close>

primrec phy_batch :: "(ptr \<times> uplink) list \<Rightarrow> ulp_state \<Rightarrow> ulp_state option" where
  "phy_batch [] s = Some s"
| "phy_batch (x # xs) s = do { s \<leftarrow> PhyUlDataInd True s (fst x) (uplink_len (snd x)); phy_batch xs s }"

text \<open>Nothing has changed for the tables and for the buffers of the caller.\<close>

definition same_tables :: "ulp_state \<Rightarrow> ulp_state \<Rightarrow> bool" where
  "same_tables s s' \<longleftrightarrow> rlc_blocks s' = rlc_blocks s \<and> rlc_log s' = rlc_log s \<and> gMacUeContext s' = gMacUeContext s \<and>
     (\<forall>r. mac_grant s' r = mac_grant s r) \<and> (\<forall>r. \<forall>k<MAX_LC_ID. rx_of s' r k = rx_of s r k) \<and>
     (\<forall>x cs. buffer s x cs \<longrightarrow> buffer s' x cs)"

lemma same_tables_trans: "same_tables s t \<Longrightarrow> same_tables t u \<Longrightarrow> same_tables s u"
  by (simp add: same_tables_def)

lemma queued_tables:
  assumes "rlc_ok s" "mac_ready s" "phy_queued s s' bs pn b"
  shows "same_tables s s'"
  unfolding same_tables_def by (intro conjI allI impI queued_frame [OF assms]) assumption+

lemma uplink_nonempty: "uplink_bytes m \<noteq> []"
  by (simp add: uplink_bytes_def phy_message_def msg_head_def le32_def le16_def)

lemma queued_kept:
  assumes "rlc_ok s" "mac_ready s" "phy_queued s s' bs pn b" "entry_ok s q"
  shows "entry_ok s' q"
proof -
  obtain t where t: "eff {} {pn, b} [] s t" "s' = t\<lparr>gRecvdPhyDataList := gRecvdPhyDataList s @ [pn]\<rparr>"
    using assms(3) by (auto simp: phy_queued_def)
  obtain pq bq m where q: "q = (pq, bq, m)" by (cases q)
  have "us_heap t pq = us_heap s pq" using effD(5) [OF t(1), of pq] entry_own [OF rlc_okD(1) [OF assms(1)]] assms(4) by (simp add: q)
  then show ?thesis using assms(4) queued_frame(3,11) [OF assms(1-3)] by (simp add: entry_ok_def q t(2))
qed

lemma batch_run:
  assumes "rlc_ok s" "mac_ready s" "queue_ok s qs" "\<forall>(p, m)\<in>set pms. buffer s p (uplink_bytes m)" "spare (n + 2 * length pms) s"
  shows "\<exists>s' rs. phy_batch pms s = Some s' \<and> rlc_ok s' \<and> mac_ready s' \<and> queue_ok s' (qs @ rs) \<and> map (\<lambda>x. snd (snd x)) rs = map snd pms \<and>
    same_tables s s' \<and> own s' = own s \<union> set (queue_blocks rs) \<and> set (queue_blocks rs) \<inter> own s = {} \<and> spare n s'"
  using assms
proof (induction pms arbitrary: s qs)
  case Nil
  then show ?case by (intro exI [of _ s] exI [of _ "[]"]) (simp add: same_tables_def)
next
  case (Cons x pms)
  obtain p m where x: "x = (p, m)" by (cases x)
  note ok = rlc_okD(1) [OF Cons.prems(1)]
  have b: "buffer s p (uplink_bytes m)" using Cons.prems(4) by (simp add: x)
  have sp: "spare (n + 2 * length pms + 2) s" using Cons.prems(5) by simp
  obtain pn pb s1 where s1: "PhyUlDataInd True s p (uplink_len m) = Some s1" "phy_queued s s1 (uplink_bytes m) pn pb"
    by (rule phy_ind_spare [OF ok b uplink_nonempty sp])
  note fr = queued_frame [OF Cons.prems(1,2) s1(2)] and tb = queued_tables [OF Cons.prems(1,2) s1(2)]
  have new: "pn \<notin> own s" "pb \<notin> own s" "pn \<noteq> pb" "spare (n + 2 * length pms) s1"
    using s1(2) sp by (simp_all add: phy_queued_def)
  have "entry_ok s1 (pn, pb, m)"
    using s1(2) fr(3) new(1,2) rlc_blocks_own [OF Cons.prems(1)] by (auto simp: entry_ok_def phy_queued_def)
  moreover have "entry_ok s1 q" if "q \<in> set qs" for q
    using queued_kept [OF Cons.prems(1,2) s1(2)] that Cons.prems(3) by (simp add: queue_ok_def)
  moreover have "set (queue_blocks qs) \<subseteq> own s" using queue_own [OF ok] Cons.prems(3) by (simp add: queue_ok_def)
  ultimately have q1: "queue_ok s1 (qs @ [(pn, pb, m)])"
    using Cons.prems(3) new fr(7) by (auto simp: queue_ok_def)
  have "\<forall>(p, m)\<in>set pms. buffer s1 p (uplink_bytes m)" using Cons.prems(4) fr(11) by auto
  then obtain s' rs where s': "phy_batch pms s1 = Some s'" "rlc_ok s'" "mac_ready s'" "queue_ok s' ((qs @ [(pn, pb, m)]) @ rs)"
    "map (\<lambda>x. snd (snd x)) rs = map snd pms" "same_tables s1 s'" "own s' = own s1 \<union> set (queue_blocks rs)"
    "set (queue_blocks rs) \<inter> own s1 = {}" "spare n s'"
    using Cons.IH [OF fr(1,2) q1 _ new(4)] by blast
  have "own s' = own s \<union> set (queue_blocks ((pn, pb, m) # rs))" "set (queue_blocks ((pn, pb, m) # rs)) \<inter> own s = {}"
    using s'(7,8) new(1,2) fr(5) by auto
  then show ?case
    using s1(1) s' same_tables_trans [OF tb s'(6)] by (intro exI [of _ s'] exI [of _ "(pn, pb, m) # rs"]) (simp add: x)
qed

section \<open>The worker takes the batch\<close>

text \<open>One turn of the loop.\<close>

definition phy_turn :: "ulp_state \<Rightarrow> ulp_state option" where
  "phy_turn s = (case gRecvdPhyDataList s of
     [] \<Rightarrow> Some s
   | p # ps \<Rightarrow> do {
       n \<leftarrow> get_obj the_phy s p;
       s \<leftarrow> MacProcessPhyDataInd (s\<lparr>gRecvdPhyDataList := ps\<rparr>) (ph_pBuffer n) (ucast (ph_length n));
       n \<leftarrow> get_obj the_phy s p;
       s \<leftarrow> us_free s (ph_pBuffer n);
       us_free s p })"

lemma recv_turn: "gRecvdPhyDataList s = p # ps \<Longrightarrow> recv_phy_data s = Option.bind (phy_turn s) recv_phy_data"
  by (subst recv_phy_data.simps) (simp add: phy_turn_def)

text \<open>Memory for a message: free blocks, and room behind a partial SDU; and for a whole batch.\<close>

definition uplink_room :: "ulp_state \<Rightarrow> uplink \<Rightarrow> bool" where
  "uplink_room s m \<longleftrightarrow> spare (10 + 2 * length (um_lens m)) s \<and>
     (fst (rx_of s (fst (bearer m)) (unat (um_lcId m))) \<noteq> None \<longrightarrow>
        part_room s (partial_ptr s (fst (bearer m)) (unat (um_lcId m))) (length (um_payload m)))"

primrec memory_lasts :: "uplink list \<Rightarrow> ulp_state \<Rightarrow> bool" where
  "memory_lasts [] s = True"
| "memory_lasts (m # ms) s = (uplink_room s m \<and> (\<forall>s'. phy_turn s = Some s' \<longrightarrow> memory_lasts ms s'))"

lemma release_block:
  assumes ok: "rlc_ok s" and mac: "mac_ready s" and q: "q \<in> own s - rlc_blocks s" "q \<notin> set (gMacUeContext s)"
  obtains s' where "us_free s q = Some s'" "rlc_ok s'" "mac_ready s'" "gMacUeContext s' = gMacUeContext s"
    "\<And>r. mac_grant s' r = mac_grant s r" "\<And>r k. k < MAX_LC_ID \<Longrightarrow> rx_of s' r k = rx_of s r k" "rlc_log s' = rlc_log s"
    "own s' - rlc_blocks s' = own s - rlc_blocks s - {q}" "kept_out {q} s s'"
proof -
  note ok0 = rlc_okD(1) [OF ok]
  obtain s' where s': "us_free s q = Some s'" "eff {q} {} [] s s'" by (rule eff_free [OF ok0]) (use q in auto)
  have X: "{q} \<inter> rlc_blocks s = {}" using q by simp
  note r = rlc_outside [OF ok s'(2) X] and m = mac_stays [OF s'(2) ok0 mac]
  show thesis
    by (rule that [OF s'(1) r(1)]) (use kept_out_eff [OF ok s'(2) X] r m q effD(6,9) [OF s'(2)] in simp_all)
qed

text \<open>A turn takes the first message of the queue.\<close>

definition turn_done :: "ulp_state \<Rightarrow> ulp_state \<Rightarrow> ptr set \<Rightarrow> u16 \<times> u8 \<Rightarrow> rx_state \<Rightarrow> (u8 list \<times> UlReportInfo list) list \<Rightarrow> bool" where
  "turn_done s s' X b r os \<longleftrightarrow> rlc_ok s' \<and> mac_ready s' \<and> rx_of s' (fst b) (unat (snd b)) = r \<and>
     (\<forall>q. \<forall>k<MAX_LC_ID. (q, k) \<noteq> (fst b, unat (snd b)) \<longrightarrow> rx_of s' q k = rx_of s q k) \<and>
     rlc_log s' = rlc_log s @ map (\<lambda>(bs, gs). (fst b, snd b, bs, gs)) os \<and>
     own s' - rlc_blocks s' - set (gMacUeContext s') = own s - rlc_blocks s - set (gMacUeContext s) - X"

lemma turn_run:
  assumes ok: "rlc_ok s" and mac: "mac_ready s" and q: "queue_ok s ((pn, b, m) # qs)" and m: "uplink_ok m" "uplink_room s m"
    and rx: "rx_pdus [uplink_pdu m] (rx_of s (fst (bearer m)) (unat (um_lcId m))) = (r, os)" and out: "out_ok (um_lcId m) os"
  shows "\<exists>s'. phy_turn s = Some s' \<and> turn_done s s' {pn, b} (bearer m) r os \<and> queue_ok s' qs \<and>
    (\<forall>x cs. buffer s x cs \<and> x \<notin> rlc_blocks s \<and> x \<notin> {pn, b} \<longrightarrow> buffer s' x cs \<and> x \<notin> rlc_blocks s')"
proof -
  let ?s = "s\<lparr>gRecvdPhyDataList := map fst qs\<rparr>"
  have e: "entry_ok s (pn, b, m)" "gRecvdPhyDataList s = pn # map fst qs" "pn \<noteq> b" using q by (simp_all add: queue_ok_def)
  have n: "us_heap ?s pn = Some (PhyObj \<lparr>ph_length = ucast (uplink_len m), ph_pBuffer = b\<rparr>)"
    "buffer ?s b (uplink_bytes m)" "pn \<notin> rlc_blocks ?s" "b \<notin> rlc_blocks ?s" using e(1) by (simp_all add: entry_ok_def)
  have ok': "rlc_ok ?s" "mac_ready ?s" using ok mac by simp_all
  note uok = m(1) [unfolded uplink_ok_def]
  have "\<exists>s1. MacProcessPhyDataInd ?s b (uplink_len m) = Some s1 \<and>
      uplink_done ?s s1 (fst (bearer m)) (um_lcId m) (block_grant (um_block m)) r os \<and> buffer s1 b (uplink_bytes m)"
    unfolding uplink_bytes_def bearer_def fst_conv
    by (rule phy_message_run [OF ok' _ n(4), where fi = "um_fi m" and sn = "um_sn m" and lens = "um_lens m" and payload = "um_payload m" and pb = "um_poll m"])
      (use n(2) uok m(2) rx out in \<open>simp_all add: uplink_bytes_def uplink_room_def uplink_pdu_def bearer_def part_room_def Let_def split: prod.splits\<close>)
  then obtain s1 where s1: "MacProcessPhyDataInd ?s b (uplink_len m) = Some s1"
    "uplink_done ?s s1 (fst (bearer m)) (um_lcId m) (block_grant (um_block m)) r os" "buffer s1 b (uplink_bytes m)" by blast
  have d: "rlc_ok s1" "mac_ready s1" "kept_out {} ?s s1" using s1(2) by (simp_all add: uplink_done_def)
  have kept: "entry_ok t q" if "kept_out {} ?s t" "entry_ok ?s q" for t q
    using kept_entry [OF that(1) rlc_okD(1) [OF ok'(1)]] that(2) by (cases q) simp
  have e1: "entry_ok s1 (pn, b, m)" by (rule kept [OF d(3)]) (use n in \<open>simp add: entry_ok_def\<close>)
  have nm: "x \<notin> set (gMacUeContext t)" if "mac_ready t" "\<forall>c. us_heap t x \<noteq> Some (MacObj c)" for t x
    using that by (auto simp: mac_ready_def)
  have h1: "us_heap s1 pn = Some (PhyObj \<lparr>ph_length = ucast (uplink_len m), ph_pBuffer = b\<rparr>)" "us_heap s1 b = None"
    using e1 buffer_own(2) by (auto simp: entry_ok_def)
  have o1: "b \<in> own s1 - rlc_blocks s1" "pn \<in> own s1 - rlc_blocks s1"
    using entry_own [OF rlc_okD(1) [OF d(1)] e1] e1 by (auto simp: entry_ok_def)
  obtain s2 where s2: "us_free s1 b = Some s2" "rlc_ok s2" "mac_ready s2" "gMacUeContext s2 = gMacUeContext s1"
    "\<And>r k. k < MAX_LC_ID \<Longrightarrow> rx_of s2 r k = rx_of s1 r k" "rlc_log s2 = rlc_log s1"
    "own s2 - rlc_blocks s2 = own s1 - rlc_blocks s1 - {b}" "kept_out {b} s1 s2"
    by (rule release_block [OF d(1,2) o1(1)]) (use h1(2) nm [OF d(2)] in simp_all)
  have o2: "pn \<in> own s2 - rlc_blocks s2" "pn \<notin> set (gMacUeContext s2)"
    using s2(4,7) o1(2) e(3) h1(1) nm [OF d(2)] by auto
  obtain s3 where s3: "us_free s2 pn = Some s3" "rlc_ok s3" "mac_ready s3" "gMacUeContext s3 = gMacUeContext s2"
    "\<And>r k. k < MAX_LC_ID \<Longrightarrow> rx_of s3 r k = rx_of s2 r k" "rlc_log s3 = rlc_log s2"
    "own s3 - rlc_blocks s3 = own s2 - rlc_blocks s2 - {pn}" "kept_out {pn} s2 s3"
    by (rule release_block [OF s2(2,3) o2]) simp_all
  have k12: "kept_out {b} ?s s2" by (rule kept_out_trans [OF d(3) s2(8)]) simp
  have k: "kept_out {pn, b} ?s s3" by (rule kept_out_trans [OF k12 s3(8)]) auto
  have run: "phy_turn s = Some s3"
    using e(2) n(1) s1(1) h1(1) s2(1) s3(1) by (simp add: phy_turn_def get_obj_def the_phy_def)
  have "queue_ok s3 qs"
  proof -
    have "entry_ok s3 (pq, bq, mq)" if "(pq, bq, mq) \<in> set qs" for pq bq mq
    proof -
      have "entry_ok ?s (pq, bq, mq)" using q that by (auto simp: queue_ok_def entry_ok_def)
      moreover have "{pq, bq} \<inter> {pn, b} = {}" using q that by (force simp: queue_ok_def queue_blocks_def)
      ultimately show ?thesis by (intro kept_entry [OF k rlc_okD(1) [OF ok'(1)]]) auto
    qed
    moreover have "gRecvdPhyDataList s3 = map fst qs" using k by (simp add: kept_out_def)
    ultimately show ?thesis using q by (auto simp: queue_ok_def)
  qed
  moreover have "turn_done s s3 {pn, b} (bearer m) r os"
  proof -
    have lc: "unat (um_lcId m) < MAX_LC_ID" using uok by auto
    have "own s3 - rlc_blocks s3 - set (gMacUeContext s3) = own s1 - rlc_blocks s1 - set (gMacUeContext s1) - {pn, b}"
      using s2(4,7) s3(4,7) by auto
    then show ?thesis
      using s1(2) s2(5,6) s3(2,3,5,6) lc unfolding turn_done_def uplink_done_def by (simp add: bearer_def)
  qed
  moreover have "buffer s3 x cs \<and> x \<notin> rlc_blocks s3" if "buffer s x cs" "x \<notin> rlc_blocks s" "x \<notin> {pn, b}" for x cs
    using kept_out_buffer [OF k, of x cs] that by simp
  ultimately show ?thesis using run by blast
qed

text \<open>The whole queue.\<close>

definition batch_done :: "ulp_state \<Rightarrow> ulp_state \<Rightarrow> ptr set \<Rightarrow> (u16 \<times> u8 \<Rightarrow> rx_state) \<Rightarrow> sdu_log \<Rightarrow> bool" where
  "batch_done s s' X T L \<longleftrightarrow> rlc_ok s' \<and> mac_ready s' \<and> gRecvdPhyDataList s' = [] \<and>
     (\<forall>b. unat (snd b) < MAX_LC_ID \<longrightarrow> rx_of s' (fst b) (unat (snd b)) = T b) \<and> rlc_log s' = rlc_log s @ L \<and>
     own s' - rlc_blocks s' - set (gMacUeContext s') = own s - rlc_blocks s - set (gMacUeContext s) - X \<and>
     (\<forall>x cs. buffer s x cs \<and> x \<notin> rlc_blocks s \<and> x \<notin> X \<longrightarrow> buffer s' x cs \<and> x \<notin> rlc_blocks s')"

lemma unat_8_eq: "unat (a :: u8) = unat b \<longleftrightarrow> a = b"
  by (simp add: word_unat_eq_iff)

lemma drain_run:
  assumes "rlc_ok s" "mac_ready s" "queue_ok s qs" "\<forall>q\<in>set qs. uplink_ok (snd (snd q))"
    and "memory_lasts (map (\<lambda>q. snd (snd q)) qs) s" "uplink_rx (map (\<lambda>q. snd (snd q)) qs) T = (T', L)"
    and "\<forall>b. unat (snd b) < MAX_LC_ID \<longrightarrow> rx_of s (fst b) (unat (snd b)) = T b"
    and "\<forall>(r, lc, bs, gs)\<in>set L. out_ok lc [(bs, gs)]"
  shows "\<exists>s'. recv_phy_data s = Some s' \<and> batch_done s s' (set (queue_blocks qs)) T' L"
  using assms
proof (induction qs arbitrary: s T L)
  case Nil
  then have "recv_phy_data s = Some s" by (intro recv_empty) (simp add: queue_ok_def)
  then show ?case using Nil by (simp add: batch_done_def queue_ok_def)
next
  case (Cons q qs)
  obtain pn b m where q: "q = (pn, b, m)" by (cases q)
  have m: "uplink_ok m" "uplink_room s m" using Cons.prems(4,5) by (simp_all add: q)
  have lc: "unat (um_lcId m) < MAX_LC_ID" using m(1) by (auto simp: uplink_ok_def)
  have qk: "queue_ok s ((pn, b, m) # qs)" using Cons.prems(3) by (simp add: q)
  obtain r os where r: "rx_pdus [uplink_pdu m] (T (bearer m)) = (r, os)" by fastforce
  obtain L' where L: "uplink_rx (map (\<lambda>q. snd (snd q)) qs) (T(bearer m := r)) = (T', L')"
    "L = map (\<lambda>(bs, gs). (fst (bearer m), snd (bearer m), bs, gs)) os @ L'"
    using Cons.prems(6) r by (auto simp: q Let_def split: prod.splits)
  have "rx_of s (fst (bearer m)) (unat (um_lcId m)) = T (bearer m)"
    using Cons.prems(7) lc by (simp add: bearer_def)
  then have rx: "rx_pdus [uplink_pdu m] (rx_of s (fst (bearer m)) (unat (um_lcId m))) = (r, os)" using r by simp
  have "out_ok (um_lcId m) [(bs, gs)]" if "(bs, gs) \<in> set os" for bs gs
  proof -
    have "(fst (bearer m), um_lcId m, bs, gs) \<in> set L" using that by (force simp: L(2) bearer_def)
    with Cons.prems(8) show ?thesis by blast
  qed
  then have out: "out_ok (um_lcId m) os" by (fastforce simp: out_ok_def)
  obtain s1 where s1: "phy_turn s = Some s1" "turn_done s s1 {pn, b} (bearer m) r os" "queue_ok s1 qs"
    "\<And>x cs. buffer s x cs \<Longrightarrow> x \<notin> rlc_blocks s \<Longrightarrow> x \<notin> {pn, b} \<Longrightarrow> buffer s1 x cs \<and> x \<notin> rlc_blocks s1"
    using turn_run [OF Cons.prems(1,2) qk m rx out] by blast
  have ok1: "rlc_ok s1" "mac_ready s1" using s1(2) by (simp_all add: turn_done_def)
  have T1: "\<forall>c. unat (snd c) < MAX_LC_ID \<longrightarrow> rx_of s1 (fst c) (unat (snd c)) = (T(bearer m := r)) c"
    using s1(2) Cons.prems(7) by (auto simp: turn_done_def unat_8_eq prod_eq_iff)
  obtain s' where s': "recv_phy_data s1 = Some s'" "batch_done s1 s' (set (queue_blocks qs)) T' L'"
    using Cons.IH [OF ok1 s1(3) _ _ L(1) T1] Cons.prems(4,5,8) s1(1) by (auto simp: q L(2))
  have "recv_phy_data s = Some s'"
    using recv_turn [of s pn "map fst qs"] qk s1(1) s'(1) by (simp add: queue_ok_def)
  moreover have "buffer s' x cs \<and> x \<notin> rlc_blocks s'"
    if "buffer s x cs" "x \<notin> rlc_blocks s" "x \<notin> set (queue_blocks (q # qs))" for x cs
  proof -
    have "x \<notin> {pn, b}" "x \<notin> set (queue_blocks qs)" using that(3) by (simp_all add: q)
    then show ?thesis using s1(4) [OF that(1,2)] s'(2) unfolding batch_done_def by blast
  qed
  then have "batch_done s s' (set (queue_blocks (q # qs))) T' L"
    using s'(2) s1(2) unfolding batch_done_def turn_done_def by (auto simp: q L(2))
  ultimately show ?case by blast
qed

section \<open>The streams are delivered\<close>

text \<open>What the bearers carry is what the abstract receivers deliver.\<close>

lemma uplink_rx_streams:
  assumes "uplink_rx ms (\<lambda>_. (None, [])) = (T, L)" "\<forall>m\<in>set ms. uplink_ok m"
    and "\<forall>b. carries (map uplink_pdu (filter (\<lambda>m. bearer m = b) ms)) (sdus b)" "\<forall>b. \<forall>x\<in>set (sdus b). deliverable (snd b) x"
  shows "T b = (None, [])" "map fst (sdus_of b L) = sdus b" "\<forall>(r, lc, bs, gs)\<in>set L. out_ok lc [(bs, gs)]"
proof -
  have r: "T c = (None, []) \<and> map fst (sdus_of c L) = sdus c \<and> (\<forall>gs\<in>snd ` set (sdus_of c L). grants_ok gs)" for c
  proof -
    have "\<forall>x\<in>set (map uplink_pdu (filter (\<lambda>m. bearer m = c) ms)). ur_rbNum (fst x) \<noteq> 0"
      using assms(2) by (auto simp: uplink_pdu_def uplink_ok_def block_grant_def)
    from rx_pdus_carries [OF assms(3) [rule_format] this] show ?thesis
      using uplink_rx_bearer [OF assms(1), of c] by auto
  qed
  then show "T b = (None, [])" "map fst (sdus_of b L) = sdus b" by blast+
  have "out_ok lc [(bs, gs)]" if "(r, lc, bs, gs) \<in> set L" for r lc bs gs
  proof -
    have a: "(bs, gs) \<in> set (sdus_of (r, lc) L)" using that by (force simp: sdus_of_def)
    have "bs \<in> set (map fst (sdus_of (r, lc) L))" using imageI [OF a, of fst] by simp
    then have "bs \<in> set (sdus (r, lc))" using r by simp
    moreover have "grants_ok gs" using r [of "(r, lc)"] imageI [OF a, of snd] unfolding snd_conv by blast
    ultimately show ?thesis using assms(4) by (auto simp: out_ok_def grants_ok_def)
  qed
  then show "\<forall>(r, lc, bs, gs)\<in>set L. out_ok lc [(bs, gs)]" by blast
qed

text \<open>
  C1. Every UE gets its data through. A batch of PHY messages of any number of UEs, in any order, is
  handed to the running worker. On every bearer their RLC PDUs carry a sequence of SDUs: each SDU is cut
  into pieces, the pieces are packed, across SDUs, into PDUs with consecutive numbers. Then, as long as
  memory lasts, the queue takes the whole batch, the next period of the worker processes it without
  undefined behaviour, and on every bearer exactly its SDUs are delivered, complete, once and in order,
  whatever the other UEs sent in between; no receiver is left with a part of an SDU, the queue is empty,
  the buffers of the PHY are untouched and outside the tables no block is gained or lost.
\<close>

theorem uplink_streams_delivered:
  assumes "rlc_ok s" "mac_ready s" "gRecvdPhyDataList s = []" "\<forall>r. \<forall>k<MAX_LC_ID. rx_of s r k = (None, [])"
    and "\<forall>(p, m)\<in>set pms. uplink_ok m \<and> buffer s p (uplink_bytes m) \<and> p \<notin> rlc_blocks s"
    and "\<forall>b. carries (map uplink_pdu (filter (\<lambda>m. bearer m = b) (map snd pms))) (sdus b)"
    and "\<forall>b. \<forall>x\<in>set (sdus b). deliverable (snd b) x"
    and "spare (2 * length pms) s" "\<forall>s1. phy_batch pms s = Some s1 \<longrightarrow> memory_lasts (map snd pms) s1"
  shows "\<exists>s1 s' L. phy_batch pms s = Some s1 \<and> UlpRecvAndHandlePhyData s1 = Some s' \<and> rlc_ok s' \<and> mac_ready s' \<and>
    gRecvdPhyDataList s' = [] \<and> rlc_log s' = rlc_log s @ L \<and> (\<forall>b. map fst (sdus_of b L) = sdus b) \<and>
    (\<forall>r. \<forall>k<MAX_LC_ID. rx_of s' r k = (None, [])) \<and> (\<forall>(p, m)\<in>set pms. buffer s' p (uplink_bytes m)) \<and>
    own s' - rlc_blocks s' - set (gMacUeContext s') = own s - rlc_blocks s - set (gMacUeContext s)"
proof -
  have q0: "queue_ok s []" using assms(3) by (simp add: queue_ok_def)
  have bf: "\<forall>(p, m)\<in>set pms. buffer s p (uplink_bytes m)" "spare (0 + 2 * length pms) s" using assms(5,8) by auto
  obtain s1 qs where s1: "phy_batch pms s = Some s1" "rlc_ok s1" "mac_ready s1" "queue_ok s1 ([] @ qs)"
    "map (\<lambda>x. snd (snd x)) qs = map snd pms" "same_tables s s1" "own s1 = own s \<union> set (queue_blocks qs)"
    "set (queue_blocks qs) \<inter> own s = {}"
    using batch_run [OF assms(1,2) q0 bf] by blast
  obtain T L where TL: "uplink_rx (map snd pms) (\<lambda>_. (None, [])) = (T, L)" by fastforce
  have um: "\<forall>m\<in>set (map snd pms). uplink_ok m" using assms(5) by auto
  note st = uplink_rx_streams [OF TL um assms(6,7)]
  have "\<forall>m\<in>set (map (\<lambda>x. snd (snd x)) qs). uplink_ok m" unfolding s1(5) by (rule um)
  then have uq: "\<forall>q\<in>set qs. uplink_ok (snd (snd q))" by simp
  have T1: "\<forall>b. unat (snd b) < MAX_LC_ID \<longrightarrow> rx_of s1 (fst b) (unat (snd b)) = (None, [])"
    using assms(4) s1(6) by (simp add: same_tables_def)
  have q1: "queue_ok s1 qs" using s1(4) by simp
  have lasts: "memory_lasts (map (\<lambda>x. snd (snd x)) qs) s1" unfolding s1(5) using assms(9) s1(1) by blast
  obtain s' where s': "recv_phy_data s1 = Some s'" "batch_done s1 s' (set (queue_blocks qs)) T L"
    using drain_run [OF s1(2,3) q1 uq lasts _ T1 st(3)] TL unfolding s1(5) by blast
  have "UlpRecvAndHandlePhyData s1 = Some s'"
    using s'(1) recv_empty [of s1] by (simp add: UlpRecvAndHandlePhyData_def)
  moreover have "rx_of s' r k = (None, [])" if "k < MAX_LC_ID" for r k
  proof -
    have "unat (of_nat k :: u8) = k" using that by (intro unat_of_nat_small) simp
    then show ?thesis using s'(2) that st(1) [of "(r, of_nat k)"] unfolding batch_done_def by (metis fst_conv snd_conv)
  qed
  moreover have "buffer s' p (uplink_bytes m)" if "(p, m) \<in> set pms" for p m
  proof -
    have p: "buffer s p (uplink_bytes m)" "p \<notin> rlc_blocks s" using assms(5) that by auto
    then have "p \<notin> set (queue_blocks qs)" "buffer s1 p (uplink_bytes m)" "p \<notin> rlc_blocks s1"
      using s1(6,8) buffer_own(1) [OF p(1)] by (auto simp: same_tables_def)
    then show ?thesis using s'(2) by (simp add: batch_done_def)
  qed
  moreover have "own s' - rlc_blocks s' - set (gMacUeContext s') = own s - rlc_blocks s - set (gMacUeContext s)"
    using s'(2) s1(6-8) by (auto simp: batch_done_def same_tables_def)
  moreover have "rlc_log s' = rlc_log s @ L" "rlc_ok s'" "mac_ready s'" "gRecvdPhyDataList s' = []"
    using s'(2) s1(6) by (simp_all add: batch_done_def same_tables_def)
  ultimately show ?thesis using s1(1) st(2) by (intro exI [of _ s1] exI [of _ s'] exI [of _ L]) blast
qed

text \<open>One UE sends two SDUs in one PDU, next to a buffer report.\<close>

definition demo_uplink :: uplink where
  "demo_uplink = \<lparr>um_head = some_head, um_ind = some_ind, um_block = some_block\<lparr>hp_bitLen := 80\<rparr>, um_elements = [(29, [0x41])],
     um_last = (2, amd_pdu 0 0 5 [2] [10, 11, 12]), um_tail = [], um_lcId = 2, um_poll = 0, um_fi = 0, um_sn = 5, um_lens = [2],
     um_payload = [10, 11, 12]\<rparr>"

definition demo_sdus :: "u16 \<times> u8 \<Rightarrow> u8 list list" where
  "demo_sdus b = (if b = (61, 2) then [[10, 11], [12]] else [])"

lemma demo_uplink_ok: "uplink_ok demo_uplink" "length (uplink_bytes demo_uplink) = 74"
proof -
  have n: "length (amd_pdu 0 0 5 [2] [10, 11, 12]) = 7" by (simp add: amd_pdu_length)
  then have m: "length (mac_pdu [(29, [0x41])] (2, amd_pdu 0 0 5 [2] [10, 11, 12])) = 10"
    by (simp add: mac_pdu_def mac_header_def subheader_def)
  then show "length (uplink_bytes demo_uplink) = 74" by (simp add: uplink_bytes_def demo_uplink_def phy_message_def)
  show "uplink_ok demo_uplink"
    using n m by (auto simp: uplink_ok_def demo_uplink_def element_ok_def last_ok_def sdu_element_def ce_length_def amd_fields_def)
qed

lemma demo_carries: "carries (map uplink_pdu (filter (\<lambda>m. bearer m = b) [demo_uplink])) (demo_sdus b)"
proof -
  have b: "bearer demo_uplink = (61, 2)" by (simp add: bearer_def demo_uplink_def)
  have c: "cut_into [[10, 11], [12]] [(True, True, [10, 11]), (True, True, [12])]"
    using cut_sdu [of "[[10, 11]]", OF _ cut_sdu [of "[[12]]", OF _ cut_none]] by simp
  let ?ps = "[(True, True, [10, 11]), (True, True, [12 :: u8])]"
  have "carries [uplink_pdu demo_uplink] [[10, 11], [12]]"
    unfolding carries_def
    by (intro exI [of _ 5] exI [of _ "[(uplink_pdu demo_uplink, ?ps)]"])
      (use c in \<open>simp add: uplink_pdu_def demo_uplink_def pieces_fi_def pieces_lens_def pieces_payload_def packed_def isSNEqual_def\<close>)
  moreover have "carries [] []" unfolding carries_def by (intro exI [of _ 0] exI [of _ "[]"]) (simp add: cut_none)
  ultimately show ?thesis using b by (auto simp: demo_sdus_def)
qed

theorem uplink_streams_delivered_witness:
  "case with_buffer (uplink_bytes demo_uplink) idle_state of (p, s) \<Rightarrow>
     \<exists>s1 s' L. phy_batch [(p, demo_uplink)] s = Some s1 \<and> UlpRecvAndHandlePhyData s1 = Some s' \<and> rlc_ok s' \<and>
       map fst (sdus_of (61, 2) L) = [[10, 11], [12]] \<and> rlc_log s' = L \<and>
       own s' - rlc_blocks s' - set (gMacUeContext s') = own s - rlc_blocks s - set (gMacUeContext s)"
proof -
  let ?m = demo_uplink
  obtain p s where s: "with_buffer (uplink_bytes ?m) idle_state = (p, s)" "buffer s p (uplink_bytes ?m)" "spare 15 s" "rlc_ok s" "mac_ready s"
    "rlc_blocks s = {}" "\<And>r k. rx_of s r k = (None, [])" "\<And>r. mac_grant s r = None" "rlc_log s = []" "own s = {p}"
    by (rule idle_rlc [of "uplink_bytes ?m"]) (simp_all add: demo_uplink_ok(2))
  have q: "gRecvdPhyDataList s = []" by (rule with_buffer_queue [OF s(1)])
  have b: "\<forall>(p, m)\<in>set [(p, ?m)]. buffer s p (uplink_bytes m)" using s(2) by simp
  have sp: "spare (13 + 2 * length [(p, ?m)]) s" using s(3) by simp
  have lasts: "memory_lasts (map snd [(p, ?m)]) s1" if "phy_batch [(p, ?m)] s = Some s1" for s1
  proof -
    have "queue_ok s []" using q by (simp add: queue_ok_def)
    then obtain t where t: "phy_batch [(p, ?m)] s = Some t" "same_tables s t" "spare 13 t"
      using batch_run [OF s(4,5) _ b sp] by blast
    have "rx_of t 61 2 = (None, [])" using t(2) s(7) by (simp add: same_tables_def)
    then have "uplink_room t ?m" using spare_le [OF t(3), of 12] by (simp add: uplink_room_def bearer_def demo_uplink_def)
    then show ?thesis using that t(1) by simp
  qed
  have "\<forall>b. \<forall>x\<in>set (demo_sdus b). deliverable (snd b) x" by (auto simp: demo_sdus_def deliverable_def)
  then obtain s1 s' L where "phy_batch [(p, ?m)] s = Some s1" "UlpRecvAndHandlePhyData s1 = Some s'" "rlc_ok s'"
    "rlc_log s' = rlc_log s @ L" "\<forall>b. map fst (sdus_of b L) = demo_sdus b"
    "own s' - rlc_blocks s' - set (gMacUeContext s') = own s - rlc_blocks s - set (gMacUeContext s)"
    using uplink_streams_delivered [OF s(4,5) q, of "[(p, ?m)]" demo_sdus] demo_carries demo_uplink_ok(1) s(2,6,7) spare_le [OF s(3), of 2] lasts
    by auto
  then show ?thesis using s(1,9) by (auto simp: demo_sdus_def)
qed

end
