(* ===== verification/Ulp_System.thy ===== *)
theory Ulp_System
  imports Ulp_Worker Res_Cleaner Lte_Config Log_Text
begin

text \<open>
  The start of the layers and their clock (\<open>ulp/src/lteUlpMgr.c\<close>), the counters of what is
  in use and the report file (\<open>ulp/src/lteKpi.c\<close>).
\<close>

section \<open>The tasks\<close>

text \<open>
  The flags and limits of the worker, the cleaner and the report task, and the counter of the latter.
\<close>

record ulp_tasks =
  gUlpWorkerInitilized :: bool
  gMaxRrcCtxIdleCount :: u32
  gIntializedFlag :: bool
  gMaxIdleCount :: u32
  gKpiNotifyCount :: int
  kpi_count :: int

definition static_tasks :: ulp_tasks where
  "static_tasks = \<lparr>gUlpWorkerInitilized = False, gMaxRrcCtxIdleCount = 200, gIntializedFlag = False, gMaxIdleCount = 10000,
     gKpiNotifyCount = 1, kpi_count = 0\<rparr>"

abbreviation (input) KPI_REPORT_FILE :: u32 where "KPI_REPORT_FILE \<equiv> 1"
abbreviation (input) KPI_REPORT_DETAIL_FILE :: u32 where "KPI_REPORT_DETAIL_FILE \<equiv> 2"

text \<open>
  What the layers' starting functions keep for the tasks; the threads, sockets and files are left out.
\<close>

definition start_kpi :: "LteConfig \<Rightarrow> ulp_tasks \<Rightarrow> ulp_tasks option" where
  "start_kpi cfg t =
     (if kc_reportType (cf_kpiConfig cfg) = KPI_REPORT_FILE \<or> kc_reportType (cf_kpiConfig cfg) = KPI_REPORT_DETAIL_FILE
      then do { n \<leftarrow> kpi_notify_count cfg; Some (t\<lparr>gKpiNotifyCount := n\<rparr>) } else Some t)"

definition InitUlpWorker :: "bool \<Rightarrow> LteConfig \<Rightarrow> ulp_state \<times> ulp_tasks \<Rightarrow> (ulp_state \<times> ulp_tasks) option" where
  "InitUlpWorker startUlpWorkerFlag cfg = (\<lambda>(s, t).
     if startUlpWorkerFlag then do {
       n \<leftarrow> worker_limit cfg;
       Some (s\<lparr>gRecvdPhyDataList := []\<rparr>, t\<lparr>gUlpWorkerInitilized := True, gMaxRrcCtxIdleCount := n\<rparr>) }
     else Some (s, t))"

definition InitResCleaner :: "bool \<Rightarrow> LteConfig \<Rightarrow> ulp_tasks \<Rightarrow> ulp_tasks" where
  "InitResCleaner startResCleanerFlag cfg t =
     (if startResCleanerFlag then t\<lparr>gIntializedFlag := True, gMaxIdleCount := cleaner_limit cfg (gMaxIdleCount t)\<rparr> else t)"

definition InitUlpLayer :: "bool \<Rightarrow> bool \<Rightarrow> LteConfig \<Rightarrow> ulp_state \<times> ulp_tasks \<Rightarrow> (ulp_state \<times> ulp_tasks) option" where
  "InitUlpLayer startUlpWorkerFlag startResCleanerFlag cfg = (\<lambda>(s, t). do {
     s \<leftarrow> Some (kpi KpiInit s);
     t \<leftarrow> start_kpi cfg t;
     s \<leftarrow> Some (s\<lparr>us_mem := InitMemPool (us_mem s)\<rparr>);
     s \<leftarrow> Some (s\<lparr>us_bits := Asn1Init (us_bits s)\<rparr>);
     s \<leftarrow> Some (InitRrcLayer (InitRlcLayer (InitMacLayer s)));
     (s, t) \<leftarrow> InitUlpWorker startUlpWorkerFlag cfg (s, t);
     Some (s, InitResCleaner startResCleanerFlag cfg t) })"

text \<open>The tick: whether the worker, the cleaner and the report task get their events.\<close>

definition UlpOneMilliSecondIsr :: "ulp_tasks \<Rightarrow> ulp_tasks \<times> bool \<times> bool \<times> bool" where
  "UlpOneMilliSecondIsr t = (case NotifyKpi (gKpiNotifyCount t) (kpi_count t) of (n, wake) \<Rightarrow>
     (t\<lparr>kpi_count := n\<rparr>, gUlpWorkerInitilized t, gIntializedFlag t, wake))"

section \<open>The layers are ready\<close>

text \<open>A program that has not used its memory yet.\<close>

definition fresh_state :: "ulp_state \<Rightarrow> bool" where
  "fresh_state s \<longleftrightarrow> us_heap s = Map.empty \<and> mp_nodes (us_mem s) = Map.empty \<and> length (mp_pools (us_mem s)) = 10 \<and>
     cfg_ok (mp_cfg (us_mem s)) \<and> gRecvdPhyDataList s = []"

lemma fresh_tables:
  assumes "us_heap s = Map.empty" "mem_inv (us_mem s)" "gMacUeContext s = []" "gRlcUeContextList s = []"
    "gRrcUeContextList s = []" "gReadyRrcUeContextList s = []"
  shows "rlc_ok s" "mac_ok s" "mac_ready s" "rx_of s r k = (None, [])" "mac_grant s r = None"
proof -
  have h: "heap_ok s" using assms(1,2) by (simp add: heap_ok_def)
  then have "rrc_ok s" using assms by (simp add: rrc_ok_def)
  moreover have "receivers s = {}" by (simp add: receivers_def assms(4))
  ultimately show "rlc_ok s" using assms(4) by (simp add: rlc_ok_def rlc_tbl_def)
  show "mac_ok s" "mac_ready s" using h assms(1,3) by (simp_all add: mac_ok_def mac_ready_def)
  show "rx_of s r k = (None, [])" using assms(1) by (simp add: rx_of_def get_obj_def)
  show "mac_grant s r = None" using assms(3) by (simp add: mac_grant_def MacGetUeContext_def get_obj_def assms(1))
qed



section \<open>Ticks\<close>

text \<open>
  The events of some ticks: of the report task, one every \<open>gKpiNotifyCount\<close> ticks.
\<close>

fun tick_events :: "nat \<Rightarrow> ulp_tasks \<Rightarrow> ulp_tasks \<times> nat \<times> nat \<times> nat" where
  "tick_events 0 t = (t, 0, 0, 0)"
| "tick_events (Suc n) t = (case UlpOneMilliSecondIsr t of (t, w, c, k) \<Rightarrow>
     (case tick_events n t of (t, a, b, d) \<Rightarrow> (t, a + of_bool w, b + of_bool c, d + of_bool k)))"

lemma ticks_run:
  assumes "0 \<le> kpi_count t" "kpi_count t < gKpiNotifyCount t"
  shows "\<exists>t'. tick_events n t = (t', (if gUlpWorkerInitilized t then n else 0), (if gIntializedFlag t then n else 0),
      nat ((kpi_count t + int n) div gKpiNotifyCount t)) \<and>
    t' = t\<lparr>kpi_count := (kpi_count t + int n) mod gKpiNotifyCount t\<rparr>"
  using assms
proof (induction n arbitrary: t)
  case (Suc n)
  let ?p = "gKpiNotifyCount t"
  show ?case
  proof (cases "kpi_count t + 1 = ?p")
    case True
    then have e: "kpi_count t + int (Suc n) = int n + ?p" by simp
    have "(kpi_count t + int (Suc n)) div ?p = int n div ?p + 1" "(kpi_count t + int (Suc n)) mod ?p = int n mod ?p"
      unfolding e using Suc.prems by (simp_all add: div_add_self2)
    then show ?thesis using Suc.IH [of "t\<lparr>kpi_count := 0\<rparr>"] Suc.prems True
      by (simp add: UlpOneMilliSecondIsr_def NotifyKpi_def nat_add_distrib pos_imp_zdiv_nonneg_iff)
  next
    case False
    then show ?thesis using Suc.IH [of "t\<lparr>kpi_count := kpi_count t + 1\<rparr>"] Suc.prems
      by (simp add: UlpOneMilliSecondIsr_def NotifyKpi_def algebra_simps)
  qed
qed simp

section \<open>The report\<close>

definition KpiRefresh :: "ulp_state \<Rightarrow> ulp_state" where
  "KpiRefresh s = kpi (\<lambda>k. k\<lparr>k_mem := MemGetNumMemBlock (us_mem s) - MemGetAvailableMemBlock (us_mem s),
     k_activeRlcCtx := of_nat (RlcGetUeContextCount s), k_activeRrcCtx := of_nat (RrcGetUeContextCount s)\<rparr>) s"

text \<open>The conversions \<open>%10d\<close> and the like: signed numbers, filled up with blanks.\<close>

definition pad_num :: "nat \<Rightarrow> int \<Rightarrow> string" where
  "pad_num w i = (let t = (if i < 0 then CHR ''-'' # dec (nat (- i)) else dec (nat i)) in replicate (w - length t) CHR '' '' @ t)"

abbreviation (input) NL :: char where "NL \<equiv> CHR 0x0A"

definition kpi_row :: "string \<Rightarrow> u32 \<Rightarrow> u32 \<Rightarrow> string" where
  "kpi_row name a b = name @ pad_num 10 (sint a) @ ''  '' @ pad_num 8 (sint (a - b)) @ [NL]"

definition rb_rows :: "string \<Rightarrow> (nat \<Rightarrow> u32) \<Rightarrow> (nat \<Rightarrow> u32) \<Rightarrow> string" where
  "rb_rows name a b = concat (map (\<lambda>i. if a i > 0
     then name @ '' RB '' @ fmt_int 2 (int i + 1) @ ''  '' @ pad_num 5 (sint (a i)) @ ''  '' @ pad_num 3 (sint (a i - b i)) @ [NL] else []) [0..<19])"

definition pool_rows :: "mempool \<Rightarrow> string" where
  "pool_rows m = concat (map (\<lambda>i. pad_num 8 (sint (pc_size (mp_cfg m ! i))) @ ''  '' @ pad_num 5 (sint (pc_num (mp_cfg m ! i))) @ ''  '' @
     pad_num 4 (sint (pc_num (mp_cfg m ! i) - of_nat (length (mp_pools m ! i)))) @ [NL]) [0..<10])"

text \<open>The rows that are always there.\<close>

definition kpi_rows :: "(string \<times> (LteKpi \<Rightarrow> u32)) list" where
  "kpi_rows =
    [(''IMSI            '', k_imsi),
     (''M-TMSI          '', k_mTmsi),
     (''Identity Resp   '', k_idResp),
     (''RRC Setup Compl '', k_rrcSetupCompl),
     (''RRC Conn Req    '', k_rrcConnReq),
     (''Attach Request  '', k_attachReq),
     (''TAU Request     '', k_tauReq),
     (''Service Req     '', k_servReq),
     (''Ext Service Req '', k_extServReq),
     (''Detach Request  '', k_detachReq),
     (''LcId0           '', (\<lambda>k. k_lcIdArray k 0)),
     (''LcId1           '', (\<lambda>k. k_lcIdArray k 1)),
     (''LcId2           '', (\<lambda>k. k_lcIdArray k 2)),
     (''LcId3           '', (\<lambda>k. k_lcIdArray k 3)),
     (''LcId4           '', (\<lambda>k. k_lcIdArray k 4))]"

text \<open>The last counters of the rows of active contexts are those the code prints.\<close>

definition kpi_text :: "string \<Rightarrow> LteKpiConfig \<Rightarrow> LteKpi \<Rightarrow> LteKpi \<Rightarrow> mempool \<Rightarrow> string" where
  "kpi_text date c k p m =
     ''Date: '' @ date @ [NL] @
     ''Name            Accumulate  Delta('' @ pad_num 0 (sint (kc_reportFilePeriod c div 1000)) @ ''s)'' @ [NL] @
     ''--------------------------------------'' @ [NL] @
     concat (map (\<lambda>(name, f). kpi_row name (f k) (f p)) kpi_rows) @
     (if kc_reportDebugInfoFlag c \<noteq> 0 then
        kpi_row ''Active Rlc Ctx  '' (k_activeRlcCtx k) (k_activeRlcCtx p) @
        ''Active Rrc Ctx  '' @ pad_num 10 (sint (k_activeRlcCtx k)) @ ''  '' @ pad_num 8 (sint (k_activeRlcCtx k - k_activeRrcCtx p)) @ [NL] @
        kpi_row ''Mem Used        '' (k_mem k) (k_mem p) @
        kpi_row ''Crc Correct     '' (k_crcCorrect k) (k_crcCorrect p) @
        kpi_row ''Crc Error       '' (k_crcError k) (k_crcError p)
      else []) @
     kpi_row ''Heartbeat       '' (k_heartbeatResp k) (k_heartbeatResp p) @
     ''----------------------------'' @ [NL] @
     rb_rows ''RRC Setup Compl'' (k_rrcSetupComplRbNum k) (k_rrcSetupComplRbNum p) @
     rb_rows ''Identity Resp  '' (k_idRespRbNum k) (k_idRespRbNum p) @
     ''----------------------------'' @ [NL] @
     (if kc_reportDebugInfoFlag c \<noteq> 0 then
        [NL] @ ''Detail Mempool Usage'' @ [NL] @ ''-----------------------'' @ [NL] @ ''Mem Size  Total  Used'' @ [NL] @ pool_rows m
      else [])"

text \<open>The line for the detail file.\<close>

definition kpi_detail :: "LteKpi \<Rightarrow> string" where
  "kpi_detail k = concat (map (\<lambda>a. pad_num 8 (sint a) @ ''; '')
     ([k_imsi k, k_mTmsi k, k_idResp k, k_rrcSetupCompl k, k_attachReq k, k_tauReq k, k_servReq k, k_extServReq k, k_detachReq k] @
      map (k_lcIdArray k) [0..<5])) @ [NL]"

text \<open>
  Both texts are made in one array of 10240 characters, whose end must not be passed. The answers: what
  the open files get, and the counters the next report is compared with.
\<close>

definition ReportKpiToFile ::
  "bool \<Rightarrow> bool \<Rightarrow> string \<Rightarrow> LteKpiConfig \<Rightarrow> mempool \<Rightarrow> LteKpi \<Rightarrow> LteKpi \<Rightarrow> (string option \<times> string option \<times> LteKpi) option" where
  "ReportKpiToFile kpi_open detail_open date c m k prev =
     (if length (kpi_text date c k prev m) < 10240 \<and> length (kpi_detail k) < 10240
      then Some (if kpi_open then Some (kpi_text date c k prev m) else None, if detail_open then Some (kpi_detail k) else None, k)
      else None)"

text \<open>The report fits: numbers have at most eleven characters, so no line is longer than 49.\<close>

lemma pad_num_length: "length (pad_num w (sint (a :: u32))) \<le> max w 11"
proof -
  have "- (2 ^ 31) \<le> sint a" "sint a < 2 ^ 31" using sint_ge [of a] sint_lt [of a] by simp_all
  then have "nat (- sint a) < 10 ^ 10" "nat (sint a) < 10 ^ 10" by simp_all
  then have "length (dec (nat (- sint a))) \<le> 10" "length (dec (nat (sint a))) \<le> 10" by (simp_all add: dec_length)
  then show ?thesis by (simp add: pad_num_def Let_def max_def) arith
qed

lemma kpi_row_length: "length name = 16 \<Longrightarrow> length (kpi_row name a b) \<le> 41"
  using pad_num_length [of 10 a] pad_num_length [of 8 "a - b"] by (simp add: kpi_row_def)

lemma concat_length_le: "(\<And>x. x \<in> set xs \<Longrightarrow> length (f x) \<le> n) \<Longrightarrow> length (concat (map f xs)) \<le> n * length xs"
proof (induction xs)
  case (Cons x xs)
  then show ?case using Cons.prems [of x] by fastforce
qed simp

lemma rb_rows_length:
  assumes "length name = 15"
  shows "length (rb_rows name a b) \<le> 931"
proof -
  have "length (rb_rows name a b) \<le> 49 * length [0..<19]"
    unfolding rb_rows_def
  proof (rule concat_length_le)
    fix i :: nat assume "i \<in> set [0..<19]"
    then have "length (fmt_int 2 (int i + 1)) = 2" by (intro fmt_int_length) simp_all
    then show "length (if a i > 0 then name @ '' RB '' @ fmt_int 2 (int i + 1) @ ''  '' @ pad_num 5 (sint (a i)) @ ''  '' @
        pad_num 3 (sint (a i - b i)) @ [NL] else []) \<le> 49"
      using assms pad_num_length [of 5 "a i"] pad_num_length [of 3 "a i - b i"] by simp
  qed
  then show ?thesis by simp
qed

lemma pool_rows_length: "length (pool_rows m) \<le> 380"
proof -
  have "length (pool_rows m) \<le> 38 * length [0..<10]"
    unfolding pool_rows_def
  proof (rule concat_length_le)
    fix i :: nat
    show "length (pad_num 8 (sint (pc_size (mp_cfg m ! i))) @ ''  '' @ pad_num 5 (sint (pc_num (mp_cfg m ! i))) @ ''  '' @
        pad_num 4 (sint (pc_num (mp_cfg m ! i) - of_nat (length (mp_pools m ! i)))) @ [NL]) \<le> 38"
      using pad_num_length [of 8 "pc_size (mp_cfg m ! i)"] pad_num_length [of 5 "pc_num (mp_cfg m ! i)"]
        pad_num_length [of 4 "pc_num (mp_cfg m ! i) - of_nat (length (mp_pools m ! i))"] by simp
  qed
  then show ?thesis by simp
qed

lemma kpi_rows_length: "length (concat (map (\<lambda>(name, f). kpi_row name (f k) (f p)) kpi_rows)) \<le> 615"
proof -
  have "length (concat (map (\<lambda>(name, f). kpi_row name (f k) (f p)) kpi_rows)) \<le> 41 * length kpi_rows"
  proof (rule concat_length_le)
    fix x assume x: "x \<in> set kpi_rows"
    obtain name f where n: "x = (name, f)" by (cases x)
    have "length name = 16" using x by (auto simp: n kpi_rows_def)
    then show "length (case x of (name, f) \<Rightarrow> kpi_row name (f k) (f p)) \<le> 41" by (simp add: n kpi_row_length)
  qed
  then show ?thesis by (simp add: kpi_rows_def)
qed

lemma kpi_text_length:
  assumes "length date \<le> 80"
  shows "length (kpi_text date c k p m) \<le> 4096"
  using assms kpi_rows_length [of k p] pool_rows_length [of m]
    rb_rows_length [of "''RRC Setup Compl''" "k_rrcSetupComplRbNum k" "k_rrcSetupComplRbNum p"]
    rb_rows_length [of "''Identity Resp  ''" "k_idRespRbNum k" "k_idRespRbNum p"]
    kpi_row_length [of "''Active Rlc Ctx  ''" "k_activeRlcCtx k" "k_activeRlcCtx p"]
    kpi_row_length [of "''Mem Used        ''" "k_mem k" "k_mem p"]
    kpi_row_length [of "''Crc Correct     ''" "k_crcCorrect k" "k_crcCorrect p"]
    kpi_row_length [of "''Crc Error       ''" "k_crcError k" "k_crcError p"]
    kpi_row_length [of "''Heartbeat       ''" "k_heartbeatResp k" "k_heartbeatResp p"]
    pad_num_length [of 0 "kc_reportFilePeriod c div 1000"] pad_num_length [of 10 "k_activeRlcCtx k"]
    pad_num_length [of 8 "k_activeRlcCtx k - k_activeRrcCtx p"]
  by (simp add: kpi_text_def)

lemma kpi_detail_length: "length (kpi_detail k) \<le> 183"
proof -
  let ?xs = "[k_imsi k, k_mTmsi k, k_idResp k, k_rrcSetupCompl k, k_attachReq k, k_tauReq k, k_servReq k, k_extServReq k, k_detachReq k] @
      map (k_lcIdArray k) [0..<5]"
  have "length (concat (map (\<lambda>a. pad_num 8 (sint a) @ ''; '') ?xs)) \<le> 13 * length ?xs"
    by (rule concat_length_le) (simp add: pad_num_length [of 8, simplified])
  then show ?thesis by (simp add: kpi_detail_def)
qed

text \<open>
  The report is always defined, whatever the counters, and the next one is compared with the counters of
  this one. The date is made of six numbers of at most eleven characters and five separators.
\<close>

lemma kpi_report_fits:
  "length date \<le> 80 \<Longrightarrow> \<exists>out. ReportKpiToFile f d date c m k prev = Some out \<and> snd (snd out) = k"
  using kpi_text_length [of date c k prev m] kpi_detail_length [of k] by (simp add: ReportKpiToFile_def)

end
