(* ===== verification/Target_Report.thy ===== *)
theory Target_Report
  imports Ulp_State
begin

text \<open>
  The reports of established UEs (\<open>ulp/src/target.c\<close>), which the build option
  \<open>TARGET_LOCATION\<close> adds: the layers put entries into one datagram, under a lock, and the
  worker sends it once per period. The flag \<open>e\<close> says whether the build converts the byte
  order (\<open>ENDIAN_CONVERT\<close>).
\<close>

section \<open>The code\<close>

abbreviation (input) MAX_NUM_UE_INFO_REPORT :: nat where "MAX_NUM_UE_INFO_REPORT \<equiv> 32"
abbreviation (input) sizeof_LteUlpDataInd :: nat where "sizeof_LteUlpDataInd \<equiv> 904"
abbreviation (input) sizeof_UeEstablishInfo :: u16 where "sizeof_UeEstablishInfo \<equiv> 16"

definition CONVERT_INT16_ENDIAN :: "bool \<Rightarrow> u16 \<Rightarrow> u16" where
  "CONVERT_INT16_ENDIAN e v = (if e then push_bit 8 (v AND 0x00FF) OR drop_bit 8 (v AND 0xFF00) else v)"

definition CONVERT_INT32_ENDIAN :: "bool \<Rightarrow> u32 \<Rightarrow> u32" where
  "CONVERT_INT32_ENDIAN e v = (if e then drop_bit 24 (v AND 0xFF000000) OR drop_bit 8 (v AND 0x00FF0000) OR
     push_bit 8 (v AND 0x0000FF00) OR push_bit 24 (v AND 0xFF) else v)"

record UeEstablishInfo =
  ei_prbPower :: u32
  ei_rnti :: u16
  ei_ta :: u16

text \<open>
  The datagram: its head, the number of entries and the entries (their timestamps are never written).
\<close>

record establish_ind =
  ti_msgType :: u16
  ti_length :: u16
  ti_count :: u32
  ti_array :: "nat \<Rightarrow> UeEstablishInfo"

definition TgtInit :: "bool \<Rightarrow> establish_ind" where
  "TgtInit e = \<lparr>ti_msgType = CONVERT_INT16_ENDIAN e 0xA0, ti_length = 8, ti_count = 0,
     ti_array = (\<lambda>_. \<lparr>ei_prbPower = 0, ei_rnti = 0, ei_ta = 0\<rparr>)\<rparr>"

definition TgtProcessUeEstablishInfo :: "bool \<Rightarrow> u16 \<Rightarrow> UlReportInfoList option \<Rightarrow> establish_ind \<Rightarrow> establish_ind" where
  "TgtProcessUeEstablishInfo e rnti pUlRptInfoList s = (case pUlRptInfoList of
     None \<Rightarrow> s
   | Some l \<Rightarrow>
       if ur_count l = 0 then s
       else if ti_count s \<ge> of_nat MAX_NUM_UE_INFO_REPORT then s
       else let u = ur_info l (unat (ur_count l) - 1) in
         s\<lparr>ti_array := (ti_array s)(unat (ti_count s) :=
             \<lparr>ei_prbPower = CONVERT_INT32_ENDIAN e (ur_prbPower u), ei_rnti = CONVERT_INT16_ENDIAN e rnti,
              ei_ta = CONVERT_INT16_ENDIAN e (ur_ta u)\<rparr>),
           ti_count := ti_count s + 1, ti_length := ti_length s + sizeof_UeEstablishInfo\<rparr>)"

text \<open>
  The number of bytes to send is read after it has been converted; bytes behind the structure must not
  be sent.
\<close>

definition TgtSendUeEstablishInd :: "bool \<Rightarrow> bool \<Rightarrow> establish_ind \<Rightarrow> (establish_ind option \<times> establish_ind) option" where
  "TgtSendUeEstablishInd e sock s =
     (if \<not> sock then Some (None, s)
      else if ti_count s > 0 then do {
        d \<leftarrow> Some (s\<lparr>ti_count := CONVERT_INT32_ENDIAN e (ti_count s), ti_length := CONVERT_INT16_ENDIAN e (ti_length s)\<rparr>);
        ensure (unat (ti_length d) \<le> sizeof_LteUlpDataInd);
        Some (Some d, d\<lparr>ti_length := 8, ti_count := 0\<rparr>) }
      else Some (None, s))"

section \<open>Entries are sent once\<close>

datatype tgt_op = Tgt_Info u16 "UlReportInfoList option" | Tgt_Send bool

fun tgt_run :: "bool \<Rightarrow> tgt_op list \<Rightarrow> establish_ind \<Rightarrow> (establish_ind list \<times> establish_ind) option" where
  "tgt_run e [] s = Some ([], s)"
| "tgt_run e (Tgt_Info rnti l # ops) s = tgt_run e ops (TgtProcessUeEstablishInfo e rnti l s)"
| "tgt_run e (Tgt_Send sock # ops) s = do {
     (d, s) \<leftarrow> TgtSendUeEstablishInd e sock s;
     (ds, s) \<leftarrow> tgt_run e ops s;
     Some ((case d of None \<Rightarrow> [] | Some d \<Rightarrow> [d]) @ ds, s) }"

text \<open>What a datagram holds; and the specification: a list of waiting entries.\<close>

definition tgt_entries :: "establish_ind \<Rightarrow> UeEstablishInfo list" where
  "tgt_entries s = map (ti_array s) [0..<unat (ti_count s)]"

definition tgt_ok :: "establish_ind \<Rightarrow> bool" where
  "tgt_ok s \<longleftrightarrow> ti_msgType s = 0xA0 \<and> ti_count s \<le> 32 \<and> unat (ti_length s) = 8 + 16 * unat (ti_count s)"

definition report_entry :: "u16 \<Rightarrow> UlReportInfoList \<Rightarrow> UeEstablishInfo" where
  "report_entry rnti l = (let u = ur_info l (unat (ur_count l) - 1) in
     \<lparr>ei_prbPower = ur_prbPower u, ei_rnti = rnti, ei_ta = ur_ta u\<rparr>)"

fun tgt_spec :: "tgt_op list \<Rightarrow> UeEstablishInfo list \<Rightarrow> UeEstablishInfo list list \<times> UeEstablishInfo list" where
  "tgt_spec [] xs = ([], xs)"
| "tgt_spec (Tgt_Info rnti l # ops) xs = tgt_spec ops (case l of None \<Rightarrow> xs
     | Some l \<Rightarrow> if ur_count l = 0 \<or> length xs \<ge> 32 then xs else xs @ [report_entry rnti l])"
| "tgt_spec (Tgt_Send sock # ops) xs =
     (if sock \<and> xs \<noteq> [] then case tgt_spec ops [] of (ds, ys) \<Rightarrow> (xs # ds, ys) else tgt_spec ops xs)"

lemma tgt_entries_length [simp]: "length (tgt_entries s) = unat (ti_count s)"
  by (simp add: tgt_entries_def)

lemma tgt_info_ok:
  assumes "tgt_ok s"
  shows "tgt_ok (TgtProcessUeEstablishInfo False rnti l s) \<and> tgt_entries (TgtProcessUeEstablishInfo False rnti l s) =
    (case l of None \<Rightarrow> tgt_entries s
     | Some l \<Rightarrow> if ur_count l = 0 \<or> length (tgt_entries s) \<ge> 32 then tgt_entries s else tgt_entries s @ [report_entry rnti l])"
proof (cases "\<exists>x. l = Some x \<and> ur_count x \<noteq> 0 \<and> ti_count s < 32")
  case True
  then have n: "unat (ti_count s) < 32" "unat (ti_count s + 1) = Suc (unat (ti_count s))"
    by (auto simp: word_less_nat_alt unat_word_ariths)
  have len: "unat (ti_length s + 16) = unat (ti_length s) + 16" using n(1) assms by (simp add: tgt_ok_def unat_word_ariths)
  show ?thesis
    using True assms n len
    by (auto simp: TgtProcessUeEstablishInfo_def tgt_ok_def tgt_entries_def report_entry_def CONVERT_INT16_ENDIAN_def CONVERT_INT32_ENDIAN_def
        Let_def word_le_nat_alt)
next
  case False
  have "length (tgt_entries s) \<ge> 32 \<longleftrightarrow> ti_count s \<ge> 32" by (simp add: word_le_nat_alt)
  then show ?thesis using False assms by (auto simp: TgtProcessUeEstablishInfo_def split: option.split)
qed

lemma tgt_send_ok:
  assumes "tgt_ok s"
  shows "\<exists>d t. TgtSendUeEstablishInd False sock s = Some (d, t) \<and> tgt_ok t \<and>
    (if sock \<and> tgt_entries s \<noteq> [] then \<exists>x. d = Some x \<and> tgt_ok x \<and> tgt_entries x = tgt_entries s \<and> tgt_entries t = []
     else d = None \<and> t = s)"
proof -
  have n: "unat (ti_count s) \<le> 32" using assms by (simp add: tgt_ok_def word_le_nat_alt)
  then have "unat (ti_length s) \<le> 904" using assms by (simp add: tgt_ok_def)
  moreover have "tgt_entries s \<noteq> [] \<longleftrightarrow> 0 < ti_count s" by (simp add: tgt_entries_def word_less_nat_alt)
  ultimately show ?thesis
    using assms by (simp add: TgtSendUeEstablishInd_def CONVERT_INT16_ENDIAN_def CONVERT_INT32_ENDIAN_def tgt_ok_def tgt_entries_def)
qed

text \<open>
  Without conversion the datagrams are those of the specification, whatever the order of reports and
  sends: entries are kept in order, at most 32 of them, and each is sent once.
\<close>

lemma tgt_run_refines:
  "tgt_ok s \<Longrightarrow> \<exists>ds t. tgt_run False ops s = Some (ds, t) \<and> tgt_ok t \<and> (\<forall>d\<in>set ds. tgt_ok d) \<and>
    tgt_spec ops (tgt_entries s) = (map tgt_entries ds, tgt_entries t)"
proof (induction ops arbitrary: s)
  case (Cons op ops)
  show ?case
  proof (cases op)
    case (Tgt_Info rnti l)
    then show ?thesis using Cons.IH [of "TgtProcessUeEstablishInfo False rnti l s"] tgt_info_ok [OF Cons.prems, of rnti l] by simp
  next
    case (Tgt_Send sock)
    obtain d t where t: "TgtSendUeEstablishInd False sock s = Some (d, t)" "tgt_ok t"
      "if sock \<and> tgt_entries s \<noteq> [] then \<exists>x. d = Some x \<and> tgt_ok x \<and> tgt_entries x = tgt_entries s \<and> tgt_entries t = [] else d = None \<and> t = s"
      using tgt_send_ok [OF Cons.prems, of sock] by blast
    obtain ds u where u: "tgt_run False ops t = Some (ds, u)" "tgt_ok u" "\<forall>d\<in>set ds. tgt_ok d"
      "tgt_spec ops (tgt_entries t) = (map tgt_entries ds, tgt_entries u)" using Cons.IH [OF t(2)] by blast
    show ?thesis
      using t u by (cases "sock \<and> tgt_entries s \<noteq> []") (auto simp: Tgt_Send)
  qed
qed simp

lemma tgt_init_ok: "tgt_ok (TgtInit False)" "tgt_entries (TgtInit False) = []"
  by (simp_all add: tgt_ok_def tgt_entries_def TgtInit_def CONVERT_INT16_ENDIAN_def)

text \<open>With conversion every send of an entry reads past the structure.\<close>

lemma swapped_length: "n \<le> 32 \<Longrightarrow> 904 < unat (CONVERT_INT16_ENDIAN True (of_nat (8 + 16 * n)))"
proof -
  assume "n \<le> 32"
  then have "n \<in> set [0..<33]" by simp
  moreover have "\<forall>n\<in>set [0..<33]. 904 < unat (CONVERT_INT16_ENDIAN True (of_nat (8 + 16 * n)))"
    by (simp add: upt_rec CONVERT_INT16_ENDIAN_def)
  ultimately show ?thesis by blast
qed

lemma tgt_send_overreads:
  assumes "0 < ti_count s" "ti_count s \<le> 32" "unat (ti_length s) = 8 + 16 * unat (ti_count s)"
  shows "TgtSendUeEstablishInd True True s = None"
proof -
  have "ti_length s = of_nat (8 + 16 * unat (ti_count s))" unfolding assms(3) [symmetric] by simp
  then have "904 < unat (CONVERT_INT16_ENDIAN True (ti_length s))"
    using swapped_length [of "unat (ti_count s)"] assms(2) by (simp add: word_le_nat_alt)
  then show ?thesis using assms(1) by (simp add: TgtSendUeEstablishInd_def)
qed

end
