(* ===== verification/Ulp_Programs.thy ===== *)
theory Ulp_Programs
  imports Lte_Config
begin

text \<open>
  The programs around the library: the options of \<open>ulp\<close> and its trigger
  (\<open>exe/ulp/src\<close>), and the tester that exchanges heartbeats with it
  (\<open>exe/hbt/src/hbt.c\<close>).
\<close>

section \<open>The program \<open>ulp\<close>\<close>

datatype main_args = Show_Usage | Show_Version | Run_Config "string option"

text \<open>The loop over the options behind the name of the program.\<close>

fun ulp_main :: "string list \<Rightarrow> string option \<Rightarrow> main_args" where
  "ulp_main [] configFileName = Run_Config configFileName"
| "ulp_main (opt # args) configFileName =
     (if IsStringEqual (Some opt) (Some ''-c'') then
        (case args of [] \<Rightarrow> Show_Usage | f # args \<Rightarrow> ulp_main args (Some f))
      else if IsStringEqual (Some opt) (Some ''-v'') then Show_Version
      else Show_Usage)"

text \<open>The trigger sleeps between two ticks; the product of two signed numbers must not overflow.\<close>

definition trigger_sleep :: "LteConfig \<Rightarrow> u32 option" where
  "trigger_sleep c = (let n = cf_pollingInterval c * 1000 in if - (2 ^ 31) \<le> n \<and> n < 2 ^ 31 then Some (of_int n) else None)"

text \<open>
  The comparison of strings is equality, so the last configuration file that is named is used.
\<close>

lemma same_from_nth: "same_from n s d \<longleftrightarrow> (\<forall>i<n. s ! i = d ! i)"
  by (induction n) (auto simp: less_Suc_eq)

lemma IsStringEqual_eq: "IsStringEqual (Some s) (Some d) \<longleftrightarrow> s = d"
  by (auto simp: IsStringEqual_def same_from_nth list_eq_iff_nth_eq)

lemma last_config_used:
  "ulp_main (concat (map (\<lambda>f. [''-c'', f]) fs)) c = Run_Config (if fs = [] then c else Some (last fs))"
  by (induction fs arbitrary: c) (simp_all add: IsStringEqual_eq)

lemma unknown_option: "opt \<noteq> ''-c'' \<Longrightarrow> opt \<noteq> ''-v'' \<Longrightarrow> ulp_main (opt # args) c = Show_Usage"
  by (simp add: IsStringEqual_eq)

text \<open>
  The period is allowed to be any positive number, but from 2147484 milliseconds on the sleeping
  time overflows.
\<close>

lemma trigger_overflow: "cf_pollingInterval c > 0 \<Longrightarrow> trigger_sleep c = None \<longleftrightarrow> cf_pollingInterval c \<ge> 2147484"
  by (auto simp: trigger_sleep_def Let_def)

section \<open>The heartbeat tester\<close>

record hbt =
  gMaxHeartbeatReqSend :: u32
  gNumHeartbeatResp :: u32
  gNumHeartbeatReq :: u32
  gUlpDisconnecTime :: u32

text \<open>
  A round, when the trigger has sent its event: the type of the datagram that has arrived, if one of at
  least four bytes has.  The answer says whether the tester goes on, which it does with a request.
\<close>

definition hbt_round :: "u16 option \<Rightarrow> hbt \<Rightarrow> bool \<times> hbt" where
  "hbt_round recvd s =
     (let s' = (if recvd = Some 0x81 then s\<lparr>gNumHeartbeatResp := gNumHeartbeatResp s + 1, gUlpDisconnecTime := 0\<rparr> else s) in
      if recvd = Some 0x81 \<and> gNumHeartbeatReq s \<ge> gMaxHeartbeatReqSend s then (False, s')
      else (True, s'\<lparr>gNumHeartbeatReq := gNumHeartbeatReq s' + 1, gUlpDisconnecTime := gUlpDisconnecTime s' + 3\<rparr>))"

fun hbt_rounds :: "u16 option list \<Rightarrow> hbt \<Rightarrow> bool \<times> hbt" where
  "hbt_rounds [] s = (True, s)"
| "hbt_rounds (r # rs) s = (case hbt_round r s of (go, s) \<Rightarrow> if go then hbt_rounds rs s else (False, s))"

text \<open>
  The tester goes on until it has sent as many requests as asked for and gets a response; as long as it
  goes on, it has sent one request per round, and the time without response is three seconds for every
  round since the last one.
\<close>

lemma hbt_goes_on:
  "hbt_rounds rs s = (True, t) \<Longrightarrow> gNumHeartbeatReq t = gNumHeartbeatReq s + of_nat (length rs) \<and>
    gMaxHeartbeatReqSend t = gMaxHeartbeatReqSend s"
  by (induction rs arbitrary: s) (auto simp: hbt_round_def Let_def split: if_splits)

lemma hbt_ends:
  "hbt_rounds rs s = (False, t) \<Longrightarrow> gNumHeartbeatReq t \<ge> gMaxHeartbeatReqSend t \<and>
    gMaxHeartbeatReqSend t = gMaxHeartbeatReqSend s \<and> gUlpDisconnecTime t = 0"
proof (induction rs arbitrary: s)
  case (Cons r rs)
  obtain go s' where round: "hbt_round r s = (go, s')" by (cases "hbt_round r s")
  have same: "gMaxHeartbeatReqSend s' = gMaxHeartbeatReqSend s"
    using round by (auto simp: hbt_round_def Let_def split: if_splits)
  show ?case
  proof (cases go)
    case True
    then have "hbt_rounds rs s' = (False, t)" using Cons.prems round by simp
    from Cons.IH [OF this] show ?thesis unfolding same by metis
  next
    case False
    then show ?thesis using Cons.prems round by (auto simp: hbt_round_def Let_def split: if_splits)
  qed
qed simp

lemma hbt_silent:
  "\<forall>r\<in>set rs. r \<noteq> Some 0x81 \<Longrightarrow> hbt_rounds rs s =
    (True, s\<lparr>gNumHeartbeatReq := gNumHeartbeatReq s + of_nat (length rs), gUlpDisconnecTime := gUlpDisconnecTime s + 3 * of_nat (length rs)\<rparr>)"
  by (induction rs arbitrary: s) (simp_all add: hbt_round_def algebra_simps)

end
