(* ===== verification/Spec2Isabelle.thy ===== *)
theory Spec2Isabelle
  imports Ulp_Prelude Queue_Interface Node_List Node_Queue Dci0 Sync_Event Alloc_Interface Mempool Asn1_Rrc Asn1_Nas
    Ulp_State Table_Interface Ue_Context Rrc Rrc_Safety Pdcp Rlc Rlc_Frame
    Rlc_Reassembly Rlc_Format Rlc_Decode Rlc_Packet Rlc_Tables Rlc_Refinement Res_Cleaner
    Mac_Pdu Mac_Scan Mac_Delivery Mac_Uplink Oam_Report Ulp_Worker Lte_Config
    Log_Text Async_Log Log_Ring Log_Queue Db_Access
    Rlc_Stream Uplink_Stream Ulp_System Target_Report Ulp_Programs
begin

text \<open>
  This development models the C programs of fsulp: the uplink packet decoder \<open>ulp\<close> with its
  libraries (directories \<open>ulp\<close>, \<open>cm\<close>, \<open>db\<close>), its main program
  (\<open>exe/ulp\<close>) and the heartbeat tester (\<open>exe/hbt\<close>).

  The program. A physical layer hands messages with transport blocks of an LTE cell to a worker, which
  queues copies of them (\<open>PhyUlDataInd\<close>). Once per period, driven by a clock tick, the
  worker empties the queue. The MAC takes the transport blocks apart, remembers the grant of the UE and
  passes SDUs to the RLC, or, for the common channel, to the RRC. The RLC reassembles the SDUs of every
  acknowledged mode bearer and delivers them through the PDCP to the RRC. The RRC decodes RRC and NAS
  messages, collects the identities of the UEs and counts what it sees. Then the worker reports known
  identities to the OAM and answers heartbeats. A cleaner deletes RLC contexts that have been idle, and
  a third task writes the counters to a file. All of them take their memory from fixed pools of blocks,
  chain it in intrusive lists and wake each other by events; the logger, the configuration and the login
  database stand beside them.

  Conventions. A function of the code is a function on explicit state, of type \<open>option\<close>
  where it can fail: \<open>None\<close> is undefined behaviour of the C program (a null, dangling or
  foreign pointer, an access out of bounds, a division by zero), never an ordinary error; error exits
  are ordinary results. Machine integers are words of their width, so arithmetic wraps as it does in C.
  A pointer is a natural number and 0 is the null pointer. The state of the layers is one record,
  \<open>ulp_state\<close> (Ulp_State): the pools (\<open>gMemPool\<close>), a heap of typed objects by
  the address of their block, the bit array of the ASN.1 parsers, the counters (\<open>gLteKpi\<close>),
  the lists \<open>gMacUeContext\<close>, \<open>gRlcUeContextList\<close>,
  \<open>gRrcUeContextList\<close>, \<open>gReadyRrcUeContextList\<close> and
  \<open>gRecvdPhyDataList\<close> as sequences of addresses, and a log of what passes the integration
  points of the unit tests, which the code does not have outside the tests. Sequences of addresses are
  justified by Node_List and Node_Queue, which prove that the linked structures implement them. A name
  keeps the spelling of the source; a part of a function that is a definition of its own (a loop, a
  guard) has a name in lower case.

  Basis.
  \<^item> Ulp_Prelude: integers, addresses, the option monad, hint collections
    (\<open>ub_simps\<close>, \<open>frame_simps\<close>, \<open>inv_intros\<close>), lemmas on lists
    and words.
  \<^item> Queue_Interface, Node_List (\<open>ulp/src/list.c\<close>), Node_Queue
    (\<open>cm/src/queue.c\<close>): locale \<open>node_fifo\<close>, pointer level models of both
    implementations, the representation of sequences, interpretations, and the equality of the two.
  \<^item> Sync_Event (\<open>ulp/src/sync.c\<close>, \<open>event.c\<close>): locks, and waiting and
    sending as a step relation of any number of threads, with invariants over the reachable states:
    mutual exclusion, no lost and no duplicated wakeup, and the deadlock after a failed signal.
  \<^item> Alloc_Interface, Mempool (\<open>ulp/src/mempool.c\<close>): locale \<open>allocator\<close>,
    the pools with their invariant, best fit, joining and removing bytes, and any run of a client.
  \<^item> Dci0 (\<open>ulp/src/dci0.c\<close>): uplink grants; coding and decoding are inverse, and
    where the indication value is not.

  Parsers.
  \<^item> Asn1_Bits, Asn1_Rrc, Asn1_Nas (\<open>ulp/src/asn1Lib.c\<close>, \<open>asn1.c\<close>): the
    bit array, the RRC messages, the NAS messages with all their information elements; what well formed
    messages are decoded to, and when reads stay in bounds.

  Layers.
  \<^item> Ulp_State, Table_Interface, Ue_Context: the shared state, ownership of blocks
    (\<open>own\<close>, \<open>buffer\<close>, \<open>spare\<close>), locale \<open>ue_table\<close>
    with interpretations for the MAC and the RRC: one context per RNTI.
  \<^item> Rrc, Rrc_Safety (\<open>ulp/src/lteRrc.c\<close>) and Pdcp (\<open>ltePdcp.c\<close>): the
    handlers, their safety, the consumption of buffers, and the way of an IMSI from the message to the
    context.
  \<^item> Rlc (\<open>ulp/src/lteRlc.c\<close>): the code. Rlc_Format: an encoder for PDUs, and
    decoding as its inverse. Rlc_Frame: what an operation changes outside the blocks it is about
    (\<open>eff\<close>, \<open>kept\<close>). Rlc_Decode, Rlc_Reassembly, Rlc_Packet: each step against
    an abstract receiver, which knows only bytes, numbers and grants. Rlc_Tables: contexts and receivers
    between packets. Rlc_Refinement: the whole packet refines the abstract receiver. Rlc_Stream: an
    abstract sender, whose SDUs the abstract receiver delivers.
  \<^item> Res_Cleaner (\<open>lteResCleaner.c\<close>): rounds of the cleaner.
  \<^item> Mac_Pdu (\<open>ulp/src/lteMac.c\<close>): the code. Mac_Scan: its loop ends and inverts an
    encoder of MAC PDUs. Mac_Delivery, Mac_Uplink: from the PHY message to the receiver of the bearer.

  System.
  \<^item> Ulp_Worker, Oam_Report (\<open>lteUlpWorker.c\<close>): the queue of PHY messages and the
    round for the OAM against a specification on identities and ages.
  \<^item> Uplink_Stream: the end-to-end statement. A batch of PHY messages goes through queue, MAC and
    RLC, and every bearer delivers exactly the SDUs that were sent on it.
  \<^item> Ulp_System (\<open>lteUlpMgr.c\<close>, \<open>lteKpi.c\<close>): the start of the layers
    establishes the invariants all the other theorems assume; the events of the ticks; the text of the
    reports and the room it needs.
  \<^item> Lte_Config (\<open>lteConfig.c\<close>, \<open>cm/src/loggerConfig.c\<close>): reading the
    configuration, over an argument for the vendored JSON parser.
  \<^item> Log_Text, Async_Log, Log_Ring, Log_Queue (\<open>cm/src/logger.c\<close>): the text of a line
    and the cached timestamp; the ring of buffers against a bounded sequence of chunks; the queue of
    nodes.
  \<^item> Db_Access (\<open>db/src/dbImpl.c\<close>): the login database over an argument for the
    answers of SQLite.
  \<^item> Target_Report (\<open>ulp/src/target.c\<close>) and Ulp_Programs (\<open>exe\<close>): the
    reports of established UEs, the options of the main program, its trigger, and the loop of the
    heartbeat tester.

  Build. The modelled configuration is the Linux build for the data processing engine:
  \<open>OS_LINUX\<close>, \<open>DPE\<close>, \<open>PHY_DEBUG\<close>,
  \<open>NOTIFY_CRNTI_ONLY\<close> and \<open>HEARTBEAT_DEBUG\<close> are on, with the structure sizes
  of a 64-bit machine; \<open>UNIT_TEST\<close>, \<open>ISSUE_DEBUG\<close>,
  \<open>ENDIAN_CONVERT\<close>, \<open>TARGET_LOCATION\<close> and \<open>MAC_PHY_INTF_NEW\<close> are
  off, except that Target_Report models \<open>target.c\<close> with and without conversion, and Dci0
  both duplex modes.

  Loops and bounds. Structural recursion stands for loops over lists and fixed counts. The loop over
  subheaders (\<open>mac_scan\<close>) is a \<open>while_option\<close>, which
  Mac_Scan shows to answer for every memory; the loop over transport
  blocks (\<open>mac_ul_pdus\<close>) has a measure, the number of blocks left, which the message gives
  in 8 bits. The loop of the worker over its queue is a \<open>partial_function (option)\<close>, and
  the theorems about it say that it answers. There is no fuel. The assumption
  \<open>memory_lasts\<close> of Uplink_Stream asks for the blocks a message needs when its turn comes,
  and \<open>spare\<close> for the two blocks the queue needs per message. The properties of the ring of
  log buffers hold for chunks of 160 to 16384 bytes, the values with which a line fits; six rounds of
  its thread drain it since there are six buffers. One round of the logging thread over the queue of
  nodes is one step.

  Tasks. Threads share the state only through the lists, the pools and the events. Their interleaving is
  modelled where it is the point (Sync_Event, runs of writers and the reader in Log_Ring and Log_Queue,
  runs of clients in Mempool); a handler of the layers is one step, as if the worker and the cleaner
  took turns.

  Not modelled. Code for the DSP and ARM targets (\<open>messaging.c\<close> and the branches of other
  files), whose platform library is not in the repository; \<open>lteLogger.c\<close>, which in this
  build only starts the logger; the wrappers of files, sockets and threads; the vendored
  \<open>cJSON.c\<close> (but for the access to items) and \<open>sqlite3.c\<close>; the C++ program
  \<open>dpe\<close>; the tests. Log statements of the layers are left out, but for those whose
  arguments read through a null pointer.
\<close>

end
